(* ===== verification/Pb_Prelude.thy ===== *)
theory Pb_Prelude
  imports Main "HOL-Library.Word" "HOL-Library.Monad_Syntax"
begin

unbundle bit_operations_syntax

text \<open>
  Shared vocabulary of the development: the C integer types of the target (a 64-bit
  little-endian platform, built with \<^verbatim>\<open>PB_FIELD_32BIT\<close> and \<^verbatim>\<open>PB_ENABLE_MALLOC\<close>),
  the named theorem collections, and the generic facts on words, bytes and lists
  that the components use.
\<close>

type_synonym byte = "8 word"
type_synonym u16 = "16 word"
type_synonym u32 = "32 word"
type_synonym u64 = "64 word"
type_synonym addr = "64 word"

named_theorems wire_simps \<open>evaluation of the wire-format primitives\<close>
named_theorems emit_intros \<open>composition rules of the emission calculus\<close>
named_theorems stream_simps \<open>stream projections\<close>

section \<open>Little-endian byte sequences\<close>

text \<open>The value of a little-endian byte sequence, and the \<open>n\<close> bytes of a value.\<close>

primrec le_val :: "byte list \<Rightarrow> nat" where
  "le_val [] = 0"
| "le_val (b # bs) = unat b + 256 * le_val bs"

primrec le_bytes :: "nat \<Rightarrow> nat \<Rightarrow> byte list" where
  "le_bytes 0 v = []"
| "le_bytes (Suc n) v = of_nat (v mod 256) # le_bytes n (v div 256)"

lemma length_le_bytes [simp]: "length (le_bytes n v) = n"
  by (induction n arbitrary: v) auto

lemma unat_of_nat_byte: "unat (of_nat (v mod 256) :: byte) = v mod 256"
  by (simp add: unat_of_nat take_bit_eq_mod)

lemma unat_lt_len: "unat (x :: 'a::len word) < 2 ^ LENGTH('a)"
  by (rule unsigned_less)

lemma unat_lt_256: "unat (b :: byte) < 256"
  using unat_lt_len [of b] by simp

lemma le_val_le_bytes: "le_val (le_bytes n v) = v mod 256 ^ n"
proof (induction n arbitrary: v)
  case (Suc n)
  have "v mod 256 ^ Suc n = 256 * (v div 256 mod 256 ^ n) + v mod 256"
    by (simp add: mod_mult2_eq)
  then show ?case by (simp add: Suc.IH unat_of_nat_byte)
qed simp

lemma le_bytes_le_val: "le_bytes (length bs) (le_val bs) = bs"
proof (induction bs)
  case (Cons b bs)
  have "(unat b + 256 * le_val bs) mod 256 = unat b"
    and "(unat b + 256 * le_val bs) div 256 = le_val bs"
    using unat_lt_256 [of b] by simp_all
  with Cons.IH show ?case by simp
qed simp

lemma le_val_less: "le_val bs < 256 ^ length bs"
proof (induction bs)
  case (Cons b bs)
  have "unat b + 256 * le_val bs < 256 + 256 * le_val bs"
    using unat_lt_256 [of b] by simp
  also have "\<dots> \<le> 256 * 256 ^ length bs"
    using Cons.IH by simp
  finally show ?case by simp
qed simp

lemma le_val_zero: "le_val bs = 0 \<longleftrightarrow> (\<forall>b\<in>set bs. b = 0)"
  by (induction bs) (auto simp: unat_eq_zero)

section \<open>Words\<close>

lemma unat_add_no_wrap:
  fixes a b :: "'a::len word"
  assumes "unat a + unat b < 2 ^ LENGTH('a)"
  shows "unat (a + b) = unat a + unat b"
  using assms by (simp add: unat_word_ariths)

lemma unat_of_nat_u64: "n < 2 ^ 64 \<Longrightarrow> unat (of_nat n :: u64) = n"
  by (simp add: unat_of_nat take_bit_nat_eq_self)

lemma unat_lt_u64: "unat (x :: u64) < 2 ^ 64"
  using unat_lt_len [of x] by simp

lemma unat_lt_u32: "unat (x :: u32) < 2 ^ 32"
  using unat_lt_len [of x] by simp

lemma ucast_u32_u64_unat: "unat (ucast (x :: u32) :: u64) = unat x"
  using unat_lt_u32 [of x] by (simp add: unsigned_ucast_eq take_bit_nat_eq_self)

lemma ucast_of_nat_length:
  assumes "n < 2 ^ 32"
  shows "ucast (of_nat n :: u64) = (of_nat n :: u32)" "ucast (of_nat n :: u32) = (of_nat n :: u64)"
  using assms
  by (simp_all add: word_unat_eq_iff unsigned_ucast_eq unat_of_nat take_bit_nat_eq_self)

lemma unat_drop_bit: "unat (drop_bit n (w :: 'a::len word)) = unat w div 2 ^ n"
proof -
  have "unat (drop_bit n w) = drop_bit n (take_bit LENGTH('a) (unat w))"
    by (rule unsigned_drop_bit_eq)
  also have "take_bit LENGTH('a) (unat w) = unat w"
    by (rule take_bit_nat_eq_self) (rule unsigned_less)
  finally show ?thesis by (simp only: drop_bit_eq_div)
qed

lemma unat_take_bit: "unat (take_bit n (w :: 'a::len word)) = unat w mod 2 ^ n"
  by (simp add: unsigned_take_bit_eq flip: take_bit_eq_mod)

text \<open>The masks of the wire format as bit operations.\<close>

lemma and_127: "(x :: 'a::len word) AND 127 = take_bit 7 x"
  by (simp add: take_bit_eq_mask mask_eq_exp_minus_1)

lemma and_255: "(x :: 'a::len word) AND 255 = take_bit 8 x"
  by (simp add: take_bit_eq_mask mask_eq_exp_minus_1)

lemma or_128: "(x :: byte) OR 128 = set_bit 7 x"
  by (simp add: set_bit_eq_or)

lemma and_128: "(x :: byte) AND 128 = 0 \<longleftrightarrow> \<not> bit x 7"
  using and_exp_eq_0_iff_not_bit [of x 7] by simp

lemma take_bit_step:
  "take_bit n v OR push_bit n (take_bit m (drop_bit n (v :: 'a::len word))) = take_bit (n + m) v"
  by (rule bit_word_eqI) (auto simp: bit_simps)

lemma small_iff_take_bit:
  fixes v :: "'a::len word"
  assumes "n < LENGTH('a)"
  shows "unat v < 2 ^ n \<longleftrightarrow> take_bit n v = v"
proof -
  have "take_bit n v = v \<longleftrightarrow> unat v mod 2 ^ n = unat v"
    by (metis unat_take_bit word_unat_eq_iff)
  then show ?thesis by (metis mod_less mod_less_divisor zero_less_numeral zero_less_power)
qed

lemma last_varint_byte:
  assumes "take_bit 7 w = (w :: u64)"
  shows "take_bit 7 (set_bit 7 (ucast (take_bit 7 w)) :: byte) = ucast w"
proof (rule bit_word_eqI)
  fix n assume "n < LENGTH(8)"
  have "bit w n \<longleftrightarrow> n < 7 \<and> bit w n"
    using arg_cong [OF assms, of "\<lambda>x. bit x n"] by (simp add: bit_take_bit_iff)
  then show "bit (take_bit 7 (set_bit 7 (ucast (take_bit 7 w)) :: byte)) n = bit (ucast w :: byte) n"
    using \<open>n < LENGTH(8)\<close> by (auto simp: bit_simps)
qed

section \<open>Lists\<close>

lemma take_append_length: "take (length xs) (xs @ ys) = xs"
  by simp

lemma map_nth_upt: "map (\<lambda>i. xs ! i) [0..<length xs] = xs"
  by (rule map_nth)

end
