(* ===== verification/C_Memory.thy ===== *)
theory C_Memory
  imports Pb_Prelude
begin

unbundle bit_operations_syntax

text \<open>
  The C memory that message structures live in: a flat store of bytes addressed by
  64-bit pointers, typed little-endian loads and stores on it (what a dereference of a
  \<^verbatim>\<open>uint32_t *\<close> or a \<^verbatim>\<open>void **\<close> does on the target), \<^verbatim>\<open>memcpy\<close> and \<^verbatim>\<open>memset\<close>, and
  the part of the allocator interface (\<^verbatim>\<open>realloc\<close>, \<^verbatim>\<open>free\<close>) that the decoder uses.
\<close>

type_synonym mem = "addr \<Rightarrow> byte"

section \<open>Byte ranges\<close>

definition in_range :: "addr \<Rightarrow> addr \<Rightarrow> nat \<Rightarrow> bool" where
  "in_range x a n \<longleftrightarrow> unat (x - a) < n"

definition load_bytes :: "mem \<Rightarrow> addr \<Rightarrow> nat \<Rightarrow> byte list" where
  "load_bytes m a n = map (\<lambda>i. m (a + of_nat i)) [0..<n]"

definition store_bytes :: "mem \<Rightarrow> addr \<Rightarrow> byte list \<Rightarrow> mem" where
  "store_bytes m a bs = (\<lambda>x. if in_range x a (length bs) then bs ! unat (x - a) else m x)"

definition memset_zero :: "mem \<Rightarrow> addr \<Rightarrow> nat \<Rightarrow> mem" where
  "memset_zero m a n = (\<lambda>x. if in_range x a n then 0 else m x)"

section \<open>Typed access\<close>

definition load8 :: "mem \<Rightarrow> addr \<Rightarrow> byte" where
  "load8 m a = m a"

definition load16 :: "mem \<Rightarrow> addr \<Rightarrow> u16" where
  "load16 m a = of_nat (le_val (load_bytes m a 2))"

definition load32 :: "mem \<Rightarrow> addr \<Rightarrow> u32" where
  "load32 m a = of_nat (le_val (load_bytes m a 4))"

definition load64 :: "mem \<Rightarrow> addr \<Rightarrow> u64" where
  "load64 m a = of_nat (le_val (load_bytes m a 8))"

definition store8 :: "mem \<Rightarrow> addr \<Rightarrow> byte \<Rightarrow> mem" where
  "store8 m a v = store_bytes m a [v]"

definition store16 :: "mem \<Rightarrow> addr \<Rightarrow> u16 \<Rightarrow> mem" where
  "store16 m a v = store_bytes m a (le_bytes 2 (unat v))"

definition store32 :: "mem \<Rightarrow> addr \<Rightarrow> u32 \<Rightarrow> mem" where
  "store32 m a v = store_bytes m a (le_bytes 4 (unat v))"

definition store64 :: "mem \<Rightarrow> addr \<Rightarrow> u64 \<Rightarrow> mem" where
  "store64 m a v = store_bytes m a (le_bytes 8 (unat v))"

text \<open>A \<^verbatim>\<open>bool\<close> object is one byte; storing a truth value stores 0 or 1.\<close>

definition store_bool :: "mem \<Rightarrow> addr \<Rightarrow> bool \<Rightarrow> mem" where
  "store_bool m a v = store8 m a (if v then 1 else 0)"

section \<open>The heap\<close>

text \<open>
  The state of a C execution: the store, the live allocations (address and size), a
  flag raised by a \<^verbatim>\<open>free\<close> or \<^verbatim>\<open>realloc\<close> of a pointer that is not the start of a live
  allocation, which the C standard leaves undefined, and the one local variable of the
  decoder whose address is taken, \<^verbatim>\<open>fixed_count_size\<close> of the innermost active
  \<^verbatim>\<open>pb_decode_noinit\<close>. Which address a new block gets, and whether the allocator runs out
  of memory, is decided by a placement function.
\<close>

record cstate =
  mem :: mem
  live :: "(addr \<times> nat) list"
  heap_ub :: bool
  fixed_count :: u32

type_synonym placement = "cstate \<Rightarrow> nat \<Rightarrow> addr option"

definition forget :: "addr \<Rightarrow> (addr \<times> nat) list \<Rightarrow> (addr \<times> nat) list" where
  "forget p bl = filter (\<lambda>(q, _). q \<noteq> p) bl"

definition c_free :: "cstate \<Rightarrow> addr \<Rightarrow> cstate" where
  "c_free st p =
     (if p = 0 then st
      else if p \<in> fst ` set (live st) then st\<lparr>live := forget p (live st)\<rparr>
      else st\<lparr>heap_ub := True\<rparr>)"

definition c_realloc :: "placement \<Rightarrow> cstate \<Rightarrow> addr \<Rightarrow> nat \<Rightarrow> addr \<times> cstate" where
  "c_realloc place st p n =
     (case place st n of
        None \<Rightarrow> (0, st)
      | Some a \<Rightarrow>
         (if p = 0 then (a, st\<lparr>live := (a, n) # live st\<rparr>)
          else (case map_of (live st) p of
                  Some k \<Rightarrow> (a, st\<lparr>mem := store_bytes (mem st) a (load_bytes (mem st) p (min k n)),
                                    live := (a, n) # forget p (live st)\<rparr>)
                | None \<Rightarrow> (a, st\<lparr>live := (a, n) # live st, heap_ub := True\<rparr>))))"

section \<open>Facts on loads and stores\<close>

lemma length_load_bytes [simp]: "length (load_bytes m a n) = n"
  by (simp add: load_bytes_def)

lemma nth_load_bytes [simp]: "i < n \<Longrightarrow> load_bytes m a n ! i = m (a + of_nat i)"
  by (simp add: load_bytes_def)

lemma load_bytes_0 [simp]: "load_bytes m a 0 = []"
  by (simp add: load_bytes_def)

lemma load_bytes_Suc: "load_bytes m a (Suc n) = m a # load_bytes m (a + 1) n"
proof (rule nth_equalityI)
  fix i assume "i < length (load_bytes m a (Suc n))"
  then show "load_bytes m a (Suc n) ! i = (m a # load_bytes m (a + 1) n) ! i"
    by (cases i) (simp_all add: algebra_simps)
qed simp

lemma load_bytes_add:
  "load_bytes m a (i + j) = load_bytes m a i @ load_bytes m (a + of_nat i) j"
proof (induction i arbitrary: a)
  case (Suc i)
  then show ?case by (simp add: load_bytes_Suc algebra_simps)
qed simp

lemma take_load_bytes: "k \<le> n \<Longrightarrow> take k (load_bytes m a n) = load_bytes m a k"
  by (simp add: load_bytes_def take_map)

lemma load_store_bytes_same:
  assumes "length bs \<le> 2 ^ 64"
  shows "load_bytes (store_bytes m a bs) a (length bs) = bs"
proof (rule nth_equalityI)
  fix i assume "i < length (load_bytes (store_bytes m a bs) a (length bs))"
  then have i: "i < length bs" by simp
  with assms have "unat (of_nat i :: u64) = i"
    by (simp add: unat_of_nat_u64)
  with i show "load_bytes (store_bytes m a bs) a (length bs) ! i = bs ! i"
    by (simp add: store_bytes_def in_range_def)
qed simp

lemma load_bytes_cong:
  "(\<And>i. i < n \<Longrightarrow> m (a + of_nat i) = m' (a + of_nat i)) \<Longrightarrow>
   load_bytes m a n = load_bytes m' a n"
  by (rule nth_equalityI) simp_all

lemma store_bytes_outside: "\<not> in_range x a (length bs) \<Longrightarrow> store_bytes m a bs x = m x"
  by (simp add: store_bytes_def)

lemma store_bytes_Nil [simp]: "store_bytes m a [] = m"
  by (simp add: store_bytes_def in_range_def fun_eq_iff)

lemma load32_store32 [simp]: "load32 (store32 m a v) a = v"
  using load_store_bytes_same [of "le_bytes 4 (unat v)" m a] unat_lt_u32 [of v]
  by (simp add: load32_def store32_def le_val_le_bytes)

lemma load64_store64 [simp]: "load64 (store64 m a v) a = v"
  using load_store_bytes_same [of "le_bytes 8 (unat v)" m a] unat_lt_u64 [of v]
  by (simp add: load64_def store64_def le_val_le_bytes)

lemma load16_store16 [simp]: "load16 (store16 m a v) a = v"
  using load_store_bytes_same [of "le_bytes 2 (unat v)" m a] unat_lt_len [of v]
  by (simp add: load16_def store16_def le_val_le_bytes)

lemma load8_store8 [simp]: "load8 (store8 m a v) a = v"
  by (simp add: load8_def store8_def store_bytes_def in_range_def)

end
