(* ===== verification/Pb_Types.thy ===== *)
theory Pb_Types
  imports C_Memory
begin

unbundle bit_operations_syntax

text \<open>
  The data of \<^verbatim>\<open>nanopb/pb.h\<close>: the field type byte and its three parts, the field
  descriptor \<^verbatim>\<open>pb_field_t\<close>, wire types, the layouts of \<^verbatim>\<open>pb_bytes_array_t\<close>,
  \<^verbatim>\<open>pb_callback_t\<close> and \<^verbatim>\<open>pb_extension_t\<close> on the target, and the error-message macros.
  A descriptor's \<^verbatim>\<open>ptr\<close> member is a pointer to a constant: nothing, the descriptor array
  of a submessage, or a default value; it is modelled as a tree, so a message type
  contains other message types but not itself.
\<close>

section \<open>The field type byte\<close>

definition PB_LTYPE_BOOL :: byte where "PB_LTYPE_BOOL = 0x00"
definition PB_LTYPE_VARINT :: byte where "PB_LTYPE_VARINT = 0x01"
definition PB_LTYPE_UVARINT :: byte where "PB_LTYPE_UVARINT = 0x02"
definition PB_LTYPE_SVARINT :: byte where "PB_LTYPE_SVARINT = 0x03"
definition PB_LTYPE_FIXED32 :: byte where "PB_LTYPE_FIXED32 = 0x04"
definition PB_LTYPE_FIXED64 :: byte where "PB_LTYPE_FIXED64 = 0x05"
definition PB_LTYPE_LAST_PACKABLE :: byte where "PB_LTYPE_LAST_PACKABLE = 0x05"
definition PB_LTYPE_BYTES :: byte where "PB_LTYPE_BYTES = 0x06"
definition PB_LTYPE_STRING :: byte where "PB_LTYPE_STRING = 0x07"
definition PB_LTYPE_SUBMESSAGE :: byte where "PB_LTYPE_SUBMESSAGE = 0x08"
definition PB_LTYPE_EXTENSION :: byte where "PB_LTYPE_EXTENSION = 0x09"
definition PB_LTYPE_FIXED_LENGTH_BYTES :: byte where "PB_LTYPE_FIXED_LENGTH_BYTES = 0x0A"
definition PB_LTYPES_COUNT :: byte where "PB_LTYPES_COUNT = 0x0B"
definition PB_LTYPE_MASK :: byte where "PB_LTYPE_MASK = 0x0F"

definition PB_HTYPE_REQUIRED :: byte where "PB_HTYPE_REQUIRED = 0x00"
definition PB_HTYPE_OPTIONAL :: byte where "PB_HTYPE_OPTIONAL = 0x10"
definition PB_HTYPE_REPEATED :: byte where "PB_HTYPE_REPEATED = 0x20"
definition PB_HTYPE_ONEOF :: byte where "PB_HTYPE_ONEOF = 0x30"
definition PB_HTYPE_MASK :: byte where "PB_HTYPE_MASK = 0x30"

definition PB_ATYPE_STATIC :: byte where "PB_ATYPE_STATIC = 0x00"
definition PB_ATYPE_POINTER :: byte where "PB_ATYPE_POINTER = 0x80"
definition PB_ATYPE_CALLBACK :: byte where "PB_ATYPE_CALLBACK = 0x40"
definition PB_ATYPE_MASK :: byte where "PB_ATYPE_MASK = 0xC0"

definition PB_ATYPE :: "byte \<Rightarrow> byte" where "PB_ATYPE x = x AND PB_ATYPE_MASK"
definition PB_HTYPE :: "byte \<Rightarrow> byte" where "PB_HTYPE x = x AND PB_HTYPE_MASK"
definition PB_LTYPE :: "byte \<Rightarrow> byte" where "PB_LTYPE x = x AND PB_LTYPE_MASK"

lemmas pb_ltype_defs =
  PB_LTYPE_BOOL_def PB_LTYPE_VARINT_def PB_LTYPE_UVARINT_def PB_LTYPE_SVARINT_def
  PB_LTYPE_FIXED32_def PB_LTYPE_FIXED64_def PB_LTYPE_LAST_PACKABLE_def PB_LTYPE_BYTES_def
  PB_LTYPE_STRING_def PB_LTYPE_SUBMESSAGE_def PB_LTYPE_EXTENSION_def
  PB_LTYPE_FIXED_LENGTH_BYTES_def PB_LTYPES_COUNT_def PB_LTYPE_MASK_def

lemmas pb_htype_defs =
  PB_HTYPE_REQUIRED_def PB_HTYPE_OPTIONAL_def PB_HTYPE_REPEATED_def PB_HTYPE_ONEOF_def
  PB_HTYPE_MASK_def

lemmas pb_atype_defs =
  PB_ATYPE_STATIC_def PB_ATYPE_POINTER_def PB_ATYPE_CALLBACK_def PB_ATYPE_MASK_def

lemmas pb_type_defs =
  pb_ltype_defs pb_htype_defs pb_atype_defs PB_ATYPE_def PB_HTYPE_def PB_LTYPE_def

section \<open>Descriptors\<close>

text \<open>\<^verbatim>\<open>pb_size_t\<close> is \<^verbatim>\<open>uint32_t\<close>, \<^verbatim>\<open>pb_ssize_t\<close> is \<^verbatim>\<open>int32_t\<close> (\<^verbatim>\<open>PB_FIELD_32BIT\<close>).\<close>

definition PB_SIZE_MAX :: u32 where "PB_SIZE_MAX = - 1"

datatype pb_field =
  Pb_field (tag: u32) (ftype: byte) (data_offset: u32) (size_offset: u32)
    (data_size: u32) (array_size: u32) (ptr: pb_ptr)
and pb_ptr =
    Ptr_NULL
  | Ptr_fields "pb_field list"
  | Ptr_default "byte list"

definition PB_LAST_FIELD :: pb_field where
  "PB_LAST_FIELD = Pb_field 0 0 0 0 0 0 Ptr_NULL"

text \<open>
  \<^verbatim>\<open>fields[i]\<close>. A descriptor array ends with \<^verbatim>\<open>PB_LAST_FIELD\<close>; a list without the
  terminator is read as if it stood there.
\<close>

definition field_at :: "pb_field list \<Rightarrow> nat \<Rightarrow> pb_field" where
  "field_at fs i = (if i < length fs then fs ! i else PB_LAST_FIELD)"

text \<open>The submessage descriptor array that a cast of \<^verbatim>\<open>ptr\<close> yields, if there is one.\<close>

definition submsg_fields :: "pb_field \<Rightarrow> pb_field list option" where
  "submsg_fields f = (case ptr f of Ptr_fields fs \<Rightarrow> Some fs | _ \<Rightarrow> None)"

text \<open>\<^verbatim>\<open>pb_wire_type_t\<close>, as the enumeration's integer values.\<close>

definition PB_WT_VARINT :: u32 where "PB_WT_VARINT = 0"
definition PB_WT_64BIT :: u32 where "PB_WT_64BIT = 1"
definition PB_WT_STRING :: u32 where "PB_WT_STRING = 2"
definition PB_WT_32BIT :: u32 where "PB_WT_32BIT = 5"

lemmas pb_wt_defs = PB_WT_VARINT_def PB_WT_64BIT_def PB_WT_STRING_def PB_WT_32BIT_def

definition PB_MAX_REQUIRED_FIELDS :: nat where "PB_MAX_REQUIRED_FIELDS = 64"

section \<open>Structure layouts on the target\<close>

text \<open>
  \<^verbatim>\<open>pb_bytes_array_t\<close>: the 4-byte size, then the bytes.
  \<^verbatim>\<open>pb_callback_t\<close>: the function pointer, then \<^verbatim>\<open>arg\<close>.
  \<^verbatim>\<open>pb_extension_t\<close>: \<^verbatim>\<open>type\<close>, \<^verbatim>\<open>dest\<close>, \<^verbatim>\<open>next\<close> (pointers) and the \<^verbatim>\<open>found\<close> flag.
\<close>

definition PB_BYTES_ARRAY_T_ALLOCSIZE :: "u32 \<Rightarrow> u64" where
  "PB_BYTES_ARRAY_T_ALLOCSIZE n = ucast n + 4"

definition bytes_array_size :: "mem \<Rightarrow> addr \<Rightarrow> u32" where
  "bytes_array_size m p = load32 m p"

definition bytes_array_bytes :: "addr \<Rightarrow> addr" where
  "bytes_array_bytes p = p + 4"

definition callback_func :: "mem \<Rightarrow> addr \<Rightarrow> addr" where
  "callback_func m p = load64 m p"

definition callback_arg :: "addr \<Rightarrow> addr" where
  "callback_arg p = p + 8"

definition extension_type :: "mem \<Rightarrow> addr \<Rightarrow> addr" where
  "extension_type m p = load64 m p"

definition extension_dest :: "addr \<Rightarrow> addr" where
  "extension_dest p = p + 8"

definition extension_next :: "mem \<Rightarrow> addr \<Rightarrow> addr" where
  "extension_next m p = load64 m (p + 16)"

definition extension_found :: "addr \<Rightarrow> addr" where
  "extension_found p = p + 24"

text \<open>
  \<^verbatim>\<open>pb_extension_type_t\<close>: the handlers (\<open>None\<close> for a null function pointer, which
  selects the default handler) and the descriptor in \<^verbatim>\<open>arg\<close>.
\<close>

datatype pb_extension_type =
  Pb_extension_type (ext_decode: "addr option") (ext_encode: "addr option") (ext_arg: pb_field)

section \<open>Error messages\<close>

text \<open>\<^verbatim>\<open>PB_SET_ERROR\<close> keeps the first message; \<^verbatim>\<open>PB_GET_ERROR\<close> always gives a string.\<close>

definition PB_SET_ERROR :: "string option \<Rightarrow> string \<Rightarrow> string option" where
  "PB_SET_ERROR errmsg msg = (case errmsg of Some e \<Rightarrow> Some e | None \<Rightarrow> Some msg)"

definition PB_GET_ERROR :: "string option \<Rightarrow> string" where
  "PB_GET_ERROR errmsg = (case errmsg of Some e \<Rightarrow> e | None \<Rightarrow> ''(none)'')"

section \<open>Facts\<close>

lemma field_at_Last [simp]: "length fs \<le> i \<Longrightarrow> field_at fs i = PB_LAST_FIELD"
  by (simp add: field_at_def)

lemma field_at_Cons [simp]:
  "field_at (f # fs) 0 = f" "field_at (f # fs) (Suc i) = field_at fs i"
  by (simp_all add: field_at_def)

lemma field_at_Nil [simp]: "field_at [] i = PB_LAST_FIELD"
  by (simp add: field_at_def)

lemma tag_LAST_FIELD [simp]: "tag PB_LAST_FIELD = 0"
  by (simp add: PB_LAST_FIELD_def)

text \<open>The three parts of a type byte determine it.\<close>

lemma pb_type_parts: "PB_ATYPE x OR PB_HTYPE x OR PB_LTYPE x = x"
proof -
  have "(255 :: byte) = - 1" by simp
  then have "x AND 255 = x" by (simp only: bit.conj_one_right)
  then show ?thesis by (simp add: pb_type_defs flip: bit.conj_disj_distrib)
qed

lemma PB_SET_ERROR_Some [simp]: "PB_SET_ERROR e msg \<noteq> None"
  by (simp add: PB_SET_ERROR_def split: option.splits)

end
