(* ===== verification/Pb_Common.thy ===== *)
theory Pb_Common
  imports Pb_Types
begin

unbundle bit_operations_syntax

text \<open>
  \<^verbatim>\<open>nanopb/pb_common.c\<close>: the iterator over the fields of a message structure. Its position
  is an index into the descriptor array; \<^verbatim>\<open>pData\<close> and \<^verbatim>\<open>pSize\<close> are the addresses of the
  field's value and of its count, presence flag or union selector. The decoder redirects
  \<^verbatim>\<open>pSize\<close> to a local counter for arrays of fixed length (\<open>Fixed_count\<close>).
  The lemmas relate the incremental address computation to a direct one and show that
  the search of \<^verbatim>\<open>pb_field_iter_find\<close> stops and finds a field exactly when there is one.
\<close>

datatype psize = Addr addr | Fixed_count

record pb_field_iter =
  start :: "pb_field list"
  pos :: nat
  required_field_index :: u32
  dest_struct :: addr
  pData :: addr
  pSize :: psize

abbreviation iter_field :: "pb_field_iter \<Rightarrow> pb_field" where
  "iter_field it \<equiv> field_at (start it) (pos it)"

definition pb_field_iter_begin :: "pb_field list \<Rightarrow> addr \<Rightarrow> bool \<times> pb_field_iter" where
  "pb_field_iter_begin fs dest =
     (let f = field_at fs 0;
          pd = dest + ucast (data_offset f)
      in (tag f \<noteq> 0,
          \<lparr>start = fs, pos = 0, required_field_index = 0, dest_struct = dest,
           pData = pd, pSize = Addr (pd + scast (size_offset f))\<rparr>))"

text \<open>The distance from the start of a field's data to its end in the structure.\<close>

definition prev_field_size :: "pb_field \<Rightarrow> u64" where
  "prev_field_size f =
     (if PB_ATYPE (ftype f) = PB_ATYPE_STATIC \<and> PB_HTYPE (ftype f) = PB_HTYPE_REPEATED
      then ucast (data_size f) * ucast (array_size f)
      else if PB_ATYPE (ftype f) = PB_ATYPE_POINTER then 8
      else ucast (data_size f))"

definition union_member :: "pb_field \<Rightarrow> pb_field \<Rightarrow> bool" where
  "union_member prev f \<longleftrightarrow>
     PB_HTYPE (ftype prev) = PB_HTYPE_ONEOF \<and> PB_HTYPE (ftype f) = PB_HTYPE_ONEOF \<and>
     data_offset f = PB_SIZE_MAX"

definition pb_field_iter_next :: "pb_field_iter \<Rightarrow> bool \<times> pb_field_iter" where
  "pb_field_iter_next it =
     (let prev = iter_field it in
      if tag prev = 0 then (False, it)
      else
        let it1 = it\<lparr>pos := Suc (pos it)\<rparr>; f = iter_field it1 in
        if tag f = 0 then (False, snd (pb_field_iter_begin (start it) (dest_struct it)))
        else if union_member prev f then (True, it1)
        else
          let it2 = (if PB_HTYPE (ftype prev) = PB_HTYPE_REQUIRED
                     then it1\<lparr>required_field_index := required_field_index it1 + 1\<rparr> else it1);
              pd = pData it + prev_field_size prev + ucast (data_offset f)
          in (True, it2\<lparr>pData := pd, pSize := Addr (pd + scast (size_offset f))\<rparr>))"

text \<open>
  The body of the \<^verbatim>\<open>do \<dots> while (iter->pos != start)\<close> loop of \<^verbatim>\<open>pb_field_iter_find\<close>,
  bounded by a number of rounds. The array is a ring for \<^verbatim>\<open>pb_field_iter_next\<close>, so one
  round per array entry is enough (shown below).
\<close>

fun iter_find_loop :: "nat \<Rightarrow> nat \<Rightarrow> (pb_field \<Rightarrow> bool) \<Rightarrow> pb_field_iter \<Rightarrow> bool \<times> pb_field_iter" where
  "iter_find_loop 0 st P it = (False, it)"
| "iter_find_loop (Suc n) st P it =
     (if P (iter_field it) then (True, it)
      else let it' = snd (pb_field_iter_next it)
           in if pos it' = st then (False, it') else iter_find_loop n st P it')"

definition pb_field_iter_find :: "pb_field_iter \<Rightarrow> u32 \<Rightarrow> bool \<times> pb_field_iter" where
  "pb_field_iter_find it t =
     iter_find_loop (Suc (length (start it))) (pos it)
       (\<lambda>f. tag f = t \<and> PB_LTYPE (ftype f) \<noteq> PB_LTYPE_EXTENSION) it"

section \<open>Loops over the fields of a message\<close>

text \<open>
  \<^verbatim>\<open>do { body } while (pb_field_iter_next(&iter));\<close> where the body may return early with
  false. The number of rounds is bounded by the length of the descriptor array, which
  \<^verbatim>\<open>pb_field_iter_next\<close> never exceeds before it wraps (shown below).
\<close>

fun iter_each ::
  "nat \<Rightarrow> (pb_field_iter \<Rightarrow> 's \<Rightarrow> (bool \<times> 's) option) \<Rightarrow> pb_field_iter \<Rightarrow> 's \<Rightarrow> (bool \<times> 's) option" where
  "iter_each 0 body it s = None"
| "iter_each (Suc n) body it s =
     (case body it s of
        None \<Rightarrow> None
      | Some (False, s') \<Rightarrow> Some (False, s')
      | Some (True, s') \<Rightarrow>
          (case pb_field_iter_next it of
             (True, it') \<Rightarrow> iter_each n body it' s'
           | (False, _) \<Rightarrow> Some (True, s')))"

section \<open>Where the iterator stands\<close>

text \<open>
  The number of proper entries of a descriptor array, and the iterator after \<open>i\<close> steps
  from the beginning, computed without stepping.
\<close>

primrec field_count :: "pb_field list \<Rightarrow> nat" where
  "field_count [] = 0"
| "field_count (f # fs) = (if tag f = 0 then 0 else Suc (field_count fs))"

fun data_addr :: "pb_field list \<Rightarrow> addr \<Rightarrow> nat \<Rightarrow> addr" where
  "data_addr fs d 0 = d + ucast (data_offset (field_at fs 0))"
| "data_addr fs d (Suc i) =
     (if union_member (field_at fs i) (field_at fs (Suc i)) then data_addr fs d i
      else data_addr fs d i + prev_field_size (field_at fs i)
             + ucast (data_offset (field_at fs (Suc i))))"

fun size_addr :: "pb_field list \<Rightarrow> addr \<Rightarrow> nat \<Rightarrow> addr" where
  "size_addr fs d 0 = data_addr fs d 0 + scast (size_offset (field_at fs 0))"
| "size_addr fs d (Suc i) =
     (if union_member (field_at fs i) (field_at fs (Suc i)) then size_addr fs d i
      else data_addr fs d (Suc i) + scast (size_offset (field_at fs (Suc i))))"

fun required_before :: "pb_field list \<Rightarrow> nat \<Rightarrow> nat" where
  "required_before fs 0 = 0"
| "required_before fs (Suc i) =
     required_before fs i + (if PB_HTYPE (ftype (field_at fs i)) = PB_HTYPE_REQUIRED then 1 else 0)"

definition iter_at :: "pb_field list \<Rightarrow> addr \<Rightarrow> nat \<Rightarrow> pb_field_iter" where
  "iter_at fs d i =
     \<lparr>start = fs, pos = i, required_field_index = of_nat (required_before fs i),
      dest_struct = d, pData = data_addr fs d i, pSize = Addr (size_addr fs d i)\<rparr>"

lemma iter_at_sel [simp]:
  "start (iter_at fs d i) = fs" "pos (iter_at fs d i) = i" "dest_struct (iter_at fs d i) = d"
  "pData (iter_at fs d i) = data_addr fs d i" "pSize (iter_at fs d i) = Addr (size_addr fs d i)"
  "required_field_index (iter_at fs d i) = of_nat (required_before fs i)"
  by (simp_all add: iter_at_def)

lemma field_count_le: "field_count fs \<le> length fs"
  by (induction fs) auto

lemma tag_before_count: "i < field_count fs \<Longrightarrow> tag (field_at fs i) \<noteq> 0"
proof (induction fs arbitrary: i)
  case (Cons f fs)
  then show ?case
    by (cases i) (auto split: if_splits)
qed simp

lemma tag_at_count: "tag (field_at fs (field_count fs)) = 0"
  by (induction fs) auto

lemma iter_begin: "pb_field_iter_begin fs d = (field_count fs \<noteq> 0, iter_at fs d 0)"
proof -
  have "tag (field_at fs 0) \<noteq> 0 \<longleftrightarrow> field_count fs \<noteq> 0"
    by (cases fs) auto
  then show ?thesis
    by (simp add: pb_field_iter_begin_def Let_def iter_at_def)
qed

lemma union_not_required:
  "union_member f g \<Longrightarrow> PB_HTYPE (ftype f) \<noteq> PB_HTYPE_REQUIRED"
  by (auto simp: union_member_def pb_htype_defs)

lemma iter_next:
  assumes "i < field_count fs"
  shows "pb_field_iter_next (iter_at fs d i) =
    (if Suc i < field_count fs then (True, iter_at fs d (Suc i)) else (False, iter_at fs d 0))"
proof (cases "Suc i < field_count fs")
  case True
  with assms show ?thesis
    using tag_before_count [OF assms] tag_before_count [OF True]
    by (auto simp: pb_field_iter_next_def Let_def iter_at_def algebra_simps
        dest: union_not_required)
next
  case False
  with assms have "Suc i = field_count fs" by simp
  then have "tag (field_at fs (Suc i)) = 0" using tag_at_count by metis
  with False show ?thesis
    using tag_before_count [OF assms] iter_begin [of fs d]
    by (simp add: pb_field_iter_next_def Let_def)
qed

lemma iter_next_empty:
  assumes "field_count fs = 0"
  shows "pb_field_iter_next (iter_at fs d 0) = (False, iter_at fs d 0)"
  using tag_at_count [of fs] assms by (simp add: pb_field_iter_next_def Let_def)

section \<open>The search goes once around the ring\<close>

lemma iter_next_mod:
  assumes "i < field_count fs"
  shows "snd (pb_field_iter_next (iter_at fs d i)) = iter_at fs d (Suc i mod field_count fs)"
proof (cases "Suc i = field_count fs")
  case True
  then show ?thesis using iter_next [OF assms, of d] by simp
next
  case False
  with assms show ?thesis using iter_next [OF assms, of d] by simp
qed

lemma iter_find_loop_ring:
  assumes "j < field_count fs" and "0 < k" and "k \<le> n"
    and "\<And>t. 0 < t \<Longrightarrow> t < k \<Longrightarrow> (j + t) mod field_count fs \<noteq> st"
    and "(j + k) mod field_count fs = st"
  shows "\<exists>b i. iter_find_loop n st P (iter_at fs d j) = (b, iter_at fs d i) \<and> i < field_count fs \<and>
    (b \<longleftrightarrow> (\<exists>t<k. P (field_at fs ((j + t) mod field_count fs)))) \<and>
    (b \<longrightarrow> P (field_at fs i)) \<and> (\<not> b \<longrightarrow> i = st)"
  using assms
proof (induction k arbitrary: j n)
  case (Suc k)
  let ?c = "field_count fs"
  have j: "(j + 0) mod ?c = j" using Suc.prems(1) by simp
  obtain n' where n: "n = Suc n'" "k \<le> n'" using Suc.prems(3) by (cases n) auto
  have nxt: "snd (pb_field_iter_next (iter_at fs d j)) = iter_at fs d (Suc j mod ?c)"
    by (rule iter_next_mod [OF Suc.prems(1)])
  show ?case
  proof (cases "P (field_at fs j)")
    case True
    then show ?thesis using n j Suc.prems(1)
      by (intro exI [of _ True] exI [of _ j]) auto
  next
    case False
    show ?thesis
    proof (cases "Suc j mod ?c = st")
      case True
      then have "k = 0" using Suc.prems(4) [of 1] by auto
      have lt: "Suc j mod ?c < ?c" using Suc.prems(1) by simp
      from True False nxt n show ?thesis
        using \<open>k = 0\<close> Suc.prems(1) lt
        by (intro exI [of _ False] exI [of _ st]) (simp add: Let_def)
    next
      case ne: False
      with Suc.prems(5) have k: "0 < k" by (cases k) auto
      let ?j = "Suc j mod ?c"
      have shift: "(?j + t) mod ?c = (j + Suc t) mod ?c" for t
        by (simp add: mod_add_left_eq)
      have j': "?j < ?c" using Suc.prems(1) by simp
      have mid: "(?j + t) mod ?c \<noteq> st" if "0 < t" "t < k" for t
        using Suc.prems(4) [of "Suc t"] that shift by simp
      have fin: "(?j + k) mod ?c = st" using Suc.prems(5) shift by simp
      from Suc.IH [OF j' k n(2) mid fin] obtain b i where
        res: "iter_find_loop n' st P (iter_at fs d ?j) = (b, iter_at fs d i)" and i: "i < ?c"
        and b: "b \<longleftrightarrow> (\<exists>t<k. P (field_at fs ((?j + t) mod ?c)))"
        and fin: "b \<longrightarrow> P (field_at fs i)" "\<not> b \<longrightarrow> i = st" by blast
      have "(\<exists>t<k. P (field_at fs ((j + Suc t) mod ?c))) \<longleftrightarrow>
            (\<exists>t<Suc k. P (field_at fs ((j + t) mod ?c)))"
        using False j by (auto simp: Ex_less_Suc2)
      with b have b': "b \<longleftrightarrow> (\<exists>t<Suc k. P (field_at fs ((j + t) mod ?c)))"
        by (simp only: shift)
      have "iter_find_loop n st P (iter_at fs d j) = (b, iter_at fs d i)"
        using res n ne nxt False by (simp add: Let_def)
      with i b' fin show ?thesis by blast
    qed
  qed
qed simp

lemma ring_covers:
  assumes "j < c" "i < (c::nat)"
  shows "\<exists>t<c. (j + t) mod c = i"
proof (cases "j \<le> i")
  case True
  with assms show ?thesis by (intro exI [of _ "i - j"]) auto
next
  case False
  with assms show ?thesis by (intro exI [of _ "c + i - j"]) auto
qed

lemma ring_period:
  assumes "j < c" "0 < t" "t < (c::nat)"
  shows "(j + t) mod c \<noteq> j"
proof (cases "j + t < c")
  case True
  with assms show ?thesis by simp
next
  case False
  with assms have "(j + t) mod c = j + t - c" by (simp add: le_mod_geq)
  with assms False show ?thesis by auto
qed

lemma iter_find_loop_spec:
  assumes "j < field_count fs"
  shows "\<exists>b i. iter_find_loop (Suc (length fs)) j P (iter_at fs d j) = (b, iter_at fs d i) \<and>
    i < field_count fs \<and> (b \<longleftrightarrow> (\<exists>i<field_count fs. P (field_at fs i))) \<and>
    (b \<longrightarrow> P (field_at fs i)) \<and> (\<not> b \<longrightarrow> i = j)"
proof -
  let ?c = "field_count fs"
  have c: "0 < ?c" "?c \<le> Suc (length fs)" using assms field_count_le [of fs] by auto
  have mid: "(j + t) mod ?c \<noteq> j" if "0 < t" "t < ?c" for t
    using ring_period [OF assms that] .
  have fin: "(j + ?c) mod ?c = j" using assms by simp
  have "(\<exists>t<?c. P (field_at fs ((j + t) mod ?c))) \<longleftrightarrow> (\<exists>i<?c. P (field_at fs i))"
    using ring_covers [OF assms] c(1) by (metis mod_less_divisor)
  with iter_find_loop_ring [OF assms c mid fin, of P d] show ?thesis by simp
qed

text \<open>
  Searching a message with at least one field: the search succeeds exactly when some field
  has the tag (and is not the extension placeholder), the iterator then stands on such a
  field with the addresses of that field, and otherwise it is back where it started.
\<close>

lemma iter_find:
  assumes "j < field_count fs"
  shows "\<exists>b i. pb_field_iter_find (iter_at fs d j) t = (b, iter_at fs d i) \<and> i < field_count fs \<and>
    (b \<longleftrightarrow> (\<exists>i<field_count fs. tag (field_at fs i) = t \<and>
                 PB_LTYPE (ftype (field_at fs i)) \<noteq> PB_LTYPE_EXTENSION)) \<and>
    (b \<longrightarrow> tag (field_at fs i) = t \<and> PB_LTYPE (ftype (field_at fs i)) \<noteq> PB_LTYPE_EXTENSION) \<and>
    (\<not> b \<longrightarrow> i = j)"
  using iter_find_loop_spec [OF assms, of "\<lambda>f. tag f = t \<and> PB_LTYPE (ftype f) \<noteq> PB_LTYPE_EXTENSION" d]
  by (simp add: pb_field_iter_find_def)

section \<open>Loops over all fields\<close>

lemma iter_each_defined:
  assumes "i < field_count fs" "field_count fs \<le> i + n"
    and "\<And>j s. j < field_count fs \<Longrightarrow> body (iter_at fs d j) s \<noteq> None"
  shows "iter_each n body (iter_at fs d i) s \<noteq> None"
  using assms(1,2)
proof (induction n arbitrary: i s)
  case (Suc n)
  obtain b s' where b: "body (iter_at fs d i) s = Some (b, s')"
    using assms(3) [OF Suc.prems(1), of s] by auto
  show ?case
  proof (cases "Suc i < field_count fs")
    case True
    then have "iter_each n body (iter_at fs d (Suc i)) s' \<noteq> None" using Suc by simp
    with True b show ?thesis
      by (cases b) (simp_all add: iter_next [OF Suc.prems(1)] del: not_None_eq)
  next
    case False
    with b show ?thesis by (cases b) (simp_all add: iter_next [OF Suc.prems(1)])
  qed
qed simp

lemma field_at_mem: "i < field_count fs \<Longrightarrow> field_at fs i \<in> set fs"
  using field_count_le [of fs] by (simp add: field_at_def)

section \<open>Nesting depth\<close>

text \<open>How deep message types are nested in a descriptor; the budgets of the recursive functions exceed it.\<close>

fun field_depth :: "pb_field \<Rightarrow> nat" where
  "field_depth (Pb_field t ty off so ds as p) =
     (case p of Ptr_fields fs \<Rightarrow> Suc (foldr max (map field_depth fs) 0) | _ \<Rightarrow> 0)"

definition msg_depth :: "pb_field list \<Rightarrow> nat" where
  "msg_depth fs = foldr max (map field_depth fs) 0"

lemma foldr_max_ge: "x \<in> set xs \<Longrightarrow> x \<le> foldr max xs (0::nat)"
  by (induction xs) auto

lemma field_depth_le: "f \<in> set fs \<Longrightarrow> field_depth f \<le> msg_depth fs"
  by (simp add: msg_depth_def foldr_max_ge)

end
