(* ===== verification/Pb_Ostream.thy ===== *)
theory Pb_Ostream
  imports Pb_Types
begin

unbundle bit_operations_syntax

text \<open>
  Output streams and the wire-format primitives of \<^verbatim>\<open>nanopb/pb_encode.c\<close>.
  A stream's callback receives the callback's own state and the bytes to write; a null
  callback makes a sizing stream. The state of a memory-buffer stream
  (\<^verbatim>\<open>pb_ostream_from_buffer\<close>) is the sequence of bytes stored so far, so its length is
  the distance of the C pointer \<^verbatim>\<open>stream->state\<close> from the start of the buffer.
\<close>

section \<open>Streams\<close>

type_synonym write_callback = "byte list \<Rightarrow> byte list \<Rightarrow> bool \<times> byte list"

record pb_ostream =
  callback :: "write_callback option"
  state :: "byte list"
  max_size :: u64
  bytes_written :: u64
  errmsg :: "string option"

definition buf_write :: write_callback where
  "buf_write st buf = (True, st @ buf)"

definition pb_ostream_from_buffer :: "u64 \<Rightarrow> pb_ostream" where
  "pb_ostream_from_buffer bufsize =
     \<lparr>callback = Some buf_write, state = [], max_size = bufsize, bytes_written = 0, errmsg = None\<rparr>"

definition PB_OSTREAM_SIZING :: pb_ostream where
  "PB_OSTREAM_SIZING =
     \<lparr>callback = None, state = [], max_size = 0, bytes_written = 0, errmsg = None\<rparr>"

definition ostream_error :: "pb_ostream \<Rightarrow> string \<Rightarrow> bool \<times> pb_ostream" where
  "ostream_error s msg = (False, s\<lparr>errmsg := PB_SET_ERROR (errmsg s) msg\<rparr>)"

definition pb_write :: "pb_ostream \<Rightarrow> byte list \<Rightarrow> u64 \<Rightarrow> bool \<times> pb_ostream" where
  "pb_write s buf count =
     (case callback s of
        Some cb \<Rightarrow>
          if 0 < count then
            if bytes_written s + count < bytes_written s \<or> max_size s < bytes_written s + count
            then ostream_error s ''stream full''
            else (case cb (state s) (take (unat count) buf) of
                    (ok, st) \<Rightarrow>
                      if \<not> ok then ostream_error (s\<lparr>state := st\<rparr>) ''io error''
                      else (True, s\<lparr>state := st, bytes_written := bytes_written s + count\<rparr>))
          else (True, s\<lparr>bytes_written := bytes_written s + count\<rparr>)
      | None \<Rightarrow> (True, s\<lparr>bytes_written := bytes_written s + count\<rparr>))"

section \<open>Wire-format primitives\<close>

text \<open>
  The byte loop of \<^verbatim>\<open>pb_encode_varint\<close>: every byte gets the continuation bit; the
  caller clears it in the last one.
\<close>

function varint_loop :: "u64 \<Rightarrow> byte list" where
  "varint_loop value =
     (if value = 0 then []
      else (ucast (value AND 0x7F) OR 0x80) # varint_loop (drop_bit 7 value))"
  by pat_completeness auto
termination
proof (relation "measure unat")
  fix v :: u64
  assume "v \<noteq> 0"
  then have "0 < unat v" by (simp add: unat_eq_zero flip: neq0_conv)
  then show "(drop_bit 7 v, v) \<in> measure unat"
    using unat_drop_bit [of 7 v] by simp
qed simp

declare varint_loop.simps [simp del]

definition clear_last :: "byte list \<Rightarrow> byte list" where
  "clear_last bs = butlast bs @ [last bs AND 0x7F]"

definition varint_bytes :: "u64 \<Rightarrow> byte list" where
  "varint_bytes value = (if value \<le> 0x7F then [ucast value] else clear_last (varint_loop value))"

definition pb_encode_varint :: "pb_ostream \<Rightarrow> u64 \<Rightarrow> bool \<times> pb_ostream" where
  "pb_encode_varint s value =
     (if value \<le> 0x7F then pb_write s [ucast value] 1
      else let buffer = clear_last (varint_loop value)
           in pb_write s buffer (of_nat (length buffer)))"

definition zigzag :: "u64 \<Rightarrow> u64" where
  "zigzag value = (if sint value < 0 then NOT (push_bit 1 value) else push_bit 1 value)"

definition pb_encode_svarint :: "pb_ostream \<Rightarrow> u64 \<Rightarrow> bool \<times> pb_ostream" where
  "pb_encode_svarint s value = pb_encode_varint s (zigzag value)"

definition fixed32_bytes :: "u32 \<Rightarrow> byte list" where
  "fixed32_bytes val =
     [ucast (val AND 0xFF), ucast (drop_bit 8 val AND 0xFF),
      ucast (drop_bit 16 val AND 0xFF), ucast (drop_bit 24 val AND 0xFF)]"

definition pb_encode_fixed32 :: "pb_ostream \<Rightarrow> u32 \<Rightarrow> bool \<times> pb_ostream" where
  "pb_encode_fixed32 s val = pb_write s (fixed32_bytes val) 4"

definition fixed64_bytes :: "u64 \<Rightarrow> byte list" where
  "fixed64_bytes val =
     [ucast (val AND 0xFF), ucast (drop_bit 8 val AND 0xFF),
      ucast (drop_bit 16 val AND 0xFF), ucast (drop_bit 24 val AND 0xFF),
      ucast (drop_bit 32 val AND 0xFF), ucast (drop_bit 40 val AND 0xFF),
      ucast (drop_bit 48 val AND 0xFF), ucast (drop_bit 56 val AND 0xFF)]"

definition pb_encode_fixed64 :: "pb_ostream \<Rightarrow> u64 \<Rightarrow> bool \<times> pb_ostream" where
  "pb_encode_fixed64 s val = pb_write s (fixed64_bytes val) 8"

definition tag_word :: "u32 \<Rightarrow> u32 \<Rightarrow> u64" where
  "tag_word wiretype field_number = push_bit 3 (ucast field_number) OR ucast wiretype"

definition pb_encode_tag :: "pb_ostream \<Rightarrow> u32 \<Rightarrow> u32 \<Rightarrow> bool \<times> pb_ostream" where
  "pb_encode_tag s wiretype field_number = pb_encode_varint s (tag_word wiretype field_number)"

text \<open>The \<^verbatim>\<open>switch\<close> of \<^verbatim>\<open>pb_encode_tag_for_field\<close>; \<open>None\<close> is its default branch.\<close>

definition wire_type_of :: "byte \<Rightarrow> u32 option" where
  "wire_type_of ltype =
     (if ltype \<in> {PB_LTYPE_BOOL, PB_LTYPE_VARINT, PB_LTYPE_UVARINT, PB_LTYPE_SVARINT}
      then Some PB_WT_VARINT
      else if ltype = PB_LTYPE_FIXED32 then Some PB_WT_32BIT
      else if ltype = PB_LTYPE_FIXED64 then Some PB_WT_64BIT
      else if ltype \<in> {PB_LTYPE_BYTES, PB_LTYPE_STRING, PB_LTYPE_SUBMESSAGE,
                       PB_LTYPE_FIXED_LENGTH_BYTES}
      then Some PB_WT_STRING
      else None)"

definition pb_encode_tag_for_field :: "pb_ostream \<Rightarrow> pb_field \<Rightarrow> bool \<times> pb_ostream" where
  "pb_encode_tag_for_field s f =
     (case wire_type_of (PB_LTYPE (ftype f)) of
        Some wt \<Rightarrow> pb_encode_tag s wt (tag f)
      | None \<Rightarrow> ostream_error s ''invalid field type'')"

definition pb_encode_string :: "pb_ostream \<Rightarrow> byte list \<Rightarrow> u64 \<Rightarrow> bool \<times> pb_ostream" where
  "pb_encode_string s buffer n =
     (case pb_encode_varint s n of
        (False, s') \<Rightarrow> (False, s')
      | (True, s') \<Rightarrow> pb_write s' buffer n)"

section \<open>The emission calculus\<close>

text \<open>
  The contract of a write callback (\<^verbatim>\<open>pb_encode.h\<close>): when it reports success, it has
  taken the bytes. \<open>content\<close> reads what the sink has received off its state.
\<close>

locale byte_sink =
  fixes cb :: write_callback and content :: "byte list \<Rightarrow> byte list"
  assumes accepts: "cb st b = (True, st') \<Longrightarrow> content st' = content st @ b"
begin

lemma pb_write_content:
  assumes "callback s = Some cb" and "pb_write s buf count = (True, s')"
    and "unat count = length buf"
  shows "content (state s') = content (state s) @ buf"
    and "bytes_written s' = bytes_written s + count" and "callback s' = Some cb"
proof -
  have "content (state s') = content (state s) @ buf \<and> bytes_written s' = bytes_written s + count
    \<and> callback s' = Some cb"
  proof (cases "0 < count")
    case True
    then show ?thesis using assms
      by (auto simp: pb_write_def ostream_error_def split: if_splits prod.splits dest!: accepts)
  next
    case False
    then have "count = 0" by (simp add: word_neq_0_conv [symmetric])
    with assms show ?thesis by (simp add: pb_write_def)
  qed
  then show "content (state s') = content (state s) @ buf"
    and "bytes_written s' = bytes_written s + count" and "callback s' = Some cb"
    by auto
qed

end

interpretation buf_sink: byte_sink buf_write "\<lambda>st. st"
  by unfold_locales (simp add: buf_write_def)

section \<open>The byte strings of the primitives\<close>

lemma varint_loop_eq_Nil [simp]: "varint_loop v = [] \<longleftrightarrow> v = 0"
  by (subst varint_loop.simps) simp

lemma drop_bit_7_eq_0: "drop_bit 7 (v :: u64) = 0 \<longleftrightarrow> v \<le> 0x7F"
proof -
  have "drop_bit 7 v = 0 \<longleftrightarrow> unat (drop_bit 7 v) = 0" by (simp add: unat_eq_zero)
  also have "\<dots> \<longleftrightarrow> unat v div 128 = 0" by (simp only: unat_drop_bit) simp
  also have "\<dots> \<longleftrightarrow> unat v < 128" by auto
  also have "\<dots> \<longleftrightarrow> v \<le> 0x7F" by (auto simp: word_le_nat_alt)
  finally show ?thesis .
qed

text \<open>
  The two branches of \<^verbatim>\<open>pb_encode_varint\<close> compute one recursive encoding: seven bits
  per byte, low bits first, the continuation bit in every byte but the last.
\<close>

lemma varint_bytes_rec:
  "varint_bytes v =
     (if v \<le> 0x7F then [ucast v]
      else (ucast (v AND 0x7F) OR 0x80) # varint_bytes (drop_bit 7 v))"
proof (cases "v \<le> 0x7F")
  case False
  let ?w = "drop_bit 7 v"
  have v0: "v \<noteq> 0" using False by auto
  have w0: "?w \<noteq> 0" using False by (simp add: drop_bit_7_eq_0)
  have "clear_last (varint_loop v) = (ucast (v AND 0x7F) OR 0x80) # clear_last (varint_loop ?w)"
    using v0 w0 by (simp add: clear_last_def varint_loop.simps [of v])
  moreover have "clear_last (varint_loop ?w) = varint_bytes ?w"
  proof (cases "?w \<le> 0x7F")
    case True
    then have "varint_loop ?w = [ucast (?w AND 0x7F) OR 0x80]"
      using w0 drop_bit_7_eq_0 [of ?w] varint_loop.simps [of ?w]
      by (simp add: varint_loop.simps [of 0])
    moreover have "unat ?w < 2 ^ 7" using True by (simp add: word_le_nat_alt)
    then have "take_bit 7 ?w = ?w" using small_iff_take_bit [of 7 ?w] by simp
    then have "take_bit 7 (set_bit 7 (ucast (take_bit 7 ?w)) :: byte) = ucast ?w"
      by (rule last_varint_byte)
    ultimately show ?thesis using True
      by (simp add: clear_last_def varint_bytes_def and_127 or_128)
  next
    case False
    then show ?thesis by (simp add: varint_bytes_def)
  qed
  ultimately show ?thesis using False by (simp add: varint_bytes_def)
qed (simp add: varint_bytes_def)

lemma varint_bytes_induct [case_names small step]:
  assumes "\<And>v. v \<le> 0x7F \<Longrightarrow> P v" and "\<And>v. \<not> v \<le> 0x7F \<Longrightarrow> P (drop_bit 7 v) \<Longrightarrow> P v"
  shows "P (v :: u64)"
proof (induction "unat v" arbitrary: v rule: less_induct)
  case less
  show ?case
  proof (cases "v \<le> 0x7F")
    case False
    then have "0 < unat v" by (auto simp: word_le_nat_alt)
    then have "unat (drop_bit 7 v) < unat v" using unat_drop_bit [of 7 v] by simp
    then show ?thesis using less assms(2) False by blast
  qed (rule assms(1))
qed

end
