(* ===== verification/Pb_Emit.thy ===== *)
theory Pb_Emit
  imports Pb_Ostream
begin

unbundle bit_operations_syntax

text \<open>
  The emission calculus. A writer takes an output stream to a C return value and the
  updated stream (\<open>None\<close>: the call has no defined result). \<open>emits w bs\<close> states, for
  every kind of stream, that \<open>w\<close> writes the byte string \<open>bs\<close>: a sizing stream counts it, a
  memory-buffer stream with room for it receives it, one without room reports
  \<^verbatim>\<open>stream full\<close> and never stores past its limit, and any sink that keeps its contract
  has received exactly these bytes when the writer reports success.
\<close>

type_synonym writer = "pb_ostream \<Rightarrow> (bool \<times> pb_ostream) option"

definition lift_w :: "(pb_ostream \<Rightarrow> bool \<times> pb_ostream) \<Rightarrow> writer" where
  "lift_w w = (\<lambda>s. Some (w s))"

definition w_ok :: writer where
  "w_ok = (\<lambda>s. Some (True, s))"

definition w_error :: "string \<Rightarrow> writer" where
  "w_error msg = (\<lambda>s. Some (ostream_error s msg))"

text \<open>\<^verbatim>\<open>if (!w1(stream)) return false; return w2(stream);\<close>\<close>

definition w_then :: "writer \<Rightarrow> writer \<Rightarrow> writer" where
  "w_then w1 w2 = (\<lambda>s.
     case w1 s of
       None \<Rightarrow> None
     | Some (False, s') \<Rightarrow> Some (False, s')
     | Some (True, s') \<Rightarrow> w2 s')"

definition buffered :: "pb_ostream \<Rightarrow> bool" where
  "buffered s \<longleftrightarrow> callback s = Some buf_write \<and> bytes_written s \<le> max_size s \<and> errmsg s = None"

definition room :: "pb_ostream \<Rightarrow> nat" where
  "room s = unat (max_size s) - unat (bytes_written s)"

definition counted :: "pb_ostream \<Rightarrow> nat \<Rightarrow> pb_ostream" where
  "counted s n = s\<lparr>bytes_written := bytes_written s + of_nat n\<rparr>"

definition appended :: "pb_ostream \<Rightarrow> byte list \<Rightarrow> pb_ostream" where
  "appended s bs = counted (s\<lparr>state := state s @ bs\<rparr>) (length bs)"

definition stopped_full :: "pb_ostream \<Rightarrow> bool \<times> pb_ostream \<Rightarrow> bool" where
  "stopped_full s r \<longleftrightarrow>
     \<not> fst r \<and> errmsg (snd r) = Some ''stream full'' \<and>
     (\<exists>p. state (snd r) = state s @ p \<and> length p \<le> room s)"

definition emits :: "writer \<Rightarrow> byte list \<Rightarrow> bool" where
  "emits w bs \<longleftrightarrow>
     (\<forall>s. w s \<noteq> None) \<and>
     (\<forall>s. callback s = None \<longrightarrow> w s = Some (True, counted s (length bs))) \<and>
     (\<forall>s. buffered s \<and> length bs \<le> room s \<longrightarrow> w s = Some (True, appended s bs)) \<and>
     (\<forall>s. buffered s \<and> room s < length bs \<and> length bs < 2 ^ 63 \<and> unat (max_size s) < 2 ^ 63 \<longrightarrow>
          stopped_full s (the (w s))) \<and>
     (\<forall>cb content s s'. byte_sink cb content \<and> callback s = Some cb \<and> w s = Some (True, s') \<longrightarrow>
          content (state s') = content (state s) @ bs \<and> callback s' = Some cb \<and>
          bytes_written s' = bytes_written s + of_nat (length bs))"

definition fails :: "writer \<Rightarrow> bool" where
  "fails w \<longleftrightarrow> (\<forall>s. \<exists>s'. w s = Some (False, s'))"

text \<open>A writer against a reference result: the bytes it emits, or \<open>None\<close> for an error.\<close>

definition realises :: "writer \<Rightarrow> byte list option \<Rightarrow> bool" where
  "realises w r \<longleftrightarrow> (case r of Some bs \<Rightarrow> emits w bs | None \<Rightarrow> fails w)"

definition r_then :: "byte list option \<Rightarrow> byte list option \<Rightarrow> byte list option" where
  "r_then r1 r2 =
     (case r1 of None \<Rightarrow> None | Some a \<Rightarrow> (case r2 of None \<Rightarrow> None | Some b \<Rightarrow> Some (a @ b)))"

section \<open>Using an emission\<close>

lemma emits_defined:
  assumes "emits w bs"
  shows "\<exists>b s'. w s = Some (b, s')"
proof -
  have "w s \<noteq> None" using assms unfolding emits_def by blast
  then show ?thesis by auto
qed

lemma emits_sizing: "emits w bs \<Longrightarrow> callback s = None \<Longrightarrow> w s = Some (True, counted s (length bs))"
  unfolding emits_def by blast

lemma emits_fit:
  "emits w bs \<Longrightarrow> buffered s \<Longrightarrow> length bs \<le> room s \<Longrightarrow> w s = Some (True, appended s bs)"
  unfolding emits_def by blast

lemma emits_full:
  assumes "emits w bs" "buffered s" "room s < length bs" "length bs < 2 ^ 63"
    "unat (max_size s) < 2 ^ 63"
  shows "\<exists>s'. w s = Some (False, s') \<and> stopped_full s (False, s')"
proof -
  obtain b s' where w: "w s = Some (b, s')" using emits_defined [OF assms(1)] by blast
  have "stopped_full s (the (w s))" using assms unfolding emits_def by blast
  with w show ?thesis by (simp add: stopped_full_def)
qed

lemma emits_sink:
  assumes "emits w bs" "byte_sink cb content" "callback s = Some cb" "w s = Some (True, s')"
  shows "content (state s') = content (state s) @ bs" "callback s' = Some cb"
    "bytes_written s' = bytes_written s + of_nat (length bs)"
  using assms unfolding emits_def by blast+

section \<open>Composition\<close>

lemma buffered_appended:
  assumes "buffered s" "length bs \<le> room s"
  shows "buffered (appended s bs)" "room (appended s bs) = room s - length bs"
    "max_size (appended s bs) = max_size s" "state (appended s bs) = state s @ bs"
proof -
  have le: "unat (bytes_written s) \<le> unat (max_size s)"
    using assms(1) by (simp add: buffered_def word_le_nat_alt)
  have len: "length bs < 2 ^ 64"
    using assms(2) unat_lt_u64 [of "max_size s"] by (simp add: room_def)
  have u: "unat (bytes_written s + of_nat (length bs)) = unat (bytes_written s) + length bs"
    using assms(2) le unat_lt_u64 [of "max_size s"] unat_of_nat_u64 [OF len]
    by (subst unat_add_no_wrap) (simp_all add: room_def)
  show "buffered (appended s bs)" "room (appended s bs) = room s - length bs"
    using assms le u
    by (auto simp: buffered_def room_def appended_def counted_def word_le_nat_alt)
  show "max_size (appended s bs) = max_size s" "state (appended s bs) = state s @ bs"
    by (simp_all add: appended_def counted_def)
qed

lemma counted_counted: "counted (counted s m) n = counted s (m + n)"
  by (simp add: counted_def add.assoc)

lemma appended_appended: "appended (appended s a) b = appended s (a @ b)"
  by (simp add: appended_def counted_def add.assoc)

lemma callback_counted [simp]: "callback (counted s n) = callback s"
  by (simp add: counted_def)

lemma w_then_True:
  assumes "w_then w1 w2 s = Some (True, s'')"
  obtains s' where "w1 s = Some (True, s')" and "w2 s' = Some (True, s'')"
  using assms by (auto simp: w_then_def split: option.splits bool.splits prod.splits)

lemma emits_then_full:
  assumes w1: "emits w1 a" and w2: "emits w2 b" and buf: "buffered s"
    and full: "room s < length (a @ b)" and len: "length (a @ b) < 2 ^ 63"
    and ms: "unat (max_size s) < 2 ^ 63"
  shows "stopped_full s (the (w_then w1 w2 s))"
proof (cases "length a \<le> room s")
  case True
  let ?t = "appended s a"
  have t: "w1 s = Some (True, ?t)" by (rule emits_fit [OF w1 buf True])
  have "room ?t < length b" using full True buffered_appended(2) [OF buf True] by simp
  moreover have "buffered ?t" "max_size ?t = max_size s"
    using buffered_appended [OF buf True] by auto
  ultimately obtain s' where s': "w2 ?t = Some (False, s')" "stopped_full ?t (False, s')"
    using emits_full [OF w2, of ?t] len ms by auto
  then obtain p where "state s' = state s @ a @ p" "length p \<le> room s - length a"
    using buffered_appended [OF buf True] by (auto simp: stopped_full_def)
  with True s' t show ?thesis
    by (auto simp: stopped_full_def w_then_def intro!: exI [of _ "a @ p"])
next
  case False
  with emits_full [OF w1 buf] len ms obtain s' where
    "w1 s = Some (False, s')" "stopped_full s (False, s')" by auto
  then show ?thesis by (simp add: w_then_def)
qed

lemma emits_then [emit_intros]:
  assumes w1: "emits w1 a" and w2: "emits w2 b"
  shows "emits (w_then w1 w2) (a @ b)"
  unfolding emits_def
proof (intro conjI allI impI; (elim conjE)?)
  fix s :: pb_ostream
  obtain c s' where "w1 s = Some (c, s')" using emits_defined [OF w1] by blast
  then show "w_then w1 w2 s \<noteq> None"
    using emits_defined [OF w2, of s'] by (cases c) (auto simp: w_then_def)
next
  fix s :: pb_ostream assume "callback s = None"
  then show "w_then w1 w2 s = Some (True, counted s (length (a @ b)))"
    by (simp add: w_then_def emits_sizing [OF w1] emits_sizing [OF w2] counted_counted)
next
  fix s :: pb_ostream assume buf: "buffered s" and fit: "length (a @ b) \<le> room s"
  then have a: "length a \<le> room s" by simp
  have "w2 (appended s a) = Some (True, appended (appended s a) b)"
    using buffered_appended [OF buf a] fit by (intro emits_fit [OF w2]) auto
  then show "w_then w1 w2 s = Some (True, appended s (a @ b))"
    by (simp add: w_then_def emits_fit [OF w1 buf a] appended_appended)
next
  fix s assume "buffered s" "room s < length (a @ b)" "length (a @ b) < 2 ^ 63"
    "unat (max_size s) < 2 ^ 63"
  then show "stopped_full s (the (w_then w1 w2 s))"
    by (rule emits_then_full [OF w1 w2])
next
  fix cb content and s s'' :: pb_ostream
  assume sink: "byte_sink cb content" and cb: "callback s = Some cb"
    and ok: "w_then w1 w2 s = Some (True, s'')"
  from ok obtain s' where s': "w1 s = Some (True, s')" "w2 s' = Some (True, s'')"
    by (rule w_then_True)
  note 1 = emits_sink [OF w1 sink cb s'(1)]
  note 2 = emits_sink [OF w2 sink 1(2) s'(2)]
  show "content (state s'') = content (state s) @ a @ b"
    and "callback s'' = Some cb"
    and "bytes_written s'' = bytes_written s + of_nat (length (a @ b))"
    using 1 2 by simp_all
qed

lemma emits_ok [emit_intros]: "emits w_ok []"
  by (simp add: emits_def w_ok_def counted_def appended_def)

lemma fails_error [emit_intros]: "fails (w_error msg)"
  by (simp add: fails_def w_error_def ostream_error_def)

lemma fails_then1:
  assumes "fails w1"
  shows "fails (w_then w1 w2)"
  unfolding fails_def
proof
  fix s
  obtain s' where "w1 s = Some (False, s')" using assms unfolding fails_def by blast
  then show "\<exists>s'. w_then w1 w2 s = Some (False, s')" by (simp add: w_then_def)
qed

lemma fails_then2:
  assumes "emits w1 a" "fails w2"
  shows "fails (w_then w1 w2)"
  unfolding fails_def
proof
  fix s
  obtain b s' where "w1 s = Some (b, s')" using emits_defined [OF assms(1)] by blast
  then show "\<exists>s'. w_then w1 w2 s = Some (False, s')"
    using assms(2) by (cases b) (auto simp: w_then_def fails_def)
qed

lemma realises_then [emit_intros]:
  assumes "realises w1 r1" "r1 \<noteq> None \<Longrightarrow> realises w2 r2"
  shows "realises (w_then w1 w2) (r_then r1 r2)"
  using assms
  by (auto simp: realises_def r_then_def intro: emits_then fails_then1 fails_then2
      split: option.splits)

lemma realises_ok [emit_intros]: "realises w_ok (Some [])"
  by (simp add: realises_def emits_ok)

lemma realises_error [emit_intros]: "realises (w_error msg) None"
  by (simp add: realises_def fails_error)

lemma r_then_Nil [simp]: "r_then (Some []) r = r" "r_then r (Some []) = r"
  by (simp_all add: r_then_def split: option.splits)

lemma r_then_Some [simp]: "r_then (Some a) (Some b) = Some (a @ b)"
  by (simp add: r_then_def)

section \<open>The primitives emit their byte strings\<close>

lemma pb_write_buffered:
  assumes buf: "buffered s" and len: "length bs < 2 ^ 64"
  shows "pb_write s bs (of_nat (length bs)) =
    (if length bs \<le> room s then (True, appended s bs) else ostream_error s ''stream full'')"
proof (cases "bs = []")
  case True
  with buf show ?thesis
    by (simp add: pb_write_def buffered_def appended_def counted_def)
next
  case False
  let ?n = "of_nat (length bs) :: u64"
  have n: "unat ?n = length bs" by (rule unat_of_nat_u64 [OF len])
  then have pos: "0 < ?n" using False by (simp add: word_less_nat_alt)
  have le: "unat (bytes_written s) \<le> unat (max_size s)"
    using buf by (simp add: buffered_def word_le_nat_alt)
  have guard: "(bytes_written s + ?n < bytes_written s \<or> max_size s < bytes_written s + ?n) \<longleftrightarrow>
    room s < length bs"
  proof (cases "unat (bytes_written s) + length bs < 2 ^ 64")
    case True
    then have "unat (bytes_written s + ?n) = unat (bytes_written s) + length bs"
      using n by (simp add: unat_add_no_wrap)
    with le show ?thesis by (auto simp: word_less_nat_alt room_def)
  next
    case False
    then have wrap: "unat (bytes_written s + ?n) = unat (bytes_written s) + length bs - 2 ^ 64"
      using n len unat_lt_u64 [of "bytes_written s"]
      by (simp add: unat_word_ariths le_mod_geq)
    have "bytes_written s + ?n < bytes_written s"
      using len wrap False by (simp add: word_less_nat_alt)
    moreover have "room s < length bs"
      using False unat_lt_u64 [of "max_size s"] le unfolding room_def by linarith
    ultimately show ?thesis by simp
  qed
  have cb: "callback s = Some buf_write" using buf by (simp add: buffered_def)
  show ?thesis
  proof (cases "room s < length bs")
    case True
    with guard pos cb show ?thesis by (simp add: pb_write_def)
  next
    case False
    with guard pos cb n show ?thesis
      by (simp add: pb_write_def buf_write_def appended_def counted_def)
  qed
qed

lemma emits_pb_write [emit_intros]:
  assumes "length bs < 2 ^ 64"
  shows "emits (lift_w (\<lambda>s. pb_write s bs (of_nat (length bs)))) bs"
  unfolding emits_def
proof (intro conjI allI impI; (elim conjE)?)
  fix s :: pb_ostream
  assume "buffered s" "room s < length bs"
  then show "stopped_full s (the (lift_w (\<lambda>s. pb_write s bs (of_nat (length bs))) s))"
    using pb_write_buffered [OF _ assms, of s]
    by (auto simp: lift_w_def stopped_full_def ostream_error_def PB_SET_ERROR_def buffered_def)
next
  fix cb content and s s' :: pb_ostream
  assume sink: "byte_sink cb content" and cb: "callback s = Some cb"
    and ok: "lift_w (\<lambda>s. pb_write s bs (of_nat (length bs))) s = Some (True, s')"
  then have w: "pb_write s bs (of_nat (length bs)) = (True, s')" by (simp add: lift_w_def)
  note byte_sink.pb_write_content [OF sink cb w unat_of_nat_u64 [OF assms]]
  then show "content (state s') = content (state s) @ bs" "callback s' = Some cb"
    "bytes_written s' = bytes_written s + of_nat (length bs)" by auto
next
  fix s :: pb_ostream
  assume "buffered s" "length bs \<le> room s"
  then show "lift_w (\<lambda>s. pb_write s bs (of_nat (length bs))) s = Some (True, appended s bs)"
    using pb_write_buffered [OF _ assms, of s] by (simp add: lift_w_def)
qed (simp_all add: lift_w_def pb_write_def counted_def)

lemma length_varint_bytes_le: "unat v < 2 ^ (7 * n) \<Longrightarrow> 0 < n \<Longrightarrow> length (varint_bytes v) \<le> n"
proof (induction v arbitrary: n rule: varint_bytes_induct)
  case (step v)
  then obtain m where n: "n = Suc m" by (cases n) auto
  have "unat v \<ge> 128" using step.hyps by (simp add: word_le_nat_alt)
  then have "m \<noteq> 0" using step.prems(1) n by (cases m) auto
  moreover have "unat (drop_bit 7 v) < 2 ^ (7 * m)"
    using step.prems(1) n unat_drop_bit [of 7 v]
    by (simp add: power_add less_mult_imp_div_less mult.commute)
  ultimately show ?case using step n by (simp add: varint_bytes_rec [of v])
qed (simp add: varint_bytes_rec)

lemma length_varint_bytes: "0 < length (varint_bytes v) \<and> length (varint_bytes v) \<le> 10"
  using length_varint_bytes_le [of v 10] unat_lt_u64 [of v] varint_bytes_rec [of v] by simp

lemma pb_encode_varint_write:
  "pb_encode_varint s v = pb_write s (varint_bytes v) (of_nat (length (varint_bytes v)))"
  by (simp add: pb_encode_varint_def varint_bytes_def Let_def)

lemma emits_varint [emit_intros]: "emits (lift_w (\<lambda>s. pb_encode_varint s v)) (varint_bytes v)"
  unfolding pb_encode_varint_write
  by (rule emits_pb_write) (use length_varint_bytes [of v] in simp)

lemma emits_fixed32 [emit_intros]: "emits (lift_w (\<lambda>s. pb_encode_fixed32 s v)) (fixed32_bytes v)"
  using emits_pb_write [of "fixed32_bytes v"] by (simp add: pb_encode_fixed32_def fixed32_bytes_def)

lemma emits_fixed64 [emit_intros]: "emits (lift_w (\<lambda>s. pb_encode_fixed64 s v)) (fixed64_bytes v)"
  using emits_pb_write [of "fixed64_bytes v"] by (simp add: pb_encode_fixed64_def fixed64_bytes_def)

lemma pb_encode_string_then:
  "lift_w (\<lambda>s. pb_encode_string s bs n) =
   w_then (lift_w (\<lambda>s. pb_encode_varint s n)) (lift_w (\<lambda>s. pb_write s bs n))"
  by (auto simp: fun_eq_iff lift_w_def w_then_def pb_encode_string_def split: prod.splits bool.splits)

lemma emits_string [emit_intros]:
  assumes "length bs < 2 ^ 64"
  shows "emits (lift_w (\<lambda>s. pb_encode_string s bs (of_nat (length bs))))
           (varint_bytes (of_nat (length bs)) @ bs)"
  unfolding pb_encode_string_then by (intro emit_intros assms)

lemma low_byte: "(ucast ((v :: 'a::len word) AND 0xFF) :: byte) = of_nat (unat v mod 256)"
proof -
  have "unat (v AND 0xFF) = unat v mod 256"
    by (simp only: and_255 unat_take_bit) simp
  moreover have "(ucast w :: byte) = of_nat (unat w)" for w :: "'a word" by simp
  ultimately show ?thesis by metis
qed

lemma le_bytes_4: "le_bytes 4 x =
  [of_nat (x mod 256), of_nat (x div 2 ^ 8 mod 256), of_nat (x div 2 ^ 16 mod 256),
   of_nat (x div 2 ^ 24 mod 256)]"
proof -
  have four: "4 = Suc (Suc (Suc (Suc 0)))" by simp
  have "x div 256 div 256 = x div 65536" "x div 65536 div 256 = x div 16777216"
    by (simp_all add: div_mult2_eq [symmetric])
  then show ?thesis by (simp only: four le_bytes.simps) simp
qed

lemma le_bytes_add: "le_bytes (i + j) x = le_bytes i x @ le_bytes j (x div 256 ^ i)"
  by (induction i arbitrary: x) (simp_all add: div_mult2_eq)

lemma fixed32_bytes_le: "fixed32_bytes v = le_bytes 4 (unat v)"
  unfolding le_bytes_4 fixed32_bytes_def by (simp only: low_byte unat_drop_bit)

lemma fixed64_bytes_le: "fixed64_bytes v = le_bytes 8 (unat v)"
proof -
  have "le_bytes 8 (unat v) = le_bytes 4 (unat v) @ le_bytes 4 (unat v div 2 ^ 32)"
    using le_bytes_add [of 4 4 "unat v"] by simp
  moreover have "unat v div 2 ^ 32 div 2 ^ 8 = unat v div 2 ^ 40"
    "unat v div 2 ^ 32 div 2 ^ 16 = unat v div 2 ^ 48"
    "unat v div 2 ^ 32 div 2 ^ 24 = unat v div 2 ^ 56"
    by (simp_all add: div_mult2_eq [symmetric])
  ultimately show ?thesis
    unfolding le_bytes_4 fixed64_bytes_def
    by (simp only: low_byte unat_drop_bit append_Cons append_Nil)
qed

text \<open>The bytes of a field's key, or an error for a type that has no wire type.\<close>

definition key_bytes :: "pb_field \<Rightarrow> byte list option" where
  "key_bytes f =
     map_option (\<lambda>wt. varint_bytes (tag_word wt (tag f))) (wire_type_of (PB_LTYPE (ftype f)))"

lemma realises_tag_for_field [emit_intros]:
  "realises (lift_w (\<lambda>s. pb_encode_tag_for_field s f)) (key_bytes f)"
proof (cases "wire_type_of (PB_LTYPE (ftype f))")
  case None
  then show ?thesis
    by (simp add: realises_def key_bytes_def fails_def lift_w_def pb_encode_tag_for_field_def
        ostream_error_def)
next
  case (Some wt)
  then show ?thesis
    using emits_varint [of "tag_word wt (tag f)"]
    by (simp add: realises_def key_bytes_def pb_encode_tag_for_field_def pb_encode_tag_def)
qed

end
