(* ===== verification/Pb_Encode.thy ===== *)
theory Pb_Encode
  imports Pb_Common Pb_Emit
begin

unbundle bit_operations_syntax

text \<open>
  \<^verbatim>\<open>nanopb/pb_encode.c\<close> from the single-field encoders to \<^verbatim>\<open>pb_encode\<close>. A message lives in
  the C memory \<open>m\<close>; encoding reads it and writes to an output stream. The functions call
  each other recursively through submessages, so each takes the encoder of the next
  nesting level as its argument \<open>sub\<close>, and \<open>pb_encode\<close> ties the knot with a budget \<open>n\<close>
  that bounds the nesting depth and the length of an extension list; \<open>None\<close> is an
  exhausted budget, a call through a null or out-of-table function pointer, or a default
  value used as a descriptor. The functions behind callback and extension function
  pointers are the environment's.
\<close>

record pb_enc_env =
  enc_fn :: "addr \<Rightarrow> mem \<Rightarrow> pb_field \<Rightarrow> addr \<Rightarrow> pb_ostream \<Rightarrow> bool \<times> pb_ostream"
  ext_enc_fn :: "addr \<Rightarrow> mem \<Rightarrow> addr \<Rightarrow> pb_ostream \<Rightarrow> bool \<times> pb_ostream"
  ext_types :: "addr \<Rightarrow> pb_extension_type"

type_synonym sub_encoder = "pb_field list \<Rightarrow> addr \<Rightarrow> writer"

section \<open>Field encoders\<close>

definition safe_read_bool :: "mem \<Rightarrow> addr \<Rightarrow> bool" where
  "safe_read_bool m p \<longleftrightarrow> m p \<noteq> 0"

definition pb_enc_bool :: "mem \<Rightarrow> pb_field \<Rightarrow> addr \<Rightarrow> writer" where
  "pb_enc_bool m f src = lift_w (\<lambda>s. pb_encode_varint s (if safe_read_bool m src then 1 else 0))"

text \<open>The sign-extending and zero-extending reads of an integer member by its size.\<close>

definition read_signed :: "mem \<Rightarrow> u32 \<Rightarrow> addr \<Rightarrow> u64 option" where
  "read_signed m dsize src =
     (if dsize = 1 then Some (scast (load8 m src))
      else if dsize = 2 then Some (scast (load16 m src))
      else if dsize = 4 then Some (scast (load32 m src))
      else if dsize = 8 then Some (load64 m src)
      else None)"

definition read_unsigned :: "mem \<Rightarrow> u32 \<Rightarrow> addr \<Rightarrow> u64 option" where
  "read_unsigned m dsize src =
     (if dsize = 1 then Some (ucast (load8 m src))
      else if dsize = 2 then Some (ucast (load16 m src))
      else if dsize = 4 then Some (ucast (load32 m src))
      else if dsize = 8 then Some (load64 m src)
      else None)"

definition pb_enc_varint :: "mem \<Rightarrow> pb_field \<Rightarrow> addr \<Rightarrow> writer" where
  "pb_enc_varint m f src =
     (case read_signed m (data_size f) src of
        None \<Rightarrow> w_error ''invalid data_size''
      | Some v \<Rightarrow> lift_w (\<lambda>s. pb_encode_varint s v))"

definition pb_enc_uvarint :: "mem \<Rightarrow> pb_field \<Rightarrow> addr \<Rightarrow> writer" where
  "pb_enc_uvarint m f src =
     (case read_unsigned m (data_size f) src of
        None \<Rightarrow> w_error ''invalid data_size''
      | Some v \<Rightarrow> lift_w (\<lambda>s. pb_encode_varint s v))"

definition pb_enc_svarint :: "mem \<Rightarrow> pb_field \<Rightarrow> addr \<Rightarrow> writer" where
  "pb_enc_svarint m f src =
     (case read_signed m (data_size f) src of
        None \<Rightarrow> w_error ''invalid data_size''
      | Some v \<Rightarrow> lift_w (\<lambda>s. pb_encode_svarint s v))"

definition pb_enc_fixed64 :: "mem \<Rightarrow> pb_field \<Rightarrow> addr \<Rightarrow> writer" where
  "pb_enc_fixed64 m f src = lift_w (\<lambda>s. pb_encode_fixed64 s (load64 m src))"

definition pb_enc_fixed32 :: "mem \<Rightarrow> pb_field \<Rightarrow> addr \<Rightarrow> writer" where
  "pb_enc_fixed32 m f src = lift_w (\<lambda>s. pb_encode_fixed32 s (load32 m src))"

definition pb_enc_bytes :: "mem \<Rightarrow> pb_field \<Rightarrow> addr \<Rightarrow> writer" where
  "pb_enc_bytes m f src =
     (if src = 0 then lift_w (\<lambda>s. pb_encode_string s [] 0)
      else
        let n = bytes_array_size m src; allocsize = PB_BYTES_ARRAY_T_ALLOCSIZE n in
        if allocsize < ucast n \<or>
           (PB_ATYPE (ftype f) = PB_ATYPE_STATIC \<and> ucast (data_size f) < allocsize)
        then w_error ''bytes size exceeded''
        else lift_w (\<lambda>s. pb_encode_string s (load_bytes m (bytes_array_bytes src) (unat n)) (ucast n)))"

text \<open>\<^verbatim>\<open>while (size < max_size && *p != '\0')\<close>\<close>

fun c_strnlen :: "mem \<Rightarrow> addr \<Rightarrow> nat \<Rightarrow> nat" where
  "c_strnlen m p n = (if n = 0 \<or> m p = 0 then 0 else Suc (c_strnlen m (p + 1) (n - 1)))"

declare c_strnlen.simps [simp del]

definition pb_enc_string :: "mem \<Rightarrow> pb_field \<Rightarrow> addr \<Rightarrow> writer" where
  "pb_enc_string m f src =
     (let limit = (if PB_ATYPE (ftype f) = PB_ATYPE_POINTER then 2 ^ 64 - 1 else unat (data_size f));
          n = (if src = 0 then 0 else c_strnlen m src limit)
      in lift_w (\<lambda>s. pb_encode_string s (load_bytes m src n) (of_nat n)))"

text \<open>
  \<^verbatim>\<open>pb_encode_submessage\<close>: \<open>enc\<close> is the call \<^verbatim>\<open>pb_encode(\<cdot>, fields, src_struct)\<close>. The
  submessage is encoded twice, to learn its size and to write it through a substream that
  allows exactly this size.
\<close>

definition pb_encode_submessage :: "writer \<Rightarrow> writer" where
  "pb_encode_submessage enc = (\<lambda>s.
     case enc PB_OSTREAM_SIZING of
       None \<Rightarrow> None
     | Some (False, sub) \<Rightarrow> Some (False, s\<lparr>errmsg := errmsg sub\<rparr>)
     | Some (True, sub) \<Rightarrow>
        (let n = bytes_written sub in
         case pb_encode_varint s n of
           (False, s1) \<Rightarrow> Some (False, s1)
         | (True, s1) \<Rightarrow>
            if callback s1 = None then Some (pb_write s1 [] n)
            else if max_size s1 < bytes_written s1 + n then Some (ostream_error s1 ''stream full'')
            else
              (case enc \<lparr>callback = callback s1, state = state s1, max_size = n,
                         bytes_written = 0, errmsg = None\<rparr> of
                 None \<Rightarrow> None
               | Some (status, sub) \<Rightarrow>
                   let s2 = s1\<lparr>bytes_written := bytes_written s1 + bytes_written sub,
                               state := state sub, errmsg := errmsg sub\<rparr>
                   in if bytes_written sub \<noteq> n then Some (ostream_error s2 ''submsg size changed'')
                      else Some (status, s2))))"

definition pb_enc_submessage :: "sub_encoder \<Rightarrow> mem \<Rightarrow> pb_field \<Rightarrow> addr \<Rightarrow> writer" where
  "pb_enc_submessage sub m f src =
     (case ptr f of
        Ptr_NULL \<Rightarrow> w_error ''invalid field descriptor''
      | Ptr_fields fs \<Rightarrow> pb_encode_submessage (sub fs src)
      | Ptr_default _ \<Rightarrow> (\<lambda>s. None))"

definition pb_enc_fixed_length_bytes :: "mem \<Rightarrow> pb_field \<Rightarrow> addr \<Rightarrow> writer" where
  "pb_enc_fixed_length_bytes m f src =
     lift_w (\<lambda>s. pb_encode_string s (load_bytes m src (unat (data_size f))) (ucast (data_size f)))"

text \<open>The table \<^verbatim>\<open>PB_ENCODERS\<close>, indexed by the low type bits; entry 9 is a null pointer.\<close>

definition PB_ENCODERS :: "sub_encoder \<Rightarrow> mem \<Rightarrow> byte \<Rightarrow> pb_field \<Rightarrow> addr \<Rightarrow> writer" where
  "PB_ENCODERS sub m ltype =
     (let table = [pb_enc_bool m, pb_enc_varint m, pb_enc_uvarint m, pb_enc_svarint m,
                   pb_enc_fixed32 m, pb_enc_fixed64 m, pb_enc_bytes m, pb_enc_string m,
                   pb_enc_submessage sub m, (\<lambda>f src s. None), pb_enc_fixed_length_bytes m]
      in if unat ltype < length table then table ! unat ltype else (\<lambda>f src s. None))"

section \<open>Arrays\<close>

fun encode_items :: "(addr \<Rightarrow> writer) \<Rightarrow> u64 \<Rightarrow> nat \<Rightarrow> addr \<Rightarrow> writer" where
  "encode_items w step 0 p = w_ok"
| "encode_items w step (Suc n) p = w_then (w p) (encode_items w step n (p + step))"

definition encode_packed_data :: "(addr \<Rightarrow> writer) \<Rightarrow> pb_field \<Rightarrow> addr \<Rightarrow> nat \<Rightarrow> writer" where
  "encode_packed_data func f pd count = (\<lambda>s.
     let items = encode_items func (ucast (data_size f)) count pd;
         sizing = (if PB_LTYPE (ftype f) = PB_LTYPE_FIXED32 then Some (True, 4 * of_nat count)
                   else if PB_LTYPE (ftype f) = PB_LTYPE_FIXED64 then Some (True, 8 * of_nat count)
                   else map_option (\<lambda>(ok, t). (ok, bytes_written t)) (items PB_OSTREAM_SIZING))
     in case sizing of
          None \<Rightarrow> None
        | Some (False, _) \<Rightarrow> Some (False, s)
        | Some (True, n) \<Rightarrow>
            w_then (lift_w (\<lambda>s. pb_encode_varint s n))
              (\<lambda>s. if callback s = None then Some (pb_write s [] n) else items s) s)"

definition encode_array ::
  "mem \<Rightarrow> pb_field \<Rightarrow> addr \<Rightarrow> nat \<Rightarrow> (pb_field \<Rightarrow> addr \<Rightarrow> writer) \<Rightarrow> writer" where
  "encode_array m f pd count func =
     (if count = 0 then w_ok
      else if PB_ATYPE (ftype f) \<noteq> PB_ATYPE_POINTER \<and> unat (array_size f) < count
      then w_error ''array max size exceeded''
      else if PB_LTYPE (ftype f) \<le> PB_LTYPE_LAST_PACKABLE
      then w_then (lift_w (\<lambda>s. pb_encode_tag s PB_WT_STRING (tag f)))
                  (encode_packed_data (func f) f pd count)
      else encode_items
             (\<lambda>p. w_then (lift_w (\<lambda>s. pb_encode_tag_for_field s f))
                    (if PB_ATYPE (ftype f) = PB_ATYPE_POINTER \<and>
                        (PB_LTYPE (ftype f) = PB_LTYPE_STRING \<or> PB_LTYPE (ftype f) = PB_LTYPE_BYTES)
                     then func f (load64 m p) else func f p))
             (ucast (data_size f)) count pd)"

section \<open>The proto3 zero-value check\<close>

text \<open>
  \<^verbatim>\<open>pb_check_proto3_default_value\<close>, with the check of the fields of a static submessage
  as the argument \<open>sub\<close>; \<open>None\<close> when that check has no defined result.
\<close>

definition check_default_with ::
  "(pb_field list \<Rightarrow> addr \<Rightarrow> bool option) \<Rightarrow> mem \<Rightarrow> pb_field \<Rightarrow> addr \<Rightarrow> bool option" where
  "check_default_with sub m f pd =
     (let ty = ftype f; ps = pd + scast (size_offset f) in
      if PB_HTYPE ty = PB_HTYPE_REQUIRED then Some False
      else if PB_HTYPE ty = PB_HTYPE_REPEATED \<and> size_offset f \<noteq> 0 then Some (load32 m ps = 0)
      else if PB_HTYPE ty = PB_HTYPE_REPEATED \<and> PB_ATYPE ty = PB_ATYPE_STATIC then Some False
      else if PB_HTYPE ty = PB_HTYPE_ONEOF then Some (load32 m ps = 0)
      else if PB_HTYPE ty = PB_HTYPE_OPTIONAL \<and> size_offset f \<noteq> 0
      then Some (\<not> safe_read_bool m ps)
      else if PB_ATYPE ty = PB_ATYPE_STATIC \<and> PB_LTYPE ty = PB_LTYPE_BYTES
      then Some (bytes_array_size m pd = 0)
      else if PB_ATYPE ty = PB_ATYPE_STATIC \<and> PB_LTYPE ty = PB_LTYPE_STRING then Some (m pd = 0)
      else if PB_ATYPE ty = PB_ATYPE_STATIC \<and> PB_LTYPE ty = PB_LTYPE_FIXED_LENGTH_BYTES
      then Some (data_size f = 0)
      else if PB_ATYPE ty = PB_ATYPE_STATIC \<and> PB_LTYPE ty = PB_LTYPE_SUBMESSAGE
      then (case submsg_fields f of Some fs \<Rightarrow> sub fs pd | None \<Rightarrow> None)
      else if PB_ATYPE ty = PB_ATYPE_POINTER \<and> PB_LTYPE_LAST_PACKABLE < PB_LTYPE ty
      then Some (load64 m pd = 0)
      else Some (list_all (\<lambda>b. b = 0) (load_bytes m pd (unat (data_size f)))))"

fun check_default_fields :: "nat \<Rightarrow> mem \<Rightarrow> pb_field list \<Rightarrow> addr \<Rightarrow> bool option" where
  "check_default_fields 0 m fs pd = None"
| "check_default_fields (Suc n) m fs pd =
     (case pb_field_iter_begin fs pd of
        (False, _) \<Rightarrow> Some True
      | (True, it) \<Rightarrow>
          map_option fst
            (iter_each (length fs)
               (\<lambda>it u. map_option (\<lambda>b. (b, u))
                  (check_default_with (check_default_fields n m) m (iter_field it) (pData it)))
               it ()))"

definition pb_check_proto3_default_value :: "nat \<Rightarrow> mem \<Rightarrow> pb_field \<Rightarrow> addr \<Rightarrow> bool option" where
  "pb_check_proto3_default_value n m f pd = check_default_with (check_default_fields n m) m f pd"

section \<open>Fields\<close>

definition encode_value ::
  "(pb_field \<Rightarrow> addr \<Rightarrow> writer) \<Rightarrow> pb_field \<Rightarrow> addr \<Rightarrow> writer" where
  "encode_value func f pd = w_then (lift_w (\<lambda>s. pb_encode_tag_for_field s f)) (func f pd)"

definition encode_basic_field :: "nat \<Rightarrow> sub_encoder \<Rightarrow> mem \<Rightarrow> pb_field \<Rightarrow> addr \<Rightarrow> writer" where
  "encode_basic_field n sub m f pd0 =
     (let func = PB_ENCODERS sub m (PB_LTYPE (ftype f));
          ps = pd0 + scast (size_offset f);
          is_ptr = (PB_ATYPE (ftype f) = PB_ATYPE_POINTER);
          pd = (if is_ptr then load64 m pd0 else pd0);
          implicit_has =
            (if is_ptr then Some (pd \<noteq> 0)
             else if PB_HTYPE (ftype f) = PB_HTYPE_OPTIONAL
             then map_option Not (pb_check_proto3_default_value n m f pd0)
             else Some True)
      in
      if PB_HTYPE (ftype f) = PB_HTYPE_REQUIRED then
        if pd = 0 then w_error ''missing required field'' else encode_value func f pd
      else if PB_HTYPE (ftype f) = PB_HTYPE_OPTIONAL then
        (case (if size_offset f \<noteq> 0 then Some (safe_read_bool m ps) else implicit_has) of
           None \<Rightarrow> (\<lambda>s. None)
         | Some has \<Rightarrow> if has then encode_value func f pd else w_ok)
      else if PB_HTYPE (ftype f) = PB_HTYPE_REPEATED then
        encode_array m f pd
          (unat (if size_offset f \<noteq> 0 then load32 m ps else array_size f)) func
      else
        \<comment> \<open>\<^verbatim>\<open>PB_HTYPE_ONEOF\<close>, the only value left in the two type bits\<close>
        if load32 m ps = tag f then encode_value func f pd else w_ok)"

definition encode_callback_field :: "pb_enc_env \<Rightarrow> mem \<Rightarrow> pb_field \<Rightarrow> addr \<Rightarrow> writer" where
  "encode_callback_field env m f pd =
     (if callback_func m pd \<noteq> 0 then
        (\<lambda>s. case enc_fn env (callback_func m pd) m f (callback_arg pd) s of
               (False, s') \<Rightarrow> Some (ostream_error s' ''callback error'')
             | (True, s') \<Rightarrow> Some (True, s'))
      else w_ok)"

definition encode_field ::
  "pb_enc_env \<Rightarrow> nat \<Rightarrow> sub_encoder \<Rightarrow> mem \<Rightarrow> pb_field \<Rightarrow> addr \<Rightarrow> writer" where
  "encode_field env n sub m f pd =
     (if PB_ATYPE (ftype f) = PB_ATYPE_STATIC \<or> PB_ATYPE (ftype f) = PB_ATYPE_POINTER
      then encode_basic_field n sub m f pd
      else if PB_ATYPE (ftype f) = PB_ATYPE_CALLBACK then encode_callback_field env m f pd
      else w_error ''invalid field type'')"

section \<open>Extensions\<close>

definition default_extension_encoder ::
  "pb_enc_env \<Rightarrow> nat \<Rightarrow> sub_encoder \<Rightarrow> mem \<Rightarrow> addr \<Rightarrow> writer" where
  "default_extension_encoder env n sub m ext =
     (let f = ext_arg (ext_types env (extension_type m ext)) in
      if PB_ATYPE (ftype f) = PB_ATYPE_POINTER
      then encode_field env n sub m f (extension_dest ext)
      else encode_field env n sub m f (load64 m (extension_dest ext)))"

fun encode_extension_loop ::
  "nat \<Rightarrow> pb_enc_env \<Rightarrow> nat \<Rightarrow> sub_encoder \<Rightarrow> mem \<Rightarrow> addr \<Rightarrow> writer" where
  "encode_extension_loop 0 env n sub m ext = (if ext = 0 then w_ok else (\<lambda>s. None))"
| "encode_extension_loop (Suc k) env n sub m ext =
     (if ext = 0 then w_ok
      else w_then
        (case ext_encode (ext_types env (extension_type m ext)) of
           Some fn \<Rightarrow> lift_w (ext_enc_fn env fn m ext)
         | None \<Rightarrow> default_extension_encoder env n sub m ext)
        (encode_extension_loop k env n sub m (extension_next m ext)))"

definition encode_extension_field ::
  "pb_enc_env \<Rightarrow> nat \<Rightarrow> sub_encoder \<Rightarrow> mem \<Rightarrow> addr \<Rightarrow> writer" where
  "encode_extension_field env n sub m pd = encode_extension_loop n env n sub m (load64 m pd)"

section \<open>Messages\<close>

fun pb_encode :: "nat \<Rightarrow> pb_enc_env \<Rightarrow> mem \<Rightarrow> sub_encoder" where
  "pb_encode 0 env m fs src = (\<lambda>s. None)"
| "pb_encode (Suc n) env m fs src =
     (\<lambda>s. case pb_field_iter_begin fs src of
        (False, _) \<Rightarrow> Some (True, s)
      | (True, it) \<Rightarrow>
          iter_each (length fs)
            (\<lambda>it. if PB_LTYPE (ftype (iter_field it)) = PB_LTYPE_EXTENSION
                  then encode_extension_field env n (pb_encode n env m) m (pData it)
                  else encode_field env n (pb_encode n env m) m (iter_field it) (pData it))
            it s)"

definition pb_encode_delimited :: "nat \<Rightarrow> pb_enc_env \<Rightarrow> mem \<Rightarrow> sub_encoder" where
  "pb_encode_delimited n env m fs src = pb_encode_submessage (pb_encode n env m fs src)"

definition pb_encode_nullterminated :: "nat \<Rightarrow> pb_enc_env \<Rightarrow> mem \<Rightarrow> sub_encoder" where
  "pb_encode_nullterminated n env m fs src =
     w_then (pb_encode n env m fs src) (lift_w (\<lambda>s. pb_write s [0] 1))"

definition pb_get_encoded_size ::
  "nat \<Rightarrow> pb_enc_env \<Rightarrow> mem \<Rightarrow> pb_field list \<Rightarrow> addr \<Rightarrow> u64 option option" where
  "pb_get_encoded_size n env m fs src =
     map_option (\<lambda>(ok, s). if ok then Some (bytes_written s) else None)
       (pb_encode n env m fs src PB_OSTREAM_SIZING)"

end
