(* ===== verification/Pb_Encode_Spec.thy ===== *)
theory Pb_Encode_Spec
  imports Pb_Encode
begin

unbundle bit_operations_syntax

text \<open>
  A reference encoder and the refinement proof. The reference maps a message in memory to
  the byte string of its encoding (\<open>None\<close>: the encoder reports an error) with no streams,
  no sizing passes and no iterator. The main lemma shows that the streaming encoder
  realises it on every stream, for descriptors that are well-formed for encoding, with a
  budget larger than the nesting depth of the descriptor, and with encoding callbacks that
  themselves emit a determined byte string.
\<close>

section \<open>The reference encoder\<close>

definition delimited :: "byte list \<Rightarrow> byte list" where
  "delimited bs = varint_bytes (of_nat (length bs)) @ bs"

type_synonym sub_ref = "pb_field list \<Rightarrow> addr \<Rightarrow> byte list option"

definition c_string :: "mem \<Rightarrow> pb_field \<Rightarrow> addr \<Rightarrow> byte list" where
  "c_string m f src =
     (if src = 0 then []
      else load_bytes m src
        (c_strnlen m src
          (if PB_ATYPE (ftype f) = PB_ATYPE_POINTER then 2 ^ 64 - 1 else unat (data_size f))))"

definition bytes_member :: "mem \<Rightarrow> pb_field \<Rightarrow> addr \<Rightarrow> byte list option" where
  "bytes_member m f src =
     (if src = 0 then Some []
      else if PB_ATYPE (ftype f) = PB_ATYPE_STATIC \<and>
              ucast (data_size f) < PB_BYTES_ARRAY_T_ALLOCSIZE (bytes_array_size m src)
      then None
      else Some (load_bytes m (bytes_array_bytes src) (unat (bytes_array_size m src))))"

definition value_bytes :: "sub_ref \<Rightarrow> mem \<Rightarrow> byte \<Rightarrow> pb_field \<Rightarrow> addr \<Rightarrow> byte list option" where
  "value_bytes sub m ltype f p =
     (if ltype = PB_LTYPE_BOOL then Some [if m p \<noteq> 0 then 1 else 0]
      else if ltype = PB_LTYPE_VARINT then map_option varint_bytes (read_signed m (data_size f) p)
      else if ltype = PB_LTYPE_UVARINT then map_option varint_bytes (read_unsigned m (data_size f) p)
      else if ltype = PB_LTYPE_SVARINT
      then map_option (varint_bytes \<circ> zigzag) (read_signed m (data_size f) p)
      else if ltype = PB_LTYPE_FIXED32 then Some (load_bytes m p 4)
      else if ltype = PB_LTYPE_FIXED64 then Some (load_bytes m p 8)
      else if ltype = PB_LTYPE_BYTES then map_option delimited (bytes_member m f p)
      else if ltype = PB_LTYPE_STRING then Some (delimited (c_string m f p))
      else if ltype = PB_LTYPE_SUBMESSAGE
      then (case submsg_fields f of Some fs \<Rightarrow> map_option delimited (sub fs p) | None \<Rightarrow> None)
      else Some (delimited (load_bytes m p (unat (data_size f)))))"

primrec r_concat :: "byte list option list \<Rightarrow> byte list option" where
  "r_concat [] = Some []"
| "r_concat (r # rs) = r_then r (r_concat rs)"

primrec items_bytes :: "(addr \<Rightarrow> byte list option) \<Rightarrow> u64 \<Rightarrow> nat \<Rightarrow> addr \<Rightarrow> byte list option" where
  "items_bytes r step 0 p = Some []"
| "items_bytes r step (Suc n) p = r_then (r p) (items_bytes r step n (p + step))"

definition array_item_bytes ::
  "mem \<Rightarrow> pb_field \<Rightarrow> (pb_field \<Rightarrow> addr \<Rightarrow> byte list option) \<Rightarrow> addr \<Rightarrow> byte list option" where
  "array_item_bytes m f val p =
     r_then (key_bytes f)
       (val f (if PB_ATYPE (ftype f) = PB_ATYPE_POINTER \<and>
                  (PB_LTYPE (ftype f) = PB_LTYPE_STRING \<or> PB_LTYPE (ftype f) = PB_LTYPE_BYTES)
               then load64 m p else p))"

definition array_bytes ::
  "mem \<Rightarrow> pb_field \<Rightarrow> addr \<Rightarrow> nat \<Rightarrow> (pb_field \<Rightarrow> addr \<Rightarrow> byte list option) \<Rightarrow> byte list option" where
  "array_bytes m f pd count val =
     (if count = 0 then Some []
      else if PB_ATYPE (ftype f) \<noteq> PB_ATYPE_POINTER \<and> unat (array_size f) < count then None
      else if PB_LTYPE (ftype f) \<le> PB_LTYPE_LAST_PACKABLE
      then r_then (Some (varint_bytes (tag_word PB_WT_STRING (tag f))))
             (map_option delimited (items_bytes (val f) (ucast (data_size f)) count pd))
      else items_bytes (array_item_bytes m f val) (ucast (data_size f)) count pd)"

definition basic_field_bytes :: "nat \<Rightarrow> sub_ref \<Rightarrow> mem \<Rightarrow> pb_field \<Rightarrow> addr \<Rightarrow> byte list option" where
  "basic_field_bytes n sub m f pd0 =
     (let val = value_bytes sub m (PB_LTYPE (ftype f));
          ps = pd0 + scast (size_offset f);
          is_ptr = (PB_ATYPE (ftype f) = PB_ATYPE_POINTER);
          pd = (if is_ptr then load64 m pd0 else pd0);
          one = r_then (key_bytes f) (val f pd)
      in
      if PB_HTYPE (ftype f) = PB_HTYPE_REQUIRED then (if pd = 0 then None else one)
      else if PB_HTYPE (ftype f) = PB_HTYPE_OPTIONAL then
        (if size_offset f \<noteq> 0 then (if m ps \<noteq> 0 then one else Some [])
         else if is_ptr then (if pd \<noteq> 0 then one else Some [])
         else if pb_check_proto3_default_value n m f pd0 = Some True then Some [] else one)
      else if PB_HTYPE (ftype f) = PB_HTYPE_REPEATED then
        array_bytes m f pd (unat (if size_offset f \<noteq> 0 then load32 m ps else array_size f)) val
      else if load32 m ps = tag f then one else Some [])"

type_synonym callback_bytes = "addr \<Rightarrow> pb_field \<Rightarrow> addr \<Rightarrow> byte list option"

definition field_bytes ::
  "callback_bytes \<Rightarrow> nat \<Rightarrow> sub_ref \<Rightarrow> mem \<Rightarrow> pb_field \<Rightarrow> addr \<Rightarrow> byte list option" where
  "field_bytes cbs n sub m f pd =
     (if PB_ATYPE (ftype f) = PB_ATYPE_STATIC \<or> PB_ATYPE (ftype f) = PB_ATYPE_POINTER
      then basic_field_bytes n sub m f pd
      else if PB_ATYPE (ftype f) = PB_ATYPE_CALLBACK
      then (if callback_func m pd \<noteq> 0 then cbs (callback_func m pd) f (callback_arg pd) else Some [])
      else None)"

fun msg_bytes :: "callback_bytes \<Rightarrow> nat \<Rightarrow> mem \<Rightarrow> sub_ref" where
  "msg_bytes cbs 0 m fs src = None"
| "msg_bytes cbs (Suc n) m fs src =
     r_concat (map (\<lambda>i. field_bytes cbs n (msg_bytes cbs n m) m (field_at fs i) (data_addr fs src i))
                [0..<field_count fs])"

section \<open>Well-formed descriptors\<close>

fun enc_wf :: "pb_field \<Rightarrow> bool" where
  "enc_wf (Pb_field t ty off so ds as p) \<longleftrightarrow>
     PB_LTYPE ty \<noteq> PB_LTYPE_EXTENSION \<and> unat (PB_LTYPE ty) < 11 \<and>
     (PB_LTYPE ty = PB_LTYPE_SUBMESSAGE \<longrightarrow>
        (case p of Ptr_fields fs \<Rightarrow> list_all enc_wf fs | _ \<Rightarrow> False))"

definition callbacks_emit :: "pb_enc_env \<Rightarrow> mem \<Rightarrow> callback_bytes \<Rightarrow> bool" where
  "callbacks_emit env m cbs \<longleftrightarrow> (\<forall>fn f a. realises (lift_w (enc_fn env fn m f a)) (cbs fn f a))"

lemma enc_wf_type:
  assumes "enc_wf f"
  shows "PB_LTYPE (ftype f) \<noteq> PB_LTYPE_EXTENSION" "unat (PB_LTYPE (ftype f)) < 11"
  using assms by (cases f; simp)+

lemma enc_wf_submsg:
  assumes "enc_wf f" "PB_LTYPE (ftype f) = PB_LTYPE_SUBMESSAGE"
  obtains fs where "ptr f = Ptr_fields fs" "submsg_fields f = Some fs" "list_all enc_wf fs"
    "field_depth f = Suc (msg_depth fs)"
  using assms by (cases f) (auto simp: submsg_fields_def msg_depth_def split: pb_ptr.splits)

section \<open>Submessages and packed arrays\<close>

lemma emits_varint_buffered:
  assumes "buffered s" "length (varint_bytes v) \<le> room s"
  shows "pb_encode_varint s v = (True, appended s (varint_bytes v))"
  using emits_fit [OF emits_varint assms] by (simp add: lift_w_def)

text \<open>The substream that writes a submessage has room for exactly its encoding.\<close>

lemma substream_buffered:
  assumes "buffered s" "length bs < 2 ^ 64"
  defines "sub \<equiv> \<lparr>callback = callback s, state = state s, max_size = of_nat (length bs),
                  bytes_written = 0, errmsg = None\<rparr>"
  shows "buffered sub" "room sub = length bs"
  using assms by (auto simp: buffered_def room_def unat_of_nat_u64)

lemma submessage_fit:
  assumes enc: "emits enc bs" and buf: "buffered s" and fit: "length (delimited bs) \<le> room s"
  shows "pb_encode_submessage enc s = Some (True, appended s (delimited bs))"
proof -
  let ?n = "of_nat (length bs) :: u64" and ?v = "varint_bytes (of_nat (length bs))"
  let ?s1 = "appended s ?v"
  have v: "length ?v \<le> room s" using fit by (simp add: delimited_def)
  have r1: "length bs \<le> room ?s1"
    using fit buffered_appended(2) [OF buf v] by (simp add: delimited_def)
  have b1: "buffered ?s1" by (rule buffered_appended(1) [OF buf v])
  have len: "length bs < 2 ^ 64"
    using r1 unat_lt_u64 [of "max_size ?s1"] by (simp add: room_def)
  have sz: "enc PB_OSTREAM_SIZING = Some (True, counted PB_OSTREAM_SIZING (length bs))"
    by (rule emits_sizing [OF enc]) (simp add: PB_OSTREAM_SIZING_def)
  have bw: "unat (bytes_written ?s1 + ?n) = unat (bytes_written ?s1) + length bs"
    using r1 b1 len unat_lt_u64 [of "max_size ?s1"] unat_of_nat_u64 [OF len]
    by (subst unat_add_no_wrap) (auto simp: room_def buffered_def word_le_nat_alt)
  have "\<not> max_size ?s1 < bytes_written ?s1 + ?n"
    using bw r1 b1 unfolding word_less_nat_alt room_def buffered_def word_le_nat_alt by linarith
  moreover note substream_buffered [OF b1 len]
  moreover have "callback ?s1 = Some buf_write" "errmsg ?s1 = None"
    using b1 by (auto simp: buffered_def)
  ultimately show ?thesis
    using emits_fit [OF enc, of "\<lparr>callback = callback ?s1, state = state ?s1, max_size = ?n,
                                   bytes_written = 0, errmsg = None\<rparr>"] sz
      emits_varint_buffered [OF buf v]
    by (simp add: pb_encode_submessage_def counted_def PB_OSTREAM_SIZING_def appended_def
        delimited_def Let_def add.assoc)
qed

lemma submessage_full:
  assumes enc: "emits enc bs" and buf: "buffered s" and full: "room s < length (delimited bs)"
    and len: "length (delimited bs) < 2 ^ 63" and ms: "unat (max_size s) < 2 ^ 63"
  shows "stopped_full s (the (pb_encode_submessage enc s))"
proof -
  let ?n = "of_nat (length bs) :: u64" and ?v = "varint_bytes (of_nat (length bs))"
  let ?s1 = "appended s ?v"
  have sz: "enc PB_OSTREAM_SIZING = Some (True, counted PB_OSTREAM_SIZING (length bs))"
    by (rule emits_sizing [OF enc]) (simp add: PB_OSTREAM_SIZING_def)
  have l: "length bs < 2 ^ 64" using len by (simp add: delimited_def)
  show ?thesis
  proof (cases "length ?v \<le> room s")
    case True
    have b1: "buffered ?s1" and st: "state ?s1 = state s @ ?v" and m: "max_size ?s1 = max_size s"
      and r1: "room ?s1 < length bs"
      using buffered_appended [OF buf True] full True by (simp_all add: delimited_def less_diff_conv2)
    have "unat (bytes_written ?s1 + ?n) = unat (bytes_written ?s1) + length bs"
      using b1 m ms len unat_of_nat_u64 [OF l]
      by (subst unat_add_no_wrap) (auto simp: buffered_def word_le_nat_alt delimited_def)
    then have "max_size ?s1 < bytes_written ?s1 + ?n"
      using r1 by (simp add: word_less_nat_alt room_def)
    moreover have "callback ?s1 = Some buf_write" "errmsg ?s1 = None"
      using b1 by (auto simp: buffered_def)
    ultimately show ?thesis
      using sz emits_varint_buffered [OF buf True] st True
      by (simp add: pb_encode_submessage_def counted_def PB_OSTREAM_SIZING_def Let_def
          stopped_full_def ostream_error_def PB_SET_ERROR_def)
  next
    case False
    moreover have "length ?v < 2 ^ 63" using len by (simp add: delimited_def)
    ultimately obtain s' where "pb_encode_varint s ?n = (False, s')" "stopped_full s (False, s')"
      using emits_full [OF emits_varint buf, of ?n] ms by (auto simp: lift_w_def)
    then show ?thesis
      using sz by (simp add: pb_encode_submessage_def counted_def PB_OSTREAM_SIZING_def)
  qed
qed

lemma submessage_sink:
  assumes enc: "emits enc bs" and sink: "byte_sink cb content" and cb: "callback s = Some cb"
    and ok: "pb_encode_submessage enc s = Some (True, s')"
  shows "content (state s') = content (state s) @ delimited bs \<and> callback s' = Some cb \<and>
    bytes_written s' = bytes_written s + of_nat (length (delimited bs))"
proof -
  let ?n = "of_nat (length bs) :: u64"
  have sz: "enc PB_OSTREAM_SIZING = Some (True, counted PB_OSTREAM_SIZING (length bs))"
    by (rule emits_sizing [OF enc]) (simp add: PB_OSTREAM_SIZING_def)
  obtain b s1 where v: "pb_encode_varint s ?n = (b, s1)" by fastforce
  with ok sz have b
    by (cases b) (simp_all add: pb_encode_submessage_def Let_def counted_def PB_OSTREAM_SIZING_def)
  with v have "lift_w (\<lambda>s. pb_encode_varint s ?n) s = Some (True, s1)" by (simp add: lift_w_def)
  note s1 = emits_sink [OF emits_varint sink cb this]
  let ?sub = "\<lparr>callback = callback s1, state = state s1, max_size = ?n,
               bytes_written = 0, errmsg = None\<rparr>"
  from ok sz v \<open>b\<close> s1(2) obtain t where t: "enc ?sub = Some (True, t)" "bytes_written t = ?n"
    and s': "s' = s1\<lparr>bytes_written := bytes_written s1 + bytes_written t, state := state t,
                     errmsg := errmsg t\<rparr>"
    by (auto simp: pb_encode_submessage_def counted_def PB_OSTREAM_SIZING_def Let_def
        ostream_error_def split: if_splits option.splits)
  from emits_sink [OF enc sink _ t(1)] s1(2)
  have "content (state t) = content (state s1) @ bs" by simp
  with s1 s' t show ?thesis by (simp add: delimited_def)
qed

lemma emits_submessage [emit_intros]:
  assumes enc: "emits enc bs"
  shows "emits (pb_encode_submessage enc) (delimited bs)"
  unfolding emits_def
proof (intro conjI allI impI; (elim conjE)?)
  have sz: "enc PB_OSTREAM_SIZING = Some (True, counted PB_OSTREAM_SIZING (length bs))"
    by (rule emits_sizing [OF enc]) (simp add: PB_OSTREAM_SIZING_def)
  note sub = pb_encode_submessage_def
  fix s :: pb_ostream
  have "(enc x = None) = False" for x using emits_defined [OF enc, of x] by auto
  then show "pb_encode_submessage enc s \<noteq> None"
    using sz by (auto simp: sub Let_def simp del: not_None_eq
        split: prod.splits option.splits bool.splits)
  show "pb_encode_submessage enc s = Some (True, counted s (length (delimited bs)))"
    if "callback s = None"
    using sz that emits_sizing [OF emits_varint that]
    by (simp add: sub lift_w_def Let_def counted_def pb_write_def PB_OSTREAM_SIZING_def
        delimited_def add.assoc)
next
  fix s assume "buffered s" "length (delimited bs) \<le> room s"
  then show "pb_encode_submessage enc s = Some (True, appended s (delimited bs))"
    by (rule submessage_fit [OF enc])
next
  fix s assume "buffered s" "room s < length (delimited bs)" "length (delimited bs) < 2 ^ 63"
    "unat (max_size s) < 2 ^ 63"
  then show "stopped_full s (the (pb_encode_submessage enc s))"
    by (rule submessage_full [OF enc])
qed (use submessage_sink [OF enc] in blast)+

lemma realises_submessage [emit_intros]:
  assumes "realises enc r"
  shows "realises (pb_encode_submessage enc) (map_option delimited r)"
proof (cases r)
  case None
  with assms have "fails enc" by (simp add: realises_def)
  then obtain t where "enc PB_OSTREAM_SIZING = Some (False, t)" unfolding fails_def by blast
  with None show ?thesis by (simp add: realises_def fails_def pb_encode_submessage_def)
next
  case (Some bs)
  with assms emits_submessage show ?thesis by (simp add: realises_def)
qed

section \<open>Single values\<close>

lemma realises_emits: "emits w bs \<Longrightarrow> realises w (Some bs)"
  by (simp add: realises_def)

lemma ltype_cases:
  assumes "unat (x :: byte) < 11" "x \<noteq> PB_LTYPE_EXTENSION"
  obtains "x = PB_LTYPE_BOOL" | "x = PB_LTYPE_VARINT" | "x = PB_LTYPE_UVARINT"
    | "x = PB_LTYPE_SVARINT" | "x = PB_LTYPE_FIXED32" | "x = PB_LTYPE_FIXED64"
    | "x = PB_LTYPE_BYTES" | "x = PB_LTYPE_STRING" | "x = PB_LTYPE_SUBMESSAGE"
    | "x = PB_LTYPE_FIXED_LENGTH_BYTES"
proof -
  have "unat x \<in> {0, 1, 2, 3, 4, 5, 6, 7, 8, 9, 10}"
    using assms(1) unfolding insert_iff empty_iff by arith
  then have "of_nat (unat x) \<in> {0, 1, 2, 3, 4, 5, 6, 7, 8, 9, 10 :: byte}"
    by (elim insertE emptyE) simp_all
  with assms(2) that show ?thesis by (auto simp: pb_ltype_defs)
qed

lemma fixed_bytes_load:
  "fixed32_bytes (load32 m p) = load_bytes m p 4" "fixed64_bytes (load64 m p) = load_bytes m p 8"
proof -
  have "unat (load32 m p) = le_val (load_bytes m p 4)"
    using le_val_less [of "load_bytes m p 4"]
    by (simp add: load32_def unat_of_nat take_bit_nat_eq_self)
  then show "fixed32_bytes (load32 m p) = load_bytes m p 4"
    using le_bytes_le_val [of "load_bytes m p 4"] by (simp add: fixed32_bytes_le)
  have "unat (load64 m p) = le_val (load_bytes m p 8)"
    using le_val_less [of "load_bytes m p 8"]
    by (simp add: load64_def unat_of_nat take_bit_nat_eq_self)
  then show "fixed64_bytes (load64 m p) = load_bytes m p 8"
    using le_bytes_le_val [of "load_bytes m p 8"] by (simp add: fixed64_bytes_le)
qed

lemma emits_delimited:
  assumes "length bs < 2 ^ 64" "n = of_nat (length bs)"
  shows "emits (lift_w (\<lambda>s. pb_encode_string s bs n)) (delimited bs)"
  using emits_string [OF assms(1)] assms(2) by (simp add: delimited_def)

lemma realises_enc_bytes: "realises (pb_enc_bytes m f p) (map_option delimited (bytes_member m f p))"
proof (cases "p = 0")
  case True
  then show ?thesis using emits_delimited [of "[]" 0]
    by (simp add: pb_enc_bytes_def bytes_member_def realises_def)
next
  case False
  let ?n = "bytes_array_size m p"
  have n: "unat ?n < 2 ^ 64" using unat_lt_u32 [of ?n] by simp
  have alloc: "unat (PB_BYTES_ARRAY_T_ALLOCSIZE ?n) = unat ?n + 4"
    using unat_lt_u32 [of ?n]
    by (simp add: PB_BYTES_ARRAY_T_ALLOCSIZE_def unat_word_ariths ucast_u32_u64_unat)
  then have "\<not> PB_BYTES_ARRAY_T_ALLOCSIZE ?n < ucast ?n"
    by (simp add: word_less_nat_alt ucast_u32_u64_unat)
  moreover have "realises (lift_w (\<lambda>s. pb_encode_string s (load_bytes m (bytes_array_bytes p) (unat ?n))
      (ucast ?n))) (Some (delimited (load_bytes m (bytes_array_bytes p) (unat ?n))))"
    using n by (intro realises_emits emits_delimited) auto
  ultimately show ?thesis
    using False realises_error [of "''bytes size exceeded''"]
    unfolding pb_enc_bytes_def bytes_member_def Let_def
    by (cases "PB_ATYPE (ftype f) = PB_ATYPE_STATIC \<and>
               ucast (data_size f) < PB_BYTES_ARRAY_T_ALLOCSIZE ?n") auto
qed

lemma c_strnlen_le: "c_strnlen m p n \<le> n"
proof (induction m p n rule: c_strnlen.induct)
  case (1 m p n)
  then show ?case by (cases "n = 0 \<or> m p = 0") (auto simp: c_strnlen.simps [of m p n])
qed

lemma emits_enc_string: "emits (pb_enc_string m f p) (delimited (c_string m f p))"
proof -
  let ?lim = "if PB_ATYPE (ftype f) = PB_ATYPE_POINTER then 2 ^ 64 - 1 else unat (data_size f)"
  have "?lim < 2 ^ 64" using unat_lt_u32 [of "data_size f"] by simp
  then have "c_strnlen m p ?lim < 2 ^ 64" using c_strnlen_le [of m p ?lim] by linarith
  then show ?thesis
    by (simp add: pb_enc_string_def c_string_def Let_def emits_delimited)
qed

lemma realises_option:
  "(\<And>v. r = Some v \<Longrightarrow> emits (w v) (b v)) \<Longrightarrow>
   realises (case r of None \<Rightarrow> w_error msg | Some v \<Rightarrow> w v) (map_option b r)"
  by (cases r) (simp_all add: realises_error realises_emits)

lemma realises_value:
  assumes wf: "enc_wf f"
    and sub: "\<And>fs. PB_LTYPE (ftype f) = PB_LTYPE_SUBMESSAGE \<Longrightarrow> submsg_fields f = Some fs \<Longrightarrow>
      realises (sub fs p) (ref fs p)"
  shows "realises (PB_ENCODERS sub m (PB_LTYPE (ftype f)) f p)
           (value_bytes ref m (PB_LTYPE (ftype f)) f p)"
  using enc_wf_type(2,1) [OF wf]
proof (cases rule: ltype_cases)
  case 1
  have "varint_bytes 1 = [1]" "varint_bytes 0 = [0]" by (simp_all add: varint_bytes_def)
  then show ?thesis
    using emits_varint [of 1] emits_varint [of 0] 1
    by (simp add: PB_ENCODERS_def value_bytes_def pb_ltype_defs pb_enc_bool_def safe_read_bool_def
        realises_emits)
next
  case 2
  then show ?thesis
    by (simp add: PB_ENCODERS_def value_bytes_def pb_ltype_defs pb_enc_varint_def realises_option
        emits_varint)
next
  case 3
  then show ?thesis
    by (simp add: PB_ENCODERS_def value_bytes_def pb_ltype_defs pb_enc_uvarint_def realises_option
        emits_varint)
next
  case 4
  then show ?thesis
    by (simp add: PB_ENCODERS_def value_bytes_def pb_ltype_defs pb_enc_svarint_def realises_option
        pb_encode_svarint_def emits_varint)
next
  case 5
  then show ?thesis using emits_fixed32 [of "load32 m p"]
    by (simp add: PB_ENCODERS_def value_bytes_def pb_ltype_defs pb_enc_fixed32_def realises_emits
        fixed_bytes_load)
next
  case 6
  then show ?thesis using emits_fixed64 [of "load64 m p"]
    by (simp add: PB_ENCODERS_def value_bytes_def pb_ltype_defs pb_enc_fixed64_def realises_emits
        fixed_bytes_load)
next
  case 7
  then show ?thesis
    by (simp add: PB_ENCODERS_def value_bytes_def pb_ltype_defs realises_enc_bytes)
next
  case 8
  then show ?thesis
    by (simp add: PB_ENCODERS_def value_bytes_def pb_ltype_defs emits_enc_string realises_emits)
next
  case 9
  from wf 9 obtain fs where fs: "ptr f = Ptr_fields fs" "submsg_fields f = Some fs"
    by (rule enc_wf_submsg)
  with realises_submessage [OF sub [OF 9 fs(2)]] 9 show ?thesis
    by (simp add: PB_ENCODERS_def value_bytes_def pb_ltype_defs pb_enc_submessage_def)
next
  case 10
  have "emits (pb_enc_fixed_length_bytes m f p) (delimited (load_bytes m p (unat (data_size f))))"
    using unat_lt_u32 [of "data_size f"]
    by (auto simp: pb_enc_fixed_length_bytes_def intro!: emits_delimited)
  then show ?thesis using 10
    by (simp add: PB_ENCODERS_def value_bytes_def pb_ltype_defs realises_emits)
qed

section \<open>Arrays\<close>

lemma realises_if [emit_intros]:
  "(c \<Longrightarrow> realises w1 r1) \<Longrightarrow> (\<not> c \<Longrightarrow> realises w2 r2) \<Longrightarrow>
   realises (if c then w1 else w2) (if c then r1 else r2)"
  by simp

text \<open>A failing callback adds its own message, which never replaces an earlier one.\<close>

lemma realises_callback:
  assumes "realises (lift_w w) r"
  shows "realises (\<lambda>s. case w s of (False, s') \<Rightarrow> Some (ostream_error s' msg)
                                | (True, s') \<Rightarrow> Some (True, s')) r" (is "realises ?w r")
proof (cases r)
  case None
  have "\<exists>s'. ?w s = Some (False, s')" for s
  proof -
    have "fails (lift_w w)" using assms None by (simp add: realises_def)
    then obtain s' where "lift_w w s = Some (False, s')" unfolding fails_def by blast
    then show ?thesis by (simp add: lift_w_def ostream_error_def)
  qed
  with None show ?thesis by (simp add: realises_def fails_def)
next
  case (Some bs)
  have "emits ?w bs" if em: "emits (lift_w w) bs"
    unfolding emits_def
  proof (intro conjI allI impI; (elim conjE)?)
    fix s assume s: "buffered s" "room s < length bs" "length bs < 2 ^ 63" "unat (max_size s) < 2 ^ 63"
    from emits_full [OF em this] obtain s' where "w s = (False, s')" "stopped_full s (False, s')"
      by (auto simp: lift_w_def)
    then show "stopped_full s (the (?w s))"
      by (simp add: stopped_full_def ostream_error_def PB_SET_ERROR_def)
  next
    fix cb content s s'
    assume sink: "byte_sink cb content" "callback s = Some cb" and ok: "?w s = Some (True, s')"
    then have "lift_w w s = Some (True, s')"
      by (auto simp: lift_w_def ostream_error_def split: prod.splits bool.splits)
    from emits_sink [OF em sink this]
    show "content (state s') = content (state s) @ bs" "callback s' = Some cb"
      "bytes_written s' = bytes_written s + of_nat (length bs)" by auto
  qed (use emits_sizing [OF em] emits_fit [OF em] in
      \<open>auto simp: lift_w_def split: prod.splits bool.splits\<close>)
  with Some assms show ?thesis by (simp add: realises_def)
qed

lemma realises_items:
  assumes "\<And>q. realises (w q) (r q)"
  shows "realises (encode_items w step n p) (items_bytes r step n p)"
proof (induction n arbitrary: p)
  case (Suc n)
  then show ?case using assms by (simp add: realises_then)
qed (simp add: realises_ok)

lemma items_fixed_length:
  assumes "\<forall>q. \<exists>bs. r q = Some bs \<and> length bs = k"
  shows "\<exists>bs. items_bytes r step n p = Some bs \<and> length bs = k * n"
proof (induction n arbitrary: p)
  case (Suc n)
  obtain a where "r p = Some a" "length a = k" using assms by blast
  moreover obtain b where "items_bytes r step n (p + step) = Some b" "length b = k * n"
    using Suc by blast
  ultimately show ?case by (simp)
qed simp

text \<open>Writing the items, or only counting them on a sizing stream.\<close>

lemma emits_or_count:
  assumes "emits w bs"
  shows "emits (\<lambda>s. if callback s = None then Some (pb_write s [] (of_nat (length bs))) else w s) bs"
    (is "emits ?w bs")
proof -
  have sz: "?w s = w s" if "callback s = None" for s
    using that emits_sizing [OF assms that] by (simp add: pb_write_def counted_def)
  have "?w = w" by (rule ext) (use sz in auto)
  with assms show ?thesis by simp
qed

lemma realises_packed_data:
  assumes items: "\<And>q. realises (func q) (r q)"
    and f32: "PB_LTYPE (ftype f) = PB_LTYPE_FIXED32 \<Longrightarrow> \<forall>q. \<exists>bs. r q = Some bs \<and> length bs = 4"
    and f64: "PB_LTYPE (ftype f) = PB_LTYPE_FIXED64 \<Longrightarrow> \<forall>q. \<exists>bs. r q = Some bs \<and> length bs = 8"
  shows "realises (encode_packed_data func f pd count)
    (map_option delimited (items_bytes r (ucast (data_size f)) count pd))"
proof -
  let ?step = "ucast (data_size f) :: u64"
  let ?items = "encode_items func ?step count pd" and ?ref = "items_bytes r ?step count pd"
  have it: "realises ?items ?ref" by (rule realises_items [OF items])
  show ?thesis
  proof (cases ?ref)
    case None
    then have "fails ?items" using it by (simp add: realises_def)
    then obtain t where t: "?items PB_OSTREAM_SIZING = Some (False, t)" unfolding fails_def by blast
    have "PB_LTYPE (ftype f) \<noteq> PB_LTYPE_FIXED32" "PB_LTYPE (ftype f) \<noteq> PB_LTYPE_FIXED64"
      using items_fixed_length [of r 4 ?step count pd] items_fixed_length [of r 8 ?step count pd]
        f32 f64 None by auto
    with t None show ?thesis by (simp add: realises_def fails_def encode_packed_data_def Let_def)
  next
    case (Some bs)
    then have em: "emits ?items bs" using it by (simp add: realises_def)
    have sz: "?items PB_OSTREAM_SIZING = Some (True, counted PB_OSTREAM_SIZING (length bs))"
      by (rule emits_sizing [OF em]) (simp add: PB_OSTREAM_SIZING_def)
    have "length bs = 4 * count" if "PB_LTYPE (ftype f) = PB_LTYPE_FIXED32"
      using items_fixed_length [of r 4 ?step count pd] f32 [OF that] Some by auto
    moreover have "length bs = 8 * count" if "PB_LTYPE (ftype f) = PB_LTYPE_FIXED64"
      using items_fixed_length [of r 8 ?step count pd] f64 [OF that] Some by auto
    ultimately have "(if PB_LTYPE (ftype f) = PB_LTYPE_FIXED32 then Some (True, 4 * of_nat count)
        else if PB_LTYPE (ftype f) = PB_LTYPE_FIXED64 then Some (True, 8 * of_nat count)
        else map_option (\<lambda>(ok, t). (ok, bytes_written t)) (?items PB_OSTREAM_SIZING)) =
      Some (True, of_nat (length bs))"
      using sz by (simp add: counted_def PB_OSTREAM_SIZING_def)
    then have "encode_packed_data func f pd count =
      w_then (lift_w (\<lambda>s. pb_encode_varint s (of_nat (length bs))))
        (\<lambda>s. if callback s = None then Some (pb_write s [] (of_nat (length bs))) else ?items s)"
      unfolding encode_packed_data_def Let_def by (simp only: option.case prod.case bool.case)
    then show ?thesis
      using emits_then [OF emits_varint emits_or_count [OF em]] Some
      by (simp add: realises_def delimited_def)
  qed
qed

lemma value_fixed_length:
  "PB_LTYPE (ftype f) = PB_LTYPE_FIXED32 \<Longrightarrow>
     \<exists>bs. value_bytes ref m (PB_LTYPE (ftype f)) f q = Some bs \<and> length bs = 4"
  "PB_LTYPE (ftype f) = PB_LTYPE_FIXED64 \<Longrightarrow>
     \<exists>bs. value_bytes ref m (PB_LTYPE (ftype f)) f q = Some bs \<and> length bs = 8"
  by (simp_all add: value_bytes_def pb_ltype_defs)

lemma realises_array:
  assumes val: "\<And>q. realises (func f q) (val f q)"
    and f32: "PB_LTYPE (ftype f) = PB_LTYPE_FIXED32 \<Longrightarrow> \<forall>q. \<exists>bs. val f q = Some bs \<and> length bs = 4"
    and f64: "PB_LTYPE (ftype f) = PB_LTYPE_FIXED64 \<Longrightarrow> \<forall>q. \<exists>bs. val f q = Some bs \<and> length bs = 8"
  shows "realises (encode_array m f pd count func) (array_bytes m f pd count val)"
proof -
  have tg: "realises (lift_w (\<lambda>s. pb_encode_tag s PB_WT_STRING (tag f)))
    (Some (varint_bytes (tag_word PB_WT_STRING (tag f))))"
    unfolding pb_encode_tag_def by (rule realises_emits [OF emits_varint])
  have packed: "realises (w_then (lift_w (\<lambda>s. pb_encode_tag s PB_WT_STRING (tag f)))
        (encode_packed_data (func f) f pd count))
      (r_then (Some (varint_bytes (tag_word PB_WT_STRING (tag f))))
        (map_option delimited (items_bytes (val f) (ucast (data_size f)) count pd)))"
    by (rule realises_then [OF tg realises_packed_data [OF val f32 f64]])
  let ?deref = "PB_ATYPE (ftype f) = PB_ATYPE_POINTER \<and>
    (PB_LTYPE (ftype f) = PB_LTYPE_STRING \<or> PB_LTYPE (ftype f) = PB_LTYPE_BYTES)"
  have item: "realises (w_then (lift_w (\<lambda>s. pb_encode_tag_for_field s f))
        (if ?deref then func f (load64 m p) else func f p))
      (array_item_bytes m f val p)" for p
    unfolding array_item_bytes_def using val by (intro realises_then realises_tag_for_field) auto
  show ?thesis
    unfolding encode_array_def array_bytes_def
    by (intro realises_if packed realises_items item realises_ok realises_error)
qed

section \<open>Fields\<close>

text \<open>The zero-value check has a result when the budget covers the nesting depth.\<close>

lemma check_default_with_defined:
  assumes "enc_wf f"
    and "\<And>fs. PB_LTYPE (ftype f) = PB_LTYPE_SUBMESSAGE \<Longrightarrow> submsg_fields f = Some fs \<Longrightarrow> sub fs pd \<noteq> None"
  shows "check_default_with sub m f pd \<noteq> None"
proof (cases "PB_LTYPE (ftype f) = PB_LTYPE_SUBMESSAGE")
  case True
  from assms(1) True obtain fs where "submsg_fields f = Some fs" by (rule enc_wf_submsg)
  with assms(2) [OF True] show ?thesis
    unfolding check_default_with_def Let_def by (simp del: not_None_eq split: if_split)
next
  case False
  then show ?thesis
    unfolding check_default_with_def Let_def by (simp del: not_None_eq split: if_split)
qed

lemma check_default_fields_defined:
  assumes "list_all enc_wf fs" "msg_depth fs < n"
  shows "check_default_fields n m fs pd \<noteq> None"
  using assms
proof (induction n arbitrary: fs pd)
  case (Suc n)
  let ?body = "\<lambda>it (u :: unit). map_option (\<lambda>b. (b, u))
    (check_default_with (check_default_fields n m) m (iter_field it) (pData it))"
  have body: "?body (iter_at fs pd j) u \<noteq> None" if j: "j < field_count fs" for j u
  proof -
    let ?f = "field_at fs j"
    have wf: "enc_wf ?f" and d: "field_depth ?f \<le> msg_depth fs"
      using field_at_mem [OF j] Suc.prems(1) field_depth_le by (auto simp: list_all_iff)
    have "check_default_fields n m gs p \<noteq> None"
      if "PB_LTYPE (ftype ?f) = PB_LTYPE_SUBMESSAGE" "submsg_fields ?f = Some gs" for gs p
      using enc_wf_submsg [OF wf that(1)] that(2) d Suc.prems(2) Suc.IH [of gs p] by force
    then show ?thesis using check_default_with_defined [OF wf] by simp
  qed
  show ?case
  proof (cases "field_count fs = 0")
    case False
    then show ?thesis
      using iter_each_defined [of 0 fs "length fs" ?body pd "()"] body field_count_le [of fs]
      by (auto simp: iter_begin)
  qed (simp add: iter_begin)
qed simp

lemma check_default_defined:
  assumes wf: "enc_wf f" and "field_depth f \<le> n"
  shows "pb_check_proto3_default_value n m f pd \<noteq> None"
  unfolding pb_check_proto3_default_value_def
proof (rule check_default_with_defined [OF wf])
  fix fs assume "PB_LTYPE (ftype f) = PB_LTYPE_SUBMESSAGE" "submsg_fields f = Some fs"
  then have "list_all enc_wf fs" "msg_depth fs < n"
    using enc_wf_submsg [OF wf] assms(2) by force+
  then show "check_default_fields n m fs pd \<noteq> None" by (rule check_default_fields_defined)
qed

lemma realises_basic_field:
  assumes wf: "enc_wf f" and depth: "field_depth f \<le> n"
    and sub: "\<And>fs p. PB_LTYPE (ftype f) = PB_LTYPE_SUBMESSAGE \<Longrightarrow> submsg_fields f = Some fs \<Longrightarrow>
      realises (sub fs p) (ref fs p)"
  shows "realises (encode_basic_field n sub m f pd) (basic_field_bytes n ref m f pd)"
proof -
  let ?func = "PB_ENCODERS sub m (PB_LTYPE (ftype f))"
    and ?val = "value_bytes ref m (PB_LTYPE (ftype f))"
  have val: "realises (?func f q) (?val f q)" for q by (rule realises_value [OF wf sub])
  have one: "realises (encode_value ?func f q) (r_then (key_bytes f) (?val f q))" for q
    unfolding encode_value_def by (rule realises_then [OF realises_tag_for_field val])
  have arr: "realises (encode_array m f q c ?func) (array_bytes m f q c ?val)" for q c
    by (rule realises_array [where val = ?val]) (use val value_fixed_length in blast)+
  obtain dv where dv: "pb_check_proto3_default_value n m f pd = Some dv"
    using check_default_defined [OF wf depth] by auto
  show ?thesis
    unfolding encode_basic_field_def basic_field_bytes_def Let_def
    using one arr realises_ok realises_error dv
    by (cases dv) (simp_all add: safe_read_bool_def)
qed

lemma realises_field:
  assumes wf: "enc_wf f" and depth: "field_depth f \<le> n" and cbs: "callbacks_emit env m cbs"
    and sub: "\<And>fs p. PB_LTYPE (ftype f) = PB_LTYPE_SUBMESSAGE \<Longrightarrow> submsg_fields f = Some fs \<Longrightarrow>
      realises (sub fs p) (ref fs p)"
  shows "realises (encode_field env n sub m f pd) (field_bytes cbs n ref m f pd)"
proof -
  have "realises (encode_callback_field env m f pd)
    (if callback_func m pd \<noteq> 0 then cbs (callback_func m pd) f (callback_arg pd) else Some [])"
    unfolding encode_callback_field_def
    by (intro realises_if realises_callback realises_ok)
       (use cbs in \<open>simp add: callbacks_emit_def\<close>)
  then show ?thesis
    unfolding encode_field_def field_bytes_def
    by (intro realises_if realises_basic_field [OF wf depth sub] realises_error)
qed

section \<open>Messages\<close>

lemma realises_each:
  assumes "i < field_count fs" "field_count fs \<le> i + n"
    and body: "\<And>j. j < field_count fs \<Longrightarrow> realises (body (iter_at fs d j)) (r j)"
  shows "realises (iter_each n body (iter_at fs d i)) (r_concat (map r [i..<field_count fs]))"
  using assms(1,2)
proof (induction n arbitrary: i)
  case (Suc n)
  have upt: "[i..<field_count fs] = i # [Suc i..<field_count fs]"
    using Suc.prems(1) by (rule upt_conv_Cons)
  show ?case
  proof (cases "Suc i < field_count fs")
    case True
    have "iter_each (Suc n) body (iter_at fs d i) =
      w_then (body (iter_at fs d i)) (iter_each n body (iter_at fs d (Suc i)))"
      using True
      by (auto simp: w_then_def iter_next [OF Suc.prems(1)] split: option.splits bool.splits)
    moreover have "realises (iter_each n body (iter_at fs d (Suc i)))
      (r_concat (map r [Suc i..<field_count fs]))"
      using Suc True by simp
    ultimately show ?thesis
      unfolding upt by (simp add: realises_then [OF body [OF Suc.prems(1)]])
  next
    case False
    then have "iter_each (Suc n) body (iter_at fs d i) = w_then (body (iter_at fs d i)) w_ok"
      by (auto simp: w_then_def w_ok_def iter_next [OF Suc.prems(1)] split: option.splits bool.splits)
    with False show ?thesis
      unfolding upt using realises_then [OF body [OF Suc.prems(1)] realises_ok] by simp
  qed
qed simp

lemma realises_pb_encode:
  assumes "list_all enc_wf fs" "msg_depth fs < n" and cbs: "callbacks_emit env m cbs"
  shows "realises (pb_encode n env m fs src) (msg_bytes cbs n m fs src)"
  using assms(1,2)
proof (induction n arbitrary: fs src)
  case (Suc n)
  let ?body = "\<lambda>it. if PB_LTYPE (ftype (iter_field it)) = PB_LTYPE_EXTENSION
      then encode_extension_field env n (pb_encode n env m) m (pData it)
      else encode_field env n (pb_encode n env m) m (iter_field it) (pData it)"
  let ?r = "\<lambda>i. field_bytes cbs n (msg_bytes cbs n m) m (field_at fs i) (data_addr fs src i)"
  have body: "realises (?body (iter_at fs src j)) (?r j)" if j: "j < field_count fs" for j
  proof -
    have wf: "enc_wf (field_at fs j)" and d: "field_depth (field_at fs j) \<le> msg_depth fs"
      using field_at_mem [OF j] Suc.prems(1) field_depth_le by (auto simp: list_all_iff)
    have "realises (encode_field env n (pb_encode n env m) m (field_at fs j) (data_addr fs src j)) (?r j)"
    proof (rule realises_field [OF wf _ cbs])
      fix gs p assume "PB_LTYPE (ftype (field_at fs j)) = PB_LTYPE_SUBMESSAGE"
        "submsg_fields (field_at fs j) = Some gs"
      then have "list_all enc_wf gs" "msg_depth gs < n"
        using enc_wf_submsg [OF wf] d Suc.prems(2) by force+
      then show "realises (pb_encode n env m gs p) (msg_bytes cbs n m gs p)" by (rule Suc.IH)
    qed (use d Suc.prems(2) in simp)
    then show ?thesis using enc_wf_type(1) [OF wf] by simp
  qed
  show ?case
  proof (cases "field_count fs = 0")
    case True
    then show ?thesis using realises_ok by (simp add: iter_begin w_ok_def)
  next
    case False
    then have "pb_encode (Suc n) env m fs src = iter_each (length fs) ?body (iter_at fs src 0)"
      by (simp add: iter_begin fun_eq_iff)
    with False show ?thesis
      using realises_each [of 0 fs "length fs" ?body src ?r] body field_count_le [of fs] by simp
  qed
qed simp

end
