(* ===== verification/Pb_Encode_Props.thy ===== *)
theory Pb_Encode_Props
  imports Pb_Encode_Spec
begin

text \<open>
  What \<^verbatim>\<open>pb_encode\<close> and its variants promise to a caller, read off the refinement of
  \<open>Pb_Encode_Spec\<close>: the sizing pass predicts the writing pass, a buffer that is too small is
  reported and not overrun, the delimited and null-terminated forms frame the same bytes.
  A sample message with a nested message, a packed array, a string and a callback field
  shows that the hypotheses can be met.
\<close>

section \<open>A sample message\<close>

text \<open>
  \<^verbatim>\<open>struct inner { int32_t id; }\<close> and \<^verbatim>\<open>struct { uint32_t n_count; uint32_t n[2];
  char s[4]; struct inner in; pb_callback_t cb; }\<close> at address 100.
\<close>

definition sample_inner :: "pb_field list" where
  "sample_inner = [Pb_field 1 (PB_ATYPE_STATIC OR PB_HTYPE_REQUIRED OR PB_LTYPE_VARINT) 0 0 4 0 Ptr_NULL,
     PB_LAST_FIELD]"

definition sample_fields :: "pb_field list" where
  "sample_fields =
     [Pb_field 1 (PB_ATYPE_STATIC OR PB_HTYPE_REPEATED OR PB_LTYPE_UVARINT) 4 (- 4) 4 2 Ptr_NULL,
      Pb_field 2 (PB_ATYPE_STATIC OR PB_HTYPE_OPTIONAL OR PB_LTYPE_STRING) 0 0 4 0 Ptr_NULL,
      Pb_field 3 (PB_ATYPE_STATIC OR PB_HTYPE_REQUIRED OR PB_LTYPE_SUBMESSAGE) 0 0 4 0
        (Ptr_fields sample_inner),
      Pb_field 4 (PB_ATYPE_CALLBACK OR PB_HTYPE_OPTIONAL OR PB_LTYPE_BYTES) 4 0 16 0 Ptr_NULL,
      PB_LAST_FIELD]"

definition sample_mem :: mem where
  "sample_mem = (\<lambda>a. if a = 100 then 2 else if a = 104 then 3 else if a = 108 then 0x2C
     else if a = 109 then 1 else if a = 112 then 0x68 else if a = 113 then 0x69
     else if a = 116 then 7 else if a = 124 then 0x90 else 0)"

definition sample_env :: pb_enc_env where
  "sample_env =
     \<lparr>enc_fn = (\<lambda>fn m f a s. pb_encode_varint s 0x22),
      ext_enc_fn = (\<lambda>fn m e s. (True, s)),
      ext_types = (\<lambda>a. Pb_extension_type None None PB_LAST_FIELD)\<rparr>"

definition sample_callbacks :: callback_bytes where
  "sample_callbacks = (\<lambda>fn f a. Some (varint_bytes 0x22))"

definition sample_bytes :: "byte list" where
  "sample_bytes = [0x0A, 3, 3, 0xAC, 2, 0x12, 2, 0x68, 0x69, 0x1A, 2, 8, 7, 0x22]"

lemma sample_wf: "list_all enc_wf sample_fields" "msg_depth sample_fields < 3"
  by code_simp+

lemma sample_callbacks_emit: "callbacks_emit sample_env m sample_callbacks"
  by (simp add: callbacks_emit_def sample_env_def sample_callbacks_def realises_emits emits_varint)

lemma sample_encoding: "msg_bytes sample_callbacks 3 sample_mem sample_fields 100 = Some sample_bytes"
  by code_simp

lemma from_buffer_stream [simp]:
  "buffered (pb_ostream_from_buffer sz)" "room (pb_ostream_from_buffer sz) = unat sz"
  "state (pb_ostream_from_buffer sz) = []" "max_size (pb_ostream_from_buffer sz) = sz"
  "bytes_written (pb_ostream_from_buffer sz) = 0"
  by (simp_all add: buffered_def room_def pb_ostream_from_buffer_def)

lemma sizing_stream [simp]: "callback PB_OSTREAM_SIZING = None" "bytes_written PB_OSTREAM_SIZING = 0"
  by (simp_all add: PB_OSTREAM_SIZING_def)

lemma realises_Some: "realises w (Some bs) \<longleftrightarrow> emits w bs"
  by (simp add: realises_def)

lemma realises_sizing_True:
  assumes "realises w r" "w PB_OSTREAM_SIZING = Some (True, z)"
  obtains bs where "r = Some bs" "emits w bs" "bytes_written z = of_nat (length bs)"
proof (cases r)
  case None
  with assms(1) have "\<exists>s'. w PB_OSTREAM_SIZING = Some (False, s')"
    unfolding realises_def fails_def by auto
  with assms(2) show ?thesis by simp
next
  case (Some bs)
  with assms(1) have "emits w bs" by (simp add: realises_def)
  with emits_sizing [OF this, of PB_OSTREAM_SIZING] assms(2) Some that show ?thesis
    by (simp add: counted_def)
qed

text \<open>Writing an emission into a fresh buffer.\<close>

lemma emits_into_buffer:
  assumes "emits w bs" "length bs \<le> unat sz"
  shows "\<exists>s. w (pb_ostream_from_buffer sz) = Some (True, s) \<and> state s = bs \<and>
    bytes_written s = of_nat (length bs)"
  using emits_fit [OF assms(1), of "pb_ostream_from_buffer sz"] assms(2)
  by (simp add: appended_def counted_def)

lemma emits_into_small_buffer:
  assumes "emits w bs" "unat sz < length bs" "length bs < 2 ^ 63"
  shows "\<exists>s. w (pb_ostream_from_buffer sz) = Some (False, s) \<and> errmsg s = Some ''stream full'' \<and>
    length (state s) \<le> unat sz"
  using emits_full [OF assms(1), of "pb_ostream_from_buffer sz"] assms(2,3)
  by (auto simp: stopped_full_def)

section \<open>Properties of the message encoder\<close>

text \<open>
  C1: the streaming encoder implements the reference encoder. For a well-formed descriptor,
  a budget above its nesting depth and callbacks that emit a fixed byte string,
  \<^verbatim>\<open>pb_encode\<close> writes, on every kind of stream, exactly the bytes \<open>msg_bytes\<close> gives for
  the message in memory, or reports an error on every stream when \<open>msg_bytes\<close> has none.
\<close>
theorem encode_refines_reference:
  assumes "list_all enc_wf fs" "msg_depth fs < n" "callbacks_emit env m cbs"
  shows "realises (pb_encode n env m fs src) (msg_bytes cbs n m fs src)"
  using assms by (rule realises_pb_encode)

theorem encode_refines_reference_witness:
  "realises (pb_encode 3 sample_env sample_mem sample_fields 100) (Some sample_bytes)"
  using encode_refines_reference [OF sample_wf sample_callbacks_emit, of sample_mem 100]
  by (simp only: sample_encoding)

text \<open>
  C2: the two-pass protocol of the clients. When the sizing pass succeeds and the buffer is
  at least as large as the size it reports (and the encoding is shorter than $2^{64}$
  bytes), the second pass into the buffer succeeds, writes exactly the reference encoding
  and counts exactly the predicted number of bytes.
\<close>
theorem encode_two_pass:
  assumes "list_all enc_wf fs" "msg_depth fs < n" "callbacks_emit env m cbs"
    and "pb_encode n env m fs src PB_OSTREAM_SIZING = Some (True, z)"
    and "bytes_written z \<le> bufsize"
    and "length (the (msg_bytes cbs n m fs src)) < 2 ^ 64"
  shows "\<exists>s bs. pb_encode n env m fs src (pb_ostream_from_buffer bufsize) = Some (True, s) \<and>
    msg_bytes cbs n m fs src = Some bs \<and> state s = bs \<and>
    bytes_written s = bytes_written z \<and> unat (bytes_written z) = length bs"
proof -
  from realises_pb_encode [OF assms(1-3)] assms(4) obtain bs where
    bs: "msg_bytes cbs n m fs src = Some bs" "emits (pb_encode n env m fs src) bs"
    "bytes_written z = of_nat (length bs)"
    by (rule realises_sizing_True)
  moreover from this assms(6) have "unat (bytes_written z) = length bs"
    by (simp add: unat_of_nat_u64)
  ultimately show ?thesis
    using emits_into_buffer [OF bs(2), of bufsize] assms(5) by (auto simp: word_le_nat_alt)
qed

lemma sample_emits: "emits (pb_encode 3 sample_env sample_mem sample_fields 100) sample_bytes"
  using realises_pb_encode [OF sample_wf sample_callbacks_emit, of sample_mem 100]
  by (simp only: sample_encoding realises_Some)

lemma sample_length: "length sample_bytes = 14"
  by (simp add: sample_bytes_def)

lemma sample_sizing:
  "pb_encode 3 sample_env sample_mem sample_fields 100 PB_OSTREAM_SIZING =
     Some (True, counted PB_OSTREAM_SIZING 14)"
  using emits_sizing [OF sample_emits, of PB_OSTREAM_SIZING] by (simp add: sample_length)

theorem encode_two_pass_witness:
  "\<exists>s. pb_encode 3 sample_env sample_mem sample_fields 100 (pb_ostream_from_buffer 16) =
     Some (True, s) \<and> state s = sample_bytes \<and> bytes_written s = 14"
  using encode_two_pass [OF sample_wf sample_callbacks_emit sample_sizing, of 16]
  by (simp add: sample_encoding sample_length counted_def)

text \<open>
  C3: a buffer that is too small. When the reference encoding is longer than the buffer
  (and shorter than $2^{63}$ bytes), \<^verbatim>\<open>pb_encode\<close> returns false with the message
  \<^verbatim>\<open>stream full\<close>, and has stored no more bytes than the buffer holds.
\<close>
theorem encode_stream_full:
  assumes "list_all enc_wf fs" "msg_depth fs < n" "callbacks_emit env m cbs"
    and "msg_bytes cbs n m fs src = Some bs" "unat bufsize < length bs" "length bs < 2 ^ 63"
  shows "\<exists>s. pb_encode n env m fs src (pb_ostream_from_buffer bufsize) = Some (False, s) \<and>
    errmsg s = Some ''stream full'' \<and> length (state s) \<le> unat bufsize"
  using realises_pb_encode [OF assms(1-3), of src] assms(4-)
  by (auto simp: realises_Some intro: emits_into_small_buffer)

theorem encode_stream_full_witness:
  "\<exists>s. pb_encode 3 sample_env sample_mem sample_fields 100 (pb_ostream_from_buffer 13) =
     Some (False, s) \<and> errmsg s = Some ''stream full'' \<and> length (state s) \<le> 13"
  using encode_stream_full [OF sample_wf sample_callbacks_emit sample_encoding, of 13]
  by (simp add: sample_length)

lemma encoded_size_bytes:
  assumes "list_all enc_wf fs" "msg_depth fs < n" "callbacks_emit env m cbs"
  shows "pb_get_encoded_size n env m fs src =
    Some (map_option (\<lambda>bs. of_nat (length bs)) (msg_bytes cbs n m fs src))"
proof (cases "msg_bytes cbs n m fs src")
  case None
  then obtain s' where "pb_encode n env m fs src PB_OSTREAM_SIZING = Some (False, s')"
    using realises_pb_encode [OF assms, of src] unfolding realises_def fails_def by auto
  with None show ?thesis by (simp add: pb_get_encoded_size_def)
next
  case (Some bs)
  then have "emits (pb_encode n env m fs src) bs"
    using realises_pb_encode [OF assms, of src] by (simp add: realises_def)
  from emits_sizing [OF this, of PB_OSTREAM_SIZING] Some show ?thesis
    by (simp add: pb_get_encoded_size_def counted_def)
qed

text \<open>
  \<^verbatim>\<open>pb_get_encoded_size\<close> reports the length of the reference encoding, modulo
  $2^{64}$, and reports failure exactly when there is no encoding.
\<close>
theorem encoded_size_correct:
  assumes "list_all enc_wf fs" "msg_depth fs < n" "callbacks_emit env m cbs"
  shows "pb_get_encoded_size n env m fs src =
    Some (map_option (\<lambda>bs. of_nat (length bs)) (msg_bytes cbs n m fs src))"
  using assms by (rule encoded_size_bytes)

theorem encoded_size_correct_witness:
  "pb_get_encoded_size 3 sample_env sample_mem sample_fields 100 = Some (Some 14)"
  using encoded_size_correct [OF sample_wf sample_callbacks_emit, of sample_mem 100]
  by (simp add: sample_encoding sample_length)

text \<open>
  \<^verbatim>\<open>pb_encode_delimited\<close> writes the length of the encoding as a varint and then the
  encoding, \<^verbatim>\<open>pb_encode_nullterminated\<close> the encoding and a zero byte; both fail exactly when
  \<^verbatim>\<open>pb_encode\<close> does.
\<close>
theorem encode_framing:
  assumes "list_all enc_wf fs" "msg_depth fs < n" "callbacks_emit env m cbs"
  shows "realises (pb_encode_delimited n env m fs src) (map_option delimited (msg_bytes cbs n m fs src)) \<and>
    realises (pb_encode_nullterminated n env m fs src)
      (map_option (\<lambda>bs. bs @ [0]) (msg_bytes cbs n m fs src))"
proof -
  note enc = realises_pb_encode [OF assms, of src]
  have zero: "emits (lift_w (\<lambda>s. pb_write s [0] 1)) [0]" using emits_pb_write [of "[0]"] by simp
  have "realises (pb_encode_nullterminated n env m fs src)
      (r_then (msg_bytes cbs n m fs src) (Some [0]))"
    unfolding pb_encode_nullterminated_def by (rule realises_then [OF enc realises_emits [OF zero]])
  then show ?thesis
    using realises_submessage [OF enc]
    by (cases "msg_bytes cbs n m fs src") (simp_all add: pb_encode_delimited_def r_then_def)
qed

theorem encode_framing_witness:
  "realises (pb_encode_delimited 3 sample_env sample_mem sample_fields 100) (Some (14 # sample_bytes)) \<and>
   realises (pb_encode_nullterminated 3 sample_env sample_mem sample_fields 100)
     (Some (sample_bytes @ [0]))"
proof -
  have "varint_bytes 14 = [14]" by code_simp
  then show ?thesis
    using encode_framing [OF sample_wf sample_callbacks_emit, of sample_mem 100]
    by (simp add: sample_encoding sample_length delimited_def)
qed

end
