(* ===== verification/Pb_Istream.thy ===== *)
theory Pb_Istream
  imports Pb_Types
begin

unbundle bit_operations_syntax

text \<open>
  Input streams and the wire-format readers of \<^verbatim>\<open>nanopb/pb_decode.c\<close>.
  A stream's callback is the library's own \<^verbatim>\<open>buf_read\<close> or one of the client's; the code
  compares the function pointer with \<^verbatim>\<open>buf_read\<close>, so the two are distinct constructors.
  The state of a memory-buffer stream is the memory from the C pointer \<^verbatim>\<open>stream->state\<close>
  on, to the end of the buffer object. A reader returns the value it stores through its
  pointer argument, or \<open>None\<close> when the C function returns false.
\<close>

section \<open>Streams\<close>

datatype read_result =
    Read_ok "byte list" "byte list"   \<comment> \<open>the bytes stored in the caller's buffer, the new state\<close>
  | Read_fail "byte list"
  | Read_eof "byte list"              \<comment> \<open>fails and sets \<^verbatim>\<open>bytes_left\<close> to zero\<close>

datatype read_callback =
    is_buf_read: Buf_read
  | User_read "byte list \<Rightarrow> u64 \<Rightarrow> read_result"

record pb_istream =
  icallback :: read_callback
  istate :: "byte list"
  bytes_left :: u64
  ierrmsg :: "string option"

definition buf_read :: "byte list \<Rightarrow> u64 \<Rightarrow> read_result" where
  "buf_read st count = Read_ok (take (unat count) st) (drop (unat count) st)"

definition call_read :: "read_callback \<Rightarrow> byte list \<Rightarrow> u64 \<Rightarrow> read_result" where
  "call_read cb = (case cb of Buf_read \<Rightarrow> buf_read | User_read r \<Rightarrow> r)"

definition set_ierror :: "pb_istream \<Rightarrow> string \<Rightarrow> pb_istream" where
  "set_ierror s msg = s\<lparr>ierrmsg := PB_SET_ERROR (ierrmsg s) msg\<rparr>"

text \<open>The part of \<^verbatim>\<open>pb_read\<close> that calls the callback, for a non-zero count.\<close>

definition pb_read_direct :: "pb_istream \<Rightarrow> u64 \<Rightarrow> byte list option \<times> pb_istream" where
  "pb_read_direct s count =
     (if bytes_left s < count then (None, set_ierror s ''end-of-stream'')
      else (case call_read (icallback s) (istate s) count of
              Read_ok bs st \<Rightarrow> (Some bs, s\<lparr>istate := st, bytes_left := bytes_left s - count\<rparr>)
            | Read_fail st \<Rightarrow> (None, set_ierror (s\<lparr>istate := st\<rparr>) ''io error'')
            | Read_eof st \<Rightarrow> (None, set_ierror (s\<lparr>istate := st, bytes_left := 0\<rparr>) ''io error'')))"

text \<open>\<^verbatim>\<open>while (count > 16)\<close>: skipping by reading into a 16-byte scratch buffer.\<close>

function skip_loop :: "pb_istream \<Rightarrow> u64 \<Rightarrow> byte list option \<times> pb_istream" where
  "skip_loop s count =
     (if 16 < count then
        (case pb_read_direct s 16 of
           (None, s') \<Rightarrow> (None, s')
         | (Some _, s') \<Rightarrow> skip_loop s' (count - 16))
      else if count = 0 then (Some [], s)
      else pb_read_direct s count)"
  by pat_completeness auto
termination
  by (relation "measure (\<lambda>(s, count). unat count)")
     (auto simp: word_less_nat_alt unat_sub_if' word_le_nat_alt)

declare skip_loop.simps [simp del]

text \<open>\<^verbatim>\<open>pb_read\<close>; \<open>buf\<close> is false for a null destination.\<close>

definition pb_read :: "pb_istream \<Rightarrow> bool \<Rightarrow> u64 \<Rightarrow> byte list option \<times> pb_istream" where
  "pb_read s buf count =
     (if count = 0 then (Some [], s)
      else if \<not> buf \<and> \<not> is_buf_read (icallback s) then skip_loop s count
      else pb_read_direct s count)"

definition pb_readbyte :: "pb_istream \<Rightarrow> byte option \<times> pb_istream" where
  "pb_readbyte s =
     (if bytes_left s = 0 then (None, set_ierror s ''end-of-stream'')
      else (case call_read (icallback s) (istate s) 1 of
              Read_ok bs st \<Rightarrow> (Some (hd (bs @ [0])), s\<lparr>istate := st, bytes_left := bytes_left s - 1\<rparr>)
            | Read_fail st \<Rightarrow> (None, set_ierror (s\<lparr>istate := st\<rparr>) ''io error'')
            | Read_eof st \<Rightarrow> (None, set_ierror (s\<lparr>istate := st, bytes_left := 0\<rparr>) ''io error'')))"

definition pb_istream_from_buffer :: "byte list \<Rightarrow> u64 \<Rightarrow> pb_istream" where
  "pb_istream_from_buffer buf bufsize =
     \<lparr>icallback = Buf_read, istate = buf, bytes_left = bufsize, ierrmsg = None\<rparr>"

section \<open>Varints\<close>

lemma readbyte_decreases:
  "pb_readbyte s = (Some b, s') \<Longrightarrow> unat (bytes_left s') < unat (bytes_left s)"
  by (auto simp: pb_readbyte_def unat_minus_one unat_gt_0 split: if_splits read_result.splits)

text \<open>
  The multibyte loop of \<^verbatim>\<open>pb_decode_varint32_eof\<close>; \<^verbatim>\<open>uint_fast8_t\<close> is an 8-bit type on
  the target, so \<^verbatim>\<open>bitpos\<close> wraps at 256.
\<close>

function varint32_loop :: "pb_istream \<Rightarrow> byte \<Rightarrow> u32 \<Rightarrow> u32 option \<times> pb_istream" where
  "varint32_loop s bitpos result =
     (case pb_readbyte s of
        (None, s') \<Rightarrow> (None, s')
      | (Some b, s') \<Rightarrow>
          let sign_extension = (if bitpos < 63 then 0xFF else 0x01) in
          if 32 \<le> bitpos \<and> b AND 0x7F \<noteq> 0 \<and> (drop_bit 31 result = 0 \<or> b \<noteq> sign_extension)
          then (None, set_ierror s' ''varint overflow'')
          else
            let result' = (if 32 \<le> bitpos then result
                           else result OR push_bit (unat bitpos) (ucast (b AND 0x7F)));
                bitpos' = bitpos + 7
            in if b AND 0x80 \<noteq> 0 then varint32_loop s' bitpos' result'
               else if bitpos' = 35 \<and> b AND 0x70 \<noteq> 0
               then (None, set_ierror s' ''varint overflow'')
               else (Some result', s'))"
  by pat_completeness auto
termination
  by (relation "measure (\<lambda>(s, _, _). unat (bytes_left s))") (auto dest: readbyte_decreases [OF sym])

declare varint32_loop.simps [simp del]

text \<open>The second component tells whether \<^verbatim>\<open>*eof\<close> is set.\<close>

definition pb_decode_varint32_eof :: "pb_istream \<Rightarrow> u32 option \<times> bool \<times> pb_istream" where
  "pb_decode_varint32_eof s =
     (case pb_readbyte s of
        (None, s') \<Rightarrow> (None, bytes_left s' = 0, s')
      | (Some b, s') \<Rightarrow>
          if b AND 0x80 = 0 then (Some (ucast b), False, s')
          else (case varint32_loop s' 7 (ucast (b AND 0x7F)) of (r, s'') \<Rightarrow> (r, False, s'')))"

definition pb_decode_varint32 :: "pb_istream \<Rightarrow> u32 option \<times> pb_istream" where
  "pb_decode_varint32 s = (case pb_decode_varint32_eof s of (r, _, s') \<Rightarrow> (r, s'))"

function varint_read_loop :: "pb_istream \<Rightarrow> byte \<Rightarrow> u64 \<Rightarrow> u64 option \<times> pb_istream" where
  "varint_read_loop s bitpos result =
     (if 64 \<le> bitpos then (None, set_ierror s ''varint overflow'')
      else (case pb_readbyte s of
              (None, s') \<Rightarrow> (None, s')
            | (Some b, s') \<Rightarrow>
                let result' = result OR push_bit (unat bitpos) (ucast (b AND 0x7F))
                in if b AND 0x80 \<noteq> 0 then varint_read_loop s' (bitpos + 7) result'
                   else (Some result', s')))"
  by pat_completeness auto
termination
  by (relation "measure (\<lambda>(s, _, _). unat (bytes_left s))") (auto dest: readbyte_decreases [OF sym])

declare varint_read_loop.simps [simp del]

definition pb_decode_varint :: "pb_istream \<Rightarrow> u64 option \<times> pb_istream" where
  "pb_decode_varint s = varint_read_loop s 0 0"

lemma read_one_decreases:
  "pb_read s True 1 = (Some bs, s') \<Longrightarrow> unat (bytes_left s') < unat (bytes_left s)"
  by (auto simp: pb_read_def pb_read_direct_def unat_minus_one unat_gt_0 word_less_nat_alt
      split: if_splits read_result.splits)

function pb_skip_varint :: "pb_istream \<Rightarrow> bool \<times> pb_istream" where
  "pb_skip_varint s =
     (case pb_read s True 1 of
        (None, s') \<Rightarrow> (False, s')
      | (Some bs, s') \<Rightarrow> if hd (bs @ [0]) AND 0x80 \<noteq> 0 then pb_skip_varint s' else (True, s'))"
  by pat_completeness auto
termination
  by (relation "measure (\<lambda>s. unat (bytes_left s))") (auto dest: read_one_decreases [OF sym])

declare pb_skip_varint.simps [simp del]

section \<open>Skipping, tags and raw values\<close>

definition pb_skip :: "pb_istream \<Rightarrow> u64 \<Rightarrow> bool \<times> pb_istream" where
  "pb_skip s count = (case pb_read s False count of (r, s') \<Rightarrow> (r \<noteq> None, s'))"

definition pb_skip_string :: "pb_istream \<Rightarrow> bool \<times> pb_istream" where
  "pb_skip_string s =
     (case pb_decode_varint32 s of
        (None, s') \<Rightarrow> (False, s')
      | (Some n, s') \<Rightarrow> pb_skip s' (ucast n))"

text \<open>\<^verbatim>\<open>pb_decode_tag\<close>: wire type and tag on success, and the end-of-message flag.\<close>

definition pb_decode_tag :: "pb_istream \<Rightarrow> (u32 \<times> u32) option \<times> bool \<times> pb_istream" where
  "pb_decode_tag s =
     (case pb_decode_varint32_eof s of
        (None, eof, s') \<Rightarrow> (None, eof, s')
      | (Some temp, eof, s') \<Rightarrow>
          if temp = 0 then (None, True, s')
          else (Some (temp AND 7, drop_bit 3 temp), eof, s'))"

definition pb_skip_field :: "pb_istream \<Rightarrow> u32 \<Rightarrow> bool \<times> pb_istream" where
  "pb_skip_field s wire_type =
     (if wire_type = PB_WT_VARINT then pb_skip_varint s
      else if wire_type = PB_WT_64BIT then pb_skip s 8
      else if wire_type = PB_WT_STRING then pb_skip_string s
      else if wire_type = PB_WT_32BIT then pb_skip s 4
      else (False, set_ierror s ''invalid wire_type''))"

text \<open>The varint branch of \<^verbatim>\<open>read_raw_value\<close>: at most \<open>room\<close> more bytes fit.\<close>

fun read_raw_varint :: "nat \<Rightarrow> pb_istream \<Rightarrow> byte list option \<times> pb_istream" where
  "read_raw_varint 0 s = (None, s)"
| "read_raw_varint (Suc room) s =
     (case pb_read s True 1 of
        (None, s') \<Rightarrow> (None, s')
      | (Some bs, s') \<Rightarrow>
          if hd (bs @ [0]) AND 0x80 \<noteq> 0
          then (case read_raw_varint room s' of (r, s'') \<Rightarrow> (map_option (\<lambda>r. bs @ r) r, s''))
          else (Some bs, s'))"

definition read_raw_value :: "pb_istream \<Rightarrow> u32 \<Rightarrow> nat \<Rightarrow> byte list option \<times> pb_istream" where
  "read_raw_value s wire_type max_size =
     (if wire_type = PB_WT_VARINT then read_raw_varint max_size s
      else if wire_type = PB_WT_64BIT then pb_read s True 8
      else if wire_type = PB_WT_32BIT then pb_read s True 4
      else (None, set_ierror s ''invalid wire_type''))"

section \<open>Substreams\<close>

definition pb_make_string_substream :: "pb_istream \<Rightarrow> pb_istream option \<times> pb_istream" where
  "pb_make_string_substream s =
     (case pb_decode_varint32 s of
        (None, s') \<Rightarrow> (None, s')
      | (Some n, s') \<Rightarrow>
          if bytes_left s' < ucast n then (None, set_ierror s' ''parent stream too short'')
          else (Some (s'\<lparr>bytes_left := ucast n\<rparr>), s'\<lparr>bytes_left := bytes_left s' - ucast n\<rparr>))"

definition pb_close_string_substream :: "pb_istream \<Rightarrow> pb_istream \<Rightarrow> bool \<times> pb_istream" where
  "pb_close_string_substream s sub =
     (case (if bytes_left sub \<noteq> 0 then pb_skip sub (bytes_left sub) else (True, sub)) of
        (False, _) \<Rightarrow> (False, s)
      | (True, sub') \<Rightarrow> (True, s\<lparr>istate := istate sub', ierrmsg := ierrmsg sub'\<rparr>))"

section \<open>Scalar readers\<close>

definition pb_decode_bool :: "pb_istream \<Rightarrow> bool option \<times> pb_istream" where
  "pb_decode_bool s = (case pb_decode_varint32 s of (r, s') \<Rightarrow> (map_option (\<lambda>v. v \<noteq> 0) r, s'))"

definition unzigzag :: "u64 \<Rightarrow> u64" where
  "unzigzag value = (if value AND 1 \<noteq> 0 then NOT (drop_bit 1 value) else drop_bit 1 value)"

definition pb_decode_svarint :: "pb_istream \<Rightarrow> u64 option \<times> pb_istream" where
  "pb_decode_svarint s = (case pb_decode_varint s of (r, s') \<Rightarrow> (map_option unzigzag r, s'))"

text \<open>The shifts and ors of the fixed-width readers: byte \<open>i\<close> at bit \<open>8 * i\<close>.\<close>

definition assemble32 :: "byte list \<Rightarrow> u32" where
  "assemble32 b =
     push_bit 0 (ucast (b ! 0)) OR push_bit 8 (ucast (b ! 1)) OR
     push_bit 16 (ucast (b ! 2)) OR push_bit 24 (ucast (b ! 3))"

definition assemble64 :: "byte list \<Rightarrow> u64" where
  "assemble64 b =
     push_bit 0 (ucast (b ! 0)) OR push_bit 8 (ucast (b ! 1)) OR
     push_bit 16 (ucast (b ! 2)) OR push_bit 24 (ucast (b ! 3)) OR
     push_bit 32 (ucast (b ! 4)) OR push_bit 40 (ucast (b ! 5)) OR
     push_bit 48 (ucast (b ! 6)) OR push_bit 56 (ucast (b ! 7))"

definition pb_decode_fixed32 :: "pb_istream \<Rightarrow> u32 option \<times> pb_istream" where
  "pb_decode_fixed32 s = (case pb_read s True 4 of (r, s') \<Rightarrow> (map_option assemble32 r, s'))"

definition pb_decode_fixed64 :: "pb_istream \<Rightarrow> u64 option \<times> pb_istream" where
  "pb_decode_fixed64 s = (case pb_read s True 8 of (r, s') \<Rightarrow> (map_option assemble64 r, s'))"

end
