(* ===== verification/Pb_Read.thy ===== *)
theory Pb_Read
  imports Pb_Istream Pb_Emit
begin

unbundle bit_operations_syntax

text \<open>
  What the readers of \<open>Pb_Istream\<close> do on a stream that holds given bytes, for every source
  that keeps the contract of a read callback: the locale \<open>byte_source\<close> states the contract,
  its lemmas give for each reader the value and the bytes consumed, and the interpretation
  on \<^verbatim>\<open>buf_read\<close> makes them facts on memory-buffer streams.
\<close>

section \<open>What a reader consumes\<close>

text \<open>
  \<open>ready cb content s bs rest\<close>: the stream \<open>s\<close> may read exactly the bytes \<open>bs\<close>; after them
  the source holds \<open>rest\<close>, which a parent stream may read later.
\<close>

definition ready ::
  "read_callback \<Rightarrow> (byte list \<Rightarrow> byte list) \<Rightarrow> pb_istream \<Rightarrow> byte list \<Rightarrow> byte list \<Rightarrow> bool" where
  "ready cb content s bs rest \<longleftrightarrow>
     icallback s = cb \<and> unat (bytes_left s) = length bs \<and> content (istate s) = bs @ rest"

text \<open>Seven bits per byte, low bits first.\<close>

primrec varint_val :: "byte list \<Rightarrow> nat" where
  "varint_val [] = 0"
| "varint_val (b # bs) = unat (b AND 0x7F) + 128 * varint_val bs"

text \<open>A complete varint: the continuation bit in every byte but the last.\<close>

fun varint_form :: "byte list \<Rightarrow> bool" where
  "varint_form [] \<longleftrightarrow> False"
| "varint_form [b] \<longleftrightarrow> b AND 0x80 = 0"
| "varint_form (b # bs) \<longleftrightarrow> b AND 0x80 \<noteq> 0 \<and> varint_form bs"

primrec varint_acc :: "nat \<Rightarrow> byte list \<Rightarrow> 'a::len word" where
  "varint_acc k [] = 0"
| "varint_acc k (b # bs) = push_bit k (ucast (b AND 0x7F)) OR varint_acc (k + 7) bs"

lemma varint_acc_shift: "varint_acc (k + j) bs = push_bit k (varint_acc j bs)"
proof (induction bs arbitrary: j)
  case (Cons b bs)
  have "varint_acc (k + j + 7) bs = push_bit k (varint_acc (j + 7) bs :: 'a word)"
    using Cons.IH [of "j + 7"] by (simp add: add.assoc)
  then show ?case by (simp add: push_bit_or)
qed simp

lemma low_or_high:
  fixes x :: "'a::len word"
  assumes "take_bit k x = x"
  shows "x OR push_bit k y = x + 2 ^ k * y"
proof -
  have "x AND push_bit k y = 0"
  proof (rule bit_word_eqI)
    fix n
    have "\<not> bit x n" if "k \<le> n"
      using that arg_cong [OF assms, of "\<lambda>w. bit w n"] by (simp add: bit_take_bit_iff)
    then show "bit (x AND push_bit k y) n = bit (0 :: 'a word) n"
      by (cases "k \<le> n") (auto simp: bit_simps)
  qed
  then have "x OR push_bit k y = x + push_bit k y" by (simp add: disjunctive_add_eq_or)
  then show ?thesis by (simp add: push_bit_eq_mult mult.commute)
qed

lemma varint_acc_val: "varint_acc 0 bs = (of_nat (varint_val bs) :: 'a::len word)"
proof (induction bs)
  case (Cons b bs)
  let ?x = "ucast (b AND 0x7F) :: 'a word"
  have x: "take_bit 7 ?x = ?x" by (rule bit_word_eqI) (auto simp: bit_simps and_127)
  have shift: "varint_acc 7 bs = push_bit 7 (varint_acc 0 bs :: 'a word)"
    using varint_acc_shift [of 7 0 bs] by simp
  have "varint_acc 0 (b # bs) = ?x OR push_bit 7 (varint_acc 0 bs)"
    using shift by simp
  also have "\<dots> = ?x + 128 * of_nat (varint_val bs)"
    using low_or_high [OF x] unfolding Cons.IH by simp
  finally show ?case by simp
qed simp

lemma varint_val_snoc:
  "varint_val (bs @ [b]) = varint_val bs + 128 ^ length bs * unat (b AND 0x7F)"
  by (induction bs) (simp_all add: algebra_simps)

lemma unat_and_127: "unat (b AND 0x7F :: byte) < 128"
  by (simp add: and_127 unat_take_bit)

lemma varint_val_less: "varint_val bs < 128 ^ length bs"
proof (induction bs)
  case (Cons b bs)
  then have "Suc (varint_val bs) \<le> 128 ^ length bs" by simp
  then have "128 * Suc (varint_val bs) \<le> 128 * 128 ^ length bs" by (rule mult_le_mono2)
  with unat_and_127 [of b] show ?case by simp
qed simp

lemma and_112: "(b :: byte) AND 0x70 = 0 \<longleftrightarrow> unat (b AND 0x7F) < 16"
proof -
  have "(0x70 :: byte) = push_bit 4 (mask 3)" by (simp add: push_bit_eq_mult mask_eq_exp_minus_1)
  then have "b AND 0x70 = 0 \<longleftrightarrow> take_bit 4 (take_bit 7 b) = take_bit 7 b"
    by (auto simp: bit_eq_iff bit_simps)
  also have "\<dots> \<longleftrightarrow> unat (take_bit 7 b) < 2 ^ 4" by (subst small_iff_take_bit) simp_all
  finally show ?thesis by (simp add: and_127)
qed

lemma and_127_same:
  assumes "(b :: byte) AND 0x80 = 0"
  shows "b AND 0x7F = b"
proof (rule bit_word_eqI)
  fix n assume "n < LENGTH(8)"
  then have "n < 7 \<or> n = 7" by auto
  moreover have "\<not> bit b 7" using assms by (simp add: and_128)
  ultimately show "bit (b AND 0x7F) n = bit b n" by (auto simp: and_127 bit_take_bit_iff)
qed

lemma varint_fits_u32:
  assumes "varint_form a" "length a \<le> 5"
  shows "length a = 5 \<and> last a AND 0x70 \<noteq> 0 \<longleftrightarrow> 2 ^ 32 \<le> varint_val a"
proof (cases "length a = 5")
  case True
  then obtain xs b where a: "a = xs @ [b]" "length xs = 4" by (cases a rule: rev_cases) auto
  then have "varint_val a = varint_val xs + 2 ^ 28 * unat (b AND 0x7F)" "varint_val xs < 2 ^ 28"
    using varint_val_less [of xs] by (simp_all add: varint_val_snoc)
  then have "2 ^ 32 \<le> varint_val a \<longleftrightarrow> 16 \<le> unat (b AND 0x7F)" by auto
  then show ?thesis using True a by (auto simp: and_112 not_less)
next
  case False
  then have "length a \<le> 4" using assms(2) by simp
  then have "(128 :: nat) ^ length a \<le> 128 ^ 4" by (intro power_increasing) auto
  then have "varint_val a < 2 ^ 32" using varint_val_less [of a] by simp
  with False show ?thesis by simp
qed

section \<open>Sources\<close>

text \<open>
  The contract of a read callback: while enough bytes are there, it stores the next
  \<open>count\<close> bytes and moves past them.
\<close>

locale byte_source =
  fixes cb :: read_callback and content :: "byte list \<Rightarrow> byte list"
  assumes delivers: "0 < count \<Longrightarrow> content st = a @ r \<Longrightarrow> unat count = length a \<Longrightarrow>
    \<exists>st'. call_read cb st count = Read_ok a st' \<and> content st' = r"
begin

lemma read_direct:
  assumes "ready cb content s (a @ bs) rest" "unat count = length a" "0 < count"
  shows "\<exists>s'. pb_read_direct s count = (Some a, s') \<and> ready cb content s' bs rest \<and>
    ierrmsg s' = ierrmsg s"
proof -
  from assms have "content (istate s) = a @ (bs @ rest)" by (simp add: ready_def)
  from delivers [OF assms(3) this assms(2)] obtain st' where
    st': "call_read cb (istate s) count = Read_ok a st'" "content st' = bs @ rest" by blast
  have "\<not> bytes_left s < count" using assms by (simp add: ready_def word_less_nat_alt)
  moreover have "unat (bytes_left s - count) = length bs"
    using assms by (simp add: ready_def unat_sub_if' word_le_nat_alt)
  ultimately show ?thesis using assms st' by (simp add: pb_read_direct_def ready_def)
qed

text \<open>Skipping in pieces of sixteen bytes is skipping at once.\<close>

lemma read_skip_loop:
  assumes "ready cb content s (a @ bs) rest" "unat count = length a"
  shows "\<exists>d s'. skip_loop s count = (Some d, s') \<and> ready cb content s' bs rest \<and>
    ierrmsg s' = ierrmsg s"
  using assms
proof (induction "length a" arbitrary: s a count rule: less_induct)
  case less
  show ?case
  proof (cases "16 < count")
    case True
    then have len: "16 < length a" using less.prems(2) by (simp add: word_less_nat_alt)
    have "ready cb content s (take 16 a @ (drop 16 a @ bs)) rest"
      using less.prems(1) by (metis append.assoc append_take_drop_id)
    from read_direct [OF this, of 16] len obtain s' where
      s': "pb_read_direct s 16 = (Some (take 16 a), s')" "ready cb content s' (drop 16 a @ bs) rest"
        "ierrmsg s' = ierrmsg s" by auto
    have "unat (count - 16) = length (drop 16 a)"
      using True less.prems(2) by (simp add: unat_sub_if' word_less_nat_alt)
    from less.hyps [OF _ s'(2) this] len s' True show ?thesis
      by (auto simp: skip_loop.simps [of s count])
  next
    case False
    show ?thesis
    proof (cases "count = 0")
      case True
      with less.prems have "a = []" by simp
      with less.prems True show ?thesis by (simp add: skip_loop.simps [of s 0])
    next
      case nz: False
      then have "0 < count" by (simp add: word_neq_0_conv)
      from read_direct [OF less.prems this] False nz show ?thesis
        by (auto simp: skip_loop.simps [of s count])
    qed
  qed
qed

lemma read_bytes:
  assumes "ready cb content s (a @ bs) rest" "unat count = length a"
  shows "\<exists>s'. pb_read s True count = (Some a, s') \<and> ready cb content s' bs rest \<and>
    ierrmsg s' = ierrmsg s"
proof (cases "count = 0")
  case True
  with assms show ?thesis by (simp add: pb_read_def)
next
  case False
  then have "0 < count" by (simp add: word_neq_0_conv)
  from read_direct [OF assms this] False show ?thesis by (simp add: pb_read_def)
qed

lemma skip_bytes:
  assumes "ready cb content s (a @ bs) rest" "unat count = length a"
  shows "\<exists>s'. pb_skip s count = (True, s') \<and> ready cb content s' bs rest \<and> ierrmsg s' = ierrmsg s"
proof (cases "count = 0")
  case True
  with assms show ?thesis by (simp add: pb_skip_def pb_read_def)
next
  case False
  then have "0 < count" by (simp add: word_neq_0_conv)
  from read_direct [OF assms this] read_skip_loop [OF assms] False show ?thesis
    by (auto simp: pb_skip_def pb_read_def)
qed

lemma read_short:
  assumes "ready cb content s bs rest" "length bs < unat count"
  shows "pb_read_direct s count = (None, set_ierror s ''end-of-stream'')"
  using assms by (simp add: pb_read_direct_def ready_def word_less_nat_alt)

lemma readbyte:
  assumes "ready cb content s (b # bs) rest"
  shows "\<exists>s'. pb_readbyte s = (Some b, s') \<and> ready cb content s' bs rest \<and> ierrmsg s' = ierrmsg s"
proof -
  have c: "content (istate s) = [b] @ (bs @ rest)" using assms by (simp add: ready_def)
  from delivers [OF _ c, of 1] obtain st' where
    "call_read cb (istate s) 1 = Read_ok [b] st'" "content st' = bs @ rest" by auto
  moreover have "bytes_left s \<noteq> 0" using assms by (auto simp: ready_def)
  moreover from this have "unat (bytes_left s - 1) = length bs"
    using assms by (simp add: ready_def unat_minus_one)
  ultimately show ?thesis using assms by (simp add: pb_readbyte_def ready_def)
qed

lemma readbyte_end:
  assumes "ready cb content s [] rest"
  shows "pb_readbyte s = (None, set_ierror s ''end-of-stream'')" "bytes_left s = 0"
  using assms by (simp_all add: pb_readbyte_def ready_def unat_eq_zero)

end

interpretation buf_source: byte_source Buf_read "\<lambda>st. st"
  by unfold_locales (simp add: call_read_def buf_read_def)

section \<open>Varints\<close>

context byte_source
begin

text \<open>64-bit varints: a complete varint of at most ten bytes, one that ends early, one that does not end.\<close>

lemma varint_loop_complete:
  assumes "ready cb content s (a @ bs) rest" "varint_form a" "unat bitpos + 7 * length a \<le> 70"
  shows "\<exists>s'. varint_read_loop s bitpos r = (Some (r OR varint_acc (unat bitpos) a), s') \<and>
    ready cb content s' bs rest \<and> ierrmsg s' = ierrmsg s"
  using assms
proof (induction a arbitrary: s bitpos r)
  case (Cons b a)
  from readbyte [of s b "a @ bs" rest] Cons.prems(1) obtain s1 where
    s1: "pb_readbyte s = (Some b, s1)" "ready cb content s1 (a @ bs) rest" "ierrmsg s1 = ierrmsg s"
    by auto
  have bp: "\<not> 64 \<le> bitpos" using Cons.prems(3) by (simp add: word_le_nat_alt)
  show ?case
  proof (cases a)
    case Nil
    with Cons.prems(2) bp s1 show ?thesis by (simp add: varint_read_loop.simps [of s])
  next
    case (Cons c d)
    then have f: "varint_form a" "b AND 0x80 \<noteq> 0" using Cons.prems(2) by auto
    have b7: "unat (bitpos + 7) = unat bitpos + 7"
      using Cons.prems(3) unat_add_no_wrap [of bitpos 7] by simp
    from Cons.IH [OF s1(2) f(1), of "bitpos + 7" "r OR push_bit (unat bitpos) (ucast (b AND 0x7F))"]
      Cons.prems(3) b7 s1 f(2) bp
    show ?thesis by (auto simp: varint_read_loop.simps [of s] or.assoc)
  qed
qed simp

lemma varint_loop_short:
  assumes "ready cb content s a rest" "\<forall>b\<in>set a. b AND 0x80 \<noteq> 0"
    "unat bitpos + 7 * length a < 64"
  shows "\<exists>s'. varint_read_loop s bitpos r = (None, s') \<and> ready cb content s' [] rest \<and>
    ierrmsg s' = PB_SET_ERROR (ierrmsg s) ''end-of-stream''"
  using assms
proof (induction a arbitrary: s bitpos r)
  case Nil
  then show ?case
    using readbyte_end [OF Nil.prems(1)]
    by (auto simp: varint_read_loop.simps [of s] word_le_nat_alt set_ierror_def ready_def)
next
  case (Cons b a)
  from readbyte [OF Cons.prems(1)] obtain s1 where
    s1: "pb_readbyte s = (Some b, s1)" "ready cb content s1 a rest" "ierrmsg s1 = ierrmsg s"
    by auto
  have b7: "unat (bitpos + 7) = unat bitpos + 7"
    using Cons.prems(3) unat_add_no_wrap [of bitpos 7] by simp
  have bp: "\<not> 64 \<le> bitpos" using Cons.prems(3) by (simp add: word_le_nat_alt)
  from Cons.IH [OF s1(2), of "bitpos + 7"] Cons.prems(2,3) b7 s1 bp show ?case
    by (auto simp: varint_read_loop.simps [of s])
qed

lemma varint_loop_overlong:
  assumes "ready cb content s (a @ bs) rest" "\<forall>b\<in>set a. b AND 0x80 \<noteq> 0"
    "unat bitpos + 7 * length a = 70"
  shows "\<exists>s'. varint_read_loop s bitpos r = (None, s') \<and> ready cb content s' bs rest \<and>
    ierrmsg s' = PB_SET_ERROR (ierrmsg s) ''varint overflow''"
  using assms
proof (induction a arbitrary: s bitpos r)
  case Nil
  then show ?case
    by (auto simp: varint_read_loop.simps [of s] word_le_nat_alt set_ierror_def ready_def)
next
  case (Cons b a)
  from readbyte [of s b "a @ bs" rest] Cons.prems(1) obtain s1 where
    s1: "pb_readbyte s = (Some b, s1)" "ready cb content s1 (a @ bs) rest" "ierrmsg s1 = ierrmsg s"
    by auto
  have b7: "unat (bitpos + 7) = unat bitpos + 7"
    using Cons.prems(3) unat_add_no_wrap [of bitpos 7] by simp
  have bp: "\<not> 64 \<le> bitpos" using Cons.prems(3) by (simp add: word_le_nat_alt)
  from Cons.IH [OF s1(2), of "bitpos + 7"] Cons.prems(2,3) b7 s1 bp show ?case
    by (auto simp: varint_read_loop.simps [of s])
qed

lemma decode_varint:
  assumes "ready cb content s (a @ bs) rest" "varint_form a" "length a \<le> 10"
  shows "\<exists>s'. pb_decode_varint s = (Some (of_nat (varint_val a)), s') \<and>
    ready cb content s' bs rest \<and> ierrmsg s' = ierrmsg s"
  using varint_loop_complete [OF assms(1,2), of 0 0] assms(3)
  by (simp add: pb_decode_varint_def varint_acc_val)

text \<open>32-bit varints of at most five bytes.\<close>

lemma varint32_loop_complete:
  assumes "ready cb content s (a @ bs) rest" "varint_form a" "unat bitpos + 7 * length a \<le> 35"
  shows "\<exists>s'. varint32_loop s bitpos r =
      (if unat bitpos + 7 * length a = 35 \<and> last a AND 0x70 \<noteq> 0 then None
       else Some (r OR varint_acc (unat bitpos) a), s') \<and>
    ready cb content s' bs rest \<and>
    ierrmsg s' = (if unat bitpos + 7 * length a = 35 \<and> last a AND 0x70 \<noteq> 0
      then PB_SET_ERROR (ierrmsg s) ''varint overflow'' else ierrmsg s)"
  using assms
proof (induction a arbitrary: s bitpos r)
  case (Cons b a)
  from readbyte [of s b "a @ bs" rest] Cons.prems(1) obtain s1 where
    s1: "pb_readbyte s = (Some b, s1)" "ready cb content s1 (a @ bs) rest" "ierrmsg s1 = ierrmsg s"
    by auto
  have bp: "\<not> 32 \<le> bitpos" using Cons.prems(3) by (simp add: word_le_nat_alt)
  have b7: "unat (bitpos + 7) = unat bitpos + 7"
    using Cons.prems(3) unat_add_no_wrap [of bitpos 7] by simp
  have b35: "bitpos + 7 = 35 \<longleftrightarrow> unat bitpos + 7 = 35"
    unfolding word_unat_eq_iff [of "bitpos + 7"] b7 by simp
  show ?case
  proof (cases a)
    case Nil
    with Cons.prems(2) bp b35 s1 show ?thesis
      by (auto simp: varint32_loop.simps [of s] set_ierror_def ready_def)
  next
    case (Cons c d)
    then have f: "varint_form a" "b AND 0x80 \<noteq> 0" "a \<noteq> []" using Cons.prems(2) by auto
    from Cons.IH [OF s1(2) f(1), of "bitpos + 7" "r OR push_bit (unat bitpos) (ucast (b AND 0x7F))"]
      Cons.prems(3) b7 s1 f(2,3) bp
    show ?thesis
      by (cases "unat bitpos + 7 * length a = 28 \<and> last a AND 0x70 \<noteq> 0")
         (auto simp: varint32_loop.simps [of s] or.assoc)
  qed
qed simp

lemma varint32_loop_prefix:
  assumes "ready cb content s (a @ bs) rest" "\<forall>b\<in>set a. b AND 0x80 \<noteq> 0"
    "unat bitpos + 7 * length a \<le> 35"
  shows "\<exists>s'. varint32_loop s bitpos r =
      varint32_loop s' (of_nat (unat bitpos + 7 * length a)) (r OR varint_acc (unat bitpos) a) \<and>
    ready cb content s' bs rest \<and> ierrmsg s' = ierrmsg s"
  using assms
proof (induction a arbitrary: s bitpos r)
  case (Cons b a)
  from readbyte [of s b "a @ bs" rest] Cons.prems(1) obtain s1 where
    s1: "pb_readbyte s = (Some b, s1)" "ready cb content s1 (a @ bs) rest" "ierrmsg s1 = ierrmsg s"
    by auto
  have bp: "\<not> 32 \<le> bitpos" using Cons.prems(3) by (simp add: word_le_nat_alt)
  have b7: "unat (bitpos + 7) = unat bitpos + 7"
    using Cons.prems(3) unat_add_no_wrap [of bitpos 7] by simp
  from Cons.IH [OF s1(2), of "bitpos + 7" "r OR push_bit (unat bitpos) (ucast (b AND 0x7F))"]
    Cons.prems(2,3) b7 s1 bp
  show ?case by (auto simp: varint32_loop.simps [of s] or.assoc algebra_simps)
qed auto

text \<open>The sign-extension bytes that \<^verbatim>\<open>pb_decode_varint32_eof\<close> tolerates in a negative number.\<close>

lemma varint32_loop_sign:
  assumes "ready cb content s ([0xFF, 0xFF, 0xFF, 0xFF, 1] @ bs) rest" "drop_bit 31 r \<noteq> 0"
  shows "\<exists>s'. varint32_loop s 35 r = (Some r, s') \<and> ready cb content s' bs rest \<and>
    ierrmsg s' = ierrmsg s"
proof -
  have ff: "\<exists>t'. varint32_loop t bp r = varint32_loop t' (bp + 7) r \<and>
      ready cb content t' xs rest \<and> ierrmsg t' = ierrmsg t"
    if "ready cb content t (0xFF # xs) rest" "32 \<le> bp" "bp < 63" for t xs and bp :: byte
  proof -
    note t = that
    obtain t' where t': "pb_readbyte t = (Some 0xFF, t')" "ready cb content t' xs rest"
      "ierrmsg t' = ierrmsg t" using readbyte [OF t(1)] by auto
    then have "varint32_loop t bp r = varint32_loop t' (bp + 7) r"
      using t(2,3) assms(2) by (simp add: varint32_loop.simps [of t])
    with t' show ?thesis by blast
  qed
  obtain s1 where s1: "varint32_loop s 35 r = varint32_loop s1 42 r" "ierrmsg s1 = ierrmsg s"
    "ready cb content s1 ([0xFF, 0xFF, 0xFF, 1] @ bs) rest"
    using ff [of s _ 35] assms(1) by auto
  obtain s2 where s2: "varint32_loop s1 42 r = varint32_loop s2 49 r" "ierrmsg s2 = ierrmsg s1"
    "ready cb content s2 ([0xFF, 0xFF, 1] @ bs) rest"
    using ff [of s1 _ 42] s1(3) by auto
  obtain s3 where s3: "varint32_loop s2 49 r = varint32_loop s3 56 r" "ierrmsg s3 = ierrmsg s2"
    "ready cb content s3 ([0xFF, 1] @ bs) rest"
    using ff [of s2 _ 49] s2(3) by auto
  obtain s4 where s4: "varint32_loop s3 56 r = varint32_loop s4 63 r" "ierrmsg s4 = ierrmsg s3"
    "ready cb content s4 ([1] @ bs) rest"
    using ff [of s3 _ 56] s3(3) by auto
  obtain s5 where "pb_readbyte s4 = (Some 1, s5)" "ready cb content s5 bs rest"
    "ierrmsg s5 = ierrmsg s4"
    using readbyte [of s4 1 bs rest] s4(3) by auto
  then have "varint32_loop s4 63 r = (Some r, s5)"
    using assms(2) by (simp add: varint32_loop.simps [of s4])
  with s1 s2 s3 s4 \<open>ready cb content s5 bs rest\<close> \<open>ierrmsg s5 = ierrmsg s4\<close> show ?thesis by simp
qed

lemma decode_varint32_eof:
  assumes "ready cb content s (a @ bs) rest" "varint_form a" "length a \<le> 5"
  shows "\<exists>s'. pb_decode_varint32_eof s =
      (if varint_val a < 2 ^ 32 then Some (of_nat (varint_val a)) else None, False, s') \<and>
    ready cb content s' bs rest \<and>
    ierrmsg s' = (if varint_val a < 2 ^ 32 then ierrmsg s
                  else PB_SET_ERROR (ierrmsg s) ''varint overflow'')"
proof (cases a)
  case (Cons b d)
  from readbyte [of s b "d @ bs" rest] assms(1) Cons obtain s1 where
    s1: "pb_readbyte s = (Some b, s1)" "ready cb content s1 (d @ bs) rest" "ierrmsg s1 = ierrmsg s"
    by auto
  show ?thesis
  proof (cases d)
    case Nil
    then have b: "b AND 0x80 = 0" using assms(2) Cons by simp
    then have "b AND 0x7F = b" by (rule and_127_same)
    with b Nil Cons s1 unat_lt_256 [of b] show ?thesis
      by (simp add: pb_decode_varint32_eof_def)
  next
    case d: (Cons c e)
    then have f: "varint_form d" "b AND 0x80 \<noteq> 0" "d \<noteq> []" using assms(2) Cons by auto
    have acc: "ucast (b AND 0x7F) OR varint_acc 7 d = (of_nat (varint_val a) :: u32)"
      using varint_acc_val [of a, where 'a = 32] Cons by simp
    have fits: "length d = 4 \<and> last d AND 0x70 \<noteq> 0 \<longleftrightarrow> \<not> varint_val a < 2 ^ 32"
      using varint_fits_u32 [OF assms(2,3)] Cons f(3) by (auto simp: not_less)
    from varint32_loop_complete [OF s1(2) f(1), of 7 "ucast (b AND 0x7F)"] assms(3) Cons acc s1 f(2)
    show ?thesis
      unfolding pb_decode_varint32_eof_def
      by (cases "varint_val a < 2 ^ 32") (use fits in auto)
  qed
qed (use assms in simp)

end

section \<open>The encoders' bytes read back\<close>

lemma ucast_and_127: "(ucast (v AND 0x7F) OR 0x80 :: byte) AND 0x7F = ucast ((v :: u64) AND 0x7F)"
  by (rule bit_word_eqI) (auto simp: and_127 or_128 bit_simps)

lemma varint_bytes_value: "varint_val (varint_bytes v) = unat v"
proof (induction v rule: varint_bytes_induct)
  case (small v)
  then have "unat v < 128" by (simp add: word_le_nat_alt)
  then have "unat (ucast v AND 0x7F :: byte) = unat v"
    by (simp add: and_127 unat_take_bit unsigned_ucast_eq take_bit_nat_eq_self)
  with small show ?case by (simp add: varint_bytes_rec [of v])
next
  case (step v)
  have "unat (ucast (v AND 0x7F) :: byte) = unat v mod 128"
    by (simp add: and_127 unsigned_ucast_eq unat_take_bit take_bit_nat_eq_self)
  then have "varint_val (varint_bytes v) = unat v mod 128 + 128 * (unat v div 128)"
    using step unat_drop_bit [of 7 v]
    by (simp add: varint_bytes_rec [of v] ucast_and_127)
  then show ?case by simp
qed

lemma varint_bytes_not_Nil [simp]: "varint_bytes v \<noteq> []"
  by (subst varint_bytes_rec) simp

lemma varint_form_Cons: "xs \<noteq> [] \<Longrightarrow> varint_form (b # xs) \<longleftrightarrow> b AND 0x80 \<noteq> 0 \<and> varint_form xs"
  by (cases xs) auto

lemma varint_bytes_form: "varint_form (varint_bytes v)"
proof (induction v rule: varint_bytes_induct)
  case (small v)
  then have "unat v < 128" by (simp add: word_le_nat_alt)
  then have "take_bit 7 v = v" using small_iff_take_bit [of 7 v] by simp
  then have "\<not> bit v 7" by (metis bit_take_bit_iff less_irrefl)
  with small show ?case by (simp add: varint_bytes_rec [of v] and_128 bit_simps)
next
  case (step v)
  then show ?case
    by (simp add: varint_bytes_rec [of v] varint_form_Cons and_128 or_128 bit_set_bit_iff)
qed

lemma unzigzag_zigzag [simp]: "unzigzag (zigzag v) = v"
proof -
  have neg: "sint v < 0 \<longleftrightarrow> bit v 63" using bit_last_iff [of v] by simp
  have odd: "(w AND 1 \<noteq> 0) = bit w 0" for w :: u64
    by (simp add: and_one_eq bit_0 odd_iff_mod_2_eq_one)
  have double: "bit (v * 2) n \<longleftrightarrow> n \<noteq> 0 \<and> n < 64 \<and> bit v (n - 1)" for n
    using bit_push_bit_iff [of 1 v n] by (auto simp: Suc_le_eq)
  show ?thesis
  proof (rule bit_word_eqI)
    fix n assume "n < LENGTH(64)"
    then have "n < 63 \<or> n = 63" by auto
    then show "bit (unzigzag (zigzag v)) n = bit v n"
      unfolding unzigzag_def zigzag_def odd neg by (auto simp: bit_simps double)
  qed
qed

lemma byte_or_high:
  fixes y :: "'a::len word"
  shows "ucast (b :: byte) OR push_bit 8 y = of_nat (unat b) + 256 * y"
proof -
  have "take_bit 8 (ucast b :: 'a word) = ucast b"
    by (rule bit_word_eqI) (auto simp: bit_simps dest: bit_imp_le_length)
  from low_or_high [OF this, of y] show ?thesis by simp
qed

lemma assemble32_le:
  assumes "length bs = 4"
  shows "assemble32 bs = of_nat (le_val bs)"
proof -
  obtain a b c d where bs: "bs = [a, b, c, d]"
    using assms by (auto simp: numeral_eq_Suc length_Suc_conv)
  have "assemble32 bs = ucast a OR push_bit 8 (ucast b OR push_bit 8 (ucast c OR push_bit 8 (ucast d)))"
    by (simp add: assemble32_def bs push_bit_or)
  then show ?thesis by (simp only: byte_or_high bs) (simp add: algebra_simps push_bit_eq_mult)
qed

lemma assemble64_le:
  assumes "length bs = 8"
  shows "assemble64 bs = of_nat (le_val bs)"
proof -
  obtain a b c d e f g h where bs: "bs = [a, b, c, d, e, f, g, h]"
    using assms by (auto simp: numeral_eq_Suc length_Suc_conv)
  have "assemble64 bs = ucast a OR push_bit 8 (ucast b OR push_bit 8 (ucast c OR push_bit 8
    (ucast d OR push_bit 8 (ucast e OR push_bit 8 (ucast f OR push_bit 8 (ucast g OR push_bit 8 (ucast h)))))))"
    by (simp add: assemble64_def bs push_bit_or)
  then show ?thesis by (simp only: byte_or_high bs) (simp add: algebra_simps push_bit_eq_mult)
qed

lemma length_fixed_bytes: "length (fixed32_bytes v) = 4" "length (fixed64_bytes w) = 8"
  by (simp_all add: fixed32_bytes_def fixed64_bytes_def)

lemma assemble_fixed [simp]:
  "assemble32 (fixed32_bytes v) = v" "assemble64 (fixed64_bytes w) = w"
  using unat_lt_u32 [of v] unat_lt_u64 [of w]
  by (simp_all add: fixed32_bytes_le fixed64_bytes_le assemble32_le assemble64_le le_val_le_bytes)

lemma tag_word_u32:
  assumes "unat t < 2 ^ 29" "unat wt < 8"
  shows "unat (tag_word wt t) = 8 * unat t + unat wt"
proof -
  have "unat (ucast wt :: u64) < 2 ^ 3" using assms(2) by (simp add: ucast_u32_u64_unat)
  then have "take_bit 3 (ucast wt :: u64) = ucast wt" using small_iff_take_bit [of 3 "ucast wt :: u64"] by simp
  then have "tag_word wt t = ucast wt + 8 * ucast t"
    using low_or_high [of 3 "ucast wt :: u64" "ucast t"] by (simp add: tag_word_def or.commute)
  then have "tag_word wt t = of_nat (8 * unat t + unat wt)" by simp
  moreover have "8 * unat t + unat wt < 2 ^ 64" using assms by simp
  ultimately show ?thesis by (simp only: unat_of_nat_u64)
qed

section \<open>The readers on encoded values\<close>

lemma varint_bytes_u32_length: "unat v < 2 ^ 32 \<Longrightarrow> length (varint_bytes v) \<le> 5"
  by (rule length_varint_bytes_le) simp_all

context byte_source
begin

lemma decode_varint_bytes:
  assumes "ready cb content s (varint_bytes v @ bs) rest"
  shows "\<exists>s'. pb_decode_varint s = (Some v, s') \<and> ready cb content s' bs rest \<and>
    ierrmsg s' = ierrmsg s"
  using decode_varint [OF assms varint_bytes_form] length_varint_bytes [of v]
  by (simp add: varint_bytes_value)

lemma decode_varint32_bytes:
  assumes "ready cb content s (varint_bytes v @ bs) rest" "unat v < 2 ^ 32"
  shows "\<exists>s'. pb_decode_varint32_eof s = (Some (ucast v), False, s') \<and>
    pb_decode_varint32 s = (Some (ucast v), s') \<and> ready cb content s' bs rest \<and>
    ierrmsg s' = ierrmsg s"
  using decode_varint32_eof [OF assms(1) varint_bytes_form varint_bytes_u32_length [OF assms(2)]]
    assms(2)
  by (auto simp: varint_bytes_value pb_decode_varint32_def)

lemma decode_svarint_bytes:
  assumes "ready cb content s (varint_bytes (zigzag v) @ bs) rest"
  shows "\<exists>s'. pb_decode_svarint s = (Some v, s') \<and> ready cb content s' bs rest \<and>
    ierrmsg s' = ierrmsg s"
  using decode_varint_bytes [OF assms] by (auto simp: pb_decode_svarint_def)

lemma decode_fixed_bytes:
  "ready cb content s (fixed32_bytes v @ bs) rest \<Longrightarrow>
     \<exists>s'. pb_decode_fixed32 s = (Some v, s') \<and> ready cb content s' bs rest \<and> ierrmsg s' = ierrmsg s"
  "ready cb content s (fixed64_bytes w @ bs) rest \<Longrightarrow>
     \<exists>s'. pb_decode_fixed64 s = (Some w, s') \<and> ready cb content s' bs rest \<and> ierrmsg s' = ierrmsg s"
  using read_bytes [of s "fixed32_bytes v" bs rest 4] read_bytes [of s "fixed64_bytes w" bs rest 8]
  by (auto simp: pb_decode_fixed32_def pb_decode_fixed64_def length_fixed_bytes)

lemma decode_tag_bytes:
  assumes "ready cb content s (varint_bytes (tag_word wt t) @ bs) rest"
    "unat t < 2 ^ 29" "unat wt < 8" "t \<noteq> 0"
  shows "\<exists>s'. pb_decode_tag s = (Some (wt, t), False, s') \<and> ready cb content s' bs rest \<and>
    ierrmsg s' = ierrmsg s"
proof -
  let ?w = "ucast (tag_word wt t) :: u32"
  have w: "unat (tag_word wt t) = 8 * unat t + unat wt" by (rule tag_word_u32 [OF assms(2,3)])
  then have lt: "unat (tag_word wt t) < 2 ^ 32" using assms(2,3) by simp
  then have uw: "unat ?w = 8 * unat t + unat wt"
    using w by (simp add: unsigned_ucast_eq take_bit_nat_eq_self)
  have "?w \<noteq> 0" using uw assms(4) by (metis add_is_0 mult_is_0 unat_eq_zero unsigned_0 zero_neq_numeral)
  moreover have "drop_bit 3 ?w = t"
    using assms(3) by (simp add: word_unat_eq_iff unat_drop_bit uw)
  moreover have "(7 :: u32) = mask 3" by (simp add: mask_eq_exp_minus_1)
  then have "unat (?w AND 7) = unat ?w mod 8"
    using unat_take_bit [of 3 ?w] by (simp add: take_bit_eq_mask)
  then have "?w AND 7 = wt" using assms(3) uw by (simp add: word_unat_eq_iff)
  ultimately show ?thesis
    using decode_varint32_bytes [OF assms(1) lt] by (auto simp: pb_decode_tag_def)
qed

lemma make_substream:
  assumes "ready cb content s (varint_bytes (of_nat (length a)) @ a @ bs) rest" "length a < 2 ^ 32"
  shows "\<exists>sub s'. pb_make_string_substream s = (Some sub, s') \<and>
    ready cb content sub a (bs @ rest) \<and> ierrmsg sub = ierrmsg s \<and> icallback s' = cb \<and>
    unat (bytes_left s') = length bs \<and> ierrmsg s' = ierrmsg s"
proof -
  have n: "unat (of_nat (length a) :: u64) = length a" using assms(2) by (simp add: unat_of_nat_u64)
  then have "unat (of_nat (length a) :: u64) < 2 ^ 32" using assms(2) by simp
  from decode_varint32_bytes [OF assms(1) this] obtain s1 where
    s1: "pb_decode_varint32 s = (Some (ucast (of_nat (length a) :: u64)), s1)" "ready cb content s1 (a @ bs) rest"
      "ierrmsg s1 = ierrmsg s" by auto
  have u: "unat (ucast (ucast (of_nat (length a) :: u64) :: u32) :: u64) = length a"
    using assms(2) n by (simp add: unsigned_ucast_eq unat_take_bit take_bit_nat_eq_self)
  from s1(2) u show ?thesis
    using s1(1,3)
    by (auto simp: pb_make_string_substream_def ready_def word_less_nat_alt unat_sub_if' word_le_nat_alt)
qed

lemma close_substream:
  assumes "ready cb content sub a (bs @ rest)" "icallback s = cb" "unat (bytes_left s) = length bs"
  shows "\<exists>s'. pb_close_string_substream s sub = (True, s') \<and> ready cb content s' bs rest \<and>
    ierrmsg s' = ierrmsg sub"
proof (cases "bytes_left sub = 0")
  case True
  with assms show ?thesis by (simp add: pb_close_string_substream_def ready_def)
next
  case False
  have "ready cb content sub (a @ []) (bs @ rest)" using assms(1) by simp
  from skip_bytes [OF this, of "bytes_left sub"] assms(1) obtain sub' where
    "pb_skip sub (bytes_left sub) = (True, sub')" "ready cb content sub' [] (bs @ rest)"
    "ierrmsg sub' = ierrmsg sub" by (auto simp: ready_def)
  with False assms(2,3) show ?thesis by (simp add: pb_close_string_substream_def ready_def)
qed

end

section \<open>Skipping\<close>

text \<open>The payloads of the four wire types.\<close>

definition payload :: "u32 \<Rightarrow> byte list \<Rightarrow> bool" where
  "payload wt a \<longleftrightarrow>
     wt = PB_WT_VARINT \<and> varint_form a \<or>
     wt = PB_WT_64BIT \<and> length a = 8 \<or>
     wt = PB_WT_32BIT \<and> length a = 4 \<or>
     wt = PB_WT_STRING \<and> (\<exists>d. length d < 2 ^ 32 \<and> a = varint_bytes (of_nat (length d)) @ d)"

context byte_source
begin

lemma skip_varint:
  assumes "ready cb content s (a @ bs) rest" "varint_form a"
  shows "\<exists>s'. pb_skip_varint s = (True, s') \<and> ready cb content s' bs rest \<and> ierrmsg s' = ierrmsg s"
  using assms
proof (induction a arbitrary: s)
  case (Cons b a)
  from read_bytes [of s "[b]" "a @ bs" rest 1] Cons.prems(1) obtain s1 where
    s1: "pb_read s True 1 = (Some [b], s1)" "ready cb content s1 (a @ bs) rest"
      "ierrmsg s1 = ierrmsg s" by auto
  show ?case
  proof (cases a)
    case Nil
    with Cons.prems(2) s1 show ?thesis by (simp add: pb_skip_varint.simps [of s])
  next
    case (Cons c d)
    then have "varint_form a" "b AND 0x80 \<noteq> 0" using Cons.prems(2) by auto
    with Cons.IH [OF s1(2)] s1 show ?thesis by (auto simp: pb_skip_varint.simps [of s])
  qed
qed simp

lemma skip_string:
  assumes "ready cb content s (varint_bytes (of_nat (length a)) @ a @ bs) rest" "length a < 2 ^ 32"
  shows "\<exists>s'. pb_skip_string s = (True, s') \<and> ready cb content s' bs rest \<and> ierrmsg s' = ierrmsg s"
proof -
  let ?n = "of_nat (length a) :: u64"
  have "unat ?n < 2 ^ 32" using assms(2) by (simp add: unat_of_nat_u64)
  from decode_varint32_bytes [OF assms(1) this] obtain s1 where
    s1: "pb_decode_varint32 s = (Some (ucast ?n), s1)" "ready cb content s1 (a @ bs) rest"
      "ierrmsg s1 = ierrmsg s" by auto
  have "unat (ucast (ucast ?n :: u32) :: u64) = length a"
    using assms(2)
    by (simp add: unsigned_ucast_eq unat_take_bit take_bit_nat_eq_self unat_of_nat_u64)
  from skip_bytes [OF s1(2) this] s1 show ?thesis by (auto simp: pb_skip_string_def)
qed

lemma skip_field:
  assumes "payload wt a" "ready cb content s (a @ bs) rest"
  shows "\<exists>s'. pb_skip_field s wt = (True, s') \<and> ready cb content s' bs rest \<and> ierrmsg s' = ierrmsg s"
  using assms(1) unfolding payload_def
proof (elim disjE exE conjE)
  assume "wt = PB_WT_VARINT" "varint_form a"
  with skip_varint [OF assms(2)] show ?thesis by (simp add: pb_skip_field_def)
next
  assume "wt = PB_WT_64BIT" "length a = 8"
  with skip_bytes [OF assms(2), of 8] show ?thesis by (simp add: pb_skip_field_def pb_wt_defs)
next
  assume "wt = PB_WT_32BIT" "length a = 4"
  with skip_bytes [OF assms(2), of 4] show ?thesis by (simp add: pb_skip_field_def pb_wt_defs)
next
  fix d assume "wt = PB_WT_STRING" "length d < 2 ^ 32" "a = varint_bytes (of_nat (length d)) @ d"
  with skip_string [of s d bs rest] assms(2) show ?thesis by (simp add: pb_skip_field_def pb_wt_defs)
qed

end

end
