(* ===== verification/Pb_Wire_Props.thy ===== *)
theory Pb_Wire_Props
  imports Pb_Read
begin

unbundle bit_operations_syntax

text \<open>
  Properties of the wire format: what the encoder's primitives write, the decoder's
  primitives read back; what the readers accept and reject; how skipping and substreams
  keep a stream aligned with the fields on it.
\<close>

section \<open>Buffers\<close>

lemma ready_buffer:
  "length a < 2 ^ 64 \<Longrightarrow> n = of_nat (length a) \<Longrightarrow>
   ready Buf_read (\<lambda>st. st) (pb_istream_from_buffer (a @ rest) n) a rest"
  by (simp add: ready_def pb_istream_from_buffer_def unat_of_nat_u64)

lemma ready_drained: "ready cb content s [] rest \<Longrightarrow> bytes_left s = 0"
  by (simp add: ready_def unat_eq_zero)

lemma ready_left: "ready cb content s bs rest \<Longrightarrow> unat (bytes_left s) = length bs"
  by (simp add: ready_def)

text \<open>A primitive writer run on a fresh buffer of sufficient size.\<close>

lemma written:
  assumes "emits (lift_w w) bs" "length bs \<le> unat sz"
  shows "\<exists>s. w (pb_ostream_from_buffer sz) = (True, s) \<and> state s = bs \<and>
    bytes_written s = of_nat (length bs)"
proof -
  let ?o = "pb_ostream_from_buffer sz"
  have "buffered ?o" "length bs \<le> room ?o"
    using assms(2) by (auto simp: buffered_def room_def pb_ostream_from_buffer_def)
  from emits_fit [OF assms(1) this] show ?thesis
    by (simp add: lift_w_def appended_def counted_def pb_ostream_from_buffer_def)
qed

section \<open>Round trips\<close>

text \<open>
  varints. What \<^verbatim>\<open>pb_encode_varint\<close> writes into a ten-byte buffer,
  \<^verbatim>\<open>pb_decode_varint\<close> reads back as the same 64-bit value, consuming exactly the written
  bytes, whatever follows them in memory.
\<close>
theorem varint_roundtrip:
  "\<exists>s r. pb_encode_varint (pb_ostream_from_buffer 10) v = (True, s) \<and>
     pb_decode_varint (pb_istream_from_buffer (state s @ rest) (bytes_written s)) = (Some v, r) \<and>
     bytes_left r = 0 \<and> istate r = rest"
proof -
  obtain s where s: "pb_encode_varint (pb_ostream_from_buffer 10) v = (True, s)"
    "state s = varint_bytes v" "bytes_written s = of_nat (length (varint_bytes v))"
    using written [OF emits_varint, of v 10] length_varint_bytes [of v] by auto
  have "ready Buf_read (\<lambda>st. st) (pb_istream_from_buffer (state s @ rest) (bytes_written s))
    (varint_bytes v @ []) rest"
    using s length_varint_bytes [of v] by (simp add: ready_buffer)
  from buf_source.decode_varint_bytes [OF this] s(1) show ?thesis
    by (auto simp: ready_def unat_eq_zero)
qed

text \<open>
  Signed varints and fixed-width integers. The zigzag encoding of every 64-bit value
  and the little-endian encodings of every 32-bit and 64-bit value are read back unchanged.
\<close>
theorem fixed_and_zigzag_roundtrip:
  "(\<exists>s r. pb_encode_svarint (pb_ostream_from_buffer 10) v = (True, s) \<and>
      pb_decode_svarint (pb_istream_from_buffer (state s) (bytes_written s)) = (Some v, r) \<and>
      bytes_left r = 0) \<and>
   (\<exists>s r. pb_encode_fixed32 (pb_ostream_from_buffer 4) w = (True, s) \<and>
      pb_decode_fixed32 (pb_istream_from_buffer (state s) (bytes_written s)) = (Some w, r) \<and>
      bytes_left r = 0) \<and>
   (\<exists>s r. pb_encode_fixed64 (pb_ostream_from_buffer 8) v = (True, s) \<and>
      pb_decode_fixed64 (pb_istream_from_buffer (state s) (bytes_written s)) = (Some v, r) \<and>
      bytes_left r = 0)"
proof -
  obtain s1 where s1: "pb_encode_svarint (pb_ostream_from_buffer 10) v = (True, s1)"
    "state s1 = varint_bytes (zigzag v)" "bytes_written s1 = of_nat (length (state s1))"
    using written [OF emits_varint, of "zigzag v" 10] length_varint_bytes [of "zigzag v"]
    by (auto simp: pb_encode_svarint_def)
  obtain s2 where s2: "pb_encode_fixed32 (pb_ostream_from_buffer 4) w = (True, s2)"
    "state s2 = fixed32_bytes w" "bytes_written s2 = of_nat (length (state s2))"
    using written [OF emits_fixed32, of w 4] by (auto simp: length_fixed_bytes)
  obtain s3 where s3: "pb_encode_fixed64 (pb_ostream_from_buffer 8) v = (True, s3)"
    "state s3 = fixed64_bytes v" "bytes_written s3 = of_nat (length (state s3))"
    using written [OF emits_fixed64, of v 8] by (auto simp: length_fixed_bytes)
  have rd: "ready Buf_read (\<lambda>st. st) (pb_istream_from_buffer (state s) (bytes_written s))
      (state s @ []) []"
    if "bytes_written s = of_nat (length (state s))" "length (state s) \<le> 10" for s :: pb_ostream
    using ready_buffer [of "state s" "bytes_written s" "[]"] that by simp
  have sv: "\<exists>r. pb_decode_svarint (pb_istream_from_buffer (state s1) (bytes_written s1)) = (Some v, r) \<and>
      bytes_left r = 0"
    using buf_source.decode_svarint_bytes [of _ v "[]" "[]", OF rd [OF s1(3), unfolded s1(2)]]
      length_varint_bytes [of "zigzag v"] s1(2) by (auto dest: ready_drained)
  have f32: "\<exists>r. pb_decode_fixed32 (pb_istream_from_buffer (state s2) (bytes_written s2)) = (Some w, r) \<and>
      bytes_left r = 0"
    using buf_source.decode_fixed_bytes(1) [of _ w "[]" "[]", OF rd [OF s2(3), unfolded s2(2)]]
      s2(2) by (auto simp: length_fixed_bytes dest: ready_drained)
  have f64: "\<exists>r. pb_decode_fixed64 (pb_istream_from_buffer (state s3) (bytes_written s3)) = (Some v, r) \<and>
      bytes_left r = 0"
    using buf_source.decode_fixed_bytes(2) [of _ v "[]" "[]", OF rd [OF s3(3), unfolded s3(2)]]
      s3(2) by (auto simp: length_fixed_bytes dest: ready_drained)
  from s1(1) s2(1) s3(1) sv f32 f64 show ?thesis by blast
qed

text \<open>
  Field keys. A tag below $2^{29}$ (the protobuf range) other than zero and a wire type
  below eight, written by \<^verbatim>\<open>pb_encode_tag\<close>, are what \<^verbatim>\<open>pb_decode_tag\<close> returns, with the
  end-of-message flag clear.
\<close>
theorem tag_roundtrip:
  assumes "unat t < 2 ^ 29" "t \<noteq> 0" "unat wt < 8"
  shows "\<exists>s r. pb_encode_tag (pb_ostream_from_buffer 10) wt t = (True, s) \<and>
    pb_decode_tag (pb_istream_from_buffer (state s @ rest) (bytes_written s)) =
      (Some (wt, t), False, r) \<and> bytes_left r = 0"
proof -
  let ?w = "tag_word wt t"
  obtain s where s: "pb_encode_tag (pb_ostream_from_buffer 10) wt t = (True, s)"
    "state s = varint_bytes ?w" "bytes_written s = of_nat (length (varint_bytes ?w))"
    using written [OF emits_varint, of ?w 10] length_varint_bytes [of ?w]
    by (auto simp: pb_encode_tag_def)
  have "ready Buf_read (\<lambda>st. st) (pb_istream_from_buffer (state s @ rest) (bytes_written s))
    (varint_bytes ?w @ []) rest"
    using s length_varint_bytes [of ?w] by (simp add: ready_buffer)
  from buf_source.decode_tag_bytes [OF this assms(1,3,2)] s(1) show ?thesis
    by (auto dest: ready_drained)
qed

theorem tag_roundtrip_witness:
  "\<exists>s r. pb_encode_tag (pb_ostream_from_buffer 10) PB_WT_STRING 1000 = (True, s) \<and>
    pb_decode_tag (pb_istream_from_buffer (state s @ [7]) (bytes_written s)) =
      (Some (PB_WT_STRING, 1000), False, r) \<and> bytes_left r = 0"
  by (rule tag_roundtrip) (simp_all add: PB_WT_STRING_def)

section \<open>What the readers accept\<close>

text \<open>
  64-bit varints. On a buffer that starts with a complete varint of at most ten bytes,
  \<^verbatim>\<open>pb_decode_varint\<close> returns its value (seven bits per byte, low bits first, modulo
  $2^{64}$) and leaves the stream just after it.
\<close>
theorem decode_varint_value:
  assumes "varint_form a" "length a \<le> 10" "length (a @ bs) < 2 ^ 64"
  shows "\<exists>r. pb_decode_varint (pb_istream_from_buffer (a @ bs) (of_nat (length (a @ bs)))) =
    (Some (of_nat (varint_val a)), r) \<and> istate r = bs \<and> unat (bytes_left r) = length bs"
proof -
  have "ready Buf_read (\<lambda>st. st) (pb_istream_from_buffer (a @ bs) (of_nat (length (a @ bs))))
    (a @ bs) []"
    using ready_buffer [OF assms(3) refl, of "[]"] by simp
  from buf_source.decode_varint [OF this assms(1,2)] show ?thesis by (auto simp: ready_def)
qed

theorem decode_varint_value_witness:
  "\<exists>r. pb_decode_varint (pb_istream_from_buffer [0xAC, 2, 9] 3) = (Some 300, r) \<and>
    istate r = [9] \<and> unat (bytes_left r) = 1"
proof -
  have "varint_val [0xAC, 2] = 300" "varint_form [0xAC, 2]" by code_simp+
  then show ?thesis using decode_varint_value [of "[0xAC, 2]" "[9]"] by simp
qed

text \<open>
  C37: malformed varints. Ten bytes that all carry the continuation bit are rejected with
  \<^verbatim>\<open>varint overflow\<close>, and a buffer of at most nine such bytes with \<^verbatim>\<open>end-of-stream\<close>.
\<close>
theorem decode_varint_rejects:
  assumes "\<forall>b\<in>set a. b AND 0x80 \<noteq> 0" "length (a @ bs) < 2 ^ 64"
  shows "(length a = 10 \<longrightarrow>
      (\<exists>r. pb_decode_varint (pb_istream_from_buffer (a @ bs) (of_nat (length (a @ bs)))) = (None, r) \<and>
        ierrmsg r = Some ''varint overflow'')) \<and>
    (length a \<le> 9 \<and> bs = [] \<longrightarrow>
      (\<exists>r. pb_decode_varint (pb_istream_from_buffer (a @ bs) (of_nat (length (a @ bs)))) = (None, r) \<and>
        ierrmsg r = Some ''end-of-stream''))"
proof -
  let ?s = "pb_istream_from_buffer (a @ bs) (of_nat (length (a @ bs)))"
  have r: "ready Buf_read (\<lambda>st. st) ?s (a @ bs) []"
    using ready_buffer [OF assms(2) refl, of "[]"] by simp
  have e: "ierrmsg ?s = None" by (simp add: pb_istream_from_buffer_def)
  show ?thesis
    using buf_source.varint_loop_overlong [OF r assms(1), of 0 0]
      buf_source.varint_loop_short [of ?s a "[]" 0 0] r assms(1) e
    by (auto simp: pb_decode_varint_def PB_SET_ERROR_def)
qed

theorem decode_varint_rejects_witness:
  "(\<exists>r. pb_decode_varint (pb_istream_from_buffer (replicate 10 0xFF @ [1]) 11) = (None, r) \<and>
      ierrmsg r = Some ''varint overflow'') \<and>
   (\<exists>r. pb_decode_varint (pb_istream_from_buffer [0x80] 1) = (None, r) \<and>
      ierrmsg r = Some ''end-of-stream'')"
  using decode_varint_rejects [of "replicate 10 0xFF" "[1]"] decode_varint_rejects [of "[0x80]" "[]"]
  by simp

text \<open>
  32-bit varints. A complete varint of at most five bytes is accepted by
  \<^verbatim>\<open>pb_decode_varint32\<close> exactly when its value is below $2^{32}$; otherwise the error is
  \<^verbatim>\<open>varint overflow\<close>.
\<close>
theorem decode_varint32_range:
  assumes "varint_form a" "length a \<le> 5" "length (a @ bs) < 2 ^ 64"
  shows "\<exists>r. pb_decode_varint32 (pb_istream_from_buffer (a @ bs) (of_nat (length (a @ bs)))) =
    (if varint_val a < 2 ^ 32 then Some (of_nat (varint_val a)) else None, r) \<and>
    istate r = bs \<and> (ierrmsg r = None \<longleftrightarrow> varint_val a < 2 ^ 32)"
proof -
  let ?s = "pb_istream_from_buffer (a @ bs) (of_nat (length (a @ bs)))"
  have "ready Buf_read (\<lambda>st. st) ?s (a @ bs) []"
    using ready_buffer [OF assms(3) refl, of "[]"] by simp
  from buf_source.decode_varint32_eof [OF this assms(1,2)] show ?thesis
    by (cases "varint_val a < 2 ^ 32")
       (auto simp: pb_decode_varint32_def ready_def pb_istream_from_buffer_def PB_SET_ERROR_def)
qed

theorem decode_varint32_range_witness:
  "(\<exists>r. pb_decode_varint32 (pb_istream_from_buffer [0xFF, 0xFF, 0xFF, 0xFF, 0x0F] 5) =
      (Some 0xFFFFFFFF, r)) \<and>
   (\<exists>r. pb_decode_varint32 (pb_istream_from_buffer [0x80, 0x80, 0x80, 0x80, 0x10] 5) = (None, r))"
proof -
  have "varint_form [0xFF, 0xFF, 0xFF, 0xFF, 0x0F]" "varint_form [0x80, 0x80, 0x80, 0x80, 0x10]"
    by code_simp+
  moreover have "varint_val [0xFF, 0xFF, 0xFF, 0xFF, 0x0F] = 0xFFFFFFFF"
    "varint_val [0x80, 0x80, 0x80, 0x80, 0x10] = 2 ^ 32" by simp_all
  ultimately show ?thesis
    using decode_varint32_range [of "[0xFF, 0xFF, 0xFF, 0xFF, 0x0F]" "[]"]
      decode_varint32_range [of "[0x80, 0x80, 0x80, 0x80, 0x10]" "[]"]
    by auto
qed

section \<open>Alignment\<close>

text \<open>A client's read callback that serves a file kept in memory, in the style of \<^verbatim>\<open>pb_decode.h\<close>.\<close>

definition file_read :: "byte list \<Rightarrow> u64 \<Rightarrow> read_result" where
  "file_read st count =
     (if unat count \<le> length st then Read_ok (take (unat count) st) (drop (unat count) st)
      else Read_eof [])"

lemma file_source: "byte_source (User_read file_read) (\<lambda>st. st)"
  by unfold_locales (simp add: call_read_def file_read_def)

text \<open>
  skipping. For every source that keeps the read-callback contract, also one that the
  library must skip by reading sixteen bytes at a time, \<^verbatim>\<open>pb_skip_field\<close> consumes exactly the
  payload of the given wire type: a varint of any length, 8 bytes, 4 bytes, or a
  length-delimited block.
\<close>
theorem skip_field_aligned:
  assumes "byte_source cb content" "payload wt a" "ready cb content s (a @ bs) rest"
  shows "\<exists>s'. pb_skip_field s wt = (True, s') \<and> ready cb content s' bs rest \<and> ierrmsg s' = ierrmsg s"
  using byte_source.skip_field [OF assms] .

definition long_block :: "byte list" where
  "long_block = 40 # replicate 40 5"

theorem skip_field_aligned_witness:
  "\<exists>s'. pb_skip_field \<lparr>icallback = User_read file_read, istate = long_block @ [8, 1],
       bytes_left = 43, ierrmsg = None\<rparr> PB_WT_STRING = (True, s') \<and>
     istate s' = [8, 1] \<and> unat (bytes_left s') = 2"
proof -
  let ?s = "\<lparr>icallback = User_read file_read, istate = long_block @ [8, 1],
       bytes_left = 43, ierrmsg = None\<rparr>"
  have "varint_bytes 40 = [40]" by code_simp
  then have "payload PB_WT_STRING long_block"
    unfolding payload_def long_block_def
    by (auto intro!: exI [of _ "replicate 40 5"])
  moreover have "ready (User_read file_read) (\<lambda>st. st) ?s (long_block @ [8, 1]) []"
    by (simp add: ready_def long_block_def)
  ultimately show ?thesis
    using skip_field_aligned [OF file_source] by (fastforce simp: ready_def)
qed

text \<open>
  Substreams. After \<^verbatim>\<open>pb_make_string_substream\<close> on a length-delimited block the
  substream can read exactly the block and the parent counts exactly what follows it; when
  the substream is closed, however much of the block is still unread, the parent reads on
  just after the block.
\<close>
theorem substream_aligned:
  assumes "byte_source cb content" "length a < 2 ^ 32"
    "ready cb content s (varint_bytes (of_nat (length a)) @ a @ bs) rest"
  shows "\<exists>sub s1. pb_make_string_substream s = (Some sub, s1) \<and> ready cb content sub a (bs @ rest) \<and>
    unat (bytes_left s1) = length bs \<and>
    (\<forall>sub' a'. ready cb content sub' a' (bs @ rest) \<longrightarrow>
      (\<exists>s2. pb_close_string_substream s1 sub' = (True, s2) \<and> ready cb content s2 bs rest))"
proof -
  obtain sub s1 where s1: "pb_make_string_substream s = (Some sub, s1)"
    "ready cb content sub a (bs @ rest)" "icallback s1 = cb" "unat (bytes_left s1) = length bs"
    using byte_source.make_substream [OF assms(1,3,2)] by auto
  moreover have "\<exists>s2. pb_close_string_substream s1 sub' = (True, s2) \<and> ready cb content s2 bs rest"
    if "ready cb content sub' a' (bs @ rest)" for sub' a'
    using byte_source.close_substream [OF assms(1) that s1(3,4)] by blast
  ultimately show ?thesis by blast
qed

theorem substream_aligned_witness:
  "\<exists>sub s1. pb_make_string_substream (pb_istream_from_buffer [2, 8, 1, 16] 4) = (Some sub, s1) \<and>
     ready Buf_read (\<lambda>st. st) sub [8, 1] [16] \<and>
     (\<exists>s2. pb_close_string_substream s1 sub = (True, s2) \<and> ready Buf_read (\<lambda>st. st) s2 [16] [])"
proof -
  have "varint_bytes 2 = [2]" by code_simp
  then have "ready Buf_read (\<lambda>st. st) (pb_istream_from_buffer [2, 8, 1, 16] 4)
    (varint_bytes (of_nat (length [8 :: byte, 1])) @ [8, 1] @ [16]) []"
    by (simp add: ready_def pb_istream_from_buffer_def)
  from substream_aligned [OF buf_source.byte_source_axioms _ this] show ?thesis by fastforce
qed

section \<open>Negative numbers and overlong encodings\<close>

lemma drop_bit_signed:
  fixes w :: u32
  assumes "sint w < 0"
  shows "bit (scast w :: u64) n \<longleftrightarrow> n < 64 \<and> (n < 32 \<longrightarrow> bit w n)"
proof -
  have "bit w 31" using assms bit_last_iff [of w] by simp
  then show ?thesis by (cases "n = 31") (auto simp: bit_simps min_def split: if_splits)
qed

lemma varint_bytes_high:
  assumes "bit (v :: u64) n" "7 \<le> n"
  shows "varint_bytes v = (ucast (v AND 0x7F) OR 0x80) # varint_bytes (drop_bit 7 v)"
proof -
  have "bit (drop_bit 7 v) (n - 7)" using assms by (simp add: bit_drop_bit_eq)
  then have "drop_bit 7 v \<noteq> 0" by auto
  then show ?thesis by (simp add: varint_bytes_rec [of v] drop_bit_7_eq_0)
qed

lemma varint_prefix:
  assumes "bit (v :: u64) 63" "k \<le> 9"
  shows "\<exists>cs. varint_bytes v = cs @ varint_bytes (drop_bit (7 * k) v) \<and> length cs = k \<and>
    (\<forall>b\<in>set cs. b AND 0x80 \<noteq> 0) \<and> varint_val cs = unat v mod 128 ^ k"
  using assms(2)
proof (induction k)
  case (Suc k)
  then obtain cs where cs: "varint_bytes v = cs @ varint_bytes (drop_bit (7 * k) v)" "length cs = k"
    "\<forall>b\<in>set cs. b AND 0x80 \<noteq> 0" "varint_val cs = unat v mod 128 ^ k" by auto
  let ?d = "drop_bit (7 * k) v"
  let ?b = "ucast (?d AND 0x7F) OR 0x80 :: byte"
  have "bit ?d (63 - 7 * k)" "7 \<le> 63 - 7 * k"
    using assms(1) Suc.prems by (simp_all add: bit_drop_bit_eq)
  from varint_bytes_high [OF this] have "varint_bytes ?d = ?b # varint_bytes (drop_bit (7 * Suc k) v)"
    by (simp add: drop_bit_drop_bit add.commute)
  moreover have "unat (?b AND 0x7F) = unat v div 128 ^ k mod 128"
    by (simp add: ucast_and_127 and_127 unsigned_ucast_eq unat_take_bit take_bit_nat_eq_self
        unat_drop_bit power_mult)
  then have "varint_val (cs @ [?b]) = unat v mod 128 ^ Suc k"
    using cs(2,4) mod_mult2_eq [of "unat v" "128 ^ k" 128] by (simp add: varint_val_snoc mult.commute)
  moreover have "?b AND 0x80 \<noteq> 0" by (simp add: and_128 or_128 bit_set_bit_iff)
  ultimately show ?case using cs(1-3) by (intro exI [of _ "cs @ [?b]"]) auto
qed simp

lemma negative_varint:
  fixes w :: u32
  assumes "sint w < 0"
  shows "\<exists>cs. varint_bytes (scast w) = cs @ [0xFF, 0xFF, 0xFF, 0xFF, 1] \<and> length cs = 5 \<and>
    (\<forall>b\<in>set cs. b AND 0x80 \<noteq> 0) \<and> of_nat (varint_val cs) = w"
proof -
  let ?v = "scast w :: u64"
  have "drop_bit 35 ?v = mask 29"
    by (rule bit_word_eqI) (auto simp: bit_simps drop_bit_signed [OF assms] simp del: bit_signed_iff)
  then have "drop_bit 35 ?v = 0x1FFFFFFF" by (simp add: mask_eq_exp_minus_1)
  moreover have "varint_bytes 0x1FFFFFFF = [0xFF, 0xFF, 0xFF, 0xFF, 1]" by code_simp
  moreover have "bit ?v 63" by (simp add: drop_bit_signed [OF assms] del: bit_signed_iff)
  moreover have "(of_nat (unat ?v mod 2 ^ 35) :: u32) = w"
  proof -
    have "unat ?v mod 2 ^ 35 = unat (take_bit 35 ?v)" by (simp only: unat_take_bit)
    then have "(of_nat (unat ?v mod 2 ^ 35) :: u32) = ucast (take_bit 35 ?v)" by simp
    also have "\<dots> = w"
      by (rule bit_word_eqI)
         (auto simp: bit_unsigned_iff bit_take_bit_iff drop_bit_signed [OF assms])
    finally show ?thesis .
  qed
  ultimately show ?thesis using varint_prefix [of ?v 5] by auto
qed

text \<open>
  Negative numbers. A negative 32-bit integer is written as a ten-byte varint (the
  protobuf rule for \<^verbatim>\<open>int32\<close>); \<^verbatim>\<open>pb_decode_varint32\<close> accepts the sign-extension bytes and
  returns the same 32 bits.
\<close>
theorem negative_int32_roundtrip:
  fixes w :: u32
  assumes "sint w < 0"
  shows "\<exists>s r. pb_encode_varint (pb_ostream_from_buffer 10) (scast w) = (True, s) \<and>
    bytes_written s = 10 \<and>
    pb_decode_varint32 (pb_istream_from_buffer (state s @ rest) (bytes_written s)) = (Some w, r) \<and>
    bytes_left r = 0"
proof -
  obtain cs where cs: "varint_bytes (scast w) = cs @ [0xFF, 0xFF, 0xFF, 0xFF, 1]" "length cs = 5"
    "\<forall>b\<in>set cs. b AND 0x80 \<noteq> 0" "of_nat (varint_val cs) = w"
    using negative_varint [OF assms] by blast
  obtain s where s: "pb_encode_varint (pb_ostream_from_buffer 10) (scast w) = (True, s)"
    "state s = varint_bytes (scast w)" "bytes_written s = 10"
    using written [OF emits_varint, of "scast w" 10] cs(1,2) by auto
  let ?i = "pb_istream_from_buffer (state s @ rest) (bytes_written s)"
  obtain c ds where c: "cs = c # ds" "length ds = 4" using cs(2) by (cases cs) auto
  have "ready Buf_read (\<lambda>st. st) ?i (c # ds @ [0xFF, 0xFF, 0xFF, 0xFF, 1]) rest"
    using s cs(1) c by (simp add: ready_def pb_istream_from_buffer_def)
  from buf_source.readbyte [OF this] obtain s1 where
    s1: "pb_readbyte ?i = (Some c, s1)"
      "ready Buf_read (\<lambda>st. st) s1 (ds @ [0xFF, 0xFF, 0xFF, 0xFF, 1] @ []) rest" by auto
  have dcont: "\<forall>b\<in>set ds. b AND 0x80 \<noteq> 0" using cs(3) c(1) by simp
  have acc: "ucast (c AND 0x7F) OR varint_acc 7 ds = w"
    using varint_acc_val [of cs, where 'a = 32] cs(4) c(1) by simp
  obtain s2 where s2: "varint32_loop s1 7 (ucast (c AND 0x7F)) = varint32_loop s2 35 w"
    "ready Buf_read (\<lambda>st. st) s2 ([0xFF, 0xFF, 0xFF, 0xFF, 1] @ []) rest"
    using buf_source.varint32_loop_prefix [OF s1(2) dcont, of 7 "ucast (c AND 0x7F)"] c(2) acc
    by auto
  have "bit w 31" using assms bit_last_iff [of w] by simp
  then have "bit (drop_bit 31 w) 0" by (simp add: bit_drop_bit_eq)
  then have "drop_bit 31 w \<noteq> 0" by auto
  from buf_source.varint32_loop_sign [OF s2(2) this] s1(1) s2(1) cs(3) c(1)
  obtain r where "pb_decode_varint32 ?i = (Some w, r)" "ready Buf_read (\<lambda>st. st) r [] rest"
    by (auto simp: pb_decode_varint32_def pb_decode_varint32_eof_def)
  with s show ?thesis by (auto dest: ready_drained)
qed

theorem negative_int32_roundtrip_witness:
  "\<exists>s r. pb_encode_varint (pb_ostream_from_buffer 10) (scast (- 5 :: u32)) = (True, s) \<and>
    bytes_written s = 10 \<and>
    pb_decode_varint32 (pb_istream_from_buffer (state s @ [3]) (bytes_written s)) = (Some (- 5), r) \<and>
    bytes_left r = 0"
  by (rule negative_int32_roundtrip) simp


end
