(* ===== verification/Pb_Storage.thy ===== *)
theory Pb_Storage
  imports Pb_Common Pb_Istream
begin

unbundle bit_operations_syntax

text \<open>
  The parts of \<^verbatim>\<open>nanopb/pb_decode.c\<close> that prepare and give back the storage of a message:
  default values (\<^verbatim>\<open>pb_message_set_to_defaults\<close>), allocation of pointer fields
  (\<^verbatim>\<open>allocate_field\<close>) and release (\<^verbatim>\<open>pb_release\<close>). The functions recurse through
  submessages and walk linked lists of extensions; a budget \<open>n\<close> bounds both, and \<open>None\<close> is
  an exhausted budget or an access through a null or mistyped descriptor pointer.
\<close>

text \<open>The functions behind the decoder's function pointers, and the allocator.\<close>

record pb_dec_env =
  dec_fn :: "addr \<Rightarrow> pb_field \<Rightarrow> addr \<Rightarrow> pb_istream \<Rightarrow> cstate \<Rightarrow> bool \<times> pb_istream \<times> cstate"
  ext_dec_fn :: "addr \<Rightarrow> addr \<Rightarrow> u32 \<Rightarrow> u32 \<Rightarrow> pb_istream \<Rightarrow> cstate \<Rightarrow> bool \<times> pb_istream \<times> cstate"
  dec_ext_types :: "addr \<Rightarrow> pb_extension_type"
  place :: placement

section \<open>Access through the iterator\<close>

definition psize_load :: "pb_field_iter \<Rightarrow> cstate \<Rightarrow> u32" where
  "psize_load it c = (case pSize it of Addr p \<Rightarrow> load32 (mem c) p | Fixed_count \<Rightarrow> fixed_count c)"

definition psize_store :: "pb_field_iter \<Rightarrow> u32 \<Rightarrow> cstate \<Rightarrow> cstate" where
  "psize_store it v c =
     (case pSize it of
        Addr p \<Rightarrow> c\<lparr>mem := store32 (mem c) p v\<rparr>
      | Fixed_count \<Rightarrow> c\<lparr>fixed_count := v\<rparr>)"

text \<open>Storing a \<^verbatim>\<open>bool\<close> through \<^verbatim>\<open>pSize\<close>; a counter keeps its upper bytes.\<close>

definition psize_store_bool :: "pb_field_iter \<Rightarrow> bool \<Rightarrow> cstate \<Rightarrow> cstate" where
  "psize_store_bool it v c =
     (case pSize it of
        Addr p \<Rightarrow> c\<lparr>mem := store_bool (mem c) p v\<rparr>
      | Fixed_count \<Rightarrow> c\<lparr>fixed_count := (fixed_count c AND NOT 0xFF) OR (if v then 1 else 0)\<rparr>)"

definition iter_from_extension :: "pb_dec_env \<Rightarrow> addr \<Rightarrow> cstate \<Rightarrow> pb_field_iter" where
  "iter_from_extension env ext c =
     (let f = ext_arg (dec_ext_types env (extension_type (mem c) ext));
          dest = load64 (mem c) (extension_dest ext);
          it = (snd (pb_field_iter_begin [f] dest))
                 \<lparr>pData := dest, pSize := Addr (extension_found ext)\<rparr>
      in if PB_ATYPE (ftype f) = PB_ATYPE_POINTER then it\<lparr>pData := extension_dest ext\<rparr> else it)"

section \<open>Default values\<close>

text \<open>
  \<^verbatim>\<open>memcpy(iter->pData, iter->pos->ptr, iter->pos->data_size)\<close> or the zeroing of a field
  without a default.
\<close>

definition default_data :: "pb_field_iter \<Rightarrow> cstate \<Rightarrow> cstate option" where
  "default_data it c =
     (let f = iter_field it; n = unat (data_size f) in
      case ptr f of
        Ptr_NULL \<Rightarrow> Some (c\<lparr>mem := memset_zero (mem c) (pData it) n\<rparr>)
      | Ptr_default bs \<Rightarrow>
          if n \<le> length bs then Some (c\<lparr>mem := store_bytes (mem c) (pData it) (take n bs)\<rparr>) else None
      | Ptr_fields _ \<Rightarrow> None)"

text \<open>
  The body of \<^verbatim>\<open>pb_field_set_to_default\<close>, over the loop on the extension list and the
  initialisation of a submessage.
\<close>

definition set_default_with ::
  "(addr \<Rightarrow> cstate \<Rightarrow> cstate option) \<Rightarrow> (pb_field list \<Rightarrow> addr \<Rightarrow> cstate \<Rightarrow> cstate option) \<Rightarrow>
   pb_field_iter \<Rightarrow> cstate \<Rightarrow> cstate option" where
  "set_default_with exts submsg it c =
     (let ty = ftype (iter_field it) in
      if PB_LTYPE ty = PB_LTYPE_EXTENSION then exts (load64 (mem c) (pData it)) c
      else if PB_ATYPE ty = PB_ATYPE_STATIC then
        if PB_HTYPE ty = PB_HTYPE_REPEATED \<or> PB_HTYPE ty = PB_HTYPE_ONEOF
        then Some (psize_store it 0 c)
        else
          let c1 = (if PB_HTYPE ty = PB_HTYPE_OPTIONAL \<and> pSize it \<noteq> Addr (pData it)
                    then psize_store_bool it False c else c)
          in if PB_LTYPE ty = PB_LTYPE_SUBMESSAGE then
               (case submsg_fields (iter_field it) of
                  Some fs \<Rightarrow> submsg fs (pData it) c1
                | None \<Rightarrow> None)
             else default_data it c1
      else if PB_ATYPE ty = PB_ATYPE_POINTER then
        let c1 = c\<lparr>mem := store64 (mem c) (pData it) 0\<rparr>
        in Some (if PB_HTYPE ty = PB_HTYPE_REPEATED \<or> PB_HTYPE ty = PB_HTYPE_ONEOF
                 then psize_store it 0 c1 else c1)
      else Some c)"

fun pb_field_set_to_default :: "nat \<Rightarrow> pb_dec_env \<Rightarrow> pb_field_iter \<Rightarrow> cstate \<Rightarrow> cstate option"
and ext_set_to_defaults :: "nat \<Rightarrow> pb_dec_env \<Rightarrow> addr \<Rightarrow> cstate \<Rightarrow> cstate option"
and pb_message_set_to_defaults :: "nat \<Rightarrow> pb_dec_env \<Rightarrow> pb_field list \<Rightarrow> addr \<Rightarrow> cstate \<Rightarrow> cstate option"
where
  "pb_field_set_to_default n env it c =
     set_default_with (\<lambda>e c. ext_set_to_defaults n env e c)
       (\<lambda>fs d c. pb_message_set_to_defaults n env fs d c) it c"
| "ext_set_to_defaults 0 env ext c = (if ext = 0 then Some c else None)"
| "ext_set_to_defaults (Suc n) env ext c =
     (if ext = 0 then Some c
      else
        let c1 = c\<lparr>mem := store_bool (mem c) (extension_found ext) False\<rparr>
        in case pb_field_set_to_default n env (iter_from_extension env ext c1) c1 of
             None \<Rightarrow> None
           | Some c2 \<Rightarrow> ext_set_to_defaults n env (extension_next (mem c2) ext) c2)"
| "pb_message_set_to_defaults 0 env fs dest c = None"
| "pb_message_set_to_defaults (Suc n) env fs dest c =
     (case pb_field_iter_begin fs dest of
        (False, _) \<Rightarrow> Some c
      | (True, it) \<Rightarrow>
          map_option snd
            (iter_each (length fs)
               (\<lambda>it c. map_option (\<lambda>c. (True, c)) (pb_field_set_to_default n env it c)) it c))"

declare pb_field_set_to_default.simps [simp del]

section \<open>Allocation\<close>

definition allocate_field ::
  "pb_dec_env \<Rightarrow> addr \<Rightarrow> u64 \<Rightarrow> u64 \<Rightarrow> pb_istream \<Rightarrow> cstate \<Rightarrow> bool \<times> pb_istream \<times> cstate" where
  "allocate_field env pd dsize asize s c =
     (if dsize = 0 \<or> asize = 0 then (False, set_ierror s ''invalid size'', c)
      else if (0x100000000 \<le> dsize \<or> 0x100000000 \<le> asize) \<and> (- 1) div asize < dsize
      then (False, set_ierror s ''size too large'', c)
      else
        (case c_realloc (place env) c (load64 (mem c) pd) (unat (asize * dsize)) of
           (p, c1) \<Rightarrow>
             if p = 0 then (False, set_ierror s ''realloc failed'', c1)
             else (True, s, c1\<lparr>mem := store64 (mem c1) pd p\<rparr>)))"

text \<open>\<^verbatim>\<open>memset\<close> to zero and default values for a submessage that starts its life.\<close>

definition fresh_submessage :: "nat \<Rightarrow> pb_dec_env \<Rightarrow> pb_field \<Rightarrow> addr \<Rightarrow> cstate \<Rightarrow> cstate option" where
  "fresh_submessage n env f p c =
     (case submsg_fields f of
        None \<Rightarrow> None
      | Some fs \<Rightarrow>
          pb_message_set_to_defaults n env fs p
            (c\<lparr>mem := memset_zero (mem c) p (unat (data_size f))\<rparr>))"

definition initialize_pointer_field ::
  "nat \<Rightarrow> pb_dec_env \<Rightarrow> pb_field \<Rightarrow> addr \<Rightarrow> cstate \<Rightarrow> cstate option" where
  "initialize_pointer_field n env f pItem c =
     (if PB_LTYPE (ftype f) = PB_LTYPE_STRING \<or> PB_LTYPE (ftype f) = PB_LTYPE_BYTES
      then Some (c\<lparr>mem := store64 (mem c) pItem 0\<rparr>)
      else if PB_LTYPE (ftype f) = PB_LTYPE_SUBMESSAGE then fresh_submessage n env f pItem c
      else Some c)"

section \<open>Release\<close>

text \<open>\<^verbatim>\<open>while (count--) { pb_free(*pItem); *pItem++ = NULL; }\<close>\<close>

fun release_pointers :: "nat \<Rightarrow> addr \<Rightarrow> cstate \<Rightarrow> cstate" where
  "release_pointers 0 p c = c"
| "release_pointers (Suc k) p c =
     (let c1 = c_free c (load64 (mem c) p)
      in release_pointers k (p + 8) (c1\<lparr>mem := store64 (mem c1) p 0\<rparr>))"

text \<open>The last part of \<^verbatim>\<open>pb_release_single_field\<close>, for pointer fields.\<close>

definition release_pointer :: "pb_field_iter \<Rightarrow> cstate \<Rightarrow> cstate" where
  "release_pointer it c =
     (let ty = ftype (iter_field it);
          c1 = (if PB_HTYPE ty = PB_HTYPE_REPEATED \<and>
                   (PB_LTYPE ty = PB_LTYPE_STRING \<or> PB_LTYPE ty = PB_LTYPE_BYTES)
                then release_pointers (unat (psize_load it c)) (load64 (mem c) (pData it)) c else c);
          c2 = (if PB_HTYPE ty = PB_HTYPE_REPEATED then psize_store it 0 c1 else c1);
          c3 = c_free c2 (load64 (mem c2) (pData it))
      in c3\<lparr>mem := store64 (mem c3) (pData it) 0\<rparr>)"

text \<open>The number of submessages of a field, with the guard against corrupted counts.\<close>

definition submsg_count :: "pb_field_iter \<Rightarrow> cstate \<Rightarrow> u32" where
  "submsg_count it c =
     (let f = iter_field it; ty = ftype f in
      if PB_HTYPE ty = PB_HTYPE_REPEATED then
        let count = (if PB_ATYPE ty = PB_ATYPE_STATIC \<and> pSize it = Addr (pData it)
                     then array_size f else psize_load it c)
        in if PB_ATYPE ty = PB_ATYPE_STATIC \<and> array_size f < count then array_size f else count
      else 1)"

text \<open>\<^verbatim>\<open>while (count--) { pb_release(fields, pItem); pItem += data_size; }\<close>\<close>

fun release_items :: "(addr \<Rightarrow> cstate \<Rightarrow> cstate option) \<Rightarrow> u64 \<Rightarrow> nat \<Rightarrow> addr \<Rightarrow> cstate \<Rightarrow> cstate option" where
  "release_items rel step 0 p c = Some c"
| "release_items rel step (Suc k) p c =
     (case rel p c of
        None \<Rightarrow> None
      | Some c1 \<Rightarrow> release_items rel step k (p + step) c1)"

text \<open>The body of \<^verbatim>\<open>pb_release_single_field\<close>, over the extension loop and \<^verbatim>\<open>pb_release\<close>.\<close>

definition release_field_with ::
  "(addr \<Rightarrow> cstate \<Rightarrow> cstate option) \<Rightarrow> (pb_field list \<Rightarrow> addr \<Rightarrow> cstate \<Rightarrow> cstate option) \<Rightarrow>
   pb_field_iter \<Rightarrow> cstate \<Rightarrow> cstate option" where
  "release_field_with exts rel it c =
     (let f = iter_field it; ty = ftype f in
      if PB_HTYPE ty = PB_HTYPE_ONEOF \<and> psize_load it c \<noteq> tag f then Some c
      else
        (case
           (if PB_LTYPE ty = PB_LTYPE_EXTENSION then exts (load64 (mem c) (pData it)) c
            else if PB_LTYPE ty = PB_LTYPE_SUBMESSAGE \<and> PB_ATYPE ty \<noteq> PB_ATYPE_CALLBACK then
              let pItem = (if PB_ATYPE ty = PB_ATYPE_POINTER then load64 (mem c) (pData it) else pData it)
              in if pItem = 0 \<or> submsg_count it c = 0 then Some c
                 else (case submsg_fields f of
                         None \<Rightarrow> None
                       | Some fs \<Rightarrow>
                           release_items (rel fs) (ucast (data_size f)) (unat (submsg_count it c)) pItem c)
            else Some c)
         of None \<Rightarrow> None
          | Some c1 \<Rightarrow> Some (if PB_ATYPE ty = PB_ATYPE_POINTER then release_pointer it c1 else c1)))"

fun pb_release_single_field :: "nat \<Rightarrow> pb_dec_env \<Rightarrow> pb_field_iter \<Rightarrow> cstate \<Rightarrow> cstate option"
and release_extensions :: "nat \<Rightarrow> pb_dec_env \<Rightarrow> addr \<Rightarrow> cstate \<Rightarrow> cstate option"
and pb_release :: "nat \<Rightarrow> pb_dec_env \<Rightarrow> pb_field list \<Rightarrow> addr \<Rightarrow> cstate \<Rightarrow> cstate option"
where
  "pb_release_single_field n env it c =
     release_field_with (\<lambda>e c. release_extensions n env e c) (\<lambda>fs d c. pb_release n env fs d c) it c"
| "release_extensions 0 env ext c = (if ext = 0 then Some c else None)"
| "release_extensions (Suc n) env ext c =
     (if ext = 0 then Some c
      else case pb_release_single_field n env (iter_from_extension env ext c) c of
             None \<Rightarrow> None
           | Some c1 \<Rightarrow> release_extensions n env (extension_next (mem c1) ext) c1)"
| "pb_release 0 env fs dest c = None"
| "pb_release (Suc n) env fs dest c =
     (if dest = 0 then Some c
      else case pb_field_iter_begin fs dest of
             (False, _) \<Rightarrow> Some c
           | (True, it) \<Rightarrow>
               map_option snd
                 (iter_each (length fs)
                    (\<lambda>it c. map_option (\<lambda>c. (True, c)) (pb_release_single_field n env it c)) it c))"

declare pb_release_single_field.simps [simp del]

end
