(* ===== verification/Pb_Decode.thy ===== *)
theory Pb_Decode
  imports Pb_Storage
begin

unbundle bit_operations_syntax

text \<open>
  \<^verbatim>\<open>nanopb/pb_decode.c\<close> from the single-field decoders to \<^verbatim>\<open>pb_decode\<close>. Every function
  takes the input stream and the C state and returns the C return value with both updated;
  \<open>None\<close> is a call that has no result (an exhausted budget, a null function pointer, a
  callback that makes the code loop forever). The decoder of submessages is the argument
  \<open>sub\<close>, whose first argument selects \<^verbatim>\<open>pb_decode\<close> or \<^verbatim>\<open>pb_decode_noinit\<close>; \<open>pb_decode_at\<close>
  ties the knot with a budget.
\<close>

type_synonym decoder = "pb_istream \<Rightarrow> cstate \<Rightarrow> (bool \<times> pb_istream \<times> cstate) option"

type_synonym sub_decoder = "bool \<Rightarrow> pb_field list \<Rightarrow> addr \<Rightarrow> decoder"

definition d_error :: "string \<Rightarrow> decoder" where
  "d_error msg s c = Some (False, set_ierror s msg, c)"

text \<open>\<^verbatim>\<open>if (!read(stream, &v)) return false;\<close>\<close>

definition d_read :: "'a option \<times> pb_istream \<Rightarrow> cstate \<Rightarrow> ('a \<Rightarrow> decoder) \<Rightarrow> (bool \<times> pb_istream \<times> cstate) option" where
  "d_read r c k = (case r of (None, s) \<Rightarrow> Some (False, s, c) | (Some v, s) \<Rightarrow> k v s c)"

section \<open>Field decoders\<close>

definition pb_dec_bool :: "pb_field \<Rightarrow> addr \<Rightarrow> decoder" where
  "pb_dec_bool f dest s c =
     d_read (pb_decode_varint32 s) c (\<lambda>v s c.
       Some (True, s, c\<lparr>mem := store_bool (mem c) dest (v \<noteq> 0)\<rparr>))"

text \<open>
  Storing an integer of the field's size, and the value the stored integer has as a signed
  or unsigned number of that size; \<open>None\<close> for a size that is not that of an integer type.
\<close>

definition store_int :: "mem \<Rightarrow> u32 \<Rightarrow> addr \<Rightarrow> u64 \<Rightarrow> mem option" where
  "store_int m dsize dest v =
     (if dsize = 8 then Some (store64 m dest v)
      else if dsize = 4 then Some (store32 m dest (ucast v))
      else if dsize = 2 then Some (store16 m dest (ucast v))
      else if dsize = 1 then Some (store8 m dest (ucast v))
      else None)"

definition clamp_signed :: "u32 \<Rightarrow> u64 \<Rightarrow> u64" where
  "clamp_signed dsize v =
     (if dsize = 8 then v
      else if dsize = 4 then scast (ucast v :: u32)
      else if dsize = 2 then scast (ucast v :: u16)
      else scast (ucast v :: byte))"

definition clamp_unsigned :: "u32 \<Rightarrow> u64 \<Rightarrow> u64" where
  "clamp_unsigned dsize v =
     (if dsize = 8 then v
      else if dsize = 4 then ucast (ucast v :: u32)
      else if dsize = 2 then ucast (ucast v :: u16)
      else ucast (ucast v :: byte))"

text \<open>The common tail: store, then report a value that does not fit.\<close>

definition store_checked :: "(u32 \<Rightarrow> u64 \<Rightarrow> u64) \<Rightarrow> pb_field \<Rightarrow> addr \<Rightarrow> u64 \<Rightarrow> decoder" where
  "store_checked clamp f dest v s c =
     (case store_int (mem c) (data_size f) dest v of
        None \<Rightarrow> d_error ''invalid data_size'' s c
      | Some m' \<Rightarrow>
          if clamp (data_size f) v \<noteq> v then d_error ''integer too large'' s (c\<lparr>mem := m'\<rparr>)
          else Some (True, s, c\<lparr>mem := m'\<rparr>))"

definition pb_dec_varint :: "pb_field \<Rightarrow> addr \<Rightarrow> decoder" where
  "pb_dec_varint f dest s c =
     d_read (pb_decode_varint s) c (\<lambda>v.
       let svalue = (if data_size f = 8 then v else scast (ucast v :: u32))
       in store_checked clamp_signed f dest svalue)"

definition pb_dec_uvarint :: "pb_field \<Rightarrow> addr \<Rightarrow> decoder" where
  "pb_dec_uvarint f dest s c =
     d_read (pb_decode_varint s) c (\<lambda>v. store_checked clamp_unsigned f dest v)"

definition pb_dec_svarint :: "pb_field \<Rightarrow> addr \<Rightarrow> decoder" where
  "pb_dec_svarint f dest s c =
     d_read (pb_decode_svarint s) c (\<lambda>v. store_checked clamp_signed f dest v)"

definition pb_dec_fixed32 :: "pb_field \<Rightarrow> addr \<Rightarrow> decoder" where
  "pb_dec_fixed32 f dest s c =
     d_read (pb_decode_fixed32 s) c (\<lambda>v s c. Some (True, s, c\<lparr>mem := store32 (mem c) dest v\<rparr>))"

definition pb_dec_fixed64 :: "pb_field \<Rightarrow> addr \<Rightarrow> decoder" where
  "pb_dec_fixed64 f dest s c =
     d_read (pb_decode_fixed64 s) c (\<lambda>v s c. Some (True, s, c\<lparr>mem := store64 (mem c) dest v\<rparr>))"

text \<open>The destination of a bytes or string value: allocated for a pointer field, else checked.\<close>

definition blob_dest ::
  "pb_dec_env \<Rightarrow> pb_field \<Rightarrow> addr \<Rightarrow> u32 \<Rightarrow> u64 \<Rightarrow> string \<Rightarrow> (addr \<Rightarrow> decoder) \<Rightarrow> decoder" where
  "blob_dest env f dest n alloc_size overflow k s c =
     (if PB_ATYPE (ftype f) = PB_ATYPE_POINTER then
        if bytes_left s < ucast n then d_error ''end-of-stream'' s c
        else (case allocate_field env dest alloc_size 1 s c of
                (False, s1, c1) \<Rightarrow> Some (False, s1, c1)
              | (True, s1, c1) \<Rightarrow> k (load64 (mem c1) dest) s1 c1)
      else if ucast (data_size f) < alloc_size then d_error overflow s c
      else k dest s c)"

definition pb_dec_bytes :: "pb_dec_env \<Rightarrow> pb_field \<Rightarrow> addr \<Rightarrow> decoder" where
  "pb_dec_bytes env f dest s c =
     d_read (pb_decode_varint32 s) c (\<lambda>n s c.
       let alloc_size = PB_BYTES_ARRAY_T_ALLOCSIZE n in
       if PB_SIZE_MAX < n then d_error ''bytes overflow'' s c
       else if alloc_size < ucast n then d_error ''size too large'' s c
       else blob_dest env f dest n alloc_size ''bytes overflow'' (\<lambda>bdest s c.
         let c1 = c\<lparr>mem := store32 (mem c) bdest n\<rparr> in
         d_read (pb_read s True (ucast n)) c1 (\<lambda>bs s c.
           Some (True, s, c\<lparr>mem := store_bytes (mem c) (bytes_array_bytes bdest) bs\<rparr>))) s c)"

definition pb_dec_string :: "pb_dec_env \<Rightarrow> pb_field \<Rightarrow> addr \<Rightarrow> decoder" where
  "pb_dec_string env f dest s c =
     d_read (pb_decode_varint32 s) c (\<lambda>n s c.
       let alloc_size = ucast (n + 1) in
       if alloc_size < ucast n then d_error ''size too large'' s c
       else blob_dest env f dest n alloc_size ''string overflow'' (\<lambda>sdest s c.
         case pb_read s True (ucast n) of
           (None, s1) \<Rightarrow> Some (False, s1, c\<lparr>mem := store8 (mem c) (sdest + ucast n) 0\<rparr>)
         | (Some bs, s1) \<Rightarrow>
             Some (True, s1, c\<lparr>mem := store8 (store_bytes (mem c) sdest bs) (sdest + ucast n) 0\<rparr>)) s c)"

text \<open>Closing the substream: \<^verbatim>\<open>if (!pb_close_string_substream(\<dots>)) return false; return status;\<close>\<close>

definition d_close :: "bool \<Rightarrow> pb_istream \<Rightarrow> decoder" where
  "d_close status sub s c =
     (case pb_close_string_substream s sub of
        (False, s1) \<Rightarrow> Some (False, s1, c)
      | (True, s1) \<Rightarrow> Some (status, s1, c))"

definition pb_dec_submessage :: "sub_decoder \<Rightarrow> pb_field \<Rightarrow> addr \<Rightarrow> decoder" where
  "pb_dec_submessage sub f dest s c =
     d_read (pb_make_string_substream s) c (\<lambda>substream s c.
       case ptr f of
         Ptr_NULL \<Rightarrow> d_error ''invalid field descriptor'' s c
       | Ptr_default _ \<Rightarrow> None
       | Ptr_fields fs \<Rightarrow>
           (case sub (PB_HTYPE (ftype f) = PB_HTYPE_REPEATED) fs dest substream c of
              None \<Rightarrow> None
            | Some (status, substream1, c1) \<Rightarrow> d_close status substream1 s c1))"

definition pb_dec_fixed_length_bytes :: "pb_field \<Rightarrow> addr \<Rightarrow> decoder" where
  "pb_dec_fixed_length_bytes f dest s c =
     d_read (pb_decode_varint32 s) c (\<lambda>n s c.
       if PB_SIZE_MAX < n then d_error ''bytes overflow'' s c
       else if n = 0 then
         Some (True, s, c\<lparr>mem := memset_zero (mem c) dest (unat (data_size f))\<rparr>)
       else if n \<noteq> data_size f then d_error ''incorrect fixed length bytes size'' s c
       else d_read (pb_read s True (ucast (data_size f))) c (\<lambda>bs s c.
         Some (True, s, c\<lparr>mem := store_bytes (mem c) dest bs\<rparr>)))"

text \<open>The table \<^verbatim>\<open>PB_DECODERS\<close>; entry 9 is a null pointer.\<close>

definition PB_DECODERS :: "pb_dec_env \<Rightarrow> sub_decoder \<Rightarrow> byte \<Rightarrow> pb_field \<Rightarrow> addr \<Rightarrow> decoder" where
  "PB_DECODERS env sub ltype =
     (let table = [pb_dec_bool, pb_dec_varint, pb_dec_uvarint, pb_dec_svarint,
                   pb_dec_fixed32, pb_dec_fixed64, pb_dec_bytes env, pb_dec_string env,
                   pb_dec_submessage sub, (\<lambda>f dest s c. None), pb_dec_fixed_length_bytes]
      in if unat ltype < length table then table ! unat ltype else (\<lambda>f dest s c. None))"

section \<open>Static fields\<close>

text \<open>\<^verbatim>\<open>(char* )p + data_size * index\<close>: the product is a 32-bit one.\<close>

definition item_addr :: "addr \<Rightarrow> pb_field \<Rightarrow> u32 \<Rightarrow> addr" where
  "item_addr p f index = p + ucast (data_size f * index)"

text \<open>
  \<^verbatim>\<open>while (substream.bytes_left > 0 && *size < iter->pos->array_size)\<close>; every round consumes
  a byte or ends the loop, so the number of bytes bounds the rounds.
\<close>

fun static_packed_loop ::
  "nat \<Rightarrow> (pb_field \<Rightarrow> addr \<Rightarrow> decoder) \<Rightarrow> pb_field_iter \<Rightarrow> decoder" where
  "static_packed_loop 0 func it sub c =
     (if bytes_left sub = 0 \<or> array_size (iter_field it) \<le> psize_load it c then Some (True, sub, c) else None)"
| "static_packed_loop (Suc k) func it sub c =
     (if bytes_left sub = 0 \<or> array_size (iter_field it) \<le> psize_load it c then Some (True, sub, c)
      else
        (case func (iter_field it) (item_addr (pData it) (iter_field it) (psize_load it c)) sub c of
           None \<Rightarrow> None
         | Some (False, sub1, c1) \<Rightarrow> Some (False, sub1, c1)
         | Some (True, sub1, c1) \<Rightarrow>
             static_packed_loop k func it sub1 (psize_store it (psize_load it c1 + 1) c1)))"

definition decode_static_field ::
  "pb_dec_env \<Rightarrow> nat \<Rightarrow> sub_decoder \<Rightarrow> u32 \<Rightarrow> pb_field_iter \<Rightarrow> decoder" where
  "decode_static_field env n sub wire_type it s c =
     (let f = iter_field it; ty = ftype f; func = PB_DECODERS env sub (PB_LTYPE ty) in
      if PB_HTYPE ty = PB_HTYPE_REQUIRED then func f (pData it) s c
      else if PB_HTYPE ty = PB_HTYPE_OPTIONAL then
        func f (pData it) s
          (if pSize it \<noteq> Addr (pData it) then psize_store_bool it True c else c)
      else if PB_HTYPE ty = PB_HTYPE_REPEATED then
        if wire_type = PB_WT_STRING \<and> PB_LTYPE ty \<le> PB_LTYPE_LAST_PACKABLE then
          d_read (pb_make_string_substream s) c (\<lambda>substream s c.
            case static_packed_loop (unat (bytes_left substream)) func it substream c of
              None \<Rightarrow> None
            | Some (status, substream1, c1) \<Rightarrow>
                if bytes_left substream1 \<noteq> 0 then d_error ''array overflow'' s c1
                else d_close status substream1 s c1)
        else
          let k = psize_load it c; c1 = psize_store it (k + 1) c in
          if array_size f \<le> k then d_error ''array overflow'' s c1
          else func f (item_addr (pData it) f k) s c1
      else
        (case (if PB_LTYPE ty = PB_LTYPE_SUBMESSAGE \<and> psize_load it c \<noteq> tag f
               then fresh_submessage n env f (pData it) c else Some c) of
           None \<Rightarrow> None
         | Some c1 \<Rightarrow> func f (pData it) s (psize_store it (tag f) c1)))"

section \<open>Pointer fields\<close>

text \<open>The growth of a packed array: how many entries to allocate next.\<close>

definition grown_size :: "u64 \<Rightarrow> u32 \<Rightarrow> u64 \<Rightarrow> u64" where
  "grown_size left dsize allocated =
     (let remain = (left - 1) div ucast dsize + 1
      in if remain < ucast PB_SIZE_MAX - allocated then allocated + remain else allocated + 1)"

text \<open>
  \<^verbatim>\<open>while (substream.bytes_left)\<close> of \<^verbatim>\<open>decode_pointer_field\<close>. The parent stream is an
  argument because one branch sets its error message; dividing by a zero \<^verbatim>\<open>data_size\<close> has
  no result.
\<close>

fun pointer_packed_loop ::
  "nat \<Rightarrow> pb_dec_env \<Rightarrow> nat \<Rightarrow> (pb_field \<Rightarrow> addr \<Rightarrow> decoder) \<Rightarrow> pb_field_iter \<Rightarrow> u64 \<Rightarrow> pb_istream \<Rightarrow>
   pb_istream \<Rightarrow> cstate \<Rightarrow> (bool \<times> pb_istream \<times> pb_istream \<times> cstate) option" where
  "pointer_packed_loop 0 env n func it allocated s sub c =
     (if bytes_left sub = 0 then Some (True, s, sub, c) else None)"
| "pointer_packed_loop (Suc k) env n func it allocated s sub c =
     (let f = iter_field it; sz = psize_load it c in
      if bytes_left sub = 0 then Some (True, s, sub, c)
      else if sz = PB_SIZE_MAX
      then Some (False, s\<lparr>ierrmsg := Some ''too many array entries''\<rparr>, sub, c)
      else
        let grow = (allocated < ucast sz + 1);
            allocated1 = (if grow then grown_size (bytes_left sub) (data_size f) allocated else allocated)
        in if grow \<and> data_size f = 0 then None
           else
             (case (if grow then allocate_field env (pData it) (ucast (data_size f)) allocated1 sub c
                    else (True, sub, c)) of
                (False, sub1, c1) \<Rightarrow> Some (False, s, sub1, c1)
              | (True, sub1, c1) \<Rightarrow>
                  let pItem = item_addr (load64 (mem c1) (pData it)) f (psize_load it c1) in
                  (case initialize_pointer_field n env f pItem c1 of
                     None \<Rightarrow> None
                   | Some c2 \<Rightarrow>
                       (case func f pItem sub1 c2 of
                          None \<Rightarrow> None
                        | Some (False, sub2, c3) \<Rightarrow> Some (False, s, sub2, c3)
                        | Some (True, sub2, c3) \<Rightarrow>
                            pointer_packed_loop k env n func it allocated1 s sub2
                              (psize_store it (psize_load it c3 + 1) c3)))))"

definition decode_pointer_field ::
  "pb_dec_env \<Rightarrow> nat \<Rightarrow> sub_decoder \<Rightarrow> u32 \<Rightarrow> pb_field_iter \<Rightarrow> decoder" where
  "decode_pointer_field env n sub wire_type it s c =
     (let f = iter_field it; ty = ftype f; func = PB_DECODERS env sub (PB_LTYPE ty) in
      if PB_HTYPE ty = PB_HTYPE_REPEATED then
        if wire_type = PB_WT_STRING \<and> PB_LTYPE ty \<le> PB_LTYPE_LAST_PACKABLE then
          d_read (pb_make_string_substream s) c (\<lambda>substream s c.
            case pointer_packed_loop (unat (bytes_left substream)) env n func it
                   (ucast (psize_load it c)) s substream c of
              None \<Rightarrow> None
            | Some (status, s1, substream1, c1) \<Rightarrow> d_close status substream1 s1 c1)
        else
          let sz = psize_load it c in
          if sz = PB_SIZE_MAX then d_error ''too many array entries'' s c
          else
            (case allocate_field env (pData it) (ucast (data_size f)) (ucast (sz + 1)) s c of
               (False, s1, c1) \<Rightarrow> Some (False, s1, c1)
             | (True, s1, c1) \<Rightarrow>
                 let k = psize_load it c1; pItem = item_addr (load64 (mem c1) (pData it)) f k in
                 (case initialize_pointer_field n env f pItem (psize_store it (k + 1) c1) of
                    None \<Rightarrow> None
                  | Some c2 \<Rightarrow> func f pItem s1 c2))
      else
        (case (if PB_LTYPE ty = PB_LTYPE_SUBMESSAGE \<and> load64 (mem c) (pData it) \<noteq> 0
               then pb_release_single_field n env it c else Some c) of
           None \<Rightarrow> None
         | Some c0 \<Rightarrow>
             let c1 = (if PB_HTYPE ty = PB_HTYPE_ONEOF then psize_store it (tag f) c0 else c0) in
             if PB_LTYPE ty = PB_LTYPE_STRING \<or> PB_LTYPE ty = PB_LTYPE_BYTES then func f (pData it) s c1
             else
               (case allocate_field env (pData it) (ucast (data_size f)) 1 s c1 of
                  (False, s1, c2) \<Rightarrow> Some (False, s1, c2)
                | (True, s1, c2) \<Rightarrow>
                    (case initialize_pointer_field n env f (load64 (mem c2) (pData it)) c2 of
                       None \<Rightarrow> None
                     | Some c3 \<Rightarrow> func f (load64 (mem c3) (pData it)) s1 c3))))"

section \<open>Callback fields\<close>

text \<open>
  \<^verbatim>\<open>do { \<dots> } while (substream.bytes_left);\<close>. Nothing forces a decoding callback to consume
  input, so the loop may run forever: it is a partial function, and \<open>None\<close> is divergence.
\<close>

partial_function (option) callback_loop ::
  "(pb_istream \<Rightarrow> cstate \<Rightarrow> bool \<times> pb_istream \<times> cstate) \<Rightarrow> pb_istream \<Rightarrow> cstate \<Rightarrow>
   (bool \<times> pb_istream \<times> cstate) option" where
  "callback_loop cb sub c =
     (case cb sub c of
        (ok, sub1, c1) \<Rightarrow>
          if \<not> ok then Some (False, sub1, c1)
          else if bytes_left sub1 \<noteq> 0 then callback_loop cb sub1 c1
          else Some (True, sub1, c1))"

definition decode_callback_field :: "pb_dec_env \<Rightarrow> u32 \<Rightarrow> pb_field_iter \<Rightarrow> decoder" where
  "decode_callback_field env wire_type it s c =
     (let fn = callback_func (mem c) (pData it);
          cb = dec_fn env fn (iter_field it) (callback_arg (pData it))
      in
      if pData it = 0 \<or> fn = 0 then
        (case pb_skip_field s wire_type of (ok, s1) \<Rightarrow> Some (ok, s1, c))
      else if wire_type = PB_WT_STRING then
        d_read (pb_make_string_substream s) c (\<lambda>substream s c.
          case callback_loop cb substream c of
            None \<Rightarrow> None
          | Some (False, _, c1) \<Rightarrow> d_error ''callback failed'' s c1
          | Some (True, substream1, c1) \<Rightarrow> d_close True substream1 s c1)
      else
        d_read (read_raw_value s wire_type 10) c (\<lambda>buffer s c.
          case cb (pb_istream_from_buffer buffer (of_nat (length buffer))) c of
            (status, _, c1) \<Rightarrow> Some (status, s, c1)))"

section \<open>Any field\<close>

definition pb_release_union_field ::
  "pb_dec_env \<Rightarrow> nat \<Rightarrow> pb_field_iter \<Rightarrow> pb_istream \<Rightarrow> cstate \<Rightarrow>
   (bool \<times> pb_field_iter \<times> pb_istream \<times> cstate) option" where
  "pb_release_union_field env n it s c =
     (let old_tag = psize_load it c; new_tag = tag (iter_field it) in
      if old_tag = 0 \<or> old_tag = new_tag then Some (True, it, s, c)
      else
        (case pb_field_iter_find it old_tag of
           (False, it1) \<Rightarrow> Some (False, it1, set_ierror s ''invalid union tag'', c)
         | (True, it1) \<Rightarrow>
             (case pb_release_single_field n env it1 c of
                None \<Rightarrow> None
              | Some c1 \<Rightarrow>
                  (case pb_field_iter_find it1 new_tag of
                     (False, it2) \<Rightarrow> Some (False, it2, set_ierror s ''iterator error'', c1)
                   | (True, it2) \<Rightarrow>
                       Some (True, it2, s,
                         if PB_ATYPE (ftype (iter_field it2)) = PB_ATYPE_POINTER
                         then c1\<lparr>mem := store64 (mem c1) (pData it2) 0\<rparr> else c1)))))"

text \<open>The iterator is an argument by reference: the updated one is part of the result.\<close>

definition decode_field ::
  "pb_dec_env \<Rightarrow> nat \<Rightarrow> sub_decoder \<Rightarrow> u32 \<Rightarrow> pb_field_iter \<Rightarrow> pb_istream \<Rightarrow> cstate \<Rightarrow>
   (bool \<times> pb_field_iter \<times> pb_istream \<times> cstate) option" where
  "decode_field env n sub wire_type it s c =
     (case (if PB_HTYPE (ftype (iter_field it)) = PB_HTYPE_ONEOF
            then pb_release_union_field env n it s c else Some (True, it, s, c)) of
        None \<Rightarrow> None
      | Some (False, it1, s1, c1) \<Rightarrow> Some (False, it1, s1, c1)
      | Some (True, it1, s1, c1) \<Rightarrow>
          let atype = PB_ATYPE (ftype (iter_field it1)) in
          map_option (\<lambda>(ok, s2, c2). (ok, it1, s2, c2))
            (if atype = PB_ATYPE_STATIC then decode_static_field env n sub wire_type it1 s1 c1
             else if atype = PB_ATYPE_POINTER then decode_pointer_field env n sub wire_type it1 s1 c1
             else if atype = PB_ATYPE_CALLBACK then decode_callback_field env wire_type it1 s1 c1
             else d_error ''invalid field type'' s1 c1))"

section \<open>Extensions\<close>

definition default_extension_decoder ::
  "pb_dec_env \<Rightarrow> nat \<Rightarrow> sub_decoder \<Rightarrow> addr \<Rightarrow> u32 \<Rightarrow> u32 \<Rightarrow> decoder" where
  "default_extension_decoder env n sub ext t wire_type s c =
     (if tag (ext_arg (dec_ext_types env (extension_type (mem c) ext))) \<noteq> t then Some (True, s, c)
      else
        let it = iter_from_extension env ext c;
            c1 = c\<lparr>mem := store_bool (mem c) (extension_found ext) True\<rparr>
        in map_option (\<lambda>(ok, _, s1, c2). (ok, s1, c2)) (decode_field env n sub wire_type it s c1))"

text \<open>\<^verbatim>\<open>while (extension != NULL && pos == stream->bytes_left)\<close>\<close>

fun decode_extension_loop ::
  "nat \<Rightarrow> pb_dec_env \<Rightarrow> nat \<Rightarrow> sub_decoder \<Rightarrow> u64 \<Rightarrow> addr \<Rightarrow> u32 \<Rightarrow> u32 \<Rightarrow> decoder" where
  "decode_extension_loop 0 env n sub start_left ext t wire_type s c =
     (if ext = 0 \<or> bytes_left s \<noteq> start_left then Some (True, s, c) else None)"
| "decode_extension_loop (Suc k) env n sub start_left ext t wire_type s c =
     (if ext = 0 \<or> bytes_left s \<noteq> start_left then Some (True, s, c)
      else
        (case (case ext_decode (dec_ext_types env (extension_type (mem c) ext)) of
                 Some fn \<Rightarrow> Some (ext_dec_fn env fn ext t wire_type s c)
               | None \<Rightarrow> default_extension_decoder env n sub ext t wire_type s c) of
           None \<Rightarrow> None
         | Some (False, s1, c1) \<Rightarrow> Some (False, s1, c1)
         | Some (True, s1, c1) \<Rightarrow>
             decode_extension_loop k env n sub start_left (extension_next (mem c1) ext) t wire_type s1 c1))"

definition decode_extension ::
  "pb_dec_env \<Rightarrow> nat \<Rightarrow> sub_decoder \<Rightarrow> u32 \<Rightarrow> u32 \<Rightarrow> pb_field_iter \<Rightarrow> decoder" where
  "decode_extension env n sub t wire_type it s c =
     decode_extension_loop n env n sub (bytes_left s) (load64 (mem c) (pData it)) t wire_type s c"

definition find_extension_field :: "pb_field_iter \<Rightarrow> bool \<times> pb_field_iter" where
  "find_extension_field it =
     iter_find_loop (Suc (length (start it))) (pos it) (\<lambda>f. PB_LTYPE (ftype f) = PB_LTYPE_EXTENSION) it"

section \<open>Messages\<close>

text \<open>The local variables of \<^verbatim>\<open>pb_decode_noinit\<close>, except the address-taken counter.\<close>

record noinit_locals =
  l_iter :: pb_field_iter
  fields_seen :: "u32 list"
  extension_range_start :: u32
  fixed_count_field :: "nat option"

text \<open>\<^verbatim>\<open>fixed_count_field != NULL && fixed_count_size != fixed_count_field->array_size\<close>\<close>

definition fixed_count_short :: "noinit_locals \<Rightarrow> cstate \<Rightarrow> bool" where
  "fixed_count_short l c \<longleftrightarrow>
     (case fixed_count_field l of
        None \<Rightarrow> False
      | Some i \<Rightarrow> fixed_count c \<noteq> array_size (field_at (start (l_iter l)) i))"

text \<open>
  The handling of a field whose tag matches no entry: extensions, else skipping. The flag
  of the result is false when \<^verbatim>\<open>pb_decode_noinit\<close> returns false.
\<close>

definition unknown_field ::
  "pb_dec_env \<Rightarrow> nat \<Rightarrow> sub_decoder \<Rightarrow> u32 \<Rightarrow> u32 \<Rightarrow> noinit_locals \<Rightarrow> pb_istream \<Rightarrow> cstate \<Rightarrow>
   (bool \<times> noinit_locals \<times> pb_istream \<times> cstate) option" where
  "unknown_field env n sub t wire_type l s c =
     (let l1 = (if extension_range_start l \<le> t then
                  (case find_extension_field (l_iter l) of
                     (False, it) \<Rightarrow> l\<lparr>l_iter := it, extension_range_start := - 1\<rparr>
                   | (True, it) \<Rightarrow> l\<lparr>l_iter := it, extension_range_start := tag (iter_field it)\<rparr>)
                else l)
      in case (if extension_range_start l \<le> t \<and> extension_range_start l1 \<le> t
               then decode_extension env n sub t wire_type (l_iter l1) s c else Some (True, s, c)) of
           None \<Rightarrow> None
         | Some (False, s1, c1) \<Rightarrow> Some (False, l1, s1, c1)
         | Some (True, s1, c1) \<Rightarrow>
             if bytes_left s1 \<noteq> bytes_left s then Some (True, l1, s1, c1)
             else (case pb_skip_field s1 wire_type of (ok, s2) \<Rightarrow> Some (ok, l1, s2, c1)))"

text \<open>The bookkeeping before \<^verbatim>\<open>decode_field\<close>: fixed-count arrays and required fields.\<close>

definition enter_fixed_count :: "noinit_locals \<Rightarrow> cstate \<Rightarrow> (noinit_locals \<times> cstate) option" where
  "enter_fixed_count l c =
     (let it = l_iter l in
      if PB_HTYPE (ftype (iter_field it)) = PB_HTYPE_REPEATED \<and> pSize it = Addr (pData it) then
        let l1 = l\<lparr>l_iter := it\<lparr>pSize := Fixed_count\<rparr>\<rparr> in
        if fixed_count_field l = Some (pos it) then Some (l1, c)
        else if fixed_count_short l c then None
        else Some (l1\<lparr>fixed_count_field := Some (pos it)\<rparr>, c\<lparr>fixed_count := 0\<rparr>)
      else Some (l, c))"

definition mark_seen :: "noinit_locals \<Rightarrow> noinit_locals" where
  "mark_seen l =
     (let it = l_iter l; i = required_field_index it; w = unat (drop_bit 5 i) in
      if PB_HTYPE (ftype (iter_field it)) = PB_HTYPE_REQUIRED \<and> unat i < PB_MAX_REQUIRED_FIELDS
      then l\<lparr>fields_seen := (fields_seen l)[w := fields_seen l ! w OR push_bit (unat (i AND 31)) 1]\<rparr>
      else l)"

text \<open>
  \<^verbatim>\<open>while (stream->bytes_left)\<close>. Every round reads a tag, so the number of bytes bounds the
  rounds. The flag of the result is false when the function returns false from the loop.
\<close>

fun noinit_loop ::
  "nat \<Rightarrow> pb_dec_env \<Rightarrow> nat \<Rightarrow> sub_decoder \<Rightarrow> noinit_locals \<Rightarrow> pb_istream \<Rightarrow> cstate \<Rightarrow>
   (bool \<times> noinit_locals \<times> pb_istream \<times> cstate) option" where
  "noinit_loop 0 env n sub l s c = (if bytes_left s = 0 then Some (True, l, s, c) else None)"
| "noinit_loop (Suc k) env n sub l s c =
     (if bytes_left s = 0 then Some (True, l, s, c)
      else
        (case pb_decode_tag s of
           (None, eof, s1) \<Rightarrow> Some (eof, l, s1, c)
         | (Some (wire_type, t), _, s1) \<Rightarrow>
             (case pb_field_iter_find (l_iter l) t of
                (False, it) \<Rightarrow>
                  (case unknown_field env n sub t wire_type (l\<lparr>l_iter := it\<rparr>) s1 c of
                     None \<Rightarrow> None
                   | Some (False, l1, s2, c1) \<Rightarrow> Some (False, l1, s2, c1)
                   | Some (True, l1, s2, c1) \<Rightarrow> noinit_loop k env n sub l1 s2 c1)
              | (True, it) \<Rightarrow>
                  (case enter_fixed_count (l\<lparr>l_iter := it\<rparr>) c of
                     None \<Rightarrow> Some (False, l, set_ierror s1 ''wrong size for fixed count field'', c)
                   | Some (l1, c1) \<Rightarrow>
                       (case decode_field env n sub wire_type (l_iter l1) s1 c1 of
                          None \<Rightarrow> None
                        | Some (False, it2, s2, c2) \<Rightarrow> Some (False, mark_seen l1, s2, c2)
                        | Some (True, it2, s2, c2) \<Rightarrow>
                            noinit_loop k env n sub ((mark_seen l1)\<lparr>l_iter := it2\<rparr>) s2 c2)))))"

text \<open>\<^verbatim>\<open>do { \<dots> } while (pb_field_iter_next(&iter));\<close> at the end of the message.\<close>

fun seek_end :: "nat \<Rightarrow> pb_field_iter \<Rightarrow> u32 \<times> byte \<times> pb_field_iter" where
  "seek_end 0 it = (required_field_index it, ftype (iter_field it), it)"
| "seek_end (Suc k) it =
     (case pb_field_iter_next it of
        (True, it1) \<Rightarrow> seek_end k it1
      | (False, it1) \<Rightarrow> (required_field_index it, ftype (iter_field it), it1))"

definition required_count :: "pb_field_iter \<Rightarrow> nat" where
  "required_count it =
     (case seek_end (length (start it)) it of
        (req, last_type, it1) \<Rightarrow>
          min PB_MAX_REQUIRED_FIELDS
            (unat (if PB_HTYPE last_type = PB_HTYPE_REQUIRED \<and> tag (iter_field it1) \<noteq> 0
                   then req + 1 else req)))"

definition all_required_seen :: "nat \<Rightarrow> u32 list \<Rightarrow> bool" where
  "all_required_seen req seen \<longleftrightarrow>
     list_all (\<lambda>i. seen ! i = - 1) [0..<req div 32] \<and>
     (req mod 32 \<noteq> 0 \<longrightarrow> seen ! (req div 32) = drop_bit (32 - req mod 32) (- 1))"

definition noinit_with ::
  "pb_dec_env \<Rightarrow> nat \<Rightarrow> sub_decoder \<Rightarrow> pb_field list \<Rightarrow> addr \<Rightarrow> decoder" where
  "noinit_with env n sub fs dest s c =
     (let l = \<lparr>l_iter = snd (pb_field_iter_begin fs dest), fields_seen = [0, 0],
               extension_range_start = 0, fixed_count_field = None\<rparr>
      in case noinit_loop (unat (bytes_left s)) env n sub l s (c\<lparr>fixed_count := 0\<rparr>) of
           None \<Rightarrow> None
         | Some (False, _, s1, c1) \<Rightarrow> Some (False, s1, c1\<lparr>fixed_count := fixed_count c\<rparr>)
         | Some (True, l1, s1, c1) \<Rightarrow>
             let c2 = c1\<lparr>fixed_count := fixed_count c\<rparr> in
             if fixed_count_short l1 c1 then d_error ''wrong size for fixed count field'' s1 c2
             else if \<not> all_required_seen (required_count (l_iter l1)) (fields_seen l1)
             then d_error ''missing required field'' s1 c2
             else Some (True, s1, c2))"

definition decode_with ::
  "pb_dec_env \<Rightarrow> nat \<Rightarrow> sub_decoder \<Rightarrow> pb_field list \<Rightarrow> addr \<Rightarrow> decoder" where
  "decode_with env n sub fs dest s c =
     (case pb_message_set_to_defaults (Suc n) env fs dest c of
        None \<Rightarrow> None
      | Some c0 \<Rightarrow>
          (case noinit_with env n sub fs dest s c0 of
             None \<Rightarrow> None
           | Some (True, s1, c1) \<Rightarrow> Some (True, s1, c1)
           | Some (False, s1, c1) \<Rightarrow>
               map_option (\<lambda>c2. (False, s1, c2)) (pb_release (Suc n) env fs dest c1)))"

fun pb_decode_at :: "nat \<Rightarrow> pb_dec_env \<Rightarrow> sub_decoder" where
  "pb_decode_at 0 env init fs dest s c = None"
| "pb_decode_at (Suc n) env init fs dest s c =
     (if init then decode_with env n (pb_decode_at n env) fs dest s c
      else noinit_with env n (pb_decode_at n env) fs dest s c)"

definition pb_decode_noinit :: "nat \<Rightarrow> pb_dec_env \<Rightarrow> pb_field list \<Rightarrow> addr \<Rightarrow> decoder" where
  "pb_decode_noinit n env fs dest = pb_decode_at n env False fs dest"

definition pb_decode :: "nat \<Rightarrow> pb_dec_env \<Rightarrow> pb_field list \<Rightarrow> addr \<Rightarrow> decoder" where
  "pb_decode n env fs dest = pb_decode_at n env True fs dest"

text \<open>Decoding a length-delimited message through a substream.\<close>

definition delimited_with :: "decoder \<Rightarrow> decoder" where
  "delimited_with dec s c =
     d_read (pb_make_string_substream s) c (\<lambda>substream s c.
       case dec substream c of
         None \<Rightarrow> None
       | Some (status, substream1, c1) \<Rightarrow> d_close status substream1 s c1)"

definition pb_decode_delimited_noinit :: "nat \<Rightarrow> pb_dec_env \<Rightarrow> pb_field list \<Rightarrow> addr \<Rightarrow> decoder" where
  "pb_decode_delimited_noinit n env fs dest = delimited_with (pb_decode_noinit n env fs dest)"

definition pb_decode_delimited :: "nat \<Rightarrow> pb_dec_env \<Rightarrow> pb_field list \<Rightarrow> addr \<Rightarrow> decoder" where
  "pb_decode_delimited n env fs dest = delimited_with (pb_decode n env fs dest)"

definition pb_decode_nullterminated :: "nat \<Rightarrow> pb_dec_env \<Rightarrow> pb_field list \<Rightarrow> addr \<Rightarrow> decoder" where
  "pb_decode_nullterminated n env fs dest = pb_decode n env fs dest"

end
