(* ===== verification/Pb_Decode_Stream.thy ===== *)
theory Pb_Decode_Stream
  imports Pb_Decode
begin

unbundle bit_operations_syntax

text \<open>
  The decoder and its input buffer. \<open>within s s'\<close> says that \<open>s'\<close> is a later state of the
  memory-buffer stream \<open>s\<close>: its pointer has moved by some \<open>k\<close> bytes, and the \<open>k\<close> bytes
  together with those still readable are no more than \<open>s\<close> could read. Every reader and every
  field decoder relates its streams this way, on every input and for every descriptor, so
  the decoder never reads past the end of the buffer it was given.
\<close>

section \<open>Later states of a stream\<close>

definition within :: "pb_istream \<Rightarrow> pb_istream \<Rightarrow> bool" where
  "within s s' \<longleftrightarrow>
     icallback s' = icallback s \<and>
     (\<exists>k. istate s' = drop k (istate s) \<and> k + unat (bytes_left s') \<le> unat (bytes_left s))"

definition buf_stream :: "pb_istream \<Rightarrow> bool" where
  "buf_stream s \<longleftrightarrow> icallback s = Buf_read"

lemma within_refl [intro!, simp]: "within s s"
  by (auto simp: within_def intro: exI [of _ 0])

lemma within_trans [trans]: "within s t \<Longrightarrow> within t u \<Longrightarrow> within s u"
  unfolding within_def
proof (elim conjE exE, intro conjI)
  fix j k
  assume "istate t = drop j (istate s)" "j + unat (bytes_left t) \<le> unat (bytes_left s)"
    "istate u = drop k (istate t)" "k + unat (bytes_left u) \<le> unat (bytes_left t)"
  then show "\<exists>k. istate u = drop k (istate s) \<and> k + unat (bytes_left u) \<le> unat (bytes_left s)"
    by (intro exI [of _ "k + j"]) auto
qed simp

lemma within_buf: "within s s' \<Longrightarrow> buf_stream s' \<longleftrightarrow> buf_stream s"
  by (simp add: within_def buf_stream_def)

lemma within_left: "within s s' \<Longrightarrow> unat (bytes_left s') \<le> unat (bytes_left s)"
  by (auto simp: within_def)

lemma within_ierror [simp]: "within s (set_ierror t msg) \<longleftrightarrow> within s t"
  by (simp add: within_def set_ierror_def)

lemma buf_ierror [simp]: "buf_stream (set_ierror s msg) \<longleftrightarrow> buf_stream s"
  by (simp add: buf_stream_def set_ierror_def)

lemma left_ierror [simp]: "bytes_left (set_ierror s msg) = bytes_left s"
  by (simp add: set_ierror_def)

text \<open>A stream over a buffer that holds the bytes it may read.\<close>

definition backed :: "pb_istream \<Rightarrow> bool" where
  "backed s \<longleftrightarrow> buf_stream s \<and> unat (bytes_left s) \<le> length (istate s)"

lemma within_backed: "within s s' \<Longrightarrow> backed s \<Longrightarrow> backed s'"
  by (auto simp: within_def backed_def buf_stream_def)

section \<open>Readers\<close>

lemma within_step:
  assumes "buf_stream s" "n \<le> bytes_left s"
  shows "within s (s\<lparr>istate := drop (unat n) (istate s), bytes_left := bytes_left s - n\<rparr>)"
  using assms
  by (auto simp: within_def word_le_nat_alt unat_sub_if' intro!: exI [of _ "unat n"])

lemma read_direct_within:
  assumes "buf_stream s" "pb_read_direct s n = (r, s')"
  shows "within s s'"
  using assms within_step [of s n]
  by (auto simp: pb_read_direct_def call_read_def buf_read_def buf_stream_def not_less split: if_splits)

lemma read_within:
  assumes "buf_stream s" "pb_read s b n = (r, s')"
  shows "within s s'"
  using assms read_direct_within [of s n r s']
  by (auto simp: pb_read_def buf_stream_def split: if_splits)

lemma readbyte_within:
  assumes "buf_stream s" "pb_readbyte s = (r, s')"
  shows "within s s'"
  using assms within_step [of s 1]
  by (auto simp: pb_readbyte_def call_read_def buf_read_def buf_stream_def word_le_nat_alt
      unat_gt_0 Suc_le_eq split: if_splits)

lemma varint32_loop_within:
  assumes "buf_stream s" "varint32_loop s bp r = (v, s')"
  shows "within s s'"
  using assms
proof (induction s bp r arbitrary: v s' rule: varint32_loop.induct)
  case (1 s bp r)
  obtain x s1 where x: "pb_readbyte s = (x, s1)" by fastforce
  then have w: "within s s1" "buf_stream s1"
    using readbyte_within [OF 1(2)] within_buf 1(2) by auto
  show ?case
  proof (cases x)
    case None
    with x w 1(3) show ?thesis by (simp add: varint32_loop.simps [of s])
  next
    case (Some b)
    with x w 1(3) show ?thesis
      using 1(1) [OF x [symmetric] _ refl _ refl refl, of b v s'] within_trans
      by (auto simp: varint32_loop.simps [of s] Let_def split: if_splits)
  qed
qed

lemma varint_read_loop_within:
  assumes "buf_stream s" "varint_read_loop s bp r = (v, s')"
  shows "within s s'"
  using assms
proof (induction s bp r arbitrary: v s' rule: varint_read_loop.induct)
  case (1 s bp r)
  show ?case
  proof (cases "64 \<le> bp")
    case True
    with 1(3) show ?thesis by (auto simp: varint_read_loop.simps [of s])
  next
    case False
    obtain x s1 where x: "pb_readbyte s = (x, s1)" by fastforce
    then have w: "within s s1" "buf_stream s1"
      using readbyte_within [OF 1(2)] within_buf 1(2) by auto
    show ?thesis
    proof (cases x)
      case None
      with x w False 1(3) show ?thesis by (simp add: varint_read_loop.simps [of s])
    next
      case (Some b)
      with x w False 1(3) show ?thesis
        using 1(1) [OF False x [symmetric], of b] within_trans
        by (auto simp: varint_read_loop.simps [of s] Let_def split: if_splits)
    qed
  qed
qed

lemma skip_varint_within:
  assumes "buf_stream s" "pb_skip_varint s = (v, s')"
  shows "within s s'"
  using assms
proof (induction s arbitrary: v s' rule: pb_skip_varint.induct)
  case (1 s)
  obtain x s1 where x: "pb_read s True 1 = (x, s1)" by fastforce
  then have w: "within s s1" "buf_stream s1"
    using read_within [OF 1(2) x] within_buf 1(2) by auto
  show ?case
  proof (cases x)
    case None
    with x w 1(3) show ?thesis by (simp add: pb_skip_varint.simps [of s])
  next
    case (Some b)
    with x w 1(3) show ?thesis
      using 1(1) [OF x [symmetric], of b] within_trans
      by (auto simp: pb_skip_varint.simps [of s] split: if_splits)
  qed
qed

lemma decode_varint32_eof_within:
  assumes "buf_stream s" "pb_decode_varint32_eof s = (v, e, s')"
  shows "within s s'"
proof -
  obtain x s1 where x: "pb_readbyte s = (x, s1)" by fastforce
  then have w: "within s s1" "buf_stream s1"
    using readbyte_within [OF assms(1)] within_buf assms(1) by auto
  with x assms(2) show ?thesis
    using varint32_loop_within [OF w(2)] within_trans
    by (auto simp: pb_decode_varint32_eof_def split: option.splits if_splits prod.splits)
qed

lemma decode_varint32_within:
  assumes "buf_stream s" "pb_decode_varint32 s = (v, s')"
  shows "within s s'"
  using decode_varint32_eof_within [OF assms(1)] assms(2)
  by (auto simp: pb_decode_varint32_def split: prod.splits)

lemma decode_varint_within:
  assumes "buf_stream s" "pb_decode_varint s = (v, s')"
  shows "within s s'"
  using varint_read_loop_within [OF assms(1)] assms(2) by (simp add: pb_decode_varint_def)

lemma decode_svarint_within:
  assumes "buf_stream s" "pb_decode_svarint s = (v, s')"
  shows "within s s'"
  using decode_varint_within [OF assms(1)] assms(2)
  by (auto simp: pb_decode_svarint_def split: prod.splits)

lemma decode_fixed_within:
  assumes "buf_stream s"
  shows "pb_decode_fixed32 s = (v, s') \<Longrightarrow> within s s'" "pb_decode_fixed64 s = (w, s') \<Longrightarrow> within s s'"
  using read_within [OF assms]
  by (auto simp: pb_decode_fixed32_def pb_decode_fixed64_def split: prod.splits)

lemma skip_within:
  assumes "buf_stream s" "pb_skip s n = (v, s')"
  shows "within s s'"
  using read_within [OF assms(1)] assms(2) by (auto simp: pb_skip_def split: prod.splits)

lemma skip_string_within:
  assumes "buf_stream s" "pb_skip_string s = (v, s')"
  shows "within s s'"
proof -
  obtain x s1 where x: "pb_decode_varint32 s = (x, s1)" by fastforce
  then have w: "within s s1" "buf_stream s1"
    using decode_varint32_within [OF assms(1)] within_buf assms(1) by auto
  with x assms(2) show ?thesis
    using skip_within [OF w(2)] within_trans
    by (auto simp: pb_skip_string_def split: option.splits)
qed

lemma decode_tag_within:
  assumes "buf_stream s" "pb_decode_tag s = (v, e, s')"
  shows "within s s'"
  using decode_varint32_eof_within [OF assms(1)] assms(2)
  by (auto simp: pb_decode_tag_def split: prod.splits option.splits if_splits)

lemma skip_field_within:
  assumes "buf_stream s" "pb_skip_field s wt = (v, s')"
  shows "within s s'"
  using assms skip_varint_within skip_within skip_string_within
  by (auto simp: pb_skip_field_def split: if_splits)

lemma read_raw_varint_within:
  assumes "buf_stream s" "read_raw_varint k s = (v, s')"
  shows "within s s'"
  using assms
proof (induction k s arbitrary: v s' rule: read_raw_varint.induct)
  case (2 k s)
  obtain x s1 where x: "pb_read s True 1 = (x, s1)" by fastforce
  then have w: "within s s1" "buf_stream s1"
    using read_within [OF 2(2) x] within_buf 2(2) by auto
  show ?case
  proof (cases x)
    case None
    with x w 2(3) show ?thesis by simp
  next
    case (Some b)
    with x w 2(3) show ?thesis
      using 2(1) [OF x [symmetric], of b] within_trans
      by (auto split: if_splits prod.splits)
  qed
qed simp

lemma read_raw_value_within:
  assumes "buf_stream s" "read_raw_value s wt k = (v, s')"
  shows "within s s'"
  using assms read_raw_varint_within read_within
  by (auto simp: read_raw_value_def split: if_splits)

section \<open>Substreams\<close>

text \<open>A substream and the parent that waits for it.\<close>

definition opened :: "pb_istream \<Rightarrow> pb_istream \<Rightarrow> pb_istream \<Rightarrow> bool" where
  "opened s sub p \<longleftrightarrow>
     within s p \<and> icallback sub = icallback s \<and> istate sub = istate p \<and>
     (\<exists>k. istate p = drop k (istate s) \<and>
          k + unat (bytes_left sub) + unat (bytes_left p) \<le> unat (bytes_left s))"

lemma make_substream_opened:
  assumes "buf_stream s" "pb_make_string_substream s = (Some sub, p)"
  shows "opened s sub p" "buf_stream sub"
proof -
  obtain x s1 where x: "pb_decode_varint32 s = (x, s1)" by fastforce
  then have w: "within s s1" by (rule decode_varint32_within [OF assms(1)])
  with x assms(2) obtain n :: u32 where n: "\<not> bytes_left s1 < ucast n"
    "sub = s1\<lparr>bytes_left := ucast n\<rparr>" "p = s1\<lparr>bytes_left := bytes_left s1 - ucast n\<rparr>"
    by (auto simp: pb_make_string_substream_def split: option.splits if_splits)
  moreover have "unat (bytes_left s1 - ucast n) = unat (bytes_left s1) - unat (ucast n :: u64)"
    using n(1) by (simp add: unat_sub_if' word_less_nat_alt)
  ultimately show "opened s sub p" "buf_stream sub"
    using w assms(1)
    by (auto simp: opened_def within_def buf_stream_def word_less_nat_alt not_less)
qed

lemma make_substream_within:
  assumes "buf_stream s" "pb_make_string_substream s = (r, p)"
  shows "within s p"
proof (cases r)
  case None
  with assms decode_varint32_within [OF assms(1)] show ?thesis
    by (auto simp: pb_make_string_substream_def split: option.splits if_splits prod.splits)
next
  case (Some sub)
  with make_substream_opened [OF assms(1)] assms(2) show ?thesis by (auto simp: opened_def)
qed

lemma skip_all:
  assumes "buf_stream s" "pb_skip s (bytes_left s) = (ok, s')"
  shows "ok" "istate s' = drop (unat (bytes_left s)) (istate s)"
  using assms
  by (auto simp: pb_skip_def pb_read_def pb_read_direct_def call_read_def buf_read_def buf_stream_def
      split: if_splits)

lemma close_substream_within:
  assumes "opened s sub p" "buf_stream s" "within sub sub1"
    "pb_close_string_substream p sub1 = (ok, s')"
  shows "within s s'"
proof -
  have b: "buf_stream sub1"
    using assms(1-3) by (simp add: opened_def within_def buf_stream_def)
  obtain r t where r: "pb_skip sub1 (bytes_left sub1) = (r, t)" by fastforce
  note t = skip_all [OF b r]
  obtain k where k: "istate p = drop k (istate s)"
    "k + unat (bytes_left sub) + unat (bytes_left p) \<le> unat (bytes_left s)"
    and p: "icallback p = icallback s" "istate sub = istate p"
    using assms(1) by (auto simp: opened_def within_def)
  obtain j where j: "istate sub1 = drop j (istate sub)" "j + unat (bytes_left sub1) \<le> unat (bytes_left sub)"
    using assms(3) by (auto simp: within_def)
  have "icallback s' = icallback p" "bytes_left s' = bytes_left p"
    "istate s' = drop (unat (bytes_left sub1)) (istate sub1)"
    using assms(4) r t
    by (cases "bytes_left sub1 = 0"; auto simp: pb_close_string_substream_def)+
  with k p j show ?thesis
    by (auto simp: within_def intro!: exI [of _ "unat (bytes_left sub1) + (j + k)"])
qed

section \<open>Field decoders\<close>

definition d_within :: "decoder \<Rightarrow> bool" where
  "d_within dec \<longleftrightarrow> (\<forall>s c r s' c'. buf_stream s \<and> dec s c = Some (r, s', c') \<longrightarrow> within s s')"

lemma d_withinI:
  "(\<And>s c r s' c'. buf_stream s \<Longrightarrow> dec s c = Some (r, s', c') \<Longrightarrow> within s s') \<Longrightarrow> d_within dec"
  unfolding d_within_def by blast

lemma d_withinD: "d_within dec \<Longrightarrow> buf_stream s \<Longrightarrow> dec s c = Some (r, s', c') \<Longrightarrow> within s s'"
  unfolding d_within_def by blast

lemma d_within_error [intro!]: "d_within (\<lambda>s c. d_error msg s (g c))"
  by (rule d_withinI) (auto simp: d_error_def)

lemma d_within_done [intro!]: "d_within (\<lambda>s c. Some (r, s, g c))"
  by (rule d_withinI) simp

lemma d_within_None [intro!]: "d_within (\<lambda>s c. None)"
  by (rule d_withinI) simp

lemma d_within_if [intro]: "d_within f \<Longrightarrow> d_within g \<Longrightarrow> d_within (\<lambda>s c. if P s c then f s c else g s c)"
  unfolding d_within_def by (meson if_splits(1))

lemma d_within_read:
  assumes "\<And>s r s'. buf_stream s \<Longrightarrow> rd s = (r, s') \<Longrightarrow> within s s'" and "\<And>v. d_within (k v)"
  shows "d_within (\<lambda>s c. d_read (rd s) (g c) k)"
proof (rule d_withinI)
  fix s c r s' c' assume b: "buf_stream s" and d: "d_read (rd s) (g c) k = Some (r, s', c')"
  obtain x s1 where x: "rd s = (x, s1)" by fastforce
  with assms(1) [OF b] have w: "within s s1" by auto
  show "within s s'"
  proof (cases x)
    case None
    with d x w show ?thesis by (simp add: d_read_def)
  next
    case (Some v)
    with d x have "k v s1 (g c) = Some (r, s', c')" by (simp add: d_read_def)
    with d_withinD [OF assms(2)] w b show ?thesis using within_buf within_trans by blast
  qed
qed

lemma d_within_sub:
  assumes "\<And>s0 sub p c r s' c'. opened s0 sub p \<Longrightarrow> buf_stream s0 \<Longrightarrow> buf_stream sub \<Longrightarrow>
    k sub p c = Some (r, s', c') \<Longrightarrow> within s0 s'"
  shows "d_within (\<lambda>s c. d_read (pb_make_string_substream s) (g c) k)"
proof (rule d_withinI)
  fix s c r s' c'
  assume b: "buf_stream s" and d: "d_read (pb_make_string_substream s) (g c) k = Some (r, s', c')"
  obtain x p where x: "pb_make_string_substream s = (x, p)" by fastforce
  show "within s s'"
  proof (cases x)
    case None
    with d x make_substream_within [OF b] show ?thesis by (simp add: d_read_def)
  next
    case (Some sub)
    with x have m: "pb_make_string_substream s = (Some sub, p)" by simp
    from d m have "k sub p (g c) = Some (r, s', c')" by (simp add: d_read_def)
    with assms make_substream_opened [OF b m] b show ?thesis by blast
  qed
qed

lemma d_close_within:
  assumes "opened s0 sub p" "buf_stream s0" "within sub sub1" "d_close st sub1 p c = Some (r, s', c')"
  shows "within s0 s'"
  using close_substream_within [OF assms(1-3)] assms(4)
  by (auto simp: d_close_def split: prod.splits bool.splits)

lemma opened_within: "opened s sub p \<Longrightarrow> within s p"
  by (simp add: opened_def)

lemma store_checked_within [intro!]: "d_within (store_checked clamp f dest v)"
  by (rule d_withinI) (auto simp: store_checked_def d_error_def split: option.splits if_splits)

lemma scalar_within:
  "d_within (pb_dec_bool f dest)" "d_within (pb_dec_varint f dest)" "d_within (pb_dec_uvarint f dest)"
  "d_within (pb_dec_svarint f dest)" "d_within (pb_dec_fixed32 f dest)" "d_within (pb_dec_fixed64 f dest)"
  unfolding pb_dec_bool_def [abs_def] pb_dec_varint_def [abs_def] pb_dec_uvarint_def [abs_def]
    pb_dec_svarint_def [abs_def] pb_dec_fixed32_def [abs_def] pb_dec_fixed64_def [abs_def] Let_def
  by (intro d_within_read [where g = "\<lambda>c. c"] d_within_done store_checked_within;
      erule (1) decode_varint32_within decode_varint_within decode_svarint_within
        decode_fixed_within(1) decode_fixed_within(2))+

lemma allocate_within:
  "allocate_field env pd ds as s c = (ok, s', c') \<Longrightarrow> within s s'"
  by (auto simp: allocate_field_def split: if_splits prod.splits)

lemma blob_dest_within:
  assumes "\<And>d. d_within (k d)"
  shows "d_within (blob_dest env f dest n alloc msg k)"
proof (rule d_withinI)
  fix s c r s' c'
  assume b: "buf_stream s" and d: "blob_dest env f dest n alloc msg k s c = Some (r, s', c')"
  obtain ok s1 c1 where a: "allocate_field env dest alloc 1 s c = (ok, s1, c1)" by (metis prod_cases3)
  then have w: "within s s1" by (rule allocate_within)
  then have "buf_stream s1" using b within_buf by blast
  with d a w b show "within s s'"
    using d_withinD [OF assms] within_trans [OF w]
    by (auto simp: blob_dest_def d_error_def split: if_splits bool.splits)
qed

lemma read_store_within [intro!]:
  "d_within (\<lambda>s c. d_read (pb_read s b n) (g c) (\<lambda>bs s c. Some (True, s, h bs c)))"
  by (intro d_within_read d_within_done) (erule (1) read_within)

lemma bytes_within: "d_within (pb_dec_bytes env f dest)"
  unfolding pb_dec_bytes_def [abs_def] Let_def
  by (intro d_within_read [where g = "\<lambda>c. c"] d_within_if blob_dest_within d_within_error
      read_store_within) (erule (1) decode_varint32_within)

lemma string_tail_within:
  "d_within (\<lambda>s c. case pb_read s True n of
       (None, s1) \<Rightarrow> Some (False, s1, g c) | (Some bs, s1) \<Rightarrow> Some (True, s1, h bs c))"
  by (rule d_withinI) (auto dest: read_within split: prod.splits option.splits)

lemma string_within: "d_within (pb_dec_string env f dest)"
  unfolding pb_dec_string_def [abs_def] Let_def
  by (intro d_within_read [where g = "\<lambda>c. c"] d_within_if blob_dest_within d_within_error
      string_tail_within) (erule (1) decode_varint32_within)

lemma fixed_length_within: "d_within (pb_dec_fixed_length_bytes f dest)"
  unfolding pb_dec_fixed_length_bytes_def [abs_def]
  by (intro d_within_read [where g = "\<lambda>c. c"] d_within_if d_within_error d_within_done
      read_store_within) (erule (1) decode_varint32_within)

definition sub_within :: "sub_decoder \<Rightarrow> bool" where
  "sub_within sub \<longleftrightarrow> (\<forall>init fs dest. d_within (sub init fs dest))"

lemma submessage_within:
  assumes "sub_within sub"
  shows "d_within (pb_dec_submessage sub f dest)"
  unfolding pb_dec_submessage_def [abs_def]
proof (rule d_within_sub [where g = "\<lambda>c. c"])
  fix s0 substream p c r s' c'
  assume o: "opened s0 substream p" "buf_stream s0" "buf_stream substream"
    and d: "(case ptr f of
         Ptr_NULL \<Rightarrow> d_error ''invalid field descriptor'' p c
       | Ptr_fields fs \<Rightarrow>
           (case sub (PB_HTYPE (ftype f) = PB_HTYPE_REPEATED) fs dest substream c of
              None \<Rightarrow> None
            | Some (status, substream1, c1) \<Rightarrow> d_close status substream1 p c1)
       | Ptr_default _ \<Rightarrow> None) = Some (r, s', c')"
  have w: "within substream t"
    if "sub i fs dest substream c = Some (st, t, c1)" for i fs st t c1
  proof -
    have "d_within (sub i fs dest)" using assms by (simp add: sub_within_def)
    from d_withinD [OF this o(3) that] show ?thesis .
  qed
  show "within s0 s'"
  proof (cases "ptr f")
    case (Ptr_fields fs)
    with d obtain st t c1 where "sub (PB_HTYPE (ftype f) = PB_HTYPE_REPEATED) fs dest substream c = Some (st, t, c1)"
      and cl: "d_close st t p c1 = Some (r, s', c')"
      by (auto split: option.splits)
    then show ?thesis using d_close_within [OF o(1,2) w cl] by blast
  qed (use d opened_within [OF o(1)] in \<open>auto simp: d_error_def\<close>)
qed

lemma decoders_within:
  assumes "sub_within sub"
  shows "d_within (PB_DECODERS env sub lt f dest)"
proof -
  have tab: "unat lt < 11 \<Longrightarrow> unat lt \<in> {0, 1, 2, 3, 4, 5, 6, 7, 8, 9, 10}"
    unfolding insert_iff empty_iff by arith
  show ?thesis
  proof (cases "unat lt < 11")
    case True
    from tab [OF this] show ?thesis
      using scalar_within bytes_within string_within fixed_length_within submessage_within [OF assms]
      by (elim insertE emptyE) (simp_all add: PB_DECODERS_def d_within_None)
  qed (simp add: PB_DECODERS_def d_within_None)
qed

section \<open>Static, pointer and callback fields\<close>

lemma static_packed_within:
  assumes func: "\<And>d. d_within (func (iter_field it) d)"
  shows "buf_stream sub \<Longrightarrow> static_packed_loop k func it sub c = Some (r, sub', c') \<Longrightarrow> within sub sub'"
proof (induction k arbitrary: sub c)
  case (Suc k)
  let ?call = "func (iter_field it) (item_addr (pData it) (iter_field it) (psize_load it c)) sub c"
  show ?case
  proof (cases "bytes_left sub = 0 \<or> array_size (iter_field it) \<le> psize_load it c")
    case False
    with Suc.prems(2) obtain ok sub1 c1 where call: "?call = Some (ok, sub1, c1)"
      by (auto split: option.splits)
    have w: "within sub sub1" by (rule d_withinD [OF func Suc.prems(1) call])
    then have b: "buf_stream sub1" using Suc.prems(1) within_buf by blast
    show ?thesis
    proof (cases ok)
      case True
      with False call Suc.prems(2) have
        "static_packed_loop k func it sub1 (psize_store it (psize_load it c1 + 1) c1) = Some (r, sub', c')"
        by simp
      from Suc.IH [OF b this] w show ?thesis by (blast intro: within_trans)
    qed (use False call w Suc.prems(2) in simp)
  qed (use Suc.prems(2) in auto)
qed (simp split: if_splits)

lemma static_field_within:
  assumes "sub_within sub"
  shows "d_within (decode_static_field env n sub wt it)"
proof -
  let ?f = "iter_field it"
  let ?func = "PB_DECODERS env sub (PB_LTYPE (ftype ?f))"
  note func = decoders_within [OF assms, of env "PB_LTYPE (ftype ?f)" ?f]
  have after: "d_within (\<lambda>s c. ?func ?f (d c) s (g c))" for d g
    by (rule d_withinI) (rule d_withinD [OF func])
  have packed: "d_within (\<lambda>s c. d_read (pb_make_string_substream s) c (\<lambda>substream s c.
      case static_packed_loop (unat (bytes_left substream)) ?func it substream c of
        None \<Rightarrow> None
      | Some (status, substream1, c1) \<Rightarrow>
          if bytes_left substream1 \<noteq> 0 then d_error ''array overflow'' s c1
          else d_close status substream1 s c1))"
  proof (rule d_within_sub [where g = "\<lambda>c. c"])
    fix s0 sb p c r s' c'
    assume o: "opened s0 sb p" "buf_stream s0" "buf_stream sb"
      and d: "(case static_packed_loop (unat (bytes_left sb)) ?func it sb c of
          None \<Rightarrow> None
        | Some (status, sb1, c1) \<Rightarrow>
            if bytes_left sb1 \<noteq> 0 then d_error ''array overflow'' p c1
            else d_close status sb1 p c1) = Some (r, s', c')"
    then obtain st t c1 where l: "static_packed_loop (unat (bytes_left sb)) ?func it sb c = Some (st, t, c1)"
      by (auto split: option.splits)
    have "within sb t" by (rule static_packed_within [OF _ o(3) l]) (rule func)
    with d l d_close_within [OF o(1,2)] opened_within [OF o(1)] show "within s0 s'"
      by (auto simp: d_error_def split: if_splits)
  qed
  have oneof: "d_within (\<lambda>s c. case P c of None \<Rightarrow> None | Some c1 \<Rightarrow> ?func ?f (pData it) s (g c1))" for P g
    by (rule d_withinI) (auto split: option.splits intro: d_withinD [OF func])
  show ?thesis
    unfolding decode_static_field_def [abs_def] Let_def
    by (intro d_within_if after packed oneof d_within_error)
qed

lemma pointer_packed_within:
  assumes func: "\<And>d. d_within (func (iter_field it) d)"
  shows "buf_stream sub \<Longrightarrow>
    pointer_packed_loop k env n func it al s sub c = Some (r, s', sub', c') \<Longrightarrow>
    within sub sub' \<and> (\<exists>e. s' = s\<lparr>ierrmsg := e\<rparr>)"
proof (induction k arbitrary: sub c al)
  case 0
  then show ?case by (auto split: if_splits intro: exI [of _ "ierrmsg s"])
next
  case (Suc k)
  let ?f = "iter_field it" and ?sz = "psize_load it c"
  let ?grow = "al < ucast ?sz + 1"
  let ?al = "if ?grow then grown_size (bytes_left sub) (data_size ?f) al else al"
  let ?alloc = "if ?grow then allocate_field env (pData it) (ucast (data_size ?f)) ?al sub c
                else (True, sub, c)"
  have eq: "\<exists>e. s = s\<lparr>ierrmsg := e\<rparr>" by (auto intro: exI [of _ "ierrmsg s"])
  show ?case
  proof (cases "bytes_left sub = 0 \<or> ?sz = PB_SIZE_MAX")
    case True
    with Suc.prems(2) eq show ?thesis by (auto simp: Let_def split: if_splits)
  next
    case False
    obtain ok sub1 c1 where al: "?alloc = (ok, sub1, c1)" by (metis prod_cases3)
    then have w1: "within sub sub1" by (auto split: if_splits intro: allocate_within)
    then have b1: "buf_stream sub1" using Suc.prems(1) within_buf by blast
    show ?thesis
    proof (cases ok)
      case fail: False
      with False al Suc.prems(2) w1 eq show ?thesis by (auto simp: Let_def split: if_splits)
    next
      case True
      let ?p = "item_addr (load64 (mem c1) (pData it)) ?f (psize_load it c1)"
      from False True al Suc.prems(2) obtain c2 ok2 sub2 c3 where
        init: "initialize_pointer_field n env ?f ?p c1 = Some c2" and
        call: "func ?f ?p sub1 c2 = Some (ok2, sub2, c3)" and ds: "\<not> (?grow \<and> data_size ?f = 0)"
        by (auto simp: Let_def split: if_splits option.splits)
      have rest: "pointer_packed_loop k env n func it ?al s sub2
            (psize_store it (psize_load it c3 + 1) c3) = Some (r, s', sub', c')" if ok2
        using False True al Suc.prems(2) init call ds that
        by (cases ?grow) (simp_all add: Let_def)
      have stop: "s' = s \<and> sub' = sub2" if "\<not> ok2"
        using False True al Suc.prems(2) init call ds that
        by (cases ?grow) (simp_all add: Let_def)
      have w2: "within sub1 sub2" by (rule d_withinD [OF func b1 call])
      then have w: "within sub sub2" using w1 within_trans by blast
      show ?thesis
      proof (cases ok2)
        case True
        have "buf_stream sub2" using w2 b1 within_buf by blast
        from Suc.IH [OF this rest [OF True]] w show ?thesis by (blast intro: within_trans)
      qed (use stop w eq in auto)
    qed
  qed
qed

lemma opened_errmsg: "opened s sub p \<Longrightarrow> opened s sub (p\<lparr>ierrmsg := e\<rparr>)"
  by (auto simp: opened_def within_def)

lemma d_within_alloc:
  assumes "\<And>c. d_within (k c)"
  shows "d_within (\<lambda>s c. case allocate_field env pd ds (as c) s (g c) of
      (False, s1, c1) \<Rightarrow> Some (False, s1, c1) | (True, s1, c1) \<Rightarrow> k c1 s1 c1)"
proof (rule d_withinI)
  fix s c r s' c'
  assume b: "buf_stream s" and d: "(case allocate_field env pd ds (as c) s (g c) of
      (False, s1, c1) \<Rightarrow> Some (False, s1, c1) | (True, s1, c1) \<Rightarrow> k c1 s1 c1) = Some (r, s', c')"
  obtain ok s1 c1 where a: "allocate_field env pd ds (as c) s (g c) = (ok, s1, c1)"
    by (metis prod_cases3)
  then have w: "within s s1" by (rule allocate_within)
  then have b1: "buf_stream s1" using b within_buf by blast
  show "within s s'"
  proof (cases ok)
    case True
    with d a have "k c1 s1 c1 = Some (r, s', c')" by simp
    from d_withinD [OF assms b1 this] w show ?thesis by (blast intro: within_trans)
  qed (use d a w in simp)
qed

lemma d_within_option:
  assumes "\<And>c. d_within (k c)"
  shows "d_within (\<lambda>s c. case P c of None \<Rightarrow> None | Some c1 \<Rightarrow> k c1 s c1)"
  by (rule d_withinI) (auto split: option.splits intro: d_withinD [OF assms])

lemma pointer_field_within:
  assumes "sub_within sub"
  shows "d_within (decode_pointer_field env n sub wt it)"
proof -
  let ?f = "iter_field it"
  let ?func = "PB_DECODERS env sub (PB_LTYPE (ftype ?f))"
  note func = decoders_within [OF assms, of env "PB_LTYPE (ftype ?f)" ?f]
  have packed: "d_within (\<lambda>s c. d_read (pb_make_string_substream s) c (\<lambda>substream s c.
      case pointer_packed_loop (unat (bytes_left substream)) env n ?func it
             (ucast (psize_load it c)) s substream c of
        None \<Rightarrow> None
      | Some (status, s1, substream1, c1) \<Rightarrow> d_close status substream1 s1 c1))"
  proof (rule d_within_sub [where g = "\<lambda>c. c"])
    fix s0 sb p c r s' c'
    let ?loop = "pointer_packed_loop (unat (bytes_left sb)) env n ?func it (ucast (psize_load it c)) p sb c"
    assume o: "opened s0 sb p" "buf_stream s0" "buf_stream sb"
      and d: "(case ?loop of None \<Rightarrow> None
        | Some (status, p1, sb1, c1) \<Rightarrow> d_close status sb1 p1 c1) = Some (r, s', c')"
    then obtain st p1 t c1 where l: "?loop = Some (st, p1, t, c1)" by (auto split: option.splits)
    have "within sb t \<and> (\<exists>e. p1 = p\<lparr>ierrmsg := e\<rparr>)"
      by (rule pointer_packed_within [OF _ o(3) l]) (rule func)
    then have w: "within sb t" "opened s0 sb p1" using opened_errmsg [OF o(1)] by auto
    from d l have "d_close st t p1 c1 = Some (r, s', c')" by simp
    then show "within s0 s'" by (rule d_close_within [OF w(2) o(2) w(1)])
  qed
  have call: "d_within (\<lambda>s c. ?func ?f (q c) s (h c))" for q h
    by (rule d_withinI) (rule d_withinD [OF func])
  have item: "d_within (\<lambda>s c. case P c of None \<Rightarrow> None | Some b \<Rightarrow> ?func ?f (q c b) s (h b))"
    for P :: "cstate \<Rightarrow> cstate option" and q h
    by (rule d_withinI) (auto split: option.splits intro: d_withinD [OF func])
  show ?thesis
    unfolding decode_pointer_field_def [abs_def] Let_def
    by (intro d_within_if packed d_within_error d_within_alloc [where g = "\<lambda>c. c"]
        d_within_alloc d_within_option call item)
qed

text \<open>The functions behind the decoder's function pointers keep the same discipline.\<close>

definition callbacks_within :: "pb_dec_env \<Rightarrow> bool" where
  "callbacks_within env \<longleftrightarrow>
     (\<forall>fn f a s c r s' c'. buf_stream s \<and> dec_fn env fn f a s c = (r, s', c') \<longrightarrow> within s s') \<and>
     (\<forall>fn e t w s c r s' c'. buf_stream s \<and> ext_dec_fn env fn e t w s c = (r, s', c') \<longrightarrow> within s s')"

lemma callback_loop_within:
  assumes "callback_loop cb s c = Some (r, s', c')" "buf_stream s"
    and "\<And>s c r s' c'. buf_stream s \<Longrightarrow> cb s c = (r, s', c') \<Longrightarrow> within s s'"
  shows "within s s'"
proof -
  let ?P = "\<lambda>cb s c y. (\<forall>s c r s' c'. buf_stream s \<longrightarrow> cb s c = (r, s', c') \<longrightarrow> within s s') \<longrightarrow>
    buf_stream s \<longrightarrow> within s (fst (snd y))"
  have "?P cb s c (r, s', c')"
  proof (rule callback_loop.raw_induct [where P = ?P, OF _ assms(1)], intro impI)
    fix rec cb' s0 c0 y
    assume IH: "\<And>cb s c y. rec cb s c = Some y \<Longrightarrow> ?P cb s c y"
      and step: "(case cb' s0 c0 of (ok, s1, c1) \<Rightarrow>
        if \<not> ok then Some (False, s1, c1)
        else if bytes_left s1 \<noteq> 0 then rec cb' s1 c1 else Some (True, s1, c1)) = Some y"
      and cb': "\<forall>s c r s' c'. buf_stream s \<longrightarrow> cb' s c = (r, s', c') \<longrightarrow> within s s'"
      and b: "buf_stream s0"
    obtain ok s1 c1 where call: "cb' s0 c0 = (ok, s1, c1)" by (metis prod_cases3)
    with cb' b have w: "within s0 s1" by blast
    then have b1: "buf_stream s1" using b within_buf by blast
    show "within s0 (fst (snd y))"
    proof (cases "ok \<and> bytes_left s1 \<noteq> 0")
      case True
      with step call have "rec cb' s1 c1 = Some y" by simp
      from IH [OF this] cb' b1 have "within s1 (fst (snd y))" by blast
      with w show ?thesis by (rule within_trans)
    next
      case False
      from step have "y = (ok, s1, c1)" unfolding call using False by (cases ok) auto
      with w show ?thesis by simp
    qed
  qed
  with assms(2,3) show ?thesis by simp
qed

lemma callback_field_within:
  assumes "callbacks_within env"
  shows "d_within (decode_callback_field env wt it)"
proof -
  let ?cb = "\<lambda>c. dec_fn env (callback_func (mem c) (pData it)) (iter_field it) (callback_arg (pData it))"
  have cb: "within s s'" if "buf_stream s" "?cb c0 s c = (r, s', c')" for c0 s c r s' c'
    using assms that unfolding callbacks_within_def by blast
  show ?thesis
  proof (rule d_withinI)
    fix s c r s' c'
    assume b: "buf_stream s" and d: "decode_callback_field env wt it s c = Some (r, s', c')"
    have str: "d_within (\<lambda>s c. d_read (pb_make_string_substream s) c (\<lambda>substream s c.
        case callback_loop (?cb c0) substream c of
          None \<Rightarrow> None
        | Some (False, _, c1) \<Rightarrow> d_error ''callback failed'' s c1
        | Some (True, substream1, c1) \<Rightarrow> d_close True substream1 s c1))" for c0
    proof (rule d_within_sub [where g = "\<lambda>c. c"])
      fix s0 sb p c r s' c'
      assume o: "opened s0 sb p" "buf_stream s0" "buf_stream sb"
        and d: "(case callback_loop (?cb c0) sb c of
            None \<Rightarrow> None
          | Some (False, _, c1) \<Rightarrow> d_error ''callback failed'' p c1
          | Some (True, sb1, c1) \<Rightarrow> d_close True sb1 p c1) = Some (r, s', c')"
      then obtain ok t c1 where l: "callback_loop (?cb c0) sb c = Some (ok, t, c1)"
        by (auto split: option.splits)
      have "within sb t" using callback_loop_within [OF l o(3)] cb by blast
      with d l d_close_within [OF o(1,2)] opened_within [OF o(1)] show "within s0 s'"
        by (cases ok) (auto simp: d_error_def)
    qed
    have raw: "d_within (\<lambda>s c. d_read (read_raw_value s wt 10) c (\<lambda>buffer s c.
        case ?cb c0 (pb_istream_from_buffer buffer (of_nat (length buffer))) c of
          (status, _, c1) \<Rightarrow> Some (status, s, c1)))" for c0
      by (rule d_within_read [where g = "\<lambda>c. c"])
         (auto intro: d_withinI dest: read_raw_value_within split: prod.splits)
    show "within s s'"
      using d skip_field_within [OF b] d_withinD [OF str b, of c _ r s' c'] d_withinD [OF raw b, of c _ r s' c']
      unfolding decode_callback_field_def Let_def
      by (auto split: if_splits prod.splits)
  qed
qed

section \<open>Whole messages\<close>

lemma union_field_within:
  "pb_release_union_field env n it s c = Some (ok, it', s', c') \<Longrightarrow> within s s'"
  by (auto simp: pb_release_union_field_def Let_def split: if_splits option.splits prod.splits bool.splits)

lemma decode_field_within:
  assumes "sub_within sub" "callbacks_within env" "buf_stream s"
    and "decode_field env n sub wt it s c = Some (ok, it', s', c')"
  shows "within s s'"
proof -
  from assms(4) obtain ok1 it1 s1 c1 where
    u: "(if PB_HTYPE (ftype (iter_field it)) = PB_HTYPE_ONEOF
         then pb_release_union_field env n it s c else Some (True, it, s, c)) = Some (ok1, it1, s1, c1)"
    by (fastforce simp: decode_field_def split: option.splits)
  then have w: "within s s1" by (auto split: if_splits intro: union_field_within)
  then have b: "buf_stream s1" using assms(3) within_buf by blast
  let ?dec = "\<lambda>at. if at = PB_ATYPE_STATIC then decode_static_field env n sub wt it1
     else if at = PB_ATYPE_POINTER then decode_pointer_field env n sub wt it1
     else if at = PB_ATYPE_CALLBACK then decode_callback_field env wt it1
     else d_error ''invalid field type''"
  have dec: "d_within (?dec at)" for at
    using static_field_within [OF assms(1)] pointer_field_within [OF assms(1)]
      callback_field_within [OF assms(2)] d_within_error [where g = "\<lambda>c. c"] by auto
  show ?thesis
  proof (cases ok1)
    case True
    with assms(4) u have "?dec (PB_ATYPE (ftype (iter_field it1))) s1 c1 = Some (ok, s', c')"
      by (simp add: decode_field_def Let_def pb_atype_defs split: if_splits)
    from d_withinD [OF dec b this] w show ?thesis by (blast intro: within_trans)
  qed (use assms(4) u w in \<open>simp add: decode_field_def\<close>)
qed

lemma default_extension_within:
  assumes "sub_within sub" "callbacks_within env"
  shows "d_within (default_extension_decoder env n sub ext t wt)"
  by (rule d_withinI)
     (auto simp: default_extension_decoder_def Let_def split: if_splits
      dest!: decode_field_within [OF assms])

lemma extension_loop_within:
  assumes "sub_within sub" "callbacks_within env"
  shows "buf_stream s \<Longrightarrow> decode_extension_loop k env n sub left ext t wt s c = Some (r, s', c') \<Longrightarrow>
    within s s'"
proof (induction k arbitrary: ext s c)
  case (Suc k)
  let ?step = "case ext_decode (dec_ext_types env (extension_type (mem c) ext)) of
      Some fn \<Rightarrow> Some (ext_dec_fn env fn ext t wt s c)
    | None \<Rightarrow> default_extension_decoder env n sub ext t wt s c"
  show ?case
  proof (cases "ext = 0 \<or> bytes_left s \<noteq> left")
    case False
    with Suc.prems(2) obtain ok s1 c1 where st: "?step = Some (ok, s1, c1)"
      by (cases ?step) auto
    have w: "within s s1"
    proof (cases "ext_decode (dec_ext_types env (extension_type (mem c) ext))")
      case None
      with st d_withinD [OF default_extension_within [OF assms] Suc.prems(1)] show ?thesis by simp
    next
      case (Some fn)
      with st have "ext_dec_fn env fn ext t wt s c = (ok, s1, c1)" by simp
      with assms(2) Suc.prems(1) show ?thesis unfolding callbacks_within_def by blast
    qed
    then have b: "buf_stream s1" using Suc.prems(1) within_buf by blast
    show ?thesis
    proof (cases ok)
      case True
      with False st Suc.prems(2) have
        "decode_extension_loop k env n sub left (extension_next (mem c1) ext) t wt s1 c1 = Some (r, s', c')"
        by simp
      from Suc.IH [OF b this] w show ?thesis by (blast intro: within_trans)
    qed (use False st Suc.prems(2) w in simp)
  qed (use Suc.prems(2) in auto)
qed (simp split: if_splits)

lemma unknown_field_within:
  assumes "sub_within sub" "callbacks_within env" "buf_stream s"
    and "unknown_field env n sub t wt l s c = Some (ok, l', s', c')"
  shows "within s s'"
proof -
  let ?ext = "\<lambda>P it. if P then decode_extension env n sub t wt it s c else Some (True, s, c)"
  from assms(4) obtain P it ok1 s1 c1 where e: "?ext P it = Some (ok1, s1, c1)"
    and r: "\<not> ok1 \<longrightarrow> s' = s1" "ok1 \<longrightarrow> bytes_left s1 \<noteq> bytes_left s \<longrightarrow> s' = s1"
      "ok1 \<longrightarrow> bytes_left s1 = bytes_left s \<longrightarrow> s' = snd (pb_skip_field s1 wt)"
    unfolding unknown_field_def Let_def
    by (fastforce split: option.splits bool.splits if_splits prod.splits)
  have w: "within s s1"
    using e extension_loop_within [OF assms(1,2,3)] by (auto simp: decode_extension_def split: if_splits)
  then have "buf_stream s1" using assms(3) within_buf by blast
  then have "within s1 (snd (pb_skip_field s1 wt))" using skip_field_within by (metis prod.collapse)
  with w r show ?thesis by (cases ok1) (metis within_trans)+
qed

lemma noinit_loop_within:
  assumes "sub_within sub" "callbacks_within env"
  shows "buf_stream s \<Longrightarrow> noinit_loop k env n sub l s c = Some (ok, l', s', c') \<Longrightarrow> within s s'"
proof (induction k arbitrary: l s c)
  case (Suc k)
  show ?case
  proof (cases "bytes_left s = 0")
    case False
    obtain tg e s1 where tg: "pb_decode_tag s = (tg, e, s1)" by (metis prod_cases3)
    have w1: "within s s1" by (rule decode_tag_within [OF Suc.prems(1) tg])
    then have b1: "buf_stream s1" using Suc.prems(1) within_buf by blast
    have next_round: "within s s'"
      if "within s1 s2" "noinit_loop k env n sub l2 s2 c2 = Some (ok, l', s', c')" for l2 s2 c2
    proof -
      have "buf_stream s2" using that(1) b1 within_buf by blast
      from Suc.IH [OF this that(2)] that(1) w1 show ?thesis by (blast intro: within_trans)
    qed
    have stop: "within s s'" if "within s1 s'" using w1 that by (rule within_trans)
    show ?thesis
    proof (cases tg)
      case None
      with False tg Suc.prems(2) w1 show ?thesis by simp
    next
      case (Some wt_t)
      then obtain wt t where wt: "tg = Some (wt, t)" by fastforce
      obtain found it where it: "pb_field_iter_find (l_iter l) t = (found, it)" by fastforce
      show ?thesis
      proof (cases found)
        case nf: False
        with False tg wt it Suc.prems(2) obtain ok1 l1 s2 c1 where
          u: "unknown_field env n sub t wt (l\<lparr>l_iter := it\<rparr>) s1 c = Some (ok1, l1, s2, c1)"
          by (auto split: option.splits)
        have w2: "within s1 s2" by (rule unknown_field_within [OF assms b1 u])
        with False tg wt it nf u Suc.prems(2) next_round [OF w2] stop show ?thesis
          by (cases ok1) auto
      next
        case True
        show ?thesis
        proof (cases "enter_fixed_count (l\<lparr>l_iter := it\<rparr>) c")
          case None
          with False tg wt it True Suc.prems(2) w1 show ?thesis by auto
        next
          case (Some lc)
          obtain l1 c1 where lc: "lc = (l1, c1)" by fastforce
          with False tg wt it True Some Suc.prems(2) obtain ok1 it2 s2 c2 where
            f: "decode_field env n sub wt (l_iter l1) s1 c1 = Some (ok1, it2, s2, c2)"
            by (auto split: option.splits)
          have w2: "within s1 s2" by (rule decode_field_within [OF assms b1 f])
          with False tg wt it True Some lc f Suc.prems(2) next_round [OF w2] stop show ?thesis
            by (cases ok1) auto
        qed
      qed
    qed
  qed (use Suc.prems(2) in simp)
qed (simp split: if_splits)

lemma noinit_with_within:
  assumes "sub_within sub" "callbacks_within env"
  shows "d_within (noinit_with env n sub fs dest)"
proof (rule d_withinI)
  fix s c r s' c'
  assume b: "buf_stream s" and d: "noinit_with env n sub fs dest s c = Some (r, s', c')"
  let ?l = "\<lparr>l_iter = snd (pb_field_iter_begin fs dest), fields_seen = [0, 0],
             extension_range_start = 0, fixed_count_field = None\<rparr>"
  from d obtain ok l1 s1 c1 where
    lp: "noinit_loop (unat (bytes_left s)) env n sub ?l s (c\<lparr>fixed_count := 0\<rparr>) = Some (ok, l1, s1, c1)"
    by (auto simp: noinit_with_def Let_def split: option.splits)
  have s': "s' = s1 \<or> (\<exists>msg. s' = set_ierror s1 msg)"
    using d lp by (cases ok) (auto simp: noinit_with_def Let_def d_error_def split: if_splits)
  have "within s s1" by (rule noinit_loop_within [OF assms b lp])
  with s' show "within s s'" by auto
qed

lemma decode_with_within:
  assumes "sub_within sub" "callbacks_within env"
  shows "d_within (decode_with env n sub fs dest)"
proof (rule d_withinI)
  fix s c r s' c'
  assume b: "buf_stream s" and d: "decode_with env n sub fs dest s c = Some (r, s', c')"
  then obtain ok c0 c1 where "noinit_with env n sub fs dest s c0 = Some (ok, s', c1)"
    by (auto simp: decode_with_def split: option.splits bool.splits)
  then show "within s s'" by (rule d_withinD [OF noinit_with_within [OF assms] b])
qed

lemma decode_at_within:
  assumes "callbacks_within env"
  shows "sub_within (pb_decode_at n env)"
proof (induction n)
  case 0
  show ?case by (auto simp: sub_within_def d_within_def)
next
  case (Suc n)
  have "d_within (pb_decode_at (Suc n) env init fs dest)" for init fs dest
  proof -
    have "pb_decode_at (Suc n) env init fs dest =
      (if init then decode_with env n (pb_decode_at n env) fs dest
       else noinit_with env n (pb_decode_at n env) fs dest)" by (intro ext) simp
    then show ?thesis
      using noinit_with_within [OF Suc assms] decode_with_within [OF Suc assms] by simp
  qed
  then show ?case unfolding sub_within_def by blast
qed

lemma delimited_within:
  assumes "d_within dec"
  shows "d_within (delimited_with dec)"
  unfolding delimited_with_def [abs_def]
proof (rule d_within_sub [where g = "\<lambda>c. c"])
  fix s0 sb p c r s' c'
  assume o: "opened s0 sb p" "buf_stream s0" "buf_stream sb"
    and d: "(case dec sb c of None \<Rightarrow> None
      | Some (status, sb1, c1) \<Rightarrow> d_close status sb1 p c1) = Some (r, s', c')"
  then obtain st t c1 where l: "dec sb c = Some (st, t, c1)" and cl: "d_close st t p c1 = Some (r, s', c')"
    by (auto split: option.splits)
  show "within s0 s'" by (rule d_close_within [OF o(1,2) d_withinD [OF assms o(3) l] cl])
qed

end
