(* ===== verification/Pb_Decode_Total.thy ===== *)
theory Pb_Decode_Total
  imports Pb_Decode_Stream
begin

unbundle bit_operations_syntax

text \<open>
  Decoding ends. For well-formed descriptors without extension fields, a budget above the
  nesting depth, and decoding callbacks that consume input when they report success, every
  function of the decoder has a result on every input: the loops stop, the recursion is
  bounded by the descriptor, no table entry or descriptor pointer is null where it is used.
\<close>

section \<open>Well-formed descriptors\<close>

fun dec_wf :: "pb_field \<Rightarrow> bool" where
  "dec_wf (Pb_field t ty off so ds as p) \<longleftrightarrow>
     PB_LTYPE ty \<noteq> PB_LTYPE_EXTENSION \<and> unat (PB_LTYPE ty) < 11 \<and>
     (PB_LTYPE ty = PB_LTYPE_SUBMESSAGE \<longrightarrow>
        (case p of Ptr_fields fs \<Rightarrow> list_all dec_wf fs | _ \<Rightarrow> False)) \<and>
     (PB_LTYPE ty \<noteq> PB_LTYPE_SUBMESSAGE \<longrightarrow>
        (case p of Ptr_NULL \<Rightarrow> True | Ptr_default bs \<Rightarrow> unat ds \<le> length bs | Ptr_fields _ \<Rightarrow> False)) \<and>
     (PB_ATYPE ty = PB_ATYPE_POINTER \<and> PB_HTYPE ty = PB_HTYPE_REPEATED \<and>
      PB_LTYPE ty \<le> PB_LTYPE_LAST_PACKABLE \<longrightarrow> ds \<noteq> 0)"

lemma dec_wf_type:
  assumes "dec_wf f"
  shows "PB_LTYPE (ftype f) \<noteq> PB_LTYPE_EXTENSION" "unat (PB_LTYPE (ftype f)) < 11"
    and "PB_ATYPE (ftype f) = PB_ATYPE_POINTER \<Longrightarrow> PB_HTYPE (ftype f) = PB_HTYPE_REPEATED \<Longrightarrow>
      PB_LTYPE (ftype f) \<le> PB_LTYPE_LAST_PACKABLE \<Longrightarrow> data_size f \<noteq> 0"
  using assms by (cases f; simp)+

lemma dec_wf_submsg:
  assumes "dec_wf f" "PB_LTYPE (ftype f) = PB_LTYPE_SUBMESSAGE"
  obtains fs where "ptr f = Ptr_fields fs" "submsg_fields f = Some fs" "list_all dec_wf fs"
    "field_depth f = Suc (msg_depth fs)"
  using assms by (cases f) (auto simp: submsg_fields_def msg_depth_def split: pb_ptr.splits)

lemma dec_wf_default:
  assumes "dec_wf f" "PB_LTYPE (ftype f) \<noteq> PB_LTYPE_SUBMESSAGE" "iter_field it = f"
  shows "default_data it c \<noteq> None"
  using assms by (cases f) (auto simp: default_data_def Let_def split: pb_ptr.splits)

lemma dec_wf_LAST: "dec_wf PB_LAST_FIELD" "field_depth PB_LAST_FIELD = 0"
  by (simp_all add: PB_LAST_FIELD_def pb_type_defs)

lemma dec_wf_at:
  assumes "list_all dec_wf fs"
  shows "dec_wf (field_at fs i)" "field_depth (field_at fs i) \<le> msg_depth fs"
proof -
  have "field_at fs i \<in> set fs \<or> field_at fs i = PB_LAST_FIELD" by (simp add: field_at_def)
  then show "dec_wf (field_at fs i)" "field_depth (field_at fs i) \<le> msg_depth fs"
    using assms field_depth_le dec_wf_LAST by (auto simp: list_all_iff)
qed

section \<open>Defaults and release\<close>

lemma each_defined:
  assumes "\<And>j c. g (iter_at fs dest j) c \<noteq> (None :: 'c option)"
  shows "(case pb_field_iter_begin fs dest of
       (False, _) \<Rightarrow> Some c
     | (True, it) \<Rightarrow> map_option snd (iter_each (length fs)
          (\<lambda>it c. map_option (\<lambda>c. (True, c)) (g it c)) it c)) \<noteq> None"
proof (cases "field_count fs = 0")
  case False
  have "iter_each (length fs) (\<lambda>it c. map_option (\<lambda>c. (True, c)) (g it c)) (iter_at fs dest 0) c \<noteq> None"
    using assms False field_count_le [of fs] by (intro iter_each_defined) auto
  with False show ?thesis by (simp add: iter_begin)
qed (simp add: iter_begin)

lemma set_default_with_defined:
  assumes "dec_wf (iter_field it)"
    and "\<And>fs p c. PB_LTYPE (ftype (iter_field it)) = PB_LTYPE_SUBMESSAGE \<Longrightarrow>
      submsg_fields (iter_field it) = Some fs \<Longrightarrow> submsg fs p c \<noteq> None"
  shows "set_default_with exts submsg it c \<noteq> None"
proof -
  have sub: "(case submsg_fields (iter_field it) of Some fs \<Rightarrow> submsg fs p c | None \<Rightarrow> None) \<noteq> None"
    if "PB_LTYPE (ftype (iter_field it)) = PB_LTYPE_SUBMESSAGE" for p c
  proof -
    note lt = that
    obtain fs where fs: "submsg_fields (iter_field it) = Some fs"
      using assms(1) lt by (rule dec_wf_submsg)
    then show ?thesis using assms(2) [OF lt fs] by (simp del: not_None_eq)
  qed
  show ?thesis
    using sub dec_wf_default [OF assms(1) _ refl] dec_wf_type(1) [OF assms(1)]
    unfolding set_default_with_def Let_def by (simp del: not_None_eq split: if_split)
qed

lemma message_defaults_defined:
  assumes "list_all dec_wf fs" "msg_depth fs < n"
  shows "pb_message_set_to_defaults n env fs dest c \<noteq> None"
  using assms
proof (induction n arbitrary: fs dest c)
  case (Suc n)
  have "pb_field_set_to_default n env (iter_at fs dest j) c \<noteq> None" for j c
    unfolding pb_field_set_to_default.simps
  proof (rule set_default_with_defined)
    show "dec_wf (iter_field (iter_at fs dest j))" using dec_wf_at(1) [OF Suc.prems(1)] by simp
    fix gs p c
    assume "PB_LTYPE (ftype (iter_field (iter_at fs dest j))) = PB_LTYPE_SUBMESSAGE"
      "submsg_fields (iter_field (iter_at fs dest j)) = Some gs"
    then have "list_all dec_wf gs" "msg_depth gs < n"
      using dec_wf_submsg [OF dec_wf_at(1) [OF Suc.prems(1)], of j]
        dec_wf_at(2) [OF Suc.prems(1), of j] Suc.prems(2) by force+
    then show "pb_message_set_to_defaults n env gs p c \<noteq> None" by (rule Suc.IH)
  qed
  then show ?case unfolding pb_message_set_to_defaults.simps by (rule each_defined)
qed simp

lemma release_items_defined:
  "(\<And>p c. rel p c \<noteq> None) \<Longrightarrow> release_items rel step k p c \<noteq> None"
proof (induction k arbitrary: p c)
  case (Suc k)
  then obtain c1 where "rel p c = Some c1" by (metis not_None_eq)
  with Suc show ?case by (simp del: not_None_eq)
qed simp

lemma release_field_with_defined:
  assumes "dec_wf (iter_field it)"
    and "\<And>fs p c. PB_LTYPE (ftype (iter_field it)) = PB_LTYPE_SUBMESSAGE \<Longrightarrow>
      submsg_fields (iter_field it) = Some fs \<Longrightarrow> rel fs p c \<noteq> None"
  shows "release_field_with exts rel it c \<noteq> None"
proof (cases "PB_LTYPE (ftype (iter_field it)) = PB_LTYPE_SUBMESSAGE")
  case True
  obtain fs where fs: "submsg_fields (iter_field it) = Some fs" using assms(1) True by (rule dec_wf_submsg)
  have "release_items (rel fs) st k p c \<noteq> None" for st k p c
    by (rule release_items_defined) (rule assms(2) [OF True fs])
  with fs dec_wf_type(1) [OF assms(1)] True show ?thesis
    unfolding release_field_with_def Let_def
    by (auto simp del: not_None_eq split: if_split option.split)
next
  case False
  with dec_wf_type(1) [OF assms(1)] show ?thesis
    unfolding release_field_with_def Let_def by simp
qed

lemma release_defined:
  assumes "list_all dec_wf fs" "msg_depth fs < n"
  shows "pb_release n env fs dest c \<noteq> None"
  using assms
proof (induction n arbitrary: fs dest c)
  case (Suc n)
  have "pb_release_single_field n env (iter_at fs dest j) c \<noteq> None" for j c
    unfolding pb_release_single_field.simps
  proof (rule release_field_with_defined)
    show "dec_wf (iter_field (iter_at fs dest j))" using dec_wf_at(1) [OF Suc.prems(1)] by simp
    fix gs p c
    assume "PB_LTYPE (ftype (iter_field (iter_at fs dest j))) = PB_LTYPE_SUBMESSAGE"
      "submsg_fields (iter_field (iter_at fs dest j)) = Some gs"
    then have "list_all dec_wf gs" "msg_depth gs < n"
      using dec_wf_submsg [OF dec_wf_at(1) [OF Suc.prems(1)], of j]
        dec_wf_at(2) [OF Suc.prems(1), of j] Suc.prems(2) by force+
    then show "pb_release n env gs p c \<noteq> None" by (rule Suc.IH)
  qed
  then have "(case pb_field_iter_begin fs dest of
       (False, _) \<Rightarrow> Some c
     | (True, it) \<Rightarrow> map_option snd (iter_each (length fs)
          (\<lambda>it c. map_option (\<lambda>c. (True, c)) (pb_release_single_field n env it c)) it c)) \<noteq> None"
    by (rule each_defined)
  then show ?case by (cases "dest = 0") (simp_all del: not_None_eq)
qed simp

text \<open>The same for one field, at any position of a well-formed descriptor.\<close>

lemma field_submsg:
  assumes "dec_wf f" "field_depth f \<le> n" "PB_LTYPE (ftype f) = PB_LTYPE_SUBMESSAGE"
    "submsg_fields f = Some fs"
  shows "list_all dec_wf fs" "msg_depth fs < n"
  using dec_wf_submsg [OF assms(1,3)] assms(2,4) by force+

lemma release_single_defined:
  assumes "dec_wf (iter_field it)" "field_depth (iter_field it) \<le> n"
  shows "pb_release_single_field n env it c \<noteq> None"
  unfolding pb_release_single_field.simps
  using field_submsg [OF assms] by (intro release_field_with_defined assms(1) release_defined) auto

lemma fresh_submessage_defined:
  assumes "dec_wf f" "field_depth f \<le> n" "PB_LTYPE (ftype f) = PB_LTYPE_SUBMESSAGE"
  shows "fresh_submessage n env f p c \<noteq> None"
proof -
  obtain fs where fs: "submsg_fields f = Some fs" using assms(1,3) by (rule dec_wf_submsg)
  from message_defaults_defined [OF field_submsg [OF assms fs]] fs show ?thesis
    by (simp add: fresh_submessage_def del: not_None_eq)
qed

lemma initialize_pointer_defined:
  assumes "dec_wf f" "field_depth f \<le> n"
  shows "initialize_pointer_field n env f p c \<noteq> None"
  using fresh_submessage_defined [OF assms]
  by (simp add: initialize_pointer_field_def del: not_None_eq)

section \<open>Readers consume input\<close>

lemma varint32_eof_consumes:
  assumes "buf_stream s" "pb_decode_varint32_eof s = (Some v, e, s')"
  shows "unat (bytes_left s') < unat (bytes_left s)"
proof -
  obtain x s1 where x: "pb_readbyte s = (x, s1)" by fastforce
  with assms(2) obtain b where b: "pb_readbyte s = (Some b, s1)"
    by (cases x) (auto simp: pb_decode_varint32_eof_def)
  have lt: "unat (bytes_left s1) < unat (bytes_left s)" by (rule readbyte_decreases [OF b])
  have "buf_stream s1" using readbyte_within [OF assms(1) b] assms(1) within_buf by blast
  then have "unat (bytes_left s') \<le> unat (bytes_left s1)"
    using assms(2) b varint32_loop_within within_left
    by (fastforce simp: pb_decode_varint32_eof_def split: if_splits prod.splits)
  with lt show ?thesis by simp
qed

lemma varint32_consumes:
  "buf_stream s \<Longrightarrow> pb_decode_varint32 s = (Some v, s') \<Longrightarrow> unat (bytes_left s') < unat (bytes_left s)"
  by (auto simp: pb_decode_varint32_def split: prod.splits dest: varint32_eof_consumes)

lemma varint_consumes:
  assumes "buf_stream s" "pb_decode_varint s = (Some v, s')"
  shows "unat (bytes_left s') < unat (bytes_left s)"
proof -
  obtain x s1 where x: "pb_readbyte s = (x, s1)" by fastforce
  with assms(2) obtain b where b: "pb_readbyte s = (Some b, s1)"
    by (cases x) (auto simp: pb_decode_varint_def varint_read_loop.simps [of s])
  have lt: "unat (bytes_left s1) < unat (bytes_left s)" by (rule readbyte_decreases [OF b])
  have "buf_stream s1" using readbyte_within [OF assms(1) b] assms(1) within_buf by blast
  then have "unat (bytes_left s') \<le> unat (bytes_left s1)"
    using assms(2) b varint_read_loop_within within_left
    by (fastforce simp: pb_decode_varint_def varint_read_loop.simps [of s] Let_def split: if_splits)
  with lt show ?thesis by simp
qed

lemma fixed_consumes:
  "pb_decode_fixed32 s = (Some v, s') \<Longrightarrow> buf_stream s \<Longrightarrow> unat (bytes_left s') < unat (bytes_left s)"
  "pb_decode_fixed64 s = (Some w, s') \<Longrightarrow> buf_stream s \<Longrightarrow> unat (bytes_left s') < unat (bytes_left s)"
  by (auto simp: pb_decode_fixed32_def pb_decode_fixed64_def pb_read_def pb_read_direct_def
      call_read_def buf_read_def buf_stream_def word_less_nat_alt unat_sub_if' word_le_nat_alt
      split: if_splits prod.splits)

definition d_consumes :: "decoder \<Rightarrow> bool" where
  "d_consumes dec \<longleftrightarrow> (\<forall>s c s' c'. buf_stream s \<and> dec s c = Some (True, s', c') \<longrightarrow>
     unat (bytes_left s') < unat (bytes_left s))"

lemma d_consumesD:
  "d_consumes dec \<Longrightarrow> buf_stream s \<Longrightarrow> dec s c = Some (r, s', c') \<Longrightarrow> r \<Longrightarrow>
   unat (bytes_left s') < unat (bytes_left s)"
  by (simp add: d_consumes_def) blast

lemma store_checked_stream:
  "store_checked clamp f dest v s c = Some (True, s', c') \<Longrightarrow> s' = s"
  by (auto simp: store_checked_def d_error_def split: option.splits if_splits)

lemma scalar_consumes:
  "d_consumes (pb_dec_bool f dest)" "d_consumes (pb_dec_varint f dest)"
  "d_consumes (pb_dec_uvarint f dest)" "d_consumes (pb_dec_svarint f dest)"
  "d_consumes (pb_dec_fixed32 f dest)" "d_consumes (pb_dec_fixed64 f dest)"
  unfolding d_consumes_def pb_dec_bool_def pb_dec_varint_def pb_dec_uvarint_def pb_dec_svarint_def
    pb_dec_fixed32_def pb_dec_fixed64_def d_read_def pb_decode_svarint_def Let_def
  by (auto split: prod.splits option.splits
      dest: varint32_consumes varint_consumes fixed_consumes dest!: store_checked_stream)

lemma packable_consumes:
  assumes "lt \<le> PB_LTYPE_LAST_PACKABLE"
  shows "d_consumes (PB_DECODERS env sub lt f dest)"
proof -
  have "unat lt \<in> {0, 1, 2, 3, 4, 5}"
    using assms unfolding insert_iff empty_iff by (simp add: PB_LTYPE_LAST_PACKABLE_def word_le_nat_alt) arith
  then show ?thesis
    using scalar_consumes by (elim insertE emptyE) (simp_all add: PB_DECODERS_def)
qed

section \<open>Field decoders have a result\<close>

definition d_defined :: "decoder \<Rightarrow> bool" where
  "d_defined dec \<longleftrightarrow> (\<forall>s c. buf_stream s \<longrightarrow> dec s c \<noteq> None)"

lemma d_definedD: "d_defined dec \<Longrightarrow> buf_stream s \<Longrightarrow> \<exists>r s' c'. dec s c = Some (r, s', c')"
  unfolding d_defined_def by (metis not_None_eq prod_cases3)

lemma if_defined: "(P \<Longrightarrow> a \<noteq> None) \<Longrightarrow> (\<not> P \<Longrightarrow> b \<noteq> None) \<Longrightarrow> (if P then a else b) \<noteq> None"
  by simp

lemma d_error_defined [simp]: "d_error msg s c \<noteq> None"
  by (simp add: d_error_def)

lemma d_close_defined [simp]: "d_close st sub s c \<noteq> None"
  by (simp add: d_close_def split: prod.splits bool.splits)

lemma store_checked_defined [simp]: "store_checked clamp f dest v s c \<noteq> None"
  by (simp add: store_checked_def del: not_None_eq split: option.splits)

lemma d_read_defined: "(\<And>v s. rd = (Some v, s) \<Longrightarrow> k v s c \<noteq> None) \<Longrightarrow> d_read rd c k \<noteq> None"
  by (auto simp: d_read_def simp del: not_None_eq split: prod.splits option.splits)

lemma blob_dest_defined:
  "(\<And>d s c. k d s c \<noteq> None) \<Longrightarrow> blob_dest env f dest n alloc msg k s c \<noteq> None"
  by (auto simp: blob_dest_def simp del: not_None_eq split: prod.splits bool.splits)

lemma basic_defined:
  "pb_dec_bool f dest s c \<noteq> None" "pb_dec_varint f dest s c \<noteq> None"
  "pb_dec_uvarint f dest s c \<noteq> None" "pb_dec_svarint f dest s c \<noteq> None"
  "pb_dec_fixed32 f dest s c \<noteq> None" "pb_dec_fixed64 f dest s c \<noteq> None"
  "pb_dec_fixed_length_bytes f dest s c \<noteq> None"
  unfolding pb_dec_bool_def pb_dec_varint_def pb_dec_uvarint_def pb_dec_svarint_def
    pb_dec_fixed32_def pb_dec_fixed64_def pb_dec_fixed_length_bytes_def Let_def
  by (intro d_read_defined; simp add: d_read_defined del: not_None_eq)+

lemma blob_defined: "pb_dec_bytes env f dest s c \<noteq> None" "pb_dec_string env f dest s c \<noteq> None"
proof -
  have tail: "(case r of (None, s1) \<Rightarrow> Some (a s1) | (Some bs, s1) \<Rightarrow> Some (b bs s1)) \<noteq> None"
    for r :: "byte list option \<times> pb_istream" and a :: "pb_istream \<Rightarrow> 'x" and b
    by (simp split: prod.splits option.splits)
  show "pb_dec_bytes env f dest s c \<noteq> None"
    unfolding pb_dec_bytes_def Let_def
    by (rule d_read_defined) (simp add: blob_dest_defined d_read_defined del: not_None_eq)
  show "pb_dec_string env f dest s c \<noteq> None"
    unfolding pb_dec_string_def Let_def
    by (rule d_read_defined) (simp add: blob_dest_defined tail del: not_None_eq)
qed

definition sub_defined :: "sub_decoder \<Rightarrow> pb_field \<Rightarrow> bool" where
  "sub_defined sub f \<longleftrightarrow>
     (\<forall>fs. PB_LTYPE (ftype f) = PB_LTYPE_SUBMESSAGE \<and> submsg_fields f = Some fs \<longrightarrow>
        (\<forall>init dest. d_defined (sub init fs dest)))"

lemma decoders_defined:
  assumes "dec_wf f" "sub_defined sub f"
  shows "d_defined (PB_DECODERS env sub (PB_LTYPE (ftype f)) f dest)"
proof (cases "PB_LTYPE (ftype f) = PB_LTYPE_SUBMESSAGE")
  case True
  obtain fs where fs: "ptr f = Ptr_fields fs" "submsg_fields f = Some fs"
    using assms(1) True by (rule dec_wf_submsg)
  have "pb_dec_submessage sub f dest s c \<noteq> None" if "buf_stream s" for s c
    unfolding pb_dec_submessage_def
  proof (rule d_read_defined)
    fix v p assume "pb_make_string_substream s = (Some v, p)"
    then have "buf_stream v" by (rule make_substream_opened(2) [OF that])
    then obtain r v1 c1 where "sub (PB_HTYPE (ftype f) = PB_HTYPE_REPEATED) fs dest v c = Some (r, v1, c1)"
      using assms(2) True fs(2) d_definedD unfolding sub_defined_def by blast
    with fs(1) show "(case ptr f of Ptr_NULL \<Rightarrow> d_error ''invalid field descriptor'' p c
        | Ptr_fields fs \<Rightarrow> (case sub (PB_HTYPE (ftype f) = PB_HTYPE_REPEATED) fs dest v c of
            None \<Rightarrow> None | Some (status, substream1, c1) \<Rightarrow> d_close status substream1 p c1)
        | Ptr_default _ \<Rightarrow> None) \<noteq> None" by (simp del: not_None_eq)
  qed
  then show ?thesis
    using True by (simp add: d_defined_def PB_DECODERS_def pb_ltype_defs del: not_None_eq)
next
  case False
  have "unat (PB_LTYPE (ftype f)) \<in> {0, 1, 2, 3, 4, 5, 6, 7, 8, 9, 10}"
    using dec_wf_type(2) [OF assms(1)] unfolding insert_iff empty_iff by arith
  moreover have "unat (PB_LTYPE (ftype f)) \<noteq> 8" "unat (PB_LTYPE (ftype f)) \<noteq> 9"
    using False dec_wf_type(1) [OF assms(1)] by (simp_all add: pb_ltype_defs word_unat_eq_iff)
  ultimately show ?thesis
    using basic_defined blob_defined
    by (elim insertE emptyE) (simp_all add: d_defined_def PB_DECODERS_def del: not_None_eq)
qed

section \<open>The loops stop\<close>

lemma static_packed_defined:
  assumes "\<And>d. d_defined (func (iter_field it) d)" "\<And>d. d_consumes (func (iter_field it) d)"
    "\<And>d. d_within (func (iter_field it) d)"
  shows "buf_stream sub \<Longrightarrow> unat (bytes_left sub) \<le> k \<Longrightarrow> static_packed_loop k func it sub c \<noteq> None"
proof (induction k arbitrary: sub c)
  case 0
  then show ?case by (simp add: unat_eq_zero)
next
  case (Suc k)
  let ?d = "item_addr (pData it) (iter_field it) (psize_load it c)"
  obtain r s1 c1 where call: "func (iter_field it) ?d sub c = Some (r, s1, c1)"
    using d_definedD [OF assms(1) Suc.prems(1)] by blast
  have b: "buf_stream s1" using d_withinD [OF assms(3) Suc.prems(1) call] Suc.prems(1) within_buf by blast
  have "static_packed_loop k func it s1 c2 \<noteq> None" if r for c2
  proof (rule Suc.IH [OF b])
    show "unat (bytes_left s1) \<le> k"
      using d_consumesD [OF assms(2) Suc.prems(1) call that] Suc.prems(2) by linarith
  qed
  with call show ?case by (cases r) (simp_all del: not_None_eq)
qed

lemma static_field_defined:
  assumes "dec_wf (iter_field it)" "field_depth (iter_field it) \<le> n" "sub_defined sub (iter_field it)"
    "sub_within sub"
  shows "d_defined (decode_static_field env n sub wt it)"
  unfolding d_defined_def
proof (intro allI impI)
  fix s c assume b: "buf_stream s"
  let ?f = "iter_field it" and ?lt = "PB_LTYPE (ftype (iter_field it))"
  let ?func = "PB_DECODERS env sub ?lt"
  have func: "?func ?f d s c \<noteq> None" for d c
    using decoders_defined [OF assms(1,3)] b unfolding d_defined_def by blast
  have packed: "d_read (pb_make_string_substream s) c (\<lambda>substream s c.
      case static_packed_loop (unat (bytes_left substream)) ?func it substream c of
        None \<Rightarrow> None
      | Some (status, substream1, c1) \<Rightarrow>
          if bytes_left substream1 \<noteq> 0 then d_error ''array overflow'' s c1
          else d_close status substream1 s c1) \<noteq> None" if "?lt \<le> PB_LTYPE_LAST_PACKABLE" for c
  proof (rule d_read_defined)
    fix v p assume "pb_make_string_substream s = (Some v, p)"
    then have "buf_stream v" by (rule make_substream_opened(2) [OF b])
    then have "static_packed_loop (unat (bytes_left v)) ?func it v c \<noteq> None"
      by (intro static_packed_defined decoders_defined [OF assms(1,3)] packable_consumes [OF that]
          decoders_within [OF assms(4)]) auto
    then obtain st v1 c1 where "static_packed_loop (unat (bytes_left v)) ?func it v c = Some (st, v1, c1)"
      by auto
    then show "(case static_packed_loop (unat (bytes_left v)) ?func it v c of
        None \<Rightarrow> None
      | Some (status, substream1, c1) \<Rightarrow>
          if bytes_left substream1 \<noteq> 0 then d_error ''array overflow'' p c1
          else d_close status substream1 p c1) \<noteq> None" by (simp del: not_None_eq)
  qed
  have oneof: "(if ?lt = PB_LTYPE_SUBMESSAGE \<and> Q then fresh_submessage n env ?f p c else Some c) \<noteq> None"
    for Q p c
    using fresh_submessage_defined [OF assms(1,2)] by (simp del: not_None_eq)
  have oneof': "(case (if ?lt = PB_LTYPE_SUBMESSAGE \<and> Q then fresh_submessage n env ?f p c else Some c) of
      None \<Rightarrow> None | Some c1 \<Rightarrow> ?func ?f d s (g c1)) \<noteq> None" for Q p c d g
  proof -
    obtain c1 where "(if ?lt = PB_LTYPE_SUBMESSAGE \<and> Q then fresh_submessage n env ?f p c else Some c) =
      Some c1" using oneof [of Q p c] by blast
    then show ?thesis using func by (simp del: not_None_eq)
  qed
  show "decode_static_field env n sub wt it s c \<noteq> None"
    unfolding decode_static_field_def Let_def
    using func packed oneof' by (simp del: not_None_eq split: if_split)
qed

lemma pointer_packed_defined:
  assumes wf: "dec_wf (iter_field it)" "field_depth (iter_field it) \<le> n" "data_size (iter_field it) \<noteq> 0"
    and func: "\<And>d. d_defined (func (iter_field it) d)" "\<And>d. d_consumes (func (iter_field it) d)"
    "\<And>d. d_within (func (iter_field it) d)"
  shows "buf_stream sub \<Longrightarrow> unat (bytes_left sub) \<le> k \<Longrightarrow>
    pointer_packed_loop k env n func it al s sub c \<noteq> None"
proof (induction k arbitrary: sub c al)
  case 0
  then show ?case by (simp add: unat_eq_zero)
next
  case (Suc k)
  let ?f = "iter_field it" and ?sz = "psize_load it c"
  let ?grow = "al < ucast ?sz + 1"
  let ?al = "if ?grow then grown_size (bytes_left sub) (data_size ?f) al else al"
  obtain ok sub1 c1 where a: "(if ?grow then allocate_field env (pData it) (ucast (data_size ?f)) ?al sub c
      else (True, sub, c)) = (ok, sub1, c1)" by (metis prod_cases3)
  then have w: "within sub sub1" by (auto split: if_splits intro: allocate_within)
  then have b1: "buf_stream sub1" using Suc.prems(1) within_buf by blast
  let ?p = "item_addr (load64 (mem c1) (pData it)) ?f (psize_load it c1)"
  obtain c2 where i: "initialize_pointer_field n env ?f ?p c1 = Some c2"
    using initialize_pointer_defined [OF wf(1,2)] by blast
  obtain r s1 c3 where call: "func ?f ?p sub1 c2 = Some (r, s1, c3)"
    using d_definedD [OF func(1) b1] by blast
  have b2: "buf_stream s1" using d_withinD [OF func(3) b1 call] b1 within_buf by blast
  have rest: "pointer_packed_loop k env n func it al' s s1 c4 \<noteq> None" if r for al' c4
  proof (rule Suc.IH [OF b2])
    have "unat (bytes_left s1) < unat (bytes_left sub1)"
      by (rule d_consumesD [OF func(2) b1 call that])
    then show "unat (bytes_left s1) \<le> k" using within_left [OF w] Suc.prems(2) by linarith
  qed
  show ?case
    using a i call rest wf(3)
    by (cases ok; cases r; cases ?grow) (simp_all add: Let_def del: not_None_eq)
qed

lemma pointer_field_defined:
  assumes "dec_wf (iter_field it)" "field_depth (iter_field it) \<le> n" "sub_defined sub (iter_field it)"
    "sub_within sub" "PB_ATYPE (ftype (iter_field it)) = PB_ATYPE_POINTER"
  shows "d_defined (decode_pointer_field env n sub wt it)"
  unfolding d_defined_def
proof (intro allI impI)
  fix s c assume b: "buf_stream s"
  let ?f = "iter_field it" and ?lt = "PB_LTYPE (ftype (iter_field it))"
  let ?func = "PB_DECODERS env sub ?lt"
  have func: "?func ?f d t c \<noteq> None" if "buf_stream t" for d t c
    using decoders_defined [OF assms(1,3)] that unfolding d_defined_def by blast
  have packed: "d_read (pb_make_string_substream s) c (\<lambda>substream s c.
      case pointer_packed_loop (unat (bytes_left substream)) env n ?func it
             (ucast (psize_load it c)) s substream c of
        None \<Rightarrow> None
      | Some (status, s1, substream1, c1) \<Rightarrow> d_close status substream1 s1 c1) \<noteq> None"
    if "?lt \<le> PB_LTYPE_LAST_PACKABLE" "PB_HTYPE (ftype ?f) = PB_HTYPE_REPEATED" for c
  proof (rule d_read_defined)
    fix v p assume "pb_make_string_substream s = (Some v, p)"
    then have bv: "buf_stream v" by (rule make_substream_opened(2) [OF b])
    have "pointer_packed_loop (unat (bytes_left v)) env n ?func it (ucast (psize_load it c)) p v c \<noteq> None"
      using dec_wf_type(3) [OF assms(1,5) that(2,1)] bv
      by (intro pointer_packed_defined assms(1,2) decoders_defined [OF assms(1,3)]
          packable_consumes [OF that(1)] decoders_within [OF assms(4)]) auto
    then obtain st p1 v1 c1 where
      "pointer_packed_loop (unat (bytes_left v)) env n ?func it (ucast (psize_load it c)) p v c =
         Some (st, p1, v1, c1)" by auto
    then show "(case pointer_packed_loop (unat (bytes_left v)) env n ?func it
             (ucast (psize_load it c)) p v c of
        None \<Rightarrow> None
      | Some (status, s1, substream1, c1) \<Rightarrow> d_close status substream1 s1 c1) \<noteq> None"
      by (simp del: not_None_eq)
  qed
  have alloc: "(case allocate_field env pd ds as s c of
      (False, s1, c1) \<Rightarrow> Some (False, s1, c1)
    | (True, s1, c1) \<Rightarrow> (case initialize_pointer_field n env ?f (q c1) (g c1) of
         None \<Rightarrow> None | Some c2 \<Rightarrow> ?func ?f (h c1 c2) s1 c2)) \<noteq> None" for pd ds as c q g h
  proof -
    obtain ok s1 c1 where a: "allocate_field env pd ds as s c = (ok, s1, c1)" by (metis prod_cases3)
    then have "buf_stream s1" using allocate_within [OF a] b within_buf by blast
    moreover obtain c2 where "initialize_pointer_field n env ?f (q c1) (g c1) = Some c2"
      using initialize_pointer_defined [OF assms(1,2)] by blast
    ultimately show ?thesis using a func by (cases ok) (simp_all del: not_None_eq)
  qed
  have rel: "\<exists>c1. (if ?lt = PB_LTYPE_SUBMESSAGE \<and> Q then pb_release_single_field n env it c else Some c) = Some c1"
    for Q c
    using release_single_defined [OF assms(1,2), of env c] by auto
  obtain c0 where c0: "(if ?lt = PB_LTYPE_SUBMESSAGE \<and> load64 (mem c) (pData it) \<noteq> 0
      then pb_release_single_field n env it c else Some c) = Some c0" using rel by blast
  show "decode_pointer_field env n sub wt it s c \<noteq> None"
    unfolding decode_pointer_field_def Let_def c0 option.case
    by (intro if_defined) (use func [OF b] packed alloc in \<open>simp_all del: not_None_eq\<close>)
qed

section \<open>Messages have a result\<close>

definition callbacks_consume :: "pb_dec_env \<Rightarrow> bool" where
  "callbacks_consume env \<longleftrightarrow> callbacks_within env \<and>
     (\<forall>fn f a s c r s' c'. buf_stream s \<and> dec_fn env fn f a s c = (r, s', c') \<and> r \<and> bytes_left s' \<noteq> 0 \<longrightarrow>
        unat (bytes_left s') < unat (bytes_left s))"

lemma callbacks_withinD:
  assumes "callbacks_consume env" "buf_stream s" "dec_fn env fn f a s c = (r, s', c')"
  shows "within s s'"
  using assms unfolding callbacks_consume_def callbacks_within_def by blast

lemma callbacks_consumeD:
  assumes "callbacks_consume env" "buf_stream s" "dec_fn env fn f a s c = (r, s', c')" "r"
    "bytes_left s' \<noteq> 0"
  shows "unat (bytes_left s') < unat (bytes_left s)"
proof -
  from assms(1) have "buf_stream s \<and> dec_fn env fn f a s c = (r, s', c') \<and> r \<and> bytes_left s' \<noteq> 0 \<longrightarrow>
    unat (bytes_left s') < unat (bytes_left s)" unfolding callbacks_consume_def by blast
  with assms(2-) show ?thesis by blast
qed

lemma callback_loop_defined:
  assumes "\<And>s c r s' c'. buf_stream s \<Longrightarrow> cb s c = (r, s', c') \<Longrightarrow> within s s'"
    and "\<And>s c r s' c'. buf_stream s \<Longrightarrow> cb s c = (r, s', c') \<Longrightarrow> r \<Longrightarrow> bytes_left s' \<noteq> 0 \<Longrightarrow>
      unat (bytes_left s') < unat (bytes_left s)"
  shows "buf_stream s \<Longrightarrow> callback_loop cb s c \<noteq> None"
proof (induction "unat (bytes_left s)" arbitrary: s c rule: less_induct)
  case less
  obtain ok s1 c1 where call: "cb s c = (ok, s1, c1)" by (metis prod_cases3)
  have b: "buf_stream s1" using assms(1) [OF less.prems call] less.prems within_buf by blast
  show ?case
  proof (cases "ok \<and> bytes_left s1 \<noteq> 0")
    case True
    with assms(2) [OF less.prems call] have "unat (bytes_left s1) < unat (bytes_left s)" by simp
    from less.hyps [OF this b] call True show ?thesis
      by (simp add: callback_loop.simps [of cb s] del: not_None_eq)
  next
    case False
    with call show ?thesis by (auto simp: callback_loop.simps [of cb s])
  qed
qed

lemma callback_field_defined:
  assumes "callbacks_consume env"
  shows "d_defined (decode_callback_field env wt it)"
  unfolding d_defined_def
proof (intro allI impI)
  fix s and c :: cstate assume b: "buf_stream s"
  let ?cb = "dec_fn env (callback_func (mem c) (pData it)) (iter_field it) (callback_arg (pData it))"
  have loop: "callback_loop ?cb v c' \<noteq> None" if "buf_stream v" for v c'
    by (rule callback_loop_defined [OF _ _ that])
       (fact callbacks_withinD [OF assms], fact callbacks_consumeD [OF assms])
  have str: "d_read (pb_make_string_substream s) c (\<lambda>substream s c.
        case callback_loop ?cb substream c of
          None \<Rightarrow> None
        | Some (False, _, c1) \<Rightarrow> d_error ''callback failed'' s c1
        | Some (True, substream1, c1) \<Rightarrow> d_close True substream1 s c1) \<noteq> None" for c
  proof (rule d_read_defined)
    fix v p assume "pb_make_string_substream s = (Some v, p)"
    then have "buf_stream v" by (rule make_substream_opened(2) [OF b])
    with loop obtain ok v1 c1 where "callback_loop ?cb v c = Some (ok, v1, c1)" by (metis not_None_eq prod_cases3)
    then show "(case callback_loop ?cb v c of
          None \<Rightarrow> None
        | Some (False, _, c1) \<Rightarrow> d_error ''callback failed'' p c1
        | Some (True, substream1, c1) \<Rightarrow> d_close True substream1 p c1) \<noteq> None"
      by (cases ok) (simp_all del: not_None_eq)
  qed
  show "decode_callback_field env wt it s c \<noteq> None"
    unfolding decode_callback_field_def Let_def
    using str by (auto simp del: not_None_eq intro!: d_read_defined split: prod.splits)
qed

lemma iter_next_start: "start (snd (pb_field_iter_next it)) = start it"
  by (simp add: pb_field_iter_next_def pb_field_iter_begin_def Let_def)

lemma find_loop_start: "start (snd (iter_find_loop k st P it)) = start it"
  by (induction k st P it rule: iter_find_loop.induct) (simp_all add: Let_def iter_next_start)

lemma iter_find_start:
  assumes "pb_field_iter_find it t = (b, it')"
  shows "start it' = start it"
proof -
  have "start (snd (pb_field_iter_find it t)) = start it"
    unfolding pb_field_iter_find_def by (rule find_loop_start)
  with assms show ?thesis by simp
qed

lemma find_loop_never:
  "(\<And>i. \<not> P (field_at (start it) i)) \<Longrightarrow> \<not> fst (iter_find_loop k st P it)"
  by (induction k st P it rule: iter_find_loop.induct) (simp_all add: Let_def iter_next_start)

lemma union_field_defined:
  assumes "list_all dec_wf (start it)" "msg_depth (start it) \<le> n"
  shows "\<exists>ok it1 s1 c1. pb_release_union_field env n it s c = Some (ok, it1, s1, c1) \<and> start it1 = start it"
proof -
  have rel: "pb_release_single_field n env it1 c \<noteq> None" if "start it1 = start it" for it1 c
    using dec_wf_at [OF assms(1), of "pos it1"] assms(2) that by (intro release_single_defined) auto
  obtain b1 it1 where f1: "pb_field_iter_find it (psize_load it c) = (b1, it1)" by fastforce
  then have s1: "start it1 = start it" by (rule iter_find_start)
  obtain c1 where c1: "pb_release_single_field n env it1 c = Some c1" using rel [OF s1] by blast
  obtain b2 it2 where f2: "pb_field_iter_find it1 (tag (iter_field it)) = (b2, it2)" by fastforce
  then have "start it2 = start it" using iter_find_start s1 by simp
  with f1 s1 c1 f2 show ?thesis
    unfolding pb_release_union_field_def Let_def
    by (cases b1; cases b2) (auto split: if_split)
qed

text \<open>What the recursive decoder must provide for the fields of a descriptor of depth \<open>n\<close>.\<close>

definition sub_total :: "sub_decoder \<Rightarrow> nat \<Rightarrow> bool" where
  "sub_total sub n \<longleftrightarrow> sub_within sub \<and>
     (\<forall>fs init dest. list_all dec_wf fs \<and> msg_depth fs < n \<longrightarrow> d_defined (sub init fs dest))"

lemma sub_total_field:
  assumes "sub_total sub n" "dec_wf f" "field_depth f \<le> n"
  shows "sub_defined sub f"
  using assms field_submsg [OF assms(2,3)] unfolding sub_total_def sub_defined_def by blast

lemma decode_field_defined:
  assumes fs: "list_all dec_wf (start it)" "msg_depth (start it) \<le> n" and sub: "sub_total sub n"
    and cb: "callbacks_consume env" and b: "buf_stream s"
  shows "\<exists>ok it1 s1 c1. decode_field env n sub wt it s c = Some (ok, it1, s1, c1) \<and> start it1 = start it"
proof -
  obtain ok it1 s1 c1 where
    u: "(if PB_HTYPE (ftype (iter_field it)) = PB_HTYPE_ONEOF
         then pb_release_union_field env n it s c else Some (True, it, s, c)) = Some (ok, it1, s1, c1)"
    and st: "start it1 = start it"
    using union_field_defined [OF fs, of env s c] by (cases "PB_HTYPE (ftype (iter_field it)) = PB_HTYPE_ONEOF") auto
  have "within s s1" using u by (auto split: if_splits intro: union_field_within)
  then have b1: "buf_stream s1" using b within_buf by blast
  have wf: "dec_wf (iter_field it1)" "field_depth (iter_field it1) \<le> n"
    using dec_wf_at [OF fs(1), of "pos it1"] fs(2) st by auto
  have sw: "sub_within sub" using sub by (simp add: sub_total_def)
  note sd = sub_total_field [OF sub wf]
  let ?at = "PB_ATYPE (ftype (iter_field it1))"
  have "(if ?at = PB_ATYPE_STATIC then decode_static_field env n sub wt it1 s1 c1
     else if ?at = PB_ATYPE_POINTER then decode_pointer_field env n sub wt it1 s1 c1
     else if ?at = PB_ATYPE_CALLBACK then decode_callback_field env wt it1 s1 c1
     else d_error ''invalid field type'' s1 c1) \<noteq> None"
    using static_field_defined [OF wf sd sw] pointer_field_defined [OF wf sd sw]
      callback_field_defined [OF cb] b1
    by (intro if_defined) (auto simp: d_defined_def d_error_def simp del: not_None_eq)
  then obtain r s2 c2 where "(if ?at = PB_ATYPE_STATIC then decode_static_field env n sub wt it1 s1 c1
     else if ?at = PB_ATYPE_POINTER then decode_pointer_field env n sub wt it1 s1 c1
     else if ?at = PB_ATYPE_CALLBACK then decode_callback_field env wt it1 s1 c1
     else d_error ''invalid field type'' s1 c1) = Some (r, s2, c2)" by (metis not_None_eq prod_cases3)
  with u st show ?thesis unfolding decode_field_def Let_def by (cases ok) auto
qed

lemma no_extension_field:
  assumes "list_all dec_wf (start it)"
  shows "\<exists>it'. find_extension_field it = (False, it') \<and> start it' = start it"
proof -
  let ?r = "iter_find_loop (Suc (length (start it))) (pos it) (\<lambda>f. PB_LTYPE (ftype f) = PB_LTYPE_EXTENSION) it"
  have "\<not> fst ?r"
    by (rule find_loop_never) (use dec_wf_type(1) [OF dec_wf_at(1) [OF assms]] in simp)
  moreover have "start (snd ?r) = start it" by (rule find_loop_start)
  ultimately show ?thesis
    unfolding find_extension_field_def by (intro exI [of _ "snd ?r"]) (simp add: prod_eq_iff)
qed

lemma decode_tag_bound: "pb_decode_tag s = (Some (wt, t), e, s') \<Longrightarrow> unat t < 2 ^ 29"
  using unat_lt_u32
  by (auto simp: pb_decode_tag_def unat_drop_bit less_mult_imp_div_less
      split: prod.splits option.splits if_splits)

lemma unknown_field_defined:
  assumes "list_all dec_wf (start (l_iter l))" "unat t < 2 ^ 29"
  shows "\<exists>ok l1 s1. unknown_field env n sub t wt l s c = Some (ok, l1, s1, c) \<and>
    start (l_iter l1) = start (l_iter l)"
proof -
  obtain it where it: "find_extension_field (l_iter l) = (False, it)" "start it = start (l_iter l)"
    using no_extension_field [OF assms(1)] by blast
  have big: "\<not> - 1 \<le> t"
    using assms(2) by (simp add: word_le_nat_alt unsigned_minus_1_eq_mask mask_eq_exp_minus_1)
  obtain ok s1 where "pb_skip_field s wt = (ok, s1)" by fastforce
  with it big show ?thesis unfolding unknown_field_def Let_def by (auto split: if_split)
qed

lemma enter_fixed_count_start:
  "enter_fixed_count l c = Some (l1, c1) \<Longrightarrow> start (l_iter l1) = start (l_iter l)"
  by (auto simp: enter_fixed_count_def Let_def split: if_splits)

lemma noinit_loop_defined:
  assumes sub: "sub_total sub n" and cb: "callbacks_consume env"
  shows "buf_stream s \<Longrightarrow> unat (bytes_left s) \<le> k \<Longrightarrow> list_all dec_wf (start (l_iter l)) \<Longrightarrow>
    msg_depth (start (l_iter l)) \<le> n \<Longrightarrow> noinit_loop k env n sub l s c \<noteq> None"
proof (induction k arbitrary: l s c)
  case 0
  then show ?case by (simp add: unat_eq_zero)
next
  case (Suc k)
  have sw: "sub_within sub" and cw: "callbacks_within env"
    using sub cb by (simp_all add: sub_total_def callbacks_consume_def)
  obtain tg e s1 where tg: "pb_decode_tag s = (tg, e, s1)" by (metis prod_cases3)
  have w1: "within s s1" by (rule decode_tag_within [OF Suc.prems(1) tg])
  then have b1: "buf_stream s1" using Suc.prems(1) within_buf by blast
  show ?case
  proof (cases "bytes_left s = 0 \<or> tg = None")
    case True
    with tg show ?thesis by auto
  next
    case False
    then obtain wt t where wt: "pb_decode_tag s = (Some (wt, t), e, s1)" using tg by (cases tg) auto
    have lt: "unat (bytes_left s1) < unat (bytes_left s)"
      using wt varint32_eof_consumes [OF Suc.prems(1)]
      by (auto simp: pb_decode_tag_def split: prod.splits option.splits if_splits)
    have next_round: "noinit_loop k env n sub l2 s2 c2 \<noteq> None"
      if "within s1 s2" "start (l_iter l2) = start (l_iter l)" for l2 s2 c2
    proof (rule Suc.IH)
      show "buf_stream s2" using that(1) b1 within_buf by blast
      show "unat (bytes_left s2) \<le> k" using within_left [OF that(1)] lt Suc.prems(2) by linarith
    qed (use Suc.prems(3,4) that(2) in auto)
    obtain found it where it: "pb_field_iter_find (l_iter l) t = (found, it)" by fastforce
    then have st: "start it = start (l_iter l)" by (rule iter_find_start)
    show ?thesis
    proof (cases found)
      case nf: False
      obtain ok l1 s2 where u: "unknown_field env n sub t wt (l\<lparr>l_iter := it\<rparr>) s1 c = Some (ok, l1, s2, c)"
        "start (l_iter l1) = start (l_iter l)"
        using unknown_field_defined [of "l\<lparr>l_iter := it\<rparr>" t env n sub wt s1 c] Suc.prems(3) st decode_tag_bound [OF wt]
        by auto
      have "within s1 s2" by (rule unknown_field_within [OF sw cw b1 u(1)])
      from next_round [OF this u(2)] False wt it nf u(1) show ?thesis
        by (cases ok) (simp_all del: not_None_eq)
    next
      case True
      show ?thesis
      proof (cases "enter_fixed_count (l\<lparr>l_iter := it\<rparr>) c")
        case None
        with False wt it True show ?thesis by auto
      next
        case (Some lc)
        then obtain l1 c1 where l1: "enter_fixed_count (l\<lparr>l_iter := it\<rparr>) c = Some (l1, c1)" by (cases lc) auto
        then have st1: "start (l_iter l1) = start (l_iter l)" using enter_fixed_count_start st by fastforce
        obtain ok it2 s2 c2 where f: "decode_field env n sub wt (l_iter l1) s1 c1 = Some (ok, it2, s2, c2)"
          "start it2 = start (l_iter l1)"
          using decode_field_defined [OF _ _ sub cb b1, of "l_iter l1"] Suc.prems(3,4) st1 by metis
        have w2: "within s1 s2" by (rule decode_field_within [OF sw cw b1 f(1)])
        from next_round [OF w2, of "(mark_seen l1)\<lparr>l_iter := it2\<rparr>"] False wt it True l1 f st1 show ?thesis
          by (cases ok) (simp_all del: not_None_eq)
      qed
    qed
  qed
qed

lemma noinit_with_defined:
  assumes "sub_total sub n" "callbacks_consume env" "list_all dec_wf fs" "msg_depth fs \<le> n"
  shows "d_defined (noinit_with env n sub fs dest)"
  unfolding d_defined_def
proof (intro allI impI)
  fix s c assume b: "buf_stream s"
  let ?l = "\<lparr>l_iter = snd (pb_field_iter_begin fs dest), fields_seen = [0, 0],
             extension_range_start = 0, fixed_count_field = None\<rparr>"
  have "noinit_loop (unat (bytes_left s)) env n sub ?l s (c\<lparr>fixed_count := 0\<rparr>) \<noteq> None"
    using assms(3,4) by (intro noinit_loop_defined [OF assms(1,2) b]) (auto simp: iter_begin)
  then obtain ok l1 s1 c1 where
    "noinit_loop (unat (bytes_left s)) env n sub ?l s (c\<lparr>fixed_count := 0\<rparr>) = Some (ok, l1, s1, c1)"
    by (metis not_None_eq prod_cases4)
  then show "noinit_with env n sub fs dest s c \<noteq> None"
    unfolding noinit_with_def Let_def by (cases ok) (simp_all del: not_None_eq)
qed

lemma decode_at_total:
  assumes "callbacks_consume env"
  shows "sub_total (pb_decode_at n env) n"
proof (induction n)
  case 0
  show ?case
    using decode_at_within [of env 0] assms unfolding sub_total_def callbacks_consume_def by blast
next
  case (Suc n)
  have "d_defined (pb_decode_at (Suc n) env init fs dest)"
    if fs: "list_all dec_wf fs" "msg_depth fs < Suc n" for init fs dest
    unfolding d_defined_def
  proof (intro allI impI)
    fix s c assume b: "buf_stream s"
    have ni: "noinit_with env n (pb_decode_at n env) fs dest s c \<noteq> None" for c
      using noinit_with_defined [OF Suc assms] fs b unfolding d_defined_def by force
    obtain c0 where c0: "pb_message_set_to_defaults (Suc n) env fs dest c = Some c0"
      using message_defaults_defined [OF fs, of env dest c] by blast
    obtain ok s1 c1 where r: "noinit_with env n (pb_decode_at n env) fs dest s c0 = Some (ok, s1, c1)"
      using ni by (metis not_None_eq prod_cases3)
    obtain c2 where c2: "pb_release (Suc n) env fs dest c1 = Some c2"
      using release_defined [OF fs, of env dest c1] by blast
    have "decode_with env n (pb_decode_at n env) fs dest s c \<noteq> None"
      unfolding decode_with_def c0 option.case r using c2 by (cases ok) simp_all
    with ni show "pb_decode_at (Suc n) env init fs dest s c \<noteq> None"
      by (cases init) (simp_all del: not_None_eq)
  qed
  then show ?case
    using decode_at_within assms unfolding sub_total_def callbacks_consume_def by blast
qed

end
