(* ===== verification/Pb_Decode_Props.thy ===== *)
theory Pb_Decode_Props
  imports Pb_Decode_Total Pb_Encode_Props Pb_Wire_Props
begin

unbundle bit_operations_syntax

text \<open>
  What \<^verbatim>\<open>pb_decode\<close> promises on arbitrary input: it ends, and it stays inside the buffer. The
  last property is about the one loop that a client can keep from ending.
\<close>

section \<open>A sample environment\<close>

text \<open>
  A decoding callback that discards its input, in the style of a client that ignores a
  field, and an allocator that always fails.
\<close>

definition sample_dec_env :: pb_dec_env where
  "sample_dec_env =
     \<lparr>dec_fn = (\<lambda>fn f a s c. case pb_skip s (bytes_left s) of (ok, s') \<Rightarrow> (ok, s', c)),
      ext_dec_fn = (\<lambda>fn e t w s c. (True, s, c)),
      dec_ext_types = (\<lambda>a. Pb_extension_type None None PB_LAST_FIELD),
      place = (\<lambda>c n. None)\<rparr>"

lemma skip_all_left:
  assumes "buf_stream s" "pb_skip s (bytes_left s) = (ok, s')"
  shows "bytes_left s' = 0"
  using assms
  by (auto simp: pb_skip_def pb_read_def pb_read_direct_def call_read_def buf_read_def buf_stream_def
      split: if_splits)

lemma sample_callbacks_within: "callbacks_within sample_dec_env"
  by (auto simp: callbacks_within_def sample_dec_env_def dest: skip_within split: prod.splits)

lemma sample_callbacks_consume: "callbacks_consume sample_dec_env"
proof -
  have "bytes_left s' = 0" if "buf_stream s" "dec_fn sample_dec_env fn f a s c = (r, s', c')"
    for fn f a s c r s' c'
    using that by (auto simp: sample_dec_env_def dest: skip_all_left split: prod.splits)
  with sample_callbacks_within show ?thesis unfolding callbacks_consume_def by blast
qed

definition sample_cstate :: cstate where
  "sample_cstate = \<lparr>mem = sample_mem, live = [], heap_ub = False, fixed_count = 0\<rparr>"

lemma sample_dec_wf: "list_all dec_wf sample_fields"
  by code_simp

section \<open>Termination and bounds\<close>

text \<open>
  C5: decoding ends. For every well-formed descriptor without extension fields, every
  memory-buffer stream and every C state, \<^verbatim>\<open>pb_decode\<close> and its variants return (with a
  budget above the nesting depth of the descriptor), provided a decoding callback that
  reports success has consumed input.
\<close>
theorem decode_terminates:
  assumes "list_all dec_wf fs" "msg_depth fs < n" "callbacks_consume env" "icallback s = Buf_read"
  shows "pb_decode n env fs dest s c \<noteq> None \<and> pb_decode_noinit n env fs dest s c \<noteq> None \<and>
    pb_decode_delimited n env fs dest s c \<noteq> None"
proof -
  have d: "d_defined (pb_decode_at n env init fs dest)" for init
    using decode_at_total [OF assms(3), of n] assms(1,2) unfolding sub_total_def by blast
  have b: "buf_stream s" using assms(4) by (simp add: buf_stream_def)
  have "pb_decode_delimited n env fs dest s c \<noteq> None"
    unfolding pb_decode_delimited_def delimited_with_def
  proof (rule d_read_defined)
    fix v p assume "pb_make_string_substream s = (Some v, p)"
    then have "buf_stream v" by (rule make_substream_opened(2) [OF b])
    from d_definedD [OF d this] obtain r v1 c1 where "pb_decode n env fs dest v c = Some (r, v1, c1)"
      unfolding pb_decode_def by blast
    then show "(case pb_decode n env fs dest v c of None \<Rightarrow> None
        | Some (status, v1, c1) \<Rightarrow> d_close status v1 p c1) \<noteq> None" by (simp del: not_None_eq)
  qed
  with d b show ?thesis unfolding d_defined_def pb_decode_def pb_decode_noinit_def by blast
qed

theorem decode_terminates_witness:
  "pb_decode 3 sample_dec_env sample_fields 100
     (pb_istream_from_buffer [0x0A, 0xFF, 0xFF, 0x03] 4) sample_cstate \<noteq> None"
  using decode_terminates [OF sample_dec_wf sample_wf(2) sample_callbacks_consume,
      of "pb_istream_from_buffer [0x0A, 0xFF, 0xFF, 0x03] 4" 100 sample_cstate]
  by (simp add: pb_istream_from_buffer_def)

text \<open>
  C4: decoding stays inside its input. On a stream over a buffer that holds at least
  \<^verbatim>\<open>bytes_left\<close> bytes, whatever the bytes, the descriptor and the C state are, the stream
  that \<^verbatim>\<open>pb_decode\<close> or \<^verbatim>\<open>pb_decode_delimited\<close> leaves behind is at most \<^verbatim>\<open>bytes_left\<close> bytes
  further in the same buffer and still backed by it, provided the callbacks keep to the
  stream they are given.
\<close>
theorem decode_in_bounds:
  assumes "callbacks_within env" "icallback s = Buf_read" "unat (bytes_left s) \<le> length (istate s)"
    and "pb_decode n env fs dest s c = Some (ok, s', c') \<or>
         pb_decode_delimited n env fs dest s c = Some (ok, s', c')"
  shows "icallback s' = Buf_read \<and> unat (bytes_left s') \<le> length (istate s') \<and>
    (\<exists>k. istate s' = drop k (istate s) \<and> k + unat (bytes_left s') \<le> unat (bytes_left s))"
proof -
  have b: "buf_stream s" using assms(2) by (simp add: buf_stream_def)
  have d: "d_within (pb_decode n env fs dest)"
    using decode_at_within [OF assms(1), of n] unfolding sub_within_def pb_decode_def by blast
  then have "d_within (pb_decode_delimited n env fs dest)"
    unfolding pb_decode_delimited_def by (rule delimited_within)
  with d assms(4) b have w: "within s s'" unfolding d_within_def by blast
  have "backed s" using assms(2,3) by (simp add: backed_def buf_stream_def)
  with w have "backed s'" by (rule within_backed)
  with w assms(2) show ?thesis by (simp add: within_def backed_def buf_stream_def)
qed

theorem decode_in_bounds_witness:
  "\<exists>ok s' c'. pb_decode 3 sample_dec_env sample_fields 100
      (pb_istream_from_buffer [0x0A, 0xFF, 0xFF, 0x03] 4) sample_cstate = Some (ok, s', c') \<and>
    unat (bytes_left s') \<le> length (istate s')"
proof -
  let ?s = "pb_istream_from_buffer [0x0A, 0xFF, 0xFF, 0x03] 4"
  have "d_defined (pb_decode_at 3 sample_dec_env True sample_fields 100)"
    using decode_at_total [OF sample_callbacks_consume, of 3] sample_dec_wf sample_wf(2)
    unfolding sub_total_def by blast
  moreover have "buf_stream ?s" by (simp add: buf_stream_def pb_istream_from_buffer_def)
  ultimately obtain ok s' c' where
    r: "pb_decode 3 sample_dec_env sample_fields 100 ?s sample_cstate = Some (ok, s', c')"
    unfolding pb_decode_def by (blast dest: d_definedD)
  with decode_in_bounds [OF sample_callbacks_within _ _ disjI1 [OF r]] show ?thesis
    by (simp add: pb_istream_from_buffer_def)
qed



end
