(* ===== verification/Pb_Roundtrip.thy ===== *)
theory Pb_Roundtrip
  imports Pb_Encode_Props Pb_Decode Pb_Read
begin

unbundle bit_operations_syntax

text \<open>
  Single values through both halves of the library: what the reference encoder gives for a
  value in memory, the field decoder of the same type stores so that the reference encoder
  gives the same bytes for the destination, and it changes no other memory.
\<close>

section \<open>Integers\<close>

lemma scast_ucast_id:
  "ucast (scast (w :: byte) :: u64) = w" "ucast (scast (w' :: u16) :: u64) = w'"
  "ucast (scast (w'' :: u32) :: u64) = w''"
  by (rule bit_word_eqI; auto simp: bit_simps)+

lemma ucast_ucast_id:
  "ucast (ucast (w :: byte) :: u64) = w" "ucast (ucast (w' :: u16) :: u64) = w'"
  "ucast (ucast (w'' :: u32) :: u64) = w''"
  by (rule bit_word_eqI; auto simp: bit_simps)+

lemma sign_via_u32:
  "scast (ucast (scast (w :: byte) :: u64) :: u32) = (scast w :: u64)"
  "scast (ucast (scast (w' :: u16) :: u64) :: u32) = (scast w' :: u64)"
  by (rule bit_word_eqI; auto simp: bit_simps min_def)+

lemma store_loaded:
  "store8 m' d (load8 m p) = store_bytes m' d (load_bytes m p 1)"
  "store16 m' d (load16 m p) = store_bytes m' d (load_bytes m p 2)"
  "store32 m' d (load32 m p) = store_bytes m' d (load_bytes m p 4)"
  "store64 m' d (load64 m p) = store_bytes m' d (load_bytes m p 8)"
proof -
  have "le_bytes n (le_val (load_bytes m p n)) = load_bytes m p n" for n
    using le_bytes_le_val [of "load_bytes m p n"] by simp
  moreover have "unat (load16 m p) = le_val (load_bytes m p 2)"
    "unat (load32 m p) = le_val (load_bytes m p 4)" "unat (load64 m p) = le_val (load_bytes m p 8)"
    using le_val_less [of "load_bytes m p 2"] le_val_less [of "load_bytes m p 4"]
      le_val_less [of "load_bytes m p 8"]
    by (simp_all add: load16_def load32_def load64_def unat_of_nat take_bit_nat_eq_self)
  ultimately show "store16 m' d (load16 m p) = store_bytes m' d (load_bytes m p 2)"
    "store32 m' d (load32 m p) = store_bytes m' d (load_bytes m p 4)"
    "store64 m' d (load64 m p) = store_bytes m' d (load_bytes m p 8)"
    by (simp_all add: store16_def store32_def store64_def)
  show "store8 m' d (load8 m p) = store_bytes m' d (load_bytes m p 1)"
    by (simp add: store8_def load8_def load_bytes_def)
qed

text \<open>What a sign- or zero-extending read gives, a checked store of the same size accepts.\<close>

lemma signed_store:
  assumes "read_signed m ds p = Some v"
  shows "store_int m' ds d v = Some (store_bytes m' d (load_bytes m p (unat ds)))"
    "clamp_signed ds v = v" "ds \<noteq> 8 \<Longrightarrow> scast (ucast v :: u32) = v"
  using assms
  by (auto simp: read_signed_def store_int_def clamp_signed_def scast_ucast_id sign_via_u32 store_loaded
      split: if_splits)

lemma unsigned_store:
  assumes "read_unsigned m ds p = Some v"
  shows "store_int m' ds d v = Some (store_bytes m' d (load_bytes m p (unat ds)))"
    "clamp_unsigned ds v = v"
  using assms
  by (auto simp: read_unsigned_def store_int_def clamp_unsigned_def ucast_ucast_id store_loaded
      split: if_splits)

lemma load_stored:
  assumes "n < 2 ^ 64"
  shows "load_bytes (store_bytes m' d (load_bytes m p n)) d n = load_bytes m p n"
  using load_store_bytes_same [of "load_bytes m p n" m' d] assms by simp

lemma load_bytes_prefix:
  assumes "load_bytes m a n = load_bytes m' b n" "k \<le> n"
  shows "load_bytes m a k = load_bytes m' b k"
  using arg_cong [OF assms(1), of "take k"] assms(2) by (simp add: take_load_bytes)

lemma reads_agree:
  assumes "load_bytes m a (unat ds) = load_bytes m' b (unat ds)"
  shows "read_signed m ds a = read_signed m' ds b" "read_unsigned m ds a = read_unsigned m' ds b"
proof -
  have l8: "load8 m a = hd (load_bytes m a 1)" for m a by (simp add: load8_def load_bytes_def)
  consider "ds = 1" | "ds = 2" | "ds = 4" | "ds = 8" | "ds \<notin> {1, 2, 4, 8}" by blast
  then have "read_signed m ds a = read_signed m' ds b \<and> read_unsigned m ds a = read_unsigned m' ds b"
    by cases (use assms in \<open>simp_all add: read_signed_def read_unsigned_def l8 load16_def load32_def load64_def\<close>)
  then show "read_signed m ds a = read_signed m' ds b" "read_unsigned m ds a = read_unsigned m' ds b"
    by auto
qed

section \<open>Strings\<close>

lemma c_strnlen_nonzero: "i < c_strnlen m p k \<Longrightarrow> m (p + of_nat i) \<noteq> 0"
proof (induction m p k arbitrary: i rule: c_strnlen.induct)
  case (1 m p k)
  show ?case
  proof (cases "k = 0 \<or> m p = 0")
    case True
    with 1(2) show ?thesis by (simp add: c_strnlen.simps [of m p k])
  next
    case False
    with 1 show ?thesis
      by (cases i) (auto simp: c_strnlen.simps [of m p k] algebra_simps)
  qed
qed

lemma c_strnlen_eq:
  "(\<And>i. i < n \<Longrightarrow> m (p + of_nat i) \<noteq> 0) \<Longrightarrow> m (p + of_nat n) = 0 \<Longrightarrow> n < k \<Longrightarrow> c_strnlen m p k = n"
proof (induction n arbitrary: p k)
  case 0
  then show ?case by (simp add: c_strnlen.simps [of m p k])
next
  case (Suc n)
  have "m p \<noteq> 0" using Suc.prems(1) [of 0] by simp
  moreover have "c_strnlen m (p + 1) (k - 1) = n"
    by (rule Suc.IH) (use Suc.prems(1) [of "Suc i" for i] Suc.prems(2,3) in \<open>auto simp: algebra_simps\<close>)
  ultimately show ?case using Suc.prems(3) by (simp add: c_strnlen.simps [of m p k])
qed

lemma stored_string:
  fixes m :: mem and d :: addr
  assumes "length bs < k" "k < 2 ^ 64" "\<forall>b\<in>set bs. b \<noteq> 0"
  defines "m' \<equiv> store8 (store_bytes m d bs) (d + of_nat (length bs)) 0"
  shows "c_strnlen m' d k = length bs" "load_bytes m' d (length bs) = bs"
    "\<not> in_range x d k \<Longrightarrow> m' x = m x"
proof -
  let ?n = "length bs"
  have off: "(d + of_nat i = d + of_nat j) = (i = j)" if "i < 2 ^ 64" "j < 2 ^ 64" for i j :: nat
    using that by (metis add_left_cancel unat_of_nat_u64)
  have at: "m' (d + of_nat i) = bs ! i" if "i < ?n" for i
    using that assms(1,2) off [of i ?n] unat_of_nat_u64 [of i]
    by (simp add: m'_def store8_def store_bytes_def in_range_def unat_eq_zero)
  have stop: "m' (d + of_nat ?n) = 0"
    by (simp add: m'_def store8_def store_bytes_def in_range_def)
  show "c_strnlen m' d k = ?n"
    by (rule c_strnlen_eq) (use at stop assms(1,3) in auto)
  show "load_bytes m' d ?n = bs" by (rule nth_equalityI) (simp_all add: at)
  show "m' x = m x" if "\<not> in_range x d k"
  proof -
    have "x \<noteq> d + of_nat ?n" "\<not> in_range x d ?n"
      using that assms(1,2) unat_of_nat_u64 [of ?n] by (auto simp: in_range_def)
    then show ?thesis
      by (simp add: m'_def store8_def store_bytes_def in_range_def unat_eq_zero)
  qed
qed

section \<open>Values\<close>

text \<open>The bytes of the structure that a static field of a scalar or string type occupies.\<close>

definition footprint :: "pb_field \<Rightarrow> nat" where
  "footprint f =
     (if PB_LTYPE (ftype f) = PB_LTYPE_BOOL then 1
      else if PB_LTYPE (ftype f) = PB_LTYPE_FIXED32 then 4
      else if PB_LTYPE (ftype f) = PB_LTYPE_FIXED64 then 8
      else unat (data_size f))"

text \<open>
  Decoding \<open>bs\<close> stores a value at \<open>dest\<close> whose encoding is \<open>bs\<close>, consumes exactly \<open>bs\<close> and
  touches no memory but the field's own.
\<close>

definition restores :: "sub_ref \<Rightarrow> pb_field \<Rightarrow> byte list \<Rightarrow> addr \<Rightarrow> decoder \<Rightarrow> bool" where
  "restores ref f bs dest dec \<longleftrightarrow>
     (\<forall>s c post rest. ready Buf_read (\<lambda>st. st) s (bs @ post) rest \<longrightarrow>
        (\<exists>s' c'. dec s c = Some (True, s', c') \<and> ready Buf_read (\<lambda>st. st) s' post rest \<and>
           value_bytes ref (mem c') (PB_LTYPE (ftype f)) f dest = Some bs \<and>
           (\<forall>x. \<not> in_range x dest (footprint f) \<longrightarrow> mem c' x = mem c x) \<and>
           live c' = live c))"

lemma restoresI:
  assumes "\<And>s c post rest. ready Buf_read (\<lambda>st. st) s (bs @ post) rest \<Longrightarrow>
     \<exists>s' m'. dec s c = Some (True, s', c\<lparr>mem := m'\<rparr>) \<and> ready Buf_read (\<lambda>st. st) s' post rest \<and>
       value_bytes ref m' (PB_LTYPE (ftype f)) f dest = Some bs \<and>
       (\<forall>x. \<not> in_range x dest (footprint f) \<longrightarrow> m' x = mem c x)"
  shows "restores ref f bs dest dec"
  unfolding restores_def using assms by fastforce

lemma restores_int:
  assumes rd: "\<And>s post rest. ready Buf_read (\<lambda>st. st) s (bs @ post) rest \<Longrightarrow>
      \<exists>s'. rdr s = (Some v, s') \<and> ready Buf_read (\<lambda>st. st) s' post rest"
    and st: "\<And>m'. store_int m' (data_size f) dest w = Some (store_bytes m' dest (load_bytes m p (unat (data_size f))))"
    and cl: "clamp (data_size f) w = w"
    and val: "\<And>m'. load_bytes m' dest (unat (data_size f)) = load_bytes m p (unat (data_size f)) \<Longrightarrow>
      value_bytes ref m' (PB_LTYPE (ftype f)) f dest = Some bs"
    and fp: "footprint f = unat (data_size f)"
    and k: "\<And>v. k v = store_checked clamp f dest (g v)" "g v = w"
  shows "restores ref f bs dest (\<lambda>s c. d_read (rdr s) c k)"
proof (rule restoresI)
  fix s and c :: cstate and post rest assume "ready Buf_read (\<lambda>st. st) s (bs @ post) rest"
  from rd [OF this] obtain s' where s': "rdr s = (Some v, s')" "ready Buf_read (\<lambda>st. st) s' post rest"
    by blast
  let ?n = "unat (data_size f)"
  let ?m = "store_bytes (mem c) dest (load_bytes m p ?n)"
  have "d_read (rdr s) c k = Some (True, s', c\<lparr>mem := ?m\<rparr>)"
    using s' k st cl by (simp add: d_read_def store_checked_def)
  moreover have "?n < 2 ^ 64" using unat_lt_u32 [of "data_size f"] by simp
  then have "value_bytes ref ?m (PB_LTYPE (ftype f)) f dest = Some bs"
    by (intro val load_stored)
  moreover have "\<forall>x. \<not> in_range x dest (footprint f) \<longrightarrow> ?m x = mem c x"
    by (simp add: fp store_bytes_def)
  ultimately show "\<exists>s' m'. d_read (rdr s) c k = Some (True, s', c\<lparr>mem := m'\<rparr>) \<and>
      ready Buf_read (\<lambda>st. st) s' post rest \<and> value_bytes ref m' (PB_LTYPE (ftype f)) f dest = Some bs \<and>
      (\<forall>x. \<not> in_range x dest (footprint f) \<longrightarrow> m' x = mem c x)"
    using s'(2) by blast
qed

lemma restores_varint:
  assumes lt: "PB_LTYPE (ftype f) = PB_LTYPE_VARINT" and v: "read_signed m (data_size f) p = Some v"
  shows "restores ref f (varint_bytes v) dest (pb_dec_varint f dest)"
  unfolding pb_dec_varint_def [abs_def] Let_def
proof (rule restores_int [where v = v and w = v and clamp = clamp_signed])
  show "\<And>s post rest. ready Buf_read (\<lambda>st. st) s (varint_bytes v @ post) rest \<Longrightarrow>
      \<exists>s'. pb_decode_varint s = (Some v, s') \<and> ready Buf_read (\<lambda>st. st) s' post rest"
    using buf_source.decode_varint_bytes by blast
  show "(if data_size f = 8 then v else scast (ucast v :: u32)) = v" using signed_store(3) [OF v] by simp
  show "value_bytes ref m' (PB_LTYPE (ftype f)) f dest = Some (varint_bytes v)"
    if "load_bytes m' dest (unat (data_size f)) = load_bytes m p (unat (data_size f))" for m'
    using reads_agree(1) [OF that] lt v by (simp add: value_bytes_def pb_ltype_defs)
qed (use lt signed_store [OF v] in \<open>simp_all add: footprint_def pb_ltype_defs\<close>)

lemma restores_uvarint:
  assumes lt: "PB_LTYPE (ftype f) = PB_LTYPE_UVARINT" and v: "read_unsigned m (data_size f) p = Some v"
  shows "restores ref f (varint_bytes v) dest (pb_dec_uvarint f dest)"
  unfolding pb_dec_uvarint_def [abs_def]
proof (rule restores_int [where v = v and w = v and clamp = clamp_unsigned and g = "\<lambda>v. v"])
  show "\<And>s post rest. ready Buf_read (\<lambda>st. st) s (varint_bytes v @ post) rest \<Longrightarrow>
      \<exists>s'. pb_decode_varint s = (Some v, s') \<and> ready Buf_read (\<lambda>st. st) s' post rest"
    using buf_source.decode_varint_bytes by blast
  show "value_bytes ref m' (PB_LTYPE (ftype f)) f dest = Some (varint_bytes v)"
    if "load_bytes m' dest (unat (data_size f)) = load_bytes m p (unat (data_size f))" for m'
    using reads_agree(2) [OF that] lt v by (simp add: value_bytes_def pb_ltype_defs)
qed (use lt unsigned_store [OF v] in \<open>simp_all add: footprint_def pb_ltype_defs\<close>)

lemma restores_svarint:
  assumes lt: "PB_LTYPE (ftype f) = PB_LTYPE_SVARINT" and v: "read_signed m (data_size f) p = Some v"
  shows "restores ref f (varint_bytes (zigzag v)) dest (pb_dec_svarint f dest)"
  unfolding pb_dec_svarint_def [abs_def]
proof (rule restores_int [where v = v and w = v and clamp = clamp_signed and g = "\<lambda>v. v"])
  show "\<And>s post rest. ready Buf_read (\<lambda>st. st) s (varint_bytes (zigzag v) @ post) rest \<Longrightarrow>
      \<exists>s'. pb_decode_svarint s = (Some v, s') \<and> ready Buf_read (\<lambda>st. st) s' post rest"
    using buf_source.decode_svarint_bytes by blast
  show "value_bytes ref m' (PB_LTYPE (ftype f)) f dest = Some (varint_bytes (zigzag v))"
    if "load_bytes m' dest (unat (data_size f)) = load_bytes m p (unat (data_size f))" for m'
    using reads_agree(1) [OF that] lt v by (simp add: value_bytes_def pb_ltype_defs)
qed (use lt signed_store [OF v] in \<open>simp_all add: footprint_def pb_ltype_defs\<close>)


lemma restores_bool:
  assumes "PB_LTYPE (ftype f) = PB_LTYPE_BOOL"
  shows "restores ref f [if b then 1 else 0] dest (pb_dec_bool f dest)"
proof (rule restoresI)
  fix s and c :: cstate and post rest
  let ?v = "if b then 1 else 0 :: u64"
  assume "ready Buf_read (\<lambda>st. st) s ([if b then 1 else 0] @ post) rest"
  moreover have "varint_bytes ?v = [if b then 1 else 0]" by (simp add: varint_bytes_def)
  ultimately have "ready Buf_read (\<lambda>st. st) s (varint_bytes ?v @ post) rest" by simp
  moreover have "unat ?v < 2 ^ 32" by simp
  ultimately obtain s' where
    "pb_decode_varint32 s = (Some (ucast ?v), s')" "ready Buf_read (\<lambda>st. st) s' post rest"
    using buf_source.decode_varint32_bytes by blast
  then show "\<exists>s' m'. pb_dec_bool f dest s c = Some (True, s', c\<lparr>mem := m'\<rparr>) \<and>
      ready Buf_read (\<lambda>st. st) s' post rest \<and>
      value_bytes ref m' (PB_LTYPE (ftype f)) f dest = Some [if b then 1 else 0] \<and>
      (\<forall>x. \<not> in_range x dest (footprint f) \<longrightarrow> m' x = mem c x)"
    using assms
    by (intro exI [of _ s'] exI [of _ "store_bool (mem c) dest b"])
      (simp add: pb_dec_bool_def d_read_def value_bytes_def footprint_def store_bool_def store8_def
        store_bytes_def in_range_def)
qed

lemma restores_fixed:
  assumes rd: "\<And>s post rest. ready Buf_read (\<lambda>st. st) s (bs @ post) rest \<Longrightarrow>
      \<exists>s'. rdr s = (Some v, s') \<and> ready Buf_read (\<lambda>st. st) s' post rest"
    and k: "\<And>s c. k v s c = Some (True, s, c\<lparr>mem := store_bytes (mem c) dest bs\<rparr>)"
    and val: "\<And>m'. load_bytes m' dest (length bs) = bs \<Longrightarrow>
      value_bytes ref m' (PB_LTYPE (ftype f)) f dest = Some bs"
    and fp: "footprint f = length bs" "length bs \<le> 2 ^ 64"
  shows "restores ref f bs dest (\<lambda>s c. d_read (rdr s) c k)"
proof (rule restoresI)
  fix s and c :: cstate and post rest assume "ready Buf_read (\<lambda>st. st) s (bs @ post) rest"
  from rd [OF this] obtain s' where s': "rdr s = (Some v, s')" "ready Buf_read (\<lambda>st. st) s' post rest"
    by blast
  then show "\<exists>s' m'. d_read (rdr s) c k = Some (True, s', c\<lparr>mem := m'\<rparr>) \<and>
      ready Buf_read (\<lambda>st. st) s' post rest \<and> value_bytes ref m' (PB_LTYPE (ftype f)) f dest = Some bs \<and>
      (\<forall>x. \<not> in_range x dest (footprint f) \<longrightarrow> m' x = mem c x)"
    using val [OF load_store_bytes_same] fp by (auto simp: d_read_def k store_bytes_def)
qed

lemma restores_fixed32:
  assumes "PB_LTYPE (ftype f) = PB_LTYPE_FIXED32"
  shows "restores ref f (load_bytes m p 4) dest (pb_dec_fixed32 f dest)"
  unfolding pb_dec_fixed32_def [abs_def]
proof (rule restores_fixed [where v = "load32 m p"])
  show "\<And>s post rest. ready Buf_read (\<lambda>st. st) s (load_bytes m p 4 @ post) rest \<Longrightarrow>
      \<exists>s'. pb_decode_fixed32 s = (Some (load32 m p), s') \<and> ready Buf_read (\<lambda>st. st) s' post rest"
    using buf_source.decode_fixed_bytes(1) [of _ "load32 m p"] by (fastforce simp: fixed_bytes_load)
qed (use assms in \<open>simp_all add: store_loaded value_bytes_def footprint_def pb_ltype_defs\<close>)

lemma restores_fixed64:
  assumes "PB_LTYPE (ftype f) = PB_LTYPE_FIXED64"
  shows "restores ref f (load_bytes m p 8) dest (pb_dec_fixed64 f dest)"
  unfolding pb_dec_fixed64_def [abs_def]
proof (rule restores_fixed [where v = "load64 m p"])
  show "\<And>s post rest. ready Buf_read (\<lambda>st. st) s (load_bytes m p 8 @ post) rest \<Longrightarrow>
      \<exists>s'. pb_decode_fixed64 s = (Some (load64 m p), s') \<and> ready Buf_read (\<lambda>st. st) s' post rest"
    using buf_source.decode_fixed_bytes(2) [of _ "load64 m p"] by (fastforce simp: fixed_bytes_load)
qed (use assms in \<open>simp_all add: store_loaded value_bytes_def footprint_def pb_ltype_defs\<close>)

text \<open>Length-delimited values: the prefix is read as a 32-bit varint, then the bytes.\<close>

lemma read_delimited:
  assumes "ready Buf_read (\<lambda>st. st) s (delimited a @ post) rest" "length a < 2 ^ 32"
  obtains s1 s2 where "pb_decode_varint32 s = (Some (of_nat (length a)), s1)"
    "pb_read s1 True (of_nat (length a)) = (Some a, s2)" "ready Buf_read (\<lambda>st. st) s2 post rest"
proof -
  have n: "unat (of_nat (length a) :: u64) = length a" using assms(2) by (simp add: unat_of_nat_u64)
  have "ready Buf_read (\<lambda>st. st) s (varint_bytes (of_nat (length a)) @ a @ post) rest"
    using assms(1) by (simp add: delimited_def)
  from buf_source.decode_varint32_bytes [OF this] n assms(2) obtain s1 where
    s1: "pb_decode_varint32 s = (Some (ucast (of_nat (length a) :: u64)), s1)"
    "ready Buf_read (\<lambda>st. st) s1 (a @ post) rest" by auto
  moreover have "ucast (of_nat (length a) :: u64) = (of_nat (length a) :: u32)"
    by (rule ucast_of_nat_length) (rule assms(2))
  moreover obtain s2 where "pb_read s1 True (of_nat (length a)) = (Some a, s2)"
    "ready Buf_read (\<lambda>st. st) s2 post rest"
    using buf_source.read_bytes [OF s1(2) n] by blast
  ultimately show ?thesis using that by simp
qed


lemma restores_fixed_length_bytes:
  assumes "PB_LTYPE (ftype f) = PB_LTYPE_FIXED_LENGTH_BYTES"
  shows "restores ref f (delimited (load_bytes m p (unat (data_size f)))) dest
    (pb_dec_fixed_length_bytes f dest)"
proof (rule restoresI)
  fix s and c :: cstate and post rest
  let ?bs = "load_bytes m p (unat (data_size f))"
  have len: "length ?bs < 2 ^ 32" using unat_lt_u32 [of "data_size f"] by simp
  have n: "of_nat (length ?bs) = data_size f" "(of_nat (length ?bs) :: u64) = ucast (data_size f)"
    using len ucast_of_nat_length(2) [of "length ?bs"] by simp_all
  assume "ready Buf_read (\<lambda>st. st) s (delimited ?bs @ post) rest"
  then obtain s1 s2 where s: "pb_decode_varint32 s = (Some (data_size f), s1)"
    "pb_read s1 True (ucast (data_size f)) = (Some ?bs, s2)" "ready Buf_read (\<lambda>st. st) s2 post rest"
    by (rule read_delimited [OF _ len]) (simp add: n)
  have max: "\<not> PB_SIZE_MAX < data_size f" by (simp add: PB_SIZE_MAX_def not_less word_order.extremum)
  have zero: "s2 = s1 \<and> ?bs = []" if "data_size f = 0" using s(2) that by (simp add: pb_read_def)
  let ?m = "store_bytes (mem c) dest ?bs"
  have "pb_dec_fixed_length_bytes f dest s c = Some (True, s2, c\<lparr>mem := ?m\<rparr>)"
    using s zero max
    by (simp add: pb_dec_fixed_length_bytes_def d_read_def memset_zero_def in_range_def fun_eq_iff)
  moreover have "value_bytes ref ?m (PB_LTYPE (ftype f)) f dest = Some (delimited ?bs)"
    using assms load_stored [of "unat (data_size f)"] len by (simp add: value_bytes_def pb_ltype_defs)
  moreover have "\<forall>x. \<not> in_range x dest (footprint f) \<longrightarrow> ?m x = mem c x"
    using assms by (simp add: footprint_def pb_ltype_defs store_bytes_def)
  ultimately show "\<exists>s' m'. pb_dec_fixed_length_bytes f dest s c = Some (True, s', c\<lparr>mem := m'\<rparr>) \<and>
      ready Buf_read (\<lambda>st. st) s' post rest \<and>
      value_bytes ref m' (PB_LTYPE (ftype f)) f dest = Some (delimited ?bs) \<and>
      (\<forall>x. \<not> in_range x dest (footprint f) \<longrightarrow> m' x = mem c x)"
    using s(3) by blast
qed

lemma restores_string:
  assumes "PB_LTYPE (ftype f) = PB_LTYPE_STRING" "PB_ATYPE (ftype f) = PB_ATYPE_STATIC"
    "length (c_string m f p) < unat (data_size f)" "dest \<noteq> 0"
  shows "restores ref f (delimited (c_string m f p)) dest (pb_dec_string env f dest)"
proof (rule restoresI)
  fix s and c :: cstate and post rest
  let ?bs = "c_string m f p" and ?k = "unat (data_size f)"
  let ?n = "of_nat (length ?bs) :: u32"
  have k: "?k < 2 ^ 32" by (rule unat_lt_u32)
  have n: "unat ?n = length ?bs" "unat (?n + 1) = length ?bs + 1" "ucast ?n = (of_nat (length ?bs) :: u64)"
    using k assms(3)
    by (simp_all add: unat_of_nat take_bit_nat_eq_self unat_word_ariths ucast_of_nat_length)
  assume "ready Buf_read (\<lambda>st. st) s (delimited ?bs @ post) rest"
  then obtain s1 s2 where s: "pb_decode_varint32 s = (Some ?n, s1)"
    "pb_read s1 True (ucast ?n) = (Some ?bs, s2)" "ready Buf_read (\<lambda>st. st) s2 post rest"
    by (rule read_delimited) (use k assms(3) n in simp_all)
  let ?m = "store8 (store_bytes (mem c) dest ?bs) (dest + of_nat (length ?bs)) 0"
  have fits: "\<not> ucast (?n + 1) < (ucast ?n :: u64)" "\<not> ucast (data_size f) < (ucast (?n + 1) :: u64)"
    using n(1,2) assms(3) by (simp_all add: word_less_nat_alt ucast_u32_u64_unat)
  have "pb_dec_string env f dest s c = Some (True, s2, c\<lparr>mem := ?m\<rparr>)"
    using s fits assms(2) n(3)
    by (simp add: pb_dec_string_def d_read_def blob_dest_def pb_atype_defs)
  moreover have nz: "\<forall>b\<in>set ?bs. b \<noteq> 0"
    using assms(2) by (auto simp: c_string_def in_set_conv_nth c_strnlen_nonzero)
  note str = stored_string [OF assms(3) _ nz, where m = "mem c" and d = dest]
  have "c_string ?m f dest = ?bs"
    using str(1,2) k assms(2,4) by (simp add: c_string_def [of ?m] pb_atype_defs)
  then have "value_bytes ref ?m (PB_LTYPE (ftype f)) f dest = Some (delimited ?bs)"
    using assms(1) by (simp add: value_bytes_def pb_ltype_defs)
  moreover have "\<forall>x. \<not> in_range x dest (footprint f) \<longrightarrow> ?m x = mem c x"
    using assms(1) k str(3) by (simp add: footprint_def pb_ltype_defs)
  ultimately show "\<exists>s' m'. pb_dec_string env f dest s c = Some (True, s', c\<lparr>mem := m'\<rparr>) \<and>
      ready Buf_read (\<lambda>st. st) s' post rest \<and>
      value_bytes ref m' (PB_LTYPE (ftype f)) f dest = Some (delimited ?bs) \<and>
      (\<forall>x. \<not> in_range x dest (footprint f) \<longrightarrow> m' x = mem c x)"
    using s(3) by blast
qed


lemma restores_bytes:
  assumes "PB_LTYPE (ftype f) = PB_LTYPE_BYTES" "PB_ATYPE (ftype f) = PB_ATYPE_STATIC"
    "bytes_member m f p = Some bs" "p \<noteq> 0" "dest \<noteq> 0"
  shows "restores ref f (delimited bs) dest (pb_dec_bytes env f dest)"
proof (rule restoresI)
  fix s and c :: cstate and post rest
  let ?n = "bytes_array_size m p" and ?b = "bytes_array_bytes dest"
  have bs: "bs = load_bytes m (bytes_array_bytes p) (unat ?n)"
    and fits: "\<not> ucast (data_size f) < PB_BYTES_ARRAY_T_ALLOCSIZE ?n"
    using assms(2-4) by (auto simp: bytes_member_def split: if_splits)
  have len: "length bs = unat ?n" "length bs < 2 ^ 32" using unat_lt_u32 [of ?n] by (simp_all add: bs)
  then have n: "of_nat (length bs) = ?n" "(of_nat (length bs) :: u64) = ucast ?n"
    using ucast_of_nat_length(2) [of "length bs"] by simp_all
  have alloc: "unat (PB_BYTES_ARRAY_T_ALLOCSIZE ?n) = unat ?n + 4"
    using len by (simp add: PB_BYTES_ARRAY_T_ALLOCSIZE_def unat_word_ariths ucast_u32_u64_unat)
  have room: "unat ?n + 4 \<le> unat (data_size f)"
    using fits alloc by (simp add: word_less_nat_alt ucast_u32_u64_unat)
  assume "ready Buf_read (\<lambda>st. st) s (delimited bs @ post) rest"
  then obtain s1 s2 where s: "pb_decode_varint32 s = (Some ?n, s1)"
    "pb_read s1 True (ucast ?n) = (Some bs, s2)" "ready Buf_read (\<lambda>st. st) s2 post rest"
    by (rule read_delimited [OF _ len(2)]) (simp add: n)
  let ?m = "store_bytes (store32 (mem c) dest ?n) ?b bs"
  have "\<not> PB_BYTES_ARRAY_T_ALLOCSIZE ?n < ucast ?n"
    using alloc by (simp add: word_less_nat_alt ucast_u32_u64_unat)
  moreover have "\<not> PB_SIZE_MAX < ?n" by (simp add: PB_SIZE_MAX_def not_less word_order.extremum)
  ultimately have "pb_dec_bytes env f dest s c = Some (True, s2, c\<lparr>mem := ?m\<rparr>)"
    using s fits assms(2)
    by (simp add: pb_dec_bytes_def d_read_def blob_dest_def pb_atype_defs Let_def)
  moreover have "bytes_member ?m f dest = Some bs"
  proof -
    have "\<not> in_range (dest + of_nat i) ?b (length bs)" if "i < 4" for i
    proof -
      have "unat (dest + of_nat i - ?b) = i + 2 ^ 64 - 4"
        using that by (simp add: bytes_array_bytes_def unat_sub_if' unat_of_nat_u64)
      with len show ?thesis by (simp add: in_range_def)
    qed
    then have "load_bytes ?m dest 4 = load_bytes (store32 (mem c) dest ?n) dest 4"
      by (intro load_bytes_cong) (simp add: store_bytes_outside)
    then have "load32 ?m dest = ?n" using load32_store32 [of "mem c" dest ?n] by (simp add: load32_def)
    then show ?thesis
      using fits assms(5) load_store_bytes_same [of bs _ ?b] len by (simp add: bytes_member_def bytes_array_size_def)
  qed
  then have "value_bytes ref ?m (PB_LTYPE (ftype f)) f dest = Some (delimited bs)"
    using assms(1) by (simp add: value_bytes_def pb_ltype_defs)
  moreover have "\<forall>x. \<not> in_range x dest (footprint f) \<longrightarrow> ?m x = mem c x"
  proof (intro allI impI)
    fix x assume "\<not> in_range x dest (footprint f)"
    then have x: "unat (data_size f) \<le> unat (x - dest)"
      using assms(1) by (simp add: footprint_def pb_ltype_defs in_range_def)
    then have "unat (x - ?b) = unat (x - dest) - 4"
      using room by (simp add: bytes_array_bytes_def diff_diff_eq [symmetric] unat_sub word_le_nat_alt)
    then have "\<not> in_range x ?b (length bs)" "\<not> in_range x dest 4"
      using x room len unfolding in_range_def by linarith+
    then show "?m x = mem c x" by (simp add: store_bytes_outside store32_def)
  qed
  ultimately show "\<exists>s' m'. pb_dec_bytes env f dest s c = Some (True, s', c\<lparr>mem := m'\<rparr>) \<and>
      ready Buf_read (\<lambda>st. st) s' post rest \<and>
      value_bytes ref m' (PB_LTYPE (ftype f)) f dest = Some (delimited bs) \<and>
      (\<forall>x. \<not> in_range x dest (footprint f) \<longrightarrow> m' x = mem c x)"
    using s(3) by blast
qed


section \<open>Values survive\<close>

lemma PB_DECODERS_table:
  "PB_DECODERS env sub PB_LTYPE_BOOL = pb_dec_bool"
  "PB_DECODERS env sub PB_LTYPE_VARINT = pb_dec_varint"
  "PB_DECODERS env sub PB_LTYPE_UVARINT = pb_dec_uvarint"
  "PB_DECODERS env sub PB_LTYPE_SVARINT = pb_dec_svarint"
  "PB_DECODERS env sub PB_LTYPE_FIXED32 = pb_dec_fixed32"
  "PB_DECODERS env sub PB_LTYPE_FIXED64 = pb_dec_fixed64"
  "PB_DECODERS env sub PB_LTYPE_BYTES = pb_dec_bytes env"
  "PB_DECODERS env sub PB_LTYPE_STRING = pb_dec_string env"
  "PB_DECODERS env sub PB_LTYPE_FIXED_LENGTH_BYTES = pb_dec_fixed_length_bytes"
  by (simp_all add: PB_DECODERS_def pb_ltype_defs)



end
