(* ===== verification/Fbase64.thy ===== *)
theory Fbase64
  imports C_Memory
begin

unbundle bit_operations_syntax

text \<open>
  \<^verbatim>\<open>FirebaseDatabase/Sources/third_party/SocketRocket/fbase64.c\<close>, the base64 coder of the
  websocket client. Source and target are both in memory, so the model shows what happens to
  every byte; the return value \<^verbatim>\<open>-1\<close> or a count is an \<^verbatim>\<open>int\<close> of 32 bits, and \<^verbatim>\<open>u_int\<close> indices
  are 32-bit words. Characters of 128 and above are not white space (the C locale).

  The first section translates the two functions. Then come base64 as RFC 1521 describes it,
  on lists of octets, with the facts that make it a codec, and the lemmas relating each
  function to it.
\<close>

section \<open>The program\<close>

definition Base64 :: "byte list" where
  "Base64 = map of_char ''ABCDEFGHIJKLMNOPQRSTUVWXYZabcdefghijklmnopqrstuvwxyz0123456789+/''"

definition Pad64 :: byte where
  "Pad64 = 0x3D"

text \<open>The three 8-bit inputs of a group as four indices, \<^verbatim>\<open>output[0]\<close> to \<^verbatim>\<open>output[3]\<close>.\<close>

definition ntop_output :: "byte \<Rightarrow> byte \<Rightarrow> byte \<Rightarrow> byte list" where
  "ntop_output i0 i1 i2 =
     [drop_bit 2 i0,
      push_bit 4 (i0 AND 0x03) + drop_bit 4 i1,
      push_bit 2 (i1 AND 0x0F) + drop_bit 6 i2,
      i2 AND 0x3F]"

definition b64_char :: "byte \<Rightarrow> byte" where
  "b64_char v = Base64 ! unat v"

text \<open>
  \<^verbatim>\<open>while (2 < srclength)\<close>: the memory, and the source pointer, remaining length and
  \<^verbatim>\<open>datalength\<close> at the end of the loop, or nothing after \<^verbatim>\<open>return (-1)\<close>.
\<close>

function ntop_loop ::
  "mem \<Rightarrow> addr \<Rightarrow> u64 \<Rightarrow> addr \<Rightarrow> u64 \<Rightarrow> u64 \<Rightarrow> mem \<times> (addr \<times> u64 \<times> u64) option" where
  "ntop_loop m src srclength target targsize datalength =
     (if 2 < srclength then
        let out = ntop_output (m src) (m (src + 1)) (m (src + 2)) in
        if targsize < datalength + 4 then (m, None)
        else ntop_loop (store_bytes m (target + datalength) (map b64_char out))
               (src + 3) (srclength - 3) target targsize (datalength + 4)
      else (m, Some (src, srclength, datalength)))"
  by pat_completeness auto
termination
  by (relation "measure (\<lambda>(m, src, n, t, z, d). unat n)")
    (auto simp: word_less_nat_alt unat_sub_if' word_le_nat_alt)

declare ntop_loop.simps [simp del]

text \<open>The padding of a final group of one or two bytes.\<close>

definition ntop_tail ::
  "mem \<Rightarrow> addr \<Rightarrow> u64 \<Rightarrow> addr \<Rightarrow> u64 \<Rightarrow> u64 \<Rightarrow> mem \<times> u64 option" where
  "ntop_tail m src srclength target targsize datalength =
     (if srclength \<noteq> 0 then
        let input = (\<lambda>i. if i < srclength then m (src + i) else 0);
            out = ntop_output (input 0) (input 1) 0 in
        if targsize < datalength + 4 then (m, None)
        else (store_bytes m (target + datalength)
                [b64_char (out ! 0), b64_char (out ! 1),
                 if srclength = 1 then Pad64 else b64_char (out ! 2), Pad64],
              Some (datalength + 4))
      else (m, Some datalength))"

definition f_b64_ntop :: "mem \<Rightarrow> addr \<Rightarrow> u64 \<Rightarrow> addr \<Rightarrow> u64 \<Rightarrow> mem \<times> int" where
  "f_b64_ntop m src srclength target targsize =
     (case ntop_loop m src srclength target targsize 0 of
        (m1, None) \<Rightarrow> (m1, -1)
      | (m1, Some (src1, n1, d1)) \<Rightarrow>
          (case ntop_tail m1 src1 n1 target targsize d1 of
             (m2, None) \<Rightarrow> (m2, -1)
           | (m2, Some d2) \<Rightarrow>
               if targsize \<le> d2 then (m2, -1)
               else (store8 m2 (target + d2) 0, sint (ucast d2 :: u32))))"

text \<open>\<^verbatim>\<open>isspace\<close> in the C locale, and the index that \<^verbatim>\<open>strchr\<close> finds.\<close>

definition isspace :: "byte \<Rightarrow> bool" where
  "isspace ch \<longleftrightarrow> ch = 0x20 \<or> 0x09 \<le> ch \<and> ch \<le> 0x0D"

fun strchr :: "byte list \<Rightarrow> byte \<Rightarrow> byte option" where
  "strchr [] ch = None"
| "strchr (x # xs) ch = (if x = ch then Some 0 else map_option (\<lambda>i. i + 1) (strchr xs ch))"

text \<open>
  \<^verbatim>\<open>switch (state)\<close> for a digit: the memory, the new state and \<^verbatim>\<open>tarindex\<close>; nothing when the
  target is too small, before anything is written.
\<close>

definition pton_digit ::
  "mem \<Rightarrow> addr \<Rightarrow> u64 \<Rightarrow> u32 \<Rightarrow> u32 \<Rightarrow> byte \<Rightarrow> (mem \<times> u32 \<times> u32) option" where
  "pton_digit m target targsize state tarindex v =
     (let at = target + ucast tarindex; nxt = target + ucast (tarindex + 1) in
      if state = 0 then
        if target \<noteq> 0 then
          if targsize \<le> ucast tarindex then None
          else Some (store8 m at (push_bit 2 v), 1, tarindex)
        else Some (m, 1, tarindex)
      else if state = 1 then
        if target \<noteq> 0 then
          if targsize \<le> ucast (tarindex + 1) then None
          else let m1 = store8 m at (m at OR drop_bit 4 v)
               in Some (store8 m1 nxt (push_bit 4 (v AND 0x0F)), 2, tarindex + 1)
        else Some (m, 2, tarindex + 1)
      else if state = 2 then
        if target \<noteq> 0 then
          if targsize \<le> ucast (tarindex + 1) then None
          else let m1 = store8 m at (m at OR drop_bit 2 v)
               in Some (store8 m1 nxt (push_bit 6 (v AND 0x03)), 3, tarindex + 1)
        else Some (m, 3, tarindex + 1)
      else if state = 3 then
        if target \<noteq> 0 then
          if targsize \<le> ucast tarindex then None
          else Some (store8 m at (m at OR v), 0, tarindex + 1)
        else Some (m, 0, tarindex + 1)
      else Some (m, state, tarindex))"

text \<open>
  \<^verbatim>\<open>while ((ch = *src++) != '\0')\<close>. The outer \<open>None\<close> is a loop that never meets a
  terminator; the inner one is \<^verbatim>\<open>return (-1)\<close>.
\<close>

partial_function (option) pton_loop ::
  "mem \<Rightarrow> addr \<Rightarrow> addr \<Rightarrow> u64 \<Rightarrow> u32 \<Rightarrow> u32 \<Rightarrow> (mem \<times> (byte \<times> addr \<times> u32 \<times> u32) option) option" where
  "pton_loop m src target targsize state tarindex =
     (let ch = m src in
      if ch = 0 then Some (m, Some (ch, src + 1, state, tarindex))
      else if isspace ch then pton_loop m (src + 1) target targsize state tarindex
      else if ch = Pad64 then Some (m, Some (ch, src + 1, state, tarindex))
      else (case strchr Base64 ch of
              None \<Rightarrow> Some (m, None)
            | Some v \<Rightarrow>
                (case pton_digit m target targsize state tarindex v of
                   None \<Rightarrow> Some (m, None)
                 | Some (m1, state1, tarindex1) \<Rightarrow>
                     pton_loop m1 (src + 1) target targsize state1 tarindex1)))"

text \<open>\<^verbatim>\<open>for (; ch != '\0'; ch = *src++) if (!isspace(ch)) break;\<close>\<close>

partial_function (option) skip_space :: "mem \<Rightarrow> byte \<Rightarrow> addr \<Rightarrow> (byte \<times> addr) option" where
  "skip_space m ch src =
     (if ch = 0 \<or> \<not> isspace ch then Some (ch, src) else skip_space m (m src) (src + 1))"

text \<open>After a single trailing \<^verbatim>\<open>=\<close>: only white space may follow, and no bits may be left over.\<close>

definition pton_end :: "mem \<Rightarrow> byte \<Rightarrow> addr \<Rightarrow> addr \<Rightarrow> u32 \<Rightarrow> (mem \<times> int) option" where
  "pton_end m ch src target tarindex =
     (case skip_space m ch src of
        None \<Rightarrow> None
      | Some (ch1, _) \<Rightarrow>
          Some (m, if ch1 \<noteq> 0 \<or> target \<noteq> 0 \<and> m (target + ucast tarindex) \<noteq> 0 then -1
                   else sint tarindex))"

definition f_b64_pton :: "mem \<Rightarrow> addr \<Rightarrow> addr \<Rightarrow> u64 \<Rightarrow> (mem \<times> int) option" where
  "f_b64_pton m src target targsize =
     (case pton_loop m src target targsize 0 0 of
        None \<Rightarrow> None
      | Some (m1, None) \<Rightarrow> Some (m1, -1)
      | Some (m1, Some (ch, src1, state, tarindex)) \<Rightarrow>
          if ch = Pad64 then
            let ch1 = m1 src1; src2 = src1 + 1 in
            if state = 0 \<or> state = 1 then Some (m1, -1)
            else if state = 2 then
              (case skip_space m1 ch1 src2 of
                 None \<Rightarrow> None
               | Some (ch2, src3) \<Rightarrow>
                   if ch2 \<noteq> Pad64 then Some (m1, -1)
                   else pton_end m1 (m1 src3) (src3 + 1) target tarindex)
            else if state = 3 then pton_end m1 ch1 src2 target tarindex
            else Some (m1, sint tarindex)
          else if state \<noteq> 0 then Some (m1, -1)
          else Some (m1, sint tarindex))"

section \<open>Base64 on lists\<close>

text \<open>
  RFC 1521: three octets are a 24-bit number, which is four digits of six bits; a shorter last
  group is filled with zero bits on the right and its missing digits are padding.
\<close>

definition sextet :: "nat \<Rightarrow> byte" where
  "sextet n = Base64 ! (n mod 64)"

fun b64 :: "byte list \<Rightarrow> byte list" where
  "b64 [] = []"
| "b64 [x] = (let n = unat x * 2 ^ 16 in [sextet (n div 2 ^ 18), sextet (n div 2 ^ 12), Pad64, Pad64])"
| "b64 [x, y] =
     (let n = unat x * 2 ^ 16 + unat y * 2 ^ 8
      in [sextet (n div 2 ^ 18), sextet (n div 2 ^ 12), sextet (n div 2 ^ 6), Pad64])"
| "b64 (x # y # z # bs) =
     (let n = unat x * 2 ^ 16 + unat y * 2 ^ 8 + unat z
      in sextet (n div 2 ^ 18) # sextet (n div 2 ^ 12) # sextet (n div 2 ^ 6) # sextet n # b64 bs)"

lemma length_b64: "length (b64 bs) = 4 * ((length bs + 2) div 3)"
proof (induction bs rule: b64.induct)
  case (4 x y z bs)
  have "(length (x # y # z # bs) + 2) div 3 = (length bs + 2) div 3 + 1"
    using div_add_self2 [of 3 "length bs + 2"] by simp
  with 4 show ?case by (simp add: Let_def)
qed (simp_all add: Let_def)

section \<open>The encoder\<close>

lemma digits_arith:
  fixes x y z :: nat
  assumes "x < 256" "y < 256" "z < 256"
  defines "n \<equiv> x * 2 ^ 16 + y * 2 ^ 8 + z"
  shows "n div 2 ^ 18 mod 64 = x div 4" "n div 2 ^ 12 mod 64 = x mod 4 * 16 + y div 16"
    "n div 2 ^ 6 mod 64 = y mod 16 * 4 + z div 64" "n mod 64 = z mod 64"
proof -
  obtain a b where x: "x = 4 * a + b" "b < 4" "a < 64"
    using assms(1) by (intro that [of "x div 4" "x mod 4"]) auto
  obtain c d where y: "y = 16 * c + d" "d < 16" "c < 16"
    using assms(2) by (intro that [of "y div 16" "y mod 16"]) auto
  obtain e g where z: "z = 64 * e + g" "g < 64" "e < 4"
    using assms(3) by (intro that [of "z div 64" "z mod 64"]) auto
  define p q where "p = b * 16 + c" and "q = d * 4 + e"
  have pq: "p < 64" "q < 64" using x y z by (simp_all add: p_def q_def)
  have n0: "n = ((a * 64 + p) * 64 + q) * 64 + g" by (simp add: n_def p_def q_def x y z)
  have step: "(k * 64 + r) mod 64 = r" "(k * 64 + r) div 64 = k" if "r < 64" for k r :: nat
    using that by simp_all
  have "n mod 64 = g" and n1: "n div 64 = (a * 64 + p) * 64 + q"
    unfolding n0 by (rule step [OF z(2)])+
  moreover have n2: "n div 64 div 64 = a * 64 + p" and "n div 64 mod 64 = q"
    unfolding n1 by (rule step [OF pq(2)])+
  moreover have "n div 64 div 64 div 64 = a" "n div 64 div 64 mod 64 = p"
    unfolding n2 by (rule step [OF pq(1)])+
  ultimately show "n div 2 ^ 18 mod 64 = x div 4" "n div 2 ^ 12 mod 64 = x mod 4 * 16 + y div 16"
    "n div 2 ^ 6 mod 64 = y mod 16 * 4 + z div 64" "n mod 64 = z mod 64"
    using x y z by (simp_all add: p_def q_def div_mult2_eq [of n 64 64, simplified]
        div_mult2_eq [of n 4096 64, simplified])
qed

lemma ntop_output_digits:
  fixes x y z :: byte
  defines "n \<equiv> unat x * 2 ^ 16 + unat y * 2 ^ 8 + unat z"
  shows "map b64_char (ntop_output x y z) =
    [sextet (n div 2 ^ 18), sextet (n div 2 ^ 12), sextet (n div 2 ^ 6), sextet n]"
proof -
  have mask: "unat (w AND 3) = unat w mod 4" "unat (w AND 15) = unat w mod 16"
    "unat (w AND 63) = unat w mod 64" for w :: byte
    using unat_take_bit [of 2 w] unat_take_bit [of 4 w] unat_take_bit [of 6 w]
    by (simp_all add: take_bit_eq_mask mask_eq_exp_minus_1)
  have push: "unat (push_bit k w) = unat w * 2 ^ k mod 256" for k and w :: byte
    using unsigned_push_bit_eq [of k w, where 'a = nat] by (simp add: push_bit_eq_mult take_bit_eq_mod)
  have "unat x < 256" "unat y < 256" "unat z < 256" by (rule unat_lt_256)+
  note d = digits_arith [OF this, folded n_def]
  have "unat (push_bit 4 (x AND 3)) = unat x mod 4 * 16" "unat (push_bit 2 (y AND 15)) = unat y mod 16 * 4"
    by (simp_all only: push mask) simp_all
  then have "unat (push_bit 4 (x AND 3) + drop_bit 4 y) = unat x mod 4 * 16 + unat y div 16"
    "unat (push_bit 2 (y AND 15) + drop_bit 6 z) = unat y mod 16 * 4 + unat z div 64"
    using unat_lt_256 [of y] unat_lt_256 [of z] by (simp_all add: unat_word_ariths unat_drop_bit)
  then show ?thesis
    using d by (simp add: ntop_output_def b64_char_def sextet_def mask unat_drop_bit)
qed

text \<open>Memory that agrees outside a target area, and appending to such an area.\<close>

definition only_in :: "addr \<Rightarrow> nat \<Rightarrow> mem \<Rightarrow> mem \<Rightarrow> bool" where
  "only_in a n m m' \<longleftrightarrow> (\<forall>x. \<not> in_range x a n \<longrightarrow> m' x = m x)"

definition apart :: "addr \<Rightarrow> nat \<Rightarrow> addr \<Rightarrow> nat \<Rightarrow> bool" where
  "apart p k a n \<longleftrightarrow> (\<forall>i<k. \<not> in_range (p + of_nat i) a n)"

lemma only_in_refl [simp]: "only_in a n m m"
  by (simp add: only_in_def)

lemma only_in_trans: "only_in a n m m1 \<Longrightarrow> only_in a n m1 m2 \<Longrightarrow> only_in a n m m2"
  by (simp add: only_in_def)

lemma only_in_store:
  assumes "unat d + length bs \<le> n" "n < 2 ^ 64"
  shows "only_in a n m (store_bytes m (a + d) bs)"
  unfolding only_in_def
proof (intro allI impI)
  fix x assume x: "\<not> in_range x a n"
  then have "d \<le> x - a" using assms unfolding in_range_def word_le_nat_alt by linarith
  then have "unat (x - (a + d)) = unat (x - a) - unat d" by (metis diff_diff_eq unat_sub)
  then have "\<not> in_range x (a + d) (length bs)" using x assms by (simp add: in_range_def)
  then show "store_bytes m (a + d) bs x = m x" by (rule store_bytes_outside)
qed

lemma apart_load: "apart p k a n \<Longrightarrow> only_in a n m m' \<Longrightarrow> load_bytes m' p k = load_bytes m p k"
  by (rule load_bytes_cong) (simp add: apart_def only_in_def)

lemma apart_later:
  assumes "apart p k a n" "j \<le> k"
  shows "apart (p + of_nat j) (k - j) a n"
  unfolding apart_def
proof (intro allI impI)
  fix i assume "i < k - j"
  with assms have "\<not> in_range (p + of_nat (j + i)) a n" by (simp add: apart_def del: of_nat_add)
  then show "\<not> in_range (p + of_nat j + of_nat i) a n" by (simp add: add.assoc)
qed

lemma load_appended:
  assumes "unat d + length bs < 2 ^ 64"
  shows "load_bytes (store_bytes m (a + d) bs) a (unat d + length bs) = load_bytes m a (unat d) @ bs"
proof -
  have "\<not> in_range (a + of_nat i) (a + d) (length bs)" if "i < unat d" for i
  proof -
    have "unat (a + of_nat i - (a + d)) = i + 2 ^ 64 - unat d"
      using that unat_lt_u64 [of d] by (simp add: unat_sub_if' unat_of_nat_u64)
    with assms show ?thesis by (simp add: in_range_def)
  qed
  then have "load_bytes (store_bytes m (a + d) bs) a (unat d) = load_bytes m a (unat d)"
    by (intro load_bytes_cong) (simp add: store_bytes_outside)
  moreover have "load_bytes (store_bytes m (a + d) bs) (a + of_nat (unat d)) (length bs) = bs"
    using load_store_bytes_same [of bs m "a + d"] assms by simp
  ultimately show ?thesis by (simp only: load_bytes_add)
qed

text \<open>The loop and the padding together append the base64 form of the rest of the source.\<close>

definition ntop_rest :: "mem \<Rightarrow> addr \<Rightarrow> u64 \<Rightarrow> addr \<Rightarrow> u64 \<Rightarrow> u64 \<Rightarrow> mem \<times> u64 option" where
  "ntop_rest m src n target z d =
     (case ntop_loop m src n target z d of
        (m1, None) \<Rightarrow> (m1, None)
      | (m1, Some (src1, n1, d1)) \<Rightarrow> ntop_tail m1 src1 n1 target z d1)"

definition appended :: "mem \<Rightarrow> addr \<Rightarrow> u64 \<Rightarrow> u64 \<Rightarrow> byte list \<Rightarrow> mem \<times> u64 option \<Rightarrow> bool" where
  "appended m target z d cs r \<longleftrightarrow>
     only_in target (unat z) m (fst r) \<and>
     (if unat d + length cs \<le> unat z
      then snd r = Some (d + of_nat (length cs)) \<and>
        load_bytes (fst r) target (unat d + length cs) = load_bytes m target (unat d) @ cs
      else snd r = None)"

lemma appended_store:
  assumes "unat z + 4 < 2 ^ 64" "unat d \<le> unat z" "length cs = 4"
  shows "appended m target z d cs
    (if z < d + 4 then (m, None) else (store_bytes m (target + d) cs, Some (d + 4)))"
proof -
  have "unat (d + 4) = unat d + 4" using assms by (simp add: unat_word_ariths)
  then have "z < d + 4 \<longleftrightarrow> \<not> unat d + 4 \<le> unat z" by (simp add: word_less_nat_alt not_le)
  then show ?thesis
    using assms only_in_store [of d cs "unat z" target m] load_appended [of d cs m target]
    by (simp add: appended_def)
qed


lemma appended_more:
  assumes "appended m target z d cs (m1, Some d1)" "appended m1 target z d1 cs' r"
    "unat d + length cs \<le> unat z" "unat z < 2 ^ 64"
  shows "appended m target z d (cs @ cs') r"
proof -
  have d1: "d1 = d + of_nat (length cs)" using assms(1,3) by (simp add: appended_def)
  then have "unat d1 = unat d + length cs"
    using assms(3,4) by (simp add: unat_word_ariths unat_of_nat take_bit_nat_eq_self)
  with d1 assms show ?thesis
    by (auto simp: appended_def add.assoc split: if_splits elim: only_in_trans)
qed

lemma ntop_rest_step:
  assumes "2 < n"
  shows "ntop_rest m src n target z d =
    (if z < d + 4 then (m, None)
     else ntop_rest (store_bytes m (target + d)
         (map b64_char (ntop_output (m src) (m (src + 1)) (m (src + 2)))))
       (src + 3) (n - 3) target z (d + 4))"
  using assms by (simp add: ntop_rest_def ntop_loop.simps [of m src n] Let_def)

lemma ntop_rest_last:
  assumes "\<not> 2 < n"
  shows "ntop_rest m src n target z d = ntop_tail m src n target z d"
  using assms by (simp add: ntop_rest_def ntop_loop.simps [of m src n])

lemma ntop_rest_appends:
  assumes "load_bytes m src (unat n) = bs" "apart src (unat n) target (unat z)"
    "unat z + 4 < 2 ^ 64" "unat d \<le> unat z"
  shows "appended m target z d (b64 bs) (ntop_rest m src n target z d)"
  using assms
proof (induction bs arbitrary: m src n d rule: b64.induct)
  case 1
  then have "n = 0" by (metis length_load_bytes list.size(3) unat_eq_zero)
  with 1(4) show ?case by (simp add: ntop_rest_last ntop_tail_def appended_def)
next
  case (2 x)
  then have "unat n = 1" by (metis length_load_bytes length_Cons list.size(3) One_nat_def)
  then have n: "n = 1" by (simp add: word_unat_eq_iff)
  with 2(1) have "m src = x" by (simp add: load_bytes_Suc)
  moreover note out = ntop_output_digits [of x 0 0]
  ultimately show ?case
    using appended_store [OF 2(3,4), of "b64 [x]" m target] n
    by (simp add: ntop_rest_last ntop_tail_def Let_def ntop_output_def cong: if_cong split: if_splits)
next
  case (3 x y)
  then have len: "unat n = Suc (Suc 0)" by (metis length_load_bytes length_Cons list.size(3))
  then have n: "n = 2" by (simp add: word_unat_eq_iff)
  from 3(1) have "m src = x" "m (src + 1) = y" by (simp_all add: len load_bytes_Suc)
  moreover note out = ntop_output_digits [of x y 0]
  ultimately show ?case
    using appended_store [OF 3(3,4), of "b64 [x, y]" m target] n
    by (simp add: ntop_rest_last ntop_tail_def Let_def ntop_output_def cong: if_cong split: if_splits)
next
  case (4 x y z' bs)
  have len: "unat n = length bs + 3" by (metis 4(2) length_load_bytes length_Cons add_Suc_right add_0_right numeral_3_eq_3)
  have n: "2 < n" "unat (n - 3) = length bs"
    using len unat_lt_u64 [of n] by (simp_all add: word_less_nat_alt unat_sub word_le_nat_alt)
  have src: "m src = x" "m (src + 1) = y" "m (src + 2) = z'" "load_bytes m (src + 3) (length bs) = bs"
    using 4(2) by (simp_all add: len load_bytes_Suc numeral_3_eq_3 algebra_simps)
  let ?cs = "map b64_char (ntop_output x y z')"
  let ?m = "store_bytes m (target + d) ?cs"
  have cs: "b64 (x # y # z' # bs) = ?cs @ b64 bs" by (simp add: ntop_output_digits Let_def)
  have "length ?cs = 4" by (simp add: ntop_output_def)
  note one = appended_store [OF 4(4,5) this, of m target]
  have d4: "unat (d + 4) = unat d + 4" using 4(4,5) by (simp add: unat_word_ariths)
  show ?case
  proof (cases "z < d + 4")
    case True
    then have "ntop_rest m src n target z d = (m, None)" by (simp add: ntop_rest_step [OF n(1)])
    moreover have "\<not> unat d + length (?cs @ b64 bs) \<le> unat z"
      using True d4 by (simp add: ntop_output_def word_less_nat_alt)
    ultimately show ?thesis unfolding cs by (simp add: appended_def del: length_append)
  next
    case False
    then have fits: "unat d + 4 \<le> unat z" by (simp add: word_less_nat_alt d4)
    have "only_in target (unat z) m ?m" using one False by (simp add: appended_def)
    moreover have "apart (src + 3) (unat (n - 3)) target (unat z)"
      using apart_later [OF 4(3), of 3] len n by simp
    ultimately have "appended ?m target z (d + 4) (b64 bs) (ntop_rest ?m (src + 3) (n - 3) target z (d + 4))"
      using src(4) n(2) fits d4 4(4) by (intro 4(1)) (simp_all add: apart_load)
    moreover have "ntop_rest m src n target z d = ntop_rest ?m (src + 3) (n - 3) target z (d + 4)"
      using False by (simp add: ntop_rest_step [OF n(1)] src)
    moreover have "appended m target z d ?cs (?m, Some (d + 4))" using one False by simp
    ultimately show ?thesis
      using appended_more [of m target z d ?cs ?m "d + 4" "b64 bs"] fits 4(4) \<open>length ?cs = 4\<close>
      unfolding cs by simp
  qed
qed


lemma f_b64_ntop_rest:
  "f_b64_ntop m src n target z =
    (case ntop_rest m src n target z 0 of
       (m1, None) \<Rightarrow> (m1, -1)
     | (m1, Some d) \<Rightarrow>
         if z \<le> d then (m1, -1) else (store8 m1 (target + d) 0, sint (ucast d :: u32)))"
  by (simp add: f_b64_ntop_def ntop_rest_def split: prod.splits option.splits)


section \<open>The decoder on lists\<close>

text \<open>
  Characters read so far as a state, the finished bytes and the byte being assembled; the
  state is advanced by one digit, by the whole string, and examined at the end.
\<close>

type_synonym lstate = "u32 \<times> byte list \<times> byte"

fun l_digit :: "nat \<Rightarrow> lstate \<Rightarrow> byte \<Rightarrow> lstate option" where
  "l_digit z (st, out, part) v =
     (if st = 0 then if z \<le> length out then None else Some (1, out, push_bit 2 v)
      else if st = 1 then
        if z \<le> length out + 1 then None
        else Some (2, out @ [part OR drop_bit 4 v], push_bit 4 (v AND 0x0F))
      else if st = 2 then
        if z \<le> length out + 1 then None
        else Some (3, out @ [part OR drop_bit 2 v], push_bit 6 (v AND 0x03))
      else if z \<le> length out then None else Some (0, out @ [part OR v], 0))"

fun l_loop :: "nat \<Rightarrow> lstate \<Rightarrow> byte list \<Rightarrow> (lstate \<times> bool \<times> byte list) option" where
  "l_loop z s [] = Some (s, False, [])"
| "l_loop z s (c # cs) =
     (if isspace c then l_loop z s cs
      else if c = Pad64 then Some (s, True, cs)
      else case strchr Base64 c of
             None \<Rightarrow> None
           | Some v \<Rightarrow> (case l_digit z s v of None \<Rightarrow> None | Some s' \<Rightarrow> l_loop z s' cs))"

fun l_finish :: "lstate \<times> bool \<times> byte list \<Rightarrow> byte list option" where
  "l_finish ((st, out, part), pad, cs) =
     (if pad then
        if st = 0 \<or> st = 1 then None
        else if st = 2 then
          (case dropWhile isspace cs of
             [] \<Rightarrow> None
           | c # r \<Rightarrow> if c = Pad64 \<and> list_all isspace r \<and> part = 0 then Some out else None)
        else if list_all isspace cs \<and> part = 0 then Some out else None
      else if st = 0 then Some out else None)"

definition l_pton :: "nat \<Rightarrow> lstate \<Rightarrow> byte list \<Rightarrow> byte list option" where
  "l_pton z s cs = (case l_loop z s cs of None \<Rightarrow> None | Some r \<Rightarrow> l_finish r)"

lemma Pad64_not_space [simp]: "\<not> isspace Pad64"
  by (simp add: Pad64_def isspace_def word_le_nat_alt)

lemma list_all_space_filter: "list_all isspace cs \<longleftrightarrow> filter (\<lambda>c. \<not> isspace c) cs = []"
  by (simp add: filter_empty_conv list_all_iff)

lemma l_finish_filter: "l_finish (s, pad, filter (\<lambda>c. \<not> isspace c) cs) = l_finish (s, pad, cs)"
proof -
  let ?f = "filter (\<lambda>c. \<not> isspace c)"
  have "dropWhile isspace (?f cs) = ?f cs" by (induction cs) auto
  moreover have "?f cs = ?f (dropWhile isspace cs)" by (induction cs) auto
  moreover have "\<not> isspace (hd (dropWhile isspace cs))" if "dropWhile isspace cs \<noteq> []"
    using that by (rule hd_dropWhile)
  ultimately show ?thesis
    by (cases s; cases "dropWhile isspace cs")
      (auto simp: list_all_space_filter [of "?f cs"] list_all_space_filter [of cs]
        list_all_space_filter [of "?f (tl (dropWhile isspace cs))"] list_all_iff
        filter_empty_conv simp del: dropWhile_eq_Nil_conv)
qed

text \<open>White space anywhere makes no difference.\<close>

lemma l_pton_filter: "l_pton z s (filter (\<lambda>c. \<not> isspace c) cs) = l_pton z s cs"
proof (induction cs arbitrary: s)
  case (Cons c cs)
  show ?case
  proof (cases "isspace c")
    case True
    with Cons show ?thesis by (simp add: l_pton_def)
  next
    case False
    with Cons show ?thesis
      using l_finish_filter [of s True cs]
      by (auto simp: l_pton_def split: option.splits)
  qed
qed (simp add: l_pton_def)


section \<open>Base64 as a codec\<close>

text \<open>An encoding and a decoding that is exactly its inverse.\<close>

locale codec =
  fixes enc :: "'a \<Rightarrow> 'b" and dec :: "'b \<Rightarrow> 'a option"
  assumes dec_enc: "dec (enc x) = Some x"
    and enc_dec: "dec y = Some x \<Longrightarrow> enc x = y"
begin

lemma dec_iff: "dec y = Some x \<longleftrightarrow> y = enc x"
  using dec_enc enc_dec by auto

lemma enc_inj: "enc x = enc y \<longleftrightarrow> x = y"
  using dec_enc by (metis option.inject)

lemma dec_None: "dec y = None \<longleftrightarrow> y \<notin> range enc"
  using dec_iff by (metis (no_types, lifting) image_iff not_None_eq rangeE rangeI)

end

abbreviation digit :: "byte \<Rightarrow> byte option" where
  "digit \<equiv> strchr Base64"

definition octets :: "byte \<Rightarrow> byte \<Rightarrow> byte \<Rightarrow> byte \<Rightarrow> byte list" where
  "octets a b c d =
     [push_bit 2 a OR drop_bit 4 b, push_bit 4 (b AND 0x0F) OR drop_bit 2 c, push_bit 6 (c AND 0x03) OR d]"

fun b64_decode :: "byte list \<Rightarrow> byte list option" where
  "b64_decode [] = Some []"
| "b64_decode (a # b # c # d # r) =
     (case (digit a, digit b, digit c, digit d) of
        (Some v0, Some v1, Some v2, Some v3) \<Rightarrow> map_option ((@) (octets v0 v1 v2 v3)) (b64_decode r)
      | (Some v0, Some v1, Some v2, None) \<Rightarrow>
          if d = Pad64 \<and> r = [] \<and> push_bit 6 (v2 AND 0x03) = 0 then Some (take 2 (octets v0 v1 v2 0)) else None
      | (Some v0, Some v1, None, None) \<Rightarrow>
          if c = Pad64 \<and> d = Pad64 \<and> r = [] \<and> push_bit 4 (v1 AND 0x0F) = 0
          then Some (take 1 (octets v0 v1 0 0)) else None
      | _ \<Rightarrow> None)"
| "b64_decode _ = None"

lemma digit_Base64: "i < 64 \<Longrightarrow> digit (Base64 ! i) = Some (of_nat i)"
proof -
  have "\<forall>i\<in>set [0..<64]. digit (Base64 ! i) = Some (of_nat i)" by code_simp
  then show "i < 64 \<Longrightarrow> digit (Base64 ! i) = Some (of_nat i)" by simp
qed

lemma digit_Pad64 [simp]: "digit Pad64 = None"
  by code_simp

lemma strchr_Some: "strchr xs c = Some v \<Longrightarrow> length xs < 256 \<Longrightarrow> unat v < length xs \<and> xs ! unat v = c"
proof (induction xs arbitrary: v)
  case (Cons x xs)
  show ?case
  proof (cases "x = c")
    case False
    then obtain w where w: "strchr xs c = Some w" "v = w + 1" using Cons.prems by auto
    with Cons have "unat w < length xs" "xs ! unat w = c" by auto
    moreover have "unat v = Suc (unat w)"
      using w \<open>unat w < length xs\<close> Cons.prems(2) by (simp add: unat_word_ariths)
    ultimately show ?thesis by simp
  qed (use Cons.prems in auto)
qed simp

lemma digit_Some: "digit c = Some v \<Longrightarrow> unat v < 64 \<and> c = b64_char v"
  using strchr_Some [of Base64 c v] by (simp add: b64_char_def Base64_def)

lemma digit_b64_char: "unat v < 64 \<Longrightarrow> digit (b64_char v) = Some v"
  using digit_Base64 [of "unat v"] by (simp add: b64_char_def)


text \<open>Groups of bits: four digits and three octets are two views of the same 24 bits.\<close>

lemma and_masks:
  "(w :: byte) AND 3 = take_bit 2 w" "w AND 15 = take_bit 4 w" "w AND 63 = take_bit 6 w"
  by (simp_all add: take_bit_eq_mask mask_eq_exp_minus_1)

lemma byte_eqI: "(\<And>n. n \<in> {0, 1, 2, 3, 4, 5, 6, 7} \<Longrightarrow> bit v n = bit (w :: byte) n) \<Longrightarrow> v = w"
proof (rule bit_word_eqI)
  fix n assume eq: "\<And>n. n \<in> {0, 1, 2, 3, 4, 5, 6, 7} \<Longrightarrow> bit v n = bit w n" and "n < LENGTH(8)"
  then have "n \<in> {0, 1, 2, 3, 4, 5, 6, 7}" unfolding insert_iff empty_iff by simp arith
  then show "bit v n = bit w n" by (rule eq)
qed

lemma no_high_bit: "8 \<le> n \<Longrightarrow> \<not> bit (v :: byte) n"
  using bit_imp_le_length [of v n] by auto

lemmas byte_bits = bit_simps no_high_bit numeral_2_eq_2 [symmetric] numeral_3_eq_3 [symmetric]

lemma high_bits: "unat (v :: byte) < 64 \<Longrightarrow> \<not> bit v 6 \<and> \<not> bit v 7"
proof -
  assume "unat v < 64"
  then have "take_bit 6 v = v" using small_iff_take_bit [of 6 v] by simp
  then have "bit v n = bit (take_bit 6 v) n" for n by simp
  from this [of 6] this [of 7] show ?thesis by (simp_all add: bit_take_bit_iff)
qed

lemma ntop_output_bits:
  "ntop_output x y z =
     [drop_bit 2 x, push_bit 4 (take_bit 2 x) OR drop_bit 4 y,
      push_bit 2 (take_bit 4 y) OR drop_bit 6 z, take_bit 6 z]"
proof -
  have "push_bit 4 (take_bit 2 x) AND drop_bit 4 y = 0" "push_bit 2 (take_bit 4 y) AND drop_bit 6 z = 0"
    by (rule byte_eqI; auto simp: byte_bits)+
  then show ?thesis by (simp only: ntop_output_def disjunctive_add_eq_or and_masks)
qed

lemma ntop_output_range: "v \<in> set (ntop_output x y z) \<Longrightarrow> unat v < 64"
proof -
  assume "v \<in> set (ntop_output x y z)"
  then have "take_bit 6 v = v" by (auto simp: ntop_output_bits intro!: byte_eqI simp: byte_bits)
  then show ?thesis using small_iff_take_bit [of 6 v] by simp
qed

lemma octets_ntop_output:
  "octets (drop_bit 2 x) (push_bit 4 (take_bit 2 x) OR drop_bit 4 y)
     (push_bit 2 (take_bit 4 y) OR drop_bit 6 z) (take_bit 6 z) = [x, y, z]"
  unfolding octets_def and_masks
  by (simp, intro conjI; rule byte_eqI; auto simp: byte_bits)

lemma ntop_output_octets:
  assumes "unat a < 64" "unat b < 64" "unat c < 64" "unat d < 64"
  shows "ntop_output (octets a b c d ! 0) (octets a b c d ! 1) (octets a b c d ! 2) = [a, b, c, d]"
  using assms [THEN high_bits]
  unfolding octets_def and_masks ntop_output_bits
  by (simp, intro conjI; intro byte_eqI; auto simp: byte_bits)


lemma b64_groups:
  "b64 [x] = map b64_char (take 2 (ntop_output x 0 0)) @ [Pad64, Pad64]"
  "b64 [x, y] = map b64_char (take 3 (ntop_output x y 0)) @ [Pad64]"
  "b64 (x # y # z # bs) = map b64_char (ntop_output x y z) @ b64 bs"
  by (simp_all add: take_map [symmetric] ntop_output_digits Let_def)

lemma b64_decode_b64: "b64_decode (b64 bs) = Some bs"
proof (induction bs rule: b64.induct)
  case (2 x)
  let ?v = "ntop_output x 0 0"
  have "digit (b64_char v) = Some v" if "v \<in> set ?v" for v
    using that digit_b64_char ntop_output_range by blast
  moreover have "push_bit 4 (push_bit 4 (take_bit 2 x) AND 15) = 0"
    unfolding and_masks by (rule byte_eqI) (auto simp: byte_bits)
  ultimately show ?case
    using octets_ntop_output [of x 0 0] unfolding b64_groups
    by (simp add: ntop_output_bits octets_def)
next
  case (3 x y)
  let ?v = "ntop_output x y 0"
  have "digit (b64_char v) = Some v" if "v \<in> set ?v" for v
    using that digit_b64_char ntop_output_range by blast
  moreover have "push_bit 6 (push_bit 2 (take_bit 4 y) AND 3) = 0"
    unfolding and_masks by (rule byte_eqI) (auto simp: byte_bits)
  ultimately show ?case
    using octets_ntop_output [of x y 0] unfolding b64_groups
    by (simp add: ntop_output_bits octets_def)
next
  case (4 x y z bs)
  have "digit (b64_char v) = Some v" if "v \<in> set (ntop_output x y z)" for v
    using that digit_b64_char ntop_output_range by blast
  then show ?case
    using octets_ntop_output [of x y z] 4 unfolding b64_groups
    by (simp add: ntop_output_bits)
qed simp

lemma b64_b64_decode: "b64_decode cs = Some bs \<Longrightarrow> b64 bs = cs"
proof (induction cs arbitrary: bs rule: b64_decode.induct)
  case (2 a b c d r)
  from 2(2) obtain v0 v1 where ab: "digit a = Some v0" "digit b = Some v1"
    by (auto split: option.splits)
  note v = ab [THEN digit_Some]
  show ?case
  proof (cases "digit c")
    case None
    with 2(2) ab have "c = Pad64" "d = Pad64" "r = []" "push_bit 4 (v1 AND 15) = 0"
      "bs = take 1 (octets v0 v1 0 0)"
      by (auto split: option.splits if_splits)
    moreover have "octets v0 v1 0 0 = [push_bit 2 v0 OR drop_bit 4 v1, 0, 0]"
      using \<open>push_bit 4 (v1 AND 15) = 0\<close> by (simp add: octets_def)
    ultimately show ?thesis
      using ntop_output_octets [of v0 v1 0 0] v by (simp add: b64_groups del: b64.simps)
  next
    case c: (Some v2)
    note v2 = digit_Some [OF c]
    show ?thesis
    proof (cases "digit d")
      case None
      with 2(2) ab c have "d = Pad64" "r = []" "push_bit 6 (v2 AND 3) = 0"
        "bs = take 2 (octets v0 v1 v2 0)"
        by (auto split: option.splits if_splits)
      moreover have "octets v0 v1 v2 0 = [push_bit 2 v0 OR drop_bit 4 v1, push_bit 4 (v1 AND 15) OR drop_bit 2 v2, 0]"
        using \<open>push_bit 6 (v2 AND 3) = 0\<close> by (simp add: octets_def)
      ultimately show ?thesis
        using ntop_output_octets [of v0 v1 v2 0] v v2 by (simp add: b64_groups del: b64.simps)
    next
      case (Some v3)
      note v3 = digit_Some [OF Some]
      from 2(2) ab c Some obtain bs' where bs': "b64_decode r = Some bs'" "bs = octets v0 v1 v2 v3 @ bs'"
        by (auto split: option.splits)
      from 2(1) [OF _ _ _ _ _ _ _ this(1)] ab c Some have "b64 bs' = r" by auto
      then show ?thesis
        using bs' ntop_output_octets [of v0 v1 v2 v3] v v2 v3
        by (simp add: octets_def b64_groups del: b64.simps)
    qed
  qed
qed simp_all

interpretation b64_codec: codec b64 b64_decode
  by unfold_locales (simp_all add: b64_decode_b64 b64_b64_decode)


text \<open>
  The decoder needs a spare byte for a group that is not full: it clears the byte after the
  one it completes.
\<close>

definition room_for :: "nat \<Rightarrow> nat \<Rightarrow> bool" where
  "room_for z n \<longleftrightarrow> (if n mod 3 = 0 then n \<le> z else n < z)"

lemma l_pton_simps:
  "l_pton z s [] = l_finish (s, False, [])"
  "l_pton z s (c # cs) =
     (if isspace c then l_pton z s cs
      else if c = Pad64 then l_finish (s, True, cs)
      else case digit c of
             None \<Rightarrow> None
           | Some v \<Rightarrow> (case l_digit z s v of None \<Rightarrow> None | Some s' \<Rightarrow> l_pton z s' cs))"
  by (auto simp: l_pton_def split: option.splits)

lemma no_space_all: "\<forall>c\<in>set cs. \<not> isspace c \<Longrightarrow> list_all isspace cs \<longleftrightarrow> cs = []"
  "\<forall>c\<in>set cs. \<not> isspace c \<Longrightarrow> dropWhile isspace cs = cs"
  by (cases cs; simp)+

lemma l_pton_decode:
  assumes "\<forall>c\<in>set cs. \<not> isspace c" "length out mod 3 = 0" "length out \<le> z"
  shows "l_pton z (0, out, p) cs =
    (case b64_decode cs of
       None \<Rightarrow> None
     | Some bs \<Rightarrow> if room_for z (length out + length bs) then Some (out @ bs) else None)"
  using assms
proof (induction cs arbitrary: out p rule: b64_decode.induct)
  case 1
  then show ?case by (simp add: l_pton_simps room_for_def)
next
  case (2 a b c d r)
  have m3: "Suc (length out) mod 3 = 1" "Suc (Suc (length out)) mod 3 = 2"
    "length (out @ octets v0 v1 v2 v3) mod 3 = 0" for v0 v1 v2 v3
    using 2(3) by (simp_all add: mod_Suc octets_def)
  show ?case
  proof (cases "\<exists>v0 v1 v2 v3. digit a = Some v0 \<and> digit b = Some v1 \<and> digit c = Some v2 \<and> digit d = Some v3")
    case True
    then obtain v0 v1 v2 v3 where v: "digit a = Some v0" "digit b = Some v1" "digit c = Some v2" "digit d = Some v3"
      by blast
    then have np: "a \<noteq> Pad64" "b \<noteq> Pad64" "c \<noteq> Pad64" "d \<noteq> Pad64" by auto
    show ?thesis
    proof (cases "length out + 3 \<le> z")
      case True
      have "l_pton z (0, out @ octets v0 v1 v2 v3, 0) r =
        (case b64_decode r of None \<Rightarrow> None
         | Some bs \<Rightarrow> if room_for z (length (out @ octets v0 v1 v2 v3) + length bs)
             then Some ((out @ octets v0 v1 v2 v3) @ bs) else None)"
        using 2(1) [OF refl v(1) refl v(2) refl v(3) v(4), of "out @ octets v0 v1 v2 v3" 0] 2(2-) m3(3) True
        by (simp add: octets_def)
      then show ?thesis
        using 2 v np True
        by (simp add: l_pton_simps octets_def add.assoc split: option.splits)
    next
      case False
      then show ?thesis
        using 2 v np
        by (auto simp: l_pton_simps room_for_def octets_def split: option.splits)
    qed
  next
    case False
    have sp: "\<not> isspace a" "\<not> isspace b" "\<not> isspace c" "\<not> isspace d" "\<forall>x\<in>set r. \<not> isspace x"
      using 2(2) by auto
    note defs = l_pton_simps no_space_all sp
    consider "digit a = None" | v0 where "digit a = Some v0" "digit b = None"
      | v0 v1 where "digit a = Some v0" "digit b = Some v1" "digit c = None"
      | v0 v1 v2 where "digit a = Some v0" "digit b = Some v1" "digit c = Some v2" "digit d = None"
      using False by (metis not_None_eq)
    then show ?thesis
    proof cases
      case 1
      then show ?thesis by (simp add: defs)
    next
      case 2
      then show ?thesis by (simp add: defs)
    next
      case 3
      then have "a \<noteq> Pad64" "b \<noteq> Pad64" by auto
      with 3 m3 2(4) show ?thesis
        by (cases "digit d") (auto simp: defs room_for_def octets_def)
    next
      case 4
      then have "a \<noteq> Pad64" "b \<noteq> Pad64" "c \<noteq> Pad64" by auto
      with 4 m3 2(4) show ?thesis by (auto simp: defs room_for_def octets_def)
    qed
  qed
qed (auto simp: l_pton_simps room_for_def no_space_all split: option.splits)


section \<open>The decoder in memory\<close>

primrec is_str :: "mem \<Rightarrow> addr \<Rightarrow> byte list \<Rightarrow> bool" where
  "is_str m p [] \<longleftrightarrow> m p = 0"
| "is_str m p (c # cs) \<longleftrightarrow> c \<noteq> 0 \<and> m p = c \<and> is_str m (p + 1) cs"

fun holds :: "mem \<Rightarrow> addr \<Rightarrow> lstate \<Rightarrow> bool" where
  "holds m target (st, out, part) \<longleftrightarrow>
     (if st = 0 then load_bytes m target (length out) = out
      else load_bytes m target (length out + 1) = out @ [part])"

lemma holds_out:
  assumes "holds m target (st, out, part)"
  shows "load_bytes m target (length out) = out"
    "st \<noteq> 0 \<Longrightarrow> m (target + of_nat (length out)) = part"
proof -
  show "load_bytes m target (length out) = out"
    using assms take_load_bytes [of "length out" "length out + 1" m target] by (simp split: if_splits)
  show "m (target + of_nat (length out)) = part" if "st \<noteq> 0"
    using assms that nth_load_bytes [of "length out" "length out + 1" m target]
    by (simp add: nth_append)
qed

lemma put_byte:
  assumes "load_bytes m target (length out) = out" "unat d = length out" "length out < n" "n < 2 ^ 64"
  shows "load_bytes (store8 m (target + d) x) target (length out + 1) = out @ [x]"
    "only_in target n m (store8 m (target + d) x)"
  using load_appended [of d "[x]" m target] only_in_store [of d "[x]" n target m] assms
  by (simp_all add: store8_def)

lemma pton_digit_ok:
  assumes h: "holds m target (st, out, part)" and ti: "unat ti = length out" and "target \<noteq> 0"
    and st: "st \<in> {0, 1, 2, 3}" and len: "length out + 1 < 2 ^ 32"
  shows "case l_digit (unat z) (st, out, part) v of
      None \<Rightarrow> pton_digit m target z st ti v = None
    | Some (st', out', part') \<Rightarrow>
        \<exists>m' ti'. pton_digit m target z st ti v = Some (m', st', ti') \<and>
          holds m' target (st', out', part') \<and> unat ti' = length out' \<and>
          only_in target (unat z) m m' \<and> st' \<in> {0, 1, 2, 3} \<and> length out' \<le> length out + 1"
proof -
  let ?d = "ucast ti :: u64" and ?e = "ucast (ti + 1) :: u64" and ?k = "length out"
  have ti1: "unat (ti + 1) = ?k + 1" using ti len by (simp add: unat_word_ariths)
  have d: "unat ?d = ?k" "unat ?e = ?k + 1" using ti ti1 by (simp_all add: ucast_u32_u64_unat)
  then have "?d = of_nat ?k" by (metis of_nat_unat ucast_id)
  with holds_out [OF h] have out: "load_bytes m target ?k = out" "st \<noteq> 0 \<Longrightarrow> m (target + ?d) = part" by simp_all
  have cmp: "z \<le> ?d \<longleftrightarrow> unat z \<le> ?k" "z \<le> ?e \<longleftrightarrow> unat z \<le> ?k + 1" by (simp_all add: word_le_nat_alt d)
  have one: "load_bytes (store8 m (target + ?d) x) target (?k + 1) = out @ [x]"
    "only_in target (unat z) m (store8 m (target + ?d) x)" if "?k < unat z" for x
    using put_byte [OF out(1) d(1) that unat_lt_u64] by simp_all
  have two: "load_bytes (store8 (store8 m (target + ?d) x) (target + ?e) y) target (?k + 2) = out @ [x, y]"
    "only_in target (unat z) m (store8 (store8 m (target + ?d) x) (target + ?e) y)"
    if "?k + 1 < unat z" for x y
  proof -
    have "?k < unat z" using that by simp
    note o = one [OF this, of x]
    have l: "load_bytes (store8 m (target + ?d) x) target (length (out @ [x])) = out @ [x]"
      using o(1) by simp
    note p = put_byte [OF l, of ?e "unat z" y] 
    show "load_bytes (store8 (store8 m (target + ?d) x) (target + ?e) y) target (?k + 2) = out @ [x, y]"
      using p(1) d(2) that unat_lt_u64 [of z] by simp
    show "only_in target (unat z) m (store8 (store8 m (target + ?d) x) (target + ?e) y)"
      using only_in_trans [OF o(2) p(2)] d(2) that unat_lt_u64 [of z] by simp
  qed
  consider "st = 0" | "st = 1" | "st = 2" | "st = 3" using st by blast
  then show ?thesis
    by cases (use assms(3) out(2) cmp one two ti ti1 in \<open>auto simp: pton_digit_def Let_def not_le\<close>)
qed


lemma apart_Suc: "apart p (Suc k) a n \<Longrightarrow> apart (p + 1) k a n"
  using apart_later [of p "Suc k" a n 1] by simp

lemma is_str_only_in:
  assumes "is_str m p cs" "apart p (length cs + 1) a n" "only_in a n m m'"
  shows "is_str m' p cs"
  using assms
proof (induction cs arbitrary: p)
  case Nil
  then have "\<not> in_range p a n" by (auto simp: apart_def)
  with Nil show ?case by (simp add: only_in_def)
next
  case (Cons c cs)
  have "\<not> in_range p a n" using Cons.prems(2) by (auto simp: apart_def dest: spec [of _ 0])
  moreover have "apart (p + 1) (length cs + 1) a n" using Cons.prems(2) by (intro apart_Suc) simp
  ultimately show ?case using Cons by (simp add: only_in_def)
qed

text \<open>The loop in memory does what the loop on lists does, and writes only to the target.\<close>

definition loop_agrees ::
  "mem \<Rightarrow> addr \<Rightarrow> u64 \<Rightarrow> nat \<Rightarrow> (lstate \<times> bool \<times> byte list) option \<Rightarrow>
   (mem \<times> (byte \<times> addr \<times> u32 \<times> u32) option) option \<Rightarrow> bool" where
  "loop_agrees m target z k lr r \<longleftrightarrow>
     (\<exists>m'. only_in target (unat z) m m' \<and>
        (case lr of
           None \<Rightarrow> r = Some (m', None)
         | Some ((st, out, part), pad, cs) \<Rightarrow>
             \<exists>src' ti'. r = Some (m', Some (if pad then Pad64 else 0, src', st, ti')) \<and>
               holds m' target (st, out, part) \<and> unat ti' = length out \<and> st \<in> {0, 1, 2, 3} \<and>
               length out \<le> k \<and> (pad \<longrightarrow> is_str m' src' cs)))"

lemma loop_agrees_trans:
  assumes "only_in target (unat z) m m1" "loop_agrees m1 target z k' lr r" "k' \<le> k"
  shows "loop_agrees m target z k lr r"
proof (cases lr)
  case None
  with assms show ?thesis unfolding loop_agrees_def by (auto intro: only_in_trans)
next
  case (Some q)
  obtain st out part pad cs where q: "q = ((st, out, part), pad, cs)" by (metis surj_pair)
  with assms(2) Some obtain m' src' ti' where "only_in target (unat z) m1 m'"
    "r = Some (m', Some (if pad then Pad64 else 0, src', st, ti'))" "holds m' target (st, out, part)"
    "unat ti' = length out" "st \<in> {0, 1, 2, 3}" "length out \<le> k'" "pad \<longrightarrow> is_str m' src' cs"
    unfolding loop_agrees_def by (auto simp del: holds.simps)
  with assms(1,3) Some q show ?thesis
    unfolding loop_agrees_def
    by (intro exI [of _ m']) (auto simp del: holds.simps elim: only_in_trans)
qed

lemma pton_loop_ok:
  assumes "is_str m src cs" "apart src (length cs + 1) target (unat z)" "target \<noteq> 0"
    "holds m target (st, out, part)" "unat ti = length out" "st \<in> {0, 1, 2, 3}"
    "length out + length cs + 1 < 2 ^ 32"
  shows "loop_agrees m target z (length out + length cs) (l_loop (unat z) (st, out, part) cs)
    (pton_loop m src target z st ti)"
  using assms
proof (induction cs arbitrary: m src st out part ti)
  case Nil
  then show ?case by (auto simp: pton_loop.simps [of m src] loop_agrees_def intro: exI [of _ m])
next
  case (Cons c cs)
  have c: "m src = c" "c \<noteq> 0" "is_str m (src + 1) cs" using Cons.prems(1) by auto
  have ap: "apart (src + 1) (length cs + 1) target (unat z)"
    using Cons.prems(2) by (intro apart_Suc) simp
  note unfold = pton_loop.simps [of m src target z st ti] Let_def c(1,2)
  note len = Cons.prems(7)
  consider "isspace c" | "\<not> isspace c" "c = Pad64" | "\<not> isspace c" "c \<noteq> Pad64" "digit c = None"
    | v where "\<not> isspace c" "c \<noteq> Pad64" "digit c = Some v" by fastforce
  then show ?case
  proof cases
    case 1
    have "loop_agrees m target z (length out + length cs) (l_loop (unat z) (st, out, part) cs)
        (pton_loop m (src + 1) target z st ti)"
      using Cons.prems(3-) by (intro Cons.IH [OF c(3) ap]) simp_all
    then have "loop_agrees m target z (length out + length (c # cs)) (l_loop (unat z) (st, out, part) cs)
        (pton_loop m (src + 1) target z st ti)"
      by (rule loop_agrees_trans [OF only_in_refl]) simp
    with 1 show ?thesis by (simp add: unfold)
  next
    case 2
    with Cons.prems c show ?thesis
      by (auto simp: unfold loop_agrees_def intro: exI [of _ m])
  next
    case 3
    then show ?thesis by (auto simp: unfold loop_agrees_def intro: exI [of _ m])
  next
    case 4
    have "length out + 1 < 2 ^ 32" using len by simp
    note dig = pton_digit_ok [OF Cons.prems(4,5,3,6) this, of z v]
    show ?thesis
    proof (cases "l_digit (unat z) (st, out, part) v")
      case None
      with dig 4 show ?thesis by (auto simp: unfold loop_agrees_def simp del: l_digit.simps intro: exI [of _ m])
    next
      case (Some s')
      obtain st' out' part' where s': "s' = (st', out', part')" by (cases s')
      with dig Some obtain m' ti' where m': "pton_digit m target z st ti v = Some (m', st', ti')"
        "holds m' target (st', out', part')" "unat ti' = length out'" "only_in target (unat z) m m'"
        "st' \<in> {0, 1, 2, 3}" "length out' \<le> length out + 1"
        by (auto simp del: l_digit.simps holds.simps)
      have "loop_agrees m' target z (length out' + length cs) (l_loop (unat z) (st', out', part') cs)
          (pton_loop m' (src + 1) target z st' ti')"
        using len m' is_str_only_in [OF c(3) ap m'(4)] Cons.prems(3) ap
        by (intro Cons.IH) (simp_all del: holds.simps)
      then have "loop_agrees m target z (length out + length (c # cs)) (l_loop (unat z) (st', out', part') cs)
          (pton_loop m' (src + 1) target z st' ti')"
        by (rule loop_agrees_trans [OF m'(4)]) (use m'(6) in simp)
      with 4 Some s' m'(1) show ?thesis by (simp add: unfold del: l_digit.simps)
    qed
  qed
qed


lemma skip_space_ok:
  assumes "is_str m p cs"
  shows "\<exists>q. skip_space m (m p) (p + 1) = Some (m q, q + 1) \<and> is_str m q (dropWhile isspace cs)"
  using assms
proof (induction cs arbitrary: p)
  case Nil
  then show ?case by (auto simp: skip_space.simps [of m 0] intro: exI [of _ p])
next
  case (Cons c cs)
  show ?case
  proof (cases "isspace c")
    case True
    with Cons.prems Cons.IH [of "p + 1"] show ?thesis
      by (simp add: skip_space.simps [of m c] add.assoc)
  next
    case False
    with Cons.prems show ?thesis by (auto simp: skip_space.simps [of m c] intro: exI [of _ p])
  qed
qed

lemma pton_end_ok:
  assumes "is_str m p cs" "target \<noteq> 0"
  shows "pton_end m (m p) (p + 1) target ti =
    Some (m, if list_all isspace cs \<and> m (target + ucast ti) = 0 then sint ti else -1)"
proof -
  from skip_space_ok [OF assms(1)] obtain q where
    q: "skip_space m (m p) (p + 1) = Some (m q, q + 1)" "is_str m q (dropWhile isspace cs)" by blast
  have "m q = 0 \<longleftrightarrow> list_all isspace cs"
    using q(2) by (cases "dropWhile isspace cs") (auto simp: list_all_iff simp flip: dropWhile_eq_Nil_conv)
  with q(1) assms(2) show ?thesis by (simp add: pton_end_def)
qed

lemma sint_small:
  assumes "unat (w :: u32) < 2 ^ 31"
  shows "sint w = int (unat w)"
proof -
  have "take_bit 31 w = w" using assms small_iff_take_bit [of 31 w] by simp
  then have b: "bit w 31 = bit (take_bit 31 w) 31" and u: "uint w = take_bit 31 (uint w)"
    by (simp_all flip: unsigned_take_bit_eq)
  then have "\<not> bit (uint w) 31" by (simp add: bit_take_bit_iff bit_uint_iff)
  with u show ?thesis by (simp add: sint_uint signed_take_bit_eq_if_positive)
qed

lemma pton_after_loop:
  assumes loop: "pton_loop m src target z 0 0 = Some (m', Some (if pad then Pad64 else 0, p, st, ti))"
    and h: "holds m' target (st, out, part)" and ti: "unat ti = length out" and st: "st \<in> {0, 1, 2, 3}"
    and r: "pad \<longrightarrow> is_str m' p r" and len: "length out < 2 ^ 31" and "target \<noteq> 0"
  shows "f_b64_pton m src target z =
    Some (m', case l_finish ((st, out, part), pad, r) of None \<Rightarrow> -1 | Some bs \<Rightarrow> int (length bs))"
proof -
  have n: "sint ti = int (length out)" using sint_small [of ti] ti len by simp
  have "ucast ti = (of_nat (length out) :: u64)"
    using ti ucast_u32_u64_unat [of ti] by (metis of_nat_unat ucast_id)
  with holds_out(2) [OF h] have part: "st \<noteq> 0 \<Longrightarrow> m' (target + ucast ti) = part" by simp
  show ?thesis
  proof (cases pad)
    case False
    with loop st n show ?thesis by (auto simp: f_b64_pton_def Pad64_def)
  next
    case True
    with r have str: "is_str m' p r" by simp
    note fin = pton_end_ok [OF _ \<open>target \<noteq> 0\<close>]
    consider "st = 0 \<or> st = 1" | "st = 2" | "st = 3" using st by blast
    then show ?thesis
    proof cases
      case 1
      with True loop show ?thesis by (auto simp: f_b64_pton_def)
    next
      case 2
      from skip_space_ok [OF str] obtain q where
        q: "skip_space m' (m' p) (p + 1) = Some (m' q, q + 1)" "is_str m' q (dropWhile isspace r)" by blast
      show ?thesis
      proof (cases "dropWhile isspace r")
        case Nil
        with q True loop 2 show ?thesis
          by (simp add: f_b64_pton_def Pad64_def del: dropWhile_eq_Nil_conv)
      next
        case (Cons c r')
        with q(2) have "m' q = c" "is_str m' (q + 1) r'" by auto
        with q(1) True loop 2 Cons fin [OF \<open>is_str m' (q + 1) r'\<close>, of ti] part n show ?thesis
          by (simp add: f_b64_pton_def)
      qed
    next
      case 3
      with True loop fin [OF str, of ti] part n show ?thesis by (simp add: f_b64_pton_def)
    qed
  qed
qed

text \<open>The decoder, on a terminated string apart from the target, is the decoder on lists.\<close>

lemma f_b64_pton_list:
  assumes "is_str m src cs" "apart src (length cs + 1) target (unat z)" "target \<noteq> 0"
    "length cs + 1 < 2 ^ 31"
  shows "\<exists>m'. only_in target (unat z) m m' \<and>
    (case l_pton (unat z) (0, [], 0) cs of
       None \<Rightarrow> f_b64_pton m src target z = Some (m', -1)
     | Some bs \<Rightarrow> f_b64_pton m src target z = Some (m', int (length bs)) \<and>
         load_bytes m' target (length bs) = bs)"
proof -
  have "loop_agrees m target z (length cs) (l_loop (unat z) (0, [], 0) cs) (pton_loop m src target z 0 0)"
    using pton_loop_ok [OF assms(1-3), of 0 "[]" 0 0] assms(4) by simp
  then obtain m' where m': "only_in target (unat z) m m'"
    "case l_loop (unat z) (0, [], 0) cs of
       None \<Rightarrow> pton_loop m src target z 0 0 = Some (m', None)
     | Some ((st, out, part), pad, r) \<Rightarrow>
         \<exists>src' ti'. pton_loop m src target z 0 0 = Some (m', Some (if pad then Pad64 else 0, src', st, ti')) \<and>
           holds m' target (st, out, part) \<and> unat ti' = length out \<and> st \<in> {0, 1, 2, 3} \<and>
           length out \<le> length cs \<and> (pad \<longrightarrow> is_str m' src' r)"
    unfolding loop_agrees_def by blast
  show ?thesis
  proof (intro exI [of _ m'] conjI)
    show "only_in target (unat z) m m'" by fact
    show "case l_pton (unat z) (0, [], 0) cs of
       None \<Rightarrow> f_b64_pton m src target z = Some (m', -1)
     | Some bs \<Rightarrow> f_b64_pton m src target z = Some (m', int (length bs)) \<and>
         load_bytes m' target (length bs) = bs"
    proof (cases "l_loop (unat z) (0, [], 0) cs")
      case None
      with m'(2) show ?thesis by (simp add: l_pton_def f_b64_pton_def)
    next
      case (Some q)
      obtain st out part pad r where q: "q = ((st, out, part), pad, r)" by (metis surj_pair)
      with m'(2) Some obtain p ti where
        p: "pton_loop m src target z 0 0 = Some (m', Some (if pad then Pad64 else 0, p, st, ti))"
        "holds m' target (st, out, part)" "unat ti = length out" "st \<in> {0, 1, 2, 3}"
        "length out \<le> length cs" "pad \<longrightarrow> is_str m' p r"
        by (auto simp del: holds.simps)
      have "length out < 2 ^ 31" using p(5) assms(4) by simp
      note fin = pton_after_loop [OF p(1-4,6) this assms(3)]
      have "bs = out" if "l_finish ((st, out, part), pad, r) = Some bs" for bs
        using that by (auto split: if_splits list.splits)
      with fin holds_out(1) [OF p(2)] Some q show ?thesis
        by (auto simp: l_pton_def simp del: l_finish.simps split: option.splits)
    qed
  qed
qed

end
