(* ===== verification/Fbase64_Props.thy ===== *)
theory Fbase64_Props
  imports Fbase64
begin

unbundle bit_operations_syntax

text \<open>
  What the base64 functions promise: the encoder writes the RFC 1521 form of the source and
  its terminator, the decoder accepts exactly such forms with white space anywhere, neither
  writes outside its target, and decoding undoes encoding.
\<close>

lemma nonzero_b64: "c \<in> set (b64 bs) \<Longrightarrow> c \<noteq> 0 \<and> \<not> isspace c"
proof -
  have digits: "\<forall>c\<in>set Base64. c \<noteq> 0 \<and> \<not> isspace c" by code_simp
  have "length Base64 = 64" by (simp add: Base64_def)
  then have "sextet n \<in> set Base64" for n by (simp add: sextet_def)
  with digits have s: "sextet n \<noteq> 0 \<and> \<not> isspace (sextet n)" for n by blast
  have "Pad64 \<noteq> 0" by (simp add: Pad64_def)
  then show "c \<in> set (b64 bs) \<Longrightarrow> c \<noteq> 0 \<and> \<not> isspace c"
    using s by (induction bs rule: b64.induct) (auto simp: Let_def)
qed

lemma b64_no_space: "filter (\<lambda>c. \<not> isspace c) (b64 bs) = b64 bs"
  using nonzero_b64 by (simp add: filter_id_conv)

lemma is_str_load:
  assumes "load_bytes m p (length cs + 1) = cs @ [0]" "0 \<notin> set cs"
  shows "is_str m p cs"
  using assms by (induction cs arbitrary: p) (auto simp: load_bytes_Suc)

lemma ntop_ok:
  assumes "load_bytes m src (unat n) = bs" "apart src (unat n) target (unat z)"
    "unat z + 4 < 2 ^ 64" "length (b64 bs) < 2 ^ 31"
  obtains m' where "only_in target (unat z) m m'"
    "f_b64_ntop m src n target z = (m', if length (b64 bs) < unat z then int (length (b64 bs)) else -1)"
    "length (b64 bs) < unat z \<Longrightarrow> load_bytes m' target (length (b64 bs) + 1) = b64 bs @ [0]"
proof -
  let ?k = "length (b64 bs)" and ?d = "of_nat (length (b64 bs)) :: u64"
  obtain m1 r where m1: "ntop_rest m src n target z 0 = (m1, r)" by (metis surj_pair)
  with ntop_rest_appends [OF assms(1-3), of 0] have ap: "appended m target z 0 (b64 bs) (m1, r)" by simp
  have d: "unat ?d = ?k" using assms(4) by (intro unat_of_nat_u64) simp
  have "unat (ucast ?d :: u32) = ?k"
    using d assms(4) by (simp add: unsigned_ucast_eq take_bit_nat_eq_self)
  then have ret: "sint (ucast ?d :: u32) = int ?k"
    using sint_small [of "ucast ?d"] assms(4) by (metis)
  have le: "z \<le> ?d \<longleftrightarrow> \<not> ?k < unat z" using d by (simp add: word_le_nat_alt not_less)
  show thesis
  proof (cases "?k < unat z")
    case True
    then have r: "r = Some ?d" "load_bytes m1 target ?k = b64 bs" "only_in target (unat z) m m1"
      using ap by (simp_all add: appended_def)
    let ?m = "store8 m1 (target + ?d) 0"
    have "only_in target (unat z) m ?m" "load_bytes ?m target (?k + 1) = b64 bs @ [0]"
      using put_byte [OF _ d, of m1 target "unat z" 0] r True unat_lt_u64 [of z]
      by (auto intro: only_in_trans)
    moreover have "f_b64_ntop m src n target z = (?m, int ?k)"
      using m1 r le True ret by (simp add: f_b64_ntop_rest)
    ultimately show ?thesis using that True by simp
  next
    case False
    then have "f_b64_ntop m src n target z = (m1, -1)"
      using m1 ap le by (auto simp: f_b64_ntop_rest appended_def split: if_splits)
    with False that ap show ?thesis by (auto simp: appended_def)
  qed
qed

text \<open>
  C35: \<^verbatim>\<open>f_b64_ntop\<close> is base64. For a source area apart from the target, it returns the length
  of the encoding and leaves the encoding and a terminating zero at the start of the target
  when they fit; otherwise it returns \<^verbatim>\<open>-1\<close>. In both cases it writes to no byte outside the
  target.
\<close>
theorem ntop_encodes:
  assumes "load_bytes m src (unat n) = bs" "apart src (unat n) target (unat z)"
    and "unat z + 4 < 2 ^ 64" "length (b64 bs) < 2 ^ 31"
  shows "\<exists>m'. only_in target (unat z) m m' \<and>
    f_b64_ntop m src n target z = (m', if length (b64 bs) < unat z then int (length (b64 bs)) else -1) \<and>
    (length (b64 bs) < unat z \<longrightarrow> load_bytes m' target (length (b64 bs) + 1) = b64 bs @ [0])"
  using ntop_ok [OF assms] by metis

text \<open>The bytes 1 and 2 at address 16 for the encoder, a string with white space for the decoder.\<close>

definition sample_area :: mem where
  "sample_area = (\<lambda>a. if a = 16 then 1 else if a = 17 then 2
     else if a = 32 then 0x41 else if a = 33 then 0x51 else if a = 34 then 0x20
     else if a = 35 then 0x49 else if a = 36 then 0x3D else 0)"

lemma sample_source: "load_bytes sample_area 16 (unat (2 :: u64)) = [1, 2]"
proof -
  have "unat (2 :: u64) = Suc (Suc 0)" by simp
  then show ?thesis unfolding sample_area_def by (simp only: load_bytes_Suc load_bytes_0) simp
qed

lemma sample_b64: "b64 [1, 2] = [0x41, 0x51, 0x49, 0x3D]"
  by (simp add: sextet_def Base64_def Pad64_def)

lemma apartI:
  assumes "k \<le> unat (a - p)" "unat (a - p) + n \<le> 2 ^ 64"
  shows "apart p k a n"
  unfolding apart_def
proof (intro allI impI)
  fix i assume "i < k"
  have "p + of_nat i - a = of_nat i - (a - p)" by simp
  moreover have "unat (of_nat i - (a - p)) = i + 2 ^ 64 - unat (a - p)"
    using \<open>i < k\<close> assms unat_lt_u64 [of "a - p"]
    by (subst unat_sub_if') (simp add: unat_of_nat_u64 del: unat_sub)
  ultimately have "unat (p + of_nat i - a) = i + 2 ^ 64 - unat (a - p)" by (simp only:)
  then have "n \<le> unat (p + of_nat i - a)" using assms(2) by linarith
  then show "\<not> in_range (p + of_nat i) a n" by (simp add: in_range_def)
qed

lemma suc_numerals: "Suc (Suc 0) = 2" "Suc (Suc (Suc (Suc (Suc 0)))) = 5" "Suc (Suc (Suc (Suc (Suc (Suc 0))))) = 6"
  by simp_all

lemma sample_apart: "apart 16 2 100 8" "apart 32 6 100 3" "apart 100 5 200 3"
  by (rule apartI; simp)+

theorem ntop_encodes_witness:
  "\<exists>m'. only_in 100 8 sample_area m' \<and> f_b64_ntop sample_area 16 2 100 8 = (m', 4) \<and>
     load_bytes m' 100 5 = [0x41, 0x51, 0x49, 0x3D, 0]"
  using ntop_encodes [OF sample_source, of 100 8] sample_apart
  by (simp add: sample_b64 suc_numerals(2) del: b64.simps)

text \<open>
  C36: \<^verbatim>\<open>f_b64_pton\<close> is the exact inverse of base64. On every terminated string apart from the
  target it returns; if the string without its white space is the base64 form of some bytes
  for which the target has room, it returns their number and stores them at the start of the
  target, and in every other case (characters outside the alphabet, misplaced or missing
  padding, nonzero left-over bits, no room) it returns \<^verbatim>\<open>-1\<close>. Room means a spare byte when
  the last group is not full. It writes to no byte outside the target.
\<close>
theorem pton_decodes_exactly:
  assumes "is_str m src cs" "apart src (length cs + 1) target (unat z)" "target \<noteq> 0"
    and "length cs + 1 < 2 ^ 31"
  shows "\<exists>m' r. f_b64_pton m src target z = Some (m', r) \<and> only_in target (unat z) m m' \<and>
    (\<forall>bs. filter (\<lambda>c. \<not> isspace c) cs = b64 bs \<and> room_for (unat z) (length bs) \<longrightarrow>
       r = int (length bs) \<and> load_bytes m' target (length bs) = bs) \<and>
    ((\<nexists>bs. filter (\<lambda>c. \<not> isspace c) cs = b64 bs \<and> room_for (unat z) (length bs)) \<longrightarrow> r = -1)"
proof -
  let ?f = "filter (\<lambda>c. \<not> isspace c) cs"
  have "l_pton (unat z) (0, [], 0) cs = l_pton (unat z) (0, [], 0) ?f" by (simp only: l_pton_filter)
  also have "\<dots> = (case b64_decode ?f of None \<Rightarrow> None
      | Some bs \<Rightarrow> if room_for (unat z) (length bs) then Some bs else None)"
    using l_pton_decode [of ?f "[]" "unat z" 0] by (simp split: option.splits)
  finally have "l_pton (unat z) (0, [], 0) cs = Some bs \<longleftrightarrow>
      b64_decode ?f = Some bs \<and> room_for (unat z) (length bs)" for bs
    by (cases "b64_decode ?f") auto
  then have l: "l_pton (unat z) (0, [], 0) cs = Some bs \<longleftrightarrow> ?f = b64 bs \<and> room_for (unat z) (length bs)" for bs
    by (simp only: b64_codec.dec_iff)
  from f_b64_pton_list [OF assms] obtain m' where m': "only_in target (unat z) m m'"
    "case l_pton (unat z) (0, [], 0) cs of
       None \<Rightarrow> f_b64_pton m src target z = Some (m', -1)
     | Some bs \<Rightarrow> f_b64_pton m src target z = Some (m', int (length bs)) \<and>
         load_bytes m' target (length bs) = bs" by blast
  show ?thesis
  proof (cases "l_pton (unat z) (0, [], 0) cs")
    case None
    with m' l show ?thesis by force
  next
    case (Some bs)
    with l have "?f = b64 bs" "room_for (unat z) (length bs)" by auto
    with m' Some show ?thesis by (auto simp: b64_codec.enc_inj)
  qed
qed

theorem pton_decodes_exactly_witness:
  "\<exists>m'. f_b64_pton sample_area 32 100 3 = Some (m', 2) \<and> load_bytes m' 100 2 = [1, 2]"
proof -
  have s: "is_str sample_area 32 [0x41, 0x51, 0x20, 0x49, 0x3D]"
    by (simp add: sample_area_def)
  have f: "filter (\<lambda>c. \<not> isspace c) [0x41, 0x51, 0x20, 0x49, 0x3D] = b64 [1, 2]"
    by (simp add: sample_b64 isspace_def word_le_nat_alt del: b64.simps)
  have r: "room_for (unat (3 :: u64)) (length [1, 2 :: byte])" by (simp add: room_for_def)
  from pton_decodes_exactly [OF s, of 100 3] sample_apart(2) obtain m' r where
    "f_b64_pton sample_area 32 100 3 = Some (m', r)"
    "\<forall>bs. b64 [1, 2] = b64 bs \<and> room_for (unat (3 :: u64)) (length bs) \<longrightarrow>
       r = int (length bs) \<and> load_bytes m' 100 (length bs) = bs"
    unfolding f by (auto simp: suc_numerals(3) simp del: b64.simps)
  with r show ?thesis by (auto simp: suc_numerals(1) dest: spec [of _ "[1, 2]"])
qed

text \<open>
  Decoding undoes encoding. When the encoder succeeds, decoding its target into a third
  area apart from it that has room gives back the number of source bytes and the source
  bytes themselves.
\<close>
theorem base64_roundtrip:
  assumes "load_bytes m src (unat n) = bs" "apart src (unat n) target (unat z)"
    and "unat z + 4 < 2 ^ 64" "length (b64 bs) + 1 < 2 ^ 31" "length (b64 bs) < unat z"
    and "apart target (length (b64 bs) + 1) dest (unat y)" "dest \<noteq> 0" "room_for (unat y) (length bs)"
  shows "\<exists>m1 m2. f_b64_ntop m src n target z = (m1, int (length (b64 bs))) \<and>
    f_b64_pton m1 target dest y = Some (m2, int (length bs)) \<and> load_bytes m2 dest (length bs) = bs"
proof -
  have "length (b64 bs) < 2 ^ 31" using assms(4) by simp
  from ntop_ok [OF assms(1-3) this] obtain m1 where
    m1: "f_b64_ntop m src n target z = (m1, int (length (b64 bs)))"
    "load_bytes m1 target (length (b64 bs) + 1) = b64 bs @ [0]" using assms(5) by metis
  have str: "is_str m1 target (b64 bs)" by (rule is_str_load [OF m1(2)]) (use nonzero_b64 in blast)
  have "l_pton (unat y) (0, [], 0) (b64 bs) = Some bs"
    using l_pton_decode [of "b64 bs" "[]" "unat y" 0] nonzero_b64 assms(8)
    by (simp add: b64_decode_b64)
  with f_b64_pton_list [OF str assms(6,7,4)] m1(1) show ?thesis by auto
qed

theorem base64_roundtrip_witness:
  "\<exists>m1 m2. f_b64_ntop sample_area 16 2 100 8 = (m1, 4) \<and>
     f_b64_pton m1 100 200 3 = Some (m2, 2) \<and> load_bytes m2 200 2 = [1, 2]"
  using base64_roundtrip [OF sample_source, of 100 8 200 3] sample_apart
  by (simp add: sample_b64 room_for_def suc_numerals(1,2) del: b64.simps)

end
