(* ===== verification/C_Layout.thy ===== *)
theory C_Layout
  imports Pb_Common
begin

unbundle bit_operations_syntax

text \<open>
  The macros of \<^verbatim>\<open>nanopb/pb.h\<close> that build descriptor arrays from the declaration of a
  message structure, and what they need of C: sizes, alignments and member offsets on the
  target (the usual 64-bit ABI, where every type is aligned to its size and a structure to its
  most aligned member). The lemmas show that the field iterator, which only adds up the
  numbers in the array, arrives at the addresses the compiler gives the members.
\<close>

section \<open>Structure layout\<close>

datatype ctype =
    C_bool
  | C_byte
  | C_int32
  | C_enum
  | C_pb_size
  | C_int64
  | C_ptr ctype
  | C_array ctype nat
  | C_struct "cmember list"
and cmember = Member string ctype

fun alignof :: "ctype \<Rightarrow> nat" and members_align :: "cmember list \<Rightarrow> nat" where
  "alignof C_bool = 1"
| "alignof C_byte = 1"
| "alignof C_int32 = 4"
| "alignof C_enum = 4"
| "alignof C_pb_size = 4"
| "alignof C_int64 = 8"
| "alignof (C_ptr t) = 8"
| "alignof (C_array t n) = alignof t"
| "alignof (C_struct ms) = members_align ms"
| "members_align [] = 1"
| "members_align (Member n t # ms) = max (alignof t) (members_align ms)"

definition align_up :: "nat \<Rightarrow> nat \<Rightarrow> nat" where
  "align_up off a = (off + a - 1) div a * a"

fun sizeof :: "ctype \<Rightarrow> nat" and members_end :: "cmember list \<Rightarrow> nat \<Rightarrow> nat" where
  "sizeof C_bool = 1"
| "sizeof C_byte = 1"
| "sizeof C_int32 = 4"
| "sizeof C_enum = 4"
| "sizeof C_pb_size = 4"
| "sizeof C_int64 = 8"
| "sizeof (C_ptr t) = 8"
| "sizeof (C_array t n) = sizeof t * n"
| "sizeof (C_struct ms) = align_up (members_end ms 0) (members_align ms)"
| "members_end [] off = off"
| "members_end (Member n t # ms) off = members_end ms (align_up off (alignof t) + sizeof t)"

text \<open>The offset and type of a member.\<close>

fun member_in :: "cmember list \<Rightarrow> nat \<Rightarrow> string \<Rightarrow> (nat \<times> ctype) option" where
  "member_in [] off m = None"
| "member_in (Member n t # ms) off m =
     (let o1 = align_up off (alignof t)
      in if n = m then Some (o1, t) else member_in ms (o1 + sizeof t) m)"

fun member_of :: "ctype \<Rightarrow> string \<Rightarrow> (nat \<times> ctype) option" where
  "member_of (C_struct ms) m = member_in ms 0 m"
| "member_of _ m = None"

text \<open>A name that is not a member does not compile; it is given offset and size 0 here.\<close>

definition offsetof :: "ctype \<Rightarrow> string \<Rightarrow> nat" where
  "offsetof st m = (case member_of st m of Some (off, t) \<Rightarrow> off | None \<Rightarrow> 0)"

definition pb_membersize :: "ctype \<Rightarrow> string \<Rightarrow> nat" where
  "pb_membersize st m = (case member_of st m of Some (off, t) \<Rightarrow> sizeof t | None \<Rightarrow> 0)"

text \<open>\<^verbatim>\<open>pb_membersize(st, m[0])\<close>.\<close>

definition pb_itemsize :: "ctype \<Rightarrow> string \<Rightarrow> nat" where
  "pb_itemsize st m =
     (case member_of st m of
        Some (off, C_ptr t) \<Rightarrow> sizeof t
      | Some (off, C_array t n) \<Rightarrow> sizeof t
      | _ \<Rightarrow> 0)"

definition pb_arraysize :: "ctype \<Rightarrow> string \<Rightarrow> nat" where
  "pb_arraysize st m = pb_membersize st m div pb_itemsize st m"

definition pb_delta :: "ctype \<Rightarrow> string \<Rightarrow> string \<Rightarrow> int" where
  "pb_delta st m1 m2 = int (offsetof st m1) - int (offsetof st m2)"

definition pb_bytes_array_t :: ctype where
  "pb_bytes_array_t = C_struct [Member ''size'' C_pb_size, Member ''bytes'' (C_array C_byte 1)]"

section \<open>Descriptor macros\<close>

datatype pb_type =
    BOOL | BYTES | DOUBLE | ENUM | UENUM | FIXED32 | FIXED64 | FLOAT | INT32 | INT64 | MESSAGE
  | SFIXED32 | SFIXED64 | SINT32 | SINT64 | STRING | UINT32 | UINT64 | EXTENSION | FIXED_LENGTH_BYTES

datatype pb_rules = REQUIRED | OPTIONAL | SINGULAR | REPEATED | OPTEXT

datatype pb_allocation = STATIC | POINTER | CALLBACK

datatype pb_placement = FIRST | OTHER | UNION

fun PB_LTYPE_MAP :: "pb_type \<Rightarrow> byte" where
  "PB_LTYPE_MAP BOOL = PB_LTYPE_BOOL"
| "PB_LTYPE_MAP BYTES = PB_LTYPE_BYTES"
| "PB_LTYPE_MAP DOUBLE = PB_LTYPE_FIXED64"
| "PB_LTYPE_MAP ENUM = PB_LTYPE_VARINT"
| "PB_LTYPE_MAP UENUM = PB_LTYPE_UVARINT"
| "PB_LTYPE_MAP FIXED32 = PB_LTYPE_FIXED32"
| "PB_LTYPE_MAP FIXED64 = PB_LTYPE_FIXED64"
| "PB_LTYPE_MAP FLOAT = PB_LTYPE_FIXED32"
| "PB_LTYPE_MAP INT32 = PB_LTYPE_VARINT"
| "PB_LTYPE_MAP INT64 = PB_LTYPE_VARINT"
| "PB_LTYPE_MAP MESSAGE = PB_LTYPE_SUBMESSAGE"
| "PB_LTYPE_MAP SFIXED32 = PB_LTYPE_FIXED32"
| "PB_LTYPE_MAP SFIXED64 = PB_LTYPE_FIXED64"
| "PB_LTYPE_MAP SINT32 = PB_LTYPE_SVARINT"
| "PB_LTYPE_MAP SINT64 = PB_LTYPE_SVARINT"
| "PB_LTYPE_MAP STRING = PB_LTYPE_STRING"
| "PB_LTYPE_MAP UINT32 = PB_LTYPE_UVARINT"
| "PB_LTYPE_MAP UINT64 = PB_LTYPE_UVARINT"
| "PB_LTYPE_MAP EXTENSION = PB_LTYPE_EXTENSION"
| "PB_LTYPE_MAP FIXED_LENGTH_BYTES = PB_LTYPE_FIXED_LENGTH_BYTES"

text \<open>\<^verbatim>\<open>PB_DATAOFFSET_FIRST\<close>, \<^verbatim>\<open>PB_DATAOFFSET_OTHER\<close>, \<^verbatim>\<open>PB_DATAOFFSET_UNION\<close>, in \<^verbatim>\<open>size_t\<close> and then \<^verbatim>\<open>pb_size_t\<close>.\<close>

fun PB_DATAOFFSET :: "pb_placement \<Rightarrow> ctype \<Rightarrow> string \<Rightarrow> string \<Rightarrow> u32" where
  "PB_DATAOFFSET FIRST st m1 m2 = of_nat (offsetof st m1)"
| "PB_DATAOFFSET OTHER st m1 m2 =
     of_nat (offsetof st m1) - of_nat (offsetof st m2) - of_nat (pb_membersize st m2)"
| "PB_DATAOFFSET UNION st m1 m2 = PB_SIZE_MAX"

type_synonym field_macro = "u32 \<Rightarrow> ctype \<Rightarrow> string \<Rightarrow> u32 \<Rightarrow> byte \<Rightarrow> pb_ptr \<Rightarrow> pb_field"

definition PB_REQUIRED_STATIC :: field_macro where
  "PB_REQUIRED_STATIC tg st m fd ltype p =
     Pb_field tg (PB_ATYPE_STATIC OR PB_HTYPE_REQUIRED OR ltype) fd 0 (of_nat (pb_membersize st m)) 0 p"

definition PB_OPTIONAL_STATIC :: field_macro where
  "PB_OPTIONAL_STATIC tg st m fd ltype p =
     Pb_field tg (PB_ATYPE_STATIC OR PB_HTYPE_OPTIONAL OR ltype) fd
       (of_int (pb_delta st (''has_'' @ m) m)) (of_nat (pb_membersize st m)) 0 p"

definition PB_SINGULAR_STATIC :: field_macro where
  "PB_SINGULAR_STATIC tg st m fd ltype p =
     Pb_field tg (PB_ATYPE_STATIC OR PB_HTYPE_OPTIONAL OR ltype) fd 0 (of_nat (pb_membersize st m)) 0 p"

definition PB_REPEATED_STATIC :: field_macro where
  "PB_REPEATED_STATIC tg st m fd ltype p =
     Pb_field tg (PB_ATYPE_STATIC OR PB_HTYPE_REPEATED OR ltype) fd
       (of_int (pb_delta st (m @ ''_count'') m)) (of_nat (pb_itemsize st m)) (of_nat (pb_arraysize st m)) p"

definition PB_REQUIRED_POINTER :: field_macro where
  "PB_REQUIRED_POINTER tg st m fd ltype p =
     Pb_field tg (PB_ATYPE_POINTER OR PB_HTYPE_REQUIRED OR ltype) fd 0 (of_nat (pb_itemsize st m)) 0 p"

definition PB_OPTIONAL_POINTER :: field_macro where
  "PB_OPTIONAL_POINTER tg st m fd ltype p =
     Pb_field tg (PB_ATYPE_POINTER OR PB_HTYPE_OPTIONAL OR ltype) fd 0 (of_nat (pb_itemsize st m)) 0 p"

definition PB_SINGULAR_POINTER :: field_macro where
  "PB_SINGULAR_POINTER tg st m fd ltype p =
     Pb_field tg (PB_ATYPE_POINTER OR PB_HTYPE_OPTIONAL OR ltype) fd 0 (of_nat (pb_itemsize st m)) 0 p"

definition PB_REPEATED_POINTER :: field_macro where
  "PB_REPEATED_POINTER tg st m fd ltype p =
     Pb_field tg (PB_ATYPE_POINTER OR PB_HTYPE_REPEATED OR ltype) fd
       (of_int (pb_delta st (m @ ''_count'') m)) (of_nat (pb_itemsize st m)) 0 p"

definition PB_REQUIRED_CALLBACK :: field_macro where
  "PB_REQUIRED_CALLBACK tg st m fd ltype p =
     Pb_field tg (PB_ATYPE_CALLBACK OR PB_HTYPE_REQUIRED OR ltype) fd 0 (of_nat (pb_membersize st m)) 0 p"

definition PB_OPTIONAL_CALLBACK :: field_macro where
  "PB_OPTIONAL_CALLBACK tg st m fd ltype p =
     Pb_field tg (PB_ATYPE_CALLBACK OR PB_HTYPE_OPTIONAL OR ltype) fd 0 (of_nat (pb_membersize st m)) 0 p"

definition PB_SINGULAR_CALLBACK :: field_macro where
  "PB_SINGULAR_CALLBACK tg st m fd ltype p =
     Pb_field tg (PB_ATYPE_CALLBACK OR PB_HTYPE_OPTIONAL OR ltype) fd 0 (of_nat (pb_membersize st m)) 0 p"

definition PB_REPEATED_CALLBACK :: field_macro where
  "PB_REPEATED_CALLBACK tg st m fd ltype p =
     Pb_field tg (PB_ATYPE_CALLBACK OR PB_HTYPE_REPEATED OR ltype) fd 0 (of_nat (pb_membersize st m)) 0 p"

definition PB_OPTEXT_STATIC :: field_macro where
  "PB_OPTEXT_STATIC tg st m fd ltype p =
     Pb_field tg (PB_ATYPE_STATIC OR PB_HTYPE_REQUIRED OR ltype) 0 0 (of_nat (pb_membersize st m)) 0 p"

definition PB_OPTEXT_POINTER :: field_macro where
  "PB_OPTEXT_POINTER = PB_OPTIONAL_POINTER"

definition PB_OPTEXT_CALLBACK :: field_macro where
  "PB_OPTEXT_CALLBACK = PB_OPTIONAL_CALLBACK"

text \<open>The token pasting of \<^verbatim>\<open>PB_FIELD\<close>: the macro for the rules and the allocation.\<close>

fun field_macro_for :: "pb_rules \<Rightarrow> pb_allocation \<Rightarrow> field_macro" where
  "field_macro_for REQUIRED STATIC = PB_REQUIRED_STATIC"
| "field_macro_for OPTIONAL STATIC = PB_OPTIONAL_STATIC"
| "field_macro_for SINGULAR STATIC = PB_SINGULAR_STATIC"
| "field_macro_for REPEATED STATIC = PB_REPEATED_STATIC"
| "field_macro_for OPTEXT STATIC = PB_OPTEXT_STATIC"
| "field_macro_for REQUIRED POINTER = PB_REQUIRED_POINTER"
| "field_macro_for OPTIONAL POINTER = PB_OPTIONAL_POINTER"
| "field_macro_for SINGULAR POINTER = PB_SINGULAR_POINTER"
| "field_macro_for REPEATED POINTER = PB_REPEATED_POINTER"
| "field_macro_for OPTEXT POINTER = PB_OPTEXT_POINTER"
| "field_macro_for REQUIRED CALLBACK = PB_REQUIRED_CALLBACK"
| "field_macro_for OPTIONAL CALLBACK = PB_OPTIONAL_CALLBACK"
| "field_macro_for SINGULAR CALLBACK = PB_SINGULAR_CALLBACK"
| "field_macro_for REPEATED CALLBACK = PB_REPEATED_CALLBACK"
| "field_macro_for OPTEXT CALLBACK = PB_OPTEXT_CALLBACK"

definition PB_FIELD ::
  "u32 \<Rightarrow> pb_type \<Rightarrow> pb_rules \<Rightarrow> pb_allocation \<Rightarrow> pb_placement \<Rightarrow> ctype \<Rightarrow> string \<Rightarrow> string \<Rightarrow>
   pb_ptr \<Rightarrow> pb_field" where
  "PB_FIELD tg ty rules allocation placement msg field prevfield p =
     field_macro_for rules allocation tg msg field (PB_DATAOFFSET placement msg field prevfield)
       (PB_LTYPE_MAP ty) p"

text \<open>A static array without a count: the number of entries is fixed.\<close>

definition PB_REPEATED_FIXED_COUNT ::
  "u32 \<Rightarrow> pb_type \<Rightarrow> pb_placement \<Rightarrow> ctype \<Rightarrow> string \<Rightarrow> string \<Rightarrow> pb_ptr \<Rightarrow> pb_field" where
  "PB_REPEATED_FIXED_COUNT tg ty placement msg field prevfield p =
     Pb_field tg (PB_ATYPE_STATIC OR PB_HTYPE_REPEATED OR PB_LTYPE_MAP ty)
       (PB_DATAOFFSET placement msg field prevfield) 0
       (of_nat (pb_itemsize msg field)) (of_nat (pb_arraysize msg field)) p"

text \<open>
  A whole array: one row per \<^verbatim>\<open>PB_FIELD\<close> line, all naming the same message structure, then
  the terminator.
\<close>

datatype row =
  Row (row_tag: u32) (row_type: pb_type) (row_rules: pb_rules) (row_alloc: pb_allocation)
    (row_place: pb_placement) (row_field: string) (row_prev: string) (row_ptr: pb_ptr)

definition row_descriptor :: "ctype \<Rightarrow> row \<Rightarrow> pb_field" where
  "row_descriptor st r =
     PB_FIELD (row_tag r) (row_type r) (row_rules r) (row_alloc r) (row_place r) st
       (row_field r) (row_prev r) (row_ptr r)"

definition PB_FIELDS :: "ctype \<Rightarrow> row list \<Rightarrow> pb_field list" where
  "PB_FIELDS st rows = map (row_descriptor st) rows @ [PB_LAST_FIELD]"


section \<open>The iterator finds the members\<close>

text \<open>
  What the generator promises of a table: the first row is placed \<open>FIRST\<close> and every other
  one after its predecessor, the members exist, stand in the order of the rows and have the
  types the allocation asks for, the presence flags and counts exist, and the structure is
  smaller than two gigabytes.
\<close>

fun row_member_ok :: "ctype \<Rightarrow> row \<Rightarrow> bool" where
  "row_member_ok st (Row t ty rules alloc pl m prev p) \<longleftrightarrow>
     t \<noteq> 0 \<and> rules \<noteq> OPTEXT \<and>
     (case member_of st m of
        None \<Rightarrow> False
      | Some (off, ct) \<Rightarrow>
          int (off + sizeof ct) < 2 ^ 31 \<and>
          (case (alloc, rules) of
             (POINTER, _) \<Rightarrow> (case ct of C_ptr e \<Rightarrow> True | _ \<Rightarrow> False)
           | (STATIC, REPEATED) \<Rightarrow> (case ct of C_array e n \<Rightarrow> 0 < sizeof e \<and> 0 < n | _ \<Rightarrow> False)
           | _ \<Rightarrow> True))"

fun flag_name :: "row \<Rightarrow> string option" where
  "flag_name (Row t ty rules alloc pl m prev p) =
     (if rules = OPTIONAL \<and> alloc = STATIC then Some (''has_'' @ m)
      else if rules = REPEATED \<and> alloc \<noteq> CALLBACK then Some (m @ ''_count'')
      else None)"

definition flag_ok :: "ctype \<Rightarrow> row \<Rightarrow> bool" where
  "flag_ok st r \<longleftrightarrow>
     (case flag_name r of
        None \<Rightarrow> True
      | Some f \<Rightarrow> (case member_of st f of None \<Rightarrow> False | Some (off, ct) \<Rightarrow> int off < 2 ^ 31))"

fun rows_follow :: "ctype \<Rightarrow> row list \<Rightarrow> bool" where
  "rows_follow st (r # r' # rs) \<longleftrightarrow>
     row_place r' = OTHER \<and> row_prev r' = row_field r \<and>
     offsetof st (row_field r) + pb_membersize st (row_field r) \<le> offsetof st (row_field r') \<and>
     rows_follow st (r' # rs)"
| "rows_follow st _ \<longleftrightarrow> True"

definition table_ok :: "ctype \<Rightarrow> row list \<Rightarrow> bool" where
  "table_ok st rows \<longleftrightarrow>
     (case rows of [] \<Rightarrow> False | r # rs \<Rightarrow> row_place r = FIRST) \<and>
     list_all (\<lambda>r. row_member_ok st r \<and> flag_ok st r) rows \<and> rows_follow st rows"

text \<open>The address of the presence flag, the count, or the field itself where it has neither.\<close>

definition flag_offset :: "ctype \<Rightarrow> row \<Rightarrow> nat" where
  "flag_offset st r =
     (case flag_name r of Some f \<Rightarrow> offsetof st f | None \<Rightarrow> offsetof st (row_field r))"

lemma rows_follow_nth:
  "rows_follow st rows \<Longrightarrow> Suc i < length rows \<Longrightarrow>
   row_place (rows ! Suc i) = OTHER \<and> row_prev (rows ! Suc i) = row_field (rows ! i) \<and>
   offsetof st (row_field (rows ! i)) + pb_membersize st (row_field (rows ! i))
     \<le> offsetof st (row_field (rows ! Suc i))"
proof (induction st rows arbitrary: i rule: rows_follow.induct)
  case (1 st r r' rs)
  then show ?case by (cases i) auto
qed auto

lemma field_at_table:
  "i < length rows \<Longrightarrow> field_at (PB_FIELDS st rows) i = row_descriptor st (rows ! i)"
  by (simp add: field_at_def PB_FIELDS_def nth_append)

text \<open>The three parts of the type byte of a row.\<close>

fun atype_of :: "pb_allocation \<Rightarrow> byte" where
  "atype_of STATIC = PB_ATYPE_STATIC"
| "atype_of POINTER = PB_ATYPE_POINTER"
| "atype_of CALLBACK = PB_ATYPE_CALLBACK"

fun htype_of :: "pb_rules \<Rightarrow> byte" where
  "htype_of REQUIRED = PB_HTYPE_REQUIRED"
| "htype_of REPEATED = PB_HTYPE_REPEATED"
| "htype_of _ = PB_HTYPE_OPTIONAL"

lemma row_ftype:
  assumes "row_rules r \<noteq> OPTEXT"
  shows "ftype (row_descriptor st r) =
    atype_of (row_alloc r) OR htype_of (row_rules r) OR PB_LTYPE_MAP (row_type r)"
  using assms
  by (cases "row_rules r"; cases "row_alloc r")
    (simp_all add: row_descriptor_def PB_FIELD_def PB_REQUIRED_STATIC_def PB_OPTIONAL_STATIC_def
      PB_SINGULAR_STATIC_def PB_REPEATED_STATIC_def PB_REQUIRED_POINTER_def PB_OPTIONAL_POINTER_def
      PB_SINGULAR_POINTER_def PB_REPEATED_POINTER_def PB_REQUIRED_CALLBACK_def
      PB_OPTIONAL_CALLBACK_def PB_SINGULAR_CALLBACK_def PB_REPEATED_CALLBACK_def)

lemma LTYPE_MAP_bits:
  "PB_LTYPE_MAP ty AND PB_ATYPE_MASK = 0" "PB_LTYPE_MAP ty AND PB_HTYPE_MASK = 0"
  "PB_LTYPE_MAP ty AND PB_LTYPE_MASK = PB_LTYPE_MAP ty"
  by (cases ty; simp add: pb_type_defs)+

lemma row_types:
  assumes "row_rules r \<noteq> OPTEXT"
  shows "PB_ATYPE (ftype (row_descriptor st r)) = atype_of (row_alloc r)"
    "PB_HTYPE (ftype (row_descriptor st r)) = htype_of (row_rules r)"
    "PB_LTYPE (ftype (row_descriptor st r)) = PB_LTYPE_MAP (row_type r)"
proof -
  have a: "atype_of x AND PB_ATYPE_MASK = atype_of x" "atype_of x AND PB_HTYPE_MASK = 0"
    "atype_of x AND PB_LTYPE_MASK = 0" for x
    by (cases x; simp add: pb_type_defs)+
  have h: "htype_of x AND PB_HTYPE_MASK = htype_of x" "htype_of x AND PB_ATYPE_MASK = 0"
    "htype_of x AND PB_LTYPE_MASK = 0" for x
    by (cases x; simp add: pb_type_defs)+
  show "PB_ATYPE (ftype (row_descriptor st r)) = atype_of (row_alloc r)"
    "PB_HTYPE (ftype (row_descriptor st r)) = htype_of (row_rules r)"
    "PB_LTYPE (ftype (row_descriptor st r)) = PB_LTYPE_MAP (row_type r)"
    by (simp_all only: PB_ATYPE_def PB_HTYPE_def PB_LTYPE_def row_ftype [OF assms]
        bit.conj_disj_distrib2 a h LTYPE_MAP_bits or.left_neutral or.right_neutral)
qed

lemma row_offsets:
  assumes "row_rules r \<noteq> OPTEXT"
  shows "tag (row_descriptor st r) = row_tag r"
    "data_offset (row_descriptor st r) = PB_DATAOFFSET (row_place r) st (row_field r) (row_prev r)"
    "ptr (row_descriptor st r) = row_ptr r"
    "size_offset (row_descriptor st r) =
       (case flag_name r of None \<Rightarrow> 0 | Some f \<Rightarrow> of_int (pb_delta st f (row_field r)))"
    "data_size (row_descriptor st r) =
       of_nat (if row_alloc r = POINTER \<or> row_alloc r = STATIC \<and> row_rules r = REPEATED
               then pb_itemsize st (row_field r) else pb_membersize st (row_field r))"
    "array_size (row_descriptor st r) =
       (if row_alloc r = STATIC \<and> row_rules r = REPEATED then of_nat (pb_arraysize st (row_field r)) else 0)"
  using assms
  by (cases r; cases "row_rules r"; cases "row_alloc r";
      simp add: row_descriptor_def PB_FIELD_def PB_REQUIRED_STATIC_def PB_OPTIONAL_STATIC_def
      PB_SINGULAR_STATIC_def PB_REPEATED_STATIC_def PB_REQUIRED_POINTER_def PB_OPTIONAL_POINTER_def
      PB_SINGULAR_POINTER_def PB_REPEATED_POINTER_def PB_REQUIRED_CALLBACK_def
      PB_OPTIONAL_CALLBACK_def PB_SINGULAR_CALLBACK_def PB_REPEATED_CALLBACK_def)+

lemma scast_of_int_small:
  assumes "- (2 ^ 31) \<le> k" "k < 2 ^ 31"
  shows "scast (of_int k :: u32) = (of_int k :: u64)"
proof -
  have "sint (of_int k :: u32) = k"
    using assms by (simp add: signed_of_int signed_take_bit_int_eq_self)
  then show ?thesis by (simp add: scast_eq)
qed


lemma row_member:
  assumes "row_member_ok st r"
  obtains off ct where "member_of st (row_field r) = Some (off, ct)" "off + sizeof ct < 2 ^ 31"
    "offsetof st (row_field r) = off" "pb_membersize st (row_field r) = sizeof ct"
    "row_alloc r = POINTER \<Longrightarrow> \<exists>e. ct = C_ptr e"
    "row_alloc r = STATIC \<Longrightarrow> row_rules r = REPEATED \<Longrightarrow> \<exists>e n. ct = C_array e n \<and> 0 < sizeof e \<and> 0 < n"
proof -
  from assms obtain off ct where m: "member_of st (row_field r) = Some (off, ct)"
    by (cases r) (auto split: option.splits)
  with assms have "int (off + sizeof ct) < 2 ^ 31"
    "row_alloc r = POINTER \<Longrightarrow> \<exists>e. ct = C_ptr e"
    "row_alloc r = STATIC \<Longrightarrow> row_rules r = REPEATED \<Longrightarrow> \<exists>e n. ct = C_array e n \<and> 0 < sizeof e \<and> 0 < n"
    by (cases r; auto split: option.splits pb_allocation.splits pb_rules.splits ctype.splits)+
  with m show ?thesis by (intro that [of off ct]) (auto simp: offsetof_def pb_membersize_def)
qed

text \<open>The numbers of a descriptor say how much of the structure its field takes.\<close>

lemma row_size:
  assumes "row_member_ok st r"
  shows "prev_field_size (row_descriptor st r) = of_nat (pb_membersize st (row_field r))"
proof -
  have r: "row_rules r \<noteq> OPTEXT" using assms by (cases r) simp
  from assms obtain off ct where ct: "member_of st (row_field r) = Some (off, ct)"
    "off + sizeof ct < 2 ^ 31" "offsetof st (row_field r) = off"
    "pb_membersize st (row_field r) = sizeof ct"
    "row_alloc r = POINTER \<Longrightarrow> \<exists>e. ct = C_ptr e"
    "row_alloc r = STATIC \<Longrightarrow> row_rules r = REPEATED \<Longrightarrow> \<exists>e n. ct = C_array e n \<and> 0 < sizeof e \<and> 0 < n"
    by (rule row_member) blast
  have at: "atype_of x = PB_ATYPE_STATIC \<longleftrightarrow> x = STATIC" "atype_of x = PB_ATYPE_POINTER \<longleftrightarrow> x = POINTER" for x
    by (cases x; simp add: pb_atype_defs)+
  have ht: "htype_of x = PB_HTYPE_REPEATED \<longleftrightarrow> x = REPEATED" for x
    by (cases x; simp add: pb_htype_defs)
  note prev = prev_field_size_def row_types [OF r] row_offsets(5,6) [OF r] at ht
  show ?thesis
  proof (cases "row_alloc r = STATIC \<and> row_rules r = REPEATED")
    case True
    then obtain e n where e: "ct = C_array e n" "0 < sizeof e" "0 < n" using ct(6) by blast
    then have "pb_itemsize st (row_field r) = sizeof e" "pb_arraysize st (row_field r) = n"
      using ct(1,4) by (simp_all add: pb_itemsize_def pb_arraysize_def)
    moreover have "sizeof e < 2 ^ 32" "n < 2 ^ 32"
    proof -
      have "off + sizeof e * n < 2 ^ 31" using ct(2) e(1) by simp
      moreover have "sizeof e \<le> off + sizeof e * n" "n \<le> off + sizeof e * n"
        using e by (simp_all add: trans_le_add2)
      ultimately have "sizeof e < 2 ^ 31" "n < 2 ^ 31" by (auto intro: le_less_trans)
      then show "sizeof e < 2 ^ 32" "n < 2 ^ 32" by simp_all
    qed
    ultimately show ?thesis
      using True ct(4) e(1) by (simp add: prev ucast_of_nat_length)
  next
    case False
    then consider "row_alloc r = POINTER" | "row_alloc r \<noteq> POINTER" "\<not> (row_alloc r = STATIC \<and> row_rules r = REPEATED)"
      by blast
    then show ?thesis
    proof cases
      case 1
      with ct(5) obtain e where "ct = C_ptr e" by blast
      with 1 ct(4) show ?thesis by (simp add: prev pb_atype_defs)
    next
      case 2
      have "sizeof ct < 2 ^ 32" using ct(2) by simp
      with 2 ct(4) show ?thesis by (auto simp: prev ucast_of_nat_length)
    qed
  qed
qed

lemma table_row:
  assumes "table_ok st rows" "i < length rows"
  shows "row_member_ok st (rows ! i)" "flag_ok st (rows ! i)" "row_rules (rows ! i) \<noteq> OPTEXT"
proof -
  from assms show "row_member_ok st (rows ! i)" "flag_ok st (rows ! i)"
    by (auto simp: table_ok_def list_all_length)
  then show "row_rules (rows ! i) \<noteq> OPTEXT" by (cases "rows ! i") simp
qed

lemma no_union:
  assumes "table_ok st rows" "Suc i < length rows"
  shows "\<not> union_member (field_at (PB_FIELDS st rows) i) (field_at (PB_FIELDS st rows) (Suc i))"
proof -
  have "htype_of x \<noteq> PB_HTYPE_ONEOF" for x by (cases x) (simp_all add: pb_htype_defs)
  then show ?thesis
    using assms table_row(3) [OF assms(1), of i] by (simp add: union_member_def field_at_table row_types)
qed

lemma table_data_addr:
  assumes "table_ok st rows" "i < length rows"
  shows "data_addr (PB_FIELDS st rows) d i = d + of_nat (offsetof st (row_field (rows ! i)))"
  using assms(2)
proof (induction i)
  case 0
  have "row_place (rows ! 0) = FIRST" using assms(1) 0 by (cases rows) (auto simp: table_ok_def)
  moreover from table_row(1) [OF assms(1) 0] obtain off ct where
    "offsetof st (row_field (rows ! 0)) = off" "off + sizeof ct < 2 ^ 31" by (rule row_member)
  then have "offsetof st (row_field (rows ! 0)) < 2 ^ 32" by simp
  ultimately show ?case
    using table_row(3) [OF assms(1) 0] 0 by (simp add: field_at_table row_offsets ucast_of_nat_length)
next
  case (Suc i)
  then have i: "i < length rows" by simp
  let ?o = "offsetof st (row_field (rows ! i))" and ?s = "pb_membersize st (row_field (rows ! i))"
  let ?o' = "offsetof st (row_field (rows ! Suc i))"
  from rows_follow_nth [of st rows i] assms(1) Suc.prems have
    fol: "row_place (rows ! Suc i) = OTHER" "row_prev (rows ! Suc i) = row_field (rows ! i)" "?o + ?s \<le> ?o'"
    by (auto simp: table_ok_def)
  from table_row(1) [OF assms(1) Suc.prems] obtain off ct where
    "?o' = off" "off + sizeof ct < 2 ^ 31" by (rule row_member)
  then have lt: "?o' - ?o - ?s < 2 ^ 32" by simp
  have "data_offset (field_at (PB_FIELDS st rows) (Suc i)) = of_nat (?o' - ?o - ?s)"
    using fol Suc.prems table_row(3) [OF assms(1) Suc.prems]
    by (simp add: field_at_table row_offsets of_nat_diff)
  then have "ucast (data_offset (field_at (PB_FIELDS st rows) (Suc i))) = (of_nat (?o' - ?o - ?s) :: u64)"
    using lt by (simp only: ucast_of_nat_length)
  moreover have "prev_field_size (field_at (PB_FIELDS st rows) i) = of_nat ?s"
    using table_row(1) [OF assms(1) i] i by (simp add: field_at_table row_size)
  ultimately show ?case
    using no_union [OF assms(1) Suc.prems] Suc.IH [OF i] fol(3) by (simp add: of_nat_diff)
qed

lemma table_size_addr:
  assumes "table_ok st rows" "i < length rows"
  shows "size_addr (PB_FIELDS st rows) d i = d + of_nat (flag_offset st (rows ! i))"
proof -
  let ?r = "rows ! i"
  have "size_addr (PB_FIELDS st rows) d i =
      data_addr (PB_FIELDS st rows) d i + scast (size_offset (field_at (PB_FIELDS st rows) i))"
    using no_union [OF assms(1)] assms(2) by (cases i) auto
  also have "\<dots> = d + of_nat (offsetof st (row_field ?r)) + scast (size_offset (row_descriptor st ?r))"
    using assms by (simp add: table_data_addr field_at_table)
  also have "\<dots> = d + of_nat (flag_offset st ?r)"
  proof (cases "flag_name ?r")
    case None
    with table_row(3) [OF assms] show ?thesis by (simp add: row_offsets flag_offset_def)
  next
    case (Some f)
    from table_row(1) [OF assms] obtain off ct where
      "offsetof st (row_field ?r) = off" "off + sizeof ct < 2 ^ 31" by (rule row_member)
    moreover have "offsetof st f < 2 ^ 31"
      using table_row(2) [OF assms] Some by (auto simp: flag_ok_def offsetof_def split: option.splits)
    ultimately have "scast (of_int (pb_delta st f (row_field ?r)) :: u32) =
        (of_int (pb_delta st f (row_field ?r)) :: u64)"
      by (intro scast_of_int_small) (simp_all add: pb_delta_def)
    with Some table_row(3) [OF assms] show ?thesis
      by (simp add: row_offsets flag_offset_def pb_delta_def)
  qed
  finally show ?thesis .
qed

lemma table_count:
  assumes "table_ok st rows"
  shows "field_count (PB_FIELDS st rows) = length rows"
proof -
  have "\<forall>r\<in>set rows. tag (row_descriptor st r) \<noteq> 0"
  proof
    fix r assume "r \<in> set rows"
    then have "row_member_ok st r" using assms by (auto simp: table_ok_def list_all_iff)
    then show "tag (row_descriptor st r) \<noteq> 0" by (cases r) (simp add: row_offsets)
  qed
  then show ?thesis unfolding PB_FIELDS_def by (induction rows) auto
qed

end
