(* ===== verification/Generated_Messages.thy ===== *)
theory Generated_Messages
  imports C_Layout
begin

text \<open>
  The message types generated by the nanopb generator for the pods that use it: the log
  transport (\<^verbatim>\<open>cct.nanopb\<close>), messaging events (\<^verbatim>\<open>me.nanopb\<close>) and core diagnostics
  (\<^verbatim>\<open>firebasecore.nanopb\<close>): enumerations, structure layouts, default values and descriptor
  tables, in the order of dependency.
\<close>

section \<open>\<^verbatim>\<open>cct.nanopb\<close>\<close>

text \<open>Enumerators and their values.\<close>

definition gdt_cct_NetworkConnectionInfo_NetworkType :: "(string \<times> int) list" where
  "gdt_cct_NetworkConnectionInfo_NetworkType =
     [(''NONE'', -1),
      (''MOBILE'', 0),
      (''WIFI'', 1),
      (''MOBILE_MMS'', 2),
      (''MOBILE_SUPL'', 3),
      (''MOBILE_DUN'', 4),
      (''MOBILE_HIPRI'', 5),
      (''WIMAX'', 6),
      (''BLUETOOTH'', 7),
      (''DUMMY'', 8),
      (''ETHERNET'', 9),
      (''MOBILE_FOTA'', 10),
      (''MOBILE_IMS'', 11),
      (''MOBILE_CBS'', 12),
      (''WIFI_P2P'', 13),
      (''MOBILE_IA'', 14),
      (''MOBILE_EMERGENCY'', 15),
      (''PROXY'', 16),
      (''VPN'', 17)]"

definition gdt_cct_NetworkConnectionInfo_MobileSubtype :: "(string \<times> int) list" where
  "gdt_cct_NetworkConnectionInfo_MobileSubtype =
     [(''UNKNOWN_MOBILE_SUBTYPE'', 0),
      (''GPRS'', 1),
      (''EDGE'', 2),
      (''UMTS'', 3),
      (''CDMA'', 4),
      (''EVDO_0'', 5),
      (''EVDO_A'', 6),
      (''RTT'', 7),
      (''HSDPA'', 8),
      (''HSUPA'', 9),
      (''HSPA'', 10),
      (''IDEN'', 11),
      (''EVDO_B'', 12),
      (''LTE'', 13),
      (''EHRPD'', 14),
      (''HSPAP'', 15),
      (''GSM'', 16),
      (''TD_SCDMA'', 17),
      (''IWLAN'', 18),
      (''LTE_CA'', 19),
      (''COMBINED'', 100)]"

definition gdt_cct_ClientInfo_ClientType :: "(string \<times> int) list" where
  "gdt_cct_ClientInfo_ClientType =
     [(''CLIENT_UNKNOWN'', 0),
      (''IOS_FIREBASE'', 15)]"

definition gdt_cct_QosTierConfiguration_QosTier :: "(string \<times> int) list" where
  "gdt_cct_QosTierConfiguration_QosTier =
     [(''DEFAULT'', 0),
      (''UNMETERED_ONLY'', 1),
      (''UNMETERED_OR_DAILY'', 2),
      (''FAST_IF_RADIO_AWAKE'', 3),
      (''NEVER'', 4)]"

text \<open>Default values, as the bytes of the constant.\<close>

definition gdt_cct_NetworkConnectionInfo_network_type_default :: "byte list" where
  "gdt_cct_NetworkConnectionInfo_network_type_default = [0xff, 0xff, 0xff, 0xff]"

definition gdt_cct_NetworkConnectionInfo_mobile_subtype_default :: "byte list" where
  "gdt_cct_NetworkConnectionInfo_mobile_subtype_default = [0, 0, 0, 0]"

definition gdt_cct_LogRequest_qos_tier_default :: "byte list" where
  "gdt_cct_LogRequest_qos_tier_default = [0, 0, 0, 0]"

definition gdt_cct_QosTierConfiguration_log_source_default :: "byte list" where
  "gdt_cct_QosTierConfiguration_log_source_default = [0, 0, 0, 0]"

text \<open>Message structures.\<close>

definition gdt_cct_IosClientInfo :: ctype where
  "gdt_cct_IosClientInfo = C_struct
     [Member ''os_major_version'' (C_ptr pb_bytes_array_t),
      Member ''os_full_version'' (C_ptr pb_bytes_array_t),
      Member ''application_build'' (C_ptr pb_bytes_array_t),
      Member ''country'' (C_ptr pb_bytes_array_t),
      Member ''model'' (C_ptr pb_bytes_array_t),
      Member ''language_code'' (C_ptr pb_bytes_array_t),
      Member ''application_bundle_id'' (C_ptr pb_bytes_array_t)]"

definition gdt_cct_ClientInfo :: ctype where
  "gdt_cct_ClientInfo = C_struct
     [Member ''has_client_type'' C_bool,
      Member ''client_type'' C_enum,
      Member ''has_ios_client_info'' C_bool,
      Member ''ios_client_info'' gdt_cct_IosClientInfo]"

definition gdt_cct_NetworkConnectionInfo :: ctype where
  "gdt_cct_NetworkConnectionInfo = C_struct
     [Member ''has_network_type'' C_bool,
      Member ''network_type'' C_enum,
      Member ''has_mobile_subtype'' C_bool,
      Member ''mobile_subtype'' C_enum]"

definition gdt_cct_LogEvent :: ctype where
  "gdt_cct_LogEvent = C_struct
     [Member ''has_event_time_ms'' C_bool,
      Member ''event_time_ms'' C_int64,
      Member ''source_extension'' (C_ptr pb_bytes_array_t),
      Member ''has_event_code'' C_bool,
      Member ''event_code'' C_int32,
      Member ''has_timezone_offset_seconds'' C_bool,
      Member ''timezone_offset_seconds'' C_int64,
      Member ''has_event_uptime_ms'' C_bool,
      Member ''event_uptime_ms'' C_int64,
      Member ''has_network_connection_info'' C_bool,
      Member ''network_connection_info'' gdt_cct_NetworkConnectionInfo]"

definition gdt_cct_LogRequest :: ctype where
  "gdt_cct_LogRequest = C_struct
     [Member ''has_client_info'' C_bool,
      Member ''client_info'' gdt_cct_ClientInfo,
      Member ''has_log_source'' C_bool,
      Member ''log_source'' C_int32,
      Member ''log_event_count'' C_pb_size,
      Member ''log_event'' (C_ptr gdt_cct_LogEvent),
      Member ''has_request_time_ms'' C_bool,
      Member ''request_time_ms'' C_int64,
      Member ''has_request_uptime_ms'' C_bool,
      Member ''request_uptime_ms'' C_int64,
      Member ''has_qos_tier'' C_bool,
      Member ''qos_tier'' C_enum]"

definition gdt_cct_BatchedLogRequest :: ctype where
  "gdt_cct_BatchedLogRequest = C_struct
     [Member ''log_request_count'' C_pb_size,
      Member ''log_request'' (C_ptr gdt_cct_LogRequest)]"

definition gdt_cct_QosTierConfiguration :: ctype where
  "gdt_cct_QosTierConfiguration = C_struct
     [Member ''has_qos_tier'' C_bool,
      Member ''qos_tier'' C_enum,
      Member ''has_log_source'' C_bool,
      Member ''log_source'' C_int32]"

definition gdt_cct_QosTiersOverride :: ctype where
  "gdt_cct_QosTiersOverride = C_struct
     [Member ''qos_tier_configuration_count'' C_pb_size,
      Member ''qos_tier_configuration'' (C_ptr gdt_cct_QosTierConfiguration),
      Member ''has_qos_tier_fingerprint'' C_bool,
      Member ''qos_tier_fingerprint'' C_int64]"

definition gdt_cct_LogResponse :: ctype where
  "gdt_cct_LogResponse = C_struct
     [Member ''has_next_request_wait_millis'' C_bool,
      Member ''next_request_wait_millis'' C_int64,
      Member ''has_qos_tier'' C_bool,
      Member ''qos_tier'' gdt_cct_QosTiersOverride]"

text \<open>Descriptor tables.\<close>

definition gdt_cct_NetworkConnectionInfo_rows :: "row list" where
  "gdt_cct_NetworkConnectionInfo_rows =
     [Row 1 ENUM OPTIONAL STATIC FIRST ''network_type'' ''network_type'' (Ptr_default gdt_cct_NetworkConnectionInfo_network_type_default),
      Row 2 UENUM OPTIONAL STATIC OTHER ''mobile_subtype'' ''network_type'' (Ptr_default gdt_cct_NetworkConnectionInfo_mobile_subtype_default)]"

definition gdt_cct_NetworkConnectionInfo_fields :: "pb_field list" where
  "gdt_cct_NetworkConnectionInfo_fields = PB_FIELDS gdt_cct_NetworkConnectionInfo gdt_cct_NetworkConnectionInfo_rows"

definition gdt_cct_LogEvent_rows :: "row list" where
  "gdt_cct_LogEvent_rows =
     [Row 1 INT64 OPTIONAL STATIC FIRST ''event_time_ms'' ''event_time_ms'' Ptr_NULL,
      Row 6 BYTES OPTIONAL POINTER OTHER ''source_extension'' ''event_time_ms'' Ptr_NULL,
      Row 11 INT32 OPTIONAL STATIC OTHER ''event_code'' ''source_extension'' Ptr_NULL,
      Row 15 SINT64 OPTIONAL STATIC OTHER ''timezone_offset_seconds'' ''event_code'' Ptr_NULL,
      Row 17 INT64 OPTIONAL STATIC OTHER ''event_uptime_ms'' ''timezone_offset_seconds'' Ptr_NULL,
      Row 23 MESSAGE OPTIONAL STATIC OTHER ''network_connection_info'' ''event_uptime_ms'' (Ptr_fields gdt_cct_NetworkConnectionInfo_fields)]"

definition gdt_cct_LogEvent_fields :: "pb_field list" where
  "gdt_cct_LogEvent_fields = PB_FIELDS gdt_cct_LogEvent gdt_cct_LogEvent_rows"

definition gdt_cct_IosClientInfo_rows :: "row list" where
  "gdt_cct_IosClientInfo_rows =
     [Row 3 BYTES OPTIONAL POINTER FIRST ''os_major_version'' ''os_major_version'' Ptr_NULL,
      Row 4 BYTES OPTIONAL POINTER OTHER ''os_full_version'' ''os_major_version'' Ptr_NULL,
      Row 5 BYTES OPTIONAL POINTER OTHER ''application_build'' ''os_full_version'' Ptr_NULL,
      Row 6 BYTES OPTIONAL POINTER OTHER ''country'' ''application_build'' Ptr_NULL,
      Row 7 BYTES OPTIONAL POINTER OTHER ''model'' ''country'' Ptr_NULL,
      Row 8 BYTES OPTIONAL POINTER OTHER ''language_code'' ''model'' Ptr_NULL,
      Row 11 BYTES OPTIONAL POINTER OTHER ''application_bundle_id'' ''language_code'' Ptr_NULL]"

definition gdt_cct_IosClientInfo_fields :: "pb_field list" where
  "gdt_cct_IosClientInfo_fields = PB_FIELDS gdt_cct_IosClientInfo gdt_cct_IosClientInfo_rows"

definition gdt_cct_ClientInfo_rows :: "row list" where
  "gdt_cct_ClientInfo_rows =
     [Row 1 UENUM OPTIONAL STATIC FIRST ''client_type'' ''client_type'' Ptr_NULL,
      Row 4 MESSAGE OPTIONAL STATIC OTHER ''ios_client_info'' ''client_type'' (Ptr_fields gdt_cct_IosClientInfo_fields)]"

definition gdt_cct_ClientInfo_fields :: "pb_field list" where
  "gdt_cct_ClientInfo_fields = PB_FIELDS gdt_cct_ClientInfo gdt_cct_ClientInfo_rows"

definition gdt_cct_LogRequest_rows :: "row list" where
  "gdt_cct_LogRequest_rows =
     [Row 1 MESSAGE OPTIONAL STATIC FIRST ''client_info'' ''client_info'' (Ptr_fields gdt_cct_ClientInfo_fields),
      Row 2 INT32 OPTIONAL STATIC OTHER ''log_source'' ''client_info'' Ptr_NULL,
      Row 3 MESSAGE REPEATED POINTER OTHER ''log_event'' ''log_source'' (Ptr_fields gdt_cct_LogEvent_fields),
      Row 4 INT64 OPTIONAL STATIC OTHER ''request_time_ms'' ''log_event'' Ptr_NULL,
      Row 8 INT64 OPTIONAL STATIC OTHER ''request_uptime_ms'' ''request_time_ms'' Ptr_NULL,
      Row 9 UENUM OPTIONAL STATIC OTHER ''qos_tier'' ''request_uptime_ms'' (Ptr_default gdt_cct_LogRequest_qos_tier_default)]"

definition gdt_cct_LogRequest_fields :: "pb_field list" where
  "gdt_cct_LogRequest_fields = PB_FIELDS gdt_cct_LogRequest gdt_cct_LogRequest_rows"

definition gdt_cct_BatchedLogRequest_rows :: "row list" where
  "gdt_cct_BatchedLogRequest_rows =
     [Row 1 MESSAGE REPEATED POINTER FIRST ''log_request'' ''log_request'' (Ptr_fields gdt_cct_LogRequest_fields)]"

definition gdt_cct_BatchedLogRequest_fields :: "pb_field list" where
  "gdt_cct_BatchedLogRequest_fields = PB_FIELDS gdt_cct_BatchedLogRequest gdt_cct_BatchedLogRequest_rows"

definition gdt_cct_QosTierConfiguration_rows :: "row list" where
  "gdt_cct_QosTierConfiguration_rows =
     [Row 2 UENUM OPTIONAL STATIC FIRST ''qos_tier'' ''qos_tier'' Ptr_NULL,
      Row 3 INT32 OPTIONAL STATIC OTHER ''log_source'' ''qos_tier'' (Ptr_default gdt_cct_QosTierConfiguration_log_source_default)]"

definition gdt_cct_QosTierConfiguration_fields :: "pb_field list" where
  "gdt_cct_QosTierConfiguration_fields = PB_FIELDS gdt_cct_QosTierConfiguration gdt_cct_QosTierConfiguration_rows"

definition gdt_cct_QosTiersOverride_rows :: "row list" where
  "gdt_cct_QosTiersOverride_rows =
     [Row 1 MESSAGE REPEATED POINTER FIRST ''qos_tier_configuration'' ''qos_tier_configuration'' (Ptr_fields gdt_cct_QosTierConfiguration_fields),
      Row 2 INT64 OPTIONAL STATIC OTHER ''qos_tier_fingerprint'' ''qos_tier_configuration'' Ptr_NULL]"

definition gdt_cct_QosTiersOverride_fields :: "pb_field list" where
  "gdt_cct_QosTiersOverride_fields = PB_FIELDS gdt_cct_QosTiersOverride gdt_cct_QosTiersOverride_rows"

definition gdt_cct_LogResponse_rows :: "row list" where
  "gdt_cct_LogResponse_rows =
     [Row 1 INT64 OPTIONAL STATIC FIRST ''next_request_wait_millis'' ''next_request_wait_millis'' Ptr_NULL,
      Row 3 MESSAGE OPTIONAL STATIC OTHER ''qos_tier'' ''next_request_wait_millis'' (Ptr_fields gdt_cct_QosTiersOverride_fields)]"

definition gdt_cct_LogResponse_fields :: "pb_field list" where
  "gdt_cct_LogResponse_fields = PB_FIELDS gdt_cct_LogResponse gdt_cct_LogResponse_rows"

section \<open>\<^verbatim>\<open>me.nanopb\<close>\<close>

text \<open>Enumerators and their values.\<close>

definition fm_MessagingClientEvent_MessageType :: "(string \<times> int) list" where
  "fm_MessagingClientEvent_MessageType =
     [(''UNKNOWN'', 0),
      (''DATA_MESSAGE'', 1),
      (''TOPIC'', 2),
      (''DISPLAY_NOTIFICATION'', 3)]"

definition fm_MessagingClientEvent_SDKPlatform :: "(string \<times> int) list" where
  "fm_MessagingClientEvent_SDKPlatform =
     [(''UNKNOWN_OS'', 0),
      (''ANDROID'', 1),
      (''IOS'', 2),
      (''WEB'', 3)]"

definition fm_MessagingClientEvent_Event :: "(string \<times> int) list" where
  "fm_MessagingClientEvent_Event =
     [(''UNKNOWN_EVENT'', 0),
      (''MESSAGE_DELIVERED'', 1),
      (''MESSAGE_OPEN'', 2)]"

text \<open>Message structures.\<close>

definition fm_MessagingClientEvent :: ctype where
  "fm_MessagingClientEvent = C_struct
     [Member ''project_number'' C_int64,
      Member ''message_id'' (C_ptr pb_bytes_array_t),
      Member ''instance_id'' (C_ptr pb_bytes_array_t),
      Member ''message_type'' C_enum,
      Member ''sdk_platform'' C_enum,
      Member ''package_name'' (C_ptr pb_bytes_array_t),
      Member ''event'' C_enum,
      Member ''analytics_label'' (C_ptr pb_bytes_array_t),
      Member ''campaign_id'' C_int64,
      Member ''composer_label'' (C_ptr pb_bytes_array_t)]"

definition fm_MessagingClientEventExtension :: ctype where
  "fm_MessagingClientEventExtension = C_struct
     [Member ''messaging_client_event'' (C_ptr fm_MessagingClientEvent)]"

text \<open>Descriptor tables.\<close>

definition fm_MessagingClientEvent_rows :: "row list" where
  "fm_MessagingClientEvent_rows =
     [Row 1 INT64 SINGULAR STATIC FIRST ''project_number'' ''project_number'' Ptr_NULL,
      Row 2 BYTES SINGULAR POINTER OTHER ''message_id'' ''project_number'' Ptr_NULL,
      Row 3 BYTES SINGULAR POINTER OTHER ''instance_id'' ''message_id'' Ptr_NULL,
      Row 4 UENUM SINGULAR STATIC OTHER ''message_type'' ''instance_id'' Ptr_NULL,
      Row 5 UENUM SINGULAR STATIC OTHER ''sdk_platform'' ''message_type'' Ptr_NULL,
      Row 6 BYTES SINGULAR POINTER OTHER ''package_name'' ''sdk_platform'' Ptr_NULL,
      Row 12 UENUM SINGULAR STATIC OTHER ''event'' ''package_name'' Ptr_NULL,
      Row 13 BYTES SINGULAR POINTER OTHER ''analytics_label'' ''event'' Ptr_NULL,
      Row 14 INT64 SINGULAR STATIC OTHER ''campaign_id'' ''analytics_label'' Ptr_NULL,
      Row 15 BYTES SINGULAR POINTER OTHER ''composer_label'' ''campaign_id'' Ptr_NULL]"

definition fm_MessagingClientEvent_fields :: "pb_field list" where
  "fm_MessagingClientEvent_fields = PB_FIELDS fm_MessagingClientEvent fm_MessagingClientEvent_rows"

definition fm_MessagingClientEventExtension_rows :: "row list" where
  "fm_MessagingClientEventExtension_rows =
     [Row 1 MESSAGE SINGULAR POINTER FIRST ''messaging_client_event'' ''messaging_client_event'' (Ptr_fields fm_MessagingClientEvent_fields)]"

definition fm_MessagingClientEventExtension_fields :: "pb_field list" where
  "fm_MessagingClientEventExtension_fields = PB_FIELDS fm_MessagingClientEventExtension fm_MessagingClientEventExtension_rows"

section \<open>\<^verbatim>\<open>firebasecore.nanopb\<close>\<close>

text \<open>Enumerators and their values.\<close>

definition logs_proto_mobilesdk_ios_ICoreConfiguration_ConfigurationType :: "(string \<times> int) list" where
  "logs_proto_mobilesdk_ios_ICoreConfiguration_ConfigurationType =
     [(''UNKNOWN_CONFIGURATION_TYPE'', 0),
      (''CORE'', 1),
      (''SDK'', 2)]"

definition logs_proto_mobilesdk_ios_ICoreConfiguration_BuildType :: "(string \<times> int) list" where
  "logs_proto_mobilesdk_ios_ICoreConfiguration_BuildType =
     [(''UNKNOWN_BUILD_TYPE'', 0),
      (''INTERNAL'', 1),
      (''EAP'', 2),
      (''PROD'', 3)]"

definition logs_proto_mobilesdk_ios_ICoreConfiguration_ServiceType :: "(string \<times> int) list" where
  "logs_proto_mobilesdk_ios_ICoreConfiguration_ServiceType =
     [(''UNKNOWN_SDK_SERVICE'', 0),
      (''ICORE'', 1),
      (''ADMOB'', 2),
      (''APP_INVITE'', 3),
      (''SIGN_IN'', 5),
      (''GCM'', 6),
      (''MAPS'', 7),
      (''SCION'', 8),
      (''ANALYTICS'', 9),
      (''APP_INDEXING'', 10),
      (''CONFIG'', 11),
      (''DURABLE_DEEP_LINKS'', 12),
      (''CRASH'', 13),
      (''AUTH'', 14),
      (''DATABASE'', 15),
      (''STORAGE'', 16),
      (''MESSAGING'', 17),
      (''MEASUREMENT'', 18),
      (''REMOTE_CONFIG'', 19),
      (''DYNAMIC_LINKS'', 20),
      (''INVITES'', 21),
      (''AUTH_UI'', 22),
      (''FIRESTORE'', 23),
      (''PERFORMANCE'', 24),
      (''ML_VISION_ON_DEVICE_FACE'', 26),
      (''ML_VISION_ON_DEVICE_BARCODE'', 27),
      (''ML_VISION_ON_DEVICE_TEXT'', 28),
      (''ML_VISION_ON_DEVICE_LABEL'', 29),
      (''ML_MODEL_INTERPRETER'', 30),
      (''IN_APP_MESSAGING'', 31),
      (''FUNCTIONS'', 32),
      (''ML_NATURAL_LANGUAGE'', 33),
      (''ML_VISION_ON_DEVICE_AUTOML'', 34),
      (''ML_VISION_ON_DEVICE_OBJECT_DETECTION'', 35)]"

definition logs_proto_mobilesdk_ios_ICoreConfiguration_PodName :: "(string \<times> int) list" where
  "logs_proto_mobilesdk_ios_ICoreConfiguration_PodName =
     [(''UNKNOWN_POD_NAME'', 0),
      (''GOOGLE'', 1),
      (''FIREBASE'', 2)]"

definition logs_proto_mobilesdk_ios_ICoreConfiguration_DeploymentType :: "(string \<times> int) list" where
  "logs_proto_mobilesdk_ios_ICoreConfiguration_DeploymentType =
     [(''UNKNOWN'', 0),
      (''COCOAPODS'', 1),
      (''ZIP_FILE'', 2),
      (''CARTHAGE'', 3),
      (''SPM'', 4)]"

text \<open>Message structures.\<close>

definition logs_proto_mobilesdk_ios_ICoreConfiguration :: ctype where
  "logs_proto_mobilesdk_ios_ICoreConfiguration = C_struct
     [Member ''has_configuration_type'' C_bool,
      Member ''configuration_type'' C_enum,
      Member ''sdk_service_installed_count'' C_pb_size,
      Member ''sdk_service_installed'' (C_ptr C_enum),
      Member ''device_model'' (C_ptr pb_bytes_array_t),
      Member ''app_id'' (C_ptr pb_bytes_array_t),
      Member ''bundle_id'' (C_ptr pb_bytes_array_t),
      Member ''has_pod_name'' C_bool,
      Member ''pod_name'' C_enum,
      Member ''icore_version'' (C_ptr pb_bytes_array_t),
      Member ''sdk_version'' (C_ptr pb_bytes_array_t),
      Member ''has_sdk_name'' C_bool,
      Member ''sdk_name'' C_enum,
      Member ''has_app_count'' C_bool,
      Member ''app_count'' C_int32,
      Member ''os_version'' (C_ptr pb_bytes_array_t),
      Member ''min_supported_ios_version'' (C_ptr pb_bytes_array_t),
      Member ''has_use_default_app'' C_bool,
      Member ''use_default_app'' C_bool,
      Member ''has_deployed_in_app_store'' C_bool,
      Member ''deployed_in_app_store'' C_bool,
      Member ''has_dynamic_framework_count'' C_bool,
      Member ''dynamic_framework_count'' C_int32,
      Member ''apple_framework_version'' (C_ptr pb_bytes_array_t),
      Member ''has_using_zip_file'' C_bool,
      Member ''using_zip_file'' C_bool,
      Member ''has_deployment_type'' C_bool,
      Member ''deployment_type'' C_enum,
      Member ''platform_info'' (C_ptr pb_bytes_array_t),
      Member ''has_swizzling_enabled'' C_bool,
      Member ''swizzling_enabled'' C_bool,
      Member ''has_using_gdt'' C_bool,
      Member ''using_gdt'' C_bool]"

text \<open>Descriptor tables.\<close>

definition logs_proto_mobilesdk_ios_ICoreConfiguration_rows :: "row list" where
  "logs_proto_mobilesdk_ios_ICoreConfiguration_rows =
     [Row 1 UENUM OPTIONAL STATIC FIRST ''configuration_type'' ''configuration_type'' Ptr_NULL,
      Row 7 UENUM REPEATED POINTER OTHER ''sdk_service_installed'' ''configuration_type'' Ptr_NULL,
      Row 9 BYTES OPTIONAL POINTER OTHER ''device_model'' ''sdk_service_installed'' Ptr_NULL,
      Row 10 BYTES OPTIONAL POINTER OTHER ''app_id'' ''device_model'' Ptr_NULL,
      Row 12 BYTES OPTIONAL POINTER OTHER ''bundle_id'' ''app_id'' Ptr_NULL,
      Row 16 UENUM OPTIONAL STATIC OTHER ''pod_name'' ''bundle_id'' Ptr_NULL,
      Row 18 BYTES OPTIONAL POINTER OTHER ''icore_version'' ''pod_name'' Ptr_NULL,
      Row 19 BYTES OPTIONAL POINTER OTHER ''sdk_version'' ''icore_version'' Ptr_NULL,
      Row 20 UENUM OPTIONAL STATIC OTHER ''sdk_name'' ''sdk_version'' Ptr_NULL,
      Row 21 INT32 OPTIONAL STATIC OTHER ''app_count'' ''sdk_name'' Ptr_NULL,
      Row 22 BYTES OPTIONAL POINTER OTHER ''os_version'' ''app_count'' Ptr_NULL,
      Row 24 BYTES OPTIONAL POINTER OTHER ''min_supported_ios_version'' ''os_version'' Ptr_NULL,
      Row 25 BOOL OPTIONAL STATIC OTHER ''use_default_app'' ''min_supported_ios_version'' Ptr_NULL,
      Row 26 BOOL OPTIONAL STATIC OTHER ''deployed_in_app_store'' ''use_default_app'' Ptr_NULL,
      Row 27 INT32 OPTIONAL STATIC OTHER ''dynamic_framework_count'' ''deployed_in_app_store'' Ptr_NULL,
      Row 28 BYTES OPTIONAL POINTER OTHER ''apple_framework_version'' ''dynamic_framework_count'' Ptr_NULL,
      Row 29 BOOL OPTIONAL STATIC OTHER ''using_zip_file'' ''apple_framework_version'' Ptr_NULL,
      Row 30 UENUM OPTIONAL STATIC OTHER ''deployment_type'' ''using_zip_file'' Ptr_NULL,
      Row 31 BYTES OPTIONAL POINTER OTHER ''platform_info'' ''deployment_type'' Ptr_NULL,
      Row 33 BOOL OPTIONAL STATIC OTHER ''swizzling_enabled'' ''platform_info'' Ptr_NULL,
      Row 36 BOOL OPTIONAL STATIC OTHER ''using_gdt'' ''swizzling_enabled'' Ptr_NULL]"

definition logs_proto_mobilesdk_ios_ICoreConfiguration_fields :: "pb_field list" where
  "logs_proto_mobilesdk_ios_ICoreConfiguration_fields = PB_FIELDS logs_proto_mobilesdk_ios_ICoreConfiguration logs_proto_mobilesdk_ios_ICoreConfiguration_rows"

section \<open>Field tags and sizes\<close>

text \<open>The \<^verbatim>\<open>_tag\<close> macros of each message, by field, and the sizes the headers give.\<close>

definition gdt_cct_NetworkConnectionInfo_tags :: "(string \<times> u32) list" where
  "gdt_cct_NetworkConnectionInfo_tags =
     [(''network_type'', 1),
      (''mobile_subtype'', 2)]"

definition gdt_cct_LogEvent_tags :: "(string \<times> u32) list" where
  "gdt_cct_LogEvent_tags =
     [(''event_time_ms'', 1),
      (''event_code'', 11),
      (''event_uptime_ms'', 17),
      (''source_extension'', 6),
      (''timezone_offset_seconds'', 15),
      (''network_connection_info'', 23)]"

definition gdt_cct_IosClientInfo_tags :: "(string \<times> u32) list" where
  "gdt_cct_IosClientInfo_tags =
     [(''os_major_version'', 3),
      (''os_full_version'', 4),
      (''application_build'', 5),
      (''country'', 6),
      (''model'', 7),
      (''language_code'', 8),
      (''application_bundle_id'', 11)]"

definition gdt_cct_ClientInfo_tags :: "(string \<times> u32) list" where
  "gdt_cct_ClientInfo_tags =
     [(''client_type'', 1),
      (''ios_client_info'', 4)]"

definition gdt_cct_LogRequest_tags :: "(string \<times> u32) list" where
  "gdt_cct_LogRequest_tags =
     [(''request_time_ms'', 4),
      (''request_uptime_ms'', 8),
      (''client_info'', 1),
      (''log_source'', 2),
      (''log_event'', 3),
      (''qos_tier'', 9)]"

definition gdt_cct_BatchedLogRequest_tags :: "(string \<times> u32) list" where
  "gdt_cct_BatchedLogRequest_tags =
     [(''log_request'', 1)]"

definition gdt_cct_QosTierConfiguration_tags :: "(string \<times> u32) list" where
  "gdt_cct_QosTierConfiguration_tags =
     [(''qos_tier'', 2),
      (''log_source'', 3)]"

definition gdt_cct_QosTiersOverride_tags :: "(string \<times> u32) list" where
  "gdt_cct_QosTiersOverride_tags =
     [(''qos_tier_configuration'', 1),
      (''qos_tier_fingerprint'', 2)]"

definition gdt_cct_LogResponse_tags :: "(string \<times> u32) list" where
  "gdt_cct_LogResponse_tags =
     [(''next_request_wait_millis'', 1),
      (''qos_tier'', 3)]"

definition fm_MessagingClientEvent_tags :: "(string \<times> u32) list" where
  "fm_MessagingClientEvent_tags =
     [(''project_number'', 1),
      (''message_id'', 2),
      (''instance_id'', 3),
      (''message_type'', 4),
      (''sdk_platform'', 5),
      (''package_name'', 6),
      (''event'', 12),
      (''analytics_label'', 13),
      (''campaign_id'', 14),
      (''composer_label'', 15)]"

definition fm_MessagingClientEventExtension_tags :: "(string \<times> u32) list" where
  "fm_MessagingClientEventExtension_tags =
     [(''messaging_client_event'', 1)]"

definition logs_proto_mobilesdk_ios_ICoreConfiguration_tags :: "(string \<times> u32) list" where
  "logs_proto_mobilesdk_ios_ICoreConfiguration_tags =
     [(''pod_name'', 16),
      (''configuration_type'', 1),
      (''icore_version'', 18),
      (''sdk_version'', 19),
      (''sdk_service_installed'', 7),
      (''sdk_name'', 20),
      (''device_model'', 9),
      (''os_version'', 22),
      (''app_id'', 10),
      (''bundle_id'', 12),
      (''min_supported_ios_version'', 24),
      (''use_default_app'', 25),
      (''app_count'', 21),
      (''deployed_in_app_store'', 26),
      (''dynamic_framework_count'', 27),
      (''apple_framework_version'', 28),
      (''using_zip_file'', 29),
      (''deployment_type'', 30),
      (''platform_info'', 31),
      (''swizzling_enabled'', 33),
      (''using_gdt'', 36)]"

definition gdt_cct_NetworkConnectionInfo_size :: nat where
  "gdt_cct_NetworkConnectionInfo_size = 13"

definition gdt_cct_QosTierConfiguration_size :: nat where
  "gdt_cct_QosTierConfiguration_size = 13"

section \<open>All tables\<close>

text \<open>Every structure with its rows, and its rows with their tag macros.\<close>

definition generated_tables :: "(ctype \<times> row list) list" where
  "generated_tables =
     [(gdt_cct_NetworkConnectionInfo, gdt_cct_NetworkConnectionInfo_rows),
      (gdt_cct_LogEvent, gdt_cct_LogEvent_rows),
      (gdt_cct_IosClientInfo, gdt_cct_IosClientInfo_rows),
      (gdt_cct_ClientInfo, gdt_cct_ClientInfo_rows),
      (gdt_cct_LogRequest, gdt_cct_LogRequest_rows),
      (gdt_cct_BatchedLogRequest, gdt_cct_BatchedLogRequest_rows),
      (gdt_cct_QosTierConfiguration, gdt_cct_QosTierConfiguration_rows),
      (gdt_cct_QosTiersOverride, gdt_cct_QosTiersOverride_rows),
      (gdt_cct_LogResponse, gdt_cct_LogResponse_rows),
      (fm_MessagingClientEvent, fm_MessagingClientEvent_rows),
      (fm_MessagingClientEventExtension, fm_MessagingClientEventExtension_rows),
      (logs_proto_mobilesdk_ios_ICoreConfiguration, logs_proto_mobilesdk_ios_ICoreConfiguration_rows)]"

definition generated_tags :: "(row list \<times> (string \<times> u32) list) list" where
  "generated_tags =
     [(gdt_cct_NetworkConnectionInfo_rows, gdt_cct_NetworkConnectionInfo_tags),
      (gdt_cct_LogEvent_rows, gdt_cct_LogEvent_tags),
      (gdt_cct_IosClientInfo_rows, gdt_cct_IosClientInfo_tags),
      (gdt_cct_ClientInfo_rows, gdt_cct_ClientInfo_tags),
      (gdt_cct_LogRequest_rows, gdt_cct_LogRequest_tags),
      (gdt_cct_BatchedLogRequest_rows, gdt_cct_BatchedLogRequest_tags),
      (gdt_cct_QosTierConfiguration_rows, gdt_cct_QosTierConfiguration_tags),
      (gdt_cct_QosTiersOverride_rows, gdt_cct_QosTiersOverride_tags),
      (gdt_cct_LogResponse_rows, gdt_cct_LogResponse_tags),
      (fm_MessagingClientEvent_rows, fm_MessagingClientEvent_tags),
      (fm_MessagingClientEventExtension_rows, fm_MessagingClientEventExtension_tags),
      (logs_proto_mobilesdk_ios_ICoreConfiguration_rows, logs_proto_mobilesdk_ios_ICoreConfiguration_tags)]"

end
