(* ===== verification/Ldb_Coding.thy ===== *)
theory Ldb_Coding
  imports Pb_Read
begin

unbundle bit_operations_syntax

text \<open>
  \<^verbatim>\<open>leveldb-library/util/coding.cc\<close> and \<^verbatim>\<open>coding.h\<close>: the integers and strings of the
  database files. A \<^verbatim>\<open>std::string\<close> and a \<^verbatim>\<open>Slice\<close> are lists of bytes; a pair of pointers
  \<^verbatim>\<open>p\<close>, \<^verbatim>\<open>limit\<close> is the list of the bytes between them. The lemmas show that the varints are
  those of the protocol buffers library and that every \<^verbatim>\<open>Get\<close> undoes its \<^verbatim>\<open>Put\<close>; the
  locale \<open>prefix_code\<close> states what the formats built from them rely on.
\<close>

type_synonym slice = "byte list"

section \<open>Fixed-length integers\<close>

text \<open>
  \<^verbatim>\<open>port::kLittleEndian\<close> on the target; \<^verbatim>\<open>memcpy\<close> of an integer then copies its bytes
  with the least significant one first.
\<close>

definition kLittleEndian :: bool where
  "kLittleEndian = True"

definition EncodeFixed32 :: "u32 \<Rightarrow> byte list" where
  "EncodeFixed32 value =
     (if kLittleEndian then le_bytes 4 (unat value)
      else [ucast (value AND 0xFF), ucast (drop_bit 8 value AND 0xFF),
            ucast (drop_bit 16 value AND 0xFF), ucast (drop_bit 24 value AND 0xFF)])"

definition EncodeFixed64 :: "u64 \<Rightarrow> byte list" where
  "EncodeFixed64 value =
     (if kLittleEndian then le_bytes 8 (unat value)
      else [ucast (value AND 0xFF), ucast (drop_bit 8 value AND 0xFF),
            ucast (drop_bit 16 value AND 0xFF), ucast (drop_bit 24 value AND 0xFF),
            ucast (drop_bit 32 value AND 0xFF), ucast (drop_bit 40 value AND 0xFF),
            ucast (drop_bit 48 value AND 0xFF), ucast (drop_bit 56 value AND 0xFF)])"

definition PutFixed32 :: "byte list \<Rightarrow> u32 \<Rightarrow> byte list" where
  "PutFixed32 dst value = dst @ EncodeFixed32 value"

definition PutFixed64 :: "byte list \<Rightarrow> u64 \<Rightarrow> byte list" where
  "PutFixed64 dst value = dst @ EncodeFixed64 value"

text \<open>The callers have checked that there are 4 or 8 bytes; nothing is said of shorter lists.\<close>

definition DecodeFixed32 :: "byte list \<Rightarrow> u32" where
  "DecodeFixed32 p =
     (if kLittleEndian then of_nat (le_val (take 4 p))
      else ucast (p ! 0) OR push_bit 8 (ucast (p ! 1)) OR push_bit 16 (ucast (p ! 2)) OR
           push_bit 24 (ucast (p ! 3)))"

definition DecodeFixed64 :: "byte list \<Rightarrow> u64" where
  "DecodeFixed64 p =
     (if kLittleEndian then of_nat (le_val (take 8 p))
      else push_bit 32 (ucast (DecodeFixed32 (drop 4 p))) OR ucast (DecodeFixed32 p))"

section \<open>Varints\<close>

definition EncodeVarint32 :: "u32 \<Rightarrow> byte list" where
  "EncodeVarint32 v =
     (let B = 128 in
      if v < push_bit 7 1 then [ucast v]
      else if v < push_bit 14 1 then [ucast (v OR B), ucast (drop_bit 7 v)]
      else if v < push_bit 21 1 then [ucast (v OR B), ucast (drop_bit 7 v OR B), ucast (drop_bit 14 v)]
      else if v < push_bit 28 1 then
        [ucast (v OR B), ucast (drop_bit 7 v OR B), ucast (drop_bit 14 v OR B), ucast (drop_bit 21 v)]
      else
        [ucast (v OR B), ucast (drop_bit 7 v OR B), ucast (drop_bit 14 v OR B),
         ucast (drop_bit 21 v OR B), ucast (drop_bit 28 v)])"

definition PutVarint32 :: "byte list \<Rightarrow> u32 \<Rightarrow> byte list" where
  "PutVarint32 dst v = dst @ EncodeVarint32 v"

function EncodeVarint64 :: "u64 \<Rightarrow> byte list" where
  "EncodeVarint64 v =
     (if 128 \<le> v then ucast (v OR 128) # EncodeVarint64 (drop_bit 7 v) else [ucast v])"
  by pat_completeness auto
termination
proof (relation "measure unat")
  fix v :: u64
  assume "128 \<le> v"
  then have "0 < unat v" by (simp add: word_le_nat_alt)
  then show "(drop_bit 7 v, v) \<in> measure unat"
    using unat_drop_bit [of 7 v] by simp
qed simp

declare EncodeVarint64.simps [simp del]

definition PutVarint64 :: "byte list \<Rightarrow> u64 \<Rightarrow> byte list" where
  "PutVarint64 dst v = dst @ EncodeVarint64 v"

definition PutLengthPrefixedSlice :: "byte list \<Rightarrow> slice \<Rightarrow> byte list" where
  "PutLengthPrefixedSlice dst value = PutVarint32 dst (of_nat (length value)) @ value"

text \<open>\<^verbatim>\<open>while (v >= 128)\<close> of \<^verbatim>\<open>VarintLength\<close>.\<close>

function VarintLength_loop :: "u64 \<Rightarrow> int \<Rightarrow> int" where
  "VarintLength_loop v len = (if 128 \<le> v then VarintLength_loop (drop_bit 7 v) (len + 1) else len)"
  by pat_completeness auto
termination
proof (relation "measure (unat \<circ> fst)")
  fix v :: u64 and len :: int
  assume "128 \<le> v"
  then have "0 < unat v" by (simp add: word_le_nat_alt)
  then show "((drop_bit 7 v, len + 1), v, len) \<in> measure (unat \<circ> fst)"
    using unat_drop_bit [of 7 v] by simp
qed simp

declare VarintLength_loop.simps [simp del]

definition VarintLength :: "u64 \<Rightarrow> int" where
  "VarintLength v = VarintLength_loop v 1"

text \<open>
  The pointer variants return the value and the bytes after it, or nothing for
  \<^verbatim>\<open>nullptr\<close>.
\<close>

fun varint32_ptr_loop :: "nat \<Rightarrow> u32 \<Rightarrow> byte list \<Rightarrow> (u32 \<times> byte list) option" where
  "varint32_ptr_loop shift result [] = None"
| "varint32_ptr_loop shift result (c # p) =
     (if shift \<le> 28 then
        let b = ucast c in
        if b AND 128 \<noteq> 0 then varint32_ptr_loop (shift + 7) (result OR push_bit shift (b AND 127)) p
        else Some (result OR push_bit shift b, p)
      else None)"

definition GetVarint32PtrFallback :: "byte list \<Rightarrow> (u32 \<times> byte list) option" where
  "GetVarint32PtrFallback p = varint32_ptr_loop 0 0 p"

definition GetVarint32Ptr :: "byte list \<Rightarrow> (u32 \<times> byte list) option" where
  "GetVarint32Ptr p =
     (case p of
        [] \<Rightarrow> GetVarint32PtrFallback p
      | c # q \<Rightarrow>
          let result = ucast c in
          if result AND 128 = 0 then Some (result, q) else GetVarint32PtrFallback p)"

fun varint64_ptr_loop :: "nat \<Rightarrow> u64 \<Rightarrow> byte list \<Rightarrow> (u64 \<times> byte list) option" where
  "varint64_ptr_loop shift result [] = None"
| "varint64_ptr_loop shift result (c # p) =
     (if shift \<le> 63 then
        let b = ucast c in
        if b AND 128 \<noteq> 0 then varint64_ptr_loop (shift + 7) (result OR push_bit shift (b AND 127)) p
        else Some (result OR push_bit shift b, p)
      else None)"

definition GetVarint64Ptr :: "byte list \<Rightarrow> (u64 \<times> byte list) option" where
  "GetVarint64Ptr p = varint64_ptr_loop 0 0 p"

text \<open>
  The variants on a \<^verbatim>\<open>Slice*\<close>: the value, or nothing for \<^verbatim>\<open>false\<close>, and the slice
  afterwards, which a failed varint leaves as it was.
\<close>

definition GetVarint32 :: "slice \<Rightarrow> u32 option \<times> slice" where
  "GetVarint32 input =
     (case GetVarint32Ptr input of None \<Rightarrow> (None, input) | Some (v, q) \<Rightarrow> (Some v, q))"

definition GetVarint64 :: "slice \<Rightarrow> u64 option \<times> slice" where
  "GetVarint64 input =
     (case GetVarint64Ptr input of None \<Rightarrow> (None, input) | Some (v, q) \<Rightarrow> (Some v, q))"

definition GetLengthPrefixedSlicePtr :: "byte list \<Rightarrow> (slice \<times> byte list) option" where
  "GetLengthPrefixedSlicePtr p =
     (case GetVarint32Ptr p of
        None \<Rightarrow> None
      | Some (len, q) \<Rightarrow>
          if length q < unat len then None else Some (take (unat len) q, drop (unat len) q))"

definition GetLengthPrefixedSlice :: "slice \<Rightarrow> slice option \<times> slice" where
  "GetLengthPrefixedSlice input =
     (case GetVarint32 input of
        (None, input1) \<Rightarrow> (None, input1)
      | (Some len, input1) \<Rightarrow>
          if unat len \<le> length input1 then (Some (take (unat len) input1), drop (unat len) input1)
          else (None, input1))"


section \<open>The formats are prefix codes\<close>

text \<open>
  What the users of a format rely on: the decoder reads a value off the front of any
  continuation of its encoding, and no encoding is empty.
\<close>

locale prefix_code =
  fixes enc :: "'a \<Rightarrow> byte list" and dec :: "byte list \<Rightarrow> ('a \<times> byte list) option" and ok :: "'a \<Rightarrow> bool"
  assumes dec_enc: "ok x \<Longrightarrow> dec (enc x @ rest) = Some (x, rest)"
    and enc_nonempty: "ok x \<Longrightarrow> enc x \<noteq> []"
begin

lemma enc_inj:
  assumes "ok x" "ok y" "enc x @ r = enc y @ s"
  shows "x = y \<and> r = s"
  by (metis assms dec_enc option.inject prod.inject)

lemma concat_inj:
  "list_all ok xs \<Longrightarrow> list_all ok ys \<Longrightarrow> concat (map enc xs) = concat (map enc ys) \<Longrightarrow> xs = ys"
proof (induction xs arbitrary: ys)
  case Nil
  then show ?case using enc_nonempty by (cases ys) auto
next
  case (Cons x xs)
  show ?case
  proof (cases ys)
    case Nil
    with Cons.prems enc_nonempty show ?thesis by auto
  next
    case (Cons y zs)
    with Cons.prems have "x = y \<and> concat (map enc xs) = concat (map enc zs)"
      by (intro enc_inj) auto
    with Cons.IH [of zs] Cons.prems Cons show ?thesis by auto
  qed
qed

end

section \<open>Encodings\<close>

lemma EncodeFixed32_le: "EncodeFixed32 v = le_bytes 4 (unat v)"
  by (simp add: EncodeFixed32_def kLittleEndian_def)

lemma EncodeFixed64_le: "EncodeFixed64 v = le_bytes 8 (unat v)"
  by (simp add: EncodeFixed64_def kLittleEndian_def)

lemma length_EncodeFixed [simp]: "length (EncodeFixed32 v) = 4" "length (EncodeFixed64 w) = 8"
  by (simp_all add: EncodeFixed32_le EncodeFixed64_le)

text \<open>The branch for the other byte order writes the same bytes.\<close>

lemma fixed_portable:
  "[ucast (v AND 0xFF), ucast (drop_bit 8 v AND 0xFF), ucast (drop_bit 16 v AND 0xFF),
    ucast (drop_bit 24 v AND 0xFF)] = EncodeFixed32 v"
  using fixed32_bytes_le [of v] by (simp add: fixed32_bytes_def EncodeFixed32_le)

lemma DecodeFixed32_Encode [simp]: "DecodeFixed32 (EncodeFixed32 v @ rest) = v"
  using unat_lt_u32 [of v]
  by (simp add: DecodeFixed32_def EncodeFixed32_le kLittleEndian_def le_val_le_bytes)

lemma DecodeFixed64_Encode [simp]: "DecodeFixed64 (EncodeFixed64 v @ rest) = v"
  using unat_lt_u64 [of v]
  by (simp add: DecodeFixed64_def EncodeFixed64_le kLittleEndian_def le_val_le_bytes)

lemma DecodeFixed_exact [simp]:
  "DecodeFixed32 (EncodeFixed32 v) = v" "DecodeFixed64 (EncodeFixed64 w) = w"
  using DecodeFixed32_Encode [of v "[]"] DecodeFixed64_Encode [of w "[]"] by simp_all

text \<open>Arrays of 32-bit numbers.\<close>

lemma unat_u32 [simp]: "n < 2 ^ 32 \<Longrightarrow> unat (of_nat n :: u32) = n"
  by (simp add: unsigned_of_nat take_bit_nat_eq_self)

lemma length_fixed32_array: "length (concat (map (\<lambda>r. EncodeFixed32 (f r)) rs)) = 4 * length rs"
  by (induction rs) auto

lemma concat_nth_fixed:
  "j < length rs \<Longrightarrow> drop (4 * j) (concat (map (\<lambda>r. EncodeFixed32 (f r)) rs) @ zs) =
     EncodeFixed32 (f (rs ! j)) @ drop (4 * Suc j) (concat (map (\<lambda>r. EncodeFixed32 (f r)) rs) @ zs)"
proof (induction rs arbitrary: j)
  case (Cons r rs)
  then show ?case by (cases j) auto
qed simp

lemma and_128_bit: "(x :: 'a::len word) AND 128 = 0 \<longleftrightarrow> \<not> bit x 7"
  using and_exp_eq_0_iff_not_bit [of x 7] by simp

lemma or_128_bit: "(x :: 'a::len word) OR 128 = set_bit 7 x"
  by (simp add: set_bit_eq_or)

lemma le_128: "128 \<le> (v :: u64) \<longleftrightarrow> \<not> v \<le> 0x7F"
  by (auto simp: word_le_nat_alt)

lemma high_byte_ucast:
  assumes "n < 64"
  shows "ucast (drop_bit n v OR 128 :: u64) = (ucast (drop_bit n v AND 127) OR 128 :: byte)"
  unfolding and_127 or_128_bit
  by (rule bit_word_eqI) (auto simp: bit_simps less_Suc_eq numeral_eq_Suc)

text \<open>The varints are those of \<^verbatim>\<open>pb_encode_varint\<close>.\<close>

lemma EncodeVarint64_eq: "EncodeVarint64 v = varint_bytes v"
proof (induction v rule: EncodeVarint64.induct)
  case (1 v)
  have "ucast (v OR 128) = (ucast (v AND 127) OR 128 :: byte)"
    using high_byte_ucast [of 0 v] by simp
  then show ?case
    using 1 by (auto simp: EncodeVarint64.simps [of v] varint_bytes_rec [of v] le_128)
qed

lemma ucast_drop_bit: "drop_bit n (ucast (v :: u32) :: u64) = ucast (drop_bit n v)"
  by (rule bit_word_eqI) (auto simp: bit_simps dest: bit_imp_le_length)

lemma ucast_or_128: "ucast ((v :: u32) OR 128) = (ucast (ucast v OR (128 :: u64)) :: byte)"
  by (rule bit_word_eqI) (auto simp: bit_simps)

lemma ucast_byte: "ucast (v :: u32) = (ucast (ucast v :: u64) :: byte)"
  by (rule bit_word_eqI) (auto simp: bit_simps)

lemma varint_bytes_u32:
  "varint_bytes (ucast (v :: u32)) =
     (if v < 128 then [ucast v] else ucast (v OR 128) # varint_bytes (ucast (drop_bit 7 v)))"
proof -
  have "v < 128 \<longleftrightarrow> (ucast v :: u64) \<le> 0x7F"
    by (auto simp: word_le_nat_alt word_less_nat_alt ucast_u32_u64_unat)
  moreover have "ucast (v OR 128) = (ucast ((ucast v :: u64) AND 127) OR 128 :: byte)"
    using high_byte_ucast [of 0 "ucast v"] by (simp add: ucast_or_128)
  ultimately show ?thesis
    by (simp add: varint_bytes_rec [of "ucast v"] ucast_drop_bit flip: ucast_byte)
qed

lemma drop_bit_less: "drop_bit n v < (128 :: u32) \<longleftrightarrow> unat v < 2 ^ n * 128"
  by (simp only: word_less_nat_alt unat_drop_bit) (simp add: div_less_iff_less_mult mult.commute)

lemma EncodeVarint32_eq: "EncodeVarint32 v = varint_bytes (ucast v)"
proof -
  have "varint_bytes (ucast v) =
     (if v < 128 then [ucast v]
      else if drop_bit 7 v < 128 then [ucast (v OR 128), ucast (drop_bit 7 v)]
      else if drop_bit 14 v < 128 then [ucast (v OR 128), ucast (drop_bit 7 v OR 128), ucast (drop_bit 14 v)]
      else if drop_bit 21 v < 128 then
        [ucast (v OR 128), ucast (drop_bit 7 v OR 128), ucast (drop_bit 14 v OR 128), ucast (drop_bit 21 v)]
      else
        [ucast (v OR 128), ucast (drop_bit 7 v OR 128), ucast (drop_bit 14 v OR 128),
         ucast (drop_bit 21 v OR 128), ucast (drop_bit 28 v)])"
  proof -
    have "drop_bit 28 v < 128" using unat_lt_u32 [of v] by (simp add: drop_bit_less)
    then show ?thesis by (simp add: varint_bytes_u32)
  qed
  then show ?thesis
    unfolding drop_bit_less by (auto simp: EncodeVarint32_def Let_def push_bit_eq_mult word_less_nat_alt)
qed

lemma VarintLength_eq: "VarintLength v = int (length (varint_bytes v))"
proof -
  have "VarintLength_loop v n = n - 1 + int (length (varint_bytes v))" for n
  proof (induction v n rule: VarintLength_loop.induct)
    case (1 v n)
    then show ?case
      by (auto simp: VarintLength_loop.simps [of v] varint_bytes_rec [of v] le_128)
  qed
  then show ?thesis by (simp add: VarintLength_def)
qed

section \<open>Decoding\<close>

lemma byte_stops: "ucast (b :: byte) AND 128 = (0 :: 'a::len word) \<longleftrightarrow> b AND 0x80 = 0" if "8 \<le> LENGTH('a)"
  using that by (simp add: and_128_bit bit_simps)

lemma byte_last:
  assumes "(b :: byte) AND 0x80 = 0"
  shows "b AND 0x7F = b"
proof -
  have "\<not> bit b 7" using assms by (simp add: and_128)
  then have "bit b n \<Longrightarrow> n < 7" for n
    using bit_imp_le_length [of b n] by (cases "n = 7") auto
  then show ?thesis
    unfolding and_127 by (intro bit_word_eqI) (auto simp: bit_simps)
qed

lemma byte_low: "(ucast (b :: byte) AND 127 :: 'a::len word) = ucast (b AND 0x7F)"
  unfolding and_127 by (rule bit_word_eqI) (auto simp: bit_simps)

lemma varint64_loop_form:
  "varint_form a \<Longrightarrow> shift + 7 * length a \<le> 70 \<Longrightarrow>
   varint64_ptr_loop shift r (a @ rest) = Some (r OR varint_acc shift a, rest)"
proof (induction a arbitrary: shift r)
  case (Cons b a)
  show ?case
  proof (cases a)
    case Nil
    with Cons.prems have "b AND 0x80 = 0" by simp
    with Cons.prems Nil show ?thesis by (simp add: byte_stops byte_last Let_def)
  next
    case (Cons c d)
    with Cons.prems have "varint_form a" "b AND 0x80 \<noteq> 0" by auto
    with Cons.IH [of "shift + 7"] Cons.prems show ?thesis
      by (simp add: byte_stops byte_low or.assoc Let_def)
  qed
qed simp

lemma varint32_loop_form:
  "varint_form a \<Longrightarrow> shift + 7 * length a \<le> 35 \<Longrightarrow>
   varint32_ptr_loop shift r (a @ rest) = Some (r OR varint_acc shift a, rest)"
proof (induction a arbitrary: shift r)
  case (Cons b a)
  show ?case
  proof (cases a)
    case Nil
    with Cons.prems have "b AND 0x80 = 0" by simp
    with Cons.prems Nil show ?thesis by (simp add: byte_stops byte_last Let_def)
  next
    case (Cons c d)
    with Cons.prems have "varint_form a" "b AND 0x80 \<noteq> 0" by auto
    with Cons.IH [of "shift + 7"] Cons.prems show ?thesis
      by (simp add: byte_stops byte_low or.assoc Let_def)
  qed
qed simp

lemma GetVarint64Ptr_form:
  "varint_form a \<Longrightarrow> length a \<le> 10 \<Longrightarrow> GetVarint64Ptr (a @ rest) = Some (of_nat (varint_val a), rest)"
  by (simp add: GetVarint64Ptr_def varint64_loop_form varint_acc_val)

text \<open>
  A five-byte varint whose value does not fit 32 bits is accepted, and reduced; the
  reader of the protocol buffers library rejects it.
\<close>

lemma GetVarint32Ptr_form:
  assumes "varint_form a" "length a \<le> 5"
  shows "GetVarint32Ptr (a @ rest) = Some (of_nat (varint_val a), rest)"
proof -
  have fb: "GetVarint32PtrFallback (a @ rest) = Some (of_nat (varint_val a), rest)"
    using assms by (simp add: GetVarint32PtrFallback_def varint32_loop_form varint_acc_val)
  show ?thesis
  proof (cases a)
    case (Cons b d)
    have "b AND 0x80 = 0 \<Longrightarrow> d = []" using assms Cons by (cases d) auto
    then have "b AND 0x80 = 0 \<Longrightarrow> d = [] \<and> ucast b = (of_nat (varint_val a) :: u32)"
      using byte_last [of b] Cons by simp
    with fb Cons show ?thesis by (auto simp: GetVarint32Ptr_def Let_def byte_stops)
  qed (use assms in simp)
qed


section \<open>Round trips\<close>

lemma GetVarint64_Encode: "GetVarint64Ptr (EncodeVarint64 v @ rest) = Some (v, rest)"
  using length_varint_bytes [of v]
  by (simp add: EncodeVarint64_eq GetVarint64Ptr_form varint_bytes_form varint_bytes_value)

lemma length_EncodeVarint32: "0 < length (EncodeVarint32 v) \<and> length (EncodeVarint32 v) \<le> 5"
  by (simp add: EncodeVarint32_def Let_def)

lemma GetVarint32_Encode: "GetVarint32Ptr (EncodeVarint32 v @ rest) = Some (v, rest)"
  using length_EncodeVarint32 [of v] unfolding EncodeVarint32_eq
  by (simp add: GetVarint32Ptr_form varint_bytes_form varint_bytes_value ucast_u32_u64_unat)

lemma PutLengthPrefixedSlice_Nil: "PutLengthPrefixedSlice dst x = dst @ PutLengthPrefixedSlice [] x"
  by (simp add: PutLengthPrefixedSlice_def PutVarint32_def)

lemma GetLengthPrefixedSlice_Put:
  assumes "length x < 2 ^ 32"
  shows "GetLengthPrefixedSlice (PutLengthPrefixedSlice [] x @ rest) = (Some x, rest)"
    and "GetLengthPrefixedSlicePtr (PutLengthPrefixedSlice [] x @ rest) = Some (x, rest)"
  using assms GetVarint32_Encode [of "of_nat (length x)" "x @ rest"]
  by (simp_all add: GetLengthPrefixedSlice_def GetLengthPrefixedSlicePtr_def GetVarint32_def
      PutLengthPrefixedSlice_def PutVarint32_def unat_of_nat take_bit_nat_eq_self)

text \<open>What a reader leaves is the rest of its input.\<close>

lemma varint32_loop_suffix: "varint32_ptr_loop s r p = Some (v, q) \<Longrightarrow> \<exists>a. a \<noteq> [] \<and> p = a @ q"
proof (induction p arbitrary: s r)
  case (Cons c p)
  then show ?case
    by (auto simp: Let_def split: if_splits) (metis append_Cons list.distinct(1))+
qed simp

lemma varint64_loop_suffix: "varint64_ptr_loop s r p = Some (v, q) \<Longrightarrow> \<exists>a. a \<noteq> [] \<and> p = a @ q"
proof (induction p arbitrary: s r)
  case (Cons c p)
  then show ?case
    by (auto simp: Let_def split: if_splits) (metis append_Cons list.distinct(1))+
qed simp

lemma GetVarint32Ptr_suffix: "GetVarint32Ptr p = Some (v, q) \<Longrightarrow> \<exists>a. a \<noteq> [] \<and> p = a @ q"
  using varint32_loop_suffix [of 0 0 p]
  by (auto simp: GetVarint32Ptr_def GetVarint32PtrFallback_def Let_def split: list.splits if_splits)

lemma GetLengthPrefixedSlice_suffix:
  "GetLengthPrefixedSlice p = (r, q) \<Longrightarrow> \<exists>a. p = a @ q \<and> (r \<noteq> None \<longrightarrow> a \<noteq> [])"
proof -
  assume *: "GetLengthPrefixedSlice p = (r, q)"
  show ?thesis
  proof (cases "GetVarint32Ptr p")
    case None
    with * show ?thesis by (auto simp: GetLengthPrefixedSlice_def GetVarint32_def)
  next
    case (Some vq)
    then obtain v p1 where v: "GetVarint32Ptr p = Some (v, p1)" by (cases vq) auto
    from GetVarint32Ptr_suffix [OF v] obtain a where a: "a \<noteq> []" "p = a @ p1" by blast
    have "p1 = take (unat v) p1 @ drop (unat v) p1" by simp
    with * v a have "p1 = q \<or> p1 = take (unat v) p1 @ q"
      by (auto simp: GetLengthPrefixedSlice_def GetVarint32_def split: if_splits)
    with a show ?thesis by (metis append.assoc append_is_Nil_conv)
  qed
qed

interpretation varint32: prefix_code EncodeVarint32 GetVarint32Ptr "\<lambda>v. True"
  using length_EncodeVarint32 by unfold_locales (auto simp: GetVarint32_Encode)

interpretation varint64: prefix_code EncodeVarint64 GetVarint64Ptr "\<lambda>v. True"
proof unfold_locales
  fix v rest show "GetVarint64Ptr (EncodeVarint64 v @ rest) = Some (v, rest)" by (rule GetVarint64_Encode)
qed (simp add: EncodeVarint64_eq)

interpretation varstring: prefix_code "PutLengthPrefixedSlice []" GetLengthPrefixedSlicePtr
  "\<lambda>x. length x < 2 ^ 32"
proof unfold_locales
  fix x :: slice show "PutLengthPrefixedSlice [] x \<noteq> []"
    using length_EncodeVarint32 [of "of_nat (length x)"]
    by (auto simp: PutLengthPrefixedSlice_def PutVarint32_def)
qed (rule GetLengthPrefixedSlice_Put(2))

end
