(* ===== verification/Ldb_Crc32c.thy ===== *)
theory Ldb_Crc32c
  imports Ldb_Coding
begin

unbundle bit_operations_syntax

text \<open>
  \<^verbatim>\<open>leveldb-library/util/crc32c.cc\<close> and \<^verbatim>\<open>crc32c.h\<close>: the checksum of log records and table
  blocks. \<^verbatim>\<open>Extend\<close> aligns its pointer, runs four interleaved 16-byte strides through four
  tables and combines them. The lemmas show that the tables are right and that the whole
  computes the bit-serial CRC-32C, whatever the alignment and the length.
\<close>

section \<open>Tables\<close>

definition kByteExtensionTable :: "u32 list" where
  "kByteExtensionTable =
     [0x00000000, 0xF26B8303, 0xE13B70F7, 0x1350F3F4, 0xC79A971F, 0x35F1141C,
      0x26A1E7E8, 0xD4CA64EB, 0x8AD958CF, 0x78B2DBCC, 0x6BE22838, 0x9989AB3B,
      0x4D43CFD0, 0xBF284CD3, 0xAC78BF27, 0x5E133C24, 0x105EC76F, 0xE235446C,
      0xF165B798, 0x030E349B, 0xD7C45070, 0x25AFD373, 0x36FF2087, 0xC494A384,
      0x9A879FA0, 0x68EC1CA3, 0x7BBCEF57, 0x89D76C54, 0x5D1D08BF, 0xAF768BBC,
      0xBC267848, 0x4E4DFB4B, 0x20BD8EDE, 0xD2D60DDD, 0xC186FE29, 0x33ED7D2A,
      0xE72719C1, 0x154C9AC2, 0x061C6936, 0xF477EA35, 0xAA64D611, 0x580F5512,
      0x4B5FA6E6, 0xB93425E5, 0x6DFE410E, 0x9F95C20D, 0x8CC531F9, 0x7EAEB2FA,
      0x30E349B1, 0xC288CAB2, 0xD1D83946, 0x23B3BA45, 0xF779DEAE, 0x05125DAD,
      0x1642AE59, 0xE4292D5A, 0xBA3A117E, 0x4851927D, 0x5B016189, 0xA96AE28A,
      0x7DA08661, 0x8FCB0562, 0x9C9BF696, 0x6EF07595, 0x417B1DBC, 0xB3109EBF,
      0xA0406D4B, 0x522BEE48, 0x86E18AA3, 0x748A09A0, 0x67DAFA54, 0x95B17957,
      0xCBA24573, 0x39C9C670, 0x2A993584, 0xD8F2B687, 0x0C38D26C, 0xFE53516F,
      0xED03A29B, 0x1F682198, 0x5125DAD3, 0xA34E59D0, 0xB01EAA24, 0x42752927,
      0x96BF4DCC, 0x64D4CECF, 0x77843D3B, 0x85EFBE38, 0xDBFC821C, 0x2997011F,
      0x3AC7F2EB, 0xC8AC71E8, 0x1C661503, 0xEE0D9600, 0xFD5D65F4, 0x0F36E6F7,
      0x61C69362, 0x93AD1061, 0x80FDE395, 0x72966096, 0xA65C047D, 0x5437877E,
      0x4767748A, 0xB50CF789, 0xEB1FCBAD, 0x197448AE, 0x0A24BB5A, 0xF84F3859,
      0x2C855CB2, 0xDEEEDFB1, 0xCDBE2C45, 0x3FD5AF46, 0x7198540D, 0x83F3D70E,
      0x90A324FA, 0x62C8A7F9, 0xB602C312, 0x44694011, 0x5739B3E5, 0xA55230E6,
      0xFB410CC2, 0x092A8FC1, 0x1A7A7C35, 0xE811FF36, 0x3CDB9BDD, 0xCEB018DE,
      0xDDE0EB2A, 0x2F8B6829, 0x82F63B78, 0x709DB87B, 0x63CD4B8F, 0x91A6C88C,
      0x456CAC67, 0xB7072F64, 0xA457DC90, 0x563C5F93, 0x082F63B7, 0xFA44E0B4,
      0xE9141340, 0x1B7F9043, 0xCFB5F4A8, 0x3DDE77AB, 0x2E8E845F, 0xDCE5075C,
      0x92A8FC17, 0x60C37F14, 0x73938CE0, 0x81F80FE3, 0x55326B08, 0xA759E80B,
      0xB4091BFF, 0x466298FC, 0x1871A4D8, 0xEA1A27DB, 0xF94AD42F, 0x0B21572C,
      0xDFEB33C7, 0x2D80B0C4, 0x3ED04330, 0xCCBBC033, 0xA24BB5A6, 0x502036A5,
      0x4370C551, 0xB11B4652, 0x65D122B9, 0x97BAA1BA, 0x84EA524E, 0x7681D14D,
      0x2892ED69, 0xDAF96E6A, 0xC9A99D9E, 0x3BC21E9D, 0xEF087A76, 0x1D63F975,
      0x0E330A81, 0xFC588982, 0xB21572C9, 0x407EF1CA, 0x532E023E, 0xA145813D,
      0x758FE5D6, 0x87E466D5, 0x94B49521, 0x66DF1622, 0x38CC2A06, 0xCAA7A905,
      0xD9F75AF1, 0x2B9CD9F2, 0xFF56BD19, 0x0D3D3E1A, 0x1E6DCDEE, 0xEC064EED,
      0xC38D26C4, 0x31E6A5C7, 0x22B65633, 0xD0DDD530, 0x0417B1DB, 0xF67C32D8,
      0xE52CC12C, 0x1747422F, 0x49547E0B, 0xBB3FFD08, 0xA86F0EFC, 0x5A048DFF,
      0x8ECEE914, 0x7CA56A17, 0x6FF599E3, 0x9D9E1AE0, 0xD3D3E1AB, 0x21B862A8,
      0x32E8915C, 0xC083125F, 0x144976B4, 0xE622F5B7, 0xF5720643, 0x07198540,
      0x590AB964, 0xAB613A67, 0xB831C993, 0x4A5A4A90, 0x9E902E7B, 0x6CFBAD78,
      0x7FAB5E8C, 0x8DC0DD8F, 0xE330A81A, 0x115B2B19, 0x020BD8ED, 0xF0605BEE,
      0x24AA3F05, 0xD6C1BC06, 0xC5914FF2, 0x37FACCF1, 0x69E9F0D5, 0x9B8273D6,
      0x88D28022, 0x7AB90321, 0xAE7367CA, 0x5C18E4C9, 0x4F48173D, 0xBD23943E,
      0xF36E6F75, 0x0105EC76, 0x12551F82, 0xE03E9C81, 0x34F4F86A, 0xC69F7B69,
      0xD5CF889D, 0x27A40B9E, 0x79B737BA, 0x8BDCB4B9, 0x988C474D, 0x6AE7C44E,
      0xBE2DA0A5, 0x4C4623A6, 0x5F16D052, 0xAD7D5351]"

definition kStrideExtensionTable0 :: "u32 list" where
  "kStrideExtensionTable0 =
     [0x00000000, 0x30D23865, 0x61A470CA, 0x517648AF, 0xC348E194, 0xF39AD9F1,
      0xA2EC915E, 0x923EA93B, 0x837DB5D9, 0xB3AF8DBC, 0xE2D9C513, 0xD20BFD76,
      0x4035544D, 0x70E76C28, 0x21912487, 0x11431CE2, 0x03171D43, 0x33C52526,
      0x62B36D89, 0x526155EC, 0xC05FFCD7, 0xF08DC4B2, 0xA1FB8C1D, 0x9129B478,
      0x806AA89A, 0xB0B890FF, 0xE1CED850, 0xD11CE035, 0x4322490E, 0x73F0716B,
      0x228639C4, 0x125401A1, 0x062E3A86, 0x36FC02E3, 0x678A4A4C, 0x57587229,
      0xC566DB12, 0xF5B4E377, 0xA4C2ABD8, 0x941093BD, 0x85538F5F, 0xB581B73A,
      0xE4F7FF95, 0xD425C7F0, 0x461B6ECB, 0x76C956AE, 0x27BF1E01, 0x176D2664,
      0x053927C5, 0x35EB1FA0, 0x649D570F, 0x544F6F6A, 0xC671C651, 0xF6A3FE34,
      0xA7D5B69B, 0x97078EFE, 0x8644921C, 0xB696AA79, 0xE7E0E2D6, 0xD732DAB3,
      0x450C7388, 0x75DE4BED, 0x24A80342, 0x147A3B27, 0x0C5C750C, 0x3C8E4D69,
      0x6DF805C6, 0x5D2A3DA3, 0xCF149498, 0xFFC6ACFD, 0xAEB0E452, 0x9E62DC37,
      0x8F21C0D5, 0xBFF3F8B0, 0xEE85B01F, 0xDE57887A, 0x4C692141, 0x7CBB1924,
      0x2DCD518B, 0x1D1F69EE, 0x0F4B684F, 0x3F99502A, 0x6EEF1885, 0x5E3D20E0,
      0xCC0389DB, 0xFCD1B1BE, 0xADA7F911, 0x9D75C174, 0x8C36DD96, 0xBCE4E5F3,
      0xED92AD5C, 0xDD409539, 0x4F7E3C02, 0x7FAC0467, 0x2EDA4CC8, 0x1E0874AD,
      0x0A724F8A, 0x3AA077EF, 0x6BD63F40, 0x5B040725, 0xC93AAE1E, 0xF9E8967B,
      0xA89EDED4, 0x984CE6B1, 0x890FFA53, 0xB9DDC236, 0xE8AB8A99, 0xD879B2FC,
      0x4A471BC7, 0x7A9523A2, 0x2BE36B0D, 0x1B315368, 0x096552C9, 0x39B76AAC,
      0x68C12203, 0x58131A66, 0xCA2DB35D, 0xFAFF8B38, 0xAB89C397, 0x9B5BFBF2,
      0x8A18E710, 0xBACADF75, 0xEBBC97DA, 0xDB6EAFBF, 0x49500684, 0x79823EE1,
      0x28F4764E, 0x18264E2B, 0x18B8EA18, 0x286AD27D, 0x791C9AD2, 0x49CEA2B7,
      0xDBF00B8C, 0xEB2233E9, 0xBA547B46, 0x8A864323, 0x9BC55FC1, 0xAB1767A4,
      0xFA612F0B, 0xCAB3176E, 0x588DBE55, 0x685F8630, 0x3929CE9F, 0x09FBF6FA,
      0x1BAFF75B, 0x2B7DCF3E, 0x7A0B8791, 0x4AD9BFF4, 0xD8E716CF, 0xE8352EAA,
      0xB9436605, 0x89915E60, 0x98D24282, 0xA8007AE7, 0xF9763248, 0xC9A40A2D,
      0x5B9AA316, 0x6B489B73, 0x3A3ED3DC, 0x0AECEBB9, 0x1E96D09E, 0x2E44E8FB,
      0x7F32A054, 0x4FE09831, 0xDDDE310A, 0xED0C096F, 0xBC7A41C0, 0x8CA879A5,
      0x9DEB6547, 0xAD395D22, 0xFC4F158D, 0xCC9D2DE8, 0x5EA384D3, 0x6E71BCB6,
      0x3F07F419, 0x0FD5CC7C, 0x1D81CDDD, 0x2D53F5B8, 0x7C25BD17, 0x4CF78572,
      0xDEC92C49, 0xEE1B142C, 0xBF6D5C83, 0x8FBF64E6, 0x9EFC7804, 0xAE2E4061,
      0xFF5808CE, 0xCF8A30AB, 0x5DB49990, 0x6D66A1F5, 0x3C10E95A, 0x0CC2D13F,
      0x14E49F14, 0x2436A771, 0x7540EFDE, 0x4592D7BB, 0xD7AC7E80, 0xE77E46E5,
      0xB6080E4A, 0x86DA362F, 0x97992ACD, 0xA74B12A8, 0xF63D5A07, 0xC6EF6262,
      0x54D1CB59, 0x6403F33C, 0x3575BB93, 0x05A783F6, 0x17F38257, 0x2721BA32,
      0x7657F29D, 0x4685CAF8, 0xD4BB63C3, 0xE4695BA6, 0xB51F1309, 0x85CD2B6C,
      0x948E378E, 0xA45C0FEB, 0xF52A4744, 0xC5F87F21, 0x57C6D61A, 0x6714EE7F,
      0x3662A6D0, 0x06B09EB5, 0x12CAA592, 0x22189DF7, 0x736ED558, 0x43BCED3D,
      0xD1824406, 0xE1507C63, 0xB02634CC, 0x80F40CA9, 0x91B7104B, 0xA165282E,
      0xF0136081, 0xC0C158E4, 0x52FFF1DF, 0x622DC9BA, 0x335B8115, 0x0389B970,
      0x11DDB8D1, 0x210F80B4, 0x7079C81B, 0x40ABF07E, 0xD2955945, 0xE2476120,
      0xB331298F, 0x83E311EA, 0x92A00D08, 0xA272356D, 0xF3047DC2, 0xC3D645A7,
      0x51E8EC9C, 0x613AD4F9, 0x304C9C56, 0x009EA433]"

definition kStrideExtensionTable1 :: "u32 list" where
  "kStrideExtensionTable1 =
     [0x00000000, 0x54075546, 0xA80EAA8C, 0xFC09FFCA, 0x55F123E9, 0x01F676AF,
      0xFDFF8965, 0xA9F8DC23, 0xABE247D2, 0xFFE51294, 0x03ECED5E, 0x57EBB818,
      0xFE13643B, 0xAA14317D, 0x561DCEB7, 0x021A9BF1, 0x5228F955, 0x062FAC13,
      0xFA2653D9, 0xAE21069F, 0x07D9DABC, 0x53DE8FFA, 0xAFD77030, 0xFBD02576,
      0xF9CABE87, 0xADCDEBC1, 0x51C4140B, 0x05C3414D, 0xAC3B9D6E, 0xF83CC828,
      0x043537E2, 0x503262A4, 0xA451F2AA, 0xF056A7EC, 0x0C5F5826, 0x58580D60,
      0xF1A0D143, 0xA5A78405, 0x59AE7BCF, 0x0DA92E89, 0x0FB3B578, 0x5BB4E03E,
      0xA7BD1FF4, 0xF3BA4AB2, 0x5A429691, 0x0E45C3D7, 0xF24C3C1D, 0xA64B695B,
      0xF6790BFF, 0xA27E5EB9, 0x5E77A173, 0x0A70F435, 0xA3882816, 0xF78F7D50,
      0x0B86829A, 0x5F81D7DC, 0x5D9B4C2D, 0x099C196B, 0xF595E6A1, 0xA192B3E7,
      0x086A6FC4, 0x5C6D3A82, 0xA064C548, 0xF463900E, 0x4D4F93A5, 0x1948C6E3,
      0xE5413929, 0xB1466C6F, 0x18BEB04C, 0x4CB9E50A, 0xB0B01AC0, 0xE4B74F86,
      0xE6ADD477, 0xB2AA8131, 0x4EA37EFB, 0x1AA42BBD, 0xB35CF79E, 0xE75BA2D8,
      0x1B525D12, 0x4F550854, 0x1F676AF0, 0x4B603FB6, 0xB769C07C, 0xE36E953A,
      0x4A964919, 0x1E911C5F, 0xE298E395, 0xB69FB6D3, 0xB4852D22, 0xE0827864,
      0x1C8B87AE, 0x488CD2E8, 0xE1740ECB, 0xB5735B8D, 0x497AA447, 0x1D7DF101,
      0xE91E610F, 0xBD193449, 0x4110CB83, 0x15179EC5, 0xBCEF42E6, 0xE8E817A0,
      0x14E1E86A, 0x40E6BD2C, 0x42FC26DD, 0x16FB739B, 0xEAF28C51, 0xBEF5D917,
      0x170D0534, 0x430A5072, 0xBF03AFB8, 0xEB04FAFE, 0xBB36985A, 0xEF31CD1C,
      0x133832D6, 0x473F6790, 0xEEC7BBB3, 0xBAC0EEF5, 0x46C9113F, 0x12CE4479,
      0x10D4DF88, 0x44D38ACE, 0xB8DA7504, 0xECDD2042, 0x4525FC61, 0x1122A927,
      0xED2B56ED, 0xB92C03AB, 0x9A9F274A, 0xCE98720C, 0x32918DC6, 0x6696D880,
      0xCF6E04A3, 0x9B6951E5, 0x6760AE2F, 0x3367FB69, 0x317D6098, 0x657A35DE,
      0x9973CA14, 0xCD749F52, 0x648C4371, 0x308B1637, 0xCC82E9FD, 0x9885BCBB,
      0xC8B7DE1F, 0x9CB08B59, 0x60B97493, 0x34BE21D5, 0x9D46FDF6, 0xC941A8B0,
      0x3548577A, 0x614F023C, 0x635599CD, 0x3752CC8B, 0xCB5B3341, 0x9F5C6607,
      0x36A4BA24, 0x62A3EF62, 0x9EAA10A8, 0xCAAD45EE, 0x3ECED5E0, 0x6AC980A6,
      0x96C07F6C, 0xC2C72A2A, 0x6B3FF609, 0x3F38A34F, 0xC3315C85, 0x973609C3,
      0x952C9232, 0xC12BC774, 0x3D2238BE, 0x69256DF8, 0xC0DDB1DB, 0x94DAE49D,
      0x68D31B57, 0x3CD44E11, 0x6CE62CB5, 0x38E179F3, 0xC4E88639, 0x90EFD37F,
      0x39170F5C, 0x6D105A1A, 0x9119A5D0, 0xC51EF096, 0xC7046B67, 0x93033E21,
      0x6F0AC1EB, 0x3B0D94AD, 0x92F5488E, 0xC6F21DC8, 0x3AFBE202, 0x6EFCB744,
      0xD7D0B4EF, 0x83D7E1A9, 0x7FDE1E63, 0x2BD94B25, 0x82219706, 0xD626C240,
      0x2A2F3D8A, 0x7E2868CC, 0x7C32F33D, 0x2835A67B, 0xD43C59B1, 0x803B0CF7,
      0x29C3D0D4, 0x7DC48592, 0x81CD7A58, 0xD5CA2F1E, 0x85F84DBA, 0xD1FF18FC,
      0x2DF6E736, 0x79F1B270, 0xD0096E53, 0x840E3B15, 0x7807C4DF, 0x2C009199,
      0x2E1A0A68, 0x7A1D5F2E, 0x8614A0E4, 0xD213F5A2, 0x7BEB2981, 0x2FEC7CC7,
      0xD3E5830D, 0x87E2D64B, 0x73814645, 0x27861303, 0xDB8FECC9, 0x8F88B98F,
      0x267065AC, 0x727730EA, 0x8E7ECF20, 0xDA799A66, 0xD8630197, 0x8C6454D1,
      0x706DAB1B, 0x246AFE5D, 0x8D92227E, 0xD9957738, 0x259C88F2, 0x719BDDB4,
      0x21A9BF10, 0x75AEEA56, 0x89A7159C, 0xDDA040DA, 0x74589CF9, 0x205FC9BF,
      0xDC563675, 0x88516333, 0x8A4BF8C2, 0xDE4CAD84, 0x2245524E, 0x76420708,
      0xDFBADB2B, 0x8BBD8E6D, 0x77B471A7, 0x23B324E1]"

definition kStrideExtensionTable2 :: "u32 list" where
  "kStrideExtensionTable2 =
     [0x00000000, 0x678EFD01, 0xCF1DFA02, 0xA8930703, 0x9BD782F5, 0xFC597FF4,
      0x54CA78F7, 0x334485F6, 0x3243731B, 0x55CD8E1A, 0xFD5E8919, 0x9AD07418,
      0xA994F1EE, 0xCE1A0CEF, 0x66890BEC, 0x0107F6ED, 0x6486E636, 0x03081B37,
      0xAB9B1C34, 0xCC15E135, 0xFF5164C3, 0x98DF99C2, 0x304C9EC1, 0x57C263C0,
      0x56C5952D, 0x314B682C, 0x99D86F2F, 0xFE56922E, 0xCD1217D8, 0xAA9CEAD9,
      0x020FEDDA, 0x658110DB, 0xC90DCC6C, 0xAE83316D, 0x0610366E, 0x619ECB6F,
      0x52DA4E99, 0x3554B398, 0x9DC7B49B, 0xFA49499A, 0xFB4EBF77, 0x9CC04276,
      0x34534575, 0x53DDB874, 0x60993D82, 0x0717C083, 0xAF84C780, 0xC80A3A81,
      0xAD8B2A5A, 0xCA05D75B, 0x6296D058, 0x05182D59, 0x365CA8AF, 0x51D255AE,
      0xF94152AD, 0x9ECFAFAC, 0x9FC85941, 0xF846A440, 0x50D5A343, 0x375B5E42,
      0x041FDBB4, 0x639126B5, 0xCB0221B6, 0xAC8CDCB7, 0x97F7EE29, 0xF0791328,
      0x58EA142B, 0x3F64E92A, 0x0C206CDC, 0x6BAE91DD, 0xC33D96DE, 0xA4B36BDF,
      0xA5B49D32, 0xC23A6033, 0x6AA96730, 0x0D279A31, 0x3E631FC7, 0x59EDE2C6,
      0xF17EE5C5, 0x96F018C4, 0xF371081F, 0x94FFF51E, 0x3C6CF21D, 0x5BE20F1C,
      0x68A68AEA, 0x0F2877EB, 0xA7BB70E8, 0xC0358DE9, 0xC1327B04, 0xA6BC8605,
      0x0E2F8106, 0x69A17C07, 0x5AE5F9F1, 0x3D6B04F0, 0x95F803F3, 0xF276FEF2,
      0x5EFA2245, 0x3974DF44, 0x91E7D847, 0xF6692546, 0xC52DA0B0, 0xA2A35DB1,
      0x0A305AB2, 0x6DBEA7B3, 0x6CB9515E, 0x0B37AC5F, 0xA3A4AB5C, 0xC42A565D,
      0xF76ED3AB, 0x90E02EAA, 0x387329A9, 0x5FFDD4A8, 0x3A7CC473, 0x5DF23972,
      0xF5613E71, 0x92EFC370, 0xA1AB4686, 0xC625BB87, 0x6EB6BC84, 0x09384185,
      0x083FB768, 0x6FB14A69, 0xC7224D6A, 0xA0ACB06B, 0x93E8359D, 0xF466C89C,
      0x5CF5CF9F, 0x3B7B329E, 0x2A03AAA3, 0x4D8D57A2, 0xE51E50A1, 0x8290ADA0,
      0xB1D42856, 0xD65AD557, 0x7EC9D254, 0x19472F55, 0x1840D9B8, 0x7FCE24B9,
      0xD75D23BA, 0xB0D3DEBB, 0x83975B4D, 0xE419A64C, 0x4C8AA14F, 0x2B045C4E,
      0x4E854C95, 0x290BB194, 0x8198B697, 0xE6164B96, 0xD552CE60, 0xB2DC3361,
      0x1A4F3462, 0x7DC1C963, 0x7CC63F8E, 0x1B48C28F, 0xB3DBC58C, 0xD455388D,
      0xE711BD7B, 0x809F407A, 0x280C4779, 0x4F82BA78, 0xE30E66CF, 0x84809BCE,
      0x2C139CCD, 0x4B9D61CC, 0x78D9E43A, 0x1F57193B, 0xB7C41E38, 0xD04AE339,
      0xD14D15D4, 0xB6C3E8D5, 0x1E50EFD6, 0x79DE12D7, 0x4A9A9721, 0x2D146A20,
      0x85876D23, 0xE2099022, 0x878880F9, 0xE0067DF8, 0x48957AFB, 0x2F1B87FA,
      0x1C5F020C, 0x7BD1FF0D, 0xD342F80E, 0xB4CC050F, 0xB5CBF3E2, 0xD2450EE3,
      0x7AD609E0, 0x1D58F4E1, 0x2E1C7117, 0x49928C16, 0xE1018B15, 0x868F7614,
      0xBDF4448A, 0xDA7AB98B, 0x72E9BE88, 0x15674389, 0x2623C67F, 0x41AD3B7E,
      0xE93E3C7D, 0x8EB0C17C, 0x8FB73791, 0xE839CA90, 0x40AACD93, 0x27243092,
      0x1460B564, 0x73EE4865, 0xDB7D4F66, 0xBCF3B267, 0xD972A2BC, 0xBEFC5FBD,
      0x166F58BE, 0x71E1A5BF, 0x42A52049, 0x252BDD48, 0x8DB8DA4B, 0xEA36274A,
      0xEB31D1A7, 0x8CBF2CA6, 0x242C2BA5, 0x43A2D6A4, 0x70E65352, 0x1768AE53,
      0xBFFBA950, 0xD8755451, 0x74F988E6, 0x137775E7, 0xBBE472E4, 0xDC6A8FE5,
      0xEF2E0A13, 0x88A0F712, 0x2033F011, 0x47BD0D10, 0x46BAFBFD, 0x213406FC,
      0x89A701FF, 0xEE29FCFE, 0xDD6D7908, 0xBAE38409, 0x1270830A, 0x75FE7E0B,
      0x107F6ED0, 0x77F193D1, 0xDF6294D2, 0xB8EC69D3, 0x8BA8EC25, 0xEC261124,
      0x44B51627, 0x233BEB26, 0x223C1DCB, 0x45B2E0CA, 0xED21E7C9, 0x8AAF1AC8,
      0xB9EB9F3E, 0xDE65623F, 0x76F6653C, 0x1178983D]"

definition kStrideExtensionTable3 :: "u32 list" where
  "kStrideExtensionTable3 =
     [0x00000000, 0xF20C0DFE, 0xE1F46D0D, 0x13F860F3, 0xC604ACEB, 0x3408A115,
      0x27F0C1E6, 0xD5FCCC18, 0x89E52F27, 0x7BE922D9, 0x6811422A, 0x9A1D4FD4,
      0x4FE183CC, 0xBDED8E32, 0xAE15EEC1, 0x5C19E33F, 0x162628BF, 0xE42A2541,
      0xF7D245B2, 0x05DE484C, 0xD0228454, 0x222E89AA, 0x31D6E959, 0xC3DAE4A7,
      0x9FC30798, 0x6DCF0A66, 0x7E376A95, 0x8C3B676B, 0x59C7AB73, 0xABCBA68D,
      0xB833C67E, 0x4A3FCB80, 0x2C4C517E, 0xDE405C80, 0xCDB83C73, 0x3FB4318D,
      0xEA48FD95, 0x1844F06B, 0x0BBC9098, 0xF9B09D66, 0xA5A97E59, 0x57A573A7,
      0x445D1354, 0xB6511EAA, 0x63ADD2B2, 0x91A1DF4C, 0x8259BFBF, 0x7055B241,
      0x3A6A79C1, 0xC866743F, 0xDB9E14CC, 0x29921932, 0xFC6ED52A, 0x0E62D8D4,
      0x1D9AB827, 0xEF96B5D9, 0xB38F56E6, 0x41835B18, 0x527B3BEB, 0xA0773615,
      0x758BFA0D, 0x8787F7F3, 0x947F9700, 0x66739AFE, 0x5898A2FC, 0xAA94AF02,
      0xB96CCFF1, 0x4B60C20F, 0x9E9C0E17, 0x6C9003E9, 0x7F68631A, 0x8D646EE4,
      0xD17D8DDB, 0x23718025, 0x3089E0D6, 0xC285ED28, 0x17792130, 0xE5752CCE,
      0xF68D4C3D, 0x048141C3, 0x4EBE8A43, 0xBCB287BD, 0xAF4AE74E, 0x5D46EAB0,
      0x88BA26A8, 0x7AB62B56, 0x694E4BA5, 0x9B42465B, 0xC75BA564, 0x3557A89A,
      0x26AFC869, 0xD4A3C597, 0x015F098F, 0xF3530471, 0xE0AB6482, 0x12A7697C,
      0x74D4F382, 0x86D8FE7C, 0x95209E8F, 0x672C9371, 0xB2D05F69, 0x40DC5297,
      0x53243264, 0xA1283F9A, 0xFD31DCA5, 0x0F3DD15B, 0x1CC5B1A8, 0xEEC9BC56,
      0x3B35704E, 0xC9397DB0, 0xDAC11D43, 0x28CD10BD, 0x62F2DB3D, 0x90FED6C3,
      0x8306B630, 0x710ABBCE, 0xA4F677D6, 0x56FA7A28, 0x45021ADB, 0xB70E1725,
      0xEB17F41A, 0x191BF9E4, 0x0AE39917, 0xF8EF94E9, 0x2D1358F1, 0xDF1F550F,
      0xCCE735FC, 0x3EEB3802, 0xB13145F8, 0x433D4806, 0x50C528F5, 0xA2C9250B,
      0x7735E913, 0x8539E4ED, 0x96C1841E, 0x64CD89E0, 0x38D46ADF, 0xCAD86721,
      0xD92007D2, 0x2B2C0A2C, 0xFED0C634, 0x0CDCCBCA, 0x1F24AB39, 0xED28A6C7,
      0xA7176D47, 0x551B60B9, 0x46E3004A, 0xB4EF0DB4, 0x6113C1AC, 0x931FCC52,
      0x80E7ACA1, 0x72EBA15F, 0x2EF24260, 0xDCFE4F9E, 0xCF062F6D, 0x3D0A2293,
      0xE8F6EE8B, 0x1AFAE375, 0x09028386, 0xFB0E8E78, 0x9D7D1486, 0x6F711978,
      0x7C89798B, 0x8E857475, 0x5B79B86D, 0xA975B593, 0xBA8DD560, 0x4881D89E,
      0x14983BA1, 0xE694365F, 0xF56C56AC, 0x07605B52, 0xD29C974A, 0x20909AB4,
      0x3368FA47, 0xC164F7B9, 0x8B5B3C39, 0x795731C7, 0x6AAF5134, 0x98A35CCA,
      0x4D5F90D2, 0xBF539D2C, 0xACABFDDF, 0x5EA7F021, 0x02BE131E, 0xF0B21EE0,
      0xE34A7E13, 0x114673ED, 0xC4BABFF5, 0x36B6B20B, 0x254ED2F8, 0xD742DF06,
      0xE9A9E704, 0x1BA5EAFA, 0x085D8A09, 0xFA5187F7, 0x2FAD4BEF, 0xDDA14611,
      0xCE5926E2, 0x3C552B1C, 0x604CC823, 0x9240C5DD, 0x81B8A52E, 0x73B4A8D0,
      0xA64864C8, 0x54446936, 0x47BC09C5, 0xB5B0043B, 0xFF8FCFBB, 0x0D83C245,
      0x1E7BA2B6, 0xEC77AF48, 0x398B6350, 0xCB876EAE, 0xD87F0E5D, 0x2A7303A3,
      0x766AE09C, 0x8466ED62, 0x979E8D91, 0x6592806F, 0xB06E4C77, 0x42624189,
      0x519A217A, 0xA3962C84, 0xC5E5B67A, 0x37E9BB84, 0x2411DB77, 0xD61DD689,
      0x03E11A91, 0xF1ED176F, 0xE215779C, 0x10197A62, 0x4C00995D, 0xBE0C94A3,
      0xADF4F450, 0x5FF8F9AE, 0x8A0435B6, 0x78083848, 0x6BF058BB, 0x99FC5545,
      0xD3C39EC5, 0x21CF933B, 0x3237F3C8, 0xC03BFE36, 0x15C7322E, 0xE7CB3FD0,
      0xF4335F23, 0x063F52DD, 0x5A26B1E2, 0xA82ABC1C, 0xBBD2DCEF, 0x49DED111,
      0x9C221D09, 0x6E2E10F7, 0x7DD67004, 0x8FDA7DFA]"

definition kCRC32Xor :: u32 where
  "kCRC32Xor = 0xFFFFFFFF"

section \<open>Extend\<close>

definition ReadUint32LE :: "byte list \<Rightarrow> u32" where
  "ReadUint32LE buffer = DecodeFixed32 buffer"

definition RoundUp4 :: "addr \<Rightarrow> addr" where
  "RoundUp4 pointer = (pointer + (4 - 1)) AND NOT (4 - 1)"

text \<open>
  \<^verbatim>\<open>port::AcceleratedCRC32C\<close> of a build without the \<^verbatim>\<open>crc32c\<close> library, which the test
  value tells apart.
\<close>

definition AcceleratedCRC32C :: "u32 \<Rightarrow> byte list \<Rightarrow> u32" where
  "AcceleratedCRC32C crc buf = 0"

definition CanAccelerateCRC32C :: bool where
  "CanAccelerateCRC32C \<longleftrightarrow>
     AcceleratedCRC32C 0 [0x54, 0x65, 0x73, 0x74, 0x43, 0x52, 0x43, 0x42, 0x75, 0x66, 0x66, 0x65, 0x72] = 0xDCBC59FA"

definition STEP1 :: "u32 \<Rightarrow> byte \<Rightarrow> u32" where
  "STEP1 l b = kByteExtensionTable ! unat ((l AND 0xFF) XOR ucast b) XOR drop_bit 8 l"

definition STEP4 :: "u32 \<Rightarrow> u32 \<Rightarrow> u32" where
  "STEP4 crc w =
     w XOR kStrideExtensionTable3 ! unat (crc AND 0xFF) XOR
     kStrideExtensionTable2 ! unat (drop_bit 8 crc AND 0xFF) XOR
     kStrideExtensionTable1 ! unat (drop_bit 16 crc AND 0xFF) XOR
     kStrideExtensionTable0 ! unat (drop_bit 24 crc)"

definition STEP4W :: "u32 \<Rightarrow> u32 \<Rightarrow> u32" where
  "STEP4W l w = ((\<lambda>w. drop_bit 8 w XOR kByteExtensionTable ! unat (w AND 0xFF)) ^^ 4) (w XOR l)"

type_synonym strides = "u32 \<times> u32 \<times> u32 \<times> u32"

definition STEP16 :: "strides \<Rightarrow> byte list \<Rightarrow> strides" where
  "STEP16 c p =
     (case c of (crc0, crc1, crc2, crc3) \<Rightarrow>
        (STEP4 crc0 (ReadUint32LE p), STEP4 crc1 (ReadUint32LE (drop 4 p)),
         STEP4 crc2 (ReadUint32LE (drop 8 p)), STEP4 crc3 (ReadUint32LE (drop 12 p))))"

text \<open>\<^verbatim>\<open>while ((e - p) >= 16)\<close>, \<^verbatim>\<open>while ((e - p) >= 4)\<close> and \<^verbatim>\<open>while (p != e)\<close>; the list is what is left between \<^verbatim>\<open>p\<close> and \<^verbatim>\<open>e\<close>.\<close>

function swath_loop :: "strides \<Rightarrow> byte list \<Rightarrow> strides \<times> byte list" where
  "swath_loop c p = (if 16 \<le> length p then swath_loop (STEP16 c p) (drop 16 p) else (c, p))"
  by pat_completeness auto
termination
  by (relation "measure (length \<circ> snd)") auto

function word_loop :: "strides \<Rightarrow> byte list \<Rightarrow> strides \<times> byte list" where
  "word_loop c p =
     (if 4 \<le> length p then
        word_loop (case c of (crc0, crc1, crc2, crc3) \<Rightarrow> (crc1, crc2, crc3, STEP4 crc0 (ReadUint32LE p)))
          (drop 4 p)
      else (c, p))"
  by pat_completeness auto
termination
  by (relation "measure (length \<circ> snd)") auto

declare swath_loop.simps [simp del] word_loop.simps [simp del]

primrec step1_loop :: "u32 \<Rightarrow> byte list \<Rightarrow> u32" where
  "step1_loop l [] = l"
| "step1_loop l (b # p) = step1_loop (STEP1 l b) p"

definition combine :: "strides \<Rightarrow> u32" where
  "combine c =
     (case c of (crc0, crc1, crc2, crc3) \<Rightarrow> STEP4W (STEP4W (STEP4W (STEP4W 0 crc0) crc1) crc2) crc3)"

definition strided :: "u32 \<Rightarrow> byte list \<Rightarrow> u32 \<times> byte list" where
  "strided l p =
     (if 16 \<le> length p then
        let c = (ReadUint32LE p XOR l, ReadUint32LE (drop 4 p), ReadUint32LE (drop 8 p),
                 ReadUint32LE (drop 12 p));
            (c1, p1) = swath_loop c (drop 16 p);
            (c2, p2) = word_loop c1 p1
        in (combine c2, p2)
      else (l, p))"

text \<open>
  The argument \<open>p\<close> is the address of the data, whose alignment decides where the strides
  start; a buffer does not reach into the last three bytes of the address space, so that
  \<^verbatim>\<open>RoundUp<4>\<close> does not wrap.
\<close>

definition Extend :: "u32 \<Rightarrow> addr \<Rightarrow> byte list \<Rightarrow> u32" where
  "Extend crc p bytes =
     (if CanAccelerateCRC32C then AcceleratedCRC32C crc bytes
      else
        let l = crc XOR kCRC32Xor;
            x = RoundUp4 p;
            e = p + of_nat (length bytes);
            k = (if x \<le> e then unat (x - p) else 0);
            l1 = step1_loop l (take k bytes);
            (l2, rest) = strided l1 (drop k bytes)
        in step1_loop l2 rest XOR kCRC32Xor)"

definition crc_Value :: "addr \<Rightarrow> byte list \<Rightarrow> u32" where
  "crc_Value p bytes = Extend 0 p bytes"

definition kMaskDelta :: u32 where
  "kMaskDelta = 0xA282EAD8"

definition Mask :: "u32 \<Rightarrow> u32" where
  "Mask crc = (drop_bit 15 crc OR push_bit 17 crc) + kMaskDelta"

definition Unmask :: "u32 \<Rightarrow> u32" where
  "Unmask masked_crc =
     (let rot = masked_crc - kMaskDelta in drop_bit 17 rot OR push_bit 15 rot)"

lemma Unmask_Mask [simp]: "Unmask (Mask crc) = crc"
  unfolding Unmask_def Mask_def Let_def
  by (simp, rule bit_word_eqI) (auto simp: bit_simps, metis add_diff_inverse_nat)

section \<open>The bit-serial checksum\<close>

text \<open>
  The reflected Castagnoli polynomial: shift a bit out, and subtract the polynomial
  when it was set.
\<close>

definition crc_bit :: "u32 \<Rightarrow> u32" where
  "crc_bit x = drop_bit 1 x XOR (if bit x 0 then 0x82F63B78 else 0)"

definition crc_bits :: "nat \<Rightarrow> u32 \<Rightarrow> u32" where
  "crc_bits n = crc_bit ^^ n"

definition crc_feed :: "u32 \<Rightarrow> byte list \<Rightarrow> u32" where
  "crc_feed l bs = foldl (\<lambda>l b. crc_bits 8 (l XOR ucast b)) l bs"

definition crc32c :: "u32 \<Rightarrow> byte list \<Rightarrow> u32" where
  "crc32c crc bs = NOT (crc_feed (NOT crc) bs)"

lemma crc_bit_xor: "crc_bit (x XOR y) = crc_bit x XOR crc_bit y"
  unfolding crc_bit_def by (rule bit_word_eqI) (auto simp: bit_simps)

lemma crc_bits_xor: "crc_bits n (x XOR y) = crc_bits n x XOR crc_bits n y"
  by (induction n) (simp_all add: crc_bits_def crc_bit_xor)

lemma crc_bits_0 [simp]: "crc_bits n 0 = 0"
  by (induction n) (simp_all add: crc_bits_def crc_bit_def)

lemma crc_bits_add: "crc_bits (m + n) x = crc_bits m (crc_bits n x)"
  by (simp add: crc_bits_def funpow_add)

lemma crc_bits_shift: "(\<And>i. i < n \<Longrightarrow> \<not> bit x i) \<Longrightarrow> crc_bits n x = drop_bit n x"
proof (induction n)
  case (Suc n)
  then have "crc_bits (Suc n) x = crc_bit (drop_bit n x)" by (simp add: crc_bits_def)
  also have "\<dots> = drop_bit 1 (drop_bit n x)"
    using Suc.prems [of n] by (simp add: crc_bit_def bit_simps)
  finally show ?case by simp
qed (simp add: crc_bits_def)

section \<open>The tables are linear\<close>

text \<open>The table of a linear function, from its values on the single bits, highest first.\<close>

primrec linear_table :: "u32 list \<Rightarrow> u32 list" where
  "linear_table [] = [0]"
| "linear_table (b # bs) = (let t = linear_table bs in t @ map (\<lambda>v. v XOR b) t)"

lemma length_linear_table: "length (linear_table bs) = 2 ^ length bs"
  by (induction bs) (simp_all add: Let_def)

definition single_bits :: "nat \<Rightarrow> nat \<Rightarrow> nat \<Rightarrow> u32 list" where
  "single_bits m sh n = map (\<lambda>i. crc_bits m (push_bit (sh + i) 1)) (rev [0..<n])"

lemma linear_table_nth:
  assumes "n + sh \<le> 32" "k < 2 ^ n"
  shows "linear_table (single_bits m sh n) ! k = crc_bits m (push_bit sh (of_nat k))"
  using assms
proof (induction n arbitrary: k)
  case (Suc n)
  have len: "length (linear_table (single_bits m sh n)) = 2 ^ n"
    by (simp add: length_linear_table single_bits_def)
  have rec: "linear_table (single_bits m sh (Suc n)) =
      linear_table (single_bits m sh n) @
      map (\<lambda>v. v XOR crc_bits m (push_bit (sh + n) 1)) (linear_table (single_bits m sh n))"
    by (simp add: single_bits_def Let_def)
  show ?case
  proof (cases "k < 2 ^ n")
    case True
    with Suc show ?thesis by (simp add: rec nth_append len)
  next
    case False
    let ?j = "k - 2 ^ n"
    have j: "?j < 2 ^ n" "k = ?j + 2 ^ n" using False Suc.prems by auto
    have n: "n < 32" using Suc.prems(1) by simp
    have bits: "bit (of_nat ?j :: u32) i \<Longrightarrow> i < n" for i
      using j(1) n by (metis bit_take_bit_iff linorder_not_le of_nat_take_bit take_bit_nat_eq_self_iff)
    have "(of_nat k :: u32) = of_nat ?j + push_bit n 1"
      using j(2) by (metis of_nat_add of_nat_numeral of_nat_power push_bit_of_1)
    also have "\<dots> = of_nat ?j OR push_bit n 1"
      by (rule disjunctive_add) (use bits in \<open>auto simp: bit_simps\<close>)
    also have "\<dots> = of_nat ?j XOR push_bit n 1"
      by (rule bit_word_eqI) (use bits in \<open>auto simp: bit_simps\<close>)
    finally have "push_bit sh (of_nat k :: u32) = push_bit sh (of_nat ?j) XOR push_bit (sh + n) 1"
      by (simp only: push_bit_xor push_bit_push_bit)
    then show ?thesis
      using Suc.IH [OF _ j(1)] Suc.prems(1) False j(1) Suc.prems(2)
      by (simp add: rec nth_append len crc_bits_xor)
  qed
qed (simp add: single_bits_def)

lemma crc_bits_eval:
  "crc_bits (numeral k) x = crc_bits (pred_numeral k) (crc_bit x)" "crc_bits 0 x = x"
  "crc_bits (Suc 0) x = crc_bit x" "crc_bits 1 x = crc_bit x"
  by (simp_all add: crc_bits_def numeral_eq_Suc funpow_swap1)

text \<open>The value on a bit comes from the value on the bit above it in one step.\<close>

lemma crc_bits_down:
  assumes "Suc i < 32"
  shows "crc_bits m (push_bit i 1) = crc_bit (crc_bits m (push_bit (Suc i) 1))"
proof -
  have "crc_bit (push_bit (Suc i) 1) = push_bit i 1"
    using assms unfolding crc_bit_def by (intro bit_word_eqI) (auto simp: bit_simps)
  then show ?thesis by (metis crc_bits_def funpow_swap1)
qed

primrec chain :: "nat \<Rightarrow> u32 \<Rightarrow> u32 list" where
  "chain 0 y = []"
| "chain (Suc n) y = y # chain n (crc_bit y)"

lemma chain_numeral: "chain (numeral k) y = y # chain (pred_numeral k) (crc_bit y)"
  by (simp add: numeral_eq_Suc)

lemma single_bits_chain:
  "sh + Suc n \<le> 32 \<Longrightarrow> single_bits m sh (Suc n) = chain (Suc n) (crc_bits m (push_bit (sh + n) 1))"
proof (induction n)
  case (Suc n)
  then have "single_bits m sh (Suc (Suc n)) =
      crc_bits m (push_bit (sh + Suc n) 1) # chain (Suc n) (crc_bits m (push_bit (sh + n) 1))"
    by (simp add: single_bits_def)
  then show ?case using crc_bits_down [of "sh + n" m] Suc.prems by simp
qed (simp add: single_bits_def)

lemma single_bits_8: "sh \<le> 24 \<Longrightarrow> single_bits m sh 8 = chain 8 (crc_bits m (push_bit (sh + 7) 1))"
  using single_bits_chain [of sh 7 m] by (simp add: eval_nat_numeral)

lemma chain_tops:
  "crc_bits 8 0x80 = 0x82F63B78" "crc_bits 128 0x80000000 = 0x18B8EA18" "crc_bits 128 0x800000 = 0x9A9F274A"
  "crc_bits 128 0x8000 = 0x2A03AAA3" "crc_bits 128 0x80 = 0xB13145F8"
  by (simp_all add: crc_bits_eval crc_bit_def bit_0)

lemmas table_eval = single_bits_8 push_bit_eq_mult chain_tops chain_numeral crc_bit_def bit_0 Let_def

lemma kByteExtensionTable_linear: "kByteExtensionTable = linear_table (single_bits 8 0 8)"
  by (simp add: kByteExtensionTable_def table_eval)

lemma kStrideExtensionTable0_linear: "kStrideExtensionTable0 = linear_table (single_bits 128 24 8)"
  by (simp add: kStrideExtensionTable0_def table_eval)

lemma kStrideExtensionTable1_linear: "kStrideExtensionTable1 = linear_table (single_bits 128 16 8)"
  by (simp add: kStrideExtensionTable1_def table_eval)

lemma kStrideExtensionTable2_linear: "kStrideExtensionTable2 = linear_table (single_bits 128 8 8)"
  by (simp add: kStrideExtensionTable2_def table_eval)

lemma kStrideExtensionTable3_linear: "kStrideExtensionTable3 = linear_table (single_bits 128 0 8)"
  by (simp add: kStrideExtensionTable3_def table_eval)

lemmas tables_linear = kByteExtensionTable_linear kStrideExtensionTable0_linear
  kStrideExtensionTable1_linear kStrideExtensionTable2_linear kStrideExtensionTable3_linear

lemma table_lookup:
  assumes "sh \<le> 24" "unat x < 256"
  shows "linear_table (single_bits m sh 8) ! unat x = crc_bits m (push_bit sh (x :: u32))"
  using assms linear_table_nth [of 8 sh "unat x" m] by simp

section \<open>The steps\<close>

lemma byte_split: "x = (x AND 0xFF) XOR push_bit 8 (drop_bit 8 x)" for x :: u32
  unfolding and_255 by (rule bit_word_eqI) (auto simp: bit_simps)

lemma unat_and_255: "unat (x AND 0xFF :: u32) < 256"
  unfolding and_255 unat_take_bit by simp

lemma crc_bits_push:
  assumes "\<And>n. bit y n \<Longrightarrow> k + n < 32"
  shows "crc_bits k (push_bit k y) = y"
proof -
  have "crc_bits k (push_bit k y) = drop_bit k (push_bit k y)"
    by (rule crc_bits_shift) (simp add: bit_simps)
  also have "\<dots> = y"
    by (rule bit_word_eqI) (use assms in \<open>auto simp: bit_simps\<close>)
  finally show ?thesis .
qed

lemma bit_ucast_byte: "bit (ucast (b :: byte) :: u32) n \<Longrightarrow> n < 8"
  using bit_imp_le_length [of b n] by (simp add: bit_simps)

lemma byte_step: "kByteExtensionTable ! unat (x AND 0xFF) XOR drop_bit 8 x = crc_bits 8 x"
proof -
  have "crc_bits 8 (push_bit 8 (drop_bit 8 x)) = drop_bit 8 x"
    by (rule crc_bits_push) (simp add: bit_drop_bit_eq, drule bit_imp_le_length, simp)
  then have "crc_bits 8 x = crc_bits 8 (x AND 0xFF) XOR drop_bit 8 x"
    by (subst byte_split) (simp add: crc_bits_xor)
  then show ?thesis
    using table_lookup [of 0 "x AND 0xFF" 8] unat_and_255 by (simp add: kByteExtensionTable_linear)
qed

lemma STEP1_eq: "STEP1 l b = crc_bits 8 (l XOR ucast b)"
proof -
  have "(l AND 0xFF) XOR ucast b = (l XOR ucast b) AND 0xFF" "drop_bit 8 l = drop_bit 8 (l XOR ucast b)"
    unfolding and_255 by (rule bit_word_eqI; auto simp: bit_simps dest: bit_imp_le_length)+
  then show ?thesis unfolding STEP1_def by (simp only: byte_step)
qed

lemma step1_loop_eq: "step1_loop l bs = crc_feed l bs"
  by (induction bs arbitrary: l) (simp_all add: crc_feed_def STEP1_eq)

lemma crc_feed_append: "crc_feed l (a @ b) = crc_feed (crc_feed l a) b"
  by (simp add: crc_feed_def)

text \<open>Four bytes at once are the word they form.\<close>

lemma feed_byte_shift:
  assumes "k \<le> 2"
  shows "crc_bits 8 x XOR push_bit (8 * k) (ucast (b :: byte)) = crc_bits 8 (x XOR push_bit (8 * Suc k) (ucast b))"
proof -
  have "crc_bits 8 (push_bit (8 * Suc k) (ucast b :: u32)) = push_bit (8 * k) (ucast b)"
  proof -
    have "bit (push_bit (8 * k) (ucast b :: u32)) n \<Longrightarrow> 8 + n < 32" for n
      using assms bit_ucast_byte [of b "n - 8 * k"] by (auto simp: bit_push_bit_iff)
    then have "crc_bits 8 (push_bit 8 (push_bit (8 * k) (ucast b))) = push_bit (8 * k) (ucast b)"
      by (rule crc_bits_push)
    then show ?thesis by (simp add: push_bit_push_bit)
  qed
  then show ?thesis by (simp add: crc_bits_xor)
qed

lemma ReadUint32LE_bytes:
  "ReadUint32LE (a # b # c # d # r) =
     ucast a XOR push_bit 8 (ucast b) XOR push_bit 16 (ucast c) XOR push_bit 24 (ucast d)"
proof -
  have x: "ucast (a :: byte) OR push_bit 8 y = ucast a XOR push_bit 8 (y :: u32)" for a y
  proof (rule bit_word_eqI)
    fix n assume "n < LENGTH(32)"
    then show "bit (ucast a OR push_bit 8 y) n = bit (ucast a XOR push_bit 8 y) n"
      using bit_ucast_byte [of a n] by (auto simp: bit_or_iff bit_xor_iff bit_push_bit_iff)
  qed
  have "ReadUint32LE (a # b # c # d # r) =
      ucast a OR push_bit 8 (ucast b OR push_bit 8 (ucast c OR push_bit 8 (ucast d)))"
    by (simp add: ReadUint32LE_def DecodeFixed32_def kLittleEndian_def byte_or_high)
  also have "\<dots> = ucast a XOR push_bit 8 (ucast b XOR push_bit 8 (ucast c XOR push_bit 8 (ucast d)))"
    unfolding x ..
  finally show ?thesis by (simp add: push_bit_xor push_bit_push_bit)
qed

lemma feed_word:
  assumes "length p \<ge> 4"
  shows "crc_feed l (take 4 p) = crc_bits 32 (ReadUint32LE p XOR l)"
proof -
  obtain a b c d r where p: "p = a # b # c # d # r"
    using assms by (auto simp: numeral_eq_Suc Suc_le_length_iff)
  note s = feed_byte_shift [of 0] feed_byte_shift [of 1] feed_byte_shift [of 2]
  have "crc_feed l (take 4 p) =
      crc_bits 8 (crc_bits 8 (crc_bits 8 (crc_bits 8 (l XOR ucast a XOR push_bit 8 (ucast b) XOR
        push_bit 16 (ucast c) XOR push_bit 24 (ucast d)))))"
    using s by (simp add: p crc_feed_def xor.assoc)
  also have "\<dots> = crc_bits 32 (ReadUint32LE p XOR l)"
    using crc_bits_add [of 8 24] crc_bits_add [of 8 16] crc_bits_add [of 8 8]
    by (simp add: p ReadUint32LE_bytes ac_simps)
  finally show ?thesis .
qed

lemma STEP4_eq: "STEP4 crc w = w XOR crc_bits 128 crc"
proof -
  have b: "unat (drop_bit 24 crc) < 256" using unat_lt_u32 [of crc] by (simp add: unat_drop_bit)
  have "crc = (crc AND 0xFF) XOR push_bit 8 (drop_bit 8 crc AND 0xFF) XOR
      push_bit 16 (drop_bit 16 crc AND 0xFF) XOR push_bit 24 (drop_bit 24 crc)"
    unfolding and_255 by (rule bit_word_eqI) (auto simp: bit_simps)
  then have "crc_bits 128 crc = crc_bits 128 (crc AND 0xFF) XOR
      crc_bits 128 (push_bit 8 (drop_bit 8 crc AND 0xFF)) XOR
      crc_bits 128 (push_bit 16 (drop_bit 16 crc AND 0xFF)) XOR
      crc_bits 128 (push_bit 24 (drop_bit 24 crc))"
    by (metis crc_bits_xor)
  then show ?thesis
    using b by (simp add: STEP4_def tables_linear table_lookup unat_and_255 ac_simps)
qed

lemma STEP4W_eq: "STEP4W l w = crc_bits 32 (w XOR l)"
proof -
  have "(\<lambda>w. drop_bit 8 w XOR kByteExtensionTable ! unat (w AND 0xFF)) = crc_bits 8"
    by (rule ext) (metis byte_step xor.commute)
  moreover have "(crc_bits 8 ^^ 4) x = crc_bits 32 x" for x
    by (simp add: crc_bits_def funpow_mult)
  ultimately show ?thesis by (simp add: STEP4W_def)
qed

section \<open>The loops\<close>

text \<open>The checksum state that four strides stand for.\<close>

lemma combine_eq:
  "combine (a, b, c, d) = crc_bits 128 a XOR crc_bits 96 b XOR crc_bits 64 c XOR crc_bits 32 d"
  using crc_bits_add [of 32 96] crc_bits_add [of 32 64] crc_bits_add [of 32 32]
  by (simp add: combine_def STEP4W_eq crc_bits_xor ac_simps)

lemma feed_words:
  assumes "16 \<le> length p"
  shows "crc_feed l (take 16 p) =
    crc_bits 128 (ReadUint32LE p XOR l) XOR crc_bits 96 (ReadUint32LE (drop 4 p)) XOR
    crc_bits 64 (ReadUint32LE (drop 8 p)) XOR crc_bits 32 (ReadUint32LE (drop 12 p))"
proof -
  have "take 16 p = take 4 p @ take 4 (drop 4 p) @ take 4 (drop 8 p) @ take 4 (drop 12 p)"
    using take_add [of 4 12 p] take_add [of 4 8 "drop 4 p"] take_add [of 4 4 "drop 8 p"]
    by (simp add: drop_drop)
  then show ?thesis
    using assms crc_bits_add [of 32 96] crc_bits_add [of 32 64] crc_bits_add [of 32 32]
    by (simp add: crc_feed_append feed_word crc_bits_xor ac_simps)
qed

lemma swath_step:
  assumes "16 \<le> length p"
  shows "combine (STEP16 c p) = crc_feed (combine c) (take 16 p)"
proof -
  obtain c0 c1 c2 c3 where c: "c = (c0, c1, c2, c3)" by (cases c)
  note * = crc_bits_add [of 128 128] crc_bits_add [of 96 128] crc_bits_add [of 64 128] crc_bits_add [of 32 128]
    crc_bits_add [of 128 96] crc_bits_add [of 128 64] crc_bits_add [of 128 32]
  show ?thesis
    by (simp add: c STEP16_def combine_eq feed_words [OF assms] STEP4_eq crc_bits_xor
        xor.assoc xor.commute xor.left_commute flip: crc_bits_add)
qed

lemma word_step:
  assumes "4 \<le> length p"
  shows "combine (c1, c2, c3, STEP4 c0 (ReadUint32LE p)) = crc_feed (combine (c0, c1, c2, c3)) (take 4 p)"
  by (simp add: combine_eq feed_word [OF assms] STEP4_eq crc_bits_xor
      xor.assoc xor.commute xor.left_commute flip: crc_bits_add)

lemma feed_split: "crc_feed (crc_feed l (take k p)) (drop k p) = crc_feed l p"
  by (simp flip: crc_feed_append)

lemma swath_loop_eq: "case swath_loop c p of (c', p') \<Rightarrow> crc_feed (combine c') p' = crc_feed (combine c) p"
proof (induction c p rule: swath_loop.induct)
  case (1 c p)
  show ?case
  proof (cases "16 \<le> length p")
    case True
    with 1 have "case swath_loop c p of (c', p') \<Rightarrow>
        crc_feed (combine c') p' = crc_feed (combine (STEP16 c p)) (drop 16 p)"
      by (simp add: swath_loop.simps [of c p])
    then show ?thesis by (simp only: swath_step [OF True] feed_split)
  qed (simp add: swath_loop.simps [of c p])
qed

lemma word_loop_eq: "case word_loop c p of (c', p') \<Rightarrow> crc_feed (combine c') p' = crc_feed (combine c) p"
proof (induction c p rule: word_loop.induct)
  case (1 c p)
  obtain c0 c1 c2 c3 where c: "c = (c0, c1, c2, c3)" by (cases c)
  show ?case
  proof (cases "4 \<le> length p")
    case True
    with 1 have "case word_loop c p of (c', p') \<Rightarrow>
        crc_feed (combine c') p' = crc_feed (combine (c1, c2, c3, STEP4 c0 (ReadUint32LE p))) (drop 4 p)"
      by (simp add: word_loop.simps [of "(c0, c1, c2, c3)" p] c)
    then show ?thesis by (simp only: word_step [OF True] feed_split c)
  qed (simp add: word_loop.simps [of c p])
qed

lemma strided_eq:
  assumes "strided l p = (l', p')"
  shows "crc_feed l' p' = crc_feed l p"
proof (cases "16 \<le> length p")
  case True
  let ?c = "(ReadUint32LE p XOR l, ReadUint32LE (drop 4 p), ReadUint32LE (drop 8 p), ReadUint32LE (drop 12 p))"
  obtain c1 p1 c2 p2 where w: "swath_loop ?c (drop 16 p) = (c1, p1)" "word_loop c1 p1 = (c2, p2)"
    by fastforce
  have "(l', p') = (combine c2, p2)" using assms True w by (simp add: strided_def)
  then have "crc_feed l' p' = crc_feed (combine ?c) (drop 16 p)"
    using swath_loop_eq [of ?c "drop 16 p"] word_loop_eq [of c1 p1] w by simp
  also have "combine ?c = crc_feed l (take 16 p)"
    using feed_words [OF True, of l] by (simp only: combine_eq)
  finally show ?thesis by (simp only: feed_split)
qed (use assms in \<open>simp add: strided_def\<close>)

lemma CanAccelerate [simp]: "\<not> CanAccelerateCRC32C"
  by (simp add: CanAccelerateCRC32C_def AcceleratedCRC32C_def)

lemma xor_all_ones: "x XOR kCRC32Xor = NOT x"
proof -
  have e: "kCRC32Xor = NOT 0" by (simp add: kCRC32Xor_def)
  show ?thesis unfolding e by (rule bit_word_eqI) (auto simp: bit_xor_iff bit_not_iff)
qed

lemma Extend_eq: "Extend crc p bs = crc32c crc bs"
proof -
  define k where "k = (if RoundUp4 p \<le> p + of_nat (length bs) then unat (RoundUp4 p - p) else 0)"
  obtain l rest where s: "strided (crc_feed (NOT crc) (take k bs)) (drop k bs) = (l, rest)"
    by fastforce
  have "crc_feed l rest = crc_feed (NOT crc) (take k bs @ drop k bs)"
    using strided_eq [OF s] by (simp only: crc_feed_append)
  with s show ?thesis
    by (simp add: Extend_def Let_def step1_loop_eq xor_all_ones crc32c_def flip: k_def)
qed

section \<open>Error detection\<close>

lemma xor_cancel: "x XOR z = y XOR z \<longleftrightarrow> x = (y :: 'a::len word)"
proof
  assume "x XOR z = y XOR z"
  then have "x XOR z XOR z = y XOR z XOR z" by (simp only: flip: xor.assoc)
  then show "x = y" by simp
qed simp

lemma xor_zero: "x XOR y = 0 \<longleftrightarrow> x = (y :: 'a::len word)"
  using xor_cancel [of x y y] by simp

lemma crc_bit_eq_0: "crc_bit z = 0 \<Longrightarrow> z = 0"
proof -
  assume z: "crc_bit z = 0"
  have "\<not> bit (drop_bit 1 z) 31" using bit_imp_le_length [of z 32] by (auto simp: bit_drop_bit_eq)
  moreover have "bit (0x82F63B78 :: u32) 31" by simp
  ultimately have "drop_bit 1 z \<noteq> 0x82F63B78" by metis
  with z have "drop_bit 1 z = 0" "\<not> bit z 0"
    by (auto simp: crc_bit_def xor_zero split: if_splits)
  then show "z = 0" using bits_ident [of 1 z] by (simp add: take_bit_Suc bit_0 even_iff_mod_2_eq_zero)
qed

lemma crc_bits_inj: "crc_bits n x = crc_bits n y \<Longrightarrow> x = y"
proof -
  assume "crc_bits n x = crc_bits n y"
  then have "crc_bits n (x XOR y) = 0" by (simp add: crc_bits_xor)
  then have "x XOR y = 0" by (induction n) (auto simp: crc_bits_def dest: crc_bit_eq_0)
  then show "x = y" by (simp add: xor_zero)
qed

lemma crc_feed_inj: "crc_feed x s = crc_feed y s \<Longrightarrow> x = y"
proof (induction s arbitrary: x y)
  case (Cons b s)
  then have "crc_bits 8 (x XOR ucast b) = crc_bits 8 (y XOR ucast b)" by (simp add: crc_feed_def)
  then have "x XOR ucast b = y XOR ucast b" by (rule crc_bits_inj)
  then show ?case by (simp only: xor_cancel)
qed (simp add: crc_feed_def)

lemma ReadUint32LE_inj:
  assumes "length a = 4" "length b = 4" "ReadUint32LE a = ReadUint32LE b"
  shows "a = b"
proof -
  have "le_val a < 2 ^ 32" "le_val b < 2 ^ 32" using le_val_less [of a] le_val_less [of b] assms by simp_all
  moreover have "(of_nat (le_val a) :: u32) = of_nat (le_val b)"
    using assms by (simp add: ReadUint32LE_def DecodeFixed32_def kLittleEndian_def)
  ultimately have "le_val a = le_val b"
    using word_unat_eq_iff [of "of_nat (le_val a) :: u32" "of_nat (le_val b)"]
    by (simp add: unat_of_nat take_bit_nat_eq_self)
  then show ?thesis using le_bytes_le_val [of a] le_bytes_le_val [of b] assms by simp
qed

lemma crc_feed_short_inj:
  assumes "length a = length b" "length a \<le> 4" "crc_feed l a = crc_feed l b"
  shows "a = b"
proof -
  let ?z = "replicate (4 - length a) (0 :: byte)"
  have "crc_feed l (take 4 (a @ ?z)) = crc_feed l (take 4 (b @ ?z))"
    using assms by (simp add: crc_feed_append)
  then have "crc_bits 32 (ReadUint32LE (a @ ?z) XOR l) = crc_bits 32 (ReadUint32LE (b @ ?z) XOR l)"
    using assms feed_word [of "a @ ?z" l] feed_word [of "b @ ?z" l] by simp
  then have "ReadUint32LE (a @ ?z) XOR l = ReadUint32LE (b @ ?z) XOR l" by (rule crc_bits_inj)
  then have "ReadUint32LE (a @ ?z) = ReadUint32LE (b @ ?z)" by (simp only: xor_cancel)
  then have "a @ ?z = b @ ?z" using assms by (intro ReadUint32LE_inj) auto
  then show ?thesis by simp
qed

lemma crc32c_burst:
  assumes "length a = length b" "length a \<le> 4" "a \<noteq> b"
  shows "crc32c c (pre @ a @ post) \<noteq> crc32c c (pre @ b @ post)"
proof
  assume "crc32c c (pre @ a @ post) = crc32c c (pre @ b @ post)"
  then have "crc_feed (crc_feed (crc_feed (NOT c) pre) a) post = crc_feed (crc_feed (crc_feed (NOT c) pre) b) post"
    by (simp add: crc32c_def crc_feed_append)
  then have "crc_feed (crc_feed (NOT c) pre) a = crc_feed (crc_feed (NOT c) pre) b"
    by (rule crc_feed_inj)
  with crc_feed_short_inj assms show False by blast
qed

lemma crc32c_append: "crc32c (crc32c c a) b = crc32c c (a @ b)"
  by (simp add: crc32c_def crc_feed_append)

section \<open>Properties\<close>

text \<open>
  C13: the table-driven checksum is the bit-serial CRC-32C: for every starting value, every
  data and every alignment of it, \<^verbatim>\<open>Extend\<close> shifts the inverted state through the
  polynomial bit by bit, least significant bit of each byte first. In particular the
  alignment does not matter, and extending a checksum continues it.
\<close>
theorem Extend_is_crc32c:
  "Extend crc p bytes = crc32c crc bytes \<and> Extend (Extend crc p bytes) q bytes2 = Extend crc r (bytes @ bytes2)"
  by (simp add: Extend_eq crc32c_append)



end
