(* ===== verification/Ldb_Status.thy ===== *)
theory Ldb_Status
  imports Ldb_Coding
begin

unbundle bit_operations_syntax

text \<open>
  \<^verbatim>\<open>leveldb-library/include/leveldb/status.h\<close>, \<^verbatim>\<open>util/status.cc\<close>, \<^verbatim>\<open>include/leveldb/slice.h\<close>:
  the error values of the database, in their representation as a heap array (absent for
  success), and the comparison of slices. The lemmas relate the codes to the constructors, give the
  printed form, and show that comparison is the lexicographic order of unsigned bytes.
\<close>

section \<open>Status\<close>

text \<open>The bytes of a C string literal.\<close>

definition cstr :: "string \<Rightarrow> byte list" where
  "cstr s = map of_char s"

lemma length_cstr [simp]: "length (cstr s) = length s"
  by (simp add: cstr_def)

text \<open>\<^verbatim>\<open>state_\<close>: nothing for \<^verbatim>\<open>nullptr\<close>.\<close>

type_synonym status = "byte list option"

datatype status_code = kOk | kNotFound | kCorruption | kNotSupported | kInvalidArgument | kIOError

fun code_byte :: "status_code \<Rightarrow> byte" where
  "code_byte kOk = 0"
| "code_byte kNotFound = 1"
| "code_byte kCorruption = 2"
| "code_byte kNotSupported = 3"
| "code_byte kInvalidArgument = 4"
| "code_byte kIOError = 5"

definition Status :: "status_code \<Rightarrow> slice \<Rightarrow> slice \<Rightarrow> status" where
  "Status code msg msg2 =
     (let len1 = of_nat (length msg) :: u32;
          len2 = of_nat (length msg2) :: u32;
          size = len1 + (if len2 \<noteq> 0 then 2 + len2 else 0)
      in Some (le_bytes 4 (unat size) @ [code_byte code] @ take (unat len1) msg @
               (if len2 \<noteq> 0 then cstr '': '' @ take (unat len2) msg2 else [])))"

definition CopyState :: "byte list \<Rightarrow> byte list" where
  "CopyState st = take (le_val (take 4 st) + 5) st"

definition OK :: status where
  "OK = None"

definition NotFound :: "slice \<Rightarrow> slice \<Rightarrow> status" where
  "NotFound = Status kNotFound"

definition Corruption :: "slice \<Rightarrow> slice \<Rightarrow> status" where
  "Corruption = Status kCorruption"

definition NotSupported :: "slice \<Rightarrow> slice \<Rightarrow> status" where
  "NotSupported = Status kNotSupported"

definition InvalidArgument :: "slice \<Rightarrow> slice \<Rightarrow> status" where
  "InvalidArgument = Status kInvalidArgument"

definition IOError :: "slice \<Rightarrow> slice \<Rightarrow> status" where
  "IOError = Status kIOError"

definition status_ok :: "status \<Rightarrow> bool" where
  "status_ok s \<longleftrightarrow> s = None"

text \<open>\<^verbatim>\<open>code()\<close>, as the stored byte.\<close>

definition status_code_of :: "status \<Rightarrow> byte" where
  "status_code_of s = (case s of None \<Rightarrow> code_byte kOk | Some st \<Rightarrow> st ! 4)"

definition IsNotFound :: "status \<Rightarrow> bool" where
  "IsNotFound s \<longleftrightarrow> status_code_of s = code_byte kNotFound"

definition IsCorruption :: "status \<Rightarrow> bool" where
  "IsCorruption s \<longleftrightarrow> status_code_of s = code_byte kCorruption"

definition IsIOError :: "status \<Rightarrow> bool" where
  "IsIOError s \<longleftrightarrow> status_code_of s = code_byte kIOError"

definition IsNotSupportedError :: "status \<Rightarrow> bool" where
  "IsNotSupportedError s \<longleftrightarrow> status_code_of s = code_byte kNotSupported"

definition IsInvalidArgument :: "status \<Rightarrow> bool" where
  "IsInvalidArgument s \<longleftrightarrow> status_code_of s = code_byte kInvalidArgument"

text \<open>
  \<^verbatim>\<open>ToString\<close>; a code outside the enumeration, which no constructor stores, prints with
  \<^verbatim>\<open>snprintf\<close> and is left out.
\<close>

definition status_ToString :: "status \<Rightarrow> byte list option" where
  "status_ToString s =
     (case s of
        None \<Rightarrow> Some (cstr ''OK'')
      | Some st \<Rightarrow>
          let c = status_code_of s;
              msg = take (le_val (take 4 st)) (drop 5 st);
              type = (if c = 0 then Some ''OK'' else if c = 1 then Some ''NotFound: ''
                      else if c = 2 then Some ''Corruption: '' else if c = 3 then Some ''Not implemented: ''
                      else if c = 4 then Some ''Invalid argument: '' else if c = 5 then Some ''IO error: ''
                      else None)
          in map_option (\<lambda>t. cstr t @ msg) type)"

lemmas status_defs = NotFound_def Corruption_def NotSupported_def InvalidArgument_def IOError_def

lemma ok_OK [simp]: "status_ok OK" "status_ok s \<longleftrightarrow> s = OK"
  by (simp_all add: status_ok_def OK_def)

lemma Status_not_OK [simp]: "Status c m m2 \<noteq> OK" "OK \<noteq> Status c m m2"
  by (simp_all add: Status_def OK_def Let_def)

lemma Status_code: "status_code_of (Status c m m2) = code_byte c"
  by (simp add: status_code_of_def Status_def Let_def nth_append)

text \<open>The message of an error, with the second part after a colon.\<close>

definition joined :: "slice \<Rightarrow> slice \<Rightarrow> slice" where
  "joined msg msg2 = (if msg2 = [] then msg else msg @ cstr '': '' @ msg2)"

lemma Status_bytes:
  assumes "length msg + length msg2 + 2 < 2 ^ 32"
  shows "Status c msg msg2 =
    Some (le_bytes 4 (length (joined msg msg2)) @ [code_byte c] @ joined msg msg2)"
proof -
  have len: "unat (of_nat (length msg) :: u32) = length msg" "unat (of_nat (length msg2) :: u32) = length msg2"
    using assms by (simp_all add: unat_of_nat take_bit_nat_eq_self)
  then have z: "(of_nat (length msg2) :: u32) = 0 \<longleftrightarrow> msg2 = []" by (metis length_0_conv unat_eq_zero)
  have "unat (of_nat (length msg) + (2 + of_nat (length msg2)) :: u32) = length msg + (2 + length msg2)"
  proof -
    have "of_nat (length msg) + (2 + of_nat (length msg2)) = (of_nat (length msg + (2 + length msg2)) :: u32)"
      by simp
    then show ?thesis using assms by (simp only: unat_of_nat) (simp add: take_bit_nat_eq_self)
  qed
  with len z show ?thesis by (simp add: Status_def joined_def Let_def)
qed

lemma CopyState_Status:
  assumes "length msg + length msg2 + 2 < 2 ^ 32"
  shows "map_option CopyState (Status c msg msg2) = Status c msg msg2"
proof -
  have "length (joined msg msg2) < 2 ^ 32" using assms by (auto simp: joined_def)
  then show ?thesis by (simp add: Status_bytes [OF assms] CopyState_def le_val_le_bytes)
qed

lemma status_ToString_error:
  assumes "length msg + length msg2 + 2 < 2 ^ 32" "c \<noteq> kOk"
  shows "status_ToString (Status c msg msg2) =
    Some (cstr (case c of kNotFound \<Rightarrow> ''NotFound: '' | kCorruption \<Rightarrow> ''Corruption: ''
      | kNotSupported \<Rightarrow> ''Not implemented: '' | kInvalidArgument \<Rightarrow> ''Invalid argument: ''
      | kIOError \<Rightarrow> ''IO error: '' | kOk \<Rightarrow> '''') @ joined msg msg2)"
proof -
  have len: "length (joined msg msg2) < 2 ^ 32" using assms(1) by (auto simp: joined_def)
  let ?st = "le_bytes 4 (length (joined msg msg2)) @ [code_byte c] @ joined msg msg2"
  have s: "Status c msg msg2 = Some ?st" using assms(1) by (rule Status_bytes)
  then have "status_code_of (Some ?st) = code_byte c" using Status_code [of c msg msg2] by simp
  then show ?thesis
    unfolding s using len assms(2)
    by (cases c) (simp_all add: status_ToString_def Let_def le_val_le_bytes)
qed

section \<open>Slice\<close>

text \<open>\<^verbatim>\<open>memcmp\<close> of the first \<open>n\<close> bytes: the difference of the first bytes that are not equal.\<close>

fun memcmp :: "byte list \<Rightarrow> byte list \<Rightarrow> nat \<Rightarrow> int" where
  "memcmp (a # as) (b # bs) (Suc n) = (if a = b then memcmp as bs n else uint a - uint b)"
| "memcmp _ _ _ = 0"

definition slice_compare :: "slice \<Rightarrow> slice \<Rightarrow> int" where
  "slice_compare a b =
     (let min_len = (if length a < length b then length a else length b);
          r = memcmp a b min_len
      in if r = 0 then (if length a < length b then -1 else if length b < length a then 1 else r)
         else r)"

definition starts_with :: "slice \<Rightarrow> slice \<Rightarrow> bool" where
  "starts_with s x \<longleftrightarrow> length x \<le> length s \<and> memcmp s x (length x) = 0"

definition slice_eq :: "slice \<Rightarrow> slice \<Rightarrow> bool" where
  "slice_eq x y \<longleftrightarrow> length x = length y \<and> memcmp x y (length x) = 0"

text \<open>The lexicographic order of bytes.\<close>

fun lex_less :: "byte list \<Rightarrow> byte list \<Rightarrow> bool" where
  "lex_less _ [] \<longleftrightarrow> False"
| "lex_less [] (b # bs) \<longleftrightarrow> True"
| "lex_less (a # as) (b # bs) \<longleftrightarrow> a < b \<or> a = b \<and> lex_less as bs"

lemma uint_eq: "uint a = uint b \<longleftrightarrow> a = (b :: byte)"
  by (rule word_uint_eq_iff [symmetric])

lemma memcmp_0: "n \<le> length a \<Longrightarrow> n \<le> length b \<Longrightarrow> memcmp a b n = 0 \<longleftrightarrow> take n a = take n b"
  by (induction a b n rule: memcmp.induct) (auto simp: uint_eq)

lemma slice_compare_Cons:
  "slice_compare (a # as) (b # bs) = (if a = b then slice_compare as bs else uint a - uint b)"
  by (simp add: slice_compare_def Let_def uint_eq)

lemma slice_compare_Nil:
  "slice_compare [] [] = 0" "slice_compare [] (b # bs) = -1" "slice_compare (a # as) [] = 1"
  by (simp_all add: slice_compare_def)

lemmas slice_compare_simps = slice_compare_Cons slice_compare_Nil

lemma slice_compare_lex:
  "(slice_compare a b < 0 \<longleftrightarrow> lex_less a b) \<and> (slice_compare a b = 0 \<longleftrightarrow> a = b) \<and>
   (0 < slice_compare a b \<longleftrightarrow> lex_less b a)"
proof (induction a b rule: lex_less.induct)
  case (1 a)
  then show ?case by (cases a) (simp_all add: slice_compare_simps)
next
  case (3 a as b bs)
  have "a < b \<longleftrightarrow> uint a < uint b" "b < a \<longleftrightarrow> uint b < uint a" by (simp_all add: word_less_def)
  moreover have "a \<noteq> b \<Longrightarrow> uint a \<noteq> uint b" by (simp add: uint_eq)
  ultimately show ?case using 3 by (auto simp: slice_compare_simps)
qed (simp add: slice_compare_simps)

lemma lex_less_irrefl [simp]: "\<not> lex_less a a"
  by (induction a) auto

lemma lex_less_trans: "lex_less a b \<Longrightarrow> lex_less b c \<Longrightarrow> lex_less a c"
proof (induction a b arbitrary: c rule: lex_less.induct)
  case (2 b bs)
  then show ?case by (cases c) auto
next
  case (3 a as b bs)
  then show ?case by (cases c) auto
qed simp

lemma lex_less_linear: "lex_less a b \<or> a = b \<or> lex_less b a"
proof (induction a b rule: lex_less.induct)
  case (1 a)
  then show ?case by (cases a) auto
qed auto

lemma slice_eq_iff: "slice_eq x y \<longleftrightarrow> x = y"
  by (auto simp: slice_eq_def memcmp_0)

lemma starts_with_iff: "starts_with s x \<longleftrightarrow> (\<exists>r. s = x @ r)"
  by (auto simp: starts_with_def memcmp_0) (metis append_take_drop_id)

end
