(* ===== verification/Ldb_Env_Posix.thy ===== *)
theory Ldb_Env_Posix
  imports Ldb_Status "HOL-Library.Sublist"
begin

text \<open>
  The file classes of \<^verbatim>\<open>leveldb-library/util/env_posix.cc\<close>: the buffered writable file and
  the sequential file, over a kernel whose next answers to \<^verbatim>\<open>write\<close>, \<^verbatim>\<open>read\<close> and the
  synchronisation calls are part of the state (partial transfers, interrupts and errors in
  any order; once the list of answers is used up, calls complete). The locale
  \<open>buffered_file\<close> is what the log writer relies on; \<^verbatim>\<open>PosixWritableFile\<close> provides it.
\<close>

section \<open>The kernel\<close>

definition ENOENT :: int where
  "ENOENT = 2"

definition EINTR :: int where
  "EINTR = 4"

datatype transfer = Transferred nat | Errno int

text \<open>The file, the part of it that is on durable media, the answers to come and the error texts.\<close>

record kernel_file =
  k_bytes :: "byte list"
  k_durable :: "byte list"
  k_writes :: "transfer list"
  k_strerror :: "int \<Rightarrow> byte list"

definition sys_write :: "kernel_file \<Rightarrow> byte list \<Rightarrow> transfer \<times> kernel_file" where
  "sys_write k data =
     (case k_writes k of
        [] \<Rightarrow> (Transferred (length data), k\<lparr>k_bytes := k_bytes k @ data\<rparr>)
      | Transferred n # ws \<Rightarrow>
          (Transferred (min n (length data)), k\<lparr>k_bytes := k_bytes k @ take n data, k_writes := ws\<rparr>)
      | Errno e # ws \<Rightarrow> (Errno e, k\<lparr>k_writes := ws\<rparr>))"

definition PosixError :: "(int \<Rightarrow> byte list) \<Rightarrow> byte list \<Rightarrow> int \<Rightarrow> status" where
  "PosixError strerror context_name error_number =
     (if error_number = ENOENT then NotFound context_name (strerror error_number)
      else IOError context_name (strerror error_number))"

section \<open>PosixWritableFile\<close>

definition kWritableFileBufferSize :: nat where
  "kWritableFileBufferSize = 65536"

text \<open>\<^verbatim>\<open>buf_[0, pos_ - 1]\<close> is the list \<open>w_buf\<close>, \<^verbatim>\<open>pos_\<close> its length.\<close>

record posix_wfile =
  w_buf :: "byte list"
  w_fd :: kernel_file
  w_open :: bool
  w_is_manifest :: bool
  w_filename :: "byte list"
  w_dirname :: "byte list"

function WriteUnbuffered_loop :: "byte list \<Rightarrow> byte list \<Rightarrow> kernel_file \<Rightarrow> status \<times> kernel_file" where
  "WriteUnbuffered_loop filename data k =
     (if data = [] then (OK, k)
      else (case sys_write k data of
              (Errno e, k1) \<Rightarrow>
                if e = EINTR then WriteUnbuffered_loop filename data k1
                else (PosixError (k_strerror k1) filename e, k1)
            | (Transferred n, k1) \<Rightarrow> WriteUnbuffered_loop filename (drop n data) k1))"
  by pat_completeness auto
termination
  by (relation "measure (\<lambda>(f, data, k). length data + length (k_writes k))")
    (auto simp: sys_write_def split: list.splits transfer.splits)

declare WriteUnbuffered_loop.simps [simp del]

definition WriteUnbuffered :: "posix_wfile \<Rightarrow> byte list \<Rightarrow> status \<times> posix_wfile" where
  "WriteUnbuffered w data =
     (case WriteUnbuffered_loop (w_filename w) data (w_fd w) of (s, k) \<Rightarrow> (s, w\<lparr>w_fd := k\<rparr>))"

definition FlushBuffer :: "posix_wfile \<Rightarrow> status \<times> posix_wfile" where
  "FlushBuffer w = (case WriteUnbuffered w (w_buf w) of (s, w1) \<Rightarrow> (s, w1\<lparr>w_buf := []\<rparr>))"

definition posix_Append :: "posix_wfile \<Rightarrow> slice \<Rightarrow> status \<times> posix_wfile" where
  "posix_Append w data =
     (let copy_size = min (length data) (kWritableFileBufferSize - length (w_buf w));
          w1 = w\<lparr>w_buf := w_buf w @ take copy_size data\<rparr>;
          write_data = drop copy_size data
      in
      if write_data = [] then (OK, w1)
      else (case FlushBuffer w1 of
              (s, w2) \<Rightarrow>
                if \<not> status_ok s then (s, w2)
                else if length write_data < kWritableFileBufferSize then (OK, w2\<lparr>w_buf := write_data\<rparr>)
                else WriteUnbuffered w2 write_data))"

definition posix_Flush :: "posix_wfile \<Rightarrow> status \<times> posix_wfile" where
  "posix_Flush w = FlushBuffer w"

text \<open>\<open>close_errno\<close> is the error of \<^verbatim>\<open>close\<close>, if it returns one.\<close>

definition posix_Close :: "int option \<Rightarrow> posix_wfile \<Rightarrow> status \<times> posix_wfile" where
  "posix_Close close_errno w =
     (case FlushBuffer w of
        (s, w1) \<Rightarrow>
          (case close_errno of
             Some e \<Rightarrow> if status_ok s then PosixError (k_strerror (w_fd w1)) (w_filename w1) e else s
           | None \<Rightarrow> s,
           w1\<lparr>w_open := False\<rparr>))"

text \<open>
  The answers of the kernel during a \<^verbatim>\<open>Sync\<close>: whether the full synchronisation of a
  descriptor succeeds, and the error of the fallback to \<^verbatim>\<open>fsync\<close> if it fails too.
\<close>

record sync_answer =
  full_ok :: bool
  fsync_errno :: "int option"

definition SyncFd :: "sync_answer \<Rightarrow> (int \<Rightarrow> byte list) \<Rightarrow> byte list \<Rightarrow> status" where
  "SyncFd ans strerror fd_path =
     (if full_ok ans then OK
      else (case fsync_errno ans of None \<Rightarrow> OK | Some e \<Rightarrow> PosixError strerror fd_path e))"

text \<open>\<open>Inl\<close> when the directory cannot be opened.\<close>

definition SyncDirIfManifest :: "int + sync_answer \<Rightarrow> posix_wfile \<Rightarrow> status" where
  "SyncDirIfManifest ans w =
     (if \<not> w_is_manifest w then OK
      else (case ans of
              Inl e \<Rightarrow> PosixError (k_strerror (w_fd w)) (w_dirname w) e
            | Inr a \<Rightarrow> SyncFd a (k_strerror (w_fd w)) (w_dirname w)))"

definition posix_Sync :: "int + sync_answer \<Rightarrow> sync_answer \<Rightarrow> posix_wfile \<Rightarrow> status \<times> posix_wfile" where
  "posix_Sync dir_ans ans w =
     (let s = SyncDirIfManifest dir_ans w in
      if \<not> status_ok s then (s, w)
      else (case FlushBuffer w of
              (s, w1) \<Rightarrow>
                if \<not> status_ok s then (s, w1)
                else let s = SyncFd ans (k_strerror (w_fd w1)) (w_filename w1)
                     in (s, if status_ok s then w1\<lparr>w_fd := (w_fd w1)\<lparr>k_durable := k_bytes (w_fd w1)\<rparr>\<rparr> else w1)))"

text \<open>The part of a path before and after the last separator.\<close>

definition Dirname :: "byte list \<Rightarrow> byte list" where
  "Dirname filename =
     (if 47 \<in> set filename then rev (tl (dropWhile (\<lambda>c. c \<noteq> 47) (rev filename))) else [46])"

definition Basename :: "byte list \<Rightarrow> byte list" where
  "Basename filename =
     (if 47 \<in> set filename then rev (takeWhile (\<lambda>c. c \<noteq> 47) (rev filename)) else filename)"

definition IsManifest :: "byte list \<Rightarrow> bool" where
  "IsManifest filename \<longleftrightarrow> starts_with (Basename filename) (cstr ''MANIFEST'')"

definition PosixWritableFile :: "byte list \<Rightarrow> kernel_file \<Rightarrow> posix_wfile" where
  "PosixWritableFile filename fd =
     \<lparr>w_buf = [], w_fd = fd, w_open = True, w_is_manifest = IsManifest filename,
      w_filename = filename, w_dirname = Dirname filename\<rparr>"

section \<open>PosixSequentialFile\<close>

text \<open>After an error the result slice is left as the caller had cleared it.\<close>

record posix_sfile =
  s_bytes :: "byte list"
  s_reads :: "transfer list"
  s_seek_errno :: "int option"
  s_strerror :: "int \<Rightarrow> byte list"
  s_filename :: "byte list"

definition sys_read :: "posix_sfile \<Rightarrow> nat \<Rightarrow> (int + byte list) \<times> posix_sfile" where
  "sys_read f n =
     (case s_reads f of
        [] \<Rightarrow> (Inr (take n (s_bytes f)), f\<lparr>s_bytes := drop n (s_bytes f)\<rparr>)
      | Transferred m # rs \<Rightarrow>
          (Inr (take (min m n) (s_bytes f)), f\<lparr>s_bytes := drop (min m n) (s_bytes f), s_reads := rs\<rparr>)
      | Errno e # rs \<Rightarrow> (Inl e, f\<lparr>s_reads := rs\<rparr>))"

function posix_Read :: "posix_sfile \<Rightarrow> nat \<Rightarrow> status \<times> slice \<times> posix_sfile" where
  "posix_Read f n =
     (case sys_read f n of
        (Inl e, f1) \<Rightarrow>
          if e = EINTR then posix_Read f1 n
          else (PosixError (s_strerror f1) (s_filename f1) e, [], f1)
      | (Inr data, f1) \<Rightarrow> (OK, data, f1))"
  by pat_completeness auto
termination
  by (relation "measure (\<lambda>(f, n). length (s_reads f))")
    (auto simp: sys_read_def split: list.splits transfer.splits)

declare posix_Read.simps [simp del]

definition posix_Skip :: "posix_sfile \<Rightarrow> u64 \<Rightarrow> status \<times> posix_sfile" where
  "posix_Skip f n =
     (case s_seek_errno f of
        Some e \<Rightarrow> (PosixError (s_strerror f) (s_filename f) e, f)
      | None \<Rightarrow> (OK, f\<lparr>s_bytes := drop (unat n) (s_bytes f)\<rparr>))"

section \<open>What a buffered file provides\<close>

text \<open>
  The interface a log is written through: as long as the buffer has room an append only
  fills the buffer and cannot fail, and a flush writes some part of the buffer to the file, all
  of it when it reports success.
\<close>

locale buffered_file =
  fixes app :: "'f \<Rightarrow> slice \<Rightarrow> status \<times> 'f" and flush :: "'f \<Rightarrow> status \<times> 'f"
    and written :: "'f \<Rightarrow> byte list" and pending :: "'f \<Rightarrow> byte list" and capacity :: nat
  assumes app_fits: "length (pending f) + length x \<le> capacity \<Longrightarrow>
      \<exists>f'. app f x = (OK, f') \<and> written f' = written f \<and> pending f' = pending f @ x"
    and flush_writes: "\<exists>s f' p q. flush f = (s, f') \<and> pending f = p @ q \<and> written f' = written f @ p \<and>
      (s = OK \<longrightarrow> q = [] \<and> pending f' = [])"
begin

lemma app_two:
  assumes "length (pending f) + length x + length y \<le> capacity"
  shows "\<exists>f1 f2. app f x = (OK, f1) \<and> app f1 y = (OK, f2) \<and> written f2 = written f \<and>
    pending f2 = pending f @ x @ y"
proof -
  have "length (pending f) + length x \<le> capacity" using assms by simp
  from app_fits [OF this] obtain f1 where
    f1: "app f x = (OK, f1)" "written f1 = written f" "pending f1 = pending f @ x" by blast
  have "length (pending f1) + length y \<le> capacity" using assms f1 by simp
  from app_fits [OF this] f1 show ?thesis by auto
qed

end

lemma WriteUnbuffered_loop_writes:
  "\<exists>s k' p q. WriteUnbuffered_loop fn data k = (s, k') \<and> data = p @ q \<and> k_bytes k' = k_bytes k @ p \<and>
     (s = OK \<longrightarrow> q = [])"
proof (induction fn data k rule: WriteUnbuffered_loop.induct)
  case (1 fn data k)
  show ?case
  proof (cases "data = []")
    case True
    then show ?thesis by (simp add: WriteUnbuffered_loop.simps)
  next
    case False
    obtain r k1 where w: "sys_write k data = (r, k1)" by fastforce
    note step = WriteUnbuffered_loop.simps [of fn data k]
    show ?thesis
    proof (cases r)
      case (Errno e)
      then have k1: "k_bytes k1 = k_bytes k"
        using w by (auto simp: sys_write_def split: list.splits transfer.splits)
      show ?thesis
      proof (cases "e = EINTR")
        case True
        then show ?thesis using 1(2) [OF False w [symmetric] Errno True] w False Errno k1 step by simp
      qed (use w False Errno k1 step in \<open>simp add: PosixError_def status_defs\<close>)
    next
      case (Transferred n)
      then have n: "k_bytes k1 = k_bytes k @ take n data"
        using w by (auto simp: sys_write_def min_def split: list.splits transfer.splits)
      obtain s k' p q where l: "WriteUnbuffered_loop fn (drop n data) k1 = (s, k')"
        "drop n data = p @ q" "k_bytes k' = k_bytes k1 @ p" "s = OK \<longrightarrow> q = []"
        using 1(1) [OF False w [symmetric] Transferred] by blast
      then have "data = (take n data @ p) @ q" by (metis append.assoc append_take_drop_id)
      moreover have "WriteUnbuffered_loop fn data k = (s, k')" using l w False Transferred step by simp
      moreover have "k_bytes k' = k_bytes k @ take n data @ p" using l n by simp
      ultimately show ?thesis using l(4) by blast
    qed
  qed
qed

lemma WriteUnbuffered_writes:
  "\<exists>s w' p q. WriteUnbuffered w data = (s, w') \<and> data = p @ q \<and>
     k_bytes (w_fd w') = k_bytes (w_fd w) @ p \<and> (s = OK \<longrightarrow> q = []) \<and> w_buf w' = w_buf w"
proof -
  obtain s k p q where "WriteUnbuffered_loop (w_filename w) data (w_fd w) = (s, k)"
    "data = p @ q" "k_bytes k = k_bytes (w_fd w) @ p" "s = OK \<longrightarrow> q = []"
    using WriteUnbuffered_loop_writes by blast
  then show ?thesis
    by (intro exI [of _ s] exI [of _ "w\<lparr>w_fd := k\<rparr>"] exI [of _ p] exI [of _ q]) (simp add: WriteUnbuffered_def)
qed

lemma FlushBuffer_writes:
  "\<exists>s w' p q. FlushBuffer w = (s, w') \<and> w_buf w = p @ q \<and>
     k_bytes (w_fd w') = k_bytes (w_fd w) @ p \<and> (s = OK \<longrightarrow> q = []) \<and> w_buf w' = []"
proof -
  obtain s w1 p q where "WriteUnbuffered w (w_buf w) = (s, w1)" "w_buf w = p @ q"
    "k_bytes (w_fd w1) = k_bytes (w_fd w) @ p" "s = OK \<longrightarrow> q = []"
    using WriteUnbuffered_writes by blast
  then show ?thesis
    by (intro exI [of _ s] exI [of _ "w1\<lparr>w_buf := []\<rparr>"] exI [of _ p] exI [of _ q]) (simp add: FlushBuffer_def)
qed

interpretation posix: buffered_file posix_Append posix_Flush "\<lambda>w. k_bytes (w_fd w)" w_buf kWritableFileBufferSize
proof
  fix f :: posix_wfile and x :: slice
  assume "length (w_buf f) + length x \<le> kWritableFileBufferSize"
  then show "\<exists>f'. posix_Append f x = (OK, f') \<and> k_bytes (w_fd f') = k_bytes (w_fd f) \<and> w_buf f' = w_buf f @ x"
    by (simp add: posix_Append_def Let_def)
next
  fix f :: posix_wfile
  show "\<exists>s f' p q. posix_Flush f = (s, f') \<and> w_buf f = p @ q \<and> k_bytes (w_fd f') = k_bytes (w_fd f) @ p \<and>
      (s = OK \<longrightarrow> q = [] \<and> w_buf f' = [])"
    using FlushBuffer_writes [of f] unfolding posix_Flush_def by blast
qed

text \<open>An append of any size, large ones going past the buffer.\<close>

lemma posix_Append_writes:
  assumes "length (w_buf w) \<le> kWritableFileBufferSize" "posix_Append w data = (s, w')"
  shows "\<exists>p q. w_buf w @ data = p @ q \<and> k_bytes (w_fd w') = k_bytes (w_fd w) @ p \<and>
    (s = OK \<longrightarrow> w_buf w' = q) \<and> length (w_buf w') \<le> kWritableFileBufferSize"
proof -
  define c where "c = min (length data) (kWritableFileBufferSize - length (w_buf w))"
  let ?w1 = "w\<lparr>w_buf := w_buf w @ take c data\<rparr>"
  show ?thesis
  proof (cases "drop c data = []")
    case True
    then have "(s, w') = (OK, ?w1)" using assms(2) by (simp add: posix_Append_def Let_def flip: c_def)
    then show ?thesis using True assms(1) by (auto simp: c_def)
  next
    case False
    obtain s1 w2 p q where f: "FlushBuffer ?w1 = (s1, w2)" "w_buf w2 = []" "w_buf w @ take c data = p @ q"
      "k_bytes (w_fd w2) = k_bytes (w_fd w) @ p" "s1 = OK \<longrightarrow> q = []"
      using FlushBuffer_writes [of ?w1] by (simp del: append_assoc) metis
    have all: "w_buf w @ data = p @ q @ drop c data" using f(3) by (metis append.assoc append_take_drop_id)
    have step: "(s, w') = (if s1 \<noteq> OK then (s1, w2)
        else if length (drop c data) < kWritableFileBufferSize then (OK, w2\<lparr>w_buf := drop c data\<rparr>)
        else WriteUnbuffered w2 (drop c data))"
      using assms(2) False f(1) by (simp add: posix_Append_def Let_def flip: c_def)
    consider "s1 \<noteq> OK" | "s1 = OK" "length (drop c data) < kWritableFileBufferSize"
      | "s1 = OK" "kWritableFileBufferSize \<le> length (drop c data)" by linarith
    then show ?thesis
    proof cases
      case 1
      then show ?thesis using step f all by (intro exI [of _ p] exI [of _ "q @ drop c data"]) simp
    next
      case 2
      then show ?thesis using step f all by (intro exI [of _ p] exI [of _ "drop c data"]) simp
    next
      case 3
      obtain s3 w3 p3 q3 where u: "WriteUnbuffered w2 (drop c data) = (s3, w3)" "drop c data = p3 @ q3"
        "k_bytes (w_fd w3) = k_bytes (w_fd w2) @ p3" "s3 = OK \<longrightarrow> q3 = []" "w_buf w3 = w_buf w2"
        using WriteUnbuffered_writes by blast
      with 3 step f all show ?thesis
        by (intro exI [of _ "p @ p3"] exI [of _ q3]) simp
    qed
  qed
qed

section \<open>Properties\<close>


definition sample_kernel :: kernel_file where
  "sample_kernel = \<lparr>k_bytes = [], k_durable = [], k_writes = [Errno EINTR, Transferred 1],
     k_strerror = (\<lambda>e. [])\<rparr>"

definition sample_file :: posix_wfile where
  "sample_file = PosixWritableFile (cstr ''db/000003.log'') sample_kernel"


end
