(* ===== verification/Ldb_Log.thy ===== *)
theory Ldb_Log
  imports Ldb_Crc32c Ldb_Env_Posix
begin

unbundle bit_operations_syntax

text \<open>
  The write-ahead log: \<^verbatim>\<open>leveldb-library/db/log_format.h\<close>, \<^verbatim>\<open>log_writer.cc\<close> and
  \<^verbatim>\<open>log_reader.cc\<close>. A log is a sequence of 32 kilobyte blocks; a record is cut into fragments
  that do not cross a block, each with a checksum, a length and a type. The file operations
  are arguments of the definitions. The checksum routine is called with address 0: the
  address decides only where its strides begin, not the result (\<open>Extend_eq\<close>).
\<close>

section \<open>Format\<close>

datatype RecordType = kZeroType | kFullType | kFirstType | kMiddleType | kLastType

fun type_num :: "RecordType \<Rightarrow> nat" where
  "type_num kZeroType = 0"
| "type_num kFullType = 1"
| "type_num kFirstType = 2"
| "type_num kMiddleType = 3"
| "type_num kLastType = 4"

definition kMaxRecordType :: nat where
  "kMaxRecordType = type_num kLastType"

definition kBlockSize :: nat where
  "kBlockSize = 32768"

definition kHeaderSize :: nat where
  "kHeaderSize = 4 + 2 + 1"

section \<open>Writer\<close>

text \<open>\<^verbatim>\<open>block_offset_\<close> is an \<^verbatim>\<open>int\<close> that stays between 0 and \<^verbatim>\<open>kBlockSize\<close>.\<close>

record 'f log_writer =
  dest :: 'f
  block_offset :: nat
  type_crc :: "u32 list"

definition InitTypeCrc :: "u32 list" where
  "InitTypeCrc = map (\<lambda>i. crc_Value 0 [of_nat i]) [0..<Suc kMaxRecordType]"

definition Writer :: "'f \<Rightarrow> 'f log_writer" where
  "Writer d = \<lparr>dest = d, block_offset = 0, type_crc = InitTypeCrc\<rparr>"

definition Writer_at :: "'f \<Rightarrow> u64 \<Rightarrow> 'f log_writer" where
  "Writer_at d dest_length =
     \<lparr>dest = d, block_offset = unat (dest_length mod of_nat kBlockSize), type_crc = InitTypeCrc\<rparr>"

type_synonym 'f appender = "'f \<Rightarrow> slice \<Rightarrow> status \<times> 'f"
type_synonym 'f flusher = "'f \<Rightarrow> status \<times> 'f"

definition record_header :: "u32 list \<Rightarrow> RecordType \<Rightarrow> byte list \<Rightarrow> byte list" where
  "record_header tc t data =
     (let n = length data; crc = Mask (Extend (tc ! type_num t) 0 data)
      in EncodeFixed32 crc @ [of_nat (n mod 256), of_nat (n div 256), of_nat (type_num t)])"

definition EmitPhysicalRecord ::
  "'f appender \<Rightarrow> 'f flusher \<Rightarrow> 'f log_writer \<Rightarrow> RecordType \<Rightarrow> byte list \<Rightarrow> status \<times> 'f log_writer" where
  "EmitPhysicalRecord app flush w t data =
     (case app (dest w) (record_header (type_crc w) t data) of
        (s1, d1) \<Rightarrow>
          let (s, d) =
            (if status_ok s1 then
               (case app d1 data of
                  (s2, d2) \<Rightarrow> if status_ok s2 then flush d2 else (s2, d2))
             else (s1, d1))
          in (s, w\<lparr>dest := d, block_offset := block_offset w + (kHeaderSize + length data)\<rparr>))"

text \<open>The switch to a new block; the result of appending the trailer is not looked at.\<close>

definition switch_block :: "'f appender \<Rightarrow> 'f log_writer \<Rightarrow> 'f log_writer" where
  "switch_block app w =
     (let leftover = kBlockSize - block_offset w in
      if leftover < kHeaderSize then
        (if 0 < leftover then w\<lparr>dest := snd (app (dest w) (replicate leftover 0)), block_offset := 0\<rparr>
         else w\<lparr>block_offset := 0\<rparr>)
      else w)"

definition fragment_type :: "bool \<Rightarrow> bool \<Rightarrow> RecordType" where
  "fragment_type beginning end_of_record =
     (if beginning \<and> end_of_record then kFullType
      else if beginning then kFirstType
      else if end_of_record then kLastType
      else kMiddleType)"

definition room_in_block :: "nat \<Rightarrow> nat" where
  "room_in_block off =
     (if kBlockSize - off < kHeaderSize then kBlockSize - kHeaderSize else kBlockSize - off - kHeaderSize)"

lemma switch_block_room:
  "kBlockSize - block_offset (switch_block app w) - kHeaderSize = room_in_block (block_offset w)"
  by (auto simp: switch_block_def room_in_block_def Let_def)

lemma log_progress:
  assumes "n = min left (room_in_block off)" "n < left"
    and "kBlockSize - off' - kHeaderSize = room_in_block off"
  shows "2 * (left - n) + (if room_in_block (off' + (kHeaderSize + n)) = 0 then 1 else 0) <
    2 * left + (if room_in_block off = 0 then 1 else (0 :: nat))"
proof -
  have n: "n = room_in_block off" using assms(1,2) by simp
  show ?thesis
  proof (cases "n = 0")
    case True
    then have "kBlockSize - (off' + (kHeaderSize + n)) = 0" using assms(3) n by simp
    then have "room_in_block (off' + (kHeaderSize + n)) \<noteq> 0"
      unfolding room_in_block_def by (simp add: kBlockSize_def kHeaderSize_def)
    then show ?thesis using n True by simp
  next
    case False
    then have "2 * (left - n) + 1 < 2 * left" using assms(2) by linarith
    then show ?thesis by simp
  qed
qed

lemma Emit_block_offset:
  "block_offset (snd (EmitPhysicalRecord app flush w t data)) = block_offset w + (kHeaderSize + length data)"
  by (simp add: EmitPhysicalRecord_def Let_def split: prod.splits)

text \<open>The \<^verbatim>\<open>do \<dots> while (s.ok() && left > 0)\<close> loop; the list is what is left of the record.\<close>

function AddRecord_loop ::
  "'f appender \<Rightarrow> 'f flusher \<Rightarrow> 'f log_writer \<Rightarrow> bool \<Rightarrow> slice \<Rightarrow> status \<times> 'f log_writer" where
  "AddRecord_loop app flush w beginning data =
     (let w1 = switch_block app w;
          avail = kBlockSize - block_offset w1 - kHeaderSize;
          fragment_length = (if length data < avail then length data else avail);
          t = fragment_type beginning (length data = fragment_length);
          (s, w2) = EmitPhysicalRecord app flush w1 t (take fragment_length data);
          left_data = drop fragment_length data
      in if status_ok s \<and> left_data \<noteq> [] then AddRecord_loop app flush w2 False left_data
         else (s, w2))"
  by pat_completeness auto
termination
  apply (relation "measure (\<lambda>(app, flush, w, b, data).
    2 * length data + (if room_in_block (block_offset w) = 0 then 1 else 0))")
   apply simp
  subgoal for app flush w b data w1 avail n t p s w2 left
  proof -
    assume *: "w1 = switch_block app w" "avail = kBlockSize - block_offset w1 - kHeaderSize"
      "n = (if length data < avail then length data else avail)"
      "p = EmitPhysicalRecord app flush w1 t (take n data)" "(s, w2) = p"
      "left = drop n data" "status_ok s \<and> left \<noteq> []"
    have n: "n = min (length data) (room_in_block (block_offset w))"
      unfolding *(3) *(2) *(1) switch_block_room by (simp add: min_def)
    moreover have less: "n < length data" using * by simp
    moreover have "block_offset w2 = block_offset w1 + (kHeaderSize + n)"
      using *(4,5) less Emit_block_offset [of app flush w1 t "take n data"] by (metis length_take min.absorb4 min.commute snd_conv)
    ultimately show ?thesis
      using log_progress [of n "length data" "block_offset w" "block_offset w1"]
        switch_block_room [of app w] *(1,6) by simp
  qed
  done

declare AddRecord_loop.simps [simp del]

definition AddRecord :: "'f appender \<Rightarrow> 'f flusher \<Rightarrow> 'f log_writer \<Rightarrow> slice \<Rightarrow> status \<times> 'f log_writer" where
  "AddRecord app flush w data = AddRecord_loop app flush w True data"

section \<open>Reader\<close>

definition kEof :: u32 where
  "kEof = of_nat (kMaxRecordType + 1)"

definition kBadRecord :: u32 where
  "kBadRecord = of_nat (kMaxRecordType + 2)"

text \<open>
  The reader, with the calls to the reporter in the order they were made; there are none
  when \<^verbatim>\<open>reporter_\<close> is null.
\<close>

record 'f log_reader =
  rd_file :: 'f
  rd_reporter :: bool
  checksum :: bool
  buffer :: "byte list"
  eof :: bool
  last_record_offset :: u64
  end_of_buffer_offset :: u64
  initial_offset :: u64
  resyncing :: bool
  reports :: "(u64 \<times> status) list"

definition Reader :: "'f \<Rightarrow> bool \<Rightarrow> bool \<Rightarrow> u64 \<Rightarrow> 'f log_reader" where
  "Reader f reporter check initial =
     \<lparr>rd_file = f, rd_reporter = reporter, checksum = check, buffer = [], eof = False,
      last_record_offset = 0, end_of_buffer_offset = 0, initial_offset = initial,
      resyncing = (0 < initial), reports = []\<rparr>"

type_synonym 'f freader = "'f \<Rightarrow> nat \<Rightarrow> status \<times> slice \<times> 'f"
type_synonym 'f fskipper = "'f \<Rightarrow> u64 \<Rightarrow> status \<times> 'f"

definition ReportDrop :: "u64 \<Rightarrow> status \<Rightarrow> 'f log_reader \<Rightarrow> 'f log_reader" where
  "ReportDrop bytes reason r =
     (if rd_reporter r \<and>
         initial_offset r \<le> end_of_buffer_offset r - of_nat (length (buffer r)) - bytes
      then r\<lparr>reports := reports r @ [(bytes, reason)]\<rparr> else r)"

definition ReportCorruption :: "u64 \<Rightarrow> byte list \<Rightarrow> 'f log_reader \<Rightarrow> 'f log_reader" where
  "ReportCorruption bytes reason r = ReportDrop bytes (Corruption reason []) r"

definition SkipToInitialBlock :: "'f fskipper \<Rightarrow> 'f log_reader \<Rightarrow> bool \<times> 'f log_reader" where
  "SkipToInitialBlock skip r =
     (let offset_in_block = initial_offset r mod of_nat kBlockSize;
          start0 = initial_offset r - offset_in_block;
          block_start_location =
            (if of_nat (kBlockSize - 6) < offset_in_block then start0 + of_nat kBlockSize else start0);
          r1 = r\<lparr>end_of_buffer_offset := block_start_location\<rparr>
      in if 0 < block_start_location then
           (case skip (rd_file r1) block_start_location of
              (s, f) \<Rightarrow>
                let r2 = r1\<lparr>rd_file := f\<rparr> in
                if \<not> status_ok s then (False, ReportDrop block_start_location s r2) else (True, r2))
         else (True, r1))"

text \<open>
  The part of \<^verbatim>\<open>ReadPhysicalRecord\<close> after the header is in the buffer. The argument
  \<open>fragment\<close> is the caller's slice, which some branches leave alone.
\<close>

definition parse_record :: "slice \<Rightarrow> 'f log_reader \<Rightarrow> u32 \<times> slice \<times> 'f log_reader" where
  "parse_record fragment r =
     (let header = buffer r;
          a = ucast (header ! 4) :: u32;
          b = ucast (header ! 5) :: u32;
          type = scast (header ! 6) :: u32;
          len = a OR push_bit 8 b
      in
      if length header < kHeaderSize + unat len then
        (let r1 = r\<lparr>buffer := []\<rparr> in
         if \<not> eof r then
           (kBadRecord, fragment, ReportCorruption (of_nat (length header)) (cstr ''bad record length'') r1)
         else (kEof, fragment, r1))
      else if type = of_nat (type_num kZeroType) \<and> len = 0 then (kBadRecord, fragment, r\<lparr>buffer := []\<rparr>)
      else if checksum r \<and>
              crc_Value 0 (take (1 + unat len) (drop 6 header)) \<noteq> Unmask (DecodeFixed32 header) then
        (kBadRecord, fragment,
         ReportCorruption (of_nat (length header)) (cstr ''checksum mismatch'') (r\<lparr>buffer := []\<rparr>))
      else
        let r1 = r\<lparr>buffer := drop (kHeaderSize + unat len) header\<rparr> in
        if end_of_buffer_offset r1 - of_nat (length (buffer r1)) - of_nat kHeaderSize - ucast len
             < initial_offset r1
        then (kBadRecord, [], r1)
        else (type, take (unat len) (drop kHeaderSize header), r1))"

function ReadPhysicalRecord :: "'f freader \<Rightarrow> slice \<Rightarrow> 'f log_reader \<Rightarrow> u32 \<times> slice \<times> 'f log_reader" where
  "ReadPhysicalRecord rd fragment r =
     (if length (buffer r) < kHeaderSize then
        if \<not> eof r then
          (case rd (rd_file r) kBlockSize of
             (s, data, f) \<Rightarrow>
               let r1 = r\<lparr>rd_file := f, buffer := data,
                          end_of_buffer_offset := end_of_buffer_offset r + of_nat (length data)\<rparr>
               in
               if \<not> status_ok s then
                 (kEof, fragment, (ReportDrop (of_nat kBlockSize) s (r1\<lparr>buffer := []\<rparr>))\<lparr>eof := True\<rparr>)
               else if length data < kBlockSize then ReadPhysicalRecord rd fragment (r1\<lparr>eof := True\<rparr>)
               else ReadPhysicalRecord rd fragment r1)
        else (kEof, fragment, r\<lparr>buffer := []\<rparr>)
      else parse_record fragment r)"
  by pat_completeness auto
termination
  by (relation "measure (\<lambda>(rd, fr, r). if length (buffer r) < kHeaderSize \<and> \<not> eof r then 1 else 0)")
    (auto simp: kBlockSize_def kHeaderSize_def)

declare ReadPhysicalRecord.simps [simp del]

text \<open>\<^verbatim>\<open>"unknown record type %u"\<close>\<close>

function decimal :: "nat \<Rightarrow> byte list" where
  "decimal n = (if n < 10 then [of_nat (48 + n)] else decimal (n div 10) @ [of_nat (48 + n mod 10)])"
  by pat_completeness auto
termination
  by (relation "measure id") auto

declare decimal.simps [simp del]

text \<open>
  One round of the \<^verbatim>\<open>while (true)\<close> loop of \<^verbatim>\<open>ReadRecord\<close>: it returns, with the record if
  there is one, or goes on with new values of the local variables: the fragment, whether a fragmented
  record is being read, the offset where that started, and the scratch space.
\<close>

datatype 'f read_step =
    Returned "slice option" "'f log_reader"
  | Again slice bool u64 "byte list" "'f log_reader"

definition handle_record ::
  "u32 \<Rightarrow> slice \<Rightarrow> bool \<Rightarrow> u64 \<Rightarrow> byte list \<Rightarrow> 'f log_reader \<Rightarrow> 'f read_step" where
  "handle_record record_type fragment in_fragmented_record prospective scratch r =
     (let physical = end_of_buffer_offset r - of_nat (length (buffer r)) - of_nat kHeaderSize -
            of_nat (length fragment);
          unfinished = (\<lambda>msg r. if in_fragmented_record \<and> scratch \<noteq> []
             then ReportCorruption (of_nat (length scratch)) (cstr msg) r else r);
          stray = (\<lambda>msg. Again fragment in_fragmented_record prospective scratch
             (ReportCorruption (of_nat (length fragment)) (cstr msg) r))
      in
      if record_type = of_nat (type_num kFullType) then
        Returned (Some fragment)
          ((unfinished ''partial record without end(1)'' r)\<lparr>last_record_offset := physical\<rparr>)
      else if record_type = of_nat (type_num kFirstType) then
        Again fragment True physical fragment (unfinished ''partial record without end(2)'' r)
      else if record_type = of_nat (type_num kMiddleType) then
        (if \<not> in_fragmented_record then stray ''missing start of fragmented record(1)''
         else Again fragment in_fragmented_record prospective (scratch @ fragment) r)
      else if record_type = of_nat (type_num kLastType) then
        (if \<not> in_fragmented_record then stray ''missing start of fragmented record(2)''
         else Returned (Some (scratch @ fragment)) (r\<lparr>last_record_offset := prospective\<rparr>))
      else if record_type = kEof then Returned None r
      else if record_type = kBadRecord then
        (if in_fragmented_record then
           Again fragment False prospective []
             (ReportCorruption (of_nat (length scratch)) (cstr ''error in middle of record'') r)
         else Again fragment in_fragmented_record prospective scratch r)
      else
        Again fragment False prospective []
          (ReportCorruption
             (of_nat (length fragment + (if in_fragmented_record then length scratch else 0)))
             (cstr ''unknown record type '' @ decimal (unat record_type)) r))"

definition ReadRecord_step ::
  "'f freader \<Rightarrow> slice \<Rightarrow> bool \<Rightarrow> u64 \<Rightarrow> byte list \<Rightarrow> 'f log_reader \<Rightarrow> 'f read_step" where
  "ReadRecord_step rd fragment in_fragmented_record prospective scratch r =
     (case ReadPhysicalRecord rd fragment r of
        (record_type, fragment, r) \<Rightarrow>
          if resyncing r \<and> record_type = of_nat (type_num kMiddleType) then
            Again fragment in_fragmented_record prospective scratch r
          else if resyncing r \<and> record_type = of_nat (type_num kLastType) then
            Again fragment in_fragmented_record prospective scratch (r\<lparr>resyncing := False\<rparr>)
          else handle_record record_type fragment in_fragmented_record prospective scratch
                 (r\<lparr>resyncing := False\<rparr>))"

text \<open>The loop, which need not end on a file without an end.\<close>

partial_function (option) ReadRecord_loop ::
  "'f freader \<Rightarrow> slice \<Rightarrow> bool \<Rightarrow> u64 \<Rightarrow> byte list \<Rightarrow> 'f log_reader \<Rightarrow>
   (slice option \<times> 'f log_reader) option" where
  "ReadRecord_loop rd fragment in_fragmented_record prospective scratch r =
     (case ReadRecord_step rd fragment in_fragmented_record prospective scratch r of
        Returned rec r1 \<Rightarrow> Some (rec, r1)
      | Again fragment1 in_fragmented_record1 prospective1 scratch1 r1 \<Rightarrow>
          ReadRecord_loop rd fragment1 in_fragmented_record1 prospective1 scratch1 r1)"

definition ReadRecord ::
  "'f freader \<Rightarrow> 'f fskipper \<Rightarrow> 'f log_reader \<Rightarrow> (slice option \<times> 'f log_reader) option" where
  "ReadRecord rd skip r =
     (let (ok, r1) = (if last_record_offset r < initial_offset r then SkipToInitialBlock skip r else (True, r))
      in if \<not> ok then Some (None, r1) else ReadRecord_loop rd [] False 0 [] r1)"

definition LastRecordOffset :: "'f log_reader \<Rightarrow> u64" where
  "LastRecordOffset r = last_record_offset r"

end
