(* ===== verification/Ldb_Log_Props.thy ===== *)
theory Ldb_Log_Props
  imports Ldb_Log
begin

unbundle bit_operations_syntax

text \<open>
  Recovery from the write-ahead log. The bytes of a record are described once
  (\<open>log_bytes\<close>); the writer produces them through any buffered file, and the reader, on any
  file that holds a prefix of a log, returns the records that are complete in it and
  reports nothing. The two meet in the theorem on the writer over \<^verbatim>\<open>PosixWritableFile\<close> and
  the reader over \<^verbatim>\<open>PosixSequentialFile\<close>.
\<close>

section \<open>The bytes of a record\<close>

definition chunk :: "RecordType \<Rightarrow> byte list \<Rightarrow> byte list" where
  "chunk t data = record_header InitTypeCrc t data @ data"

definition padding :: "nat \<Rightarrow> byte list" where
  "padding off = (if kBlockSize - off < kHeaderSize then replicate (kBlockSize - off) 0 else [])"

definition chunk_start :: "nat \<Rightarrow> nat" where
  "chunk_start off = (if kBlockSize - off < kHeaderSize then 0 else off)"

lemma room_chunk_start: "kBlockSize - chunk_start off - kHeaderSize = room_in_block off"
  by (simp add: chunk_start_def room_in_block_def)

lemma chunk_start_fits: "chunk_start off + kHeaderSize + room_in_block off = kBlockSize" if "off \<le> kBlockSize"
  using that by (auto simp: chunk_start_def room_in_block_def kBlockSize_def kHeaderSize_def)

function log_bytes :: "nat \<Rightarrow> bool \<Rightarrow> byte list \<Rightarrow> byte list \<times> nat" where
  "log_bytes off beginning data =
     (let n = min (length data) (room_in_block off);
          c = padding off @ chunk (fragment_type beginning (length data = n)) (take n data);
          off1 = chunk_start off + (kHeaderSize + n)
      in if n < length data
         then (let (bs, o1) = log_bytes off1 False (drop n data) in (c @ bs, o1))
         else (c, off1))"
  by pat_completeness auto
termination
proof (relation "measure (\<lambda>(off, b, data). 2 * length data + (if room_in_block off = 0 then 1 else 0))", goal_cases)
  case (2 off b data n c off1)
  then have "2 * (length data - n) + (if room_in_block off1 = 0 then 1 else 0) <
      2 * length data + (if room_in_block off = 0 then 1 else 0)"
    using log_progress [OF 2(1) _ room_chunk_start [of off]] by simp
  then show ?case by simp
qed simp

declare log_bytes.simps [simp del]

lemma log_bytes_unfold:
  assumes "n = min (length data) (room_in_block off)" "t = fragment_type b (length data = n)"
  shows "log_bytes off b data =
    (if n < length data then
       ((padding off @ chunk t (take n data)) @ fst (log_bytes (chunk_start off + (kHeaderSize + n)) False (drop n data)),
        snd (log_bytes (chunk_start off + (kHeaderSize + n)) False (drop n data)))
     else (padding off @ chunk t (take n data), chunk_start off + (kHeaderSize + n)))"
  by (subst log_bytes.simps) (simp only: Let_def assms(1) [symmetric] assms(2) [symmetric] case_prod_beta)

fun log_content :: "nat \<Rightarrow> slice list \<Rightarrow> byte list" where
  "log_content off [] = []"
| "log_content off (x # xs) = (case log_bytes off True x of (bs, o1) \<Rightarrow> bs @ log_content o1 xs)"

lemma log_content_take_mono:
  "m \<le> n \<Longrightarrow> length (log_content off (take m rs)) \<le> length (log_content off (take n rs))"
proof (induction rs arbitrary: off m n)
  case (Cons x rs)
  then show ?case by (cases m; cases n) (auto split: prod.splits)
qed simp

lemma log_bytes_offset: "off \<le> kBlockSize \<Longrightarrow> snd (log_bytes off b data) \<le> kBlockSize"
proof (induction off b data rule: log_bytes.induct)
  case (1 off b data)
  let ?n = "min (length data) (room_in_block off)"
  have "chunk_start off + (kHeaderSize + ?n) \<le> kBlockSize"
    using chunk_start_fits [OF 1(2)] by simp
  with 1(1) show ?case
    by (subst log_bytes.simps) (auto simp: Let_def split: prod.splits)
qed

section \<open>The writer\<close>

definition fresh :: "'f log_writer \<Rightarrow> bool" where
  "fresh w \<longleftrightarrow> type_crc w = InitTypeCrc \<and> block_offset w \<le> kBlockSize"

fun add_records ::
  "'f appender \<Rightarrow> 'f flusher \<Rightarrow> 'f log_writer \<Rightarrow> slice list \<Rightarrow> nat \<times> 'f log_writer" where
  "add_records app flush w [] = (0, w)"
| "add_records app flush w (x # xs) =
     (case AddRecord app flush w x of
        (s, w1) \<Rightarrow>
          if status_ok s then (case add_records app flush w1 xs of (n, w2) \<Rightarrow> (Suc n, w2)) else (0, w1))"

lemma length_header [simp]: "length (record_header tc t data) = kHeaderSize"
  by (simp add: record_header_def Let_def kHeaderSize_def)

locale log_file = buffered_file app flush written pending capacity
  for app :: "'f \<Rightarrow> slice \<Rightarrow> status \<times> 'f" and flush written pending capacity +
  assumes block_fits: "kBlockSize + kHeaderSize \<le> capacity"
begin

lemma switch_block_pends:
  assumes "pending (dest w) = []" "block_offset w \<le> kBlockSize"
  shows "written (dest (switch_block app w)) = written (dest w)"
    and "pending (dest (switch_block app w)) = padding (block_offset w)"
    and "block_offset (switch_block app w) = chunk_start (block_offset w)"
    and "type_crc (switch_block app w) = type_crc w"
proof -
  let ?pad = "replicate (kBlockSize - block_offset w) (0 :: byte)"
  have "length (pending (dest w)) + length ?pad \<le> capacity" using assms(1) block_fits by simp
  from app_fits [OF this] assms(1) obtain f where
    "app (dest w) ?pad = (OK, f)" "written f = written (dest w)" "pending f = ?pad" by auto
  then show "written (dest (switch_block app w)) = written (dest w)"
    and "pending (dest (switch_block app w)) = padding (block_offset w)"
    and "block_offset (switch_block app w) = chunk_start (block_offset w)"
    and "type_crc (switch_block app w) = type_crc w"
    using assms by (auto simp: switch_block_def padding_def chunk_start_def Let_def)
qed

lemma emit_writes:
  assumes "length (pending (dest w)) \<le> kHeaderSize" "kHeaderSize + length data \<le> kBlockSize"
  shows "\<exists>s w' p q. EmitPhysicalRecord app flush w t data = (s, w') \<and>
    pending (dest w) @ record_header (type_crc w) t data @ data = p @ q \<and>
    written (dest w') = written (dest w) @ p \<and> (s = OK \<longrightarrow> q = [] \<and> pending (dest w') = []) \<and>
    block_offset w' = block_offset w + (kHeaderSize + length data) \<and> type_crc w' = type_crc w"
proof -
  have "length (pending (dest w)) + length (record_header (type_crc w) t data) + length data \<le> capacity"
    using assms block_fits by simp
  from app_two [OF this] obtain f1 f2 where
    f: "app (dest w) (record_header (type_crc w) t data) = (OK, f1)" "app f1 data = (OK, f2)"
    "written f2 = written (dest w)" "pending f2 = pending (dest w) @ record_header (type_crc w) t data @ data"
    by blast
  obtain s f3 p q where fl: "flush f2 = (s, f3)" "pending f2 = p @ q" "written f3 = written f2 @ p"
    "s = OK \<longrightarrow> q = [] \<and> pending f3 = []"
    using flush_writes by blast
  let ?w = "w\<lparr>dest := f3, block_offset := block_offset w + (kHeaderSize + length data)\<rparr>"
  have "EmitPhysicalRecord app flush w t data = (s, ?w)"
    using f fl by (simp add: EmitPhysicalRecord_def)
  then show ?thesis using f fl by (intro exI [of _ s] exI [of _ ?w] exI [of _ p] exI [of _ q]) simp
qed

lemma AddRecord_loop_step:
  assumes "pending (dest w) = []" "fresh w" "n = min (length data) (room_in_block (block_offset w))"
  shows "AddRecord_loop app flush w b data =
    (let t = fragment_type b (length data = n);
         (s, w2) = EmitPhysicalRecord app flush (switch_block app w) t (take n data)
     in if s = OK \<and> n < length data then AddRecord_loop app flush w2 False (drop n data) else (s, w2))"
proof -
  have "(if length data < kBlockSize - block_offset (switch_block app w) - kHeaderSize then length data
      else kBlockSize - block_offset (switch_block app w) - kHeaderSize) = n"
    unfolding switch_block_room assms(3) by (simp add: min_def)
  then show ?thesis
    by (subst AddRecord_loop.simps) (simp only: Let_def ok_OK drop_eq_Nil not_le)
qed

lemma add_loop_writes:
  assumes "pending (dest w) = []" "fresh w" "block_offset w = off"
  shows "\<exists>s w' p q. AddRecord_loop app flush w b data = (s, w') \<and>
    fst (log_bytes off b data) = p @ q \<and> written (dest w') = written (dest w) @ p \<and>
    (s = OK \<longrightarrow> q = [] \<and> pending (dest w') = [] \<and> fresh w' \<and>
      block_offset w' = snd (log_bytes off b data))"
  using assms
proof (induction off b data arbitrary: w rule: log_bytes.induct)
  case (1 off b data)
  define n where "n = min (length data) (room_in_block off)"
  define t where "t = fragment_type b (length data = n)"
  let ?w1 = "switch_block app w" and ?off1 = "chunk_start off + (kHeaderSize + n)"
  have off: "off \<le> kBlockSize" using 1(3,4) by (simp add: fresh_def)
  note sw = switch_block_pends [of w, unfolded 1(4), OF 1(2) off]
  have fits: "kHeaderSize + length (take n data) \<le> kBlockSize" "?off1 \<le> kBlockSize" "length (take n data) = n"
    using chunk_start_fits [OF off] by (auto simp: n_def)
  have "length (pending (dest ?w1)) \<le> kHeaderSize" by (simp add: sw padding_def)
  from emit_writes [OF this fits(1), of t] obtain s w2 p q where
    e: "EmitPhysicalRecord app flush ?w1 t (take n data) = (s, w2)"
    "padding off @ chunk t (take n data) = p @ q" "written (dest w2) = written (dest w) @ p"
    "s = OK \<longrightarrow> q = [] \<and> pending (dest w2) = []" "block_offset w2 = ?off1" "type_crc w2 = InitTypeCrc"
    using 1(3) fits by (auto simp: sw fresh_def chunk_def)
  have fr: "fresh w2" using e fits by (simp add: fresh_def)
  have step: "AddRecord_loop app flush w b data =
      (if s = OK \<and> n < length data then AddRecord_loop app flush w2 False (drop n data) else (s, w2))"
    using AddRecord_loop_step [OF 1(2,3), of n data b] e(1) by (simp add: n_def 1(4) t_def Let_def)
  note bytes = log_bytes_unfold [OF n_def t_def, unfolded e(2)]
  show ?case
  proof (cases "s = OK \<and> n < length data")
    case True
    then have "pending (dest w2) = []" using e(4) by simp
    from 1(1) [OF n_def refl refl _ this fr e(5)] True obtain s' w' p' q' where
      r: "AddRecord_loop app flush w2 False (drop n data) = (s', w')"
      "fst (log_bytes ?off1 False (drop n data)) = p' @ q'" "written (dest w') = written (dest w2) @ p'"
      "s' = OK \<longrightarrow> q' = [] \<and> pending (dest w') = [] \<and> fresh w' \<and>
        block_offset w' = snd (log_bytes ?off1 False (drop n data))" by blast
    with True e bytes step show ?thesis
      by (intro exI [of _ s'] exI [of _ w'] exI [of _ "p @ p'"] exI [of _ q']) (simp split: prod.splits)
  next
    case False
    show ?thesis
    proof (cases "n < length data")
      case True
      with False have "s \<noteq> OK" by simp
      with True e(3) bytes step show ?thesis
        by (intro exI [of _ s] exI [of _ w2] exI [of _ p]
            exI [of _ "q @ fst (log_bytes ?off1 False (drop n data))"]) (simp split: prod.splits)
    next
      case False
      with e bytes step fr show ?thesis
        by (intro exI [of _ s] exI [of _ w2] exI [of _ p] exI [of _ q]) simp
    qed
  qed
qed

lemma add_records_write:
  assumes "pending (dest w) = []" "fresh w" "block_offset w = off"
  shows "\<exists>n w' p q. add_records app flush w rs = (n, w') \<and> n \<le> length rs \<and> log_content off rs = p @ q \<and>
    written (dest w') = written (dest w) @ p \<and> length (log_content off (take n rs)) \<le> length p"
  using assms
proof (induction rs arbitrary: w off)
  case (Cons x rs)
  obtain s w1 p q where a: "AddRecord app flush w x = (s, w1)" "fst (log_bytes off True x) = p @ q"
    "written (dest w1) = written (dest w) @ p"
    "s = OK \<longrightarrow> q = [] \<and> pending (dest w1) = [] \<and> fresh w1 \<and> block_offset w1 = snd (log_bytes off True x)"
    using add_loop_writes [OF Cons.prems, of True x] unfolding AddRecord_def by blast
  obtain bs o1 where b: "log_bytes off True x = (bs, o1)" by fastforce
  show ?case
  proof (cases "s = OK")
    case True
    with a b have "pending (dest w1) = []" "fresh w1" "block_offset w1 = o1" by auto
    from Cons.IH [OF this] obtain n w' p' q' where
      "add_records app flush w1 rs = (n, w')" "n \<le> length rs" "log_content o1 rs = p' @ q'"
      "written (dest w') = written (dest w1) @ p'" "length (log_content o1 (take n rs)) \<le> length p'" by blast
    with True a b show ?thesis
      by (intro exI [of _ "Suc n"] exI [of _ w'] exI [of _ "p @ p'"] exI [of _ q']) simp
  next
    case False
    with a b show ?thesis
      by (intro exI [of _ 0] exI [of _ w1] exI [of _ p] exI [of _ "q @ log_content o1 rs"]) simp
  qed
qed simp

end

interpretation posix_log: log_file posix_Append posix_Flush "\<lambda>w. k_bytes (w_fd w)" w_buf kWritableFileBufferSize
  by unfold_locales (simp add: kBlockSize_def kHeaderSize_def kWritableFileBufferSize_def)

section \<open>The reader\<close>

text \<open>
  What the reader relies on: a read returns as much as was asked for, or all there is
  left. A regular file does so, even when the call is interrupted.
\<close>

locale sequential_file =
  fixes rd :: "'f \<Rightarrow> nat \<Rightarrow> status \<times> slice \<times> 'f" and rest :: "'f \<Rightarrow> byte list" and good :: "'f \<Rightarrow> bool"
  assumes read_full: "good f \<Longrightarrow> \<exists>f'. rd f n = (OK, take n (rest f), f') \<and> rest f' = drop n (rest f) \<and> good f'"

interpretation posix_seq: sequential_file posix_Read s_bytes "\<lambda>f. list_all (\<lambda>a. a = Errno EINTR) (s_reads f)"
proof
  fix f :: posix_sfile and n
  show "list_all (\<lambda>a. a = Errno EINTR) (s_reads f) \<Longrightarrow>
    \<exists>f'. posix_Read f n = (OK, take n (s_bytes f), f') \<and> s_bytes f' = drop n (s_bytes f) \<and>
      list_all (\<lambda>a. a = Errno EINTR) (s_reads f')"
  proof (induction "s_reads f" arbitrary: f)
    case Nil
    then show ?case by (simp add: posix_Read.simps [of f] sys_read_def Nil.hyps [symmetric])
  next
    case (Cons a rs)
    then have "list_all (\<lambda>a. a = Errno EINTR) (a # rs)" by simp
    then have a: "a = Errno EINTR" "list_all (\<lambda>a. a = Errno EINTR) rs" by simp_all
    have "posix_Read f n = posix_Read (f\<lparr>s_reads := rs\<rparr>) n"
      by (simp add: posix_Read.simps [of f] sys_read_def a Cons.hyps(2) [symmetric])
    then show ?case using Cons.hyps(1) [of "f\<lparr>s_reads := rs\<rparr>"] a by simp
  qed
qed

lemma len_bytes:
  assumes "n < 65536"
  shows "unat (ucast (of_nat (n mod 256) :: byte) OR push_bit 8 (ucast (of_nat (n div 256) :: byte)) :: u32) = n"
proof -
  have "ucast (of_nat (n mod 256) :: byte) OR push_bit 8 (ucast (of_nat (n div 256) :: byte)) =
      (of_nat (n mod 256) + 256 * of_nat (n div 256) :: u32)"
  proof -
    have "of_nat (unat (of_nat (n mod 256) :: byte)) = (of_nat (n mod 256) :: u32)"
      "of_nat (unat (of_nat (n div 256) :: byte)) = (of_nat (n div 256) :: u32)"
      using assms unat_of_nat_byte [of n] unat_of_nat_byte [of "n div 256"] by simp_all
    then show ?thesis unfolding byte_or_high by simp
  qed
  also have "\<dots> = of_nat (n mod 256 + 256 * (n div 256))"
    by (simp only: of_nat_add of_nat_mult of_nat_numeral)
  also have "\<dots> = of_nat n" by simp
  finally show ?thesis using assms by (simp add: unat_of_nat take_bit_nat_eq_self)
qed

lemma type_nums:
  "scast (of_nat (type_num t) :: byte) = (of_nat (type_num t) :: u32)"
  "(of_nat (type_num t) :: u32) = of_nat (type_num t') \<longleftrightarrow> t = t'"
  "(of_nat (type_num t) :: u32) \<noteq> kEof" "(of_nat (type_num t) :: u32) \<noteq> kBadRecord" "kEof \<noteq> kBadRecord"
  "kEof \<noteq> of_nat (type_num t)" "kBadRecord \<noteq> of_nat (type_num t)"
  by (cases t; (cases t')?; simp add: kEof_def kBadRecord_def kMaxRecordType_def)+

lemma header_parts:
  "record_header tc t d @ x = EncodeFixed32 (Mask (Extend (tc ! type_num t) 0 d)) @
     of_nat (length d mod 256) # of_nat (length d div 256) # of_nat (type_num t) # x"
  by (simp add: record_header_def Let_def)

lemma nth_after_fixed32: "(EncodeFixed32 v @ xs) ! (4 + i) = xs ! i"
  by (simp add: nth_append)

lemma header_fields:
  assumes "length d < 65536"
  shows "unat (ucast ((record_header tc t d @ x) ! 4) OR push_bit 8 (ucast ((record_header tc t d @ x) ! 5)) :: u32) = length d"
    and "scast ((record_header tc t d @ x) ! 6) = (of_nat (type_num t) :: u32)"
    and "DecodeFixed32 (record_header tc t d @ x) = Mask (Extend (tc ! type_num t) 0 d)"
    and "drop 6 (record_header tc t d @ x) = of_nat (type_num t) # x"
  using len_bytes [OF assms] nth_after_fixed32 [where i = 0] nth_after_fixed32 [where i = 1]
    nth_after_fixed32 [where i = 2]
  by (simp_all add: header_parts type_nums)

lemma stored_crc:
  "Extend (InitTypeCrc ! type_num t) 0 d = crc_Value 0 (of_nat (type_num t) # d)"
proof -
  have "InitTypeCrc ! type_num t = crc32c 0 [of_nat (type_num t)]"
    by (cases t) (simp_all add: InitTypeCrc_def kMaxRecordType_def crc_Value_def Extend_eq nth_append)
  then show ?thesis
    using crc32c_append [of 0 "[of_nat (type_num t)]" d] by (simp add: crc_Value_def Extend_eq)
qed

lemma parse_chunk:
  assumes "buffer r = chunk t d @ more_bytes" "length d < 65536" "initial_offset r = 0" "t \<noteq> kZeroType"
  shows "parse_record fr r = (of_nat (type_num t), d, r\<lparr>buffer := more_bytes\<rparr>)"
proof -
  have b: "buffer r = record_header InitTypeCrc t d @ d @ more_bytes" using assms(1) by (simp add: chunk_def)
  note h = header_fields [OF assms(2), of InitTypeCrc t "d @ more_bytes", folded b]
  have "(of_nat (type_num t) :: u32) \<noteq> 0" using assms(4) by (cases t) auto
  moreover have "take (1 + length d) (drop 6 (buffer r)) = of_nat (type_num t) # d" by (simp add: h)
  moreover have "take (length d) (drop kHeaderSize (buffer r)) = d"
    "drop (kHeaderSize + length d) (buffer r) = more_bytes" "\<not> length (buffer r) < kHeaderSize + length d"
    by (simp_all add: b)
  ultimately show ?thesis
    using assms(3) by (simp add: parse_record_def Let_def h stored_crc)
qed

lemma parse_cut:
  assumes "buffer r @ z = chunk t d" "z \<noteq> []" "length d < 65536" "kHeaderSize \<le> length (buffer r)" "eof r"
  shows "parse_record fr r = (kEof, fr, r\<lparr>buffer := []\<rparr>)"
proof -
  obtain y where b: "buffer r = record_header InitTypeCrc t d @ y" "y @ z = d"
  proof
    have eq: "buffer r @ z = record_header InitTypeCrc t d @ d" using assms(1) by (simp add: chunk_def)
    have "take kHeaderSize (buffer r @ z) = take kHeaderSize (record_header InitTypeCrc t d @ d)"
      "drop kHeaderSize (buffer r @ z) = drop kHeaderSize (record_header InitTypeCrc t d @ d)"
      unfolding eq by simp_all
    then have "take kHeaderSize (buffer r) = record_header InitTypeCrc t d" and d: "drop kHeaderSize (buffer r) @ z = d"
      using assms(4) by simp_all
    then show "buffer r = record_header InitTypeCrc t d @ drop kHeaderSize (buffer r)"
      by (metis append_take_drop_id)
    show "drop kHeaderSize (buffer r) @ z = d" by (rule d)
  qed
  then have "length (buffer r) < kHeaderSize + length d" using assms(2) by auto
  then show ?thesis
    using assms(5) header_fields(1) [OF assms(3), of InitTypeCrc t y, folded b(1)]
    by (simp add: parse_record_def Let_def)
qed

section \<open>Physical records\<close>

text \<open>The part of the reader's state that reading an intact log does not touch.\<close>

definition same_setup :: "'f log_reader \<Rightarrow> 'f log_reader \<Rightarrow> bool" where
  "same_setup r r' \<longleftrightarrow> reports r' = reports r \<and> initial_offset r' = initial_offset r \<and>
     resyncing r' = resyncing r"

lemma same_setup_refl [simp]: "same_setup r r"
  by (simp add: same_setup_def)

lemma same_setup_trans: "same_setup r r' \<Longrightarrow> same_setup r' r'' \<Longrightarrow> same_setup r r''"
  by (simp add: same_setup_def)

context sequential_file
begin

definition unread :: "'f log_reader \<Rightarrow> byte list" where
  "unread r = buffer r @ rest (rd_file r)"

text \<open>
  A reader at offset \<open>off\<close> of a block: its buffer ends with the block, or with the
  file.
\<close>

definition at_offset :: "nat \<Rightarrow> 'f log_reader \<Rightarrow> bool" where
  "at_offset off r \<longleftrightarrow> good (rd_file r) \<and>
     (if eof r then rest (rd_file r) = [] \<and> off + length (buffer r) \<le> kBlockSize
      else off + length (buffer r) = kBlockSize \<or> off = 0 \<and> buffer r = [])"

text \<open>Filling an exhausted buffer with the next block.\<close>

lemma refill:
  assumes "length (buffer r) < kHeaderSize" "\<not> eof r" "good (rd_file r)"
  shows "\<exists>r1. ReadPhysicalRecord rd fr r = ReadPhysicalRecord rd fr r1 \<and> same_setup r r1 \<and>
    at_offset 0 r1 \<and> buffer r1 = take kBlockSize (rest (rd_file r)) \<and>
    unread r1 = rest (rd_file r) \<and> (eof r1 \<longleftrightarrow> length (rest (rd_file r)) < kBlockSize)"
proof -
  obtain f where f: "rd (rd_file r) kBlockSize = (OK, take kBlockSize (rest (rd_file r)), f)"
    "rest f = drop kBlockSize (rest (rd_file r))" "good f"
    using read_full [OF assms(3)] by blast
  let ?d = "take kBlockSize (rest (rd_file r))"
  let ?r0 = "r\<lparr>rd_file := f, buffer := ?d, end_of_buffer_offset := end_of_buffer_offset r + of_nat (length ?d)\<rparr>"
  let ?r1 = "if length (rest (rd_file r)) < kBlockSize then ?r0\<lparr>eof := True\<rparr> else ?r0"
  have "ReadPhysicalRecord rd fr r = ReadPhysicalRecord rd fr ?r1"
    using assms(1,2) f(1) by (subst ReadPhysicalRecord.simps) (simp add: Let_def)
  moreover have "same_setup r ?r1" "buffer ?r1 = ?d" "unread ?r1 = rest (rd_file r)" "at_offset 0 ?r1"
    using f assms(2) by (auto simp: same_setup_def unread_def at_offset_def)
  moreover have "eof ?r1 \<longleftrightarrow> length (rest (rd_file r)) < kBlockSize" using assms(2) by simp
  ultimately show ?thesis by blast
qed

text \<open>
  Skipping the trailer: the reader stands where the next fragment starts, with the rest of
  its block in the buffer, or it has nothing left but a part of the trailer.
\<close>

lemma reach_chunk:
  assumes "at_offset off r" "unread r = padding off @ us"
  shows "\<exists>r1. ReadPhysicalRecord rd fr r = ReadPhysicalRecord rd fr r1 \<and> same_setup r r1 \<and>
    at_offset (chunk_start off) r1 \<and> unread r1 = us \<and>
    (eof r1 \<or> length (buffer r1) = kBlockSize - chunk_start off)"
proof -
  have load: "?thesis" if "length (buffer r) < kHeaderSize" "\<not> eof r" "rest (rd_file r) = us" "chunk_start off = 0"
  proof -
    have "good (rd_file r)" using assms(1) by (simp add: at_offset_def)
    from refill [OF that(1,2) this, of fr] obtain r1 where
      "ReadPhysicalRecord rd fr r = ReadPhysicalRecord rd fr r1" "same_setup r r1" "at_offset 0 r1"
      "buffer r1 = take kBlockSize (rest (rd_file r))" "unread r1 = rest (rd_file r)"
      "eof r1 \<longleftrightarrow> length (rest (rd_file r)) < kBlockSize" by blast
    then show ?thesis using that(3,4) by (intro exI [of _ r1]) (auto simp: min_def)
  qed
  show ?thesis
  proof (cases "kBlockSize - off < kHeaderSize")
    case True
    then have off: "off \<noteq> 0" "chunk_start off = 0" "length (padding off) = kBlockSize - off"
      by (auto simp: kBlockSize_def kHeaderSize_def chunk_start_def padding_def)
    show ?thesis
    proof (cases "eof r")
      case True
      then have "length (padding off @ us) \<le> kBlockSize - off"
        using assms unfolding at_offset_def unread_def by auto
      then have "us = []" "length (buffer r) < kHeaderSize"
        using off assms \<open>kBlockSize - off < kHeaderSize\<close> True by (auto simp: at_offset_def unread_def)
      then show ?thesis
        using True off assms(1)
        by (intro exI [of _ "r\<lparr>buffer := []\<rparr>"])
          (auto simp: ReadPhysicalRecord.simps [of _ _ r] ReadPhysicalRecord.simps [of _ _ "r\<lparr>buffer := []\<rparr>"]
            same_setup_def at_offset_def unread_def kHeaderSize_def)
    next
      case False
      then have len: "length (buffer r) = kBlockSize - off" using assms(1) off(1) by (auto simp: at_offset_def)
      then have "buffer r = padding off \<and> rest (rd_file r) = us"
        using assms(2) off(3) unfolding unread_def by (simp add: append_eq_append_conv)
      then show ?thesis using load True False len off(2) by auto
    qed
  next
    case False
    then have c: "chunk_start off = off" "padding off = []" by (simp_all add: chunk_start_def padding_def)
    show ?thesis
    proof (cases "\<not> eof r \<and> buffer r = []")
      case True
      then have "off = 0" using assms(1) False by (auto simp: at_offset_def kHeaderSize_def)
      then show ?thesis using load True c assms(2) by (auto simp: unread_def kHeaderSize_def)
    next
      case False
      then show ?thesis using assms c by (intro exI [of _ r]) (auto simp: at_offset_def)
    qed
  qed
qed

lemma next_chunk:
  assumes "at_offset off r" "unread r = padding off @ chunk t d @ us" "off \<le> kBlockSize"
    "length d \<le> room_in_block off" "t \<noteq> kZeroType" "initial_offset r = 0"
  shows "\<exists>r'. ReadPhysicalRecord rd fr r = (of_nat (type_num t), d, r') \<and> same_setup r r' \<and>
    at_offset (chunk_start off + (kHeaderSize + length d)) r' \<and> unread r' = us"
proof -
  from reach_chunk [OF assms(1,2), of fr] obtain r1 where
    r1: "ReadPhysicalRecord rd fr r = ReadPhysicalRecord rd fr r1" "same_setup r r1"
    "at_offset (chunk_start off) r1" "unread r1 = chunk t d @ us"
    "eof r1 \<or> length (buffer r1) = kBlockSize - chunk_start off" by blast
  have len: "length (chunk t d) = kHeaderSize + length d" by (simp add: chunk_def)
  have fits: "chunk_start off + (kHeaderSize + length d) \<le> kBlockSize"
    using chunk_start_fits [OF assms(3)] assms(4) by simp
  have "\<exists>us1. buffer r1 = chunk t d @ us1 \<and> us = us1 @ rest (rd_file r1)"
  proof -
    have "length (chunk t d) \<le> length (buffer r1)"
      using r1(3-5) fits len by (auto simp: at_offset_def unread_def)
    then have "take (length (chunk t d)) (buffer r1) = chunk t d"
      using arg_cong [OF r1(4), of "take (length (chunk t d))"] by (simp add: unread_def)
    then have "buffer r1 = chunk t d @ drop (length (chunk t d)) (buffer r1)"
      by (metis append_take_drop_id)
    with r1(4) show ?thesis unfolding unread_def by (metis append.assoc same_append_eq)
  qed
  then obtain us1 where b: "buffer r1 = chunk t d @ us1" "us = us1 @ rest (rd_file r1)" by blast
  have "kHeaderSize \<le> length (buffer r1)" "length d < 65536" "initial_offset r1 = 0"
    using b(1) len fits assms(6) r1(2) by (auto simp: kBlockSize_def same_setup_def)
  then have "ReadPhysicalRecord rd fr r1 = (of_nat (type_num t), d, r1\<lparr>buffer := us1\<rparr>)"
    using parse_chunk [OF b(1), of fr] assms(5) by (simp add: ReadPhysicalRecord.simps [of _ _ r1])
  moreover have "at_offset (chunk_start off + (kHeaderSize + length d)) (r1\<lparr>buffer := us1\<rparr>)"
    using r1(3,5) b(1) len by (auto simp: at_offset_def)
  ultimately show ?thesis
    using r1(1,2) b(2) by (intro exI [of _ "r1\<lparr>buffer := us1\<rparr>"]) (auto simp: same_setup_def unread_def)
qed

lemma cut_chunk:
  assumes "at_offset off r" "unread r @ z = padding off @ chunk t d" "z \<noteq> []" "off \<le> kBlockSize"
    "length d \<le> room_in_block off"
  shows "\<exists>r'. ReadPhysicalRecord rd fr r = (kEof, fr, r') \<and> same_setup r r'"
proof (cases "length (padding off) \<le> length (unread r)")
  case True
  obtain us where us: "unread r = padding off @ us" "us @ z = chunk t d"
  proof
    show "unread r = padding off @ drop (length (padding off)) (unread r)"
      using arg_cong [OF assms(2), of "take (length (padding off))"] True
      by (metis append_take_drop_id diff_is_0_eq' self_append_conv take0 take_append take_append_length)
    then show "drop (length (padding off)) (unread r) @ z = chunk t d"
      using assms(2) by (metis append.assoc same_append_eq)
  qed
  from reach_chunk [OF assms(1) us(1), of fr] obtain r1 where
    r1: "ReadPhysicalRecord rd fr r = ReadPhysicalRecord rd fr r1" "same_setup r r1"
    "at_offset (chunk_start off) r1" "unread r1 = us"
    "eof r1 \<or> length (buffer r1) = kBlockSize - chunk_start off" by blast
  have "length (chunk t d) \<le> kBlockSize - chunk_start off" and d: "length d < 65536"
    using chunk_start_fits [OF assms(4)] assms(5) by (auto simp: chunk_def kBlockSize_def)
  moreover have "length us < length (chunk t d)" using us(2) assms(3) by (metis length_append length_greater_0_conv less_add_same_cancel1)
  ultimately have eof: "eof r1" using r1(4,5) by (auto simp: unread_def)
  then have b: "buffer r1 @ z = chunk t d" using r1(3,4) us(2) by (simp add: at_offset_def unread_def)
  have "ReadPhysicalRecord rd fr r1 = (kEof, fr, r1\<lparr>buffer := []\<rparr>)"
    using parse_cut [OF b assms(3) d _ eof, of fr] eof by (simp add: ReadPhysicalRecord.simps [of _ _ r1])
  then show ?thesis using r1(1,2) by (auto simp: same_setup_def)
next
  case False
  then have "length (buffer r) < kBlockSize - off" "kBlockSize - off < kHeaderSize" "off \<noteq> 0"
    by (auto simp: padding_def unread_def kBlockSize_def kHeaderSize_def split: if_splits)
  moreover have "eof r" using calculation assms(1) by (auto simp: at_offset_def split: if_splits)
  ultimately show ?thesis by (simp add: ReadPhysicalRecord.simps [of _ _ r] same_setup_def)
qed

section \<open>Records\<close>

lemma handle_chunk:
  assumes "\<not> resyncing r" "ReadPhysicalRecord rd fr r = (of_nat (type_num t), d, r')" "same_setup r r'"
  shows "ReadRecord_loop rd fr frag pros scr r =
    (case handle_record (of_nat (type_num t)) d frag pros scr r' of
       Returned rec r1 \<Rightarrow> Some (rec, r1)
     | Again fr1 frag1 pros1 scr1 r1 \<Rightarrow> ReadRecord_loop rd fr1 frag1 pros1 scr1 r1)"
proof -
  have rs: "r'\<lparr>resyncing := False\<rparr> = r'" using assms by (cases r') (simp add: same_setup_def)
  have "\<not> resyncing r'" using assms by (simp add: same_setup_def)
  then show ?thesis
    using assms(2) by (subst ReadRecord_loop.simps) (simp add: ReadRecord_step_def rs)
qed

lemma handle_eof:
  assumes "\<not> resyncing r" "ReadPhysicalRecord rd fr r = (kEof, fr, r')" "same_setup r r'"
  shows "ReadRecord_loop rd fr frag pros scr r = Some (None, r')"
proof -
  have rs: "r'\<lparr>resyncing := False\<rparr> = r'" using assms by (cases r') (simp add: same_setup_def)
  have "\<not> resyncing r'" using assms by (simp add: same_setup_def)
  then show ?thesis
    using assms(2) type_nums(6) [of kFullType] type_nums(6) [of kFirstType] type_nums(6) [of kMiddleType]
      type_nums(6) [of kLastType]
    by (subst ReadRecord_loop.simps) (simp add: ReadRecord_step_def rs handle_record_def del: type_num.simps)
qed

text \<open>
  In the middle of a record the loop has collected what came before; at its beginning the
  scratch space is empty.
\<close>

lemma read_rest:
  assumes "at_offset off r" "unread r = fst (log_bytes off b data) @ us" "off \<le> kBlockSize"
    "initial_offset r = 0" "\<not> resyncing r" "b \<longrightarrow> scr = []"
  shows "\<exists>r'. ReadRecord_loop rd fr (\<not> b) pros scr r = Some (Some (scr @ data), r') \<and> same_setup r r' \<and>
    at_offset (snd (log_bytes off b data)) r' \<and> unread r' = us"
  using assms
proof (induction off b data arbitrary: r fr pros scr rule: log_bytes.induct)
  case (1 off b data)
  define n where "n = min (length data) (room_in_block off)"
  define t where "t = fragment_type b (length data = n)"
  let ?off1 = "chunk_start off + (kHeaderSize + n)"
  let ?tail = "if n < length data then fst (log_bytes ?off1 False (drop n data)) else []"
  note bytes = log_bytes_unfold [OF n_def t_def]
  have u: "unread r = padding off @ chunk t (take n data) @ ?tail @ us"
    using 1(3) bytes by simp
  have len: "length (take n data) = n" "length (take n data) \<le> room_in_block off" "t \<noteq> kZeroType"
    by (auto simp: n_def t_def fragment_type_def)
  from next_chunk [OF 1(2) u 1(4) len(2,3) 1(5), of fr] obtain r1 where
    r1: "ReadPhysicalRecord rd fr r = (of_nat (type_num t), take n data, r1)" "same_setup r r1"
    "at_offset ?off1 r1" "unread r1 = ?tail @ us" unfolding len(1) by blast
  note step = handle_chunk [OF 1(6) r1(1,2)]
  show ?case
  proof (cases "n < length data")
    case False
    then have t: "t = (if b then kFullType else kLastType)" "take n data = data"
      by (auto simp: t_def fragment_type_def n_def)
    show ?thesis
      using step r1 False bytes t 1(7)
      by (cases b) (auto simp: handle_record_def Let_def same_setup_def unread_def at_offset_def)
  next
    case True
    then have t: "t = (if b then kFirstType else kMiddleType)" by (auto simp: t_def fragment_type_def)
    have off1: "?off1 \<le> kBlockSize" using chunk_start_fits [OF 1(4)] len by simp
    have su: "initial_offset r1 = 0" "\<not> resyncing r1" using r1(2) 1(5,6) by (simp_all add: same_setup_def)
    let ?scr = "scr @ take n data"
    have "\<exists>pros1. ReadRecord_loop rd fr (\<not> b) pros scr r = ReadRecord_loop rd (take n data) True pros1 ?scr r1"
      using step t 1(7) by (cases b) (auto simp: handle_record_def Let_def)
    then obtain pros1 where again: "ReadRecord_loop rd fr (\<not> b) pros scr r =
        ReadRecord_loop rd (take n data) (\<not> False) pros1 ?scr r1" by auto
    have u1: "unread r1 = fst (log_bytes ?off1 False (drop n data)) @ us" using r1(4) True by simp
    from 1(1) [OF n_def refl refl True r1(3) u1 off1 su, of ?scr "take n data" pros1] obtain r' where
      "ReadRecord_loop rd (take n data) (\<not> False) pros1 ?scr r1 = Some (Some (?scr @ drop n data), r')"
      "same_setup r1 r'" "at_offset (snd (log_bytes ?off1 False (drop n data))) r'" "unread r' = us"
      by auto
    then show ?thesis
      using again bytes True same_setup_trans [OF r1(2)] by (auto split: prod.splits)
  qed
qed

lemma read_cut:
  assumes "at_offset off r" "unread r @ z = fst (log_bytes off b data)" "z \<noteq> []" "off \<le> kBlockSize"
    "initial_offset r = 0" "\<not> resyncing r" "b \<longrightarrow> scr = []"
  shows "\<exists>r'. ReadRecord_loop rd fr (\<not> b) pros scr r = Some (None, r') \<and> same_setup r r'"
  using assms
proof (induction off b data arbitrary: r fr pros scr rule: log_bytes.induct)
  case (1 off b data)
  define n where "n = min (length data) (room_in_block off)"
  define t where "t = fragment_type b (length data = n)"
  let ?off1 = "chunk_start off + (kHeaderSize + n)"
  let ?c = "padding off @ chunk t (take n data)"
  have bytes: "fst (log_bytes off b data) =
      ?c @ (if n < length data then fst (log_bytes ?off1 False (drop n data)) else [])"
    unfolding log_bytes_unfold [OF n_def t_def] by simp
  have len: "length (take n data) = n" "length (take n data) \<le> room_in_block off" "t \<noteq> kZeroType"
    by (auto simp: n_def t_def fragment_type_def)
  show ?case
  proof (cases "length (unread r) < length ?c")
    case True
    let ?y = "drop (length (unread r)) ?c"
    have "unread r = take (length (unread r)) ?c"
      using arg_cong [OF 1(3) [unfolded bytes], of "take (length (unread r))"] True by simp
    then have "unread r @ ?y = ?c" by (metis append_take_drop_id)
    moreover have "?y \<noteq> []" using True by (simp only: drop_eq_Nil not_le not_False_eq_True)
    ultimately obtain r' where "ReadPhysicalRecord rd fr r = (kEof, fr, r')" "same_setup r r'"
      using cut_chunk [OF 1(2) _ _ 1(5) len(2)] by blast
    then show ?thesis using handle_eof [OF 1(7)] by blast
  next
    case False
    define us where "us = drop (length ?c) (unread r)"
    have "take (length ?c) (unread r) = ?c"
      using arg_cong [OF 1(3) [unfolded bytes], of "take (length ?c)"] False by simp
    then have u: "unread r = padding off @ chunk t (take n data) @ us"
      unfolding us_def by (metis append.assoc append_take_drop_id)
    then have z: "n < length data" "us @ z = fst (log_bytes ?off1 False (drop n data))"
      using 1(3,4) bytes by (auto split: if_splits)
    from next_chunk [OF 1(2) u 1(5) len(2,3) 1(6), of fr] obtain r1 where
      r1: "ReadPhysicalRecord rd fr r = (of_nat (type_num t), take n data, r1)" "same_setup r r1"
      "at_offset ?off1 r1" "unread r1 = us" unfolding len(1) by blast
    note step = handle_chunk [OF 1(7) r1(1,2)]
    have t: "t = (if b then kFirstType else kMiddleType)" using z(1) by (auto simp: t_def fragment_type_def)
    have off1: "?off1 \<le> kBlockSize" using chunk_start_fits [OF 1(5)] len by simp
    have su: "initial_offset r1 = 0" "\<not> resyncing r1" using r1(2) 1(6,7) by (simp_all add: same_setup_def)
    let ?scr = "scr @ take n data"
    have "\<exists>pros1. ReadRecord_loop rd fr (\<not> b) pros scr r = ReadRecord_loop rd (take n data) True pros1 ?scr r1"
      using step t 1(8) by (cases b) (auto simp: handle_record_def Let_def)
    then obtain pros1 where again: "ReadRecord_loop rd fr (\<not> b) pros scr r =
        ReadRecord_loop rd (take n data) (\<not> False) pros1 ?scr r1" by auto
    have "unread r1 @ z = fst (log_bytes ?off1 False (drop n data))" using r1(4) z(2) by simp
    from 1(1) [OF n_def refl refl z(1) r1(3) this 1(4) off1 su, of ?scr "take n data" pros1]
    show ?thesis using again same_setup_trans [OF r1(2)] by auto
  qed
qed

end

text \<open>Reading until there is no record left, as the recovery of the database does.\<close>

partial_function (option) read_all ::
  "'f freader \<Rightarrow> 'f fskipper \<Rightarrow> 'f log_reader \<Rightarrow> (slice list \<times> 'f log_reader) option" where
  "read_all rd skip r =
     (case ReadRecord rd skip r of
        None \<Rightarrow> None
      | Some (None, r1) \<Rightarrow> Some ([], r1)
      | Some (Some x, r1) \<Rightarrow>
          Option.bind (read_all rd skip r1) (\<lambda>(xs, r2). Some (x # xs, r2)))"

text \<open>The records that successive calls return, with nothing reported on the way.\<close>

primrec quiet_reads ::
  "'f freader \<Rightarrow> 'f fskipper \<Rightarrow> 'f log_reader \<Rightarrow> slice list \<Rightarrow> 'f log_reader \<Rightarrow> bool" where
  "quiet_reads rd skip r [] r' \<longleftrightarrow> ReadRecord rd skip r = Some (None, r') \<and> reports r' = reports r"
| "quiet_reads rd skip r (x # xs) r' \<longleftrightarrow>
     (\<exists>r1. ReadRecord rd skip r = Some (Some x, r1) \<and> reports r1 = reports r \<and> quiet_reads rd skip r1 xs r')"

lemma quiet_reads_all: "quiet_reads rd skip r xs r' \<Longrightarrow> read_all rd skip r = Some (xs, r') \<and> reports r' = reports r"
proof (induction xs arbitrary: r)
  case Nil
  then show ?case by (simp add: read_all.simps)
next
  case (Cons x xs)
  then show ?case by (subst read_all.simps) auto
qed

context sequential_file
begin

lemma recover:
  assumes "at_offset off r" "unread r = take k (log_content off rs)" "off \<le> kBlockSize"
    "initial_offset r = 0" "\<not> resyncing r"
  shows "\<exists>j r'. quiet_reads rd skip r (take j rs) r' \<and>
    (\<forall>m\<le>length rs. length (log_content off (take m rs)) \<le> k \<longrightarrow> m \<le> j)"
  using assms
proof (induction rs arbitrary: off k r)
  case Nil
  have "unread r @ fst (log_bytes off True []) = fst (log_bytes off True [])" using Nil(2) by simp
  moreover have "fst (log_bytes off True []) \<noteq> []"
    by (subst log_bytes.simps) (auto simp: Let_def chunk_def kHeaderSize_def simp flip: length_greater_0_conv)
  ultimately obtain r' where "ReadRecord_loop rd [] (\<not> True) 0 [] r = Some (None, r')" "same_setup r r'"
    using read_cut [OF Nil(1) _ _ Nil(3-5), of _ True "[]" "[]" "[]" 0] by blast
  then show ?case
    using Nil(4) by (auto simp: ReadRecord_def same_setup_def)
next
  case (Cons x xs)
  obtain bs o1 where b: "log_bytes off True x = (bs, o1)" by fastforce
  have rr: "ReadRecord rd skip r = ReadRecord_loop rd [] (\<not> True) 0 [] r"
    using Cons.prems(4) by (simp add: ReadRecord_def)
  show ?case
  proof (cases "length bs \<le> k")
    case True
    have "unread r = fst (log_bytes off True x) @ take (k - length bs) (log_content o1 xs)"
      using Cons.prems(2) True b by simp
    from read_rest [OF Cons.prems(1) this Cons.prems(3-5), of "[]" "[]" 0] obtain r1 where
      r1: "ReadRecord_loop rd [] (\<not> True) 0 [] r = Some (Some x, r1)" "same_setup r r1" "at_offset o1 r1"
      "unread r1 = take (k - length bs) (log_content o1 xs)" using b by auto
    have "o1 \<le> kBlockSize" using log_bytes_offset [OF Cons.prems(3), of True x] b by simp
    from Cons.IH [OF r1(3,4) this] r1(2) Cons.prems(4,5) obtain j r' where
      j: "quiet_reads rd skip r1 (take j xs) r'"
      "\<forall>m\<le>length xs. length (log_content o1 (take m xs)) \<le> k - length bs \<longrightarrow> m \<le> j"
      by (auto simp: same_setup_def)
    have "m \<le> Suc j" if "m \<le> length (x # xs)" "length (log_content off (take m (x # xs))) \<le> k" for m
      using that j(2) b by (cases m) auto
    then show ?thesis
      using r1 j rr by (intro exI [of _ "Suc j"]) (auto simp: same_setup_def)
  next
    case False
    let ?z = "drop k bs"
    have "unread r @ ?z = fst (log_bytes off True x)" "?z \<noteq> []"
      using Cons.prems(2) False b by simp_all
    from read_cut [OF Cons.prems(1) this Cons.prems(3-5), of "[]" "[]" 0] obtain r' where
      "ReadRecord_loop rd [] (\<not> True) 0 [] r = Some (None, r')" "same_setup r r'" by auto
    moreover have "m = 0" if "length (log_content off (take m (x # xs))) \<le> k" for m
      using that False b by (cases m) auto
    ultimately show ?thesis
      using rr by (intro exI [of _ 0]) (auto simp: same_setup_def)
  qed
qed

end

section \<open>Properties\<close>

text \<open>
  C10: recovery from the write-ahead log. Records are added to a log on a new
  \<^verbatim>\<open>PosixWritableFile\<close>, with the kernel interrupting, shortening or failing writes as it likes, until
  one addition fails or all are done; \<open>n\<close> additions report success. Of the file
  some initial part survives. A reader then returns, whether or not it checks checksums, a prefix of the added
  records, reports no corruption, and ends. A record whose addition
  succeeded is among them as soon as the part that survives reaches the end of the record.
\<close>
theorem log_recovery:
  assumes "k_bytes k0 = []"
    and "add_records posix_Append posix_Flush (Writer (PosixWritableFile fname k0)) rs = (n, w)"
    and "s_bytes sf = take k (k_bytes (w_fd (dest w)))" "list_all (\<lambda>a. a = Errno EINTR) (s_reads sf)"
  shows "\<exists>j r. read_all posix_Read posix_Skip (Reader sf reporter check 0) = Some (take j rs, r) \<and>
    reports r = [] \<and> (\<forall>m\<le>n. length (log_content 0 (take m rs)) \<le> k \<longrightarrow> m \<le> j)"
proof -
  let ?w = "Writer (PosixWritableFile fname k0)"
  have w: "w_buf (dest ?w) = []" "fresh ?w" "block_offset ?w = 0" "k_bytes (w_fd (dest ?w)) = []"
    using assms(1) by (simp_all add: Writer_def PosixWritableFile_def fresh_def)
  from posix_log.add_records_write [OF w(1-3), of rs] assms(2) w(4) obtain p q where
    c: "log_content 0 rs = p @ q" "k_bytes (w_fd (dest w)) = p" "n \<le> length rs"
    "length (log_content 0 (take n rs)) \<le> length p" by auto
  let ?k = "min k (length p)"
  let ?r = "Reader sf reporter check 0"
  have "posix_seq.unread ?r = take ?k (log_content 0 rs)"
    using assms(3) c by (simp add: posix_seq.unread_def Reader_def min_def)
  moreover have "posix_seq.at_offset 0 ?r" using assms(4) by (simp add: posix_seq.at_offset_def Reader_def)
  ultimately obtain j r where
    q: "quiet_reads posix_Read posix_Skip ?r (take j rs) r"
    and j: "\<forall>m\<le>length rs. length (log_content 0 (take m rs)) \<le> ?k \<longrightarrow> m \<le> j"
    using posix_seq.recover [of 0 ?r ?k rs posix_Skip] by (auto simp: Reader_def)
  note all = quiet_reads_all [OF q]
  have "length (log_content 0 (take m rs)) \<le> length p" if "m \<le> n" for m
    using log_content_take_mono [OF that, of 0 rs] c(4) by simp
  then show ?thesis using all j c(3) by (intro exI [of _ j] exI [of _ r]) (auto simp: Reader_def)
qed

definition sample_log :: "nat \<times> posix_wfile log_writer" where
  "sample_log = add_records posix_Append posix_Flush (Writer sample_file) [[1], [2, 3]]"

lemma sample_log_added: "fst sample_log = 2"
  by (simp add: sample_log_def Writer_def sample_file_def PosixWritableFile_def AddRecord_def
      AddRecord_loop.simps switch_block_def EmitPhysicalRecord_def posix_Append_def posix_Flush_def FlushBuffer_def
      WriteUnbuffered_def WriteUnbuffered_loop.simps sys_write_def sample_kernel_def
      kBlockSize_def kHeaderSize_def kWritableFileBufferSize_def Let_def)

definition sample_sfile :: posix_sfile where
  "sample_sfile = \<lparr>s_bytes = take 12 (k_bytes (w_fd (dest (snd sample_log)))), s_reads = [Errno EINTR],
     s_seek_errno = None, s_strerror = (\<lambda>e. []), s_filename = []\<rparr>"

lemma sample_log_length: "length (log_content 0 (take 1 [[1], [2, 3]])) = 8"
  by (simp add: log_bytes.simps padding_def room_in_block_def chunk_def kBlockSize_def kHeaderSize_def Let_def)

theorem log_recovery_witness:
  "\<exists>j r. read_all posix_Read posix_Skip (Reader sample_sfile True True 0) = Some (take j [[1], [2, 3]], r) \<and>
     reports r = [] \<and> 1 \<le> j"
proof -
  have a: "add_records posix_Append posix_Flush (Writer (PosixWritableFile (cstr ''db/000003.log'') sample_kernel)) [[1], [2, 3]] =
      (2, snd sample_log)"
    using sample_log_added by (metis prod.collapse sample_file_def sample_log_def)
  have k: "k_bytes sample_kernel = []" by (simp add: sample_kernel_def)
  have s: "s_bytes sample_sfile = take 12 (k_bytes (w_fd (dest (snd sample_log))))"
    "list_all (\<lambda>a. a = Errno EINTR) (s_reads sample_sfile)" by (simp_all add: sample_sfile_def)
  from log_recovery [OF k a s, of True True] obtain j r where
    "read_all posix_Read posix_Skip (Reader sample_sfile True True 0) = Some (take j [[1], [2, 3]], r)" "reports r = []"
    "\<forall>m\<le>2. length (log_content 0 (take m [[1], [2, 3]])) \<le> 12 \<longrightarrow> m \<le> j" by blast
  with sample_log_length show ?thesis by fastforce
qed

end
