(* ===== verification/Ldb_Dbformat.thy ===== *)
theory Ldb_Dbformat
  imports Ldb_Status
begin

unbundle bit_operations_syntax

text \<open>
  Keys and their order: \<^verbatim>\<open>leveldb-library/util/comparator.cc\<close>, \<^verbatim>\<open>include/leveldb/comparator.h\<close>,
  \<^verbatim>\<open>db/dbformat.h\<close> and \<^verbatim>\<open>db/dbformat.cc\<close>. An internal key is a user key followed by eight
  bytes that hold a sequence number and a type; internal keys are ordered by user key and
  then from the newest to the oldest. The locales \<open>key_order\<close> and \<open>key_separator\<close> state what
  the database relies on in a comparator; a comparator of user keys that has these laws
  gives a comparator of internal keys that has them too.
\<close>

section \<open>Comparators\<close>

text \<open>The virtual methods of \<^verbatim>\<open>Comparator\<close>.\<close>

record comparator =
  cmp_Name :: "byte list"
  Compare :: "slice \<Rightarrow> slice \<Rightarrow> int"
  FindShortestSeparator :: "byte list \<Rightarrow> slice \<Rightarrow> byte list"
  FindShortSuccessor :: "byte list \<Rightarrow> byte list"

subsection \<open>BytewiseComparatorImpl\<close>

function diff_index_loop :: "byte list \<Rightarrow> slice \<Rightarrow> nat \<Rightarrow> nat \<Rightarrow> nat" where
  "diff_index_loop start limit min_length diff_index =
     (if diff_index < min_length \<and> start ! diff_index = limit ! diff_index
      then diff_index_loop start limit min_length (diff_index + 1) else diff_index)"
  by pat_completeness auto
termination
  by (relation "measure (\<lambda>(s, l, n, i). n - i)") auto

declare diff_index_loop.simps [simp del]

definition bytewise_FindShortestSeparator :: "byte list \<Rightarrow> slice \<Rightarrow> byte list" where
  "bytewise_FindShortestSeparator start limit =
     (let min_length = min (length start) (length limit);
          diff_index = diff_index_loop start limit min_length 0
      in
      if min_length \<le> diff_index then start
      else
        let diff_byte = start ! diff_index in
        if diff_byte < 0xFF \<and> unat diff_byte + 1 < unat (limit ! diff_index)
        then take (diff_index + 1) (start[diff_index := start ! diff_index + 1])
        else start)"

function successor_loop :: "byte list \<Rightarrow> nat \<Rightarrow> byte list" where
  "successor_loop key i =
     (if i < length key then
        (if key ! i \<noteq> 0xFF then take (i + 1) (key[i := key ! i + 1]) else successor_loop key (i + 1))
      else key)"
  by pat_completeness auto
termination
  by (relation "measure (\<lambda>(k, i). length k - i)") auto

declare successor_loop.simps [simp del]

definition bytewise_FindShortSuccessor :: "byte list \<Rightarrow> byte list" where
  "bytewise_FindShortSuccessor key = successor_loop key 0"

definition BytewiseComparator :: comparator where
  "BytewiseComparator =
     \<lparr>cmp_Name = cstr ''leveldb.BytewiseComparator'', Compare = slice_compare,
      FindShortestSeparator = bytewise_FindShortestSeparator,
      FindShortSuccessor = bytewise_FindShortSuccessor\<rparr>"

section \<open>Internal keys\<close>

datatype ValueType = kTypeDeletion | kTypeValue

fun type_byte :: "ValueType \<Rightarrow> byte" where
  "type_byte kTypeDeletion = 0"
| "type_byte kTypeValue = 1"

definition kValueTypeForSeek :: ValueType where
  "kValueTypeForSeek = kTypeValue"

type_synonym SequenceNumber = u64

definition kMaxSequenceNumber :: SequenceNumber where
  "kMaxSequenceNumber = push_bit 56 1 - 1"

record ParsedInternalKey =
  pk_user_key :: slice
  pk_sequence :: SequenceNumber
  pk_type :: ValueType

definition InternalKeyEncodingLength :: "ParsedInternalKey \<Rightarrow> nat" where
  "InternalKeyEncodingLength key = length (pk_user_key key) + 8"

definition PackSequenceAndType :: "u64 \<Rightarrow> ValueType \<Rightarrow> u64" where
  "PackSequenceAndType seq t = push_bit 8 seq OR ucast (type_byte t)"

definition AppendInternalKey :: "byte list \<Rightarrow> ParsedInternalKey \<Rightarrow> byte list" where
  "AppendInternalKey result key =
     PutFixed64 (result @ pk_user_key key) (PackSequenceAndType (pk_sequence key) (pk_type key))"

definition ExtractUserKey :: "slice \<Rightarrow> slice" where
  "ExtractUserKey internal_key = take (length internal_key - 8) internal_key"

text \<open>\<^verbatim>\<open>DecodeFixed64(key.data() + key.size() - 8)\<close>\<close>

definition key_tag :: "slice \<Rightarrow> u64" where
  "key_tag key = DecodeFixed64 (drop (length key - 8) key)"

text \<open>The result, or nothing when the function returns \<^verbatim>\<open>false\<close>.\<close>

definition ParseInternalKey :: "slice \<Rightarrow> ParsedInternalKey option" where
  "ParseInternalKey internal_key =
     (let n = length internal_key in
      if n < 8 then None
      else
        let num = key_tag internal_key;
            c = ucast (num AND 0xFF) :: byte
        in if c \<le> type_byte kTypeValue then
             Some \<lparr>pk_user_key = take (n - 8) internal_key, pk_sequence = drop_bit 8 num,
                   pk_type = (if c = type_byte kTypeValue then kTypeValue else kTypeDeletion)\<rparr>
           else None)"

subsection \<open>InternalKeyComparator\<close>

definition internal_Compare :: "comparator \<Rightarrow> slice \<Rightarrow> slice \<Rightarrow> int" where
  "internal_Compare user akey bkey =
     (let r = Compare user (ExtractUserKey akey) (ExtractUserKey bkey) in
      if r = 0 then
        let anum = key_tag akey; bnum = key_tag bkey
        in if bnum < anum then -1 else if anum < bnum then 1 else r
      else r)"

definition internal_FindShortestSeparator :: "comparator \<Rightarrow> byte list \<Rightarrow> slice \<Rightarrow> byte list" where
  "internal_FindShortestSeparator user start limit =
     (let user_start = ExtractUserKey start;
          user_limit = ExtractUserKey limit;
          tmp = FindShortestSeparator user user_start user_limit
      in
      if length tmp < length user_start \<and> Compare user user_start tmp < 0
      then PutFixed64 tmp (PackSequenceAndType kMaxSequenceNumber kValueTypeForSeek)
      else start)"

definition internal_FindShortSuccessor :: "comparator \<Rightarrow> byte list \<Rightarrow> byte list" where
  "internal_FindShortSuccessor user key =
     (let uk = ExtractUserKey key;
          tmp = FindShortSuccessor user uk
      in
      if length tmp < length uk \<and> Compare user uk tmp < 0
      then PutFixed64 tmp (PackSequenceAndType kMaxSequenceNumber kValueTypeForSeek)
      else key)"

definition InternalKeyComparator :: "comparator \<Rightarrow> comparator" where
  "InternalKeyComparator user =
     \<lparr>cmp_Name = cstr ''leveldb.InternalKeyComparator'', Compare = internal_Compare user,
      FindShortestSeparator = internal_FindShortestSeparator user,
      FindShortSuccessor = internal_FindShortSuccessor user\<rparr>"

subsection \<open>InternalKey and LookupKey\<close>

definition InternalKey :: "slice \<Rightarrow> SequenceNumber \<Rightarrow> ValueType \<Rightarrow> byte list" where
  "InternalKey uk s t = AppendInternalKey [] \<lparr>pk_user_key = uk, pk_sequence = s, pk_type = t\<rparr>"

text \<open>The bytes from \<^verbatim>\<open>start_\<close> to \<^verbatim>\<open>end_\<close>, and the distance from \<^verbatim>\<open>start_\<close> to \<^verbatim>\<open>kstart_\<close>.\<close>

record LookupKey =
  lk_bytes :: "byte list"
  lk_kstart :: nat

definition make_LookupKey :: "slice \<Rightarrow> SequenceNumber \<Rightarrow> LookupKey" where
  "make_LookupKey uk s =
     (let len = EncodeVarint32 (of_nat (length uk + 8))
      in \<lparr>lk_bytes = len @ uk @ EncodeFixed64 (PackSequenceAndType s kValueTypeForSeek),
          lk_kstart = length len\<rparr>)"

definition memtable_key :: "LookupKey \<Rightarrow> slice" where
  "memtable_key k = lk_bytes k"

definition internal_key :: "LookupKey \<Rightarrow> slice" where
  "internal_key k = drop (lk_kstart k) (lk_bytes k)"

definition lookup_user_key :: "LookupKey \<Rightarrow> slice" where
  "lookup_user_key k = take (length (lk_bytes k) - lk_kstart k - 8) (drop (lk_kstart k) (lk_bytes k))"

section \<open>What a comparator promises\<close>

text \<open>A total preorder on the keys it is used for.\<close>

locale key_order =
  fixes cmp :: "'k \<Rightarrow> 'k \<Rightarrow> int" and ok :: "'k \<Rightarrow> bool"
  assumes cmp_self: "ok a \<Longrightarrow> cmp a a = 0"
    and cmp_swap: "ok a \<Longrightarrow> ok b \<Longrightarrow> cmp a b < 0 \<longleftrightarrow> 0 < cmp b a"
    and cmp_trans: "ok a \<Longrightarrow> ok b \<Longrightarrow> ok c \<Longrightarrow> cmp a b \<le> 0 \<Longrightarrow> cmp b c \<le> 0 \<Longrightarrow> cmp a c \<le> 0"
begin

lemma cmp_eq_sym: "ok a \<Longrightarrow> ok b \<Longrightarrow> cmp a b = 0 \<longleftrightarrow> cmp b a = 0"
  using cmp_swap [of a b] cmp_swap [of b a] by linarith

lemma cmp_less_le: "ok a \<Longrightarrow> ok b \<Longrightarrow> ok c \<Longrightarrow> cmp a b < 0 \<Longrightarrow> cmp b c \<le> 0 \<Longrightarrow> cmp a c < 0"
  using cmp_trans [of b c a] cmp_trans [of a b c] cmp_swap [of a b] cmp_swap [of c a] cmp_swap [of a c]
  by force

lemma cmp_le_less: "ok a \<Longrightarrow> ok b \<Longrightarrow> ok c \<Longrightarrow> cmp a b \<le> 0 \<Longrightarrow> cmp b c < 0 \<Longrightarrow> cmp a c < 0"
  using cmp_trans [of c a b] cmp_trans [of a b c] cmp_swap [of b c] cmp_swap [of c a] cmp_swap [of a c]
  by force

lemma cmp_eq_trans: "ok a \<Longrightarrow> ok b \<Longrightarrow> ok c \<Longrightarrow> cmp a b = 0 \<Longrightarrow> cmp b c = 0 \<Longrightarrow> cmp a c = 0"
  using cmp_trans [of a b c] cmp_trans [of c b a] cmp_eq_sym [of a b] cmp_eq_sym [of b c] cmp_swap [of a c]
    cmp_swap [of c a] by force

lemma cmp_total: "ok a \<Longrightarrow> ok b \<Longrightarrow> cmp a b \<le> 0 \<or> cmp b a < 0"
  using cmp_swap [of b a] by linarith

end

text \<open>The operations that shorten the keys of an index block.\<close>

locale key_separator = key_order +
  fixes sep :: "'k \<Rightarrow> 'k \<Rightarrow> 'k" and succ :: "'k \<Rightarrow> 'k"
  assumes sep_between: "ok a \<Longrightarrow> ok b \<Longrightarrow> cmp a b < 0 \<Longrightarrow>
      ok (sep a b) \<and> cmp a (sep a b) \<le> 0 \<and> cmp (sep a b) b < 0"
    and sep_other: "ok a \<Longrightarrow> ok b \<Longrightarrow> \<not> cmp a b < 0 \<Longrightarrow> sep a b = a"
    and succ_above: "ok a \<Longrightarrow> ok (succ a) \<and> cmp a (succ a) \<le> 0"

locale user_comparator =
  key_separator "Compare user" "\<lambda>_. True" "FindShortestSeparator user" "FindShortSuccessor user"
  for user :: comparator

section \<open>The byte order\<close>

lemma diff_index_loop_spec:
  assumes "i \<le> m" "m \<le> length a" "m \<le> length b" "take i a = take i b"
  shows "let d = diff_index_loop a b m i in i \<le> d \<and> d \<le> m \<and> take d a = take d b \<and> (d < m \<longrightarrow> a ! d \<noteq> b ! d)"
  using assms
proof (induction a b m i rule: diff_index_loop.induct)
  case (1 a b m i)
  show ?case
  proof (cases "i < m \<and> a ! i = b ! i")
    case True
    then have "take (Suc i) a = take (Suc i) b" using "1.prems" by (simp add: take_Suc_conv_app_nth)
    then show ?thesis
      using 1 True by (simp add: diff_index_loop.simps [of a b m i] Let_def)
  next
    case False
    then show ?thesis using 1 by (auto simp: diff_index_loop.simps [of a b m i] Let_def)
  qed
qed

lemma lex_less_common: "lex_less (p @ a) (p @ b) \<longleftrightarrow> lex_less a b"
  by (induction p) auto

lemma bytewise_separator_between:
  assumes "lex_less a b"
  shows "\<not> lex_less (bytewise_FindShortestSeparator a b) a \<and> lex_less (bytewise_FindShortestSeparator a b) b"
proof -
  define m where "m = min (length a) (length b)"
  define d where "d = diff_index_loop a b m 0"
  have d: "d \<le> m" "take d a = take d b" "d < m \<Longrightarrow> a ! d \<noteq> b ! d"
    using diff_index_loop_spec [of 0 m a b] by (auto simp: d_def Let_def m_def)
  show ?thesis
  proof (cases "d < m \<and> a ! d < 0xFF \<and> unat (a ! d) + 1 < unat (b ! d)")
    case False
    then have "bytewise_FindShortestSeparator a b = a"
      by (auto simp: bytewise_FindShortestSeparator_def Let_def m_def d_def)
    then show ?thesis using assms by simp
  next
    case True
    then have lens: "d < length a" "d < length b" by (auto simp: m_def)
    have sep: "bytewise_FindShortestSeparator a b = take d a @ [a ! d + 1]"
      using True lens unfolding bytewise_FindShortestSeparator_def Let_def m_def [symmetric] d_def [symmetric]
      by (simp add: take_Suc_conv_app_nth)
    have inc: "unat (a ! d + 1) = unat (a ! d) + 1"
      using True by (simp add: word_less_nat_alt unat_word_ariths)
    have a: "a = take d a @ a ! d # drop (Suc d) a" using lens(1) by (rule id_take_nth_drop)
    have b: "b = take d a @ b ! d # drop (Suc d) b"
      unfolding d(2) using lens(2) by (rule id_take_nth_drop)
    have "\<not> lex_less [a ! d + 1] (a ! d # drop (Suc d) a)" "lex_less [a ! d + 1] (b ! d # drop (Suc d) b)"
      using inc True by (auto simp: word_less_nat_alt)
    then show ?thesis unfolding sep using a b lex_less_common by metis
  qed
qed

lemma bytewise_separator_other:
  assumes "\<not> lex_less a b"
  shows "bytewise_FindShortestSeparator a b = a"
proof (rule ccontr)
  assume ne: "bytewise_FindShortestSeparator a b \<noteq> a"
  define m where "m = min (length a) (length b)"
  define d where "d = diff_index_loop a b m 0"
  have d: "d \<le> m" "take d a = take d b"
    using diff_index_loop_spec [of 0 m a b] by (auto simp: d_def Let_def m_def)
  have *: "d < m" "unat (a ! d) + 1 < unat (b ! d)"
    using ne by (auto simp: bytewise_FindShortestSeparator_def Let_def m_def d_def split: if_splits)
  then have lens: "d < length a" "d < length b" by (auto simp: m_def)
  have "a = take d a @ a ! d # drop (Suc d) a" using lens(1) by (rule id_take_nth_drop)
  moreover have "b = take d a @ b ! d # drop (Suc d) b"
    unfolding d(2) using lens(2) by (rule id_take_nth_drop)
  ultimately have "lex_less a b" using *(2) lex_less_common [of "take d a"]
    by (metis add_lessD1 lex_less.simps(3) word_less_nat_alt)
  then show False using assms by simp
qed

lemma successor_loop_above:
  "\<not> lex_less (successor_loop key i) key \<and> length (successor_loop key i) \<le> length key"
proof (induction key i rule: successor_loop.induct)
  case (1 key i)
  show ?case
  proof (cases "i < length key \<and> key ! i \<noteq> 0xFF")
    case True
    have "unat (key ! i) \<noteq> 255" using True by (auto simp: word_unat_eq_iff)
    then have inc: "unat (key ! i + 1) = unat (key ! i) + 1"
      using unat_lt_256 [of "key ! i"] by (simp add: unat_word_ariths)
    have "key = take i key @ key ! i # drop (Suc i) key" using True by (simp add: id_take_nth_drop)
    moreover have "\<not> lex_less [key ! i + 1] (key ! i # drop (Suc i) key)"
      using inc by (auto simp: word_less_nat_alt)
    moreover have "successor_loop key i = take i key @ [key ! i + 1]"
      using True by (simp add: successor_loop.simps [of key i] take_Suc_conv_app_nth)
    ultimately show ?thesis using True lex_less_common [of "take i key"]
      by (metis (no_types, lifting) length_append_singleton length_take min.absorb4 Suc_leI)
  qed (use 1 in \<open>auto simp: successor_loop.simps [of key i]\<close>)
qed

lemma slice_compare_le: "slice_compare a b \<le> 0 \<longleftrightarrow> \<not> lex_less b a"
  using slice_compare_lex [of a b] by linarith

interpretation bytewise: user_comparator BytewiseComparator
proof
  show "Compare BytewiseComparator a a = 0" for a
    by (simp add: BytewiseComparator_def slice_compare_lex)
  show "Compare BytewiseComparator a b < 0 \<longleftrightarrow> 0 < Compare BytewiseComparator b a" for a b
    by (simp add: BytewiseComparator_def slice_compare_lex)
  show "Compare BytewiseComparator a b \<le> 0 \<Longrightarrow> Compare BytewiseComparator b c \<le> 0 \<Longrightarrow>
      Compare BytewiseComparator a c \<le> 0" for a b c
    using lex_less_trans lex_less_linear by (auto simp: BytewiseComparator_def slice_compare_le) metis
  show "Compare BytewiseComparator a b < 0 \<Longrightarrow>
      True \<and> Compare BytewiseComparator a (FindShortestSeparator BytewiseComparator a b) \<le> 0 \<and>
      Compare BytewiseComparator (FindShortestSeparator BytewiseComparator a b) b < 0" for a b
    by (simp add: BytewiseComparator_def slice_compare_lex slice_compare_le bytewise_separator_between)
  show "\<not> Compare BytewiseComparator a b < 0 \<Longrightarrow> FindShortestSeparator BytewiseComparator a b = a" for a b
    by (simp add: BytewiseComparator_def slice_compare_lex bytewise_separator_other)
  show "True \<and> Compare BytewiseComparator a (FindShortSuccessor BytewiseComparator a) \<le> 0" for a
    by (simp add: BytewiseComparator_def slice_compare_le bytewise_FindShortSuccessor_def successor_loop_above)
qed

section \<open>The order of internal keys\<close>

lemma ExtractUserKey_append [simp]: "ExtractUserKey (uk @ EncodeFixed64 w) = uk"
  by (simp add: ExtractUserKey_def)

lemma key_tag_append [simp]: "key_tag (uk @ EncodeFixed64 w) = w"
  by (simp add: key_tag_def)

lemma ExtractUserKey_Put [simp]: "ExtractUserKey (PutFixed64 uk w) = uk"
  by (simp add: PutFixed64_def)

lemma InternalKey_bytes: "InternalKey uk s t = uk @ EncodeFixed64 (PackSequenceAndType s t)"
  by (simp add: InternalKey_def AppendInternalKey_def PutFixed64_def)

lemma length_InternalKey [simp]: "length (InternalKey uk s t) = length uk + 8"
  by (simp add: InternalKey_bytes)

lemma InternalKey_parts [simp]:
  "ExtractUserKey (InternalKey uk s t) = uk" "key_tag (InternalKey uk s t) = PackSequenceAndType s t"
  by (simp_all add: InternalKey_bytes)

lemma internal_key_split:
  assumes "8 \<le> length k"
  shows "k = ExtractUserKey k @ EncodeFixed64 (key_tag k)"
proof -
  let ?d = "drop (length k - 8) k"
  have "EncodeFixed64 (DecodeFixed64 ?d) = ?d"
  proof -
    have len: "length ?d = 8" using assms by simp
    have "unat (of_nat (le_val ?d) :: u64) = le_val ?d"
      using le_val_less [of ?d] len by (intro unat_of_nat_u64) simp
    then show ?thesis
      using len le_bytes_le_val [of ?d] by (simp add: EncodeFixed64_le DecodeFixed64_def kLittleEndian_def)
  qed
  then show ?thesis by (simp add: ExtractUserKey_def key_tag_def)
qed

lemma unat_Pack:
  assumes "s \<le> kMaxSequenceNumber"
  shows "unat (PackSequenceAndType s t) = 256 * unat s + unat (type_byte t)"
proof -
  have s: "unat s < 2 ^ 56" using assms by (simp add: kMaxSequenceNumber_def word_le_nat_alt)
  have "push_bit 8 s AND ucast (type_byte t) = (0 :: u64)"
    by (cases t) (auto intro!: bit_word_eqI simp: bit_and_iff bit_1_iff bit_push_bit_iff)
  then have "PackSequenceAndType s t = push_bit 8 s + ucast (type_byte t)"
    using word_plus_and_or [of "push_bit 8 s" "ucast (type_byte t)"] by (simp add: PackSequenceAndType_def)
  moreover have "unat (push_bit 8 s) = 256 * unat s"
    using s by (simp add: push_bit_eq_mult unat_word_ariths)
  moreover have "unat (ucast (type_byte t) :: u64) = unat (type_byte t)" "unat (type_byte t) \<le> 1"
    by (cases t; simp)+
  ultimately show ?thesis using s by (simp add: unat_add_no_wrap)
qed

lemma Pack_less:
  assumes "s \<le> kMaxSequenceNumber" "s' \<le> kMaxSequenceNumber"
  shows "PackSequenceAndType s t < PackSequenceAndType s' t' \<longleftrightarrow>
    s < s' \<or> s = s' \<and> type_byte t < type_byte t'"
proof -
  have "unat (type_byte t) \<le> 1" "unat (type_byte t') \<le> 1" by (cases t; cases t'; simp)+
  then show ?thesis
    unfolding word_less_nat_alt unat_Pack [OF assms(1)] unat_Pack [OF assms(2)] word_unat_eq_iff
    by auto
qed

lemma type_byte_inj: "type_byte t = type_byte t' \<longleftrightarrow> t = t'"
  by (cases t; cases t') auto

lemma Pack_inj:
  assumes "s \<le> kMaxSequenceNumber" "s' \<le> kMaxSequenceNumber"
  shows "PackSequenceAndType s t = PackSequenceAndType s' t' \<longleftrightarrow> s = s' \<and> t = t'"
  using Pack_less [OF assms, of t t'] Pack_less [OF assms(2,1), of t' t] type_byte_inj [of t t']
  by (metis less_irrefl neqE)

context user_comparator
begin

lemma internal_less:
  "internal_Compare user a b < 0 \<longleftrightarrow>
     Compare user (ExtractUserKey a) (ExtractUserKey b) < 0 \<or>
     Compare user (ExtractUserKey a) (ExtractUserKey b) = 0 \<and> key_tag b < key_tag a"
  by (auto simp: internal_Compare_def Let_def)

lemma internal_le:
  "internal_Compare user a b \<le> 0 \<longleftrightarrow>
     Compare user (ExtractUserKey a) (ExtractUserKey b) < 0 \<or>
     Compare user (ExtractUserKey a) (ExtractUserKey b) = 0 \<and> key_tag b \<le> key_tag a"
  by (auto simp: internal_Compare_def Let_def)

lemma internal_greater:
  "0 < internal_Compare user a b \<longleftrightarrow>
     0 < Compare user (ExtractUserKey a) (ExtractUserKey b) \<or>
     Compare user (ExtractUserKey a) (ExtractUserKey b) = 0 \<and> key_tag a < key_tag b"
  by (auto simp: internal_Compare_def Let_def)

lemma internal_eq:
  "internal_Compare user a b = 0 \<longleftrightarrow>
     Compare user (ExtractUserKey a) (ExtractUserKey b) = 0 \<and> key_tag a = key_tag b"
  by (auto simp: internal_Compare_def Let_def)

lemma internal_trans:
  assumes "internal_Compare user a b \<le> 0" "internal_Compare user b c \<le> 0"
  shows "internal_Compare user a c \<le> 0"
  using assms cmp_less_le [of "ExtractUserKey a" "ExtractUserKey b" "ExtractUserKey c"]
    cmp_le_less [of "ExtractUserKey a" "ExtractUserKey b" "ExtractUserKey c"]
    cmp_trans [of "ExtractUserKey a" "ExtractUserKey b" "ExtractUserKey c"]
  unfolding internal_le by (auto dest: order_trans)

lemma internal_separator_shape:
  "internal_FindShortestSeparator user a b = a \<or>
   (\<exists>tmp w. internal_FindShortestSeparator user a b = PutFixed64 tmp w \<and>
      tmp = FindShortestSeparator user (ExtractUserKey a) (ExtractUserKey b) \<and>
      length tmp < length (ExtractUserKey a) \<and> Compare user (ExtractUserKey a) tmp < 0)"
  unfolding internal_FindShortestSeparator_def Let_def by metis

lemma internal_successor_shape:
  "internal_FindShortSuccessor user a = a \<or>
   (\<exists>tmp w. internal_FindShortSuccessor user a = PutFixed64 tmp w \<and>
      length tmp < length (ExtractUserKey a) \<and> Compare user (ExtractUserKey a) tmp < 0)"
  unfolding internal_FindShortSuccessor_def Let_def by metis

lemma internal_sep_between:
  assumes "8 \<le> length a" "internal_Compare user a b < 0"
  defines "c \<equiv> internal_FindShortestSeparator user a b"
  shows "8 \<le> length c \<and> internal_Compare user a c \<le> 0 \<and> internal_Compare user c b < 0 \<and> length c \<le> length a"
  using internal_separator_shape [of a b]
proof
  assume "internal_FindShortestSeparator user a b = a"
  then show ?thesis using assms cmp_self by (simp add: internal_le)
next
  assume "\<exists>tmp w. internal_FindShortestSeparator user a b = PutFixed64 tmp w \<and>
      tmp = FindShortestSeparator user (ExtractUserKey a) (ExtractUserKey b) \<and>
      length tmp < length (ExtractUserKey a) \<and> Compare user (ExtractUserKey a) tmp < 0"
  then obtain tmp w where c: "c = PutFixed64 tmp w"
    and tmp: "tmp = FindShortestSeparator user (ExtractUserKey a) (ExtractUserKey b)"
    and less: "length tmp < length (ExtractUserKey a)" "Compare user (ExtractUserKey a) tmp < 0"
    unfolding c_def by blast
  have "Compare user (ExtractUserKey a) (ExtractUserKey b) < 0"
    using sep_other [of "ExtractUserKey a" "ExtractUserKey b"] less(1) tmp by force
  then have "Compare user tmp (ExtractUserKey b) < 0" using sep_between tmp by simp
  then show ?thesis
    using c less by (auto simp: internal_le internal_less PutFixed64_def ExtractUserKey_def)
qed

lemma internal_sep_other:
  assumes "\<not> internal_Compare user a b < 0"
  shows "internal_FindShortestSeparator user a b = a"
  using assms sep_other [of "ExtractUserKey a" "ExtractUserKey b"]
  by (auto simp: internal_FindShortestSeparator_def internal_less Let_def)

lemma internal_succ_above:
  assumes "8 \<le> length a"
  defines "c \<equiv> internal_FindShortSuccessor user a"
  shows "8 \<le> length c \<and> internal_Compare user a c \<le> 0 \<and> length c \<le> length a"
  using internal_successor_shape [of a] assms cmp_self
  by (auto simp: internal_le PutFixed64_def ExtractUserKey_def)

end

sublocale user_comparator \<subseteq> internal: key_separator "internal_Compare user" "\<lambda>k. 8 \<le> length k"
  "internal_FindShortestSeparator user" "internal_FindShortSuccessor user"
proof unfold_locales
  fix a b c
  show "8 \<le> length a \<Longrightarrow> internal_Compare user a a = 0" by (simp add: internal_eq cmp_self)
  show "internal_Compare user a b < 0 \<longleftrightarrow> 0 < internal_Compare user b a"
    using cmp_swap [of "ExtractUserKey a" "ExtractUserKey b"] cmp_eq_sym [of "ExtractUserKey a" "ExtractUserKey b"]
    by (simp add: internal_less internal_greater)
  show "internal_Compare user a b \<le> 0 \<Longrightarrow> internal_Compare user b c \<le> 0 \<Longrightarrow> internal_Compare user a c \<le> 0"
    by (rule internal_trans)
qed (use internal_sep_between internal_sep_other internal_succ_above in blast)+

section \<open>Properties\<close>

lemma Pack_parts:
  assumes "s \<le> kMaxSequenceNumber"
  shows "drop_bit 8 (PackSequenceAndType s t) = s" "ucast (PackSequenceAndType s t AND 0xFF) = type_byte t"
proof -
  let ?p = "PackSequenceAndType s t"
  have u: "unat ?p = 256 * unat s + unat (type_byte t)" using assms by (rule unat_Pack)
  have t: "unat (type_byte t) \<le> 1" by (cases t) auto
  show "drop_bit 8 ?p = s" using u t by (simp add: word_unat_eq_iff unat_drop_bit)
  have "unat (?p AND 0xFF) = unat (type_byte t)"
    using u t by (simp only: and_255 unat_take_bit) (simp add: take_bit_eq_mod mod_mult_self4)
  then have "(of_nat (unat (?p AND 0xFF)) :: byte) = of_nat (unat (type_byte t))" by simp
  then show "ucast (?p AND 0xFF) = type_byte t" by (simp add: of_nat_unat)
qed

lemma Parse_InternalKey:
  assumes "s \<le> kMaxSequenceNumber"
  shows "ParseInternalKey (InternalKey uk s t) = Some \<lparr>pk_user_key = uk, pk_sequence = s, pk_type = t\<rparr>"
  using Pack_parts [OF assms, of t]
  by (cases t) (simp_all add: ParseInternalKey_def Let_def InternalKey_bytes)

lemma icmp_sel [simp]:
  "Compare (InternalKeyComparator u) = internal_Compare u"
  "FindShortestSeparator (InternalKeyComparator u) = internal_FindShortestSeparator u"
  "FindShortSuccessor (InternalKeyComparator u) = internal_FindShortSuccessor u"
  by (simp_all add: InternalKeyComparator_def)

lemma Compare_bytewise [simp]: "Compare BytewiseComparator = slice_compare"
  by (simp add: BytewiseComparator_def)

text \<open>
  the order of internal keys. Internal keys are compared by the bytes of the user key
  and then by sequence number and type, the newer one first; two keys compare as equal only
  when they are the same; and \<^verbatim>\<open>ParseInternalKey\<close> takes an internal key apart into what
  it was made from.
\<close>
theorem internal_key_order:
  assumes "s \<le> kMaxSequenceNumber" "s' \<le> kMaxSequenceNumber"
  shows "(Compare (InternalKeyComparator BytewiseComparator) (InternalKey a s t) (InternalKey b s' t') < 0 \<longleftrightarrow>
      lex_less a b \<or> a = b \<and> (s' < s \<or> s' = s \<and> type_byte t' < type_byte t)) \<and>
    (Compare (InternalKeyComparator BytewiseComparator) (InternalKey a s t) (InternalKey b s' t') = 0 \<longleftrightarrow>
      a = b \<and> s = s' \<and> t = t') \<and>
    ParseInternalKey (InternalKey a s t) = Some \<lparr>pk_user_key = a, pk_sequence = s, pk_type = t\<rparr>"
  using Pack_less [OF assms(2,1), of t' t] Pack_inj [OF assms, of t t'] Parse_InternalKey [OF assms(1)]
  by (simp add: bytewise.internal_less bytewise.internal_eq slice_compare_lex)

theorem internal_key_order_witness:
  "Compare (InternalKeyComparator BytewiseComparator) (InternalKey [97] 7 kTypeValue)
     (InternalKey [97] 4 kTypeDeletion) < 0 \<and>
   ParseInternalKey (InternalKey [97] 7 kTypeValue) =
     Some \<lparr>pk_user_key = [97], pk_sequence = 7, pk_type = kTypeValue\<rparr>"
  using internal_key_order [of 7 4 "[97]" kTypeValue "[97]" kTypeDeletion]
  by (simp add: kMaxSequenceNumber_def)

text \<open>
  The keys of an index. Between two internal keys \<^verbatim>\<open>FindShortestSeparator\<close> gives a key
  not below the first and below the second, \<^verbatim>\<open>FindShortSuccessor\<close> one not below its argument,
  and neither is longer than the key it replaces; so a search in an index of such keys
  finds the block that holds a key.
\<close>
theorem index_keys_separate:
  assumes "8 \<le> length start" "8 \<le> length limit"
    and "Compare (InternalKeyComparator BytewiseComparator) start limit < 0"
  shows "(let icmp = InternalKeyComparator BytewiseComparator;
      sep = FindShortestSeparator icmp start limit; succ = FindShortSuccessor icmp start
    in Compare icmp start sep \<le> 0 \<and> Compare icmp sep limit < 0 \<and> 8 \<le> length sep \<and> length sep \<le> length start \<and>
       Compare icmp start succ \<le> 0 \<and> 8 \<le> length succ \<and> length succ \<le> length start)"
  using bytewise.internal_sep_between [of start limit] bytewise.internal_succ_above [of start] assms
  by (simp add: Let_def)

theorem index_keys_separate_witness:
  "(let icmp = InternalKeyComparator BytewiseComparator;
      start = InternalKey [97, 98, 99] 7 kTypeValue; limit = InternalKey [120] 9 kTypeValue;
      sep = FindShortestSeparator icmp start limit
    in sep = InternalKey [98] kMaxSequenceNumber kTypeValue \<and>
       Compare icmp start sep \<le> 0 \<and> Compare icmp sep limit < 0)"
proof -
  let ?a = "InternalKey [97, 98, 99] 7 kTypeValue" and ?b = "InternalKey [120] 9 kTypeValue"
  have "FindShortestSeparator (InternalKeyComparator BytewiseComparator) ?a ?b =
      InternalKey [98] kMaxSequenceNumber kTypeValue"
  proof -
    have "diff_index_loop [97, 98, 99] [120] 1 0 = 0" by (subst diff_index_loop.simps) simp
    then have "FindShortestSeparator BytewiseComparator [97, 98, 99] [120] = [98]"
      by (simp add: BytewiseComparator_def bytewise_FindShortestSeparator_def Let_def)
    then show ?thesis
      by (simp add: internal_FindShortestSeparator_def Let_def slice_compare_def kValueTypeForSeek_def
          InternalKey_bytes [of "[98]"] PutFixed64_def)
  qed
  moreover have "Compare (InternalKeyComparator BytewiseComparator) ?a ?b < 0"
    by (simp add: bytewise.internal_less slice_compare_def)
  ultimately show ?thesis using index_keys_separate [of ?a ?b] by (simp add: Let_def)
qed

end
