(* ===== verification/Ldb_Skiplist_Props.thy ===== *)
theory Ldb_Skiplist_Props
  imports Ldb_Skiplist "HOL-Library.Multiset"
begin

unbundle bit_operations_syntax

text \<open>
  Correctness of the skip list. The invariant \<open>sl_inv\<close> says that the nodes stand in one
  strictly sorted order and that the links of every level run through exactly the nodes that
  are high enough, in that order. The searches are followed from any position that the
  invariant allows (\<open>find_ge\<close>, \<open>find_lt\<close>, \<open>find_last\<close>), and an insertion
  puts the new node in its place (\<open>Insert_inv\<close>).
\<close>

section \<open>Links\<close>

abbreviation key_at :: "'k skiplist \<Rightarrow> nat \<Rightarrow> 'k" where
  "key_at sl n \<equiv> node_key (sl_nodes sl ! n)"

abbreviation height_at :: "'k skiplist \<Rightarrow> nat \<Rightarrow> nat" where
  "height_at sl n \<equiv> length (node_next (sl_nodes sl ! n))"

text \<open>Following the links of level \<open>i\<close> from \<open>x\<close> visits \<open>ys\<close> and then ends.\<close>

fun chain :: "'k skiplist \<Rightarrow> nat \<Rightarrow> nat \<Rightarrow> nat list \<Rightarrow> bool" where
  "chain sl i x [] \<longleftrightarrow> node_Next sl x i = None"
| "chain sl i x (y # ys) \<longleftrightarrow> node_Next sl x i = Some y \<and> chain sl i y ys"

text \<open>It visits \<open>ys\<close> and may go on.\<close>

fun segment :: "'k skiplist \<Rightarrow> nat \<Rightarrow> nat \<Rightarrow> nat list \<Rightarrow> bool" where
  "segment sl i x [] \<longleftrightarrow> True"
| "segment sl i x (y # ys) \<longleftrightarrow> node_Next sl x i = Some y \<and> segment sl i y ys"

lemma chain_append: "chain sl i x (as @ bs) \<longleftrightarrow> segment sl i x as \<and> chain sl i (last (x # as)) bs"
  by (induction as arbitrary: x) auto

lemma chain_first: "chain sl i x ys \<Longrightarrow> node_Next sl x i = (case ys of [] \<Rightarrow> None | y # _ \<Rightarrow> Some y)"
  by (cases ys) auto

lemma chain_moved:
  assumes "chain sl i x ys" "node_Next sl' x' i = node_Next sl x i"
    and "\<And>y. y \<in> set ys \<Longrightarrow> node_Next sl' y i = node_Next sl y i"
  shows "chain sl' i x' ys"
  using assms by (induction ys arbitrary: x x') auto

lemma segment_cong:
  assumes "segment sl i x ys" "\<And>y. y \<in> set (butlast (x # ys)) \<Longrightarrow> node_Next sl' y i = node_Next sl y i"
  shows "segment sl' i x ys"
  using assms
proof (induction ys arbitrary: x)
  case (Cons y ys)
  then have "segment sl' i y ys" by (intro Cons.IH) auto
  with Cons.prems show ?case by simp
qed simp

section \<open>The invariant\<close>

text \<open>The nodes of level \<open>i\<close> among \<open>xs\<close>.\<close>

abbreviation level_of :: "'k skiplist \<Rightarrow> nat \<Rightarrow> nat list \<Rightarrow> nat list" where
  "level_of sl i xs \<equiv> filter (\<lambda>n. i < height_at sl n) xs"

definition sl_inv :: "'k compare \<Rightarrow> 'k skiplist \<Rightarrow> nat list \<Rightarrow> bool" where
  "sl_inv cmp sl xs \<longleftrightarrow>
     distinct (head_node # xs) \<and> set (head_node # xs) = {..<length (sl_nodes sl)} \<and>
     height_at sl head_node = kMaxHeight \<and> 1 \<le> max_height sl \<and> max_height sl \<le> kMaxHeight \<and>
     (\<forall>n\<in>set xs. 1 \<le> height_at sl n \<and> height_at sl n \<le> max_height sl) \<and>
     sorted_wrt (\<lambda>a b. cmp (key_at sl a) (key_at sl b) < 0) xs \<and>
     (\<forall>i<kMaxHeight. chain sl i head_node (level_of sl i xs))"

lemma sl_invD:
  assumes "sl_inv cmp sl xs"
  shows "distinct xs" "head_node \<notin> set xs" "\<And>n. n \<in> set (head_node # xs) \<Longrightarrow> n < length (sl_nodes sl)"
    "height_at sl head_node = kMaxHeight" "1 \<le> max_height sl" "max_height sl \<le> kMaxHeight"
    "\<And>n. n \<in> set xs \<Longrightarrow> 1 \<le> height_at sl n" "\<And>n. n \<in> set xs \<Longrightarrow> height_at sl n \<le> max_height sl"
    "sorted_wrt (\<lambda>a b. cmp (key_at sl a) (key_at sl b) < 0) xs"
    "\<And>i. i < kMaxHeight \<Longrightarrow> chain sl i head_node (level_of sl i xs)"
  using assms unfolding sl_inv_def by auto

text \<open>The keys of the list, read along the bottom level.\<close>

primrec walk :: "'k skiplist \<Rightarrow> nat \<Rightarrow> nat option \<Rightarrow> 'k list" where
  "walk sl 0 n = []"
| "walk sl (Suc k) n = (if iter_Valid n then iter_key sl n # walk sl k (iter_Next sl n) else [])"

definition sl_keys :: "'k skiplist \<Rightarrow> 'k list" where
  "sl_keys sl = walk sl (length (sl_nodes sl)) (iter_SeekToFirst sl)"

lemma walk_chain:
  "chain sl 0 x ys \<Longrightarrow> length ys \<le> k \<Longrightarrow> walk sl k (node_Next sl x 0) = map (key_at sl) ys"
proof (induction ys arbitrary: x k)
  case Nil
  then show ?case by (cases k) (auto simp: iter_Valid_def)
next
  case (Cons y ys)
  then show ?case by (cases k) (auto simp: iter_Valid_def iter_key_def iter_Next_def)
qed

lemma level_0: "sl_inv cmp sl xs \<Longrightarrow> set ys \<subseteq> set xs \<Longrightarrow> level_of sl 0 ys = ys"
  by (intro filter_True) (auto dest: sl_invD(7))

lemma sl_inv_length: "sl_inv cmp sl xs \<Longrightarrow> length (sl_nodes sl) = Suc (length xs)"
  unfolding sl_inv_def by (metis card_lessThan distinct_card length_Cons)

lemma sl_keys_inv:
  assumes "sl_inv cmp sl xs"
  shows "sl_keys sl = map (key_at sl) xs"
proof -
  have "chain sl 0 head_node xs"
    using sl_invD(10) [OF assms, of 0] level_0 [OF assms, of xs] by (simp add: kMaxHeight_def)
  then show ?thesis
    unfolding sl_keys_def iter_SeekToFirst_def by (intro walk_chain) (simp_all add: sl_inv_length [OF assms])
qed

section \<open>Positions of a search\<close>

text \<open>
  A search at \<open>x\<close> on level \<open>i\<close>: it has passed the nodes \<open>as\<close>, the last of which is \<open>x\<close>, and
  \<open>bs\<close> are to come.
\<close>

definition search_at :: "'k skiplist \<Rightarrow> nat list \<Rightarrow> nat \<Rightarrow> nat \<Rightarrow> nat list \<Rightarrow> nat list \<Rightarrow> bool" where
  "search_at sl xs i x as bs \<longleftrightarrow> xs = as @ bs \<and> x = last (head_node # as) \<and> i < height_at sl x"

lemma search_at_next:
  assumes inv: "sl_inv cmp sl xs" and at: "search_at sl xs i x as bs" and i: "i < kMaxHeight"
  shows "node_Next sl x i = (case level_of sl i bs of [] \<Rightarrow> None | y # _ \<Rightarrow> Some y)"
    and "last (head_node # level_of sl i as) = x"
proof -
  have "x = head_node \<and> as = [] \<or> (\<exists>cs. as = cs @ [x])"
    using at by (cases as rule: rev_cases) (auto simp: search_at_def)
  then show l: "last (head_node # level_of sl i as) = x"
  proof (elim disjE exE)
    fix cs assume "as = cs @ [x]"
    then show ?thesis using at by (simp add: search_at_def)
  qed simp
  have "chain sl i head_node (level_of sl i as @ level_of sl i bs)"
    using sl_invD(10) [OF inv i] at by (simp add: search_at_def)
  then show "node_Next sl x i = (case level_of sl i bs of [] \<Rightarrow> None | y # _ \<Rightarrow> Some y)"
    unfolding chain_append l by (blast dest: chain_first)
qed

lemma search_at_right:
  assumes "search_at sl xs i x as bs" "level_of sl i bs = y # ys"
  obtains ps cs where "bs = ps @ y # cs" "level_of sl i ps = []" "search_at sl xs i y (as @ ps @ [y]) cs"
proof -
  obtain ps cs where "bs = ps @ y # cs" "\<forall>p\<in>set ps. \<not> i < height_at sl p" "i < height_at sl y"
    using assms(2) by (auto dest!: filter_eq_ConsD)
  with assms(1) that show ?thesis by (auto simp: search_at_def)
qed

lemma search_at_down: "search_at sl xs i x as bs \<Longrightarrow> search_at sl xs (i - 1) x as bs"
  by (auto simp: search_at_def)

lemma search_at_start: "sl_inv cmp sl xs \<Longrightarrow> search_at sl xs (max_height sl - 1) head_node [] xs"
  using sl_invD(4,5,6) [of cmp sl xs] by (auto simp: search_at_def)

text \<open>
  The three searches go right while the next node has a property \<open>P\<close> that holds up to some
  place in the order, and then down: this is their induction.
\<close>

lemma filter_takeWhile_empty:
  assumes "filter Q bs = [] \<or> \<not> P (hd (filter Q bs))"
  shows "filter Q (takeWhile P bs) = []"
  using assms
proof (induction bs)
  case (Cons b bs)
  then show ?case by (cases "Q b") auto
qed simp

lemma takeWhile_passed: "\<forall>a\<in>set as. P a \<Longrightarrow> takeWhile P (as @ bs) = as @ takeWhile P bs"
  by (simp add: takeWhile_append)

lemma search_induct [consumes 4, case_names right down bottom]:
  assumes inv: "sl_inv cmp sl xs" and closed: "sorted_wrt (\<lambda>a b. P b \<longrightarrow> P a) xs"
    and start: "search_at sl xs i x as bs" "i < kMaxHeight \<and> (\<forall>a\<in>set as. P a)"
    and right: "\<And>i x y. i < kMaxHeight \<Longrightarrow> node_Next sl x i = Some y \<Longrightarrow> P y \<Longrightarrow> Q i y \<Longrightarrow> Q i x"
    and down: "\<And>i x. 0 < i \<Longrightarrow> i < kMaxHeight \<Longrightarrow> (\<And>y. node_Next sl x i = Some y \<Longrightarrow> \<not> P y) \<Longrightarrow>
      x = last (head_node # level_of sl i (takeWhile P xs)) \<Longrightarrow> Q (i - 1) x \<Longrightarrow> Q i x"
    and bottom: "\<And>x. (\<And>y. node_Next sl x 0 = Some y \<Longrightarrow> \<not> P y) \<Longrightarrow>
      x = last (head_node # takeWhile P xs) \<Longrightarrow>
      node_Next sl x 0 = (case dropWhile P xs of [] \<Rightarrow> None | y # _ \<Rightarrow> Some y) \<Longrightarrow> Q 0 x"
  shows "Q i x"
  using start
proof (induction "length bs + i" arbitrary: i x as bs rule: less_induct)
  case less
  note at = less.prems(1) and i = less.prems(2)
  have xs: "xs = as @ bs" using at by (simp add: search_at_def)
  note nxt = search_at_next(1) [OF inv at conjunct1 [OF i]]
  show ?case
  proof (cases "\<exists>y ys. level_of sl i bs = y # ys \<and> P y")
    case True
    then obtain y ys where y: "level_of sl i bs = y # ys" "P y" by blast
    obtain ps cs where bs: "bs = ps @ y # cs" and at': "search_at sl xs i y (as @ ps @ [y]) cs"
      using search_at_right [OF at y(1)] by metis
    have "\<forall>p\<in>set ps. P p" using closed y(2) unfolding xs bs by (simp add: sorted_wrt_append)
    with i y have "Q i y" by (intro less.hyps [OF _ at']) (auto simp: bs)
    with right [of i x y] nxt y i show ?thesis by simp
  next
    case False
    then have stop: "\<not> P y" if "node_Next sl x i = Some y" for y
      using that nxt by (auto split: list.splits)
    have "level_of sl i (takeWhile P bs) = []"
      using False by (intro filter_takeWhile_empty) (cases "level_of sl i bs"; auto)
    then have x: "x = last (head_node # level_of sl i (takeWhile P xs))"
      using i search_at_next(2) [OF inv at conjunct1 [OF i]] by (simp add: xs takeWhile_passed)
    show ?thesis
    proof (cases "i = 0")
      case True
      have l0: "level_of sl 0 ys = ys" if "set ys \<subseteq> set xs" for ys using level_0 [OF inv that] .
      have bs: "level_of sl 0 bs = bs" by (rule l0) (simp add: xs)
      have "takeWhile P bs = []" "dropWhile P bs = bs" using False True bs by (cases bs; simp)+
      then have "takeWhile P xs = as" "dropWhile P xs = bs"
        using i unfolding xs by (simp_all add: takeWhile_append dropWhile_append)
      moreover have "x = last (head_node # as)" using at by (simp add: search_at_def)
      ultimately have "x = last (head_node # takeWhile P xs)" "dropWhile P xs = bs" by simp_all
      then show ?thesis using bottom [of x] stop nxt True bs by simp
    next
      case False
      have "Q (i - 1) x" using False i by (intro less.hyps [OF _ search_at_down [OF at]]) auto
      then show ?thesis using down [of i x] False i stop x by simp
    qed
  qed
qed

section \<open>The searches\<close>

abbreviation is_below :: "'k compare \<Rightarrow> 'k skiplist \<Rightarrow> 'k \<Rightarrow> nat \<Rightarrow> bool" where
  "is_below cmp sl key n \<equiv> cmp (key_at sl n) key < 0"

definition first_of :: "nat list \<Rightarrow> nat option" where
  "first_of ys = (case ys of [] \<Rightarrow> None | y # _ \<Rightarrow> Some y)"

text \<open>The last node before \<open>key\<close> on level \<open>i\<close>.\<close>

definition before :: "'k compare \<Rightarrow> 'k skiplist \<Rightarrow> nat list \<Rightarrow> 'k \<Rightarrow> nat \<Rightarrow> nat" where
  "before cmp sl xs key i = last (head_node # level_of sl i (takeWhile (is_below cmp sl key) xs))"

definition fill_prev :: "(nat \<Rightarrow> nat) \<Rightarrow> nat \<Rightarrow> nat option list \<Rightarrow> nat option list" where
  "fill_prev f i p = map (\<lambda>j. if j \<le> i then Some (f j) else p ! j) [0..<length p]"

lemma fill_prev_0: "fill_prev f 0 p = p[0 := Some (f 0)]"
  by (rule nth_equalityI) (auto simp: fill_prev_def nth_list_update)

lemma fill_prev_step: "0 < i \<Longrightarrow> fill_prev f (i - 1) (p[i := Some (f i)]) = fill_prev f i p"
  by (rule nth_equalityI) (auto simp: fill_prev_def nth_list_update)

lemma first_of_nxt: "(case ys of [] \<Rightarrow> None | y # _ \<Rightarrow> Some y) = first_of ys"
  by (simp add: first_of_def)

context key_order
begin

definition keys_ok :: "'k skiplist \<Rightarrow> nat list \<Rightarrow> bool" where
  "keys_ok sl xs \<longleftrightarrow> (\<forall>n\<in>set xs. ok (key_at sl n))"

lemma below_closed:
  assumes "sl_inv cmp sl xs" "keys_ok sl xs" "ok key"
  shows "sorted_wrt (\<lambda>a b. is_below cmp sl key b \<longrightarrow> is_below cmp sl key a) xs"
proof (rule sorted_wrt_mono_rel [OF _ sl_invD(9) [OF assms(1)]])
  fix a b assume "a \<in> set xs" "b \<in> set xs" "cmp (key_at sl a) (key_at sl b) < 0"
  then show "is_below cmp sl key b \<longrightarrow> is_below cmp sl key a"
    using cmp_less_le [of "key_at sl a" "key_at sl b" key] assms(2,3) by (auto simp: keys_ok_def)
qed

lemma not_after:
  assumes "\<And>y. n = Some y \<Longrightarrow> \<not> is_below cmp sl key y"
  shows "\<not> KeyIsAfterNode cmp sl key n"
  using assms by (cases n) (auto simp: KeyIsAfterNode_def)

lemma find_ge:
  assumes "sl_inv cmp sl xs" "keys_ok sl xs" "ok key"
  shows "FindGreaterOrEqual cmp sl key prev =
    Some (first_of (dropWhile (is_below cmp sl key) xs),
          map_option (fill_prev (before cmp sl xs key) (max_height sl - 1)) prev)"
proof -
  let ?P = "is_below cmp sl key"
  define Q where "Q i x \<longleftrightarrow> (\<forall>prev. FindGreaterOrEqual_loop cmp sl key x i prev =
    Some (first_of (dropWhile ?P xs), map_option (fill_prev (before cmp sl xs key) i) prev))" for i x
  have "max_height sl - 1 < kMaxHeight \<and> (\<forall>a\<in>set []. ?P a)"
    using sl_invD(5,6) [OF assms(1)] by auto
  with assms(1) below_closed [OF assms] search_at_start [OF assms(1)] have "Q (max_height sl - 1) head_node"
  proof (induction rule: search_induct)
    case (right i x y)
    then have "KeyIsAfterNode cmp sl key (node_Next sl x i)" by (simp add: KeyIsAfterNode_def)
    then show ?case
      using right by (simp add: Q_def FindGreaterOrEqual_loop.simps [of _ _ _ x i])
  next
    case (down i x)
    have "\<not> KeyIsAfterNode cmp sl key (node_Next sl x i)" using down(3) by (rule not_after)
    then have step: "FindGreaterOrEqual_loop cmp sl key x i p =
        FindGreaterOrEqual_loop cmp sl key x (i - 1) (map_option (\<lambda>p. p[i := Some x]) p)" for p
      using down(1) by (simp add: FindGreaterOrEqual_loop.simps [of _ _ _ x i])
    have x: "before cmp sl xs key i = x" unfolding before_def by (rule down(4) [symmetric])
    have "fill_prev (before cmp sl xs key) (i - 1) (p[i := Some x]) = fill_prev (before cmp sl xs key) i p" for p
      using fill_prev_step [OF down(1), of "before cmp sl xs key" p] unfolding x .
    then show ?case using down(5) unfolding Q_def step by (simp add: option.map_comp o_def)
  next
    case (bottom x)
    have "set (takeWhile ?P xs) \<subseteq> set xs" by (auto dest: set_takeWhileD)
    note l0 = level_0 [OF assms(1) this]
    have x: "before cmp sl xs key 0 = x" unfolding before_def l0 by (rule bottom(2) [symmetric])
    have "\<not> KeyIsAfterNode cmp sl key (node_Next sl x 0)" using bottom(1) by (rule not_after)
    then have "FindGreaterOrEqual_loop cmp sl key x 0 p =
        Some (node_Next sl x 0, map_option (\<lambda>p. p[0 := Some x]) p)" for p
      by (simp add: FindGreaterOrEqual_loop.simps [of _ _ _ x 0])
    then show ?case unfolding Q_def bottom(3) first_of_nxt fill_prev_0 x by simp
  qed
  then show ?thesis by (simp add: Q_def FindGreaterOrEqual_def)
qed

lemma find_lt:
  assumes "sl_inv cmp sl xs" "keys_ok sl xs" "ok key"
  shows "FindLessThan cmp sl key = Some (last (head_node # takeWhile (is_below cmp sl key) xs))"
proof -
  let ?P = "is_below cmp sl key"
  define Q where "Q i x \<longleftrightarrow> FindLessThan_loop cmp sl key x i = Some (last (head_node # takeWhile ?P xs))" for i x
  have "max_height sl - 1 < kMaxHeight \<and> (\<forall>a\<in>set []. ?P a)"
    using sl_invD(5,6) [OF assms(1)] by auto
  with assms(1) below_closed [OF assms] search_at_start [OF assms(1)] have "Q (max_height sl - 1) head_node"
  proof (induction rule: search_induct)
    case (right i x y)
    then show ?case by (simp add: Q_def FindLessThan_loop.simps [of _ _ _ x i])
  next
    case (down i x)
    from down(1,3,5) show ?case
      by (cases "node_Next sl x i") (simp_all add: Q_def FindLessThan_loop.simps [of _ _ _ x i] not_less)
  next
    case (bottom x)
    from bottom(1) have "FindLessThan_loop cmp sl key x 0 = Some x"
      by (cases "node_Next sl x 0") (simp_all add: FindLessThan_loop.simps [of _ _ _ x 0] not_less)
    then show ?case unfolding Q_def bottom(2) [symmetric] .
  qed
  then show ?thesis by (simp add: Q_def FindLessThan_def)
qed

end

lemma find_last:
  assumes "sl_inv cmp sl xs"
  shows "FindLast sl = Some (last (head_node # xs))"
proof -
  define P :: "nat \<Rightarrow> bool" where "P n = True" for n
  define Q where "Q i x \<longleftrightarrow> FindLast_loop sl x i = Some (last (head_node # xs))" for i x
  have closed: "sorted_wrt (\<lambda>a b. P b \<longrightarrow> P a) xs" by (induction xs) (auto simp: P_def)
  have "max_height sl - 1 < kMaxHeight \<and> (\<forall>a\<in>set []. P a)"
    using sl_invD(5,6) [OF assms] by auto
  with assms closed search_at_start [OF assms] have "Q (max_height sl - 1) head_node"
  proof (induction rule: search_induct)
    case (right i x y)
    then show ?case by (simp add: Q_def FindLast_loop.simps [of _ x i])
  next
    case (down i x)
    from down(3) have "node_Next sl x i = None" by (cases "node_Next sl x i") (auto simp: P_def)
    with down(1,5) show ?case by (simp add: Q_def FindLast_loop.simps [of _ x i])
  next
    case (bottom x)
    from bottom(1) have "node_Next sl x 0 = None" by (cases "node_Next sl x 0") (auto simp: P_def)
    then have "FindLast_loop sl x 0 = Some x" by (simp add: FindLast_loop.simps [of _ x 0])
    moreover have "takeWhile P xs = xs" by (simp add: P_def takeWhile_eq_all_conv)
    ultimately show ?case unfolding Q_def using bottom(2) by (simp only:)
  qed
  then show ?thesis by (simp add: Q_def FindLast_def)
qed

section \<open>Insertion\<close>

lemma SetNext_node:
  "sl_nodes (SetNext sl x n v) ! y =
     (if x < length (sl_nodes sl) \<and> x = y
      then (sl_nodes sl ! x)\<lparr>node_next := (node_next (sl_nodes sl ! x))[n := v]\<rparr> else sl_nodes sl ! y)"
  by (cases "x < length (sl_nodes sl)") (simp_all add: SetNext_def nth_list_update list_update_beyond not_less)

lemma SetNext_other [simp]:
  "key_at (SetNext sl x n v) y = key_at sl y" "height_at (SetNext sl x n v) y = height_at sl y"
  "length (sl_nodes (SetNext sl x n v)) = length (sl_nodes sl)" "max_height (SetNext sl x n v) = max_height sl"
  by (simp_all add: SetNext_node) (simp_all add: SetNext_def)

lemma SetNext_Next:
  assumes "x < length (sl_nodes sl)" "n < height_at sl x"
  shows "node_Next (SetNext sl x n v) y i = (if y = x \<and> i = n then v else node_Next sl y i)"
  using assms by (auto simp: SetNext_node node_Next_def)

lemma link_level_other [simp]:
  "key_at (link_level x prev i sl) y = key_at sl y" "height_at (link_level x prev i sl) y = height_at sl y"
  "length (sl_nodes (link_level x prev i sl)) = length (sl_nodes sl)"
  "max_height (link_level x prev i sl) = max_height sl"
  by (simp_all add: link_level_def Let_def)

lemma link_levels_other [simp]:
  "key_at (fold (link_level x prev) is sl) y = key_at sl y"
  "height_at (fold (link_level x prev) is sl) y = height_at sl y"
  "length (sl_nodes (fold (link_level x prev) is sl)) = length (sl_nodes sl)"
  "max_height (fold (link_level x prev) is sl) = max_height sl"
  by (induction "is" arbitrary: sl) simp_all

text \<open>The links after the new node \<open>x\<close> has been put behind the node \<open>p i\<close> on each level below \<open>k\<close>.\<close>

lemma link_levels_Next:
  assumes "\<And>i. i < k \<Longrightarrow> prev ! i = Some (p i) \<and> p i < length (sl_nodes sl) \<and> i < height_at sl (p i) \<and> p i \<noteq> x"
    and "x < length (sl_nodes sl)" "k \<le> height_at sl x"
  shows "node_Next (fold (link_level x prev) [0..<k] sl) y i =
    (if i < k then if y = x then node_Next sl (p i) i else if y = p i then Some x else node_Next sl y i
     else node_Next sl y i)"
  using assms
proof (induction k arbitrary: i y)
  case (Suc k)
  let ?s = "fold (link_level x prev) [0..<k] sl"
  have IH: "node_Next ?s y i =
    (if i < k then if y = x then node_Next sl (p i) i else if y = p i then Some x else node_Next sl y i
     else node_Next sl y i)" for y i
    using Suc.prems by (intro Suc.IH) auto
  have p: "prev ! k = Some (p k)" "p k < length (sl_nodes sl)" "k < height_at sl (p k)" "p k \<noteq> x"
    using Suc.prems(1) [of k] by auto
  have "k < height_at sl x" using Suc.prems(3) by simp
  then have "node_Next (link_level x prev k ?s) y i =
      (if y = p k \<and> i = k then Some x else if y = x \<and> i = k then node_Next ?s (p k) k else node_Next ?s y i)"
    using p Suc.prems(2) by (simp add: link_level_def Let_def SetNext_Next)
  then show ?case using p by (auto simp: IH less_Suc_eq)
qed simp

lemma RandomHeight_range:
  assumes "RandomHeight sl = (h, sl')"
  shows "1 \<le> h \<and> h \<le> kMaxHeight" "sl_nodes sl' = sl_nodes sl" "max_height sl' = max_height sl"
proof -
  have loop: "h0 \<le> fst (RandomHeight_loop h0 s) \<and> fst (RandomHeight_loop h0 s) \<le> kMaxHeight"
    if "h0 \<le> kMaxHeight" for h0 s
    using that by (induction h0 s rule: RandomHeight_loop.induct)
      (subst (1 2) RandomHeight_loop.simps, fastforce simp: Let_def)
  show "1 \<le> h \<and> h \<le> kMaxHeight"
    using loop [of 1 "rnd sl"] assms by (auto simp: RandomHeight_def kMaxHeight_def split: prod.splits)
  show "sl_nodes sl' = sl_nodes sl" "max_height sl' = max_height sl"
    using assms by (auto simp: RandomHeight_def split: prod.splits)
qed

lemma fold_fill:
  "i < length p \<Longrightarrow> (fold (\<lambda>i p. p[i := Some v]) [a..<b] p) ! i = (if a \<le> i \<and> i < b then Some v else p ! i)"
proof (induction b)
  case (Suc b)
  have "length (fold (\<lambda>i p. p[i := Some v]) is q) = length q" for "is" q
    by (induction "is" arbitrary: q) auto
  then show ?case using Suc by (cases "a \<le> b") (auto simp: nth_list_update less_Suc_eq)
qed simp

text \<open>The list with a node of height \<open>h\<close> linked behind the nodes \<open>prev\<close>.\<close>

definition linked :: "'k skiplist \<Rightarrow> 'k \<Rightarrow> nat \<Rightarrow> nat option list \<Rightarrow> 'k skiplist" where
  "linked sl key h prev =
     (case NewNode sl key h of (x, sl1) \<Rightarrow> fold (link_level x prev) [0..<h] sl1)"

lemma last_in: "last (x # ys) \<in> set (x # ys)"
  by (metis last_in_set list.distinct(1))

lemma linked_nodes:
  assumes "n < length (sl_nodes sl)"
  shows "key_at (linked sl key h prev) n = key_at sl n" "height_at (linked sl key h prev) n = height_at sl n"
  using assms by (simp_all add: linked_def NewNode_def nth_append)

lemma linked_new [simp]:
  "key_at (linked sl key h prev) (length (sl_nodes sl)) = key"
  "height_at (linked sl key h prev) (length (sl_nodes sl)) = h"
  "length (sl_nodes (linked sl key h prev)) = Suc (length (sl_nodes sl))"
  "max_height (linked sl key h prev) = max_height sl"
  by (simp_all add: linked_def NewNode_def)

lemma linked_Next:
  assumes prev: "\<And>i. i < h \<Longrightarrow> prev ! i = Some (b i) \<and> b i < length (sl_nodes sl) \<and> i < height_at sl (b i)"
    and y: "y < length (sl_nodes sl)"
  shows "node_Next (linked sl key h prev) y i =
      (if i < h \<and> y = b i then Some (length (sl_nodes sl)) else node_Next sl y i)"
    and "i < h \<Longrightarrow> node_Next (linked sl key h prev) (length (sl_nodes sl)) i = node_Next sl (b i) i"
proof -
  let ?N = "length (sl_nodes sl)" and ?s = "snd (NewNode sl key h)"
  have old: "node_Next ?s z j = node_Next sl z j" if "z < ?N" for z j
    using that by (simp add: NewNode_def node_Next_def nth_append)
  have l: "node_Next (linked sl key h prev) z i =
    (if i < h then if z = ?N then node_Next ?s (b i) i else if z = b i then Some ?N else node_Next ?s z i
     else node_Next ?s z i)" for z
  proof -
    have "node_Next (fold (link_level ?N prev) [0..<h] ?s) z i =
      (if i < h then if z = ?N then node_Next ?s (b i) i else if z = b i then Some ?N else node_Next ?s z i
       else node_Next ?s z i)"
      by (rule link_levels_Next) (use prev in \<open>fastforce simp: NewNode_def nth_append\<close>)+
    then show ?thesis by (simp add: linked_def NewNode_def)
  qed
  show "node_Next (linked sl key h prev) y i =
      (if i < h \<and> y = b i then Some ?N else node_Next sl y i)"
    using y by (simp add: l old)
  show "i < h \<Longrightarrow> node_Next (linked sl key h prev) ?N i = node_Next sl (b i) i"
    using prev [of i] by (simp add: l old)
qed

lemma linked_chain:
  fixes sl :: "'k skiplist" and key :: 'k
  assumes inv: "sl_inv cmp sl (lo @ hi)" and i: "i < kMaxHeight"
    and prev: "\<And>i. i < h \<Longrightarrow> prev ! i = Some (last (head_node # level_of sl i lo))" and h: "h \<le> kMaxHeight"
  defines "sl' \<equiv> linked sl key h prev" and "N \<equiv> length (sl_nodes sl)"
  shows "chain sl' i head_node (level_of sl' i (lo @ N # hi))"
proof -
  define b where "b j = last (head_node # level_of sl j lo)" for j
  have mem: "n < N" if "n \<in> set (head_node # lo @ hi)" for n using sl_invD(3) [OF inv] that by (simp add: N_def)
  have b_mem: "b j \<in> set (head_node # level_of sl j lo)" for j unfolding b_def by (rule last_in)
  have prev': "prev ! j = Some (b j) \<and> b j < length (sl_nodes sl) \<and> j < height_at sl (b j)" if "j < h" for j
    using that prev [OF that] b_mem [of j] mem [of "b j"] sl_invD(4) [OF inv] h by (auto simp: b_def N_def)
  have lev: "level_of sl' i ys = level_of sl i ys" if "set ys \<subseteq> set (lo @ hi)" for ys
    using that mem by (intro filter_cong) (auto simp: sl'_def N_def linked_nodes)
  have nxt: "node_Next sl' y j = (if j < h \<and> y = b j then Some N else node_Next sl y j)"
    if "y \<in> set (head_node # lo @ hi)" for y j
    unfolding sl'_def N_def using prev' mem [OF that] by (intro linked_Next(1)) (auto simp: N_def)
  have ch: "segment sl i head_node (level_of sl i lo)" "chain sl i (b i) (level_of sl i hi)"
    using sl_invD(10) [OF inv i] by (simp_all add: chain_append b_def)
  have dist: "distinct (head_node # level_of sl i lo @ level_of sl i hi)"
    using sl_invD(1,2) [OF inv] by auto
  have seg: "segment sl' i head_node (level_of sl i lo)"
  proof (rule segment_cong [OF ch(1)])
    fix y assume y: "y \<in> set (butlast (head_node # level_of sl i lo))"
    then have "y \<noteq> b i" using dist unfolding b_def
      by (metis append_butlast_last_id append_Cons distinct_append distinct_butlast last.simps list.distinct(1) not_distinct_conv_prefix)
    moreover have "y \<in> set (head_node # lo @ hi)" using in_set_butlastD [OF y] by auto
    ultimately show "node_Next sl' y i = node_Next sl y i" by (simp add: nxt)
  qed
  have after: "node_Next sl' y i = node_Next sl y i" if "y \<in> set (level_of sl i hi)" for y
  proof -
    have "y \<noteq> b i" using that b_mem [of i] dist by auto
    then show ?thesis using that by (simp add: nxt)
  qed
  have b_in: "b i \<in> set (head_node # lo @ hi)" using b_mem [of i] by auto
  show ?thesis
  proof (cases "i < h")
    case True
    have "chain sl' i N (level_of sl i hi)"
      using linked_Next(2) [of h prev b sl _ i, OF prev'] True mem [of head_node]
      by (intro chain_moved [OF ch(2)]) (auto simp: sl'_def N_def after [unfolded sl'_def])
    moreover have "node_Next sl' (b i) i = Some N" using True by (simp add: nxt [OF b_in])
    moreover have "level_of sl' i (lo @ N # hi) = level_of sl i lo @ N # level_of sl i hi"
      using True lev [of lo] lev [of hi] by (simp add: sl'_def N_def)
    ultimately show ?thesis using seg by (simp only: chain_append b_def [symmetric] chain.simps)
  next
    case False
    have "chain sl' i (b i) (level_of sl i hi)"
      using False by (intro chain_moved [OF ch(2)]) (auto simp: after nxt [OF b_in])
    with False seg show ?thesis
      by (simp add: lev chain_append b_def) (simp add: sl'_def N_def)
  qed
qed

lemma sl_inv_cong:
  assumes "sl_nodes sl' = sl_nodes sl" "1 \<le> max_height sl'" "max_height sl' \<le> kMaxHeight" "max_height sl \<le> max_height sl'"
  shows "sl_inv cmp sl xs \<Longrightarrow> sl_inv cmp sl' xs"
proof -
  have nx: "node_Next sl' x i = node_Next sl x i" for x i using assms(1) by (simp add: node_Next_def)
  have "chain sl' i x ys = chain sl i x ys" for i x ys by (induction ys arbitrary: x) (simp_all add: nx)
  then show "sl_inv cmp sl xs \<Longrightarrow> sl_inv cmp sl' xs"
    using assms by (fastforce simp: sl_inv_def)
qed

context key_order
begin

lemma split_at:
  assumes "sl_inv cmp sl xs" "keys_ok sl xs" "ok key"
  shows "n \<in> set (takeWhile (is_below cmp sl key) xs) \<Longrightarrow> is_below cmp sl key n"
    and "n \<in> set (dropWhile (is_below cmp sl key) xs) \<Longrightarrow> \<not> is_below cmp sl key n"
proof -
  let ?P = "is_below cmp sl key"
  show "n \<in> set (takeWhile ?P xs) \<Longrightarrow> ?P n" by (rule set_takeWhileD [THEN conjunct2])
  assume n: "n \<in> set (dropWhile ?P xs)"
  then obtain y ys where ys: "dropWhile ?P xs = y # ys" by (cases "dropWhile ?P xs") auto
  then have "\<not> ?P y" using hd_dropWhile [of ?P xs] by simp
  moreover have "sorted_wrt (\<lambda>a b. ?P b \<longrightarrow> ?P a) (y # ys)"
  proof -
    have "sorted_wrt (\<lambda>a b. ?P b \<longrightarrow> ?P a) (takeWhile ?P xs @ dropWhile ?P xs)"
      using below_closed [OF assms] by simp
    then show ?thesis unfolding sorted_wrt_append ys by blast
  qed
  ultimately show "\<not> ?P n" using n ys by auto
qed

lemma linked_inv:
  assumes inv: "sl_inv cmp sl xs" and kok: "keys_ok sl xs" "ok key"
    and new: "\<And>n. n \<in> set xs \<Longrightarrow> cmp (key_at sl n) key \<noteq> 0"
    and prev: "\<And>i. i < h \<Longrightarrow> prev ! i = Some (before cmp sl xs key i)" and h: "1 \<le> h" "h \<le> max_height sl"
  defines "lo \<equiv> takeWhile (is_below cmp sl key) xs" and "hi \<equiv> dropWhile (is_below cmp sl key) xs"
    and "sl' \<equiv> linked sl key h prev" and "N \<equiv> length (sl_nodes sl)"
  shows "sl_inv cmp sl' (lo @ N # hi)"
proof -
  have xs: "lo @ hi = xs" by (simp add: lo_def hi_def)
  have sets: "distinct (head_node # lo @ hi)" "set (head_node # lo @ hi) = {..<N}"
    using inv unfolding xs N_def by (simp_all add: sl_inv_def)
  have same: "key_at sl' n = key_at sl n" "height_at sl' n = height_at sl n" if "n \<in> set (head_node # xs)" for n
    using that sets xs by (auto simp: sl'_def N_def intro!: linked_nodes)
  have N: "key_at sl' N = key" "height_at sl' N = h" "max_height sl' = max_height sl"
    "length (sl_nodes sl') = Suc N" by (simp_all add: sl'_def N_def)
  have "n < N" if "n \<in> set (head_node # lo @ hi)" for n using sets(2) that by blast
  then have "distinct (head_node # lo @ N # hi)" "set (head_node # lo @ N # hi) = {..<Suc N}"
    using sets by (fastforce simp: lessThan_Suc)+
  moreover have "sorted_wrt (\<lambda>a b. cmp (key_at sl' a) (key_at sl' b) < 0) (lo @ N # hi)"
  proof -
    have "sorted_wrt (\<lambda>a b. cmp (key_at sl' a) (key_at sl' b) < 0) (lo @ hi)"
      using sl_invD(9) [OF inv] unfolding xs
      by (rule sorted_wrt_mono_rel [rotated]) (simp add: same)
    moreover have "cmp (key_at sl' a) key < 0" if "a \<in> set lo" for a
    proof -
      have "a \<in> set xs" using that xs by auto
      then show ?thesis using split_at(1) [OF inv kok that [unfolded lo_def]] same [of a] by simp
    qed
    moreover have "cmp key (key_at sl' a) < 0" if "a \<in> set hi" for a
    proof -
      have "a \<in> set xs" using that xs by auto
      moreover have "\<not> is_below cmp sl key a" by (rule split_at(2) [OF inv kok that [unfolded hi_def]])
      ultimately show ?thesis
        using new [of a] cmp_swap [of key "key_at sl a"] kok same [of a] by (auto simp: keys_ok_def)
    qed
    ultimately show ?thesis using N(1) by (simp add: sorted_wrt_append)
  qed
  moreover have "chain sl' i head_node (level_of sl' i (lo @ N # hi))" if "i < kMaxHeight" for i
    unfolding sl'_def N_def using inv prev h sl_invD(6) [OF inv] xs
    by (intro linked_chain [OF _ that]) (auto simp: before_def lo_def)
  moreover have "1 \<le> height_at sl' n \<and> height_at sl' n \<le> max_height sl'" if "n \<in> set (lo @ N # hi)" for n
  proof (cases "n = N")
    case False
    then have "n \<in> set xs" using that xs by auto
    then show ?thesis using sl_invD(7,8) [OF inv] same [of n] N(3) by simp
  qed (use N h in simp)
  ultimately show ?thesis
    using sl_invD(4,5,6) [OF inv] same [of head_node] N by (simp add: sl_inv_def)
qed

theorem Insert_inv:
  assumes inv: "sl_inv cmp sl xs" and kok: "keys_ok sl xs" "ok key"
    and new: "\<And>n. n \<in> set xs \<Longrightarrow> cmp (key_at sl n) key \<noteq> 0"
  obtains sl' ys where "Insert cmp sl key = Some sl'" "sl_inv cmp sl' ys" "keys_ok sl' ys"
    "map (key_at sl') ys = takeWhile (\<lambda>k. cmp k key < 0) (map (key_at sl) xs) @ key #
       dropWhile (\<lambda>k. cmp k key < 0) (map (key_at sl) xs)"
proof -
  let ?P = "is_below cmp sl key"
  obtain h sl1 where rh: "RandomHeight sl = (h, sl1)" by fastforce
  note r = RandomHeight_range [OF rh]
  define sl2 where "sl2 = (if max_height sl1 < h then sl1\<lparr>max_height := h\<rparr> else sl1)"
  define p where "p = fill_prev (before cmp sl xs key) (max_height sl - 1) (replicate kMaxHeight None)"
  define prev where "prev = fold (\<lambda>i p. p[i := Some head_node]) [max_height sl1..<h] p"
  let ?N = "length (sl_nodes sl)" and ?s = "linked sl2 key h prev"
  let ?ys = "takeWhile ?P xs @ ?N # dropWhile ?P xs"
  have n2: "sl_nodes sl2 = sl_nodes sl" "max_height sl2 = max (max_height sl) h"
    using r by (auto simp: sl2_def)
  have inv2: "sl_inv cmp sl2 xs"
    using inv n2 r(1) sl_invD(5,6) [OF inv] by (intro sl_inv_cong [of sl2 sl]) auto
  have before2: "before cmp sl2 xs key = before cmp sl xs key" using n2(1) by (simp add: before_def fun_eq_iff)
  have prev: "prev ! i = Some (before cmp sl2 xs key i)" if "i < h" for i
  proof -
    have "before cmp sl xs key i = head_node" if "max_height sl \<le> i"
    proof -
      have "\<not> i < height_at sl n" if "n \<in> set (takeWhile ?P xs)" for n
        using that sl_invD(8) [OF inv, of n] \<open>max_height sl \<le> i\<close> by (auto dest: set_takeWhileD)
      then have "level_of sl i (takeWhile ?P xs) = []" by (simp add: filter_empty_conv)
      then show ?thesis by (simp add: before_def)
    qed
    moreover have "i < kMaxHeight" using that r(1) by simp
    ultimately show ?thesis
      using that sl_invD(5) [OF inv] r(3) unfolding prev_def before2
      by (subst fold_fill) (auto simp: p_def fill_prev_def)
  qed
  have "Insert cmp sl key = Some ?s"
    by (simp add: Insert_def find_ge [OF inv kok] rh Let_def linked_def sl2_def [symmetric] prev_def p_def
        NewNode_def)
  moreover have "sl_inv cmp ?s ?ys"
    using linked_inv [OF inv2 _ kok(2) _ prev] n2 kok(1) new r(1) by (simp add: keys_ok_def)
  moreover have same: "key_at ?s n = key_at sl n" if "n \<in> set xs" for n
    using that sl_invD(3) [OF inv] n2(1) linked_nodes(1) [of n sl2] by simp
  moreover have new_key: "key_at ?s ?N = key" using linked_new(1) [of sl2] n2(1) by simp
  moreover have "keys_ok ?s ?ys"
    using kok same new_key by (auto simp: keys_ok_def dest!: set_takeWhileD set_dropWhileD)
  moreover have "map (key_at ?s) ?ys = takeWhile (\<lambda>k. cmp k key < 0) (map (key_at sl) xs) @ key #
      dropWhile (\<lambda>k. cmp k key < 0) (map (key_at sl) xs)"
    using same new_key by (simp add: takeWhile_map dropWhile_map comp_def) (auto dest: set_takeWhileD set_dropWhileD)
  ultimately show thesis using that by blast
qed

end

section \<open>The list of keys\<close>

lemma SkipList_nodes:
  "SkipList k = \<lparr>sl_nodes = [\<lparr>node_key = k, node_next = replicate kMaxHeight None\<rparr>], max_height = 1,
     rnd = Random 0xDEADBEEF\<rparr>"
proof -
  have "fold (\<lambda>i sl. SetNext sl head_node i None) [0..<j]
      \<lparr>sl_nodes = [\<lparr>node_key = k, node_next = replicate kMaxHeight v\<rparr>], max_height = 1, rnd = r\<rparr> =
    \<lparr>sl_nodes = [\<lparr>node_key = k, node_next = replicate j None @ replicate (kMaxHeight - j) v\<rparr>], max_height = 1,
     rnd = r\<rparr>" if "j \<le> kMaxHeight" for j v r
    using that
  proof (induction j)
    case (Suc j)
    then have "(replicate j None @ replicate (kMaxHeight - j) v)[j := None] =
        replicate (Suc j) None @ replicate (kMaxHeight - Suc j) v"
      by (intro nth_equalityI) (auto simp: nth_append nth_list_update less_Suc_eq simp del: replicate_Suc)
    with Suc show ?case by (simp add: SetNext_def head_node_def)
  qed simp
  from this [of kMaxHeight] show ?thesis by (simp add: SkipList_def NewNode_def Let_def)
qed

lemma SkipList_inv: "sl_inv cmp (SkipList k) []"
  by (auto simp: sl_inv_def SkipList_nodes head_node_def node_Next_def kMaxHeight_def)

text \<open>Insertion into a sorted list.\<close>

definition ins_key :: "'k compare \<Rightarrow> 'k \<Rightarrow> 'k list \<Rightarrow> 'k list" where
  "ins_key cmp k ks = takeWhile (\<lambda>x. cmp x k < 0) ks @ k # dropWhile (\<lambda>x. cmp x k < 0) ks"

lemma set_ins_key [simp]: "set (ins_key cmp k ks) = insert k (set ks)"
proof -
  have "set ks = set (takeWhile (\<lambda>x. cmp x k < 0) ks) \<union> set (dropWhile (\<lambda>x. cmp x k < 0) ks)"
    by (metis set_append takeWhile_dropWhile_id)
  then show ?thesis by (auto simp: ins_key_def)
qed

lemma mset_ins_key [simp]: "mset (ins_key cmp k ks) = add_mset k (mset ks)"
proof -
  have "mset ks = mset (takeWhile (\<lambda>x. cmp x k < 0) ks) + mset (dropWhile (\<lambda>x. cmp x k < 0) ks)"
    by (metis mset_append takeWhile_dropWhile_id)
  then show ?thesis by (simp add: ins_key_def)
qed

definition first_key :: "'k list \<Rightarrow> 'k option" where
  "first_key ks = (case ks of [] \<Rightarrow> None | k # _ \<Rightarrow> Some k)"

definition last_key :: "'k list \<Rightarrow> 'k option" where
  "last_key ks = (if ks = [] then None else Some (last ks))"

lemma first_of_key: "map_option f (first_of ys) = first_key (map f ys)"
  by (cases ys) (simp_all add: first_of_def first_key_def)

lemma first_of_case: "(case first_of ys of None \<Rightarrow> d | Some n \<Rightarrow> f n) = (case ys of [] \<Rightarrow> d | n # _ \<Rightarrow> f n)"
  by (cases ys) (simp_all add: first_of_def)

lemma or_null_last:
  assumes "head_node \<notin> set ys"
  shows "map_option f (or_null (last (head_node # ys))) = last_key (map f ys)"
proof (cases ys rule: rev_cases)
  case (snoc zs z)
  with assms show ?thesis by (auto simp: or_null_def last_key_def)
qed (simp add: or_null_def last_key_def)

context key_order
begin

text \<open>The list holds the keys \<open>ks\<close>, in this order.\<close>

definition holds :: "'k skiplist \<Rightarrow> 'k list \<Rightarrow> bool" where
  "holds sl ks \<longleftrightarrow> (\<exists>xs. sl_inv cmp sl xs \<and> keys_ok sl xs \<and> map (key_at sl) xs = ks)"

lemma holds_SkipList: "holds (SkipList k0) []"
  using SkipList_inv by (auto simp: holds_def keys_ok_def)

lemma holdsD:
  assumes "holds sl ks"
  shows "sl_keys sl = ks" "sorted_wrt (\<lambda>a b. cmp a b < 0) ks" "\<forall>k\<in>set ks. ok k"
proof -
  obtain xs where xs: "sl_inv cmp sl xs" "keys_ok sl xs" "map (key_at sl) xs = ks"
    using assms by (auto simp: holds_def)
  show "sl_keys sl = ks" using sl_keys_inv [OF xs(1)] xs(3) by simp
  show "sorted_wrt (\<lambda>a b. cmp a b < 0) ks" using sl_invD(9) [OF xs(1)] xs(3) by (auto simp: sorted_wrt_map)
  show "\<forall>k\<in>set ks. ok k" using xs(2,3) by (auto simp: keys_ok_def)
qed

lemma holds_Insert:
  assumes "holds sl ks" "ok k" "\<forall>x\<in>set ks. cmp x k \<noteq> 0"
  obtains sl' where "Insert cmp sl k = Some sl'" "holds sl' (ins_key cmp k ks)"
proof -
  obtain xs where xs: "sl_inv cmp sl xs" "keys_ok sl xs" "map (key_at sl) xs = ks"
    using assms(1) by (auto simp: holds_def)
  have "cmp (key_at sl n) k \<noteq> 0" if "n \<in> set xs" for n using assms(3) that xs(3) [symmetric] by simp
  then obtain sl' ys where
    "Insert cmp sl k = Some sl'" "sl_inv cmp sl' ys" "keys_ok sl' ys" "map (key_at sl') ys = ins_key cmp k ks"
    using Insert_inv [OF xs(1,2) assms(2)] unfolding ins_key_def xs(3) by blast
  then show thesis using that by (auto simp: holds_def)
qed

lemma holds_Seek:
  assumes "holds sl ks" "ok k"
  shows "map_option (map_option (key_at sl)) (iter_Seek cmp sl k) =
    Some (first_key (dropWhile (\<lambda>x. cmp x k < 0) ks))"
proof -
  obtain xs where xs: "sl_inv cmp sl xs" "keys_ok sl xs" "map (key_at sl) xs = ks"
    using assms(1) by (auto simp: holds_def)
  show ?thesis
    unfolding xs(3) [symmetric]
    by (simp add: iter_Seek_def find_ge [OF xs(1,2) assms(2)] first_of_key dropWhile_map comp_def)
qed

lemma holds_Contains:
  assumes "holds sl ks" "ok k"
  shows "Contains cmp sl k = Some (\<exists>x\<in>set ks. cmp k x = 0)"
proof -
  obtain xs where xs: "sl_inv cmp sl xs" "keys_ok sl xs" "map (key_at sl) xs = ks"
    using assms(1) by (auto simp: holds_def)
  let ?P = "is_below cmp sl k"
  have eq: "Contains cmp sl k =
      Some (case dropWhile ?P xs of [] \<Rightarrow> False | n # _ \<Rightarrow> cmp k (key_at sl n) = 0)"
    unfolding Contains_def find_ge [OF xs(1,2) assms(2)] by (simp add: first_of_case)
  have ok: "ok (key_at sl n)" if "n \<in> set xs" for n using xs(2) that by (simp add: keys_ok_def)
  have "(case dropWhile ?P xs of [] \<Rightarrow> False | n # _ \<Rightarrow> cmp k (key_at sl n) = 0) \<longleftrightarrow>
      (\<exists>n\<in>set xs. cmp k (key_at sl n) = 0)"
  proof (rule iffI)
    assume "case dropWhile ?P xs of [] \<Rightarrow> False | n # _ \<Rightarrow> cmp k (key_at sl n) = 0"
    then show "\<exists>n\<in>set xs. cmp k (key_at sl n) = 0"
      using set_dropWhileD [of _ ?P xs] by (force split: list.splits)
  next
    assume "\<exists>n\<in>set xs. cmp k (key_at sl n) = 0"
    then obtain n where n: "n \<in> set xs" "cmp k (key_at sl n) = 0" by blast
    then have n0: "cmp (key_at sl n) k = 0" using cmp_eq_sym ok assms(2) by blast
    then have nin: "n \<in> set (dropWhile ?P xs)"
      using n(1) split_at(1) [OF xs(1,2) assms(2), of n]
      by (metis Un_iff less_irrefl set_append takeWhile_dropWhile_id)
    then obtain m ms where m: "dropWhile ?P xs = m # ms" by (cases "dropWhile ?P xs") auto
    have mx: "m \<in> set xs" using set_dropWhileD [of m ?P xs] m by auto
    have "cmp (key_at sl m) k \<le> 0"
    proof (cases "n = m")
      case False
      then have "n \<in> set ms" using nin m by simp
      moreover have "sorted_wrt (\<lambda>a b. cmp (key_at sl a) (key_at sl b) < 0) (takeWhile ?P xs @ m # ms)"
        using sl_invD(9) [OF xs(1)] m by (metis takeWhile_dropWhile_id)
      ultimately have "cmp (key_at sl m) (key_at sl n) < 0" by (auto simp: sorted_wrt_append)
      then show ?thesis using cmp_less_le [OF ok [OF mx] ok [OF n(1)] assms(2)] n0 by simp
    qed (use n0 in simp)
    moreover have "\<not> ?P m" by (rule split_at(2) [OF xs(1,2) assms(2)]) (simp add: m)
    ultimately have "cmp k (key_at sl m) = 0"
      using cmp_eq_sym [OF ok [OF mx] assms(2)] by force
    then show "case dropWhile ?P xs of [] \<Rightarrow> False | n # _ \<Rightarrow> cmp k (key_at sl n) = 0" using m by simp
  qed
  then show ?thesis unfolding eq xs(3) [symmetric] by simp
qed

lemma holds_last:
  assumes "holds sl ks"
  shows "map_option (map_option (key_at sl)) (iter_SeekToLast sl) = Some (last_key ks)"
proof -
  obtain xs where xs: "sl_inv cmp sl xs" "map (key_at sl) xs = ks"
    using assms by (auto simp: holds_def)
  show ?thesis
    unfolding iter_SeekToLast_def find_last [OF xs(1)] option.map or_null_last [OF sl_invD(2) [OF xs(1)]] xs(2) ..
qed

lemma holds_Prev:
  assumes "holds sl ks" "ok (iter_key sl n)"
  shows "map_option (map_option (key_at sl)) (iter_Prev cmp sl n) =
    Some (last_key (takeWhile (\<lambda>x. cmp x (iter_key sl n) < 0) ks))"
proof -
  obtain xs where xs: "sl_inv cmp sl xs" "keys_ok sl xs" "map (key_at sl) xs = ks"
    using assms(1) by (auto simp: holds_def)
  have "head_node \<notin> set (takeWhile (is_below cmp sl (iter_key sl n)) xs)"
    using sl_invD(2) [OF xs(1)] by (auto dest: set_takeWhileD)
  note o = or_null_last [OF this]
  show ?thesis
    unfolding iter_Prev_def iter_key_def [symmetric] find_lt [OF xs(1,2) assms(2)] option.map o
    using xs(3) by (auto simp: takeWhile_map comp_def)
qed

end

section \<open>Properties\<close>

primrec Insert_all :: "'k compare \<Rightarrow> 'k skiplist \<Rightarrow> 'k list \<Rightarrow> 'k skiplist option" where
  "Insert_all cmp sl [] = Some sl"
| "Insert_all cmp sl (k # ks) = Option.bind (Insert cmp sl k) (\<lambda>sl1. Insert_all cmp sl1 ks)"

context key_order
begin

lemma holds_Insert_all:
  assumes "holds sl ks0" "\<forall>k\<in>set ks. ok k" "\<forall>x\<in>set ks0. \<forall>k\<in>set ks. cmp x k \<noteq> 0"
    and "sorted_wrt (\<lambda>a b. cmp a b \<noteq> 0) ks"
  shows "\<exists>sl'. Insert_all cmp sl ks = Some sl' \<and> holds sl' (fold (ins_key cmp) ks ks0)"
  using assms
proof (induction ks arbitrary: sl ks0)
  case (Cons k ks)
  then obtain sl1 where sl1: "Insert cmp sl k = Some sl1" "holds sl1 (ins_key cmp k ks0)"
    using holds_Insert [of sl ks0 k] by (metis list.set_intros(1))
  with Cons show ?case by simp
qed simp

end

lemma mset_fold_ins: "mset (fold (ins_key cmp) ks ks0) = mset ks + mset ks0"
  by (induction ks arbitrary: ks0) auto

text \<open>
  C31: the skip list is a sorted list. Whatever heights its nodes draw, keys that are inserted
  one after the other, no two of which compare as equal, end up in the list strictly
  sorted and without loss; a membership test and a seek find exactly what is there; the last
  entry and the entry before another one are found by searching. All searches end.
\<close>
theorem skiplist_refines_sorted_list:
  assumes "key_order cmp ok" "\<forall>k\<in>set ks. ok k" "sorted_wrt (\<lambda>a b. cmp a b \<noteq> 0) ks"
  shows "\<exists>sl. Insert_all cmp (SkipList k0) ks = Some sl \<and> sl_keys sl = fold (ins_key cmp) ks [] \<and>
    mset (sl_keys sl) = mset ks \<and> sorted_wrt (\<lambda>a b. cmp a b < 0) (sl_keys sl) \<and>
    (\<forall>k. ok k \<longrightarrow> Contains cmp sl k = Some (\<exists>x\<in>set ks. cmp k x = 0) \<and>
       map_option (map_option (key_at sl)) (iter_Seek cmp sl k) =
         Some (first_key (dropWhile (\<lambda>x. cmp x k < 0) (sl_keys sl)))) \<and>
    map_option (map_option (key_at sl)) (iter_SeekToLast sl) = Some (last_key (sl_keys sl)) \<and>
    (\<forall>n. ok (iter_key sl n) \<longrightarrow> map_option (map_option (key_at sl)) (iter_Prev cmp sl n) =
       Some (last_key (takeWhile (\<lambda>x. cmp x (iter_key sl n) < 0) (sl_keys sl))))"
proof -
  note o = assms(1)
  obtain sl where sl: "Insert_all cmp (SkipList k0) ks = Some sl"
    and h: "key_order.holds cmp ok sl (fold (ins_key cmp) ks [])"
    using key_order.holds_Insert_all [OF o key_order.holds_SkipList [OF o] assms(2) _ assms(3)] by auto
  have keys: "sl_keys sl = fold (ins_key cmp) ks []" by (rule key_order.holdsD(1) [OF o h])
  have m: "mset (fold (ins_key cmp) ks []) = mset ks" by (simp add: mset_fold_ins)
  then have s: "set (fold (ins_key cmp) ks []) = set ks" by (rule mset_eq_setD)
  show ?thesis
    using sl keys m key_order.holdsD(2) [OF o h] key_order.holds_Contains [OF o h]
      key_order.holds_Seek [OF o h] key_order.holds_last [OF o h] key_order.holds_Prev [OF o h]
    unfolding s by (intro exI [of _ sl]) simp
qed

theorem skiplist_refines_sorted_list_witness:
  "\<exists>sl. Insert_all slice_compare (SkipList []) [[98], [97], [99, 1]] = Some sl \<and>
     sl_keys sl = [[97], [98], [99, 1]] \<and> Contains slice_compare sl [98] = Some True"
proof -
  have "key_order slice_compare (\<lambda>_. True)" using bytewise.key_order_axioms by simp
  from skiplist_refines_sorted_list [OF this, of "[[98], [97], [99, 1]]" "[]"]
  show ?thesis by (auto simp: slice_compare_def ins_key_def)
qed

lemma lehmer_step:
  fixes s :: nat
  assumes "0 < s" "s < 2147483647"
  defines "p \<equiv> 16807 * s"
  shows "p div 2 ^ 31 + p mod 2 ^ 31 \<noteq> 2147483647" "p div 2 ^ 31 + p mod 2 ^ 31 < 2 * 2147483647"
    "(p div 2 ^ 31 + p mod 2 ^ 31) mod 2147483647 = p mod 2147483647" "p mod 2147483647 \<noteq> 0"
proof -
  have "(2 ^ 31 :: nat) = Suc 2147483647" by simp
  then have "p = 2147483647 * (p div 2 ^ 31) + (p div 2 ^ 31 + p mod 2 ^ 31)"
    using mult_div_mod_eq [of "2 ^ 31" p] by simp
  then show m: "(p div 2 ^ 31 + p mod 2 ^ 31) mod 2147483647 = p mod 2147483647"
    by (metis mod_mult_self4)
  have "coprime (16807 :: nat) 2147483647" by (simp add: coprime_iff_gcd_eq_1 gcd_non_0_nat)
  then have "\<not> 2147483647 dvd p"
    using assms(1,2) unfolding p_def
    by (metis coprime_commute coprime_dvd_mult_right_iff dvd_imp_le leD)
  then show "p mod 2147483647 \<noteq> 0" by (simp add: dvd_eq_mod_eq_0)
  with m show "p div 2 ^ 31 + p mod 2 ^ 31 \<noteq> 2147483647" by (metis mod_self)
  have "p < 2 ^ 31 * 16807" using assms(2) by (simp add: p_def)
  then have "p div 2 ^ 31 < 16807" by (simp only: less_mult_imp_div_less mult.commute)
  moreover have "p mod 2 ^ 31 < 2 ^ 31" by simp
  ultimately show "p div 2 ^ 31 + p mod 2 ^ 31 < 2 * 2147483647" by simp
qed

text \<open>
  The random numbers. The shifts and additions of \<^verbatim>\<open>Next\<close> compute
  \<open>seed * 16807 mod (2\<^sup>3\<^sup>1 - 1)\<close> without overflow, and the seed stays in the range from 1 to
  \<open>2\<^sup>3\<^sup>1 - 2\<close>, where the constructor puts it, so that it is never stuck at zero.
\<close>
theorem random_is_lehmer:
  assumes "0 < seed" "seed < 2147483647"
  shows "unat (Random_Next seed) = 16807 * unat seed mod 2147483647 \<and>
    0 < Random_Next seed \<and> Random_Next seed < 2147483647 \<and> 0 < Random s \<and> Random s < 2147483647"
proof -
  let ?p = "16807 * unat seed" and ?M = "2147483647 :: nat"
  let ?sum = "?p div 2 ^ 31 + ?p mod 2 ^ 31"
  have s: "0 < unat seed" "unat seed < ?M" using assms by (simp_all add: word_less_nat_alt unat_gt_0)
  note L = lehmer_step [OF s]
  have prod: "unat (ucast seed * 16807 :: u64) = ?p"
    using s by (simp add: unat_word_ariths ucast_u32_u64_unat)
  have "(0x7FFFFFFF :: u64) = mask 31" by (simp add: mask_eq_exp_minus_1)
  then have low: "unat (ucast seed * 16807 AND 0x7FFFFFFF :: u64) = ?p mod 2 ^ 31"
    by (simp only: take_bit_eq_mask [symmetric] unat_take_bit prod)
  have high: "unat (drop_bit 31 (ucast seed * 16807 :: u64)) = ?p div 2 ^ 31"
    by (simp only: unat_drop_bit prod)
  have sum: "unat (drop_bit 31 (ucast seed * 16807) + (ucast seed * 16807 AND 0x7FFFFFFF) :: u64) = ?sum"
    using high low L(2) by (subst unat_add_no_wrap) (simp_all add: high low)
  define n where "n = (ucast (drop_bit 31 (ucast seed * 16807) + (ucast seed * 16807 AND 0x7FFFFFFF) :: u64) :: u32)"
  have "n = of_nat ?sum" unfolding n_def sum [symmetric] by simp
  moreover have "unat (of_nat ?sum :: u32) = ?sum"
    using L(2) by (simp only: unat_of_nat) (simp add: take_bit_nat_eq_self)
  ultimately have n: "unat n = ?sum" by simp
  have next_n: "Random_Next seed = (if 2147483647 < n then n - 2147483647 else n)"
    by (simp add: Random_Next_def Let_def n_def)
  have u: "unat (Random_Next seed) = (if ?M < ?sum then ?sum - ?M else ?sum)"
    unfolding next_n using n by (auto simp: word_less_nat_alt unat_sub_if')
  also have "\<dots> = ?sum mod ?M"
  proof (cases "?M < ?sum")
    case True
    then have "?sum mod ?M = (?sum - ?M) mod ?M" by (simp only: le_mod_geq less_imp_le)
    also have "\<dots> = ?sum - ?M" using L(2) True by (intro mod_less) linarith
    finally show ?thesis using True by (simp only: if_True)
  next
    case False
    with L(1) have "?sum < ?M" by linarith
    with False show ?thesis by (simp only: if_False mod_less)
  qed
  finally have v: "unat (Random_Next seed) = ?p mod ?M" using L(3) by simp
  then have r: "0 < unat (Random_Next seed)" "unat (Random_Next seed) < ?M" using L(4) by simp_all
  have "Random s < 2147483647 \<and> 0 < Random s"
  proof -
    have "s AND 0x7FFFFFFF \<le> 0x7FFFFFFF" by (rule word_and_le1)
    then show ?thesis
      by (auto simp: Random_def Let_def word_neq_0_conv [symmetric] intro: le_neq_trans)
  qed
  with v r show ?thesis by (simp add: word_less_nat_alt unat_gt_0)
qed

theorem random_is_lehmer_witness:
  "unat (Random_Next 1) = 16807 \<and> 0 < Random_Next (Random 0xDEADBEEF)"
  using random_is_lehmer [of 1] random_is_lehmer [of "Random 0xDEADBEEF"] by (simp add: Random_def)

end
