(* ===== verification/Ldb_Memtable.thy ===== *)
theory Ldb_Memtable
  imports Ldb_Skiplist_Props
begin

unbundle bit_operations_syntax

text \<open>
  The memory table, \<^verbatim>\<open>leveldb-library/db/memtable.cc\<close> and \<^verbatim>\<open>memtable.h\<close>: a skip list of
  entries, each an internal key and a value with their lengths. A pointer to an entry is
  the list of its bytes. The lemmas show that a lookup at a snapshot finds the newest entry for
  a user key that is not newer than the snapshot. The memory of the arena is not modelled.
\<close>

section \<open>Entries\<close>

text \<open>
  The entry is not corrupted, by the comment in the code: at most five bytes hold the length,
  and as many bytes as it says follow. The null pointer of a bad length is not looked at.
\<close>

definition mem_GetLengthPrefixedSlice :: "byte list \<Rightarrow> slice" where
  "mem_GetLengthPrefixedSlice data =
     (case GetVarint32Ptr (take 5 data) of
        Some (len, q) \<Rightarrow> take (unat len) (drop (length (take 5 data) - length q) data)
      | None \<Rightarrow> [])"

text \<open>\<^verbatim>\<open>data + (p - data) + len\<close>: what follows a string with its length.\<close>

definition after_slice :: "byte list \<Rightarrow> byte list" where
  "after_slice data =
     (case GetVarint32Ptr (take 5 data) of
        Some (len, q) \<Rightarrow> drop (unat len) (drop (length (take 5 data) - length q) data)
      | None \<Rightarrow> [])"

definition mem_compare :: "comparator \<Rightarrow> byte list \<Rightarrow> byte list \<Rightarrow> int" where
  "mem_compare user aptr bptr =
     (let a = mem_GetLengthPrefixedSlice aptr; b = mem_GetLengthPrefixedSlice bptr
      in Compare (InternalKeyComparator user) a b)"

definition EncodeKey :: "slice \<Rightarrow> byte list" where
  "EncodeKey target = PutVarint32 [] (of_nat (length target)) @ target"

section \<open>MemTable\<close>

record memtable =
  mt_refs :: int
  mt_table :: "byte list skiplist"

definition MemTable :: memtable where
  "MemTable = \<lparr>mt_refs = 0, mt_table = SkipList []\<rparr>"

definition mem_Ref :: "memtable \<Rightarrow> memtable" where
  "mem_Ref m = m\<lparr>mt_refs := mt_refs m + 1\<rparr>"

text \<open>Nothing is left when the table deletes itself.\<close>

definition mem_Unref :: "memtable \<Rightarrow> memtable option" where
  "mem_Unref m =
     (let m1 = m\<lparr>mt_refs := mt_refs m - 1\<rparr> in if mt_refs m1 \<le> 0 then None else Some m1)"

definition mem_entry :: "SequenceNumber \<Rightarrow> ValueType \<Rightarrow> slice \<Rightarrow> slice \<Rightarrow> byte list" where
  "mem_entry s type key value =
     (let internal_key_size = length key + 8; val_size = length value
      in EncodeVarint32 (of_nat internal_key_size) @ key @
         EncodeFixed64 (push_bit 8 s OR ucast (type_byte type)) @
         EncodeVarint32 (of_nat val_size) @ value)"

text \<open>The space asked of the arena.\<close>

definition encoded_len :: "slice \<Rightarrow> slice \<Rightarrow> int" where
  "encoded_len key value =
     (let internal_key_size = length key + 8; val_size = length value
      in VarintLength (of_nat internal_key_size) + int internal_key_size +
         VarintLength (of_nat val_size) + int val_size)"

definition mem_Add ::
  "comparator \<Rightarrow> memtable \<Rightarrow> SequenceNumber \<Rightarrow> ValueType \<Rightarrow> slice \<Rightarrow> slice \<Rightarrow> memtable option" where
  "mem_Add user m s type key value =
     map_option (\<lambda>t. m\<lparr>mt_table := t\<rparr>) (Insert (mem_compare user) (mt_table m) (mem_entry s type key value))"

text \<open>
  What \<^verbatim>\<open>Get\<close> returns, with the value and the status if it stores them. The result is in an
  option because the search might not end.
\<close>

type_synonym get_result = "bool \<times> byte list option \<times> status option"

definition mem_Get :: "comparator \<Rightarrow> memtable \<Rightarrow> LookupKey \<Rightarrow> get_result option" where
  "mem_Get user m key =
     Option.bind (iter_Seek (mem_compare user) (mt_table m) (memtable_key key)) (\<lambda>iter.
       Some
         (if iter_Valid iter then
            let entry = iter_key (mt_table m) iter;
                ikey = mem_GetLengthPrefixedSlice entry
            in
            if Compare user (take (length ikey - 8) ikey) (lookup_user_key key) = 0 then
              let c = ucast (key_tag ikey AND 0xFF) :: byte
              in if c = type_byte kTypeValue then (True, Some (mem_GetLengthPrefixedSlice (after_slice entry)), None)
                 else if c = type_byte kTypeDeletion then (True, None, Some (NotFound [] []))
                 else (False, None, None)
            else (False, None, None)
          else (False, None, None)))"

subsection \<open>MemTableIterator\<close>

definition mem_iter_Seek :: "comparator \<Rightarrow> memtable \<Rightarrow> slice \<Rightarrow> nat option option" where
  "mem_iter_Seek user m k = iter_Seek (mem_compare user) (mt_table m) (EncodeKey k)"

definition mem_iter_SeekToFirst :: "memtable \<Rightarrow> nat option" where
  "mem_iter_SeekToFirst m = iter_SeekToFirst (mt_table m)"

definition mem_iter_SeekToLast :: "memtable \<Rightarrow> nat option option" where
  "mem_iter_SeekToLast m = iter_SeekToLast (mt_table m)"

definition mem_iter_Next :: "memtable \<Rightarrow> nat option \<Rightarrow> nat option" where
  "mem_iter_Next m n = iter_Next (mt_table m) n"

definition mem_iter_Prev :: "comparator \<Rightarrow> memtable \<Rightarrow> nat option \<Rightarrow> nat option option" where
  "mem_iter_Prev user m n = iter_Prev (mem_compare user) (mt_table m) n"

definition mem_iter_key :: "memtable \<Rightarrow> nat option \<Rightarrow> slice" where
  "mem_iter_key m n = mem_GetLengthPrefixedSlice (iter_key (mt_table m) n)"

definition mem_iter_value :: "memtable \<Rightarrow> nat option \<Rightarrow> slice" where
  "mem_iter_value m n = mem_GetLengthPrefixedSlice (after_slice (iter_key (mt_table m) n))"

section \<open>Reading entries\<close>

lemma prefixed_parts:
  assumes "length k < 2 ^ 32"
  shows "mem_GetLengthPrefixedSlice (EncodeVarint32 (of_nat (length k)) @ k @ rest) = k"
    and "after_slice (EncodeVarint32 (of_nat (length k)) @ k @ rest) = rest"
proof -
  let ?e = "EncodeVarint32 (of_nat (length k))" and ?r = "k @ rest"
  have len: "length ?e \<le> 5" using length_EncodeVarint32 by blast
  have u: "unat (of_nat (length k) :: u32) = length k"
    using assms by (simp only: unat_of_nat) (simp add: take_bit_nat_eq_self)
  have "take 5 (?e @ ?r) = ?e @ take (5 - length ?e) ?r" using len by simp
  then have g: "GetVarint32Ptr (take 5 (?e @ ?r)) = Some (of_nat (length k), take (5 - length ?e) ?r)"
    by (simp only: GetVarint32_Encode)
  have d: "length (take 5 (?e @ ?r)) - length (take (5 - length ?e) ?r) = length ?e"
    using len by simp
  show "mem_GetLengthPrefixedSlice (?e @ k @ rest) = k" "after_slice (?e @ k @ rest) = rest"
    unfolding mem_GetLengthPrefixedSlice_def after_slice_def g using d u by simp_all
qed

text \<open>The sizes that an entry can hold.\<close>

definition fits :: "slice \<Rightarrow> slice \<Rightarrow> bool" where
  "fits key value \<longleftrightarrow> length key + 8 < 2 ^ 32 \<and> length value < 2 ^ 32"

lemma mem_entry_bytes:
  "mem_entry s t k v = EncodeVarint32 (of_nat (length (InternalKey k s t))) @ InternalKey k s t @
     EncodeVarint32 (of_nat (length v)) @ v"
  by (simp add: mem_entry_def Let_def InternalKey_bytes PackSequenceAndType_def)

lemma mem_entry_parts:
  assumes "fits k v"
  shows "mem_GetLengthPrefixedSlice (mem_entry s t k v) = InternalKey k s t"
    "mem_GetLengthPrefixedSlice (after_slice (mem_entry s t k v)) = v"
proof -
  have len: "length (InternalKey k s t) < 2 ^ 32" "length v < 2 ^ 32" using assms by (simp_all add: fits_def)
  show "mem_GetLengthPrefixedSlice (mem_entry s t k v) = InternalKey k s t"
    unfolding mem_entry_bytes by (rule prefixed_parts(1) [OF len(1)])
  have "mem_GetLengthPrefixedSlice (EncodeVarint32 (of_nat (length v)) @ v) = v"
    using prefixed_parts(1) [OF len(2), of "[]"] by (simp only: append_Nil2)
  then show "mem_GetLengthPrefixedSlice (after_slice (mem_entry s t k v)) = v"
    unfolding mem_entry_bytes prefixed_parts(2) [OF len(1)] .
qed

lemma encoded_len_exact:
  assumes "fits k v"
  shows "int (length (mem_entry s t k v)) = encoded_len k v"
proof -
  have "VarintLength (of_nat n) = int (length (EncodeVarint32 (of_nat n)))" if "n < 2 ^ 32" for n
  proof -
    have "ucast (of_nat n :: u32) = (of_nat n :: u64)"
      using that by (simp add: word_unat_eq_iff ucast_u32_u64_unat unat_of_nat take_bit_nat_eq_self)
    then show ?thesis by (simp add: VarintLength_eq EncodeVarint32_eq)
  qed
  from this [of "length k + 8"] this [of "length v"] assms show ?thesis
    by (simp add: mem_entry_def encoded_len_def fits_def Let_def)
qed

lemma LookupKey_parts:
  assumes "length uk + 8 < 2 ^ 32"
  shows "memtable_key (make_LookupKey uk s) = EncodeKey (InternalKey uk s kValueTypeForSeek)"
    "mem_GetLengthPrefixedSlice (memtable_key (make_LookupKey uk s)) = InternalKey uk s kValueTypeForSeek"
    "lookup_user_key (make_LookupKey uk s) = uk"
    "internal_key (make_LookupKey uk s) = InternalKey uk s kValueTypeForSeek"
proof -
  show k: "memtable_key (make_LookupKey uk s) = EncodeKey (InternalKey uk s kValueTypeForSeek)"
    by (simp add: memtable_key_def make_LookupKey_def Let_def EncodeKey_def PutVarint32_def InternalKey_bytes)
  show "mem_GetLengthPrefixedSlice (memtable_key (make_LookupKey uk s)) = InternalKey uk s kValueTypeForSeek"
    unfolding k using prefixed_parts(1) [of "InternalKey uk s kValueTypeForSeek" "[]"] assms
    by (simp add: EncodeKey_def PutVarint32_def)
  show "lookup_user_key (make_LookupKey uk s) = uk"
    "internal_key (make_LookupKey uk s) = InternalKey uk s kValueTypeForSeek"
    by (simp_all add: lookup_user_key_def internal_key_def make_LookupKey_def Let_def InternalKey_bytes)
qed

section \<open>The order of entries\<close>

abbreviation entry_ok :: "byte list \<Rightarrow> bool" where
  "entry_ok e \<equiv> 8 \<le> length (mem_GetLengthPrefixedSlice e)"

sublocale user_comparator \<subseteq> mem: key_order "mem_compare user" entry_ok
  by unfold_locales
    (auto simp: mem_compare_def Let_def intro: internal.cmp_self internal.cmp_swap [THEN iffD1]
      internal.cmp_swap [THEN iffD2] internal.cmp_trans)

section \<open>Lookups\<close>

text \<open>
  What is added to a table: the sequence number, the type, the user key and the value of
  each entry, oldest first.
\<close>

type_synonym update = "SequenceNumber \<times> ValueType \<times> slice \<times> slice"

abbreviation "up_seq u \<equiv> fst u"
abbreviation "up_type u \<equiv> fst (snd u)"
abbreviation "up_key u \<equiv> fst (snd (snd u))"
abbreviation "up_value u \<equiv> snd (snd (snd u))"

fun up_entry :: "update \<Rightarrow> byte list" where
  "up_entry (s, t, k, v) = mem_entry s t k v"

primrec mem_Add_all :: "comparator \<Rightarrow> memtable \<Rightarrow> update list \<Rightarrow> memtable option" where
  "mem_Add_all user m [] = Some m"
| "mem_Add_all user m (u # us) =
     Option.bind (mem_Add user m (up_seq u) (up_type u) (up_key u) (up_value u)) (\<lambda>m1. mem_Add_all user m1 us)"

text \<open>Updates that a table can hold: numbered upwards, and of a size that the format allows.\<close>

definition ups_ok :: "update list \<Rightarrow> bool" where
  "ups_ok us \<longleftrightarrow> sorted_wrt (<) (map up_seq us) \<and>
     (\<forall>u\<in>set us. up_seq u \<le> kMaxSequenceNumber \<and> fits (up_key u) (up_value u))"

text \<open>The updates of a user key that a reader at a snapshot may see.\<close>

definition visible :: "comparator \<Rightarrow> update list \<Rightarrow> slice \<Rightarrow> SequenceNumber \<Rightarrow> update list" where
  "visible user us uk snapshot = filter (\<lambda>u. Compare user (up_key u) uk = 0 \<and> up_seq u \<le> snapshot) us"

definition lookup_result :: "update list \<Rightarrow> get_result" where
  "lookup_result seen =
     (if seen = [] then (False, None, None)
      else case up_type (last seen) of
             kTypeValue \<Rightarrow> (True, Some (up_value (last seen)), None)
           | kTypeDeletion \<Rightarrow> (True, None, Some (NotFound [] [])))"

lemma lookup_result_last: "seen \<noteq> [] \<Longrightarrow> lookup_result [last seen] = lookup_result seen"
  by (simp add: lookup_result_def split: ValueType.split)

lemma up_entry_alt: "up_entry u = mem_entry (up_seq u) (up_type u) (up_key u) (up_value u)"
  by (cases u) auto

lemma ups_ok_distinct: "ups_ok us \<Longrightarrow> sorted_wrt (\<lambda>a b. up_seq a < up_seq b) us"
  by (simp add: ups_ok_def sorted_wrt_map)

lemma ups_ok_inj: "ups_ok us \<Longrightarrow> inj_on up_seq (set us)"
  by (simp add: ups_ok_def strict_sorted_iff distinct_map)

context user_comparator
begin

lemma entry_compare:
  assumes "fits (up_key a) (up_value a)" "fits (up_key b) (up_value b)"
  shows "mem_compare user (up_entry a) (up_entry b) =
    internal_Compare user (InternalKey (up_key a) (up_seq a) (up_type a)) (InternalKey (up_key b) (up_seq b) (up_type b))"
  using assms by (simp add: mem_compare_def Let_def up_entry_alt mem_entry_parts)

lemma entry_less:
  assumes "fits (up_key a) (up_value a)" "fits (up_key b) (up_value b)"
    and "up_seq a \<le> kMaxSequenceNumber" "up_seq b \<le> kMaxSequenceNumber" "up_seq a \<noteq> up_seq b"
  shows "mem_compare user (up_entry a) (up_entry b) < 0 \<longleftrightarrow>
    Compare user (up_key a) (up_key b) < 0 \<or> Compare user (up_key a) (up_key b) = 0 \<and> up_seq b < up_seq a"
  unfolding entry_compare [OF assms(1,2)] internal_less
  using Pack_less [OF assms(4,3)] assms(5) by auto

text \<open>The table holds exactly the updates \<open>us\<close>.\<close>

definition table_holds :: "memtable \<Rightarrow> update list \<Rightarrow> bool" where
  "table_holds m us \<longleftrightarrow> (\<exists>ks. mem.holds (mt_table m) ks \<and> set ks = up_entry ` set us)"

lemma table_holds_empty: "table_holds MemTable []"
  using mem.holds_SkipList [of "[]"] by (auto simp: table_holds_def MemTable_def)

lemma entry_ok_update: "fits (up_key u) (up_value u) \<Longrightarrow> entry_ok (up_entry u)"
  by (simp add: up_entry_alt mem_entry_parts)

lemma entry_neq:
  assumes "ups_ok us" "u \<in> set us" "w \<in> set us" "up_seq u \<noteq> up_seq w"
  shows "mem_compare user (up_entry u) (up_entry w) \<noteq> 0"
  using assms Pack_inj [of "up_seq u" "up_seq w" "up_type u" "up_type w"]
  by (auto simp: entry_compare internal_eq ups_ok_def)

lemma table_holds_Add:
  assumes "table_holds m us" "ups_ok (us @ [u])"
  obtains m' where "mem_Add user m (up_seq u) (up_type u) (up_key u) (up_value u) = Some m'"
    "table_holds m' (us @ [u])"
proof -
  obtain ks where ks: "mem.holds (mt_table m) ks" "set ks = up_entry ` set us"
    using assms(1) by (auto simp: table_holds_def)
  have "up_seq w \<noteq> up_seq u" if "w \<in> set us" for w
    using assms(2) that by (auto simp: ups_ok_def sorted_wrt_append)
  then have "\<forall>x\<in>set ks. mem_compare user x (up_entry u) \<noteq> 0"
    using ks(2) entry_neq [OF assms(2)] by auto
  moreover have "entry_ok (up_entry u)" using assms(2) by (auto simp: ups_ok_def intro!: entry_ok_update)
  ultimately obtain t where t: "Insert (mem_compare user) (mt_table m) (up_entry u) = Some t"
    and h: "mem.holds t (ins_key (mem_compare user) (up_entry u) ks)"
    using mem.holds_Insert [OF ks(1)] by metis
  have "table_holds (m\<lparr>mt_table := t\<rparr>) (us @ [u])"
    unfolding table_holds_def by (rule exI [of _ "ins_key (mem_compare user) (up_entry u) ks"]) (simp add: h ks(2))
  with t show thesis using that by (simp add: mem_Add_def up_entry_alt)
qed

lemma table_holds_Add_all:
  assumes "table_holds m us" "ups_ok (us @ ws)"
  shows "\<exists>m'. mem_Add_all user m ws = Some m' \<and> table_holds m' (us @ ws)"
  using assms
proof (induction ws arbitrary: m us)
  case (Cons w ws)
  have "ups_ok (us @ [w])" using Cons.prems(2) by (auto simp: ups_ok_def sorted_wrt_append)
  then obtain m' where "mem_Add user m (up_seq w) (up_type w) (up_key w) (up_value w) = Some m'"
    "table_holds m' (us @ [w])" using table_holds_Add Cons.prems(1) by blast
  then show ?case using Cons.IH [of m' "us @ [w]"] Cons.prems(2) by simp
qed simp

lemma below_lookup:
  assumes "fits (up_key u) (up_value u)" "up_seq u \<le> kMaxSequenceNumber"
    and "length uk + 8 < 2 ^ 32" "snapshot \<le> kMaxSequenceNumber"
  shows "mem_compare user (up_entry u) (memtable_key (make_LookupKey uk snapshot)) < 0 \<longleftrightarrow>
    Compare user (up_key u) uk < 0 \<or> Compare user (up_key u) uk = 0 \<and> snapshot < up_seq u"
proof -
  have "\<not> type_byte kTypeValue < type_byte t" for t by (cases t) auto
  then have "PackSequenceAndType snapshot kTypeValue < PackSequenceAndType (up_seq u) (up_type u) \<longleftrightarrow> snapshot < up_seq u"
    by (simp add: Pack_less [OF assms(4,2)])
  then show ?thesis
    using assms(1,3)
    by (simp add: mem_compare_def Let_def up_entry_alt mem_entry_parts LookupKey_parts(2) internal_less
        kValueTypeForSeek_def)
qed

text \<open>What \<^verbatim>\<open>Get\<close> makes of the entry that the seek finds.\<close>

lemma Get_found:
  assumes seek: "iter_Seek (mem_compare user) (mt_table m) (memtable_key (make_LookupKey uk snapshot)) = Some (Some n)"
    and n: "key_at (mt_table m) n = up_entry u" and u: "fits (up_key u) (up_value u)" "up_seq u \<le> kMaxSequenceNumber"
    and uk: "length uk + 8 < 2 ^ 32"
  shows "mem_Get user m (make_LookupKey uk snapshot) =
    Some (lookup_result (if Compare user (up_key u) uk = 0 then [u] else []))"
proof -
  let ?ik = "InternalKey (up_key u) (up_seq u) (up_type u)"
  have parts: "mem_GetLengthPrefixedSlice (up_entry u) = ?ik"
    "mem_GetLengthPrefixedSlice (after_slice (up_entry u)) = up_value u"
    "take (length ?ik - 8) ?ik = up_key u"
    using mem_entry_parts [OF u(1)] ExtractUserKey_def [of ?ik] by (simp_all add: up_entry_alt)
  have tag: "ucast (PackSequenceAndType (up_seq u) (up_type u) AND 0xFF) = type_byte (up_type u)"
    by (rule Pack_parts(2) [OF u(2)])
  show ?thesis
    unfolding mem_Get_def seek Option.bind.bind_lunit iter_key_def option.sel n parts Let_def
      LookupKey_parts(3) [OF uk] InternalKey_parts tag
    by (cases "up_type u") (simp_all add: iter_Valid_def lookup_result_def)
qed

lemma Get_nothing:
  assumes "iter_Seek (mem_compare user) (mt_table m) (memtable_key (make_LookupKey uk snapshot)) = Some None"
  shows "mem_Get user m (make_LookupKey uk snapshot) = Some (lookup_result [])"
  by (simp add: mem_Get_def assms iter_Valid_def lookup_result_def)

end

lemma first_not_below:
  assumes "sorted_wrt (\<lambda>a b. cmp a b < (0 :: int)) ks" "m \<in> set ks" "\<not> P m"
    and "\<And>e. e \<in> set ks \<Longrightarrow> cmp e m < 0 \<Longrightarrow> P e"
  shows "first_key (dropWhile P ks) = Some m"
proof -
  obtain as bs where ks: "ks = as @ m # bs" using assms(2) by (meson split_list)
  then have "\<forall>a\<in>set as. P a" using assms(1,4) by (auto simp: sorted_wrt_append)
  then show ?thesis using assms(3) by (simp add: ks dropWhile_append first_key_def)
qed

lemma first_key_in: "first_key (dropWhile P ks) = Some k \<Longrightarrow> k \<in> set ks \<and> \<not> P k"
  by (induction ks) (auto simp: first_key_def split: if_splits)

lemma last_visible:
  assumes "ups_ok us" "visible user us uk snapshot \<noteq> []"
  defines "w \<equiv> last (visible user us uk snapshot)"
  shows "w \<in> set us" "Compare user (up_key w) uk = 0" "up_seq w \<le> snapshot"
    "\<And>u. u \<in> set us \<Longrightarrow> Compare user (up_key u) uk = 0 \<Longrightarrow> up_seq u \<le> snapshot \<Longrightarrow> up_seq u \<le> up_seq w"
proof -
  have "w \<in> set (visible user us uk snapshot)" using assms(2) by (simp add: w_def)
  then show "w \<in> set us" "Compare user (up_key w) uk = 0" "up_seq w \<le> snapshot" by (auto simp: visible_def)
  fix u assume "u \<in> set us" "Compare user (up_key u) uk = 0" "up_seq u \<le> snapshot"
  then have u: "u \<in> set (visible user us uk snapshot)" by (simp add: visible_def)
  have "sorted_wrt (\<lambda>a b. up_seq a < up_seq b) (visible user us uk snapshot)"
    unfolding visible_def by (intro sorted_wrt_filter ups_ok_distinct assms(1))
  then have "sorted_wrt (\<lambda>a b. up_seq a < up_seq b) (butlast (visible user us uk snapshot) @ [w])"
    using assms(2) by (simp add: w_def)
  moreover have "u \<in> set (butlast (visible user us uk snapshot) @ [w])" using u assms(2) by (simp add: w_def)
  ultimately show "up_seq u \<le> up_seq w" by (auto simp: sorted_wrt_append intro: less_imp_le)
qed

context user_comparator
begin

lemma table_Get:
  assumes holds: "table_holds m us" and us: "ups_ok us"
    and uk: "length uk + 8 < 2 ^ 32" and snap: "snapshot \<le> kMaxSequenceNumber"
  shows "mem_Get user m (make_LookupKey uk snapshot) = Some (lookup_result (visible user us uk snapshot))"
proof -
  let ?K = "memtable_key (make_LookupKey uk snapshot)" and ?v = "visible user us uk snapshot"
  let ?P = "\<lambda>e. mem_compare user e ?K < 0"
  obtain ks where ks: "mem.holds (mt_table m) ks" "set ks = up_entry ` set us"
    using holds by (auto simp: table_holds_def)
  have fit: "fits (up_key u) (up_value u)" "up_seq u \<le> kMaxSequenceNumber" if "u \<in> set us" for u
    using us that by (auto simp: ups_ok_def)
  have below: "?P (up_entry u) \<longleftrightarrow> Compare user (up_key u) uk < 0 \<or> Compare user (up_key u) uk = 0 \<and> snapshot < up_seq u"
    if "u \<in> set us" for u using below_lookup [OF fit [OF that] uk snap] .
  have "entry_ok ?K" by (simp add: LookupKey_parts(2) [OF uk])
  note seek = mem.holds_Seek [OF ks(1) this]
  show ?thesis
  proof (cases "?v = []")
    case False
    define w where "w = last ?v"
    note w = last_visible [OF us False, folded w_def]
    have "first_key (dropWhile ?P ks) = Some (up_entry w)"
    proof (rule first_not_below [OF mem.holdsD(2) [OF ks(1)]])
      show "up_entry w \<in> set ks" using w(1) ks(2) by simp
      show "\<not> ?P (up_entry w)" using below [OF w(1)] w(2,3) by simp
      fix e assume "e \<in> set ks" "mem_compare user e (up_entry w) < 0"
      then obtain u where u: "u \<in> set us" "e = up_entry u" "mem_compare user (up_entry u) (up_entry w) < 0"
        using ks(2) by auto
      have "up_seq u \<noteq> up_seq w"
      proof
        assume "up_seq u = up_seq w"
        then have "u = w" using ups_ok_inj [OF us] u(1) w(1) by (auto dest: inj_onD)
        then show False using u(3) mem.cmp_self [OF entry_ok_update [OF fit(1) [OF w(1)]]] by simp
      qed
      then have "Compare user (up_key u) (up_key w) < 0 \<or>
          Compare user (up_key u) (up_key w) = 0 \<and> up_seq w < up_seq u"
        using entry_less [OF fit(1) [OF u(1)] fit(1) [OF w(1)] fit(2) [OF u(1)] fit(2) [OF w(1)]] u(3) by simp
      then show "?P e" unfolding u(2) below [OF u(1)]
      proof (elim disjE conjE)
        assume "Compare user (up_key u) (up_key w) < 0"
        then have "Compare user (up_key u) uk < 0" using cmp_less_le [of _ "up_key w"] w(2) by simp
        then show "Compare user (up_key u) uk < 0 \<or> Compare user (up_key u) uk = 0 \<and> snapshot < up_seq u" ..
      next
        assume "Compare user (up_key u) (up_key w) = 0" "up_seq w < up_seq u"
        then have "Compare user (up_key u) uk = 0" "\<not> up_seq u \<le> up_seq w"
          using cmp_eq_trans [of _ "up_key w"] w(2) by simp_all
        then show "Compare user (up_key u) uk < 0 \<or> Compare user (up_key u) uk = 0 \<and> snapshot < up_seq u"
          using w(4) [OF u(1)] by (simp add: not_le) (metis not_le)
      qed
    qed
    then obtain n where "iter_Seek (mem_compare user) (mt_table m) ?K = Some (Some n)"
      "key_at (mt_table m) n = up_entry w" using seek by auto
    then have "mem_Get user m (make_LookupKey uk snapshot) = Some (lookup_result [w])"
      using Get_found [OF _ _ fit [OF w(1)] uk] w(2) by simp
    then show ?thesis using False by (simp add: w_def lookup_result_last)
  next
    case True
    show ?thesis
    proof (cases "first_key (dropWhile ?P ks)")
      case None
      with seek have "iter_Seek (mem_compare user) (mt_table m) ?K = Some None" by auto
      then show ?thesis unfolding True by (rule Get_nothing)
    next
      case (Some e)
      from first_key_in [OF this] obtain u where u: "u \<in> set us" "e = up_entry u" "\<not> ?P (up_entry u)"
        unfolding ks(2) by blast
      have "Compare user (up_key u) uk \<noteq> 0"
        using True u(1) u(3) [unfolded below [OF u(1)]] unfolding visible_def filter_empty_conv by force
      moreover obtain n where "iter_Seek (mem_compare user) (mt_table m) ?K = Some (Some n)"
        "key_at (mt_table m) n = up_entry u" using seek Some u(2) by auto
      ultimately show ?thesis using Get_found [OF _ _ fit [OF u(1)] uk] True by simp
    qed
  qed
qed

end

section \<open>Properties\<close>

text \<open>
  C15: reads of the memory table. After updates with increasing sequence numbers, a lookup at a
  snapshot returns the value or the deletion mark of the newest update of that user key that
  is not newer than the snapshot, and finds nothing when there is none.
\<close>
theorem memtable_snapshot_reads:
  assumes "ups_ok us" "length uk + 8 < 2 ^ 32" "snapshot \<le> kMaxSequenceNumber"
  shows "\<exists>m. mem_Add_all BytewiseComparator MemTable us = Some m \<and>
    mem_Get BytewiseComparator m (make_LookupKey uk snapshot) =
      Some (lookup_result (visible BytewiseComparator us uk snapshot))"
proof -
  obtain m where "mem_Add_all BytewiseComparator MemTable us = Some m" "bytewise.table_holds m us"
    using bytewise.table_holds_Add_all [OF bytewise.table_holds_empty, of us] assms(1) by auto
  then show ?thesis using bytewise.table_Get [OF _ assms] by auto
qed

theorem memtable_snapshot_reads_witness:
  "\<exists>m. mem_Add_all BytewiseComparator MemTable
       [(3, kTypeValue, [107], [1]), (4, kTypeValue, [108], [2]), (5, kTypeDeletion, [107], [])] = Some m \<and>
     mem_Get BytewiseComparator m (make_LookupKey [107] 4) = Some (True, Some [1], None)"
  using memtable_snapshot_reads
    [of "[(3, kTypeValue, [107], [1]), (4, kTypeValue, [108], [2]), (5, kTypeDeletion, [107], [])]" "[107]" 4]
  by (simp add: ups_ok_def fits_def kMaxSequenceNumber_def visible_def lookup_result_def slice_compare_def)

end
