(* ===== verification/Ldb_Write_Batch.thy ===== *)
theory Ldb_Write_Batch
  imports Ldb_Memtable
begin

unbundle bit_operations_syntax

text \<open>
  Batches of updates, \<^verbatim>\<open>leveldb-library/db/write_batch.cc\<close> and \<^verbatim>\<open>write_batch_internal.h\<close>.
  A batch is its representation \<^verbatim>\<open>rep_\<close>: a sequence number, a count and the updates. The
  same bytes are the record of the write-ahead log. The lemmas show that iterating over a
  batch repeats the updates it was made from, and what inserting it into a memory table does.
\<close>

section \<open>Representation\<close>

definition kHeader :: nat where
  "kHeader = 12"

definition wb_Clear :: "byte list" where
  "wb_Clear = replicate kHeader 0"

definition WriteBatch :: "byte list" where
  "WriteBatch = wb_Clear"

definition ApproximateSize :: "byte list \<Rightarrow> nat" where
  "ApproximateSize rep = length rep"

text \<open>\<^verbatim>\<open>Count\<close> returns an \<^verbatim>\<open>int\<close>: the stored word, read as signed.\<close>

definition wb_Count :: "byte list \<Rightarrow> int" where
  "wb_Count rep = sint (DecodeFixed32 (drop 8 rep))"

definition wb_SetCount :: "byte list \<Rightarrow> int \<Rightarrow> byte list" where
  "wb_SetCount rep n = take 8 rep @ EncodeFixed32 (of_int n) @ drop 12 rep"

definition wb_Sequence :: "byte list \<Rightarrow> SequenceNumber" where
  "wb_Sequence rep = DecodeFixed64 rep"

definition wb_SetSequence :: "byte list \<Rightarrow> SequenceNumber \<Rightarrow> byte list" where
  "wb_SetSequence rep seq = EncodeFixed64 seq @ drop 8 rep"

definition wb_Put :: "byte list \<Rightarrow> slice \<Rightarrow> slice \<Rightarrow> byte list" where
  "wb_Put rep key value =
     (let rep1 = wb_SetCount rep (wb_Count rep + 1);
          rep2 = rep1 @ [type_byte kTypeValue];
          rep3 = PutLengthPrefixedSlice rep2 key
      in PutLengthPrefixedSlice rep3 value)"

definition wb_Delete :: "byte list \<Rightarrow> slice \<Rightarrow> byte list" where
  "wb_Delete rep key =
     (let rep1 = wb_SetCount rep (wb_Count rep + 1);
          rep2 = rep1 @ [type_byte kTypeDeletion]
      in PutLengthPrefixedSlice rep2 key)"

definition wb_Append :: "byte list \<Rightarrow> byte list \<Rightarrow> byte list" where
  "wb_Append dst source = wb_SetCount dst (wb_Count dst + wb_Count source) @ drop kHeader source"

definition wb_SetContents :: "slice \<Rightarrow> byte list" where
  "wb_SetContents contents = contents"

section \<open>Iteration\<close>

text \<open>The two methods of a \<^verbatim>\<open>Handler\<close>, on a state of any type.\<close>

record 'h wb_handler =
  h_Put :: "slice \<Rightarrow> slice \<Rightarrow> 'h \<Rightarrow> 'h"
  h_Delete :: "slice \<Rightarrow> 'h \<Rightarrow> 'h"

lemma GetLengthPrefixedSlice_length:
  "GetLengthPrefixedSlice input = (r, rest) \<Longrightarrow> length rest \<le> length input"
  using GetLengthPrefixedSlice_suffix [of input] by force

text \<open>The loop ends with an error, or with the number of updates found.\<close>

function Iterate_loop :: "'h wb_handler \<Rightarrow> slice \<Rightarrow> int \<Rightarrow> 'h \<Rightarrow> (status + int) \<times> 'h" where
  "Iterate_loop handler input found h =
     (if input = [] then (Inr found, h)
      else
        let found1 = found + 1; tag = hd input; input1 = tl input
        in
        if tag = type_byte kTypeValue then
          (case GetLengthPrefixedSlice input1 of
             (None, _) \<Rightarrow> (Inl (Corruption (cstr ''bad WriteBatch Put'') []), h)
           | (Some key, input2) \<Rightarrow>
               (case GetLengthPrefixedSlice input2 of
                  (None, _) \<Rightarrow> (Inl (Corruption (cstr ''bad WriteBatch Put'') []), h)
                | (Some value, input3) \<Rightarrow> Iterate_loop handler input3 found1 (h_Put handler key value h)))
        else if tag = type_byte kTypeDeletion then
          (case GetLengthPrefixedSlice input1 of
             (None, _) \<Rightarrow> (Inl (Corruption (cstr ''bad WriteBatch Delete'') []), h)
           | (Some key, input2) \<Rightarrow> Iterate_loop handler input2 found1 (h_Delete handler key h))
        else (Inl (Corruption (cstr ''unknown WriteBatch tag'') []), h))"
  by pat_completeness auto
termination
  by (relation "measure (\<lambda>(handler, input, found, h). length input)")
    (auto dest!: GetLengthPrefixedSlice_length [OF sym] simp: neq_Nil_conv)

declare Iterate_loop.simps [simp del]

definition Iterate :: "'h wb_handler \<Rightarrow> byte list \<Rightarrow> 'h \<Rightarrow> status \<times> 'h" where
  "Iterate handler rep h =
     (if length rep < kHeader then (Corruption (cstr ''malformed WriteBatch (too small)'') [], h)
      else (case Iterate_loop handler (drop kHeader rep) 0 h of
              (Inl s, h1) \<Rightarrow> (s, h1)
            | (Inr found, h1) \<Rightarrow>
                (if found \<noteq> wb_Count rep then Corruption (cstr ''WriteBatch has wrong count'') [] else OK, h1)))"

section \<open>MemTableInserter\<close>

text \<open>The sequence number of the next update, and the table unless a search did not end.\<close>

definition MemTableInserter :: "comparator \<Rightarrow> (SequenceNumber \<times> memtable option) wb_handler" where
  "MemTableInserter user =
     \<lparr>h_Put = (\<lambda>key value (s, mem). (s + 1, Option.bind mem (\<lambda>m. mem_Add user m s kTypeValue key value))),
      h_Delete = (\<lambda>key (s, mem). (s + 1, Option.bind mem (\<lambda>m. mem_Add user m s kTypeDeletion key [])))\<rparr>"

definition InsertInto :: "comparator \<Rightarrow> byte list \<Rightarrow> memtable \<Rightarrow> status \<times> memtable option" where
  "InsertInto user rep m =
     (case Iterate (MemTableInserter user) rep (wb_Sequence rep, Some m) of (s, _, m1) \<Rightarrow> (s, m1))"

section \<open>Batches as lists of updates\<close>

datatype batch_op = Put_op slice slice | Delete_op slice

fun apply_op :: "byte list \<Rightarrow> batch_op \<Rightarrow> byte list" where
  "apply_op rep (Put_op k v) = wb_Put rep k v"
| "apply_op rep (Delete_op k) = wb_Delete rep k"

fun handle_op :: "'h wb_handler \<Rightarrow> batch_op \<Rightarrow> 'h \<Rightarrow> 'h" where
  "handle_op handler (Put_op k v) = h_Put handler k v"
| "handle_op handler (Delete_op k) = h_Delete handler k"

fun op_bytes :: "batch_op \<Rightarrow> byte list" where
  "op_bytes (Put_op k v) =
     type_byte kTypeValue # PutLengthPrefixedSlice [] k @ PutLengthPrefixedSlice [] v"
| "op_bytes (Delete_op k) = type_byte kTypeDeletion # PutLengthPrefixedSlice [] k"

fun op_ok :: "batch_op \<Rightarrow> bool" where
  "op_ok (Put_op k v) \<longleftrightarrow> fits k v"
| "op_ok (Delete_op k) \<longleftrightarrow> fits k []"

text \<open>The format of a batch.\<close>

definition batch_rep :: "SequenceNumber \<Rightarrow> batch_op list \<Rightarrow> byte list" where
  "batch_rep s ops = EncodeFixed64 s @ EncodeFixed32 (of_nat (length ops)) @ concat (map op_bytes ops)"

lemma PutLengthPrefixedSlice_append: "PutLengthPrefixedSlice dst x = dst @ PutLengthPrefixedSlice [] x"
  by (simp add: PutLengthPrefixedSlice_def PutVarint32_def)

lemma zero_header: "EncodeFixed64 0 @ EncodeFixed32 0 = replicate 12 0"
  by code_simp

lemma batch_Clear: "WriteBatch = batch_rep 0 []"
  by (simp add: WriteBatch_def wb_Clear_def kHeader_def batch_rep_def zero_header)

lemma batch_Count: "wb_Count (batch_rep s ops) = sint (of_nat (length ops) :: u32)"
  by (simp add: wb_Count_def batch_rep_def)

lemma batch_SetCount:
  "wb_SetCount (batch_rep s ops) n = EncodeFixed64 s @ EncodeFixed32 (of_int n) @ concat (map op_bytes ops)"
  by (simp add: wb_SetCount_def batch_rep_def)

lemma batch_Sequence [simp]: "wb_Sequence (batch_rep s ops) = s"
  by (simp add: wb_Sequence_def batch_rep_def)

lemma batch_SetSequence: "wb_SetSequence (batch_rep s ops) s' = batch_rep s' ops"
  by (simp add: wb_SetSequence_def batch_rep_def)

lemma batch_apply: "apply_op (batch_rep s ops) op = batch_rep s (ops @ [op])"
proof -
  have "wb_SetCount (batch_rep s ops) (wb_Count (batch_rep s ops) + 1) =
      EncodeFixed64 s @ EncodeFixed32 (of_nat (length (ops @ [op]))) @ concat (map op_bytes ops)"
    unfolding batch_SetCount batch_Count by (simp add: add.commute)
  note count = this [simplified]
  show ?thesis
    by (cases op)
      (simp_all add: wb_Put_def wb_Delete_def Let_def count PutLengthPrefixedSlice_append [of "_ # _"]
        PutLengthPrefixedSlice_append [of "_ @ _"] batch_rep_def [of s "ops @ [_]"])
qed

lemma batch_build: "foldl apply_op (batch_rep s ops) ops2 = batch_rep s (ops @ ops2)"
  by (induction ops2 arbitrary: ops) (simp_all add: batch_apply)

lemma batch_Append: "wb_Append (batch_rep s ops) (batch_rep s' ops2) = batch_rep s (ops @ ops2)"
proof -
  have "drop kHeader (batch_rep s' ops2) = concat (map op_bytes ops2)"
    by (simp add: batch_rep_def kHeader_def)
  then show ?thesis by (simp add: wb_Append_def batch_Count batch_SetCount) (simp add: batch_rep_def)
qed

lemma Iterate_loop_ops:
  "list_all op_ok ops \<Longrightarrow>
   Iterate_loop handler (concat (map op_bytes ops)) found h = (Inr (found + int (length ops)), fold (handle_op handler) ops h)"
proof (induction ops arbitrary: found h)
  case (Cons op ops)
  note put = GetLengthPrefixedSlice_Put(1)
  have "Iterate_loop handler (op_bytes op @ concat (map op_bytes ops)) found h =
      Iterate_loop handler (concat (map op_bytes ops)) (found + 1) (handle_op handler op h)"
    using Cons.prems
    by (cases op) (subst Iterate_loop.simps, simp add: fits_def put)+
  with Cons show ?case by simp
qed (simp add: Iterate_loop.simps)

lemma sint_of_nat_u32: "n < 2 ^ 31 \<Longrightarrow> sint (of_nat n :: u32) = int n"
  by (simp add: signed_of_nat signed_take_bit_int_eq_self)

lemma Iterate_batch:
  assumes "list_all op_ok ops" "length ops < 2 ^ 31"
  shows "Iterate handler (batch_rep s ops) h = (OK, fold (handle_op handler) ops h)"
proof -
  have "drop kHeader (batch_rep s ops) = concat (map op_bytes ops)" "\<not> length (batch_rep s ops) < kHeader"
    by (simp_all add: batch_rep_def kHeader_def)
  then show ?thesis
    using assms by (simp add: Iterate_def Iterate_loop_ops batch_Count sint_of_nat_u32)
qed

section \<open>Insertion into a memory table\<close>

text \<open>The updates that a batch with a given first sequence number stands for.\<close>

fun op_update :: "SequenceNumber \<Rightarrow> batch_op \<Rightarrow> update" where
  "op_update s (Put_op k v) = (s, kTypeValue, k, v)"
| "op_update s (Delete_op k) = (s, kTypeDeletion, k, [])"

fun batch_updates :: "SequenceNumber \<Rightarrow> batch_op list \<Rightarrow> update list" where
  "batch_updates s [] = []"
| "batch_updates s (op # ops) = op_update s op # batch_updates (s + 1) ops"

lemma inserter_op:
  "handle_op (MemTableInserter user) op (s, m) =
     (s + 1, Option.bind m (\<lambda>m. let u = op_update s op in mem_Add user m (up_seq u) (up_type u) (up_key u) (up_value u)))"
  by (cases op) (simp_all add: MemTableInserter_def)

lemma inserter_none: "snd (fold (handle_op (MemTableInserter user)) ops (s, None)) = None"
proof (induction ops arbitrary: s)
  case (Cons op ops)
  then show ?case by (simp add: inserter_op)
qed simp

lemma inserter_ops:
  "snd (fold (handle_op (MemTableInserter user)) ops (s, Some m)) = mem_Add_all user m (batch_updates s ops)"
proof (induction ops arbitrary: s m)
  case (Cons op ops)
  let ?u = "op_update s op"
  show ?case
    using Cons.IH inserter_none
    by (cases "mem_Add user m (up_seq ?u) (up_type ?u) (up_key ?u) (up_value ?u)") (simp_all add: inserter_op Let_def)
qed simp

lemma InsertInto_batch:
  assumes "list_all op_ok ops" "length ops < 2 ^ 31"
  shows "InsertInto user (batch_rep s ops) m = (OK, mem_Add_all user m (batch_updates s ops))"
proof -
  have "snd (fold (handle_op (MemTableInserter user)) ops (s, Some m)) = mem_Add_all user m (batch_updates s ops)"
    by (rule inserter_ops)
  then show ?thesis
    by (simp add: InsertInto_def Iterate_batch [OF assms] split: prod.split) (metis snd_conv)
qed

section \<open>Properties\<close>

lemma batch_built: "wb_SetSequence (foldl apply_op WriteBatch ops) s = batch_rep s ops"
  by (simp add: batch_Clear batch_build batch_SetSequence)

text \<open>
  C16: a batch is its list of updates. Iterating over a batch repeats the calls of \<^verbatim>\<open>Put\<close> and
  \<^verbatim>\<open>Delete\<close> that made it, in order, and reports no error; the count and the sequence number are
  what was stored; inserting it into a memory table adds the updates with consecutive sequence
  numbers; and appending a second batch gives the batch of all the calls, under the first one's
  sequence number.
\<close>
theorem write_batch_replay:
  fixes s :: SequenceNumber
  assumes "list_all op_ok ops" "length ops < 2 ^ 31"
  defines "rep \<equiv> wb_SetSequence (foldl apply_op WriteBatch ops) s"
  shows "Iterate handler rep h = (OK, fold (handle_op handler) ops h) \<and>
    wb_Count rep = int (length ops) \<and> wb_Sequence rep = s \<and>
    InsertInto user rep m = (OK, mem_Add_all user m (batch_updates s ops)) \<and>
    wb_Append rep (foldl apply_op WriteBatch ops2) = wb_SetSequence (foldl apply_op WriteBatch (ops @ ops2)) s"
  using assms(1,2) unfolding rep_def batch_built
  by (simp add: Iterate_batch InsertInto_batch batch_Count sint_of_nat_u32)
    (simp add: batch_Clear batch_build batch_Append)

theorem write_batch_replay_witness:
  "Iterate \<lparr>h_Put = (\<lambda>k v h. h @ [(k, Some v)]), h_Delete = (\<lambda>k h. h @ [(k, None)])\<rparr>
     (wb_SetSequence (foldl apply_op WriteBatch [Put_op [97] [1, 2], Delete_op [98]]) 9) [] =
   (OK, [([97], Some [1, 2]), ([98], None)])"
  using write_batch_replay [of "[Put_op [97] [1, 2], Delete_op [98]]"
    "\<lparr>h_Put = (\<lambda>k v h. h @ [(k, Some v)]), h_Delete = (\<lambda>k h. h @ [(k, None)])\<rparr>" 9 "[]"]
  by (simp add: fits_def)

end
