(* ===== verification/Ldb_Db_Write.thy ===== *)
theory Ldb_Db_Write
  imports Ldb_Log_Props Ldb_Write_Batch
begin

unbundle bit_operations_syntax

text \<open>
  The write path of \<^verbatim>\<open>leveldb-library/db/db_impl.cc\<close>. Threads that call \<^verbatim>\<open>Write\<close> stand in a queue; the
  one at the front makes room in the memory table, joins the batches of the threads
  behind it to its own, appends the group to the log and inserts it into the table without
  holding the lock, and then wakes the threads whose batches it has written. The threads are a
  step relation: at any time a thread may enter the queue, and the thread at the front may
  take its next step under the lock. What the front thread sees of the rest of the database
  each time it holds the lock in \<^verbatim>\<open>MakeRoomForWrite\<close> (the background thread's progress and errors, the
  size of the memory table, the threads that entered while it waited) is an input.
\<close>

section \<open>State\<close>

text \<open>\<^verbatim>\<open>DBImpl::Writer\<close>; \<open>dw_id\<close> is the identity of the object.\<close>

record db_writer =
  dw_id :: nat
  dw_batch :: "byte list option"
  dw_sync :: bool

text \<open>
  The members of \<^verbatim>\<open>DBImpl\<close> that writing uses, and a record of the calls of \<^verbatim>\<open>Write\<close> that have been
  made, of the statuses that calls have been given, and of the memory tables handed to the
  background thread, each in that order. Between the two critical sections of a
  write \<open>in_write\<close> holds the group, whether it is \<^verbatim>\<open>tmp_batch_\<close>, and the last writer in it.
\<close>

record 'f db =
  writers :: "db_writer list"
  last_sequence :: SequenceNumber
  next_file_number :: u64
  logfile_number :: u64
  db_log :: "'f log_writer"
  db_mem :: memtable
  db_imm :: "memtable option"
  bg_error :: status
  tmp_batch :: "byte list"
  in_write :: "(byte list \<times> bool \<times> nat) option"
  called :: "db_writer list"
  returned :: "(db_writer \<times> status) list"
  retired :: "memtable list"

text \<open>The state in which \<^verbatim>\<open>DB::Open\<close> leaves a database with a new log: the constructor, and the new log and table.\<close>

definition new_db :: "SequenceNumber \<Rightarrow> u64 \<Rightarrow> 'f \<Rightarrow> 'f db" where
  "new_db seq number lfile =
     \<lparr>writers = [], last_sequence = seq, next_file_number = number + 1, logfile_number = number,
      db_log = Writer lfile, db_mem = mem_Ref MemTable, db_imm = None, bg_error = OK, tmp_batch = WriteBatch,
      in_write = None, called = [], returned = [], retired = []\<rparr>"

section \<open>MakeRoomForWrite\<close>

definition kL0_SlowdownWritesTrigger :: nat where
  "kL0_SlowdownWritesTrigger = 8"

definition kL0_StopWritesTrigger :: nat where
  "kL0_StopWritesTrigger = 12"

text \<open>
  What one round of the loop finds: the threads that have entered the queue, an
  error of the background thread, whether that thread has written out the immutable table, the number
  of level-0 files, the memory in use and the result of opening a new log file.
\<close>

record 'f room_view =
  rv_entered :: "db_writer list"
  rv_bg_error :: status
  rv_imm_done :: bool
  rv_l0_files :: nat
  rv_mem_usage :: nat
  rv_new_file :: "status \<times> 'f"

definition NewFileNumber :: "'f db \<Rightarrow> u64 \<times> 'f db" where
  "NewFileNumber d = (next_file_number d, d\<lparr>next_file_number := next_file_number d + 1\<rparr>)"

definition ReuseFileNumber :: "u64 \<Rightarrow> 'f db \<Rightarrow> 'f db" where
  "ReuseFileNumber n d = (if next_file_number d = n + 1 then d\<lparr>next_file_number := n\<rparr> else d)"

definition RecordBackgroundError :: "status \<Rightarrow> 'f db \<Rightarrow> 'f db" where
  "RecordBackgroundError s d = (if status_ok (bg_error d) then d\<lparr>bg_error := s\<rparr> else d)"

definition observe :: "'f room_view \<Rightarrow> 'f db \<Rightarrow> 'f db" where
  "observe v d =
     (let d1 = d\<lparr>writers := writers d @ rv_entered v, called := called d @ rv_entered v\<rparr>;
          d2 = (if status_ok (rv_bg_error v) then d1 else RecordBackgroundError (rv_bg_error v) d1)
      in if rv_imm_done v then d2\<lparr>db_imm := None\<rparr> else d2)"

definition switch_memtable :: "'f \<Rightarrow> u64 \<Rightarrow> 'f db \<Rightarrow> 'f db" where
  "switch_memtable lfile new_log_number d =
     d\<lparr>logfile_number := new_log_number, db_log := Writer lfile, db_imm := Some (db_mem d),
       db_mem := mem_Ref MemTable, retired := retired d @ [db_mem d]\<rparr>"

text \<open>The loop, with the rounds as a list; nothing when it is still waiting at the end of it.\<close>

fun MakeRoomForWrite :: "nat \<Rightarrow> 'f room_view list \<Rightarrow> bool \<Rightarrow> bool \<Rightarrow> 'f db \<Rightarrow> (status \<times> 'f db) option" where
  "MakeRoomForWrite write_buffer_size [] force allow_delay d = None"
| "MakeRoomForWrite write_buffer_size (v # vs) force allow_delay d0 =
     (let d = observe v d0 in
      if \<not> status_ok (bg_error d) then Some (bg_error d, d)
      else if allow_delay \<and> kL0_SlowdownWritesTrigger \<le> rv_l0_files v then
        MakeRoomForWrite write_buffer_size vs force False d
      else if \<not> force \<and> rv_mem_usage v \<le> write_buffer_size then Some (OK, d)
      else if db_imm d \<noteq> None then MakeRoomForWrite write_buffer_size vs force allow_delay d
      else if kL0_StopWritesTrigger \<le> rv_l0_files v then
        MakeRoomForWrite write_buffer_size vs force allow_delay d
      else
        let (new_log_number, d1) = NewFileNumber d;
            (s, lfile) = rv_new_file v
        in if \<not> status_ok s then Some (s, ReuseFileNumber new_log_number d1)
           else MakeRoomForWrite write_buffer_size vs False allow_delay (switch_memtable lfile new_log_number d1))"

section \<open>BuildBatchGroup\<close>

text \<open>
  The loop over the writers behind the first: the temporary batch if it is in use, and the last
  writer. The arguments \<open>sz\<close> and \<open>size_limit\<close> are \<^verbatim>\<open>size_t\<close>; batches are far from its range.
\<close>

fun build_loop ::
  "db_writer \<Rightarrow> byte list \<Rightarrow> nat \<Rightarrow> db_writer list \<Rightarrow> nat \<Rightarrow> byte list option \<Rightarrow> byte list \<Rightarrow> db_writer \<Rightarrow>
   byte list option \<times> db_writer" where
  "build_loop first batch size_limit [] sz result tmp last_writer = (result, last_writer)"
| "build_loop first batch size_limit (w # ws) sz result tmp last_writer =
     (if dw_sync w \<and> \<not> dw_sync first then (result, last_writer)
      else case dw_batch w of
             None \<Rightarrow> build_loop first batch size_limit ws sz result tmp w
           | Some b \<Rightarrow>
               let size1 = sz + length b in
               if size_limit < size1 then (result, last_writer)
               else
                 let r1 = (case result of None \<Rightarrow> wb_Append tmp batch | Some r \<Rightarrow> r)
                 in build_loop first batch size_limit ws size1 (Some (wb_Append r1 b)) tmp w)"

definition group_limit :: "nat \<Rightarrow> nat" where
  "group_limit sz = (if sz \<le> 128 * 1024 then sz + 128 * 1024 else 1024 * 1024)"

text \<open>The group, whether it is in \<^verbatim>\<open>tmp_batch_\<close>, and the last writer.\<close>

definition BuildBatchGroup :: "db_writer list \<Rightarrow> byte list \<Rightarrow> byte list \<times> bool \<times> db_writer" where
  "BuildBatchGroup ws tmp =
     (let first = hd ws;
          batch = the (dw_batch first);
          sz = length batch
      in case build_loop first batch (group_limit sz) (tl ws) sz None tmp first of
           (None, last_writer) \<Rightarrow> (batch, False, last_writer)
         | (Some r, last_writer) \<Rightarrow> (r, True, last_writer))"

section \<open>Write\<close>

text \<open>
  The last loop of \<^verbatim>\<open>Write\<close>: writers leave the queue, up to the last of the group, with the
  status of the group.
\<close>

fun pop_group :: "nat \<Rightarrow> status \<Rightarrow> db_writer list \<Rightarrow> (db_writer \<times> status) list \<times> db_writer list" where
  "pop_group last_writer s [] = ([], [])"
| "pop_group last_writer s (w # ws) =
     (if dw_id w = last_writer then ([(w, s)], ws)
      else case pop_group last_writer s ws of (done, rest) \<Rightarrow> ((w, s) # done, rest))"

definition finish_group :: "nat \<Rightarrow> status \<Rightarrow> 'f db \<Rightarrow> 'f db" where
  "finish_group last_writer s d =
     (case pop_group last_writer s (writers d) of
        (done, rest) \<Rightarrow> d\<lparr>writers := rest, returned := returned d @ done\<rparr>)"

text \<open>From the front of the queue to the point where the lock is released.\<close>

definition write_begin :: "nat \<Rightarrow> 'f room_view list \<Rightarrow> 'f db \<Rightarrow> 'f db option" where
  "write_begin write_buffer_size vs d =
     (let w = hd (writers d) in
      Option.bind (MakeRoomForWrite write_buffer_size vs (dw_batch w = None) (\<not> (dw_batch w = None)) d) (\<lambda>(s, d1).
        if status_ok s \<and> dw_batch w \<noteq> None then
          (case BuildBatchGroup (writers d1) (tmp_batch d1) of
             (updates, in_tmp, last_writer) \<Rightarrow>
               let updates1 = wb_SetSequence updates (last_sequence d1 + 1)
               in Some (d1\<lparr>in_write := Some (updates1, in_tmp, dw_id last_writer),
                           tmp_batch := (if in_tmp then updates1 else tmp_batch d1)\<rparr>))
        else Some (finish_group (dw_id w) s d1)))"

text \<open>
  The rest: the log, the synchronisation if the thread asked for it, the memory table; then, with
  the lock, the new sequence number and the wakening of the group. The answer to \<^verbatim>\<open>Sync\<close>
  is the argument \<open>sync\<close>.
\<close>

definition write_end ::
  "comparator \<Rightarrow> 'f appender \<Rightarrow> 'f flusher \<Rightarrow> ('f \<Rightarrow> status \<times> 'f) \<Rightarrow> 'f db \<Rightarrow> 'f db option" where
  "write_end user app flush sync d =
     (case in_write d of
        None \<Rightarrow> None
      | Some (updates, in_tmp, last_writer) \<Rightarrow>
          let w = hd (writers d);
              last_seq = last_sequence d + of_int (wb_Count updates);
              (s1, log1) = AddRecord app flush (db_log d) updates;
              (s2, log2, sync_error) =
                (if status_ok s1 \<and> dw_sync w then
                   (case sync (dest log1) of (s, f) \<Rightarrow> (s, log1\<lparr>dest := f\<rparr>, \<not> status_ok s))
                 else (s1, log1, False));
              (s3, mem3) = (if status_ok s2 then InsertInto user updates (db_mem d) else (s2, Some (db_mem d)))
          in Option.bind mem3 (\<lambda>m.
               let d1 = d\<lparr>db_log := log2, db_mem := m, in_write := None\<rparr>;
                   d2 = (if sync_error then RecordBackgroundError s3 d1 else d1);
                   d3 = (if in_tmp then d2\<lparr>tmp_batch := wb_Clear\<rparr> else d2);
                   d4 = d3\<lparr>last_sequence := last_seq\<rparr>
               in Some (finish_group last_writer s3 d4)))"

section \<open>Threads\<close>

text \<open>A call of \<^verbatim>\<open>Write\<close>: \<^verbatim>\<open>writers_.push_back(&w)\<close>.\<close>

definition enter :: "db_writer \<Rightarrow> 'f db \<Rightarrow> 'f db" where
  "enter w d = d\<lparr>writers := writers d @ [w], called := called d @ [w]\<rparr>"

text \<open>
  The steps. A log file that was opened is new: \<^verbatim>\<open>NewWritableFile\<close> truncates what was there. The
  kernel's answer to a synchronisation is the first argument of \<open>sync\<close>.
\<close>

inductive db_step ::
  "comparator \<Rightarrow> 'f appender \<Rightarrow> 'f flusher \<Rightarrow> ('a \<Rightarrow> 'f \<Rightarrow> status \<times> 'f) \<Rightarrow> ('f \<Rightarrow> bool) \<Rightarrow> nat \<Rightarrow> 'f db \<Rightarrow> 'f db \<Rightarrow> bool"
  for user :: comparator and app :: "'f appender" and flush :: "'f flusher"
    and sync :: "'a \<Rightarrow> 'f \<Rightarrow> status \<times> 'f" and new_file :: "'f \<Rightarrow> bool" and write_buffer_size :: nat where
  Enter: "db_step user app flush sync new_file write_buffer_size d (enter w d)"
| Begin: "writers d \<noteq> [] \<Longrightarrow> in_write d = None \<Longrightarrow> write_begin write_buffer_size vs d = Some d' \<Longrightarrow>
    \<forall>v\<in>set vs. status_ok (fst (rv_new_file v)) \<longrightarrow> new_file (snd (rv_new_file v)) \<Longrightarrow>
    db_step user app flush sync new_file write_buffer_size d d'"
| End: "write_end user app flush (sync a) d = Some d' \<Longrightarrow>
    db_step user app flush sync new_file write_buffer_size d d'"

inductive db_reach ::
  "comparator \<Rightarrow> 'f appender \<Rightarrow> 'f flusher \<Rightarrow> ('a \<Rightarrow> 'f \<Rightarrow> status \<times> 'f) \<Rightarrow> ('f \<Rightarrow> bool) \<Rightarrow> nat \<Rightarrow> 'f db \<Rightarrow> 'f db \<Rightarrow> bool"
  for user :: comparator and app :: "'f appender" and flush :: "'f flusher"
    and sync :: "'a \<Rightarrow> 'f \<Rightarrow> status \<times> 'f" and new_file :: "'f \<Rightarrow> bool" and write_buffer_size :: nat and d0 :: "'f db" where
  Start: "db_reach user app flush sync new_file write_buffer_size d0 d0"
| Step: "db_reach user app flush sync new_file write_buffer_size d0 d \<Longrightarrow>
    db_step user app flush sync new_file write_buffer_size d d' \<Longrightarrow>
    db_reach user app flush sync new_file write_buffer_size d0 d'"

inductive_cases db_step_cases: "db_step user app flush sync new_file write_buffer_size d d'"

end
