(* ===== verification/Ldb_Db_Write_Props.thy ===== *)
theory Ldb_Db_Write_Props
  imports Ldb_Db_Write
begin

text \<open>
  What the write path guarantees. The first part is about one group: it is the batches
  of the writers at the front of the queue, in order. The second part is the invariant of the
  threads' steps: calls return in the order in which they were made, the memory table holds the
  updates of the calls that succeeded, with increasing sequence numbers, and, until a
  call fails, the log holds the same groups and every group with a synchronised call in it is
  on durable media.
\<close>

section \<open>Groups\<close>

text \<open>The updates of a call, read off its batch.\<close>

definition collect_ops :: "batch_op list wb_handler" where
  "collect_ops = \<lparr>h_Put = (\<lambda>k v h. h @ [Put_op k v]), h_Delete = (\<lambda>k h. h @ [Delete_op k])\<rparr>"

definition writer_ops :: "db_writer \<Rightarrow> batch_op list" where
  "writer_ops w = (case dw_batch w of None \<Rightarrow> [] | Some b \<Rightarrow> snd (Iterate collect_ops b []))"

text \<open>A call that was given a batch made with \<^verbatim>\<open>Put\<close> and \<^verbatim>\<open>Delete\<close>, or none.\<close>

definition writer_ok :: "db_writer \<Rightarrow> bool" where
  "writer_ok w \<longleftrightarrow> (case dw_batch w of None \<Rightarrow> True
     | Some b \<Rightarrow> (\<exists>s ops. b = batch_rep s ops \<and> list_all op_ok ops \<and> length ops < 2 ^ 31))"

abbreviation group_ops :: "db_writer list \<Rightarrow> batch_op list" where
  "group_ops ws \<equiv> concat (map writer_ops ws)"

lemma collect_fold: "fold (handle_op collect_ops) ops h = h @ ops"
proof (induction ops arbitrary: h)
  case (Cons op ops)
  then show ?case by (cases op) (simp_all add: collect_ops_def)
qed simp

lemma writer_ops_None: "dw_batch w = None \<Longrightarrow> writer_ops w = []"
  by (simp add: writer_ops_def)

lemma writer_okE:
  assumes "writer_ok w" "dw_batch w = Some b"
  obtains s where "b = batch_rep s (writer_ops w)" "length (writer_ops w) < 2 ^ 31"
proof -
  obtain s ops where b: "b = batch_rep s ops" "list_all op_ok ops" "length ops < 2 ^ 31"
    using assms by (auto simp: writer_ok_def)
  then have "writer_ops w = ops" using assms(2) by (simp add: writer_ops_def Iterate_batch collect_fold)
  with b that show thesis by blast
qed

lemma writer_ops_ok: "writer_ok w \<Longrightarrow> list_all op_ok (writer_ops w)"
  by (auto simp: writer_ok_def writer_ops_def Iterate_batch collect_fold split: option.splits)

lemma group_ops_ok: "\<forall>w\<in>set ws. writer_ok w \<Longrightarrow> list_all op_ok (group_ops ws)"
  using writer_ops_ok by (fastforce simp: list_all_iff)

lemma op_bytes_not_Nil: "op_bytes op \<noteq> []"
  by (cases op) auto

lemma length_batch_ops: "length ops \<le> length (batch_rep s ops)"
proof -
  have "length ops \<le> length (concat (map op_bytes ops))"
  proof (induction ops)
    case (Cons op ops)
    then show ?case using op_bytes_not_Nil [of op] by (cases "op_bytes op") auto
  qed simp
  then show ?thesis by (simp add: batch_rep_def)
qed

text \<open>
  The loop takes a prefix of the waiting writers. The temporary batch, once in use, holds all
  updates so far and keeps within the limit.
\<close>

lemma build_loop_spec:
  assumes "\<forall>w\<in>set ws. writer_ok w" "length acc \<le> sz"
    and "result = Some (batch_rep 0 acc) \<and> sz \<le> lim \<or> result = None \<and> batch = batch_rep s acc"
  shows "\<exists>ws1 ws2 r. ws = ws1 @ ws2 \<and>
    build_loop first batch lim ws sz result (batch_rep 0 []) lw = (r, last (lw # ws1)) \<and>
    (\<forall>w\<in>set ws1. dw_sync w \<longrightarrow> dw_sync first) \<and>
    (r = Some (batch_rep 0 (acc @ group_ops ws1)) \<and> length (acc @ group_ops ws1) \<le> lim \<or>
     r = None \<and> result = None \<and> group_ops ws1 = [])"
  using assms
proof (induction ws arbitrary: acc sz result lw)
  case Nil
  then show ?case by (intro exI [of _ "[]"]) auto
next
  case (Cons w ws)
  note build_loop.simps [simp del]
  have stop: ?case if "build_loop first batch lim (w # ws) sz result (batch_rep 0 []) lw = (result, lw)"
    using that Cons.prems(2,3)
    by - (rule exI [of _ "[]"], rule exI [of _ "w # ws"], rule exI [of _ result], auto)
  have step: ?case if "build_loop first batch lim (w # ws) sz result (batch_rep 0 []) lw =
      build_loop first batch lim ws sz' result' (batch_rep 0 []) w"
    and "length (acc @ writer_ops w) \<le> sz'" "dw_sync w \<longrightarrow> dw_sync first"
    and "result' = Some (batch_rep 0 (acc @ writer_ops w)) \<and> sz' \<le> lim \<or>
      result' = None \<and> result = None \<and> writer_ops w = [] \<and> batch = batch_rep s acc" for sz' result'
  proof -
    have "\<forall>w\<in>set ws. writer_ok w" "result' = Some (batch_rep 0 (acc @ writer_ops w)) \<and> sz' \<le> lim \<or>
        result' = None \<and> batch = batch_rep s (acc @ writer_ops w)"
      using Cons.prems(1) that(4) by auto
    from Cons.IH [OF this(1) that(2) this(2), of w] obtain ws1 ws2 r where
      "ws = ws1 @ ws2" "build_loop first batch lim ws sz' result' (batch_rep 0 []) w = (r, last (w # ws1))"
      "\<forall>w\<in>set ws1. dw_sync w \<longrightarrow> dw_sync first"
      "r = Some (batch_rep 0 ((acc @ writer_ops w) @ group_ops ws1)) \<and> length ((acc @ writer_ops w) @ group_ops ws1) \<le> lim \<or>
       r = None \<and> result' = None \<and> group_ops ws1 = []" by blast
    with that show ?thesis by - (rule exI [of _ "w # ws1"], rule exI [of _ ws2], rule exI [of _ r], auto)
  qed
  show ?case
  proof (cases "dw_sync w \<and> \<not> dw_sync first")
    case True
    then show ?thesis by (intro stop) (simp add: build_loop.simps)
  next
    case sync: False
    show ?thesis
    proof (cases "dw_batch w")
      case None
      show ?thesis
        by (rule step [of sz result]) (use sync None Cons.prems(2,3) in \<open>auto simp: writer_ops_None build_loop.simps\<close>)
    next
      case (Some b)
      obtain s' where b: "b = batch_rep s' (writer_ops w)"
        using Cons.prems(1) Some by (auto elim: writer_okE)
      show ?thesis
      proof (cases "lim < sz + length b")
        case True
        then show ?thesis using Some sync by (intro stop) (simp add: build_loop.simps)
      next
        case False
        have "(case result of None \<Rightarrow> wb_Append (batch_rep 0 []) batch | Some r \<Rightarrow> r) = batch_rep 0 acc"
          using Cons.prems(3) by (auto simp: batch_Append)
        moreover have "wb_Append (batch_rep 0 acc) b = batch_rep 0 (acc @ writer_ops w)"
          unfolding b by (rule batch_Append)
        ultimately show ?thesis
          using False Some sync Cons.prems(2) length_batch_ops [of "writer_ops w" s']
          by (intro step [of "sz + length b" "Some (batch_rep 0 (acc @ writer_ops w))"])
            (auto simp: b build_loop.simps)
      qed
    qed
  qed
qed

lemma BuildBatchGroup_spec:
  assumes "\<forall>w\<in>set (w # ws). writer_ok w" "dw_batch w = Some b" "tmp = wb_Clear"
  shows "\<exists>ws1 ws2 r in_tmp. ws = ws1 @ ws2 \<and> BuildBatchGroup (w # ws) tmp = (r, in_tmp, last (w # ws1)) \<and>
    wb_SetSequence r s = batch_rep s (group_ops (w # ws1)) \<and> length (group_ops (w # ws1)) < 2 ^ 31 \<and>
    (\<forall>v\<in>set ws1. dw_sync v \<longrightarrow> dw_sync w)"
proof -
  obtain s' where b: "b = batch_rep s' (writer_ops w)" "length (writer_ops w) < 2 ^ 31"
    using assms by (auto elim: writer_okE)
  have tmp: "tmp = batch_rep 0 []" using assms(3) batch_Clear by (simp add: WriteBatch_def)
  have lim: "group_limit (length b) < 2 ^ 31" by (simp add: group_limit_def)
  have "length (writer_ops w) \<le> length b" unfolding b by (rule length_batch_ops)
  from build_loop_spec [OF _ this, of ws None "group_limit (length b)" b s' w w] assms(1) b(1) obtain ws1 ws2 r where
    l: "ws = ws1 @ ws2" "build_loop w b (group_limit (length b)) ws (length b) None tmp w = (r, last (w # ws1))"
    "\<forall>v\<in>set ws1. dw_sync v \<longrightarrow> dw_sync w"
    "r = Some (batch_rep 0 (writer_ops w @ group_ops ws1)) \<and> length (writer_ops w @ group_ops ws1) \<le> group_limit (length b) \<or>
     r = None \<and> group_ops ws1 = []" unfolding tmp by auto
  show ?thesis
    using l lim b assms(2)
    by - (rule exI [of _ ws1], rule exI [of _ ws2], rule exI [of _ "case r of None \<Rightarrow> b | Some r \<Rightarrow> r"],
      rule exI [of _ "r \<noteq> None"], auto simp: BuildBatchGroup_def Let_def batch_SetSequence simp del: concat_eq_Nil_conv)
qed

lemma pop_group_prefix:
  assumes "ws \<noteq> []" "distinct (map dw_id ws)"
  shows "pop_group (dw_id (last ws)) s (ws @ rest) = (map (\<lambda>w. (w, s)) ws, rest)"
  using assms
proof (induction ws)
  case (Cons w ws)
  show ?case
  proof (cases ws)
    case (Cons a list)
    then have "dw_id w \<noteq> dw_id (last ws)" using Cons.prems by (metis distinct.simps(2) last_in_set list.distinct(1) list.set_map list.simps(9) image_eqI)
    then show ?thesis using Cons.IH Cons.prems Cons by simp
  qed simp
qed simp

section \<open>The log\<close>

text \<open>Where in its block the log stands after a list of records.\<close>

fun log_offset :: "nat \<Rightarrow> slice list \<Rightarrow> nat" where
  "log_offset off [] = off"
| "log_offset off (x # xs) = log_offset (snd (log_bytes off True x)) xs"

lemma log_content_snoc:
  "log_content off (xs @ [x]) = log_content off xs @ fst (log_bytes (log_offset off xs) True x)"
  "log_offset off (xs @ [x]) = snd (log_bytes (log_offset off xs) True x)"
  by (induction xs arbitrary: off) (auto split: prod.splits)

text \<open>
  What the write path relies on besides \<open>log_file\<close>: only a synchronisation moves data to durable
  media, and a successful one moves all that was written.
\<close>

locale durable_log = log_file app flush written pending capacity
  for app :: "'f \<Rightarrow> slice \<Rightarrow> status \<times> 'f" and flush written pending capacity +
  fixes sync :: "'a \<Rightarrow> 'f \<Rightarrow> status \<times> 'f" and durable :: "'f \<Rightarrow> byte list"
  assumes app_durable: "durable (snd (app f x)) = durable f"
    and flush_durable: "durable (snd (flush f)) = durable f"
    and sync_durable: "pending f = [] \<Longrightarrow> \<exists>s f'. sync a f = (s, f') \<and> written f' = written f \<and> pending f' = [] \<and>
      durable f' = (if s = OK then written f else durable f)"
begin

lemma emit_durable: "durable (dest (snd (EmitPhysicalRecord app flush w t data))) = durable (dest w)"
  using app_durable [of "dest w"] app_durable flush_durable
  by (simp add: EmitPhysicalRecord_def Let_def split: prod.split) (metis snd_conv)

lemma switch_block_durable: "durable (dest (switch_block app w)) = durable (dest w)"
  by (simp add: switch_block_def Let_def app_durable)

lemma AddRecord_loop_durable: "durable (dest (snd (AddRecord_loop app flush w b data))) = durable (dest w)"
proof -
  have "durable (dest (snd (AddRecord_loop ap fl w b data))) = durable (dest w)" if "ap = app" "fl = flush" for ap fl
    using that
  proof (induction ap fl w b data rule: AddRecord_loop.induct)
    case (1 ap fl w b data)
    let ?w1 = "switch_block ap w"
    let ?avail = "kBlockSize - block_offset ?w1 - kHeaderSize"
    define n where "n = (if length data < ?avail then length data else ?avail)"
    obtain s w2 where e: "EmitPhysicalRecord ap fl ?w1 (fragment_type b (length data = n)) (take n data) = (s, w2)"
      by fastforce
    have "durable (dest w2) = durable (dest w)"
      using emit_durable [of ?w1 "fragment_type b (length data = n)" "take n data"] e switch_block_durable [of w]
      by (simp add: 1(2,3))
    moreover have "durable (dest (snd (AddRecord_loop ap fl w2 False (drop n data)))) = durable (dest w2)"
      if "status_ok s \<and> drop n data \<noteq> []"
      using 1(1) [OF refl refl n_def refl e [symmetric] refl refl that 1(2,3)] .
    ultimately show ?case
      by (subst AddRecord_loop.simps) (simp only: Let_def n_def [symmetric] e prod.case split: if_split, simp)
  qed
  then show ?thesis by simp
qed

lemma AddRecord_writes:
  assumes "pending (dest w) = []" "fresh w" "block_offset w = off" "AddRecord app flush w x = (s, w')"
  shows "durable (dest w') = durable (dest w)"
    and "s = OK \<Longrightarrow> written (dest w') = written (dest w) @ fst (log_bytes off True x) \<and>
      pending (dest w') = [] \<and> fresh w' \<and> block_offset w' = snd (log_bytes off True x)"
  using add_loop_writes [OF assms(1-3), of True x] AddRecord_loop_durable [of w True x] assms(4)
  by (auto simp: AddRecord_def)

end

interpretation posix_durable: durable_log posix_Append posix_Flush "\<lambda>w. k_bytes (w_fd w)" w_buf
  kWritableFileBufferSize "\<lambda>(dir_ans, ans). posix_Sync dir_ans ans" "\<lambda>w. k_durable (w_fd w)"
proof
  have loop: "k_durable (snd (WriteUnbuffered_loop fn data k)) = k_durable k" for fn data k
  proof (induction fn data k rule: WriteUnbuffered_loop.induct)
    case (1 fn data k)
    obtain r k1 where w: "sys_write k data = (r, k1)" by fastforce
    then have "k_durable k1 = k_durable k"
      by (auto simp: sys_write_def split: list.splits transfer.splits)
    with 1 w show ?case
      by (subst WriteUnbuffered_loop.simps) (auto split: transfer.split)
  qed
  then have unbuffered: "k_durable (w_fd (snd (WriteUnbuffered w data))) = k_durable (w_fd w)" for w data
    by (simp add: WriteUnbuffered_def split: prod.split) (metis snd_conv)
  then have flushed: "k_durable (w_fd (snd (FlushBuffer w))) = k_durable (w_fd w)" for w
    by (simp add: FlushBuffer_def split: prod.split) (metis snd_conv)
  show "k_durable (w_fd (snd (posix_Flush f))) = k_durable (w_fd f)" for f
    by (simp add: posix_Flush_def flushed)
  show "k_durable (w_fd (snd (posix_Append f x))) = k_durable (w_fd f)" for f x
  proof -
    define c where "c = min (length x) (kWritableFileBufferSize - length (w_buf f))"
    show ?thesis
      using flushed [of "f\<lparr>w_buf := w_buf f @ take c x\<rparr>"]
      by (auto simp: posix_Append_def Let_def unbuffered simp flip: c_def split: prod.split)
  qed
  show "\<exists>s f'. (case a of (dir_ans, ans) \<Rightarrow> posix_Sync dir_ans ans) f = (s, f') \<and> k_bytes (w_fd f') = k_bytes (w_fd f) \<and>
      w_buf f' = [] \<and> k_durable (w_fd f') = (if s = OK then k_bytes (w_fd f) else k_durable (w_fd f))"
    if "w_buf f = []" for a f
  proof -
    have "FlushBuffer f = (OK, f)"
      using that by (simp add: FlushBuffer_def WriteUnbuffered_def WriteUnbuffered_loop.simps)
    then show ?thesis using that by (cases a) (auto simp: posix_Sync_def Let_def)
  qed
qed

section \<open>The invariant\<close>

text \<open>A group that was written: its first sequence number and its writers.\<close>

type_synonym group = "SequenceNumber \<times> db_writer list"

definition group_record :: "group \<Rightarrow> byte list" where
  "group_record g = batch_rep (fst g) (group_ops (snd g))"

definition group_updates :: "group list \<Rightarrow> update list" where
  "group_updates gs = concat (map (\<lambda>g. batch_updates (fst g) (group_ops (snd g))) gs)"

lemma group_updates_simps [simp]:
  "group_updates [] = []" "group_updates (gs @ hs) = group_updates gs @ group_updates hs"
  "group_updates (g # gs) = batch_updates (fst g) (group_ops (snd g)) @ group_updates gs"
  by (simp_all add: group_updates_def)

lemma op_update_seq [simp]: "up_seq (op_update s op) = s"
  by (cases op) auto

lemma op_update_fits: "op_ok op \<Longrightarrow> fits (up_key (op_update s op)) (up_value (op_update s op))"
  by (cases op) auto

text \<open>Numbers given out after the last one used leave the updates in order.\<close>

lemma kMaxSequenceNumber_unat: "unat kMaxSequenceNumber = 2 ^ 56 - 1"
  by (simp add: kMaxSequenceNumber_def)

lemma next_sequence:
  fixes l :: SequenceNumber
  assumes "unat l + n \<le> unat kMaxSequenceNumber"
  shows "unat (l + of_nat n) = unat l + n"
proof -
  have "unat (of_nat n :: u64) = n"
    using assms by (intro unat_of_nat_u64) (simp add: kMaxSequenceNumber_unat)
  then show ?thesis using assms by (subst unat_add_no_wrap) (simp_all add: kMaxSequenceNumber_unat)
qed

lemma batch_updates_after:
  assumes "ups_ok us" "\<forall>u\<in>set us. up_seq u \<le> l" "unat l + length ops \<le> unat kMaxSequenceNumber" "list_all op_ok ops"
  shows "ups_ok (us @ batch_updates (l + 1) ops) \<and>
    (\<forall>u\<in>set (us @ batch_updates (l + 1) ops). up_seq u \<le> l + of_nat (length ops))"
  using assms
proof (induction ops arbitrary: us l)
  case (Cons op ops)
  let ?u = "op_update (l + 1) op"
  have l1: "unat (l + 1) = unat l + 1" using next_sequence [of l 1] Cons.prems(3) by simp
  then have l2: "l < l + 1" "l + 1 \<le> kMaxSequenceNumber" using Cons.prems(3) by (simp_all add: word_less_nat_alt word_le_nat_alt)
  have "ups_ok (us @ [?u])"
    using Cons.prems(1,2,4) l2 op_update_fits [of op "l + 1"]
    by (auto simp: ups_ok_def sorted_wrt_append intro: le_less_trans)
  moreover have "\<forall>u\<in>set (us @ [?u]). up_seq u \<le> l + 1" using Cons.prems(2) l2 by (auto intro: order_trans less_imp_le)
  ultimately show ?case
    using Cons.IH [of "us @ [?u]" "l + 1"] Cons.prems(3,4) l1 by (simp add: add.assoc)
qed simp

lemma ups_ok_append: "ups_ok (us @ ws) \<Longrightarrow> ups_ok us \<and> ups_ok ws"
  by (auto simp: ups_ok_def sorted_wrt_append)

text \<open>The group that the front thread is writing.\<close>

definition group_in_write :: "'f db \<Rightarrow> byte list \<Rightarrow> nat \<Rightarrow> bool" where
  "group_in_write d updates lw \<longleftrightarrow> (\<exists>w ws1 ws2. writers d = w # ws1 @ ws2 \<and> lw = dw_id (last (w # ws1)) \<and>
     updates = group_record (last_sequence d + 1, w # ws1) \<and> length (group_ops (w # ws1)) < 2 ^ 31 \<and>
     (\<forall>v\<in>set ws1. dw_sync v \<longrightarrow> dw_sync w))"

text \<open>Calls return in the order in which they were made; a group is a prefix of the queue.\<close>

definition queue_inv :: "'f db \<Rightarrow> bool" where
  "queue_inv d \<longleftrightarrow> map fst (returned d) @ writers d = called d \<and>
     (tmp_batch d = wb_Clear \<or> (\<exists>updates lw. in_write d = Some (updates, True, lw))) \<and>
     (\<forall>updates in_tmp lw. in_write d = Some (updates, in_tmp, lw) \<longrightarrow> group_in_write d updates lw)"

text \<open>
  The groups written so far are those of earlier memory tables and those of the present one: their
  updates are those of the calls that succeeded, under increasing numbers.
\<close>

definition group_ok :: "group \<Rightarrow> bool" where
  "group_ok g \<longleftrightarrow> list_all op_ok (group_ops (snd g)) \<and> length (group_ops (snd g)) < 2 ^ 31"

definition groups_inv :: "SequenceNumber \<Rightarrow> 'f db \<Rightarrow> group list \<Rightarrow> bool" where
  "groups_inv s0 d gs \<longleftrightarrow>
     concat (map (\<lambda>g. group_ops (snd g)) gs) = group_ops (map fst (filter (\<lambda>r. status_ok (snd r)) (returned d))) \<and>
     ups_ok (group_updates gs) \<and> (\<forall>u\<in>set (group_updates gs). up_seq u \<le> last_sequence d) \<and>
     (\<forall>g\<in>set gs. group_ok g) \<and> unat (last_sequence d) \<le> unat s0 + length (group_ops (map fst (returned d)))"

text \<open>Hypotheses on the calls: well-formed batches, distinct objects, and numbers left for all updates.\<close>

definition calls_ok :: "SequenceNumber \<Rightarrow> db_writer list \<Rightarrow> bool" where
  "calls_ok s0 ws \<longleftrightarrow> (\<forall>w\<in>set ws. writer_ok w) \<and> distinct (map dw_id ws) \<and>
     unat s0 + length (group_ops ws) \<le> unat kMaxSequenceNumber"

lemma calls_ok_append: "calls_ok s0 (ws @ vs) \<Longrightarrow> calls_ok s0 ws"
  by (auto simp: calls_ok_def)

lemma map_fst_const [simp]: "map (fst \<circ> (\<lambda>w. (w, s))) ws = ws"
  by (simp add: comp_def)

lemma MakeRoom_called:
  "MakeRoomForWrite wbs vs force allow_delay d = Some (s, d') \<Longrightarrow> \<exists>ws. called d' = called d @ ws"
proof (induction vs arbitrary: force allow_delay d)
  case (Cons v vs)
  let ?d = "observe v d"
  have o: "called ?d = called d @ rv_entered v" by (simp add: observe_def Let_def RecordBackgroundError_def)
  have "\<exists>ws. called d' = called d @ ws" if "MakeRoomForWrite wbs vs f a d1 = Some (s, d')" "called d1 = called ?d" for f a d1
    using Cons.IH [OF that(1)] that(2) o by auto
  with Cons.prems o show ?case
    by (auto simp: Let_def NewFileNumber_def ReuseFileNumber_def switch_memtable_def split: if_splits prod.splits)
qed simp

lemma finish_group_called [simp]: "called (finish_group lw s d) = called d"
  by (simp add: finish_group_def split: prod.split)

lemma db_step_called: "db_step user app flush sync nf wbs d d' \<Longrightarrow> \<exists>ws. called d' = called d @ ws"
proof (erule db_step_cases)
  fix vs
  assume "write_begin wbs vs d = Some d'"
  then obtain s d1 where "MakeRoomForWrite wbs vs (dw_batch (hd (writers d)) = None) (dw_batch (hd (writers d)) \<noteq> None) d = Some (s, d1)"
    and "called d' = called d1"
    by (auto simp: write_begin_def Let_def bind_eq_Some_conv split: if_splits prod.splits)
  then show ?thesis using MakeRoom_called by metis
qed (auto simp: enter_def write_end_def Let_def bind_eq_Some_conv RecordBackgroundError_def
    split: option.splits prod.splits if_splits)

locale db_store = durable_log app flush written pending capacity sync durable + user_comparator user
  for app :: "'f \<Rightarrow> slice \<Rightarrow> status \<times> 'f" and flush written pending capacity
    and sync :: "'a \<Rightarrow> 'f \<Rightarrow> status \<times> 'f" and durable and user
begin

definition new_file :: "'f \<Rightarrow> bool" where
  "new_file f \<longleftrightarrow> written f = [] \<and> pending f = [] \<and> durable f = []"

definition durable_groups :: "'f log_writer \<Rightarrow> group list \<Rightarrow> nat \<Rightarrow> bool" where
  "durable_groups lw gs n \<longleftrightarrow> n \<le> length gs \<and> durable (dest lw) = log_content 0 (map group_record (take n gs)) \<and>
     (\<forall>g\<in>set (drop n gs). \<forall>w\<in>set (snd g). \<not> dw_sync w)"

definition log_ok :: "'f log_writer \<Rightarrow> group list \<Rightarrow> bool" where
  "log_ok lw gs \<longleftrightarrow> fresh lw \<and> pending (dest lw) = [] \<and> block_offset lw = log_offset 0 (map group_record gs) \<and>
     written (dest lw) = log_content 0 (map group_record gs) \<and> (\<exists>n. durable_groups lw gs n)"

definition tables_inv :: "'f db \<Rightarrow> group list list \<Rightarrow> group list \<Rightarrow> bool" where
  "tables_inv d old cur \<longleftrightarrow> table_holds (db_mem d) (group_updates cur) \<and>
     list_all2 (\<lambda>m gs. table_holds m (group_updates gs)) (retired d) old \<and>
     (db_imm d = None \<or> retired d \<noteq> [] \<and> db_imm d = Some (last (retired d))) \<and>
     ((\<forall>r\<in>set (returned d). status_ok (snd r)) \<longrightarrow> log_ok (db_log d) cur)"

definition db_inv :: "SequenceNumber \<Rightarrow> 'f db \<Rightarrow> group list list \<Rightarrow> group list \<Rightarrow> bool" where
  "db_inv s0 d old cur \<longleftrightarrow> queue_inv d \<and> groups_inv s0 d (concat old @ cur) \<and> tables_inv d old cur"

lemmas db_inv_defs = db_inv_def queue_inv_def groups_inv_def tables_inv_def

lemma log_ok_new: "new_file f \<Longrightarrow> log_ok (Writer f) []"
  by (simp add: log_ok_def new_file_def Writer_def fresh_def durable_groups_def)

lemma log_ok_add:
  assumes "log_ok lw gs" "AddRecord app flush lw (group_record g) = (OK, lw')"
  shows "\<forall>w\<in>set (snd g). \<not> dw_sync w \<Longrightarrow> log_ok lw' (gs @ [g])"
    and "sync a (dest lw') = (OK, f) \<Longrightarrow> log_ok (lw'\<lparr>dest := f\<rparr>) (gs @ [g])"
proof -
  obtain n where n: "durable_groups lw gs n" using assms(1) by (auto simp: log_ok_def)
  have lw: "pending (dest lw) = []" "fresh lw" "block_offset lw = log_offset 0 (map group_record gs)"
    "written (dest lw) = log_content 0 (map group_record gs)" using assms(1) by (auto simp: log_ok_def)
  note a = AddRecord_writes [OF lw(1-3) assms(2)]
  have w: "written (dest lw') = log_content 0 (map group_record (gs @ [g]))" "pending (dest lw') = []" "fresh lw'"
    "block_offset lw' = log_offset 0 (map group_record (gs @ [g]))"
    using a(2) lw(4) by (simp_all add: log_content_snoc)
  show "log_ok lw' (gs @ [g])" if "\<forall>w\<in>set (snd g). \<not> dw_sync w"
  proof -
    have "durable_groups lw' (gs @ [g]) n" using n a(1) that by (auto simp: durable_groups_def)
    then show ?thesis using w by (auto simp: log_ok_def)
  qed
  show "log_ok (lw'\<lparr>dest := f\<rparr>) (gs @ [g])" if "sync a (dest lw') = (OK, f)"
  proof -
    have "durable_groups (lw'\<lparr>dest := f\<rparr>) (gs @ [g]) (length (gs @ [g]))" "written f = written (dest lw')" "pending f = []"
      using that sync_durable [OF w(2), of a] w(1) by (auto simp: durable_groups_def)
    then show ?thesis using w by (auto simp: log_ok_def fresh_def)
  qed
qed

text \<open>The front thread's work outside the lock always ends.\<close>

lemma write_end_spec:
  assumes "in_write d = Some (updates, in_tmp, lw)" "updates = group_record (last_sequence d + 1, w # ws)"
    and "hd (writers d) = w" "length (group_ops (w # ws)) < 2 ^ 31" "list_all op_ok (group_ops (w # ws))"
    and "\<forall>v\<in>set ws. dw_sync v \<longrightarrow> dw_sync w" "table_holds (db_mem d) us"
    and "ups_ok (us @ batch_updates (last_sequence d + 1) (group_ops (w # ws)))"
  shows "\<exists>s lg m e. write_end user app flush (sync a) d = Some (finish_group lw s (d\<lparr>db_log := lg, db_mem := m,
      in_write := None, bg_error := e, tmp_batch := (if in_tmp then wb_Clear else tmp_batch d),
      last_sequence := last_sequence d + of_nat (length (group_ops (w # ws)))\<rparr>)) \<and>
    (if s = OK then table_holds m (us @ batch_updates (last_sequence d + 1) (group_ops (w # ws))) else m = db_mem d) \<and>
    (s = OK \<longrightarrow> (\<forall>gs. log_ok (db_log d) gs \<longrightarrow> log_ok lg (gs @ [(last_sequence d + 1, w # ws)])))"
proof -
  let ?g = "(last_sequence d + 1, w # ws)" and ?ops = "group_ops (w # ws)"
  have rec: "group_record ?g = batch_rep (last_sequence d + 1) ?ops" by (simp add: group_record_def)
  have count: "wb_Count (batch_rep (last_sequence d + 1) ?ops) = int (length ?ops)"
    using assms(4) by (simp only: batch_Count sint_of_nat_u32)
  obtain m' where m': "mem_Add_all user (db_mem d) (batch_updates (last_sequence d + 1) ?ops) = Some m'"
    "table_holds m' (us @ batch_updates (last_sequence d + 1) ?ops)"
    using table_holds_Add_all [OF assms(7,8)] by blast
  note ins = InsertInto_batch [OF assms(5,4), of user "last_sequence d + 1" "db_mem d", unfolded m'(1)]
  obtain s1 log1 where add: "AddRecord app flush (db_log d) (group_record ?g) = (s1, log1)" by fastforce
  have nosync: "\<forall>v\<in>set (w # ws). \<not> dw_sync v" if "\<not> dw_sync w" using that assms(6) by auto
  consider "s1 \<noteq> OK" | "s1 = OK" "\<not> dw_sync w" | s f where "s1 = OK" "dw_sync w" "sync a (dest log1) = (s, f)" "s \<noteq> OK"
    | f where "s1 = OK" "dw_sync w" "sync a (dest log1) = (OK, f)" by (metis surj_pair)
  then show ?thesis
  proof cases
    case 1
    then show ?thesis
      using add rec count ins assms(1-3)
      by (intro exI [of _ s1] exI [of _ log1] exI [of _ "db_mem d"] exI [of _ "bg_error d"])
        (simp add: write_end_def Let_def)
  next
    case 2
    then show ?thesis
      using add rec count ins assms(1-3) m'(2) log_ok_add(1) [OF _ add [unfolded 2]] nosync
      by (intro exI [of _ OK] exI [of _ log1] exI [of _ m'] exI [of _ "bg_error d"])
        (simp add: write_end_def Let_def)
  next
    case 3
    then show ?thesis
      using add rec count ins assms(1-3)
      by (intro exI [of _ s] exI [of _ "log1\<lparr>dest := f\<rparr>"] exI [of _ "db_mem d"]
          exI [of _ "if status_ok (bg_error d) then s else bg_error d"])
        (simp add: write_end_def Let_def RecordBackgroundError_def)
  next
    case 4
    then show ?thesis
      using add rec count ins assms(1-3) m'(2) log_ok_add(2) [OF _ add [unfolded 4] 4(3)]
      by (intro exI [of _ OK] exI [of _ "log1\<lparr>dest := f\<rparr>"] exI [of _ m'] exI [of _ "bg_error d"])
        (simp add: write_end_def Let_def)
  qed
qed

lemma End_inv:
  assumes inv: "db_inv s0 d old cur" and calls: "calls_ok s0 (called d)" and wr: "in_write d = Some x"
  shows "\<exists>d'. write_end user app flush (sync a) d = Some d' \<and> called d' = called d \<and> (\<exists>cur'. db_inv s0 d' old cur')"
proof -
  obtain updates in_tmp lw where x: "in_write d = Some (updates, in_tmp, lw)" using wr by (cases x) auto
  then obtain w ws1 ws2 where g: "writers d = w # ws1 @ ws2" "lw = dw_id (last (w # ws1))"
    "updates = group_record (last_sequence d + 1, w # ws1)" "length (group_ops (w # ws1)) < 2 ^ 31"
    "\<forall>v\<in>set ws1. dw_sync v \<longrightarrow> dw_sync w"
    using inv by (auto simp: db_inv_defs group_in_write_def)
  let ?g = "(last_sequence d + 1, w # ws1)" and ?n = "length (group_ops (w # ws1))"
  have called: "called d = map fst (returned d) @ (w # ws1) @ ws2" using inv g(1) by (simp add: db_inv_defs)
  have ok: "\<forall>v\<in>set (w # ws1). writer_ok v" and dist: "distinct (map dw_id (w # ws1))"
    and bound: "unat (last_sequence d) + ?n \<le> unat kMaxSequenceNumber"
    using calls inv unfolding calls_ok_def called by (auto simp: db_inv_defs)
  note ops = group_ops_ok [OF ok]
  have us: "ups_ok (group_updates (concat old @ cur))" "\<forall>u\<in>set (group_updates (concat old @ cur)). up_seq u \<le> last_sequence d"
    using inv by (auto simp: db_inv_defs)
  note after = batch_updates_after [OF us bound ops]
  then have "ups_ok (group_updates cur @ batch_updates (last_sequence d + 1) (group_ops (w # ws1)))"
    using ups_ok_append [of "group_updates (concat old)"] by simp
  from write_end_spec [OF x g(3) _ g(4) ops g(5) _ this, of a] g(1) inv obtain s lg m e where
    e: "write_end user app flush (sync a) d = Some (finish_group lw s (d\<lparr>db_log := lg, db_mem := m,
      in_write := None, bg_error := e, tmp_batch := (if in_tmp then wb_Clear else tmp_batch d),
      last_sequence := last_sequence d + of_nat ?n\<rparr>))"
    "if s = OK then table_holds m (group_updates cur @ batch_updates (last_sequence d + 1) (group_ops (w # ws1))) else m = db_mem d"
    "s = OK \<longrightarrow> (\<forall>gs. log_ok (db_log d) gs \<longrightarrow> log_ok lg (gs @ [?g]))" by (auto simp: db_inv_defs)
  define d' where "d' = d\<lparr>db_log := lg, db_mem := m, in_write := None, bg_error := e,
      tmp_batch := (if in_tmp then wb_Clear else tmp_batch d), last_sequence := last_sequence d + of_nat ?n,
      writers := ws2, returned := returned d @ map (\<lambda>w. (w, s)) (w # ws1)\<rparr>"
  have d': "write_end user app flush (sync a) d = Some d'"
    using pop_group_prefix [OF _ dist, of s ws2] g(1,2) unfolding e(1) finish_group_def d'_def by simp
  have tmp: "tmp_batch d' = wb_Clear" using inv x by (auto simp: db_inv_defs d'_def)
  have queue: "queue_inv d'" using tmp called by (simp add: queue_inv_def d'_def)
  have seq: "unat (last_sequence d') = unat (last_sequence d) + ?n" using next_sequence [OF bound] by (simp add: d'_def)
  show ?thesis
  proof (cases "s = OK")
    case True
    have "group_ok ?g" unfolding group_ok_def snd_conv using ops g(4) by blast
    then have "groups_inv s0 d' (concat old @ cur @ [?g])"
      using inv seq after True by (auto simp: db_inv_defs d'_def)
    moreover have "tables_inv d' old (cur @ [?g])"
      using inv e(2,3) True by (auto simp: db_inv_defs d'_def)
    ultimately show ?thesis using d' queue by (auto simp: db_inv_def d'_def)
  next
    case False
    have "groups_inv s0 d' (concat old @ cur)"
      using inv seq after False by (auto simp: db_inv_defs d'_def)
    moreover have "tables_inv d' old cur"
      using inv e(2) False by (auto simp: db_inv_defs d'_def)
    ultimately show ?thesis using d' queue by (auto simp: db_inv_def d'_def)
  qed
qed

lemma observe_inv:
  assumes "db_inv s0 d old cur" "in_write d = None"
  shows "db_inv s0 (observe v d) old cur" "in_write (observe v d) = None"
    "writers (observe v d) = writers d @ rv_entered v" "called (observe v d) = called d @ rv_entered v"
  using assms by (auto simp: observe_def Let_def RecordBackgroundError_def db_inv_defs)

lemma table_holds_Ref [simp]: "table_holds (mem_Ref m) us = table_holds m us"
  by (simp add: table_holds_def mem_Ref_def)

lemma switch_inv:
  assumes "db_inv s0 d old cur" "in_write d = None" "new_file f"
  shows "db_inv s0 (switch_memtable f n (d\<lparr>next_file_number := k\<rparr>)) (old @ [cur]) []"
proof -
  have "list_all2 (\<lambda>m gs. table_holds m (group_updates gs)) (retired d @ [db_mem d]) (old @ [cur])"
    using assms(1) by (intro list_all2_appendI) (auto simp: db_inv_defs)
  then show ?thesis
    using assms log_ok_new [OF assms(3)] table_holds_empty
    by (simp add: switch_memtable_def db_inv_defs)
qed

lemma MakeRoom_inv:
  assumes "MakeRoomForWrite wbs vs force allow_delay d = Some (s, d')" "in_write d = None" "db_inv s0 d old cur"
    and "\<forall>v\<in>set vs. status_ok (fst (rv_new_file v)) \<longrightarrow> new_file (snd (rv_new_file v))"
  shows "\<exists>old' cur' ws. db_inv s0 d' old' cur' \<and> in_write d' = None \<and> writers d' = writers d @ ws \<and> called d' = called d @ ws"
  using assms
proof (induction vs arbitrary: force allow_delay d old cur)
  case (Cons v vs)
  note o = observe_inv [OF Cons.prems(3,2), of v]
  have go_on: ?case if "MakeRoomForWrite wbs vs force' delay' d1 = Some (s, d')" "db_inv s0 d1 old1 cur1"
    "in_write d1 = None" "writers d1 = writers (observe v d)" "called d1 = called (observe v d)"
    for force' delay' d1 old1 cur1
    using Cons.IH [OF that(1,3,2)] Cons.prems(4) that(4,5) o(3,4) by auto
  have stop: ?case if "d' = (observe v d)\<lparr>next_file_number := k\<rparr>" for k
    using that o by - (rule exI [of _ old], rule exI [of _ cur], rule exI [of _ "rv_entered v"],
      simp add: db_inv_defs group_in_write_def)
  let ?d = "observe v d"
  let ?delay = "allow_delay \<and> kL0_SlowdownWritesTrigger \<le> rv_l0_files v"
  let ?room = "\<not> force \<and> rv_mem_usage v \<le> wbs"
  let ?wait = "db_imm ?d \<noteq> None \<or> kL0_StopWritesTrigger \<le> rv_l0_files v"
  let ?d1 = "?d\<lparr>next_file_number := next_file_number ?d + 1\<rparr>"
  note room = Cons.prems(1) [unfolded MakeRoomForWrite.simps Let_def]
  consider "\<not> status_ok (bg_error ?d)" | "status_ok (bg_error ?d)" ?delay
    | "status_ok (bg_error ?d)" "\<not> ?delay" ?room | "status_ok (bg_error ?d)" "\<not> ?delay" "\<not> ?room" ?wait
    | "status_ok (bg_error ?d)" "\<not> ?delay" "\<not> ?room" "\<not> ?wait" by blast
  then show ?case
  proof cases
    case 1
    then show ?thesis using room stop [of "next_file_number ?d"] by simp
  next
    case 2
    then show ?thesis using room go_on [of force False ?d old cur] o(1,2) by simp
  next
    case 3
    then have "d' = ?d" using room by (auto split: if_splits)
    then show ?thesis using stop [of "next_file_number ?d"] by simp
  next
    case 4
    then show ?thesis using room go_on [of force allow_delay ?d old cur] o(1,2) by (auto split: if_splits)
  next
    case 5
    obtain s1 f where new: "rv_new_file v = (s1, f)" by fastforce
    show ?thesis
    proof (cases "s1 = OK")
      case True
      have "new_file f" using Cons.prems(4) new True by simp
      note sw = switch_inv [OF o(1,2) this, of "next_file_number ?d" "next_file_number ?d + 1"]
      have "MakeRoomForWrite wbs vs False allow_delay (switch_memtable f (next_file_number ?d) ?d1) = Some (s, d')"
        using room 5 new True by (simp add: NewFileNumber_def split: if_splits)
      then show ?thesis using o(2) by (intro go_on [OF _ sw]) (auto simp: switch_memtable_def)
    next
      case False
      then have "d' = ReuseFileNumber (next_file_number ?d) ?d1"
        using room 5 new by (simp add: NewFileNumber_def split: if_splits)
      then show ?thesis
        using stop [of "next_file_number ?d"] stop [of "next_file_number ?d + 1"]
        by (simp add: ReuseFileNumber_def split: if_splits)
    qed
  qed
qed simp

lemma Begin_inv:
  assumes "write_begin wbs vs d = Some d'" "in_write d = None" "writers d \<noteq> []" "db_inv s0 d old cur"
    and "\<forall>v\<in>set vs. status_ok (fst (rv_new_file v)) \<longrightarrow> new_file (snd (rv_new_file v))" "calls_ok s0 (called d')"
  shows "\<exists>old' cur' ws. db_inv s0 d' old' cur' \<and> called d' = called d @ ws"
proof -
  let ?w = "hd (writers d)"
  obtain s d1 where m: "MakeRoomForWrite wbs vs (dw_batch ?w = None) (dw_batch ?w \<noteq> None) d = Some (s, d1)"
    and d': "d' = (if status_ok s \<and> dw_batch ?w \<noteq> None then
          (case BuildBatchGroup (writers d1) (tmp_batch d1) of
             (updates, in_tmp, last_writer) \<Rightarrow>
               let updates1 = wb_SetSequence updates (last_sequence d1 + 1)
               in (d1\<lparr>in_write := Some (updates1, in_tmp, dw_id last_writer),
                           tmp_batch := (if in_tmp then updates1 else tmp_batch d1)\<rparr>))
        else finish_group (dw_id ?w) s d1)"
    using assms(1) by (auto simp: write_begin_def Let_def bind_eq_Some_conv split: if_splits prod.splits)
  from MakeRoom_inv [OF m assms(2,4,5)] obtain old' cur' ws where
    inv: "db_inv s0 d1 old' cur'" "in_write d1 = None" "writers d1 = writers d @ ws" "called d1 = called d @ ws" by blast
  obtain w vs where ws: "writers d1 = w # vs" "?w = w" using assms(3) inv(3) by (cases "writers d") auto
  have called: "called d1 = map fst (returned d1) @ w # vs" using inv(1) ws(1) by (simp add: db_inv_defs)
  show ?thesis
  proof (cases "status_ok s \<and> dw_batch w \<noteq> None")
    case True
    then obtain b where b: "dw_batch w = Some b" by auto
    have tmp: "tmp_batch d1 = wb_Clear" using inv(1,2) by (simp add: db_inv_defs)
    obtain updates in_tmp lw where g: "BuildBatchGroup (w # vs) (tmp_batch d1) = (updates, in_tmp, lw)"
      using prod_cases3 by blast
    then have d'2: "d' = d1\<lparr>in_write := Some (wb_SetSequence updates (last_sequence d1 + 1), in_tmp, dw_id lw),
        tmp_batch := (if in_tmp then wb_SetSequence updates (last_sequence d1 + 1) else tmp_batch d1)\<rparr>"
      using d' ws True by (simp add: Let_def)
    have "\<forall>v\<in>set (w # vs). writer_ok v" using assms(6) called d'2 by (auto simp: calls_ok_def)
    from BuildBatchGroup_spec [OF this b tmp, of "last_sequence d1 + 1"] obtain ws1 ws2 where
      "vs = ws1 @ ws2" "lw = last (w # ws1)"
      "wb_SetSequence updates (last_sequence d1 + 1) = group_record (last_sequence d1 + 1, w # ws1)"
      "length (group_ops (w # ws1)) < 2 ^ 31" "\<forall>v\<in>set ws1. dw_sync v \<longrightarrow> dw_sync w"
      using g by (auto simp: group_record_def)
    then have "group_in_write d' (wb_SetSequence updates (last_sequence d1 + 1)) (dw_id lw)"
      unfolding group_in_write_def d'2 by - (rule exI [of _ w], rule exI [of _ ws1], rule exI [of _ ws2], simp add: ws)
    then have "db_inv s0 d' old' cur'"
      using inv(1) tmp by (auto simp: db_inv_defs d'2)
    moreover have "called d' = called d @ ws" using inv(4) d'2 by simp
    ultimately show ?thesis by blast
  next
    case False
    then have d'2: "d' = d1\<lparr>writers := vs, returned := returned d1 @ [(w, s)]\<rparr>"
      using d' ws by (auto simp: finish_group_def)
    have "group_ops [w] = [] \<or> s \<noteq> OK" using False writer_ops_None [of w] by auto
    then have "db_inv s0 d' old' cur'"
      using inv(1,2) called by (auto simp: db_inv_defs d'2)
    moreover have "called d' = called d @ ws" using inv(4) d'2 by simp
    ultimately show ?thesis by blast
  qed
qed

lemma Enter_inv:
  assumes "db_inv s0 d old cur"
  shows "db_inv s0 (enter w d) old cur"
proof -
  have "group_in_write (enter w d) updates lw" if g: "group_in_write d updates lw" for updates lw
  proof -
    obtain v ws1 ws2 where "writers d = v # ws1 @ ws2" "lw = dw_id (last (v # ws1))"
      "updates = group_record (last_sequence d + 1, v # ws1)" "length (group_ops (v # ws1)) < 2 ^ 31"
      "\<forall>u\<in>set ws1. dw_sync u \<longrightarrow> dw_sync v" using g unfolding group_in_write_def by blast
    then show ?thesis
      unfolding group_in_write_def by - (rule exI [of _ v], rule exI [of _ ws1], rule exI [of _ "ws2 @ [w]"], simp add: enter_def)
  qed
  then have "queue_inv (enter w d)" using assms by (auto simp: db_inv_def queue_inv_def enter_def)
  then show ?thesis using assms by (simp add: db_inv_defs enter_def)
qed

text \<open>A database that was just opened with an empty log.\<close>

definition db_start :: "SequenceNumber \<Rightarrow> 'f db \<Rightarrow> bool" where
  "db_start s0 d \<longleftrightarrow> writers d = [] \<and> called d = [] \<and> returned d = [] \<and> in_write d = None \<and> tmp_batch d = wb_Clear \<and>
     last_sequence d = s0 \<and> table_holds (db_mem d) [] \<and> db_imm d = None \<and> retired d = [] \<and>
     (\<exists>f. new_file f \<and> db_log d = Writer f)"

lemma db_reach_inv:
  assumes "db_reach user app flush sync new_file wbs d0 d" "db_start s0 d0" "calls_ok s0 (called d)"
  shows "\<exists>old cur. db_inv s0 d old cur"
  using assms(1,3)
proof (induction rule: db_reach.induct)
  case Start
  then show ?case
    using assms(2) log_ok_new
    by - (rule exI [of _ "[]"], rule exI [of _ "[]"], auto simp: db_start_def db_inv_defs ups_ok_def)
next
  case (Step d d')
  obtain ws where called: "called d' = called d @ ws" using db_step_called [OF Step.hyps(2)] by blast
  then have calls: "calls_ok s0 (called d)" using Step.prems calls_ok_append by simp
  obtain old cur where inv: "db_inv s0 d old cur" using Step.IH [OF calls] by blast
  from Step.hyps(2) show ?case
  proof (cases rule: db_step.cases)
    case (Enter w)
    then show ?thesis using Enter_inv [OF inv] by blast
  next
    case (Begin vs)
    then show ?thesis using Begin_inv [OF _ _ _ inv _ Step.prems] by blast
  next
    case (End a)
    then obtain x where "in_write d = Some x" by (auto simp: write_end_def split: option.splits)
    with End End_inv [OF inv calls] show ?thesis by (metis option.inject)
  qed
qed

end

definition empty_file :: "posix_wfile \<Rightarrow> bool" where
  "empty_file f \<longleftrightarrow> k_bytes (w_fd f) = [] \<and> w_buf f = [] \<and> k_durable (w_fd f) = []"

abbreviation log_sync :: "(int + sync_answer) \<times> sync_answer \<Rightarrow> posix_wfile \<Rightarrow> status \<times> posix_wfile" where
  "log_sync \<equiv> \<lambda>(dir_ans, ans). posix_Sync dir_ans ans"

interpretation posix_db: db_store posix_Append posix_Flush "\<lambda>w. k_bytes (w_fd w)" w_buf kWritableFileBufferSize
  log_sync "\<lambda>w. k_durable (w_fd w)" BytewiseComparator ..

text \<open>A memory table that answers every lookup from the updates of the given groups.\<close>

definition table_answers :: "memtable \<Rightarrow> group list \<Rightarrow> bool" where
  "table_answers m gs \<longleftrightarrow> (\<forall>uk snapshot. length uk + 8 < 2 ^ 32 \<longrightarrow> snapshot \<le> kMaxSequenceNumber \<longrightarrow>
     mem_Get BytewiseComparator m (make_LookupKey uk snapshot) =
       Some (lookup_result (visible BytewiseComparator (group_updates gs) uk snapshot)))"

lemma table_answers_holds: "bytewise.table_holds m (group_updates gs) \<Longrightarrow> ups_ok (group_updates gs) \<Longrightarrow> table_answers m gs"
  by (simp add: table_answers_def bytewise.table_Get)

lemma ups_ok_segment: "ups_ok (group_updates (concat segs)) \<Longrightarrow> gs \<in> set segs \<Longrightarrow> ups_ok (group_updates gs)"
  by (auto dest!: split_list ups_ok_append)

lemma posix_reach_inv:
  assumes "db_reach BytewiseComparator posix_Append posix_Flush log_sync empty_file wbs (new_db s0 n f0) d"
    and "empty_file f0" "calls_ok s0 (called d)"
  obtains old cur where "posix_db.db_inv s0 d old cur"
proof -
  have new: "posix_db.new_file = empty_file"
    by (auto simp: posix_db.new_file_def empty_file_def)
  have "posix_db.db_start s0 (new_db s0 n f0)"
    using assms(2) bytewise.table_holds_empty
    by (auto simp: posix_db.db_start_def new_db_def WriteBatch_def new)
  then show thesis using posix_db.db_reach_inv [OF _ _ assms(3)] assms(1) that unfolding new by blast
qed

lemma tables_answer:
  assumes "list_all2 (\<lambda>m gs. bytewise.table_holds m (group_updates gs)) ms segs" "ups_ok (group_updates (concat segs))"
  shows "list_all2 table_answers ms segs"
  using assms(1)
  by (rule list.rel_mono_strong) (use assms(2) ups_ok_segment table_answers_holds in blast)

lemma inv_tables_answer:
  assumes "posix_db.db_inv s0 d old cur"
  shows "list_all2 table_answers (retired d @ [db_mem d]) (old @ [cur])"
  using assms by (intro tables_answer list_all2_appendI) (auto simp: posix_db.db_inv_defs)

section \<open>Properties\<close>


definition sample_writer :: "nat \<Rightarrow> batch_op \<Rightarrow> db_writer" where
  "sample_writer i op = \<lparr>dw_id = i, dw_batch = Some (apply_op WriteBatch op), dw_sync = False\<rparr>"

abbreviation "sample_writer1 \<equiv> sample_writer 1 (Put_op [107] [1])"
abbreviation "sample_writer2 \<equiv> sample_writer 2 (Delete_op [107])"

text \<open>A log file whose writes all complete.\<close>

definition quiet_file :: posix_wfile where
  "quiet_file = PosixWritableFile (cstr ''db/000003.log'') (sample_kernel\<lparr>k_writes := []\<rparr>)"

definition sample_queue :: "posix_wfile db" where
  "sample_queue = enter sample_writer2 (enter sample_writer1 (new_db 7 3 quiet_file))"

definition sample_view :: "posix_wfile room_view" where
  "sample_view = \<lparr>rv_entered = [], rv_bg_error = OK, rv_imm_done = False, rv_l0_files = 0, rv_mem_usage = 100,
     rv_new_file = (OK, quiet_file)\<rparr>"

lemma sample_writer_ok: "op_ok op \<Longrightarrow> writer_ok (sample_writer i op) \<and> writer_ops (sample_writer i op) = [op]"
proof -
  assume op: "op_ok op"
  have b: "dw_batch (sample_writer i op) = Some (batch_rep 0 [op])"
    using batch_apply [of 0 "[]" op] by (simp add: sample_writer_def batch_Clear)
  have "\<exists>s ops. batch_rep 0 [op] = batch_rep s ops \<and> list_all op_ok ops \<and> length ops < 2 ^ 31"
    using op by (intro exI [of _ 0] exI [of _ "[op]"]) simp
  with b have ok: "writer_ok (sample_writer i op)" by (simp add: writer_ok_def)
  moreover have "writer_ops (sample_writer i op) = [op]"
    using b op collect_fold [of "[op]" "[]"] by (simp add: writer_ops_def Iterate_batch)
  ultimately show ?thesis by blast
qed

lemma sample_begun:
  obtains d where "write_begin 4096 [sample_view] sample_queue = Some d" "in_write d \<noteq> None" "called d = [sample_writer1, sample_writer2]"
    "returned d = []" "retired d = []" "db_log d = Writer quiet_file"
proof -
  let ?b = "BuildBatchGroup [sample_writer1, sample_writer2] WriteBatch"
  obtain r i lw where b: "?b = (r, i, lw)" using prod_cases3 by blast
  then have "\<exists>d. write_begin 4096 [sample_view] sample_queue = Some d \<and> in_write d \<noteq> None \<and> called d = [sample_writer1, sample_writer2] \<and>
      returned d = [] \<and> retired d = [] \<and> db_log d = Writer quiet_file"
    by (simp add: write_begin_def sample_queue_def sample_view_def enter_def new_db_def observe_def
        kL0_SlowdownWritesTrigger_def Let_def sample_writer_def [of "Suc 0"])
  with that show thesis by blast
qed

lemma sample_reach:
  assumes "write_begin 4096 [sample_view] sample_queue = Some d" "called d = [sample_writer1, sample_writer2]"
  shows "db_reach BytewiseComparator posix_Append posix_Flush log_sync empty_file 4096 (new_db 7 3 quiet_file) d"
    "empty_file quiet_file" "calls_ok 7 (called d)"
proof -
  let ?reach = "db_reach BytewiseComparator posix_Append posix_Flush log_sync empty_file 4096 (new_db 7 3 quiet_file)"
  show empty: "empty_file quiet_file"
    by (simp add: empty_file_def quiet_file_def PosixWritableFile_def sample_kernel_def)
  have queue: "?reach sample_queue" unfolding sample_queue_def
    by (rule db_reach.Step [OF db_reach.Step [OF db_reach.Start db_step.Enter] db_step.Enter])
  have front: "writers sample_queue \<noteq> []" "in_write sample_queue = None"
    by (simp_all add: sample_queue_def enter_def new_db_def)
  have files: "\<forall>v\<in>set [sample_view]. status_ok (fst (rv_new_file v)) \<longrightarrow> empty_file (snd (rv_new_file v))"
    using empty by (simp add: sample_view_def)
  show "?reach d" by (rule db_reach.Step [OF queue db_step.Begin [OF front assms(1) files]])
  show "calls_ok 7 (called d)"
    using sample_writer_ok [of "Put_op [107] [1]" 1] sample_writer_ok [of "Delete_op [107]" 2] unfolding assms(2)
    by (simp add: calls_ok_def fits_def kMaxSequenceNumber_unat) (simp add: sample_writer_def)
qed


end
