(* ===== verification/Ldb_Recover.thy ===== *)
theory Ldb_Recover
  imports Ldb_Db_Write_Props
begin

unbundle bit_operations_syntax

text \<open>
  Recovery of a log, \<^verbatim>\<open>DBImpl::RecoverLogFile\<close> in \<^verbatim>\<open>leveldb-library/db/db_impl.cc\<close>, and the
  promise that the write path and the recovery keep together: after a crash the database has a
  prefix of the updates that were acknowledged, with every synchronised one in it. The
  memory that a table uses, and whether a level-0 table can be written, are
  arguments.
\<close>

section \<open>RecoverLogFile\<close>

definition MaybeIgnoreError :: "bool \<Rightarrow> status \<Rightarrow> status" where
  "MaybeIgnoreError paranoid_checks s = (if status_ok s \<or> paranoid_checks then s else OK)"

text \<open>\<^verbatim>\<open>LogReporter::Corruption\<close>; its \<^verbatim>\<open>status\<close> is null unless checks are paranoid.\<close>

definition reporter_Corruption :: "bool \<Rightarrow> status \<Rightarrow> status \<Rightarrow> status" where
  "reporter_Corruption paranoid_checks s status = (if paranoid_checks \<and> status_ok status then s else status)"

text \<open>The options, and the answers of the rest of the system.\<close>

record recover_env =
  paranoid_checks :: bool
  reuse_logs :: bool
  write_buffer_size :: nat
  mem_usage :: "memtable \<Rightarrow> nat"
  write_level0 :: "nat \<Rightarrow> memtable \<Rightarrow> status"

text \<open>
  The local variables and the variables of the caller. The tables given to \<^verbatim>\<open>WriteLevel0Table\<close> are
  listed in order; the first argument of \<open>write_level0\<close> counts them.
\<close>

record 'f recover_state =
  rs_reader :: "'f log_reader"
  rs_status :: status
  rs_mem :: "memtable option"
  rs_max_sequence :: SequenceNumber
  rs_save_manifest :: bool
  rs_compactions :: int
  rs_tables :: "memtable list"

definition WriteLevel0 :: "recover_env \<Rightarrow> memtable \<Rightarrow> 'f recover_state \<Rightarrow> 'f recover_state" where
  "WriteLevel0 env m st =
     st\<lparr>rs_save_manifest := True, rs_status := write_level0 env (length (rs_tables st)) m,
        rs_tables := rs_tables st @ [m]\<rparr>"

text \<open>The body of the loop: whether it goes on, and the state; nothing if the insertion does not end.\<close>

definition recover_record ::
  "comparator \<Rightarrow> recover_env \<Rightarrow> slice \<Rightarrow> 'f recover_state \<Rightarrow> (bool \<times> 'f recover_state) option" where
  "recover_record user env rec st =
     (if length rec < 12 then
        Some (True, st\<lparr>rs_status :=
          reporter_Corruption (paranoid_checks env) (Corruption (cstr ''log record too small'') []) (rs_status st)\<rparr>)
      else
        let batch = wb_SetContents rec;
            m = (case rs_mem st of None \<Rightarrow> mem_Ref MemTable | Some m \<Rightarrow> m);
            (s, m1) = InsertInto user batch m;
            status = MaybeIgnoreError (paranoid_checks env) s
        in Option.bind m1 (\<lambda>m1.
             let st1 = st\<lparr>rs_mem := Some m1, rs_status := status\<rparr> in
             if \<not> status_ok status then Some (False, st1)
             else
               let last_seq = wb_Sequence batch + of_int (wb_Count batch) - 1;
                   st2 = (if rs_max_sequence st1 < last_seq then st1\<lparr>rs_max_sequence := last_seq\<rparr> else st1)
               in
               if write_buffer_size env < mem_usage env m1 then
                 let st3 = (WriteLevel0 env m1 (st2\<lparr>rs_compactions := rs_compactions st2 + 1\<rparr>))\<lparr>rs_mem := None\<rparr>
                 in Some (status_ok (rs_status st3), st3)
               else Some (True, st2)))"

text \<open>What the reader reports during a call reaches the status before the condition of the loop looks at it.\<close>

definition take_reports :: "recover_env \<Rightarrow> 'f log_reader \<Rightarrow> 'f recover_state \<Rightarrow> 'f recover_state" where
  "take_reports env r st =
     st\<lparr>rs_reader := r,
        rs_status := fold (\<lambda>(bytes, s). reporter_Corruption (paranoid_checks env) s)
          (drop (length (reports (rs_reader st))) (reports r)) (rs_status st)\<rparr>"

partial_function (option) recover_loop ::
  "'f freader \<Rightarrow> 'f fskipper \<Rightarrow> comparator \<Rightarrow> recover_env \<Rightarrow> 'f recover_state \<Rightarrow> 'f recover_state option" where
  "recover_loop rd skip user env st =
     (case ReadRecord rd skip (rs_reader st) of
        None \<Rightarrow> None
      | Some (None, r) \<Rightarrow> Some (take_reports env r st)
      | Some (Some rec, r) \<Rightarrow>
          let st1 = take_reports env r st in
          if \<not> status_ok (rs_status st1) then Some st1
          else Option.bind (recover_record user env rec st1) (\<lambda>(go_on, st2).
                 if go_on then recover_loop rd skip user env st2 else Some st2))"

text \<open>
  The results: the status, the variables of the caller, the tables written, and what was installed
  if the log is used again: its writer, its number and the memory table.
\<close>

record 'g recovered =
  rc_status :: status
  rc_max_sequence :: SequenceNumber
  rc_save_manifest :: bool
  rc_tables :: "memtable list"
  rc_log :: "('g log_writer \<times> u64 \<times> memtable) option"

text \<open>
  The end of the function: the log is used again if it may be and its size is known and it can be
  opened for appending; a table that was not reused is written out.
\<close>

definition recover_finish ::
  "recover_env \<Rightarrow> u64 \<Rightarrow> bool \<Rightarrow> status \<times> u64 \<Rightarrow> status \<times> 'g \<Rightarrow> 'f recover_state \<Rightarrow> 'g recovered" where
  "recover_finish env log_number last_log file_size appendable st =
     (let reuse = status_ok (rs_status st) \<and> reuse_logs env \<and> last_log \<and> rs_compactions st = 0 \<and>
            status_ok (fst file_size) \<and> status_ok (fst appendable);
          reused = (if reuse then
              Some (Writer_at (snd appendable) (snd file_size), log_number,
                    case rs_mem st of Some m \<Rightarrow> m | None \<Rightarrow> mem_Ref MemTable)
            else None);
          left_mem = (if reuse then None else rs_mem st);
          st1 = (case left_mem of
                   None \<Rightarrow> st
                 | Some m \<Rightarrow> if status_ok (rs_status st) then WriteLevel0 env m st else st)
      in \<lparr>rc_status = rs_status st1, rc_max_sequence = rs_max_sequence st1, rc_save_manifest = rs_save_manifest st1,
          rc_tables = rs_tables st1, rc_log = reused\<rparr>)"

definition RecoverLogFile ::
  "'f freader \<Rightarrow> 'f fskipper \<Rightarrow> comparator \<Rightarrow> recover_env \<Rightarrow> u64 \<Rightarrow> bool \<Rightarrow> status \<times> 'f \<Rightarrow> status \<times> u64 \<Rightarrow>
   status \<times> 'g \<Rightarrow> bool \<Rightarrow> SequenceNumber \<Rightarrow> 'g recovered option" where
  "RecoverLogFile rd skip user env log_number last_log opened file_size appendable save_manifest max_sequence =
     (if \<not> status_ok (fst opened) then
        Some \<lparr>rc_status = MaybeIgnoreError (paranoid_checks env) (fst opened), rc_max_sequence = max_sequence,
              rc_save_manifest = save_manifest, rc_tables = [], rc_log = None\<rparr>
      else
        Option.bind
          (recover_loop rd skip user env
             \<lparr>rs_reader = Reader (snd opened) True True 0, rs_status = OK, rs_mem = None,
              rs_max_sequence = max_sequence, rs_save_manifest = save_manifest, rs_compactions = 0, rs_tables = []\<rparr>)
          (\<lambda>st. Some (recover_finish env log_number last_log file_size appendable st)))"

section \<open>What recovery rebuilds\<close>

definition recovered_tables :: "'g recovered \<Rightarrow> memtable list" where
  "recovered_tables rc = rc_tables rc @ (case rc_log rc of None \<Rightarrow> [] | Some (_, _, m) \<Rightarrow> [m])"

definition group_last :: "group \<Rightarrow> SequenceNumber" where
  "group_last g = fst g + of_nat (length (group_ops (snd g))) - 1"

lemma group_record_parts:
  assumes "group_ok g"
  shows "12 \<le> length (group_record g)" "wb_Sequence (group_record g) + of_int (wb_Count (group_record g)) - 1 = group_last g"
    "InsertInto user (wb_SetContents (group_record g)) m = (OK, mem_Add_all user m (batch_updates (fst g) (group_ops (snd g))))"
  using assms InsertInto_batch [of "group_ops (snd g)"]
  by (simp_all add: group_record_def group_ok_def group_last_def wb_SetContents_def batch_Count sint_of_nat_u32)
    (simp add: batch_rep_def)

context user_comparator
begin

text \<open>The tables written out and the one being filled hold the groups read so far.\<close>

definition rec_holds :: "'f recover_state \<Rightarrow> group list list \<Rightarrow> group list \<Rightarrow> bool" where
  "rec_holds st segs cur \<longleftrightarrow> list_all2 (\<lambda>m gs. table_holds m (group_updates gs)) (rs_tables st) segs \<and>
     (case rs_mem st of None \<Rightarrow> cur = [] | Some m \<Rightarrow> table_holds m (group_updates cur))"

lemma recover_record_group:
  assumes "rec_holds st segs cur" "ups_ok (group_updates (concat segs @ cur @ [g]))" "group_ok g"
    and "\<forall>i m. write_level0 env i m = OK"
  shows "\<exists>st' segs' cur'. recover_record user env (group_record g) st = Some (True, st') \<and> rs_status st' = OK \<and>
    rec_holds st' segs' cur' \<and> concat segs' @ cur' = concat segs @ cur @ [g] \<and> rs_reader st' = rs_reader st \<and>
    rs_max_sequence st' = max (rs_max_sequence st) (group_last g)"
proof -
  let ?m = "case rs_mem st of None \<Rightarrow> mem_Ref MemTable | Some m \<Rightarrow> m"
  have "table_holds ?m (group_updates cur)"
    using assms(1) table_holds_empty by (auto simp: rec_holds_def table_holds_def mem_Ref_def split: option.splits)
  moreover have "ups_ok (group_updates cur @ batch_updates (fst g) (group_ops (snd g)))"
    using assms(2) ups_ok_append [of "group_updates (concat segs)"] by simp
  ultimately obtain m1 where m1: "mem_Add_all user ?m (batch_updates (fst g) (group_ops (snd g))) = Some m1"
    "table_holds m1 (group_updates (cur @ [g]))" using table_holds_Add_all by fastforce
  have ok: "MaybeIgnoreError p OK = OK" for p by (simp add: MaybeIgnoreError_def)
  note parts = group_record_parts [OF assms(3)]
  have seq: "wb_Sequence (wb_SetContents (group_record g)) + of_int (wb_Count (wb_SetContents (group_record g))) - 1 = group_last g"
    using parts(2) by (simp add: wb_SetContents_def)
  define st1 where "st1 = st\<lparr>rs_mem := Some m1, rs_status := OK\<rparr>"
  define st2 where "st2 = (if rs_max_sequence st1 < group_last g then st1\<lparr>rs_max_sequence := group_last g\<rparr> else st1)"
  have step: "recover_record user env (group_record g) st =
      (if write_buffer_size env < mem_usage env m1 then
         let st3 = (WriteLevel0 env m1 (st2\<lparr>rs_compactions := rs_compactions st2 + 1\<rparr>))\<lparr>rs_mem := None\<rparr>
         in Some (status_ok (rs_status st3), st3)
       else Some (True, st2))"
    using parts(1) unfolding recover_record_def
    by (simp only: parts(3) m1(1) ok seq Let_def prod.case Option.bind_lunit st2_def st1_def) simp
  have st2: "rs_status st2 = OK" "rs_mem st2 = Some m1" "rs_tables st2 = rs_tables st"
    "rs_reader st2 = rs_reader st" "rs_max_sequence st2 = max (rs_max_sequence st) (group_last g)"
    by (auto simp: st2_def st1_def max_def)
  show ?thesis
  proof (cases "write_buffer_size env < mem_usage env m1")
    case True
    let ?st3 = "(WriteLevel0 env m1 (st2\<lparr>rs_compactions := rs_compactions st2 + 1\<rparr>))\<lparr>rs_mem := None\<rparr>"
    have "rec_holds ?st3 (segs @ [cur @ [g]]) []"
      using assms(1) m1(2) st2(3) by (auto simp: rec_holds_def WriteLevel0_def intro: list_all2_appendI)
    then show ?thesis
      using True step st2 assms(4)
      by (intro exI [of _ ?st3] exI [of _ "segs @ [cur @ [g]]"] exI [of _ "[]"]) (simp add: WriteLevel0_def Let_def)
  next
    case False
    have "rec_holds st2 segs (cur @ [g])" using assms(1) m1(2) st2(2,3) by (simp add: rec_holds_def)
    then show ?thesis
      using False step st2 by (intro exI [of _ st2] exI [of _ segs] exI [of _ "cur @ [g]"]) simp
  qed
qed

lemma recover_loop_groups:
  assumes "quiet_reads rd skip (rs_reader st) (map group_record gs) r'" "rs_status st = OK" "rec_holds st segs cur"
    and "ups_ok (group_updates (concat segs @ cur @ gs))" "\<forall>g\<in>set gs. group_ok g" "\<forall>i m. write_level0 env i m = OK"
  shows "\<exists>st' segs' cur'. recover_loop rd skip user env st = Some st' \<and> rs_status st' = OK \<and>
    rec_holds st' segs' cur' \<and> concat segs' @ cur' = concat segs @ cur @ gs \<and>
    rs_max_sequence st' = fold (\<lambda>g s. max s (group_last g)) gs (rs_max_sequence st)"
  using assms(1-5)
proof (induction gs arbitrary: st segs cur)
  case Nil
  then show ?case
    by (subst recover_loop.simps)
      (intro exI [of _ "take_reports env r' st"] exI [of _ segs] exI [of _ cur], simp add: take_reports_def rec_holds_def)
next
  case (Cons g gs)
  obtain r1 where r1: "ReadRecord rd skip (rs_reader st) = Some (Some (group_record g), r1)"
    "reports r1 = reports (rs_reader st)" "quiet_reads rd skip r1 (map group_record gs) r'"
    using Cons.prems(1) by auto
  let ?st1 = "take_reports env r1 st"
  have st1: "rs_reader ?st1 = r1" "rs_status ?st1 = OK" "rec_holds ?st1 segs cur" "rs_max_sequence ?st1 = rs_max_sequence st"
    using r1(2) Cons.prems(2,3) by (simp_all add: take_reports_def rec_holds_def)
  have ups: "ups_ok (group_updates (concat segs @ cur @ [g]))"
    using Cons.prems(4) ups_ok_append [of "group_updates (concat segs @ cur @ [g])" "group_updates gs"] by simp
  have "group_ok g" using Cons.prems(5) by simp
  from recover_record_group [OF st1(3) ups this assms(6)] obtain st2 segs2 cur2 where
    st2: "recover_record user env (group_record g) ?st1 = Some (True, st2)" "rs_status st2 = OK" "rec_holds st2 segs2 cur2"
    "concat segs2 @ cur2 = concat segs @ cur @ [g]" "rs_reader st2 = r1"
    "rs_max_sequence st2 = max (rs_max_sequence st) (group_last g)" using st1 by auto
  have all: "concat segs2 @ cur2 @ gs = concat segs @ cur @ g # gs"
    using arg_cong [OF st2(4), of "\<lambda>x. x @ gs"] by simp
  have "ups_ok (group_updates (concat segs2 @ cur2 @ gs))" unfolding all by (rule Cons.prems(4))
  from Cons.IH [OF _ st2(2,3) this] r1(3) st2(5) Cons.prems(5) obtain st' segs' cur' where
    "recover_loop rd skip user env st2 = Some st'" "rs_status st' = OK" "rec_holds st' segs' cur'"
    "concat segs' @ cur' = concat segs2 @ cur2 @ gs"
    "rs_max_sequence st' = fold (\<lambda>g s. max s (group_last g)) gs (rs_max_sequence st2)" by auto
  moreover from this(4) have "concat segs' @ cur' = concat segs @ cur @ g # gs" unfolding all .
  moreover have "recover_loop rd skip user env st = recover_loop rd skip user env st2"
    using r1(1) st1(2) st2(1) by (subst recover_loop.simps) simp
  ultimately show ?case using st2(6) by auto
qed

lemma RecoverLogFile_groups:
  assumes "quiet_reads rd skip (Reader sf True True 0) (map group_record gs) r'"
    and "ups_ok (group_updates gs)" "\<forall>g\<in>set gs. group_ok g" "\<forall>i m. write_level0 env i m = OK"
  shows "\<exists>rc segs. RecoverLogFile rd skip user env n last_log (OK, sf) file_size appendable save max0 = Some rc \<and>
    rc_status rc = OK \<and> concat segs = gs \<and>
    list_all2 (\<lambda>m gs. table_holds m (group_updates gs)) (recovered_tables rc) segs \<and>
    rc_max_sequence rc = fold (\<lambda>g s. max s (group_last g)) gs max0"
proof -
  let ?st = "\<lparr>rs_reader = Reader sf True True 0, rs_status = OK, rs_mem = None, rs_max_sequence = max0,
    rs_save_manifest = save, rs_compactions = 0, rs_tables = []\<rparr>"
  have "rec_holds ?st [] []" by (simp add: rec_holds_def)
  from recover_loop_groups [OF _ _ this, of rd skip gs r' env] assms obtain st segs cur where
    st: "recover_loop rd skip user env ?st = Some st" "rs_status st = OK" "rec_holds st segs cur" "concat segs @ cur = gs"
    "rs_max_sequence st = fold (\<lambda>g s. max s (group_last g)) gs max0" by auto
  let ?rc = "recover_finish env n last_log file_size appendable st"
  have run: "RecoverLogFile rd skip user env n last_log (OK, sf) file_size appendable save max0 = Some ?rc"
    using st(1) by (simp add: RecoverLogFile_def)
  have ok: "rc_status ?rc = OK" "rc_max_sequence ?rc = rs_max_sequence st"
    using st(2) assms(4) by (auto simp: recover_finish_def Let_def WriteLevel0_def split: option.split)
  have "\<exists>segs'. concat segs' = gs \<and> list_all2 (\<lambda>m gs. table_holds m (group_updates gs)) (recovered_tables ?rc) segs'"
  proof -
    let ?P = "\<lambda>m gs. table_holds m (group_updates gs)"
    have segs: "list_all2 ?P (rs_tables st) segs" using st(3) by (simp add: rec_holds_def)
    then have more: "list_all2 ?P (rs_tables st @ [m]) (segs @ [cur])" if "table_holds m (group_updates cur)" for m
      using that by (intro list_all2_appendI) auto
    have fresh: "table_holds (mem_Ref MemTable) []"
      using table_holds_empty by (simp add: table_holds_def mem_Ref_def)
    have "recovered_tables ?rc = rs_tables st \<and> rs_mem st = None \<or>
        (\<exists>m. recovered_tables ?rc = rs_tables st @ [m] \<and> (rs_mem st = Some m \<or> rs_mem st = None \<and> m = mem_Ref MemTable))"
      using st(2) by (auto simp: recovered_tables_def recover_finish_def Let_def WriteLevel0_def split: option.split)
    then show ?thesis
    proof (elim disjE exE conjE)
      assume *: "recovered_tables ?rc = rs_tables st" "rs_mem st = None"
      then have "cur = []" using st(3) by (simp add: rec_holds_def)
      with * st(4) segs show ?thesis by auto
    next
      fix m
      assume *: "recovered_tables ?rc = rs_tables st @ [m]" "rs_mem st = Some m"
      with more [of m] st(3,4) show ?thesis by (intro exI [of _ "segs @ [cur]"]) (simp add: rec_holds_def)
    next
      fix m
      assume *: "recovered_tables ?rc = rs_tables st @ [m]" "rs_mem st = None" "m = mem_Ref MemTable"
      with more [of m] fresh st(3,4) show ?thesis by (intro exI [of _ "segs @ [cur]"]) (simp add: rec_holds_def)
    qed
  qed
  then show ?thesis using run ok st(5) by auto
qed

end

lemma batch_updates_last: "ops \<noteq> [] \<Longrightarrow> up_seq (last (batch_updates s ops)) = s + of_nat (length ops) - 1"
proof (induction ops arbitrary: s)
  case (Cons op ops)
  show ?case
  proof (cases "ops = []")
    case False
    then have "batch_updates (s + 1) ops \<noteq> []" by (cases ops) auto
    then show ?thesis using Cons.IH [OF False, of "s + 1"] by (simp add: algebra_simps)
  qed simp
qed simp

lemma ups_ok_last: "ups_ok us \<Longrightarrow> u \<in> set us \<Longrightarrow> up_seq u \<le> up_seq (last us)"
  by (cases us rule: rev_cases) (auto simp: ups_ok_def sorted_wrt_append intro: less_imp_le)

lemma group_last_bound:
  assumes "ups_ok (group_updates gs)" "u \<in> set (group_updates gs)"
  shows "up_seq u \<le> fold (\<lambda>g s. max s (group_last g)) gs s0"
proof -
  have mono: "x \<le> s0' \<Longrightarrow> x \<le> fold (\<lambda>g s. max s (group_last g)) hs s0'" for x s0' and hs :: "group list"
    by (induction hs arbitrary: s0') (auto simp: le_max_iff_disj)
  obtain g where g: "g \<in> set gs" "u \<in> set (batch_updates (fst g) (group_ops (snd g)))"
    using assms(2) by (auto simp: group_updates_def)
  have "ups_ok (batch_updates (fst g) (group_ops (snd g)))"
    using ups_ok_segment [of "map (\<lambda>g. [g]) gs" "[g]"] assms(1) g(1) by simp
  from ups_ok_last [OF this g(2)] have "up_seq u \<le> group_last g"
    using g(2) batch_updates_last [of "group_ops (snd g)" "fst g"]
    by (cases "group_ops (snd g) = []") (simp_all add: group_last_def del: concat_eq_Nil_conv)
  moreover obtain hs ks where "gs = hs @ g # ks" using g(1) by (metis split_list)
  ultimately show ?thesis using mono by (auto simp: le_max_iff_disj)
qed

section \<open>A small run\<close>

definition sample_env :: recover_env where
  "sample_env = \<lparr>paranoid_checks = True, reuse_logs = False, write_buffer_size = 4096, mem_usage = (\<lambda>m. 100),
     write_level0 = (\<lambda>i m. OK)\<rparr>"

lemma quiet_add:
  assumes "length x \<le> 1000"
  shows "fst (AddRecord posix_Append posix_Flush (Writer quiet_file) x) = OK"
proof -
  have "fst (WriteUnbuffered_loop fn data k) = OK" if "k_writes k = []" for fn data k
    using that
    by (subst WriteUnbuffered_loop.simps) (simp add: sys_write_def WriteUnbuffered_loop.simps [of _ "[]"])
  then have flush: "posix_Flush w = (s, w') \<Longrightarrow> k_writes (w_fd w) = [] \<Longrightarrow> s = OK" for w s w'
    by (simp add: posix_Flush_def FlushBuffer_def WriteUnbuffered_def split: prod.splits) (metis fst_conv)
  show ?thesis
    using assms
    by (simp add: AddRecord_def AddRecord_loop.simps [of _ _ _ True x] Writer_def quiet_file_def PosixWritableFile_def
        switch_block_def EmitPhysicalRecord_def posix_Append_def kBlockSize_def kHeaderSize_def
        kWritableFileBufferSize_def sample_kernel_def Let_def split: prod.split)
      (auto dest!: flush)
qed

lemma finish_group_returned: "returned (finish_group lw s d) = returned d @ fst (pop_group lw s (writers d))"
  by (simp add: finish_group_def split: prod.split)

lemma sample_finished:
  obtains d1 d where "write_begin 4096 [sample_view] sample_queue = Some d1"
    "write_end BytewiseComparator posix_Append posix_Flush (log_sync a) d1 = Some d"
    "called d1 = [sample_writer1, sample_writer2]" "called d = called d1" "\<forall>r\<in>set (returned d). status_ok (snd r)"
proof -
  obtain d1 where d1: "write_begin 4096 [sample_view] sample_queue = Some d1" "in_write d1 \<noteq> None"
    "called d1 = [sample_writer1, sample_writer2]" "returned d1 = []" "db_log d1 = Writer quiet_file" by (rule sample_begun)
  obtain old cur where inv: "posix_db.db_inv 7 d1 old cur" using posix_reach_inv [OF sample_reach [OF d1(1,3)]] .
  obtain d where d: "write_end BytewiseComparator posix_Append posix_Flush (log_sync a) d1 = Some d" "called d = called d1"
    using posix_db.End_inv [OF inv sample_reach(3) [OF d1(1,3)], of _ a] d1(2) by blast
  obtain updates t lw where w: "in_write d1 = Some (updates, t, lw)" using d1(2) by auto
  then obtain v ws1 ws2 where g: "writers d1 = v # ws1 @ ws2" "updates = group_record (last_sequence d1 + 1, v # ws1)"
    "length (group_ops (v # ws1)) < 2 ^ 31"
    using inv unfolding posix_db.db_inv_defs group_in_write_def by metis
  have ws: "v # ws1 @ ws2 = [sample_writer1, sample_writer2]"
    using inv g(1) d1(3,4) by (simp add: posix_db.db_inv_defs)
  note ok = sample_writer_ok [of "Put_op [107] [1]" 1] sample_writer_ok [of "Delete_op [107]" 2]
  have "v = sample_writer1" "ws1 = [] \<or> ws1 = [sample_writer2]" using ws by (auto simp: append_eq_Cons_conv)
  then have ops: "group_ops (v # ws1) = [Put_op [107] [1]] \<or> group_ops (v # ws1) = [Put_op [107] [1], Delete_op [107]]"
    using ok by (auto simp: fits_def)
  have short: "length (batch_rep s [Put_op [107] [1]]) \<le> 1000" "length (batch_rep s [Put_op [107] [1], Delete_op [107]]) \<le> 1000" for s
    by (simp_all add: batch_rep_def PutLengthPrefixedSlice_def PutVarint32_def EncodeVarint32_def)
  have "length updates \<le> 1000"
    unfolding g(2) group_record_def snd_conv using ops short by (elim disjE) (simp_all only:)
  then obtain log1 where add: "AddRecord posix_Append posix_Flush (db_log d1) updates = (OK, log1)"
    unfolding d1(5) using quiet_add by (metis prod.collapse)
  have "list_all op_ok (group_ops (v # ws1))" using ops by (elim disjE) (simp_all only:, simp_all add: fits_def)
  from InsertInto_batch [OF this g(3)] have ins: "fst (InsertInto BytewiseComparator updates (db_mem d1)) = OK"
    by (simp add: g(2) group_record_def)
  have "\<not> dw_sync (hd (writers d1))" using g(1) ws by (simp add: sample_writer_def)
  then have "returned d = fst (pop_group lw OK (writers d1))"
    using d(1) w add ins d1(4)
    by (auto simp: write_end_def Let_def bind_eq_Some_conv finish_group_returned split: prod.splits if_splits)
  moreover have "\<forall>r\<in>set (fst (pop_group lw OK vs)). snd r = OK" for vs
    by (induction vs) (auto split: prod.split)
  ultimately show thesis using that [OF d1(1) d(1) d1(3) d(2)] by simp
qed

end
