(* ===== verification/Ldb_Block.thy ===== *)
theory Ldb_Block
  imports Ldb_Dbformat
begin

unbundle bit_operations_syntax

text \<open>
  Blocks of a table file: \<^verbatim>\<open>leveldb-library/table/block_builder.cc\<close> and \<^verbatim>\<open>block.cc\<close>. A block is
  a sequence of entries, each with the length of the prefix that its key shares with the
  key before it, followed by the offsets of the entries that share nothing. Pointers into the
  block are offsets. An operation of the iterator is \<open>None\<close> when it would read outside
  of the block, when it would use the value of an iterator that has none, or when a loop of it
  does not end.
\<close>

section \<open>BlockBuilder\<close>

record block_builder =
  bb_interval :: int
  bb_buffer :: "byte list"
  bb_restarts :: "u32 list"
  bb_counter :: int
  bb_finished :: bool
  bb_last_key :: "byte list"

definition BlockBuilder :: "int \<Rightarrow> block_builder" where
  "BlockBuilder interval =
     \<lparr>bb_interval = interval, bb_buffer = [], bb_restarts = [0], bb_counter = 0, bb_finished = False, bb_last_key = []\<rparr>"

definition bb_Reset :: "block_builder \<Rightarrow> block_builder" where
  "bb_Reset b =
     b\<lparr>bb_buffer := [], bb_restarts := [0], bb_counter := 0, bb_finished := False, bb_last_key := []\<rparr>"

definition CurrentSizeEstimate :: "block_builder \<Rightarrow> nat" where
  "CurrentSizeEstimate b = length (bb_buffer b) + length (bb_restarts b) * 4 + 4"

definition bb_empty :: "block_builder \<Rightarrow> bool" where
  "bb_empty b \<longleftrightarrow> bb_buffer b = []"

definition bb_Finish :: "block_builder \<Rightarrow> slice \<times> block_builder" where
  "bb_Finish b =
     (let buf = PutFixed32 (foldl PutFixed32 (bb_buffer b) (bb_restarts b)) (of_nat (length (bb_restarts b)))
      in (buf, b\<lparr>bb_buffer := buf, bb_finished := True\<rparr>))"

text \<open>The loop that counts the shared bytes is the one of \<^verbatim>\<open>FindShortestSeparator\<close>.\<close>

definition bb_Add :: "block_builder \<Rightarrow> slice \<Rightarrow> slice \<Rightarrow> block_builder" where
  "bb_Add b key value =
     (let (shared, restarts, counter) =
        (if bb_counter b < bb_interval b then
           (diff_index_loop (bb_last_key b) key (min (length (bb_last_key b)) (length key)) 0, bb_restarts b, bb_counter b)
         else (0, bb_restarts b @ [of_nat (length (bb_buffer b))], 0));
        non_shared = length key - shared;
        buf1 = PutVarint32 (bb_buffer b) (of_nat shared);
        buf2 = PutVarint32 buf1 (of_nat non_shared);
        buf3 = PutVarint32 buf2 (of_nat (length value));
        buf4 = buf3 @ take non_shared (drop shared key) @ value
      in b\<lparr>bb_buffer := buf4, bb_restarts := restarts, bb_counter := counter + 1,
           bb_last_key := take shared (bb_last_key b) @ take non_shared (drop shared key)\<rparr>)"

section \<open>Block\<close>

text \<open>\<^verbatim>\<open>size_\<close> is 0 for a block that is not well formed.\<close>

record block =
  blk_data :: "byte list"
  blk_size :: nat
  restart_offset :: u32

definition NumRestarts :: "block \<Rightarrow> u32" where
  "NumRestarts b = DecodeFixed32 (drop (blk_size b - 4) (blk_data b))"

definition Block :: "byte list \<Rightarrow> block" where
  "Block contents =
     (let b = \<lparr>blk_data = contents, blk_size = length contents, restart_offset = 0\<rparr>
      in if blk_size b < 4 then b\<lparr>blk_size := 0\<rparr>
         else if (blk_size b - 4) div 4 < unat (NumRestarts b) then b\<lparr>blk_size := 0\<rparr>
         else b\<lparr>restart_offset := of_nat (blk_size b) - (1 + NumRestarts b) * 4\<rparr>)"

text \<open>Nothing for \<^verbatim>\<open>nullptr\<close>; otherwise where the key begins and the three lengths.\<close>

definition DecodeEntry :: "byte list \<Rightarrow> nat \<Rightarrow> nat \<Rightarrow> (nat \<times> u32 \<times> u32 \<times> u32) option" where
  "DecodeEntry data p limit =
     (if int limit - int p < 3 then None
      else
        let shared = ucast (data ! p) :: u32;
            non_shared = ucast (data ! (p + 1)) :: u32;
            value_length = ucast (data ! (p + 2)) :: u32
        in
        Option.bind
          (if (shared OR non_shared OR value_length) < 128 then Some (p + 3, shared, non_shared, value_length)
           else
             Option.bind (GetVarint32Ptr (take (limit - p) (drop p data))) (\<lambda>(shared, q1).
             Option.bind (GetVarint32Ptr q1) (\<lambda>(non_shared, q2).
             Option.bind (GetVarint32Ptr q2) (\<lambda>(value_length, q3).
               Some (limit - length q3, shared, non_shared, value_length)))))
          (\<lambda>(q, shared, non_shared, value_length).
             if (of_nat (limit - q) :: u32) < non_shared + value_length then None
             else Some (q, shared, non_shared, value_length)))"

section \<open>Block::Iter\<close>

text \<open>The value is where it begins and how long it is; a value outside of the block is \<open>None\<close>.\<close>

record block_iter =
  bi_data :: "byte list"
  bi_restarts :: u32
  bi_num_restarts :: u32
  bi_current :: u32
  bi_restart_index :: u32
  bi_key :: "byte list"
  bi_value :: "(nat \<times> nat) option"
  bi_status :: status

definition make_Iter :: "byte list \<Rightarrow> u32 \<Rightarrow> u32 \<Rightarrow> block_iter" where
  "make_Iter data restarts num_restarts =
     \<lparr>bi_data = data, bi_restarts = restarts, bi_num_restarts = num_restarts, bi_current = restarts,
      bi_restart_index = num_restarts, bi_key = [], bi_value = None, bi_status = OK\<rparr>"

definition bi_Valid :: "block_iter \<Rightarrow> bool" where
  "bi_Valid it \<longleftrightarrow> bi_current it < bi_restarts it"

definition value_bytes :: "block_iter \<Rightarrow> slice option" where
  "value_bytes it =
     Option.bind (bi_value it) (\<lambda>(v, n). if v + n \<le> length (bi_data it) then Some (take n (drop v (bi_data it))) else None)"

definition NextEntryOffset :: "block_iter \<Rightarrow> u32 option" where
  "NextEntryOffset it = Option.bind (bi_value it) (\<lambda>(v, n). Some (of_nat (v + n)))"

definition GetRestartPoint :: "block_iter \<Rightarrow> u32 \<Rightarrow> u32" where
  "GetRestartPoint it index = DecodeFixed32 (drop (unat (bi_restarts it) + unat index * 4) (bi_data it))"

definition SeekToRestartPoint :: "u32 \<Rightarrow> block_iter \<Rightarrow> block_iter" where
  "SeekToRestartPoint index it =
     it\<lparr>bi_key := [], bi_restart_index := index, bi_value := Some (unat (GetRestartPoint it index), 0)\<rparr>"

definition CorruptionError :: "block_iter \<Rightarrow> block_iter" where
  "CorruptionError it =
     it\<lparr>bi_current := bi_restarts it, bi_restart_index := bi_num_restarts it,
        bi_status := Corruption (cstr ''bad entry in block'') [], bi_key := [], bi_value := None\<rparr>"

text \<open>The end of \<^verbatim>\<open>ParseNextKey\<close>: the restart index moves up to the entry.\<close>

lemma word_Suc_bound:
  fixes a n :: "'a::len word"
  assumes "a < n"
  shows "unat (a + 1) = unat a + 1"
proof -
  have "unat a < unat n" using assms by (simp add: word_less_nat_alt)
  then have "unat a + 1 < 2 ^ LENGTH('a)" using unat_lt_len [of n] by linarith
  then show ?thesis by (simp add: unat_word_ariths unat_1)
qed

function advance_restart :: "block_iter \<Rightarrow> block_iter" where
  "advance_restart it =
     (if bi_restart_index it + 1 < bi_num_restarts it \<and> GetRestartPoint it (bi_restart_index it + 1) < bi_current it
      then advance_restart (it\<lparr>bi_restart_index := bi_restart_index it + 1\<rparr>) else it)"
  by pat_completeness auto
termination
proof (relation "measure (\<lambda>it. unat (bi_num_restarts it) - unat (bi_restart_index it + 1))", goal_cases)
  case (2 it)
  then have "unat (bi_restart_index it + 1) < unat (bi_num_restarts it)"
    "unat (bi_restart_index it + 1 + 1) = unat (bi_restart_index it + 1) + 1"
    using word_Suc_bound [of "bi_restart_index it + 1" "bi_num_restarts it"] by (auto simp: word_less_nat_alt)
  then show ?case by simp
qed simp

declare advance_restart.simps [simp del]

definition ParseNextKey :: "block_iter \<Rightarrow> (bool \<times> block_iter) option" where
  "ParseNextKey it =
     Option.bind (NextEntryOffset it) (\<lambda>current.
       let it1 = it\<lparr>bi_current := current\<rparr>; p = unat current; limit = unat (bi_restarts it)
       in
       if limit \<le> p then
         Some (False, it1\<lparr>bi_current := bi_restarts it, bi_restart_index := bi_num_restarts it\<rparr>)
       else
         (case DecodeEntry (bi_data it) p limit of
            None \<Rightarrow> Some (False, CorruptionError it1)
          | Some (q, shared, non_shared, value_length) \<Rightarrow>
              if length (bi_key it) < unat shared then Some (False, CorruptionError it1)
              else if length (bi_data it) < q + unat non_shared then None
              else Some (True, advance_restart
                (it1\<lparr>bi_key := take (unat shared) (bi_key it) @ take (unat non_shared) (drop q (bi_data it)),
                     bi_value := Some (q + unat non_shared, unat value_length)\<rparr>))))"

definition bi_Next :: "block_iter \<Rightarrow> block_iter option" where
  "bi_Next it = Option.bind (ParseNextKey it) (\<lambda>(ok, it1). Some it1)"

text \<open>Scanning backwards: nothing when there are no more entries.\<close>

function prev_restart :: "block_iter \<Rightarrow> u32 \<Rightarrow> u32 \<Rightarrow> u32 option" where
  "prev_restart it original index =
     (if GetRestartPoint it index < original then Some index
      else if index = 0 then None
      else prev_restart it original (index - 1))"
  by pat_completeness auto
termination
  by (relation "measure (\<lambda>(it, original, index). unat index)") (auto simp: unat_minus_one unat_gt_0)

declare prev_restart.simps [simp del]

text \<open>\<^verbatim>\<open>do { } while (ParseNextKey() && NextEntryOffset() < bound)\<close>\<close>

partial_function (option) parse_until :: "u32 \<Rightarrow> block_iter \<Rightarrow> block_iter option" where
  "parse_until bound it =
     Option.bind (ParseNextKey it) (\<lambda>(ok, it1).
       if \<not> ok then Some it1
       else Option.bind (NextEntryOffset it1) (\<lambda>next_offset.
              if next_offset < bound then parse_until bound it1 else Some it1))"

definition bi_Prev :: "block_iter \<Rightarrow> block_iter option" where
  "bi_Prev it =
     (let original = bi_current it in
      case prev_restart it original (bi_restart_index it) of
        None \<Rightarrow> Some (it\<lparr>bi_current := bi_restarts it, bi_restart_index := bi_num_restarts it\<rparr>)
      | Some index \<Rightarrow> parse_until original (SeekToRestartPoint index (it\<lparr>bi_restart_index := index\<rparr>)))"

text \<open>The binary search: the last restart point with a smaller key, or nothing for a bad entry.\<close>

partial_function (option) seek_restart :: "comparator \<Rightarrow> slice \<Rightarrow> block_iter \<Rightarrow> u32 \<Rightarrow> u32 \<Rightarrow> u32 option option" where
  "seek_restart c target it left right =
     (if left < right then
        let mid = (left + right + 1) div 2 in
        case DecodeEntry (bi_data it) (unat (GetRestartPoint it mid)) (unat (bi_restarts it)) of
          None \<Rightarrow> Some None
        | Some (q, shared, non_shared, value_length) \<Rightarrow>
            if shared \<noteq> 0 then Some None
            else if length (bi_data it) < q + unat non_shared then None
            else if Compare c (take (unat non_shared) (drop q (bi_data it))) target < 0
            then seek_restart c target it mid right
            else seek_restart c target it left (mid - 1)
      else Some (Some left))"

text \<open>The linear search.\<close>

partial_function (option) seek_linear :: "comparator \<Rightarrow> slice \<Rightarrow> block_iter \<Rightarrow> block_iter option" where
  "seek_linear c target it =
     Option.bind (ParseNextKey it) (\<lambda>(ok, it1).
       if \<not> ok then Some it1
       else if 0 \<le> Compare c (bi_key it1) target then Some it1
       else seek_linear c target it1)"

definition bi_Seek :: "comparator \<Rightarrow> slice \<Rightarrow> block_iter \<Rightarrow> block_iter option" where
  "bi_Seek c target it =
     Option.bind (seek_restart c target it 0 (bi_num_restarts it - 1)) (\<lambda>found.
       case found of
         None \<Rightarrow> Some (CorruptionError it)
       | Some left \<Rightarrow> seek_linear c target (SeekToRestartPoint left it))"

definition bi_SeekToFirst :: "block_iter \<Rightarrow> block_iter option" where
  "bi_SeekToFirst it = Option.bind (ParseNextKey (SeekToRestartPoint 0 it)) (\<lambda>(ok, it1). Some it1)"

definition bi_SeekToLast :: "block_iter \<Rightarrow> block_iter option" where
  "bi_SeekToLast it = parse_until (bi_restarts it) (SeekToRestartPoint (bi_num_restarts it - 1) it)"

text \<open>\<^verbatim>\<open>NewErrorIterator\<close> and \<^verbatim>\<open>NewEmptyIterator\<close> are an iterator without entries and with a status.\<close>

datatype block_iterator = No_entries status | Entries block_iter

definition NewIterator :: "block \<Rightarrow> block_iterator" where
  "NewIterator b =
     (if blk_size b < 4 then No_entries (Corruption (cstr ''bad block contents'') [])
      else if NumRestarts b = 0 then No_entries OK
      else Entries (make_Iter (blk_data b) (restart_offset b) (NumRestarts b)))"

end
