(* ===== verification/Ldb_Block_Props.thy ===== *)
theory Ldb_Block_Props
  imports Ldb_Block
begin

unbundle bit_operations_syntax

text \<open>
  A block is the list of its entries. The first part shows how the builder lays out entries and
  restart points and that an entry is decoded as it was written; the second that every operation
  of the iterator takes it to the position that the operation has on the list.
\<close>

section \<open>One entry\<close>

lemma less_128_drop_bit: "(z :: u32) < 128 \<longleftrightarrow> drop_bit 7 z = 0"
  by (simp add: word_less_nat_alt word_unat_eq_iff unat_drop_bit div_eq_0_iff)

lemma or_less_128: "(x OR y :: u32) < 128 \<longleftrightarrow> x < 128 \<and> y < 128"
  by (simp add: less_128_drop_bit or_eq_0_iff)

lemma varint32_first:
  assumes "EncodeVarint32 v = c # cs" "(ucast c :: u32) < 128"
  shows "cs = [] \<and> ucast c = v"
proof (cases "v < 128")
  case True
  then have "ucast (ucast v :: byte) = v"
    by (intro word_unat_eq_iff [THEN iffD2]) (simp add: unsigned_ucast_eq unat_take_bit word_less_nat_alt)
  then show ?thesis using assms(1) True by (auto simp: EncodeVarint32_eq varint_bytes_u32)
next
  case False
  then have "c = ucast (v OR 128)" using assms(1) by (simp add: EncodeVarint32_eq varint_bytes_u32)
  then have "bit (ucast c :: u32) 7" by (simp add: bit_simps or_128_bit)
  moreover have "\<not> bit (drop_bit 7 (ucast c :: u32)) 0" using assms(2) less_128_drop_bit by simp
  ultimately show ?thesis by (simp add: bit_drop_bit_eq)
qed

lemma DecodeEntry_encoded:
  assumes "take (limit - p) (drop p data) = EncodeVarint32 a @ EncodeVarint32 b @ EncodeVarint32 c @ rest"
    and "p \<le> limit" "limit \<le> length data" "unat b + unat c \<le> length rest" "limit < 2 ^ 32"
  shows "DecodeEntry data p limit = Some (limit - length rest, a, b, c)"
proof -
  let ?va = "EncodeVarint32 a" and ?vb = "EncodeVarint32 b" and ?vc = "EncodeVarint32 c"
  have len: "limit - p = length ?va + length ?vb + length ?vc + length rest"
    using arg_cong [OF assms(1), of length] assms(2,3) by simp
  have three: "\<not> int limit - int p < 3"
    using len length_EncodeVarint32 [of a] length_EncodeVarint32 [of b] length_EncodeVarint32 [of c] by linarith
  have nth: "data ! (p + i) = (?va @ ?vb @ ?vc @ rest) ! i" if "i < limit - p" for i
    using that assms(2,3) by (simp flip: assms(1))
  have bc: "unat (b + c) = unat b + unat c" using assms(4,5) len by (intro unat_add_no_wrap) simp
  have "length rest < 2 ^ 32" using len assms(5) by linarith
  then have fits: "\<not> (of_nat (limit - (limit - length rest)) :: u32) < b + c"
    using assms(4) len bc by (simp add: word_less_nat_alt unsigned_of_nat take_bit_nat_eq_self)
  have fast: "Some (p + 3, a, b, c) = Some (limit - length rest, a, b, c) \<and>
      ucast (data ! p) = a \<and> ucast (data ! (p + 1)) = b \<and> ucast (data ! (p + 2)) = c"
    if "((ucast (data ! p) :: u32) OR ucast (data ! (p + 1)) OR ucast (data ! (p + 2))) < 128"
  proof -
    obtain x xs where x: "?va = x # xs" using length_EncodeVarint32 [of a] by (cases ?va) auto
    obtain y ys where y: "?vb = y # ys" using length_EncodeVarint32 [of b] by (cases ?vb) auto
    obtain z zs where z: "?vc = z # zs" using length_EncodeVarint32 [of c] by (cases ?vc) auto
    have i: "0 < limit - p" "1 < limit - p" "2 < limit - p" using len x y z by simp_all
    have "data ! p = x" using nth [OF i(1)] x by simp
    then have 1: "xs = []" "ucast x = a" using varint32_first [OF x] that by (simp_all add: or_less_128)
    have "data ! (p + 1) = y" using nth [OF i(2)] x y 1(1) by simp
    then have 2: "ys = []" "ucast y = b" using varint32_first [OF y] that by (simp_all add: or_less_128)
    have "data ! (p + 2) = z" using nth [OF i(3)] x y z 1(1) 2(1) by simp
    then have 3: "zs = []" "ucast z = c" using varint32_first [OF z] that by (simp_all add: or_less_128)
    show ?thesis using len x y z 1 2 3 \<open>data ! p = x\<close> \<open>data ! (p + 1) = y\<close> \<open>data ! (p + 2) = z\<close> by simp
  qed
  show ?thesis
  proof (cases "((ucast (data ! p) :: u32) OR ucast (data ! (p + 1)) OR ucast (data ! (p + 2))) < 128")
    case True
    then show ?thesis using fast [OF True] three fits by (simp add: DecodeEntry_def Let_def)
  next
    case False
    then show ?thesis
      using three fits by (simp add: DecodeEntry_def Let_def assms(1) GetVarint32_Encode)
  qed
qed

section \<open>Layout\<close>

text \<open>An entry: the number of bytes of its key that are not stored, the key and the value.\<close>

type_synonym block_entry = "nat \<times> slice \<times> slice"
type_synonym entries = "(slice \<times> slice) list"

abbreviation "e_shared e \<equiv> fst e"
abbreviation "e_key e \<equiv> fst (snd e)"
abbreviation "e_value e \<equiv> snd (snd e)"

definition entry_bytes :: "block_entry \<Rightarrow> byte list" where
  "entry_bytes e = EncodeVarint32 (of_nat (e_shared e)) @ EncodeVarint32 (of_nat (length (e_key e) - e_shared e)) @
     EncodeVarint32 (of_nat (length (e_value e))) @ drop (e_shared e) (e_key e) @ e_value e"

definition entry_offset :: "block_entry list \<Rightarrow> nat \<Rightarrow> nat" where
  "entry_offset es i = length (concat (map entry_bytes (take i es)))"

definition key_before :: "block_entry list \<Rightarrow> nat \<Rightarrow> slice" where
  "key_before es i = (if i = 0 then [] else e_key (es ! (i - 1)))"

definition entries_ok :: "block_entry list \<Rightarrow> bool" where
  "entries_ok es \<longleftrightarrow> (\<forall>i<length es. e_shared (es ! i) \<le> length (e_key (es ! i)) \<and>
     e_shared (es ! i) \<le> length (key_before es i) \<and>
     take (e_shared (es ! i)) (e_key (es ! i)) = take (e_shared (es ! i)) (key_before es i))"

text \<open>The restart points, as positions in the list.\<close>

definition restarts_ok :: "block_entry list \<Rightarrow> nat list \<Rightarrow> bool" where
  "restarts_ok es rs \<longleftrightarrow> rs \<noteq> [] \<and> hd rs = 0 \<and> sorted_wrt (<) rs \<and>
     (\<forall>r\<in>set rs. r < length es \<and> e_shared (es ! r) = 0 \<or> es = [] \<and> r = 0)"

definition block_bytes :: "block_entry list \<Rightarrow> nat list \<Rightarrow> byte list" where
  "block_bytes es rs = concat (map entry_bytes es) @ concat (map (\<lambda>r. EncodeFixed32 (of_nat (entry_offset es r))) rs) @
     EncodeFixed32 (of_nat (length rs))"

lemma entry_bytes_not_Nil: "0 < length (entry_bytes e)"
  using length_EncodeVarint32 by (simp add: entry_bytes_def)

lemma entry_offset_0 [simp]: "entry_offset es 0 = 0"
  by (simp add: entry_offset_def)

lemma entry_offset_Suc: "i < length es \<Longrightarrow> entry_offset es (Suc i) = entry_offset es i + length (entry_bytes (es ! i))"
  by (simp add: entry_offset_def take_Suc_conv_app_nth)

lemma entry_offset_append [simp]: "i \<le> length es \<Longrightarrow> entry_offset (es @ es') i = entry_offset es i"
  by (simp add: entry_offset_def)

lemma entry_offset_mono: "i < j \<Longrightarrow> j \<le> length es \<Longrightarrow> entry_offset es i < entry_offset es j"
proof (induction j)
  case (Suc j)
  then have "entry_offset es i \<le> entry_offset es j" by (cases "i = j") (auto intro: less_imp_le)
  moreover have "entry_offset es (Suc j) = entry_offset es j + length (entry_bytes (es ! j))"
    using Suc.prems(2) by (simp add: entry_offset_Suc)
  ultimately show ?case using entry_bytes_not_Nil [of "es ! j"] by linarith
qed simp

lemma entry_offset_less: "i \<le> length es \<Longrightarrow> j \<le> length es \<Longrightarrow> entry_offset es i < entry_offset es j \<longleftrightarrow> i < j"
  using entry_offset_mono [of i j es] entry_offset_mono [of j i es] by (cases i j rule: linorder_cases) auto

lemma entry_offset_all: "entry_offset es (length es) = length (concat (map entry_bytes es))"
  by (simp add: entry_offset_def)

lemma key_before_append: "i \<le> length es \<Longrightarrow> key_before (es @ es') i = key_before es i"
  by (auto simp: key_before_def nth_append)

lemma entries_ok_snoc:
  assumes "entries_ok es" "sh \<le> length k" "sh \<le> length (key_before es (length es))"
    and "take sh k = take sh (key_before es (length es))"
  shows "entries_ok (es @ [(sh, k, v)])"
  using assms by (auto simp: entries_ok_def nth_append key_before_append less_Suc_eq)

text \<open>What the builder has in its buffer.\<close>

definition builder_holds :: "block_builder \<Rightarrow> block_entry list \<Rightarrow> nat list \<Rightarrow> bool" where
  "builder_holds b es rs \<longleftrightarrow> bb_buffer b = concat (map entry_bytes es) \<and>
     bb_restarts b = map (\<lambda>r. of_nat (entry_offset es r)) rs \<and> bb_last_key b = key_before es (length es) \<and>
     entries_ok es \<and> restarts_ok es rs \<and> 1 \<le> bb_interval b \<and> (es = [] \<longrightarrow> bb_counter b = 0)"

lemma builder_new: "1 \<le> interval \<Longrightarrow> builder_holds (BlockBuilder interval) [] [0]"
  by (simp add: builder_holds_def BlockBuilder_def entries_ok_def restarts_ok_def key_before_def)

lemma builder_Add:
  assumes "builder_holds b es rs"
  obtains sh rs' where "builder_holds (bb_Add b k v) (es @ [(sh, k, v)]) rs'"
proof -
  define fresh where "fresh \<longleftrightarrow> \<not> bb_counter b < bb_interval b"
  define sh where "sh = (if fresh then 0 else
    diff_index_loop (bb_last_key b) k (min (length (bb_last_key b)) (length k)) 0)"
  define rs' where "rs' = (if fresh then rs @ [length es] else rs)"
  have last: "bb_last_key b = key_before es (length es)" using assms by (simp add: builder_holds_def)
  have "sh \<le> min (length (bb_last_key b)) (length k) \<and> take sh (bb_last_key b) = take sh k"
    using diff_index_loop_spec [of 0 "min (length (bb_last_key b)) (length k)" "bb_last_key b" k]
    by (auto simp: sh_def Let_def)
  then have sh: "sh \<le> length k" "sh \<le> length (key_before es (length es))" "take sh k = take sh (key_before es (length es))"
    unfolding last by auto
  have "take sh (bb_last_key b) @ take (length k - sh) (drop sh k) = k"
    using sh unfolding last by (metis append_take_drop_id length_drop order_refl take_all)
  moreover have "bb_Add b k v = b\<lparr>bb_buffer := bb_buffer b @ entry_bytes (sh, k, v),
      bb_restarts := (if fresh then bb_restarts b @ [of_nat (length (bb_buffer b))] else bb_restarts b),
      bb_counter := (if fresh then 0 else bb_counter b) + 1,
      bb_last_key := take sh (bb_last_key b) @ take (length k - sh) (drop sh k)\<rparr>"
    by (simp add: bb_Add_def Let_def sh_def fresh_def entry_bytes_def PutVarint32_def)
  ultimately have add: "bb_Add b k v = b\<lparr>bb_buffer := bb_buffer b @ entry_bytes (sh, k, v),
      bb_restarts := (if fresh then bb_restarts b @ [of_nat (length (bb_buffer b))] else bb_restarts b),
      bb_counter := (if fresh then 0 else bb_counter b) + 1, bb_last_key := k\<rparr>" by simp
  have new: "es \<noteq> []" if fresh using that assms by (auto simp: builder_holds_def fresh_def)
  have rs: "\<forall>r\<in>set rs. r < length es \<and> e_shared (es ! r) = 0 \<or> es = [] \<and> r = 0" "sorted_wrt (<) rs" "rs \<noteq> []" "hd rs = 0"
    using assms by (auto simp: builder_holds_def restarts_ok_def)
  have "restarts_ok (es @ [(sh, k, v)]) rs'"
  proof (cases "es = []")
    case True
    then have "sh = 0" using sh(2) by (simp add: key_before_def)
    then show ?thesis using True new rs by (auto simp: restarts_ok_def rs'_def)
  next
    case False
    have "sorted_wrt (<) rs'" using rs False by (auto simp: rs'_def sorted_wrt_append)
    moreover have "\<forall>r\<in>set rs'. r < length (es @ [(sh, k, v)]) \<and> e_shared ((es @ [(sh, k, v)]) ! r) = 0"
      using rs(1) False by (auto simp: rs'_def nth_append sh_def)
    ultimately show ?thesis using rs(3,4) by (auto simp: restarts_ok_def rs'_def)
  qed
  moreover have "\<forall>r\<in>set rs. r \<le> length es" using rs(1) by auto
  ultimately have "builder_holds (bb_Add b k v) (es @ [(sh, k, v)]) rs'"
    using assms entries_ok_snoc [OF _ sh, of v] unfolding add
    by (auto simp: builder_holds_def rs'_def entry_offset_all key_before_def)
  then show thesis by (rule that)
qed

section \<open>Reading a block\<close>

definition block_ok :: "block_entry list \<Rightarrow> nat list \<Rightarrow> bool" where
  "block_ok es rs \<longleftrightarrow> entries_ok es \<and> restarts_ok es rs \<and> length (block_bytes es rs) < 2 ^ 32"

abbreviation entries_end :: "block_entry list \<Rightarrow> nat" where
  "entries_end es \<equiv> entry_offset es (length es)"

lemma length_block_bytes: "length (block_bytes es rs) = entries_end es + 4 * length rs + 4"
  by (simp add: block_bytes_def entry_offset_all length_fixed32_array)

lemma block_small:
  assumes "block_ok es rs"
  shows "entries_end es < 2 ^ 32" "length rs < 2 ^ 30" "i \<le> length es \<Longrightarrow> entry_offset es i < 2 ^ 32"
    "i \<le> length es \<Longrightarrow> entry_offset es i \<le> entries_end es"
proof -
  show e: "entries_end es < 2 ^ 32" "length rs < 2 ^ 30"
    using assms by (simp_all add: block_ok_def length_block_bytes)
  show "entry_offset es i \<le> entries_end es" if "i \<le> length es"
    using that entry_offset_mono [of i "length es" es] by (cases "i = length es") auto
  then show "entry_offset es i < 2 ^ 32" if "i \<le> length es" using that e by fastforce
qed

lemma restart_decoded:
  assumes "j < length rs"
  shows "DecodeFixed32 (drop (entries_end es + j * 4) (block_bytes es rs)) = of_nat (entry_offset es (rs ! j))"
proof -
  have "drop (entries_end es + j * 4) (block_bytes es rs) = drop (4 * j)
      (concat (map (\<lambda>r. EncodeFixed32 (of_nat (entry_offset es r))) rs) @ EncodeFixed32 (of_nat (length rs)))"
    by (simp add: block_bytes_def entry_offset_all mult.commute)
  then show ?thesis unfolding concat_nth_fixed [OF assms] by simp
qed

lemma block_read:
  assumes "block_ok es rs"
  shows "NewIterator (Block (block_bytes es rs)) =
    Entries (make_Iter (block_bytes es rs) (of_nat (entries_end es)) (of_nat (length rs)))"
proof -
  let ?d = "block_bytes es rs"
  have len: "length ?d = entries_end es + 4 * length rs + 4" by (rule length_block_bytes)
  have "drop (length ?d - 4) ?d = EncodeFixed32 (of_nat (length rs))"
    unfolding len by (simp add: block_bytes_def entry_offset_all length_concat comp_def sum_list_triv)
  then have num: "NumRestarts \<lparr>blk_data = ?d, blk_size = length ?d, restart_offset = x\<rparr> = of_nat (length rs)" for x
    by (simp add: NumRestarts_def)
  have "rs \<noteq> []" using assms by (simp add: block_ok_def restarts_ok_def)
  moreover have "unat (of_nat (length rs) :: u32) = length rs" using block_small [OF assms] by simp
  ultimately have "(of_nat (length rs) :: u32) \<noteq> 0" by (metis length_0_conv unat_0)
  moreover have "of_nat (length ?d) - (1 + of_nat (length rs)) * 4 = (of_nat (entries_end es) :: u32)"
    unfolding len by (simp add: algebra_simps)
  moreover have "\<not> (length ?d - 4) div 4 < length rs" using len by simp
  ultimately show ?thesis
    using len num block_small [OF assms] by (simp add: NewIterator_def Block_def Let_def)
qed

lemma key_length_offset:
  assumes "entries_ok es" "i < length es"
  shows "length (e_key (es ! i)) \<le> entry_offset es (Suc i)"
  using assms(2)
proof (induction i)
  case 0
  have "e_shared (es ! 0) = 0" using assms(1) 0 by (auto simp: entries_ok_def key_before_def)
  then show ?case using 0 by (simp add: entry_offset_Suc entry_bytes_def)
next
  case (Suc i)
  have "e_shared (es ! Suc i) \<le> length (e_key (es ! i))"
    using assms(1) Suc.prems by (auto simp: entries_ok_def key_before_def)
  moreover have "length (e_key (es ! Suc i)) - e_shared (es ! Suc i) \<le> length (entry_bytes (es ! Suc i))"
    by (simp add: entry_bytes_def)
  moreover have "length (e_key (es ! i)) \<le> entry_offset es (Suc i)" using Suc by simp
  ultimately show ?case using Suc.prems by (simp add: entry_offset_Suc [of "Suc i"])
qed

lemma entry_decoded:
  assumes "block_ok es rs" "i < length es"
  shows "\<exists>q sh ns vn. DecodeEntry (block_bytes es rs) (entry_offset es i) (entries_end es) = Some (q, sh, ns, vn) \<and>
    unat sh = e_shared (es ! i) \<and> unat ns = length (e_key (es ! i)) - e_shared (es ! i) \<and>
    unat vn = length (e_value (es ! i)) \<and> q + unat ns + unat vn = entry_offset es (Suc i) \<and>
    take (unat ns) (drop q (block_bytes es rs)) = drop (e_shared (es ! i)) (e_key (es ! i)) \<and>
    take (unat vn) (drop (q + unat ns) (block_bytes es rs)) = e_value (es ! i) \<and> q + unat ns + unat vn \<le> length (block_bytes es rs)"
  proof -
  note of_nat_diff [simp del]
  define e where "e = es ! i"
  let ?sh = "e_shared e" and ?k = "e_key e" and ?v = "e_value e"
  let ?va = "EncodeVarint32 (of_nat ?sh)" and ?vb = "EncodeVarint32 (of_nat (length ?k - ?sh))"
    and ?vc = "EncodeVarint32 (of_nat (length ?v))"
  let ?d = "block_bytes es rs" and ?pre = "concat (map entry_bytes (take i es))" and ?tl = "concat (map entry_bytes (drop (Suc i) es))"
  let ?suf = "concat (map (\<lambda>r. EncodeFixed32 (of_nat (entry_offset es r))) rs) @ EncodeFixed32 (of_nat (length rs))"
  define q where "q = entry_offset es i + length ?va + length ?vb + length ?vc"
  let ?rest = "drop ?sh ?k @ ?v @ ?tl"
  have split: "take i es @ e # drop (Suc i) es = es" using id_take_nth_drop [OF assms(2)] by (simp add: e_def)
  have "concat (map entry_bytes (take i es @ e # drop (Suc i) es)) = ?pre @ ?va @ ?vb @ ?vc @ ?rest"
    by (simp add: entry_bytes_def [of e])
  then have es: "concat (map entry_bytes es) = ?pre @ ?va @ ?vb @ ?vc @ ?rest" unfolding split .
  then have d: "?d = ?pre @ ?va @ ?vb @ ?vc @ ?rest @ ?suf" by (simp add: block_bytes_def)
  have pre: "length ?pre = entry_offset es i" by (simp add: entry_offset_def)
  have fin: "entries_end es = q + length ?rest" unfolding entry_offset_all es by (simp add: q_def pre)
  have sh: "?sh \<le> length ?k" using assms by (auto simp: block_ok_def entries_ok_def e_def)
  have next_off: "entry_offset es (Suc i) = q + (length ?k - ?sh) + length ?v"
    using entry_offset_Suc [OF assms(2)] by (simp add: q_def entry_bytes_def flip: e_def)
  have "length ?k < 2 ^ 32"
    using key_length_offset [OF _ assms(2)] assms block_small(3) [OF assms(1), of "Suc i"] by (simp add: block_ok_def e_def)
  moreover have "length ?v < 2 ^ 32" using next_off block_small(3) [OF assms(1), of "Suc i"] assms(2) by simp
  ultimately have u: "unat (of_nat ?sh :: u32) = ?sh" "unat (of_nat (length ?k - ?sh) :: u32) = length ?k - ?sh"
    "unat (of_nat (length ?v) :: u32) = length ?v" using sh by simp_all
  have "drop (entry_offset es i) ?d = ?va @ ?vb @ ?vc @ ?rest @ ?suf" unfolding d pre [symmetric] by simp
  then have "take (entries_end es - entry_offset es i) (drop (entry_offset es i) ?d) = ?va @ ?vb @ ?vc @ ?rest"
    unfolding fin q_def by simp
  from DecodeEntry_encoded [OF this] have dec: "DecodeEntry ?d (entry_offset es i) (entries_end es) =
      Some (entries_end es - length ?rest, of_nat ?sh, of_nat (length ?k - ?sh), of_nat (length ?v))"
    using assms(2) block_small [OF assms(1)] u by (simp add: length_block_bytes)
  have "drop q ?d = ?rest @ ?suf" unfolding d q_def pre [symmetric] by simp
  moreover have "drop (q + n) ?d = drop n (drop q ?d)" for n by (simp add: add.commute)
  ultimately have parts: "take (length ?k - ?sh) (drop q ?d) = drop ?sh ?k"
    "take (length ?v) (drop (q + (length ?k - ?sh)) ?d) = ?v"
    by (simp_all del: drop_drop)
  have "q + (length ?k - ?sh) + length ?v \<le> length ?d"
    unfolding next_off [symmetric] length_block_bytes using block_small(4) [OF assms(1), of "Suc i"] assms(2) by simp
  then show ?thesis
    using dec u parts next_off fin
    by (intro exI [of _ q] exI [of _ "of_nat ?sh"] exI [of _ "of_nat (length ?k - ?sh)"] exI [of _ "of_nat (length ?v)"])
      (simp flip: e_def)
qed

section \<open>Positions of an iterator\<close>

definition iter_of :: "block_entry list \<Rightarrow> nat list \<Rightarrow> block_iter \<Rightarrow> bool" where
  "iter_of es rs it \<longleftrightarrow> bi_data it = block_bytes es rs \<and> bi_restarts it = of_nat (entries_end es) \<and>
     bi_num_restarts it = of_nat (length rs) \<and> bi_status it = OK"

definition restart_at :: "nat list \<Rightarrow> block_iter \<Rightarrow> nat \<Rightarrow> bool" where
  "restart_at rs it i \<longleftrightarrow> (\<exists>j<length rs. bi_restart_index it = of_nat j \<and> rs ! j \<le> i)"

text \<open>About to parse entry \<open>i\<close>.\<close>

definition ready :: "block_entry list \<Rightarrow> nat list \<Rightarrow> block_iter \<Rightarrow> nat \<Rightarrow> bool" where
  "ready es rs it i \<longleftrightarrow> iter_of es rs it \<and> i \<le> length es \<and> NextEntryOffset it = Some (of_nat (entry_offset es i)) \<and>
     (i < length es \<longrightarrow> e_shared (es ! i) \<le> length (bi_key it) \<and>
        take (e_shared (es ! i)) (bi_key it) = take (e_shared (es ! i)) (e_key (es ! i))) \<and> restart_at rs it i"

text \<open>At entry \<open>i\<close>.\<close>

definition at_entry :: "block_entry list \<Rightarrow> nat list \<Rightarrow> block_iter \<Rightarrow> nat \<Rightarrow> bool" where
  "at_entry es rs it i \<longleftrightarrow> iter_of es rs it \<and> i < length es \<and> bi_current it = of_nat (entry_offset es i) \<and>
     bi_key it = e_key (es ! i) \<and> value_bytes it = Some (e_value (es ! i)) \<and>
     NextEntryOffset it = Some (of_nat (entry_offset es (Suc i))) \<and> restart_at rs it i"

definition past_end :: "block_entry list \<Rightarrow> nat list \<Rightarrow> block_iter \<Rightarrow> bool" where
  "past_end es rs it \<longleftrightarrow> iter_of es rs it \<and> bi_current it = bi_restarts it"

lemma restart_entry:
  assumes "restarts_ok es rs" "j < length rs"
  shows "rs ! j \<le> length es" "rs ! j < length es \<or> es = []" "rs ! j < length es \<Longrightarrow> e_shared (es ! (rs ! j)) = 0"
proof -
  have "rs ! j < length es \<and> e_shared (es ! (rs ! j)) = 0 \<or> es = [] \<and> rs ! j = 0"
    using assms(1) nth_mem [OF assms(2)] unfolding restarts_ok_def by blast
  then show "rs ! j \<le> length es" "rs ! j < length es \<or> es = []" "rs ! j < length es \<Longrightarrow> e_shared (es ! (rs ! j)) = 0"
    by auto
qed

lemma GetRestartPoint_eq:
  assumes "block_ok es rs" "iter_of es rs it" "j < length rs"
  shows "GetRestartPoint it (of_nat j) = of_nat (entry_offset es (rs ! j))"
  using assms restart_decoded [OF assms(3), of es] block_small [OF assms(1)]
  by (simp add: GetRestartPoint_def iter_of_def)

lemma offset_word_less:
  assumes "block_ok es rs" "i \<le> length es" "j \<le> length es"
  shows "(of_nat (entry_offset es i) :: u32) < of_nat (entry_offset es j) \<longleftrightarrow> i < j"
  using block_small(3) [OF assms(1)] assms(2,3) entry_offset_less [OF assms(2,3)] by (simp add: word_less_nat_alt)

lemma iter_of_index [simp]: "iter_of es rs (it\<lparr>bi_restart_index := x\<rparr>) = iter_of es rs it"
  by (simp add: iter_of_def)

lemma advance_restart_index:
  assumes "block_ok es rs" "iter_of es rs it" "bi_current it = of_nat (entry_offset es i)" "i < length es"
    and "bi_restart_index it = of_nat j" "j < length rs" "rs ! j \<le> i"
  shows "\<exists>j'<length rs. advance_restart it = it\<lparr>bi_restart_index := of_nat j'\<rparr> \<and> rs ! j' \<le> i"
  using assms(2-)
proof (induction "length rs - j" arbitrary: it j)
  case (Suc n)
  have next_j: "bi_restart_index it + 1 = of_nat (Suc j)" using Suc.prems(4) by (simp add: add.commute)
  have num: "(of_nat (Suc j) :: u32) < bi_num_restarts it \<longleftrightarrow> Suc j < length rs"
    using Suc.prems(1,5) block_small(2) [OF assms(1)] by (simp add: iter_of_def word_less_nat_alt del: of_nat_Suc)
  show ?case
  proof (cases "Suc j < length rs \<and> rs ! Suc j < i")
    case True
    then have less: "GetRestartPoint it (of_nat (Suc j)) < bi_current it"
      using GetRestartPoint_eq [OF assms(1) Suc.prems(1), of "Suc j"] Suc.prems(2,3)
        offset_word_less [OF assms(1), of "rs ! Suc j" i] by simp
    have step: "advance_restart it = advance_restart (it\<lparr>bi_restart_index := of_nat (Suc j)\<rparr>)"
      using less True num by (subst advance_restart.simps) (simp only: next_j, simp)
    have "\<exists>j'<length rs. advance_restart (it\<lparr>bi_restart_index := of_nat (Suc j)\<rparr>) =
        it\<lparr>bi_restart_index := of_nat (Suc j)\<rparr>\<lparr>bi_restart_index := of_nat j'\<rparr> \<and> rs ! j' \<le> i"
      using Suc.hyps(2) Suc.prems True by (intro Suc.hyps(1) [of "Suc j"]) auto
    then show ?thesis unfolding step by simp
  next
    case False
    have "\<not> (bi_restart_index it + 1 < bi_num_restarts it \<and> GetRestartPoint it (bi_restart_index it + 1) < bi_current it)"
    proof (cases "Suc j < length rs")
      case True
      then have "rs ! Suc j \<le> length es" using restart_entry(1) assms(1) by (simp add: block_ok_def)
      then show ?thesis
        using False True GetRestartPoint_eq [OF assms(1) Suc.prems(1), of "Suc j"] Suc.prems(2,3)
          offset_word_less [OF assms(1), of "rs ! Suc j" i] unfolding next_j by simp
    qed (use num in \<open>simp add: next_j\<close>)
    then have "advance_restart it = it" by (subst advance_restart.simps) (rule if_not_P)
    then show ?thesis using Suc.prems(4-6) by (intro exI [of _ j]) simp
  qed
qed simp

lemma parse_ready:
  assumes "block_ok es rs" "ready es rs it i" "i < length es"
  shows "\<exists>it'. ParseNextKey it = Some (True, it') \<and> at_entry es rs it' i"
proof -
  let ?d = "block_bytes es rs"
  obtain q sh ns vn where dec: "DecodeEntry ?d (entry_offset es i) (entries_end es) = Some (q, sh, ns, vn)"
    "unat sh = e_shared (es ! i)" "unat ns = length (e_key (es ! i)) - e_shared (es ! i)"
    "unat vn = length (e_value (es ! i))" "q + unat ns + unat vn = entry_offset es (Suc i)"
    "take (unat ns) (drop q ?d) = drop (e_shared (es ! i)) (e_key (es ! i))"
    "take (unat vn) (drop (q + unat ns) ?d) = e_value (es ! i)" "q + unat ns + unat vn \<le> length ?d"
    using entry_decoded [OF assms(1,3)] by blast
  have it: "iter_of es rs it" "NextEntryOffset it = Some (of_nat (entry_offset es i))"
    "e_shared (es ! i) \<le> length (bi_key it)" "take (e_shared (es ! i)) (bi_key it) = take (e_shared (es ! i)) (e_key (es ! i))"
    using assms(2,3) by (auto simp: ready_def)
  obtain j where j: "j < length rs" "bi_restart_index it = of_nat j" "rs ! j \<le> i" using assms(2) by (auto simp: ready_def restart_at_def)
  have small: "entry_offset es i < 2 ^ 32" "entries_end es < 2 ^ 32" "entry_offset es i < entries_end es"
    using block_small [OF assms(1)] assms(3) entry_offset_mono [of i "length es" es] by auto
  define it1 where "it1 = it\<lparr>bi_current := of_nat (entry_offset es i), bi_key := e_key (es ! i),
    bi_value := Some (q + unat ns, unat vn)\<rparr>"
  have "iter_of es rs it1" using it(1) by (simp add: iter_of_def it1_def)
  then obtain j' where adv: "advance_restart it1 = it1\<lparr>bi_restart_index := of_nat j'\<rparr>" "j' < length rs" "rs ! j' \<le> i"
    using advance_restart_index [OF assms(1), of it1 i j] assms(3) j by (auto simp: it1_def)
  have "ParseNextKey it = Some (True, advance_restart it1)"
    using it dec small by (simp add: ParseNextKey_def Let_def iter_of_def it1_def)
  moreover have "at_entry es rs (advance_restart it1) i"
    using it dec adv(2,3) assms(3) unfolding adv(1)
    by (auto simp: it1_def at_entry_def iter_of_def value_bytes_def NextEntryOffset_def restart_at_def
        simp del: of_nat_add)
  ultimately show ?thesis by blast
qed

lemma parse_end:
  assumes "block_ok es rs" "ready es rs it (length es)"
  shows "\<exists>it'. ParseNextKey it = Some (False, it') \<and> past_end es rs it'"
  using assms block_small(1) [OF assms(1)]
  by (auto simp: ready_def ParseNextKey_def Let_def iter_of_def past_end_def)

lemma at_ready:
  assumes "block_ok es rs" "at_entry es rs it i"
  shows "ready es rs it (Suc i)"
  using assms
  by (auto simp: at_entry_def ready_def restart_at_def block_ok_def entries_ok_def key_before_def)

lemma restart_ready:
  assumes "block_ok es rs" "iter_of es rs it" "j < length rs"
  shows "ready es rs (SeekToRestartPoint (of_nat j) it) (rs ! j)"
proof -
  have "restarts_ok es rs" using assms(1) by (simp add: block_ok_def)
  note r = restart_entry [OF this assms(3)]
  have "unat (of_nat (entry_offset es (rs ! j)) :: u32) = entry_offset es (rs ! j)" using block_small(3) [OF assms(1) r(1)] by simp
  then show ?thesis
    using assms r GetRestartPoint_eq [OF assms]
    by (auto simp: ready_def SeekToRestartPoint_def NextEntryOffset_def iter_of_def restart_at_def)
qed

section \<open>Operations of an iterator\<close>

definition at_pos :: "block_entry list \<Rightarrow> nat list \<Rightarrow> block_iter \<Rightarrow> nat \<Rightarrow> bool" where
  "at_pos es rs it i \<longleftrightarrow> (if i < length es then at_entry es rs it i else past_end es rs it)"

lemma parse_pos:
  assumes "block_ok es rs" "ready es rs it i"
  shows "\<exists>it'. ParseNextKey it = Some (i < length es, it') \<and> at_pos es rs it' i"
proof (cases "i < length es")
  case False
  then have "i = length es" using assms(2) by (simp add: ready_def)
  then show ?thesis using parse_end [OF assms(1)] assms(2) by (simp add: at_pos_def)
qed (use parse_ready [OF assms] in \<open>simp add: at_pos_def\<close>)

lemma parse_until_at:
  assumes "block_ok es rs" "ready es rs it i" "i < m" "m \<le> length es"
  shows "\<exists>it'. parse_until (of_nat (entry_offset es m)) it = Some it' \<and> at_entry es rs it' (m - 1)"
  using assms(2,3)
proof (induction "m - i" arbitrary: it i)
  case (Suc n)
  obtain it1 where it1: "ParseNextKey it = Some (True, it1)" "at_entry es rs it1 i"
    using parse_ready [OF assms(1) Suc.prems(1)] Suc.prems(2) assms(4) by auto
  have off: "NextEntryOffset it1 = Some (of_nat (entry_offset es (Suc i)))" using it1(2) by (simp add: at_entry_def)
  have less: "(of_nat (entry_offset es (Suc i)) :: u32) < of_nat (entry_offset es m) \<longleftrightarrow> Suc i < m"
    using offset_word_less [OF assms(1), of "Suc i" m] Suc.prems(2) assms(4) by simp
  show ?case
  proof (cases "Suc i < m")
    case True
    then show ?thesis
      using it1 off less Suc.hyps(1) [of "Suc i" it1] Suc.hyps(2) at_ready [OF assms(1) it1(2)]
      by (subst parse_until.simps) simp
  next
    case False
    then have "i = m - 1" using Suc.prems(2) by simp
    then show ?thesis using it1 off less False by (subst parse_until.simps) simp
  qed
qed simp

lemma prev_restart_found:
  assumes "block_ok es rs" "iter_of es rs it" "j < length rs" "i \<le> length es"
  shows "if i = 0 then prev_restart it (of_nat (entry_offset es i)) (of_nat j) = None
    else \<exists>r<length rs. prev_restart it (of_nat (entry_offset es i)) (of_nat j) = Some (of_nat r) \<and> rs ! r < i"
  using assms(3)
proof (induction j)
  case 0
  have "rs ! 0 = 0" using assms(1) by (auto simp: block_ok_def restarts_ok_def hd_conv_nth)
  then have "GetRestartPoint it 0 < of_nat (entry_offset es i) \<longleftrightarrow> 0 < i"
    using GetRestartPoint_eq [OF assms(1,2) 0] offset_word_less [OF assms(1), of 0 i] assms(4) by simp
  then show ?case using 0 \<open>rs ! 0 = 0\<close> by (subst (1 2) prev_restart.simps) auto
next
  case (Suc j)
  have "rs ! Suc j \<le> length es" using restart_entry(1) assms(1) Suc.prems by (simp add: block_ok_def)
  then have less: "GetRestartPoint it (of_nat (Suc j)) < of_nat (entry_offset es i) \<longleftrightarrow> rs ! Suc j < i"
    using GetRestartPoint_eq [OF assms(1,2) Suc.prems] offset_word_less [OF assms(1)] assms(4) by simp
  have "unat (of_nat (Suc j) :: u32) = Suc j" using block_small(2) [OF assms(1)] Suc.prems by (intro unat_u32) simp
  then have "(of_nat (Suc j) :: u32) \<noteq> 0" by (metis nat.distinct(1) unat_0)
  moreover have "(of_nat (Suc j) - 1 :: u32) = of_nat j" by simp
  ultimately have "prev_restart it (of_nat (entry_offset es i)) (of_nat (Suc j)) =
      (if rs ! Suc j < i then Some (of_nat (Suc j)) else prev_restart it (of_nat (entry_offset es i)) (of_nat j))"
    using less by (subst prev_restart.simps) (simp del: of_nat_Suc)
  then show ?case using Suc by auto
qed

lemma Next_pos:
  assumes "block_ok es rs" "at_entry es rs it i"
  shows "\<exists>it'. bi_Next it = Some it' \<and> at_pos es rs it' (Suc i)"
  using parse_pos [OF assms(1) at_ready [OF assms]] by (auto simp: bi_Next_def)

lemma Prev_pos:
  assumes "block_ok es rs" "at_entry es rs it i"
  shows "\<exists>it'. bi_Prev it = Some it' \<and> at_pos es rs it' (if i = 0 then length es else i - 1)"
proof -
  obtain j where j: "j < length rs" "bi_restart_index it = of_nat j" using assms(2) by (auto simp: at_entry_def restart_at_def)
  have it: "iter_of es rs it" "i < length es" "bi_current it = of_nat (entry_offset es i)" using assms(2) by (auto simp: at_entry_def)
  note found = prev_restart_found [OF assms(1) it(1) j(1), of i]
  show ?thesis
  proof (cases "i = 0")
    case True
    then show ?thesis using found j(2) it by (simp add: bi_Prev_def at_pos_def past_end_def iter_of_def)
  next
    case False
    then obtain r where r: "r < length rs" "prev_restart it (bi_current it) (bi_restart_index it) = Some (of_nat r)" "rs ! r < i"
      using found j(2) it by auto
    have "iter_of es rs (it\<lparr>bi_restart_index := of_nat r\<rparr>)" using it(1) by simp
    from parse_until_at [OF assms(1) restart_ready [OF assms(1) this r(1)] r(3)] it(2,3) obtain it' where
      "parse_until (bi_current it) (SeekToRestartPoint (of_nat r) (it\<lparr>bi_restart_index := of_nat r\<rparr>)) = Some it'"
      "at_entry es rs it' (i - 1)" by auto
    then show ?thesis using False r(2) it(2) by (auto simp: bi_Prev_def Let_def at_pos_def)
  qed
qed

lemma SeekToFirst_pos:
  assumes "block_ok es rs" "iter_of es rs it"
  shows "\<exists>it'. bi_SeekToFirst it = Some it' \<and> at_pos es rs it' 0"
proof -
  have "rs ! 0 = 0" "0 < length rs" using assms(1) by (auto simp: block_ok_def restarts_ok_def hd_conv_nth)
  then show ?thesis
    using parse_pos [OF assms(1) restart_ready [OF assms, of 0]] by (auto simp: bi_SeekToFirst_def)
qed

lemma SeekToLast_pos:
  assumes "block_ok es rs" "iter_of es rs it"
  shows "\<exists>it'. bi_SeekToLast it = Some it' \<and> at_pos es rs it' (length es - 1)"
proof -
  have rs: "rs \<noteq> []" "restarts_ok es rs" using assms(1) by (auto simp: block_ok_def restarts_ok_def)
  let ?j = "length rs - 1"
  have j: "?j < length rs" "bi_num_restarts it - 1 = of_nat ?j"
    using rs(1) assms(2) by (auto simp: iter_of_def of_nat_diff Suc_le_eq)
  have res: "bi_restarts it = of_nat (entry_offset es (length es))" using assms(2) by (simp add: iter_of_def)
  note r = restart_ready [OF assms j(1)] and e = restart_entry [OF rs(2) j(1)]
  show ?thesis
  proof (cases "es = []")
    case True
    then have "rs ! ?j = length es" using e(1) by simp
    then obtain it' where "ParseNextKey (SeekToRestartPoint (of_nat ?j) it) = Some (False, it')" "past_end es rs it'"
      using parse_end [OF assms(1)] r by metis
    then show ?thesis using True by (simp add: bi_SeekToLast_def j(2) parse_until.simps at_pos_def)
  next
    case False
    then show ?thesis
      using parse_until_at [OF assms(1) r, of "length es"] e(2) by (auto simp: bi_SeekToLast_def j(2) res at_pos_def)
  qed
qed

text \<open>The binary search stays at the first restart point or at one with a smaller key.\<close>

lemma seek_restart_found:
  assumes "block_ok es rs" "iter_of es rs it" "l \<le> r" "r < length rs"
    and "l = 0 \<or> Compare c (e_key (es ! (rs ! l))) target < 0"
  shows "\<exists>j<length rs. seek_restart c target it (of_nat l) (of_nat r) = Some (Some (of_nat j)) \<and>
    (j = 0 \<or> Compare c (e_key (es ! (rs ! j))) target < 0)"
  using assms(3-)
proof (induction "r - l" arbitrary: l r rule: less_induct)
  case less
  have small: "length rs < 2 ^ 30" by (rule block_small(2) [OF assms(1)])
  have lr: "(of_nat l :: u32) < of_nat r \<longleftrightarrow> l < r" using less.prems(1,2) small by (simp add: word_less_nat_alt)
  show ?case
  proof (cases "l < r")
    case False
    then show ?thesis using lr less.prems by (subst seek_restart.simps) auto
  next
    case True
    define m where "m = (l + r + 1) div 2"
    have m: "l < m" "m \<le> r" "m < length rs" using True less.prems(2) by (auto simp: m_def)
    have mid: "((of_nat l :: u32) + of_nat r + 1) div 2 = of_nat m"
    proof -
      have sum: "(of_nat l :: u32) + of_nat r + 1 = of_nat (l + r + 1)" by simp
      have "unat (of_nat (l + r + 1) div 2 :: u32) = m"
        using less.prems(1,2) small by (simp add: unat_div_distrib m_def del: of_nat_add of_nat_Suc)
      moreover have "unat (of_nat m :: u32) = m" using m(3) small by simp
      ultimately show ?thesis unfolding sum word_unat_eq_iff by (simp only:)
    qed
    have "restarts_ok es rs" using assms(1) by (simp add: block_ok_def)
    note e = restart_entry [OF this m(3)]
    have "rs ! m \<noteq> 0"
    proof -
      have "rs ! 0 < rs ! m" using \<open>restarts_ok es rs\<close> m sorted_wrt_nth_less [of "(<)" rs 0 m] by (simp add: restarts_ok_def)
      then show ?thesis by simp
    qed
    then have in_es: "rs ! m < length es" using e by auto
    then have sh: "e_shared (es ! (rs ! m)) = 0" by (rule e(3))
    obtain q s ns vn where dec: "DecodeEntry (block_bytes es rs) (entry_offset es (rs ! m)) (entries_end es) = Some (q, s, ns, vn)"
      "unat s = 0" "take (unat ns) (drop q (block_bytes es rs)) = e_key (es ! (rs ! m))"
      "q + unat ns + unat vn \<le> length (block_bytes es rs)"
      using entry_decoded [OF assms(1) in_es] sh by auto
    have "unat (of_nat (entry_offset es (rs ! m)) :: u32) = entry_offset es (rs ! m)"
      "unat (of_nat (entries_end es) :: u32) = entries_end es"
      using block_small [OF assms(1)] in_es by simp_all
    then have "DecodeEntry (bi_data it) (unat (GetRestartPoint it (of_nat m))) (unat (bi_restarts it)) = Some (q, s, ns, vn)"
      using GetRestartPoint_eq [OF assms(1,2) m(3)] assms(2) dec(1) by (simp add: iter_of_def)
    moreover have "s = 0" using dec(2) by (simp add: unat_eq_0)
    moreover have "(of_nat m - 1 :: u32) = of_nat (m - 1)" using m(1) by (simp add: of_nat_diff)
    ultimately have step: "seek_restart c target it (of_nat l) (of_nat r) =
        (if Compare c (e_key (es ! (rs ! m))) target < 0 then seek_restart c target it (of_nat m) (of_nat r)
         else seek_restart c target it (of_nat l) (of_nat (m - 1)))"
      using lr True dec(3,4) assms(2)
      by (subst seek_restart.simps) (simp add: Let_def mid iter_of_def)
    show ?thesis
    proof (cases "Compare c (e_key (es ! (rs ! m))) target < 0")
      case True
      then show ?thesis using step less.hyps [of r m] m less.prems by simp
    next
      case False
      then show ?thesis using step less.hyps [of "m - 1" l] m less.prems by simp
    qed
  qed
qed

abbreviation first_not_less :: "comparator \<Rightarrow> slice \<Rightarrow> slice list \<Rightarrow> nat" where
  "first_not_less c target ks \<equiv> length (takeWhile (\<lambda>k. Compare c k target < 0) ks)"

lemma seek_linear_pos:
  assumes "block_ok es rs" "ready es rs it i" "i \<le> first_not_less c target (map e_key es)"
  shows "\<exists>it'. seek_linear c target it = Some it' \<and> at_pos es rs it' (first_not_less c target (map e_key es))"
  using assms(2,3)
proof (induction "length es - i" arbitrary: it i rule: less_induct)
  case less
  let ?p = "first_not_less c target (map e_key es)"
  have pn: "?p \<le> length es" using length_takeWhile_le [of _ "map e_key es"] by simp
  obtain it1 where it1: "ParseNextKey it = Some (i < length es, it1)" "at_pos es rs it1 i"
    using parse_pos [OF assms(1) less.prems(1)] by blast
  show ?case
  proof (cases "i < length es")
    case False
    then have "i = ?p" using less.prems(2) pn by simp
    then show ?thesis using it1 False by (subst seek_linear.simps) simp
  next
    case True
    then have at: "at_entry es rs it1 i" "bi_key it1 = map e_key es ! i" using it1(2) by (simp_all add: at_pos_def at_entry_def)
    show ?thesis
    proof (cases "i < ?p")
      case lt: True
      then have "Compare c (map e_key es ! i) target < 0"
        using nth_mem [OF lt] takeWhile_nth [OF lt] set_takeWhileD by metis
      then show ?thesis
        using it1(1) at(2) True less.hyps [of "Suc i" it1] at_ready [OF assms(1) at(1)] lt
        by (subst seek_linear.simps) simp
    next
      case ge: False
      then have "i = ?p" using less.prems(2) by simp
      moreover have "\<not> Compare c (map e_key es ! ?p) target < 0"
        using True ge less.prems(2) nth_length_takeWhile [of "\<lambda>k. Compare c k target < 0" "map e_key es"] by simp
      ultimately show ?thesis using it1 at(2) True by (subst seek_linear.simps) simp
    qed
  qed
qed

text \<open>What a block needs of its comparator.\<close>

locale block_order = key_order "Compare c" ok for c :: comparator and ok :: "slice \<Rightarrow> bool"
begin

lemma first_not_less_ge:
  assumes "sorted_wrt (\<lambda>a b. Compare c a b < 0) ks" "\<forall>k\<in>set ks. ok k" "ok target" "i < length ks" "Compare c (ks ! i) target < 0"
  shows "i \<le> first_not_less c target ks"
proof (rule ccontr)
  let ?p = "first_not_less c target ks"
  assume "\<not> i \<le> ?p"
  then have p: "?p < i" "?p < length ks" using assms(4) by auto
  have "Compare c (ks ! ?p) (ks ! i) < 0" using sorted_wrt_nth_less [OF assms(1) p(1) assms(4)] .
  then have "Compare c (ks ! ?p) target < 0"
    using cmp_less_le [of "ks ! ?p" "ks ! i" target] assms(2-5) p(2) by simp
  then show False using nth_length_takeWhile [OF p(2)] by simp
qed

lemma Seek_pos:
  assumes "block_ok es rs" "iter_of es rs it"
    and "sorted_wrt (\<lambda>a b. Compare c a b < 0) (map e_key es)" "\<forall>e\<in>set es. ok (e_key e)" "ok target"
  shows "\<exists>it'. bi_Seek c target it = Some it' \<and> at_pos es rs it' (first_not_less c target (map e_key es))"
proof -
  have rs: "rs \<noteq> []" "restarts_ok es rs" using assms(1) by (auto simp: block_ok_def restarts_ok_def)
  have r: "bi_num_restarts it - 1 = of_nat (length rs - 1)"
    using rs(1) assms(2) by (auto simp: iter_of_def of_nat_diff Suc_le_eq)
  obtain j where j: "j < length rs" "seek_restart c target it 0 (bi_num_restarts it - 1) = Some (Some (of_nat j))"
    "j = 0 \<or> Compare c (e_key (es ! (rs ! j))) target < 0"
    using seek_restart_found [OF assms(1,2), of 0 "length rs - 1" c target] rs(1) unfolding r by (auto simp del: of_nat_diff)
  have "rs ! j \<le> first_not_less c target (map e_key es)"
  proof (cases "rs ! j < length es \<and> j \<noteq> 0")
    case True
    then show ?thesis
      using first_not_less_ge [OF assms(3), of target "rs ! j"] assms(4,5) j(3) by simp
  next
    case False
    have "rs ! 0 = 0" using rs by (simp add: restarts_ok_def hd_conv_nth)
    then have "rs ! j = 0" using False restart_entry [OF rs(2) j(1)] by auto
    then show ?thesis by simp
  qed
  from seek_linear_pos [OF assms(1) restart_ready [OF assms(1,2) j(1)] this] show ?thesis
    using j(2) by (simp add: bi_Seek_def)
qed

end

sublocale user_comparator \<subseteq> user_block: block_order user "\<lambda>_. True" ..

sublocale user_comparator \<subseteq> internal_block: block_order "InternalKeyComparator user" "\<lambda>k. 8 \<le> length k"
  using internal.key_order_axioms by (simp add: block_order_def)

section \<open>Properties\<close>

definition build_block :: "int \<Rightarrow> (slice \<times> slice) list \<Rightarrow> byte list" where
  "build_block interval kvs = fst (bb_Finish (foldl (\<lambda>b (k, v). bb_Add b k v) (BlockBuilder interval) kvs))"

datatype iter_op = Op_Seek slice | Op_First | Op_Last | Op_Next | Op_Prev

fun block_step :: "comparator \<Rightarrow> iter_op \<Rightarrow> block_iter \<Rightarrow> block_iter option" where
  "block_step c (Op_Seek target) it = bi_Seek c target it"
| "block_step c Op_First it = bi_SeekToFirst it"
| "block_step c Op_Last it = bi_SeekToLast it"
| "block_step c Op_Next it = bi_Next it"
| "block_step c Op_Prev it = bi_Prev it"

primrec block_run :: "comparator \<Rightarrow> iter_op list \<Rightarrow> block_iter \<Rightarrow> block_iter option" where
  "block_run c [] it = Some it"
| "block_run c (op # ops) it = Option.bind (block_step c op it) (block_run c ops)"

text \<open>
  The same operations on a position in the list of keys, the length of which stands for the end. Moving
  on is allowed only from a valid position.
\<close>

fun list_step :: "comparator \<Rightarrow> slice list \<Rightarrow> iter_op \<Rightarrow> nat \<Rightarrow> nat option" where
  "list_step c ks (Op_Seek target) i = Some (first_not_less c target ks)"
| "list_step c ks Op_First i = Some 0"
| "list_step c ks Op_Last i = Some (length ks - 1)"
| "list_step c ks Op_Next i = (if i < length ks then Some (Suc i) else None)"
| "list_step c ks Op_Prev i = (if i < length ks then Some (if i = 0 then length ks else i - 1) else None)"

primrec list_run :: "comparator \<Rightarrow> slice list \<Rightarrow> iter_op list \<Rightarrow> nat \<Rightarrow> nat option" where
  "list_run c ks [] i = Some i"
| "list_run c ks (op # ops) i = Option.bind (list_step c ks op i) (list_run c ks ops)"

definition block_shows :: "block_iter \<Rightarrow> (slice \<times> slice) list \<Rightarrow> nat \<Rightarrow> bool" where
  "block_shows it kvs i \<longleftrightarrow> bi_status it = OK \<and>
     (if i < length kvs then bi_Valid it \<and> bi_key it = fst (kvs ! i) \<and> value_bytes it = Some (snd (kvs ! i))
      else \<not> bi_Valid it)"

lemma builder_Add_all:
  assumes "builder_holds b es rs"
  shows "\<exists>es' rs'. builder_holds (foldl (\<lambda>b (k, v). bb_Add b k v) b kvs) (es @ es') rs' \<and> map snd es' = kvs"
  using assms
proof (induction kvs arbitrary: b es rs)
  case Nil
  then show ?case by - (rule exI [of _ "[]"], rule exI [of _ rs], simp)
next
  case (Cons kv kvs)
  obtain k v where kv: "kv = (k, v)" by fastforce
  obtain sh rs1 where "builder_holds (bb_Add b k v) (es @ [(sh, k, v)]) rs1" using builder_Add [OF Cons.prems] by metis
  from Cons.IH [OF this] obtain es' rs' where
    "builder_holds (foldl (\<lambda>b (k, v). bb_Add b k v) (bb_Add b k v) kvs) (es @ [(sh, k, v)] @ es') rs'" "map snd es' = kvs" by auto
  then show ?case by (intro exI [of _ "(sh, k, v) # es'"] exI [of _ rs']) (simp add: kv)
qed

lemma build_block_entries:
  assumes "1 \<le> interval" "length (build_block interval kvs) < 2 ^ 32"
  obtains es rs where "build_block interval kvs = block_bytes es rs" "block_ok es rs" "map snd es = kvs"
proof -
  obtain es rs where b: "builder_holds (foldl (\<lambda>b (k, v). bb_Add b k v) (BlockBuilder interval) kvs) es rs" "map snd es = kvs"
    using builder_Add_all [OF builder_new [OF assms(1)], of kvs] by auto
  have "foldl PutFixed32 buf xs = buf @ concat (map EncodeFixed32 xs)" for buf xs
    by (induction xs arbitrary: buf) (simp_all add: PutFixed32_def)
  then have "build_block interval kvs = block_bytes es rs"
    using b(1) by (simp add: build_block_def bb_Finish_def Let_def builder_holds_def block_bytes_def PutFixed32_def comp_def)
  with b assms(2) that show thesis by (simp add: builder_holds_def block_ok_def)
qed

lemma at_pos_iter: "at_pos es rs it i \<Longrightarrow> iter_of es rs it"
  by (auto simp: at_pos_def at_entry_def past_end_def split: if_splits)

lemma at_pos_shows:
  assumes "block_ok es rs" "at_pos es rs it i"
  shows "block_shows it (map snd es) i"
proof (cases "i < length es")
  case True
  then show ?thesis
    using assms offset_word_less [OF assms(1), of i "length es"]
    by (simp add: at_pos_def at_entry_def block_shows_def bi_Valid_def iter_of_def)
next
  case False
  then show ?thesis using assms(2) by (simp add: at_pos_def past_end_def block_shows_def bi_Valid_def iter_of_def)
qed

lemma block_run_pos:
  assumes "block_order c ok" "block_ok es rs" "sorted_wrt (\<lambda>a b. Compare c a b < 0) (map e_key es)" "\<forall>e\<in>set es. ok (e_key e)"
    and "at_pos es rs it i" "\<forall>t. Op_Seek t \<in> set ops \<longrightarrow> ok t" "list_run c (map e_key es) ops i = Some p"
  shows "\<exists>it'. block_run c ops it = Some it' \<and> at_pos es rs it' p"
  using assms(5-7)
proof (induction ops arbitrary: it i)
  case (Cons op ops)
  note it = at_pos_iter [OF Cons.prems(1)]
  obtain j where j: "list_step c (map e_key es) op i = Some j" "list_run c (map e_key es) ops j = Some p"
    using Cons.prems(3) by (auto simp: bind_eq_Some_conv)
  have "\<exists>it1. block_step c op it = Some it1 \<and> at_pos es rs it1 j"
  proof (cases op)
    case (Op_Seek t)
    then show ?thesis using block_order.Seek_pos [OF assms(1,2) it assms(3,4), of t] Cons.prems(2) j(1) by simp
  next
    case Op_First
    then show ?thesis using SeekToFirst_pos [OF assms(2) it] j(1) by simp
  next
    case Op_Last
    then show ?thesis using SeekToLast_pos [OF assms(2) it] j(1) by simp
  next
    case Op_Next
    then have "at_entry es rs it i" "j = Suc i" using Cons.prems(1) j(1) by (auto simp: at_pos_def split: if_splits)
    then show ?thesis using Next_pos [OF assms(2)] Op_Next by simp
  next
    case Op_Prev
    then have "at_entry es rs it i" "j = (if i = 0 then length es else i - 1)"
      using Cons.prems(1) j(1) by (auto simp: at_pos_def split: if_splits)
    then show ?thesis using Prev_pos [OF assms(2), of it i] Op_Prev by simp
  qed
  then show ?case using Cons.IH [OF _ _ j(2)] Cons.prems(2) by fastforce
qed simp

text \<open>
  C30: a block is the sorted list it was built from. Entries with increasing keys are added to a
  builder, with any restart interval. On the finished block every sequence of iterator
  operations, in which \<^verbatim>\<open>Next\<close> and \<^verbatim>\<open>Prev\<close> are used only when the iterator is valid, ends, reads only
  inside the block and arrives where the same operations arrive on the list: \<^verbatim>\<open>Seek\<close> at the
  first key that is not smaller than its target. The iterator then has the key and the value of that
  entry and no error, or is not valid if that is past an end.
\<close>
theorem block_is_sorted_list:
  assumes "block_order c ok" "1 \<le> interval" "length (build_block interval kvs) < 2 ^ 32"
    and "sorted_wrt (\<lambda>a b. Compare c a b < 0) (map fst kvs)" "\<forall>kv\<in>set kvs. ok (fst kv)"
    and "\<forall>t. Op_Seek t \<in> set ops \<longrightarrow> ok t" "list_run c (map fst kvs) ops (length kvs) = Some p"
  shows "\<exists>it it'. NewIterator (Block (build_block interval kvs)) = Entries it \<and> block_run c ops it = Some it' \<and>
    block_shows it' kvs p"
proof -
  obtain es rs where es: "build_block interval kvs = block_bytes es rs" "block_ok es rs" "map snd es = kvs"
    using build_block_entries [OF assms(2,3)] .
  have keys: "map e_key es = map fst kvs" "length es = length kvs" using es(3) by auto
  let ?it = "make_Iter (block_bytes es rs) (of_nat (entries_end es)) (of_nat (length rs))"
  have "at_pos es rs ?it (length kvs)" by (simp add: at_pos_def past_end_def iter_of_def make_Iter_def keys)
  moreover have "snd ` set es = set kvs" using es(3) by (metis set_map)
  then have "\<forall>e\<in>set es. ok (e_key e)" using assms(5) by blast
  ultimately obtain it' where "block_run c ops ?it = Some it'" "at_pos es rs it' p"
    using block_run_pos [OF assms(1) es(2) _ _ _ assms(6)] assms(4,7) keys by metis
  then show ?thesis using block_read [OF es(2)] at_pos_shows [OF es(2)] es(1,3) by auto
qed

theorem block_is_sorted_list_witness:
  "\<exists>it it'. NewIterator (Block (build_block 2 [([97, 98], [1]), ([97, 99], [2, 3]), ([98], [])])) = Entries it \<and>
     block_run BytewiseComparator [Op_Seek [97, 99], Op_Prev, Op_Next, Op_Next] it = Some it' \<and> bi_key it' = [98]"
proof -
  let ?kvs = "[([97, 98], [1]), ([97, 99], [2, 3]), ([98], [])] :: (slice \<times> slice) list"
  let ?ops = "[Op_Seek [97, 99], Op_Prev, Op_Next, Op_Next]"
  have "length (build_block 2 ?kvs) < 100" by code_simp
  then have "length (build_block 2 ?kvs) < 2 ^ 32" by (rule less_trans) simp
  moreover have "list_run BytewiseComparator (map fst ?kvs) ?ops 3 = Some 2"
    by (simp add: slice_compare_def)
  ultimately show ?thesis
    using block_is_sorted_list [OF bytewise.user_block.block_order_axioms, of 2 ?kvs ?ops 2]
    by (auto simp: block_shows_def slice_compare_def)
qed

text \<open>
  lengths of entries wrap around. \<^verbatim>\<open>DecodeEntry\<close> adds the length of the key and the length of
  the value in 32 bits before it compares them with what is left of the block. In this block they
  are 2^32 - 1 and 1: the entry is accepted, and the iterator reads far outside of the block.
\<close>
theorem entry_length_wraps:
  "DecodeEntry [0, 255, 255, 255, 255, 15, 1, 0, 0, 0, 0, 1, 0, 0, 0] 0 7 = Some (7, 0, 2 ^ 32 - 1, 1) \<and>
   (\<exists>it. NewIterator (Block [0, 255, 255, 255, 255, 15, 1, 0, 0, 0, 0, 1, 0, 0, 0]) = Entries it \<and>
      bi_SeekToFirst it = None)"
proof -
  have dec: "DecodeEntry [0, 255, 255, 255, 255, 15, 1, 0, 0, 0, 0, 1, 0, 0, 0] 0 7 = Some (7, 0, 2 ^ 32 - 1, 1)" by code_simp
  let ?d = "[0, 255, 255, 255, 255, 15, 1, 0, 0, 0, 0, 1, 0, 0, 0] :: byte list"
  have rs: "DecodeFixed32 [1, 0, 0, 0] = 1" "DecodeFixed32 [0, 0, 0, 0, 1, 0, 0, 0] = 0" by code_simp+
  have "NewIterator (Block ?d) = Entries (make_Iter ?d 7 1)"
    using rs by (simp add: NewIterator_def Block_def NumRestarts_def Let_def)
  moreover have "bi_SeekToFirst (make_Iter ?d 7 1) = None"
    using dec rs by (simp add: bi_SeekToFirst_def make_Iter_def ParseNextKey_def SeekToRestartPoint_def GetRestartPoint_def
        NextEntryOffset_def Let_def)
  ultimately show ?thesis using dec by blast
qed

end
