(* ===== verification/Ldb_Filter_Props.thy ===== *)
theory Ldb_Filter_Props
  imports Ldb_Filter
begin

unbundle bit_operations_syntax

text \<open>
  Filters have no false negatives: first for the Bloom filter, then for a filter block over
  any policy with that property.
\<close>

section \<open>The Bloom filter\<close>

text \<open>Every bit of \<open>a\<close> is one of \<open>b\<close>.\<close>

definition covers :: "byte list \<Rightarrow> byte list \<Rightarrow> bool" where
  "covers a b \<longleftrightarrow> length a \<le> length b \<and> (\<forall>q<length a. \<forall>r. bit (a ! q) r \<longrightarrow> bit (b ! q) r)"

lemma covers_refl [simp]: "covers a a"
  by (simp add: covers_def)

lemma covers_trans: "covers a b \<Longrightarrow> covers b c \<Longrightarrow> covers a c"
  by (auto simp: covers_def)

lemma covers_append: "covers a (a @ b)"
  by (simp add: covers_def nth_append)

lemma covers_or: "covers a (a[q := a ! q OR x])"
  by (cases "q < length a") (auto simp: covers_def nth_list_update bit_or_iff)

lemma probe_bit: "(a AND push_bit r 1 = (0 :: byte)) \<longleftrightarrow> \<not> bit a r" "(a AND 2 ^ r = (0 :: byte)) \<longleftrightarrow> \<not> bit a r"
  using and_exp_eq_0_iff_not_bit [of a r] by (simp_all add: push_bit_of_1)

lemma length_set_probes [simp]: "length (set_probes j h delta bits array) = length array"
  by (induction j arbitrary: h array) (simp_all add: Let_def)

lemma set_probes_covers: "covers array (set_probes j h delta bits array)"
proof (induction j arbitrary: h array)
  case (Suc j)
  then show ?case using covers_or covers_trans by (fastforce simp: Let_def)
qed simp

lemma match_probes_covers:
  assumes "match_probes j h delta bits a" "covers a b" "bits = 8 * length a" "0 < bits"
  shows "match_probes j h delta bits b"
  using assms(1)
proof (induction j arbitrary: h)
  case (Suc j)
  have "unat h mod bits div 8 < length a" using assms(3,4) by (simp add: less_mult_imp_div_less mult.commute)
  then show ?case using Suc assms(2) by (auto simp: Let_def probe_bit covers_def split: if_splits)
qed simp

lemma match_set_probes:
  assumes "bits = 8 * length array" "0 < bits"
  shows "match_probes j h delta bits (set_probes j h delta bits array)"
  using assms(1)
proof (induction j arbitrary: h array)
  case (Suc j)
  let ?p = "unat h mod bits"
  let ?a = "array[?p div 8 := array ! (?p div 8) OR push_bit (?p mod 8) 1]"
  have p: "?p div 8 < length array" using Suc.prems assms(2) by (simp add: less_mult_imp_div_less mult.commute)
  then have "bit (?a ! (?p div 8)) (?p mod 8)" by (simp add: bit_or_iff push_bit_of_1 bit_exp_iff)
  then have "bit (set_probes j (h + delta) delta bits ?a ! (?p div 8)) (?p mod 8)"
    using set_probes_covers [of ?a] p by (auto simp: covers_def)
  moreover have "match_probes j (h + delta) delta bits (set_probes j (h + delta) delta bits ?a)"
    by (rule Suc.IH) (use Suc.prems in simp)
  ultimately show ?case by (simp add: Let_def probe_bit)
qed simp

lemma bloom_fold_covers:
  "covers array (foldl (\<lambda>array key. let h = f key in set_probes k h (g h) bits array) array keys) \<and>
   length (foldl (\<lambda>array key. let h = f key in set_probes k h (g h) bits array) array keys) = length array"
proof (induction keys arbitrary: array)
  case (Cons key keys)
  then show ?case using set_probes_covers covers_trans by (fastforce simp: Let_def)
qed simp

lemma bloom_fold_matches:
  assumes "key \<in> set keys" "bits = 8 * length array" "0 < bits"
  shows "match_probes k (f key) (g (f key)) bits (foldl (\<lambda>array key. let h = f key in set_probes k h (g h) bits array) array keys)"
  using assms(1,2)
proof (induction keys arbitrary: array)
  case (Cons x keys)
  let ?a = "set_probes k (f x) (g (f x)) bits array"
  have len: "bits = 8 * length ?a" using Cons.prems(2) by simp
  show ?case
  proof (cases "key \<in> set keys")
    case True
    then show ?thesis using Cons.IH [of ?a] len by (simp add: Let_def)
  next
    case False
    then have "key = x" using Cons.prems(1) by simp
    then have "match_probes k (f key) (g (f key)) bits ?a" using match_set_probes [OF Cons.prems(2) assms(3)] by simp
    then show ?thesis
      using match_probes_covers [OF _ _ len assms(3)] bloom_fold_covers [of ?a f k g bits keys] by (simp add: Let_def)
  qed
qed simp

text \<open>
  What a filter block relies on: a filter is appended to what is there, and matches each of its keys.
\<close>

locale filter_policy_ok =
  fixes policy :: filter_policy
  assumes creates: "CreateFilter policy keys dst = dst @ CreateFilter policy keys []"
    and matches: "key \<in> set keys \<Longrightarrow> KeyMayMatch policy key (CreateFilter policy keys [])"

lemma bloom_k_range: "1 \<le> bloom_k n \<and> bloom_k n \<le> 30"
  by (simp add: bloom_k_def Let_def)

lemma bloom_matches:
  assumes "key \<in> set keys"
  shows "bloom_KeyMayMatch key (bloom_CreateFilter n keys [])"
proof -
  define bytes where "bytes = ((if length keys * n < 64 then 64 else length keys * n) + 7) div 8"
  let ?k = "bloom_k n"
  let ?array = "foldl (\<lambda>array key. let h = BloomHash key in set_probes ?k h (bloom_delta h) (bytes * 8) array) (replicate bytes 0) keys"
  have "64 \<le> (if length keys * n < 64 then 64 else length keys * n)" by simp
  then have bytes: "0 < bytes" unfolding bytes_def by linarith
  have filt: "bloom_CreateFilter n keys [] = ?array @ [of_nat ?k]" by (simp add: bloom_CreateFilter_def bytes_def Let_def)
  have len: "length ?array = bytes" using bloom_fold_covers [of "replicate bytes 0" BloomHash ?k bloom_delta "bytes * 8" keys] by simp
  have "match_probes ?k (BloomHash key) (bloom_delta (BloomHash key)) (bytes * 8) ?array"
    using bloom_fold_matches [OF assms, of "bytes * 8" "replicate bytes 0"] bytes by simp
  from match_probes_covers [OF this covers_append [of _ "[of_nat ?k]"]]
  have "match_probes ?k (BloomHash key) (bloom_delta (BloomHash key)) (bytes * 8) (?array @ [of_nat ?k])"
    using len bytes by simp
  moreover have "unat (scast (of_nat ?k :: byte) :: u64) = ?k"
  proof -
    have "sint (of_nat ?k :: byte) = int ?k" using bloom_k_range [of n] by (simp add: signed_of_nat signed_take_bit_int_eq_self)
    then have "(scast (of_nat ?k :: byte) :: u64) = of_nat ?k" by (metis of_int_of_nat_eq of_int_sint)
    then show ?thesis using bloom_k_range [of n] by (simp add: unat_of_nat_u64)
  qed
  ultimately show ?thesis
    using bytes len bloom_k_range [of n] unfolding filt bloom_KeyMayMatch_def by (simp add: Let_def nth_append)
qed

lemma length_bloom:
  "length (bloom_CreateFilter n keys dst) = length dst + ((if length keys * n < 64 then 64 else length keys * n) + 7) div 8 + 1"
  using bloom_fold_covers [of "replicate _ 0" BloomHash "bloom_k n" bloom_delta _ keys] by (simp add: bloom_CreateFilter_def Let_def)

interpretation bloom: filter_policy_ok "BloomFilterPolicy bits_per_key" for bits_per_key
  by unfold_locales (simp_all add: BloomFilterPolicy_def bloom_matches, simp add: bloom_CreateFilter_def Let_def)

lemma internal_policy_ok:
  assumes "filter_policy_ok p"
  shows "filter_policy_ok (InternalFilterPolicy p)"
proof
  fix keys dst key
  show "CreateFilter (InternalFilterPolicy p) keys dst = dst @ CreateFilter (InternalFilterPolicy p) keys []"
    unfolding InternalFilterPolicy_def filter_policy.select_convs by (rule filter_policy_ok.creates [OF assms])
  show "KeyMayMatch (InternalFilterPolicy p) key (CreateFilter (InternalFilterPolicy p) keys [])" if "key \<in> set keys"
    unfolding InternalFilterPolicy_def filter_policy.select_convs
    by (rule filter_policy_ok.matches [OF assms]) (use that in simp)
qed

interpretation internal_bloom: filter_policy_ok "InternalFilterPolicy (BloomFilterPolicy bits_per_key)" for bits_per_key
  by (rule internal_policy_ok) (rule bloom.filter_policy_ok_axioms)

section \<open>The filter block\<close>

abbreviation starts :: "slice list \<Rightarrow> nat \<Rightarrow> nat list" where
  "starts ks n \<equiv> map (\<lambda>i. length (concat (take i ks))) [0..<n]"

definition filter_bytes :: "filter_policy \<Rightarrow> slice list \<Rightarrow> byte list" where
  "filter_bytes policy ks = (if ks = [] then [] else CreateFilter policy ks [])"

text \<open>The builder has made a filter for each list of keys in \<open>gs\<close> and waits with the keys \<open>ks\<close>.\<close>

definition builder_at :: "filter_policy \<Rightarrow> filter_builder \<Rightarrow> slice list list \<Rightarrow> slice list \<Rightarrow> bool" where
  "builder_at policy b gs ks \<longleftrightarrow> fb_keys b = concat ks \<and> fb_start b = starts ks (length ks) \<and>
     fb_result b = concat (map (filter_bytes policy) gs) \<and>
     fb_offsets b = map of_nat (starts (map (filter_bytes policy) gs) (length gs))"

lemma builder_at_new: "builder_at policy FilterBlockBuilder [] []"
  by (simp add: builder_at_def FilterBlockBuilder_def)

lemma AddKey_at: "builder_at policy b gs ks \<Longrightarrow> builder_at policy (AddKey k b) gs (ks @ [k])"
  by (simp add: builder_at_def AddKey_def)

lemma AddKeys_at: "builder_at policy b gs ks \<Longrightarrow> builder_at policy (fold AddKey ks' b) gs (ks @ ks')"
proof (induction ks' arbitrary: b ks)
  case (Cons k ks')
  then show ?case using Cons.IH [OF AddKey_at [OF Cons.prems, of k]] by simp
qed simp

lemma flattened_keys:
  "i < length ks \<Longrightarrow>
   take (length (concat (take (Suc i) ks)) - length (concat (take i ks))) (drop (length (concat (take i ks))) (concat ks)) = ks ! i"
proof -
  assume i: "i < length ks"
  have "concat ks = concat (take i ks) @ ks ! i @ concat (drop (Suc i) ks)"
    by (subst id_take_nth_drop [OF i]) (simp only: concat_append concat.simps)
  then show ?thesis using i by (simp add: take_Suc_conv_app_nth)
qed

context filter_policy_ok
begin

lemma GenerateFilter_at:
  assumes "builder_at policy b gs ks"
  shows "builder_at policy (GenerateFilter policy b) (gs @ [ks]) []"
proof (cases "ks = []")
  case True
  then show ?thesis using assms by (simp add: builder_at_def GenerateFilter_def Let_def filter_bytes_def)
next
  case False
  let ?s = "fb_start b @ [length (fb_keys b)]"
  have s: "?s = starts ks (Suc (length ks))" using assms by (simp add: builder_at_def)
  have "map (\<lambda>i. take (?s ! (i + 1) - ?s ! i) (drop (?s ! i) (fb_keys b))) [0..<length (fb_start b)] = ks"
    unfolding s using assms by (auto simp: builder_at_def flattened_keys simp del: upt_Suc intro!: nth_equalityI)
  then show ?thesis
    using assms False creates [of ks "fb_result b"]
    by (simp add: builder_at_def GenerateFilter_def Let_def filter_bytes_def)
qed

lemma start_loop_at:
  assumes "builder_at policy b gs ks" "length gs \<le> n"
  shows "\<exists>gs' ks'. builder_at policy (start_loop policy n b) gs' ks' \<and> length gs' = n \<and>
    (\<forall>i<length gs. gs' ! i = gs ! i) \<and> set ks \<subseteq> set ((gs' @ [ks']) ! length gs)"
  using assms
proof (induction "n - length gs" arbitrary: b gs ks)
  case 0
  then have "length (fb_offsets b) = n" by (simp add: builder_at_def)
  then show ?case using 0 by (subst start_loop.simps) (intro exI [of _ gs] exI [of _ ks], simp add: nth_append)
next
  case (Suc m)
  have step: "start_loop policy n b = start_loop policy n (GenerateFilter policy b)"
    using Suc.hyps(2) Suc.prems(1) by (subst start_loop.simps) (simp add: builder_at_def)
  have "m = n - length (gs @ [ks])" "length (gs @ [ks]) \<le> n" using Suc.hyps(2) by auto
  from Suc.hyps(1) [OF this(1) GenerateFilter_at [OF Suc.prems(1)] this(2)] obtain gs' ks' where
    g: "builder_at policy (start_loop policy n (GenerateFilter policy b)) gs' ks'" "length gs' = n"
    "\<forall>i<length (gs @ [ks]). gs' ! i = (gs @ [ks]) ! i" by blast
  have "length gs < n" using Suc.hyps(2) by simp
  then have "(gs' @ [ks']) ! length gs = ks" using g(2,3) by (simp add: nth_append)
  moreover have "\<forall>i<length gs. gs' ! i = gs ! i" using g(3) by (simp add: nth_append)
  ultimately show ?case unfolding step using g(1,2) by blast
qed

text \<open>Blocks of a table: where each begins and its keys.\<close>

lemma blocks_at:
  assumes "builder_at policy b gs ks" "sorted_wrt (\<le>) (length gs # map (\<lambda>blk. unat (fst blk div kFilterBase)) bs)"
  shows "\<exists>gs' ks'. builder_at policy (foldl (\<lambda>b (off, keys). fold AddKey keys (StartBlock policy off b)) b bs) gs' ks' \<and>
    length gs \<le> length gs' \<and> (\<forall>i<length gs. gs' ! i = gs ! i) \<and> set ks \<subseteq> set ((gs' @ [ks']) ! length gs) \<and>
    (\<forall>(off, keys)\<in>set bs. unat (off div kFilterBase) \<le> length gs' \<and> set keys \<subseteq> set ((gs' @ [ks']) ! unat (off div kFilterBase)))"
  using assms
proof (induction bs arbitrary: b gs ks)
  case Nil
  then show ?case by (intro exI [of _ gs] exI [of _ ks]) simp
next
  case (Cons blk bs)
  obtain off keys where blk: "blk = (off, keys)" by fastforce
  let ?n = "unat (off div kFilterBase)"
  have n: "length gs \<le> ?n" using Cons.prems(2) blk by simp
  from start_loop_at [OF Cons.prems(1) n] obtain gs1 ks1 where
    s: "builder_at policy (StartBlock policy off b) gs1 ks1" "length gs1 = ?n" "\<forall>i<length gs. gs1 ! i = gs ! i"
    "set ks \<subseteq> set ((gs1 @ [ks1]) ! length gs)" unfolding StartBlock_def by blast
  note a = AddKeys_at [OF s(1), of keys]
  have "sorted_wrt (\<le>) (length gs1 # map (\<lambda>blk. unat (fst blk div kFilterBase)) bs)"
    using Cons.prems(2) blk s(2) by simp
  from Cons.IH [OF a this] obtain gs' ks' where
    r: "builder_at policy (foldl (\<lambda>b (off, keys). fold AddKey keys (StartBlock policy off b)) (fold AddKey keys (StartBlock policy off b)) bs) gs' ks'"
    "length gs1 \<le> length gs'" "\<forall>i<length gs1. gs' ! i = gs1 ! i" "set (ks1 @ keys) \<subseteq> set ((gs' @ [ks']) ! length gs1)"
    "\<forall>(off, keys)\<in>set bs. unat (off div kFilterBase) \<le> length gs' \<and> set keys \<subseteq> set ((gs' @ [ks']) ! unat (off div kFilterBase))"
    by blast
  have "set ks \<subseteq> set ((gs' @ [ks']) ! length gs)"
  proof (cases "length gs < length gs1")
    case True
    then show ?thesis using s(4) r(2,3) by (simp add: nth_append)
  next
    case False
    then have "length gs = length gs1" using n s(2) by simp
    then show ?thesis using s(4) r(4) by auto
  qed
  moreover have "\<forall>i<length gs. gs' ! i = gs ! i" using s(2,3) r(3) n by simp
  moreover have "set keys \<subseteq> set ((gs' @ [ks']) ! ?n)" using r(4) s(2) by auto
  ultimately show ?case
    using r(1,2,5) s(2) n blk by (intro exI [of _ gs'] exI [of _ ks']) auto
qed

lemma finished_filter:
  assumes "builder_at policy b gs []" "length (filter_Finish policy b) < 2 ^ 32" "i < length gs" "key \<in> set (gs ! i)"
    and "unat (off div kFilterBase) = i"
  shows "reader_KeyMayMatch policy (FilterBlockReader (filter_Finish policy b)) off key"
proof -
  define fs where "fs = map (filter_bytes policy) gs"
  define f where "f j = (of_nat (length (concat (take j fs))) :: u32)" for j
  let ?R = "concat fs" and ?A = "concat (map (\<lambda>j. EncodeFixed32 (f j)) [0..<Suc (length gs)])"
  have fold: "foldl PutFixed32 buf xs = buf @ concat (map EncodeFixed32 xs)" for buf xs
    by (induction xs arbitrary: buf) (simp_all add: PutFixed32_def)
  have C: "filter_Finish policy b = ?R @ ?A @ [11]" (is "?C = _")
    using assms(1) by (simp add: filter_Finish_def builder_at_def Let_def fold PutFixed32_def kFilterBaseLg_def
        f_def fs_def comp_def)
  have len: "length ?C = length ?R + 4 * length gs + 5"
    unfolding C length_append length_fixed32_array by simp
  have part: "length (concat (take j fs)) \<le> length ?R" for j
    by (metis append_take_drop_id concat_append le_add1 length_append)
  then have u: "unat (f j) = length (concat (take j fs))" for j
    using len assms(2) le_less_trans [OF part] by (simp add: f_def)
  have dec: "DecodeFixed32 (drop (length ?R + j * 4) ?C) = f j" if "j < Suc (length gs)" for j
    using concat_nth_fixed [of j "[0..<Suc (length gs)]" f "[11]"] that unfolding C
    by (simp add: mult.commute del: upt_Suc)
  have last: "unat (DecodeFixed32 (drop (length ?C - 5) ?C)) = length ?R"
    using dec [of "length gs"] u [of "length gs"] unfolding len by (simp add: fs_def mult.commute)
  have "?C ! (length ?C - 1) = 11" unfolding C by (simp add: nth_append)
  then have reader: "FilterBlockReader ?C = \<lparr>fr_data = ?C, fr_offset = length ?R, fr_num = length gs, fr_base_lg = 11\<rparr>"
    using last len by (simp add: FilterBlockReader_def Let_def)
  have index: "unat (drop_bit 11 off) = i"
    using assms(5) by (simp add: kFilterBase_def kFilterBaseLg_def drop_bit_eq_div)
  have mono: "length (concat (take i fs)) \<le> length (concat (take (Suc i) fs))"
    using assms(3) by (simp add: take_Suc_conv_app_nth fs_def)
  have "unat (f (Suc i) - f i) = length (concat (take (Suc i) fs)) - length (concat (take i fs))"
    using mono u by (simp add: unat_sub word_le_nat_alt)
  moreover have "take (length (concat (take (Suc i) fs)) - length (concat (take i fs))) (drop (length (concat (take i fs))) ?C) = fs ! i"
    using flattened_keys [of i fs] assms(3) part [of "Suc i"] mono unfolding C by (simp add: fs_def)
  ultimately have slice: "take (unat (f (Suc i) - f i)) (drop (unat (f i)) ?C) = fs ! i" using u by simp
  have "gs ! i \<noteq> []" using assms(4) by auto
  then have "KeyMayMatch policy key (fs ! i)"
    using matches [OF assms(4)] assms(3) by (simp add: fs_def filter_bytes_def)
  moreover have "f i \<le> f (Suc i)" "unat (f (Suc i)) \<le> length ?R" using mono u part [of "Suc i"] by (simp_all add: word_le_nat_alt)
  moreover have "DecodeFixed32 (drop (length ?R + i * 4) ?C) = f i" "DecodeFixed32 (drop (length ?R + i * 4 + 4) ?C) = f (Suc i)"
    using dec [of i] dec [of "Suc i"] assms(3) by (simp_all add: add.commute add.left_commute)
  ultimately show ?thesis
    using slice assms(3) unfolding reader reader_KeyMayMatch_def by (simp add: Let_def index)
qed

end

section \<open>Properties\<close>

definition build_filter :: "filter_policy \<Rightarrow> (u64 \<times> slice list) list \<Rightarrow> byte list" where
  "build_filter policy bs =
     filter_Finish policy (foldl (\<lambda>b (off, keys). fold AddKey keys (StartBlock policy off b)) FilterBlockBuilder bs)"

context filter_policy_ok
begin

lemma keeps_keys:
  assumes "sorted_wrt (\<le>) (map (\<lambda>blk. unat (fst blk div kFilterBase)) bs)"
    and "length (build_filter policy bs) < 2 ^ 32" "(off, keys) \<in> set bs" "key \<in> set keys"
  shows "reader_KeyMayMatch policy (FilterBlockReader (build_filter policy bs)) off key"
proof -
  let ?b = "foldl (\<lambda>b (off, keys). fold AddKey keys (StartBlock policy off b)) FilterBlockBuilder bs"
  let ?n = "unat (off div kFilterBase)"
  from blocks_at [OF builder_at_new [of policy], of bs] assms(1) obtain gs ks where
    g: "builder_at policy ?b gs ks" "\<forall>(off, keys)\<in>set bs. unat (off div kFilterBase) \<le> length gs \<and>
      set keys \<subseteq> set ((gs @ [ks]) ! unat (off div kFilterBase))" by auto
  define gs' where "gs' = (if ks = [] then gs else gs @ [ks])"
  define b' where "b' = (if ks = [] then ?b else GenerateFilter policy ?b)"
  have b': "builder_at policy b' gs' []"
    using g(1) GenerateFilter_at [OF g(1)] by (auto simp: b'_def gs'_def)
  have start: "fb_start ?b = [] \<longleftrightarrow> ks = []" "fb_start b' = []" using g(1) b' by (auto simp: builder_at_def)
  then have fin: "filter_Finish policy ?b = filter_Finish policy b'" by (auto simp: filter_Finish_def b'_def Let_def)
  have n: "?n \<le> length gs" "key \<in> set ((gs @ [ks]) ! ?n)" using g(2) assms(3,4) by auto
  then have "?n < length gs' \<and> key \<in> set (gs' ! ?n)"
    by (cases "?n < length gs") (auto simp: gs'_def nth_append)
  then show ?thesis
    using finished_filter [OF b' _ _ _ refl] assms(2) fin by (simp add: build_filter_def)
qed

end

text \<open>
  C32: filters never hide a key. The blocks of a table are announced in the order of their
  offsets, each followed by its keys, with the policy that wraps Bloom filters for internal
  keys. For every block and every key in it, the finished filter block, read back, says that the block may
  hold the key. The same holds for every policy whose filters match their own keys.
\<close>
theorem filter_no_false_negatives:
  assumes "filter_policy_ok policy" "sorted_wrt (\<le>) (map (\<lambda>blk. unat (fst blk div kFilterBase)) bs)"
    and "length (build_filter policy bs) < 2 ^ 32" "(off, keys) \<in> set bs" "key \<in> set keys"
  shows "reader_KeyMayMatch policy (FilterBlockReader (build_filter policy bs)) off key"
  by (rule filter_policy_ok.keeps_keys [OF assms])

theorem filter_no_false_negatives_witness:
  "reader_KeyMayMatch (InternalFilterPolicy (BloomFilterPolicy 10))
     (FilterBlockReader (build_filter (InternalFilterPolicy (BloomFilterPolicy 10))
        [(0, [InternalKey [97] 5 kTypeValue]), (4100, [InternalKey [98] 6 kTypeValue, InternalKey [99] 7 kTypeDeletion])]))
     4100 (InternalKey [99] 7 kTypeDeletion)"
proof -
  let ?p = "InternalFilterPolicy (BloomFilterPolicy 10)"
  let ?bs = "[(0, [InternalKey [97] 5 kTypeValue]), (4100, [InternalKey [98] 6 kTypeValue, InternalKey [99] 7 kTypeDeletion])]"
  have "length (build_filter ?p ?bs) < 100"
    by (simp add: build_filter_def filter_Finish_def StartBlock_def start_loop.simps GenerateFilter_def AddKey_def
        FilterBlockBuilder_def InternalFilterPolicy_def BloomFilterPolicy_def length_bloom kFilterBase_def
        kFilterBaseLg_def PutFixed32_def Let_def)
  then have small: "length (build_filter ?p ?bs) < 2 ^ 32" by (rule less_trans) simp
  have sorted: "sorted_wrt (\<le>) (map (\<lambda>blk. unat (fst blk div kFilterBase)) ?bs)"
    by (simp add: kFilterBase_def kFilterBaseLg_def)
  show ?thesis
    by (rule filter_no_false_negatives [OF internal_bloom.filter_policy_ok_axioms sorted small, of 4100 "snd (?bs ! 1)"])
      simp_all
qed

end
