(* ===== verification/Ldb_Version_Edit.thy ===== *)
theory Ldb_Version_Edit
  imports Ldb_Dbformat "HOL-Library.Product_Lexorder"
begin

text \<open>
  Changes of the set of table files, \<^verbatim>\<open>leveldb-library/db/version_edit.cc\<close>: the records of the
  manifest. An edit is encoded as a list of tagged fields; the theorem is that decoding
  gives the edit back.
\<close>

section \<open>The edit\<close>

definition kNumLevels :: nat where
  "kNumLevels = 7"

record file_meta =
  fm_refs :: int
  fm_allowed_seeks :: int
  fm_number :: u64
  fm_file_size :: u64
  fm_smallest :: "byte list"
  fm_largest :: "byte list"

text \<open>The constructor; \<open>number\<close> is what it finds in memory, since it does not set the number.\<close>

definition FileMetaData :: "u64 \<Rightarrow> file_meta" where
  "FileMetaData number =
     \<lparr>fm_refs = 0, fm_allowed_seeks = 2 ^ 30, fm_number = number, fm_file_size = 0, fm_smallest = [], fm_largest = []\<rparr>"

text \<open>The set of deleted files is kept in the order in which \<^verbatim>\<open>std::set\<close> iterates over it.\<close>

record version_edit =
  ve_comparator :: "byte list"
  ve_log_number :: u64
  ve_prev_log_number :: u64
  ve_next_file_number :: u64
  ve_last_sequence :: SequenceNumber
  has_comparator :: bool
  has_log_number :: bool
  has_prev_log_number :: bool
  has_next_file_number :: bool
  has_last_sequence :: bool
  compact_pointers :: "(int \<times> byte list) list"
  deleted_files :: "(int \<times> u64) list"
  new_files :: "(int \<times> file_meta) list"

definition ve_Clear :: "version_edit \<Rightarrow> version_edit" where
  "ve_Clear e =
     e\<lparr>ve_comparator := [], ve_log_number := 0, ve_prev_log_number := 0, ve_last_sequence := 0, ve_next_file_number := 0,
       has_comparator := False, has_log_number := False, has_prev_log_number := False, has_next_file_number := False,
       has_last_sequence := False, deleted_files := [], new_files := []\<rparr>"

definition VersionEdit :: version_edit where
  "VersionEdit =
     \<lparr>ve_comparator = [], ve_log_number = 0, ve_prev_log_number = 0, ve_next_file_number = 0, ve_last_sequence = 0,
      has_comparator = False, has_log_number = False, has_prev_log_number = False, has_next_file_number = False,
      has_last_sequence = False, compact_pointers = [], deleted_files = [], new_files = []\<rparr>"

definition SetComparatorName :: "slice \<Rightarrow> version_edit \<Rightarrow> version_edit" where
  "SetComparatorName name e = e\<lparr>has_comparator := True, ve_comparator := name\<rparr>"

definition SetLogNumber :: "u64 \<Rightarrow> version_edit \<Rightarrow> version_edit" where
  "SetLogNumber num e = e\<lparr>has_log_number := True, ve_log_number := num\<rparr>"

definition SetPrevLogNumber :: "u64 \<Rightarrow> version_edit \<Rightarrow> version_edit" where
  "SetPrevLogNumber num e = e\<lparr>has_prev_log_number := True, ve_prev_log_number := num\<rparr>"

definition SetNextFile :: "u64 \<Rightarrow> version_edit \<Rightarrow> version_edit" where
  "SetNextFile num e = e\<lparr>has_next_file_number := True, ve_next_file_number := num\<rparr>"

definition SetLastSequence :: "SequenceNumber \<Rightarrow> version_edit \<Rightarrow> version_edit" where
  "SetLastSequence seq e = e\<lparr>has_last_sequence := True, ve_last_sequence := seq\<rparr>"

definition SetCompactPointer :: "int \<Rightarrow> byte list \<Rightarrow> version_edit \<Rightarrow> version_edit" where
  "SetCompactPointer level key e = e\<lparr>compact_pointers := compact_pointers e @ [(level, key)]\<rparr>"

definition AddFile :: "int \<Rightarrow> u64 \<Rightarrow> u64 \<Rightarrow> byte list \<Rightarrow> byte list \<Rightarrow> version_edit \<Rightarrow> version_edit" where
  "AddFile level file file_size smallest largest e =
     e\<lparr>new_files := new_files e @ [(level, (FileMetaData file)\<lparr>fm_file_size := file_size, fm_smallest := smallest, fm_largest := largest\<rparr>)]\<rparr>"

definition DeleteFile :: "int \<Rightarrow> u64 \<Rightarrow> version_edit \<Rightarrow> version_edit" where
  "DeleteFile level file e = e\<lparr>deleted_files := insort_insert (level, file) (deleted_files e)\<rparr>"

section \<open>Encoding\<close>

definition kComparator :: u32 where "kComparator = 1"
definition kLogNumber :: u32 where "kLogNumber = 2"
definition kNextFileNumber :: u32 where "kNextFileNumber = 3"
definition kLastSequence :: u32 where "kLastSequence = 4"
definition kCompactPointer :: u32 where "kCompactPointer = 5"
definition kDeletedFile :: u32 where "kDeletedFile = 6"
definition kNewFile :: u32 where "kNewFile = 7"
definition kPrevLogNumber :: u32 where "kPrevLogNumber = 9"

lemmas tag_defs = kComparator_def kLogNumber_def kNextFileNumber_def kLastSequence_def kCompactPointer_def
  kDeletedFile_def kNewFile_def kPrevLogNumber_def

definition ve_EncodeTo :: "version_edit \<Rightarrow> byte list \<Rightarrow> byte list" where
  "ve_EncodeTo e dst =
     (let d1 = (if has_comparator e then PutLengthPrefixedSlice (PutVarint32 dst kComparator) (ve_comparator e) else dst);
          d2 = (if has_log_number e then PutVarint64 (PutVarint32 d1 kLogNumber) (ve_log_number e) else d1);
          d3 = (if has_prev_log_number e then PutVarint64 (PutVarint32 d2 kPrevLogNumber) (ve_prev_log_number e) else d2);
          d4 = (if has_next_file_number e then PutVarint64 (PutVarint32 d3 kNextFileNumber) (ve_next_file_number e) else d3);
          d5 = (if has_last_sequence e then PutVarint64 (PutVarint32 d4 kLastSequence) (ve_last_sequence e) else d4);
          d6 = foldl (\<lambda>d (level, key). PutLengthPrefixedSlice (PutVarint32 (PutVarint32 d kCompactPointer) (of_int level)) key)
            d5 (compact_pointers e);
          d7 = foldl (\<lambda>d (level, file). PutVarint64 (PutVarint32 (PutVarint32 d kDeletedFile) (of_int level)) file)
            d6 (deleted_files e)
      in foldl (\<lambda>d (level, f).
             PutLengthPrefixedSlice
               (PutLengthPrefixedSlice
                  (PutVarint64 (PutVarint64 (PutVarint32 (PutVarint32 d kNewFile) (of_int level)) (fm_number f)) (fm_file_size f))
                  (fm_smallest f))
               (fm_largest f))
           d7 (new_files e))"

section \<open>Decoding\<close>

text \<open>\<^verbatim>\<open>InternalKey::DecodeFrom\<close> copies the bytes.\<close>

definition GetInternalKey :: "slice \<Rightarrow> byte list option \<times> slice" where
  "GetInternalKey input = GetLengthPrefixedSlice input"

definition GetLevel :: "slice \<Rightarrow> int option \<times> slice" where
  "GetLevel input =
     (case GetVarint32 input of
        (Some v, rest) \<Rightarrow> if unat v < kNumLevels then (Some (uint v), rest) else (None, rest)
      | (None, rest) \<Rightarrow> (None, rest))"

text \<open>One round of the loop: a message if the field is bad, the rest of the input and the edit.\<close>

definition decode_number ::
  "string \<Rightarrow> (u64 \<Rightarrow> version_edit \<Rightarrow> version_edit) \<Rightarrow> slice \<Rightarrow> version_edit \<Rightarrow> string option \<times> slice \<times> version_edit" where
  "decode_number msg store input e =
     (case GetVarint64 input of (Some v, rest) \<Rightarrow> (None, rest, store v e) | (None, rest) \<Rightarrow> (Some msg, rest, e))"

definition decode_field :: "u32 \<Rightarrow> slice \<Rightarrow> version_edit \<Rightarrow> string option \<times> slice \<times> version_edit" where
  "decode_field tag_num input e =
     (if tag_num = kComparator then
        (case GetLengthPrefixedSlice input of
           (Some str, rest) \<Rightarrow> (None, rest, e\<lparr>ve_comparator := str, has_comparator := True\<rparr>)
         | (None, rest) \<Rightarrow> (Some ''comparator name'', rest, e))
      else if tag_num = kLogNumber then
        decode_number ''log number'' (\<lambda>v e. e\<lparr>ve_log_number := v, has_log_number := True\<rparr>) input e
      else if tag_num = kPrevLogNumber then
        decode_number ''previous log number'' (\<lambda>v e. e\<lparr>ve_prev_log_number := v, has_prev_log_number := True\<rparr>) input e
      else if tag_num = kNextFileNumber then
        decode_number ''next file number'' (\<lambda>v e. e\<lparr>ve_next_file_number := v, has_next_file_number := True\<rparr>) input e
      else if tag_num = kLastSequence then
        decode_number ''last sequence number'' (\<lambda>v e. e\<lparr>ve_last_sequence := v, has_last_sequence := True\<rparr>) input e
      else if tag_num = kCompactPointer then
        (case GetLevel input of
           (None, r1) \<Rightarrow> (Some ''compaction pointer'', r1, e)
         | (Some level, r1) \<Rightarrow>
             (case GetInternalKey r1 of
                (None, r2) \<Rightarrow> (Some ''compaction pointer'', r2, e)
              | (Some key, r2) \<Rightarrow> (None, r2, e\<lparr>compact_pointers := compact_pointers e @ [(level, key)]\<rparr>)))
      else if tag_num = kDeletedFile then
        (case GetLevel input of
           (None, r1) \<Rightarrow> (Some ''deleted file'', r1, e)
         | (Some level, r1) \<Rightarrow>
             (case GetVarint64 r1 of
                (None, r2) \<Rightarrow> (Some ''deleted file'', r2, e)
              | (Some number, r2) \<Rightarrow> (None, r2, e\<lparr>deleted_files := insort_insert (level, number) (deleted_files e)\<rparr>)))
      else if tag_num = kNewFile then
        (case GetLevel input of
           (None, r1) \<Rightarrow> (Some ''new-file entry'', r1, e)
         | (Some level, r1) \<Rightarrow>
             (case GetVarint64 r1 of
                (None, r2) \<Rightarrow> (Some ''new-file entry'', r2, e)
              | (Some number, r2) \<Rightarrow>
                  (case GetVarint64 r2 of
                     (None, r3) \<Rightarrow> (Some ''new-file entry'', r3, e)
                   | (Some file_size, r3) \<Rightarrow>
                       (case GetInternalKey r3 of
                          (None, r4) \<Rightarrow> (Some ''new-file entry'', r4, e)
                        | (Some smallest, r4) \<Rightarrow>
                            (case GetInternalKey r4 of
                               (None, r5) \<Rightarrow> (Some ''new-file entry'', r5, e)
                             | (Some largest, r5) \<Rightarrow>
                                 (None, r5, e\<lparr>new_files := new_files e @ [(level,
                                    (FileMetaData number)\<lparr>fm_file_size := file_size, fm_smallest := smallest,
                                      fm_largest := largest\<rparr>)]\<rparr>))))))
      else (Some ''unknown tag'', input, e))"


text \<open>Every reader leaves a part of its input, so the loop ends.\<close>

lemma GetVarint32_shrinks: "GetVarint32 p = (Some v, q) \<Longrightarrow> length q < length p"
  using GetVarint32Ptr_suffix [of p] by (auto simp: GetVarint32_def split: option.splits)

lemma readers_shrink [dest]:
  "GetVarint64 p = (r, q) \<Longrightarrow> length q \<le> length p"
  "GetLengthPrefixedSlice p = (s, q) \<Longrightarrow> length q \<le> length p"
  "GetInternalKey p = (s, q) \<Longrightarrow> length q \<le> length p"
  "GetLevel p = (l, q) \<Longrightarrow> length q \<le> length p"
     apply (use varint64_loop_suffix [of 0 0 p] in
      \<open>auto simp: GetVarint64_def GetVarint64Ptr_def split: option.splits\<close>)
    apply (auto dest: GetLengthPrefixedSlice_suffix)
   apply (auto simp: GetInternalKey_def dest: GetLengthPrefixedSlice_suffix)
  apply (use GetVarint32Ptr_suffix [of p] in
      \<open>auto simp: GetLevel_def GetVarint32_def split: option.splits if_splits\<close>)
  done

lemma decode_number_shrinks: "decode_number msg store p e = (m, q, e') \<Longrightarrow> length q \<le> length p"
  by (auto simp: decode_number_def split: prod.splits option.splits)

lemma decode_field_shrinks: "decode_field t p e = (m, q, e') \<Longrightarrow> length q \<le> length p"
  unfolding decode_field_def
  by (auto split: prod.splits option.splits if_splits dest!: readers_shrink decode_number_shrinks)

function decode_loop :: "slice \<Rightarrow> version_edit \<Rightarrow> string option \<times> slice \<times> version_edit" where
  "decode_loop input e =
     (case GetVarint32 input of
        (None, rest) \<Rightarrow> (None, rest, e)
      | (Some tag_num, rest) \<Rightarrow>
          (case decode_field tag_num rest e of
             (None, rest1, e1) \<Rightarrow> decode_loop rest1 e1
           | (Some msg, rest1, e1) \<Rightarrow> (Some msg, rest1, e1)))"
  by pat_completeness auto
termination
  by (relation "measure (length \<circ> fst)")
    (auto dest!: GetVarint32_shrinks [OF sym] decode_field_shrinks [OF sym])

declare decode_loop.simps [simp del]

definition ve_DecodeFrom :: "slice \<Rightarrow> version_edit \<Rightarrow> status \<times> version_edit" where
  "ve_DecodeFrom src e =
     (case decode_loop src (ve_Clear e) of
        (msg, input, e1) \<Rightarrow>
          let msg1 = (if msg = None \<and> input \<noteq> [] then Some ''invalid tag'' else msg)
          in (case msg1 of
                None \<Rightarrow> (OK, e1)
              | Some m \<Rightarrow> (Corruption (cstr ''VersionEdit'') (cstr m), e1)))"


section \<open>An edit is a list of operations\<close>

text \<open>The operations by which the callers build an edit, and the field each of them becomes.\<close>

datatype edit_op =
    Op_comparator slice
  | Op_log_number u64
  | Op_prev_log_number u64
  | Op_next_file u64
  | Op_last_sequence SequenceNumber
  | Op_compact_pointer int "byte list"
  | Op_delete_file int u64
  | Op_add_file int u64 u64 "byte list" "byte list"

fun apply_op :: "edit_op \<Rightarrow> version_edit \<Rightarrow> version_edit" where
  "apply_op (Op_comparator name) e = SetComparatorName name e"
| "apply_op (Op_log_number n) e = SetLogNumber n e"
| "apply_op (Op_prev_log_number n) e = SetPrevLogNumber n e"
| "apply_op (Op_next_file n) e = SetNextFile n e"
| "apply_op (Op_last_sequence n) e = SetLastSequence n e"
| "apply_op (Op_compact_pointer level key) e = SetCompactPointer level key e"
| "apply_op (Op_delete_file level n) e = DeleteFile level n e"
| "apply_op (Op_add_file level n sz smallest largest) e = AddFile level n sz smallest largest e"

lemmas setter_defs = SetComparatorName_def SetLogNumber_def SetPrevLogNumber_def SetNextFile_def SetLastSequence_def
  SetCompactPointer_def DeleteFile_def AddFile_def

definition valid_level :: "int \<Rightarrow> bool" where
  "valid_level level = (0 \<le> level \<and> level < int kNumLevels)"

fun op_ok :: "edit_op \<Rightarrow> bool" where
  "op_ok (Op_comparator name) = (length name < 2 ^ 32)"
| "op_ok (Op_compact_pointer level key) = (valid_level level \<and> length key < 2 ^ 32)"
| "op_ok (Op_delete_file level n) = valid_level level"
| "op_ok (Op_add_file level n sz smallest largest) =
     (valid_level level \<and> length smallest < 2 ^ 32 \<and> length largest < 2 ^ 32)"
| "op_ok _ = True"

fun enc_op :: "edit_op \<Rightarrow> byte list" where
  "enc_op (Op_comparator name) = EncodeVarint32 kComparator @ PutLengthPrefixedSlice [] name"
| "enc_op (Op_log_number n) = EncodeVarint32 kLogNumber @ EncodeVarint64 n"
| "enc_op (Op_prev_log_number n) = EncodeVarint32 kPrevLogNumber @ EncodeVarint64 n"
| "enc_op (Op_next_file n) = EncodeVarint32 kNextFileNumber @ EncodeVarint64 n"
| "enc_op (Op_last_sequence n) = EncodeVarint32 kLastSequence @ EncodeVarint64 n"
| "enc_op (Op_compact_pointer level key) =
     EncodeVarint32 kCompactPointer @ EncodeVarint32 (of_int level) @ PutLengthPrefixedSlice [] key"
| "enc_op (Op_delete_file level n) =
     EncodeVarint32 kDeletedFile @ EncodeVarint32 (of_int level) @ EncodeVarint64 n"
| "enc_op (Op_add_file level n sz smallest largest) =
     EncodeVarint32 kNewFile @ EncodeVarint32 (of_int level) @ EncodeVarint64 n @ EncodeVarint64 sz @
     PutLengthPrefixedSlice [] smallest @ PutLengthPrefixedSlice [] largest"

definition ops_of :: "version_edit \<Rightarrow> edit_op list" where
  "ops_of e =
     (if has_comparator e then [Op_comparator (ve_comparator e)] else []) @
     (if has_log_number e then [Op_log_number (ve_log_number e)] else []) @
     (if has_prev_log_number e then [Op_prev_log_number (ve_prev_log_number e)] else []) @
     (if has_next_file_number e then [Op_next_file (ve_next_file_number e)] else []) @
     (if has_last_sequence e then [Op_last_sequence (ve_last_sequence e)] else []) @
     map (\<lambda>(level, key). Op_compact_pointer level key) (compact_pointers e) @
     map (\<lambda>(level, n). Op_delete_file level n) (deleted_files e) @
     map (\<lambda>(level, f). Op_add_file level (fm_number f) (fm_file_size f) (fm_smallest f) (fm_largest f)) (new_files e)"

lemma GetLevel_Encode:
  assumes "valid_level level"
  shows "GetLevel (EncodeVarint32 (of_int level) @ rest) = (Some level, rest)"
proof -
  have "level mod 4294967296 = level" using assms by (simp add: valid_level_def kNumLevels_def)
  then have "uint (of_int level :: u32) = level" by (simp add: unsigned_of_int take_bit_eq_mod)
  then show ?thesis
    using assms
    by (simp add: GetLevel_def GetVarint32_def GetVarint32_Encode valid_level_def unat_eq_nat_uint nat_less_iff)
qed

lemma Get_Encode [simp]:
  "GetVarint32 (EncodeVarint32 v @ rest) = (Some v, rest)"
  "GetVarint64 (EncodeVarint64 w @ rest) = (Some w, rest)"
  "length x < 2 ^ 32 \<Longrightarrow> GetInternalKey (PutLengthPrefixedSlice [] x @ rest) = (Some x, rest)"
  by (simp_all add: GetVarint32_def GetVarint64_def GetVarint32_Encode GetVarint64_Encode GetInternalKey_def
      GetLengthPrefixedSlice_Put)

lemma update_order:
  "e\<lparr>ve_comparator := x, has_comparator := b\<rparr> = e\<lparr>has_comparator := b, ve_comparator := x\<rparr>"
  "e\<lparr>ve_log_number := n, has_log_number := b\<rparr> = e\<lparr>has_log_number := b, ve_log_number := n\<rparr>"
  "e\<lparr>ve_prev_log_number := n, has_prev_log_number := b\<rparr> = e\<lparr>has_prev_log_number := b, ve_prev_log_number := n\<rparr>"
  "e\<lparr>ve_next_file_number := n, has_next_file_number := b\<rparr> = e\<lparr>has_next_file_number := b, ve_next_file_number := n\<rparr>"
  "e\<lparr>ve_last_sequence := n, has_last_sequence := b\<rparr> = e\<lparr>has_last_sequence := b, ve_last_sequence := n\<rparr>"
  by simp_all

lemma decode_op:
  "op_ok op \<Longrightarrow> decode_loop (enc_op op @ rest) e = decode_loop rest (apply_op op e)"
  by (cases op) (subst decode_loop.simps, simp add: decode_field_def decode_number_def tag_defs setter_defs
    GetLevel_Encode GetLengthPrefixedSlice_Put update_order)+

lemma decode_ops:
  "list_all op_ok ops \<Longrightarrow> decode_loop (concat (map enc_op ops)) e = (None, [], fold apply_op ops e)"
proof (induction ops arbitrary: e)
  case Nil
  then show ?case by (simp add: decode_loop.simps GetVarint32_def GetVarint32Ptr_def GetVarint32PtrFallback_def)
qed (simp add: decode_op)

lemma foldl_append_map: "(\<And>d x. f d x = d @ g x) \<Longrightarrow> foldl f d xs = d @ concat (map g xs)"
  by (induction xs arbitrary: d) auto

lemma ve_EncodeTo_ops: "ve_EncodeTo e dst = dst @ concat (map enc_op (ops_of e))"
proof -
  have enc_fields:
    "foldl (\<lambda>d (level, key). PutLengthPrefixedSlice (PutVarint32 (PutVarint32 d kCompactPointer) (of_int level)) key) d
       cs = d @ concat (map (enc_op \<circ> (\<lambda>(level, key). Op_compact_pointer level key)) cs)"
    "foldl (\<lambda>d (level, file). PutVarint64 (PutVarint32 (PutVarint32 d kDeletedFile) (of_int level)) file) d
       ds = d @ concat (map (enc_op \<circ> (\<lambda>(level, n). Op_delete_file level n)) ds)"
    "foldl (\<lambda>d (level, f). PutLengthPrefixedSlice (PutLengthPrefixedSlice (PutVarint64 (PutVarint64
         (PutVarint32 (PutVarint32 d kNewFile) (of_int level)) (fm_number f)) (fm_file_size f)) (fm_smallest f)) (fm_largest f)) d
       fs = d @ concat (map (enc_op \<circ>
         (\<lambda>(level, f). Op_add_file level (fm_number f) (fm_file_size f) (fm_smallest f) (fm_largest f))) fs)" for d cs ds fs
    by (rule foldl_append_map; auto simp: PutVarint32_def PutVarint64_def PutLengthPrefixedSlice_def)+
  show ?thesis
    by (simp add: ve_EncodeTo_def Let_def enc_fields ops_of_def comp_def)
      (simp add: PutVarint32_def PutVarint64_def PutLengthPrefixedSlice_def)
qed

section \<open>Decoding gives the edit back\<close>

text \<open>What an edit built by the operations satisfies.\<close>

definition edit_ok :: "version_edit \<Rightarrow> bool" where
  "edit_ok e \<longleftrightarrow>
     list_all op_ok (ops_of e) \<and> sorted (deleted_files e) \<and> distinct (deleted_files e) \<and>
     list_all (\<lambda>(level, f). fm_refs f = 0 \<and> fm_allowed_seeks f = 2 ^ 30) (new_files e) \<and>
     (has_comparator e \<or> ve_comparator e = []) \<and> (has_log_number e \<or> ve_log_number e = 0) \<and>
     (has_prev_log_number e \<or> ve_prev_log_number e = 0) \<and> (has_next_file_number e \<or> ve_next_file_number e = 0) \<and>
     (has_last_sequence e \<or> ve_last_sequence e = 0)"

lemma edit_ok_new: "edit_ok VersionEdit"
  by (simp add: edit_ok_def VersionEdit_def ops_of_def)

lemma ops_of_ok:
  "list_all op_ok (ops_of e) \<longleftrightarrow>
     (has_comparator e \<longrightarrow> length (ve_comparator e) < 2 ^ 32) \<and>
     (\<forall>(level, key) \<in> set (compact_pointers e). valid_level level \<and> length key < 2 ^ 32) \<and>
     (\<forall>(level, n) \<in> set (deleted_files e). valid_level level) \<and>
     (\<forall>(level, f) \<in> set (new_files e). valid_level level \<and> length (fm_smallest f) < 2 ^ 32 \<and> length (fm_largest f) < 2 ^ 32)"
  by (simp add: ops_of_def list_all_iff ball_Un split_def)

lemma edit_ok_apply: "op_ok op \<Longrightarrow> edit_ok e \<Longrightarrow> edit_ok (apply_op op e)"
  by (cases op) (simp_all add: edit_ok_def ops_of_ok setter_defs FileMetaData_def
      set_insort_insert sorted_insort_insert distinct_insort_insert)

lemma edit_ok_fold: "list_all op_ok ops \<Longrightarrow> edit_ok e \<Longrightarrow> edit_ok (fold apply_op ops e)"
  by (induction ops arbitrary: e) (simp_all add: edit_ok_apply)

lemma insort_insert_last:
  "sorted (xs @ [x]) \<Longrightarrow> x \<notin> set xs \<Longrightarrow> insort_insert x xs = xs @ [x :: 'a :: linorder]"
  by (simp add: insort_insert_key_def insort_is_Cons sorted_append) (induction xs; auto)

lemma fold_delete:
  "sorted (ds @ deleted) \<Longrightarrow> distinct (ds @ deleted) \<Longrightarrow> deleted_files e = ds \<Longrightarrow>
   fold apply_op (map (\<lambda>(level, n). Op_delete_file level n) deleted) e = e\<lparr>deleted_files := ds @ deleted\<rparr>"
proof (induction deleted arbitrary: ds e)
  case (Cons d deleted)
  obtain level n where d: "d = (level, n)" by (cases d)
  have "insort_insert (level, n) ds = ds @ [(level, n)]"
    using Cons.prems d by (intro insort_insert_last) (auto simp: sorted_append)
  with Cons.IH [of "ds @ [d]" "apply_op (Op_delete_file level n) e"] Cons.prems d show ?case
    by (simp add: setter_defs)
qed simp

lemma fold_compact:
  "fold apply_op (map (\<lambda>(level, key). Op_compact_pointer level key) cs) e =
     e\<lparr>compact_pointers := compact_pointers e @ cs\<rparr>"
  by (induction cs arbitrary: e) (auto simp: setter_defs)

lemma fold_add:
  "list_all (\<lambda>(level, f). fm_refs f = 0 \<and> fm_allowed_seeks f = 2 ^ 30) fs \<Longrightarrow>
   fold apply_op (map (\<lambda>(level, f). Op_add_file level (fm_number f) (fm_file_size f) (fm_smallest f) (fm_largest f)) fs) e =
     e\<lparr>new_files := new_files e @ fs\<rparr>"
proof (induction fs arbitrary: e)
  case (Cons lf fs)
  obtain level f where lf: "lf = (level, f)" by (cases lf)
  have "(FileMetaData (fm_number f))\<lparr>fm_file_size := fm_file_size f, fm_smallest := fm_smallest f, fm_largest := fm_largest f\<rparr> = f"
    using Cons.prems lf by (cases f) (simp add: FileMetaData_def)
  with Cons lf show ?case by (simp add: setter_defs)
qed simp

lemma fold_optional:
  "b \<or> name = [] \<Longrightarrow> \<not> has_comparator e \<Longrightarrow> ve_comparator e = [] \<Longrightarrow>
     fold apply_op (if b then [Op_comparator name] else []) e = e\<lparr>has_comparator := b, ve_comparator := name\<rparr>"
  "b \<or> v = 0 \<Longrightarrow> \<not> has_log_number e \<Longrightarrow> ve_log_number e = 0 \<Longrightarrow>
     fold apply_op (if b then [Op_log_number v] else []) e = e\<lparr>has_log_number := b, ve_log_number := v\<rparr>"
  "b \<or> v = 0 \<Longrightarrow> \<not> has_prev_log_number e \<Longrightarrow> ve_prev_log_number e = 0 \<Longrightarrow>
     fold apply_op (if b then [Op_prev_log_number v] else []) e = e\<lparr>has_prev_log_number := b, ve_prev_log_number := v\<rparr>"
  "b \<or> v = 0 \<Longrightarrow> \<not> has_next_file_number e \<Longrightarrow> ve_next_file_number e = 0 \<Longrightarrow>
     fold apply_op (if b then [Op_next_file v] else []) e = e\<lparr>has_next_file_number := b, ve_next_file_number := v\<rparr>"
  "b \<or> v = 0 \<Longrightarrow> \<not> has_last_sequence e \<Longrightarrow> ve_last_sequence e = 0 \<Longrightarrow>
     fold apply_op (if b then [Op_last_sequence v] else []) e = e\<lparr>has_last_sequence := b, ve_last_sequence := v\<rparr>"
  by (auto simp: setter_defs)

lemma fold_ops_of:
  assumes "edit_ok e"
  shows "fold apply_op (ops_of e) (ve_Clear e0) = e\<lparr>compact_pointers := compact_pointers e0 @ compact_pointers e\<rparr>"
  using assms unfolding edit_ok_def ops_of_def fold_append o_apply
  by (simp add: fold_optional fold_compact fold_add fold_delete [of "[]"] ve_Clear_def)

text \<open>
  C33: An edit of the set of table files survives the manifest: what the setters built from
  an empty edit, with levels of the database and strings below 4 GiB, is encoded so that
  decoding succeeds and gives back every field, the deleted files and the new files in order.
  The object decoded into is cleared first, all but its compaction pointers, to which those
  of the edit are appended.
\<close>

theorem version_edit_roundtrip:
  assumes "list_all op_ok ops" "e = fold apply_op ops VersionEdit"
  shows "ve_DecodeFrom (ve_EncodeTo e []) e0 =
    (OK, e\<lparr>compact_pointers := compact_pointers e0 @ compact_pointers e\<rparr>)"
proof -
  have "edit_ok e" using assms edit_ok_fold edit_ok_new by simp
  then show ?thesis
    using decode_ops [of "ops_of e"]
    by (simp add: ve_DecodeFrom_def ve_EncodeTo_ops fold_ops_of edit_ok_def)
qed

theorem version_edit_roundtrip_witness:
  "ve_DecodeFrom
     (ve_EncodeTo (AddFile 0 5 300 [97, 1] [98, 1] (DeleteFile 1 3 (SetCompactPointer 1 [97] (SetLogNumber 4 VersionEdit)))) [])
     (SetCompactPointer 2 [99] VersionEdit) =
   (OK, AddFile 0 5 300 [97, 1] [98, 1] (DeleteFile 1 3
     (SetCompactPointer 1 [97] (SetCompactPointer 2 [99] (SetLogNumber 4 VersionEdit)))))"
  using version_edit_roundtrip [of "[Op_log_number 4, Op_compact_pointer 1 [97], Op_delete_file 1 3, Op_add_file 0 5 300 [97, 1] [98, 1]]"
      "AddFile 0 5 300 [97, 1] [98, 1] (DeleteFile 1 3 (SetCompactPointer 1 [97] (SetLogNumber 4 VersionEdit)))"
      "SetCompactPointer 2 [99] VersionEdit"]
  by (simp add: valid_level_def kNumLevels_def setter_defs VersionEdit_def)

end
