(* ===== verification/Ldb_Version.thy ===== *)
theory Ldb_Version
  imports Ldb_Version_Edit
begin

text \<open>
  The files of a version, \<^verbatim>\<open>leveldb-library/db/version_set.cc\<close>: searching a level, overlap of files with a range of user keys, the
  files that a compaction of a range needs, and the level to which a memory table is written.
\<close>

section \<open>Files\<close>

abbreviation smallest_user_key :: "file_meta \<Rightarrow> slice" where
  "smallest_user_key f \<equiv> ExtractUserKey (fm_smallest f)"

abbreviation largest_user_key :: "file_meta \<Rightarrow> slice" where
  "largest_user_key f \<equiv> ExtractUserKey (fm_largest f)"

text \<open>A range of user keys; \<open>None\<close> is the null pointer, a range without that bound.\<close>

type_synonym user_bound = "slice option"

subsection \<open>FindFile\<close>

function find_file_loop :: "comparator \<Rightarrow> file_meta list \<Rightarrow> slice \<Rightarrow> nat \<Rightarrow> nat \<Rightarrow> nat" where
  "find_file_loop user files key left right =
     (if left < right then
        let mid = (left + right) div 2
        in if internal_Compare user (fm_largest (files ! mid)) key < 0 then find_file_loop user files key (mid + 1) right
           else find_file_loop user files key left mid
      else right)"
  by pat_completeness auto
termination
  by (relation "measure (\<lambda>(_, _, _, left, right). right - left)") auto

declare find_file_loop.simps [simp del]

definition FindFile :: "comparator \<Rightarrow> file_meta list \<Rightarrow> slice \<Rightarrow> nat" where
  "FindFile user files key = find_file_loop user files key 0 (length files)"

subsection \<open>Overlap\<close>

definition AfterFile :: "comparator \<Rightarrow> user_bound \<Rightarrow> file_meta \<Rightarrow> bool" where
  "AfterFile ucmp user_key f = (case user_key of None \<Rightarrow> False | Some k \<Rightarrow> Compare ucmp k (largest_user_key f) > 0)"

definition BeforeFile :: "comparator \<Rightarrow> user_bound \<Rightarrow> file_meta \<Rightarrow> bool" where
  "BeforeFile ucmp user_key f = (case user_key of None \<Rightarrow> False | Some k \<Rightarrow> Compare ucmp k (smallest_user_key f) < 0)"

primrec overlap_loop :: "comparator \<Rightarrow> file_meta list \<Rightarrow> user_bound \<Rightarrow> user_bound \<Rightarrow> bool" where
  "overlap_loop ucmp [] small large = False"
| "overlap_loop ucmp (f # fs) small large =
     (if AfterFile ucmp small f \<or> BeforeFile ucmp large f then overlap_loop ucmp fs small large else True)"

definition SomeFileOverlapsRange :: "comparator \<Rightarrow> bool \<Rightarrow> file_meta list \<Rightarrow> user_bound \<Rightarrow> user_bound \<Rightarrow> bool" where
  "SomeFileOverlapsRange ucmp disjoint_sorted_files files small large =
     (if \<not> disjoint_sorted_files then overlap_loop ucmp files small large
      else
        let index = (case small of
                       None \<Rightarrow> 0
                     | Some k \<Rightarrow> FindFile ucmp files (InternalKey k kMaxSequenceNumber kValueTypeForSeek))
        in if index \<ge> length files then False else \<not> BeforeFile ucmp large (files ! index))"

subsection \<open>GetOverlappingInputs\<close>

definition starts_before :: "comparator \<Rightarrow> user_bound \<Rightarrow> file_meta \<Rightarrow> bool" where
  "starts_before ucmp user_begin f = (case user_begin of None \<Rightarrow> False | Some b \<Rightarrow> Compare ucmp (smallest_user_key f) b < 0)"

definition ends_after :: "comparator \<Rightarrow> user_bound \<Rightarrow> file_meta \<Rightarrow> bool" where
  "ends_after ucmp user_end f = (case user_end of None \<Rightarrow> False | Some e \<Rightarrow> Compare ucmp (largest_user_key f) e > 0)"

definition skipped :: "comparator \<Rightarrow> user_bound \<Rightarrow> user_bound \<Rightarrow> file_meta \<Rightarrow> bool" where
  "skipped ucmp user_begin user_end f \<longleftrightarrow>
     (case user_begin of None \<Rightarrow> False | Some b \<Rightarrow> Compare ucmp (largest_user_key f) b < 0) \<or>
     (case user_end of None \<Rightarrow> False | Some e \<Rightarrow> Compare ucmp (smallest_user_key f) e > 0)"

text \<open>The loop over the files of a level starts again when a file of level 0 makes the range larger.\<close>

partial_function (option) overlapping_loop ::
  "comparator \<Rightarrow> bool \<Rightarrow> file_meta list \<Rightarrow> user_bound \<Rightarrow> user_bound \<Rightarrow> nat \<Rightarrow> file_meta list \<Rightarrow> file_meta list option" where
  "overlapping_loop ucmp level0 files user_begin user_end i inputs =
     (if i < length files then
        let f = files ! i
        in if skipped ucmp user_begin user_end f then overlapping_loop ucmp level0 files user_begin user_end (i + 1) inputs
           else if level0 \<and> starts_before ucmp user_begin f then
             overlapping_loop ucmp level0 files (Some (smallest_user_key f)) user_end 0 []
           else if level0 \<and> ends_after ucmp user_end f then
             overlapping_loop ucmp level0 files user_begin (Some (largest_user_key f)) 0 []
           else overlapping_loop ucmp level0 files user_begin user_end (i + 1) (inputs @ [f])
      else Some inputs)"

definition GetOverlappingInputs ::
  "comparator \<Rightarrow> file_meta list list \<Rightarrow> nat \<Rightarrow> byte list option \<Rightarrow> byte list option \<Rightarrow> file_meta list option" where
  "GetOverlappingInputs ucmp files level b e =
     overlapping_loop ucmp (level = 0) (files ! level) (map_option ExtractUserKey b) (map_option ExtractUserKey e) 0 []"

subsection \<open>PickLevelForMemTableOutput\<close>

definition TotalFileSize :: "file_meta list \<Rightarrow> u64" where
  "TotalFileSize files = foldl (\<lambda>sum f. sum + fm_file_size f) 0 files"

text \<open>\<^verbatim>\<open>int64_t\<close> values are words that are compared as signed numbers.\<close>

definition MaxGrandParentOverlapBytes :: "u64 \<Rightarrow> u64" where
  "MaxGrandParentOverlapBytes max_file_size = 10 * max_file_size"

definition ExpandedCompactionByteSizeLimit :: "u64 \<Rightarrow> u64" where
  "ExpandedCompactionByteSizeLimit max_file_size = 25 * max_file_size"

definition OverlapInLevel :: "comparator \<Rightarrow> file_meta list list \<Rightarrow> nat \<Rightarrow> user_bound \<Rightarrow> user_bound \<Rightarrow> bool" where
  "OverlapInLevel ucmp files level small large = SomeFileOverlapsRange ucmp (level > 0) (files ! level) small large"

definition kMaxMemCompactLevel :: nat where
  "kMaxMemCompactLevel = 2"

function pick_level_loop :: "comparator \<Rightarrow> u64 \<Rightarrow> file_meta list list \<Rightarrow> slice \<Rightarrow> slice \<Rightarrow> nat \<Rightarrow> nat option" where
  "pick_level_loop ucmp max_file_size files small large level =
     (if level < kMaxMemCompactLevel then
        if OverlapInLevel ucmp files (level + 1) (Some small) (Some large) then Some level
        else if level + 2 < kNumLevels then
          Option.bind (GetOverlappingInputs ucmp files (level + 2) (Some (InternalKey small kMaxSequenceNumber kValueTypeForSeek))
              (Some (InternalKey large 0 kTypeDeletion))) (\<lambda>overlaps.
            if sint (TotalFileSize overlaps) > sint (MaxGrandParentOverlapBytes max_file_size) then Some level
            else pick_level_loop ucmp max_file_size files small large (level + 1))
        else pick_level_loop ucmp max_file_size files small large (level + 1)
      else Some level)"
  by pat_completeness auto
termination
  by (relation "measure (\<lambda>(_, _, _, _, _, level). kMaxMemCompactLevel - level)") auto

declare pick_level_loop.simps [simp del]

definition PickLevelForMemTableOutput :: "comparator \<Rightarrow> u64 \<Rightarrow> file_meta list list \<Rightarrow> slice \<Rightarrow> slice \<Rightarrow> nat option" where
  "PickLevelForMemTableOutput ucmp max_file_size files small large =
     (if \<not> OverlapInLevel ucmp files 0 (Some small) (Some large) then pick_level_loop ucmp max_file_size files small large 0
      else Some 0)"

section \<open>Levels\<close>

text \<open>Keys that the database writes, files with such keys, and the order of the files in a level above 0.\<close>

definition ikey_ok :: "byte list \<Rightarrow> bool" where
  "ikey_ok k \<longleftrightarrow> 8 \<le> length k \<and> key_tag k \<le> PackSequenceAndType kMaxSequenceNumber kValueTypeForSeek"

definition file_fits :: "comparator \<Rightarrow> file_meta \<Rightarrow> bool" where
  "file_fits user f \<longleftrightarrow> ikey_ok (fm_smallest f) \<and> ikey_ok (fm_largest f) \<and> internal_Compare user (fm_smallest f) (fm_largest f) \<le> 0"

definition level_sorted :: "comparator \<Rightarrow> file_meta list \<Rightarrow> bool" where
  "level_sorted user files \<longleftrightarrow> (\<forall>f\<in>set files. file_fits user f) \<and>
     sorted_wrt (\<lambda>f g. internal_Compare user (fm_largest f) (fm_smallest g) < 0) files"

text \<open>A file has user keys in a range, and all its user keys are in the range.\<close>

definition overlaps :: "comparator \<Rightarrow> user_bound \<Rightarrow> user_bound \<Rightarrow> file_meta \<Rightarrow> bool" where
  "overlaps user b e f \<longleftrightarrow> (\<forall>k. b = Some k \<longrightarrow> Compare user k (largest_user_key f) \<le> 0) \<and>
     (\<forall>k. e = Some k \<longrightarrow> Compare user (smallest_user_key f) k \<le> 0)"

definition within :: "comparator \<Rightarrow> user_bound \<Rightarrow> user_bound \<Rightarrow> file_meta \<Rightarrow> bool" where
  "within user b e f \<longleftrightarrow> (\<forall>k. b = Some k \<longrightarrow> Compare user k (smallest_user_key f) \<le> 0) \<and>
     (\<forall>k. e = Some k \<longrightarrow> Compare user (largest_user_key f) k \<le> 0)"

text \<open>One range covers another; a range cuts no file.\<close>

definition covers :: "comparator \<Rightarrow> user_bound \<Rightarrow> user_bound \<Rightarrow> user_bound \<Rightarrow> user_bound \<Rightarrow> bool" where
  "covers user x y b e \<longleftrightarrow> (\<forall>k. x = Some k \<longrightarrow> (\<exists>k'. b = Some k' \<and> Compare user k k' \<le> 0)) \<and>
     (\<forall>k. y = Some k \<longrightarrow> (\<exists>k'. e = Some k' \<and> Compare user k' k \<le> 0))"

definition closed_range :: "comparator \<Rightarrow> file_meta list \<Rightarrow> user_bound \<Rightarrow> user_bound \<Rightarrow> bool" where
  "closed_range user files b e \<longleftrightarrow> (\<forall>f\<in>set files. overlaps user b e f \<longrightarrow> within user b e f)"

definition least_closed :: "comparator \<Rightarrow> file_meta list \<Rightarrow> user_bound \<Rightarrow> user_bound \<Rightarrow> user_bound \<Rightarrow> user_bound \<Rightarrow> bool" where
  "least_closed user files b e b' e' \<longleftrightarrow> covers user b' e' b e \<and> closed_range user files b' e' \<and>
     (\<forall>x y. closed_range user files x y \<and> covers user x y b e \<longrightarrow> covers user x y b' e')"

subsection \<open>Binary search\<close>

lemma find_file_loop_spec:
  fixes P :: "nat \<Rightarrow> bool"
  assumes mono: "\<And>i j. i < j \<Longrightarrow> j < length files \<Longrightarrow> P j \<Longrightarrow> P i" and P: "\<And>i. P i \<longleftrightarrow> internal_Compare user (fm_largest (files ! i)) key < 0"
    and "left \<le> right" "right \<le> length files" "\<forall>i<left. P i" "\<forall>i. right \<le> i \<and> i < length files \<longrightarrow> \<not> P i"
  shows "find_file_loop user files key left right \<le> length files \<and> (\<forall>i<find_file_loop user files key left right. P i) \<and>
    (\<forall>i. find_file_loop user files key left right \<le> i \<and> i < length files \<longrightarrow> \<not> P i)"
  using assms(3-6)
proof (induction "right - left" arbitrary: left right rule: less_induct)
  case less
  show ?case
  proof (cases "left < right")
    case True
    define mid where "mid = (left + right) div 2"
    have mid: "left \<le> mid" "mid < right" "mid < length files" using True less.prems(2) by (auto simp: mid_def)
    show ?thesis
    proof (cases "P mid")
      case True
      have low: "\<forall>i<mid + 1. P i" using True mono [OF _ mid(3)] by (auto simp: less_Suc_eq)
      have eq: "find_file_loop user files key left right = find_file_loop user files key (mid + 1) right"
        using True \<open>left < right\<close> P by (subst find_file_loop.simps) (simp add: mid_def Let_def)
      show ?thesis unfolding eq by (rule less.hyps [OF _ _ less.prems(2) low less.prems(4)]) (use mid in simp_all)
    next
      case False
      have high: "\<forall>i. mid \<le> i \<and> i < length files \<longrightarrow> \<not> P i"
      proof (intro allI impI notI)
        fix i assume "mid \<le> i \<and> i < length files" "P i"
        then show False using False mono [of mid i] by (cases "mid = i") auto
      qed
      have eq: "find_file_loop user files key left right = find_file_loop user files key left mid"
        using False \<open>left < right\<close> P by (subst find_file_loop.simps) (simp add: mid_def Let_def)
      show ?thesis unfolding eq by (rule less.hyps [OF _ mid(1) _ less.prems(3) high]) (use mid in simp_all)
    qed
  next
    case False
    then show ?thesis using less.prems by (subst (1 2 3) find_file_loop.simps) auto
  qed
qed

lemma filter_shrinks:
  assumes "x \<in> set xs" "Q x" "\<not> P x" "\<And>y. P y \<Longrightarrow> Q y"
  shows "length (filter P xs) < length (filter Q xs)"
proof -
  have "filter P xs = filter P (filter Q xs)" using assms(4) by (auto intro: filter_cong)
  moreover have "x \<in> set (filter Q xs)" using assms(1,2) by simp
  ultimately show ?thesis using assms(3) by (metis List.length_filter_less)
qed

context user_comparator
begin

lemma internal_swap: "internal_Compare user a b < 0 \<longleftrightarrow> 0 < internal_Compare user b a"
  using cmp_swap [of "ExtractUserKey a" "ExtractUserKey b"] cmp_eq_sym [of "ExtractUserKey a" "ExtractUserKey b"]
  by (simp add: internal_less internal_greater)

lemma internal_less_le: "internal_Compare user a b < 0 \<Longrightarrow> internal_Compare user b c \<le> 0 \<Longrightarrow> internal_Compare user a c < 0"
  using internal_trans [of b c a] internal_trans [of a b c] internal_swap [of a b] internal_swap [of c a] internal_swap [of a c] by force

lemma internal_le_less: "internal_Compare user a b \<le> 0 \<Longrightarrow> internal_Compare user b c < 0 \<Longrightarrow> internal_Compare user a c < 0"
  using internal_trans [of a b c] internal_trans [of c a b] internal_swap [of a c] internal_swap [of b c] internal_swap [of c a] by force

lemma user_le: "internal_Compare user a b \<le> 0 \<Longrightarrow> Compare user (ExtractUserKey a) (ExtractUserKey b) \<le> 0"
  by (auto simp: internal_le)

lemma find_file:
  assumes "sorted_wrt (\<lambda>f g. internal_Compare user (fm_largest f) (fm_largest g) < 0) files"
  shows "FindFile user files key = length (takeWhile (\<lambda>f. internal_Compare user (fm_largest f) key < 0) files)"
proof -
  let ?P = "\<lambda>i. internal_Compare user (fm_largest (files ! i)) key < 0"
  have mono: "?P i" if "i < j" "j < length files" "?P j" for i j
    using sorted_wrt_nth_less [OF assms that(1,2)] that(3) internal_less_le [of _ _ key] by (simp add: less_imp_le)
  have "FindFile user files key \<le> length files \<and> (\<forall>i<FindFile user files key. ?P i) \<and> (\<forall>i. FindFile user files key \<le> i \<and> i < length files \<longrightarrow> \<not> ?P i)"
    unfolding FindFile_def by (rule find_file_loop_spec) (use mono in auto)
  then have "takeWhile (\<lambda>f. internal_Compare user (fm_largest f) key < 0) files = take (FindFile user files key) files" "FindFile user files key \<le> length files"
    by (auto intro!: takeWhile_eq_take_P_nth)
  then show ?thesis by simp
qed

lemma level_sorted_largest:
  assumes "level_sorted user files"
  shows "sorted_wrt (\<lambda>f g. internal_Compare user (fm_largest f) (fm_largest g) < 0) files"
proof (rule sorted_wrt_mono_rel)
  show "sorted_wrt (\<lambda>f g. internal_Compare user (fm_largest f) (fm_smallest g) < 0) files" using assms by (simp add: level_sorted_def)
  fix f g assume "g \<in> set files" "internal_Compare user (fm_largest f) (fm_smallest g) < 0"
  then show "internal_Compare user (fm_largest f) (fm_largest g) < 0"
    using assms internal_less_le by (auto simp: level_sorted_def file_fits_def)
qed

lemma level_sorted_smallest:
  assumes "level_sorted user files" "i \<le> j" "j < length files"
  shows "Compare user (smallest_user_key (files ! i)) (smallest_user_key (files ! j)) \<le> 0"
proof (cases "i = j")
  case False
  then have "internal_Compare user (fm_largest (files ! i)) (fm_smallest (files ! j)) < 0" "internal_Compare user (fm_smallest (files ! i)) (fm_largest (files ! i)) \<le> 0"
    using assms sorted_wrt_nth_less [of _ files i j] by (auto simp: level_sorted_def file_fits_def)
  then show ?thesis using internal_le_less user_le less_imp_le by blast
qed (simp add: cmp_self)

subsection \<open>Overlap\<close>

lemma overlaps_iff: "overlaps user b e f \<longleftrightarrow> \<not> AfterFile user b f \<and> \<not> BeforeFile user e f"
proof -
  have "Compare user k (smallest_user_key f) < 0 \<longleftrightarrow> \<not> Compare user (smallest_user_key f) k \<le> 0" for k using cmp_swap [of k "smallest_user_key f"] by auto
  then show ?thesis by (cases b; cases e) (simp_all add: overlaps_def AfterFile_def BeforeFile_def not_less)
qed

lemma skipped_iff: "skipped user b e f \<longleftrightarrow> \<not> overlaps user b e f"
proof -
  have "Compare user (largest_user_key f) k < 0 \<longleftrightarrow> \<not> Compare user k (largest_user_key f) \<le> 0" for k using cmp_swap [of "largest_user_key f" k] by auto
  then show ?thesis by (cases b; cases e) (simp_all add: overlaps_def skipped_def not_le)
qed

lemma overlap_loop_iff: "overlap_loop user files b e \<longleftrightarrow> (\<exists>f\<in>set files. overlaps user b e f)"
  by (induction files) (auto simp: overlaps_iff)

lemma before_earliest:
  assumes "file_fits user f"
  shows "internal_Compare user (fm_largest f) (InternalKey k kMaxSequenceNumber kValueTypeForSeek) < 0 \<longleftrightarrow> AfterFile user (Some k) f"
  using assms cmp_swap [of "largest_user_key f" k] by (auto simp: internal_less AfterFile_def file_fits_def ikey_ok_def)

lemma first_overlap:
  assumes "level_sorted user files"
  shows "SomeFileOverlapsRange user True files b e \<longleftrightarrow> (\<exists>f\<in>set files. overlaps user b e f)"
proof -
  define n where "n = (case b of None \<Rightarrow> 0 | Some k \<Rightarrow> FindFile user files (InternalKey k kMaxSequenceNumber kValueTypeForSeek))"
  have fits: "file_fits user (files ! i)" if "i < length files" for i using assms that by (simp add: level_sorted_def)
  have n: "n = length (takeWhile (AfterFile user b) files)"
  proof (cases b)
    case None
    then have "AfterFile user b = (\<lambda>_. False)" by (auto simp: AfterFile_def)
    then show ?thesis using None by (cases files) (simp_all add: n_def)
  next
    case (Some k)
    have "takeWhile (\<lambda>f. internal_Compare user (fm_largest f) (InternalKey k kMaxSequenceNumber kValueTypeForSeek) < 0) files = takeWhile (AfterFile user b) files"
      using assms by (intro takeWhile_cong refl) (simp add: Some level_sorted_def before_earliest)
    then show ?thesis by (simp add: n_def Some find_file [OF level_sorted_largest [OF assms]])
  qed
  have below: "AfterFile user b (files ! i)" if "i < n" for i using that n by (metis nth_mem set_takeWhileD takeWhile_nth)
  have "(\<exists>f\<in>set files. overlaps user b e f) \<longleftrightarrow> n < length files \<and> \<not> BeforeFile user e (files ! n)"
  proof
    assume "\<exists>f\<in>set files. overlaps user b e f"
    then obtain j where j: "j < length files" "overlaps user b e (files ! j)" by (auto simp: in_set_conv_nth)
    have nj: "n \<le> j" using below j(2) by (meson not_less overlaps_iff)
    have "\<not> BeforeFile user e (files ! n)"
    proof
      assume "BeforeFile user e (files ! n)"
      then obtain k where k: "e = Some k" "Compare user k (smallest_user_key (files ! n)) < 0" by (auto simp: BeforeFile_def split: option.splits)
      then have "BeforeFile user e (files ! j)"
        using level_sorted_smallest [OF assms nj j(1)] cmp_less_le [of k "smallest_user_key (files ! n)"] by (simp add: BeforeFile_def)
      then show False using j(2) by (simp add: overlaps_iff)
    qed
    then show "n < length files \<and> \<not> BeforeFile user e (files ! n)" using nj j(1) by simp
  next
    assume r: "n < length files \<and> \<not> BeforeFile user e (files ! n)"
    then have "\<not> AfterFile user b (files ! n)" using n by (metis nth_length_takeWhile)
    then show "\<exists>f\<in>set files. overlaps user b e f" using r by (intro bexI [of _ "files ! n"]) (simp_all add: overlaps_iff)
  qed
  then show ?thesis by (auto simp: SomeFileOverlapsRange_def n_def Let_def not_le)
qed

lemma some_file_overlaps:
  assumes "disjoint \<Longrightarrow> level_sorted user files"
  shows "SomeFileOverlapsRange user disjoint files b e \<longleftrightarrow> (\<exists>f\<in>set files. overlaps user b e f)"
  using assms first_overlap overlap_loop_iff by (cases disjoint) (simp_all add: SomeFileOverlapsRange_def)

subsection \<open>The inputs of a compaction\<close>

lemma range_covers_refl: "covers user b e b e"
  by (auto simp: covers_def cmp_self)

lemma user_trans: "Compare user a b \<le> 0 \<Longrightarrow> Compare user b c \<le> 0 \<Longrightarrow> Compare user a c \<le> 0"
  by (rule cmp_trans) simp_all

lemma range_covers_trans: "covers user x y b e \<Longrightarrow> covers user b e b' e' \<Longrightarrow> covers user x y b' e'"
  by (cases x; cases y) (force simp: covers_def intro: user_trans)+

lemma covers_overlaps: "covers user x y b e \<Longrightarrow> overlaps user b e f \<Longrightarrow> overlaps user x y f"
  by (cases x; cases y) (force simp: covers_def overlaps_def intro: user_trans)+

lemma grow_start:
  assumes "overlaps user b e f" "starts_before user b f"
  shows "covers user (Some (smallest_user_key f)) e b e"
    and "closed_range user files x y \<Longrightarrow> f \<in> set files \<Longrightarrow> covers user x y b e \<Longrightarrow> covers user x y (Some (smallest_user_key f)) e"
proof -
  obtain k where k: "b = Some k" "Compare user (smallest_user_key f) k < 0" using assms(2) by (auto simp: starts_before_def split: option.splits)
  then show "covers user (Some (smallest_user_key f)) e b e" by (auto simp: covers_def cmp_self)
  assume "closed_range user files x y" "f \<in> set files" "covers user x y b e"
  then show "covers user x y (Some (smallest_user_key f)) e"
    using covers_overlaps [OF _ assms(1)] by (auto simp: closed_range_def within_def covers_def)
qed

lemma grow_end:
  assumes "overlaps user b e f" "ends_after user e f"
  shows "covers user b (Some (largest_user_key f)) b e"
    and "closed_range user files x y \<Longrightarrow> f \<in> set files \<Longrightarrow> covers user x y b e \<Longrightarrow> covers user x y b (Some (largest_user_key f))"
proof -
  obtain k where k: "e = Some k" "Compare user (largest_user_key f) k > 0" using assms(2) by (auto simp: ends_after_def split: option.splits)
  then have "Compare user k (largest_user_key f) < 0" using cmp_swap by simp
  then show "covers user b (Some (largest_user_key f)) b e" using k by (auto simp: covers_def cmp_self)
  assume "closed_range user files x y" "f \<in> set files" "covers user x y b e"
  then show "covers user x y b (Some (largest_user_key f))"
    using covers_overlaps [OF _ assms(1)] by (auto simp: closed_range_def within_def covers_def)
qed

lemma within_iff: "within user b e f \<longleftrightarrow> \<not> starts_before user b f \<and> \<not> ends_after user e f"
proof -
  have "Compare user (smallest_user_key f) k < 0 \<longleftrightarrow> \<not> Compare user k (smallest_user_key f) \<le> 0" for k using cmp_swap [of "smallest_user_key f" k] by auto
  then show ?thesis by (cases b; cases e) (simp_all add: within_def starts_before_def ends_after_def not_less)
qed

text \<open>How often the loop can start again, at most.\<close>

definition restarts :: "file_meta list \<Rightarrow> user_bound \<Rightarrow> user_bound \<Rightarrow> nat" where
  "restarts files b e = length (filter (starts_before user b) files) + length (filter (ends_after user e) files)"

lemma restarts_start:
  assumes "f \<in> set files" "starts_before user b f"
  shows "restarts files (Some (smallest_user_key f)) e < restarts files b e"
proof -
  obtain k where k: "b = Some k" "Compare user (smallest_user_key f) k < 0" using assms(2) by (auto simp: starts_before_def split: option.splits)
  have "length (filter (starts_before user (Some (smallest_user_key f))) files) < length (filter (starts_before user b) files)"
    by (rule filter_shrinks [OF assms(1)]) (use k cmp_less_le less_imp_le cmp_self in \<open>auto simp: starts_before_def\<close>)
  then show ?thesis by (simp add: restarts_def)
qed

lemma restarts_end:
  assumes "f \<in> set files" "ends_after user e f"
  shows "restarts files b (Some (largest_user_key f)) < restarts files b e"
proof -
  obtain k where k: "e = Some k" "Compare user (largest_user_key f) k > 0" using assms(2) by (auto simp: ends_after_def split: option.splits)
  have "Compare user (largest_user_key g) k > 0" if "Compare user (largest_user_key g) (largest_user_key f) > 0" for g
    using that k(2) cmp_swap [of "largest_user_key f" "largest_user_key g"] cmp_swap [of k "largest_user_key f"] cmp_swap [of k "largest_user_key g"]
      cmp_less_le [of k "largest_user_key f" "largest_user_key g"] by simp
  then have "length (filter (ends_after user (Some (largest_user_key f))) files) < length (filter (ends_after user e) files)"
    by (intro filter_shrinks [OF assms(1)]) (use k cmp_self in \<open>auto simp: ends_after_def\<close>)
  then show ?thesis by (simp add: restarts_def)
qed

lemma overlapping_loop:
  assumes "i \<le> length files" "inputs = filter (overlaps user b e) (take i files)"
    and "level0 \<Longrightarrow> \<forall>f\<in>set (take i files). overlaps user b e f \<longrightarrow> within user b e f"
  shows "\<exists>b' e'. overlapping_loop user level0 files b e i inputs = Some (filter (overlaps user b' e') files) \<and>
    (if level0 then least_closed user files b e b' e' else b' = b \<and> e' = e)"
  using assms
proof (induction "(restarts files b e, length files - i)" arbitrary: b e i inputs rule: wf_induct_rule [OF wf_lex_prod [OF wf_less_than wf_less_than]])
  case (1 b e i inputs)
  note IH = "1.hyps"
  show ?case
  proof (cases "i < length files")
    case False
    then have "closed_range user files b e" if level0 using "1.prems" that by (simp add: closed_range_def)
    then have "if level0 then least_closed user files b e b e else b = b \<and> e = e" by (simp add: least_closed_def range_covers_refl)
    moreover have "overlapping_loop user level0 files b e i inputs = Some (filter (overlaps user b e) files)"
      using False "1.prems" by (subst overlapping_loop.simps) simp
    ultimately show ?thesis by blast
  next
    case True
    define f where "f = files ! i"
    have f: "f \<in> set files" "take (Suc i) files = take i files @ [f]" using True by (simp_all add: f_def take_Suc_conv_app_nth)
    consider (skip) "\<not> overlaps user b e f" | (first) "overlaps user b e f" "level0" "starts_before user b f"
      | (last) "overlaps user b e f" "level0" "\<not> starts_before user b f" "ends_after user e f"
      | (take) "overlaps user b e f" "level0 \<Longrightarrow> within user b e f" by (auto simp: within_iff)
    then show ?thesis
    proof cases
      case skip
      have "\<exists>b' e'. overlapping_loop user level0 files b e (i + 1) inputs = Some (filter (overlaps user b' e') files) \<and>
          (if level0 then least_closed user files b e b' e' else b' = b \<and> e' = e)"
        by (rule IH) (use True skip f "1.prems" in auto)
      then show ?thesis using True skip by (subst overlapping_loop.simps) (simp add: skipped_iff flip: f_def)
    next
      case first
      have "\<exists>b' e'. overlapping_loop user level0 files (Some (smallest_user_key f)) e 0 [] = Some (filter (overlaps user b' e') files) \<and>
          (if level0 then least_closed user files (Some (smallest_user_key f)) e b' e' else b' = Some (smallest_user_key f) \<and> e' = e)"
        by (rule IH) (use restarts_start [OF f(1) first(3)] in auto)
      moreover have "least_closed user files b e b' e'" if "least_closed user files (Some (smallest_user_key f)) e b' e'" for b' e'
        using that grow_start [OF first(1,3)] f(1) range_covers_trans unfolding least_closed_def by blast
      ultimately show ?thesis using True first by (subst overlapping_loop.simps) (auto simp: skipped_iff simp flip: f_def)
    next
      case last
      have "\<exists>b' e'. overlapping_loop user level0 files b (Some (largest_user_key f)) 0 [] = Some (filter (overlaps user b' e') files) \<and>
          (if level0 then least_closed user files b (Some (largest_user_key f)) b' e' else b' = b \<and> e' = Some (largest_user_key f))"
        by (rule IH) (use restarts_end [OF f(1) last(4)] in auto)
      moreover have "least_closed user files b e b' e'" if "least_closed user files b (Some (largest_user_key f)) b' e'" for b' e'
        using that grow_end [OF last(1,4)] f(1) range_covers_trans unfolding least_closed_def by blast
      ultimately show ?thesis using True last by (subst overlapping_loop.simps) (auto simp: skipped_iff simp flip: f_def)
    next
      case take
      have "\<exists>b' e'. overlapping_loop user level0 files b e (i + 1) (inputs @ [f]) = Some (filter (overlaps user b' e') files) \<and>
          (if level0 then least_closed user files b e b' e' else b' = b \<and> e' = e)"
        by (rule IH) (use True take f "1.prems" in auto)
      then show ?thesis using True take by (subst overlapping_loop.simps) (auto simp: skipped_iff within_iff simp flip: f_def)
    qed
  qed
qed

lemma overlapping_inputs_some: "\<exists>inputs. GetOverlappingInputs user files level b e = Some inputs"
  using overlapping_loop [of 0 "files ! level" "[]" "map_option ExtractUserKey b" "map_option ExtractUserKey e" "level = 0"]
  unfolding GetOverlappingInputs_def by auto

lemma overlapping_inputs_level:
  assumes "level > 0"
  shows "GetOverlappingInputs user files level b e = Some (filter (overlaps user (map_option ExtractUserKey b) (map_option ExtractUserKey e)) (files ! level))"
  using overlapping_loop [of 0 "files ! level" "[]" "map_option ExtractUserKey b" "map_option ExtractUserKey e" "level = 0"] assms
  unfolding GetOverlappingInputs_def by simp

lemma pick_level_loop:
  assumes "\<And>l. 0 < l \<Longrightarrow> l < kNumLevels \<Longrightarrow> level_sorted user (files ! l)" "level \<le> 2"
    and "\<forall>l\<le>level. \<not> (\<exists>f\<in>set (files ! l). overlaps user (Some small) (Some large) f)"
  shows "\<exists>r. pick_level_loop user max_file_size files small large level = Some r \<and> r \<le> 2 \<and>
    (\<forall>l\<le>r. \<not> (\<exists>f\<in>set (files ! l). overlaps user (Some small) (Some large) f))"
  using assms(2,3)
proof (induction "2 - level" arbitrary: level)
  case 0
  then show ?case by (subst pick_level_loop.simps) (simp add: kMaxMemCompactLevel_def)
next
  case (Suc n)
  then have l: "level < 2" by simp
  have ov: "OverlapInLevel user files (level + 1) (Some small) (Some large) \<longleftrightarrow> (\<exists>f\<in>set (files ! (level + 1)). overlaps user (Some small) (Some large) f)"
    unfolding OverlapInLevel_def by (rule some_file_overlaps) (use assms(1) [of "level + 1"] l in \<open>simp add: kNumLevels_def\<close>)
  obtain inputs where g: "GetOverlappingInputs user files (level + 2) (Some (InternalKey small kMaxSequenceNumber kValueTypeForSeek))
      (Some (InternalKey large 0 kTypeDeletion)) = Some inputs" using overlapping_inputs_some by blast
  show ?case
  proof (cases "OverlapInLevel user files (level + 1) (Some small) (Some large)")
    case True
    then show ?thesis using Suc.prems l by (subst pick_level_loop.simps) (simp add: kMaxMemCompactLevel_def)
  next
    case False
    then have "\<forall>l\<le>level + 1. \<not> (\<exists>f\<in>set (files ! l). overlaps user (Some small) (Some large) f)"
      using Suc.prems(2) ov by (metis Suc_eq_plus1 le_Suc_eq)
    then have IH: "\<exists>r. pick_level_loop user max_file_size files small large (level + 1) = Some r \<and> r \<le> 2 \<and>
        (\<forall>l\<le>r. \<not> (\<exists>f\<in>set (files ! l). overlaps user (Some small) (Some large) f))" using Suc.hyps(1) [of "level + 1"] Suc.hyps(2) l by simp
    show ?thesis
    proof (cases "sint (TotalFileSize inputs) > sint (MaxGrandParentOverlapBytes max_file_size)")
      case True
      then show ?thesis using False g Suc.prems l by (subst pick_level_loop.simps) (simp add: kMaxMemCompactLevel_def kNumLevels_def)
    next
      case small: False
      then show ?thesis using False g IH l by (subst pick_level_loop.simps) (simp add: kMaxMemCompactLevel_def kNumLevels_def)
    qed
  qed
qed

end

section \<open>Properties\<close>

text \<open>
  C23: the files that a range needs. The search for the files of a level that overlap a range ends, although it starts again whenever
  a file of level 0, where files may overlap each other, makes the range larger. Its result are all files of the level that overlap a
  range: above level 0 the given range, at level 0 the smallest range that contains the given one and that no file of the level
  sticks out of, so that no older version of a key is left behind.
\<close>
theorem overlapping_inputs:
  assumes "user_comparator user"
  shows "\<exists>b' e'. GetOverlappingInputs user files level b e = Some (filter (overlaps user b' e') (files ! level)) \<and>
    (if level = 0 then least_closed user (files ! 0) (map_option ExtractUserKey b) (map_option ExtractUserKey e) b' e'
     else b' = map_option ExtractUserKey b \<and> e' = map_option ExtractUserKey e)"
  using user_comparator.overlapping_loop [OF assms, of 0 "files ! level" "[]" "map_option ExtractUserKey b" "map_option ExtractUserKey e" "level = 0"]
  unfolding GetOverlappingInputs_def by (cases "level = 0") auto

definition sample_meta :: "u64 \<Rightarrow> byte \<Rightarrow> byte \<Rightarrow> file_meta" where
  "sample_meta n a b = (FileMetaData n)\<lparr>fm_file_size := 1000, fm_smallest := InternalKey [a] 9 kTypeValue, fm_largest := InternalKey [b] 3 kTypeValue\<rparr>"

theorem overlapping_inputs_witness:
  "\<exists>b' e'. GetOverlappingInputs BytewiseComparator [[sample_meta 1 97 99, sample_meta 2 98 101, sample_meta 3 102 103]] 0
       (Some (InternalKey [100] 5 kTypeValue)) (Some (InternalKey [100] 5 kTypeValue)) =
     Some (filter (overlaps BytewiseComparator b' e') [sample_meta 1 97 99, sample_meta 2 98 101, sample_meta 3 102 103]) \<and>
     closed_range BytewiseComparator [sample_meta 1 97 99, sample_meta 2 98 101, sample_meta 3 102 103] b' e' \<and>
     covers BytewiseComparator b' e' (Some [100]) (Some [100])"
proof -
  define fs where "fs = [sample_meta 1 97 99, sample_meta 2 98 101, sample_meta 3 102 103]"
  from overlapping_inputs [OF bytewise.user_comparator_axioms, of "[fs]" 0 "Some (InternalKey [100] 5 kTypeValue)" "Some (InternalKey [100] 5 kTypeValue)"]
  show ?thesis unfolding fs_def [symmetric] by (auto simp: least_closed_def)
qed

text \<open>
  C25: where a memory table goes. In a version whose levels above 0 are sorted and disjoint, the search of a level for a memory table
  ends with one of the levels 0, 1 and 2, and if that is not level 0, no file of that level or of a level below it has a user
  key in the range of the memory table: the new file hides no newer data and overlaps no file of its level. The binary search of a sorted level
  agrees with looking at all of its files.
\<close>
theorem memtable_output_level:
  assumes "user_comparator user" "\<forall>l\<in>{0<..<kNumLevels}. level_sorted user (files ! l)"
  shows "\<exists>level\<le>kMaxMemCompactLevel. PickLevelForMemTableOutput user max_file_size files small large = Some level \<and>
    (level > 0 \<longrightarrow> (\<forall>l\<le>level. \<forall>f\<in>set (files ! l). \<not> overlaps user (Some small) (Some large) f))"
proof -
  have 0: "OverlapInLevel user files 0 (Some small) (Some large) \<longleftrightarrow> (\<exists>f\<in>set (files ! 0). overlaps user (Some small) (Some large) f)"
    unfolding OverlapInLevel_def by (rule user_comparator.some_file_overlaps [OF assms(1)]) simp
  have lv: "level_sorted user (files ! l)" if "0 < l" "l < kNumLevels" for l using assms(2) that by simp
  show ?thesis
  proof (cases "OverlapInLevel user files 0 (Some small) (Some large)")
    case False
    then have no: "\<forall>l\<le>0. \<not> (\<exists>f\<in>set (files ! l). overlaps user (Some small) (Some large) f)" using 0 by simp
    have "PickLevelForMemTableOutput user max_file_size files small large = pick_level_loop user max_file_size files small large 0"
      using False by (simp add: PickLevelForMemTableOutput_def)
    with user_comparator.pick_level_loop [OF assms(1) lv le0 no, of max_file_size] show ?thesis
      by (auto simp: kMaxMemCompactLevel_def)
  qed (simp add: PickLevelForMemTableOutput_def)
qed

theorem memtable_output_level_witness:
  "\<exists>level\<le>kMaxMemCompactLevel.
     PickLevelForMemTableOutput BytewiseComparator 2000000 [[], [sample_meta 1 97 98], [sample_meta 2 97 99, sample_meta 3 101 103], [], [], [], []] [100] [100] = Some level \<and>
     (level > 0 \<longrightarrow> (\<forall>f\<in>{sample_meta 1 97 98}. \<not> overlaps BytewiseComparator (Some [100]) (Some [100]) f))"
proof -
  let ?files = "[[], [sample_meta 1 97 98], [sample_meta 2 97 99, sample_meta 3 101 103], [], [], [], []]"
  have "\<forall>l\<in>{0<..<kNumLevels}. level_sorted BytewiseComparator (?files ! l)"
  proof
    fix l assume "l \<in> {0<..<kNumLevels}"
    then have "l = 1 \<or> l = 2 \<or> ?files ! l = []" by (auto simp: kNumLevels_def less_Suc_eq numeral_eq_Suc)
    moreover have "level_sorted BytewiseComparator [sample_meta 1 97 98]" "level_sorted BytewiseComparator [sample_meta 2 97 99, sample_meta 3 101 103]"
      by code_simp+
    ultimately show "level_sorted BytewiseComparator (?files ! l)" by (auto simp: level_sorted_def)
  qed
  from memtable_output_level [OF bytewise.user_comparator_axioms this, of 2000000 "[100]" "[100]"] obtain level where
    l: "level \<le> kMaxMemCompactLevel" "PickLevelForMemTableOutput BytewiseComparator 2000000 ?files [100] [100] = Some level"
    "level > 0 \<longrightarrow> (\<forall>l\<le>level. \<forall>f\<in>set (?files ! l). \<not> overlaps BytewiseComparator (Some [100]) (Some [100]) f)" by blast
  from l(3) have "level > 0 \<longrightarrow> (\<forall>f\<in>set (?files ! 1). \<not> overlaps BytewiseComparator (Some [100]) (Some [100]) f)" by (metis One_nat_def Suc_leI)
  with l(1,2) show ?thesis by auto
qed

end
