(* ===== verification/Ldb_Compaction.thy ===== *)
theory Ldb_Compaction
  imports Ldb_Version
begin

text \<open>
  Compactions, \<^verbatim>\<open>leveldb-library/db/version_set.cc\<close>: which files are merged with each other, and the questions that the
  merging thread asks about them. What a compaction writes is not modelled.
\<close>

section \<open>Ranges of files\<close>

definition range_step :: "comparator \<Rightarrow> byte list \<times> byte list \<Rightarrow> file_meta \<Rightarrow> byte list \<times> byte list" where
  "range_step user r f =
     (if internal_Compare user (fm_smallest f) (fst r) < 0 then fm_smallest f else fst r,
      if internal_Compare user (fm_largest f) (snd r) > 0 then fm_largest f else snd r)"

definition GetRange :: "comparator \<Rightarrow> file_meta list \<Rightarrow> byte list \<times> byte list" where
  "GetRange user inputs =
     (case inputs of [] \<Rightarrow> ([], []) | f # fs \<Rightarrow> foldl (range_step user) (fm_smallest f, fm_largest f) fs)"

definition GetRange2 :: "comparator \<Rightarrow> file_meta list \<Rightarrow> file_meta list \<Rightarrow> byte list \<times> byte list" where
  "GetRange2 user inputs1 inputs2 = GetRange user (inputs1 @ inputs2)"

section \<open>Boundary files\<close>

definition FindLargestKey :: "comparator \<Rightarrow> file_meta list \<Rightarrow> byte list option" where
  "FindLargestKey user files =
     (case files of
        [] \<Rightarrow> None
      | f # fs \<Rightarrow> Some (foldl (\<lambda>k g. if internal_Compare user (fm_largest g) k > 0 then fm_largest g else k) (fm_largest f) fs))"

definition boundary :: "comparator \<Rightarrow> byte list \<Rightarrow> file_meta \<Rightarrow> bool" where
  "boundary user largest_key f \<longleftrightarrow> internal_Compare user (fm_smallest f) largest_key > 0 \<and>
     Compare user (smallest_user_key f) (ExtractUserKey largest_key) = 0"

definition FindSmallestBoundaryFile :: "comparator \<Rightarrow> file_meta list \<Rightarrow> byte list \<Rightarrow> file_meta option" where
  "FindSmallestBoundaryFile user level_files largest_key =
     foldl (\<lambda>best f.
       if boundary user largest_key f then
         case best of
           None \<Rightarrow> Some f
         | Some g \<Rightarrow> if internal_Compare user (fm_smallest f) (fm_smallest g) < 0 then Some f else best
       else best) None level_files"

partial_function (option) boundary_loop ::
  "comparator \<Rightarrow> file_meta list \<Rightarrow> byte list \<Rightarrow> file_meta list \<Rightarrow> file_meta list option" where
  "boundary_loop user level_files largest_key compaction_files =
     (case FindSmallestBoundaryFile user level_files largest_key of
        Some f \<Rightarrow> boundary_loop user level_files (fm_largest f) (compaction_files @ [f])
      | None \<Rightarrow> Some compaction_files)"

definition AddBoundaryInputs :: "comparator \<Rightarrow> file_meta list \<Rightarrow> file_meta list \<Rightarrow> file_meta list option" where
  "AddBoundaryInputs user level_files compaction_files =
     (case FindLargestKey user compaction_files of
        None \<Rightarrow> Some compaction_files
      | Some k \<Rightarrow> boundary_loop user level_files k compaction_files)"

section \<open>Compactions\<close>

record compaction =
  c_level :: nat
  max_output_file_size :: u64
  c_input_files :: "file_meta list list"
  c_edit :: version_edit
  c_inputs0 :: "file_meta list"
  c_inputs1 :: "file_meta list"
  grandparents :: "file_meta list"
  grandparent_index :: nat
  seen_key :: bool
  overlapped_bytes :: u64
  level_ptrs :: "nat list"

definition Compaction :: "u64 \<Rightarrow> nat \<Rightarrow> file_meta list list \<Rightarrow> compaction" where
  "Compaction max_file_size level files =
     \<lparr>c_level = level, max_output_file_size = max_file_size, c_input_files = files, c_edit = VersionEdit, c_inputs0 = [], c_inputs1 = [],
      grandparents = [], grandparent_index = 0, seen_key = False, overlapped_bytes = 0, level_ptrs = replicate kNumLevels 0\<rparr>"

text \<open>Whether the set of files of the lower level can grow without changing that of the upper level; then both sets and their range.\<close>

definition expand_inputs ::
  "comparator \<Rightarrow> u64 \<Rightarrow> file_meta list list \<Rightarrow> nat \<Rightarrow> file_meta list \<Rightarrow> file_meta list \<Rightarrow>
     byte list \<times> byte list \<Rightarrow> (file_meta list \<times> file_meta list) option option" where
  "expand_inputs user max_file_size files level inputs0 inputs1 all_range =
     (if inputs1 \<noteq> [] then
        Option.bind (GetOverlappingInputs user files level (Some (fst all_range)) (Some (snd all_range))) (\<lambda>overlapping.
        Option.bind (AddBoundaryInputs user (files ! level) overlapping) (\<lambda>expanded0.
          if length expanded0 > length inputs0 \<and>
             sint (TotalFileSize inputs1 + TotalFileSize expanded0) < sint (ExpandedCompactionByteSizeLimit max_file_size) then
            let (new_start, new_limit) = GetRange user expanded0
            in Option.bind (GetOverlappingInputs user files (level + 1) (Some new_start) (Some new_limit)) (\<lambda>expanded1.
                 if length expanded1 = length inputs1 then Some (Some (expanded0, expanded1)) else Some None)
          else Some None))
      else Some None)"

definition SetupOtherInputs ::
  "comparator \<Rightarrow> u64 \<Rightarrow> file_meta list list \<Rightarrow> byte list list \<Rightarrow> compaction \<Rightarrow> (compaction \<times> byte list list) option" where
  "SetupOtherInputs user max_file_size files compact_pointer c =
     (let level = c_level c
      in Option.bind (AddBoundaryInputs user (files ! level) (c_inputs0 c)) (\<lambda>inputs0.
         let (smallest, largest) = GetRange user inputs0
         in Option.bind (GetOverlappingInputs user files (level + 1) (Some smallest) (Some largest)) (\<lambda>inputs1.
            Option.bind (expand_inputs user max_file_size files level inputs0 inputs1 (GetRange2 user inputs0 inputs1)) (\<lambda>expanded.
            let (ins0, ins1) = (case expanded of None \<Rightarrow> (inputs0, inputs1) | Some x \<Rightarrow> x);
                largest1 = snd (GetRange user ins0);
                (all_start, all_limit) = GetRange2 user ins0 ins1
            in Option.bind (if level + 2 < kNumLevels then GetOverlappingInputs user files (level + 2) (Some all_start) (Some all_limit)
                            else Some (grandparents c)) (\<lambda>gps.
               Some (c\<lparr>c_inputs0 := ins0, c_inputs1 := ins1, grandparents := gps, c_edit := SetCompactPointer (int level) largest1 (c_edit c)\<rparr>,
                     compact_pointer[level := largest1]))))))"

definition MaxFileSizeForLevel :: "u64 \<Rightarrow> nat \<Rightarrow> u64" where
  "MaxFileSizeForLevel max_file_size level = max_file_size"

fun limit_inputs :: "u64 \<Rightarrow> u64 \<Rightarrow> file_meta list \<Rightarrow> file_meta list" where
  "limit_inputs limit tot [] = []"
| "limit_inputs limit tot (f # fs) =
     (let total1 = tot + fm_file_size f in f # (if total1 \<ge> limit then [] else limit_inputs limit total1 fs))"

text \<open>\<open>Some None\<close> is the null pointer: there is nothing to compact.\<close>

definition CompactRange ::
  "comparator \<Rightarrow> u64 \<Rightarrow> file_meta list list \<Rightarrow> byte list list \<Rightarrow> nat \<Rightarrow> byte list option \<Rightarrow> byte list option \<Rightarrow>
     (compaction \<times> byte list list) option option" where
  "CompactRange user max_file_size files compact_pointer level b e =
     Option.bind (GetOverlappingInputs user files level b e) (\<lambda>inputs.
       if inputs = [] then Some None
       else
         let inputs1 = (if level > 0 then limit_inputs (MaxFileSizeForLevel max_file_size level) 0 inputs else inputs)
         in map_option Some
              (SetupOtherInputs user max_file_size files compact_pointer ((Compaction max_file_size level files)\<lparr>c_inputs0 := inputs1\<rparr>)))"

text \<open>
  The level with the highest score, if the score is at least 1, and the file that was read too often, with its level, are
  arguments.
\<close>

definition first_after_pointer :: "comparator \<Rightarrow> byte list \<Rightarrow> file_meta list \<Rightarrow> file_meta list" where
  "first_after_pointer user pointer level_files =
     (case List.find (\<lambda>f. pointer = [] \<or> internal_Compare user (fm_largest f) pointer > 0) level_files of
        Some f \<Rightarrow> [f]
      | None \<Rightarrow> [level_files ! 0])"

definition PickCompaction ::
  "comparator \<Rightarrow> u64 \<Rightarrow> file_meta list list \<Rightarrow> byte list list \<Rightarrow> nat option \<Rightarrow> (file_meta \<times> nat) option \<Rightarrow>
     (compaction \<times> byte list list) option option" where
  "PickCompaction user max_file_size files compact_pointer size_compaction seek_compaction =
     (let picked = (case size_compaction of
                      Some level \<Rightarrow> Some (level, first_after_pointer user (compact_pointer ! level) (files ! level))
                    | None \<Rightarrow> map_option (\<lambda>(f, level). (level, [f])) seek_compaction)
      in case picked of
           None \<Rightarrow> Some None
         | Some (level, inputs) \<Rightarrow>
             Option.bind
               (if level = 0 then
                  let (smallest, largest) = GetRange user inputs in GetOverlappingInputs user files 0 (Some smallest) (Some largest)
                else Some inputs)
               (\<lambda>inputs0. map_option Some
                  (SetupOtherInputs user max_file_size files compact_pointer ((Compaction max_file_size level files)\<lparr>c_inputs0 := inputs0\<rparr>))))"

section \<open>Questions about a compaction\<close>

definition IsTrivialMove :: "u64 \<Rightarrow> compaction \<Rightarrow> bool" where
  "IsTrivialMove max_file_size c \<longleftrightarrow> length (c_inputs0 c) = 1 \<and> length (c_inputs1 c) = 0 \<and>
     sint (TotalFileSize (grandparents c)) \<le> sint (MaxGrandParentOverlapBytes max_file_size)"

definition AddInputDeletions :: "compaction \<Rightarrow> version_edit \<Rightarrow> version_edit" where
  "AddInputDeletions c edit =
     foldl (\<lambda>e f. DeleteFile (int (c_level c) + 1) (fm_number f) e)
       (foldl (\<lambda>e f. DeleteFile (int (c_level c)) (fm_number f) e) edit (c_inputs0 c)) (c_inputs1 c)"

text \<open>One level: the new position, and whether the key falls into the file there.\<close>

function base_scan :: "comparator \<Rightarrow> slice \<Rightarrow> file_meta list \<Rightarrow> nat \<Rightarrow> nat \<times> bool" where
  "base_scan user uk files p =
     (if p < length files then
        let f = files ! p
        in if Compare user uk (largest_user_key f) \<le> 0 then (p, Compare user uk (smallest_user_key f) \<ge> 0)
           else base_scan user uk files (p + 1)
      else (p, False))"
  by pat_completeness auto
termination
  by (relation "measure (\<lambda>(_, _, files, p). length files - p)") auto

declare base_scan.simps [simp del]

fun base_levels :: "comparator \<Rightarrow> slice \<Rightarrow> file_meta list list \<Rightarrow> nat list \<Rightarrow> nat list \<Rightarrow> nat list \<times> bool" where
  "base_levels user uk files ptrs [] = (ptrs, True)"
| "base_levels user uk files ptrs (lvl # lvls) =
     (let (p, found) = base_scan user uk (files ! lvl) (ptrs ! lvl); ptrs1 = ptrs[lvl := p]
      in if found then (ptrs1, False) else base_levels user uk files ptrs1 lvls)"

definition IsBaseLevelForKey :: "comparator \<Rightarrow> slice \<Rightarrow> compaction \<Rightarrow> compaction \<times> bool" where
  "IsBaseLevelForKey user uk c =
     (let (ptrs, r) = base_levels user uk (c_input_files c) (level_ptrs c) [c_level c + 2..<kNumLevels]
      in (c\<lparr>level_ptrs := ptrs\<rparr>, r))"

function stop_scan :: "comparator \<Rightarrow> slice \<Rightarrow> compaction \<Rightarrow> compaction" where
  "stop_scan user ikey c =
     (if grandparent_index c < length (grandparents c) \<and>
         internal_Compare user ikey (fm_largest (grandparents c ! grandparent_index c)) > 0 then
        stop_scan user ikey
          ((if seen_key c then c\<lparr>overlapped_bytes := overlapped_bytes c + fm_file_size (grandparents c ! grandparent_index c)\<rparr> else c)
           \<lparr>grandparent_index := grandparent_index c + 1\<rparr>)
      else c)"
  by pat_completeness auto
termination
  by (relation "measure (\<lambda>(_, _, c). length (grandparents c) - grandparent_index c)") auto

declare stop_scan.simps [simp del]

definition ShouldStopBefore :: "comparator \<Rightarrow> u64 \<Rightarrow> slice \<Rightarrow> compaction \<Rightarrow> compaction \<times> bool" where
  "ShouldStopBefore user max_file_size ikey c =
     (let c1 = (stop_scan user ikey c)\<lparr>seen_key := True\<rparr>
      in if sint (overlapped_bytes c1) > sint (MaxGrandParentOverlapBytes max_file_size) then (c1\<lparr>overlapped_bytes := 0\<rparr>, True)
         else (c1, False))"

text \<open>The answers for one key after the other.\<close>

primrec base_answers :: "comparator \<Rightarrow> slice list \<Rightarrow> compaction \<Rightarrow> bool list" where
  "base_answers user [] c = []"
| "base_answers user (k # ks) c = (let (c1, r) = IsBaseLevelForKey user k c in r # base_answers user ks c1)"

text \<open>The files of two levels that can be merged without leaving out a file whose keys they share.\<close>

definition complete_inputs :: "comparator \<Rightarrow> file_meta list list \<Rightarrow> nat \<Rightarrow> file_meta list \<Rightarrow> file_meta list \<Rightarrow> bool" where
  "complete_inputs user files level inputs0 inputs1 \<longleftrightarrow> inputs0 \<noteq> [] \<and> set inputs0 \<subseteq> set (files ! level) \<and>
     (\<forall>f\<in>set (files ! level). \<not> boundary user (snd (GetRange user inputs0)) f) \<and>
     inputs1 = filter (overlaps user (Some (ExtractUserKey (fst (GetRange user inputs0)))) (Some (ExtractUserKey (snd (GetRange user inputs0))))) (files ! (level + 1))"

text \<open>At level 0, every file that overlaps the inputs is one of them.\<close>

definition level0_closed :: "comparator \<Rightarrow> file_meta list list \<Rightarrow> file_meta list \<Rightarrow> bool" where
  "level0_closed user files inputs \<longleftrightarrow>
     (\<forall>f\<in>set (files ! 0). overlaps user (Some (ExtractUserKey (fst (GetRange user inputs)))) (Some (ExtractUserKey (snd (GetRange user inputs)))) f \<longrightarrow>
        f \<in> set inputs)"

definition good_compaction :: "comparator \<Rightarrow> file_meta list list \<Rightarrow> compaction \<Rightarrow> bool" where
  "good_compaction user files c \<longleftrightarrow> complete_inputs user files (c_level c) (c_inputs0 c) (c_inputs1 c) \<and>
     (c_level c = 0 \<longrightarrow> level0_closed user files (c_inputs0 c))"

section \<open>Boundary files are added\<close>

context user_comparator
begin

lemma find_largest_snoc:
  "FindLargestKey user fs = Some k \<Longrightarrow> FindLargestKey user (fs @ [f]) = Some (if internal_Compare user (fm_largest f) k > 0 then fm_largest f else k)"
  by (auto simp: FindLargestKey_def split: list.splits)

lemma internal_refl: "internal_Compare user k k \<le> 0"
  by (simp add: internal_le cmp_self)

lemma internal_not_greater: "\<not> 0 < internal_Compare user a b \<longleftrightarrow> internal_Compare user a b \<le> 0"
  by auto

lemma largest_bound: "FindLargestKey user fs = Some k \<Longrightarrow> f \<in> set fs \<Longrightarrow> internal_Compare user (fm_largest f) k \<le> 0"
proof (induction fs arbitrary: k rule: rev_induct)
  case (snoc x xs)
  show ?case
  proof (cases "FindLargestKey user xs")
    case None
    then have "xs = []" by (auto simp: FindLargestKey_def split: list.splits)
    then show ?thesis using snoc.prems internal_refl by (auto simp: FindLargestKey_def)
  next
    case (Some k1)
    then have k: "k = (if internal_Compare user (fm_largest x) k1 > 0 then fm_largest x else k1)" using snoc.prems(1) find_largest_snoc by simp
    then have "internal_Compare user k1 k \<le> 0" "internal_Compare user (fm_largest x) k \<le> 0"
      using internal_refl internal_swap [of k1 "fm_largest x"] by auto
    then show ?thesis using snoc.IH [OF Some] snoc.prems(2) internal_trans by auto
  qed
qed simp

lemma range_largest: "fs \<noteq> [] \<Longrightarrow> FindLargestKey user fs = Some (snd (GetRange user fs))"
proof -
  have "snd (foldl (range_step user) r fs) = foldl (\<lambda>k g. if internal_Compare user (fm_largest g) k > 0 then fm_largest g else k) (snd r) fs" for r fs
    by (induction fs arbitrary: r) (simp_all add: range_step_def)
  then show "fs \<noteq> [] \<Longrightarrow> ?thesis" by (simp add: FindLargestKey_def GetRange_def split: list.splits)
qed

lemma range_smallest: "f \<in> set fs \<Longrightarrow> internal_Compare user (fst (GetRange user fs)) (fm_smallest f) \<le> 0"
proof -
  have step: "internal_Compare user (fst (foldl (range_step user) r fs)) (fst r) \<le> 0 \<and>
      (\<forall>f\<in>set fs. internal_Compare user (fst (foldl (range_step user) r fs)) (fm_smallest f) \<le> 0)" for r fs
  proof (induction fs arbitrary: r)
    case (Cons g gs)
    have "internal_Compare user (fst (range_step user r g)) (fst r) \<le> 0" "internal_Compare user (fst (range_step user r g)) (fm_smallest g) \<le> 0"
      using internal_refl internal_swap [of "fm_smallest g" "fst r"] internal_swap [of "fst r" "fm_smallest g"] by (auto simp: range_step_def)
    then show ?case using Cons [of "range_step user r g"] internal_trans by auto
  qed (simp add: internal_refl)
  assume "f \<in> set fs"
  then obtain g gs where "fs = g # gs" by (cases fs) auto
  then show ?thesis using step [of "(fm_smallest g, fm_largest g)" gs] \<open>f \<in> set fs\<close> by (auto simp: GetRange_def)
qed

lemma range_overlaps:
  assumes "f \<in> set fs" "internal_Compare user (fm_smallest f) (fm_largest f) \<le> 0"
  shows "overlaps user (Some (ExtractUserKey (fst (GetRange user fs)))) (Some (ExtractUserKey (snd (GetRange user fs)))) f"
proof -
  have "internal_Compare user (fm_largest f) (snd (GetRange user fs)) \<le> 0" using range_largest [of fs] largest_bound assms(1) by fastforce
  then have "internal_Compare user (fm_smallest f) (snd (GetRange user fs)) \<le> 0" using assms(2) internal_trans by blast
  moreover have "internal_Compare user (fst (GetRange user fs)) (fm_largest f) \<le> 0" using range_smallest [OF assms(1)] assms(2) internal_trans by blast
  ultimately show ?thesis using user_le by (auto simp: overlaps_def)
qed

lemma boundary_file_snoc:
  "FindSmallestBoundaryFile user (fs @ [f]) k =
     (if boundary user k f then
        case FindSmallestBoundaryFile user fs k of
          None \<Rightarrow> Some f
        | Some g \<Rightarrow> if internal_Compare user (fm_smallest f) (fm_smallest g) < 0 then Some f else Some g
      else FindSmallestBoundaryFile user fs k)"
  by (simp add: FindSmallestBoundaryFile_def split: option.split)

lemma no_boundary_file: "FindSmallestBoundaryFile user fs k = None \<Longrightarrow> \<forall>f\<in>set fs. \<not> boundary user k f"
  by (induction fs rule: rev_induct) (auto simp: boundary_file_snoc split: option.splits if_splits)

lemma some_boundary_file: "FindSmallestBoundaryFile user fs k = Some f \<Longrightarrow> f \<in> set fs \<and> boundary user k f"
proof (induction fs arbitrary: f rule: rev_induct)
  case Nil
  then show ?case by (simp add: FindSmallestBoundaryFile_def)
next
  case (snoc x xs)
  then show ?case by (cases "FindSmallestBoundaryFile user xs k") (auto simp: boundary_file_snoc split: if_splits)
qed

lemma boundary_loop:
  assumes "\<forall>f\<in>set level_files. internal_Compare user (fm_smallest f) (fm_largest f) \<le> 0" "FindLargestKey user fs = Some k"
  shows "\<exists>added k'. boundary_loop user level_files k fs = Some (fs @ added) \<and> set added \<subseteq> set level_files \<and>
    FindLargestKey user (fs @ added) = Some k' \<and> (\<forall>f\<in>set level_files. \<not> boundary user k' f)"
  using assms(2)
proof (induction "length (filter (\<lambda>f. internal_Compare user (fm_smallest f) k > 0) level_files)" arbitrary: fs k rule: less_induct)
  case less
  show ?case
  proof (cases "FindSmallestBoundaryFile user level_files k")
    case None
    then have "boundary_loop user level_files k fs = Some (fs @ [])" by (subst boundary_loop.simps) simp
    then show ?thesis using less.prems no_boundary_file [OF None] by (intro exI [of _ "[]"] exI [of _ k]) simp
  next
    case (Some f)
    note f = some_boundary_file [OF Some]
    have gt: "internal_Compare user (fm_smallest f) k > 0" using f by (simp add: boundary_def)
    have le: "internal_Compare user (fm_smallest f) (fm_largest f) \<le> 0" using f assms(1) by blast
    have "internal_Compare user k (fm_largest f) < 0" using internal_less_le [OF _ le, of k] gt internal_swap [of k "fm_smallest f"] by simp
    then have up: "internal_Compare user (fm_largest f) k > 0" using internal_swap by simp
    have "internal_Compare user (fm_smallest g) k > 0" if "internal_Compare user (fm_smallest g) (fm_largest f) > 0" for g
      using that \<open>internal_Compare user k (fm_largest f) < 0\<close> internal_less_le [of k "fm_largest f" "fm_smallest g"] internal_swap by (metis less_imp_le)
    then have "length (filter (\<lambda>g. internal_Compare user (fm_smallest g) (fm_largest f) > 0) level_files) <
        length (filter (\<lambda>g. internal_Compare user (fm_smallest g) k > 0) level_files)"
      by (intro filter_shrinks [of f]) (use f gt le in auto)
    from less.hyps [OF this, of "fs @ [f]"] obtain added k' where r: "boundary_loop user level_files (fm_largest f) (fs @ [f]) = Some ((fs @ [f]) @ added)"
      "set added \<subseteq> set level_files" "FindLargestKey user ((fs @ [f]) @ added) = Some k'" "\<forall>f\<in>set level_files. \<not> boundary user k' f"
      using find_largest_snoc [OF less.prems, of f] up by auto
    have "boundary_loop user level_files k fs = Some (fs @ f # added)" using r(1) Some by (subst boundary_loop.simps) simp
    then show ?thesis using r(2-4) f by (intro exI [of _ "f # added"] exI [of _ k']) simp
  qed
qed

lemma boundary_inputs:
  assumes "\<forall>f\<in>set level_files. internal_Compare user (fm_smallest f) (fm_largest f) \<le> 0"
  shows "\<exists>added. AddBoundaryInputs user level_files fs = Some (fs @ added) \<and> set added \<subseteq> set level_files \<and>
    (\<forall>k. FindLargestKey user (fs @ added) = Some k \<longrightarrow> (\<forall>f\<in>set level_files. \<not> boundary user k f))"
proof (cases "FindLargestKey user fs")
  case None
  then have "fs = []" by (auto simp: FindLargestKey_def split: list.splits)
  then show ?thesis by (intro exI [of _ "[]"]) (simp add: AddBoundaryInputs_def FindLargestKey_def)
next
  case (Some k)
  from boundary_loop [OF assms this] show ?thesis by (auto simp: AddBoundaryInputs_def Some)
qed

section \<open>The inputs are complete\<close>

lemma overlapping_contains:
  assumes "f \<in> set (files ! level)" "overlaps user (map_option ExtractUserKey b) (map_option ExtractUserKey e) f" "GetOverlappingInputs user files level b e = Some inputs"
  shows "f \<in> set inputs" "set inputs \<subseteq> set (files ! level)"
proof -
  obtain b' e' where g: "GetOverlappingInputs user files level b e = Some (filter (overlaps user b' e') (files ! level))"
    "if level = 0 then least_closed user (files ! level) (map_option ExtractUserKey b) (map_option ExtractUserKey e) b' e'
     else b' = map_option ExtractUserKey b \<and> e' = map_option ExtractUserKey e"
    using overlapping_loop [of 0 "files ! level" "[]" "map_option ExtractUserKey b" "map_option ExtractUserKey e" "level = 0"]
    unfolding GetOverlappingInputs_def by auto
  have "overlaps user b' e' f" using g(2) assms(2) covers_overlaps by (auto simp: least_closed_def split: if_splits)
  then show "f \<in> set inputs" "set inputs \<subseteq> set (files ! level)" using g(1) assms(1,3) by auto
qed

lemma added_inputs:
  assumes "\<forall>f\<in>set (files ! level). internal_Compare user (fm_smallest f) (fm_largest f) \<le> 0" "fs \<noteq> []" "set fs \<subseteq> set (files ! level)"
  obtains inputs0 where "AddBoundaryInputs user (files ! level) fs = Some inputs0" "set fs \<subseteq> set inputs0"
    "complete_inputs user files level inputs0 (filter (overlaps user (Some (ExtractUserKey (fst (GetRange user inputs0))))
       (Some (ExtractUserKey (snd (GetRange user inputs0))))) (files ! (level + 1)))"
proof -
  obtain added where a: "AddBoundaryInputs user (files ! level) fs = Some (fs @ added)" "set added \<subseteq> set (files ! level)"
    "\<forall>k. FindLargestKey user (fs @ added) = Some k \<longrightarrow> (\<forall>f\<in>set (files ! level). \<not> boundary user k f)"
    using boundary_inputs [OF assms(1)] by blast
  show thesis by (rule that [OF a(1)]) (use a assms(2,3) range_largest [of "fs @ added"] in \<open>auto simp: complete_inputs_def\<close>)
qed

lemma range_attained: "fs \<noteq> [] \<Longrightarrow> fst (GetRange user fs) \<in> fm_smallest ` set fs \<and> snd (GetRange user fs) \<in> fm_largest ` set fs"
proof -
  have "(fst (foldl (range_step user) r fs) = fst r \<or> fst (foldl (range_step user) r fs) \<in> fm_smallest ` set fs) \<and>
      (snd (foldl (range_step user) r fs) = snd r \<or> snd (foldl (range_step user) r fs) \<in> fm_largest ` set fs)" for r fs
  proof (induction fs arbitrary: r)
    case (Cons g gs)
    then show ?case using Cons [of "range_step user r g"] by (auto simp: range_step_def)
  qed simp
  note step = this
  assume "fs \<noteq> []"
  then obtain g gs where "fs = g # gs" by (cases fs) auto
  then show ?thesis using step [of "(fm_smallest g, fm_largest g)" gs] by (auto simp: GetRange_def)
qed

lemma closed_no_boundary:
  assumes "\<forall>f\<in>set (files ! 0). internal_Compare user (fm_smallest f) (fm_largest f) \<le> 0" "fs \<noteq> []" "set fs \<subseteq> set (files ! 0)" "level0_closed user files fs"
  shows "AddBoundaryInputs user (files ! 0) fs = Some fs"
proof -
  let ?k = "snd (GetRange user fs)"
  have k: "FindLargestKey user fs = Some ?k" using range_largest [OF assms(2)] .
  have "\<not> boundary user ?k f" if f: "f \<in> set (files ! 0)" for f
  proof
    assume b: "boundary user ?k f"
    have gt: "internal_Compare user ?k (fm_smallest f) < 0" using b internal_swap by (simp add: boundary_def)
    have le: "internal_Compare user (fm_smallest f) (fm_largest f) \<le> 0" using assms(1) f by blast
    obtain g where g: "g \<in> set fs" using assms(2) by (cases fs) auto
    have "internal_Compare user (fst (GetRange user fs)) (fm_largest f) \<le> 0"
      using internal_trans [OF internal_trans [OF range_smallest [OF g], of "fm_largest g"], of "fm_largest f"] largest_bound [OF k g]
        internal_less_le [OF gt le] assms(1,3) g internal_trans [of "fm_largest g" ?k "fm_largest f"] by auto
    then have "overlaps user (Some (ExtractUserKey (fst (GetRange user fs)))) (Some (ExtractUserKey ?k)) f"
      using user_le b by (auto simp: overlaps_def boundary_def)
    then have "f \<in> set fs" using assms(4) f by (simp add: level0_closed_def)
    then show False using largest_bound [OF k] internal_less_le [OF gt le] internal_swap [of ?k "fm_largest f"] by fastforce
  qed
  then have "FindSmallestBoundaryFile user (files ! 0) ?k = None" using some_boundary_file by (metis option.exhaust)
  then show ?thesis by (simp add: AddBoundaryInputs_def k boundary_loop.simps)
qed

lemma overlapping_closed:
  assumes "GetOverlappingInputs user files 0 b e = Some inputs" "inputs \<noteq> []"
  shows "level0_closed user files inputs"
  unfolding level0_closed_def
proof (intro ballI impI)
  fix f assume f: "f \<in> set (files ! 0)" "overlaps user (Some (ExtractUserKey (fst (GetRange user inputs)))) (Some (ExtractUserKey (snd (GetRange user inputs)))) f"
  obtain b' e' where g: "inputs = filter (overlaps user b' e') (files ! 0)" "closed_range user (files ! 0) b' e'"
    using overlapping_loop [of 0 "files ! 0" "[]" "map_option ExtractUserKey b" "map_option ExtractUserKey e" True] assms(1)
    unfolding GetOverlappingInputs_def least_closed_def by auto
  obtain g1 g2 where a: "g1 \<in> set inputs" "fst (GetRange user inputs) = fm_smallest g1" "g2 \<in> set inputs" "snd (GetRange user inputs) = fm_largest g2"
    using range_attained [OF assms(2)] by auto
  have "within user b' e' g1" "within user b' e' g2" using a g by (auto simp: closed_range_def)
  then have "covers user b' e' (Some (smallest_user_key g1)) (Some (largest_user_key g2))" by (auto simp: within_def covers_def)
  then have "overlaps user b' e' f" using f(2) a covers_overlaps by simp
  then show "f \<in> set inputs" using f(1) g(1) by simp
qed

lemma expand_inputs:
  assumes F: "\<forall>f\<in>set (files ! level). internal_Compare user (fm_smallest f) (fm_largest f) \<le> 0" and C: "complete_inputs user files level inputs0 inputs1"
  obtains r where "expand_inputs user max_file_size files level inputs0 inputs1 (GetRange2 user inputs0 inputs1) = Some r"
    "\<And>ins0 ins1. r = Some (ins0, ins1) \<Longrightarrow> set inputs0 \<subseteq> set ins0 \<and> complete_inputs user files level ins0 ins1 \<and> (level = 0 \<longrightarrow> level0_closed user files ins0)"
proof -
  let ?all = "GetRange2 user inputs0 inputs1"
  obtain overlapping where o: "GetOverlappingInputs user files level (Some (fst ?all)) (Some (snd ?all)) = Some overlapping"
    using overlapping_inputs_some by blast
  have in0: "f \<in> set overlapping" "set overlapping \<subseteq> set (files ! level)" if "f \<in> set inputs0" for f
    using overlapping_contains [OF _ _ o, of f] range_overlaps [of f "inputs0 @ inputs1"] C F that
    by (auto simp: complete_inputs_def GetRange2_def)
  have sub: "set inputs0 \<subseteq> set overlapping" "overlapping \<noteq> []" "set overlapping \<subseteq> set (files ! level)"
    using in0 C by (fastforce simp: complete_inputs_def)+
  obtain expanded0 where e: "AddBoundaryInputs user (files ! level) overlapping = Some expanded0" "set overlapping \<subseteq> set expanded0"
    "complete_inputs user files level expanded0 (filter (overlaps user (Some (ExtractUserKey (fst (GetRange user expanded0))))
       (Some (ExtractUserKey (snd (GetRange user expanded0))))) (files ! (level + 1)))" using added_inputs [OF F sub(2,3)] by metis
  have cl: "level0_closed user files expanded0" if "level = 0"
    using closed_no_boundary [of files overlapping] overlapping_closed [of files _ _ overlapping] F sub o e(1) that by simp
  let ?grows = "length expanded0 > length inputs0 \<and> sint (TotalFileSize inputs1 + TotalFileSize expanded0) < sint (ExpandedCompactionByteSizeLimit max_file_size)"
  let ?ins1 = "filter (overlaps user (Some (ExtractUserKey (fst (GetRange user expanded0)))) (Some (ExtractUserKey (snd (GetRange user expanded0))))) (files ! (level + 1))"
  have "expand_inputs user max_file_size files level inputs0 inputs1 ?all =
      Some (if inputs1 \<noteq> [] \<and> ?grows \<and> length ?ins1 = length inputs1 then Some (expanded0, ?ins1) else None)"
    using overlapping_inputs_level [of "level + 1" files] by (auto simp: expand_inputs_def o e(1) split: prod.split)
  then show thesis using e(2,3) sub(1) cl by (intro that) (auto split: if_splits)
qed

lemma setup_inputs:
  assumes "\<forall>f\<in>set (files ! c_level c). internal_Compare user (fm_smallest f) (fm_largest f) \<le> 0" "c_inputs0 c \<noteq> []" "set (c_inputs0 c) \<subseteq> set (files ! c_level c)"
    and "c_level c = 0 \<Longrightarrow> level0_closed user files (c_inputs0 c)"
  shows "\<exists>c' cp. SetupOtherInputs user max_file_size files compact_pointer c = Some (c', cp) \<and> c_level c' = c_level c \<and>
    set (c_inputs0 c) \<subseteq> set (c_inputs0 c') \<and> good_compaction user files c'"
proof -
  let ?l = "c_level c"
  obtain inputs0 where i: "AddBoundaryInputs user (files ! ?l) (c_inputs0 c) = Some inputs0" "set (c_inputs0 c) \<subseteq> set inputs0"
    "complete_inputs user files ?l inputs0 (filter (overlaps user (Some (ExtractUserKey (fst (GetRange user inputs0))))
       (Some (ExtractUserKey (snd (GetRange user inputs0))))) (files ! (?l + 1)))" using added_inputs [OF assms(1-3)] by metis
  define inputs1 where "inputs1 = filter (overlaps user (Some (ExtractUserKey (fst (GetRange user inputs0))))
       (Some (ExtractUserKey (snd (GetRange user inputs0))))) (files ! (?l + 1))"
  have g1: "GetOverlappingInputs user files (?l + 1) (Some (fst (GetRange user inputs0))) (Some (snd (GetRange user inputs0))) = Some inputs1"
    using overlapping_inputs_level [of "?l + 1" files] by (simp add: inputs1_def)
  obtain r where r: "expand_inputs user max_file_size files ?l inputs0 inputs1 (GetRange2 user inputs0 inputs1) = Some r"
    "\<And>ins0 ins1. r = Some (ins0, ins1) \<Longrightarrow> set inputs0 \<subseteq> set ins0 \<and> complete_inputs user files ?l ins0 ins1 \<and> (?l = 0 \<longrightarrow> level0_closed user files ins0)"
    using expand_inputs [OF assms(1) i(3) [folded inputs1_def]] by metis
  obtain ins0 ins1 where ins: "(case r of None \<Rightarrow> (inputs0, inputs1) | Some x \<Rightarrow> x) = (ins0, ins1)" by fastforce
  have "level0_closed user files inputs0" if "?l = 0"
    using closed_no_boundary [of files "c_inputs0 c"] assms i(1) that by simp
  then have ok: "set (c_inputs0 c) \<subseteq> set ins0" "complete_inputs user files ?l ins0 ins1" "?l = 0 \<longrightarrow> level0_closed user files ins0"
    using ins r(2) i(2,3) by (cases r; auto simp: inputs1_def)+
  obtain gps where gps: "(if ?l + 2 < kNumLevels then GetOverlappingInputs user files (?l + 2) (Some (fst (GetRange2 user ins0 ins1))) (Some (snd (GetRange2 user ins0 ins1)))
      else Some (grandparents c)) = Some gps" using overlapping_inputs_some by (metis (full_types))
  have "SetupOtherInputs user max_file_size files compact_pointer c =
      Some (c\<lparr>c_inputs0 := ins0, c_inputs1 := ins1, grandparents := gps, c_edit := SetCompactPointer (int ?l) (snd (GetRange user ins0)) (c_edit c)\<rparr>,
        compact_pointer[?l := snd (GetRange user ins0)])"
    by (simp only: SetupOtherInputs_def Let_def split_beta i(1) g1 r(1) ins fst_conv snd_conv gps Option.bind.bind_lunit)
  then show ?thesis using ok by (simp add: good_compaction_def)
qed

section \<open>The base level of a key\<close>

abbreviation passed :: "slice \<Rightarrow> file_meta list \<Rightarrow> nat \<Rightarrow> bool" where
  "passed k level_files p \<equiv> p \<le> length level_files \<and> (\<forall>i<p. Compare user (largest_user_key (level_files ! i)) k < 0)"

lemma base_scan_step:
  assumes "level_sorted user fs" "passed k fs p"
  shows "\<exists>p'. base_scan user k fs p = (p', \<exists>f\<in>set fs. overlaps user (Some k) (Some k) f) \<and> passed k fs p'"
  using assms(2)
proof (induction "length fs - p" arbitrary: p)
  case 0
  then have p: "p = length fs" by simp
  then have "\<not> overlaps user (Some k) (Some k) f" if "f \<in> set fs" for f
    using "0.prems" that cmp_swap [of "largest_user_key f" k] by (auto simp: overlaps_def in_set_conv_nth)
  then show ?case using p "0.prems" by (subst base_scan.simps) auto
next
  case (Suc n)
  then have p: "p < length fs" by simp
  show ?case
  proof (cases "Compare user k (largest_user_key (fs ! p)) \<le> 0")
    case True
    have "(\<exists>f\<in>set fs. overlaps user (Some k) (Some k) f) \<longleftrightarrow> Compare user (smallest_user_key (fs ! p)) k \<le> 0"
    proof
      assume "\<exists>f\<in>set fs. overlaps user (Some k) (Some k) f"
      then obtain j where j: "j < length fs" "overlaps user (Some k) (Some k) (fs ! j)" by (auto simp: in_set_conv_nth)
      have "\<not> Compare user (largest_user_key (fs ! j)) k < 0" using j(2) cmp_swap [of "largest_user_key (fs ! j)" k] by (auto simp: overlaps_def)
      then have "p \<le> j" using Suc.prems by (meson not_less)
      from level_sorted_smallest [OF assms(1) this j(1)] show "Compare user (smallest_user_key (fs ! p)) k \<le> 0"
        using j(2) user_trans by (auto simp: overlaps_def)
    next
      assume "Compare user (smallest_user_key (fs ! p)) k \<le> 0"
      then show "\<exists>f\<in>set fs. overlaps user (Some k) (Some k) f" using True p by (intro bexI [of _ "fs ! p"]) (auto simp: overlaps_def)
    qed
    moreover have "Compare user (smallest_user_key (fs ! p)) k \<le> 0 \<longleftrightarrow> Compare user k (smallest_user_key (fs ! p)) \<ge> 0"
      using cmp_swap [of k "smallest_user_key (fs ! p)"] by auto
    ultimately show ?thesis using True p Suc.prems by (subst base_scan.simps) (auto simp: Let_def)
  next
    case False
    then have "Compare user (largest_user_key (fs ! p)) k < 0" using cmp_swap by auto
    then have "passed k fs (p + 1)" using Suc.prems p by (auto simp: less_Suc_eq)
    from Suc.hyps(1) [OF _ this] Suc.hyps(2) p False show ?thesis by (subst base_scan.simps) (simp add: Let_def)
  qed
qed

lemma base_levels_step:
  assumes "\<forall>l\<in>set lvls. level_sorted user (files ! l)" "\<forall>l\<in>L. passed k (files ! l) (ptrs ! l)" "set lvls \<subseteq> L" "\<forall>l\<in>L. l < length ptrs" "distinct lvls"
  shows "\<exists>ptrs'. base_levels user k files ptrs lvls = (ptrs', \<not> (\<exists>l\<in>set lvls. \<exists>f\<in>set (files ! l). overlaps user (Some k) (Some k) f)) \<and>
    length ptrs' = length ptrs \<and> (\<forall>l\<in>L. passed k (files ! l) (ptrs' ! l))"
  using assms
proof (induction lvls arbitrary: ptrs)
  case (Cons l lvls)
  obtain p where p: "base_scan user k (files ! l) (ptrs ! l) = (p, \<exists>f\<in>set (files ! l). overlaps user (Some k) (Some k) f)" "passed k (files ! l) p"
    using base_scan_step [where fs = "files ! l" and k = k and p = "ptrs ! l"] Cons.prems(1-3) by auto
  have ok: "\<forall>j\<in>L. passed k (files ! j) (ptrs[l := p] ! j)"
  proof
    fix j assume "j \<in> L"
    then show "passed k (files ! j) (ptrs[l := p] ! j)" using Cons.prems(2,4) p(2) by (cases "j = l") simp_all
  qed
  from Cons.IH [OF _ ok] Cons.prems obtain ptrs' where
    r: "base_levels user k files (ptrs[l := p]) lvls = (ptrs', \<not> (\<exists>l\<in>set lvls. \<exists>f\<in>set (files ! l). overlaps user (Some k) (Some k) f))"
    "length ptrs' = length ptrs" "\<forall>l\<in>L. passed k (files ! l) (ptrs' ! l)" by auto
  show ?case
  proof (cases "\<exists>f\<in>set (files ! l). overlaps user (Some k) (Some k) f")
    case True
    then have "base_levels user k files ptrs (l # lvls) = (ptrs[l := p], False)" using p(1) by simp
    then show ?thesis using True ok by (intro exI [of _ "ptrs[l := p]"]) auto
  next
    case False
    then have "base_levels user k files ptrs (l # lvls) = base_levels user k files (ptrs[l := p]) lvls" using p(1) by simp
    then show ?thesis using False r by auto
  qed
qed auto

lemma base_answers:
  assumes "\<forall>l\<in>{c_level c + 2..<kNumLevels}. level_sorted user (c_input_files c ! l)" "sorted_wrt (\<lambda>a b. Compare user a b \<le> 0) ks"
    and "length (level_ptrs c) = kNumLevels" "\<forall>k\<in>set ks. \<forall>l\<in>{c_level c + 2..<kNumLevels}. passed k (c_input_files c ! l) (level_ptrs c ! l)"
  shows "base_answers user ks c = map (\<lambda>k. \<not> (\<exists>l\<in>{c_level c + 2..<kNumLevels}. \<exists>f\<in>set (c_input_files c ! l). overlaps user (Some k) (Some k) f)) ks"
  using assms
proof (induction ks arbitrary: c)
  case (Cons k ks)
  let ?L = "{c_level c + 2..<kNumLevels}"
  obtain ptrs where p: "base_levels user k (c_input_files c) (level_ptrs c) [c_level c + 2..<kNumLevels] =
      (ptrs, \<not> (\<exists>l\<in>?L. \<exists>f\<in>set (c_input_files c ! l). overlaps user (Some k) (Some k) f))"
    "length ptrs = kNumLevels" "\<forall>l\<in>?L. passed k (c_input_files c ! l) (ptrs ! l)"
    using base_levels_step [where lvls = "[c_level c + 2..<kNumLevels]" and files = "c_input_files c" and L = ?L and k = k and ptrs = "level_ptrs c"] Cons.prems by auto
  have "\<forall>k'\<in>set ks. \<forall>l\<in>?L. passed k' (c_input_files c ! l) (ptrs ! l)"
    using p(3) Cons.prems(2) cmp_less_le [of _ k] by fastforce
  then have "base_answers user ks (c\<lparr>level_ptrs := ptrs\<rparr>) =
      map (\<lambda>k. \<not> (\<exists>l\<in>?L. \<exists>f\<in>set (c_input_files c ! l). overlaps user (Some k) (Some k) f)) ks"
    using Cons.IH [of "c\<lparr>level_ptrs := ptrs\<rparr>"] Cons.prems p(2) by simp
  then show ?case using p(1) by (simp add: IsBaseLevelForKey_def)
qed simp

section \<open>Picked compactions\<close>

lemma set_limit_inputs: "set (limit_inputs limit tot fs) \<subseteq> set fs"
  by (induction limit tot fs rule: limit_inputs.induct) (auto simp: Let_def)

lemma limit_inputs_Nil: "limit_inputs limit tot fs = [] \<longleftrightarrow> fs = []"
  by (cases fs) (simp_all add: Let_def)

lemma compaction_from:
  assumes "\<forall>f\<in>set (files ! level). internal_Compare user (fm_smallest f) (fm_largest f) \<le> 0" "inputs \<noteq> []" "set inputs \<subseteq> set (files ! level)"
    and "level = 0 \<Longrightarrow> level0_closed user files inputs"
  shows "\<exists>c cp. SetupOtherInputs user max_file_size files compact_pointer ((Compaction max_file_size level files)\<lparr>c_inputs0 := inputs\<rparr>) = Some (c, cp) \<and>
    set inputs \<subseteq> set (c_inputs0 c) \<and> good_compaction user files c"
  using setup_inputs [of files "(Compaction max_file_size level files)\<lparr>c_inputs0 := inputs\<rparr>" max_file_size compact_pointer] assms
  by (auto simp: Compaction_def)

lemma compact_range:
  assumes "\<forall>f\<in>set (files ! level). internal_Compare user (fm_smallest f) (fm_largest f) \<le> 0"
  shows "\<exists>r. CompactRange user max_file_size files compact_pointer level b e = Some r \<and> (\<forall>c cp. r = Some (c, cp) \<longrightarrow> good_compaction user files c)"
proof -
  obtain inputs where i: "GetOverlappingInputs user files level b e = Some inputs" using overlapping_inputs_some by blast
  define ins where "ins = (if level > 0 then limit_inputs (MaxFileSizeForLevel max_file_size level) 0 inputs else inputs)"
  show ?thesis
  proof (cases "inputs = []")
    case True
    then show ?thesis by (simp add: CompactRange_def i)
  next
    case False
    have "set inputs \<subseteq> set (files ! level)" using i overlapping_loop [of 0 "files ! level" "[]" "map_option ExtractUserKey b" "map_option ExtractUserKey e" "level = 0"]
      unfolding GetOverlappingInputs_def by auto
    then have "set ins \<subseteq> set (files ! level)" using set_limit_inputs [of _ 0 inputs] by (auto simp: ins_def)
    moreover have "ins \<noteq> []" using False by (simp add: ins_def limit_inputs_Nil)
    moreover have "level0_closed user files ins" if "level = 0" using overlapping_closed [of files b e inputs] i False that by (simp add: ins_def)
    ultimately obtain c cp where "SetupOtherInputs user max_file_size files compact_pointer ((Compaction max_file_size level files)\<lparr>c_inputs0 := ins\<rparr>) = Some (c, cp)"
      "good_compaction user files c" using compaction_from [OF assms] by blast
    then show ?thesis using False by (simp add: CompactRange_def i ins_def [symmetric])
  qed
qed

lemma pick_compaction:
  assumes F: "\<forall>f\<in>set (files ! level). internal_Compare user (fm_smallest f) (fm_largest f) \<le> 0"
    and P: "(case size_compaction of Some level \<Rightarrow> Some (level, first_after_pointer user (compact_pointer ! level) (files ! level))
      | None \<Rightarrow> map_option (\<lambda>(f, level). (level, [f])) seek_compaction) = Some (level, [f])" and f: "f \<in> set (files ! level)"
  shows "\<exists>c cp. PickCompaction user max_file_size files compact_pointer size_compaction seek_compaction = Some (Some (c, cp)) \<and>
    f \<in> set (c_inputs0 c) \<and> good_compaction user files c"
proof -
  obtain inputs where i: "GetOverlappingInputs user files 0 (Some (fst (GetRange user [f]))) (Some (snd (GetRange user [f]))) = Some inputs"
    using overlapping_inputs_some by blast
  define ins where "ins = (if level = 0 then inputs else [f])"
  have "f \<in> set ins" "set ins \<subseteq> set (files ! level)" "level = 0 \<Longrightarrow> level0_closed user files ins"
  proof -
    have o: "overlaps user (map_option ExtractUserKey (Some (fst (GetRange user [f])))) (map_option ExtractUserKey (Some (snd (GetRange user [f])))) f"
      using range_overlaps [of f "[f]"] F f by simp
    show "f \<in> set ins" "set ins \<subseteq> set (files ! level)" using overlapping_contains [OF _ o i] f by (auto simp: ins_def)
    then have "ins \<noteq> []" by auto
    then show "level0_closed user files ins" if "level = 0" using overlapping_closed [OF i] that by (simp add: ins_def)
  qed
  with compaction_from [OF F, of ins] obtain c cp where
    "SetupOtherInputs user max_file_size files compact_pointer ((Compaction max_file_size level files)\<lparr>c_inputs0 := ins\<rparr>) = Some (c, cp)"
    "f \<in> set (c_inputs0 c)" "good_compaction user files c" by fastforce
  then show ?thesis unfolding PickCompaction_def P Let_def by (simp add: i split_beta ins_def split: if_splits)
qed

lemma first_after_pointer_file:
  assumes "fs \<noteq> []"
  obtains f where "first_after_pointer user pointer fs = [f]" "f \<in> set fs"
proof (cases "List.find (\<lambda>f. pointer = [] \<or> internal_Compare user (fm_largest f) pointer > 0) fs")
  case None
  then show thesis using assms by (intro that [of "fs ! 0"]) (simp_all add: first_after_pointer_def)
next
  case (Some f)
  moreover from Some have "f \<in> set fs" by (auto simp: find_Some_iff)
  ultimately show thesis by (intro that [of f]) (simp_all add: first_after_pointer_def)
qed

end

section \<open>Properties\<close>





end
