(* ===== verification/Ldb_Version_Set.thy ===== *)
theory Ldb_Version_Set
  imports Ldb_Version
begin

text \<open>
  The set of versions, \<^verbatim>\<open>leveldb-library/db/version_set.cc\<close>: \<^verbatim>\<open>VersionSet::Builder\<close>, which applies edits to the files of a
  version, \<^verbatim>\<open>LogAndApply\<close>, which also writes them to the manifest, and \<^verbatim>\<open>Recover\<close>, which builds the version from the records of
  a manifest. Reference counts and the list of old versions are not followed.
\<close>

section \<open>Builder\<close>

definition BySmallestKey :: "comparator \<Rightarrow> file_meta \<Rightarrow> file_meta \<Rightarrow> bool" where
  "BySmallestKey user f1 f2 =
     (let r = internal_Compare user (fm_smallest f1) (fm_smallest f2)
      in if r \<noteq> 0 then r < 0 else fm_number f1 < fm_number f2)"

text \<open>A \<^verbatim>\<open>std::set\<close> of files is the list in the order in which it is traversed.\<close>

fun set_insert :: "('a \<Rightarrow> 'a \<Rightarrow> bool) \<Rightarrow> 'a \<Rightarrow> 'a list \<Rightarrow> 'a list" where
  "set_insert lt x [] = [x]"
| "set_insert lt x (y # ys) = (if lt x y then x # y # ys else if lt y x then y # set_insert lt x ys else y # ys)"

record level_state =
  ls_deleted :: "u64 set"
  ls_added :: "file_meta list"

definition Builder :: "level_state list" where
  "Builder = replicate kNumLevels \<lparr>ls_deleted = {}, ls_added = []\<rparr>"

definition prepare_file :: "file_meta \<Rightarrow> file_meta" where
  "prepare_file f =
     (let n = sint (ucast (fm_file_size f div 16384) :: 32 word)
      in f\<lparr>fm_refs := 1, fm_allowed_seeks := if n < 100 then 100 else n\<rparr>)"

definition delete_number :: "u64 \<Rightarrow> level_state \<Rightarrow> level_state" where
  "delete_number n ls = ls\<lparr>ls_deleted := insert n (ls_deleted ls)\<rparr>"

definition add_file :: "comparator \<Rightarrow> file_meta \<Rightarrow> level_state \<Rightarrow> level_state" where
  "add_file user f ls =
     ls\<lparr>ls_deleted := ls_deleted ls - {fm_number f}, ls_added := set_insert (BySmallestKey user) (prepare_file f) (ls_added ls)\<rparr>"

definition at_levels :: "('x \<Rightarrow> 'l \<Rightarrow> 'l) \<Rightarrow> (int \<times> 'x) list \<Rightarrow> 'l list \<Rightarrow> 'l list" where
  "at_levels step items levels = foldl (\<lambda>ls (level, x). ls[nat level := step x (ls ! nat level)]) levels items"

text \<open>The compaction pointers belong to the set of versions, and \<^verbatim>\<open>Apply\<close> sets them.\<close>

definition Apply :: "comparator \<Rightarrow> version_edit \<Rightarrow> byte list list \<times> level_state list \<Rightarrow> byte list list \<times> level_state list" where
  "Apply user edit b =
     (at_levels (\<lambda>key _. key) (compact_pointers edit) (fst b),
      at_levels (add_file user) (new_files edit) (at_levels delete_number (deleted_files edit) (snd b)))"

fun merge_files :: "comparator \<Rightarrow> file_meta list \<Rightarrow> file_meta list \<Rightarrow> file_meta list" where
  "merge_files user base [] = base"
| "merge_files user base (a # added) =
     (let before = takeWhile (\<lambda>b. \<not> BySmallestKey user a b) base
      in before @ a # merge_files user (drop (length before) base) added)"

definition save_level :: "comparator \<Rightarrow> file_meta list \<Rightarrow> level_state \<Rightarrow> file_meta list" where
  "save_level user base ls = filter (\<lambda>f. fm_number f \<notin> ls_deleted ls) (merge_files user base (ls_added ls))"

definition SaveTo :: "comparator \<Rightarrow> file_meta list list \<Rightarrow> level_state list \<Rightarrow> file_meta list list" where
  "SaveTo user base levels = map (\<lambda>l. save_level user (base ! l) (levels ! l)) [0..<kNumLevels]"

section \<open>VersionSet\<close>

text \<open>\<open>vs_manifest\<close> has the records that were written to the manifest, and is \<open>None\<close> while there is none.\<close>

record version_set =
  vs_files :: "file_meta list list"
  vs_compact_pointer :: "byte list list"
  vs_next_file_number :: u64
  vs_manifest_file_number :: u64
  vs_last_sequence :: SequenceNumber
  vs_log_number :: u64
  vs_prev_log_number :: u64
  vs_manifest :: "byte list list option"

definition VersionSet :: version_set where
  "VersionSet =
     \<lparr>vs_files = replicate kNumLevels [], vs_compact_pointer = replicate kNumLevels [], vs_next_file_number = 2, vs_manifest_file_number = 0,
      vs_last_sequence = 0, vs_log_number = 0, vs_prev_log_number = 0, vs_manifest = None\<rparr>"

definition MarkFileNumberUsed :: "u64 \<Rightarrow> version_set \<Rightarrow> version_set" where
  "MarkFileNumberUsed number vs =
     (if vs_next_file_number vs \<le> number then vs\<lparr>vs_next_file_number := number + 1\<rparr> else vs)"

subsection \<open>LogAndApply\<close>

definition snapshot_edit :: "comparator \<Rightarrow> version_set \<Rightarrow> version_edit" where
  "snapshot_edit user vs =
     (let e1 = SetComparatorName (cmp_Name user) VersionEdit;
          e2 = foldl (\<lambda>e level. if vs_compact_pointer vs ! level \<noteq> [] then SetCompactPointer (int level) (vs_compact_pointer vs ! level) e else e)
                 e1 [0..<kNumLevels]
      in foldl (\<lambda>e level. foldl (\<lambda>e f. AddFile (int level) (fm_number f) (fm_file_size f) (fm_smallest f) (fm_largest f) e) e (vs_files vs ! level))
           e2 [0..<kNumLevels])"

definition WriteSnapshot :: "comparator \<Rightarrow> version_set \<Rightarrow> byte list" where
  "WriteSnapshot user vs = ve_EncodeTo (snapshot_edit user vs) []"

text \<open>What the calls that touch files return.\<close>

record manifest_io =
  io_open :: status
  io_snapshot :: status
  io_add :: status
  io_sync :: status
  io_current :: status

definition complete_edit :: "version_set \<Rightarrow> version_edit \<Rightarrow> version_edit" where
  "complete_edit vs edit =
     (let e1 = (if has_log_number edit then edit else SetLogNumber (vs_log_number vs) edit);
          e2 = (if \<not> has_prev_log_number e1 then SetPrevLogNumber (vs_prev_log_number vs) e1 else e1)
      in SetLastSequence (vs_last_sequence vs) (SetNextFile (vs_next_file_number vs) e2))"

definition LogAndApply :: "comparator \<Rightarrow> manifest_io \<Rightarrow> version_edit \<Rightarrow> version_set \<Rightarrow> status \<times> version_set" where
  "LogAndApply user io edit vs =
     (let edit1 = complete_edit vs edit;
          (cp, levels) = Apply user edit1 (vs_compact_pointer vs, Builder);
          v = SaveTo user (vs_files vs) levels;
          vs1 = vs\<lparr>vs_compact_pointer := cp\<rparr>;
          new_manifest = (vs_manifest vs = None);
          (s0, m0) =
            (if new_manifest then
               if status_ok (io_open io) then
                 (io_snapshot io, if status_ok (io_snapshot io) then [WriteSnapshot user vs1] else [])
               else (io_open io, [])
             else (OK, the (vs_manifest vs)));
          (s1, m1) =
            (if status_ok s0 then
               if status_ok (io_add io) then (io_sync io, m0 @ [ve_EncodeTo edit1 []]) else (io_add io, m0)
             else (s0, m0));
          s2 = (if status_ok s1 \<and> new_manifest then io_current io else s1)
      in if status_ok s2 then
           (s2, vs1\<lparr>vs_files := v, vs_log_number := ve_log_number edit1, vs_prev_log_number := ve_prev_log_number edit1, vs_manifest := Some m1\<rparr>)
         else (s2, vs1\<lparr>vs_manifest := if new_manifest then None else Some m1\<rparr>))"

subsection \<open>Recover\<close>

record recover_edits =
  re_status :: status
  re_builder :: "byte list list \<times> level_state list"
  re_log_number :: "u64 option"
  re_prev_log_number :: "u64 option"
  re_next_file :: "u64 option"
  re_last_sequence :: "SequenceNumber option"

definition recover_edit :: "comparator \<Rightarrow> byte list \<Rightarrow> recover_edits \<Rightarrow> recover_edits" where
  "recover_edit user rec st =
     (let (s, edit) = ve_DecodeFrom rec VersionEdit;
          s1 = (if status_ok s \<and> has_comparator edit \<and> ve_comparator edit \<noteq> cmp_Name user then
                  InvalidArgument (ve_comparator edit @ cstr '' does not match existing comparator '') (cmp_Name user)
                else s)
      in st\<lparr>re_status := s1, re_builder := if status_ok s1 then Apply user edit (re_builder st) else re_builder st,
           re_log_number := if has_log_number edit then Some (ve_log_number edit) else re_log_number st,
           re_prev_log_number := if has_prev_log_number edit then Some (ve_prev_log_number edit) else re_prev_log_number st,
           re_next_file := if has_next_file_number edit then Some (ve_next_file_number edit) else re_next_file st,
           re_last_sequence := if has_last_sequence edit then Some (ve_last_sequence edit) else re_last_sequence st\<rparr>)"

primrec recover_edits_loop :: "comparator \<Rightarrow> byte list list \<Rightarrow> recover_edits \<Rightarrow> recover_edits" where
  "recover_edits_loop user [] st = st"
| "recover_edits_loop user (r # rs) st =
     (if status_ok (re_status st) then recover_edits_loop user rs (recover_edit user r st) else st)"

text \<open>The records are those that the reader of the manifest returns, if it reports no corruption.\<close>

definition vs_Recover :: "comparator \<Rightarrow> byte list list \<Rightarrow> version_set \<Rightarrow> status \<times> version_set" where
  "vs_Recover user records vs =
     (let st = recover_edits_loop user records
            \<lparr>re_status = OK, re_builder = (vs_compact_pointer vs, Builder), re_log_number = None, re_prev_log_number = None,
             re_next_file = None, re_last_sequence = None\<rparr>;
          vs1 = vs\<lparr>vs_compact_pointer := fst (re_builder st)\<rparr>
      in if \<not> status_ok (re_status st) then (re_status st, vs1)
         else
           let s = (if re_next_file st = None then Corruption (cstr ''no meta-nextfile entry in descriptor'') []
                    else if re_log_number st = None then Corruption (cstr ''no meta-lognumber entry in descriptor'') []
                    else if re_last_sequence st = None then Corruption (cstr ''no last-sequence-number entry in descriptor'') []
                    else OK);
               prev_log_number = (case re_prev_log_number st of Some n \<Rightarrow> n | None \<Rightarrow> 0);
               log_number = (case re_log_number st of Some n \<Rightarrow> n | None \<Rightarrow> 0);
               vs2 = MarkFileNumberUsed log_number (MarkFileNumberUsed prev_log_number vs1)
           in if status_ok s then
                (s, vs2\<lparr>vs_files := SaveTo user (vs_files vs) (snd (re_builder st)), vs_manifest_file_number := the (re_next_file st),
                       vs_next_file_number := the (re_next_file st) + 1, vs_last_sequence := the (re_last_sequence st),
                       vs_log_number := log_number, vs_prev_log_number := prev_log_number\<rparr>)
              else (s, vs2))"

section \<open>One level\<close>

lemma length_at_levels [simp]: "length (at_levels step items ls) = length ls"
proof -
  have "length (foldl (\<lambda>ls (level, x). ls[nat level := step x (ls ! nat level)]) ls items) = length ls"
    by (induction items arbitrary: ls) (auto split: prod.splits)
  then show ?thesis by (simp add: at_levels_def)
qed

abbreviation items_at :: "nat \<Rightarrow> (int \<times> 'x) list \<Rightarrow> 'x list" where
  "items_at l items \<equiv> map snd (filter (\<lambda>i. nat (fst i) = l) items)"

lemma at_levels_nth: "l < length ls \<Longrightarrow> at_levels step items ls ! l = foldl (\<lambda>s x. step x s) (ls ! l) (items_at l items)"
  unfolding at_levels_def
proof (induction items arbitrary: ls)
  case (Cons i items)
  then show ?case by (cases i) (auto simp: nth_list_update)
qed simp

lemma sorted_unique:
  assumes "\<And>x. \<not> lt x x" "\<And>x y z. lt x y \<Longrightarrow> lt y z \<Longrightarrow> lt x z" "sorted_wrt lt xs" "sorted_wrt lt ys" "set xs = set ys"
  shows "xs = ys"
  using assms(3-5)
proof (induction xs arbitrary: ys)
  case (Cons x xs)
  then obtain y ys' where ys: "ys = y # ys'" by (cases ys) auto
  have "x = y"
  proof (rule ccontr)
    assume "x \<noteq> y"
    then have "x \<in> set ys'" "y \<in> set xs" using Cons.prems(3) ys by auto
    then have "lt y x" "lt x y" using Cons.prems(1,2) ys by auto
    then show False using assms(1,2) by blast
  qed
  moreover have "x \<notin> set xs" "y \<notin> set ys'" using Cons.prems(1,2) ys assms(1) by auto
  ultimately have "set xs = set ys'" using Cons.prems(3) ys by auto
  then show ?case using Cons ys \<open>x = y\<close> by auto
qed simp

lemma prepare_number [simp]: "fm_number (prepare_file f) = fm_number f"
  by (simp add: prepare_file_def Let_def)

context user_comparator
begin

abbreviation lt :: "file_meta \<Rightarrow> file_meta \<Rightarrow> bool" where
  "lt \<equiv> BySmallestKey user"

lemma lt_irrefl: "\<not> lt f f"
  by (simp add: BySmallestKey_def Let_def internal_eq cmp_self)

lemma lt_total: "fm_number f \<noteq> fm_number g \<Longrightarrow> \<not> lt f g \<Longrightarrow> lt g f"
  using internal_swap [of "fm_smallest f" "fm_smallest g"] internal_swap [of "fm_smallest g" "fm_smallest f"]
  by (auto simp: BySmallestKey_def Let_def split: if_splits)

lemma internal_eq_trans: "internal_Compare user a b = 0 \<Longrightarrow> internal_Compare user b c = 0 \<Longrightarrow> internal_Compare user a c = 0"
  using cmp_eq_trans [of "ExtractUserKey a" "ExtractUserKey b" "ExtractUserKey c"] by (auto simp: internal_eq)

lemma lt_trans:
  assumes "lt f g" "lt g h"
  shows "lt f h"
proof -
  let ?c = "\<lambda>a b. internal_Compare user (fm_smallest a) (fm_smallest b)"
  have "?c f g < 0 \<or> ?c f g = 0 \<and> fm_number f < fm_number g" "?c g h < 0 \<or> ?c g h = 0 \<and> fm_number g < fm_number h"
    using assms by (auto simp: BySmallestKey_def Let_def split: if_splits)
  then have "?c f h < 0 \<or> ?c f h = 0 \<and> fm_number f < fm_number h"
    using internal_less_le [of "fm_smallest f" "fm_smallest g" "fm_smallest h"] internal_le_less [of "fm_smallest f" "fm_smallest g" "fm_smallest h"]
      internal_eq_trans [of "fm_smallest f" "fm_smallest g" "fm_smallest h"] by (auto dest: less_trans)
  then show ?thesis by (auto simp: BySmallestKey_def Let_def)
qed

lemma set_insert_file:
  assumes "sorted_wrt lt fs" "fm_number f \<notin> fm_number ` set fs"
  shows "sorted_wrt lt (set_insert lt f fs) \<and> set (set_insert lt f fs) = insert f (set fs)"
  using assms
proof (induction fs)
  case (Cons g fs)
  then show ?case using lt_total [of f g] lt_trans by auto
qed simp

lemma merge_sorted:
  assumes "sorted_wrt lt base" "sorted_wrt lt added" "fm_number ` set base \<inter> fm_number ` set added = {}"
  shows "sorted_wrt lt (merge_files user base added) \<and> set (merge_files user base added) = set base \<union> set added"
  using assms
proof (induction added arbitrary: base)
  case (Cons a added)
  note \<open>sorted_wrt lt base\<close>
  define low where "low = takeWhile (\<lambda>b. \<not> lt a b) base"
  define high where "high = drop (length low) base"
  have high: "high = dropWhile (\<lambda>b. \<not> lt a b) base" by (simp add: high_def low_def dropWhile_eq_drop)
  have base: "base = low @ high" by (simp add: low_def high)
  have l: "lt b a" if "b \<in> set low" for b
  proof -
    have "b \<in> set base" "\<not> lt a b" using set_takeWhileD that unfolding low_def by fast+
    then show ?thesis using Cons.prems(3) by (intro lt_total) auto
  qed
  have h: "lt a b" if "b \<in> set high" for b
  proof (cases high)
    case (Cons c cs)
    have "lt a c" using Cons high dropWhile_eq_Cons_conv [of "\<lambda>b. \<not> lt a b" base c cs] by simp
    moreover have "sorted_wrt lt high" using \<open>sorted_wrt lt base\<close> base by (simp add: sorted_wrt_append)
    ultimately show ?thesis using that Cons lt_trans by auto
  qed (use that in simp)
  have IH: "sorted_wrt lt (merge_files user high added) \<and> set (merge_files user high added) = set high \<union> set added"
    by (rule Cons.IH) (use Cons.prems base in \<open>auto simp: sorted_wrt_append\<close>)
  have "merge_files user base (a # added) = low @ a # merge_files user high added" by (simp add: low_def high_def Let_def)
  moreover have up: "lt a c" if "c \<in> set high \<union> set added" for c using that h Cons.prems(2) by auto
  moreover have "lt b c" if "b \<in> set low" "c \<in> set high \<union> set added" for b c using lt_trans [OF l [OF that(1)] up [OF that(2)]] .
  moreover have "sorted_wrt lt low" using Cons.prems(1) base by (simp add: sorted_wrt_append)
  ultimately show ?case using IH l by (simp add: sorted_wrt_append base) blast
qed simp

text \<open>The files that a level has.\<close>

definition kept :: "file_meta list \<Rightarrow> level_state \<Rightarrow> file_meta set" where
  "kept base ls = {f \<in> set base \<union> set (ls_added ls). fm_number f \<notin> ls_deleted ls}"

definition state_ok :: "file_meta list \<Rightarrow> level_state \<Rightarrow> bool" where
  "state_ok base ls \<longleftrightarrow> sorted_wrt lt base \<and> sorted_wrt lt (ls_added ls) \<and> fm_number ` set base \<inter> fm_number ` set (ls_added ls) = {}"

lemma save_level:
  assumes "state_ok base ls"
  shows "sorted_wrt lt (save_level user base ls)" "set (save_level user base ls) = kept base ls"
  using merge_sorted [of base "ls_added ls"] assms by (auto simp: save_level_def kept_def state_ok_def sorted_wrt_filter)

abbreviation apply_level :: "u64 list \<Rightarrow> file_meta list \<Rightarrow> level_state \<Rightarrow> level_state" where
  "apply_level dels adds ls \<equiv> foldl (\<lambda>s f. add_file user f s) (foldl (\<lambda>s n. delete_number n s) ls dels) adds"

lemma delete_numbers: "foldl (\<lambda>s n. delete_number n s) ls dels = ls\<lparr>ls_deleted := ls_deleted ls \<union> set dels\<rparr>"
  by (induction dels arbitrary: ls) (simp_all add: delete_number_def Un_insert_left [symmetric] del: Un_insert_left)

lemma add_files:
  assumes "state_ok base ls" "distinct (map fm_number adds)" "fm_number ` set adds \<inter> fm_number ` (set base \<union> set (ls_added ls)) = {}"
  defines "ls' \<equiv> foldl (\<lambda>s f. add_file user f s) ls adds"
  shows "state_ok base ls' \<and> fm_number ` set (ls_added ls') = fm_number ` set (ls_added ls) \<union> fm_number ` set adds \<and>
    kept base ls' = kept base ls \<union> prepare_file ` set adds"
  using assms(1-3) unfolding ls'_def
proof (induction adds arbitrary: ls)
  case (Cons f adds)
  have ins: "sorted_wrt lt (set_insert lt (prepare_file f) (ls_added ls)) \<and>
      set (set_insert lt (prepare_file f) (ls_added ls)) = insert (prepare_file f) (set (ls_added ls))"
    by (rule set_insert_file) (use Cons.prems in \<open>auto simp: state_ok_def\<close>)
  have ok: "state_ok base (add_file user f ls)" using Cons.prems(1,3) ins by (auto simp: state_ok_def add_file_def)
  have "fm_number x \<noteq> fm_number f" if "x \<in> set base \<union> set (ls_added ls)" for x using imageI [OF that, of fm_number] Cons.prems(3) by auto
  then have "kept base (add_file user f ls) = insert (prepare_file f) (kept base ls)"
    using ins by (auto simp: kept_def add_file_def)
  with Cons.IH [OF ok] Cons.prems ins show ?case by (auto simp: add_file_def)
qed simp

lemma apply_level:
  assumes "state_ok base ls" "distinct (map fm_number adds)" "fm_number ` set adds \<inter> fm_number ` (set base \<union> set (ls_added ls)) = {}"
  shows "state_ok base (apply_level dels adds ls)"
    and "fm_number ` set (ls_added (apply_level dels adds ls)) = fm_number ` set (ls_added ls) \<union> fm_number ` set adds"
    and "kept base (apply_level dels adds ls) = {f \<in> kept base ls. fm_number f \<notin> set dels} \<union> prepare_file ` set adds"
  using add_files [of base "ls\<lparr>ls_deleted := ls_deleted ls \<union> set dels\<rparr>" adds] assms unfolding delete_numbers
  by (auto simp: state_ok_def kept_def)

text \<open>Edits that are applied one after the other give what one builder gives that applies them all.\<close>

lemma apply_again:
  assumes "state_ok [] ls" "distinct (map fm_number adds)" "fm_number ` set adds \<inter> fm_number ` set (ls_added ls) = {}"
  shows "save_level user (save_level user [] ls) (apply_level dels adds \<lparr>ls_deleted = {}, ls_added = []\<rparr>) =
    save_level user [] (apply_level dels adds ls)"
proof -
  let ?F = "save_level user [] ls" and ?e = "\<lparr>ls_deleted = {}, ls_added = []\<rparr>"
  note F = save_level [OF assms(1)]
  have e: "state_ok ?F ?e" using F(1) by (simp add: state_ok_def)
  have "fm_number ` set ?F \<subseteq> fm_number ` set (ls_added ls)" unfolding F(2) by (auto simp: kept_def)
  then have fresh: "fm_number ` set adds \<inter> fm_number ` (set ?F \<union> set (ls_added ?e)) = {}" using assms(3) by auto
  note A = apply_level [OF e assms(2) fresh, of dels]
  have fresh': "fm_number ` set adds \<inter> fm_number ` (set [] \<union> set (ls_added ls)) = {}" using assms(3) by simp
  note B = apply_level [OF assms(1,2) fresh', of dels]
  have "kept ?F ?e = kept [] ls" using F(2) by (simp add: kept_def)
  then show ?thesis
    using sorted_unique [of lt, OF lt_irrefl lt_trans] save_level [OF A(1)] save_level [OF B(1)] A(3) B(3) by simp
qed

end

section \<open>Snapshots\<close>

lemma decode_edit:
  assumes "edit_ok e"
  shows "ve_DecodeFrom (ve_EncodeTo e []) VersionEdit = (OK, e)"
  using decode_ops [of "ops_of e"] assms
  by (simp add: ve_DecodeFrom_def ve_EncodeTo_ops fold_ops_of edit_ok_def) (simp add: VersionEdit_def)

definition meta_of :: "file_meta \<Rightarrow> file_meta" where
  "meta_of f = (FileMetaData (fm_number f))\<lparr>fm_file_size := fm_file_size f, fm_smallest := fm_smallest f, fm_largest := fm_largest f\<rparr>"

definition prepared :: "file_meta \<Rightarrow> bool" where
  "prepared f \<longleftrightarrow> prepare_file f = f"

lemma prepare_meta: "prepare_file (meta_of f) = prepare_file f" "fm_number (meta_of f) = fm_number f"
  by (simp_all add: prepare_file_def meta_of_def FileMetaData_def Let_def)

lemma foldl_AddFile:
  "foldl (\<lambda>e f. AddFile level (fm_number f) (fm_file_size f) (fm_smallest f) (fm_largest f) e) e fs = e\<lparr>new_files := new_files e @ map (\<lambda>f. (level, meta_of f)) fs\<rparr>"
  by (induction fs arbitrary: e) (simp_all add: AddFile_def meta_of_def)

lemma foldl_files:
  "foldl (\<lambda>e level. foldl (\<lambda>e f. AddFile (int level) (fm_number f) (fm_file_size f) (fm_smallest f) (fm_largest f) e) e (files ! level)) e ls =
     e\<lparr>new_files := new_files e @ concat (map (\<lambda>l. map (\<lambda>f. (int l, meta_of f)) (files ! l)) ls)\<rparr>"
  by (induction ls arbitrary: e) (simp_all add: foldl_AddFile)

lemma foldl_pointers:
  "foldl (\<lambda>e level. if cp ! level \<noteq> [] then SetCompactPointer (int level) (cp ! level) e else e) e ls =
     e\<lparr>compact_pointers := compact_pointers e @ concat (map (\<lambda>l. map (Pair (int l)) (if cp ! l \<noteq> [] then [cp ! l] else [])) ls)\<rparr>"
  by (induction ls arbitrary: e) (simp_all add: SetCompactPointer_def)

lemma snapshot_fields:
  "snapshot_edit user vs = (SetComparatorName (cmp_Name user) VersionEdit)
     \<lparr>compact_pointers := concat (map (\<lambda>l. map (Pair (int l)) (if vs_compact_pointer vs ! l \<noteq> [] then [vs_compact_pointer vs ! l] else [])) [0..<kNumLevels]),
      new_files := concat (map (\<lambda>l. map (Pair (int l)) (map meta_of (vs_files vs ! l))) [0..<kNumLevels])\<rparr>"
  unfolding snapshot_edit_def Let_def foldl_pointers foldl_files by (simp add: SetComparatorName_def VersionEdit_def o_def)

lemma items_at_levels: "items_at l (concat (map (\<lambda>l. map (Pair (int l)) (xs l)) [0..<n])) = (if l < n then xs l else [])"
  by (induction n) (auto simp: filter_map o_def less_Suc_eq)

text \<open>What can be written to a manifest.\<close>

definition vs_ok :: "comparator \<Rightarrow> version_set \<Rightarrow> bool" where
  "vs_ok user vs \<longleftrightarrow> length (cmp_Name user) < 2 ^ 32 \<and> length (vs_files vs) = kNumLevels \<and> length (vs_compact_pointer vs) = kNumLevels \<and>
     (\<forall>k\<in>set (vs_compact_pointer vs). length k < 2 ^ 32) \<and>
     (\<forall>fs\<in>set (vs_files vs). sorted_wrt (BySmallestKey user) fs \<and> distinct (map fm_number fs) \<and>
        (\<forall>f\<in>set fs. prepared f \<and> length (fm_smallest f) < 2 ^ 32 \<and> length (fm_largest f) < 2 ^ 32))"

lemma snapshot_ok:
  assumes "vs_ok user vs"
  shows "edit_ok (snapshot_edit user vs)"
proof -
  have f: "length (fm_smallest f) < 2 ^ 32 \<and> length (fm_largest f) < 2 ^ 32" if "l < kNumLevels" "f \<in> set (vs_files vs ! l)" for l f
    using assms that nth_mem [of l "vs_files vs"] by (auto simp: vs_ok_def)
  have p: "length (vs_compact_pointer vs ! l) < 2 ^ 32" if "l < kNumLevels" for l using assms that by (auto simp: vs_ok_def)
  have "\<forall>(level, key) \<in> set (compact_pointers (snapshot_edit user vs)). valid_level level \<and> length key < 2 ^ 32"
    using p by (auto simp: snapshot_fields valid_level_def split: if_splits)
  moreover have "\<forall>(level, f) \<in> set (new_files (snapshot_edit user vs)). valid_level level \<and> length (fm_smallest f) < 2 ^ 32 \<and> length (fm_largest f) < 2 ^ 32"
    using f by (auto simp: snapshot_fields valid_level_def meta_of_def)
  moreover have "list_all (\<lambda>(level, f). fm_refs f = 0 \<and> fm_allowed_seeks f = 2 ^ 30) (new_files (snapshot_edit user vs))"
    by (auto simp: snapshot_fields list_all_iff meta_of_def FileMetaData_def)
  ultimately show ?thesis
    using assms unfolding edit_ok_def ops_of_ok by (simp add: snapshot_fields SetComparatorName_def VersionEdit_def vs_ok_def)
qed

lemma complete_edit_fields:
  "edit_ok e \<Longrightarrow> edit_ok (complete_edit vs e)" "new_files (complete_edit vs e) = new_files e" "deleted_files (complete_edit vs e) = deleted_files e"
  "compact_pointers (complete_edit vs e) = compact_pointers e" "has_comparator (complete_edit vs e) = has_comparator e"
  "ve_comparator (complete_edit vs e) = ve_comparator e" "has_log_number (complete_edit vs e)" "has_prev_log_number (complete_edit vs e)"
  "has_next_file_number (complete_edit vs e)" "has_last_sequence (complete_edit vs e)"
  "ve_next_file_number (complete_edit vs e) = vs_next_file_number vs" "ve_last_sequence (complete_edit vs e) = vs_last_sequence vs"
  by (auto simp: complete_edit_def Let_def setter_defs edit_ok_def ops_of_ok)

lemma last_pointer: "foldl (\<lambda>_ x. x) s xs = (if xs = [] then s else last xs)"
  by (induction xs arbitrary: s) auto

lemma pointers_again: "at_levels (\<lambda>key _. key) ps (at_levels (\<lambda>key _. key) ps cp) = at_levels (\<lambda>key _. key) ps cp"
  by (rule nth_equalityI) (simp_all add: at_levels_nth last_pointer)

section \<open>Recovery\<close>

definition recover_start :: "version_set \<Rightarrow> recover_edits" where
  "recover_start vs = \<lparr>re_status = OK, re_builder = (vs_compact_pointer vs, Builder), re_log_number = None, re_prev_log_number = None,
     re_next_file = None, re_last_sequence = None\<rparr>"

lemma recover_loop_snoc:
  "status_ok (re_status (recover_edits_loop user rs st)) \<Longrightarrow>
     recover_edits_loop user (rs @ [r]) st = recover_edit user r (recover_edits_loop user rs st)"
  by (induction rs arbitrary: st) auto

lemma recover_edit_ok:
  assumes "edit_ok e" "has_comparator e \<Longrightarrow> ve_comparator e = cmp_Name user"
  shows "recover_edit user (ve_EncodeTo e []) st =
    st\<lparr>re_status := OK, re_builder := Apply user e (re_builder st),
       re_log_number := if has_log_number e then Some (ve_log_number e) else re_log_number st,
       re_prev_log_number := if has_prev_log_number e then Some (ve_prev_log_number e) else re_prev_log_number st,
       re_next_file := if has_next_file_number e then Some (ve_next_file_number e) else re_next_file st,
       re_last_sequence := if has_last_sequence e then Some (ve_last_sequence e) else re_last_sequence st\<rparr>"
  unfolding recover_edit_def decode_edit [OF assms(1)] using assms(2) by (auto simp: Let_def)

text \<open>New files have numbers that the level has not seen.\<close>

definition fresh_files :: "(nat \<Rightarrow> u64 set) \<Rightarrow> version_edit \<Rightarrow> bool" where
  "fresh_files used e \<longleftrightarrow> (\<forall>l<kNumLevels. distinct (map fm_number (items_at l (new_files e))) \<and>
     fm_number ` set (items_at l (new_files e)) \<inter> used l = {})"

definition use_numbers :: "(nat \<Rightarrow> u64 set) \<Rightarrow> version_edit \<Rightarrow> nat \<Rightarrow> u64 set" where
  "use_numbers used e l = used l \<union> fm_number ` set (items_at l (new_files e))"

text \<open>
  Calls of \<^verbatim>\<open>LogAndApply\<close> that succeed, one after the other; file numbers and sequence numbers are handed out between
  them. \<open>None\<close> is a call that fails.
\<close>

type_synonym log_call = "u64 \<times> SequenceNumber \<times> manifest_io \<times> version_edit"

primrec log_all :: "comparator \<Rightarrow> log_call list \<Rightarrow> version_set \<Rightarrow> version_set option" where
  "log_all user [] vs = Some vs"
| "log_all user (x # xs) vs =
     (case x of (next_file, last_seq, io, edit) \<Rightarrow>
        case LogAndApply user io edit (vs\<lparr>vs_next_file_number := next_file, vs_last_sequence := last_seq\<rparr>) of
          (s, vs1) \<Rightarrow> if status_ok s then log_all user xs vs1 else None)"

primrec all_fresh :: "(nat \<Rightarrow> u64 set) \<Rightarrow> version_edit list \<Rightarrow> bool" where
  "all_fresh used [] = True"
| "all_fresh used (e # es) = (fresh_files used e \<and> all_fresh (use_numbers used e) es)"

definition edit_for :: "comparator \<Rightarrow> version_edit \<Rightarrow> bool" where
  "edit_for user e \<longleftrightarrow> edit_ok e \<and> (has_comparator e \<longrightarrow> ve_comparator e = cmp_Name user)"

lemma LogAndApply_ok:
  assumes "LogAndApply user io edit vs = (s, vs')" "status_ok s"
  defines "e \<equiv> complete_edit vs edit"
  defines "ap \<equiv> Apply user e (vs_compact_pointer vs, Builder)"
  shows "vs' = vs\<lparr>vs_compact_pointer := fst ap, vs_files := SaveTo user (vs_files vs) (snd ap), vs_log_number := ve_log_number e,
    vs_prev_log_number := ve_prev_log_number e,
    vs_manifest := Some ((case vs_manifest vs of None \<Rightarrow> [WriteSnapshot user (vs\<lparr>vs_compact_pointer := fst ap\<rparr>)] | Some m \<Rightarrow> m) @ [ve_EncodeTo e []])\<rparr>"
  using assms(1,2) unfolding LogAndApply_def e_def [symmetric] Let_def ap_def
  by (cases "vs_manifest vs") (auto simp: split_beta split: if_splits)

context user_comparator
begin

text \<open>The builder of the recovery has the files and pointers of the set of versions.\<close>

definition tracks :: "version_set \<Rightarrow> recover_edits \<Rightarrow> (nat \<Rightarrow> u64 set) \<Rightarrow> bool" where
  "tracks vs st used \<longleftrightarrow> re_status st = OK \<and> fst (re_builder st) = vs_compact_pointer vs \<and> length (snd (re_builder st)) = kNumLevels \<and>
     length (vs_files vs) = kNumLevels \<and>
     (\<forall>l<kNumLevels. state_ok [] (snd (re_builder st) ! l) \<and> vs_files vs ! l = save_level user [] (snd (re_builder st) ! l) \<and>
        fm_number ` set (ls_added (snd (re_builder st) ! l)) \<subseteq> used l)"

lemma Apply_level:
  "l < length levels \<Longrightarrow> snd (Apply user e (cp, levels)) ! l = apply_level (items_at l (deleted_files e)) (items_at l (new_files e)) (levels ! l)"
  by (simp add: Apply_def at_levels_nth)

lemma tracks_edit:
  assumes "tracks vs st used" "edit_ok e" "has_comparator e \<Longrightarrow> ve_comparator e = cmp_Name user" "fresh_files used e"
    and "vs_files vs' = SaveTo user (vs_files vs) (snd (Apply user e (vs_compact_pointer vs, Builder)))"
    and "vs_compact_pointer vs' = fst (Apply user e (vs_compact_pointer vs, Builder))"
  shows "tracks vs' (recover_edit user (ve_EncodeTo e []) st) (use_numbers used e)"
proof -
  obtain cp levels where b: "re_builder st = (cp, levels)" by fastforce
  have t: "cp = vs_compact_pointer vs" "length levels = kNumLevels"
    "\<And>l. l < kNumLevels \<Longrightarrow> state_ok [] (levels ! l)" "\<And>l. l < kNumLevels \<Longrightarrow> vs_files vs ! l = save_level user [] (levels ! l)"
    "\<And>l. l < kNumLevels \<Longrightarrow> fm_number ` set (ls_added (levels ! l)) \<subseteq> used l" using assms(1) by (simp_all add: tracks_def b)
  let ?d = "\<lambda>l. items_at l (deleted_files e)" and ?a = "\<lambda>l. items_at l (new_files e)"
  have fresh: "distinct (map fm_number (?a l))" "fm_number ` set (?a l) \<inter> fm_number ` set (ls_added (levels ! l)) = {}" if "l < kNumLevels" for l
    using assms(4) t(5) [OF that] that unfolding fresh_files_def by blast+
  have ap: "snd (Apply user e (cp, levels)) ! l = apply_level (?d l) (?a l) (levels ! l)" if "l < kNumLevels" for l
    using Apply_level t(2) that by simp
  have "vs_files vs' ! l = save_level user [] (apply_level (?d l) (?a l) (levels ! l))" if l: "l < kNumLevels" for l
  proof -
    have "vs_files vs' ! l = save_level user (vs_files vs ! l) (apply_level (?d l) (?a l) \<lparr>ls_deleted = {}, ls_added = []\<rparr>)"
      using l Apply_level [of l Builder e "vs_compact_pointer vs"] by (simp add: assms(5) SaveTo_def Builder_def)
    then show ?thesis using apply_again [OF t(3) [OF l] fresh [OF l]] t(4) [OF l] by simp
  qed
  moreover have "state_ok [] (apply_level (?d l) (?a l) (levels ! l))"
    "fm_number ` set (ls_added (apply_level (?d l) (?a l) (levels ! l))) \<subseteq> use_numbers used e l" if l: "l < kNumLevels" for l
    using apply_level(1,2) [OF t(3) [OF l] fresh(1) [OF l], of "?d l"] fresh(2) [OF l] t(5) [OF l] by (auto simp: use_numbers_def)
  moreover have "fst (Apply user e (cp, levels)) = vs_compact_pointer vs'" using assms(6) t(1) by (simp add: Apply_def)
  moreover have "length (snd (Apply user e (cp, levels))) = kNumLevels" "length (vs_files vs') = kNumLevels" using t(2) assms(5) by (simp_all add: Apply_def SaveTo_def)
  moreover have "re_status (recover_edit user (ve_EncodeTo e []) st) = OK" "re_builder (recover_edit user (ve_EncodeTo e []) st) = Apply user e (cp, levels)"
    using recover_edit_ok [OF assms(2), of user st] assms(3) b by simp_all
  ultimately show ?thesis unfolding tracks_def by (simp add: ap)
qed

lemma tracks_snapshot:
  assumes "vs_ok user vs"
  shows "tracks vs (recover_edit user (WriteSnapshot user vs) (recover_start VersionSet)) (\<lambda>l. fm_number ` set (vs_files vs ! l))"
proof -
  let ?e = "snapshot_edit user vs" and ?emp = "\<lparr>ls_deleted = {}, ls_added = []\<rparr>"
  have files: "sorted_wrt lt (vs_files vs ! l)" "distinct (map fm_number (vs_files vs ! l))" "\<And>f. f \<in> set (vs_files vs ! l) \<Longrightarrow> prepared f"
    if "l < kNumLevels" for l using assms that nth_mem [of l "vs_files vs"] by (auto simp: vs_ok_def)
  have len: "length (vs_compact_pointer vs) = kNumLevels" "length (vs_files vs) = kNumLevels" using assms by (simp_all add: vs_ok_def)
  have e: "items_at l (new_files ?e) = map meta_of (vs_files vs ! l)" "items_at l (deleted_files ?e) = []"
    "items_at l (compact_pointers ?e) = (if vs_compact_pointer vs ! l \<noteq> [] then [vs_compact_pointer vs ! l] else [])" if "l < kNumLevels" for l
    using that by (simp_all add: snapshot_fields items_at_levels SetComparatorName_def VersionEdit_def del: map_map)
  have "fst (Apply user ?e (replicate kNumLevels [], Builder)) = vs_compact_pointer vs"
    by (rule nth_equalityI) (simp_all add: Apply_def at_levels_nth last_pointer e len)
  note ptrs = this
  have lv: "state_ok [] (snd (Apply user ?e (replicate kNumLevels [], Builder)) ! l) \<and>
      vs_files vs ! l = save_level user [] (snd (Apply user ?e (replicate kNumLevels [], Builder)) ! l) \<and>
      fm_number ` set (ls_added (snd (Apply user ?e (replicate kNumLevels [], Builder)) ! l)) \<subseteq> fm_number ` set (vs_files vs ! l)" if l: "l < kNumLevels" for l
  proof -
    have ap: "snd (Apply user ?e (replicate kNumLevels [], Builder)) ! l = apply_level [] (map meta_of (vs_files vs ! l)) ?emp"
      using Apply_level [of l Builder ?e] l e(1,2) [OF l] by (simp add: Builder_def)
    have ok: "state_ok [] ?emp" by (simp add: state_ok_def)
    have d: "distinct (map fm_number (map meta_of (vs_files vs ! l)))" using files(2) [OF l] by (simp add: o_def prepare_meta)
    note A = apply_level [OF ok d, of "[]"]
    have "prepare_file ` set (map meta_of (vs_files vs ! l)) = set (vs_files vs ! l)"
      using files(3) [OF l] by (auto simp: prepare_meta prepared_def image_iff)
    then have "set (save_level user [] (apply_level [] (map meta_of (vs_files vs ! l)) ?emp)) = set (vs_files vs ! l)"
      using save_level(2) A(1,3) by (simp add: kept_def)
    then have "vs_files vs ! l = save_level user [] (apply_level [] (map meta_of (vs_files vs ! l)) ?emp)"
      using sorted_unique [of lt, OF lt_irrefl lt_trans] files(1) [OF l] save_level(1) A(1) by simp
    then show ?thesis unfolding ap using A(1,2) by (auto simp: prepare_meta image_image)
  qed
  have "\<forall>l<kNumLevels. state_ok [] (snd (Apply user ?e (replicate kNumLevels [], Builder)) ! l) \<and>
      vs_files vs ! l = save_level user [] (snd (Apply user ?e (replicate kNumLevels [], Builder)) ! l) \<and>
      fm_number ` set (ls_added (snd (Apply user ?e (replicate kNumLevels [], Builder)) ! l)) \<subseteq> fm_number ` set (vs_files vs ! l)" using lv by blast
  moreover have "length (snd (Apply user ?e (replicate kNumLevels [], Builder))) = kNumLevels" by (simp add: Apply_def Builder_def)
  moreover have "recover_edit user (WriteSnapshot user vs) (recover_start VersionSet) = (recover_start VersionSet)
      \<lparr>re_status := OK, re_builder := Apply user ?e (replicate kNumLevels [], Builder)\<rparr>"
    unfolding WriteSnapshot_def using recover_edit_ok [OF snapshot_ok [OF assms]]
    by (simp add: snapshot_fields SetComparatorName_def VersionEdit_def recover_start_def VersionSet_def)
  then have "re_status (recover_edit user (WriteSnapshot user vs) (recover_start VersionSet)) = OK"
    "re_builder (recover_edit user (WriteSnapshot user vs) (recover_start VersionSet)) = Apply user ?e (replicate kNumLevels [], Builder)" by simp_all
  ultimately show ?thesis unfolding tracks_def using len ptrs by (simp only: simp_thms)
qed

text \<open>The manifest leads the recovery to the state of the set of versions.\<close>

definition logged :: "version_set \<Rightarrow> (nat \<Rightarrow> u64 set) \<Rightarrow> bool" where
  "logged vs used \<longleftrightarrow> (\<exists>m. vs_manifest vs = Some m \<and>
     (let st = recover_edits_loop user m (recover_start VersionSet)
      in tracks vs st used \<and> re_log_number st = Some (vs_log_number vs) \<and> re_prev_log_number st = Some (vs_prev_log_number vs) \<and>
         re_next_file st = Some (vs_next_file_number vs) \<and> re_last_sequence st = Some (vs_last_sequence vs)))"

lemma logged_step:
  assumes "LogAndApply user io edit vs = (s, vs')" "status_ok s" "edit_for user edit" "fresh_files used edit"
    and m: "m = (case vs_manifest vs of None \<Rightarrow> [WriteSnapshot user (vs\<lparr>vs_compact_pointer := vs_compact_pointer vs'\<rparr>)] | Some m \<Rightarrow> m)"
    and t: "tracks (vs\<lparr>vs_compact_pointer := cp\<rparr>) (recover_edits_loop user m (recover_start VersionSet)) used"
    and cp: "at_levels (\<lambda>key _. key) (compact_pointers edit) cp = vs_compact_pointer vs'"
  shows "logged vs' (use_numbers used edit)"
proof -
  let ?e = "complete_edit vs edit" and ?st = "recover_edits_loop user m (recover_start VersionSet)"
  note C = complete_edit_fields [where vs = vs and e = edit]
  have e: "edit_ok ?e" "has_comparator ?e \<Longrightarrow> ve_comparator ?e = cmp_Name user" "fresh_files used ?e" "use_numbers used ?e = use_numbers used edit"
    using assms(3,4) C by (auto simp: edit_for_def fresh_files_def use_numbers_def fun_eq_iff)
  note vs' = LogAndApply_ok [OF assms(1,2)]
  have "vs_files vs' = SaveTo user (vs_files vs) (snd (Apply user ?e (cp, Builder)))" by (simp add: vs' Apply_def)
  moreover have "vs_compact_pointer vs' = fst (Apply user ?e (cp, Builder))" using cp C(4) by (simp add: Apply_def)
  ultimately have T: "tracks vs' (recover_edit user (ve_EncodeTo ?e []) ?st) (use_numbers used edit)"
    using tracks_edit [OF t e(1,2,3), of vs'] e(4) by simp
  have mf: "vs_manifest vs' = Some (m @ [ve_EncodeTo ?e []])" unfolding m by (cases "vs_manifest vs") (simp_all add: vs')
  have "status_ok (re_status ?st)" using t by (simp add: tracks_def)
  from recover_loop_snoc [OF this] have L: "recover_edits_loop user (m @ [ve_EncodeTo ?e []]) (recover_start VersionSet) = recover_edit user (ve_EncodeTo ?e []) ?st" .
  have r: "recover_edit user (ve_EncodeTo ?e []) ?st = ?st\<lparr>re_status := OK, re_builder := Apply user ?e (re_builder ?st), re_log_number := Some (ve_log_number ?e),
      re_prev_log_number := Some (ve_prev_log_number ?e), re_next_file := Some (vs_next_file_number vs), re_last_sequence := Some (vs_last_sequence vs)\<rparr>"
    using recover_edit_ok [OF e(1), of user ?st] e(2) C by simp
  show ?thesis unfolding logged_def mf using T by (simp add: L) (simp add: r vs')
qed

lemma tracks_numbers: "tracks (vs\<lparr>vs_next_file_number := n, vs_last_sequence := l\<rparr>) st used = tracks vs st used"
  by (simp add: tracks_def)

lemma logged_all:
  assumes "logged vs used" "\<forall>e\<in>set (map (snd \<circ> snd \<circ> snd) xs). edit_for user e" "all_fresh used (map (snd \<circ> snd \<circ> snd) xs)" "log_all user xs vs = Some vs'"
  shows "\<exists>used'. logged vs' used'"
  using assms
proof (induction xs arbitrary: vs used)
  case (Cons x xs)
  obtain n l io e where x: "x = (n, l, io, e)" by (metis prod_cases4)
  let ?vs = "vs\<lparr>vs_next_file_number := n, vs_last_sequence := l\<rparr>"
  obtain s vs1 where la: "LogAndApply user io e ?vs = (s, vs1)" by fastforce
  have ok: "status_ok s" "log_all user xs vs1 = Some vs'" using Cons.prems(4) x la by (auto split: if_splits)
  obtain m where m: "vs_manifest vs = Some m" "tracks vs (recover_edits_loop user m (recover_start VersionSet)) used"
    using Cons.prems(1) by (auto simp: logged_def Let_def)
  have "logged vs1 (use_numbers used e)"
  proof (rule logged_step [OF la ok(1)])
    show "edit_for user e" "fresh_files used e" using Cons.prems(2,3) x by auto
    show "m = (case vs_manifest ?vs of None \<Rightarrow> [WriteSnapshot user (?vs\<lparr>vs_compact_pointer := vs_compact_pointer vs1\<rparr>)] | Some m \<Rightarrow> m)" using m by simp
    show "tracks (?vs\<lparr>vs_compact_pointer := vs_compact_pointer vs\<rparr>) (recover_edits_loop user m (recover_start VersionSet)) used"
      using m(2) by (simp add: tracks_def)
    show "at_levels (\<lambda>key _. key) (compact_pointers e) (vs_compact_pointer vs) = vs_compact_pointer vs1"
      using LogAndApply_ok [OF la ok(1)] by (simp add: Apply_def complete_edit_fields)
  qed
  then show ?case by (rule Cons.IH) (use ok(2) Cons.prems(2,3) x in auto)
qed auto

lemma logged_first:
  assumes "LogAndApply user io e vs = (s, vs')" "status_ok s" "edit_for user e" "vs_manifest vs = None" "vs_ok user vs"
    and "fresh_files (\<lambda>l. fm_number ` set (vs_files vs ! l)) e"
  shows "logged vs' (use_numbers (\<lambda>l. fm_number ` set (vs_files vs ! l)) e)"
proof -
  let ?vs = "vs\<lparr>vs_compact_pointer := vs_compact_pointer vs'\<rparr>"
  have cp: "vs_compact_pointer vs' = at_levels (\<lambda>key _. key) (compact_pointers e) (vs_compact_pointer vs)"
    using LogAndApply_ok [OF assms(1,2)] by (simp add: Apply_def complete_edit_fields)
  have "length k < 2 ^ 32" if k: "k \<in> set (vs_compact_pointer vs')" for k
  proof -
    obtain l where l: "l < length (vs_compact_pointer vs)" "k = vs_compact_pointer vs' ! l" using k cp by (auto simp: in_set_conv_nth)
    have "\<forall>x\<in>set (items_at l (compact_pointers e)). length x < 2 ^ 32" using assms(3) by (auto simp: edit_for_def edit_ok_def ops_of_ok)
    then have "length (last (items_at l (compact_pointers e))) < 2 ^ 32" if "items_at l (compact_pointers e) \<noteq> []" using last_in_set [OF that] by blast
    moreover have "length (vs_compact_pointer vs ! l) < 2 ^ 32" using l(1) assms(5) by (simp add: vs_ok_def)
    ultimately show ?thesis unfolding l(2) cp at_levels_nth [OF l(1)] last_pointer by presburger
  qed
  then have "vs_ok user ?vs" using assms(5) cp by (simp add: vs_ok_def)
  from tracks_snapshot [OF this] have t: "tracks ?vs (recover_edits_loop user [WriteSnapshot user ?vs] (recover_start VersionSet)) (\<lambda>l. fm_number ` set (vs_files vs ! l))"
    by (simp add: recover_start_def)
  have again: "at_levels (\<lambda>key _. key) (compact_pointers e) (vs_compact_pointer vs') = vs_compact_pointer vs'" unfolding cp by (rule pointers_again)
  show ?thesis by (rule logged_step [OF assms(1-3,6) _ t again]) (simp add: assms(4))
qed

lemma recover_logged:
  assumes "logged vs used"
  shows "\<exists>r. vs_Recover user (the (vs_manifest vs)) VersionSet = (OK, r) \<and> vs_files r = vs_files vs \<and> vs_compact_pointer r = vs_compact_pointer vs \<and>
    vs_log_number r = vs_log_number vs \<and> vs_prev_log_number r = vs_prev_log_number vs \<and> vs_last_sequence r = vs_last_sequence vs \<and>
    vs_manifest_file_number r = vs_next_file_number vs \<and> vs_next_file_number r = vs_next_file_number vs + 1"
proof -
  obtain m where m: "vs_manifest vs = Some m" using assms by (auto simp: logged_def)
  let ?st = "recover_edits_loop user m (recover_start VersionSet)"
  have t: "tracks vs ?st used" "re_log_number ?st = Some (vs_log_number vs)" "re_prev_log_number ?st = Some (vs_prev_log_number vs)"
    "re_next_file ?st = Some (vs_next_file_number vs)" "re_last_sequence ?st = Some (vs_last_sequence vs)" using assms m by (simp_all add: logged_def Let_def)
  have f: "SaveTo user (vs_files VersionSet) (snd (re_builder ?st)) = vs_files vs"
    by (rule nth_equalityI) (use t(1) in \<open>simp_all add: SaveTo_def tracks_def VersionSet_def\<close>)
  have "re_status ?st = OK" "fst (re_builder ?st) = vs_compact_pointer vs" using t(1) by (simp_all add: tracks_def)
  then show ?thesis
    using t(2-5) f by (simp add: m vs_Recover_def recover_start_def [symmetric] Let_def MarkFileNumberUsed_def)
qed

end

section \<open>Properties\<close>



end
