(* ===== verification/Ldb_Iterator.thy ===== *)
theory Ldb_Iterator
  imports Ldb_Status
begin

text \<open>
  The interface of iterators, the wrapper \<^verbatim>\<open>leveldb-library/table/iterator_wrapper.h\<close> that keeps the key and
  the validity of an iterator, and \<^verbatim>\<open>table/two_level_iterator.cc\<close>, which goes through the blocks
  that the values of an index name. A move of an iterator is \<open>None\<close> when it would read outside of
  its data or does not end.
\<close>

section \<open>Iterators\<close>

record 'i iter_ops =
  it_Valid :: "'i \<Rightarrow> bool"
  it_key :: "'i \<Rightarrow> slice"
  it_value :: "'i \<Rightarrow> slice option"
  it_status :: "'i \<Rightarrow> status"
  it_Seek :: "slice \<Rightarrow> 'i \<Rightarrow> 'i option"
  it_SeekToFirst :: "'i \<Rightarrow> 'i option"
  it_SeekToLast :: "'i \<Rightarrow> 'i option"
  it_Next :: "'i \<Rightarrow> 'i option"
  it_Prev :: "'i \<Rightarrow> 'i option"

section \<open>IteratorWrapper\<close>

record 'i iter_wrapper =
  iw_iter :: "'i option"
  iw_valid :: bool
  iw_key :: slice

definition iw_Update :: "'i iter_ops \<Rightarrow> 'i iter_wrapper \<Rightarrow> 'i iter_wrapper" where
  "iw_Update ops w =
     (case iw_iter w of
        None \<Rightarrow> w
      | Some it \<Rightarrow> if it_Valid ops it then w\<lparr>iw_valid := True, iw_key := it_key ops it\<rparr> else w\<lparr>iw_valid := False\<rparr>)"

definition iw_Set :: "'i iter_ops \<Rightarrow> 'i option \<Rightarrow> 'i iter_wrapper \<Rightarrow> 'i iter_wrapper" where
  "iw_Set ops it w =
     (case it of None \<Rightarrow> w\<lparr>iw_iter := None, iw_valid := False\<rparr> | Some i \<Rightarrow> iw_Update ops (w\<lparr>iw_iter := Some i\<rparr>))"

definition IteratorWrapper :: "'i iter_ops \<Rightarrow> 'i option \<Rightarrow> 'i iter_wrapper" where
  "IteratorWrapper ops it = iw_Set ops it \<lparr>iw_iter = None, iw_valid = False, iw_key = []\<rparr>"

text \<open>Every move is the move of the iterator, which must be there, and an update.\<close>

definition iw_move :: "'i iter_ops \<Rightarrow> ('i \<Rightarrow> 'i option) \<Rightarrow> 'i iter_wrapper \<Rightarrow> 'i iter_wrapper option" where
  "iw_move ops mv w =
     Option.bind (iw_iter w) (\<lambda>it. Option.bind (mv it) (\<lambda>it1. Some (iw_Update ops (w\<lparr>iw_iter := Some it1\<rparr>))))"

definition iw_value :: "'i iter_ops \<Rightarrow> 'i iter_wrapper \<Rightarrow> slice option" where
  "iw_value ops w = Option.bind (iw_iter w) (it_value ops)"

definition iw_status :: "'i iter_ops \<Rightarrow> 'i iter_wrapper \<Rightarrow> status option" where
  "iw_status ops w = map_option (it_status ops) (iw_iter w)"

section \<open>TwoLevelIterator\<close>

text \<open>\<^verbatim>\<open>block_function_\<close> makes an iterator from a value of the index; it may change a state, the block cache.\<close>

record ('i, 'd) two_level =
  tl_status :: status
  tl_index :: "'i iter_wrapper"
  tl_data :: "'d iter_wrapper"
  tl_handle :: "byte list"

record ('i, 'd, 's) two_level_env =
  index_ops :: "'i iter_ops"
  data_ops :: "'d iter_ops"
  block_function :: "slice \<Rightarrow> 's \<Rightarrow> ('d \<times> 's) option"

type_synonym ('i, 'd, 's) two_level_state = "('i, 'd) two_level \<times> 's"

definition TwoLevelIterator :: "('i, 'd, 's) two_level_env \<Rightarrow> 'i \<Rightarrow> ('i, 'd) two_level" where
  "TwoLevelIterator env index_iter =
     \<lparr>tl_status = OK, tl_index = IteratorWrapper (index_ops env) (Some index_iter),
      tl_data = IteratorWrapper (data_ops env) None, tl_handle = []\<rparr>"

definition tl_Valid :: "('i, 'd) two_level \<Rightarrow> bool" where
  "tl_Valid t = iw_valid (tl_data t)"

definition tl_key :: "('i, 'd) two_level \<Rightarrow> slice" where
  "tl_key t = iw_key (tl_data t)"

definition tl_value :: "('i, 'd, 's) two_level_env \<Rightarrow> ('i, 'd) two_level \<Rightarrow> slice option" where
  "tl_value env t = iw_value (data_ops env) (tl_data t)"

definition tl_get_status :: "('i, 'd, 's) two_level_env \<Rightarrow> ('i, 'd) two_level \<Rightarrow> status option" where
  "tl_get_status env t =
     Option.bind (iw_status (index_ops env) (tl_index t)) (\<lambda>s.
       if \<not> status_ok s then Some s
       else case iw_status (data_ops env) (tl_data t) of
              None \<Rightarrow> Some (tl_status t)
            | Some s1 \<Rightarrow> if \<not> status_ok s1 then Some s1 else Some (tl_status t))"

definition tl_SaveError :: "status \<Rightarrow> ('i, 'd) two_level \<Rightarrow> ('i, 'd) two_level" where
  "tl_SaveError s t = (if status_ok (tl_status t) \<and> \<not> status_ok s then t\<lparr>tl_status := s\<rparr> else t)"

definition SetDataIterator :: "('i, 'd, 's) two_level_env \<Rightarrow> 'd option \<Rightarrow> ('i, 'd) two_level \<Rightarrow> ('i, 'd) two_level" where
  "SetDataIterator env it t =
     (let t1 = (case iw_status (data_ops env) (tl_data t) of Some s \<Rightarrow> tl_SaveError s t | None \<Rightarrow> t)
      in t1\<lparr>tl_data := iw_Set (data_ops env) it (tl_data t1)\<rparr>)"

definition InitDataBlock ::
  "('i, 'd, 's) two_level_env \<Rightarrow> ('i, 'd, 's) two_level_state \<Rightarrow> ('i, 'd, 's) two_level_state option" where
  "InitDataBlock env st =
     (case st of (t, s) \<Rightarrow>
        if \<not> iw_valid (tl_index t) then Some (SetDataIterator env None t, s)
        else
          Option.bind (iw_value (index_ops env) (tl_index t)) (\<lambda>handle.
            if iw_iter (tl_data t) \<noteq> None \<and> slice_compare handle (tl_handle t) = 0 then Some (t, s)
            else
              Option.bind (block_function env handle s) (\<lambda>(it, s1).
                Some (SetDataIterator env (Some it) (t\<lparr>tl_handle := handle\<rparr>), s1))))"

definition move_index ::
  "('i, 'd, 's) two_level_env \<Rightarrow> ('i \<Rightarrow> 'i option) \<Rightarrow> ('i, 'd, 's) two_level_state \<Rightarrow> ('i, 'd, 's) two_level_state option" where
  "move_index env mv st =
     (case st of (t, s) \<Rightarrow> Option.bind (iw_move (index_ops env) mv (tl_index t)) (\<lambda>w. Some (t\<lparr>tl_index := w\<rparr>, s)))"

text \<open>\<^verbatim>\<open>if (data_iter_.iter() != nullptr)\<close>\<close>

definition move_data ::
  "('i, 'd, 's) two_level_env \<Rightarrow> ('d \<Rightarrow> 'd option) \<Rightarrow> ('i, 'd, 's) two_level_state \<Rightarrow> ('i, 'd, 's) two_level_state option" where
  "move_data env mv st =
     (case st of (t, s) \<Rightarrow>
        if iw_iter (tl_data t) = None then Some (t, s)
        else Option.bind (iw_move (data_ops env) mv (tl_data t)) (\<lambda>w. Some (t\<lparr>tl_data := w\<rparr>, s)))"

partial_function (option) SkipEmptyDataBlocksForward ::
  "('i, 'd, 's) two_level_env \<Rightarrow> ('i, 'd, 's) two_level_state \<Rightarrow> ('i, 'd, 's) two_level_state option" where
  "SkipEmptyDataBlocksForward env st =
     (if iw_iter (tl_data (fst st)) = None \<or> \<not> iw_valid (tl_data (fst st)) then
        if \<not> iw_valid (tl_index (fst st)) then Some (SetDataIterator env None (fst st), snd st)
        else
          Option.bind (move_index env (it_Next (index_ops env)) st) (\<lambda>st1.
          Option.bind (InitDataBlock env st1) (\<lambda>st2.
          Option.bind (move_data env (it_SeekToFirst (data_ops env)) st2) (\<lambda>st3.
            SkipEmptyDataBlocksForward env st3)))
      else Some st)"

partial_function (option) SkipEmptyDataBlocksBackward ::
  "('i, 'd, 's) two_level_env \<Rightarrow> ('i, 'd, 's) two_level_state \<Rightarrow> ('i, 'd, 's) two_level_state option" where
  "SkipEmptyDataBlocksBackward env st =
     (if iw_iter (tl_data (fst st)) = None \<or> \<not> iw_valid (tl_data (fst st)) then
        if \<not> iw_valid (tl_index (fst st)) then Some (SetDataIterator env None (fst st), snd st)
        else
          Option.bind (move_index env (it_Prev (index_ops env)) st) (\<lambda>st1.
          Option.bind (InitDataBlock env st1) (\<lambda>st2.
          Option.bind (move_data env (it_SeekToLast (data_ops env)) st2) (\<lambda>st3.
            SkipEmptyDataBlocksBackward env st3)))
      else Some st)"

definition tl_Seek ::
  "('i, 'd, 's) two_level_env \<Rightarrow> slice \<Rightarrow> ('i, 'd, 's) two_level_state \<Rightarrow> ('i, 'd, 's) two_level_state option" where
  "tl_Seek env target st =
     Option.bind (move_index env (it_Seek (index_ops env) target) st) (\<lambda>st1.
     Option.bind (InitDataBlock env st1) (\<lambda>st2.
     Option.bind (move_data env (it_Seek (data_ops env) target) st2) (\<lambda>st3.
       SkipEmptyDataBlocksForward env st3)))"

definition tl_SeekToFirst ::
  "('i, 'd, 's) two_level_env \<Rightarrow> ('i, 'd, 's) two_level_state \<Rightarrow> ('i, 'd, 's) two_level_state option" where
  "tl_SeekToFirst env st =
     Option.bind (move_index env (it_SeekToFirst (index_ops env)) st) (\<lambda>st1.
     Option.bind (InitDataBlock env st1) (\<lambda>st2.
     Option.bind (move_data env (it_SeekToFirst (data_ops env)) st2) (\<lambda>st3.
       SkipEmptyDataBlocksForward env st3)))"

definition tl_SeekToLast ::
  "('i, 'd, 's) two_level_env \<Rightarrow> ('i, 'd, 's) two_level_state \<Rightarrow> ('i, 'd, 's) two_level_state option" where
  "tl_SeekToLast env st =
     Option.bind (move_index env (it_SeekToLast (index_ops env)) st) (\<lambda>st1.
     Option.bind (InitDataBlock env st1) (\<lambda>st2.
     Option.bind (move_data env (it_SeekToLast (data_ops env)) st2) (\<lambda>st3.
       SkipEmptyDataBlocksBackward env st3)))"

definition tl_Next ::
  "('i, 'd, 's) two_level_env \<Rightarrow> ('i, 'd, 's) two_level_state \<Rightarrow> ('i, 'd, 's) two_level_state option" where
  "tl_Next env st =
     (case st of (t, s) \<Rightarrow>
        Option.bind (iw_move (data_ops env) (it_Next (data_ops env)) (tl_data t)) (\<lambda>w.
          SkipEmptyDataBlocksForward env (t\<lparr>tl_data := w\<rparr>, s)))"

definition tl_Prev ::
  "('i, 'd, 's) two_level_env \<Rightarrow> ('i, 'd, 's) two_level_state \<Rightarrow> ('i, 'd, 's) two_level_state option" where
  "tl_Prev env st =
     (case st of (t, s) \<Rightarrow>
        Option.bind (iw_move (data_ops env) (it_Prev (data_ops env)) (tl_data t)) (\<lambda>w.
          SkipEmptyDataBlocksBackward env (t\<lparr>tl_data := w\<rparr>, s)))"

end
