(* ===== verification/Ldb_Iterator_Props.thy ===== *)
theory Ldb_Iterator_Props
  imports Ldb_Iterator Ldb_Block_Props
begin

text \<open>
  Iterators as positions in a list. The locale \<open>list_iterator\<close> is the contract of an iterator:
  \<open>at kvs it i\<close> says that it stands at entry \<open>i\<close> of the sorted list \<open>kvs\<close>, the length of which is the position of an
  iterator that is not valid. The two-level iterator over such iterators fulfils the contract for
  the concatenation of the blocks.
\<close>

locale list_iterator =
  fixes ops :: "'i iter_ops" and c :: comparator and ok :: "slice \<Rightarrow> bool" and pos_at :: "entries \<Rightarrow> 'i \<Rightarrow> nat \<Rightarrow> bool"
  assumes at_valid: "pos_at kvs it i \<Longrightarrow> it_Valid ops it \<longleftrightarrow> i < length kvs"
    and at_bound: "pos_at kvs it i \<Longrightarrow> i \<le> length kvs"
    and at_entry: "pos_at kvs it i \<Longrightarrow> i < length kvs \<Longrightarrow> it_key ops it = fst (kvs ! i) \<and> it_value ops it = Some (snd (kvs ! i))"
    and at_status: "pos_at kvs it i \<Longrightarrow> it_status ops it = OK"
    and at_seek: "pos_at kvs it i \<Longrightarrow> ok t \<Longrightarrow>
      \<exists>it'. it_Seek ops t it = Some it' \<and> pos_at kvs it' (first_not_less c t (map fst kvs))"
    and at_first: "pos_at kvs it i \<Longrightarrow> \<exists>it'. it_SeekToFirst ops it = Some it' \<and> pos_at kvs it' 0"
    and at_last: "pos_at kvs it i \<Longrightarrow> \<exists>it'. it_SeekToLast ops it = Some it' \<and> pos_at kvs it' (length kvs - 1)"
    and at_next: "pos_at kvs it i \<Longrightarrow> i < length kvs \<Longrightarrow> \<exists>it'. it_Next ops it = Some it' \<and> pos_at kvs it' (Suc i)"
    and at_prev: "pos_at kvs it i \<Longrightarrow> i < length kvs \<Longrightarrow>
      \<exists>it'. it_Prev ops it = Some it' \<and> pos_at kvs it' (if i = 0 then length kvs else i - 1)"
begin

text \<open>A wrapper around an iterator at a position.\<close>

definition wrap_at :: "entries \<Rightarrow> 'i iter_wrapper \<Rightarrow> nat \<Rightarrow> bool" where
  "wrap_at kvs w i \<longleftrightarrow>
     (\<exists>it. iw_iter w = Some it \<and> pos_at kvs it i) \<and> (iw_valid w \<longleftrightarrow> i < length kvs) \<and>
     (i < length kvs \<longrightarrow> iw_key w = fst (kvs ! i))"

lemma wrap_Update: "pos_at kvs it i \<Longrightarrow> wrap_at kvs (iw_Update ops (w\<lparr>iw_iter := Some it\<rparr>)) i"
  using at_valid at_entry by (auto simp: wrap_at_def iw_Update_def)

lemma wrap_Set: "pos_at kvs it i \<Longrightarrow> wrap_at kvs (iw_Set ops (Some it) w) i"
  by (simp add: iw_Set_def wrap_Update)

lemma wrap_move:
  assumes "wrap_at kvs w i" "\<And>it. pos_at kvs it i \<Longrightarrow> \<exists>it'. mv it = Some it' \<and> pos_at kvs it' j"
  shows "\<exists>w'. iw_move ops mv w = Some w' \<and> wrap_at kvs w' j"
  using assms wrap_Update [of kvs _ j w] by (fastforce simp: wrap_at_def iw_move_def)

lemma wrap_value: "wrap_at kvs w i \<Longrightarrow> i < length kvs \<Longrightarrow> iw_value ops w = Some (snd (kvs ! i))"
  using at_entry by (auto simp: wrap_at_def iw_value_def)

lemma wrap_status: "wrap_at kvs w i \<Longrightarrow> iw_status ops w = Some OK"
  using at_status by (auto simp: wrap_at_def iw_status_def)

end

section \<open>Sequences of moves\<close>

fun iter_step :: "'i iter_ops \<Rightarrow> iter_op \<Rightarrow> 'i \<Rightarrow> 'i option" where
  "iter_step ops (Op_Seek target) it = it_Seek ops target it"
| "iter_step ops Op_First it = it_SeekToFirst ops it"
| "iter_step ops Op_Last it = it_SeekToLast ops it"
| "iter_step ops Op_Next it = it_Next ops it"
| "iter_step ops Op_Prev it = it_Prev ops it"

primrec iter_run :: "'i iter_ops \<Rightarrow> iter_op list \<Rightarrow> 'i \<Rightarrow> 'i option" where
  "iter_run ops [] it = Some it"
| "iter_run ops (m # ms) it = Option.bind (iter_step ops m it) (iter_run ops ms)"

definition iter_shows :: "'i iter_ops \<Rightarrow> 'i \<Rightarrow> entries \<Rightarrow> nat \<Rightarrow> bool" where
  "iter_shows ops it kvs i \<longleftrightarrow> it_status ops it = OK \<and>
     (if i < length kvs then it_Valid ops it \<and> it_key ops it = fst (kvs ! i) \<and> it_value ops it = Some (snd (kvs ! i))
      else \<not> it_Valid ops it)"

context list_iterator
begin

lemma at_shows: "pos_at kvs it i \<Longrightarrow> iter_shows ops it kvs i"
  using at_valid at_entry at_status by (simp add: iter_shows_def)

lemma run_at:
  assumes "pos_at kvs it i" "\<forall>t. Op_Seek t \<in> set ms \<longrightarrow> ok t" "list_run c (map fst kvs) ms i = Some p"
  shows "\<exists>it'. iter_run ops ms it = Some it' \<and> pos_at kvs it' p"
  using assms
proof (induction ms arbitrary: it i)
  case (Cons m ms)
  obtain j where j: "list_step c (map fst kvs) m i = Some j" "list_run c (map fst kvs) ms j = Some p"
    using Cons.prems(3) by (auto simp: bind_eq_Some_conv)
  have "\<exists>it1. iter_step ops m it = Some it1 \<and> pos_at kvs it1 j"
    using j(1) Cons.prems(1,2) at_seek at_first at_last at_next at_prev
    by (cases m) (auto split: if_splits, fastforce+)
  then show ?case using Cons.IH [OF _ _ j(2)] Cons.prems(2) by fastforce
qed simp

end

section \<open>Blocks in a row\<close>

definition offset_of :: "entries list \<Rightarrow> nat \<Rightarrow> nat" where
  "offset_of bs i = length (concat (take i bs))"

lemma offset_of_Suc: "i < length bs \<Longrightarrow> offset_of bs (Suc i) = offset_of bs i + length (bs ! i)"
  by (simp add: offset_of_def take_Suc_conv_app_nth)

lemma offset_of_all: "offset_of bs (length bs) = length (concat bs)"
  by (simp add: offset_of_def)

lemma concat_nth_block:
  assumes "i < length bs" "j < length (bs ! i)"
  shows "concat bs ! (offset_of bs i + j) = bs ! i ! j" "offset_of bs i + j < length (concat bs)"
proof -
  have "concat bs = concat (take i bs) @ bs ! i @ concat (drop (Suc i) bs)"
    by (subst id_take_nth_drop [OF assms(1)]) (simp only: concat_append concat.simps)
  then show "concat bs ! (offset_of bs i + j) = bs ! i ! j" "offset_of bs i + j < length (concat bs)"
    using assms(2) by (simp_all add: offset_of_def nth_append)
qed

text \<open>Keys that separate the blocks, and the target of a search.\<close>

definition separated :: "comparator \<Rightarrow> (slice \<Rightarrow> bool) \<Rightarrow> slice list \<Rightarrow> entries list \<Rightarrow> bool" where
  "separated c ok seps bs \<longleftrightarrow> length seps = length bs \<and> [] \<notin> set bs \<and>
     (\<forall>k\<in>set seps. ok k) \<and> (\<forall>kv\<in>set (concat bs). ok (fst kv)) \<and>
     sorted_wrt (\<lambda>a b. Compare c a b < 0) (map fst (concat bs)) \<and> sorted_wrt (\<lambda>a b. Compare c a b < 0) seps \<and>
     (\<forall>i<length bs. \<forall>kv\<in>set (bs ! i). Compare c (fst kv) (seps ! i) \<le> 0) \<and>
     (\<forall>i. Suc i < length bs \<longrightarrow> (\<forall>kv\<in>set (bs ! Suc i). Compare c (seps ! i) (fst kv) < 0))"

lemma takeWhile_length_eqI:
  assumes "\<forall>x\<in>set xs. P x" "ys = [] \<or> \<not> P (hd ys)"
  shows "length (takeWhile P (xs @ ys)) = length xs"
  using assms by (induction xs) (auto simp: takeWhile_eq_Nil_iff)

context block_order
begin

lemma search_block:
  assumes "separated c ok seps bs" "ok t" "i = first_not_less c t seps"
  shows "i = length bs \<Longrightarrow> first_not_less c t (map fst (concat bs)) = length (concat bs)"
    and "i < length bs \<Longrightarrow> first_not_less c t (map fst (concat bs)) = offset_of bs i + first_not_less c t (map fst (bs ! i))"
proof -
  have sep: "length seps = length bs" "[] \<notin> set bs" "\<forall>k\<in>set seps. ok k" "\<forall>kv\<in>set (concat bs). ok (fst kv)"
    "\<forall>i<length bs. \<forall>kv\<in>set (bs ! i). Compare c (fst kv) (seps ! i) \<le> 0"
    "\<forall>i. Suc i < length bs \<longrightarrow> (\<forall>kv\<in>set (bs ! Suc i). Compare c (seps ! i) (fst kv) < 0)"
    using assms(1) by (auto simp: separated_def)
  have below: "Compare c (fst kv) t < 0" if "i' < i" "i' < length bs" "kv \<in> set (bs ! i')" for i' kv
  proof -
    have "Compare c (seps ! i') t < 0"
      using that(1) assms(3) by (metis (no_types, lifting) nth_mem set_takeWhileD takeWhile_nth)
    moreover have "Compare c (fst kv) (seps ! i') \<le> 0" using sep(5) that by blast
    moreover have "ok (fst kv)" "ok (seps ! i')" using sep that by (auto simp: nth_mem)
    ultimately show ?thesis using cmp_le_less assms(2) by blast
  qed
  have before: "\<forall>k\<in>set (map fst (concat (take i bs))). Compare c k t < 0"
    using below by (auto simp: in_set_conv_nth) (metis nth_mem prod.sel(1))
  show "first_not_less c t (map fst (concat bs)) = length (concat bs)" if "i = length bs"
    using takeWhile_length_eqI [OF before, of "[]"] that by simp
  show "first_not_less c t (map fst (concat bs)) = offset_of bs i + first_not_less c t (map fst (bs ! i))" if i: "i < length bs"
  proof -
    have split: "concat bs = concat (take i bs) @ bs ! i @ concat (drop (Suc i) bs)"
      by (subst id_take_nth_drop [OF i]) (simp only: concat_append concat.simps)
    have at: "\<not> Compare c (seps ! i) t < 0"
      using i sep(1) assms(3) nth_length_takeWhile [of "\<lambda>k. Compare c k t < 0" seps] by simp
    have after: "drop (Suc i) bs = [] \<or> \<not> Compare c (fst (hd (bs ! Suc i))) t < 0 \<and> bs ! Suc i \<noteq> []"
    proof (cases "Suc i < length bs")
      case True
      have ne: "bs ! Suc i \<noteq> []" using sep(2) True by (metis nth_mem)
      then have k: "Compare c (seps ! i) (fst (hd (bs ! Suc i))) < 0" using sep(6) True by simp
      have "hd (bs ! Suc i) \<in> set (concat bs)" using True hd_in_set [OF ne] nth_mem [OF True] by auto
      then have oks: "ok (seps ! i)" "ok (fst (hd (bs ! Suc i)))" using sep(1,3,4) i by auto
      have "\<not> Compare c (fst (hd (bs ! Suc i))) t < 0"
        using at k oks assms(2) cmp_less_le [of "seps ! i" "fst (hd (bs ! Suc i))" t] by fastforce
      with ne show ?thesis by blast
    qed simp
    show ?thesis
    proof (cases "\<forall>k\<in>set (map fst (bs ! i)). Compare c k t < 0")
      case True
      let ?rest = "map fst (concat (drop (Suc i) bs))"
      have "?rest = [] \<or> \<not> Compare c (hd ?rest) t < 0"
        using after Cons_nth_drop_Suc [of "Suc i" bs, symmetric]
        by (cases "Suc i < length bs") (simp_all add: hd_append hd_map)
      then show ?thesis
        using True before takeWhile_length_eqI [OF True, of "[]"] unfolding split map_append
        by (subst append_assoc [symmetric], subst takeWhile_length_eqI) (auto simp: offset_of_def)
    next
      case False
      then show ?thesis using before unfolding split map_append by (auto simp: offset_of_def takeWhile_append)
    qed
  qed
qed

end

section \<open>The two-level iterator\<close>

definition tl_ops :: "('i, 'd, 's) two_level_env \<Rightarrow> ('i, 'd, 's) two_level_state iter_ops" where
  "tl_ops env =
     \<lparr>it_Valid = (\<lambda>st. tl_Valid (fst st)), it_key = (\<lambda>st. tl_key (fst st)), it_value = (\<lambda>st. tl_value env (fst st)),
      it_status = (\<lambda>st. case tl_get_status env (fst st) of Some s \<Rightarrow> s | None \<Rightarrow> tl_status (fst st)),
      it_Seek = tl_Seek env, it_SeekToFirst = tl_SeekToFirst env, it_SeekToLast = tl_SeekToLast env,
      it_Next = tl_Next env, it_Prev = tl_Prev env\<rparr>"

text \<open>
  What the two-level iterator goes through: an index of the blocks, and for each value of the index an
  iterator over the block.
\<close>

locale two_level_iterator =
  order: block_order c ok + index: list_iterator iops c ok at_i + data: list_iterator dops c ok at_d
  for c :: comparator and ok :: "slice \<Rightarrow> bool" and iops :: "'i iter_ops" and dops :: "'d iter_ops"
    and at_i :: "entries \<Rightarrow> 'i \<Rightarrow> nat \<Rightarrow> bool" and at_d :: "entries \<Rightarrow> 'd \<Rightarrow> nat \<Rightarrow> bool"
begin

definition walks :: "('i, 'd, 's) two_level_env \<Rightarrow> entries \<Rightarrow> entries list \<Rightarrow> ('s \<Rightarrow> bool) \<Rightarrow> bool" where
  "walks env ixs bs inv_s \<longleftrightarrow> index_ops env = iops \<and> data_ops env = dops \<and>
     separated c ok (map fst ixs) bs \<and> distinct (map snd ixs) \<and>
     (\<forall>i<length bs. \<forall>s. inv_s s \<longrightarrow>
       (\<exists>d s' j. block_function env (snd (ixs ! i)) s = Some (d, s') \<and> inv_s s' \<and> at_d (bs ! i) d j))"

lemma walksD:
  assumes "walks env ixs bs inv_s"
  shows "index_ops env = iops" "data_ops env = dops" "length ixs = length bs" "i < length bs \<Longrightarrow> bs ! i \<noteq> []"
    "separated c ok (map fst ixs) bs" "distinct (map snd ixs)"
    "i < length bs \<Longrightarrow> inv_s s \<Longrightarrow>
      \<exists>d s' j. block_function env (snd (ixs ! i)) s = Some (d, s') \<and> inv_s s' \<and> at_d (bs ! i) d j"
proof -
  have "[] \<notin> set bs" using assms by (simp add: walks_def separated_def)
  then show "i < length bs \<Longrightarrow> bs ! i \<noteq> []" by (metis nth_mem)
  show "length ixs = length bs" using assms by (simp add: walks_def separated_def)
qed (use assms in \<open>auto simp: walks_def\<close>)

text \<open>The index stands at block \<open>i\<close>; the data iterator is that of the block whose handle was kept.\<close>

definition mid :: "entries \<Rightarrow> entries list \<Rightarrow> ('s \<Rightarrow> bool) \<Rightarrow> ('i, 'd, 's) two_level_state \<Rightarrow> nat \<Rightarrow> bool" where
  "mid ixs bs inv_s st i \<longleftrightarrow> inv_s (snd st) \<and> tl_status (fst st) = OK \<and> index.wrap_at ixs (tl_index (fst st)) i \<and>
     (iw_iter (tl_data (fst st)) = None \<and> \<not> iw_valid (tl_data (fst st)) \<or>
      (\<exists>i' j. i' < length bs \<and> tl_handle (fst st) = snd (ixs ! i') \<and> data.wrap_at (bs ! i') (tl_data (fst st)) j))"

definition in_block :: "entries \<Rightarrow> entries list \<Rightarrow> ('s \<Rightarrow> bool) \<Rightarrow> ('i, 'd, 's) two_level_state \<Rightarrow> nat \<Rightarrow> nat \<Rightarrow> bool" where
  "in_block ixs bs inv_s st i j \<longleftrightarrow> i < length bs \<and> inv_s (snd st) \<and> tl_status (fst st) = OK \<and>
     index.wrap_at ixs (tl_index (fst st)) i \<and> tl_handle (fst st) = snd (ixs ! i) \<and> data.wrap_at (bs ! i) (tl_data (fst st)) j"

definition ended :: "entries \<Rightarrow> entries list \<Rightarrow> ('s \<Rightarrow> bool) \<Rightarrow> ('i, 'd, 's) two_level_state \<Rightarrow> bool" where
  "ended ixs bs inv_s st \<longleftrightarrow> inv_s (snd st) \<and> tl_status (fst st) = OK \<and>
     index.wrap_at ixs (tl_index (fst st)) (length bs) \<and> iw_iter (tl_data (fst st)) = None \<and> \<not> iw_valid (tl_data (fst st))"

definition tl_at ::
  "entries \<Rightarrow> entries list \<Rightarrow> ('s \<Rightarrow> bool) \<Rightarrow> entries \<Rightarrow> ('i, 'd, 's) two_level_state \<Rightarrow> nat \<Rightarrow> bool" where
  "tl_at ixs bs inv_s kvs st n \<longleftrightarrow> kvs = concat bs \<and>
     ((\<exists>i j. in_block ixs bs inv_s st i j \<and> j < length (bs ! i) \<and> n = offset_of bs i + j) \<or>
      ended ixs bs inv_s st \<and> n = length (concat bs))"

lemma in_block_mid: "in_block ixs bs inv_s st i j \<Longrightarrow> mid ixs bs inv_s st i"
  unfolding in_block_def mid_def by blast

lemma ended_mid: "ended ixs bs inv_s st \<Longrightarrow> mid ixs bs inv_s st (length bs)"
  unfolding ended_def mid_def by blast

lemma at_mid: "tl_at ixs bs inv_s kvs st n \<Longrightarrow> \<exists>i. mid ixs bs inv_s st i"
  using in_block_mid ended_mid unfolding tl_at_def by blast

lemma move_index_mid:
  assumes "walks env ixs bs inv_s" "mid ixs bs inv_s st i" "\<And>it. at_i ixs it i \<Longrightarrow> \<exists>it'. mv it = Some it' \<and> at_i ixs it' i'"
  shows "\<exists>st'. move_index env mv st = Some st' \<and> mid ixs bs inv_s st' i'"
proof -
  obtain t s where st: "st = (t, s)" by fastforce
  then have "index.wrap_at ixs (tl_index t) i" using assms(2) by (simp add: mid_def)
  from index.wrap_move [OF this, of mv i'] assms(3) obtain w where
    "iw_move iops mv (tl_index t) = Some w" "index.wrap_at ixs w i'" by blast
  then show ?thesis using assms(2) st walksD(1) [OF assms(1)] by (simp add: move_index_def mid_def)
qed

lemma SetDataIterator_OK:
  assumes "tl_status t = OK" "iw_status (data_ops env) (tl_data t) \<in> {None, Some OK}"
  shows "SetDataIterator env d t = t\<lparr>tl_data := iw_Set (data_ops env) d (tl_data t)\<rparr>"
  using assms by (auto simp: SetDataIterator_def tl_SaveError_def)

lemma mid_data_status: "mid ixs bs inv_s st i \<Longrightarrow> iw_status dops (tl_data (fst st)) \<in> {None, Some OK}"
  using data.wrap_status unfolding mid_def by (fastforce simp: iw_status_def)

lemma Init_in:
  assumes W: "walks env ixs bs inv_s" and "mid ixs bs inv_s st i" "i < length bs"
  shows "\<exists>st' j. InitDataBlock env st = Some st' \<and> in_block ixs bs inv_s st' i j"
proof -
  note D = walksD [OF W]
  obtain t s where st: "st = (t, s)" by fastforce
  have m: "inv_s s" "tl_status t = OK" "index.wrap_at ixs (tl_index t) i" using assms(2) st by (simp_all add: mid_def)
  have ix: "iw_valid (tl_index t)" "iw_value iops (tl_index t) = Some (snd (ixs ! i))"
    using m(3) assms(3) index.wrap_value [OF m(3)] D(3) by (simp_all add: index.wrap_at_def)
  show ?thesis
  proof (cases "iw_iter (tl_data t) \<noteq> None \<and> slice_compare (snd (ixs ! i)) (tl_handle t) = 0")
    case True
    then obtain i' j where i': "i' < length bs" "tl_handle t = snd (ixs ! i')" "data.wrap_at (bs ! i') (tl_data t) j"
      using assms(2) st by (auto simp: mid_def)
    have "snd (ixs ! i) = snd (ixs ! i')" using True i'(2) slice_compare_lex by metis
    then have "i = i'" using D(3,6) i'(1) assms(3) by (metis distinct_conv_nth length_map nth_map)
    then have "in_block ixs bs inv_s st i j" using m i' assms(3) st by (simp add: in_block_def)
    moreover have "InitDataBlock env st = Some st" using True ix D(1) st by (simp add: InitDataBlock_def)
    ultimately show ?thesis by blast
  next
    case False
    obtain d s' j where d: "block_function env (snd (ixs ! i)) s = Some (d, s')" "inv_s s'" "at_d (bs ! i) d j"
      using D(7) [OF assms(3) m(1)] by blast
    let ?t = "t\<lparr>tl_handle := snd (ixs ! i), tl_data := iw_Set dops (Some d) (tl_data t)\<rparr>"
    have "SetDataIterator env (Some d) (t\<lparr>tl_handle := snd (ixs ! i)\<rparr>) = ?t"
      using SetDataIterator_OK [of "t\<lparr>tl_handle := snd (ixs ! i)\<rparr>" env "Some d"] mid_data_status [OF assms(2)] m(2) st D(2) by simp
    then have "InitDataBlock env st = Some (?t, s')" using False ix D(1) st d(1) by (auto simp: InitDataBlock_def)
    moreover have "in_block ixs bs inv_s (?t, s') i j"
      using m d(2) assms(3) data.wrap_Set [OF d(3), of "tl_data t"] by (simp add: in_block_def)
    ultimately show ?thesis by blast
  qed
qed

lemma Init_ended:
  assumes "walks env ixs bs inv_s" "mid ixs bs inv_s st (length bs)"
  shows "\<exists>st'. InitDataBlock env st = Some st' \<and> ended ixs bs inv_s st'"
proof -
  obtain t s where st: "st = (t, s)" by fastforce
  have m: "inv_s s" "tl_status t = OK" "index.wrap_at ixs (tl_index t) (length bs)" using assms(2) st by (simp_all add: mid_def)
  have "\<not> iw_valid (tl_index t)" using m(3) walksD(3) [OF assms(1)] by (simp add: index.wrap_at_def)
  then show ?thesis
    using m st SetDataIterator_OK [of t env None] mid_data_status [OF assms(2)] walksD(2) [OF assms(1)]
    by (simp add: InitDataBlock_def ended_def iw_Set_def)
qed

lemma move_data_in:
  assumes "walks env ixs bs inv_s" "in_block ixs bs inv_s st i j"
    and "\<And>d. at_d (bs ! i) d j \<Longrightarrow> \<exists>d'. mv d = Some d' \<and> at_d (bs ! i) d' j'"
  shows "\<exists>w. iw_move dops mv (tl_data (fst st)) = Some w \<and> in_block ixs bs inv_s ((fst st)\<lparr>tl_data := w\<rparr>, snd st) i j'"
    "\<exists>st'. move_data env mv st = Some st' \<and> in_block ixs bs inv_s st' i j'"
proof -
  obtain t s where st: "st = (t, s)" by fastforce
  then have d: "data.wrap_at (bs ! i) (tl_data t) j" using assms(2) by (simp add: in_block_def)
  then have "iw_iter (tl_data t) \<noteq> None" by (auto simp: data.wrap_at_def)
  moreover obtain w where "iw_move dops mv (tl_data t) = Some w" "data.wrap_at (bs ! i) w j'"
    using data.wrap_move [OF d, of mv j'] assms(3) by blast
  ultimately show "\<exists>w. iw_move dops mv (tl_data (fst st)) = Some w \<and> in_block ixs bs inv_s ((fst st)\<lparr>tl_data := w\<rparr>, snd st) i j'"
    "\<exists>st'. move_data env mv st = Some st' \<and> in_block ixs bs inv_s st' i j'"
    using assms(2) st walksD(2) [OF assms(1)] by (auto simp: move_data_def in_block_def)
qed

lemma move_data_ended: "ended ixs bs inv_s st \<Longrightarrow> move_data env mv st = Some st"
  by (cases st) (simp add: move_data_def ended_def)

lemma ended_at: "ended ixs bs inv_s st \<Longrightarrow> tl_at ixs bs inv_s (concat bs) st (length (concat bs))"
  by (simp add: tl_at_def)

lemma in_block_at: "in_block ixs bs inv_s st i j \<Longrightarrow> j < length (bs ! i) \<Longrightarrow> tl_at ixs bs inv_s (concat bs) st (offset_of bs i + j)"
  by (auto simp: tl_at_def)

lemma skip_done:
  assumes "in_block ixs bs inv_s st i j" "j < length (bs ! i)"
  shows "SkipEmptyDataBlocksForward env st = Some st" "SkipEmptyDataBlocksBackward env st = Some st"
proof -
  have "iw_iter (tl_data (fst st)) \<noteq> None" "iw_valid (tl_data (fst st))"
    using assms by (auto simp: in_block_def data.wrap_at_def)
  then show "SkipEmptyDataBlocksForward env st = Some st" "SkipEmptyDataBlocksBackward env st = Some st"
    by (subst SkipEmptyDataBlocksForward.simps SkipEmptyDataBlocksBackward.simps, auto)+
qed

lemma skip_ended:
  assumes "walks env ixs bs inv_s" "ended ixs bs inv_s st"
  shows "\<exists>st'. SkipEmptyDataBlocksForward env st = Some st' \<and> ended ixs bs inv_s st'"
    "\<exists>st'. SkipEmptyDataBlocksBackward env st = Some st' \<and> ended ixs bs inv_s st'"
proof -
  obtain t s where st: "st = (t, s)" by fastforce
  have "iw_iter (tl_data t) = None" "\<not> iw_valid (tl_index t)" "tl_status t = OK"
    using assms(2) st walksD(3) [OF assms(1)] by (auto simp: ended_def index.wrap_at_def)
  moreover have "ended ixs bs inv_s (t\<lparr>tl_data := iw_Set dops None (tl_data t)\<rparr>, s)"
    using assms(2) st by (simp add: ended_def iw_Set_def)
  ultimately show "\<exists>st'. SkipEmptyDataBlocksForward env st = Some st' \<and> ended ixs bs inv_s st'"
    "\<exists>st'. SkipEmptyDataBlocksBackward env st = Some st' \<and> ended ixs bs inv_s st'"
    using st SetDataIterator_OK [of t env None] walksD(2) [OF assms(1)]
    by (subst SkipEmptyDataBlocksForward.simps SkipEmptyDataBlocksBackward.simps, simp add: iw_status_def)+
qed

text \<open>A data iterator past the end of its block moves on to the first entry of the next block.\<close>

lemma skip_forward:
  assumes W: "walks env ixs bs inv_s" and "in_block ixs bs inv_s st i j" "j \<le> length (bs ! i)"
  shows "\<exists>st'. SkipEmptyDataBlocksForward env st = Some st' \<and> tl_at ixs bs inv_s (concat bs) st' (offset_of bs i + j)"
proof (cases "j < length (bs ! i)")
  case True
  then show ?thesis using skip_done(1) [OF assms(2)] in_block_at [OF assms(2)] by blast
next
  case False
  note D = walksD [OF W]
  have i: "i < length bs" and j: "j = length (bs ! i)" using assms(2,3) False by (auto simp: in_block_def)
  have inv: "\<not> iw_valid (tl_data (fst st))" "iw_valid (tl_index (fst st))"
    using assms(2) i j D(3) by (auto simp: in_block_def data.wrap_at_def index.wrap_at_def)
  obtain st1 where st1: "move_index env (it_Next iops) st = Some st1" "mid ixs bs inv_s st1 (Suc i)"
    using move_index_mid [OF W in_block_mid [OF assms(2)], of "it_Next iops" "Suc i"] index.at_next i D(3) by metis
  have pos: "offset_of bs i + j = offset_of bs (Suc i)" using i j by (simp add: offset_of_Suc)
  note step = SkipEmptyDataBlocksForward.simps [of env st]
  show ?thesis
  proof (cases "Suc i < length bs")
    case True
    obtain st2 j2 where st2: "InitDataBlock env st1 = Some st2" "in_block ixs bs inv_s st2 (Suc i) j2"
      using Init_in [OF W st1(2) True] by blast
    obtain st3 where st3: "move_data env (it_SeekToFirst dops) st2 = Some st3" "in_block ixs bs inv_s st3 (Suc i) 0"
      using move_data_in(2) [OF W st2(2), of "it_SeekToFirst dops" 0] data.at_first by blast
    have ne: "0 < length (bs ! Suc i)" using D(4) [OF True] by simp
    have "SkipEmptyDataBlocksForward env st = SkipEmptyDataBlocksForward env st3"
      using inv st1 st2 st3 D(1,2) by (simp add: step)
    then show ?thesis using skip_done(1) [OF st3(2) ne] in_block_at [OF st3(2) ne] pos by simp
  next
    case False
    then have e: "Suc i = length bs" using i by simp
    obtain st2 where st2: "InitDataBlock env st1 = Some st2" "ended ixs bs inv_s st2"
      using Init_ended [OF W, of st1] st1(2) e by auto
    have "SkipEmptyDataBlocksForward env st = SkipEmptyDataBlocksForward env st2"
      using inv st1 st2 move_data_ended [OF st2(2)] D(1,2) by (simp add: step)
    then show ?thesis using skip_ended(1) [OF W st2(2)] ended_at pos e offset_of_all by metis
  qed
qed

text \<open>A data iterator before the beginning of its block moves on to the last entry of the block before it.\<close>

lemma skip_backward:
  assumes W: "walks env ixs bs inv_s" and "in_block ixs bs inv_s st i (length (bs ! i))"
  shows "\<exists>st'. SkipEmptyDataBlocksBackward env st = Some st' \<and>
    tl_at ixs bs inv_s (concat bs) st' (if i = 0 then length (concat bs) else offset_of bs i - 1)"
proof -
  note D = walksD [OF W]
  have i: "i < length bs" using assms(2) by (simp add: in_block_def)
  have inv: "\<not> iw_valid (tl_data (fst st))" "iw_valid (tl_index (fst st))"
    using assms(2) i D(3) by (auto simp: in_block_def data.wrap_at_def index.wrap_at_def)
  obtain st1 where st1: "move_index env (it_Prev iops) st = Some st1"
    "mid ixs bs inv_s st1 (if i = 0 then length bs else i - 1)"
    using move_index_mid [OF W in_block_mid [OF assms(2)], of "it_Prev iops" "if i = 0 then length bs else i - 1"]
      index.at_prev [of ixs _ i] i D(3) by metis
  note step = SkipEmptyDataBlocksBackward.simps [of env st]
  show ?thesis
  proof (cases i)
    case 0
    obtain st2 where st2: "InitDataBlock env st1 = Some st2" "ended ixs bs inv_s st2"
      using Init_ended [OF W, of st1] st1(2) 0 by auto
    have "SkipEmptyDataBlocksBackward env st = SkipEmptyDataBlocksBackward env st2"
      using inv st1 st2 move_data_ended [OF st2(2)] D(1,2) by (simp add: step)
    then show ?thesis using skip_ended(2) [OF W st2(2)] ended_at 0 by fastforce
  next
    case (Suc i')
    then have i': "i' < length bs" using i by simp
    obtain st2 j2 where st2: "InitDataBlock env st1 = Some st2" "in_block ixs bs inv_s st2 i' j2"
      using Init_in [OF W _ i', of st1] st1(2) Suc by auto
    obtain st3 where st3: "move_data env (it_SeekToLast dops) st2 = Some st3" "in_block ixs bs inv_s st3 i' (length (bs ! i') - 1)"
      using move_data_in(2) [OF W st2(2), of "it_SeekToLast dops" "length (bs ! i') - 1"] data.at_last by blast
    have ne: "length (bs ! i') - 1 < length (bs ! i')" using D(4) [OF i'] by simp
    then have pos: "offset_of bs i' + (length (bs ! i') - 1) = offset_of bs i - 1" using Suc i' by (simp add: offset_of_Suc)
    have "SkipEmptyDataBlocksBackward env st = SkipEmptyDataBlocksBackward env st3"
      using inv st1 st2 st3 D(1,2) by (simp add: step)
    then show ?thesis using skip_done(2) [OF st3(2) ne] in_block_at [OF st3(2) ne] pos Suc by simp
  qed
qed

lemma tl_start:
  assumes "walks env ixs bs inv_s" "mid ixs bs inv_s st i"
    and "\<And>it. at_i ixs it i \<Longrightarrow> \<exists>it'. imv it = Some it' \<and> at_i ixs it' i'"
    and "\<And>d j. i' < length bs \<Longrightarrow> at_d (bs ! i') d j \<Longrightarrow> \<exists>d'. dmv d = Some d' \<and> at_d (bs ! i') d' j'"
  obtains st1 st2 st3 where "move_index env imv st = Some st1" "InitDataBlock env st1 = Some st2" "move_data env dmv st2 = Some st3"
    "i' < length bs \<Longrightarrow> in_block ixs bs inv_s st3 i' j'" "i' = length bs \<Longrightarrow> ended ixs bs inv_s st3"
proof -
  obtain st1 where st1: "move_index env imv st = Some st1" "mid ixs bs inv_s st1 i'"
    using move_index_mid [OF assms(1,2), of imv i'] assms(3) by blast
  then obtain it where "at_i ixs it i'" by (auto simp: mid_def index.wrap_at_def)
  then have "i' \<le> length bs" using index.at_bound walksD(3) [OF assms(1)] by metis
  then consider "i' < length bs" | "i' = length bs" by linarith
  then show thesis
  proof cases
    case 1
    obtain st2 j where st2: "InitDataBlock env st1 = Some st2" "in_block ixs bs inv_s st2 i' j"
      using Init_in [OF assms(1) st1(2) 1] by blast
    then obtain st3 where "move_data env dmv st2 = Some st3" "in_block ixs bs inv_s st3 i' j'"
      using move_data_in(2) [OF assms(1) st2(2), of dmv j'] assms(4) [OF 1] by blast
    then show thesis using that st1 st2 1 by simp
  next
    case 2
    obtain st2 where st2: "InitDataBlock env st1 = Some st2" "ended ixs bs inv_s st2"
      using Init_ended [OF assms(1), of st1] st1(2) 2 by auto
    then show thesis using that st1 move_data_ended [OF st2(2)] 2 by simp
  qed
qed

lemma Seek_at:
  assumes W: "walks env ixs bs inv_s" and "mid ixs bs inv_s st i" "ok t"
  shows "\<exists>st'. tl_Seek env t st = Some st' \<and> tl_at ixs bs inv_s (concat bs) st' (first_not_less c t (map fst (concat bs)))"
proof -
  note D = walksD [OF W]
  define i' where "i' = first_not_less c t (map fst ixs)"
  define j' where "j' = first_not_less c t (map fst (bs ! i'))"
  obtain st1 st2 st3 where s: "move_index env (it_Seek iops t) st = Some st1" "InitDataBlock env st1 = Some st2"
    "move_data env (it_Seek dops t) st2 = Some st3"
    "i' < length bs \<Longrightarrow> in_block ixs bs inv_s st3 i' j'" "i' = length bs \<Longrightarrow> ended ixs bs inv_s st3"
    by (rule tl_start [OF W assms(2), of "it_Seek iops t" i' "it_Seek dops t" j'])
      (use index.at_seek data.at_seek assms(3) in \<open>auto simp: i'_def j'_def\<close>)
  have step: "tl_Seek env t st = SkipEmptyDataBlocksForward env st3" using s(1-3) D(1,2) by (simp add: tl_Seek_def)
  have "i' \<le> length bs" using D(3) length_takeWhile_le [of _ "map fst ixs"] by (simp add: i'_def)
  then consider "i' < length bs" | "i' = length bs" by linarith
  then show ?thesis
  proof cases
    case 1
    have "j' \<le> length (bs ! i')" using length_takeWhile_le [of _ "map fst (bs ! i')"] by (simp add: j'_def)
    then show ?thesis
      using skip_forward [OF W s(4) [OF 1]] order.search_block(2) [OF D(5) assms(3) i'_def 1] step by (simp add: j'_def)
  next
    case 2
    then show ?thesis
      using skip_ended(1) [OF W s(5) [OF 2]] order.search_block(1) [OF D(5) assms(3) i'_def 2] step ended_at by metis
  qed
qed

lemma First_at:
  assumes W: "walks env ixs bs inv_s" and "mid ixs bs inv_s st i"
  shows "\<exists>st'. tl_SeekToFirst env st = Some st' \<and> tl_at ixs bs inv_s (concat bs) st' 0"
proof -
  note D = walksD [OF W]
  obtain st1 st2 st3 where s: "move_index env (it_SeekToFirst iops) st = Some st1" "InitDataBlock env st1 = Some st2"
    "move_data env (it_SeekToFirst dops) st2 = Some st3"
    "0 < length bs \<Longrightarrow> in_block ixs bs inv_s st3 0 0" "0 = length bs \<Longrightarrow> ended ixs bs inv_s st3"
    by (rule tl_start [OF W assms(2), of "it_SeekToFirst iops" 0 "it_SeekToFirst dops" 0])
      (use index.at_first data.at_first in auto)
  have step: "tl_SeekToFirst env st = SkipEmptyDataBlocksForward env st3" using s(1-3) D(1,2) by (simp add: tl_SeekToFirst_def)
  show ?thesis
  proof (cases "bs = []")
    case True
    then show ?thesis using skip_ended(1) [OF W] s(5) step ended_at by (metis concat.simps(1) list.size(3))
  next
    case False
    then show ?thesis using skip_forward [OF W s(4)] step by (simp add: offset_of_def)
  qed
qed

lemma Last_at:
  assumes W: "walks env ixs bs inv_s" and "mid ixs bs inv_s st i"
  shows "\<exists>st'. tl_SeekToLast env st = Some st' \<and> tl_at ixs bs inv_s (concat bs) st' (length (concat bs) - 1)"
proof -
  note D = walksD [OF W]
  let ?i = "length bs - 1" and ?j = "length (bs ! (length bs - 1)) - 1"
  obtain st1 st2 st3 where s: "move_index env (it_SeekToLast iops) st = Some st1" "InitDataBlock env st1 = Some st2"
    "move_data env (it_SeekToLast dops) st2 = Some st3"
    "?i < length bs \<Longrightarrow> in_block ixs bs inv_s st3 ?i ?j" "?i = length bs \<Longrightarrow> ended ixs bs inv_s st3"
    by (rule tl_start [OF W assms(2), of "it_SeekToLast iops" ?i "it_SeekToLast dops" ?j])
      (use index.at_last [of ixs, unfolded D(3)] data.at_last in auto)
  have step: "tl_SeekToLast env st = SkipEmptyDataBlocksBackward env st3" using s(1-3) D(1,2) by (simp add: tl_SeekToLast_def)
  show ?thesis
  proof (cases "bs = []")
    case True
    then show ?thesis using skip_ended(2) [OF W] s(5) step ended_at by (metis concat.simps(1) diff_0_eq_0 list.size(3))
  next
    case False
    then have i: "?i < length bs" by simp
    then have j: "?j < length (bs ! ?i)" using D(4) [OF i] by simp
    have "Suc ?i = length bs" using False by simp
    then have "offset_of bs ?i + ?j = length (concat bs) - 1"
      using offset_of_Suc [OF i] offset_of_all [of bs] j by simp
    then show ?thesis using skip_done(2) [OF s(4) [OF i] j] in_block_at [OF s(4) [OF i] j] step by simp
  qed
qed

lemma Next_at:
  assumes W: "walks env ixs bs inv_s" and "in_block ixs bs inv_s st i j" "j < length (bs ! i)"
  shows "\<exists>st'. tl_Next env st = Some st' \<and> tl_at ixs bs inv_s (concat bs) st' (offset_of bs i + Suc j)"
proof -
  obtain w where w: "iw_move dops (it_Next dops) (tl_data (fst st)) = Some w"
    "in_block ixs bs inv_s ((fst st)\<lparr>tl_data := w\<rparr>, snd st) i (Suc j)"
    using move_data_in(1) [OF W assms(2), of "it_Next dops" "Suc j"] data.at_next assms(3) by metis
  then show ?thesis
    using skip_forward [OF W w(2)] assms(3) walksD(2) [OF W] by (cases st) (simp add: tl_Next_def)
qed

lemma Prev_at:
  assumes W: "walks env ixs bs inv_s" and "in_block ixs bs inv_s st i j" "j < length (bs ! i)"
  shows "\<exists>st'. tl_Prev env st = Some st' \<and>
    tl_at ixs bs inv_s (concat bs) st' (if offset_of bs i + j = 0 then length (concat bs) else offset_of bs i + j - 1)"
proof -
  let ?j = "if j = 0 then length (bs ! i) else j - 1"
  note D = walksD [OF W]
  obtain w where w: "iw_move dops (it_Prev dops) (tl_data (fst st)) = Some w"
    "in_block ixs bs inv_s ((fst st)\<lparr>tl_data := w\<rparr>, snd st) i ?j"
    using move_data_in(1) [OF W assms(2), of "it_Prev dops" ?j] data.at_prev [of "bs ! i" _ j] assms(3) by metis
  then have step: "tl_Prev env st = SkipEmptyDataBlocksBackward env ((fst st)\<lparr>tl_data := w\<rparr>, snd st)"
    using D(2) by (cases st) (simp add: tl_Prev_def)
  show ?thesis
  proof (cases "j = 0")
    case True
    have "0 < offset_of bs i" if pos: "0 < i"
    proof -
      obtain i' where i': "i = Suc i'" using pos by (cases i) auto
      then have "i' < length bs" using assms(2) by (simp add: in_block_def)
      then show ?thesis using D(4) [of i'] i' by (simp add: offset_of_Suc)
    qed
    then show ?thesis
      using skip_backward [OF W, of "((fst st)\<lparr>tl_data := w\<rparr>, snd st)" i] w(2) True step
      by (cases "i = 0") (auto simp: offset_of_def)
  next
    case False
    then have w2: "in_block ixs bs inv_s ((fst st)\<lparr>tl_data := w\<rparr>, snd st) i (j - 1)" "j - 1 < length (bs ! i)"
      using w(2) assms(3) by auto
    show ?thesis using skip_done(2) [OF w2] in_block_at [OF w2] False step by simp
  qed
qed

lemma two_level_contract:
  assumes W: "walks env ixs bs inv_s"
  shows "list_iterator (tl_ops env) c ok (tl_at ixs bs inv_s)"
proof
  fix kvs st n
  assume at: "tl_at ixs bs inv_s kvs st n"
  note D = walksD [OF W]
  have kvs: "kvs = concat bs" using at by (simp add: tl_at_def)
  obtain m where m: "mid ixs bs inv_s st m" using at_mid [OF at] by blast
  have sel: "it_Valid (tl_ops env) st = iw_valid (tl_data (fst st))" "it_key (tl_ops env) st = iw_key (tl_data (fst st))"
    "it_value (tl_ops env) st = iw_value dops (tl_data (fst st))"
    using D(2) by (simp_all add: tl_ops_def tl_Valid_def tl_key_def tl_value_def)
  have entry: "\<exists>i j. in_block ixs bs inv_s st i j \<and> j < length (bs ! i) \<and> i < length bs \<and> n = offset_of bs i + j" if "n < length kvs"
    using at that kvs by (auto simp: tl_at_def in_block_def)
  show bound: "n \<le> length kvs"
    using at concat_nth_block(2) unfolding tl_at_def in_block_def by (metis less_imp_le order_refl)
  show "it_Valid (tl_ops env) st = (n < length kvs)"
  proof (cases "n < length kvs")
    case True
    then show ?thesis using entry [OF True] unfolding sel in_block_def data.wrap_at_def by blast
  next
    case False
    then have "ended ixs bs inv_s st" using at concat_nth_block(2) unfolding tl_at_def in_block_def by blast
    then show ?thesis using False by (simp add: sel ended_def)
  qed
  show "it_key (tl_ops env) st = fst (kvs ! n) \<and> it_value (tl_ops env) st = Some (snd (kvs ! n))" if n: "n < length kvs"
  proof -
    obtain i j where e: "in_block ixs bs inv_s st i j" "j < length (bs ! i)" "i < length bs" "n = offset_of bs i + j"
      using entry [OF n] by blast
    have w: "data.wrap_at (bs ! i) (tl_data (fst st)) j" using e(1) by (simp add: in_block_def)
    then show ?thesis
      using data.wrap_value [OF w e(2)] concat_nth_block(1) [OF e(3,2)] e(2,4) unfolding sel kvs by (simp add: data.wrap_at_def)
  qed
  have "iw_status iops (tl_index (fst st)) = Some OK" "tl_status (fst st) = OK"
    using m index.wrap_status by (auto simp: mid_def)
  then show "it_status (tl_ops env) st = OK"
    using mid_data_status [OF m] D(1,2) by (auto simp: tl_ops_def tl_get_status_def)
  show "\<exists>st'. it_Seek (tl_ops env) t st = Some st' \<and> tl_at ixs bs inv_s kvs st' (first_not_less c t (map fst kvs))" if "ok t" for t
    using Seek_at [OF W m that] kvs by (simp add: tl_ops_def)
  show "\<exists>st'. it_SeekToFirst (tl_ops env) st = Some st' \<and> tl_at ixs bs inv_s kvs st' 0"
    using First_at [OF W m] kvs by (simp add: tl_ops_def)
  show "\<exists>st'. it_SeekToLast (tl_ops env) st = Some st' \<and> tl_at ixs bs inv_s kvs st' (length kvs - 1)"
    using Last_at [OF W m] kvs by (simp add: tl_ops_def)
  show "\<exists>st'. it_Next (tl_ops env) st = Some st' \<and> tl_at ixs bs inv_s kvs st' (Suc n)" if n: "n < length kvs"
    using entry [OF n] Next_at [OF W] kvs unfolding tl_ops_def iter_ops.select_convs by (metis add_Suc_right)
  show "\<exists>st'. it_Prev (tl_ops env) st = Some st' \<and> tl_at ixs bs inv_s kvs st' (if n = 0 then length kvs else n - 1)" if n: "n < length kvs"
    using entry [OF n] Prev_at [OF W] kvs unfolding tl_ops_def iter_ops.select_convs by blast
qed

lemma tl_new_at:
  assumes "walks env ixs bs inv_s" "at_i ixs it (length ixs)" "inv_s s"
  shows "tl_at ixs bs inv_s (concat bs) (TwoLevelIterator env it, s) (length (concat bs))"
  using assms walksD(1,3) [OF assms(1)] index.wrap_Set [OF assms(2), of "\<lparr>iw_iter = None, iw_valid = False, iw_key = []\<rparr>"]
  by (intro ended_at) (simp add: ended_def TwoLevelIterator_def IteratorWrapper_def iw_Set_def)

end

end
