(* ===== verification/Ldb_Merger.thy ===== *)
theory Ldb_Merger
  imports Ldb_Iterator_Props
begin

text \<open>
  \<^verbatim>\<open>leveldb-library/table/merger.cc\<close>, the iterator that merges the iterators over the memory tables and
  the table files, and the empty iterator of \<^verbatim>\<open>table/iterator.cc\<close>. Over children that iterate over
  sorted lists without a common key, the merging iterator fulfils the contract of an iterator over
  the merged list, in both directions and when the direction changes. The children may share a state, such as the block cache: every
  move of a child may change it.
\<close>

section \<open>EmptyIterator\<close>

record empty_iter =
  ei_status :: status

definition NewEmptyIterator :: empty_iter where
  "NewEmptyIterator = \<lparr>ei_status = OK\<rparr>"

definition NewErrorIterator :: "status \<Rightarrow> empty_iter" where
  "NewErrorIterator s = \<lparr>ei_status = s\<rparr>"

definition empty_ops :: "(empty_iter \<times> 's) iter_ops" where
  "empty_ops =
     \<lparr>it_Valid = (\<lambda>_. False), it_key = (\<lambda>_. []), it_value = (\<lambda>_. Some []), it_status = (\<lambda>(e, s). ei_status e),
      it_Seek = (\<lambda>_. Some), it_SeekToFirst = Some, it_SeekToLast = Some, it_Next = (\<lambda>_. None), it_Prev = (\<lambda>_. None)\<rparr>"

section \<open>IteratorWrapper\<close>

text \<open>The wrapper of an iterator that shares a state with others.\<close>

definition sw_Update :: "('i \<times> 's) iter_ops \<Rightarrow> 's \<Rightarrow> 'i iter_wrapper \<Rightarrow> 'i iter_wrapper" where
  "sw_Update ops s w =
     (case iw_iter w of
        None \<Rightarrow> w
      | Some it \<Rightarrow>
          if it_Valid ops (it, s) then w\<lparr>iw_valid := True, iw_key := it_key ops (it, s)\<rparr> else w\<lparr>iw_valid := False\<rparr>)"

definition sw_Set :: "('i \<times> 's) iter_ops \<Rightarrow> 's \<Rightarrow> 'i \<Rightarrow> 'i iter_wrapper \<Rightarrow> 'i iter_wrapper" where
  "sw_Set ops s it w = sw_Update ops s (w\<lparr>iw_iter := Some it\<rparr>)"

type_synonym ('i, 's) wrapper_move = "'i iter_wrapper \<times> 's \<Rightarrow> ('i iter_wrapper \<times> 's) option"

definition sw_move :: "('i \<times> 's) iter_ops \<Rightarrow> ('i \<times> 's \<Rightarrow> ('i \<times> 's) option) \<Rightarrow> ('i, 's) wrapper_move" where
  "sw_move ops mv ws =
     (case ws of (w, s) \<Rightarrow>
        Option.bind (iw_iter w) (\<lambda>it. Option.bind (mv (it, s)) (\<lambda>(it1, s1).
          Some (sw_Update ops s1 (w\<lparr>iw_iter := Some it1\<rparr>), s1))))"

definition sw_value :: "('i \<times> 's) iter_ops \<Rightarrow> 's \<Rightarrow> 'i iter_wrapper \<Rightarrow> slice option" where
  "sw_value ops s w = Option.bind (iw_iter w) (\<lambda>it. it_value ops (it, s))"

definition sw_status :: "('i \<times> 's) iter_ops \<Rightarrow> 's \<Rightarrow> 'i iter_wrapper \<Rightarrow> status option" where
  "sw_status ops s w = map_option (\<lambda>it. it_status ops (it, s)) (iw_iter w)"

section \<open>MergingIterator\<close>

datatype direction = kForward | kReverse

text \<open>\<^verbatim>\<open>current_\<close> is the index of a child, \<open>None\<close> the null pointer.\<close>

record 'i merging =
  mi_children :: "'i iter_wrapper list"
  mi_current :: "nat option"
  mi_direction :: direction

definition MergingIterator :: "('i \<times> 's) iter_ops \<Rightarrow> 's \<Rightarrow> 'i list \<Rightarrow> 'i merging" where
  "MergingIterator ops s its =
     \<lparr>mi_children = map (\<lambda>it. sw_Set ops s it \<lparr>iw_iter = None, iw_valid = False, iw_key = []\<rparr>) its, mi_current = None,
      mi_direction = kForward\<rparr>"

definition mi_Valid :: "'i merging \<Rightarrow> bool" where
  "mi_Valid m \<longleftrightarrow> mi_current m \<noteq> None"

definition mi_key :: "'i merging \<Rightarrow> slice" where
  "mi_key m = (case mi_current m of Some j \<Rightarrow> iw_key (mi_children m ! j) | None \<Rightarrow> [])"

definition mi_value :: "('i \<times> 's) iter_ops \<Rightarrow> 's \<Rightarrow> 'i merging \<Rightarrow> slice option" where
  "mi_value ops s m = Option.bind (mi_current m) (\<lambda>j. sw_value ops s (mi_children m ! j))"

primrec mi_status_loop :: "('i \<times> 's) iter_ops \<Rightarrow> 's \<Rightarrow> 'i iter_wrapper list \<Rightarrow> status \<Rightarrow> status option" where
  "mi_status_loop ops s [] st = Some st"
| "mi_status_loop ops s (w # ws) st =
     Option.bind (sw_status ops s w) (\<lambda>st1. if \<not> status_ok st1 then Some st1 else mi_status_loop ops s ws st1)"

definition mi_status :: "('i \<times> 's) iter_ops \<Rightarrow> 's \<Rightarrow> 'i merging \<Rightarrow> status option" where
  "mi_status ops s m = mi_status_loop ops s (mi_children m) OK"

text \<open>The loops over the children: \<open>for_children\<close> applies a step to one child after the other.\<close>

primrec for_children :: "(nat \<Rightarrow> 'w \<times> 's \<Rightarrow> ('w \<times> 's) option) \<Rightarrow> nat \<Rightarrow> 'w list \<Rightarrow> 's \<Rightarrow> ('w list \<times> 's) option" where
  "for_children f i [] s = Some ([], s)"
| "for_children f i (w # ws) s =
     Option.bind (f i (w, s)) (\<lambda>(w1, s1). Option.bind (for_children f (Suc i) ws s1) (\<lambda>(ws1, s2). Some (w1 # ws1, s2)))"

definition find_child :: "(slice \<Rightarrow> slice \<Rightarrow> bool) \<Rightarrow> 'i iter_wrapper list \<Rightarrow> nat list \<Rightarrow> nat option \<Rightarrow> nat option" where
  "find_child better ch js best =
     foldl (\<lambda>best i.
       if iw_valid (ch ! i) then
         case best of
           None \<Rightarrow> Some i
         | Some b \<Rightarrow> if better (iw_key (ch ! i)) (iw_key (ch ! b)) then Some i else best
       else best) best js"

definition FindSmallest :: "comparator \<Rightarrow> 'i merging \<Rightarrow> 'i merging" where
  "FindSmallest c m =
     m\<lparr>mi_current := find_child (\<lambda>k s. Compare c k s < 0) (mi_children m) [0..<length (mi_children m)] None\<rparr>"

definition FindLargest :: "comparator \<Rightarrow> 'i merging \<Rightarrow> 'i merging" where
  "FindLargest c m =
     m\<lparr>mi_current := find_child (\<lambda>k l. Compare c k l > 0) (mi_children m) (rev [0..<length (mi_children m)]) None\<rparr>"

type_synonym ('i, 's) merging_move = "'i merging \<times> 's \<Rightarrow> ('i merging \<times> 's) option"

definition mi_SeekToFirst :: "('i \<times> 's) iter_ops \<Rightarrow> comparator \<Rightarrow> ('i, 's) merging_move" where
  "mi_SeekToFirst ops c ms =
     (case ms of (m, s) \<Rightarrow>
        Option.bind (for_children (\<lambda>_. sw_move ops (it_SeekToFirst ops)) 0 (mi_children m) s) (\<lambda>(ch, s1).
          Some (FindSmallest c (m\<lparr>mi_children := ch\<rparr>)\<lparr>mi_direction := kForward\<rparr>, s1)))"

definition mi_SeekToLast :: "('i \<times> 's) iter_ops \<Rightarrow> comparator \<Rightarrow> ('i, 's) merging_move" where
  "mi_SeekToLast ops c ms =
     (case ms of (m, s) \<Rightarrow>
        Option.bind (for_children (\<lambda>_. sw_move ops (it_SeekToLast ops)) 0 (mi_children m) s) (\<lambda>(ch, s1).
          Some (FindLargest c (m\<lparr>mi_children := ch\<rparr>)\<lparr>mi_direction := kReverse\<rparr>, s1)))"

definition mi_Seek :: "('i \<times> 's) iter_ops \<Rightarrow> comparator \<Rightarrow> slice \<Rightarrow> ('i, 's) merging_move" where
  "mi_Seek ops c target ms =
     (case ms of (m, s) \<Rightarrow>
        Option.bind (for_children (\<lambda>_. sw_move ops (it_Seek ops target)) 0 (mi_children m) s) (\<lambda>(ch, s1).
          Some (FindSmallest c (m\<lparr>mi_children := ch\<rparr>)\<lparr>mi_direction := kForward\<rparr>, s1)))"

text \<open>The children that are not the current one, when the direction changes.\<close>

definition after_key :: "('i \<times> 's) iter_ops \<Rightarrow> comparator \<Rightarrow> slice \<Rightarrow> ('i, 's) wrapper_move" where
  "after_key ops c k child =
     Option.bind (sw_move ops (it_Seek ops k) child) (\<lambda>child1.
       if iw_valid (fst child1) \<and> Compare c k (iw_key (fst child1)) = 0 then sw_move ops (it_Next ops) child1 else Some child1)"

definition before_key :: "('i \<times> 's) iter_ops \<Rightarrow> slice \<Rightarrow> ('i, 's) wrapper_move" where
  "before_key ops k child =
     Option.bind (sw_move ops (it_Seek ops k) child) (\<lambda>child1.
       if iw_valid (fst child1) then sw_move ops (it_Prev ops) child1 else sw_move ops (it_SeekToLast ops) child1)"

definition turn :: "(slice \<Rightarrow> ('i, 's) wrapper_move) \<Rightarrow> direction \<Rightarrow> ('i, 's) merging_move" where
  "turn f d ms =
     (case ms of (m, s) \<Rightarrow>
        if mi_direction m \<noteq> d then
          Option.bind
            (for_children (\<lambda>i child. if Some i \<noteq> mi_current m then f (mi_key m) child else Some child) 0 (mi_children m) s)
            (\<lambda>(ch, s1). Some (m\<lparr>mi_children := ch, mi_direction := d\<rparr>, s1))
        else Some (m, s))"

definition move_current :: "('i \<times> 's) iter_ops \<Rightarrow> ('i \<times> 's \<Rightarrow> ('i \<times> 's) option) \<Rightarrow> ('i, 's) merging_move" where
  "move_current ops mv ms =
     (case ms of (m, s) \<Rightarrow>
        Option.bind (mi_current m) (\<lambda>j. Option.bind (sw_move ops mv (mi_children m ! j, s)) (\<lambda>(w, s1).
          Some (m\<lparr>mi_children := (mi_children m)[j := w]\<rparr>, s1))))"

definition mi_Next :: "('i \<times> 's) iter_ops \<Rightarrow> comparator \<Rightarrow> ('i, 's) merging_move" where
  "mi_Next ops c m =
     Option.bind (turn (after_key ops c) kForward m) (\<lambda>m1.
     Option.bind (move_current ops (it_Next ops) m1) (\<lambda>(m2, s2). Some (FindSmallest c m2, s2)))"

definition mi_Prev :: "('i \<times> 's) iter_ops \<Rightarrow> comparator \<Rightarrow> ('i, 's) merging_move" where
  "mi_Prev ops c m =
     Option.bind (turn (before_key ops) kReverse m) (\<lambda>m1.
     Option.bind (move_current ops (it_Prev ops) m1) (\<lambda>(m2, s2). Some (FindLargest c m2, s2)))"

definition merging_ops :: "('i \<times> 's) iter_ops \<Rightarrow> comparator \<Rightarrow> ('i merging \<times> 's) iter_ops" where
  "merging_ops ops c =
     \<lparr>it_Valid = (\<lambda>(m, s). mi_Valid m), it_key = (\<lambda>(m, s). mi_key m), it_value = (\<lambda>(m, s). mi_value ops s m),
      it_status = (\<lambda>(m, s). case mi_status ops s m of Some st \<Rightarrow> st | None \<Rightarrow> OK),
      it_Seek = mi_Seek ops c, it_SeekToFirst = mi_SeekToFirst ops c, it_SeekToLast = mi_SeekToLast ops c,
      it_Next = mi_Next ops c, it_Prev = mi_Prev ops c\<rparr>"

text \<open>
  A pointer to an \<^verbatim>\<open>Iterator\<close> is a pointer to an object of one class or of another; its virtual calls
  are those of the class.
\<close>

definition get_sum :: "('a \<times> 's \<Rightarrow> 'r) \<Rightarrow> ('b \<times> 's \<Rightarrow> 'r) \<Rightarrow> ('a + 'b) \<times> 's \<Rightarrow> 'r" where
  "get_sum f g it = (case it of (Inl a, s) \<Rightarrow> f (a, s) | (Inr b, s) \<Rightarrow> g (b, s))"

definition move_sum ::
  "('a \<times> 's \<Rightarrow> ('a \<times> 's) option) \<Rightarrow> ('b \<times> 's \<Rightarrow> ('b \<times> 's) option) \<Rightarrow> ('a + 'b) \<times> 's \<Rightarrow> (('a + 'b) \<times> 's) option" where
  "move_sum f g = get_sum (map_option (apfst Inl) \<circ> f) (map_option (apfst Inr) \<circ> g)"

definition sum_ops :: "('a \<times> 's) iter_ops \<Rightarrow> ('b \<times> 's) iter_ops \<Rightarrow> (('a + 'b) \<times> 's) iter_ops" where
  "sum_ops a b =
     \<lparr>it_Valid = get_sum (it_Valid a) (it_Valid b), it_key = get_sum (it_key a) (it_key b),
      it_value = get_sum (it_value a) (it_value b), it_status = get_sum (it_status a) (it_status b),
      it_Seek = (\<lambda>t. move_sum (it_Seek a t) (it_Seek b t)), it_SeekToFirst = move_sum (it_SeekToFirst a) (it_SeekToFirst b),
      it_SeekToLast = move_sum (it_SeekToLast a) (it_SeekToLast b), it_Next = move_sum (it_Next a) (it_Next b),
      it_Prev = move_sum (it_Prev a) (it_Prev b)\<rparr>"

text \<open>What \<^verbatim>\<open>NewMergingIterator\<close> returns: an empty iterator, the only child, or the merging iterator.\<close>

type_synonym 'i merged_iter = "empty_iter + 'i + 'i merging"

definition NewMergingIterator :: "('i \<times> 's) iter_ops \<Rightarrow> 's \<Rightarrow> 'i list \<Rightarrow> 'i merged_iter" where
  "NewMergingIterator ops s its =
     (case its of
        [] \<Rightarrow> Inl NewEmptyIterator
      | [it] \<Rightarrow> Inr (Inl it)
      | _ \<Rightarrow> Inr (Inr (MergingIterator ops s its)))"

definition merged_ops :: "('i \<times> 's) iter_ops \<Rightarrow> comparator \<Rightarrow> ('i merged_iter \<times> 's) iter_ops" where
  "merged_ops ops c = sum_ops empty_ops (sum_ops ops (merging_ops ops c))"

section \<open>The contract of iterators that share a state\<close>

text \<open>The state fulfils its invariant, whatever iterator changes it.\<close>

definition with_state :: "('s \<Rightarrow> bool) \<Rightarrow> (entries \<Rightarrow> 'i \<Rightarrow> nat \<Rightarrow> bool) \<Rightarrow> entries \<Rightarrow> 'i \<times> 's \<Rightarrow> nat \<Rightarrow> bool" where
  "with_state s_ok P kvs it p \<longleftrightarrow> s_ok (snd it) \<and> P kvs (fst it) p"

definition empty_at :: "entries \<Rightarrow> empty_iter \<Rightarrow> nat \<Rightarrow> bool" where
  "empty_at kvs e i \<longleftrightarrow> kvs = [] \<and> ei_status e = OK \<and> i = 0"

interpretation empty_list: list_iterator empty_ops c ok "with_state s_ok empty_at" for c ok s_ok
  by unfold_locales (auto simp: with_state_def empty_at_def empty_ops_def)

definition sum_at :: "(entries \<Rightarrow> 'a \<Rightarrow> nat \<Rightarrow> bool) \<Rightarrow> (entries \<Rightarrow> 'b \<Rightarrow> nat \<Rightarrow> bool) \<Rightarrow> entries \<Rightarrow> 'a + 'b \<Rightarrow> nat \<Rightarrow> bool" where
  "sum_at p q kvs it i = (case it of Inl a \<Rightarrow> p kvs a i | Inr b \<Rightarrow> q kvs b i)"

lemma move_sum_at:
  assumes "with_state s_ok (sum_at p q) kvs it i"
    and "\<And>x. with_state s_ok p kvs x i \<Longrightarrow> \<exists>x'. f x = Some x' \<and> with_state s_ok p kvs x' j"
    and "\<And>x. with_state s_ok q kvs x i \<Longrightarrow> \<exists>x'. g x = Some x' \<and> with_state s_ok q kvs x' j"
  shows "\<exists>it'. move_sum f g it = Some it' \<and> with_state s_ok (sum_at p q) kvs it' j"
proof -
  obtain x s where it: "it = (x, s)" by fastforce
  show ?thesis
  proof (cases x)
    case (Inl a)
    with assms(1) it have "with_state s_ok p kvs (a, s) i" by (simp add: with_state_def sum_at_def)
    from assms(2) [OF this] show ?thesis by (auto simp: it Inl move_sum_def get_sum_def with_state_def sum_at_def)
  next
    case (Inr b)
    with assms(1) it have "with_state s_ok q kvs (b, s) i" by (simp add: with_state_def sum_at_def)
    from assms(3) [OF this] show ?thesis by (auto simp: it Inr move_sum_def get_sum_def with_state_def sum_at_def)
  qed
qed

lemma sum_iterator:
  assumes a: "list_iterator a c ok (with_state s_ok p)" and b: "list_iterator b c ok (with_state s_ok q)"
  shows "list_iterator (sum_ops a b) c ok (with_state s_ok (sum_at p q))"
proof (unfold_locales, goal_cases)
  case (1 kvs it i)
  then show ?case using list_iterator.at_valid [OF a] list_iterator.at_valid [OF b]
    by (cases it; cases "fst it") (auto simp: with_state_def sum_at_def sum_ops_def get_sum_def)
next
  case (2 kvs it i)
  then show ?case using list_iterator.at_bound [OF a] list_iterator.at_bound [OF b]
    by (cases it; cases "fst it") (auto simp: with_state_def sum_at_def)
next
  case (3 kvs it i)
  then show ?case using list_iterator.at_entry [OF a] list_iterator.at_entry [OF b]
    by (cases it; cases "fst it") (auto simp: with_state_def sum_at_def sum_ops_def get_sum_def)
next
  case (4 kvs it i)
  then show ?case using list_iterator.at_status [OF a] list_iterator.at_status [OF b]
    by (cases it; cases "fst it") (auto simp: with_state_def sum_at_def sum_ops_def get_sum_def)
next
  case (5 kvs it i t)
  show ?case unfolding sum_ops_def iter_ops.simps
    by (rule move_sum_at [OF 5(1)]) (rule list_iterator.at_seek [OF a _ 5(2)], assumption, rule list_iterator.at_seek [OF b _ 5(2)])
next
  case (6 kvs it i)
  show ?case unfolding sum_ops_def iter_ops.simps
    by (rule move_sum_at [OF 6]) (rule list_iterator.at_first [OF a], assumption, rule list_iterator.at_first [OF b])
next
  case (7 kvs it i)
  show ?case unfolding sum_ops_def iter_ops.simps
    by (rule move_sum_at [OF 7]) (rule list_iterator.at_last [OF a], assumption, rule list_iterator.at_last [OF b])
next
  case (8 kvs it i)
  show ?case unfolding sum_ops_def iter_ops.simps
    by (rule move_sum_at [OF 8(1)]) (rule list_iterator.at_next [OF a _ 8(2)], assumption, rule list_iterator.at_next [OF b _ 8(2)])
next
  case (9 kvs it i)
  show ?case unfolding sum_ops_def iter_ops.simps
    by (rule move_sum_at [OF 9(1)]) (rule list_iterator.at_prev [OF a _ 9(2)], assumption, rule list_iterator.at_prev [OF b _ 9(2)])
qed

section \<open>Walking over the children\<close>

locale shared_iterator = list_iterator ops c ok "with_state s_ok pos_at"
  for ops :: "('i \<times> 's) iter_ops" and c :: comparator and ok :: "slice \<Rightarrow> bool" and s_ok :: "'s \<Rightarrow> bool"
    and pos_at :: "entries \<Rightarrow> 'i \<Rightarrow> nat \<Rightarrow> bool"
begin

definition sw_at :: "entries \<Rightarrow> 'i iter_wrapper \<Rightarrow> nat \<Rightarrow> bool" where
  "sw_at kvs w i \<longleftrightarrow>
     (\<exists>it. iw_iter w = Some it \<and> pos_at kvs it i) \<and> (iw_valid w \<longleftrightarrow> i < length kvs) \<and>
     (i < length kvs \<longrightarrow> iw_key w = fst (kvs ! i))"

abbreviation wrap :: "entries \<Rightarrow> 'i iter_wrapper \<times> 's \<Rightarrow> nat \<Rightarrow> bool" where
  "wrap \<equiv> with_state s_ok sw_at"

lemma sw_Update_at: "s_ok s \<Longrightarrow> pos_at kvs it i \<Longrightarrow> sw_at kvs (sw_Update ops s (w\<lparr>iw_iter := Some it\<rparr>)) i"
  using at_valid [of kvs "(it, s)" i] at_entry [of kvs "(it, s)" i] by (auto simp: sw_at_def sw_Update_def with_state_def)

lemma move_wrap:
  assumes "wrap kvs ws i" "\<And>x. with_state s_ok pos_at kvs x i \<Longrightarrow> \<exists>x'. mv x = Some x' \<and> with_state s_ok pos_at kvs x' j"
  shows "\<exists>ws'. sw_move ops mv ws = Some ws' \<and> wrap kvs ws' j"
proof -
  obtain w s it where ws: "ws = (w, s)" "s_ok s" "iw_iter w = Some it" "pos_at kvs it i"
    using assms(1) by (cases ws) (auto simp: with_state_def sw_at_def)
  then obtain it' s' where "mv (it, s) = Some (it', s')" "s_ok s'" "pos_at kvs it' j"
    using assms(2) [of "(it, s)"] by (auto simp: with_state_def)
  then show ?thesis using ws(1,3) sw_Update_at [of s' kvs it' j w] by (simp add: sw_move_def with_state_def)
qed

lemma wrap_seek:
  assumes "wrap kvs ws i" "ok t"
  shows "\<exists>ws'. sw_move ops (it_Seek ops t) ws = Some ws' \<and> wrap kvs ws' (first_not_less c t (map fst kvs))"
  by (rule move_wrap [OF assms(1)]) (rule at_seek [OF _ assms(2)])

lemma wrap_first: "wrap kvs ws i \<Longrightarrow> \<exists>ws'. sw_move ops (it_SeekToFirst ops) ws = Some ws' \<and> wrap kvs ws' 0"
  by (rule move_wrap, assumption) (rule at_first)

lemma wrap_last: "wrap kvs ws i \<Longrightarrow> \<exists>ws'. sw_move ops (it_SeekToLast ops) ws = Some ws' \<and> wrap kvs ws' (length kvs - 1)"
  by (rule move_wrap, assumption) (rule at_last)

lemma wrap_next:
  assumes "wrap kvs ws i" "i < length kvs"
  shows "\<exists>ws'. sw_move ops (it_Next ops) ws = Some ws' \<and> wrap kvs ws' (Suc i)"
  by (rule move_wrap [OF assms(1)]) (rule at_next [OF _ assms(2)])

lemma wrap_prev:
  assumes "wrap kvs ws i" "i < length kvs"
  shows "\<exists>ws'. sw_move ops (it_Prev ops) ws = Some ws' \<and> wrap kvs ws' (if i = 0 then length kvs else i - 1)"
  by (rule move_wrap [OF assms(1)]) (rule at_prev [OF _ assms(2)])

lemma sw_entry:
  assumes "sw_at kvs w i" "i < length kvs" "s_ok s"
  shows "iw_valid w" "iw_key w = fst (kvs ! i)" "sw_value ops s w = Some (snd (kvs ! i))"
  using assms at_entry by (auto simp: sw_at_def sw_value_def with_state_def)

lemma sw_status_at: "sw_at kvs w i \<Longrightarrow> s_ok s \<Longrightarrow> sw_status ops s w = Some OK"
  using at_status by (auto simp: sw_at_def sw_status_def with_state_def)

lemma sw_bound: "sw_at kvs w i \<Longrightarrow> s_ok s \<Longrightarrow> i \<le> length kvs"
  using at_bound by (auto simp: sw_at_def with_state_def)

end

lemma for_children_all:
  assumes "s_ok s" "\<And>i s. i < length ws \<Longrightarrow> s_ok s \<Longrightarrow> \<exists>w s'. f (k + i) (ws ! i, s) = Some (w, s') \<and> s_ok s' \<and> P i w"
  shows "\<exists>ws' s'. for_children f k ws s = Some (ws', s') \<and> s_ok s' \<and> length ws' = length ws \<and> (\<forall>i<length ws. P i (ws' ! i))"
  using assms
proof (induction ws arbitrary: k P s)
  case (Cons w ws)
  obtain w1 s1 where w1: "f k (w, s) = Some (w1, s1)" "s_ok s1" "P 0 w1" using Cons.prems(2) [of 0 s] Cons.prems(1) by auto
  have "\<And>i s. i < length ws \<Longrightarrow> s_ok s \<Longrightarrow> \<exists>w s'. f (Suc k + i) (ws ! i, s) = Some (w, s') \<and> s_ok s' \<and> P (Suc i) w"
    using Cons.prems(2) [of "Suc _"] by simp
  from Cons.IH [OF w1(2) this] obtain ws1 s2 where "for_children f (Suc k) ws s1 = Some (ws1, s2)" "s_ok s2" "length ws1 = length ws"
    "\<forall>i<length ws. P (Suc i) (ws1 ! i)" by blast
  with w1 show ?case by (auto simp: nth_Cons split: nat.splits)
qed simp

lemma find_child_best:
  assumes "\<And>j. j \<in> S \<Longrightarrow> iw_valid (ch ! j) \<Longrightarrow> j \<noteq> b \<Longrightarrow>
      better (iw_key (ch ! b)) (iw_key (ch ! j)) \<and> \<not> better (iw_key (ch ! j)) (iw_key (ch ! b))"
    and "iw_valid (ch ! b)" "set js \<subseteq> S" "best = Some b \<or> b \<in> set js"
    and "\<And>s. best = Some s \<Longrightarrow> s \<in> S \<and> iw_valid (ch ! s)" "distinct js"
  shows "find_child better ch js best = Some b"
  using assms(3-6)
proof (induction js arbitrary: best)
  case Nil then show ?case by (simp add: find_child_def)
next
  case (Cons i js)
  define best1 where "best1 = (if iw_valid (ch ! i) then
      case best of None \<Rightarrow> Some i | Some b \<Rightarrow> if better (iw_key (ch ! i)) (iw_key (ch ! b)) then Some i else best
    else best)"
  have step: "find_child better ch (i # js) best = find_child better ch js best1"
    by (simp add: find_child_def best1_def)
  have keep: "best1 = Some b" if "best = Some b \<or> i = b"
    using that assms(1,2) Cons.prems by (auto simp: best1_def split: option.splits)
  have "best1 = Some b \<or> b \<in> set js" using keep Cons.prems(2) by auto
  moreover have "s \<in> S \<and> iw_valid (ch ! s)" if "best1 = Some s" for s
    using that Cons.prems(1,3) by (auto simp: best1_def split: if_splits option.splits)
  ultimately show ?case unfolding step using Cons.IH [of best1] Cons.prems by simp
qed

lemma find_child_none: "(\<And>j. j \<in> set js \<Longrightarrow> \<not> iw_valid (ch ! j)) \<Longrightarrow> find_child better ch js None = None"
  by (induction js) (auto simp: find_child_def)

section \<open>The merged list\<close>

text \<open>The entries of the merged list come with the child they belong to.\<close>

type_synonym merged = "((slice \<times> slice) \<times> nat) list"

definition of_child :: "nat \<Rightarrow> merged \<Rightarrow> entries" where
  "of_child i ms = map fst (filter (\<lambda>x. snd x = i) ms)"

definition merge_of :: "comparator \<Rightarrow> (slice \<Rightarrow> bool) \<Rightarrow> entries list \<Rightarrow> merged \<Rightarrow> bool" where
  "merge_of c ok kss ms \<longleftrightarrow> sorted_wrt (\<lambda>a b. Compare c a b < 0) (map (fst \<circ> fst) ms) \<and>
     (\<forall>x\<in>set ms. ok (fst (fst x)) \<and> snd x < length kss) \<and> (\<forall>i<length kss. kss ! i = of_child i ms)"

definition count_before :: "nat \<Rightarrow> merged \<Rightarrow> nat \<Rightarrow> nat" where
  "count_before i ms p = length (of_child i (take p ms))"

lemma of_child_Cons: "of_child i (x # ms) = (if snd x = i then fst x # of_child i ms else of_child i ms)"
  by (simp add: of_child_def)

lemma count_before_0 [simp]: "count_before i ms 0 = 0"
  by (simp add: count_before_def of_child_def)

lemma count_before_all: "length ms \<le> p \<Longrightarrow> count_before i ms p = length (of_child i ms)"
  by (simp add: count_before_def)

lemma count_before_Suc: "p < length ms \<Longrightarrow> count_before i ms (Suc p) = (if snd (ms ! p) = i then Suc (count_before i ms p) else count_before i ms p)"
  by (simp add: count_before_def take_Suc_conv_app_nth of_child_def)

lemma count_before_entry:
  assumes "p < length ms" "snd (ms ! p) = i"
  shows "count_before i ms p < length (of_child i ms)" "of_child i ms ! count_before i ms p = fst (ms ! p)"
proof -
  have "of_child i ms = of_child i (take p ms) @ fst (ms ! p) # of_child i (drop (Suc p) ms)"
    using assms by (subst id_take_nth_drop [OF assms(1)]) (simp add: of_child_def)
  then show "count_before i ms p < length (of_child i ms)" "of_child i ms ! count_before i ms p = fst (ms ! p)"
    by (simp_all add: count_before_def nth_append)
qed

lemma count_before_next:
  assumes "p \<le> length ms" "count_before i ms p < length (of_child i ms)"
  shows "\<exists>q\<ge>p. q < length ms \<and> snd (ms ! q) = i \<and> count_before i ms q = count_before i ms p"
  using assms
proof (induction "length ms - p" arbitrary: p)
  case 0 then show ?case by (simp add: count_before_all)
next
  case (Suc n)
  then have p: "p < length ms" by simp
  show ?case
  proof (cases "snd (ms ! p) = i")
    case False
    then have b: "count_before i ms (Suc p) < length (of_child i ms)" using Suc.prems(2) count_before_Suc [OF p, of i] by simp
    have n: "n = length ms - Suc p" using Suc.hyps(2) by simp
    obtain q where "q \<ge> Suc p" "q < length ms" "snd (ms ! q) = i" "count_before i ms q = count_before i ms (Suc p)"
      using Suc.hyps(1) [OF n Suc_leI [OF p] b] by blast
    then show ?thesis using False count_before_Suc [OF p, of i] by (auto intro!: exI [of _ q])
  qed (use p in blast)
qed

lemma count_before_prev:
  assumes "p \<le> length ms" "0 < count_before i ms p"
  shows "\<exists>q<p. snd (ms ! q) = i \<and> count_before i ms q = count_before i ms p - 1"
  using assms
proof (induction p)
  case (Suc p)
  then have p: "p < length ms" by simp
  show ?case
  proof (cases "snd (ms ! p) = i")
    case True then show ?thesis using count_before_Suc [OF p, of i] by auto
  next
    case False
    then obtain q where "q < p" "snd (ms ! q) = i" "count_before i ms q = count_before i ms p - 1"
      using Suc count_before_Suc [OF p, of i] by auto
    then show ?thesis using False count_before_Suc [OF p, of i] by (auto intro!: exI [of _ q])
  qed
qed simp

lemma takeWhile_filter: "sorted_wrt (\<lambda>a b. P b \<longrightarrow> P a) xs \<Longrightarrow> takeWhile P (filter Q xs) = filter Q (takeWhile P xs)"
proof (induction xs)
  case (Cons x xs)
  show ?case
  proof (cases "P x")
    case False
    with Cons.prems have "\<forall>y\<in>set xs. \<not> P y" by auto
    then show ?thesis using False by (auto simp: takeWhile_eq_Nil_iff) (metis filter_is_subset hd_in_set subset_code(1))
  qed (use Cons in auto)
qed simp

context block_order
begin

lemma merge_of_search:
  assumes "merge_of c ok kss ms" "i < length kss" "ok t"
  shows "first_not_less c t (map fst (kss ! i)) = count_before i ms (first_not_less c t (map (fst \<circ> fst) ms))"
proof -
  let ?P = "\<lambda>k. Compare c k t < 0"
  let ?Q = "\<lambda>x. ?P (fst (fst x))"
  have s: "sorted_wrt (\<lambda>a b. Compare c (fst (fst a)) (fst (fst b)) < 0) ms" and oks: "\<forall>x\<in>set ms. ok (fst (fst x))"
    and k: "kss ! i = of_child i ms" using assms(1,2) by (auto simp: merge_of_def sorted_wrt_map)
  have "sorted_wrt (\<lambda>a b. ?Q b \<longrightarrow> ?Q a) ms"
  proof (rule sorted_wrt_mono_rel [OF _ s])
    fix a b assume "a \<in> set ms" "b \<in> set ms" "Compare c (fst (fst a)) (fst (fst b)) < 0"
    then show "?Q b \<longrightarrow> ?Q a" using oks assms(3) cmp_less_le [of "fst (fst a)" "fst (fst b)" t] by simp
  qed
  from takeWhile_filter [OF this, of "\<lambda>x. snd x = i"]
  have "takeWhile ?Q (filter (\<lambda>x. snd x = i) ms) = filter (\<lambda>x. snd x = i) (takeWhile ?Q ms)" .
  then have "length (takeWhile ?P (map fst (of_child i ms))) = length (of_child i (takeWhile ?Q ms))"
    by (simp add: of_child_def takeWhile_map o_def)
  also have "takeWhile ?Q ms = take (length (takeWhile ?Q ms)) ms" by (rule takeWhile_eq_take)
  finally show ?thesis by (simp add: k count_before_def takeWhile_map o_def)
qed

lemma merge_of_keys:
  assumes "merge_of c ok kss ms" "p < q" "q < length ms"
  shows "Compare c (fst (fst (ms ! p))) (fst (fst (ms ! q))) < 0" "0 < Compare c (fst (fst (ms ! q))) (fst (fst (ms ! p)))"
proof -
  show l: "Compare c (fst (fst (ms ! p))) (fst (fst (ms ! q))) < 0"
    using assms sorted_wrt_nth_less [of "\<lambda>a b. Compare c a b < 0" "map (fst \<circ> fst) ms" p q] by (simp add: merge_of_def)
  then show "0 < Compare c (fst (fst (ms ! q))) (fst (fst (ms ! p)))"
    using assms cmp_swap by (simp add: merge_of_def)
qed

lemma merge_of_at_key:
  assumes "merge_of c ok kss ms" "p < length ms"
  shows "first_not_less c (fst (fst (ms ! p))) (map (fst \<circ> fst) ms) = p"
proof -
  let ?P = "\<lambda>k. Compare c k (fst (fst (ms ! p))) < 0"
  have "map (fst \<circ> fst) ms = map (fst \<circ> fst) (take p ms) @ map (fst \<circ> fst) (drop p ms)"
    by (simp flip: map_append)
  moreover have "\<forall>k\<in>set (map (fst \<circ> fst) (take p ms)). ?P k"
    using merge_of_keys(1) [OF assms(1) _ assms(2)] assms(2) by (simp add: all_set_conv_all_nth)
  moreover have "map (fst \<circ> fst) (drop p ms) = [] \<or> \<not> ?P (hd (map (fst \<circ> fst) (drop p ms)))"
    using assms cmp_self by (simp add: hd_map hd_drop_conv_nth merge_of_def)
  ultimately show ?thesis
    using takeWhile_length_eqI [of "map (fst \<circ> fst) (take p ms)" ?P "map (fst \<circ> fst) (drop p ms)"] assms(2) by simp
qed

end

section \<open>The merging iterator\<close>

locale merging_iterator = order: block_order c ok + child: shared_iterator ops c ok s_ok pos_at
  for c :: comparator and ok :: "slice \<Rightarrow> bool" and ops :: "('i \<times> 's) iter_ops" and s_ok :: "'s \<Rightarrow> bool"
    and pos_at :: "entries \<Rightarrow> 'i \<Rightarrow> nat \<Rightarrow> bool"
begin

definition children_at :: "entries list \<Rightarrow> 'i iter_wrapper list \<Rightarrow> (nat \<Rightarrow> nat) \<Rightarrow> bool" where
  "children_at kss ch f \<longleftrightarrow> length ch = length kss \<and> (\<forall>i<length kss. child.sw_at (kss ! i) (ch ! i) (f i))"

text \<open>The position of a child in the reverse direction, from the number of entries that are not after the current one.\<close>

definition behind :: "entries \<Rightarrow> nat \<Rightarrow> nat" where
  "behind kvs n = (if n = 0 then length kvs else n - 1)"

definition mi_at :: "entries list \<Rightarrow> merged \<Rightarrow> 'i merging \<Rightarrow> nat \<Rightarrow> bool" where
  "mi_at kss ms m p \<longleftrightarrow> (\<exists>f. children_at kss (mi_children m) f) \<and>
     (if p < length ms then mi_current m = Some (snd (ms ! p)) \<and>
        children_at kss (mi_children m)
          (\<lambda>i. if mi_direction m = kForward then count_before i ms p else behind (kss ! i) (count_before i ms (Suc p)))
      else p = length ms \<and> mi_current m = None)"

lemma children_at_cong: "children_at kss ch f \<Longrightarrow> (\<And>i. i < length kss \<Longrightarrow> f i = g i) \<Longrightarrow> children_at kss ch g"
  by (simp add: children_at_def)

lemma move_children:
  assumes "children_at kss ch f" "s_ok s"
    and "\<And>i w. i < length kss \<Longrightarrow> child.wrap (kss ! i) w (f i) \<Longrightarrow> \<exists>w'. mv i w = Some w' \<and> child.wrap (kss ! i) w' (g i)"
  shows "\<exists>ch' s'. for_children mv 0 ch s = Some (ch', s') \<and> s_ok s' \<and> children_at kss ch' g"
proof -
  have "\<exists>w s'. mv (0 + i) (ch ! i, s) = Some (w, s') \<and> s_ok s' \<and> child.sw_at (kss ! i) w (g i)" if "i < length ch" "s_ok s" for i s
    using assms(1) assms(3) [of i "(ch ! i, s)"] that by (auto simp: children_at_def with_state_def)
  from for_children_all [of s_ok s ch mv 0 "\<lambda>i w. child.sw_at (kss ! i) w (g i)", OF assms(2) this] assms(1) show ?thesis
    by (auto simp: children_at_def)
qed

lemmas child_entry = child.sw_entry

lemma merge_ofD:
  assumes "merge_of c ok kss ms"
  shows "i < length kss \<Longrightarrow> kss ! i = of_child i ms" "p < length ms \<Longrightarrow> snd (ms ! p) < length kss" "p < length ms \<Longrightarrow> ok (fst (fst (ms ! p)))"
    "i < length kss \<Longrightarrow> count_before i ms (length ms) = length (kss ! i)"
  using assms by (auto simp: merge_of_def count_before_all)

lemma FindSmallest_at:
  assumes s: "s_ok s" and M: "merge_of c ok kss ms" and C: "children_at kss (mi_children m) (\<lambda>i. count_before i ms p)" and p: "p \<le> length ms"
  shows "mi_at kss ms (FindSmallest c m\<lparr>mi_direction := kForward\<rparr>) p"
proof -
  let ?ch = "mi_children m"
  have n: "length ?ch = length kss" and w: "\<And>i. i < length kss \<Longrightarrow> child.sw_at (kss ! i) (?ch ! i) (count_before i ms p)"
    using C by (auto simp: children_at_def)
  have key: "\<exists>q\<ge>p. q < length ms \<and> snd (ms ! q) = i \<and> iw_key (?ch ! i) = fst (fst (ms ! q))" if "i < length kss" "iw_valid (?ch ! i)" for i
  proof -
    have v: "count_before i ms p < length (of_child i ms)" using w [OF that(1)] that(2) merge_ofD(1) [OF M that(1)] by (simp add: child.sw_at_def)
    with count_before_next [OF p v] child_entry(2) [OF w _ s] that merge_ofD(1) [OF M that(1)] count_before_entry show ?thesis by metis
  qed
  show ?thesis
  proof (cases "p < length ms")
    case False
    then have "\<not> iw_valid (?ch ! i)" if "i < length kss" for i using key [OF that] p by auto
    then show ?thesis using C False p n find_child_none [of "[0..<length ?ch]" ?ch]
      by (auto simp: mi_at_def FindSmallest_def)
  next
    case True
    let ?o = "snd (ms ! p)"
    have o: "?o < length kss" by (rule merge_ofD(2) [OF M True])
    have e: "iw_valid (?ch ! ?o)" "iw_key (?ch ! ?o) = fst (fst (ms ! p))"
      using child_entry [OF w [OF o] _ s] count_before_entry [OF True refl] merge_ofD(1) [OF M o] by simp_all
    have "find_child (\<lambda>k s. Compare c k s < 0) ?ch [0..<length ?ch] None = Some ?o"
    proof (rule find_child_best [of "{..<length kss}"])
      fix j assume j: "j \<in> {..<length kss}" "iw_valid (?ch ! j)" "j \<noteq> ?o"
      then obtain q where q: "q \<ge> p" "q < length ms" "snd (ms ! q) = j" "iw_key (?ch ! j) = fst (fst (ms ! q))" using key by blast
      then have "p < q" using j(3) le_neq_implies_less by blast
      from order.merge_of_keys [OF M this q(2)] show "Compare c (iw_key (?ch ! ?o)) (iw_key (?ch ! j)) < 0 \<and>
          \<not> Compare c (iw_key (?ch ! j)) (iw_key (?ch ! ?o)) < 0" by (simp add: e q)
    qed (use e o n in auto)
    then show ?thesis using C True by (auto simp: mi_at_def FindSmallest_def)
  qed
qed

lemma FindLargest_at:
  assumes s: "s_ok s" and M: "merge_of c ok kss ms" and C: "children_at kss (mi_children m) (\<lambda>i. behind (kss ! i) (count_before i ms p))" and p: "p \<le> length ms"
  shows "mi_at kss ms (FindLargest c m\<lparr>mi_direction := kReverse\<rparr>) (if p = 0 then length ms else p - 1)"
proof -
  let ?ch = "mi_children m"
  have n: "length ?ch = length kss" and w: "\<And>i. i < length kss \<Longrightarrow> child.sw_at (kss ! i) (?ch ! i) (behind (kss ! i) (count_before i ms p))"
    using C by (auto simp: children_at_def)
  have key: "\<exists>q<p. snd (ms ! q) = i \<and> iw_key (?ch ! i) = fst (fst (ms ! q))" if i: "i < length kss" "iw_valid (?ch ! i)" for i
  proof -
    have v: "behind (kss ! i) (count_before i ms p) < length (kss ! i)" using w [OF i(1)] i(2) by (simp add: child.sw_at_def)
    then have b: "0 < count_before i ms p" "behind (kss ! i) (count_before i ms p) = count_before i ms p - 1" by (auto simp: behind_def split: if_splits)
    from count_before_prev [OF p b(1)] obtain q where q: "q < p" "snd (ms ! q) = i" "count_before i ms q = count_before i ms p - 1" by blast
    have "q < length ms" using q(1) p by simp
    from count_before_entry(2) [OF this q(2)] child_entry(2) [OF w [OF i(1)] v s] have "iw_key (?ch ! i) = fst (fst (ms ! q))"
      unfolding b(2) by (simp add: q merge_ofD(1) [OF M i(1)])
    then show ?thesis using q by blast
  qed
  show ?thesis
  proof (cases "p = 0")
    case True
    then have "\<not> iw_valid (?ch ! i)" if "i < length kss" for i using key [OF that] by auto
    then show ?thesis using C True n find_child_none [of "rev [0..<length ?ch]" ?ch]
      by (auto simp: mi_at_def FindLargest_def)
  next
    case False
    then obtain r where r: "p = Suc r" using not0_implies_Suc by blast
    then have rl: "r < length ms" using p by simp
    let ?o = "snd (ms ! r)"
    have o: "?o < length kss" by (rule merge_ofD(2) [OF M rl])
    have "behind (kss ! ?o) (count_before ?o ms p) = count_before ?o ms r" using count_before_Suc [OF rl, of ?o] by (simp add: r behind_def)
    then have e: "iw_valid (?ch ! ?o)" "iw_key (?ch ! ?o) = fst (fst (ms ! r))"
      using child_entry [OF w [OF o] _ s] count_before_entry [OF rl refl] merge_ofD(1) [OF M o] by simp_all
    have "find_child (\<lambda>k s. Compare c k s > 0) ?ch (rev [0..<length ?ch]) None = Some ?o"
    proof (rule find_child_best [of "{..<length kss}"])
      fix j assume j: "j \<in> {..<length kss}" "iw_valid (?ch ! j)" "j \<noteq> ?o"
      then obtain q where q: "q < p" "snd (ms ! q) = j" "iw_key (?ch ! j) = fst (fst (ms ! q))" using key by blast
      then have "q < r" using j(3) r less_antisym by blast
      from order.merge_of_keys [OF M this rl] show "Compare c (iw_key (?ch ! ?o)) (iw_key (?ch ! j)) > 0 \<and>
          \<not> Compare c (iw_key (?ch ! j)) (iw_key (?ch ! ?o)) > 0" by (simp add: e q)
    qed (use e o n in auto)
    then show ?thesis using C rl by (auto simp: mi_at_def FindLargest_def r)
  qed
qed

lemma seek_children:
  assumes "merge_of c ok kss ms" "children_at kss ch f" "s_ok s" "ok t"
  shows "\<exists>ch' s'. for_children (\<lambda>_. sw_move ops (it_Seek ops t)) 0 ch s = Some (ch', s') \<and> s_ok s' \<and>
    children_at kss ch' (\<lambda>i. count_before i ms (first_not_less c t (map (fst \<circ> fst) ms)))"
proof (rule move_children [OF assms(2,3)])
  fix i w assume i: "i < length kss" "child.wrap (kss ! i) w (f i)"
  show "\<exists>w'. sw_move ops (it_Seek ops t) w = Some w' \<and> child.wrap (kss ! i) w' (count_before i ms (first_not_less c t (map (fst \<circ> fst) ms)))"
    using child.wrap_seek [OF i(2) assms(4)] order.merge_of_search [OF assms(1) i(1) assms(4)] by simp
qed

lemma first_children:
  assumes "merge_of c ok kss ms" "children_at kss ch f" "s_ok s"
  shows "\<exists>ch' s'. for_children (\<lambda>_. sw_move ops (it_SeekToFirst ops)) 0 ch s = Some (ch', s') \<and> s_ok s' \<and> children_at kss ch' (\<lambda>i. count_before i ms 0)"
  by (rule move_children [OF assms(2,3)]) (use child.wrap_first in simp)

lemma last_children:
  assumes "merge_of c ok kss ms" "children_at kss ch f" "s_ok s"
  shows "\<exists>ch' s'. for_children (\<lambda>_. sw_move ops (it_SeekToLast ops)) 0 ch s = Some (ch', s') \<and> s_ok s' \<and>
    children_at kss ch' (\<lambda>i. behind (kss ! i) (count_before i ms (length ms)))"
proof (rule move_children [OF assms(2,3)])
  fix i w assume i: "i < length kss" "child.wrap (kss ! i) w (f i)"
  show "\<exists>w'. sw_move ops (it_SeekToLast ops) w = Some w' \<and> child.wrap (kss ! i) w' (behind (kss ! i) (count_before i ms (length ms)))"
    using child.wrap_last [OF i(2)] merge_ofD(4) [OF assms(1) i(1)] by (cases "kss ! i") (auto simp: behind_def)
qed

text \<open>The current child after the change of direction, and the others.\<close>

lemma wrap_before_key:
  assumes M: "merge_of c ok kss ms" and p: "p < length ms" and i: "i < length kss" "i \<noteq> snd (ms ! p)" and w: "child.wrap (kss ! i) w j"
  shows "\<exists>w'. before_key ops (fst (fst (ms ! p))) w = Some w' \<and> child.wrap (kss ! i) w' (behind (kss ! i) (count_before i ms p))"
proof -
  let ?k = "fst (fst (ms ! p))"
  obtain w1 where w1: "sw_move ops (it_Seek ops ?k) w = Some w1" "child.wrap (kss ! i) w1 (count_before i ms p)"
    using child.wrap_seek [OF w merge_ofD(3) [OF M p]] order.merge_of_search [OF M i(1) merge_ofD(3) [OF M p]]
      order.merge_of_at_key [OF M p] by auto
  show ?thesis
  proof (cases "iw_valid (fst w1)")
    case True
    then have b: "count_before i ms p < length (kss ! i)" using w1(2) by (simp add: child.sw_at_def with_state_def)
    from child.wrap_prev [OF w1(2) b] show ?thesis using w1(1) True by (simp add: before_key_def behind_def)
  next
    case False
    then have "count_before i ms p = length (kss ! i)"
      using w1(2) child.sw_bound by (fastforce simp: child.sw_at_def with_state_def)
    with child.wrap_last [OF w1(2)] show ?thesis using w1(1) False by (auto simp add: before_key_def behind_def)
  qed
qed

lemma wrap_after_key:
  assumes M: "merge_of c ok kss ms" and p: "p < length ms" and i: "i < length kss" "i \<noteq> snd (ms ! p)" and w: "child.wrap (kss ! i) w j"
  shows "\<exists>w'. after_key ops c (fst (fst (ms ! p))) w = Some w' \<and> child.wrap (kss ! i) w' (count_before i ms p)"
proof -
  let ?k = "fst (fst (ms ! p))"
  obtain w1 where w1: "sw_move ops (it_Seek ops ?k) w = Some w1" "child.wrap (kss ! i) w1 (count_before i ms p)"
    using child.wrap_seek [OF w merge_ofD(3) [OF M p]] order.merge_of_search [OF M i(1) merge_ofD(3) [OF M p]]
      order.merge_of_at_key [OF M p] by auto
  then have w1s: "child.sw_at (kss ! i) (fst w1) (count_before i ms p)" "s_ok (snd w1)" by (auto simp: with_state_def)
  have "Compare c ?k (iw_key (fst w1)) \<noteq> 0" if "iw_valid (fst w1)"
  proof -
    have b: "count_before i ms p < length (of_child i ms)" using w1(2) that merge_ofD(1) [OF M i(1)] by (simp add: child.sw_at_def with_state_def)
    from count_before_next [OF less_imp_le [OF p] b] obtain q where
      q: "q \<ge> p" "q < length ms" "snd (ms ! q) = i" "count_before i ms q = count_before i ms p" by blast
    then have "p < q" using i(2) le_neq_implies_less by blast
    moreover have "iw_key (fst w1) = fst (fst (ms ! q))"
      using child_entry(2) [OF w1s(1) _ w1s(2)] b count_before_entry(2) [OF q(2,3)] merge_ofD(1) [OF M i(1)] q(4) by simp
    ultimately show ?thesis using order.merge_of_keys(1) [OF M _ q(2)] by fastforce
  qed
  then show ?thesis using w1 by (cases w1) (auto simp: after_key_def)
qed

lemma mi_at_key:
  assumes "merge_of c ok kss ms" "mi_at kss ms m p" "p < length ms" "s_ok s"
  shows "mi_key m = fst (fst (ms ! p))" "mi_value ops s m = Some (snd (fst (ms ! p)))" "mi_current m = Some (snd (ms ! p))"
proof -
  let ?o = "snd (ms ! p)"
  have o: "?o < length kss" and k: "kss ! ?o = of_child ?o ms" using merge_ofD [OF assms(1)] assms(3) by auto
  have "behind (kss ! ?o) (count_before ?o ms (Suc p)) = count_before ?o ms p" using count_before_Suc [OF assms(3), of ?o] by (simp add: behind_def)
  then have w: "child.sw_at (kss ! ?o) (mi_children m ! ?o) (count_before ?o ms p)" and c: "mi_current m = Some ?o"
    using assms(2,3) o by (auto simp: mi_at_def children_at_def split: if_splits)
  from child_entry [OF w _ assms(4)] count_before_entry [OF assms(3) refl] k c
  show "mi_key m = fst (fst (ms ! p))" "mi_value ops s m = Some (snd (fst (ms ! p)))" "mi_current m = Some ?o"
    by (simp_all add: mi_key_def mi_value_def)
qed

text \<open>The moves of the merging iterator.\<close>

definition m_at :: "entries list \<Rightarrow> merged \<Rightarrow> 'i merging \<times> 's \<Rightarrow> nat \<Rightarrow> bool" where
  "m_at kss ms x p \<longleftrightarrow> s_ok (snd x) \<and> mi_at kss ms (fst x) p"

lemma merging_seek:
  assumes "merge_of c ok kss ms" "children_at kss (mi_children m) f" "s_ok s" "ok t"
  shows "\<exists>x. mi_Seek ops c t (m, s) = Some x \<and> m_at kss ms x (first_not_less c t (map (fst \<circ> fst) ms))"
proof -
  let ?p = "first_not_less c t (map (fst \<circ> fst) ms)"
  obtain ch s1 where ch: "for_children (\<lambda>_. sw_move ops (it_Seek ops t)) 0 (mi_children m) s = Some (ch, s1)" "s_ok s1"
    "children_at kss ch (\<lambda>i. count_before i ms ?p)"
    using seek_children [OF assms] by blast
  have "?p \<le> length ms" using length_takeWhile_le [of _ "map (fst \<circ> fst) ms"] by (metis length_map)
  then show ?thesis using FindSmallest_at [OF ch(2) assms(1), of "m\<lparr>mi_children := ch\<rparr>" ?p] ch by (simp add: mi_Seek_def m_at_def)
qed

lemma merging_first:
  assumes "merge_of c ok kss ms" "children_at kss (mi_children m) f" "s_ok s"
  shows "\<exists>x. mi_SeekToFirst ops c (m, s) = Some x \<and> m_at kss ms x 0"
proof -
  obtain ch s1 where ch: "for_children (\<lambda>_. sw_move ops (it_SeekToFirst ops)) 0 (mi_children m) s = Some (ch, s1)" "s_ok s1"
    "children_at kss ch (\<lambda>i. count_before i ms 0)"
    using first_children [OF assms] by blast
  then show ?thesis using FindSmallest_at [OF ch(2) assms(1), of "m\<lparr>mi_children := ch\<rparr>" 0] by (simp add: mi_SeekToFirst_def m_at_def)
qed

lemma merging_last:
  assumes "merge_of c ok kss ms" "children_at kss (mi_children m) f" "s_ok s"
  shows "\<exists>x. mi_SeekToLast ops c (m, s) = Some x \<and> m_at kss ms x (length ms - 1)"
proof -
  obtain ch s1 where ch: "for_children (\<lambda>_. sw_move ops (it_SeekToLast ops)) 0 (mi_children m) s = Some (ch, s1)" "s_ok s1"
    "children_at kss ch (\<lambda>i. behind (kss ! i) (count_before i ms (length ms)))"
    using last_children [OF assms] by blast
  then show ?thesis using FindLargest_at [OF ch(2) assms(1), of "m\<lparr>mi_children := ch\<rparr>" "length ms"]
    by (cases ms) (simp_all add: mi_SeekToLast_def m_at_def)
qed

lemma Find_direction:
  "mi_direction m = d \<Longrightarrow> FindSmallest c m\<lparr>mi_direction := d\<rparr> = FindSmallest c m"
  "mi_direction m = d \<Longrightarrow> FindLargest c m\<lparr>mi_direction := d\<rparr> = FindLargest c m"
  by (cases m, simp add: FindSmallest_def) (cases m, simp add: FindLargest_def)

text \<open>After \<open>turn\<close> the children stand where the other direction has them, the current one at its entry.\<close>

lemma turn_at:
  assumes M: "merge_of c ok kss ms" and A: "mi_at kss ms m p" and p: "p < length ms" and s: "s_ok s"
    and f: "\<And>i w j. i < length kss \<Longrightarrow> i \<noteq> snd (ms ! p) \<Longrightarrow> child.wrap (kss ! i) w j \<Longrightarrow>
      \<exists>w'. f (fst (fst (ms ! p))) w = Some w' \<and> child.wrap (kss ! i) w' (g i)"
    and g: "g (snd (ms ! p)) = count_before (snd (ms ! p)) ms p"
    and d: "mi_direction m = d \<Longrightarrow> children_at kss (mi_children m) g"
  shows "\<exists>m' s'. turn f d (m, s) = Some (m', s') \<and> s_ok s' \<and> mi_current m' = mi_current m \<and> mi_direction m' = d \<and> children_at kss (mi_children m') g"
proof (cases "mi_direction m = d")
  case True then show ?thesis using d s by (simp add: turn_def)
next
  case False
  let ?o = "snd (ms ! p)"
  have "behind (kss ! ?o) (count_before ?o ms (Suc p)) = count_before ?o ms p" using count_before_Suc [OF p, of ?o] by (simp add: behind_def)
  then have h: "children_at kss (mi_children m) (\<lambda>i. if i = ?o then count_before ?o ms p else
      (if mi_direction m = kForward then count_before i ms p else behind (kss ! i) (count_before i ms (Suc p))))"
    using A p unfolding mi_at_def by (auto intro: children_at_cong)
  have "\<exists>ch s'. for_children (\<lambda>i child. if Some i \<noteq> mi_current m then f (mi_key m) child else Some child) 0 (mi_children m) s = Some (ch, s') \<and>
      s_ok s' \<and> children_at kss ch g"
    by (rule move_children [OF h s]) (use f g mi_at_key [OF M A p s] in auto)
  then show ?thesis using False by (auto simp: turn_def)
qed

lemma move_current_at:
  assumes "children_at kss (mi_children m) g" "mi_current m = Some j" "j < length kss" "s_ok s"
    and "\<And>w. child.wrap (kss ! j) w (g j) \<Longrightarrow> \<exists>w'. sw_move ops mv w = Some w' \<and> child.wrap (kss ! j) w' q"
  shows "\<exists>m' s'. move_current ops mv (m, s) = Some (m', s') \<and> s_ok s' \<and> mi_direction m' = mi_direction m \<and> children_at kss (mi_children m') (g(j := q))"
proof -
  have "child.wrap (kss ! j) (mi_children m ! j, s) (g j)" using assms(1,3,4) by (simp add: children_at_def with_state_def)
  from assms(5) [OF this] obtain w s1 where "sw_move ops mv (mi_children m ! j, s) = Some (w, s1)" "s_ok s1" "child.sw_at (kss ! j) w q"
    by (auto simp: with_state_def)
  then show ?thesis using assms(1,2,3) by (auto simp: move_current_def children_at_def nth_list_update)
qed

lemma merging_next:
  assumes M: "merge_of c ok kss ms" and A: "mi_at kss ms m p" and p: "p < length ms" and s: "s_ok s"
  shows "\<exists>x. mi_Next ops c (m, s) = Some x \<and> m_at kss ms x (Suc p)"
proof -
  let ?o = "snd (ms ! p)"
  have o: "?o < length kss" and b: "count_before ?o ms p < length (kss ! ?o)"
    using merge_ofD [OF M] p count_before_entry(1) [OF p refl] by auto
  have fw: "mi_direction m = kForward \<Longrightarrow> children_at kss (mi_children m) (\<lambda>i. count_before i ms p)"
    using A p by (simp add: mi_at_def)
  obtain m1 s1 where m1: "turn (after_key ops c) kForward (m, s) = Some (m1, s1)" "mi_current m1 = mi_current m" "mi_direction m1 = kForward"
    "children_at kss (mi_children m1) (\<lambda>i. count_before i ms p)" "s_ok s1"
    using turn_at [OF M A p s, of "after_key ops c" "\<lambda>i. count_before i ms p" kForward] wrap_after_key [OF M p] fw by auto
  have c1: "mi_current m1 = Some ?o" using m1(2) mi_at_key(3) [OF M A p s] by simp
  obtain m2 s2 where m2: "move_current ops (it_Next ops) (m1, s1) = Some (m2, s2)" "mi_direction m2 = kForward"
    "children_at kss (mi_children m2) ((\<lambda>i. count_before i ms p)(?o := Suc (count_before ?o ms p)))" "s_ok s2"
    using move_current_at [OF m1(4) c1 o m1(5) child.wrap_next [OF _ b]] m1(3) by auto
  have "children_at kss (mi_children m2) (\<lambda>i. count_before i ms (Suc p))"
    by (rule children_at_cong [OF m2(3)]) (simp add: count_before_Suc [OF p])
  from FindSmallest_at [OF m2(4) M this] p have "mi_at kss ms (FindSmallest c m2) (Suc p)" by (simp add: Find_direction [OF m2(2)])
  then show ?thesis using m1(1) m2(1,4) by (simp add: mi_Next_def m_at_def)
qed

lemma merging_prev:
  assumes M: "merge_of c ok kss ms" and A: "mi_at kss ms m p" and p: "p < length ms" and s: "s_ok s"
  shows "\<exists>x. mi_Prev ops c (m, s) = Some x \<and> m_at kss ms x (if p = 0 then length ms else p - 1)"
proof -
  let ?o = "snd (ms ! p)"
  let ?g = "(\<lambda>i. behind (kss ! i) (count_before i ms p))(?o := count_before ?o ms p)"
  have o: "?o < length kss" and b: "count_before ?o ms p < length (kss ! ?o)"
    using merge_ofD [OF M] p count_before_entry(1) [OF p refl] by auto
  have bw: "children_at kss (mi_children m) ?g" if "mi_direction m = kReverse"
  proof -
    have "children_at kss (mi_children m) (\<lambda>i. behind (kss ! i) (count_before i ms (Suc p)))" using A p that by (simp add: mi_at_def)
    then show ?thesis by (rule children_at_cong) (auto simp: count_before_Suc [OF p] behind_def)
  qed
  obtain m1 s1 where m1: "turn (before_key ops) kReverse (m, s) = Some (m1, s1)" "mi_current m1 = mi_current m" "mi_direction m1 = kReverse"
    "children_at kss (mi_children m1) ?g" "s_ok s1"
    using turn_at [OF M A p s, of "before_key ops" ?g kReverse] wrap_before_key [OF M p] bw by auto
  have c1: "mi_current m1 = Some ?o" using m1(2) mi_at_key(3) [OF M A p s] by simp
  have mv: "\<exists>w'. sw_move ops (it_Prev ops) w = Some w' \<and> child.wrap (kss ! ?o) w' (behind (kss ! ?o) (count_before ?o ms p))"
    if "child.wrap (kss ! ?o) w (?g ?o)" for w
    using child.wrap_prev [of "kss ! ?o" w "count_before ?o ms p"] that b by (simp add: behind_def)
  obtain m2 s2 where m2: "move_current ops (it_Prev ops) (m1, s1) = Some (m2, s2)" "mi_direction m2 = kReverse"
    "children_at kss (mi_children m2) (?g(?o := behind (kss ! ?o) (count_before ?o ms p)))" "s_ok s2"
    using move_current_at [OF m1(4) c1 o m1(5) mv] m1(3) by auto
  have "children_at kss (mi_children m2) (\<lambda>i. behind (kss ! i) (count_before i ms p))"
    by (rule children_at_cong [OF m2(3)]) simp
  from FindLargest_at [OF m2(4) M this] p have "mi_at kss ms (FindLargest c m2) (if p = 0 then length ms else p - 1)"
    unfolding Find_direction [OF m2(2)] by simp
  then show ?thesis using m1(1) m2(1,4) by (simp add: mi_Prev_def m_at_def)
qed

lemma merging_status:
  assumes "children_at kss (mi_children m) f" "s_ok s"
  shows "mi_status ops s m = Some OK"
proof -
  have "\<forall>w\<in>set (mi_children m). sw_status ops s w = Some OK"
    using assms child.sw_status_at unfolding children_at_def all_set_conv_all_nth by metis
  moreover have "\<forall>w\<in>set ws. sw_status ops s w = Some OK \<Longrightarrow> mi_status_loop ops s ws OK = Some OK" for ws
    by (induction ws) (simp_all add: status_ok_def)
  ultimately show ?thesis by (simp add: mi_status_def)
qed

definition merging_at :: "entries \<Rightarrow> 'i merging \<Rightarrow> nat \<Rightarrow> bool" where
  "merging_at kvs m p \<longleftrightarrow> (\<exists>kss ms. merge_of c ok kss ms \<and> kvs = map fst ms \<and> mi_at kss ms m p)"

lemma merging_atD:
  assumes "with_state s_ok merging_at kvs x p"
  obtains m s kss ms f where "x = (m, s)" "s_ok s" "merge_of c ok kss ms" "kvs = map fst ms" "mi_at kss ms m p" "children_at kss (mi_children m) f"
proof -
  obtain m s where x: "x = (m, s)" by fastforce
  with assms obtain kss ms where a: "s_ok s" "merge_of c ok kss ms" "kvs = map fst ms" "mi_at kss ms m p"
    by (auto simp: with_state_def merging_at_def)
  moreover obtain f where "children_at kss (mi_children m) f" using a(4) unfolding mi_at_def by blast
  ultimately show thesis using x that by blast
qed

lemma merging_atI:
  assumes "\<exists>x. f y = Some x \<and> m_at kss ms x p" "merge_of c ok kss ms" "kvs = map fst ms"
  shows "\<exists>x. f y = Some x \<and> with_state s_ok merging_at kvs x p"
  using assms unfolding with_state_def merging_at_def m_at_def by blast

lemma merging_new:
  assumes "merge_of c ok kss ms" "length its = length kss" "\<forall>i<length kss. pos_at (kss ! i) (its ! i) (length (kss ! i))" "s_ok s"
  shows "mi_at kss ms (MergingIterator ops s its) (length ms)"
proof -
  have "children_at kss (mi_children (MergingIterator ops s its)) (\<lambda>i. length (kss ! i))"
    using assms child.sw_Update_at [of s _ _ _ "\<lparr>iw_iter = None, iw_valid = False, iw_key = []\<rparr>"]
    by (simp add: children_at_def MergingIterator_def sw_Set_def)
  then show ?thesis by (auto simp: mi_at_def MergingIterator_def)
qed

end

sublocale merging_iterator \<subseteq> merging: shared_iterator "merging_ops ops c" c ok s_ok merging_at
proof (unfold_locales, goal_cases)
  case (1 kvs it i)
  then show ?case by (elim merging_atD) (auto simp: mi_at_def merging_ops_def mi_Valid_def split: if_splits)
next
  case (2 kvs it i) then show ?case by (elim merging_atD) (auto simp: mi_at_def split: if_splits)
next
  case (3 kvs it i) then show ?case by (elim merging_atD) (auto simp: merging_ops_def mi_at_key)
next
  case (4 kvs it i) then show ?case by (elim merging_atD) (auto simp: merging_ops_def merging_status)
next
  case (5 kvs it i t)
  obtain m s kss ms f where x: "it = (m, s)" "s_ok s" "merge_of c ok kss ms" "kvs = map fst ms" "mi_at kss ms m i" "children_at kss (mi_children m) f"
    by (rule merging_atD [OF 5(1)])
  show ?case unfolding x(1) merging_ops_def iter_ops.simps
    by (rule merging_atI [OF _ x(3,4)]) (use merging_seek [OF x(3,6,2) 5(2)] x(4) in simp)
next
  case (6 kvs it i)
  obtain m s kss ms f where x: "it = (m, s)" "s_ok s" "merge_of c ok kss ms" "kvs = map fst ms" "mi_at kss ms m i" "children_at kss (mi_children m) f"
    by (rule merging_atD [OF 6])
  show ?case unfolding x(1) merging_ops_def iter_ops.simps
    by (rule merging_atI [OF _ x(3,4)]) (use merging_first [OF x(3,6,2)] in simp)
next
  case (7 kvs it i)
  obtain m s kss ms f where x: "it = (m, s)" "s_ok s" "merge_of c ok kss ms" "kvs = map fst ms" "mi_at kss ms m i" "children_at kss (mi_children m) f"
    by (rule merging_atD [OF 7])
  show ?case unfolding x(1) merging_ops_def iter_ops.simps
    by (rule merging_atI [OF _ x(3,4)]) (use merging_last [OF x(3,6,2)] x(4) in simp)
next
  case (8 kvs it i)
  obtain m s kss ms f where x: "it = (m, s)" "s_ok s" "merge_of c ok kss ms" "kvs = map fst ms" "mi_at kss ms m i" "children_at kss (mi_children m) f"
    by (rule merging_atD [OF 8(1)])
  show ?case unfolding x(1) merging_ops_def iter_ops.simps
    by (rule merging_atI [OF _ x(3,4)]) (use merging_next [OF x(3,5) _ x(2)] 8(2) x(4) in simp)
next
  case (9 kvs it i)
  obtain m s kss ms f where x: "it = (m, s)" "s_ok s" "merge_of c ok kss ms" "kvs = map fst ms" "mi_at kss ms m i" "children_at kss (mi_children m) f"
    by (rule merging_atD [OF 9(1)])
  show ?case unfolding x(1) merging_ops_def iter_ops.simps
    by (rule merging_atI [OF _ x(3,4)]) (use merging_prev [OF x(3,5) _ x(2)] 9(2) x(4) in \<open>simp only: length_map\<close>)
qed

context merging_iterator
begin

definition merged_at :: "entries \<Rightarrow> 'i merged_iter \<Rightarrow> nat \<Rightarrow> bool" where
  "merged_at = sum_at empty_at (sum_at pos_at merging_at)"

lemma merged_iterator: "list_iterator (merged_ops ops c) c ok (with_state s_ok merged_at)"
  unfolding merged_ops_def merged_at_def
  by (intro sum_iterator empty_list.list_iterator_axioms child.list_iterator_axioms merging.list_iterator_axioms)

lemma merged_new:
  assumes "merge_of c ok kss ms" "length its = length kss" "\<forall>i<length kss. pos_at (kss ! i) (its ! i) (length (kss ! i))" "s_ok s"
  shows "merged_at (map fst ms) (NewMergingIterator ops s its) (length (map fst ms))"
proof (cases its)
  case Nil
  then have "ms = []" using assms(1,2) by (cases ms) (auto simp: merge_of_def)
  then show ?thesis using Nil by (simp add: NewMergingIterator_def merged_at_def sum_at_def empty_at_def NewEmptyIterator_def)
next
  case (Cons it its')
  show ?thesis
  proof (cases its')
    case Nil
    then have "filter (\<lambda>x. snd x = 0) ms = ms" and n: "length kss = 1"
      using assms(1,2) Cons by (auto simp: merge_of_def filter_id_conv)
    then have "kss ! 0 = map fst ms" using assms(1) by (simp add: merge_of_def of_child_def)
    then show ?thesis using Nil Cons assms(3) n by (auto simp: NewMergingIterator_def merged_at_def sum_at_def)
  next
    case (Cons it2 its2)
    then show ?thesis using merging_new [OF assms] assms(1) \<open>its = it # its'\<close>
      by (auto simp: NewMergingIterator_def merged_at_def sum_at_def merging_at_def)
  qed
qed

end

section \<open>Merging lists\<close>

fun merge_in :: "comparator \<Rightarrow> (slice \<times> slice) \<times> nat \<Rightarrow> merged \<Rightarrow> merged" where
  "merge_in c x [] = [x]"
| "merge_in c x (y # ys) = (if Compare c (fst (fst x)) (fst (fst y)) < 0 then x # y # ys else y # merge_in c x ys)"

definition with_child :: "entries list \<Rightarrow> merged" where
  "with_child kss = concat (map (\<lambda>i. map (\<lambda>e. (e, i)) (kss ! i)) [0..<length kss])"

definition merge_lists :: "comparator \<Rightarrow> entries list \<Rightarrow> merged" where
  "merge_lists c kss = foldr (merge_in c) (with_child kss) []"

definition mergeable :: "comparator \<Rightarrow> (slice \<Rightarrow> bool) \<Rightarrow> entries list \<Rightarrow> bool" where
  "mergeable c ok kss \<longleftrightarrow>
     (\<forall>kvs\<in>set kss. sorted_wrt (\<lambda>a b. Compare c a b < 0) (map fst kvs) \<and> (\<forall>kv\<in>set kvs. ok (fst kv))) \<and>
     sorted_wrt (\<lambda>kvs kvs'. \<forall>kv\<in>set kvs. \<forall>kv'\<in>set kvs'. Compare c (fst kv) (fst kv') \<noteq> 0) kss"

lemma set_merge_in: "set (merge_in c x ys) = insert x (set ys)"
  by (induction ys) auto

lemma set_merge_lists: "set (foldr (merge_in c) xs []) = set xs"
  by (induction xs) (auto simp: set_merge_in)

lemma filter_merge_in_other: "snd x \<noteq> i \<Longrightarrow> filter (\<lambda>y. snd y = i) (merge_in c x ys) = filter (\<lambda>y. snd y = i) ys"
  by (induction ys) auto

lemma filter_merge_in_same:
  "\<forall>y\<in>set ys. snd y = snd x \<longrightarrow> Compare c (fst (fst x)) (fst (fst y)) < 0 \<Longrightarrow>
     filter (\<lambda>y. snd y = snd x) (merge_in c x ys) = x # filter (\<lambda>y. snd y = snd x) ys"
  by (induction ys) auto

lemma filter_merge_lists:
  assumes "sorted_wrt (\<lambda>x y. snd x = snd y \<longrightarrow> Compare c (fst (fst x)) (fst (fst y)) < 0) xs"
  shows "filter (\<lambda>y. snd y = i) (foldr (merge_in c) xs []) = filter (\<lambda>y. snd y = i) xs"
  using assms
proof (induction xs)
  case (Cons x xs)
  show ?case
  proof (cases "snd x = i")
    case True
    have "\<forall>y\<in>set (foldr (merge_in c) xs []). snd y = snd x \<longrightarrow> Compare c (fst (fst x)) (fst (fst y)) < 0"
      using Cons.prems by (auto simp: set_merge_lists)
    from filter_merge_in_same [OF this] show ?thesis using Cons True by simp
  qed (use Cons in \<open>simp add: filter_merge_in_other\<close>)
qed simp

lemma sorted_with_child:
  assumes "\<And>i. i < n \<Longrightarrow> sorted_wrt (\<lambda>a b. R (a, i) (b, i)) (xs i)"
    and "\<And>i j a b. i < j \<Longrightarrow> j < n \<Longrightarrow> a \<in> set (xs i) \<Longrightarrow> b \<in> set (xs j) \<Longrightarrow> R (a, i) (b, j)"
  shows "sorted_wrt R (concat (map (\<lambda>i. map (\<lambda>e. (e, i)) (xs i)) [0..<n]))"
  using assms
proof (induction n)
  case (Suc n)
  have "sorted_wrt R (concat (map (\<lambda>i. map (\<lambda>e. (e, i)) (xs i)) [0..<n]))" by (rule Suc.IH) (use Suc.prems in auto)
  moreover have "sorted_wrt R (map (\<lambda>e. (e, n)) (xs n))" using Suc.prems(1) [of n] by (simp add: sorted_wrt_map)
  ultimately show ?case using Suc.prems(2) [of _ n] by (auto simp: sorted_wrt_append)
qed simp

lemma filter_with_child: "i < length kss \<Longrightarrow> filter (\<lambda>y. snd y = i) (with_child kss) = map (\<lambda>e. (e, i)) (kss ! i)"
proof -
  assume i: "i < length kss"
  have "filter (\<lambda>y. snd y = i) (concat (map (\<lambda>j. map (\<lambda>e. (e, j)) (kss ! j)) [0..<n])) = (if i < n then map (\<lambda>e. (e, i)) (kss ! i) else [])" for n
    by (induction n) (auto simp: filter_map o_def not_less less_Suc_eq)
  then show ?thesis using i by (simp add: with_child_def)
qed

context block_order
begin

lemma sorted_merge_in:
  assumes "sorted_wrt (\<lambda>a b. Compare c (fst (fst a)) (fst (fst b)) < 0) ys" "\<forall>y\<in>set ys. Compare c (fst (fst x)) (fst (fst y)) \<noteq> 0"
    and "\<forall>y\<in>insert x (set ys). ok (fst (fst y))"
  shows "sorted_wrt (\<lambda>a b. Compare c (fst (fst a)) (fst (fst b)) < 0) (merge_in c x ys)"
  using assms
proof (induction ys)
  case (Cons y ys)
  show ?case
  proof (cases "Compare c (fst (fst x)) (fst (fst y)) < 0")
    case True
    have "Compare c (fst (fst x)) (fst (fst z)) < 0" if "z \<in> set ys" for z
      using cmp_less_le [of "fst (fst x)" "fst (fst y)" "fst (fst z)"] True Cons.prems(1,3) that by (simp add: less_imp_le)
    then show ?thesis using True Cons.prems by simp
  next
    case False
    then have "0 < Compare c (fst (fst x)) (fst (fst y))" using Cons.prems(2) by force
    then have "Compare c (fst (fst y)) (fst (fst x)) < 0" using cmp_swap Cons.prems(3) by simp
    then show ?thesis using False Cons by (simp add: set_merge_in)
  qed
qed simp

lemma sorted_merge_lists:
  assumes "sorted_wrt (\<lambda>x y. Compare c (fst (fst x)) (fst (fst y)) \<noteq> 0) xs" "\<forall>x\<in>set xs. ok (fst (fst x))"
  shows "sorted_wrt (\<lambda>a b. Compare c (fst (fst a)) (fst (fst b)) < 0) (foldr (merge_in c) xs [])"
  using assms by (induction xs) (auto intro!: sorted_merge_in simp: set_merge_lists)

lemma merge_lists_merge:
  assumes "mergeable c ok kss"
  shows "merge_of c ok kss (merge_lists c kss)"
proof -
  have s: "sorted_wrt (\<lambda>a b. Compare c (fst a) (fst b) < 0) (kss ! i)" and o: "\<forall>kv\<in>set (kss ! i). ok (fst kv)" if "i < length kss" for i
    using assms nth_mem [OF that] by (auto simp: mergeable_def sorted_wrt_map)
  have d: "Compare c (fst a) (fst b) \<noteq> 0" if "i < j" "j < length kss" "a \<in> set (kss ! i)" "b \<in> set (kss ! j)" for i j a b
    using assms sorted_wrt_nth_less [of _ kss i j] that unfolding mergeable_def by blast
  have mem: "x \<in> set (with_child kss) \<Longrightarrow> ok (fst (fst x)) \<and> snd x < length kss" for x
    using o by (fastforce simp: with_child_def)
  have "sorted_wrt (\<lambda>x y. snd x = snd y \<longrightarrow> Compare c (fst (fst x)) (fst (fst y)) < 0) (with_child kss)"
    unfolding with_child_def by (rule sorted_with_child) (use s in auto)
  note f = filter_merge_lists [OF this]
  have "sorted_wrt (\<lambda>x y. Compare c (fst (fst x)) (fst (fst y)) \<noteq> 0) (with_child kss)"
    unfolding with_child_def by (rule sorted_with_child) (use d sorted_wrt_mono_rel [OF _ s] in \<open>fastforce+\<close>)
  from sorted_merge_lists [OF this] mem have "sorted_wrt (\<lambda>a b. Compare c (fst (fst a)) (fst (fst b)) < 0) (merge_lists c kss)"
    by (simp add: merge_lists_def)
  then show ?thesis
    using f filter_with_child mem unfolding merge_of_def merge_lists_def of_child_def
    by (auto simp: set_merge_lists sorted_wrt_map o_def)
qed

end

end
