(* ===== verification/Ldb_Db_Iter.thy ===== *)
theory Ldb_Db_Iter
  imports Ldb_Merger Ldb_Skiplist_Props
begin

text \<open>
  \<^verbatim>\<open>leveldb-library/db/db_iter.cc\<close>: the iterator that the database gives its users. It walks over internal
  keys, the newest entry of a user key first, and shows for every user key the newest entry that
  is not newer than its snapshot, unless that is a deletion. The loops that skip entries are partial functions; over an
  iterator with the contract of a list all of them end. The calls of \<^verbatim>\<open>DBImpl::RecordReadSample\<close> are recorded in the
  order in which they are made. Whether a string gives its memory back when it is cleared is not modelled.
\<close>

section \<open>DBIter\<close>

definition Uniform :: "int \<Rightarrow> u32 \<Rightarrow> u32 \<times> u32" where
  "Uniform n seed = (let seed1 = Random_Next seed in (seed1 mod word_of_int n, seed1))"

definition kReadBytesPeriod :: int where
  "kReadBytesPeriod = 1048576"

record 'i dbiter =
  di_iter :: 'i
  di_sequence :: SequenceNumber
  di_status :: status
  di_saved_key :: "byte list"
  di_saved_value :: "byte list"
  di_direction :: direction
  di_valid :: bool
  di_rnd :: u32
  di_bytes :: u64
  di_samples :: "slice list"

text \<open>The value that is drawn, and the next seed.\<close>

definition RandomCompactionPeriod :: "u32 \<Rightarrow> u64 \<times> u32" where
  "RandomCompactionPeriod seed = (case Uniform (2 * kReadBytesPeriod) seed of (n, seed1) \<Rightarrow> (ucast n, seed1))"

definition DBIter :: "'i \<Rightarrow> SequenceNumber \<Rightarrow> u32 \<Rightarrow> 'i dbiter" where
  "DBIter iter s seed =
     (case RandomCompactionPeriod (Random seed) of (period, rnd1) \<Rightarrow>
        \<lparr>di_iter = iter, di_sequence = s, di_status = OK, di_saved_key = [], di_saved_value = [],
         di_direction = kForward, di_valid = False, di_rnd = rnd1, di_bytes = period, di_samples = []\<rparr>)"

definition di_key :: "'i iter_ops \<Rightarrow> 'i dbiter \<Rightarrow> slice" where
  "di_key ops d = (if di_direction d = kForward then ExtractUserKey (it_key ops (di_iter d)) else di_saved_key d)"

definition di_value :: "'i iter_ops \<Rightarrow> 'i dbiter \<Rightarrow> slice option" where
  "di_value ops d = (if di_direction d = kForward then it_value ops (di_iter d) else Some (di_saved_value d))"

definition di_get_status :: "'i iter_ops \<Rightarrow> 'i dbiter \<Rightarrow> status" where
  "di_get_status ops d = (if status_ok (di_status d) then it_status ops (di_iter d) else di_status d)"

definition ClearSavedValue :: "'i dbiter \<Rightarrow> 'i dbiter" where
  "ClearSavedValue d = d\<lparr>di_saved_value := []\<rparr>"

subsection \<open>ParseKey\<close>

partial_function (option) sample_loop :: "u64 \<Rightarrow> slice \<Rightarrow> 'i dbiter \<Rightarrow> 'i dbiter option" where
  "sample_loop bytes_read k d =
     (if di_bytes d < bytes_read then
        case RandomCompactionPeriod (di_rnd d) of (period, rnd1) \<Rightarrow>
          sample_loop bytes_read k (d\<lparr>di_bytes := di_bytes d + period, di_rnd := rnd1, di_samples := di_samples d @ [k]\<rparr>)
      else Some d)"

definition ParseKey :: "'i iter_ops \<Rightarrow> 'i dbiter \<Rightarrow> ('i dbiter \<times> ParsedInternalKey option) option" where
  "ParseKey ops d =
     (let k = it_key ops (di_iter d) in
      Option.bind (it_value ops (di_iter d)) (\<lambda>value.
        let bytes_read = of_nat (length k) + of_nat (length value) in
        Option.bind (sample_loop bytes_read k d) (\<lambda>d1.
          let d2 = d1\<lparr>di_bytes := di_bytes d1 - bytes_read\<rparr> in
          case ParseInternalKey k of
            None \<Rightarrow> Some (d2\<lparr>di_status := Corruption (cstr ''corrupted internal key in DBIter'') []\<rparr>, None)
          | Some ikey \<Rightarrow> Some (d2, Some ikey))))"

subsection \<open>Forward\<close>

text \<open>
  What the body of the loop does with the key it has parsed, and whether the entry is to be shown. In every
  call \<^verbatim>\<open>skip\<close> points to \<^verbatim>\<open>saved_key_\<close>.
\<close>

datatype look = Shown | Go_on bool

definition look_forward :: "comparator \<Rightarrow> bool \<Rightarrow> ParsedInternalKey option \<Rightarrow> 'i dbiter \<Rightarrow> 'i dbiter \<times> look" where
  "look_forward user skipping parsed d =
     (case parsed of
        None \<Rightarrow> (d, Go_on skipping)
      | Some ikey \<Rightarrow>
          if pk_sequence ikey \<le> di_sequence d then
            case pk_type ikey of
              kTypeDeletion \<Rightarrow> (d\<lparr>di_saved_key := pk_user_key ikey\<rparr>, Go_on True)
            | kTypeValue \<Rightarrow>
                if skipping \<and> Compare user (pk_user_key ikey) (di_saved_key d) \<le> 0 then (d, Go_on skipping)
                else (d\<lparr>di_valid := True, di_saved_key := []\<rparr>, Shown)
          else (d, Go_on skipping))"

partial_function (option) FindNextUserEntry :: "'i iter_ops \<Rightarrow> comparator \<Rightarrow> bool \<Rightarrow> 'i dbiter \<Rightarrow> 'i dbiter option" where
  "FindNextUserEntry ops user skipping d =
     Option.bind (ParseKey ops d) (\<lambda>(d1, parsed).
       case look_forward user skipping parsed d1 of
         (d2, Shown) \<Rightarrow> Some d2
       | (d2, Go_on skipping1) \<Rightarrow>
           Option.bind (it_Next ops (di_iter d2)) (\<lambda>it.
             if it_Valid ops it then FindNextUserEntry ops user skipping1 (d2\<lparr>di_iter := it\<rparr>)
             else Some (d2\<lparr>di_iter := it, di_saved_key := [], di_valid := False\<rparr>)))"

definition di_Next :: "'i iter_ops \<Rightarrow> comparator \<Rightarrow> 'i dbiter \<Rightarrow> 'i dbiter option" where
  "di_Next ops user d =
     (if di_direction d = kReverse then
        Option.bind
          (if \<not> it_Valid ops (di_iter d) then it_SeekToFirst ops (di_iter d) else it_Next ops (di_iter d)) (\<lambda>it.
          let d1 = d\<lparr>di_direction := kForward, di_iter := it\<rparr> in
          if \<not> it_Valid ops it then Some (d1\<lparr>di_valid := False, di_saved_key := []\<rparr>)
          else FindNextUserEntry ops user True d1)
      else FindNextUserEntry ops user True (d\<lparr>di_saved_key := ExtractUserKey (it_key ops (di_iter d))\<rparr>))"

subsection \<open>Backward\<close>

text \<open>The body of the loop: the type of the entry that is kept, and whether to stop before the current entry.\<close>

definition look_backward ::
  "'i iter_ops \<Rightarrow> comparator \<Rightarrow> ValueType \<Rightarrow> ParsedInternalKey option \<Rightarrow> 'i dbiter \<Rightarrow> ('i dbiter \<times> ValueType \<times> bool) option" where
  "look_backward ops user value_type parsed d =
     (case parsed of
        None \<Rightarrow> Some (d, value_type, False)
      | Some ikey \<Rightarrow>
          if pk_sequence ikey \<le> di_sequence d then
            if value_type \<noteq> kTypeDeletion \<and> Compare user (pk_user_key ikey) (di_saved_key d) < 0 then Some (d, value_type, True)
            else if pk_type ikey = kTypeDeletion then Some (ClearSavedValue (d\<lparr>di_saved_key := []\<rparr>), pk_type ikey, False)
            else
              Option.bind (it_value ops (di_iter d)) (\<lambda>raw_value.
                Some (d\<lparr>di_saved_key := ExtractUserKey (it_key ops (di_iter d)), di_saved_value := raw_value\<rparr>,
                      pk_type ikey, False))
          else Some (d, value_type, False))"

partial_function (option) FindPrevUserEntry_loop ::
  "'i iter_ops \<Rightarrow> comparator \<Rightarrow> ValueType \<Rightarrow> 'i dbiter \<Rightarrow> (ValueType \<times> 'i dbiter) option" where
  "FindPrevUserEntry_loop ops user value_type d =
     (if it_Valid ops (di_iter d) then
        Option.bind (ParseKey ops d) (\<lambda>(d1, parsed).
        Option.bind (look_backward ops user value_type parsed d1) (\<lambda>(d2, value_type1, stop).
          if stop then Some (value_type1, d2)
          else
            Option.bind (it_Prev ops (di_iter d2)) (\<lambda>it.
              FindPrevUserEntry_loop ops user value_type1 (d2\<lparr>di_iter := it\<rparr>))))
      else Some (value_type, d))"

definition FindPrevUserEntry :: "'i iter_ops \<Rightarrow> comparator \<Rightarrow> 'i dbiter \<Rightarrow> 'i dbiter option" where
  "FindPrevUserEntry ops user d =
     Option.bind (FindPrevUserEntry_loop ops user kTypeDeletion d) (\<lambda>(value_type, d1).
       if value_type = kTypeDeletion then
         Some (ClearSavedValue (d1\<lparr>di_valid := False, di_saved_key := []\<rparr>)\<lparr>di_direction := kForward\<rparr>)
       else Some (d1\<lparr>di_valid := True\<rparr>))"

text \<open>The loop of \<^verbatim>\<open>Prev\<close>: whether it left the entries of the saved key behind, or came to the end.\<close>

partial_function (option) leave_key_loop :: "'i iter_ops \<Rightarrow> comparator \<Rightarrow> 'i dbiter \<Rightarrow> (bool \<times> 'i dbiter) option" where
  "leave_key_loop ops user d =
     Option.bind (it_Prev ops (di_iter d)) (\<lambda>it.
       let d1 = d\<lparr>di_iter := it\<rparr> in
       if \<not> it_Valid ops it then Some (False, ClearSavedValue (d1\<lparr>di_valid := False, di_saved_key := []\<rparr>))
       else if Compare user (ExtractUserKey (it_key ops it)) (di_saved_key d1) < 0 then Some (True, d1)
       else leave_key_loop ops user d1)"

definition di_Prev :: "'i iter_ops \<Rightarrow> comparator \<Rightarrow> 'i dbiter \<Rightarrow> 'i dbiter option" where
  "di_Prev ops user d =
     (if di_direction d = kForward then
        Option.bind (leave_key_loop ops user (d\<lparr>di_saved_key := ExtractUserKey (it_key ops (di_iter d))\<rparr>)) (\<lambda>(left, d1).
          if left then FindPrevUserEntry ops user (d1\<lparr>di_direction := kReverse\<rparr>) else Some d1)
      else FindPrevUserEntry ops user d)"

subsection \<open>Seeks\<close>

definition di_Seek :: "'i iter_ops \<Rightarrow> comparator \<Rightarrow> slice \<Rightarrow> 'i dbiter \<Rightarrow> 'i dbiter option" where
  "di_Seek ops user target d =
     (let d1 = ClearSavedValue (d\<lparr>di_direction := kForward\<rparr>);
          d2 = d1\<lparr>di_saved_key := AppendInternalKey []
                   \<lparr>pk_user_key = target, pk_sequence = di_sequence d1, pk_type = kValueTypeForSeek\<rparr>\<rparr>
      in
      Option.bind (it_Seek ops (di_saved_key d2) (di_iter d2)) (\<lambda>it.
        let d3 = d2\<lparr>di_iter := it\<rparr> in
        if it_Valid ops it then FindNextUserEntry ops user False d3 else Some (d3\<lparr>di_valid := False\<rparr>)))"

definition di_SeekToFirst :: "'i iter_ops \<Rightarrow> comparator \<Rightarrow> 'i dbiter \<Rightarrow> 'i dbiter option" where
  "di_SeekToFirst ops user d =
     (let d1 = ClearSavedValue (d\<lparr>di_direction := kForward\<rparr>) in
      Option.bind (it_SeekToFirst ops (di_iter d1)) (\<lambda>it.
        let d2 = d1\<lparr>di_iter := it\<rparr> in
        if it_Valid ops it then FindNextUserEntry ops user False d2 else Some (d2\<lparr>di_valid := False\<rparr>)))"

definition di_SeekToLast :: "'i iter_ops \<Rightarrow> comparator \<Rightarrow> 'i dbiter \<Rightarrow> 'i dbiter option" where
  "di_SeekToLast ops user d =
     (let d1 = ClearSavedValue (d\<lparr>di_direction := kReverse\<rparr>) in
      Option.bind (it_SeekToLast ops (di_iter d1)) (\<lambda>it. FindPrevUserEntry ops user (d1\<lparr>di_iter := it\<rparr>)))"

definition db_ops :: "'i iter_ops \<Rightarrow> comparator \<Rightarrow> 'i dbiter iter_ops" where
  "db_ops ops user =
     \<lparr>it_Valid = di_valid, it_key = di_key ops, it_value = di_value ops, it_status = di_get_status ops,
      it_Seek = di_Seek ops user, it_SeekToFirst = di_SeekToFirst ops user, it_SeekToLast = di_SeekToLast ops user,
      it_Next = di_Next ops user, it_Prev = di_Prev ops user\<rparr>"

section \<open>Sampling ends\<close>

text \<open>Two draws in a row are never both zero, so that the loop makes progress every other time at the latest.\<close>

lemma RandomCompactionPeriod_unat:
  assumes "0 < seed" "seed < 2147483647"
  shows "unat (fst (RandomCompactionPeriod seed)) = unat (Random_Next seed) mod 2 ^ 21"
    "snd (RandomCompactionPeriod seed) = Random_Next seed"
    "0 < Random_Next seed" "Random_Next seed < 2147483647"
    "unat (Random_Next seed) = 16807 * unat seed mod 2147483647"
proof -
  show "unat (fst (RandomCompactionPeriod seed)) = unat (Random_Next seed) mod 2 ^ 21"
    by (simp add: RandomCompactionPeriod_def Uniform_def Let_def kReadBytesPeriod_def ucast_u32_u64_unat unat_mod)
  show "snd (RandomCompactionPeriod seed) = Random_Next seed"
    by (simp add: RandomCompactionPeriod_def Uniform_def Let_def)
  show "0 < Random_Next seed" "Random_Next seed < 2147483647" "unat (Random_Next seed) = 16807 * unat seed mod 2147483647"
    using random_is_lehmer [OF assms] by auto
qed

lemma lehmer_not_zero_twice:
  fixes x :: nat
  assumes "0 < x" "x < 2147483647" "x mod 2 ^ 21 = 0"
  shows "(16807 * x mod 2147483647) mod 2 ^ 21 \<noteq> 0"
proof
  let ?M = "2147483647 :: nat"
  assume "(16807 * x mod ?M) mod 2 ^ 21 = 0"
  obtain a where a: "x = 2 ^ 21 * a" using assms(3) by (auto simp: mod_eq_0_iff_dvd)
  obtain b where b: "16807 * x mod ?M = 2 ^ 21 * b" using \<open>(16807 * x mod ?M) mod 2 ^ 21 = 0\<close> by (auto simp: mod_eq_0_iff_dvd)
  have "0 < a" "a < 1024" using assms(1,2) a by simp_all
  have "16807 * x mod ?M < ?M" by simp
  then have "b < 1024" using b by simp
  \<comment> \<open>multiplying by 1024 undoes the factor, as 2 to the 31st is 1 modulo the modulus\<close>
  have "1024 * (2 ^ 21 * c) mod ?M = c mod ?M" for c :: nat
  proof -
    have "1024 * (2 ^ 21 * c) = c + ?M * c" by simp
    then show ?thesis by (metis mod_mult_self2)
  qed
  then have "b mod ?M = 1024 * (16807 * x mod ?M) mod ?M" using b by simp
  also have "\<dots> = 1024 * (2 ^ 21 * (16807 * a)) mod ?M" by (simp add: a mod_mult_right_eq mult.left_commute)
  also have "\<dots> = 16807 * a mod ?M" by (rule \<open>\<And>c. 1024 * (2 ^ 21 * c) mod ?M = c mod ?M\<close>)
  finally have "b = 16807 * a" using \<open>b < 1024\<close> \<open>a < 1024\<close> by simp
  then show False using \<open>0 < a\<close> \<open>b < 1024\<close> by simp
qed

definition same_place :: "'i dbiter \<Rightarrow> 'i dbiter \<Rightarrow> bool" where
  "same_place d d' \<longleftrightarrow> d' = d\<lparr>di_bytes := di_bytes d', di_rnd := di_rnd d', di_samples := di_samples d'\<rparr>"

definition seeded :: "'i dbiter \<Rightarrow> bool" where
  "seeded d \<longleftrightarrow> 0 < di_rnd d \<and> di_rnd d < 2147483647"

lemma same_placeD:
  assumes "same_place d d'"
  shows "di_iter d' = di_iter d" "di_sequence d' = di_sequence d" "di_status d' = di_status d" "di_saved_key d' = di_saved_key d"
    "di_saved_value d' = di_saved_value d" "di_direction d' = di_direction d" "di_valid d' = di_valid d"
  using assms by (cases d; cases d'; simp add: same_place_def)+

lemma same_place_trans: "same_place d d' \<Longrightarrow> same_place d' d'' \<Longrightarrow> same_place d d''"
  by (cases d; cases d'; cases d'') (simp add: same_place_def)

lemma sample_ends:
  assumes "seeded d" "unat bytes_read + 2 ^ 21 < 2 ^ 64"
  shows "\<exists>d'. sample_loop bytes_read k d = Some d' \<and> same_place d d' \<and> seeded d' \<and> bytes_read \<le> di_bytes d'"
  using assms
proof (induction "2 * (unat bytes_read - unat (di_bytes d)) + (if unat (di_rnd d) mod 2 ^ 21 = 0 then 0 else 1)"
    arbitrary: d rule: less_induct)
  case less
  show ?case
  proof (cases "di_bytes d < bytes_read")
    case False
    then show ?thesis using less.prems(1) by (subst sample_loop.simps) (auto simp: same_place_def)
  next
    case True
    have s: "0 < di_rnd d" "di_rnd d < 2147483647" using less.prems(1) by (auto simp: seeded_def)
    note R = RandomCompactionPeriod_unat [OF s]
    obtain period rnd1 where r: "RandomCompactionPeriod (di_rnd d) = (period, rnd1)" by fastforce
    have p: "unat period = unat rnd1 mod 2 ^ 21" "0 < rnd1" "rnd1 < 2147483647" "unat rnd1 = 16807 * unat (di_rnd d) mod 2147483647"
      using R by (simp_all add: r)
    let ?d = "d\<lparr>di_bytes := di_bytes d + period, di_rnd := rnd1, di_samples := di_samples d @ [k]\<rparr>"
    have "unat period < 2 ^ 21" using p(1) by simp
    then have "unat (di_bytes d) + unat period < 2 ^ 64" using True less.prems(2) by (simp add: word_less_nat_alt)
    then have b: "unat (di_bytes d + period) = unat (di_bytes d) + unat period" by (simp add: unat_add_no_wrap)
    have zero: "unat (di_rnd d) mod 2 ^ 21 \<noteq> 0" if "unat period = 0"
    proof
      assume "unat (di_rnd d) mod 2 ^ 21 = 0"
      moreover have "0 < unat (di_rnd d)" "unat (di_rnd d) < 2147483647" using s by (simp_all add: word_less_nat_alt unat_gt_0)
      ultimately have "unat rnd1 mod 2 ^ 21 \<noteq> 0" using lehmer_not_zero_twice p(4) by simp
      then show False using that p(1) by simp
    qed
    have "unat (di_bytes d) < unat bytes_read" using True by (simp add: word_less_nat_alt)
    then have "2 * (unat bytes_read - unat (di_bytes ?d)) + (if unat (di_rnd ?d) mod 2 ^ 21 = 0 then 0 else 1) <
        2 * (unat bytes_read - unat (di_bytes d)) + (if unat (di_rnd d) mod 2 ^ 21 = 0 then 0 else 1)"
      using zero p(1) by (cases "unat period = 0") (auto simp: b)
    moreover have "seeded ?d" using p(2,3) by (simp add: seeded_def)
    ultimately obtain d' where d': "sample_loop bytes_read k ?d = Some d'" "same_place ?d d'" "seeded d'" "bytes_read \<le> di_bytes d'"
      using less.hyps [of ?d] less.prems(2) by blast
    have "same_place d ?d" by (simp add: same_place_def)
    with d' show ?thesis using True r same_place_trans by (subst sample_loop.simps) auto
  qed
qed

section \<open>What the user sees\<close>

text \<open>The internal entries, by position: the user key, whether the snapshot includes it, and whether it is shown.\<close>

definition parsed_at :: "entries \<Rightarrow> nat \<Rightarrow> ParsedInternalKey" where
  "parsed_at es p = the (ParseInternalKey (fst (es ! p)))"

abbreviation ukey :: "entries \<Rightarrow> nat \<Rightarrow> slice" where
  "ukey es p \<equiv> pk_user_key (parsed_at es p)"

definition in_snapshot :: "SequenceNumber \<Rightarrow> entries \<Rightarrow> nat \<Rightarrow> bool" where
  "in_snapshot s es p \<longleftrightarrow> pk_sequence (parsed_at es p) \<le> s"

definition shown :: "comparator \<Rightarrow> SequenceNumber \<Rightarrow> entries \<Rightarrow> nat \<Rightarrow> bool" where
  "shown user s es p \<longleftrightarrow> in_snapshot s es p \<and> pk_type (parsed_at es p) = kTypeValue \<and>
     (\<forall>q<p. in_snapshot s es q \<longrightarrow> Compare user (ukey es q) (ukey es p) \<noteq> 0)"

definition shown_list :: "comparator \<Rightarrow> SequenceNumber \<Rightarrow> entries \<Rightarrow> nat list" where
  "shown_list user s es = filter (shown user s es) [0..<length es]"

definition user_view :: "comparator \<Rightarrow> SequenceNumber \<Rightarrow> entries \<Rightarrow> entries" where
  "user_view user s es = map (\<lambda>p. (ukey es p, snd (es ! p))) (shown_list user s es)"

text \<open>The number of shown entries before a position.\<close>

definition shown_before :: "comparator \<Rightarrow> SequenceNumber \<Rightarrow> entries \<Rightarrow> nat \<Rightarrow> nat" where
  "shown_before user s es p = length (filter (shown user s es) [0..<p])"

lemma shown_list_split:
  assumes "p \<le> length es"
  shows "shown_list user s es = filter (shown user s es) [0..<p] @ filter (shown user s es) [p..<length es]"
  unfolding shown_list_def using assms upt_add_eq_append [of 0 p "length es - p"] by simp

lemma shown_before_le: "p \<le> length es \<Longrightarrow> shown_before user s es p \<le> length (shown_list user s es)"
  by (simp add: shown_list_split shown_before_def)

lemma shown_before_mono:
  assumes "p \<le> q" "\<And>r. p \<le> r \<Longrightarrow> r < q \<Longrightarrow> \<not> shown user s es r"
  shows "shown_before user s es q = shown_before user s es p"
proof -
  have "[0..<q] = [0..<p] @ [p..<q]" using assms(1) upt_add_eq_append [of 0 p "q - p"] by simp
  moreover have "filter (shown user s es) [p..<q] = []" using assms(2) by (simp add: filter_empty_conv)
  ultimately show ?thesis by (simp add: shown_before_def)
qed

lemma shown_nth:
  assumes "p < length es" "shown user s es p"
  shows "shown_before user s es p < length (shown_list user s es)" "shown_list user s es ! shown_before user s es p = p"
    "shown_before user s es (Suc p) = Suc (shown_before user s es p)"
proof -
  have "filter (shown user s es) [p..<length es] = p # filter (shown user s es) [Suc p..<length es]"
    using assms by (simp add: upt_conv_Cons)
  then show "shown_before user s es p < length (shown_list user s es)" "shown_list user s es ! shown_before user s es p = p"
    using assms(1) by (simp_all add: shown_list_split [of p] shown_before_def nth_append)
  show "shown_before user s es (Suc p) = Suc (shown_before user s es p)" using assms(2) by (simp add: shown_before_def)
qed

lemma shown_list_nth:
  assumes "j < length (shown_list user s es)"
  shows "shown user s es (shown_list user s es ! j)" "shown_list user s es ! j < length es"
    "shown_before user s es (shown_list user s es ! j) = j"
proof -
  let ?V = "shown_list user s es"
  have "?V ! j \<in> set ?V" using assms by simp
  then show sh: "shown user s es (?V ! j)" and lt: "?V ! j < length es" by (auto simp: shown_list_def)
  from shown_nth [OF lt sh] have "shown_before user s es (?V ! j) < length ?V" "?V ! shown_before user s es (?V ! j) = ?V ! j" by auto
  moreover have "distinct ?V" by (simp add: shown_list_def)
  ultimately show "shown_before user s es (?V ! j) = j" using assms nth_eq_iff_index_eq by blast
qed

lemma shown_before_end:
  assumes "\<And>q. p \<le> q \<Longrightarrow> q < length es \<Longrightarrow> \<not> shown user s es q" "p \<le> length es"
  shows "shown_before user s es p = length (shown_list user s es)"
  using shown_before_mono [OF assms(2,1)] by (simp add: shown_before_def shown_list_def)

section \<open>The iterator keeps to what the user sees\<close>

definition entry_parses :: "slice \<times> slice \<Rightarrow> bool" where
  "entry_parses e \<longleftrightarrow> ParseInternalKey (fst e) \<noteq> None \<and> length (fst e) + length (snd e) + 2 ^ 21 < 2 ^ 64"

definition internal_entries :: "comparator \<Rightarrow> entries \<Rightarrow> bool" where
  "internal_entries user es \<longleftrightarrow> list_all entry_parses es \<and> sorted_wrt (\<lambda>a b. internal_Compare user a b < 0) (map fst es)"

lemma parsed_atD:
  assumes "internal_entries user es" "p < length es"
  shows "ParseInternalKey (fst (es ! p)) = Some (parsed_at es p)" "ukey es p = ExtractUserKey (fst (es ! p))"
    "pk_sequence (parsed_at es p) = drop_bit 8 (key_tag (fst (es ! p)))" "key_tag (fst (es ! p)) AND 0xFF \<le> 1"
    "8 \<le> length (fst (es ! p))"
proof -
  let ?k = "fst (es ! p)"
  have "entry_parses (es ! p)" using assms by (simp add: internal_entries_def list_all_length)
  then show P: "ParseInternalKey ?k = Some (parsed_at es p)" by (auto simp: entry_parses_def parsed_at_def)
  have c: "(ucast (key_tag ?k AND 0xFF) :: byte) \<le> 1" and l: "8 \<le> length ?k"
    and f: "parsed_at es p = \<lparr>pk_user_key = take (length ?k - 8) ?k, pk_sequence = drop_bit 8 (key_tag ?k),
                   pk_type = (if (ucast (key_tag ?k AND 0xFF) :: byte) = type_byte kTypeValue then kTypeValue else kTypeDeletion)\<rparr>"
    using P by (auto simp: ParseInternalKey_def Let_def split: if_splits)
  show "ukey es p = ExtractUserKey ?k" "pk_sequence (parsed_at es p) = drop_bit 8 (key_tag ?k)" "8 \<le> length ?k"
    using l by (simp_all add: f ExtractUserKey_def)
  have "unat (ucast (key_tag ?k AND 0xFF) :: byte) = unat (key_tag ?k AND 0xFF)"
    by (simp only: unsigned_ucast_eq and_255 unsigned_take_bit_eq) simp
  with c show "key_tag ?k AND 0xFF \<le> 1" by (simp add: word_le_nat_alt)
qed

locale db_iterator = user_comparator user + inner: list_iterator ops "InternalKeyComparator user" ok pos_at
  for user :: comparator and ops :: "'i iter_ops" and ok :: "slice \<Rightarrow> bool" and pos_at :: "entries \<Rightarrow> 'i \<Rightarrow> nat \<Rightarrow> bool" +
  fixes uok :: "slice \<Rightarrow> bool"
  assumes seek_ok: "uok t \<Longrightarrow> ok (InternalKey t s kValueTypeForSeek)"
begin

lemma ukey_mono:
  assumes "internal_entries user es" "p \<le> q" "q < length es"
  shows "Compare user (ukey es p) (ukey es q) \<le> 0"
proof (cases "p = q")
  case True then show ?thesis by (simp add: cmp_self)
next
  case False
  then have "internal_Compare user (fst (es ! p)) (fst (es ! q)) < 0"
    using assms sorted_wrt_nth_less [of "\<lambda>a b. internal_Compare user a b < 0" "map fst es" p q] by (simp add: internal_entries_def)
  then show ?thesis using parsed_atD(2) [OF assms(1)] assms(2,3) by (auto simp: internal_less)
qed

lemma ukey_same: "internal_entries user es \<Longrightarrow> p \<le> q \<Longrightarrow> q < length es \<Longrightarrow> Compare user (ukey es q) (ukey es p) \<le> 0 \<Longrightarrow> Compare user (ukey es p) (ukey es q) = 0"
  using ukey_mono [of es p q] cmp_swap [of "ukey es p" "ukey es q"] cmp_swap [of "ukey es q" "ukey es p"] by force

lemma ParseKey_at:
  assumes "internal_entries user es" "pos_at es (di_iter d) p" "p < length es" "seeded d"
  shows "\<exists>d'. ParseKey ops d = Some (d', Some (parsed_at es p)) \<and> same_place d d' \<and> seeded d'"
proof -
  let ?k = "fst (es ! p)" and ?v = "snd (es ! p)"
  let ?n = "of_nat (length ?k) + of_nat (length ?v) :: u64"
  have e: "it_key ops (di_iter d) = ?k" "it_value ops (di_iter d) = Some ?v" using inner.at_entry [OF assms(2,3)] by auto
  have "entry_parses (es ! p)" using assms(1,3) by (simp add: internal_entries_def list_all_length)
  then have b: "length ?k + length ?v + 2 ^ 21 < 2 ^ 64" by (simp add: entry_parses_def)
  have "?n = of_nat (length ?k + length ?v)" by simp
  moreover have "unat (of_nat (length ?k + length ?v) :: u64) = length ?k + length ?v" using b by (intro unat_of_nat_u64) simp
  ultimately have "unat ?n + 2 ^ 21 < 2 ^ 64" using b by simp
  from sample_ends [OF assms(4) this, of ?k] obtain d1 where d1: "sample_loop ?n ?k d = Some d1" "same_place d d1" "seeded d1" by blast
  have "same_place d (d1\<lparr>di_bytes := di_bytes d1 - ?n\<rparr>)" using d1(2) by (cases d; cases d1) (simp add: same_place_def)
  moreover have "ParseKey ops d = Some (d1\<lparr>di_bytes := di_bytes d1 - ?n\<rparr>, Some (parsed_at es p))"
    by (simp add: ParseKey_def e Let_def d1(1) parsed_atD(1) [OF assms(1,3)])
  ultimately show ?thesis using d1(3) by (auto simp: seeded_def)
qed

text \<open>Where the iterator stands, when it shows entry \<open>j\<close> of the user's list.\<close>

definition bound :: "entries \<Rightarrow> nat \<Rightarrow> nat" where
  "bound es i = (if i = length es then 0 else Suc i)"

definition behind_group :: "entries \<Rightarrow> 'i dbiter \<Rightarrow> nat \<Rightarrow> nat \<Rightarrow> bool" where
  "behind_group es d i c \<longleftrightarrow> di_saved_key d = ukey es c \<and> di_saved_value d = snd (es ! c) \<and>
     (\<forall>q<bound es i. Compare user (ukey es q) (ukey es c) < 0) \<and> (\<forall>q. bound es i \<le> q \<and> q < c \<longrightarrow> \<not> in_snapshot (di_sequence d) es q)"

definition db_state :: "entries \<Rightarrow> 'i dbiter \<Rightarrow> bool" where
  "db_state es d \<longleftrightarrow> internal_entries user es \<and> seeded d \<and> di_status d = OK \<and> di_sequence d \<le> kMaxSequenceNumber"

definition db_pos :: "entries \<Rightarrow> 'i dbiter \<Rightarrow> nat \<Rightarrow> bool" where
  "db_pos es d j \<longleftrightarrow> db_state es d \<and> (\<exists>i. pos_at es (di_iter d) i \<and>
     (let V = shown_list user (di_sequence d) es in
      if j < length V then di_valid d \<and> (if di_direction d = kForward then i = V ! j else behind_group es d i (V ! j))
      else j = length V \<and> \<not> di_valid d))"

text \<open>
  The search for the next entry, before position \<open>p\<close>, for the first shown entry from position \<open>lo\<close> on: the entries that the
  saved key covers are not looked for, and those that it does not cover have no earlier entry in the snapshot.
\<close>

definition covered :: "bool \<Rightarrow> slice \<Rightarrow> entries \<Rightarrow> nat \<Rightarrow> bool" where
  "covered skipping skip es q \<longleftrightarrow> skipping \<and> Compare user (ukey es q) skip \<le> 0"

definition searching :: "SequenceNumber \<Rightarrow> entries \<Rightarrow> nat \<Rightarrow> nat \<Rightarrow> bool \<Rightarrow> slice \<Rightarrow> bool" where
  "searching s es lo p skipping skip \<longleftrightarrow>
     (\<forall>q. lo \<le> q \<and> q < p \<longrightarrow> \<not> shown user s es q) \<and>
     (\<forall>q. p \<le> q \<and> q < length es \<longrightarrow>
        (if covered skipping skip es q then (lo \<le> q \<longrightarrow> \<not> shown user s es q) \<and> (q < lo \<longrightarrow> in_snapshot s es q \<longrightarrow> pk_type (parsed_at es q) = kTypeValue)
         else lo \<le> q \<and> (\<forall>r<p. in_snapshot s es r \<longrightarrow> Compare user (ukey es r) (ukey es q) \<noteq> 0)))"

lemma searching_skip:
  assumes "searching s es lo p skipping skip" "\<not> in_snapshot s es p \<or> covered skipping skip es p" "internal_entries user es" "p < length es"
  shows "searching s es lo (Suc p) skipping skip"
proof -
  have "\<not> shown user s es p" if "lo \<le> p" using assms(1,2,4) that by (auto simp: searching_def shown_def)
  moreover have "Compare user (ukey es p) (ukey es q) \<noteq> 0"
    if "p < q" "q < length es" "\<not> covered skipping skip es q" "in_snapshot s es p" for q
  proof
    assume e: "Compare user (ukey es p) (ukey es q) = 0"
    have c: "covered skipping skip es p" using assms(2) that(4) by simp
    then have "Compare user (ukey es q) skip \<le> 0"
      using cmp_trans [of "ukey es q" "ukey es p" skip] e cmp_eq_sym [of "ukey es p" "ukey es q"] by (simp add: covered_def)
    then show False using that(3) c by (simp add: covered_def)
  qed
  ultimately show ?thesis using assms(1) unfolding searching_def by (auto simp: less_Suc_eq Suc_le_eq)
qed

lemma searching_deletion:
  assumes "searching s es lo p skipping skip" "in_snapshot s es p" "pk_type (parsed_at es p) = kTypeDeletion"
    "internal_entries user es" "p < length es"
  shows "searching s es lo (Suc p) True (ukey es p)"
proof -
  have lo: "lo \<le> p" using assms by (auto simp: searching_def split: if_splits)
  have "\<not> shown user s es p" using assms(3) by (simp add: shown_def)
  moreover have "\<not> shown user s es q" if "p < q" "q < length es" "Compare user (ukey es q) (ukey es p) \<le> 0" for q
    using ukey_same [OF assms(4) _ that(2,3)] that(1) assms(2) by (auto simp: shown_def)
  moreover have "Compare user (ukey es r) (ukey es q) \<noteq> 0" if "p < q" "q < length es" "\<not> Compare user (ukey es q) (ukey es p) \<le> 0" "r \<le> p" for q r
  proof
    assume "Compare user (ukey es r) (ukey es q) = 0"
    then have "Compare user (ukey es q) (ukey es r) \<le> 0" using cmp_eq_sym by simp
    then have "Compare user (ukey es q) (ukey es p) \<le> 0"
      using cmp_trans ukey_mono [OF assms(4) that(4) assms(5)] by blast
    then show False using that(3) by simp
  qed
  ultimately show ?thesis using assms(1) lo unfolding searching_def covered_def by (auto simp: less_Suc_eq Suc_le_eq)
qed

lemma FindNext_at:
  assumes "db_state es d" "pos_at es (di_iter d) p" "p < length es" "di_direction d = kForward"
    "searching (di_sequence d) es lo p skipping (di_saved_key d)" "lo \<le> length es"
  shows "\<exists>d'. FindNextUserEntry ops user skipping d = Some d' \<and> di_sequence d' = di_sequence d \<and> db_pos es d' (shown_before user (di_sequence d) es lo)"
  using assms
proof (induction "length es - p" arbitrary: p d skipping)
  case (Suc n)
  let ?s = "di_sequence d"
  have E: "internal_entries user es" and sd: "seeded d" using Suc.prems(1) by (auto simp: db_state_def)
  note p = Suc.prems(3) and S = Suc.prems(5)
  obtain d1 where d1: "ParseKey ops d = Some (d1, Some (parsed_at es p))" "same_place d d1" "seeded d1"
    using ParseKey_at [OF E Suc.prems(2) p sd] by blast
  note same = same_placeD [OF d1(2)]
  have st: "db_state es d1" using Suc.prems(1) d1(3) same by (simp add: db_state_def)
  obtain it where it: "it_Next ops (di_iter d) = Some it" "pos_at es it (Suc p)" using inner.at_next [OF Suc.prems(2) p] by blast
  have v: "it_Valid ops it \<longleftrightarrow> Suc p < length es" using inner.at_valid [OF it(2)] .
  have go_on: ?case
    if l: "look_forward user skipping (Some (parsed_at es p)) d1 = (d1\<lparr>di_saved_key := k\<rparr>, Go_on b)"
      and S1: "searching ?s es lo (Suc p) b k" for k b
  proof (cases "Suc p < length es")
    case True
    let ?d = "d1\<lparr>di_saved_key := k, di_iter := it\<rparr>"
    have "db_state es ?d" "di_direction ?d = kForward" "di_sequence ?d = ?s" "di_iter ?d = it" "di_saved_key ?d = k"
      using st Suc.prems(4) same by (simp_all add: db_state_def seeded_def)
    then have "\<exists>d'. FindNextUserEntry ops user b ?d = Some d' \<and> di_sequence d' = ?s \<and> db_pos es d' (shown_before user ?s es lo)"
      using Suc.hyps(1) [of "Suc p" ?d b] Suc.hyps(2) it(2) True S1 Suc.prems(6) by simp
    then show ?thesis using True v it(1) same by (subst FindNextUserEntry.simps) (simp add: d1(1) l)
  next
    case False
    then have n: "Suc p = length es" using p by simp
    have "\<not> shown user ?s es q" if "lo \<le> q" "q < length es" for q using S1 that n by (simp add: searching_def)
    then have "shown_before user ?s es lo = length (shown_list user ?s es)" by (rule shown_before_end) (use Suc.prems(6) in auto)
    then have "db_pos es (d1\<lparr>di_iter := it, di_saved_key := [], di_valid := False\<rparr>) (shown_before user ?s es lo)"
      using st it(2) same by (auto simp: db_pos_def db_state_def seeded_def)
    then show ?thesis using False v it(1) same by (subst FindNextUserEntry.simps) (simp add: d1(1) l)
  qed
  show ?case
  proof (cases "in_snapshot ?s es p")
    case False
    then show ?thesis
      using searching_skip [OF S _ E p] same by (intro go_on [of "di_saved_key d" skipping]) (simp_all add: look_forward_def in_snapshot_def)
  next
    case vis: True
    show ?thesis
    proof (cases "pk_type (parsed_at es p)")
      case kTypeDeletion
      then show ?thesis
        using searching_deletion [OF S vis _ E p] vis same
        by (intro go_on [of "ukey es p" True]) (simp_all add: look_forward_def in_snapshot_def)
    next
      case kTypeValue
      show ?thesis
      proof (cases "covered skipping (di_saved_key d) es p")
        case True
        then show ?thesis using searching_skip [OF S _ E p] vis kTypeValue same
          by (intro go_on [of "di_saved_key d" skipping]) (simp_all add: look_forward_def in_snapshot_def covered_def)
      next
        case False
        then have sh: "shown user ?s es p" and lo: "lo \<le> p" using S vis kTypeValue p by (auto simp: searching_def shown_def)
        have "shown_before user ?s es p = shown_before user ?s es lo"
          using S lo by (intro shown_before_mono) (auto simp: searching_def)
        then have "db_pos es (d1\<lparr>di_valid := True, di_saved_key := []\<rparr>) (shown_before user ?s es lo)"
          using shown_nth [OF p sh] st Suc.prems(2,4) same by (auto simp: db_pos_def db_state_def seeded_def Let_def)
        moreover have "look_forward user skipping (Some (parsed_at es p)) d1 = (d1\<lparr>di_valid := True, di_saved_key := []\<rparr>, Shown)"
          using False vis kTypeValue same by (simp add: look_forward_def in_snapshot_def covered_def)
        ultimately show ?thesis using same by (subst FindNextUserEntry.simps) (simp add: d1(1))
      qed
    qed
  qed
qed simp

text \<open>The seeks and the moves forward.\<close>

lemma seek_position:
  assumes E: "internal_entries user es" and s: "s \<le> kMaxSequenceNumber" and K: "K = InternalKey t s kValueTypeForSeek"
  defines "i \<equiv> first_not_less (InternalKeyComparator user) K (map fst es)"
  shows "i \<le> length es" "r < i \<Longrightarrow> in_snapshot s es r \<Longrightarrow> Compare user (ukey es r) t < 0"
    "i \<le> q \<Longrightarrow> q < length es \<Longrightarrow> 0 \<le> Compare user (ukey es q) t"
proof -
  show i: "i \<le> length es" using length_takeWhile_le [of _ "map fst es"] unfolding i_def by (metis length_map)
  have ku: "ExtractUserKey K = t" "key_tag K = PackSequenceAndType s kTypeValue" by (simp_all add: K kValueTypeForSeek_def)
  show "Compare user (ukey es r) t < 0" if "r < i" "in_snapshot s es r"
  proof -
    have r: "r < length es" using that(1) i by simp
    let ?k = "fst (es ! r)"
    have "internal_Compare user ?k K < 0"
      using nth_mem [of r "takeWhile (\<lambda>k. internal_Compare user k K < 0) (map fst es)"] that(1) r
      by (auto simp: i_def takeWhile_nth dest!: set_takeWhileD)
    moreover have "\<not> PackSequenceAndType s kTypeValue < key_tag ?k"
    proof -
      have "unat (key_tag ?k) = 256 * unat (drop_bit 8 (key_tag ?k)) + unat (key_tag ?k AND 0xFF)"
        by (simp only: and_255 unsigned_take_bit_eq unat_drop_bit) (simp add: take_bit_eq_mod)
      moreover have "unat (drop_bit 8 (key_tag ?k)) \<le> unat s" "unat (key_tag ?k AND 0xFF) \<le> 1"
        using that(2) parsed_atD(3,4) [OF E r] by (simp_all add: in_snapshot_def word_le_nat_alt)
      ultimately show ?thesis by (simp add: word_less_nat_alt unat_Pack [OF s])
    qed
    ultimately show ?thesis using parsed_atD(2) [OF E r] by (simp add: internal_less ku)
  qed
  show "0 \<le> Compare user (ukey es q) t" if "i \<le> q" "q < length es"
  proof (rule ccontr)
    assume "\<not> 0 \<le> Compare user (ukey es q) t"
    then have l: "Compare user (ukey es q) t < 0" by simp
    have "Compare user (ukey es i) t < 0"
      using cmp_le_less [OF _ _ _ ukey_mono [OF E that] l] by simp
    then have "internal_Compare user (fst (es ! i)) K < 0"
      using parsed_atD(2) [OF E, of i] that by (simp add: internal_less ku)
    then show False using nth_length_takeWhile [of "\<lambda>k. internal_Compare user k K < 0" "map fst es"] that by (simp add: i_def)
  qed
qed

lemma seek_view:
  assumes "internal_entries user es" "s \<le> kMaxSequenceNumber" "K = InternalKey t s kValueTypeForSeek"
  shows "shown_before user s es (first_not_less (InternalKeyComparator user) K (map fst es)) =
    first_not_less user t (map fst (user_view user s es))"
proof -
  let ?i = "first_not_less (InternalKeyComparator user) K (map fst es)"
  note S = seek_position [OF assms]
  let ?a = "filter (shown user s es) [0..<?i]" and ?b = "filter (shown user s es) [?i..<length es]"
  have "map fst (user_view user s es) = map (ukey es) ?a @ map (ukey es) ?b"
    by (simp add: user_view_def shown_list_split [OF S(1)])
  moreover have "\<forall>k\<in>set (map (ukey es) ?a). Compare user k t < 0" using S(2) by (auto simp: shown_def)
  moreover have "\<forall>k\<in>set (map (ukey es) ?b). \<not> Compare user k t < 0" using S(3) by force
  then have "map (ukey es) ?b = [] \<or> \<not> Compare user (hd (map (ukey es) ?b)) t < 0" by (metis hd_in_set)
  ultimately show ?thesis using takeWhile_length_eqI [of "map (ukey es) ?a" "\<lambda>k. Compare user k t < 0"]
    by (simp add: shown_before_def)
qed

lemma db_seek:
  assumes "db_pos es d j" "uok t"
  shows "\<exists>d'. di_Seek ops user t d = Some d' \<and> di_sequence d' = di_sequence d \<and>
    db_pos es d' (first_not_less user t (map fst (user_view user (di_sequence d) es)))"
proof -
  let ?s = "di_sequence d" and ?K = "InternalKey t (di_sequence d) kValueTypeForSeek"
  let ?i = "first_not_less (InternalKeyComparator user) ?K (map fst es)"
  obtain i where st: "db_state es d" and at: "pos_at es (di_iter d) i" using assms(1) by (auto simp: db_pos_def)
  have E: "internal_entries user es" and s: "?s \<le> kMaxSequenceNumber" using st by (auto simp: db_state_def)
  note S = seek_position [OF E s refl] and V = seek_view [OF E s refl]
  obtain it where it: "it_Seek ops ?K (di_iter d) = Some it" "pos_at es it ?i" using inner.at_seek [OF at seek_ok [OF assms(2)]] by blast
  let ?d = "ClearSavedValue (d\<lparr>di_direction := kForward\<rparr>)\<lparr>di_saved_key := ?K, di_iter := it\<rparr>"
  have st1: "db_state es ?d" "di_sequence ?d = ?s" "di_iter ?d = it" "di_direction ?d = kForward"
    using st by (simp_all add: db_state_def ClearSavedValue_def seeded_def)
  have step: "di_Seek ops user t d = (if it_Valid ops it then FindNextUserEntry ops user False ?d else Some (?d\<lparr>di_valid := False\<rparr>))"
    using it(1) by (simp add: di_Seek_def Let_def ClearSavedValue_def InternalKey_def)
  show ?thesis
  proof (cases "?i < length es")
    case True
    have "Compare user (ukey es r) (ukey es q) \<noteq> 0" if "?i \<le> q" "q < length es" "r < ?i" "in_snapshot ?s es r" for q r
    proof
      assume "Compare user (ukey es r) (ukey es q) = 0"
      then have "Compare user (ukey es q) t < 0"
        using cmp_le_less [of "ukey es q" "ukey es r" t] S(2) [OF that(3,4)] cmp_eq_sym by simp
      then show False using S(3) [OF that(1,2)] by simp
    qed
    then have "searching ?s es ?i ?i False (di_saved_key ?d)" by (auto simp: searching_def covered_def)
    with FindNext_at [OF st1(1), of ?i ?i False] it(2) True st1 S(1)
    show ?thesis unfolding step V [symmetric] using inner.at_valid [OF it(2)] by simp
  next
    case False
    then have e: "?i = length es" using S(1) [of t] by simp
    have "shown_before user ?s es ?i = length (shown_list user ?s es)" unfolding e by (rule shown_before_end) auto
    then have "db_pos es (?d\<lparr>di_valid := False\<rparr>) (shown_before user ?s es ?i)"
      using st1 it(2) by (auto simp: db_pos_def db_state_def seeded_def ClearSavedValue_def)
    then show ?thesis unfolding step V [symmetric] using inner.at_valid [OF it(2)] False by (simp add: ClearSavedValue_def)
  qed
qed

lemma db_first:
  assumes "db_pos es d j"
  shows "\<exists>d'. di_SeekToFirst ops user d = Some d' \<and> di_sequence d' = di_sequence d \<and> db_pos es d' 0"
proof -
  let ?s = "di_sequence d"
  obtain i where st: "db_state es d" and at: "pos_at es (di_iter d) i" using assms(1) by (auto simp: db_pos_def)
  obtain it where it: "it_SeekToFirst ops (di_iter d) = Some it" "pos_at es it 0" using inner.at_first [OF at] by blast
  let ?d = "ClearSavedValue (d\<lparr>di_direction := kForward\<rparr>)\<lparr>di_iter := it\<rparr>"
  have st1: "db_state es ?d" "di_sequence ?d = ?s" "di_iter ?d = it" "di_direction ?d = kForward"
    using st by (simp_all add: db_state_def ClearSavedValue_def seeded_def)
  have step: "di_SeekToFirst ops user d = (if it_Valid ops it then FindNextUserEntry ops user False ?d else Some (?d\<lparr>di_valid := False\<rparr>))"
    using it(1) by (simp add: di_SeekToFirst_def Let_def ClearSavedValue_def)
  have z: "shown_before user ?s es 0 = 0" by (simp add: shown_before_def)
  show ?thesis
  proof (cases "0 < length es")
    case True
    have "searching ?s es 0 0 False (di_saved_key ?d)" by (auto simp: searching_def covered_def)
    with FindNext_at [OF st1(1), of 0 0 False] it(2) True st1
    show ?thesis unfolding step using inner.at_valid [OF it(2)] z by simp
  next
    case False
    then have "db_pos es (?d\<lparr>di_valid := False\<rparr>) 0"
      using st1 it(2) by (auto simp: db_pos_def db_state_def seeded_def ClearSavedValue_def shown_list_def)
    then show ?thesis unfolding step using inner.at_valid [OF it(2)] False by (simp add: ClearSavedValue_def)
  qed
qed

lemma searching_next:
  assumes "internal_entries user es" "shown user s es c" "c < length es" "b \<le> c" "\<And>q. b \<le> q \<Longrightarrow> q < c \<Longrightarrow> \<not> in_snapshot s es q"
  shows "searching s es (Suc c) b True (ukey es c)"
proof -
  have a: "\<not> shown user s es q" if "c < q" "q < length es" "Compare user (ukey es q) (ukey es c) \<le> 0" for q
    using ukey_same [OF assms(1) _ that(2,3)] that(1) assms(2) by (auto simp: shown_def)
  have b: "pk_type (parsed_at es q) = kTypeValue" if "b \<le> q" "q \<le> c" "in_snapshot s es q" for q
    using assms(2,5) that by (cases "q = c") (auto simp: shown_def)
  have c: "c < q \<and> (\<forall>r<b. Compare user (ukey es r) (ukey es q) \<noteq> 0)" if "q < length es" "\<not> Compare user (ukey es q) (ukey es c) \<le> 0" for q
  proof (intro conjI allI impI notI)
    show "c < q" using that(2) ukey_mono [OF assms(1) _ assms(3), of q] by (meson not_le)
    fix r assume r: "r < b" "Compare user (ukey es r) (ukey es q) = 0"
    have "Compare user (ukey es r) (ukey es c) \<le> 0" using ukey_mono [OF assms(1) _ assms(3)] r(1) assms(4) by simp
    moreover have "Compare user (ukey es q) (ukey es r) \<le> 0" using r(2) cmp_eq_sym by simp
    ultimately show False using that(2) cmp_trans by blast
  qed
  show ?thesis using a b c assms(4) unfolding searching_def covered_def by (auto simp: less_Suc_eq_le Suc_le_eq not_le)
qed

lemma db_next:
  assumes "db_pos es d j" "j < length (shown_list user (di_sequence d) es)"
  shows "\<exists>d'. di_Next ops user d = Some d' \<and> di_sequence d' = di_sequence d \<and> db_pos es d' (Suc j)"
proof -
  let ?s = "di_sequence d" let ?V = "shown_list user ?s es" let ?c = "?V ! j"
  have c: "shown user ?s es ?c" "?c < length es" "shown_before user ?s es ?c = j" using shown_list_nth [OF assms(2)] by auto
  have sc: "shown_before user ?s es (Suc ?c) = Suc j" using shown_nth(3) [OF c(2,1)] c(3) by simp
  obtain i where st: "db_state es d" and at: "pos_at es (di_iter d) i"
    and pos: "if di_direction d = kForward then i = ?c else behind_group es d i ?c" using assms by (auto simp: db_pos_def Let_def)
  have E: "internal_entries user es" using st by (simp add: db_state_def)
  show ?thesis
  proof (cases "di_direction d = kForward")
    case True
    let ?d = "d\<lparr>di_saved_key := ukey es ?c\<rparr>"
    have "ExtractUserKey (it_key ops (di_iter d)) = ukey es ?c"
      using inner.at_entry [OF at] pos True c(2) parsed_atD(2) [OF E c(2)] by simp
    moreover have "db_state es ?d" using st by (simp add: db_state_def seeded_def)
    moreover have "searching ?s es (Suc ?c) ?c True (ukey es ?c)" by (rule searching_next [OF E c(1,2)]) auto
    ultimately show ?thesis
      using FindNext_at [of es ?d ?c "Suc ?c" True] at pos True c(2) sc by (simp add: di_Next_def)
  next
    case False
    let ?b = "bound es i"
    have bg: "di_saved_key d = ukey es ?c" "\<And>q. q < ?b \<Longrightarrow> Compare user (ukey es q) (ukey es ?c) < 0"
      "\<And>q. ?b \<le> q \<Longrightarrow> q < ?c \<Longrightarrow> \<not> in_snapshot ?s es q" using pos False by (auto simp: behind_group_def)
    have b: "?b \<le> ?c" using bg(2) [of ?c] cmp_self by (intro leI) auto
    obtain it where it: "(if \<not> it_Valid ops (di_iter d) then it_SeekToFirst ops (di_iter d) else it_Next ops (di_iter d)) = Some it" "pos_at es it ?b"
      using inner.at_valid [OF at] inner.at_bound [OF at] inner.at_first [OF at] inner.at_next [OF at]
      by (auto simp: bound_def split: if_splits)
    have "it_Valid ops it" using inner.at_valid [OF it(2)] b c(2) by simp
    moreover have "db_state es (d\<lparr>di_direction := kForward, di_iter := it\<rparr>)" using st by (simp add: db_state_def seeded_def)
    moreover have "searching ?s es (Suc ?c) ?b True (ukey es ?c)" by (rule searching_next [OF E c(1,2) b bg(3)])
    moreover have "di_direction d = kReverse" using False by (cases "di_direction d") auto
    ultimately show ?thesis
      using FindNext_at [of es "d\<lparr>di_direction := kForward, di_iter := it\<rparr>" ?b "Suc ?c" True] it b c(2) bg(1) sc by (simp add: di_Next_def)
  qed
qed

text \<open>The search backward: what the loop has seen of the positions from \<open>m\<close> up to \<open>M\<close>.\<close>

definition seen :: "entries \<Rightarrow> nat \<Rightarrow> nat \<Rightarrow> ValueType \<Rightarrow> 'i dbiter \<Rightarrow> bool" where
  "seen es m M vt d \<longleftrightarrow>
     (if vt = kTypeDeletion then \<forall>q. m \<le> q \<and> q < M \<longrightarrow> \<not> shown user (di_sequence d) es q
      else \<exists>c. m \<le> c \<and> c < M \<and> in_snapshot (di_sequence d) es c \<and> pk_type (parsed_at es c) = kTypeValue \<and>
             di_saved_key d = ukey es c \<and> di_saved_value d = snd (es ! c) \<and>
             (\<forall>q. m \<le> q \<and> q < c \<longrightarrow> \<not> in_snapshot (di_sequence d) es q) \<and>
             (\<forall>q. c < q \<and> q < M \<longrightarrow> \<not> shown user (di_sequence d) es q))"

definition found :: "entries \<Rightarrow> nat \<Rightarrow> ValueType \<Rightarrow> 'i dbiter \<Rightarrow> bool" where
  "found es M vt d \<longleftrightarrow> db_state es d \<and> (\<exists>i. pos_at es (di_iter d) i \<and>
     (if vt = kTypeDeletion then \<forall>q<M. \<not> shown user (di_sequence d) es q
      else \<exists>c<M. shown user (di_sequence d) es c \<and> (\<forall>q. c < q \<and> q < M \<longrightarrow> \<not> shown user (di_sequence d) es q) \<and> behind_group es d i c))"

lemma seen_hidden:
  assumes "seen es (Suc p) M vt d" "\<not> in_snapshot (di_sequence d) es p"
  shows "seen es p M vt d"
proof -
  have "\<not> shown user (di_sequence d) es p" using assms(2) by (simp add: shown_def)
  moreover have le: "p \<le> q \<longleftrightarrow> p = q \<or> Suc p \<le> q" for q by auto
  ultimately show ?thesis using assms unfolding seen_def le by (cases vt) (simp_all, blast+)
qed

lemma seen_not_shown:
  assumes "seen es (Suc p) M vt d" "in_snapshot (di_sequence d) es p" "internal_entries user es" "M \<le> length es"
    "vt = kTypeDeletion \<or> \<not> Compare user (ukey es p) (di_saved_key d) < 0" "p < q" "q < M"
  shows "\<not> shown user (di_sequence d) es q"
proof (cases "vt = kTypeDeletion")
  case True then show ?thesis using assms(1,6,7) by (simp add: seen_def)
next
  case False
  then obtain c where c: "p < c" "c < M" "di_saved_key d = ukey es c" "\<And>q. p < q \<Longrightarrow> q < c \<Longrightarrow> \<not> in_snapshot (di_sequence d) es q"
    "\<And>q. c < q \<Longrightarrow> q < M \<Longrightarrow> \<not> shown user (di_sequence d) es q"
    using assms(1) by (auto simp: seen_def Suc_le_eq)
  have "Compare user (ukey es p) (ukey es c) = 0"
    using ukey_mono [OF assms(3), of p c] c(1-3) assms(4,5) False by force
  then have "\<not> shown user (di_sequence d) es c" using assms(2) c(1) by (auto simp: shown_def)
  then show ?thesis using c(4,5) assms(6,7) by (metis linorder_neqE_nat shown_def)
qed

lemma FindPrev_at:
  assumes "db_state es d" "pos_at es (di_iter d) i" "seen es (bound es i) M vt d" "M \<le> length es" "bound es i \<le> M"
  shows "\<exists>vt' d'. FindPrevUserEntry_loop ops user vt d = Some (vt', d') \<and> di_sequence d' = di_sequence d \<and>
    di_direction d' = di_direction d \<and> found es M vt' d'"
  using assms
proof (induction "bound es i" arbitrary: i d vt)
  case 0
  then have i: "i = length es" by (auto simp: bound_def split: if_splits)
  then have "FindPrevUserEntry_loop ops user vt d = Some (vt, d)"
    using inner.at_valid [OF 0(3)] by (subst FindPrevUserEntry_loop.simps) simp
  moreover have "found es M vt d"
  proof (cases "vt = kTypeDeletion")
    case True
    then show ?thesis using 0 by (auto simp: found_def seen_def)
  next
    case False
    then obtain c where c: "c < M" "in_snapshot (di_sequence d) es c" "pk_type (parsed_at es c) = kTypeValue"
      "di_saved_key d = ukey es c" "di_saved_value d = snd (es ! c)" "\<forall>q<c. \<not> in_snapshot (di_sequence d) es q"
      "\<forall>q. c < q \<and> q < M \<longrightarrow> \<not> shown user (di_sequence d) es q" using 0(4) 0(1) by (auto simp: seen_def)
    then have "shown user (di_sequence d) es c" "behind_group es d i c" using 0(1) by (auto simp: shown_def behind_group_def)
    then show ?thesis using False c 0(2,3) unfolding found_def by auto
  qed
  ultimately show ?case by simp
next
  case (Suc p)
  then have i: "i = p" "p < length es" using inner.at_bound [OF Suc.prems(2)] by (auto simp: bound_def split: if_splits)
  let ?s = "di_sequence d"
  have E: "internal_entries user es" and sd: "seeded d" using Suc.prems(1) by (auto simp: db_state_def)
  note at = Suc.prems(2) [unfolded i(1)]
  have S: "seen es (Suc p) M vt d" using Suc.prems(3) Suc.hyps(2) by simp
  obtain d1 where d1: "ParseKey ops d = Some (d1, Some (parsed_at es p))" "same_place d d1" "seeded d1"
    using ParseKey_at [OF E at i(2) sd] by blast
  note same = same_placeD [OF d1(2)]
  have st: "db_state es d1" using Suc.prems(1) d1(3) same by (simp add: db_state_def)
  have e: "it_key ops (di_iter d) = fst (es ! p)" "it_value ops (di_iter d) = Some (snd (es ! p))" using inner.at_entry [OF at i(2)] by auto
  obtain it where it: "it_Prev ops (di_iter d) = Some it" "pos_at es it (if p = 0 then length es else p - 1)"
    using inner.at_prev [OF at i(2)] by blast
  have b: "bound es (if p = 0 then length es else p - 1) = p" using i(2) by (auto simp: bound_def)
  have v: "it_Valid ops (di_iter d)" using inner.at_valid [OF at] i(2) by simp
  have go_on: ?case
    if l: "look_backward ops user vt (Some (parsed_at es p)) d1 = Some (d2, vt2, False)"
      and s2: "db_state es d2" "di_iter d2 = di_iter d" "di_sequence d2 = ?s" "di_direction d2 = di_direction d" "seen es p M vt2 d2" for d2 vt2
  proof -
    have "db_state es (d2\<lparr>di_iter := it\<rparr>)" using s2(1) by (simp add: db_state_def seeded_def)
    moreover have "seen es p M vt2 (d2\<lparr>di_iter := it\<rparr>)" using s2(5) by (simp add: seen_def)
    ultimately show ?thesis
      using Suc.hyps(1) [of "if p = 0 then length es else p - 1" "d2\<lparr>di_iter := it\<rparr>" vt2] it b s2(2-4) Suc.prems(4,5) Suc.hyps(2) v
      by (subst FindPrevUserEntry_loop.simps) (simp add: d1(1) l)
  qed
  show ?case
  proof (cases "in_snapshot ?s es p")
    case False
    then show ?thesis
      using seen_hidden [OF S False] st same
      by (intro go_on [of d1 vt]) (auto simp: look_backward_def in_snapshot_def seen_def)
  next
    case vis: True
    show ?thesis
    proof (cases "vt \<noteq> kTypeDeletion \<and> Compare user (ukey es p) (di_saved_key d) < 0")
      case True
      then obtain c where c: "Suc p \<le> c" "c < M" "in_snapshot ?s es c" "pk_type (parsed_at es c) = kTypeValue"
        "di_saved_key d = ukey es c" "di_saved_value d = snd (es ! c)" "\<And>q. Suc p \<le> q \<Longrightarrow> q < c \<Longrightarrow> \<not> in_snapshot ?s es q"
        "\<And>q. c < q \<Longrightarrow> q < M \<Longrightarrow> \<not> shown user ?s es q" using S by (auto simp: seen_def)
      have lt: "Compare user (ukey es q) (ukey es c) < 0" if "q \<le> p" for q
        using cmp_le_less [OF _ _ _ ukey_mono [OF E that i(2)]] True c(5) by simp
      have sh: "shown user ?s es c"
        unfolding shown_def using c(3,4,7) lt by (metis less_irrefl not_less_eq_eq)
      have "behind_group es d1 p c" using c(5-7) lt i(2) same by (auto simp: behind_group_def bound_def less_Suc_eq_le)
      then have "found es M vt d1" using st at same True sh c(2,8) unfolding found_def by auto
      moreover have "FindPrevUserEntry_loop ops user vt d = Some (vt, d1)"
        using v True vis same by (subst FindPrevUserEntry_loop.simps) (simp add: d1(1) look_backward_def in_snapshot_def)
      ultimately show ?thesis using same by simp
    next
      case False
      then have ns: "\<not> shown user ?s es q" if "p < q" "q < M" for q
        using seen_not_shown [OF S vis E Suc.prems(4)] that by auto
      show ?thesis
      proof (cases "pk_type (parsed_at es p)")
        case kTypeDeletion
        then have "\<not> shown user ?s es p" by (simp add: shown_def)
        then have "seen es p M kTypeDeletion (ClearSavedValue (d1\<lparr>di_saved_key := []\<rparr>))"
          using ns same by (auto simp: seen_def ClearSavedValue_def le_less)
        then show ?thesis using False vis kTypeDeletion st same
          by (intro go_on [of "ClearSavedValue (d1\<lparr>di_saved_key := []\<rparr>)" kTypeDeletion])
            (auto simp: look_backward_def in_snapshot_def ClearSavedValue_def db_state_def seeded_def)
      next
        case kTypeValue
        let ?d = "d1\<lparr>di_saved_key := ukey es p, di_saved_value := snd (es ! p)\<rparr>"
        have "p < M" using Suc.prems(5) Suc.hyps(2) by simp
        then have "seen es p M kTypeValue ?d" using ns vis kTypeValue same by (auto simp: seen_def)
        then show ?thesis using False vis kTypeValue st same e parsed_atD(2) [OF E i(2)]
          by (intro go_on [of ?d kTypeValue]) (auto simp: look_backward_def in_snapshot_def db_state_def seeded_def)
      qed
    qed
  qed
qed

lemma FindPrevUserEntry_at:
  assumes "db_state es d" "pos_at es (di_iter d) i" "di_direction d = kReverse" "bound es i \<le> length es"
    and s: "di_sequence d = s" and j: "shown_before user s es (bound es i) = j"
  shows "\<exists>d'. FindPrevUserEntry ops user d = Some d' \<and> di_sequence d' = s \<and>
    db_pos es d' (if j = 0 then length (shown_list user s es) else j - 1)"
proof -
  let ?s = s let ?M = "bound es i"
  have "seen es ?M ?M kTypeDeletion d" by (auto simp: seen_def)
  from FindPrev_at [OF assms(1,2) this assms(4)] assms(3) s obtain vt d1 where
    l: "FindPrevUserEntry_loop ops user kTypeDeletion d = Some (vt, d1)" "di_sequence d1 = ?s" "di_direction d1 = kReverse" "found es ?M vt d1"
    by auto
  obtain i1 where st: "db_state es d1" and at: "pos_at es (di_iter d1) i1"
    and f: "if vt = kTypeDeletion then \<forall>q<?M. \<not> shown user ?s es q
      else \<exists>c<?M. shown user ?s es c \<and> (\<forall>q. c < q \<and> q < ?M \<longrightarrow> \<not> shown user ?s es q) \<and> behind_group es d1 i1 c"
    using l(2,4) by (auto simp: found_def)
  show ?thesis
  proof (cases "vt = kTypeDeletion")
    case True
    then have "j = 0" using f by (auto simp: j [symmetric] shown_before_def filter_empty_conv)
    moreover have "db_pos es (ClearSavedValue (d1\<lparr>di_valid := False, di_saved_key := []\<rparr>)\<lparr>di_direction := kForward\<rparr>) (length (shown_list user ?s es))"
      using st at l(2) by (auto simp: db_pos_def db_state_def seeded_def ClearSavedValue_def)
    ultimately show ?thesis using True l by (simp add: FindPrevUserEntry_def ClearSavedValue_def)
  next
    case False
    then obtain c where c: "c < ?M" "shown user ?s es c" "\<And>q. c < q \<Longrightarrow> q < ?M \<Longrightarrow> \<not> shown user ?s es q" "behind_group es d1 i1 c"
      using f by auto
    have cl: "c < length es" using c(1) assms(4) by simp
    have "j = shown_before user ?s es (Suc c)" unfolding j [symmetric] by (rule shown_before_mono) (use c(1,3) in auto)
    then have js: "j = Suc (shown_before user ?s es c)" using shown_nth(3) [OF cl c(2)] by simp
    have "db_pos es (d1\<lparr>di_valid := True\<rparr>) (shown_before user ?s es c)"
      using st at l(2,3) shown_nth(1,2) [OF cl c(2)] c(4) by (auto simp: db_pos_def db_state_def seeded_def Let_def behind_group_def)
    then show ?thesis using False l js by (simp add: FindPrevUserEntry_def)
  qed
qed

lemma leave_key_at:
  assumes "db_state es d" "pos_at es (di_iter d) i" "i < length es" "di_saved_key d = k" "0 \<le> Compare user (ukey es i) k"
  shows "\<exists>left d' i'. leave_key_loop ops user d = Some (left, d') \<and> pos_at es (di_iter d') i' \<and> db_state es d' \<and>
    di_sequence d' = di_sequence d \<and> di_direction d' = di_direction d \<and> (left \<longleftrightarrow> i' < length es) \<and> (\<not> left \<longrightarrow> \<not> di_valid d') \<and>
    (left \<longrightarrow> Compare user (ukey es i') k < 0) \<and> (\<forall>q. bound es i' \<le> q \<and> q \<le> i \<longrightarrow> 0 \<le> Compare user (ukey es q) k)"
  using assms
proof (induction i arbitrary: d)
  case 0
  obtain it where it: "it_Prev ops (di_iter d) = Some it" "pos_at es it (length es)" using inner.at_prev [OF 0(2,3)] by auto
  have "leave_key_loop ops user d = Some (False, ClearSavedValue (d\<lparr>di_iter := it, di_valid := False, di_saved_key := []\<rparr>))"
    using it inner.at_valid [OF it(2)] by (subst leave_key_loop.simps) simp
  moreover have "db_state es (ClearSavedValue (d\<lparr>di_iter := it, di_valid := False, di_saved_key := []\<rparr>))"
    using 0(1) by (simp add: db_state_def seeded_def ClearSavedValue_def)
  ultimately show ?case using it(2) 0(5) by (auto simp: ClearSavedValue_def intro!: exI [of _ "length es"])
next
  case (Suc i)
  have E: "internal_entries user es" using Suc.prems(1) by (simp add: db_state_def)
  obtain it where it: "it_Prev ops (di_iter d) = Some it" "pos_at es it i" using inner.at_prev [OF Suc.prems(2,3)] by auto
  have i: "i < length es" using Suc.prems(3) by simp
  have v: "it_Valid ops it" "ExtractUserKey (it_key ops it) = ukey es i"
    using inner.at_valid [OF it(2)] inner.at_entry [OF it(2) i] i parsed_atD(2) [OF E i] by auto
  let ?d = "d\<lparr>di_iter := it\<rparr>"
  have st: "db_state es ?d" using Suc.prems(1) by (simp add: db_state_def seeded_def)
  show ?case
  proof (cases "Compare user (ukey es i) k < 0")
    case True
    then have "leave_key_loop ops user d = Some (True, ?d)" using it v Suc.prems(4) by (subst leave_key_loop.simps) simp
    moreover have "0 \<le> Compare user (ukey es q) k" if "bound es i \<le> q \<and> q \<le> Suc i" for q
      using that i Suc.prems(5) by (simp add: bound_def) (metis le_antisym)
    ultimately show ?thesis using st it(2) i True by (intro exI [of _ True] exI [of _ ?d] exI [of _ i]) simp
  next
    case False
    then have "leave_key_loop ops user d = leave_key_loop ops user ?d" using it v Suc.prems(4) by (subst leave_key_loop.simps) simp
    moreover have "pos_at es (di_iter ?d) i" "di_saved_key ?d = k" "0 \<le> Compare user (ukey es i) k"
      using it(2) Suc.prems(4) False by simp_all
    note Suc.IH [OF st this(1) i this(2,3)]
    ultimately show ?thesis using Suc.prems(5) by (force simp: le_Suc_eq)
  qed
qed

lemma db_prev:
  assumes "db_pos es d j" "j < length (shown_list user (di_sequence d) es)"
  shows "\<exists>d'. di_Prev ops user d = Some d' \<and> di_sequence d' = di_sequence d \<and>
    db_pos es d' (if j = 0 then length (shown_list user (di_sequence d) es) else j - 1)"
proof -
  let ?s = "di_sequence d" let ?V = "shown_list user ?s es" let ?c = "?V ! j"
  have c: "shown user ?s es ?c" "?c < length es" "shown_before user ?s es ?c = j" using shown_list_nth [OF assms(2)] by auto
  obtain i where st: "db_state es d" and at: "pos_at es (di_iter d) i"
    and pos: "if di_direction d = kForward then i = ?c else behind_group es d i ?c" using assms by (auto simp: db_pos_def Let_def)
  have E: "internal_entries user es" using st by (simp add: db_state_def)
  show ?thesis
  proof (cases "di_direction d = kForward")
    case False
    let ?b = "bound es i"
    have bg: "\<And>q. q < ?b \<Longrightarrow> Compare user (ukey es q) (ukey es ?c) < 0" "\<And>q. ?b \<le> q \<Longrightarrow> q < ?c \<Longrightarrow> \<not> in_snapshot ?s es q"
      using pos False by (auto simp: behind_group_def)
    have b: "?b \<le> ?c" using bg(1) [of ?c] cmp_self by (intro leI) auto
    have "shown_before user ?s es ?c = shown_before user ?s es ?b" by (rule shown_before_mono [OF b]) (use bg(2) in \<open>simp add: shown_def\<close>)
    then have sb: "shown_before user ?s es ?b = j" using c(3) by simp
    have r: "di_direction d = kReverse" using False by (cases "di_direction d") auto
    have bl: "?b \<le> length es" using b c(2) by simp
    have "di_Prev ops user d = FindPrevUserEntry ops user d" using r by (simp add: di_Prev_def)
    then show ?thesis using FindPrevUserEntry_at [OF st at r bl refl sb] by (simp only:)
  next
    case True
    let ?d = "d\<lparr>di_saved_key := ukey es ?c\<rparr>"
    have k: "ExtractUserKey (it_key ops (di_iter d)) = ukey es ?c"
      using inner.at_entry [OF at] pos True c(2) parsed_atD(2) [OF E c(2)] by simp
    have q: "db_state es ?d" "pos_at es (di_iter ?d) ?c" "di_saved_key ?d = ukey es ?c" "0 \<le> Compare user (ukey es ?c) (ukey es ?c)"
      using st at pos True cmp_self by (simp_all add: db_state_def seeded_def)
    obtain left d1 i1 where
      l: "leave_key_loop ops user ?d = Some (left, d1)" "pos_at es (di_iter d1) i1" "db_state es d1" "di_sequence d1 = di_sequence ?d"
        "left \<longleftrightarrow> i1 < length es" "\<not> left \<longrightarrow> \<not> di_valid d1" "left \<longrightarrow> Compare user (ukey es i1) (ukey es ?c) < 0"
        "\<forall>q. bound es i1 \<le> q \<and> q \<le> ?c \<longrightarrow> 0 \<le> Compare user (ukey es q) (ukey es ?c)"
      using leave_key_at [OF q(1,2) c(2) q(3,4)] by blast
    have s1: "di_sequence d1 = ?s" using l(4) by simp
    have b: "bound es i1 \<le> ?c"
    proof (cases left)
      case True
      then have "i1 < ?c" using l(5,7) ukey_mono [OF E, of ?c i1] cmp_swap [of "ukey es i1" "ukey es ?c"] by (metis leD leI)
      then show ?thesis using True l(5) by (simp add: bound_def)
    next
      case False
      then show ?thesis using l(5) inner.at_bound [OF l(2)] by (simp add: bound_def)
    qed
    have "\<not> shown user ?s es q" if "bound es i1 \<le> q" "q < ?c" for q
    proof -
      have "Compare user (ukey es q) (ukey es ?c) = 0" using l(8) that ukey_mono [OF E, of q ?c] c(2) by force
      then show ?thesis using c(1) that(2) by (auto simp: shown_def)
    qed
    then have sb: "shown_before user ?s es (bound es i1) = j" using shown_before_mono [OF b] c(3) by simp
    show ?thesis
    proof (cases left)
      case True
      let ?e = "d1\<lparr>di_direction := kReverse\<rparr>"
      have e: "db_state es ?e" "pos_at es (di_iter ?e) i1" "di_direction ?e = kReverse" "di_sequence ?e = ?s" "bound es i1 \<le> length es"
        using l(2,3) s1 b c(2) by (simp_all add: db_state_def seeded_def)
      have "di_Prev ops user d = FindPrevUserEntry ops user ?e" using l(1) True \<open>di_direction d = kForward\<close> k by (simp add: di_Prev_def)
      then show ?thesis using FindPrevUserEntry_at [OF e(1-3,5,4) sb] by (simp only:)
    next
      case False
      then have "j = 0" using sb l(5) inner.at_bound [OF l(2)] by (simp add: bound_def shown_before_def)
      moreover have "db_pos es d1 (length ?V)" using l(2,3,6) s1 False by (auto simp: db_pos_def)
      ultimately show ?thesis using l(1) s1 False \<open>di_direction d = kForward\<close> k by (simp add: di_Prev_def)
    qed
  qed
qed

lemma db_last:
  assumes "db_pos es d j"
  shows "\<exists>d'. di_SeekToLast ops user d = Some d' \<and> di_sequence d' = di_sequence d \<and>
    db_pos es d' (length (shown_list user (di_sequence d) es) - 1)"
proof -
  let ?s = "di_sequence d"
  obtain i where st: "db_state es d" and at: "pos_at es (di_iter d) i" using assms(1) by (auto simp: db_pos_def)
  obtain it where it: "it_SeekToLast ops (di_iter d) = Some it" "pos_at es it (length es - 1)" using inner.at_last [OF at] by blast
  let ?d = "ClearSavedValue (d\<lparr>di_direction := kReverse\<rparr>)\<lparr>di_iter := it\<rparr>"
  have st1: "db_state es ?d" "di_sequence ?d = ?s" "di_iter ?d = it" "di_direction ?d = kReverse"
    using st by (simp_all add: db_state_def ClearSavedValue_def seeded_def)
  have b: "bound es (length es - 1) = length es" by (cases es) (auto simp: bound_def)
  have sb: "shown_before user ?s es (length es) = length (shown_list user ?s es)" by (simp add: shown_before_def shown_list_def)
  have at1: "pos_at es (di_iter ?d) (length es - 1)" and bl: "bound es (length es - 1) \<le> length es" using it(2) st1(3) b by simp_all
  have step: "di_SeekToLast ops user d = FindPrevUserEntry ops user ?d" using it(1) by (simp add: di_SeekToLast_def Let_def ClearSavedValue_def)
  have "\<exists>d'. FindPrevUserEntry ops user ?d = Some d' \<and> di_sequence d' = ?s \<and>
      db_pos es d' (if length (shown_list user ?s es) = 0 then length (shown_list user ?s es) else length (shown_list user ?s es) - 1)"
    by (rule FindPrevUserEntry_at [OF st1(1) at1 st1(4) bl st1(2)]) (simp only: b sb)
  then show ?thesis unfolding step by (cases "shown_list user ?s es = []") simp_all
qed

definition db_at :: "entries \<Rightarrow> 'i dbiter \<Rightarrow> nat \<Rightarrow> bool" where
  "db_at kvs d j \<longleftrightarrow> (\<exists>es. kvs = user_view user (di_sequence d) es \<and> db_pos es d j)"

lemma length_view: "length (user_view user s es) = length (shown_list user s es)"
  by (simp add: user_view_def)

lemma db_entry:
  assumes "db_pos es d j" "j < length (shown_list user (di_sequence d) es)"
  shows "di_key ops d = fst (user_view user (di_sequence d) es ! j) \<and> di_value ops d = Some (snd (user_view user (di_sequence d) es ! j))"
proof -
  let ?c = "shown_list user (di_sequence d) es ! j"
  obtain i where st: "db_state es d" and at: "pos_at es (di_iter d) i"
    and pos: "if di_direction d = kForward then i = ?c else behind_group es d i ?c" using assms by (auto simp: db_pos_def Let_def)
  have c: "?c < length es" using shown_list_nth(2) [OF assms(2)] .
  have E: "internal_entries user es" using st by (simp add: db_state_def)
  show ?thesis
    using pos c at inner.at_entry [of es "di_iter d" ?c] parsed_atD(2) [OF E c] assms(2)
    by (auto simp: di_key_def di_value_def behind_group_def user_view_def split: if_splits)
qed

lemma db_get_status: "db_pos es d j \<Longrightarrow> di_get_status ops d = OK"
  using inner.at_status by (auto simp: db_pos_def db_state_def di_get_status_def)

lemma db_new:
  assumes "internal_entries user es" "pos_at es it i" "s \<le> kMaxSequenceNumber"
  shows "db_at (user_view user s es) (DBIter it s seed) (length (user_view user s es))"
proof -
  have r: "0 < Random seed" "Random seed < 2147483647" using random_is_lehmer [of 1 seed] by simp_all
  obtain period rnd1 where p: "RandomCompactionPeriod (Random seed) = (period, rnd1)" by fastforce
  have "seeded (DBIter it s seed)"
    using RandomCompactionPeriod_unat [OF r] by (simp add: seeded_def DBIter_def p)
  moreover have "di_iter (DBIter it s seed) = it" "di_sequence (DBIter it s seed) = s" "di_status (DBIter it s seed) = OK"
    "\<not> di_valid (DBIter it s seed)" by (simp_all add: DBIter_def p)
  ultimately have "db_pos es (DBIter it s seed) (length (user_view user s es))"
    using assms length_view by (auto simp: db_pos_def db_state_def)
  then show ?thesis using \<open>di_sequence (DBIter it s seed) = s\<close> by (auto simp: db_at_def)
qed

end

sublocale db_iterator \<subseteq> db: list_iterator "db_ops ops user" user uok db_at
proof (unfold_locales, goal_cases)
  case (1 kvs it i) then show ?case by (auto simp: db_at_def db_pos_def db_ops_def length_view Let_def split: if_splits)
next
  case (2 kvs it i) then show ?case by (auto simp: db_at_def db_pos_def length_view Let_def split: if_splits)
next
  case (3 kvs it i) then show ?case using db_entry by (auto simp: db_at_def db_ops_def length_view)
next
  case (4 kvs it i) then show ?case using db_get_status by (auto simp: db_at_def db_ops_def)
next
  case (5 kvs it i t)
  then obtain es where "kvs = user_view user (di_sequence it) es" "db_pos es it i" by (auto simp: db_at_def)
  with db_seek [OF this(2) 5(2)] show ?case by (fastforce simp: db_ops_def db_at_def)
next
  case (6 kvs it i)
  then obtain es where "kvs = user_view user (di_sequence it) es" "db_pos es it i" by (auto simp: db_at_def)
  with db_first [OF this(2)] show ?case by (fastforce simp: db_ops_def db_at_def)
next
  case (7 kvs it i)
  then obtain es where "kvs = user_view user (di_sequence it) es" "db_pos es it i" by (auto simp: db_at_def)
  with db_last [OF this(2)] show ?case by (fastforce simp: db_ops_def db_at_def length_view)
next
  case (8 kvs it i)
  then obtain es where "kvs = user_view user (di_sequence it) es" "db_pos es it i" by (auto simp: db_at_def)
  with db_next [OF this(2)] 8(2) show ?case by (fastforce simp: db_ops_def db_at_def length_view)
next
  case (9 kvs it i)
  then obtain es where e: "kvs = user_view user (di_sequence it) es" "db_pos es it i" by (auto simp: db_at_def)
  from db_prev [OF e(2)] 9(2) e(1) obtain d' where p: "di_Prev ops user it = Some d'" "di_sequence d' = di_sequence it"
    "db_pos es d' (if i = 0 then length kvs else i - 1)" by (auto simp only: length_view)
  then have "db_at kvs d' (if i = 0 then length kvs else i - 1)" using e(1) unfolding db_at_def by metis
  with p(1) show ?case unfolding db_ops_def iter_ops.simps by blast
qed

end
