(* ===== verification/Ldb_Memtable_Iter.thy ===== *)
theory Ldb_Memtable_Iter
  imports Ldb_Memtable Ldb_Iterator_Props
begin

text \<open>
  The iterator of the memory table, \<^verbatim>\<open>MemTableIterator\<close> in \<^verbatim>\<open>leveldb-library/db/memtable.cc\<close>, as one of
  the iterators of the database: over a table that holds given updates it fulfils the contract of an
  iterator over the sorted list of their internal keys and values.
\<close>

section \<open>The virtual calls\<close>

type_synonym mem_iter = "memtable \<times> nat option"

definition mem_NewIterator :: "memtable \<Rightarrow> mem_iter" where
  "mem_NewIterator m = (m, None)"

definition mem_ops :: "comparator \<Rightarrow> mem_iter iter_ops" where
  "mem_ops user =
     \<lparr>it_Valid = (\<lambda>(m, n). iter_Valid n), it_key = (\<lambda>(m, n). mem_iter_key m n),
      it_value = (\<lambda>(m, n). Some (mem_iter_value m n)), it_status = (\<lambda>_. OK),
      it_Seek = (\<lambda>k (m, n). map_option (Pair m) (mem_iter_Seek user m k)),
      it_SeekToFirst = (\<lambda>(m, n). Some (m, mem_iter_SeekToFirst m)),
      it_SeekToLast = (\<lambda>(m, n). map_option (Pair m) (mem_iter_SeekToLast m)),
      it_Next = (\<lambda>(m, n). Some (m, mem_iter_Next m n)),
      it_Prev = (\<lambda>(m, n). map_option (Pair m) (mem_iter_Prev user m n))\<rparr>"

section \<open>Positions\<close>

text \<open>The node at a position of the bottom level, the null pointer behind the last.\<close>

definition node_of :: "nat list \<Rightarrow> nat \<Rightarrow> nat option" where
  "node_of xs i = (if i < length xs then Some (xs ! i) else None)"

lemma first_of_drop: "first_of (dropWhile P xs) = node_of xs (length (takeWhile P xs))"
  by (induction xs) (auto simp: first_of_def node_of_def)

lemma chain_node: "chain sl 0 x xs \<Longrightarrow> i < length xs \<Longrightarrow> node_Next sl (xs ! i) 0 = node_of xs (Suc i)"
proof (induction xs arbitrary: x i)
  case (Cons y ys)
  then show ?case
    by (cases i) (auto simp: node_of_def dest: chain_first split: list.splits)
qed simp

lemma or_null_node: "head_node \<notin> set xs \<Longrightarrow> i \<le> length xs \<Longrightarrow> or_null (last (head_node # take i xs)) = (if i = 0 then None else node_of xs (i - 1))"
  by (cases i) (auto simp: or_null_def node_of_def take_Suc_conv_app_nth Suc_le_eq dest: nth_mem)

abbreviation mem_key_ok :: "slice \<Rightarrow> bool" where
  "mem_key_ok k \<equiv> 8 \<le> length k \<and> length k < 2 ^ 32"

definition entry_kv :: "byte list \<Rightarrow> slice \<times> slice" where
  "entry_kv e = (mem_GetLengthPrefixedSlice e, mem_GetLengthPrefixedSlice (after_slice e))"

lemma EncodeKey_slice: "mem_key_ok k \<Longrightarrow> mem_GetLengthPrefixedSlice (EncodeKey k) = k"
  using prefixed_parts(1) [of k "[]"] by (simp add: EncodeKey_def PutVarint32_def)

context user_comparator
begin

definition mem_at :: "entries \<Rightarrow> mem_iter \<Rightarrow> nat \<Rightarrow> bool" where
  "mem_at kvs it i \<longleftrightarrow> (\<exists>xs. sl_inv (mem_compare user) (mt_table (fst it)) xs \<and> mem.keys_ok (mt_table (fst it)) xs \<and>
     kvs = map (\<lambda>x. entry_kv (key_at (mt_table (fst it)) x)) xs \<and> i \<le> length xs \<and> snd it = node_of xs i)"

lemma mem_seek:
  assumes "mem_at kvs it i" "mem_key_ok t"
  shows "\<exists>it'. it_Seek (mem_ops user) t it = Some it' \<and> mem_at kvs it' (first_not_less (InternalKeyComparator user) t (map fst kvs))"
proof -
  obtain m n where it: "it = (m, n)" by fastforce
  let ?sl = "mt_table m"
  obtain xs where xs: "sl_inv (mem_compare user) ?sl xs" "mem.keys_ok ?sl xs"
    "kvs = map (\<lambda>x. entry_kv (key_at ?sl x)) xs" using assms(1) by (auto simp: mem_at_def it)
  have "entry_ok (EncodeKey t)" using assms(2) by (simp add: EncodeKey_slice)
  note f = mem.find_ge [OF xs(1,2) this, of None]
  have "first_not_less (InternalKeyComparator user) t (map fst kvs) = length (takeWhile (is_below (mem_compare user) ?sl (EncodeKey t)) xs)"
    by (simp add: xs(3) takeWhile_map o_def entry_kv_def mem_compare_def EncodeKey_slice [OF assms(2)])
  moreover have "it_Seek (mem_ops user) t it = Some (m, node_of xs (length (takeWhile (is_below (mem_compare user) ?sl (EncodeKey t)) xs)))"
    by (simp add: mem_ops_def it mem_iter_Seek_def iter_Seek_def f first_of_drop)
  ultimately show ?thesis using xs by (auto simp: mem_at_def length_takeWhile_le)
qed

lemma mem_first:
  assumes "mem_at kvs it i"
  shows "\<exists>it'. it_SeekToFirst (mem_ops user) it = Some it' \<and> mem_at kvs it' 0"
proof -
  obtain m n where it: "it = (m, n)" by fastforce
  obtain xs where xs: "sl_inv (mem_compare user) (mt_table m) xs" "mem.keys_ok (mt_table m) xs"
    "kvs = map (\<lambda>x. entry_kv (key_at (mt_table m) x)) xs" using assms(1) by (auto simp: mem_at_def it)
  have "node_Next (mt_table m) head_node 0 = node_of xs 0"
    using chain_first [OF sl_invD(10) [OF xs(1), of 0]] level_0 [OF xs(1), of xs]
    by (cases xs) (simp_all add: kMaxHeight_def node_of_def)
  then show ?thesis using xs by (auto simp: mem_ops_def it mem_iter_SeekToFirst_def iter_SeekToFirst_def mem_at_def)
qed

lemma mem_last:
  assumes "mem_at kvs it i"
  shows "\<exists>it'. it_SeekToLast (mem_ops user) it = Some it' \<and> mem_at kvs it' (length kvs - 1)"
proof -
  obtain m n where it: "it = (m, n)" by fastforce
  obtain xs where xs: "sl_inv (mem_compare user) (mt_table m) xs" "mem.keys_ok (mt_table m) xs"
    "kvs = map (\<lambda>x. entry_kv (key_at (mt_table m) x)) xs" using assms(1) by (auto simp: mem_at_def it)
  have "or_null (last (head_node # xs)) = node_of xs (length xs - 1)"
    using or_null_node [OF sl_invD(2) [OF xs(1)], of "length xs"] by (cases xs) (simp_all add: node_of_def)
  then show ?thesis
    using xs by (auto simp: mem_ops_def it mem_iter_SeekToLast_def iter_SeekToLast_def find_last [OF xs(1)] mem_at_def)
qed

lemma mem_next:
  assumes "mem_at kvs it i" "i < length kvs"
  shows "\<exists>it'. it_Next (mem_ops user) it = Some it' \<and> mem_at kvs it' (Suc i)"
proof -
  obtain m n where it: "it = (m, n)" by fastforce
  obtain xs where xs: "sl_inv (mem_compare user) (mt_table m) xs" "mem.keys_ok (mt_table m) xs"
    "kvs = map (\<lambda>x. entry_kv (key_at (mt_table m) x)) xs" "n = node_of xs i" using assms(1) by (auto simp: mem_at_def it)
  have i: "i < length xs" using assms(2) xs(3) by simp
  have "chain (mt_table m) 0 head_node xs" using sl_invD(10) [OF xs(1), of 0] level_0 [OF xs(1), of xs] by (simp add: kMaxHeight_def)
  from chain_node [OF this i] have "node_Next (mt_table m) (the n) 0 = node_of xs (Suc i)" using i by (simp add: xs(4) node_of_def)
  then show ?thesis using xs(1-3) i by (auto simp: mem_ops_def it mem_iter_Next_def iter_Next_def mem_at_def)
qed

lemma takeWhile_below_nth:
  assumes "sl_inv (mem_compare user) sl xs" "mem.keys_ok sl xs" "i < length xs"
  shows "takeWhile (is_below (mem_compare user) sl (key_at sl (xs ! i))) xs = take i xs"
proof -
  let ?P = "is_below (mem_compare user) sl (key_at sl (xs ! i))"
  have "\<forall>x\<in>set (take i xs). ?P x"
    using sl_invD(9) [OF assms(1)] assms(3) sorted_wrt_nth_less [OF sl_invD(9) [OF assms(1)], of _ i]
    by (auto simp: in_set_conv_nth)
  moreover have "drop i xs = (xs ! i) # drop (Suc i) xs" using assms(3) by (simp add: Cons_nth_drop_Suc)
  moreover have "\<not> ?P (xs ! i)" using assms(2,3) mem.cmp_self by (simp add: mem.keys_ok_def)
  ultimately have "takeWhile ?P (take i xs @ drop i xs) = take i xs" by (simp add: takeWhile_append2)
  then show ?thesis by simp
qed

lemma mem_prev:
  assumes "mem_at kvs it i" "i < length kvs"
  shows "\<exists>it'. it_Prev (mem_ops user) it = Some it' \<and> mem_at kvs it' (if i = 0 then length kvs else i - 1)"
proof -
  obtain m n where it: "it = (m, n)" by fastforce
  let ?sl = "mt_table m"
  obtain xs where xs: "sl_inv (mem_compare user) ?sl xs" "mem.keys_ok ?sl xs"
    "kvs = map (\<lambda>x. entry_kv (key_at ?sl x)) xs" "n = node_of xs i" using assms(1) by (auto simp: mem_at_def it)
  have i: "i < length xs" and n: "the n = xs ! i" using assms(2) xs(3,4) by (simp_all add: node_of_def)
  have "entry_ok (key_at ?sl (xs ! i))" using xs(2) i by (simp add: mem.keys_ok_def)
  from mem.find_lt [OF xs(1,2) this] have "FindLessThan (mem_compare user) ?sl (key_at ?sl (xs ! i)) = Some (last (head_node # take i xs))"
    unfolding takeWhile_below_nth [OF xs(1,2) i] .
  then have "it_Prev (mem_ops user) it = Some (m, if i = 0 then None else node_of xs (i - 1))"
    using or_null_node [OF sl_invD(2) [OF xs(1)], of i] i
    by (simp add: mem_ops_def it mem_iter_Prev_def iter_Prev_def n del: last.simps)
  then show ?thesis using xs(1-3) i by (auto simp: mem_at_def node_of_def)
qed

end

sublocale user_comparator \<subseteq> mem_list: list_iterator "mem_ops user" "InternalKeyComparator user" mem_key_ok mem_at
proof (unfold_locales, goal_cases)
  case (1 kvs it i)
  then show ?case by (auto simp: mem_at_def mem_ops_def iter_Valid_def node_of_def split: if_splits)
next
  case (3 kvs it i)
  then show ?case by (cases it) (auto simp: mem_at_def mem_ops_def node_of_def mem_iter_key_def mem_iter_value_def iter_key_def entry_kv_def)
qed (use mem_seek mem_first mem_last mem_next mem_prev in \<open>auto simp: mem_at_def mem_ops_def\<close>)

section \<open>The entries of a table\<close>

definition up_kv :: "update \<Rightarrow> slice \<times> slice" where
  "up_kv u = (InternalKey (up_key u) (up_seq u) (up_type u), up_value u)"

context user_comparator
begin

lemma mem_entries:
  assumes "table_holds m us" "ups_ok us"
  obtains kvs where "mem_at kvs (mem_NewIterator m) (length kvs)" "set kvs = up_kv ` set us"
    "sorted_wrt (\<lambda>a b. internal_Compare user a b < 0) (map fst kvs)"
proof -
  obtain xs where xs: "sl_inv (mem_compare user) (mt_table m) xs" "mem.keys_ok (mt_table m) xs" "key_at (mt_table m) ` set xs = up_entry ` set us"
    using assms(1) by (auto simp: table_holds_def mem.holds_def)
  let ?kvs = "map (\<lambda>x. entry_kv (key_at (mt_table m) x)) xs"
  have kv: "entry_kv (up_entry u) = up_kv u" if "u \<in> set us" for u
    using assms(2) that mem_entry_parts [of "up_key u" "up_value u"] by (simp add: ups_ok_def entry_kv_def up_kv_def up_entry_alt)
  have "set ?kvs = entry_kv ` up_entry ` set us" unfolding xs(3) [symmetric] by (simp add: image_image)
  also have "\<dots> = up_kv ` set us" using kv by (simp add: image_image)
  finally have s: "set ?kvs = up_kv ` set us" .
  have "mem_at ?kvs (mem_NewIterator m) (length ?kvs)" using xs by (auto simp: mem_at_def mem_NewIterator_def node_of_def)
  moreover have "sorted_wrt (\<lambda>a b. internal_Compare user a b < 0) (map fst ?kvs)"
    using sl_invD(9) [OF xs(1)] by (simp add: sorted_wrt_map mem_compare_def entry_kv_def)
  ultimately show thesis using that s by blast
qed

end

end
