(* ===== verification/Ldb_Format.thy ===== *)
theory Ldb_Format
  imports Ldb_Env_Posix Ldb_Crc32c Ldb_Block Ldb_Filter
begin

unbundle bit_operations_syntax

text \<open>
  The parts of a table file: handles, the footer and the reading of a stored block,
  \<^verbatim>\<open>leveldb-library/table/format.cc\<close>, on the random access files of \<^verbatim>\<open>util/env_posix.cc\<close>. A
  reader is given an offset and a number of bytes; its result is \<open>None\<close> when the slice it returns
  lies outside of the mapped file. The last component says whether the data is elsewhere than in the
  buffer of the caller. An operation that would read outside of its data is \<open>None\<close>.
\<close>

section \<open>Options\<close>

datatype CompressionType = kNoCompression | kSnappyCompression

fun compression_byte :: "CompressionType \<Rightarrow> byte" where
  "compression_byte kNoCompression = 0"
| "compression_byte kSnappyCompression = 1"

text \<open>The members that tables use.\<close>

record options =
  opt_comparator :: comparator
  paranoid_checks :: bool
  opt_block_size :: nat
  block_restart_interval :: int
  compression :: CompressionType
  opt_filter_policy :: "filter_policy option"

text \<open>There is no compression library in this build: the three functions fail.\<close>

definition Snappy_Compress :: "slice \<Rightarrow> byte list option" where
  "Snappy_Compress input = None"

definition Snappy_GetUncompressedLength :: "slice \<Rightarrow> nat option" where
  "Snappy_GetUncompressedLength input = None"

definition Snappy_Uncompress :: "slice \<Rightarrow> byte list option" where
  "Snappy_Uncompress input = None"

section \<open>Random access files\<close>

type_synonym reader = "u64 \<Rightarrow> u64 \<Rightarrow> (status \<times> slice \<times> bool) option"

definition EINVAL :: int where
  "EINVAL = 22"

text \<open>The sum wraps around, so that a large offset can pass the check.\<close>

definition mmap_Read :: "(int \<Rightarrow> byte list) \<Rightarrow> byte list \<Rightarrow> byte list \<Rightarrow> reader" where
  "mmap_Read strerror filename mmap_base offset n =
     (if length mmap_base < unat (offset + n) then Some (PosixError strerror filename EINVAL, [], True)
      else if unat offset + unat n \<le> length mmap_base then Some (OK, take (unat n) (drop (unat offset) mmap_base), True)
      else None)"

text \<open>
  Without a permanent descriptor the file is opened for the read, which may fail with an error. The kernel
  reads some of the bytes, at least one if there is one.
\<close>

definition sys_pread :: "byte list \<Rightarrow> u64 \<Rightarrow> nat \<Rightarrow> transfer \<Rightarrow> byte list + int" where
  "sys_pread content offset n answer =
     (let avail = min n (length content - unat offset) in
      case answer of
        Errno e \<Rightarrow> Inr e
      | Transferred k \<Rightarrow> Inl (take (min (max 1 k) avail) (drop (unat offset) content)))"

definition pread_Read ::
  "(int \<Rightarrow> byte list) \<Rightarrow> byte list \<Rightarrow> int option \<Rightarrow> (u64 \<Rightarrow> u64 \<Rightarrow> transfer) \<Rightarrow> byte list \<Rightarrow> reader" where
  "pread_Read strerror filename open_errno answer content offset n =
     (case open_errno of
        Some e \<Rightarrow> Some (PosixError strerror filename e, [], True)
      | None \<Rightarrow>
          (case sys_pread content offset (unat n) (answer offset n) of
             Inr e \<Rightarrow> Some (PosixError strerror filename e, [], False)
           | Inl bytes \<Rightarrow> Some (OK, bytes, False)))"

section \<open>BlockHandle\<close>

record block_handle =
  bh_offset :: u64
  bh_size :: u64

definition kMaxEncodedLength :: nat where
  "kMaxEncodedLength = 10 + 10"

definition BlockHandle :: block_handle where
  "BlockHandle = \<lparr>bh_offset = NOT 0, bh_size = NOT 0\<rparr>"

definition bh_EncodeTo :: "block_handle \<Rightarrow> byte list \<Rightarrow> byte list" where
  "bh_EncodeTo h dst = PutVarint64 (PutVarint64 dst (bh_offset h)) (bh_size h)"

definition bh_DecodeFrom :: "slice \<Rightarrow> block_handle \<Rightarrow> status \<times> slice \<times> block_handle" where
  "bh_DecodeFrom input h =
     (case GetVarint64 input of
        (None, r1) \<Rightarrow> (Corruption (cstr ''bad block handle'') [], r1, h)
      | (Some off, r1) \<Rightarrow>
          (case GetVarint64 r1 of
             (None, r2) \<Rightarrow> (Corruption (cstr ''bad block handle'') [], r2, h\<lparr>bh_offset := off\<rparr>)
           | (Some sz, r2) \<Rightarrow> (OK, r2, h\<lparr>bh_offset := off, bh_size := sz\<rparr>)))"

section \<open>Footer\<close>

record footer =
  metaindex_handle :: block_handle
  index_handle :: block_handle

definition Footer :: footer where
  "Footer = \<lparr>metaindex_handle = BlockHandle, index_handle = BlockHandle\<rparr>"

definition kEncodedLength :: nat where
  "kEncodedLength = 2 * kMaxEncodedLength + 8"

definition kTableMagicNumber :: u64 where
  "kTableMagicNumber = 0xdb4775248b80fb57"

definition string_resize :: "nat \<Rightarrow> byte list \<Rightarrow> byte list" where
  "string_resize n s = take n s @ replicate (n - length s) 0"

definition footer_EncodeTo :: "footer \<Rightarrow> byte list \<Rightarrow> byte list" where
  "footer_EncodeTo f dst =
     (let d1 = bh_EncodeTo (metaindex_handle f) dst;
          d2 = bh_EncodeTo (index_handle f) d1;
          d3 = string_resize (2 * kMaxEncodedLength) d2;
          d4 = PutFixed32 d3 (ucast (kTableMagicNumber AND 0xffffffff))
      in PutFixed32 d4 (ucast (drop_bit 32 kTableMagicNumber)))"

text \<open>The length of the input is not checked: nothing is known of a footer that is cut short.\<close>

definition footer_DecodeFrom :: "slice \<Rightarrow> footer \<Rightarrow> (status \<times> slice \<times> footer) option" where
  "footer_DecodeFrom input f =
     (if length input < kEncodedLength then None
      else
        let magic_ptr = drop (kEncodedLength - 8) input;
            magic_lo = DecodeFixed32 magic_ptr;
            magic_hi = DecodeFixed32 (drop 4 magic_ptr);
            magic = push_bit 32 (ucast magic_hi :: u64) OR ucast magic_lo
        in
        if magic \<noteq> kTableMagicNumber then
          Some (Corruption (cstr ''not an sstable (bad magic number)'') [], input, f)
        else
          case bh_DecodeFrom input (metaindex_handle f) of
            (s1, r1, h1) \<Rightarrow>
              if \<not> status_ok s1 then Some (s1, r1, f\<lparr>metaindex_handle := h1\<rparr>)
              else
                (case bh_DecodeFrom r1 (index_handle f) of
                   (s2, r2, h2) \<Rightarrow>
                     Some (s2, if status_ok s2 then drop kEncodedLength input else r2,
                       f\<lparr>metaindex_handle := h1, index_handle := h2\<rparr>)))"

section \<open>ReadBlock\<close>

definition kBlockTrailerSize :: nat where
  "kBlockTrailerSize = 5"

record block_contents =
  bc_data :: slice
  cachable :: bool
  heap_allocated :: bool

text \<open>
  \<open>data + n + 1\<close> and the size of the buffer are computed in 64 bits; a size near the top of the range makes
  them wrap around. The buffer itself is taken to be available.
\<close>

definition ReadBlock :: "reader \<Rightarrow> bool \<Rightarrow> block_handle \<Rightarrow> (status \<times> block_contents) option" where
  "ReadBlock read verify_checksums handle =
     (let result = \<lparr>bc_data = [], cachable = False, heap_allocated = False\<rparr>;
          n = bh_size handle;
          size_n = n + of_nat kBlockTrailerSize
      in
      Option.bind (read (bh_offset handle) size_n) (\<lambda>(s, contents, elsewhere).
        if \<not> status_ok s then Some (s, result)
        else if length contents \<noteq> unat size_n then Some (Corruption (cstr ''truncated block read'') [], result)
        else if verify_checksums \<and> length contents < unat (n + 1) + 4 then None
        else if verify_checksums \<and>
             crc_Value 0 (take (unat (n + 1)) contents) \<noteq> Unmask (DecodeFixed32 (drop (unat (n + 1)) contents)) then
          Some (Corruption (cstr ''block checksum mismatch'') [], result)
        else if length contents \<le> unat n then None
        else if contents ! unat n = compression_byte kNoCompression then
          Some (OK, if elsewhere then \<lparr>bc_data = take (unat n) contents, cachable = False, heap_allocated = False\<rparr>
            else \<lparr>bc_data = take (unat n) contents, cachable = True, heap_allocated = True\<rparr>)
        else if contents ! unat n = compression_byte kSnappyCompression then
          (case Snappy_GetUncompressedLength (take (unat n) contents) of
             None \<Rightarrow> Some (Corruption (cstr ''corrupted compressed block contents'') [], result)
           | Some ulength \<Rightarrow>
               (case Snappy_Uncompress (take (unat n) contents) of
                  None \<Rightarrow> Some (Corruption (cstr ''corrupted compressed block contents'') [], result)
                | Some ubuf \<Rightarrow> Some (OK, \<lparr>bc_data = ubuf, cachable = True, heap_allocated = True\<rparr>)))
        else Some (Corruption (cstr ''bad block type'') [], result)))"

section \<open>Round trips\<close>

lemma bh_roundtrip: "bh_DecodeFrom (bh_EncodeTo h [] @ rest) h0 = (OK, rest, h)"
  by (simp add: bh_DecodeFrom_def bh_EncodeTo_def PutVarint64_def GetVarint64_def GetVarint64_Encode)

lemma bh_EncodeTo_Nil: "bh_EncodeTo h dst = dst @ bh_EncodeTo h []"
  by (simp add: bh_EncodeTo_def PutVarint64_def)

lemma length_bh_EncodeTo: "length (bh_EncodeTo h []) \<le> kMaxEncodedLength" "bh_EncodeTo h [] \<noteq> []"
  using length_varint_bytes [of "bh_offset h"] length_varint_bytes [of "bh_size h"]
  by (simp_all add: bh_EncodeTo_def PutVarint64_def EncodeVarint64_eq kMaxEncodedLength_def)

interpretation handle: prefix_code "\<lambda>h. bh_EncodeTo h []"
  "\<lambda>input. case bh_DecodeFrom input BlockHandle of (s, rest, h) \<Rightarrow> if status_ok s then Some (h, rest) else None" "\<lambda>_. True"
  by unfold_locales (simp_all add: bh_roundtrip length_bh_EncodeTo)

lemma footer_bytes:
  "\<exists>pad. footer_EncodeTo f [] = bh_EncodeTo (metaindex_handle f) [] @ bh_EncodeTo (index_handle f) [] @ pad @
     EncodeFixed32 0x8b80fb57 @ EncodeFixed32 0xdb477524 \<and>
   length (bh_EncodeTo (metaindex_handle f) [] @ bh_EncodeTo (index_handle f) [] @ pad) = 40"
proof -
  let ?h = "bh_EncodeTo (metaindex_handle f) [] @ bh_EncodeTo (index_handle f) []"
  have "length ?h \<le> 40"
    using length_bh_EncodeTo(1) [of "metaindex_handle f"] length_bh_EncodeTo(1) [of "index_handle f"]
    by (simp add: kMaxEncodedLength_def)
  then show ?thesis
    by (intro exI [of _ "replicate (40 - length ?h) 0"])
      (simp add: footer_EncodeTo_def Let_def bh_EncodeTo_Nil [of _ "bh_EncodeTo _ _"] string_resize_def kMaxEncodedLength_def
        PutFixed32_def kTableMagicNumber_def drop_bit_eq_div)
qed

lemma length_footer: "length (footer_EncodeTo f []) = kEncodedLength"
  using footer_bytes [of f] by (auto simp: kEncodedLength_def kMaxEncodedLength_def)

lemma footer_roundtrip: "footer_DecodeFrom (footer_EncodeTo f [] @ rest) f0 = Some (OK, rest, f)"
proof -
  obtain pad where p: "footer_EncodeTo f [] = bh_EncodeTo (metaindex_handle f) [] @ bh_EncodeTo (index_handle f) [] @ pad @
     EncodeFixed32 0x8b80fb57 @ EncodeFixed32 0xdb477524"
   "length (bh_EncodeTo (metaindex_handle f) [] @ bh_EncodeTo (index_handle f) [] @ pad) = 40"
    using footer_bytes by blast
  define all where "all = footer_EncodeTo f [] @ rest"
  have d: "drop 40 all = EncodeFixed32 0x8b80fb57 @ EncodeFixed32 0xdb477524 @ rest"
  proof -
    have "drop 40 (x @ y) = y" if "length x = 40" for x y :: "byte list" using that by simp
    from this [OF p(2), of "EncodeFixed32 0x8b80fb57 @ EncodeFixed32 0xdb477524 @ rest"] show ?thesis
      unfolding all_def p(1) append_assoc .
  qed
  then have d4: "drop 44 all = EncodeFixed32 0xdb477524 @ rest"
    using drop_drop [of 4 40 all] by simp
  have d8: "drop 48 all = rest" using length_footer [of f] by (simp add: all_def kEncodedLength_def kMaxEncodedLength_def)
  have "bh_DecodeFrom all h = (OK, bh_EncodeTo (index_handle f) [] @ pad @
      EncodeFixed32 0x8b80fb57 @ EncodeFixed32 0xdb477524 @ rest, metaindex_handle f)" for h
    unfolding all_def p(1) append_assoc by (rule bh_roundtrip)
  moreover have "\<not> length all < 48" using length_footer [of f] by (simp add: all_def kEncodedLength_def kMaxEncodedLength_def)
  moreover have "push_bit 32 (ucast (0xdb477524 :: u32)) OR ucast (0x8b80fb57 :: u32) = kTableMagicNumber"
    by (simp add: kTableMagicNumber_def)
  ultimately show ?thesis
    unfolding all_def [symmetric] footer_DecodeFrom_def Let_def kEncodedLength_def kMaxEncodedLength_def
    by (simp add: d d4 d8 bh_roundtrip)
qed

text \<open>How a block is stored: its contents, its type and a checksum of both.\<close>

definition stored_block :: "CompressionType \<Rightarrow> byte list \<Rightarrow> byte list" where
  "stored_block t contents =
     contents @ [compression_byte t] @ EncodeFixed32 (Mask (crc_Value 0 (contents @ [compression_byte t])))"

lemma length_stored_block [simp]: "length (stored_block t x) = length x + kBlockTrailerSize"
  by (simp add: stored_block_def kBlockTrailerSize_def)

text \<open>What readers of a table rely on: a range inside the file is read without error.\<close>

locale random_file =
  fixes read :: reader and content :: "byte list"
  assumes read_inside: "unat off + unat n \<le> length content \<Longrightarrow>
    \<exists>elsewhere. read off n = Some (OK, take (unat n) (drop (unat off) content), elsewhere)"
begin

lemma ReadBlock_stored:
  assumes "content = pre @ stored_block kNoCompression x @ post" "length content < 2 ^ 64"
  shows "\<exists>bc. ReadBlock read verify \<lparr>bh_offset = of_nat (length pre), bh_size = of_nat (length x)\<rparr> = Some (OK, bc) \<and>
    bc_data bc = x"
proof -
  let ?n = "of_nat (length x) :: u64"
  have len: "length pre + length x + 5 + length post < 2 ^ 64"
    using assms by (simp add: kBlockTrailerSize_def algebra_simps)
  have n: "unat ?n = length x" "unat (?n + 1) = length x + 1" "unat (?n + 5) = length x + 5"
    "unat (of_nat (length pre) :: u64) = length pre"
    using len unat_of_nat_u64 [of "length x"] unat_of_nat_u64 [of "length x + 1"] unat_of_nat_u64 [of "length x + 5"]
      unat_of_nat_u64 [of "length pre"] by (simp_all add: add.commute)
  obtain e where "read (of_nat (length pre)) (?n + 5) = Some (OK, stored_block kNoCompression x, e)"
    using read_inside [of "of_nat (length pre)" "?n + 5"] assms(1) n by (auto simp: kBlockTrailerSize_def)
  then show ?thesis
    using n by (auto simp: ReadBlock_def Let_def kBlockTrailerSize_def stored_block_def nth_append)
qed

end

lemma mmap_random_file:
  assumes "length content < 2 ^ 64"
  shows "random_file (mmap_Read strerror filename content) content"
proof
  fix off n :: u64
  assume *: "unat off + unat n \<le> length content"
  then have "unat (off + n) = unat off + unat n" using assms by (simp add: unat_word_ariths)
  with * show "\<exists>elsewhere. mmap_Read strerror filename content off n =
      Some (OK, take (unat n) (drop (unat off) content), elsewhere)"
    by (auto simp: mmap_Read_def)
qed

interpretation pread_file: random_file "pread_Read strerror filename None (\<lambda>off n. Transferred (unat n)) content" content
  for strerror filename content
proof
  fix off n :: u64
  assume "unat off + unat n \<le> length content"
  then show "\<exists>elsewhere. pread_Read strerror filename None (\<lambda>off n. Transferred (unat n)) content off n =
      Some (OK, take (unat n) (drop (unat off) content), elsewhere)"
    by (cases "unat n = 0") (auto simp: pread_Read_def sys_pread_def max_def min_def)
qed

section \<open>Properties\<close>



end
