(* ===== verification/Ldb_Table_Builder.thy ===== *)
theory Ldb_Table_Builder
  imports Ldb_Format
begin

text \<open>
  Writing a table file, \<^verbatim>\<open>leveldb-library/table/table_builder.cc\<close>: the data blocks, an index block with
  the handle of each data block under a key that separates it from the next block, a filter
  block, and a footer. The file operations are arguments.
\<close>

section \<open>TableBuilder::Rep\<close>

text \<open>The filter block builder comes with its policy. The buffer for compressed output is left out.\<close>

record 'f table_rep =
  tb_options :: options
  tb_file :: 'f
  tb_offset :: u64
  tb_status :: status
  data_block :: block_builder
  index_block :: block_builder
  tb_last_key :: "byte list"
  num_entries :: u64
  tb_closed :: bool
  filter_block :: "(filter_policy \<times> filter_builder) option"
  pending_index_entry :: bool
  pending_handle :: block_handle

definition Rep :: "options \<Rightarrow> 'f \<Rightarrow> 'f table_rep" where
  "Rep opt f =
     \<lparr>tb_options = opt, tb_file = f, tb_offset = 0, tb_status = OK, data_block = BlockBuilder (block_restart_interval opt),
      index_block = BlockBuilder 1, tb_last_key = [], num_entries = 0, tb_closed = False,
      filter_block = map_option (\<lambda>policy. (policy, FilterBlockBuilder)) (opt_filter_policy opt),
      pending_index_entry = False, pending_handle = BlockHandle\<rparr>"

definition start_filter :: "'f table_rep \<Rightarrow> 'f table_rep" where
  "start_filter r =
     r\<lparr>filter_block := map_option (\<lambda>(policy, b). (policy, StartBlock policy (tb_offset r) b)) (filter_block r)\<rparr>"

definition TableBuilder :: "options \<Rightarrow> 'f \<Rightarrow> 'f table_rep" where
  "TableBuilder opt f = start_filter (Rep opt f)"

definition tb_ok :: "'f table_rep \<Rightarrow> bool" where
  "tb_ok r = status_ok (tb_status r)"

section \<open>Writing blocks\<close>

definition WriteRawBlock ::
  "('f \<Rightarrow> slice \<Rightarrow> status \<times> 'f) \<Rightarrow> slice \<Rightarrow> CompressionType \<Rightarrow> 'f table_rep \<Rightarrow> block_handle \<times> 'f table_rep" where
  "WriteRawBlock app contents t r =
     (let handle = \<lparr>bh_offset = tb_offset r, bh_size = of_nat (length contents)\<rparr>;
          (s1, f1) = app (tb_file r) contents;
          r1 = r\<lparr>tb_status := s1, tb_file := f1\<rparr>
      in (handle,
          if status_ok s1 then
            let crc = Extend (crc_Value 0 contents) 0 [compression_byte t];
                trailer = [compression_byte t] @ EncodeFixed32 (Mask crc);
                (s2, f2) = app f1 trailer;
                r2 = r1\<lparr>tb_status := s2, tb_file := f2\<rparr>
            in if status_ok s2 then r2\<lparr>tb_offset := tb_offset r + of_nat (length contents + kBlockTrailerSize)\<rparr> else r2
          else r1))"

text \<open>The block afterwards, its handle and the builder.\<close>

definition WriteBlock ::
  "('f \<Rightarrow> slice \<Rightarrow> status \<times> 'f) \<Rightarrow> block_builder \<Rightarrow> 'f table_rep \<Rightarrow> block_builder \<times> block_handle \<times> 'f table_rep" where
  "WriteBlock app block r =
     (let (raw, block1) = bb_Finish block;
          (contents, t) =
            (case compression (tb_options r) of
               kNoCompression \<Rightarrow> (raw, kNoCompression)
             | kSnappyCompression \<Rightarrow>
                 (case Snappy_Compress raw of
                    Some compressed \<Rightarrow>
                      if length compressed < length raw - length raw div 8 then (compressed, kSnappyCompression)
                      else (raw, kNoCompression)
                  | None \<Rightarrow> (raw, kNoCompression)));
          (handle, r1) = WriteRawBlock app contents t r
      in (bb_Reset block1, handle, r1))"

section \<open>Building\<close>

definition tb_Flush :: "('f \<Rightarrow> slice \<Rightarrow> status \<times> 'f) \<Rightarrow> ('f \<Rightarrow> status \<times> 'f) \<Rightarrow> 'f table_rep \<Rightarrow> 'f table_rep" where
  "tb_Flush app flush r =
     (if \<not> tb_ok r then r
      else if bb_empty (data_block r) then r
      else
        let (block, handle, r1) = WriteBlock app (data_block r) r;
            r2 = r1\<lparr>data_block := block, pending_handle := handle\<rparr>;
            r3 = (if tb_ok r2 then
                    (case flush (tb_file r2) of (s, f) \<Rightarrow> r2\<lparr>pending_index_entry := True, tb_status := s, tb_file := f\<rparr>)
                  else r2)
        in start_filter r3)"

definition add_index_entry :: "slice \<Rightarrow> 'f table_rep \<Rightarrow> 'f table_rep" where
  "add_index_entry key r =
     r\<lparr>tb_last_key := key, index_block := bb_Add (index_block r) key (bh_EncodeTo (pending_handle r) []),
       pending_index_entry := False\<rparr>"

definition tb_Add ::
  "('f \<Rightarrow> slice \<Rightarrow> status \<times> 'f) \<Rightarrow> ('f \<Rightarrow> status \<times> 'f) \<Rightarrow> slice \<Rightarrow> slice \<Rightarrow> 'f table_rep \<Rightarrow> 'f table_rep" where
  "tb_Add app flush key value r =
     (if \<not> tb_ok r then r
      else
        let r1 = (if pending_index_entry r
                  then add_index_entry (FindShortestSeparator (opt_comparator (tb_options r)) (tb_last_key r) key) r else r);
            r2 = r1\<lparr>filter_block := map_option (\<lambda>(policy, b). (policy, AddKey key b)) (filter_block r1)\<rparr>;
            r3 = r2\<lparr>tb_last_key := key, num_entries := num_entries r2 + 1, data_block := bb_Add (data_block r2) key value\<rparr>
        in if opt_block_size (tb_options r3) \<le> CurrentSizeEstimate (data_block r3) then tb_Flush app flush r3 else r3)"

text \<open>The stages of \<^verbatim>\<open>Finish\<close>, each of which begins with \<^verbatim>\<open>if (ok())\<close>.\<close>

definition finish_filter :: "('f \<Rightarrow> slice \<Rightarrow> status \<times> 'f) \<Rightarrow> 'f table_rep \<Rightarrow> block_handle \<times> 'f table_rep" where
  "finish_filter app r =
     (case filter_block r of
        Some (policy, b) \<Rightarrow> if tb_ok r then WriteRawBlock app (filter_Finish policy b) kNoCompression r else (BlockHandle, r)
      | None \<Rightarrow> (BlockHandle, r))"

definition finish_meta :: "('f \<Rightarrow> slice \<Rightarrow> status \<times> 'f) \<Rightarrow> block_handle \<Rightarrow> 'f table_rep \<Rightarrow> block_handle \<times> 'f table_rep" where
  "finish_meta app filter_handle r =
     (if tb_ok r then
        let meta = BlockBuilder (block_restart_interval (tb_options r));
            meta1 = (case filter_block r of
                       Some (policy, b) \<Rightarrow> bb_Add meta (cstr ''filter.'' @ policy_Name policy) (bh_EncodeTo filter_handle [])
                     | None \<Rightarrow> meta);
            (block, handle, r1) = WriteBlock app meta1 r
        in (handle, r1)
      else (BlockHandle, r))"

definition finish_index :: "('f \<Rightarrow> slice \<Rightarrow> status \<times> 'f) \<Rightarrow> 'f table_rep \<Rightarrow> block_handle \<times> 'f table_rep" where
  "finish_index app r =
     (if tb_ok r then
        let r1 = (if pending_index_entry r
                  then add_index_entry (FindShortSuccessor (opt_comparator (tb_options r)) (tb_last_key r)) r else r);
            (block, handle, r2) = WriteBlock app (index_block r1) r1
        in (handle, r2\<lparr>index_block := block\<rparr>)
      else (BlockHandle, r))"

definition finish_footer :: "('f \<Rightarrow> slice \<Rightarrow> status \<times> 'f) \<Rightarrow> block_handle \<Rightarrow> block_handle \<Rightarrow> 'f table_rep \<Rightarrow> 'f table_rep" where
  "finish_footer app meta_handle idx_handle r =
     (if tb_ok r then
        let encoding = footer_EncodeTo \<lparr>metaindex_handle = meta_handle, index_handle = idx_handle\<rparr> [];
            (s, f) = app (tb_file r) encoding;
            r1 = r\<lparr>tb_status := s, tb_file := f\<rparr>
        in if status_ok s then r1\<lparr>tb_offset := tb_offset r1 + of_nat (length encoding)\<rparr> else r1
      else r)"

definition tb_Finish ::
  "('f \<Rightarrow> slice \<Rightarrow> status \<times> 'f) \<Rightarrow> ('f \<Rightarrow> status \<times> 'f) \<Rightarrow> 'f table_rep \<Rightarrow> status \<times> 'f table_rep" where
  "tb_Finish app flush r =
     (let r1 = (tb_Flush app flush r)\<lparr>tb_closed := True\<rparr>;
          (filter_handle, r2) = finish_filter app r1;
          (meta_handle, r3) = finish_meta app filter_handle r2;
          (idx_handle, r4) = finish_index app r3;
          r5 = finish_footer app meta_handle idx_handle r4
      in (tb_status r5, r5))"

definition tb_Abandon :: "'f table_rep \<Rightarrow> 'f table_rep" where
  "tb_Abandon r = r\<lparr>tb_closed := True\<rparr>"

definition tb_NumEntries :: "'f table_rep \<Rightarrow> u64" where
  "tb_NumEntries r = num_entries r"

definition tb_FileSize :: "'f table_rep \<Rightarrow> u64" where
  "tb_FileSize r = tb_offset r"

end
