(* ===== verification/Ldb_Table_Builder_Props.thy ===== *)
theory Ldb_Table_Builder_Props
  imports Ldb_Table_Builder Ldb_Block_Props Ldb_Filter_Props
begin

text \<open>
  What a table file holds. The entries are cut into blocks; the theory describes the file that is
  written for them and shows that the builder writes it. The locale \<open>append_file\<close> is what
  it needs of a file: an operation that reports success has appended all of its data.
\<close>

section \<open>The file of a list of blocks\<close>

definition data_bytes :: "int \<Rightarrow> entries list \<Rightarrow> byte list" where
  "data_bytes iv bs = concat (map (\<lambda>kvs. stored_block kNoCompression (build_block iv kvs)) bs)"

definition handle_at :: "int \<Rightarrow> entries list \<Rightarrow> nat \<Rightarrow> block_handle" where
  "handle_at iv bs i =
     \<lparr>bh_offset = of_nat (length (data_bytes iv (take i bs))), bh_size = of_nat (length (build_block iv (bs ! i)))\<rparr>"

text \<open>The key under which the index has a block.\<close>

definition sep_after :: "comparator \<Rightarrow> entries list \<Rightarrow> nat \<Rightarrow> slice" where
  "sep_after c bs i =
     (if Suc i < length bs then FindShortestSeparator c (fst (last (bs ! i))) (fst (hd (bs ! Suc i)))
      else FindShortSuccessor c (fst (last (bs ! i))))"

definition index_entries :: "comparator \<Rightarrow> int \<Rightarrow> entries list \<Rightarrow> nat \<Rightarrow> entries" where
  "index_entries c iv bs n = map (\<lambda>i. (sep_after c bs i, bh_EncodeTo (handle_at iv bs i) [])) [0..<n]"

text \<open>What the filter builder is told: where blocks begin and their keys, then those of the current block.\<close>

definition filter_list :: "int \<Rightarrow> entries list \<Rightarrow> entries \<Rightarrow> (u64 \<times> slice list) list" where
  "filter_list iv bs cur =
     map (\<lambda>i. (of_nat (length (data_bytes iv (take i bs))), map fst ((bs @ [cur]) ! i))) [0..<Suc (length bs)]"

definition filter_state :: "filter_policy \<Rightarrow> (u64 \<times> slice list) list \<Rightarrow> filter_builder" where
  "filter_state policy L = foldl (\<lambda>b (off, keys). fold AddKey keys (StartBlock policy off b)) FilterBlockBuilder L"

definition filter_bytes_of :: "options \<Rightarrow> entries list \<Rightarrow> byte list" where
  "filter_bytes_of opt bs =
     (case opt_filter_policy opt of
        None \<Rightarrow> []
      | Some p \<Rightarrow> stored_block kNoCompression (build_filter p (filter_list (block_restart_interval opt) bs [])))"

definition meta_entries :: "options \<Rightarrow> entries list \<Rightarrow> entries" where
  "meta_entries opt bs =
     (case opt_filter_policy opt of
        None \<Rightarrow> []
      | Some p \<Rightarrow>
          let iv = block_restart_interval opt
          in [(cstr ''filter.'' @ policy_Name p,
               bh_EncodeTo \<lparr>bh_offset = of_nat (length (data_bytes iv bs)),
                 bh_size = of_nat (length (build_filter p (filter_list iv bs [])))\<rparr> [])])"

definition meta_block :: "options \<Rightarrow> entries list \<Rightarrow> byte list" where
  "meta_block opt bs = build_block (block_restart_interval opt) (meta_entries opt bs)"

definition index_block_of :: "options \<Rightarrow> entries list \<Rightarrow> byte list" where
  "index_block_of opt bs =
     build_block 1 (index_entries (opt_comparator opt) (block_restart_interval opt) bs (length bs))"

definition before_meta :: "options \<Rightarrow> entries list \<Rightarrow> byte list" where
  "before_meta opt bs = data_bytes (block_restart_interval opt) bs @ filter_bytes_of opt bs"

definition before_index :: "options \<Rightarrow> entries list \<Rightarrow> byte list" where
  "before_index opt bs = before_meta opt bs @ stored_block kNoCompression (meta_block opt bs)"

definition footer_of :: "options \<Rightarrow> entries list \<Rightarrow> footer" where
  "footer_of opt bs =
     \<lparr>metaindex_handle =
        \<lparr>bh_offset = of_nat (length (before_meta opt bs)), bh_size = of_nat (length (meta_block opt bs))\<rparr>,
      index_handle =
        \<lparr>bh_offset = of_nat (length (before_index opt bs)), bh_size = of_nat (length (index_block_of opt bs))\<rparr>\<rparr>"

definition table_bytes :: "options \<Rightarrow> entries list \<Rightarrow> byte list" where
  "table_bytes opt bs =
     before_index opt bs @ stored_block kNoCompression (index_block_of opt bs) @ footer_EncodeTo (footer_of opt bs) []"

section \<open>Block builders\<close>

abbreviation add_all :: "block_builder \<Rightarrow> entries \<Rightarrow> block_builder" where
  "add_all \<equiv> foldl (\<lambda>b (k, v). bb_Add b k v)"

lemma bb_Add_interval [simp]: "bb_interval (bb_Add b k v) = bb_interval b"
  by (simp add: bb_Add_def Let_def split: prod.splits)

lemma bb_Add_buffer: "bb_buffer (bb_Add b k v) \<noteq> []"
  using length_EncodeVarint32
  by (auto simp: bb_Add_def PutVarint32_def Let_def split: prod.splits)

lemma add_all_interval [simp]: "bb_interval (add_all b kvs) = bb_interval b"
  by (induction kvs arbitrary: b) auto

lemma add_all_empty: "bb_empty (add_all (BlockBuilder iv) kvs) \<longleftrightarrow> kvs = []"
  by (cases kvs rule: rev_cases) (auto simp: bb_empty_def bb_Add_buffer BlockBuilder_def)

lemma bb_Reset_finished: "bb_Reset (snd (bb_Finish (add_all (BlockBuilder iv) kvs))) = BlockBuilder iv"
  by (simp add: bb_Finish_def bb_Reset_def BlockBuilder_def Let_def)

section \<open>Writing blocks\<close>

locale append_file =
  fixes app :: "'f \<Rightarrow> slice \<Rightarrow> status \<times> 'f" and flush :: "'f \<Rightarrow> status \<times> 'f"
    and content :: "'f \<Rightarrow> byte list" and good :: "'f \<Rightarrow> bool"
  assumes app_ok: "good f \<Longrightarrow> app f x = (OK, f') \<Longrightarrow> good f' \<and> content f' = content f @ x"
    and flush_ok: "good f \<Longrightarrow> flush f = (OK, f') \<Longrightarrow> good f' \<and> content f' = content f"

interpretation posix_append: append_file posix_Append posix_Flush "\<lambda>w. k_bytes (w_fd w) @ w_buf w"
  "\<lambda>w. length (w_buf w) \<le> kWritableFileBufferSize"
proof
  fix f f' :: posix_wfile and x
  assume "length (w_buf f) \<le> kWritableFileBufferSize" "posix_Append f x = (OK, f')"
  from posix_Append_writes [OF this]
  show "length (w_buf f') \<le> kWritableFileBufferSize \<and>
      k_bytes (w_fd f') @ w_buf f' = (k_bytes (w_fd f) @ w_buf f) @ x" by auto
next
  fix f f' :: posix_wfile
  assume "posix_Flush f = (OK, f')"
  then show "length (w_buf f') \<le> kWritableFileBufferSize \<and> k_bytes (w_fd f') @ w_buf f' = k_bytes (w_fd f) @ w_buf f"
    using FlushBuffer_writes [of f] by (auto simp: posix_Flush_def)
qed

lemma status_ok_OK: "status_ok s \<longleftrightarrow> s = OK"
  by (simp add: status_ok_def OK_def)

lemma crc_trailer: "Extend (crc_Value 0 x) 0 [y] = crc_Value 0 (x @ [y])"
  using crc32c_append [of 0 x "[y]"] by (simp add: crc_Value_def Extend_eq)

context append_file
begin

lemma WriteRawBlock_written:
  assumes "WriteRawBlock app x t r = (h, r')" "good (tb_file r)" "tb_ok r'"
  shows "\<exists>f. good f \<and> content f = content (tb_file r) @ stored_block t x \<and>
    h = \<lparr>bh_offset = tb_offset r, bh_size = of_nat (length x)\<rparr> \<and>
    r' = r\<lparr>tb_status := OK, tb_file := f, tb_offset := tb_offset r + of_nat (length (stored_block t x))\<rparr>"
proof -
  let ?tr = "[compression_byte t] @ EncodeFixed32 (Mask (crc_Value 0 (x @ [compression_byte t])))"
  obtain s1 f1 where a1: "app (tb_file r) x = (s1, f1)" by fastforce
  obtain s2 f2 where a2: "app f1 ?tr = (s2, f2)" by fastforce
  have "s1 = OK" "s2 = OK"
    using assms(1,3) a1 a2 by (auto simp: WriteRawBlock_def Let_def crc_trailer tb_ok_def status_ok_OK split: if_splits)
  with app_ok [OF assms(2), of x f1] app_ok [of f1 ?tr f2] a1 a2
  have "good f2" "content f2 = content (tb_file r) @ stored_block t x" by (auto simp: stored_block_def)
  moreover have "r' = r\<lparr>tb_status := OK, tb_file := f2, tb_offset := tb_offset r + of_nat (length (stored_block t x))\<rparr>"
    "h = \<lparr>bh_offset = tb_offset r, bh_size = of_nat (length x)\<rparr>"
    using assms(1) a1 a2 \<open>s1 = OK\<close> \<open>s2 = OK\<close> by (auto simp: WriteRawBlock_def Let_def crc_trailer)
  ultimately show ?thesis by blast
qed

lemma WriteBlock_raw:
  "WriteBlock app (add_all (BlockBuilder iv) kvs) r =
     (case WriteRawBlock app (build_block iv kvs) kNoCompression r of (h, r1) \<Rightarrow> (BlockBuilder iv, h, r1))"
proof -
  let ?b = "add_all (BlockBuilder iv) kvs"
  obtain b' where "bb_Finish ?b = (build_block iv kvs, b')" "bb_Reset b' = BlockBuilder iv"
    using bb_Reset_finished [of iv kvs] by (metis build_block_def prod.collapse)
  then show ?thesis
    unfolding WriteBlock_def by (cases "compression (tb_options r)") (simp_all add: Snappy_Compress_def)
qed

end

section \<open>The state of the builder\<close>

abbreviation with_current :: "entries list \<Rightarrow> entries \<Rightarrow> entries list" where
  "with_current bs cur \<equiv> (if cur = [] then bs else bs @ [cur])"

definition builder_index :: "options \<Rightarrow> entries list \<Rightarrow> block_builder" where
  "builder_index opt bs =
     add_all (BlockBuilder 1) (index_entries (opt_comparator opt) (block_restart_interval opt) bs (length bs - 1))"

text \<open>Blocks \<open>bs\<close> are in the file, and the block that is being built has the entries \<open>cur\<close>.\<close>

definition holds_blocks :: "options \<Rightarrow> 'f table_rep \<Rightarrow> entries list \<Rightarrow> entries \<Rightarrow> bool" where
  "holds_blocks opt r bs cur \<longleftrightarrow>
     tb_options r = opt \<and> tb_status r = OK \<and> [] \<notin> set bs \<and>
     tb_offset r = of_nat (length (data_bytes (block_restart_interval opt) bs)) \<and>
     data_block r = add_all (BlockBuilder (block_restart_interval opt)) cur \<and>
     index_block r = builder_index opt (with_current bs cur) \<and>
     (with_current bs cur \<noteq> [] \<longrightarrow> tb_last_key r = fst (last (last (with_current bs cur)))) \<and>
     (pending_index_entry r \<longleftrightarrow> cur = [] \<and> bs \<noteq> []) \<and>
     (pending_index_entry r \<longrightarrow> pending_handle r = handle_at (block_restart_interval opt) bs (length bs - 1)) \<and>
     filter_block r = map_option (\<lambda>p. (p, filter_state p (filter_list (block_restart_interval opt) bs cur))) (opt_filter_policy opt)"

lemma data_bytes_snoc: "data_bytes iv (bs @ [b]) = data_bytes iv bs @ stored_block kNoCompression (build_block iv b)"
  by (simp add: data_bytes_def)

lemma filter_list_key: "filter_list iv bs (cur @ [kv]) =
    butlast (filter_list iv bs cur) @ [(fst (last (filter_list iv bs cur)), snd (last (filter_list iv bs cur)) @ [fst kv])]"
  by (simp add: filter_list_def nth_append)

lemma filter_list_block: "filter_list iv (bs @ [cur]) [] = filter_list iv bs cur @ [(of_nat (length (data_bytes iv (bs @ [cur]))), [])]"
  by (simp add: filter_list_def nth_append)

lemma filter_state_key:
  "filter_state p (filter_list iv bs (cur @ [kv])) = AddKey (fst kv) (filter_state p (filter_list iv bs cur))"
proof -
  have "filter_list iv bs cur \<noteq> []" by (simp add: filter_list_def)
  then obtain L off keys where L: "filter_list iv bs cur = L @ [(off, keys)]" by (metis rev_exhaust surj_pair)
  then show ?thesis by (simp add: filter_list_key filter_state_def)
qed

lemma filter_state_block:
  "filter_state p (filter_list iv (bs @ [cur]) []) =
     StartBlock p (of_nat (length (data_bytes iv (bs @ [cur])))) (filter_state p (filter_list iv bs cur))"
  by (simp add: filter_list_block filter_state_def)

text \<open>The entries of finished blocks do not depend on what follows in the current block.\<close>

lemma index_entries_same:
  assumes "length bs = length bs'" "n < length bs \<or> n = 0" "\<forall>i<n. bs ! i = bs' ! i"
    "0 < n \<longrightarrow> fst (hd (bs ! n)) = fst (hd (bs' ! n))"
  shows "index_entries c iv bs n = index_entries c iv bs' n"
proof -
  have "take i bs = take i bs'" if "i < n" for i using assms that by (auto intro!: nth_equalityI)
  moreover have "fst (hd (bs ! Suc i)) = fst (hd (bs' ! Suc i))" if "i < n" for i
    using assms(3,4) that by (cases "Suc i = n") auto
  ultimately show ?thesis using assms by (auto simp: index_entries_def sep_after_def handle_at_def)
qed

lemma index_entries_Suc: "index_entries c iv bs (Suc n) = index_entries c iv bs n @ [(sep_after c bs n, bh_EncodeTo (handle_at iv bs n) [])]"
  by (simp add: index_entries_def)

lemma builder_index_grow: "cur \<noteq> [] \<Longrightarrow> builder_index opt (bs @ [cur @ [kv]]) = builder_index opt (bs @ [cur])"
  unfolding builder_index_def
  by (subst index_entries_same [of _ "bs @ [cur]"]) (auto simp: nth_append)

lemma builder_index_next:
  assumes "bs \<noteq> []"
  shows "builder_index opt (bs @ [[kv]]) =
    bb_Add (builder_index opt bs) (FindShortestSeparator (opt_comparator opt) (fst (last (last bs))) (fst kv))
      (bh_EncodeTo (handle_at (block_restart_interval opt) bs (length bs - 1)) [])"
proof -
  let ?c = "opt_comparator opt" and ?iv = "block_restart_interval opt"
  obtain n where n: "length bs = Suc n" using assms by (cases bs) auto
  have "index_entries ?c ?iv (bs @ [[kv]]) n = index_entries ?c ?iv bs n"
    using n by (auto simp: index_entries_def sep_after_def handle_at_def nth_append)
  moreover have "last bs = bs ! n" using n assms by (simp add: last_conv_nth)
  ultimately show ?thesis
    using n by (simp add: builder_index_def index_entries_Suc) (simp add: sep_after_def handle_at_def nth_append)
qed

context append_file
begin

definition building :: "options \<Rightarrow> 'f table_rep \<Rightarrow> entries list \<Rightarrow> entries \<Rightarrow> bool" where
  "building opt r bs cur \<longleftrightarrow>
     good (tb_file r) \<and> content (tb_file r) = data_bytes (block_restart_interval opt) bs \<and> holds_blocks opt r bs cur"

lemmas building_defs = building_def holds_blocks_def

lemma building_new: "good f \<Longrightarrow> content f = [] \<Longrightarrow> building opt (TableBuilder opt f) [] []"
  by (auto simp: building_defs TableBuilder_def start_filter_def Rep_def data_bytes_def builder_index_def index_entries_def
      filter_list_def filter_state_def map_option.compositionality comp_def)

lemma start_filter_sel [simp]: "tb_ok (start_filter r) = tb_ok r"
  by (simp add: start_filter_def tb_ok_def)

lemma tb_Flush_building:
  assumes "building opt r bs cur" "tb_ok (tb_Flush app flush r)"
  shows "building opt (tb_Flush app flush r) (with_current bs cur) []"
proof (cases "cur = []")
  case True
  then have "tb_Flush app flush r = r"
    using assms(1) add_all_empty [of "block_restart_interval opt" "[]"] by (auto simp: tb_Flush_def building_defs)
  then show ?thesis using assms(1) True by simp
next
  case False
  let ?iv = "block_restart_interval opt"
  obtain h r1 where w: "WriteRawBlock app (build_block ?iv cur) kNoCompression r = (h, r1)" by fastforce
  define r2 where "r2 = r1\<lparr>data_block := BlockBuilder ?iv, pending_handle := h\<rparr>"
  obtain s f where f: "flush (tb_file r2) = (s, f)" by fastforce
  have step: "tb_Flush app flush r =
      start_filter (if tb_ok r2 then r2\<lparr>pending_index_entry := True, tb_status := s, tb_file := f\<rparr> else r2)"
    using assms(1) False w f
    by (simp add: tb_Flush_def building_defs add_all_empty WriteBlock_raw tb_ok_def status_ok_OK r2_def)
  have ok: "tb_ok r1" "s = OK"
    using assms(2) by (auto simp: step r2_def tb_ok_def start_filter_def status_ok_OK split: if_splits)
  obtain f1 where f1: "good f1" "content f1 = content (tb_file r) @ stored_block kNoCompression (build_block ?iv cur)"
    "h = \<lparr>bh_offset = tb_offset r, bh_size = of_nat (length (build_block ?iv cur))\<rparr>"
    "r1 = r\<lparr>tb_status := OK, tb_file := f1, tb_offset := tb_offset r + of_nat (length (stored_block kNoCompression (build_block ?iv cur)))\<rparr>"
    using WriteRawBlock_written [OF w _ ok(1)] assms(1) by (auto simp: building_def)
  have "good f \<and> content f = content f1" using flush_ok [OF f1(1), of f] f ok f1(4) by (simp add: r2_def)
  then show ?thesis
    using assms(1) False ok f1
    by (auto simp: step r2_def tb_ok_def building_defs start_filter_def data_bytes_snoc handle_at_def
        filter_state_block map_option.compositionality comp_def nth_append)
qed

lemma tb_Add_building:
  assumes "building opt r bs cur" "tb_ok (tb_Add app flush k v r)"
  shows "\<exists>bs' cur'. building opt (tb_Add app flush k v r) bs' cur' \<and> concat bs' @ cur' = concat bs @ cur @ [(k, v)]"
proof -
  define r1 where "r1 = (if pending_index_entry r
    then add_index_entry (FindShortestSeparator (opt_comparator opt) (tb_last_key r) k) r else r)"
  define r3 where "r3 = r1\<lparr>filter_block := map_option (\<lambda>(policy, b). (policy, AddKey k b)) (filter_block r1),
    tb_last_key := k, num_entries := num_entries r1 + 1, data_block := bb_Add (data_block r1) k v\<rparr>"
  have r: "tb_options r = opt" "tb_ok r" using assms(1) by (auto simp: building_defs tb_ok_def status_ok_OK)
  have step: "tb_Add app flush k v r =
      (if opt_block_size (tb_options r3) \<le> CurrentSizeEstimate (data_block r3) then tb_Flush app flush r3 else r3)"
    unfolding r1_def r3_def tb_Add_def Let_def using r by simp
  have idx: "index_block r1 = builder_index opt (bs @ [cur @ [(k, v)]])"
    using assms(1) builder_index_next [of bs opt "(k, v)"] builder_index_grow [of cur opt bs "(k, v)"]
    by (cases "cur = []"; cases "bs = []")
      (auto simp: r1_def building_defs add_index_entry_def builder_index_def index_entries_def)
  have r3: "building opt r3 bs (cur @ [(k, v)])"
    using assms(1) idx unfolding building_defs r3_def
    by (auto simp: r1_def add_index_entry_def filter_state_key map_option.compositionality comp_def)
  show ?thesis
  proof (cases "opt_block_size (tb_options r3) \<le> CurrentSizeEstimate (data_block r3)")
    case True
    then show ?thesis
      using tb_Flush_building [OF r3] assms(2) step by (intro exI [of _ "bs @ [cur @ [(k, v)]]"] exI [of _ "[]"]) simp
  next
    case False
    then show ?thesis using r3 step by (intro exI [of _ bs] exI [of _ "cur @ [(k, v)]"]) simp
  qed
qed

lemma tb_Adds_building:
  assumes "building opt r bs cur" "tb_ok (foldl (\<lambda>r (k, v). tb_Add app flush k v r) r kvs)"
  shows "\<exists>bs' cur'. building opt (foldl (\<lambda>r (k, v). tb_Add app flush k v r) r kvs) bs' cur' \<and>
    concat bs' @ cur' = concat bs @ cur @ kvs"
  using assms
proof (induction kvs arbitrary: r bs cur)
  case Nil
  then show ?case by auto
next
  case (Cons kv kvs)
  obtain k v where kv: "kv = (k, v)" by fastforce
  have "\<not> tb_ok r \<Longrightarrow> \<not> tb_ok (foldl (\<lambda>r (k, v). tb_Add app flush k v r) r kvs)" for r
    by (induction kvs arbitrary: r) (auto simp: tb_Add_def)
  then have "tb_ok (tb_Add app flush k v r)" using Cons.prems(2) kv by auto
  from tb_Add_building [OF Cons.prems(1) this] obtain bs1 cur1 where
    b: "building opt (tb_Add app flush k v r) bs1 cur1" "concat bs1 @ cur1 = concat bs @ cur @ [(k, v)]" by blast
  from Cons.IH [OF b(1)] Cons.prems(2) kv obtain bs' cur' where
    "building opt (foldl (\<lambda>r (k, v). tb_Add app flush k v r) (tb_Add app flush k v r) kvs) bs' cur'"
    "concat bs' @ cur' = (concat bs1 @ cur1) @ kvs" by auto
  then show ?case using b(2) kv by (intro exI [of _ bs'] exI [of _ cur']) simp
qed

text \<open>A stage of \<^verbatim>\<open>Finish\<close> writes a block after what is there.\<close>

definition wrote :: "byte list \<Rightarrow> 'f table_rep \<Rightarrow> bool" where
  "wrote x r \<longleftrightarrow> good (tb_file r) \<and> content (tb_file r) = x \<and> tb_offset r = of_nat (length x) \<and> tb_status r = OK"

lemma WriteRawBlock_wrote:
  assumes "WriteRawBlock app x t r = (h, r')" "wrote y r" "tb_ok r'"
  shows "wrote (y @ stored_block t x) r' \<and> h = \<lparr>bh_offset = of_nat (length y), bh_size = of_nat (length x)\<rparr> \<and>
    tb_options r' = tb_options r \<and> filter_block r' = filter_block r \<and> index_block r' = index_block r \<and>
    pending_index_entry r' = pending_index_entry r \<and> pending_handle r' = pending_handle r \<and> tb_last_key r' = tb_last_key r"
  using WriteRawBlock_written [OF assms(1) _ assms(3)] assms(2) by (auto simp: wrote_def)

lemma stages_sticky:
  "\<not> tb_ok r \<Longrightarrow> \<not> tb_ok (snd (finish_filter app r))"
  "\<not> tb_ok r \<Longrightarrow> \<not> tb_ok (snd (finish_meta app h r))"
  "\<not> tb_ok r \<Longrightarrow> \<not> tb_ok (snd (finish_index app r))"
  "\<not> tb_ok r \<Longrightarrow> \<not> tb_ok (finish_footer app h h' r)"
  by (simp_all add: finish_filter_def finish_meta_def finish_index_def finish_footer_def split: option.splits prod.splits)

lemma finish_filter_wrote:
  assumes "building opt r bs []" "finish_filter app r = (h, r')" "tb_ok r'"
  shows "wrote (before_meta opt bs) r' \<and> tb_options r' = opt \<and> filter_block r' = filter_block r \<and>
    index_block r' = index_block r \<and> pending_index_entry r' = pending_index_entry r \<and> pending_handle r' = pending_handle r \<and>
    tb_last_key r' = tb_last_key r \<and>
    (\<forall>p. opt_filter_policy opt = Some p \<longrightarrow>
      h = \<lparr>bh_offset = of_nat (length (data_bytes (block_restart_interval opt) bs)),
           bh_size = of_nat (length (build_filter p (filter_list (block_restart_interval opt) bs [])))\<rparr>)"
proof -
  have r: "wrote (data_bytes (block_restart_interval opt) bs) r" "tb_ok r"
    using assms(1) by (auto simp: building_defs wrote_def tb_ok_def status_ok_OK)
  show ?thesis
  proof (cases "opt_filter_policy opt")
    case None
    then have "r' = r" using assms(1,2) by (auto simp: finish_filter_def building_defs)
    then show ?thesis using r assms(1) None by (auto simp: before_meta_def filter_bytes_of_def building_defs)
  next
    case (Some p)
    let ?L = "filter_list (block_restart_interval opt) bs []"
    have "WriteRawBlock app (build_filter p ?L) kNoCompression r = (h, r')"
      using assms(1,2) Some r(2) by (simp add: finish_filter_def building_defs build_filter_def filter_state_def)
    from WriteRawBlock_wrote [OF this r(1) assms(3)] Some assms(1) show ?thesis
      by (auto simp: before_meta_def filter_bytes_of_def building_defs)
  qed
qed

lemma finish_meta_wrote:
  assumes "finish_meta app fh r = (h, r')" "tb_ok r'" "wrote (before_meta opt bs) r" "tb_options r = opt"
    and "filter_block r = map_option (\<lambda>p. (p, g p)) (opt_filter_policy opt)"
    and "\<forall>p. opt_filter_policy opt = Some p \<longrightarrow>
      fh = \<lparr>bh_offset = of_nat (length (data_bytes (block_restart_interval opt) bs)),
           bh_size = of_nat (length (build_filter p (filter_list (block_restart_interval opt) bs [])))\<rparr>"
  shows "wrote (before_index opt bs) r' \<and> h = metaindex_handle (footer_of opt bs) \<and> tb_options r' = opt \<and>
    index_block r' = index_block r \<and> pending_index_entry r' = pending_index_entry r \<and> pending_handle r' = pending_handle r \<and>
    tb_last_key r' = tb_last_key r"
proof -
  let ?iv = "block_restart_interval opt"
  have meta: "(case filter_block r of
        Some (policy, b) \<Rightarrow> bb_Add (BlockBuilder ?iv) (cstr ''filter.'' @ policy_Name policy) (bh_EncodeTo fh [])
      | None \<Rightarrow> BlockBuilder ?iv) = add_all (BlockBuilder ?iv) (meta_entries opt bs)"
    using assms(5,6) by (cases "opt_filter_policy opt") (auto simp: meta_entries_def Let_def)
  obtain h1 r1 where w: "WriteRawBlock app (meta_block opt bs) kNoCompression r = (h1, r1)" by fastforce
  have "tb_ok r" using assms(3) by (simp add: wrote_def tb_ok_def status_ok_OK)
  then have "(h, r') = (h1, r1)"
    using assms(1,4) w by (simp add: finish_meta_def Let_def meta WriteBlock_raw meta_block_def)
  with WriteRawBlock_wrote [OF w assms(3)] assms(2,4) show ?thesis
    by (auto simp: before_index_def footer_of_def)
qed

lemma finish_index_wrote:
  assumes "finish_index app r = (h, r')" "tb_ok r'" "wrote (before_index opt bs) r" "tb_options r = opt"
    and "index_block r = builder_index opt bs" "pending_index_entry r \<longleftrightarrow> bs \<noteq> []"
    and "bs \<noteq> [] \<longrightarrow> tb_last_key r = fst (last (last bs)) \<and> pending_handle r = handle_at (block_restart_interval opt) bs (length bs - 1)"
  shows "wrote (before_index opt bs @ stored_block kNoCompression (index_block_of opt bs)) r' \<and>
    h = index_handle (footer_of opt bs)"
proof -
  let ?c = "opt_comparator opt" and ?iv = "block_restart_interval opt"
  define r1 where "r1 = (if pending_index_entry r then add_index_entry (FindShortSuccessor ?c (tb_last_key r)) r else r)"
  have r: "tb_ok r" using assms(3) by (simp add: wrote_def tb_ok_def status_ok_OK)
  have idx: "index_block r1 = add_all (BlockBuilder 1) (index_entries ?c ?iv bs (length bs))"
  proof (cases "bs = []")
    case True
    then show ?thesis using assms(5,6) by (simp add: r1_def builder_index_def)
  next
    case False
    then obtain n where n: "length bs = Suc n" "last bs = bs ! n" by (cases bs) (auto simp: last_conv_nth)
    then show ?thesis
      using assms(5-7) False by (simp add: r1_def add_index_entry_def builder_index_def index_entries_Suc sep_after_def)
  qed
  have r1: "wrote (before_index opt bs) r1" using assms(3) by (simp add: r1_def add_index_entry_def wrote_def)
  obtain h2 r2 where w: "WriteRawBlock app (index_block_of opt bs) kNoCompression r1 = (h2, r2)" by fastforce
  have "finish_index app r = (case WriteBlock app (index_block r1) r1 of (block, handle, r2) \<Rightarrow> (handle, r2\<lparr>index_block := block\<rparr>))"
    using r by (simp add: finish_index_def Let_def r1_def assms(4))
  then have "h = h2 \<and> r' = r2\<lparr>index_block := BlockBuilder 1\<rparr>"
    using assms(1) w by (simp add: idx WriteBlock_raw index_block_of_def)
  moreover have "tb_ok r2" using assms(2) calculation by (simp add: tb_ok_def)
  ultimately show ?thesis using WriteRawBlock_wrote [OF w r1] by (auto simp: wrote_def footer_of_def)
qed

lemma tb_Finish_written:
  assumes "building opt r bs cur" "tb_Finish app flush r = (OK, r')"
  shows "wrote (table_bytes opt (with_current bs cur)) r' \<and> [] \<notin> set (with_current bs cur)"
proof -
  let ?bs = "with_current bs cur"
  define r1 where "r1 = (tb_Flush app flush r)\<lparr>tb_closed := True\<rparr>"
  obtain fh r2 where r2: "finish_filter app r1 = (fh, r2)" by fastforce
  obtain mh r3 where r3: "finish_meta app fh r2 = (mh, r3)" by fastforce
  obtain ih r4 where r4: "finish_index app r3 = (ih, r4)" by fastforce
  have r5: "r' = finish_footer app mh ih r4" "tb_ok r'"
    using assms(2) r2 r3 r4 by (auto simp: tb_Finish_def Let_def tb_ok_def status_ok_OK simp flip: r1_def)
  have ok4: "tb_ok r4" using r5 stages_sticky(4) by metis
  have ok3: "tb_ok r3" using ok4 r4 stages_sticky(3) [of r3] by auto
  have ok2: "tb_ok r2" using ok3 r3 stages_sticky(2) [of r2 fh] by auto
  have ok1: "tb_ok r1" using ok2 r2 stages_sticky(1) [of r1] by auto
  have "building opt (tb_Flush app flush r) ?bs []"
    using tb_Flush_building [OF assms(1)] ok1 by (simp add: r1_def tb_ok_def)
  then have b: "building opt r1 ?bs []" by (simp add: r1_def building_defs)
  note s2 = finish_filter_wrote [OF b r2 ok2]
  note s3 = finish_meta_wrote [OF r3 ok3, of opt ?bs "\<lambda>p. filter_state p (filter_list (block_restart_interval opt) ?bs [])"]
  have s3: "wrote (before_index opt ?bs) r3" "mh = metaindex_handle (footer_of opt ?bs)" "tb_options r3 = opt"
    "index_block r3 = index_block r1" "pending_index_entry r3 = pending_index_entry r1" "pending_handle r3 = pending_handle r1"
    "tb_last_key r3 = tb_last_key r1"
    using s3 s2 b by (auto simp: building_defs)
  have s4: "wrote (before_index opt ?bs @ stored_block kNoCompression (index_block_of opt ?bs)) r4" "ih = index_handle (footer_of opt ?bs)"
    using finish_index_wrote [OF r4 ok4 s3(1,3)] s3(4-7) b by (auto simp: building_defs)
  let ?f = "footer_EncodeTo (footer_of opt ?bs) []"
  have foot: "\<lparr>metaindex_handle = mh, index_handle = ih\<rparr> = footer_of opt ?bs" using s3(2) s4(2) by (simp add: footer_of_def)
  obtain s f where f: "app (tb_file r4) ?f = (s, f)" by fastforce
  have "s = OK" using r5 f ok4 foot by (auto simp: finish_footer_def Let_def tb_ok_def status_ok_OK split: if_splits)
  then have "wrote (table_bytes opt ?bs) r'"
    using app_ok [of "tb_file r4" ?f f] f s4(1) r5 ok4 foot by (simp add: wrote_def finish_footer_def Let_def table_bytes_def)
  then show ?thesis using b by (auto simp: building_defs)
qed

lemma table_written:
  assumes "good f" "content f = []"
    and "tb_Finish app flush (foldl (\<lambda>r (k, v). tb_Add app flush k v r) (TableBuilder opt f) kvs) = (OK, r')"
  obtains bs where "concat bs = kvs" "[] \<notin> set bs" "good (tb_file r')" "content (tb_file r') = table_bytes opt bs"
    "tb_FileSize r' = of_nat (length (table_bytes opt bs))"
proof -
  let ?r = "foldl (\<lambda>r (k, v). tb_Add app flush k v r) (TableBuilder opt f) kvs"
  have "tb_ok ?r"
  proof (rule ccontr)
    assume "\<not> tb_ok ?r"
    then have "\<not> tb_ok (snd (tb_Finish app flush ?r))"
      using stages_sticky by (simp add: tb_Finish_def tb_Flush_def Let_def tb_ok_def split_beta)
    then show False using assms(3) by (auto simp: tb_Finish_def Let_def tb_ok_def status_ok_OK split: prod.splits)
  qed
  from tb_Adds_building [OF building_new [OF assms(1,2), of opt] this] obtain bs cur where
    "building opt ?r bs cur" "concat bs @ cur = kvs" by auto
  with tb_Finish_written [OF this(1) assms(3)] that [of "with_current bs cur"] show thesis
    by (auto simp: wrote_def tb_FileSize_def split: if_splits)
qed

end

end
