(* ===== verification/Ldb_Table_Reliable.thy ===== *)
theory Ldb_Table_Reliable
  imports Ldb_Table_Builder_Props
begin

text \<open>
  Building a table succeeds on a file whose operations do. The locale \<open>reliable_file\<close> is such a file; POSIX files are, as long as
  the kernel reports no error but interrupted calls.
\<close>

section \<open>Files without errors\<close>

definition io_fine :: "kernel_file \<Rightarrow> bool" where
  "io_fine k \<longleftrightarrow> (\<forall>e. Errno e \<in> set (k_writes k) \<longrightarrow> e = EINTR)"

lemma sys_write_fine:
  assumes "io_fine k" "sys_write k data = (r, k1)"
  shows "io_fine k1 \<and> (\<forall>e. r = Errno e \<longrightarrow> e = EINTR)"
proof (cases "k_writes k")
  case Nil
  then show ?thesis using assms by (auto simp: sys_write_def io_fine_def)
next
  case (Cons w ws)
  then have "k_writes k1 = ws \<and> (\<forall>e. r = Errno e \<longrightarrow> w = Errno e)" using assms(2) by (cases w) (auto simp: sys_write_def)
  then show ?thesis using assms(1) Cons by (auto simp: io_fine_def)
qed

lemma WriteUnbuffered_loop_fine: "io_fine k \<Longrightarrow> \<exists>k'. WriteUnbuffered_loop fn data k = (OK, k') \<and> io_fine k'"
proof (induction fn data k rule: WriteUnbuffered_loop.induct)
  case (1 fn data k)
  show ?case
  proof (cases "data = []")
    case True
    then show ?thesis using "1.prems" by (simp add: WriteUnbuffered_loop.simps)
  next
    case False
    obtain r k1 where w: "sys_write k data = (r, k1)" by fastforce
    note f = sys_write_fine [OF "1.prems" w]
    show ?thesis
    proof (cases r)
      case (Errno e)
      then show ?thesis using 1(2) [OF False w [symmetric] Errno] f w False by (simp add: WriteUnbuffered_loop.simps [of fn data k])
    next
      case (Transferred n)
      then show ?thesis using 1(1) [OF False w [symmetric] Transferred] f w False by (simp add: WriteUnbuffered_loop.simps [of fn data k])
    qed
  qed
qed

abbreviation file_fine :: "posix_wfile \<Rightarrow> bool" where
  "file_fine w \<equiv> io_fine (w_fd w)"

lemma WriteUnbuffered_fine: "file_fine w \<Longrightarrow> \<exists>w'. WriteUnbuffered w data = (OK, w') \<and> file_fine w' \<and> w_is_manifest w' = w_is_manifest w"
  using WriteUnbuffered_loop_fine [of "w_fd w" "w_filename w" data] by (auto simp: WriteUnbuffered_def)

lemma FlushBuffer_fine: "file_fine w \<Longrightarrow> \<exists>w'. FlushBuffer w = (OK, w') \<and> file_fine w' \<and> w_is_manifest w' = w_is_manifest w"
  using WriteUnbuffered_fine [of w "w_buf w"] by (auto simp: FlushBuffer_def)

lemma posix_Append_fine: "file_fine w \<Longrightarrow> \<exists>w'. posix_Append w x = (OK, w') \<and> file_fine w' \<and> w_is_manifest w' = w_is_manifest w"
proof -
  assume f: "file_fine w"
  let ?w = "w\<lparr>w_buf := w_buf w @ take (min (length x) (kWritableFileBufferSize - length (w_buf w))) x\<rparr>"
  obtain w1 where w1: "FlushBuffer ?w = (OK, w1)" "file_fine w1" "w_is_manifest w1 = w_is_manifest w" using FlushBuffer_fine [of ?w] f by auto
  then show ?thesis using f WriteUnbuffered_fine [OF w1(2)] by (auto simp: posix_Append_def Let_def)
qed

locale reliable_file =
  fixes app :: "'f \<Rightarrow> slice \<Rightarrow> status \<times> 'f" and flush :: "'f \<Rightarrow> status \<times> 'f" and fine :: "'f \<Rightarrow> bool"
  assumes app_fine: "fine f \<Longrightarrow> \<exists>f'. app f x = (OK, f') \<and> fine f'" and flush_fine: "fine f \<Longrightarrow> \<exists>f'. flush f = (OK, f') \<and> fine f'"
begin

definition rep_fine :: "'f table_rep \<Rightarrow> bool" where
  "rep_fine r \<longleftrightarrow> tb_status r = OK \<and> fine (tb_file r)"

lemma rep_ok: "rep_fine r \<Longrightarrow> tb_ok r"
  by (simp add: rep_fine_def tb_ok_def status_ok_OK)

lemma raw_fine: "rep_fine r \<Longrightarrow> rep_fine (snd (WriteRawBlock app x t r))"
proof -
  assume r: "rep_fine r"
  obtain f1 where f1: "app (tb_file r) x = (OK, f1)" "fine f1" using r app_fine [of "tb_file r" x] by (auto simp: rep_fine_def)
  obtain f2 where f2: "app f1 ([compression_byte t] @ EncodeFixed32 (Mask (Extend (crc_Value 0 x) 0 [compression_byte t]))) = (OK, f2)" "fine f2"
    using app_fine [OF f1(2)] by blast
  show ?thesis using f1 f2 by (simp add: WriteRawBlock_def Let_def rep_fine_def)
qed

lemma block_fine: "rep_fine r \<Longrightarrow> rep_fine (snd (snd (WriteBlock app b r)))"
  using raw_fine by (auto simp: WriteBlock_def Let_def split_beta)

lemma same_fine: "tb_status r' = tb_status r \<Longrightarrow> tb_file r' = tb_file r \<Longrightarrow> rep_fine r' = rep_fine r"
  by (simp add: rep_fine_def)

lemma flush_rep_fine:
  assumes r: "rep_fine r"
  shows "rep_fine (tb_Flush app flush r)"
proof -
  obtain b h r1 where w: "WriteBlock app (data_block r) r = (b, h, r1)" by (cases "WriteBlock app (data_block r) r") auto
  have r1: "tb_status r1 = OK" "fine (tb_file r1)" using block_fine [OF r, of "data_block r"] w by (simp_all add: rep_fine_def)
  obtain f where f: "flush (tb_file r1) = (OK, f)" "fine f" using flush_fine [OF r1(2)] by blast
  show ?thesis using r rep_ok [OF r] w r1(1) f by (simp add: tb_Flush_def Let_def rep_fine_def tb_ok_def status_ok_OK start_filter_def)
qed

lemma add_fine:
  assumes r: "rep_fine r"
  shows "rep_fine (tb_Add app flush k v r)"
proof -
  have step: "rep_fine (if b then tb_Flush app flush r' else r')" if "rep_fine r'" for b r' using that flush_rep_fine by simp
  show ?thesis
    unfolding tb_Add_def Let_def using rep_ok [OF r]
    by (simp only: not_True_eq_False if_False) (rule step, use r in \<open>simp add: rep_fine_def add_index_entry_def\<close>)
qed

lemma adds_fine: "rep_fine r \<Longrightarrow> rep_fine (foldl (\<lambda>r (k, v). tb_Add app flush k v r) r kvs)"
  by (induction kvs arbitrary: r) (auto simp: add_fine)

lemma stages_fine:
  "rep_fine r \<Longrightarrow> rep_fine (snd (finish_filter app r))" "rep_fine r \<Longrightarrow> rep_fine (snd (finish_meta app h r))"
  "rep_fine r \<Longrightarrow> rep_fine (snd (finish_index app r))" "rep_fine r \<Longrightarrow> rep_fine (finish_footer app h h' r)"
proof -
  assume r: "rep_fine r"
  show "rep_fine (snd (finish_filter app r))" using r raw_fine by (auto simp: finish_filter_def split: option.splits)
  show "rep_fine (snd (finish_meta app h r))" using r block_fine by (simp add: finish_meta_def Let_def split_beta)
  let ?r = "if pending_index_entry r then add_index_entry (FindShortSuccessor (opt_comparator (tb_options r)) (tb_last_key r)) r else r"
  have "rep_fine ?r" using r by (simp add: rep_fine_def add_index_entry_def)
  from block_fine [OF this] show "rep_fine (snd (finish_index app r))" using r by (simp add: finish_index_def Let_def split_beta rep_fine_def)
  obtain f where "app (tb_file r) (footer_EncodeTo \<lparr>metaindex_handle = h, index_handle = h'\<rparr> []) = (OK, f)" "fine f"
    using r app_fine by (auto simp: rep_fine_def)
  then show "rep_fine (finish_footer app h h' r)" using r by (simp add: finish_footer_def Let_def rep_fine_def)
qed

lemma finishes:
  assumes "fine f"
  shows "\<exists>r. tb_Finish app flush (foldl (\<lambda>r (k, v). tb_Add app flush k v r) (TableBuilder opt f) kvs) = (OK, r) \<and> fine (tb_file r)"
proof -
  let ?r = "foldl (\<lambda>r (k, v). tb_Add app flush k v r) (TableBuilder opt f) kvs"
  have "rep_fine (TableBuilder opt f)" using assms by (simp add: rep_fine_def TableBuilder_def Rep_def start_filter_def)
  then have "rep_fine (tb_Flush app flush ?r)" by (intro flush_rep_fine adds_fine)
  then have "rep_fine ((tb_Flush app flush ?r)\<lparr>tb_closed := True\<rparr>)" by (simp add: rep_fine_def)
  then have "rep_fine (snd (tb_Finish app flush ?r))" "fst (tb_Finish app flush ?r) = tb_status (snd (tb_Finish app flush ?r))"
    using stages_fine by (simp_all add: tb_Finish_def Let_def split_beta)
  then show ?thesis by (metis prod.collapse rep_fine_def)
qed

end

interpretation posix_reliable: reliable_file posix_Append posix_Flush "\<lambda>w. file_fine w \<and> (w_is_manifest w \<longleftrightarrow> m)" for m
  by unfold_locales (use posix_Append_fine FlushBuffer_fine in \<open>auto simp: posix_Flush_def\<close>)

end
