(* ===== verification/Ldb_Cache.thy ===== *)
theory Ldb_Cache
  imports Ldb_Filter
begin

unbundle bit_operations_syntax

text \<open>
  The cache of blocks and open tables, \<^verbatim>\<open>leveldb-library/util/cache.cc\<close>. Handles are at addresses, which
  are indices of a heap. The circular lists of handles are represented by the sequence of their entries,
  oldest first, and the chains of the hash table by lists; numbers of entries, references and charges are natural
  numbers. An operation is \<open>None\<close> when it would use a handle that has been freed, or does not end.
\<close>

section \<open>Handles\<close>

record 'v lru_handle =
  h_value :: 'v
  h_charge :: nat
  h_in_cache :: bool
  h_refs :: nat
  h_hash :: u32
  h_key :: slice

text \<open>\<open>deleted\<close> is what has been passed to the deleter.\<close>

record 'v lru_cache =
  capacity :: nat
  usage :: nat
  lru :: "nat list"
  in_use :: "nat list"
  ht_list :: "nat list list"
  ht_elems :: nat
  lru_heap :: "'v lru_handle option list"
  deleted :: "(slice \<times> 'v) list"

definition handle_of :: "'v lru_cache \<Rightarrow> nat \<Rightarrow> 'v lru_handle option" where
  "handle_of c e = (if e < length (lru_heap c) then lru_heap c ! e else None)"

definition set_handle :: "nat \<Rightarrow> 'v lru_handle option \<Rightarrow> 'v lru_cache \<Rightarrow> 'v lru_cache" where
  "set_handle e h c = c\<lparr>lru_heap := (lru_heap c)[e := h]\<rparr>"

section \<open>HandleTable\<close>

definition bucket :: "nat \<Rightarrow> u32 \<Rightarrow> nat" where
  "bucket n hash = unat (hash AND (of_nat n - 1))"

text \<open>How many links of a chain are followed: all of them if there is no such entry.\<close>

fun FindPointer :: "'v lru_cache \<Rightarrow> slice \<Rightarrow> u32 \<Rightarrow> nat list \<Rightarrow> nat option" where
  "FindPointer c key hash [] = Some 0"
| "FindPointer c key hash (e # es) =
     Option.bind (handle_of c e) (\<lambda>h.
       if h_hash h \<noteq> hash \<or> key \<noteq> h_key h then map_option Suc (FindPointer c key hash es) else Some 0)"

definition chain_entry :: "nat list \<Rightarrow> nat \<Rightarrow> nat option" where
  "chain_entry chain p = (if p < length chain then Some (chain ! p) else None)"

definition ht_Lookup :: "slice \<Rightarrow> u32 \<Rightarrow> 'v lru_cache \<Rightarrow> nat option option" where
  "ht_Lookup key hash c =
     (let chain = ht_list c ! bucket (length (ht_list c)) hash
      in Option.bind (FindPointer c key hash chain) (\<lambda>p. Some (chain_entry chain p)))"

function grow :: "nat \<Rightarrow> nat \<Rightarrow> nat" where
  "grow new_length elems = (if new_length < elems \<and> 0 < new_length then grow (new_length * 2) elems else new_length)"
  by pat_completeness auto
termination
  by (relation "measure (\<lambda>(n, elems). elems - n)") auto

declare grow.simps [simp del]

text \<open>Each handle of a chain is put in front of its new chain.\<close>

fun rehash_chain :: "'v lru_cache \<Rightarrow> nat list \<Rightarrow> nat list list \<Rightarrow> nat list list option" where
  "rehash_chain c [] new_list = Some new_list"
| "rehash_chain c (e # es) new_list =
     Option.bind (handle_of c e) (\<lambda>h.
       let b = bucket (length new_list) (h_hash h)
       in rehash_chain c es (new_list[b := e # new_list ! b]))"

fun rehash :: "'v lru_cache \<Rightarrow> nat list list \<Rightarrow> nat list list \<Rightarrow> nat list list option" where
  "rehash c [] new_list = Some new_list"
| "rehash c (chain # chain_rest) new_list = Option.bind (rehash_chain c chain new_list) (rehash c chain_rest)"

definition Resize :: "'v lru_cache \<Rightarrow> 'v lru_cache option" where
  "Resize c =
     Option.bind (rehash c (ht_list c) (replicate (grow 4 (ht_elems c)) [])) (\<lambda>new_list. Some (c\<lparr>ht_list := new_list\<rparr>))"

text \<open>The entry that was replaced and the cache.\<close>

definition ht_Insert :: "nat \<Rightarrow> 'v lru_cache \<Rightarrow> (nat option \<times> 'v lru_cache) option" where
  "ht_Insert e c =
     Option.bind (handle_of c e) (\<lambda>h.
       let b = bucket (length (ht_list c)) (h_hash h); chain = ht_list c ! b
       in
       Option.bind (FindPointer c (h_key h) (h_hash h) chain) (\<lambda>p.
         case chain_entry chain p of
           Some old \<Rightarrow> Some (Some old, c\<lparr>ht_list := (ht_list c)[b := chain[p := e]]\<rparr>)
         | None \<Rightarrow>
             let c1 = c\<lparr>ht_list := (ht_list c)[b := chain @ [e]], ht_elems := ht_elems c + 1\<rparr>
             in Option.bind (if length (ht_list c1) < ht_elems c1 then Resize c1 else Some c1) (\<lambda>c2. Some (None, c2))))"

definition ht_Remove :: "slice \<Rightarrow> u32 \<Rightarrow> 'v lru_cache \<Rightarrow> (nat option \<times> 'v lru_cache) option" where
  "ht_Remove key hash c =
     (let b = bucket (length (ht_list c)) hash; chain = ht_list c ! b
      in
      Option.bind (FindPointer c key hash chain) (\<lambda>p.
        case chain_entry chain p of
          None \<Rightarrow> Some (None, c)
        | Some e \<Rightarrow> Some (Some e, c\<lparr>ht_list := (ht_list c)[b := take p chain @ drop (Suc p) chain], ht_elems := ht_elems c - 1\<rparr>)))"

section \<open>LRUCache\<close>

definition LRUCache :: "nat \<Rightarrow> 'v lru_cache" where
  "LRUCache cap =
     \<lparr>capacity = cap, usage = 0, lru = [], in_use = [], ht_list = replicate 4 [], ht_elems = 0, lru_heap = [], deleted = []\<rparr>"

definition LRU_Remove :: "nat \<Rightarrow> 'v lru_cache \<Rightarrow> 'v lru_cache" where
  "LRU_Remove e c = c\<lparr>lru := remove1 e (lru c), in_use := remove1 e (in_use c)\<rparr>"

definition LRU_Append_lru :: "nat \<Rightarrow> 'v lru_cache \<Rightarrow> 'v lru_cache" where
  "LRU_Append_lru e c = c\<lparr>lru := lru c @ [e]\<rparr>"

definition LRU_Append_in_use :: "nat \<Rightarrow> 'v lru_cache \<Rightarrow> 'v lru_cache" where
  "LRU_Append_in_use e c = c\<lparr>in_use := in_use c @ [e]\<rparr>"

definition Ref :: "nat \<Rightarrow> 'v lru_cache \<Rightarrow> 'v lru_cache option" where
  "Ref e c =
     Option.bind (handle_of c e) (\<lambda>h.
       let c1 = (if h_refs h = 1 \<and> h_in_cache h then LRU_Append_in_use e (LRU_Remove e c) else c)
       in Some (set_handle e (Some (h\<lparr>h_refs := h_refs h + 1\<rparr>)) c1))"

definition Unref :: "nat \<Rightarrow> 'v lru_cache \<Rightarrow> 'v lru_cache option" where
  "Unref e c =
     Option.bind (handle_of c e) (\<lambda>h.
       let h1 = h\<lparr>h_refs := h_refs h - 1\<rparr>; c1 = set_handle e (Some h1) c
       in Some (
         if h_refs h1 = 0 then set_handle e None (c1\<lparr>deleted := deleted c1 @ [(h_key h1, h_value h1)]\<rparr>)
         else if h_in_cache h1 \<and> h_refs h1 = 1 then LRU_Append_lru e (LRU_Remove e c1)
         else c1))"

definition lru_Lookup :: "slice \<Rightarrow> u32 \<Rightarrow> 'v lru_cache \<Rightarrow> (nat option \<times> 'v lru_cache) option" where
  "lru_Lookup key hash c =
     Option.bind (ht_Lookup key hash c) (\<lambda>found.
       case found of
         None \<Rightarrow> Some (None, c)
       | Some e \<Rightarrow> Option.bind (Ref e c) (\<lambda>c1. Some (Some e, c1)))"

definition lru_Release :: "nat \<Rightarrow> 'v lru_cache \<Rightarrow> 'v lru_cache option" where
  "lru_Release e c = Unref e c"

definition FinishErase :: "nat option \<Rightarrow> 'v lru_cache \<Rightarrow> 'v lru_cache option" where
  "FinishErase found c =
     (case found of
        None \<Rightarrow> Some c
      | Some e \<Rightarrow>
          Option.bind (handle_of c e) (\<lambda>h.
            Unref e ((set_handle e (Some (h\<lparr>h_in_cache := False\<rparr>)) (LRU_Remove e c))\<lparr>usage := usage c - h_charge h\<rparr>)))"

text \<open>The oldest entry of the list is removed from the table and the cache.\<close>

definition evict_oldest :: "'v lru_cache \<Rightarrow> 'v lru_cache option" where
  "evict_oldest c =
     Option.bind (handle_of c (hd (lru c))) (\<lambda>old.
     Option.bind (ht_Remove (h_key old) (h_hash old) c) (\<lambda>(e, c1). FinishErase e c1))"

partial_function (option) evict :: "'v lru_cache \<Rightarrow> 'v lru_cache option" where
  "evict c = (if capacity c < usage c \<and> lru c \<noteq> [] then Option.bind (evict_oldest c) evict else Some c)"

definition lru_Insert :: "slice \<Rightarrow> u32 \<Rightarrow> 'v \<Rightarrow> nat \<Rightarrow> 'v lru_cache \<Rightarrow> (nat \<times> 'v lru_cache) option" where
  "lru_Insert key hash value charge c =
     (let e = length (lru_heap c);
          h = \<lparr>h_value = value, h_charge = charge, h_in_cache = False, h_refs = 1, h_hash = hash, h_key = key\<rparr>;
          c1 = c\<lparr>lru_heap := lru_heap c @ [Some h]\<rparr>
      in
      Option.bind
        (if 0 < capacity c then
           let c2 = set_handle e (Some (h\<lparr>h_refs := 2, h_in_cache := True\<rparr>)) c1;
               c3 = (LRU_Append_in_use e c2)\<lparr>usage := usage c2 + charge\<rparr>
           in Option.bind (ht_Insert e c3) (\<lambda>(old, c4). FinishErase old c4)
         else Some c1)
        (\<lambda>c5. Option.bind (evict c5) (\<lambda>c6. Some (e, c6))))"

definition lru_Erase :: "slice \<Rightarrow> u32 \<Rightarrow> 'v lru_cache \<Rightarrow> 'v lru_cache option" where
  "lru_Erase key hash c = Option.bind (ht_Remove key hash c) (\<lambda>(e, c1). FinishErase e c1)"

partial_function (option) lru_Prune :: "'v lru_cache \<Rightarrow> 'v lru_cache option" where
  "lru_Prune c = (if lru c \<noteq> [] then Option.bind (evict_oldest c) lru_Prune else Some c)"

definition lru_TotalCharge :: "'v lru_cache \<Rightarrow> nat" where
  "lru_TotalCharge c = usage c"

section \<open>ShardedLRUCache\<close>

definition kNumShardBits :: nat where
  "kNumShardBits = 4"

definition kNumShards :: nat where
  "kNumShards = 2 ^ kNumShardBits"

record 'v sharded_cache =
  shards :: "'v lru_cache list"
  last_id :: u64

definition HashSlice :: "slice \<Rightarrow> u32" where
  "HashSlice s = Hash s 0"

definition Shard :: "u32 \<Rightarrow> nat" where
  "Shard hash = unat (drop_bit (32 - kNumShardBits) hash)"

definition ShardedLRUCache :: "nat \<Rightarrow> 'v sharded_cache" where
  "ShardedLRUCache cap =
     (let per_shard = (cap + (kNumShards - 1)) div kNumShards
      in \<lparr>shards = replicate kNumShards (LRUCache per_shard), last_id = 0\<rparr>)"

text \<open>A handle is an address in the memory of a shard; to which shard it belongs is told by the hash that it holds.\<close>

definition sharded_Insert :: "slice \<Rightarrow> 'v \<Rightarrow> nat \<Rightarrow> 'v sharded_cache \<Rightarrow> ((nat \<times> nat) \<times> 'v sharded_cache) option" where
  "sharded_Insert key value charge c =
     (let hash = HashSlice key; s = Shard hash
      in Option.bind (lru_Insert key hash value charge (shards c ! s)) (\<lambda>(e, sh).
           Some ((s, e), c\<lparr>shards := (shards c)[s := sh]\<rparr>)))"

definition sharded_Lookup :: "slice \<Rightarrow> 'v sharded_cache \<Rightarrow> ((nat \<times> nat) option \<times> 'v sharded_cache) option" where
  "sharded_Lookup key c =
     (let hash = HashSlice key; s = Shard hash
      in Option.bind (lru_Lookup key hash (shards c ! s)) (\<lambda>(found, sh).
           Some (map_option (Pair s) found, c\<lparr>shards := (shards c)[s := sh]\<rparr>)))"

definition sharded_Release :: "nat \<times> nat \<Rightarrow> 'v sharded_cache \<Rightarrow> 'v sharded_cache option" where
  "sharded_Release handle c =
     (case handle of (region, e) \<Rightarrow>
        Option.bind (handle_of (shards c ! region) e) (\<lambda>h.
          let s = Shard (h_hash h)
          in Option.bind (lru_Release e (shards c ! s)) (\<lambda>sh. Some (c\<lparr>shards := (shards c)[s := sh]\<rparr>))))"

definition sharded_Erase :: "slice \<Rightarrow> 'v sharded_cache \<Rightarrow> 'v sharded_cache option" where
  "sharded_Erase key c =
     (let hash = HashSlice key; s = Shard hash
      in Option.bind (lru_Erase key hash (shards c ! s)) (\<lambda>sh. Some (c\<lparr>shards := (shards c)[s := sh]\<rparr>)))"

definition sharded_Value :: "nat \<times> nat \<Rightarrow> 'v sharded_cache \<Rightarrow> 'v option" where
  "sharded_Value handle c = (case handle of (s, e) \<Rightarrow> map_option h_value (handle_of (shards c ! s) e))"

definition sharded_NewId :: "'v sharded_cache \<Rightarrow> u64 \<times> 'v sharded_cache" where
  "sharded_NewId c = (let i = last_id c + 1 in (i, c\<lparr>last_id := i\<rparr>))"

definition sharded_Prune :: "'v sharded_cache \<Rightarrow> 'v sharded_cache option" where
  "sharded_Prune c = Option.bind (those (map lru_Prune (shards c))) (\<lambda>shs. Some (c\<lparr>shards := shs\<rparr>))"

definition sharded_TotalCharge :: "'v sharded_cache \<Rightarrow> nat" where
  "sharded_TotalCharge c = sum_list (map lru_TotalCharge (shards c))"

end
