(* ===== verification/Ldb_Cache_Props.thy ===== *)
theory Ldb_Cache_Props
  imports Ldb_Cache "HOL-Library.Multiset"
begin

unbundle bit_operations_syntax

text \<open>
  The cache keeps its books: the hash table, the two lists of handles, the reference counts and the usage agree
  after every operation, whatever the clients that hold handles do, and a lookup finds nothing but the value that
  was put in last. \<open>held e\<close> is the number of references of clients to the handle at \<open>e\<close>.
\<close>

section \<open>The hash table\<close>

text \<open>What the table knows of the handle at an address.\<close>

type_synonym idents = "nat \<Rightarrow> (u32 \<times> slice) option"

definition ident :: "'v lru_cache \<Rightarrow> idents" where
  "ident c e = map_option (\<lambda>h. (h_hash h, h_key h)) (handle_of c e)"

definition members :: "'v lru_cache \<Rightarrow> nat list" where
  "members c = concat (ht_list c)"

definition buckets_ok :: "idents \<Rightarrow> nat list list \<Rightarrow> bool" where
  "buckets_ok f l \<longleftrightarrow> l \<noteq> [] \<and>
     (\<forall>b<length l. \<forall>e\<in>set (l ! b). \<exists>hash key. f e = Some (hash, key) \<and> bucket (length l) hash = b)"

definition table_ok :: "idents \<Rightarrow> nat list list \<Rightarrow> nat \<Rightarrow> bool" where
  "table_ok f l n \<longleftrightarrow> buckets_ok f l \<and> distinct (concat l) \<and> n = length (concat l) \<and> inj_on f (set (concat l))"

abbreviation table_inv :: "'v lru_cache \<Rightarrow> bool" where
  "table_inv c \<equiv> table_ok (ident c) (ht_list c) (ht_elems c)"

lemma bucket_less:
  assumes "0 < n"
  shows "bucket n hash < n"
proof -
  have "bucket n hash \<le> unat (of_nat n - 1 :: u32)"
    unfolding bucket_def word_le_nat_alt [symmetric] by (rule word_and_le1)
  also have "\<dots> < n"
  proof (cases "n < 2 ^ 32")
    case True
    then have "(of_nat n - 1 :: u32) = of_nat (n - 1)" using assms by (simp add: of_nat_diff)
    moreover have "unat (of_nat (n - 1) :: u32) = n - 1" using True by (simp only: unat_of_nat) simp
    ultimately show ?thesis using assms by simp
  next
    case False
    then show ?thesis using unat_lt_u32 [of "of_nat n - 1"] by linarith
  qed
  finally show ?thesis .
qed

lemma FindPointer_spec:
  "\<forall>e\<in>set chain. ident c e \<noteq> None \<Longrightarrow>
   \<exists>p. FindPointer c key hash chain = Some p \<and>
     (p < length chain \<and> ident c (chain ! p) = Some (hash, key) \<or>
      p = length chain \<and> (\<forall>e\<in>set chain. ident c e \<noteq> Some (hash, key)))"
proof (induction chain)
  case (Cons e chain)
  obtain h where h: "handle_of c e = Some h" using Cons.prems by (auto simp: ident_def)
  obtain p where p: "FindPointer c key hash chain = Some p"
     "p < length chain \<and> ident c (chain ! p) = Some (hash, key) \<or> p = length chain \<and> (\<forall>e\<in>set chain. ident c e \<noteq> Some (hash, key))"
    using Cons by auto
  show ?case
  proof (cases "ident c e = Some (hash, key)")
    case True
    then show ?thesis using h by (auto simp: ident_def)
  next
    case False
    then show ?thesis using h p by (intro exI [of _ "Suc p"]) (auto simp: ident_def)
  qed
qed simp

lemma members_split:
  assumes "b < length l"
  shows "concat l = concat (take b l) @ l ! b @ concat (drop (Suc b) l)"
    "concat (l[b := ch]) = concat (take b l) @ ch @ concat (drop (Suc b) l)"
  by (subst id_take_nth_drop [OF assms], simp) (simp add: upd_conv_take_nth_drop [OF assms])

lemma buckets_idents: "buckets_ok f l \<Longrightarrow> e \<in> set (concat l) \<Longrightarrow> f e \<noteq> None"
  by (fastforce simp: buckets_ok_def in_set_conv_nth [of _ l])

lemma buckets_member:
  assumes "buckets_ok f l" "e \<in> set (concat l)" "f e = Some (hash, key)"
  shows "e \<in> set (l ! bucket (length l) hash)"
proof -
  obtain b where b: "b < length l" "e \<in> set (l ! b)" using assms(2) by (auto simp: in_set_conv_nth [of _ l])
  then have "\<exists>hash' key'. f e = Some (hash', key') \<and> bucket (length l) hash' = b" using assms(1) by (simp add: buckets_ok_def)
  then have "b = bucket (length l) hash" using assms(3) by simp
  then show ?thesis using b by simp
qed

text \<open>The search of a chain is a search of the table.\<close>

lemma find_member:
  fixes hash :: u32
  assumes B: "buckets_ok (ident c) (ht_list c)"
  defines "b \<equiv> bucket (length (ht_list c)) hash"
  shows "b < length (ht_list c)"
    "\<exists>p. FindPointer c key hash (ht_list c ! b) = Some p \<and>
      (p < length (ht_list c ! b) \<and> ident c (ht_list c ! b ! p) = Some (hash, key) \<and> ht_list c ! b ! p \<in> set (members c) \<or>
       p = length (ht_list c ! b) \<and> (\<forall>e\<in>set (members c). ident c e \<noteq> Some (hash, key)))"
proof -
  show b: "b < length (ht_list c)" using bucket_less B by (simp add: buckets_ok_def b_def)
  have sub: "set (ht_list c ! b) \<subseteq> set (members c)" unfolding members_def set_concat using nth_mem [OF b] by blast
  then have "\<forall>e\<in>set (ht_list c ! b). ident c e \<noteq> None" using buckets_idents [OF B] unfolding members_def by blast
  from FindPointer_spec [OF this, of key hash] obtain p where
    p: "FindPointer c key hash (ht_list c ! b) = Some p"
    "p < length (ht_list c ! b) \<and> ident c (ht_list c ! b ! p) = Some (hash, key) \<or>
     p = length (ht_list c ! b) \<and> (\<forall>e\<in>set (ht_list c ! b). ident c e \<noteq> Some (hash, key))" by blast
  have "\<forall>e\<in>set (members c). ident c e \<noteq> Some (hash, key)" if "\<forall>e\<in>set (ht_list c ! b). ident c e \<noteq> Some (hash, key)"
    using that buckets_member [OF B, of _ hash key] unfolding members_def b_def [symmetric] by blast
  moreover have "ht_list c ! b ! p \<in> set (members c)" if "p < length (ht_list c ! b)"
    using that sub nth_mem by blast
  ultimately show "\<exists>p. FindPointer c key hash (ht_list c ! b) = Some p \<and>
      (p < length (ht_list c ! b) \<and> ident c (ht_list c ! b ! p) = Some (hash, key) \<and> ht_list c ! b ! p \<in> set (members c) \<or>
       p = length (ht_list c ! b) \<and> (\<forall>e\<in>set (members c). ident c e \<noteq> Some (hash, key)))"
    using p by blast
qed

lemma ht_Lookup_spec:
  assumes "table_inv c"
  shows "(\<exists>e\<in>set (members c). ident c e = Some (hash, key) \<and> ht_Lookup key hash c = Some (Some e)) \<or>
    (\<forall>e\<in>set (members c). ident c e \<noteq> Some (hash, key)) \<and> ht_Lookup key hash c = Some None"
  using find_member(2) [of c key hash] assms by (auto simp: ht_Lookup_def Let_def chain_entry_def table_ok_def)

lemma buckets_ok_update:
  assumes "buckets_ok f l" "b < length l" "\<forall>e\<in>set ch. e \<in> set (l ! b) \<or> (\<exists>hash key. f e = Some (hash, key) \<and> bucket (length l) hash = b)"
  shows "buckets_ok f (l[b := ch])"
  using assms by (auto simp: buckets_ok_def nth_list_update)

lemma mset_distinct_set: "mset xs = add_mset e (mset ys) \<Longrightarrow> distinct xs \<Longrightarrow> distinct ys \<and> e \<notin> set ys \<and> set xs = insert e (set ys) \<and> length xs = Suc (length ys)"
  by (metis distinct.simps(2) list.simps(15) length_Cons mset.simps(2) mset_eq_imp_distinct_iff mset_eq_length mset_eq_setD)

lemma ht_Remove_spec:
  assumes T: "table_inv c"
  shows "(\<forall>e\<in>set (members c). ident c e \<noteq> Some (hash, key)) \<and> ht_Remove key hash c = Some (None, c) \<or>
    (\<exists>e l. e \<in> set (members c) \<and> ident c e = Some (hash, key) \<and>
       ht_Remove key hash c = Some (Some e, c\<lparr>ht_list := l, ht_elems := ht_elems c - 1\<rparr>) \<and>
       set (concat l) = set (members c) - {e} \<and> table_ok (ident c) l (ht_elems c - 1))"
proof -
  let ?b = "bucket (length (ht_list c)) hash"
  have B: "buckets_ok (ident c) (ht_list c)" using T by (simp add: table_ok_def)
  note b = find_member(1) [OF B, of hash]
  let ?ch = "ht_list c ! ?b"
  obtain p where p: "FindPointer c key hash ?ch = Some p"
    "p < length ?ch \<and> ident c (?ch ! p) = Some (hash, key) \<and> ?ch ! p \<in> set (members c) \<or>
     p = length ?ch \<and> (\<forall>e\<in>set (members c). ident c e \<noteq> Some (hash, key))"
    using find_member(2) [OF B, of key hash] by blast
  show ?thesis
  proof (cases "p < length ?ch")
    case False
    then show ?thesis using p by (simp add: ht_Remove_def Let_def chain_entry_def)
  next
    case True
    let ?l = "(ht_list c)[?b := take p ?ch @ drop (Suc p) ?ch]" and ?e = "?ch ! p"
    have ch: "?ch = take p ?ch @ ?e # drop (Suc p) ?ch" using True by (rule id_take_nth_drop)
    have m: "mset (members c) = add_mset ?e (mset (concat ?l))"
      unfolding members_def members_split(1) [OF b] members_split(2) [OF b] by (subst ch) simp
    have d: "distinct (members c)" "ht_elems c = length (members c)" "inj_on (ident c) (set (members c))"
      using T by (simp_all add: table_ok_def members_def)
    note s = mset_distinct_set [OF m d(1)]
    have "buckets_ok (ident c) ?l"
      by (rule buckets_ok_update [OF B b]) (auto dest: in_set_takeD in_set_dropD)
    moreover have set_l: "set (concat ?l) = set (members c) - {?e}" using s by blast
    moreover have "inj_on (ident c) (set (concat ?l))" unfolding set_l by (rule inj_on_subset [OF d(3)]) blast
    moreover have "distinct (concat ?l)" "length (members c) = Suc (length (concat ?l))" using s by blast+
    moreover from this(2) have "ht_elems c - 1 = length (concat ?l)" using d(2) by linarith
    ultimately have "table_ok (ident c) ?l (ht_elems c - 1)"
      unfolding table_ok_def by blast
    moreover have "ht_Remove key hash c = Some (Some ?e, c\<lparr>ht_list := ?l, ht_elems := ht_elems c - 1\<rparr>)"
      using p True by (simp add: ht_Remove_def Let_def chain_entry_def)
    ultimately show ?thesis using p True set_l by blast
  qed
qed

text \<open>Rehashing keeps the entries.\<close>

lemma grow_positive: "0 < n \<Longrightarrow> 0 < grow n elems"
proof (induction n elems rule: grow.induct)
  case (1 n elems)
  then show ?case by (subst grow.simps) simp
qed

lemma buckets_ok_empty: "0 < n \<Longrightarrow> buckets_ok f (replicate n [])"
  by (simp add: buckets_ok_def)

lemma rehash_chain_spec:
  assumes "buckets_ok (ident c) l" "\<forall>e\<in>set es. ident c e \<noteq> None"
  shows "\<exists>l'. rehash_chain c es l = Some l' \<and> buckets_ok (ident c) l' \<and> mset (concat l') = mset es + mset (concat l)"
  using assms
proof (induction es arbitrary: l)
  case (Cons e es)
  obtain h where h: "handle_of c e = Some h" using Cons.prems(2) by (auto simp: ident_def)
  let ?b = "bucket (length l) (h_hash h)"
  let ?l = "l[?b := e # l ! ?b]"
  have b: "?b < length l" using Cons.prems(1) bucket_less by (simp add: buckets_ok_def)
  have "buckets_ok (ident c) ?l"
    by (rule buckets_ok_update [OF Cons.prems(1) b]) (use h in \<open>auto simp: ident_def\<close>)
  from Cons.IH [OF this] obtain l' where "rehash_chain c es ?l = Some l'" "buckets_ok (ident c) l'"
    "mset (concat l') = mset es + mset (concat ?l)" using Cons.prems(2) by auto
  moreover have "mset (concat ?l) = add_mset e (mset (concat l))"
    unfolding members_split(1) [OF b] members_split(2) [OF b] by simp
  ultimately show ?case using h by (simp add: Let_def)
qed simp

lemma rehash_spec:
  assumes "buckets_ok (ident c) l" "\<forall>e\<in>set (concat cs). ident c e \<noteq> None"
  shows "\<exists>l'. rehash c cs l = Some l' \<and> buckets_ok (ident c) l' \<and> mset (concat l') = mset (concat cs) + mset (concat l)"
  using assms
proof (induction cs arbitrary: l)
  case (Cons chain cs)
  have "\<forall>e\<in>set chain. ident c e \<noteq> None" using Cons.prems(2) by auto
  from rehash_chain_spec [OF Cons.prems(1) this] obtain l1 where
    l1: "rehash_chain c chain l = Some l1" "buckets_ok (ident c) l1" "mset (concat l1) = mset chain + mset (concat l)" by blast
  from Cons.IH [OF l1(2)] obtain l' where "rehash c cs l1 = Some l'" "buckets_ok (ident c) l'"
    "mset (concat l') = mset (concat cs) + mset (concat l1)" using Cons.prems(2) by auto
  then show ?case using l1 by simp
qed simp

lemma Resize_spec:
  assumes "buckets_ok (ident c) (ht_list c)"
  shows "\<exists>l. Resize c = Some (c\<lparr>ht_list := l\<rparr>) \<and> buckets_ok (ident c) l \<and> mset (concat l) = mset (concat (ht_list c))"
proof -
  let ?n = "grow 4 (ht_elems c)"
  have "buckets_ok (ident c) (replicate ?n [])" using grow_positive [of 4] by (intro buckets_ok_empty) simp
  moreover have "\<forall>e\<in>set (concat (ht_list c)). ident c e \<noteq> None" using buckets_idents [OF assms] by blast
  ultimately show ?thesis using rehash_spec by (fastforce simp: Resize_def)
qed

lemma table_ok_mset: "table_ok f l n \<Longrightarrow> mset (concat l') = mset (concat l) \<Longrightarrow> buckets_ok f l' \<Longrightarrow> table_ok f l' n"
  unfolding table_ok_def using mset_eq_setD mset_eq_imp_distinct_iff mset_eq_length by metis

text \<open>An insertion replaces the entry with the same key, if there is one.\<close>

lemma ht_Insert_spec:
  assumes T: "table_inv c" and e: "ident c e = Some (hash, key)" "e \<notin> set (members c)"
  shows "(\<forall>e'\<in>set (members c). ident c e' \<noteq> Some (hash, key)) \<and>
      (\<exists>l. ht_Insert e c = Some (None, c\<lparr>ht_list := l, ht_elems := ht_elems c + 1\<rparr>) \<and>
        set (concat l) = insert e (set (members c)) \<and> table_ok (ident c) l (ht_elems c + 1)) \<or>
    (\<exists>old l. old \<in> set (members c) \<and> ident c old = Some (hash, key) \<and>
       ht_Insert e c = Some (Some old, c\<lparr>ht_list := l\<rparr>) \<and>
       set (concat l) = insert e (set (members c) - {old}) \<and> table_ok (ident c) l (ht_elems c))"
proof -
  let ?b = "bucket (length (ht_list c)) hash"
  have B: "buckets_ok (ident c) (ht_list c)" using T by (simp add: table_ok_def)
  note b = find_member(1) [OF B, of hash]
  let ?ch = "ht_list c ! ?b"
  obtain h where h: "handle_of c e = Some h" "h_hash h = hash" "h_key h = key" using e(1) by (auto simp: ident_def)
  obtain p where p: "FindPointer c key hash ?ch = Some p"
    "p < length ?ch \<and> ident c (?ch ! p) = Some (hash, key) \<and> ?ch ! p \<in> set (members c) \<or>
     p = length ?ch \<and> (\<forall>e\<in>set (members c). ident c e \<noteq> Some (hash, key))"
    using find_member(2) [OF B, of key hash] by blast
  have d: "distinct (members c)" "ht_elems c = length (members c)" "inj_on (ident c) (set (members c))"
    using T by (simp_all add: table_ok_def members_def)
  show ?thesis
  proof (cases "p < length ?ch")
    case True
    let ?l = "(ht_list c)[?b := ?ch[p := e]]" and ?old = "?ch ! p"
    have ch: "?ch = take p ?ch @ ?old # drop (Suc p) ?ch" "?ch[p := e] = take p ?ch @ e # drop (Suc p) ?ch"
      using True by (rule id_take_nth_drop, rule upd_conv_take_nth_drop)
    obtain ms where ms: "mset (members c) = add_mset ?old (mset ms)" "mset (concat ?l) = add_mset e (mset ms)"
    proof
      let ?ms = "concat (take ?b (ht_list c)) @ take p ?ch @ drop (Suc p) ?ch @ concat (drop (Suc ?b) (ht_list c))"
      show "mset (members c) = add_mset ?old (mset ?ms)" unfolding members_def members_split(1) [OF b] by (subst ch(1)) simp
      show "mset (concat ?l) = add_mset e (mset ?ms)" unfolding members_split(2) [OF b] ch(2) by simp
    qed
    note s = mset_distinct_set [OF ms(1) d(1)]
    have "e \<notin> set ms" using s e(2) by blast
    then have l: "distinct (concat ?l)" "set (concat ?l) = insert e (set ms)" "length (concat ?l) = Suc (length ms)"
      using s ms(2) mset_eq_imp_distinct_iff [of "concat ?l" "e # ms"] mset_eq_setD [of "concat ?l" "e # ms"]
        mset_eq_length [of "concat ?l" "e # ms"] by simp_all
    have set_l: "set (concat ?l) = insert e (set (members c) - {?old})" using l(2) s by blast
    have "inj_on (ident c) (set (concat ?l))" unfolding set_l inj_on_insert
    proof
      show "inj_on (ident c) (set (members c) - {?old})" by (rule inj_on_subset [OF d(3)]) blast
      show "ident c e \<notin> ident c ` (set (members c) - {?old} - {e})"
        using e(1) p(2) True inj_onD [OF d(3), of _ ?old] by fastforce
    qed
    moreover have "buckets_ok (ident c) ?l"
      by (rule buckets_ok_update [OF B b]) (use e(1) set_update_subset_insert [of ?ch p e] in blast)
    moreover have "ht_elems c = length (concat ?l)" using s d(2) l(3) by linarith
    ultimately have "table_ok (ident c) ?l (ht_elems c)" using l(1) unfolding table_ok_def by blast
    moreover have "ht_Insert e c = Some (Some ?old, c\<lparr>ht_list := ?l\<rparr>)"
      using p True h by (simp add: ht_Insert_def Let_def chain_entry_def)
    ultimately show ?thesis using p True set_l by blast
  next
    case False
    let ?l = "(ht_list c)[?b := ?ch @ [e]]"
    let ?c = "c\<lparr>ht_list := ?l, ht_elems := ht_elems c + 1\<rparr>"
    have none: "\<forall>e\<in>set (members c). ident c e \<noteq> Some (hash, key)" using p False by blast
    have m: "mset (concat ?l) = add_mset e (mset (members c))"
      unfolding members_def members_split(1) [OF b] members_split(2) [OF b] by simp
    then have l: "distinct (concat ?l)" "set (concat ?l) = insert e (set (members c))" "length (concat ?l) = Suc (length (members c))"
      using e(2) d(1) mset_eq_imp_distinct_iff [of "concat ?l" "e # members c"] mset_eq_setD [of "concat ?l" "e # members c"]
        mset_eq_length [of "concat ?l" "e # members c"] by simp_all
    have B1: "buckets_ok (ident c) ?l"
      by (rule buckets_ok_update [OF B b]) (use e(1) in auto)
    have "inj_on (ident c) (set (concat ?l))" unfolding l(2) inj_on_insert using d(3) e(1) none by fastforce
    moreover have "ht_elems c + 1 = length (concat ?l)" using d(2) l(3) by linarith
    ultimately have T1: "table_ok (ident c) ?l (ht_elems c + 1)" using l(1) B1 unfolding table_ok_def by blast
    have id: "ident ?c = ident c" by (simp add: ident_def handle_of_def fun_eq_iff)
    from Resize_spec [of ?c] B1 obtain l' where
      r: "Resize ?c = Some (?c\<lparr>ht_list := l'\<rparr>)" "buckets_ok (ident c) l'" "mset (concat l') = mset (concat ?l)" unfolding id by auto
    define l'' where "l'' = (if length ?l < ht_elems c + 1 then l' else ?l)"
    have "table_ok (ident c) l'' (ht_elems c + 1)" using T1 table_ok_mset [OF T1 r(3,2)] by (simp add: l''_def)
    moreover have "set (concat l'') = insert e (set (members c))"
      using l(2) mset_eq_setD [OF r(3)] unfolding l''_def by (cases "length ?l < ht_elems c + 1") (simp_all only: if_True if_False)
    moreover have "ht_Insert e c = Some (None, c\<lparr>ht_list := l'', ht_elems := ht_elems c + 1\<rparr>)"
      using p False h r(1) by (simp add: ht_Insert_def Let_def chain_entry_def l''_def)
    ultimately show ?thesis using none by blast
  qed
qed

section \<open>References, lists and usage\<close>

definition charge_of :: "'v lru_cache \<Rightarrow> nat \<Rightarrow> nat" where
  "charge_of c e = (case handle_of c e of Some h \<Rightarrow> h_charge h | None \<Rightarrow> 0)"

text \<open>\<open>M\<close> are the handles that are in the cache.\<close>

definition ref_ok :: "'v lru_handle option \<Rightarrow> nat \<Rightarrow> bool \<Rightarrow> bool" where
  "ref_ok x n m \<longleftrightarrow> (case x of
     Some h \<Rightarrow> h_refs h = n + (if m then 1 else 0) \<and> 0 < h_refs h \<and> (h_in_cache h \<longleftrightarrow> m)
   | None \<Rightarrow> n = 0 \<and> \<not> m)"

definition refs_ok :: "'v lru_cache \<Rightarrow> (nat \<Rightarrow> nat) \<Rightarrow> nat set \<Rightarrow> bool" where
  "refs_ok c held M \<longleftrightarrow> (\<forall>e. ref_ok (handle_of c e) (held e) (e \<in> M))"

definition books :: "'v lru_cache \<Rightarrow> (nat \<Rightarrow> nat) \<Rightarrow> nat set \<Rightarrow> bool" where
  "books c held M \<longleftrightarrow> finite M \<and> refs_ok c held M \<and>
     distinct (lru c) \<and> set (lru c) = {e\<in>M. held e = 0} \<and> distinct (in_use c) \<and> set (in_use c) = {e\<in>M. 0 < held e} \<and>
     usage c = (\<Sum>e\<in>M. charge_of c e)"

definition lru_inv :: "'v lru_cache \<Rightarrow> (nat \<Rightarrow> nat) \<Rightarrow> bool" where
  "lru_inv c held \<longleftrightarrow> table_inv c \<and> books c held (set (members c)) \<and> (capacity c = 0 \<longrightarrow> members c = [])"

text \<open>What a value is stored under.\<close>

definition stores :: "'v lru_cache \<Rightarrow> nat \<Rightarrow> slice \<Rightarrow> u32 \<Rightarrow> 'v \<Rightarrow> bool" where
  "stores c e key hash v \<longleftrightarrow> (\<exists>h. handle_of c e = Some h \<and> h_key h = key \<and> h_hash h = hash \<and> h_value h = v)"

lemma handle_of_set [simp]:
  "handle_of (set_handle e h c) e' = (if e' = e \<and> e < length (lru_heap c) then h else handle_of c e')"
  by (simp add: handle_of_def set_handle_def)

lemma set_handle_sel [simp]:
  "lru (set_handle e h c) = lru c" "in_use (set_handle e h c) = in_use c" "usage (set_handle e h c) = usage c"
  "capacity (set_handle e h c) = capacity c" "ht_list (set_handle e h c) = ht_list c" "ht_elems (set_handle e h c) = ht_elems c"
  "length (lru_heap (set_handle e h c)) = length (lru_heap c)" "members (set_handle e h c) = members c"
  by (simp_all add: set_handle_def members_def)

lemma handle_of_Some: "handle_of c e = Some h \<Longrightarrow> e < length (lru_heap c)"
  by (simp add: handle_of_def split: if_splits)

lemma handle_of_lists [simp]:
  "handle_of (LRU_Remove e c) = handle_of c" "handle_of (LRU_Append_lru e c) = handle_of c"
  "handle_of (LRU_Append_in_use e c) = handle_of c" "handle_of (c\<lparr>usage := n\<rparr>) = handle_of c"
  "handle_of (c\<lparr>deleted := ds\<rparr>) = handle_of c" "handle_of (c\<lparr>ht_list := l\<rparr>) = handle_of c" "handle_of (c\<lparr>ht_elems := m\<rparr>) = handle_of c"
  "handle_of (c\<lparr>lru := xs\<rparr>) = handle_of c" "handle_of (c\<lparr>in_use := xs\<rparr>) = handle_of c"
  by (simp_all add: fun_eq_iff handle_of_def LRU_Remove_def LRU_Append_lru_def LRU_Append_in_use_def)

lemmas lru_defs = LRU_Remove_def LRU_Append_lru_def LRU_Append_in_use_def

lemma refs_okD:
  assumes "refs_ok c held M"
  shows "handle_of c e = Some h \<Longrightarrow> h_refs h = held e + (if e \<in> M then 1 else 0) \<and> 0 < h_refs h \<and> (h_in_cache h \<longleftrightarrow> e \<in> M)"
    "0 < held e \<or> e \<in> M \<Longrightarrow> \<exists>h. handle_of c e = Some h"
proof -
  have "ref_ok (handle_of c e) (held e) (e \<in> M)" using assms by (simp add: refs_ok_def)
  then show "handle_of c e = Some h \<Longrightarrow> h_refs h = held e + (if e \<in> M then 1 else 0) \<and> 0 < h_refs h \<and> (h_in_cache h \<longleftrightarrow> e \<in> M)"
    "0 < held e \<or> e \<in> M \<Longrightarrow> \<exists>h. handle_of c e = Some h"
    by (cases "handle_of c e"; simp add: ref_ok_def)+
qed

lemma refs_ok_update:
  assumes "refs_ok c held M" "\<And>e'. e' \<noteq> e \<Longrightarrow> handle_of c' e' = handle_of c e' \<and> held' e' = held e' \<and> (e' \<in> M' \<longleftrightarrow> e' \<in> M)"
    and "ref_ok (handle_of c' e) (held' e) (e \<in> M')"
  shows "refs_ok c' held' M'"
  unfolding refs_ok_def
proof
  fix e'
  show "ref_ok (handle_of c' e') (held' e') (e' \<in> M')"
    using assms by (cases "e' = e") (simp_all add: refs_ok_def)
qed

text \<open>Two states that agree on what is stored.\<close>

definition same_entries :: "'v lru_cache \<Rightarrow> 'v lru_cache \<Rightarrow> nat set \<Rightarrow> bool" where
  "same_entries c c' S \<longleftrightarrow> capacity c' = capacity c \<and>
     (\<forall>e\<in>S. map_option (\<lambda>h. (h_key h, h_hash h, h_value h, h_charge h)) (handle_of c' e) =
        map_option (\<lambda>h. (h_key h, h_hash h, h_value h, h_charge h)) (handle_of c e))"

lemma Ref_books:
  assumes B: "books c held M" and e: "e \<in> M"
  shows "\<exists>c'. Ref e c = Some c' \<and> books c' (held(e := held e + 1)) M \<and> same_entries c c' UNIV \<and>
    ht_list c' = ht_list c \<and> ht_elems c' = ht_elems c"
proof -
  have R: "refs_ok c held M" using B by (simp add: books_def)
  obtain h where h: "handle_of c e = Some h" using refs_okD(2) [OF R] e by blast
  note hr = refs_okD(1) [OF R h]
  let ?c1 = "if h_refs h = 1 \<and> h_in_cache h then LRU_Append_in_use e (LRU_Remove e c) else c"
  let ?c = "set_handle e (Some (h\<lparr>h_refs := h_refs h + 1\<rparr>)) ?c1"
  have c: "Ref e c = Some ?c" using h by (simp add: Ref_def Let_def)
  have ho: "handle_of ?c e' = (if e' = e then Some (h\<lparr>h_refs := h_refs h + 1\<rparr>) else handle_of c e')" for e'
    using handle_of_Some [OF h] by (simp add: lru_defs)
  have "refs_ok ?c (held(e := held e + 1)) M"
    by (rule refs_ok_update [OF R, of e]; unfold ho) (use hr e in \<open>auto simp: ref_ok_def\<close>)
  moreover have "charge_of ?c = charge_of c" using h by (simp add: charge_of_def ho fun_eq_iff)
  moreover have "distinct (lru ?c) \<and> set (lru ?c) = {e'\<in>M. (held(e := held e + 1)) e' = 0} \<and> distinct (in_use ?c) \<and>
      set (in_use ?c) = {e'\<in>M. 0 < (held(e := held e + 1)) e'}"
    using B hr e by (auto simp: books_def lru_defs)
  ultimately have "books ?c (held(e := held e + 1)) M" using B by (simp add: books_def lru_defs)
  moreover have "same_entries c ?c UNIV" using h unfolding same_entries_def ho by (simp add: lru_defs)
  ultimately show ?thesis using c by (auto simp: lru_defs)
qed

lemma Unref_books:
  assumes B: "books c held M" and e: "0 < held e"
  shows "\<exists>c'. Unref e c = Some c' \<and> books c' (held(e := held e - 1)) M \<and>
    same_entries c c' {e'. 0 < (held(e := held e - 1)) e' \<or> e' \<in> M} \<and> ht_list c' = ht_list c \<and> ht_elems c' = ht_elems c"
proof -
  have R: "refs_ok c held M" using B by (simp add: books_def)
  obtain h where h: "handle_of c e = Some h" using refs_okD(2) [OF R] e by blast
  note hr = refs_okD(1) [OF R h]
  let ?h = "h\<lparr>h_refs := h_refs h - 1\<rparr>" and ?held = "held(e := held e - 1)"
  let ?c1 = "set_handle e (Some ?h) c"
  let ?c = "if h_refs ?h = 0 then set_handle e None (?c1\<lparr>deleted := deleted ?c1 @ [(h_key ?h, h_value ?h)]\<rparr>)
    else if h_in_cache ?h \<and> h_refs ?h = 1 then LRU_Append_lru e (LRU_Remove e ?c1) else ?c1"
  have c: "Unref e c = Some ?c" using h by (simp add: Unref_def Let_def)
  have ho: "handle_of ?c e' = (if e' = e then if h_refs ?h = 0 then None else Some ?h else handle_of c e')" for e'
    using handle_of_Some [OF h] by (simp add: lru_defs)
  have "refs_ok ?c ?held M"
    by (rule refs_ok_update [OF R, of e]; unfold ho) (use hr e in \<open>auto simp: ref_ok_def\<close>)
  moreover have "charge_of ?c e' = charge_of c e'" if "e' \<in> M" for e' using h hr that e unfolding charge_of_def ho by auto
  then have "(\<Sum>e\<in>M. charge_of ?c e) = (\<Sum>e\<in>M. charge_of c e)" by (rule sum.cong [OF refl])
  moreover have "distinct (lru ?c) \<and> set (lru ?c) = {e'\<in>M. ?held e' = 0} \<and> distinct (in_use ?c) \<and> set (in_use ?c) = {e'\<in>M. 0 < ?held e'}"
    using B hr e by (auto simp: books_def lru_defs)
  moreover have "usage ?c = usage c" by (simp add: lru_defs)
  ultimately have "books ?c ?held M" using B unfolding books_def by metis
  moreover have "same_entries c ?c {e'. 0 < ?held e' \<or> e' \<in> M}" using h hr e unfolding same_entries_def ho by (auto simp: lru_defs)
  ultimately show ?thesis using c by (auto simp: lru_defs)
qed

lemma FinishErase_books:
  assumes B: "books c held M" and e: "e \<in> M"
  shows "\<exists>c'. FinishErase (Some e) c = Some c' \<and> books c' held (M - {e}) \<and>
    same_entries c c' {e'. 0 < held e' \<or> e' \<in> M - {e}} \<and> ht_list c' = ht_list c \<and> ht_elems c' = ht_elems c"
proof -
  have R: "refs_ok c held M" and F: "finite M" using B by (simp_all add: books_def)
  obtain h where h: "handle_of c e = Some h" using refs_okD(2) [OF R] e by blast
  note hr = refs_okD(1) [OF R h]
  let ?h = "h\<lparr>h_in_cache := False\<rparr>"
  let ?c1 = "(set_handle e (Some ?h) (LRU_Remove e c))\<lparr>usage := usage c - h_charge h\<rparr>"
  have ho: "handle_of ?c1 e' = (if e' = e then Some ?h else handle_of c e')" for e'
    using handle_of_Some [OF h] by (simp add: lru_defs)
  have "refs_ok ?c1 (held(e := held e + 1)) (M - {e})"
    by (rule refs_ok_update [OF R, of e]; unfold ho) (use hr e in \<open>auto simp: ref_ok_def\<close>)
  moreover have "usage ?c1 = (\<Sum>e\<in>M - {e}. charge_of ?c1 e)"
  proof -
    have "charge_of ?c1 = charge_of c" using h by (auto simp: charge_of_def ho fun_eq_iff)
    moreover have "charge_of c e = h_charge h" using h by (simp add: charge_of_def)
    ultimately show ?thesis using B F e sum.remove [of M e "charge_of c"] by (simp add: books_def)
  qed
  moreover have "distinct (lru ?c1) \<and> set (lru ?c1) = {e'\<in>M - {e}. (held(e := held e + 1)) e' = 0} \<and> distinct (in_use ?c1) \<and>
      set (in_use ?c1) = {e'\<in>M - {e}. 0 < (held(e := held e + 1)) e'}"
    using B by (auto simp: books_def lru_defs)
  ultimately have "books ?c1 (held(e := held e + 1)) (M - {e})" using F unfolding books_def by blast
  from Unref_books [OF this, of e] obtain c' where
    u: "Unref e ?c1 = Some c'" "books c' held (M - {e})" "same_entries ?c1 c' {e'. 0 < held e' \<or> e' \<in> M - {e}}"
    "ht_list c' = ht_list c" "ht_elems c' = ht_elems c" by (auto simp: lru_defs)
  moreover have "same_entries c c' {e'. 0 < held e' \<or> e' \<in> M - {e}}"
    using u(3) h unfolding same_entries_def ho by (auto simp: lru_defs)
  ultimately show ?thesis using h by (simp add: FinishErase_def)
qed

section \<open>The operations of a shard\<close>

lemma table_ok_cong:
  assumes "\<And>e. e \<in> set (concat l) \<Longrightarrow> f e = g e"
  shows "table_ok f l n \<longleftrightarrow> table_ok g l n"
proof -
  have "f e = g e" if "b < length l" "e \<in> set (l ! b)" for b e
    by (rule assms) (use that nth_mem [OF that(1)] in auto)
  then have "buckets_ok f l \<longleftrightarrow> buckets_ok g l" by (simp add: buckets_ok_def)
  moreover have "inj_on f (set (concat l)) \<longleftrightarrow> inj_on g (set (concat l))" by (rule inj_on_cong) (rule assms)
  ultimately show ?thesis by (simp only: table_ok_def)
qed

lemma same_handle:
  assumes "same_entries c c' S" "e \<in> S"
  shows "ident c' e = ident c e" "stores c' e key hash v \<longleftrightarrow> stores c e key hash v"
proof -
  have "map_option (\<lambda>h. (h_key h, h_hash h, h_value h, h_charge h)) (handle_of c' e) =
      map_option (\<lambda>h. (h_key h, h_hash h, h_value h, h_charge h)) (handle_of c e)"
    using assms by (simp add: same_entries_def)
  then show "ident c' e = ident c e" "stores c' e key hash v \<longleftrightarrow> stores c e key hash v"
    by (cases "handle_of c' e"; cases "handle_of c e"; auto simp: ident_def stores_def)+
qed

lemma ident_unique:
  assumes "table_inv c" "e \<in> set (members c)" "ident c e = Some x"
  shows "{e'\<in>set (members c). ident c e' \<noteq> Some x} = set (members c) - {e}"
proof -
  have "inj_on (ident c) (set (members c))" using assms(1) by (simp only: table_ok_def members_def)
  from inj_onD [OF this] assms(2,3) have "e' = e" if "e' \<in> set (members c)" "ident c e' = Some x" for e'
    using that by metis
  then show ?thesis using assms(3) by blast
qed

lemma same_trans: "same_entries c c1 S1 \<Longrightarrow> same_entries c1 c2 S2 \<Longrightarrow> S \<subseteq> S1 \<Longrightarrow> S \<subseteq> S2 \<Longrightarrow> same_entries c c2 S"
  by (simp add: same_entries_def subset_iff)

lemma same_mono: "same_entries c c' S \<Longrightarrow> S' \<subseteq> S \<Longrightarrow> same_entries c c' S'"
  by (auto simp: same_entries_def)

lemma inv_after:
  assumes "table_ok (ident c) l n" "books c' held (set (concat l))" "same_entries c c' S" "set (concat l) \<subseteq> S"
    and "ht_list c' = l" "ht_elems c' = n" "capacity c = 0 \<Longrightarrow> set (concat l) = {}"
  shows "lru_inv c' held"
proof -
  have "table_ok (ident c') l n \<longleftrightarrow> table_ok (ident c) l n"
    by (rule table_ok_cong) (use same_handle(1) [OF assms(3)] assms(4) in blast)
  moreover have "capacity c' = capacity c" using assms(3) by (simp add: same_entries_def)
  ultimately show ?thesis using assms(1,2,5-7) by (simp only: lru_inv_def members_def set_empty) blast
qed

abbreviation pinned_or :: "(nat \<Rightarrow> nat) \<Rightarrow> nat set \<Rightarrow> nat set" where
  "pinned_or held M \<equiv> {e. 0 < held e \<or> e \<in> M}"

lemma lru_Lookup_spec:
  assumes I: "lru_inv c held"
  shows "(\<exists>e c'. lru_Lookup key hash c = Some (Some e, c') \<and> e \<in> set (members c) \<and> ident c e = Some (hash, key) \<and>
      lru_inv c' (held(e := held e + 1)) \<and> same_entries c c' UNIV \<and> members c' = members c) \<or>
    lru_Lookup key hash c = Some (None, c) \<and> (\<forall>e\<in>set (members c). ident c e \<noteq> Some (hash, key))"
proof -
  have T: "table_inv c" and B: "books c held (set (members c))" and Z: "capacity c = 0 \<Longrightarrow> members c = []"
    using I by (simp_all add: lru_inv_def)
  have "\<exists>c'. lru_Lookup key hash c = Some (Some e, c') \<and> lru_inv c' (held(e := held e + 1)) \<and> same_entries c c' UNIV \<and> members c' = members c"
    if e: "e \<in> set (members c)" "ht_Lookup key hash c = Some (Some e)" for e
  proof -
    from Ref_books [OF B e(1)] obtain c' where r: "Ref e c = Some c'" "books c' (held(e := held e + 1)) (set (members c))"
      "same_entries c c' UNIV" "ht_list c' = ht_list c" "ht_elems c' = ht_elems c" by blast
    then have "lru_inv c' (held(e := held e + 1))" using inv_after [OF T _ r(3)] Z by (simp add: members_def)
    then show ?thesis using r e(2) by (simp add: lru_Lookup_def members_def)
  qed
  moreover have "lru_Lookup key hash c = Some (None, c)" if "ht_Lookup key hash c = Some None" using that by (simp add: lru_Lookup_def)
  ultimately show ?thesis using ht_Lookup_spec [OF T, of hash key] by blast
qed

lemma lru_Release_spec:
  assumes I: "lru_inv c held" and e: "0 < held e"
  shows "\<exists>c'. lru_Release e c = Some c' \<and> lru_inv c' (held(e := held e - 1)) \<and>
    same_entries c c' (pinned_or (held(e := held e - 1)) (set (members c))) \<and> members c' = members c"
proof -
  have T: "table_inv c" and B: "books c held (set (members c))" and Z: "capacity c = 0 \<Longrightarrow> members c = []"
    using I by (simp_all add: lru_inv_def)
  let ?h = "held(e := held e - 1)"
  from Unref_books [of c held _ e, OF B e] obtain c' where u: "Unref e c = Some c'" "books c' ?h (set (members c))"
    "same_entries c c' (pinned_or ?h (set (members c)))" "ht_list c' = ht_list c" "ht_elems c' = ht_elems c" by blast
  have "lru_inv c' ?h" by (rule inv_after [OF T _ u(3)]) (use u Z in \<open>auto simp: members_def\<close>)
  then show ?thesis using u by (simp add: lru_Release_def members_def)
qed

lemma lru_Erase_spec:
  assumes I: "lru_inv c held"
  shows "\<exists>c'. lru_Erase key hash c = Some c' \<and> lru_inv c' held \<and> same_entries c c' (pinned_or held (set (members c'))) \<and>
    set (members c') = {e\<in>set (members c). ident c e \<noteq> Some (hash, key)}"
proof -
  have T: "table_inv c" and B: "books c held (set (members c))" and Z: "capacity c = 0 \<Longrightarrow> members c = []"
    using I by (simp_all add: lru_inv_def)
  show ?thesis
    using ht_Remove_spec [OF T, of hash key]
  proof
    assume "(\<forall>e\<in>set (members c). ident c e \<noteq> Some (hash, key)) \<and> ht_Remove key hash c = Some (None, c)"
    then show ?thesis using I by (auto simp: lru_Erase_def FinishErase_def same_entries_def)
  next
    assume "\<exists>e l. e \<in> set (members c) \<and> ident c e = Some (hash, key) \<and>
       ht_Remove key hash c = Some (Some e, c\<lparr>ht_list := l, ht_elems := ht_elems c - 1\<rparr>) \<and>
       set (concat l) = set (members c) - {e} \<and> table_ok (ident c) l (ht_elems c - 1)"
    then obtain e l where e: "e \<in> set (members c)" "ident c e = Some (hash, key)"
      "ht_Remove key hash c = Some (Some e, c\<lparr>ht_list := l, ht_elems := ht_elems c - 1\<rparr>)"
      "set (concat l) = set (members c) - {e}" "table_ok (ident c) l (ht_elems c - 1)" by blast
    let ?c = "c\<lparr>ht_list := l, ht_elems := ht_elems c - 1\<rparr>"
    have "books ?c held (set (members c))" using B by (simp add: books_def refs_ok_def charge_of_def)
    from FinishErase_books [OF this e(1)] obtain c' where f: "FinishErase (Some e) ?c = Some c'" "books c' held (set (members c) - {e})"
      "same_entries ?c c' (pinned_or held (set (members c) - {e}))" "ht_list c' = l" "ht_elems c' = ht_elems c - 1" by auto
    have same: "same_entries c c' (pinned_or held (set (members c) - {e}))" using f(3) by (simp add: same_entries_def)
    have "lru_inv c' held" by (rule inv_after [OF e(5) _ same]) (use f e(4) Z in auto)
    moreover have "set (members c') = set (members c) - {e}" using f(4) e(4) by (simp only: members_def)
    ultimately show ?thesis using f(1) e(3) same ident_unique [OF T e(1,2)] by (simp add: lru_Erase_def)
  qed
qed

lemma evict_oldest_spec:
  assumes I: "lru_inv c held" and "lru c \<noteq> []"
  shows "\<exists>c'. evict_oldest c = Some c' \<and> lru_inv c' held \<and> same_entries c c' (pinned_or held (set (members c'))) \<and>
    set (members c') = set (members c) - {hd (lru c)} \<and> hd (lru c) \<in> set (members c) \<and> held (hd (lru c)) = 0"
proof -
  let ?e = "hd (lru c)"
  have T: "table_inv c" and B: "books c held (set (members c))" and Z: "capacity c = 0 \<Longrightarrow> members c = []"
    using I by (simp_all add: lru_inv_def)
  have "?e \<in> set (lru c)" using assms(2) by simp
  then have e: "?e \<in> set (members c)" "held ?e = 0" using B by (simp_all add: books_def)
  have "refs_ok c held (set (members c))" using B by (simp add: books_def)
  from refs_okD(2) [OF this] e obtain h where h: "handle_of c ?e = Some h" by blast
  from lru_Erase_spec [OF I, of "h_key h" "h_hash h"] obtain c' where
    c': "lru_Erase (h_key h) (h_hash h) c = Some c'" "lru_inv c' held" "same_entries c c' (pinned_or held (set (members c')))"
    "set (members c') = {e\<in>set (members c). ident c e \<noteq> Some (h_hash h, h_key h)}" by blast
  have "ident c ?e = Some (h_hash h, h_key h)" using h by (simp add: ident_def)
  from ident_unique [OF T e(1) this] have "set (members c') = set (members c) - {?e}" using c'(4) by simp
  then show ?thesis using c' h e by (auto simp: evict_oldest_def lru_Erase_def)
qed

lemma evict_spec:
  assumes "lru_inv c held"
  shows "\<exists>c'. evict c = Some c' \<and> lru_inv c' held \<and> same_entries c c' (pinned_or held (set (members c'))) \<and>
    set (members c') \<subseteq> set (members c) \<and> (\<forall>e\<in>set (members c). 0 < held e \<longrightarrow> e \<in> set (members c')) \<and>
    (usage c' \<le> capacity c' \<or> lru c' = [])"
  using assms
proof (induction "card (set (members c))" arbitrary: c rule: less_induct)
  case less
  show ?case
  proof (cases "capacity c < usage c \<and> lru c \<noteq> []")
    case False
    then show ?thesis using less.prems by (subst evict.simps) (auto simp: same_entries_def)
  next
    case True
    from evict_oldest_spec [OF less.prems] True obtain c1 where
      c1: "evict_oldest c = Some c1" "lru_inv c1 held" "same_entries c c1 (pinned_or held (set (members c1)))"
      "set (members c1) = set (members c) - {hd (lru c)}" "hd (lru c) \<in> set (members c)" "held (hd (lru c)) = 0" by blast
    have "card (set (members c1)) < card (set (members c))"
      unfolding c1(4) by (rule card_Diff1_less) (use c1(5) in simp_all)
    from less.hyps [OF this c1(2)] obtain c' where c': "evict c1 = Some c'" "lru_inv c' held"
      "same_entries c1 c' (pinned_or held (set (members c')))" "set (members c') \<subseteq> set (members c1)"
      "\<forall>e\<in>set (members c1). 0 < held e \<longrightarrow> e \<in> set (members c')" "usage c' \<le> capacity c' \<or> lru c' = []" by blast
    have "same_entries c c' (pinned_or held (set (members c')))"
      by (rule same_trans [OF c1(3) c'(3)]) (use c'(4) in auto)
    moreover have "evict c = Some c'" using True c1(1) c'(1) by (subst evict.simps) simp
    moreover have "set (members c') \<subseteq> set (members c)" using c'(4) unfolding c1(4) by blast
    moreover have "e \<in> set (members c')" if "e \<in> set (members c)" "0 < held e" for e
    proof -
      have "e \<noteq> hd (lru c)" using c1(6) that(2) by force
      then have "e \<in> set (members c1)" unfolding c1(4) using that(1) by blast
      then show ?thesis using c'(5) that(2) by blast
    qed
    ultimately show ?thesis using c'(2,6) by blast
  qed
qed

lemma lru_Prune_spec:
  assumes "lru_inv c held"
  shows "\<exists>c'. lru_Prune c = Some c' \<and> lru_inv c' held \<and> same_entries c c' (pinned_or held (set (members c'))) \<and>
    set (members c') = {e\<in>set (members c). 0 < held e}"
  using assms
proof (induction "card (set (members c))" arbitrary: c rule: less_induct)
  case less
  have B: "books c held (set (members c))" using less.prems by (simp add: lru_inv_def)
  show ?case
  proof (cases "lru c = []")
    case True
    then have "\<forall>e\<in>set (members c). 0 < held e" using B by (auto simp: books_def)
    then show ?thesis using True less.prems by (subst lru_Prune.simps) (auto simp: same_entries_def)
  next
    case False
    from evict_oldest_spec [OF less.prems False] obtain c1 where
      c1: "evict_oldest c = Some c1" "lru_inv c1 held" "same_entries c c1 (pinned_or held (set (members c1)))"
      "set (members c1) = set (members c) - {hd (lru c)}" "hd (lru c) \<in> set (members c)" "held (hd (lru c)) = 0" by blast
    have "card (set (members c1)) < card (set (members c))"
      unfolding c1(4) by (rule card_Diff1_less) (use c1(5) in simp_all)
    from less.hyps [OF this c1(2)] obtain c' where c': "lru_Prune c1 = Some c'" "lru_inv c' held"
      "same_entries c1 c' (pinned_or held (set (members c')))" "set (members c') = {e\<in>set (members c1). 0 < held e}" by blast
    have "same_entries c c' (pinned_or held (set (members c')))"
      by (rule same_trans [OF c1(3) c'(3)]) (use c'(4) in auto)
    moreover have "lru_Prune c = Some c'" using False c1(1) c'(1) by (subst lru_Prune.simps) simp
    moreover have "set (members c') = {e\<in>set (members c). 0 < held e}"
      unfolding c'(4) c1(4) using c1(6) by force
    ultimately show ?thesis using c'(2) by blast
  qed
qed

text \<open>Putting a new handle into the cache, before entries are evicted.\<close>

lemma fresh_handle:
  assumes I: "lru_inv c held"
  shows "held (length (lru_heap c)) = 0" "length (lru_heap c) \<notin> set (members c)"
proof -
  have R: "refs_ok c held (set (members c))" using I by (simp add: lru_inv_def books_def)
  have "handle_of c (length (lru_heap c)) = None" by (simp add: handle_of_def)
  then show "held (length (lru_heap c)) = 0" "length (lru_heap c) \<notin> set (members c)"
    using refs_okD(2) [OF R] by (metis neq0_conv option.distinct(1))+
qed

lemma new_handle_books:
  fixes v :: 'v and n :: nat and hash :: u32 and key :: slice
  assumes I: "lru_inv c held"
  defines "e \<equiv> length (lru_heap c)"
  defines "h m r \<equiv> \<lparr>h_value = v, h_charge = n, h_in_cache = m, h_refs = r, h_hash = hash, h_key = key\<rparr>"
  defines "c1 \<equiv> c\<lparr>lru_heap := lru_heap c @ [Some (h False 1)]\<rparr>"
  defines "c3 \<equiv> (LRU_Append_in_use e (set_handle e (Some (h True 2)) c1))\<lparr>usage := usage c + n\<rparr>"
  shows "handle_of c1 = (handle_of c)(e := Some (h False 1))" "books c1 (held(e := 1)) (set (members c))"
    "handle_of c3 = (handle_of c)(e := Some (h True 2))" "books c3 (held(e := 1)) (insert e (set (members c)))"
proof -
  have B: "books c held (set (members c))" and R: "refs_ok c held (set (members c))" using I by (simp_all add: lru_inv_def books_def)
  note e = fresh_handle [OF I, folded e_def]
  show h1: "handle_of c1 = (handle_of c)(e := Some (h False 1))"
    by (auto simp: fun_eq_iff handle_of_def c1_def e_def nth_append)
  have len: "e < length (lru_heap c1)" by (simp add: c1_def e_def)
  show h3: "handle_of c3 = (handle_of c)(e := Some (h True 2))"
    unfolding fun_eq_iff c3_def by (simp add: len h1)
  have ch: "charge_of c1 e' = charge_of c e'" "charge_of c3 e' = charge_of c e'" if "e' \<in> set (members c)" for e'
    using that e(2) by (auto simp: charge_of_def h1 h3)
  have "refs_ok c1 (held(e := 1)) (set (members c))"
    by (rule refs_ok_update [OF R, of e]) (use e in \<open>simp_all add: h1 ref_ok_def h_def\<close>)
  moreover have "usage c1 = (\<Sum>e\<in>set (members c). charge_of c1 e)" using B ch(1) by (simp add: books_def c1_def)
  moreover have "lru c1 = lru c" "in_use c1 = in_use c" by (simp_all add: c1_def)
  ultimately show "books c1 (held(e := 1)) (set (members c))" using B e by (auto simp: books_def)
  have "refs_ok c3 (held(e := 1)) (insert e (set (members c)))"
    by (rule refs_ok_update [OF R, of e]) (simp_all add: h3 ref_ok_def h_def)
  moreover have "usage c3 = (\<Sum>e\<in>insert e (set (members c)). charge_of c3 e)"
  proof -
    have "charge_of c3 e = n" by (simp add: charge_of_def h3 h_def)
    moreover have "(\<Sum>e\<in>set (members c). charge_of c3 e) = usage c" using B ch(2) by (simp add: books_def)
    ultimately show ?thesis using e(2) by (simp add: c3_def)
  qed
  moreover have "lru c3 = lru c" "in_use c3 = in_use c @ [e]" by (simp_all add: c3_def c1_def lru_defs)
  ultimately show "books c3 (held(e := 1)) (insert e (set (members c)))" using B e by (auto simp: books_def)
qed

lemma put_in_table:
  assumes T: "table_inv c" and e: "ident c e = Some (hash, key)" "e \<notin> set (members c)"
    and B: "books c held (insert e (set (members c)))" and cap: "0 < capacity c"
  shows "\<exists>old c4 c5. ht_Insert e c = Some (old, c4) \<and> FinishErase old c4 = Some c5 \<and> lru_inv c5 held \<and>
    set (members c5) = insert e {e'\<in>set (members c). ident c e' \<noteq> Some (hash, key)} \<and>
    same_entries c c5 (pinned_or held (set (members c5)))"
  using ht_Insert_spec [OF T e]
proof
  assume "(\<forall>e'\<in>set (members c). ident c e' \<noteq> Some (hash, key)) \<and>
      (\<exists>l. ht_Insert e c = Some (None, c\<lparr>ht_list := l, ht_elems := ht_elems c + 1\<rparr>) \<and>
        set (concat l) = insert e (set (members c)) \<and> table_ok (ident c) l (ht_elems c + 1))"
  then obtain l where l: "\<forall>e'\<in>set (members c). ident c e' \<noteq> Some (hash, key)"
    "ht_Insert e c = Some (None, c\<lparr>ht_list := l, ht_elems := ht_elems c + 1\<rparr>)"
    "set (concat l) = insert e (set (members c))" "table_ok (ident c) l (ht_elems c + 1)" by blast
  let ?c = "c\<lparr>ht_list := l, ht_elems := ht_elems c + 1\<rparr>"
  have same: "same_entries c ?c UNIV" by (simp add: same_entries_def)
  have "books ?c held (set (concat l))" using B unfolding l(3) by (simp add: books_def refs_ok_def charge_of_def)
  from inv_after [OF l(4) this same] have "lru_inv ?c held" using cap by simp
  moreover have "set (members ?c) = insert e {e'\<in>set (members c). ident c e' \<noteq> Some (hash, key)}"
    using l(1,3) unfolding members_def lru_cache.select_convs lru_cache.update_convs by auto
  moreover have "same_entries c ?c (pinned_or held (set (members ?c)))" by (rule same_mono [OF same]) simp
  ultimately show ?thesis using l(2) unfolding FinishErase_def by fastforce
next
  assume "\<exists>old l. old \<in> set (members c) \<and> ident c old = Some (hash, key) \<and>
       ht_Insert e c = Some (Some old, c\<lparr>ht_list := l\<rparr>) \<and>
       set (concat l) = insert e (set (members c) - {old}) \<and> table_ok (ident c) l (ht_elems c)"
  then obtain old l where l: "old \<in> set (members c)" "ident c old = Some (hash, key)"
    "ht_Insert e c = Some (Some old, c\<lparr>ht_list := l\<rparr>)"
    "set (concat l) = insert e (set (members c) - {old})" "table_ok (ident c) l (ht_elems c)" by blast
  let ?c = "c\<lparr>ht_list := l\<rparr>"
  have "books ?c held (insert e (set (members c)))" using B by (simp add: books_def refs_ok_def charge_of_def)
  from FinishErase_books [OF this, of old] l(1) obtain c5 where f: "FinishErase (Some old) ?c = Some c5"
    "books c5 held (insert e (set (members c)) - {old})" "same_entries ?c c5 (pinned_or held (insert e (set (members c)) - {old}))"
    "ht_list c5 = l" "ht_elems c5 = ht_elems c" by auto
  have "old \<noteq> e" using l(1) e(2) by blast
  then have M: "insert e (set (members c)) - {old} = set (concat l)" unfolding l(4) by blast
  have "same_entries c ?c UNIV" by (simp add: same_entries_def)
  from same_trans [OF this f(3) [unfolded M]] have same: "same_entries c c5 (pinned_or held (set (concat l)))" by blast
  have "lru_inv c5 held" by (rule inv_after [OF l(5) _ same]) (use f(2,4,5) M cap in auto)
  moreover have "set (members c5) = set (concat l)" using f(4) by (simp only: members_def)
  moreover have "set (concat l) = insert e {e'\<in>set (members c). ident c e' \<noteq> Some (hash, key)}"
    unfolding l(4) ident_unique [OF T l(1,2)] ..
  ultimately show ?thesis using l(3) f(1) same by metis
qed

lemma lru_Insert_spec:
  assumes I: "lru_inv c held"
  shows "\<exists>e c'. lru_Insert key hash v n c = Some (e, c') \<and> held e = 0 \<and> e \<notin> set (members c) \<and> lru_inv c' (held(e := 1)) \<and>
    stores c' e key hash v \<and> same_entries c c' (pinned_or held (set (members c')) - {e}) \<and>
    set (members c') \<subseteq> insert e {e'\<in>set (members c). ident c e' \<noteq> Some (hash, key)} \<and>
    (0 < capacity c \<longrightarrow> e \<in> set (members c')) \<and> (usage c' \<le> capacity c' \<or> lru c' = [])"
proof -
  define e where "e = length (lru_heap c)"
  define h where "h m r = \<lparr>h_value = v, h_charge = n, h_in_cache = m, h_refs = r, h_hash = hash, h_key = key\<rparr>" for m and r :: nat
  define c1 where "c1 = c\<lparr>lru_heap := lru_heap c @ [Some (h False 1)]\<rparr>"
  define c3 where "c3 = (LRU_Append_in_use e (set_handle e (Some (h True 2)) c1))\<lparr>usage := usage c + n\<rparr>"
  note N = new_handle_books [OF I, where v = v and n = n and hash = hash and key = key, folded h_def e_def, folded c1_def, folded c3_def]
  note E = fresh_handle [OF I, folded e_def]
  have T: "table_inv c" and Z: "capacity c = 0 \<Longrightarrow> members c = []" using I by (simp_all add: lru_inv_def)
  let ?held = "held(e := 1)"
  have tab: "ht_list c1 = ht_list c" "ht_elems c1 = ht_elems c" "capacity c1 = capacity c"
    "ht_list c3 = ht_list c" "ht_elems c3 = ht_elems c" "capacity c3 = capacity c" "usage c1 = usage c"
    by (simp_all add: c1_def c3_def lru_defs)
  have mem: "members c3 = members c" by (simp add: members_def tab)
  have same: "same_entries c c1 (- {e})" "same_entries c c3 (- {e})" by (simp_all add: same_entries_def tab N(1,3))
  obtain c5 where c5: "lru_Insert key hash v n c = Option.bind (evict c5) (\<lambda>c6. Some (e, c6))" "lru_inv c5 ?held" "stores c5 e key hash v"
    "same_entries c c5 (pinned_or ?held (set (members c5)) - {e})" "0 < capacity c \<Longrightarrow> e \<in> set (members c5)"
    "set (members c5) \<subseteq> insert e {e'\<in>set (members c). ident c e' \<noteq> Some (hash, key)}" "capacity c5 = capacity c"
  proof (cases "0 < capacity c")
    case True
    have T3: "table_inv c3"
      using T unfolding tab by (rule table_ok_cong [THEN iffD1, rotated]) (use E(2) in \<open>auto simp: ident_def N(3) members_def\<close>)
    have id: "ident c3 e = Some (hash, key)" "e' \<in> set (members c) \<Longrightarrow> ident c3 e' = ident c e'" for e'
      using E(2) by (auto simp: ident_def N(3) h_def)
    from put_in_table [OF T3 id(1)] E(2) N(4) True obtain old c4 c5 where
      p: "ht_Insert e c3 = Some (old, c4)" "FinishErase old c4 = Some c5" "lru_inv c5 ?held"
      "set (members c5) = insert e {e'\<in>set (members c). ident c3 e' \<noteq> Some (hash, key)}"
      "same_entries c3 c5 (pinned_or ?held (set (members c5)))" unfolding mem tab by blast
    have "stores c3 e key hash v" by (simp add: stores_def N(3) h_def)
    then have "stores c5 e key hash v" using same_handle(2) [OF p(5)] by auto
    moreover have "same_entries c c5 (pinned_or ?held (set (members c5)) - {e})" by (rule same_trans [OF same(2) p(5)]) auto
    moreover have "lru_Insert key hash v n c = Option.bind (evict c5) (\<lambda>c6. Some (e, c6))"
      using True p(1,2) by (simp add: lru_Insert_def Let_def c3_def c1_def h_def e_def)
    moreover have "set (members c5) \<subseteq> insert e {e'\<in>set (members c). ident c e' \<noteq> Some (hash, key)}" unfolding p(4) using id(2) by auto
    moreover have "capacity c5 = capacity c" using p(5) tab by (simp add: same_entries_def)
    ultimately show ?thesis using that p(3,4) by blast
  next
    case False
    have "table_inv c1"
      using T unfolding tab by (rule table_ok_cong [THEN iffD1, rotated]) (use E(2) in \<open>auto simp: ident_def N(1) members_def\<close>)
    then have "lru_inv c1 ?held" using N(2) Z by (simp add: lru_inv_def tab members_def)
    moreover have "stores c1 e key hash v" by (simp add: stores_def N(1) h_def)
    moreover have "lru_Insert key hash v n c = Option.bind (evict c1) (\<lambda>c6. Some (e, c6))"
      using False by (simp add: lru_Insert_def Let_def c1_def h_def e_def)
    moreover have "members c1 = []" using Z False tab by (simp add: members_def)
    ultimately show ?thesis using that same_mono [OF same(1)] tab False by auto
  qed
  from evict_spec [OF c5(2)] obtain c' where c': "evict c5 = Some c'" "lru_inv c' ?held"
    "same_entries c5 c' (pinned_or ?held (set (members c')))" "set (members c') \<subseteq> set (members c5)"
    "\<forall>e'\<in>set (members c5). 0 < ?held e' \<longrightarrow> e' \<in> set (members c')" "usage c' \<le> capacity c' \<or> lru c' = []" by blast
  have "stores c' e key hash v" using same_handle(2) [OF c'(3), of e] c5(3) by auto
  moreover have "same_entries c c' (pinned_or held (set (members c')) - {e})"
    by (rule same_trans [OF c5(4) c'(3)]) (use c'(4) in auto)
  moreover have "0 < capacity c \<longrightarrow> e \<in> set (members c')" using c5(5) c'(5) by simp
  moreover have "set (members c') \<subseteq> insert e {e'\<in>set (members c). ident c e' \<noteq> Some (hash, key)}" using c'(4) c5(6) by (rule subset_trans)
  ultimately show ?thesis using c5(1) c'(1,2,6) E by auto
qed

end
