(* ===== verification/Ldb_Table.thy ===== *)
theory Ldb_Table
  imports Ldb_Format Ldb_Iterator
begin

text \<open>
  Reading a table file, \<^verbatim>\<open>leveldb-library/table/table.cc\<close>: opening it, its filter, lookups and iterators. The
  block cache is a state with three operations, which are arguments; \<open>None\<close> stands for a null pointer. Memory
  that is owned by blocks and iterators is not modelled. An operation is \<open>None\<close> when it would read
  outside of its data.
\<close>

section \<open>Iterators over a block\<close>

text \<open>The iterators that \<^verbatim>\<open>Block::NewIterator\<close> makes: moves of an empty one do nothing.\<close>

fun block_move :: "(block_iter \<Rightarrow> block_iter option) \<Rightarrow> block_iterator \<Rightarrow> block_iterator option" where
  "block_move mv (No_entries s) = Some (No_entries s)"
| "block_move mv (Entries it) = map_option Entries (mv it)"

fun entries_status :: "block_iterator \<Rightarrow> status" where
  "entries_status (No_entries s) = s"
| "entries_status (Entries it) = bi_status it"

definition block_ops :: "comparator \<Rightarrow> block_iterator iter_ops" where
  "block_ops c =
     \<lparr>it_Valid = (\<lambda>b. case b of No_entries s \<Rightarrow> False | Entries it \<Rightarrow> bi_Valid it),
      it_key = (\<lambda>b. case b of No_entries s \<Rightarrow> [] | Entries it \<Rightarrow> bi_key it),
      it_value = (\<lambda>b. case b of No_entries s \<Rightarrow> None | Entries it \<Rightarrow> value_bytes it),
      it_status = entries_status,
      it_Seek = (\<lambda>target. block_move (bi_Seek c target)),
      it_SeekToFirst = block_move bi_SeekToFirst,
      it_SeekToLast = block_move bi_SeekToLast,
      it_Next = block_move bi_Next,
      it_Prev = block_move bi_Prev\<rparr>"

section \<open>The block cache\<close>

text \<open>
  A lookup also reads the value of the handle it finds. The handle is released when the iterator over the block goes away: when that is
  is up to the cache operations. An operation is \<open>None\<close> when it would use a handle that has been freed.
\<close>

record 'c cache_ops =
  cache_NewId :: "'c \<Rightarrow> u64 \<times> 'c"
  cache_Lookup :: "slice \<Rightarrow> 'c \<Rightarrow> (block option \<times> 'c) option"
  cache_Insert :: "slice \<Rightarrow> block \<Rightarrow> nat \<Rightarrow> 'c \<Rightarrow> 'c option"

section \<open>Table\<close>

record table =
  t_options :: options
  t_file :: reader
  cache_id :: u64
  t_filter :: "(filter_policy \<times> filter_reader) option"
  t_metaindex_handle :: block_handle
  t_index_block :: block

definition ReadFilter :: "slice \<Rightarrow> table \<Rightarrow> table option" where
  "ReadFilter filter_handle_value t =
     (case bh_DecodeFrom filter_handle_value BlockHandle of
        (s, v, filter_handle) \<Rightarrow>
          if \<not> status_ok s then Some t
          else
            Option.bind (ReadBlock (t_file t) (paranoid_checks (t_options t)) filter_handle) (\<lambda>(s1, contents).
              if \<not> status_ok s1 then Some t
              else Some (t\<lparr>t_filter := map_option (\<lambda>policy. (policy, FilterBlockReader (bc_data contents)))
                             (opt_filter_policy (t_options t))\<rparr>)))"

definition ReadMeta :: "footer \<Rightarrow> table \<Rightarrow> table option" where
  "ReadMeta f t =
     (case opt_filter_policy (t_options t) of
        None \<Rightarrow> Some t
      | Some policy \<Rightarrow>
          Option.bind (ReadBlock (t_file t) (paranoid_checks (t_options t)) (metaindex_handle f)) (\<lambda>(s, contents).
            if \<not> status_ok s then Some t
            else
              let ops = block_ops BytewiseComparator;
                  key = cstr ''filter.'' @ policy_Name policy
              in
              Option.bind (it_Seek ops key (NewIterator (Block (bc_data contents)))) (\<lambda>iter.
                if it_Valid ops iter \<and> slice_eq (it_key ops iter) key then
                  Option.bind (it_value ops iter) (\<lambda>v. ReadFilter v t)
                else Some t)))"

definition Open ::
  "'c cache_ops \<Rightarrow> options \<Rightarrow> reader \<Rightarrow> u64 \<Rightarrow> 'c option \<Rightarrow> (status \<times> table option \<times> 'c option) option" where
  "Open cops opt read size_n cache =
     (if size_n < of_nat kEncodedLength then
        Some (Corruption (cstr ''file is too short to be an sstable'') [], None, cache)
      else
        Option.bind (read (size_n - of_nat kEncodedLength) (of_nat kEncodedLength)) (\<lambda>(s, footer_input, elsewhere).
        if \<not> status_ok s then Some (s, None, cache)
        else
          Option.bind (footer_DecodeFrom footer_input Footer) (\<lambda>(s1, rest, f).
          if \<not> status_ok s1 then Some (s1, None, cache)
          else
            Option.bind (ReadBlock read (paranoid_checks opt) (index_handle f)) (\<lambda>(s2, contents).
            if \<not> status_ok s2 then Some (s2, None, cache)
            else
              let (id, cache1) =
                (case cache of Some c \<Rightarrow> (case cache_NewId cops c of (i, c1) \<Rightarrow> (i, Some c1)) | None \<Rightarrow> (0, None))
              in
              Option.bind
                (ReadMeta f \<lparr>t_options = opt, t_file = read, cache_id = id, t_filter = None,
                  t_metaindex_handle = metaindex_handle f, t_index_block = Block (bc_data contents)\<rparr>)
                (\<lambda>t. Some (s2, Some t, cache1))))))"

section \<open>Blocks of a table\<close>

record read_options =
  verify_checksums :: bool
  fill_cache :: bool

definition read_block :: "table \<Rightarrow> read_options \<Rightarrow> block_handle \<Rightarrow> (status \<times> bool \<times> block option) option" where
  "read_block t ro handle =
     Option.bind (ReadBlock (t_file t) (verify_checksums ro) handle) (\<lambda>(s, contents).
       Some (s, cachable contents, if status_ok s then Some (Block (bc_data contents)) else None))"

definition BlockReader ::
  "'c cache_ops \<Rightarrow> table \<Rightarrow> read_options \<Rightarrow> slice \<Rightarrow> 'c option \<Rightarrow> (block_iterator \<times> 'c option) option" where
  "BlockReader cops t ro index_value cache =
     (case bh_DecodeFrom index_value BlockHandle of
        (s, input, handle) \<Rightarrow>
          if \<not> status_ok s then Some (No_entries s, cache)
          else
            Option.bind
              (case cache of
                 Some c \<Rightarrow>
                   let key = EncodeFixed64 (cache_id t) @ EncodeFixed64 (bh_offset handle)
                   in
                   Option.bind (cache_Lookup cops key c) (\<lambda>(cache_handle, c1).
                     case cache_handle of
                       Some block \<Rightarrow> Some (s, Some block, Some c1)
                     | None \<Rightarrow>
                         Option.bind (read_block t ro handle) (\<lambda>(s1, cach, block).
                           case block of
                             Some b \<Rightarrow>
                               if cach \<and> fill_cache ro then
                                 Option.bind (cache_Insert cops key b (blk_size b) c1) (\<lambda>c2. Some (s1, block, Some c2))
                               else Some (s1, block, Some c1)
                           | None \<Rightarrow> Some (s1, block, Some c1)))
               | None \<Rightarrow> Option.bind (read_block t ro handle) (\<lambda>(s1, cach, block). Some (s1, block, None)))
              (\<lambda>(s1, block, cache1).
                 Some (case block of Some b \<Rightarrow> NewIterator b | None \<Rightarrow> No_entries s1, cache1)))"

section \<open>Lookups\<close>

text \<open>The result has the entry for which \<^verbatim>\<open>handle_result\<close> is called, if it is.\<close>

definition InternalGet ::
  "'c cache_ops \<Rightarrow> table \<Rightarrow> read_options \<Rightarrow> slice \<Rightarrow> 'c option \<Rightarrow> (status \<times> (slice \<times> slice) option \<times> 'c option) option" where
  "InternalGet cops t ro k cache =
     (let ops = block_ops (opt_comparator (t_options t)) in
      Option.bind (it_Seek ops k (NewIterator (t_index_block t))) (\<lambda>iiter.
      Option.bind
        (if it_Valid ops iiter then
           Option.bind (it_value ops iiter) (\<lambda>handle_value.
             if (case t_filter t of
                   None \<Rightarrow> False
                 | Some (policy, fr) \<Rightarrow>
                     (case bh_DecodeFrom handle_value BlockHandle of
                        (s, rest, handle) \<Rightarrow> status_ok s \<and> \<not> reader_KeyMayMatch policy fr (bh_offset handle) k))
             then Some (OK, None, cache)
             else
               Option.bind (BlockReader cops t ro handle_value cache) (\<lambda>(biter, cache1).
               Option.bind (it_Seek ops k biter) (\<lambda>biter1.
                 if it_Valid ops biter1 then
                   Option.bind (it_value ops biter1) (\<lambda>v.
                     Some (it_status ops biter1, Some (it_key ops biter1, v), cache1))
                 else Some (it_status ops biter1, None, cache1))))
         else Some (OK, None, cache))
        (\<lambda>(s, found, cache1). Some (if status_ok s then it_status ops iiter else s, found, cache1))))"

definition ApproximateOffsetOf :: "table \<Rightarrow> slice \<Rightarrow> u64 option" where
  "ApproximateOffsetOf t key =
     (let ops = block_ops (opt_comparator (t_options t)) in
      Option.bind (it_Seek ops key (NewIterator (t_index_block t))) (\<lambda>index_iter.
        if it_Valid ops index_iter then
          Option.bind (it_value ops index_iter) (\<lambda>input.
            case bh_DecodeFrom input BlockHandle of
              (s, rest, handle) \<Rightarrow> Some (if status_ok s then bh_offset handle else bh_offset (t_metaindex_handle t)))
        else Some (bh_offset (t_metaindex_handle t))))"

section \<open>Iterators over a table\<close>

definition table_env ::
  "'c cache_ops \<Rightarrow> table \<Rightarrow> read_options \<Rightarrow> (block_iterator, block_iterator, 'c option) two_level_env" where
  "table_env cops t ro =
     \<lparr>index_ops = block_ops (opt_comparator (t_options t)), data_ops = block_ops (opt_comparator (t_options t)),
      block_function = BlockReader cops t ro\<rparr>"

definition table_NewIterator ::
  "'c cache_ops \<Rightarrow> table \<Rightarrow> read_options \<Rightarrow> (block_iterator, block_iterator) two_level" where
  "table_NewIterator cops t ro = TwoLevelIterator (table_env cops t ro) (NewIterator (t_index_block t))"

end
