(* ===== verification/Ldb_Table_Props.thy ===== *)
theory Ldb_Table_Props
  imports Ldb_Table Ldb_Table_Builder_Props Ldb_Iterator_Props
begin

text \<open>
  A table file is the sorted list it was built from: iterators over blocks and tables fulfil the contract
  \<open>list_iterator\<close>, and a lookup finds the newest visible entry of a key. The locale \<open>block_cache\<close> is what is
  needed of a cache, \<open>table_order\<close> what is needed of a comparator.
\<close>

section \<open>Blocks\<close>

definition block_at :: "comparator \<Rightarrow> (slice \<Rightarrow> bool) \<Rightarrow> entries \<Rightarrow> block_iterator \<Rightarrow> nat \<Rightarrow> bool" where
  "block_at c ok kvs b i \<longleftrightarrow>
     sorted_wrt (\<lambda>a b. Compare c a b < 0) (map fst kvs) \<and> (\<forall>kv\<in>set kvs. ok (fst kv)) \<and> i \<le> length kvs \<and>
     (\<exists>es rs it. b = Entries it \<and> block_ok es rs \<and> map snd es = kvs \<and> at_pos es rs it i)"

lemma block_shows_at: "block_at c ok kvs b i \<Longrightarrow> \<exists>it. b = Entries it \<and> block_shows it kvs i"
  using at_pos_shows by (auto simp: block_at_def)

lemma block_at_move:
  assumes "block_at c ok kvs b i" "j \<le> length kvs"
    and "\<And>es rs it. block_ok es rs \<Longrightarrow> map snd es = kvs \<Longrightarrow> at_pos es rs it i \<Longrightarrow> \<exists>it'. mv it = Some it' \<and> at_pos es rs it' j"
  shows "\<exists>b'. block_move mv b = Some b' \<and> block_at c ok kvs b' j"
proof -
  obtain es rs it where b: "b = Entries it" "block_ok es rs" "map snd es = kvs" "at_pos es rs it i"
    using assms(1) by (auto simp: block_at_def)
  from assms(3) [OF b(2-4)] obtain it' where "mv it = Some it'" "at_pos es rs it' j" by blast
  then show ?thesis using assms(1,2) b by (auto simp: block_at_def)
qed

lemma new_block_at:
  assumes "1 \<le> iv" "length (build_block iv kvs) < 2 ^ 32"
    and "sorted_wrt (\<lambda>a b. Compare c a b < 0) (map fst kvs)" "\<forall>kv\<in>set kvs. ok (fst kv)"
  shows "block_at c ok kvs (NewIterator (Block (build_block iv kvs))) (length kvs)"
proof -
  obtain es rs where es: "build_block iv kvs = block_bytes es rs" "block_ok es rs" "map snd es = kvs"
    using build_block_entries [OF assms(1,2)] .
  let ?it = "make_Iter (block_bytes es rs) (of_nat (entries_end es)) (of_nat (length rs))"
  have "length es = length kvs" using es(3) by auto
  then have "at_pos es rs ?it (length kvs)" by (simp add: at_pos_def past_end_def iter_of_def make_Iter_def)
  then show ?thesis using block_read [OF es(2)] es assms(3,4) by (auto simp: block_at_def)
qed

lemma at_pos_valid: "at_pos es rs it i \<Longrightarrow> i < length es \<Longrightarrow> at_entry es rs it i"
  by (simp add: at_pos_def)

sublocale block_order \<subseteq> blocks: list_iterator "block_ops c" c ok "block_at c ok"
proof
  fix kvs b i
  assume at: "block_at c ok kvs b i"
  then obtain it where it: "b = Entries it" "block_shows it kvs i" using block_shows_at by blast
  have sorted: "sorted_wrt (\<lambda>a b. Compare c a b < 0) (map fst kvs)" using at by (simp add: block_at_def)
  have le: "first_not_less c t (map fst kvs) \<le> length kvs" for t
    using length_takeWhile_le [of _ "map fst kvs"] by simp
  have ok_es: "\<forall>e\<in>set es. ok (e_key e)" "map e_key es = map fst kvs" if es: "map snd es = kvs" for es
  proof -
    have "snd ` set es = set kvs" using es by (metis set_map)
    then show "\<forall>e\<in>set es. ok (e_key e)" "map e_key es = map fst kvs" using at es by (auto simp: block_at_def)
  qed
  show "it_Valid (block_ops c) b = (i < length kvs)" using it by (simp add: block_ops_def block_shows_def split: if_splits)
  show "i \<le> length kvs" using at by (simp add: block_at_def)
  show "it_key (block_ops c) b = fst (kvs ! i) \<and> it_value (block_ops c) b = Some (snd (kvs ! i))" if "i < length kvs"
    using it that by (simp add: block_ops_def block_shows_def)
  show "it_status (block_ops c) b = OK" using it by (simp add: block_ops_def block_shows_def)
  show "\<exists>b'. it_Seek (block_ops c) t b = Some b' \<and> block_at c ok kvs b' (first_not_less c t (map fst kvs))" if t: "ok t" for t
    unfolding block_ops_def iter_ops.select_convs
  proof (rule block_at_move [OF at le])
    fix es rs it
    assume e: "block_ok es rs" "map snd es = kvs" "at_pos es rs it i"
    have len: "length es = length kvs" using e(2) by auto
    show "\<exists>it'. bi_Seek c t it = Some it' \<and> at_pos es rs it' (first_not_less c t (map fst kvs))"
      using Seek_pos [OF e(1) at_pos_iter [OF e(3)] _ ok_es(1) [OF e(2)] t] sorted ok_es(2) [OF e(2)] by simp
  qed
  show "\<exists>b'. it_SeekToFirst (block_ops c) b = Some b' \<and> block_at c ok kvs b' 0"
    unfolding block_ops_def iter_ops.select_convs
  proof (rule block_at_move [OF at])
    fix es rs it
    assume e: "block_ok es rs" "map snd es = kvs" "at_pos es rs it i"
    have len: "length es = length kvs" using e(2) by auto
    show "\<exists>it'. bi_SeekToFirst it = Some it' \<and> at_pos es rs it' 0"
      using SeekToFirst_pos [OF e(1) at_pos_iter [OF e(3)]] .
  qed simp
  show "\<exists>b'. it_SeekToLast (block_ops c) b = Some b' \<and> block_at c ok kvs b' (length kvs - 1)"
    unfolding block_ops_def iter_ops.select_convs
  proof (rule block_at_move [OF at])
    fix es rs it
    assume e: "block_ok es rs" "map snd es = kvs" "at_pos es rs it i"
    have len: "length es = length kvs" using e(2) by auto
    show "\<exists>it'. bi_SeekToLast it = Some it' \<and> at_pos es rs it' (length kvs - 1)"
      using SeekToLast_pos [OF e(1) at_pos_iter [OF e(3)]] len by simp
  qed simp
  show "\<exists>b'. it_Next (block_ops c) b = Some b' \<and> block_at c ok kvs b' (Suc i)" if i: "i < length kvs"
    unfolding block_ops_def iter_ops.select_convs
  proof (rule block_at_move [OF at])
    fix es rs it
    assume e: "block_ok es rs" "map snd es = kvs" "at_pos es rs it i"
    have len: "length es = length kvs" using e(2) by auto
    show "\<exists>it'. bi_Next it = Some it' \<and> at_pos es rs it' (Suc i)"
      using Next_pos [OF e(1) at_pos_valid [OF e(3)]] i len by simp
  qed (use i in simp)
  show "\<exists>b'. it_Prev (block_ops c) b = Some b' \<and> block_at c ok kvs b' (if i = 0 then length kvs else i - 1)" if i: "i < length kvs"
    unfolding block_ops_def iter_ops.select_convs
  proof (rule block_at_move [OF at])
    fix es rs it
    assume e: "block_ok es rs" "map snd es = kvs" "at_pos es rs it i"
    have len: "length es = length kvs" using e(2) by auto
    show "\<exists>it'. bi_Prev it = Some it' \<and> at_pos es rs it' (if i = 0 then length kvs else i - 1)"
      using Prev_pos [OF e(1) at_pos_valid [OF e(3)]] i len by (cases "i = 0") auto
  qed (use i in auto)
qed

sublocale block_order \<subseteq> two: two_level_iterator c ok "block_ops c" "block_ops c" "block_at c ok" "block_at c ok" ..

section \<open>The index separates the blocks\<close>

locale table_order =
  key_separator "Compare c" ok "FindShortestSeparator c" "FindShortSuccessor c" for c :: comparator and ok :: "slice \<Rightarrow> bool"

sublocale table_order \<subseteq> block_order c ok ..

sublocale user_comparator \<subseteq> user_table: table_order user "\<lambda>_. True" ..

sublocale user_comparator \<subseteq> internal_table: table_order "InternalKeyComparator user" "\<lambda>k. 8 \<le> length k"
  using internal.key_separator_axioms by (simp add: table_order_def)

lemma block_key_order:
  assumes "sorted_wrt R (concat bs)" "i < j" "j < length bs" "x \<in> set (bs ! i)" "y \<in> set (bs ! j)"
  shows "R x y"
proof -
  have "concat bs = concat (take j bs) @ bs ! j @ concat (drop (Suc j) bs)"
    by (subst id_take_nth_drop [OF assms(3)]) (simp only: concat_append concat.simps)
  moreover have "x \<in> set (concat (take j bs))"
    using assms(2-4) by (auto simp: in_set_conv_nth [of "bs ! i" "take j bs"] intro!: bexI [of _ "bs ! i"] exI [of _ i])
  ultimately show ?thesis using assms(1,5) by (auto simp: sorted_wrt_append)
qed

lemma block_sorted: "sorted_wrt R (concat bs) \<Longrightarrow> i < length bs \<Longrightarrow> sorted_wrt R (bs ! i)"
  by (metis concat_append concat.simps(2) id_take_nth_drop sorted_wrt_append)

lemma sorted_hd_last:
  assumes "sorted_wrt R xs" "x \<in> set xs"
  shows "x = last xs \<or> R x (last xs)" "x = hd xs \<or> R (hd xs) x"
proof -
  show "x = last xs \<or> R x (last xs)"
    using assms by (cases xs rule: rev_cases) (auto simp: sorted_wrt_append)
  show "x = hd xs \<or> R (hd xs) x" using assms by (cases xs) auto
qed

definition entries_fit :: "comparator \<Rightarrow> (slice \<Rightarrow> bool) \<Rightarrow> entries \<Rightarrow> bool" where
  "entries_fit c ok kvs \<longleftrightarrow> sorted_wrt (\<lambda>a b. Compare c (fst a) (fst b) < 0) kvs \<and> (\<forall>kv\<in>set kvs. ok (fst kv))"

context table_order
begin

lemma sep_after_bounds:
  assumes "entries_fit c ok (concat bs)" "[] \<notin> set bs" "i < length bs"
  shows "ok (sep_after c bs i)" "kv \<in> set (bs ! i) \<Longrightarrow> Compare c (fst kv) (sep_after c bs i) \<le> 0"
    "Suc i < length bs \<Longrightarrow> kv' \<in> set (bs ! Suc i) \<Longrightarrow> Compare c (sep_after c bs i) (fst kv') < 0"
proof -
  have okb: "ok (fst kv)" if "j < length bs" "kv \<in> set (bs ! j)" for j kv
    using assms(1) that nth_mem by (fastforce simp: entries_fit_def)
  have srt: "sorted_wrt (\<lambda>a b. Compare c (fst a) (fst b) < 0) (concat bs)" using assms(1) by (simp add: entries_fit_def)
  have ne: "bs ! j \<noteq> []" if "j < length bs" for j using assms(2) that by (metis nth_mem)
  let ?a = "fst (last (bs ! i))"
  have a: "ok ?a" using okb [OF assms(3)] ne [OF assms(3)] by simp
  have up: "ok (sep_after c bs i) \<and> Compare c ?a (sep_after c bs i) \<le> 0 \<and>
      (Suc i < length bs \<longrightarrow> Compare c (sep_after c bs i) (fst (hd (bs ! Suc i))) < 0)"
  proof (cases "Suc i < length bs")
    case True
    have "Compare c ?a (fst (hd (bs ! Suc i))) < 0"
      by (rule block_key_order [OF srt, of i "Suc i"]) (use True ne assms(3) in auto)
    moreover have "ok (fst (hd (bs ! Suc i)))" using okb [OF True] ne [OF True] by simp
    ultimately show ?thesis using sep_between [OF a] True by (simp add: sep_after_def)
  next
    case False
    then show ?thesis using succ_above [OF a] by (simp add: sep_after_def)
  qed
  then show "ok (sep_after c bs i)" by blast
  show "Compare c (fst kv) (sep_after c bs i) \<le> 0" if kv: "kv \<in> set (bs ! i)"
  proof -
    have "kv = last (bs ! i) \<or> Compare c (fst kv) ?a < 0"
      using sorted_hd_last(1) [OF block_sorted [OF srt assms(3)] kv] .
    then show ?thesis using up a okb [OF assms(3) kv] cmp_trans [of "fst kv" ?a "sep_after c bs i"] by auto
  qed
  show "Compare c (sep_after c bs i) (fst kv') < 0" if "Suc i < length bs" and kv: "kv' \<in> set (bs ! Suc i)"
  proof -
    let ?h = "fst (hd (bs ! Suc i))"
    have "kv' = hd (bs ! Suc i) \<or> Compare c ?h (fst kv') < 0"
      using sorted_hd_last(2) [OF block_sorted [OF srt that(1)] kv] .
    moreover have "ok ?h" using okb [OF that(1)] ne [OF that(1)] by simp
    ultimately show ?thesis
      using up that(1) okb [OF that(1) kv] cmp_less_le [of "sep_after c bs i" ?h "fst kv'"] by auto
  qed
qed

lemma seps_separated:
  assumes "entries_fit c ok (concat bs)" "[] \<notin> set bs"
  shows "separated c ok (map (sep_after c bs) [0..<length bs]) bs"
proof -
  note B = sep_after_bounds [OF assms]
  have "Compare c (sep_after c bs i) (sep_after c bs j) < 0" if "i < j" "j < length bs" for i j
  proof -
    have i: "Suc i < length bs" using that by simp
    have mem: "bs ! j \<in> set bs" "bs ! Suc i \<in> set bs" using that i by simp_all
    then have j: "bs ! j \<noteq> []" "bs ! Suc i \<noteq> []" using assms(2) by auto
    have srt: "sorted_wrt (\<lambda>a b. Compare c (fst a) (fst b) < 0) (concat bs)" using assms(1) by (simp add: entries_fit_def)
    let ?x = "fst (hd (bs ! Suc i))" and ?y = "fst (hd (bs ! j))"
    have "?x = ?y \<or> Compare c ?x ?y < 0"
      using block_key_order [OF srt, of "Suc i" j "hd (bs ! Suc i)" "hd (bs ! j)"] that j by (cases "Suc i = j") auto
    moreover have "hd (bs ! Suc i) \<in> set (concat bs)" "hd (bs ! j) \<in> set (concat bs)"
      using mem hd_in_set [OF j(1)] hd_in_set [OF j(2)] unfolding set_concat by blast+
    then have "ok ?x" "ok ?y" using assms(1) unfolding entries_fit_def by blast+
    moreover have "Compare c (sep_after c bs i) ?x < 0" using B(3) [of i "hd (bs ! Suc i)"] that j by simp
    moreover have "Compare c ?y (sep_after c bs j) \<le> 0" using B(2) [of j "hd (bs ! j)"] that j by simp
    moreover have "ok (sep_after c bs i)" "ok (sep_after c bs j)" using B(1) that by simp_all
    ultimately show ?thesis
      using cmp_less_le [of "sep_after c bs i" ?x ?y] cmp_less_le [of "sep_after c bs i" ?y "sep_after c bs j"] by fastforce
  qed
  then have "sorted_wrt (\<lambda>a b. Compare c a b < 0) (map (sep_after c bs) [0..<length bs])"
    by (simp add: sorted_wrt_iff_nth_less)
  then show ?thesis
    using assms B by (auto simp: separated_def entries_fit_def sorted_wrt_map)
qed

end

section \<open>The layout of the file\<close>

lemma file_parts:
  "table_bytes opt bs = data_bytes (block_restart_interval opt) bs @ filter_bytes_of opt bs @
     stored_block kNoCompression (meta_block opt bs) @ stored_block kNoCompression (index_block_of opt bs) @
     footer_EncodeTo (footer_of opt bs) []"
  by (simp add: table_bytes_def before_index_def before_meta_def)

lemma data_block_split:
  assumes "i < length bs"
  shows "data_bytes iv bs = data_bytes iv (take i bs) @ stored_block kNoCompression (build_block iv (bs ! i)) @ data_bytes iv (drop (Suc i) bs)"
  unfolding data_bytes_def by (subst id_take_nth_drop [OF assms]) simp

lemma block_length_bound:
  assumes "i < length bs"
  shows "length (data_bytes iv (take i bs)) + length (build_block iv (bs ! i)) < length (data_bytes iv bs)"
  unfolding data_block_split [OF assms, of iv] by (simp add: kBlockTrailerSize_def)

lemma file_length:
  "length (data_bytes (block_restart_interval opt) bs) \<le> length (table_bytes opt bs)"
  "length (index_block_of opt bs) < length (table_bytes opt bs)" "length (meta_block opt bs) < length (table_bytes opt bs)"
  by (simp_all add: file_parts kBlockTrailerSize_def)

lemma index_entries_sel:
  "map fst (index_entries c iv bs n) = map (sep_after c bs) [0..<n]" "length (index_entries c iv bs n) = n"
  "i < n \<Longrightarrow> snd (index_entries c iv bs n ! i) = bh_EncodeTo (handle_at iv bs i) []"
  by (simp_all add: index_entries_def comp_def)

lemma handle_at_inj:
  assumes "i < length bs" "j < length bs" "i \<noteq> j" "length (data_bytes iv bs) < 2 ^ 64"
  shows "bh_offset (handle_at iv bs i) \<noteq> bh_offset (handle_at iv bs j)"
proof -
  have mono: "length (data_bytes iv (take i bs)) < length (data_bytes iv (take j bs))" if "i < j" "j < length bs" for i j
  proof -
    have "i < length (take j bs)" using that by simp
    from block_length_bound [OF this, of iv] show ?thesis using that by (simp add: min_def)
  qed
  have "length (data_bytes iv (take i bs)) < 2 ^ 64" "length (data_bytes iv (take j bs)) < 2 ^ 64"
    using block_length_bound [OF assms(1), of iv] block_length_bound [OF assms(2), of iv] assms(4) by linarith+
  then have "unat (of_nat (length (data_bytes iv (take i bs))) :: u64) \<noteq> unat (of_nat (length (data_bytes iv (take j bs))) :: u64)"
    using mono [of i j] mono [of j i] assms(1-3) by (simp add: unat_of_nat_u64) linarith
  then show ?thesis by (auto simp: handle_at_def)
qed

lemma handles_distinct:
  assumes "length (data_bytes iv bs) < 2 ^ 64"
  shows "distinct (map snd (index_entries c iv bs (length bs)))"
proof -
  have "handle_at iv bs i = handle_at iv bs j" if "bh_EncodeTo (handle_at iv bs i) [] = bh_EncodeTo (handle_at iv bs j) []" for i j
    using handle.enc_inj [of "handle_at iv bs i" "[]" "handle_at iv bs j" "[]"] that by simp
  then show ?thesis
    using handle_at_inj [OF _ _ _ assms]
    by (simp add: distinct_conv_nth index_entries_sel) metis
qed

section \<open>Reading blocks\<close>

text \<open>What a table relies on in a cache: it holds nothing but what was put in. \<open>P\<close> tells what may be put in.\<close>

locale block_cache =
  fixes cops :: "'c cache_ops" and cache_inv :: "(slice \<Rightarrow> block \<Rightarrow> bool) \<Rightarrow> 'c \<Rightarrow> bool"
  assumes lookup_inv: "cache_inv P c \<Longrightarrow> \<exists>r c'. cache_Lookup cops k c = Some (r, c') \<and> cache_inv P c' \<and> (\<forall>b. r = Some b \<longrightarrow> P k b)"
    and insert_inv: "cache_inv P c \<Longrightarrow> P k b \<Longrightarrow> \<exists>c'. cache_Insert cops k b n c = Some c' \<and> cache_inv P c'"
    and newid_inv: "cache_inv P c \<Longrightarrow> cache_inv P (snd (cache_NewId cops c))"
    and inv_mono: "cache_inv P c \<Longrightarrow> (\<And>k b. P k b \<Longrightarrow> Q k b) \<Longrightarrow> cache_inv Q c"

definition cache_holds :: "((slice \<Rightarrow> block \<Rightarrow> bool) \<Rightarrow> 'c \<Rightarrow> bool) \<Rightarrow> (slice \<Rightarrow> block \<Rightarrow> bool) \<Rightarrow> 'c option \<Rightarrow> bool" where
  "cache_holds cache_inv P cache \<longleftrightarrow> (\<forall>c. cache = Some c \<longrightarrow> cache_inv P c)"

definition table_of :: "options \<Rightarrow> entries list \<Rightarrow> reader \<Rightarrow> u64 \<Rightarrow> table" where
  "table_of opt bs read cid =
     \<lparr>t_options = opt, t_file = read, cache_id = cid,
      t_filter = map_option (\<lambda>p. (p, FilterBlockReader (build_filter p (filter_list (block_restart_interval opt) bs []))))
        (opt_filter_policy opt),
      t_metaindex_handle = metaindex_handle (footer_of opt bs), t_index_block = Block (index_block_of opt bs)\<rparr>"

text \<open>The blocks that may be cached for a table.\<close>

definition cached_ok :: "u64 \<Rightarrow> int \<Rightarrow> entries list \<Rightarrow> slice \<Rightarrow> block \<Rightarrow> bool" where
  "cached_ok cid iv bs k b \<longleftrightarrow>
     (\<forall>i<length bs. k = EncodeFixed64 cid @ EncodeFixed64 (bh_offset (handle_at iv bs i)) \<longrightarrow> b = Block (build_block iv (bs ! i)))"

text \<open>A cache may be shared: \<open>P\<close> allows the blocks of this table under their keys, and nothing else under these.\<close>

definition caches :: "(slice \<Rightarrow> block \<Rightarrow> bool) \<Rightarrow> u64 \<Rightarrow> int \<Rightarrow> entries list \<Rightarrow> bool" where
  "caches P cid iv bs \<longleftrightarrow> (\<forall>k b. P k b \<longrightarrow> cached_ok cid iv bs k b) \<and>
     (\<forall>i<length bs. P (EncodeFixed64 cid @ EncodeFixed64 (bh_offset (handle_at iv bs i))) (Block (build_block iv (bs ! i))))"

lemma EncodeFixed64_inj: "EncodeFixed64 a = EncodeFixed64 b \<longleftrightarrow> a = b"
  by (metis DecodeFixed_exact(2))

lemma caches_own:
  assumes "length (data_bytes iv bs) < 2 ^ 64"
  shows "caches (cached_ok cid iv bs) cid iv bs"
  using handle_at_inj [OF _ _ _ assms] by (auto simp: caches_def cached_ok_def EncodeFixed64_inj)

lemma read_data_block:
  assumes "random_file read (table_bytes opt bs)" "length (table_bytes opt bs) < 2 ^ 32" "i < length bs"
  shows "\<exists>bc. ReadBlock read verify (handle_at (block_restart_interval opt) bs i) = Some (OK, bc) \<and>
    bc_data bc = build_block (block_restart_interval opt) (bs ! i)"
proof -
  let ?iv = "block_restart_interval opt"
  have "table_bytes opt bs = data_bytes ?iv (take i bs) @ stored_block kNoCompression (build_block ?iv (bs ! i)) @
      data_bytes ?iv (drop (Suc i) bs) @ filter_bytes_of opt bs @ stored_block kNoCompression (meta_block opt bs) @
      stored_block kNoCompression (index_block_of opt bs) @ footer_EncodeTo (footer_of opt bs) []"
    unfolding file_parts data_block_split [OF assms(3), of ?iv] by simp
  from random_file.ReadBlock_stored [OF assms(1) this] assms(2) show ?thesis by (simp add: handle_at_def)
qed

context block_cache
begin

lemma BlockReader_block:
  assumes "random_file read (table_bytes opt bs)" "length (table_bytes opt bs) < 2 ^ 32" "i < length bs"
    and inv: "cache_holds cache_inv P cache" and t: "t_file t = read" "t_options t = opt"
    and may: "caches P (cache_id t) (block_restart_interval opt) bs"
  shows "\<exists>cache'. BlockReader cops t ro (bh_EncodeTo (handle_at (block_restart_interval opt) bs i) []) cache =
      Some (NewIterator (Block (build_block (block_restart_interval opt) (bs ! i))), cache') \<and>
    cache_holds cache_inv P cache'"
proof -
  let ?iv = "block_restart_interval opt"
  let ?h = "handle_at ?iv bs i" and ?b = "Block (build_block ?iv (bs ! i))"
  let ?key = "EncodeFixed64 (cache_id t) @ EncodeFixed64 (bh_offset ?h)"
  obtain bc where bc: "ReadBlock read (verify_checksums ro) ?h = Some (OK, bc)" "bc_data bc = build_block ?iv (bs ! i)"
    using read_data_block [OF assms(1-3)] by blast
  have rb: "read_block t ro ?h = Some (OK, cachable bc, Some ?b)" using bc t by (simp add: read_block_def)
  have dec: "bh_DecodeFrom (bh_EncodeTo ?h []) BlockHandle = (OK, [], ?h)" using bh_roundtrip [of ?h "[]"] by simp
  have own: "P ?key ?b" and only: "\<And>b. P ?key b \<Longrightarrow> b = ?b" using may assms(3) by (auto simp: caches_def cached_ok_def)
  show ?thesis
  proof (cases cache)
    case None
    then show ?thesis using rb dec by (simp add: BlockReader_def cache_holds_def)
  next
    case (Some c)
    then have ci: "cache_inv P c" using inv by (simp add: cache_holds_def)
    from lookup_inv [OF ci] obtain r c1 where l: "cache_Lookup cops ?key c = Some (r, c1)"
      and L: "cache_inv P c1" "\<And>b. r = Some b \<Longrightarrow> P ?key b" by blast
    show ?thesis
    proof (cases r)
      case None
      from insert_inv [OF L(1) own] obtain c2 where
        "cache_Insert cops ?key ?b (blk_size ?b) c1 = Some c2" "cache_inv P c2" by blast
      then show ?thesis
        using Some rb dec l L None by (auto simp: BlockReader_def cache_holds_def Let_def)
    next
      case (Some b)
      then have "b = ?b" using L only by blast
      then show ?thesis using \<open>cache = Some c\<close> Some dec l L by (simp add: BlockReader_def cache_holds_def Let_def)
    qed
  qed
qed

end

section \<open>Opening\<close>

lemma stored_in_file:
  assumes "random_file read content" "content = pre @ stored_block kNoCompression x @ post" "length content < 2 ^ 32"
  shows "\<exists>bc. ReadBlock read verify \<lparr>bh_offset = of_nat (length pre), bh_size = of_nat (length x)\<rparr> = Some (OK, bc) \<and> bc_data bc = x"
  using random_file.ReadBlock_stored [OF assms(1,2)] assms(3) by simp

lemma ReadFilter_table:
  assumes "random_file read (table_bytes opt bs)" "length (table_bytes opt bs) < 2 ^ 32" "opt_filter_policy opt = Some p"
    and "t_file t = read" "t_options t = opt"
  shows "ReadFilter (snd (meta_entries opt bs ! 0)) t =
    Some (t\<lparr>t_filter := Some (p, FilterBlockReader (build_filter p (filter_list (block_restart_interval opt) bs [])))\<rparr>)"
proof -
  let ?iv = "block_restart_interval opt"
  let ?f = "build_filter p (filter_list ?iv bs [])"
  let ?h = "\<lparr>bh_offset = of_nat (length (data_bytes ?iv bs)), bh_size = of_nat (length ?f)\<rparr>"
  have "table_bytes opt bs = data_bytes ?iv bs @ stored_block kNoCompression ?f @ stored_block kNoCompression (meta_block opt bs) @
      stored_block kNoCompression (index_block_of opt bs) @ footer_EncodeTo (footer_of opt bs) []"
    using assms(3) by (simp add: file_parts filter_bytes_of_def)
  from stored_in_file [OF assms(1) this assms(2)] obtain bc where
    "ReadBlock read (paranoid_checks opt) ?h = Some (OK, bc)" "bc_data bc = ?f" by blast
  moreover have "bh_DecodeFrom (snd (meta_entries opt bs ! 0)) BlockHandle = (OK, [], ?h)"
    using bh_roundtrip [of ?h "[]"] assms(3) by (simp add: meta_entries_def Let_def)
  ultimately show ?thesis using assms(3-5) by (simp add: ReadFilter_def)
qed

lemma ReadMeta_table:
  assumes "random_file read (table_bytes opt bs)" "length (table_bytes opt bs) < 2 ^ 32" "1 \<le> block_restart_interval opt"
    and "t_file t = read" "t_options t = opt" "t_filter t = None"
  shows "ReadMeta (footer_of opt bs) t =
    Some (t\<lparr>t_filter := map_option (\<lambda>p. (p, FilterBlockReader (build_filter p (filter_list (block_restart_interval opt) bs []))))
      (opt_filter_policy opt)\<rparr>)"
proof (cases "opt_filter_policy opt")
  case None
  then show ?thesis using assms(5,6) by (simp add: ReadMeta_def)
next
  case (Some p)
  let ?key = "cstr ''filter.'' @ policy_Name p" and ?kvs = "meta_entries opt bs"
  have kvs: "?kvs = [(?key, snd (?kvs ! 0))]" using Some by (simp add: meta_entries_def Let_def)
  have "table_bytes opt bs = before_meta opt bs @ stored_block kNoCompression (meta_block opt bs) @
      stored_block kNoCompression (index_block_of opt bs) @ footer_EncodeTo (footer_of opt bs) []"
    by (simp add: table_bytes_def before_index_def)
  from stored_in_file [OF assms(1) this assms(2)] obtain bc where
    bc: "ReadBlock read (paranoid_checks opt) (metaindex_handle (footer_of opt bs)) = Some (OK, bc)" "bc_data bc = meta_block opt bs"
    by (auto simp: footer_of_def)
  have "length (meta_block opt bs) < 2 ^ 32" using file_length(3) [of opt bs] assms(2) by linarith
  then have "block_at BytewiseComparator (\<lambda>_. True) ?kvs (NewIterator (Block (meta_block opt bs))) (length ?kvs)"
    unfolding meta_block_def by (rule new_block_at [OF assms(3)]) (subst kvs, simp)+
  from bytewise.user_block.blocks.at_seek [OF this] obtain it where
    it: "it_Seek (block_ops BytewiseComparator) ?key (NewIterator (Block (meta_block opt bs))) = Some it"
    "block_at BytewiseComparator (\<lambda>_. True) ?kvs it (first_not_less BytewiseComparator ?key (map fst ?kvs))" by blast
  have "first_not_less BytewiseComparator ?key (map fst ?kvs) = 0"
    by (subst kvs) (simp add: bytewise.cmp_self [simplified])
  then have at: "block_at BytewiseComparator (\<lambda>_. True) ?kvs it 0" "0 < length ?kvs" using it(2) kvs by (simp, metis length_greater_0_conv list.distinct(1))
  have "it_Valid (block_ops BytewiseComparator) it" "it_key (block_ops BytewiseComparator) it = ?key"
    "it_value (block_ops BytewiseComparator) it = Some (snd (?kvs ! 0))"
    using bytewise.user_block.blocks.at_valid [OF at(1)] bytewise.user_block.blocks.at_entry [OF at] at(2) kvs
    by (simp, metis fst_conv nth_Cons_0, simp)
  then show ?thesis
    using it(1) bc ReadFilter_table [OF assms(1,2) Some assms(4,5)] assms(4,5) Some
    by (simp add: ReadMeta_def Let_def slice_eq_iff)
qed

text \<open>The number that a table gets from its cache.\<close>

definition next_id :: "'c cache_ops \<Rightarrow> 'c option \<Rightarrow> u64 \<times> 'c option" where
  "next_id cops cache = (case cache of Some c \<Rightarrow> (case cache_NewId cops c of (i, c1) \<Rightarrow> (i, Some c1)) | None \<Rightarrow> (0, None))"

lemma Open_table:
  assumes "random_file read (table_bytes opt bs)" "length (table_bytes opt bs) < 2 ^ 32" "1 \<le> block_restart_interval opt"
    and "next_id cops cache = (cid, cache1)"
  shows "Open cops opt read (of_nat (length (table_bytes opt bs))) cache = Some (OK, Some (table_of opt bs read cid), cache1)"
proof -
  let ?f = "footer_EncodeTo (footer_of opt bs) []" and ?n = "length (table_bytes opt bs)"
  let ?pre = "before_index opt bs @ stored_block kNoCompression (index_block_of opt bs)"
  have content: "table_bytes opt bs = ?pre @ ?f" by (simp add: table_bytes_def)
  have len: "?n = length ?pre + 48" unfolding content using length_footer [of "footer_of opt bs"] by (simp add: kEncodedLength_def kMaxEncodedLength_def)
  have "(of_nat ?n :: u64) - 48 = of_nat (length ?pre)"
    unfolding len by (simp only: of_nat_add of_nat_numeral add_diff_cancel_right')
  moreover have "length ?pre < 2 ^ 64" "?n < 2 ^ 64" using len assms(2) by simp_all
  ultimately have size: "\<not> (of_nat ?n :: u64) < 48" "unat ((of_nat ?n :: u64) - 48) = length ?pre"
    using len by (simp_all only: word_less_nat_alt unat_of_nat_u64) simp
  obtain e where rd: "read (of_nat ?n - 48) 48 = Some (OK, ?f, e)"
    using random_file.read_inside [OF assms(1), of "of_nat ?n - 48" 48] len size(2) length_footer [of "footer_of opt bs"]
    unfolding content by (auto simp: kEncodedLength_def kMaxEncodedLength_def)
  have dec: "footer_DecodeFrom ?f Footer = Some (OK, [], footer_of opt bs)" using footer_roundtrip [of "footer_of opt bs" "[]"] by simp
  have "table_bytes opt bs = before_index opt bs @ stored_block kNoCompression (index_block_of opt bs) @ ?f" by (simp add: table_bytes_def)
  from stored_in_file [OF assms(1) this assms(2)] obtain bc where
    bc: "ReadBlock read (paranoid_checks opt) (index_handle (footer_of opt bs)) = Some (OK, bc)" "bc_data bc = index_block_of opt bs"
    by (auto simp: footer_of_def)
  let ?t = "\<lparr>t_options = opt, t_file = read, cache_id = cid, t_filter = None,
    t_metaindex_handle = metaindex_handle (footer_of opt bs), t_index_block = Block (index_block_of opt bs)\<rparr>"
  have "ReadMeta (footer_of opt bs) ?t = Some (table_of opt bs read cid)"
    using ReadMeta_table [OF assms(1-3), of ?t] by (simp add: table_of_def)
  then show ?thesis
    using size(1) rd dec bc assms(4)
    by (simp add: Open_def kEncodedLength_def kMaxEncodedLength_def next_id_def)
qed

section \<open>Iterating and looking up\<close>

abbreviation index_of :: "options \<Rightarrow> entries list \<Rightarrow> entries" where
  "index_of opt bs \<equiv> index_entries (opt_comparator opt) (block_restart_interval opt) bs (length bs)"

definition file_ok :: "comparator \<Rightarrow> (slice \<Rightarrow> bool) \<Rightarrow> options \<Rightarrow> entries list \<Rightarrow> reader \<Rightarrow> bool" where
  "file_ok c ok opt bs read \<longleftrightarrow> random_file read (table_bytes opt bs) \<and> length (table_bytes opt bs) < 2 ^ 32 \<and>
     1 \<le> block_restart_interval opt \<and> opt_comparator opt = c \<and> entries_fit c ok (concat bs) \<and> [] \<notin> set bs"

context table_order
begin

lemma index_at:
  assumes "file_ok c ok opt bs read"
  shows "block_at c ok (index_of opt bs) (NewIterator (Block (index_block_of opt bs))) (length bs)"
proof -
  have F: "length (table_bytes opt bs) < 2 ^ 32" "opt_comparator opt = c" "entries_fit c ok (concat bs)" "[] \<notin> set bs"
    using assms by (simp_all add: file_ok_def)
  have "separated c ok (map fst (index_of opt bs)) bs"
    using seps_separated [OF F(3,4)] F(2) by (simp add: index_entries_sel)
  moreover have "length (index_block_of opt bs) < 2 ^ 32" using file_length(2) [of opt bs] F(1) by linarith
  ultimately show ?thesis
    using new_block_at [of 1 "index_of opt bs" c ok] by (auto simp: index_block_of_def separated_def index_entries_sel(2))
qed

lemma block_i_at:
  assumes "file_ok c ok opt bs read" "i < length bs"
  shows "block_at c ok (bs ! i) (NewIterator (Block (build_block (block_restart_interval opt) (bs ! i)))) (length (bs ! i))"
proof -
  have F: "length (table_bytes opt bs) < 2 ^ 32" "1 \<le> block_restart_interval opt" "entries_fit c ok (concat bs)"
    using assms by (simp_all add: file_ok_def)
  have "length (build_block (block_restart_interval opt) (bs ! i)) < 2 ^ 32"
    using block_length_bound [OF assms(2), of "block_restart_interval opt"] file_length(1) [of opt bs] F(1) by linarith
  moreover have "sorted_wrt (\<lambda>a b. Compare c a b < 0) (map fst (bs ! i))"
    using block_sorted [OF _ assms(2)] F(3) by (simp add: entries_fit_def sorted_wrt_map)
  moreover have "\<forall>kv\<in>set (bs ! i). ok (fst kv)"
    using F(3) nth_mem [OF assms(2)] by (auto simp: entries_fit_def)
  ultimately show ?thesis using new_block_at [OF F(2)] by blast
qed

lemma file_caches_own: "file_ok c ok opt bs read \<Longrightarrow> caches (cached_ok cid (block_restart_interval opt) bs) cid (block_restart_interval opt) bs"
  using file_length(1) [of opt bs] by (intro caches_own) (auto simp: file_ok_def)

lemma walks_table:
  assumes F: "file_ok c ok opt bs read" and C: "block_cache cops cache_inv" and P: "caches P cid (block_restart_interval opt) bs"
  shows "two.walks (table_env cops (table_of opt bs read cid) ro) (index_of opt bs) bs (cache_holds cache_inv P)"
proof -
  let ?iv = "block_restart_interval opt" and ?t = "table_of opt bs read cid"
  have f: "random_file read (table_bytes opt bs)" "length (table_bytes opt bs) < 2 ^ 32" "opt_comparator opt = c"
    "entries_fit c ok (concat bs)" "[] \<notin> set bs"
    using F by (simp_all add: file_ok_def)
  have sel: "t_file ?t = read" "t_options ?t = opt" "cache_id ?t = cid" by (simp_all add: table_of_def)
  have "length (data_bytes ?iv bs) < 2 ^ 64"
    using file_length(1) [of opt bs] f(2) by (auto intro: le_less_trans less_trans)
  note D = handles_distinct [OF this]
  have S: "separated c ok (map fst (index_of opt bs)) bs"
    using seps_separated [OF f(4,5)] f(3) by (simp add: index_entries_sel)
  have "\<exists>d s' j. BlockReader cops ?t ro (snd (index_of opt bs ! i)) s = Some (d, s') \<and>
      cache_holds cache_inv P s' \<and> block_at c ok (bs ! i) d j"
    if "i < length bs" "cache_holds cache_inv P s" for i s
    using block_cache.BlockReader_block [OF C f(1,2) that, of ?t ro] that(1) sel P block_i_at [OF F that(1)]
    by (auto simp: index_entries_sel)
  then show ?thesis using D S f(3) sel unfolding two.walks_def by (simp add: table_env_def)
qed

lemma table_iterator_at:
  assumes F: "file_ok c ok opt bs read" and C: "block_cache cops cache_inv"
    and P: "caches P cid (block_restart_interval opt) bs" and "cache_holds cache_inv P cache"
  shows "two.tl_at (index_of opt bs) bs (cache_holds cache_inv P) (concat bs)
    (table_NewIterator cops (table_of opt bs read cid) ro, cache) (length (concat bs))"
  unfolding table_NewIterator_def
  by (rule two.tl_new_at [OF walks_table [OF F C P] _ assms(4)])
    (use index_at [OF F] in \<open>simp add: table_of_def index_entries_sel(2)\<close>)

text \<open>A lookup goes to the first block whose index key is not below the target.\<close>

lemma InternalGet_table:
  assumes F: "file_ok c ok opt bs read" and C: "block_cache cops cache_inv" and k: "ok k"
    and inv: "cache_holds cache_inv (cached_ok cid (block_restart_interval opt) bs) cache"
    and i: "i = first_not_less c k (map (sep_after c bs) [0..<length bs])" and j: "j = first_not_less c k (map fst (bs ! i))"
  shows "\<exists>cache'. InternalGet cops (table_of opt bs read cid) ro k cache =
      Some (OK,
        if length bs \<le> i then None
        else if (\<exists>p. opt_filter_policy opt = Some p \<and> \<not> reader_KeyMayMatch p
            (FilterBlockReader (build_filter p (filter_list (block_restart_interval opt) bs [])))
            (bh_offset (handle_at (block_restart_interval opt) bs i)) k) then None
        else if j < length (bs ! i) then Some (bs ! i ! j) else None, cache') \<and>
      cache_holds cache_inv (cached_ok cid (block_restart_interval opt) bs) cache'"
proof -
  let ?iv = "block_restart_interval opt" and ?t = "table_of opt bs read cid" and ?ops = "block_ops c"
  have f: "random_file read (table_bytes opt bs)" "length (table_bytes opt bs) < 2 ^ 32" "opt_comparator opt = c"
    using F by (simp_all add: file_ok_def)
  have sel: "t_file ?t = read" "t_options ?t = opt" "cache_id ?t = cid" "t_index_block ?t = Block (index_block_of opt bs)"
    by (simp_all add: table_of_def)
  obtain ii where ii: "it_Seek ?ops k (NewIterator (Block (index_block_of opt bs))) = Some ii"
    "block_at c ok (index_of opt bs) ii i"
    using blocks.at_seek [OF index_at [OF F] k] f(3) i by (auto simp: index_entries_sel)
  have st: "it_status ?ops ii = OK" "it_Valid ?ops ii \<longleftrightarrow> i < length bs"
    using blocks.at_status [OF ii(2)] blocks.at_valid [OF ii(2)] by (simp_all add: index_entries_sel)
  show ?thesis
  proof (cases "i < length bs")
    case False
    then show ?thesis using ii(1) st sel f(3) inv by (simp add: InternalGet_def Let_def)
  next
    case True
    let ?h = "handle_at ?iv bs i"
    let ?rej = "\<exists>p. opt_filter_policy opt = Some p \<and> \<not> reader_KeyMayMatch p
            (FilterBlockReader (build_filter p (filter_list ?iv bs []))) (bh_offset ?h) k"
    have v: "it_value ?ops ii = Some (bh_EncodeTo ?h [])"
      using blocks.at_entry [OF ii(2)] True by (simp add: index_entries_sel)
    have dec: "bh_DecodeFrom (bh_EncodeTo ?h []) BlockHandle = (OK, [], ?h)" using bh_roundtrip [of ?h "[]"] by simp
    have rej: "(case t_filter ?t of
          None \<Rightarrow> False
        | Some (policy, fr) \<Rightarrow>
            (case bh_DecodeFrom (bh_EncodeTo ?h []) BlockHandle of
               (s, rest, handle) \<Rightarrow> status_ok s \<and> \<not> reader_KeyMayMatch policy fr (bh_offset handle) k)) \<longleftrightarrow> ?rej"
      using dec by (cases "opt_filter_policy opt") (simp_all add: table_of_def)
    obtain cache' where br: "BlockReader cops ?t ro (bh_EncodeTo ?h []) cache = Some (NewIterator (Block (build_block ?iv (bs ! i))), cache')"
      "cache_holds cache_inv (cached_ok cid ?iv bs) cache'"
      using block_cache.BlockReader_block [OF C f(1,2) True inv _ _ _, of ?t ro] sel file_caches_own [OF F, of cid] by auto
    obtain bi where bi: "it_Seek ?ops k (NewIterator (Block (build_block ?iv (bs ! i)))) = Some bi" "block_at c ok (bs ! i) bi j"
      using blocks.at_seek [OF block_i_at [OF F True] k] j by auto
    have bst: "it_status ?ops bi = OK" "it_Valid ?ops bi \<longleftrightarrow> j < length (bs ! i)"
      "j < length (bs ! i) \<Longrightarrow> it_key ?ops bi = fst (bs ! i ! j) \<and> it_value ?ops bi = Some (snd (bs ! i ! j))"
      using blocks.at_status [OF bi(2)] blocks.at_valid [OF bi(2)] blocks.at_entry [OF bi(2)] by simp_all
    show ?thesis
    proof (cases ?rej)
      case rejected: True
      then show ?thesis using ii(1) st sel f(3) inv True v rej by (simp add: InternalGet_def Let_def)
    next
      case False
      then show ?thesis using ii(1) st sel f(3) True v rej br bi(1) bst by (auto simp: InternalGet_def Let_def)
    qed
  qed
qed

end

end
