(* ===== verification/Ldb_Cache_Runs.thy ===== *)
theory Ldb_Cache_Runs
  imports Ldb_Cache_Props Ldb_Table_Props
begin

unbundle bit_operations_syntax

text \<open>
  The sharded cache and its clients. \<open>reaches\<close> are the states that clients can bring a cache into that release no more than they
  hold: \<open>held\<close> counts their references and \<open>m\<close> is what was inserted last under a key. The cache fulfils the contract
  \<open>block_cache\<close> of tables.
\<close>

section \<open>Shards\<close>

definition shard_ok :: "(slice \<Rightarrow> 'v option) \<Rightarrow> nat \<Rightarrow> 'v lru_cache \<Rightarrow> bool" where
  "shard_ok m s sh \<longleftrightarrow> (\<forall>e key hash v. stores sh e key hash v \<longrightarrow>
     hash = HashSlice key \<and> Shard hash = s \<and> (e \<in> set (members sh) \<longrightarrow> m key = Some v))"

lemma shard_okD:
  assumes "shard_ok m s sh" "stores sh e key hash v"
  shows "hash = HashSlice key" "Shard hash = s" "e \<in> set (members sh) \<Longrightarrow> m key = Some v"
  using assms unfolding shard_ok_def by blast+

definition shard_capacity :: "nat \<Rightarrow> nat" where
  "shard_capacity cap = (cap + (kNumShards - 1)) div kNumShards"

definition sharded_inv :: "nat \<Rightarrow> 'v sharded_cache \<Rightarrow> (nat \<times> nat \<Rightarrow> nat) \<Rightarrow> (slice \<Rightarrow> 'v option) \<Rightarrow> bool" where
  "sharded_inv cap c held m \<longleftrightarrow> length (shards c) = kNumShards \<and> (\<forall>s e. kNumShards \<le> s \<longrightarrow> held (s, e) = 0) \<and>
     (\<forall>s<kNumShards. lru_inv (shards c ! s) (\<lambda>e. held (s, e)) \<and> shard_ok m s (shards c ! s) \<and>
        capacity (shards c ! s) = shard_capacity cap)"

lemma Shard_less: "Shard hash < kNumShards"
proof -
  have "unat hash div 2 ^ 28 < 16" using unat_lt_u32 [of hash] by (simp add: less_mult_imp_div_less)
  then show ?thesis by (simp add: Shard_def kNumShardBits_def kNumShards_def drop_bit_eq_div unat_div)
qed

lemma sharded_invD:
  assumes "sharded_inv cap c held m"
  shows "s < kNumShards \<Longrightarrow> lru_inv (shards c ! s) (\<lambda>e. held (s, e))" "s < kNumShards \<Longrightarrow> shard_ok m s (shards c ! s)"
    "s < kNumShards \<Longrightarrow> capacity (shards c ! s) = shard_capacity cap" "length (shards c) = kNumShards"
    "0 < held (s, e) \<Longrightarrow> s < kNumShards"
  using assms by (auto simp: sharded_inv_def intro: ccontr)

lemma sharded_update:
  assumes I: "sharded_inv cap c held m" and s: "s < kNumShards"
    and "lru_inv sh (\<lambda>e. held' (s, e))" "shard_ok m' s sh" "capacity sh = shard_capacity cap"
    and held: "\<And>s' e. s' \<noteq> s \<Longrightarrow> held' (s', e) = held (s', e)"
    and m: "\<And>key. Shard (HashSlice key) \<noteq> s \<Longrightarrow> m' key = m key"
  shows "sharded_inv cap (c\<lparr>shards := (shards c)[s := sh]\<rparr>) held' m'"
proof -
  note D = sharded_invD [OF I]
  have "lru_inv ((shards c)[s := sh] ! s') (\<lambda>e. held' (s', e)) \<and> shard_ok m' s' ((shards c)[s := sh] ! s') \<and>
      capacity ((shards c)[s := sh] ! s') = shard_capacity cap" if s': "s' < kNumShards" for s'
  proof (cases "s' = s")
    case True
    then show ?thesis using assms(3-5) s' D(4) by simp
  next
    case False
    have "shard_ok m' s' (shards c ! s')" using D(2) [OF s'] m False unfolding shard_ok_def by metis
    then show ?thesis using D(1,3) [OF s'] held False by simp
  qed
  moreover have "held' (s', e) = 0" if "kNumShards \<le> s'" for s' e
    using held [of s' e] that s I by (simp add: sharded_inv_def)
  ultimately show ?thesis using D(4) by (simp add: sharded_inv_def)
qed

lemma new_shard: "lru_inv (LRUCache n) (\<lambda>_. 0)" "shard_ok m s (LRUCache n)" "capacity (LRUCache n) = n"
  by (simp_all add: lru_inv_def shard_ok_def LRUCache_def members_def table_ok_def buckets_ok_def books_def refs_ok_def ref_ok_def handle_of_def stores_def)

lemma sharded_new: "sharded_inv cap (ShardedLRUCache cap) (\<lambda>_. 0) (\<lambda>_. None)"
  by (simp add: sharded_inv_def ShardedLRUCache_def Let_def shard_capacity_def new_shard)

lemma live_handles:
  assumes "lru_inv sh held" "stores sh e key hash v"
  shows "e \<in> pinned_or held (set (members sh))"
proof -
  obtain h where h: "handle_of sh e = Some h" using assms(2) by (auto simp: stores_def)
  have "refs_ok sh held (set (members sh))" using assms(1) by (simp add: lru_inv_def books_def)
  from refs_okD(1) [OF this h] show ?thesis by (auto split: if_splits)
qed

lemma shard_ok_same:
  assumes "shard_ok m s sh" "same_entries sh sh' S" "set (members sh') \<subseteq> set (members sh)"
    and "\<And>e key hash v. stores sh' e key hash v \<Longrightarrow> e \<in> S"
    and "\<And>e key hash v. e \<in> set (members sh') \<Longrightarrow> stores sh e key hash v \<Longrightarrow> m' key = m key"
  shows "shard_ok m' s sh'"
  unfolding shard_ok_def
proof (intro allI impI)
  fix e key hash v
  assume e: "stores sh' e key hash v"
  then have st: "stores sh e key hash v" using same_handle(2) [OF assms(2)] assms(4) by blast
  note S = shard_okD [OF assms(1) st]
  moreover have "m' key = Some v" if "e \<in> set (members sh')"
    using S(3) assms(3,5) that st by (metis subsetD)
  ultimately show "hash = HashSlice key \<and> Shard hash = s \<and> (e \<in> set (members sh') \<longrightarrow> m' key = Some v)" by blast
qed

section \<open>Operations\<close>

lemma Lookup_inv:
  assumes I: "sharded_inv cap c held m"
  shows "(\<exists>h c' v. sharded_Lookup key c = Some (Some h, c') \<and> sharded_inv cap c' (held(h := held h + 1)) m \<and>
      sharded_Value h c' = Some v \<and> m key = Some v) \<or>
    sharded_Lookup key c = Some (None, c) \<and>
      (\<forall>e\<in>set (members (shards c ! Shard (HashSlice key))). ident (shards c ! Shard (HashSlice key)) e \<noteq> Some (HashSlice key, key))"
proof -
  let ?hash = "HashSlice key"
  let ?s = "Shard ?hash"
  let ?sh = "shards c ! ?s"
  note s = Shard_less [of ?hash]
  note D = sharded_invD [OF I]
  have len: "?s < length (shards c)" using s D(4) by simp
  show ?thesis
    using lru_Lookup_spec [OF D(1) [OF s], of key ?hash]
  proof
    assume "\<exists>e c'. lru_Lookup key ?hash ?sh = Some (Some e, c') \<and> e \<in> set (members ?sh) \<and> ident ?sh e = Some (?hash, key) \<and>
      lru_inv c' ((\<lambda>e. held (?s, e))(e := held (?s, e) + 1)) \<and> same_entries ?sh c' UNIV \<and> members c' = members ?sh"
    then obtain e sh where e: "lru_Lookup key ?hash ?sh = Some (Some e, sh)" "e \<in> set (members ?sh)" "ident ?sh e = Some (?hash, key)"
      "lru_inv sh ((\<lambda>e. held (?s, e))(e := held (?s, e) + 1))" "same_entries ?sh sh UNIV" "members sh = members ?sh" by blast
    let ?h = "(?s, e)" and ?c = "c\<lparr>shards := (shards c)[?s := sh]\<rparr>"
    let ?held = "held(?h := held ?h + 1)"
    have "(\<lambda>e. ?held (?s, e)) = (\<lambda>e. held (?s, e))(e := held (?s, e) + 1)" by auto
    moreover have "shard_ok m ?s sh" by (rule shard_ok_same [OF D(2) [OF s] e(5)]) (use e(6) in auto)
    moreover have "capacity sh = shard_capacity cap" using e(5) D(3) [OF s] by (simp add: same_entries_def)
    ultimately have "sharded_inv cap ?c ?held m" using sharded_update [OF I s, of sh ?held m] e(4) by simp
    moreover obtain v where "stores ?sh e key ?hash v" using e(3) by (auto simp: ident_def stores_def)
    moreover from this have "m key = Some v" using shard_okD(3) [OF D(2) [OF s]] e(2) by blast
    moreover have "stores sh e key ?hash v" using \<open>stores ?sh e key ?hash v\<close> same_handle(2) [OF e(5)] by simp
    then have "sharded_Value ?h ?c = Some v" using len by (auto simp: sharded_Value_def stores_def)
    moreover have "sharded_Lookup key c = Some (Some ?h, ?c)" using e(1) by (simp add: sharded_Lookup_def Let_def)
    ultimately show ?thesis by blast
  next
    assume "lru_Lookup key ?hash ?sh = Some (None, ?sh) \<and> (\<forall>e\<in>set (members ?sh). ident ?sh e \<noteq> Some (?hash, key))"
    then show ?thesis by (simp add: sharded_Lookup_def Let_def)
  qed
qed

lemma Release_inv:
  assumes I: "sharded_inv cap c held m" and h: "0 < held h"
  shows "\<exists>c'. sharded_Release h c = Some c' \<and> sharded_inv cap c' (held(h := held h - 1)) m"
proof -
  obtain s e where se: "h = (s, e)" by fastforce
  note D = sharded_invD [OF I]
  have s: "s < kNumShards" using D(5) h se by blast
  let ?sh = "shards c ! s" and ?held = "held(h := held h - 1)"
  have eq: "(\<lambda>e. ?held (s, e)) = (\<lambda>e. held (s, e))(e := held (s, e) - 1)" using se by auto
  from lru_Release_spec [OF D(1) [OF s], of e] h se obtain sh where r: "lru_Release e ?sh = Some sh"
    "lru_inv sh (\<lambda>e. ?held (s, e))" "same_entries ?sh sh (pinned_or (\<lambda>e. ?held (s, e)) (set (members ?sh)))" "members sh = members ?sh"
    unfolding eq by auto
  have "shard_ok m s sh" by (rule shard_ok_same [OF D(2) [OF s] r(3)]) (use r(4) live_handles [OF r(2)] in auto)
  moreover have "capacity sh = shard_capacity cap" using r(3) D(3) [OF s] by (simp add: same_entries_def)
  ultimately have "sharded_inv cap (c\<lparr>shards := (shards c)[s := sh]\<rparr>) ?held m"
    by (intro sharded_update [OF I s]) (use r(2) se in auto)
  moreover obtain x where x: "handle_of ?sh e = Some x" "Shard (h_hash x) = s"
  proof -
    have "refs_ok ?sh (\<lambda>e. held (s, e)) (set (members ?sh))" using D(1) [OF s] by (simp add: lru_inv_def books_def)
    from refs_okD(2) [OF this, of e] h se obtain x where x: "handle_of ?sh e = Some x" by auto
    then have "stores ?sh e (h_key x) (h_hash x) (h_value x)" by (simp add: stores_def)
    from shard_okD(2) [OF D(2) [OF s] this] x that show thesis by blast
  qed
  ultimately show ?thesis using r(1) se by (simp add: sharded_Release_def Let_def)
qed

lemma Erase_inv:
  assumes I: "sharded_inv cap c held m"
  shows "\<exists>c'. sharded_Erase key c = Some c' \<and> sharded_inv cap c' held (m(key := None))"
proof -
  let ?hash = "HashSlice key"
  let ?s = "Shard ?hash"
  let ?sh = "shards c ! ?s"
  note s = Shard_less [of ?hash]
  note D = sharded_invD [OF I]
  from lru_Erase_spec [OF D(1) [OF s], of key ?hash] obtain sh where r: "lru_Erase key ?hash ?sh = Some sh"
    "lru_inv sh (\<lambda>e. held (?s, e))" "same_entries ?sh sh (pinned_or (\<lambda>e. held (?s, e)) (set (members sh)))"
    "set (members sh) = {e\<in>set (members ?sh). ident ?sh e \<noteq> Some (?hash, key)}" by blast
  have "shard_ok (m(key := None)) ?s sh"
  proof (rule shard_ok_same [OF D(2) [OF s] r(3)])
    fix e key' hash v
    assume e: "e \<in> set (members sh)" "stores ?sh e key' hash v"
    then have "hash = HashSlice key'" using shard_okD(1) [OF D(2) [OF s]] by blast
    then have "key' \<noteq> key" using e r(4) by (auto simp: stores_def ident_def)
    then show "(m(key := None)) key' = m key'" by simp
  qed (use r(4) live_handles [OF r(2)] in auto)
  moreover have "capacity sh = shard_capacity cap" using r(3) D(3) [OF s] by (simp add: same_entries_def)
  ultimately have "sharded_inv cap (c\<lparr>shards := (shards c)[?s := sh]\<rparr>) held (m(key := None))"
    by (intro sharded_update [OF I s]) (use r(2) in auto)
  then show ?thesis using r(1) by (simp add: sharded_Erase_def Let_def)
qed

lemma cache_Insert_inv:
  fixes key :: slice
  assumes I: "sharded_inv cap c held m"
  defines "s \<equiv> Shard (HashSlice key)"
  shows "\<exists>h c'. sharded_Insert key v n c = Some (h, c') \<and> held h = 0 \<and> fst h = s \<and> sharded_inv cap c' (held(h := held h + 1)) (m(key := Some v)) \<and>
    sharded_Value h c' = Some v \<and> (0 < cap \<longrightarrow> snd h \<in> set (members (shards c' ! s)) \<and> ident (shards c' ! s) (snd h) = Some (HashSlice key, key)) \<and>
    (usage (shards c' ! s) \<le> capacity (shards c' ! s) \<or> lru (shards c' ! s) = [])"
proof -
  let ?hash = "HashSlice key" and ?sh = "shards c ! s"
  have s: "s < kNumShards" unfolding s_def by (rule Shard_less)
  note D = sharded_invD [OF I]
  from lru_Insert_spec [OF D(1) [OF s], of key ?hash v n] obtain e sh where r: "lru_Insert key ?hash v n ?sh = Some (e, sh)"
    "held (s, e) = 0" "e \<notin> set (members ?sh)" "lru_inv sh ((\<lambda>e. held (s, e))(e := 1))" "stores sh e key ?hash v"
    "same_entries ?sh sh (pinned_or (\<lambda>e. held (s, e)) (set (members sh)) - {e})"
    "set (members sh) \<subseteq> insert e {e'\<in>set (members ?sh). ident ?sh e' \<noteq> Some (?hash, key)}"
    "0 < capacity ?sh \<longrightarrow> e \<in> set (members sh)" "usage sh \<le> capacity sh \<or> lru sh = []" by (elim exE conjE) (rule that)
  let ?h = "(s, e)" and ?c = "c\<lparr>shards := (shards c)[s := sh]\<rparr>"
  have eq: "(\<lambda>e'. (held(?h := held ?h + 1)) (s, e')) = (\<lambda>e. held (s, e))(e := 1)" using r(2) by auto
  have "shard_ok (m(key := Some v)) s sh"
    unfolding shard_ok_def
  proof (intro allI impI)
    fix e' key' hash' v'
    assume e': "stores sh e' key' hash' v'"
    show "hash' = HashSlice key' \<and> Shard hash' = s \<and> (e' \<in> set (members sh) \<longrightarrow> (m(key := Some v)) key' = Some v')"
    proof (cases "e' = e")
      case True
      then show ?thesis using r(5) e' by (auto simp: stores_def s_def)
    next
      case False
      then have "e' \<in> pinned_or (\<lambda>e. held (s, e)) (set (members sh)) - {e}" using live_handles [OF r(4) e'] by auto
      then have st: "stores ?sh e' key' hash' v'" using same_handle(2) [OF r(6)] e' by blast
      note S = shard_okD [OF D(2) [OF s] st]
      have "m key' = Some v' \<and> key' \<noteq> key" if "e' \<in> set (members sh)"
      proof -
        have old: "e' \<in> set (members ?sh)" "ident ?sh e' \<noteq> Some (?hash, key)" using r(7) that False by blast+
        moreover have "key' \<noteq> key" using st old(2) S(1) by (auto simp: stores_def ident_def)
        ultimately show ?thesis using S(3) by blast
      qed
      then show ?thesis using S(1,2) by auto
    qed
  qed
  moreover have cap: "capacity sh = shard_capacity cap" using r(6) D(3) [OF s] by (simp add: same_entries_def)
  ultimately have "sharded_inv cap ?c (held(?h := held ?h + 1)) (m(key := Some v))"
    by (intro sharded_update [OF I s], unfold eq) (use r(4) in \<open>auto simp: s_def\<close>)
  moreover have nth: "shards ?c ! s = sh" "(shards c)[s := sh] ! s = sh" using s D(4) by simp_all
  moreover have "sharded_Value ?h ?c = Some v" using r(5) nth(1) by (auto simp: sharded_Value_def stores_def)
  moreover have "e \<in> set (members sh) \<and> ident sh e = Some (?hash, key)" if "0 < cap"
  proof -
    have "0 < shard_capacity cap" using that by (simp add: shard_capacity_def kNumShards_def kNumShardBits_def div_greater_zero_iff)
    then show ?thesis using r(5,8) D(3) [OF s] by (auto simp: stores_def ident_def)
  qed
  moreover have "sharded_Insert key v n c = Some (?h, ?c)" using r(1) by (simp add: sharded_Insert_def Let_def s_def)
  ultimately show ?thesis using r(2,9) by (intro exI [of _ ?h] exI [of _ ?c]) (simp add: nth)
qed

lemma those_Some: "(\<And>x. x \<in> set xs \<Longrightarrow> \<exists>y. f x = Some y) \<Longrightarrow> \<exists>ys. those (map f xs) = Some ys \<and> length ys = length xs \<and> (\<forall>i<length xs. f (xs ! i) = Some (ys ! i))"
proof (induction xs)
  case (Cons x xs)
  obtain y ys where "f x = Some y" "those (map f xs) = Some ys" "length ys = length xs" "\<forall>i<length xs. f (xs ! i) = Some (ys ! i)"
    using Cons by (metis list.set_intros)
  then show ?case by (intro exI [of _ "y # ys"]) (auto simp: nth_Cons split: nat.splits)
qed simp

lemma Prune_inv:
  assumes I: "sharded_inv cap c held m"
  shows "\<exists>c'. sharded_Prune c = Some c' \<and> sharded_inv cap c' held m"
proof -
  note D = sharded_invD [OF I]
  have P: "\<exists>sh. lru_Prune (shards c ! s) = Some sh \<and> lru_inv sh (\<lambda>e. held (s, e)) \<and> shard_ok m s sh \<and> capacity sh = shard_capacity cap"
    if s: "s < kNumShards" for s
  proof -
    from lru_Prune_spec [OF D(1) [OF s]] obtain sh where r: "lru_Prune (shards c ! s) = Some sh" "lru_inv sh (\<lambda>e. held (s, e))"
      "same_entries (shards c ! s) sh (pinned_or (\<lambda>e. held (s, e)) (set (members sh)))"
      "set (members sh) = {e\<in>set (members (shards c ! s)). 0 < held (s, e)}" by blast
    moreover have "shard_ok m s sh" by (rule shard_ok_same [OF D(2) [OF s] r(3)]) (use r(4) live_handles [OF r(2)] in auto)
    ultimately show ?thesis using D(3) [OF s] by (auto simp: same_entries_def)
  qed
  have "\<exists>sh'. lru_Prune sh = Some sh'" if "sh \<in> set (shards c)" for sh
  proof -
    from that obtain s where s: "s < length (shards c)" "shards c ! s = sh" unfolding in_set_conv_nth by blast
    from P [of s] s(1) D(4) obtain sh' where "lru_Prune (shards c ! s) = Some sh'" by auto
    then show ?thesis using s(2) by simp
  qed
  from those_Some [of "shards c" lru_Prune, OF this] obtain shs where
    shs: "those (map lru_Prune (shards c)) = Some shs" "length shs = length (shards c)"
    "\<forall>i<length (shards c). lru_Prune (shards c ! i) = Some (shs ! i)" by blast
  have "lru_inv (shs ! s) (\<lambda>e. held (s, e)) \<and> shard_ok m s (shs ! s) \<and> capacity (shs ! s) = shard_capacity cap" if "s < kNumShards" for s
    using P [OF that] shs(3) D(4) that by auto
  then have "sharded_inv cap (c\<lparr>shards := shs\<rparr>) held m"
    using shs(2) I by (simp add: sharded_inv_def)
  then show ?thesis using shs(1) by (simp add: sharded_Prune_def)
qed

lemma NewId_inv: "sharded_inv cap c held m \<Longrightarrow> sharded_inv cap (snd (sharded_NewId c)) held m"
  by (simp add: sharded_NewId_def sharded_inv_def Let_def)

lemma Value_inv:
  assumes I: "sharded_inv cap c held m" and "0 < held h"
  shows "\<exists>v. sharded_Value h c = Some v"
proof -
  obtain s e where h: "h = (s, e)" by fastforce
  note D = sharded_invD [OF I]
  have "lru_inv (shards c ! s) (\<lambda>e. held (s, e))" using D(1,5) assms(2) h by blast
  then have "refs_ok (shards c ! s) (\<lambda>e. held (s, e)) (set (members (shards c ! s)))" by (simp add: lru_inv_def books_def)
  from refs_okD(2) [OF this, of e] assms(2) h show ?thesis by (auto simp: sharded_Value_def)
qed

section \<open>Clients\<close>

inductive reaches :: "nat \<Rightarrow> 'v sharded_cache \<Rightarrow> (nat \<times> nat \<Rightarrow> nat) \<Rightarrow> (slice \<Rightarrow> 'v option) \<Rightarrow> bool" for cap where
  reaches_new: "reaches cap (ShardedLRUCache cap) (\<lambda>_. 0) (\<lambda>_. None)"
| reaches_Insert: "reaches cap c held m \<Longrightarrow> sharded_Insert key v n c = Some (h, c') \<Longrightarrow>
    reaches cap c' (held(h := held h + 1)) (m(key := Some v))"
| reaches_hit: "reaches cap c held m \<Longrightarrow> sharded_Lookup key c = Some (Some h, c') \<Longrightarrow> reaches cap c' (held(h := held h + 1)) m"
| reaches_miss: "reaches cap c held m \<Longrightarrow> sharded_Lookup key c = Some (None, c') \<Longrightarrow> reaches cap c' held m"
| reaches_Release: "reaches cap c held m \<Longrightarrow> 0 < held h \<Longrightarrow> sharded_Release h c = Some c' \<Longrightarrow> reaches cap c' (held(h := held h - 1)) m"
| reaches_Erase: "reaches cap c held m \<Longrightarrow> sharded_Erase key c = Some c' \<Longrightarrow> reaches cap c' held (m(key := None))"
| reaches_Prune: "reaches cap c held m \<Longrightarrow> sharded_Prune c = Some c' \<Longrightarrow> reaches cap c' held m"
| reaches_NewId: "reaches cap c held m \<Longrightarrow> sharded_NewId c = (i, c') \<Longrightarrow> reaches cap c' held m"

lemma reaches_inv: "reaches cap c held m \<Longrightarrow> sharded_inv cap c held m"
proof (induction rule: reaches.induct)
  case reaches_new
  show ?case by (rule sharded_new)
next
  case (reaches_Insert c held m key v n h c')
  then show ?case using cache_Insert_inv [OF reaches_Insert.IH, of key v n] by (auto simp del: fun_upd_apply)
next
  case (reaches_hit c held m key h c')
  then show ?case using Lookup_inv [OF reaches_hit.IH, of key] by (auto simp del: fun_upd_apply)
next
  case (reaches_miss c held m key c')
  then show ?case using Lookup_inv [OF reaches_miss.IH, of key] by auto
next
  case (reaches_Release c held m h c')
  then show ?case using Release_inv [OF reaches_Release.IH, of h] by (auto simp del: fun_upd_apply)
next
  case (reaches_Erase c held m key c')
  then show ?case using Erase_inv [OF reaches_Erase.IH, of key] by (auto simp del: fun_upd_apply)
next
  case (reaches_Prune c held m c')
  then show ?case using Prune_inv [OF reaches_Prune.IH] by auto
next
  case (reaches_NewId c held m i c')
  then show ?case using NewId_inv [OF reaches_NewId.IH] by simp
qed

section \<open>The cache of blocks\<close>

text \<open>
  A table reads the value of the handle it finds. It releases the handle when the iterator goes away; here it is released at once, which
  changes nothing but the order in which entries are evicted.
\<close>

definition lru_block_cache :: "block sharded_cache cache_ops" where
  "lru_block_cache =
     \<lparr>cache_NewId = sharded_NewId,
      cache_Lookup = (\<lambda>key c. Option.bind (sharded_Lookup key c) (\<lambda>(found, c1).
        case found of
          None \<Rightarrow> Some (None, c1)
        | Some h \<Rightarrow> Option.bind (sharded_Value h c1) (\<lambda>b. Option.bind (sharded_Release h c1) (\<lambda>c2. Some (Some b, c2))))),
      cache_Insert = (\<lambda>key b n c. Option.bind (sharded_Insert key b n c) (\<lambda>(h, c1). sharded_Release h c1))\<rparr>"

definition block_cache_inv :: "(slice \<Rightarrow> block \<Rightarrow> bool) \<Rightarrow> block sharded_cache \<Rightarrow> bool" where
  "block_cache_inv P c \<longleftrightarrow> (\<exists>cap held m. sharded_inv cap c held m \<and> (\<forall>k b. m k = Some b \<longrightarrow> P k b))"

lemma put_back: "(held(h := held h + 1))(h := (held(h := held h + 1)) h - 1) = (held :: 'a \<Rightarrow> nat)"
  by auto

interpretation lru_blocks: block_cache lru_block_cache block_cache_inv
proof
  fix P c k
  assume "block_cache_inv P c"
  then obtain cap held m where I: "sharded_inv cap c held m" and P: "\<forall>k b. m k = Some b \<longrightarrow> P k b" unfolding block_cache_inv_def by blast
  show "\<exists>r c'. cache_Lookup lru_block_cache k c = Some (r, c') \<and> block_cache_inv P c' \<and> (\<forall>b. r = Some b \<longrightarrow> P k b)"
    using Lookup_inv [OF I, of k]
  proof
    assume "\<exists>h c' v. sharded_Lookup k c = Some (Some h, c') \<and> sharded_inv cap c' (held(h := held h + 1)) m \<and>
      sharded_Value h c' = Some v \<and> m k = Some v"
    then obtain h c1 b where l: "sharded_Lookup k c = Some (Some h, c1)" "sharded_inv cap c1 (held(h := held h + 1)) m"
      "sharded_Value h c1 = Some b" "m k = Some b" by blast
    from Release_inv [OF l(2), of h, unfolded put_back] obtain c2 where "sharded_Release h c1 = Some c2" "sharded_inv cap c2 held m" by auto
    then show ?thesis using l P by (auto simp: lru_block_cache_def block_cache_inv_def)
  next
    assume "sharded_Lookup k c = Some (None, c) \<and>
      (\<forall>e\<in>set (members (shards c ! Shard (HashSlice k))). ident (shards c ! Shard (HashSlice k)) e \<noteq> Some (HashSlice k, k))"
    then show ?thesis using I P by (auto simp: lru_block_cache_def block_cache_inv_def)
  qed
  show "\<exists>c'. cache_Insert lru_block_cache k b n c = Some c' \<and> block_cache_inv P c'" if "P k b" for b n
  proof -
    from cache_Insert_inv [OF I, of k b n] obtain h c1 where
      i: "sharded_Insert k b n c = Some (h, c1)" "sharded_inv cap c1 (held(h := held h + 1)) (m(k := Some b))" by auto
    from Release_inv [OF i(2), of h, unfolded put_back] obtain c2 where
      "sharded_Release h c1 = Some c2" "sharded_inv cap c2 held (m(k := Some b))" by auto
    moreover have "\<forall>k' b'. (m(k := Some b)) k' = Some b' \<longrightarrow> P k' b'" using P that by simp
    ultimately show ?thesis using i(1) unfolding block_cache_inv_def lru_block_cache_def cache_ops.select_convs by (auto simp del: fun_upd_apply)
  qed
  show "block_cache_inv P (snd (cache_NewId lru_block_cache c))"
    using NewId_inv [OF I] P by (auto simp: lru_block_cache_def block_cache_inv_def)
  show "block_cache_inv Q c" if "\<And>k b. P k b \<Longrightarrow> Q k b" for Q
    using I P that unfolding block_cache_inv_def by blast
qed

section \<open>Properties\<close>







end
