(* ===== verification/Ldb_Table_Spec.thy ===== *)
theory Ldb_Table_Spec
  imports Ldb_Table_Reliable Ldb_Cache_Runs
begin

text \<open>
  Tables from the builder to the reader: what was added to a builder that finished without an error is found in the table that is opened
  on its file, by iterators and by lookups.
\<close>

section \<open>From the builder to the reader\<close>

text \<open>A table of these entries is built in a file, which is synced. The result has the size the builder reports.\<close>

definition write_table ::
  "options \<Rightarrow> int + sync_answer \<Rightarrow> sync_answer \<Rightarrow> posix_wfile \<Rightarrow> entries \<Rightarrow> status \<times> u64 \<times> posix_wfile" where
  "write_table opt dir_ans ans f kvs =
     (case tb_Finish posix_Append posix_Flush
          (foldl (\<lambda>r (k, v). tb_Add posix_Append posix_Flush k v r) (TableBuilder opt f) kvs) of
        (s, r) \<Rightarrow>
          if \<not> status_ok s then (s, tb_FileSize r, tb_file r)
          else (case posix_Sync dir_ans ans (tb_file r) of (s1, w) \<Rightarrow> (s1, tb_FileSize r, w)))"

lemma write_table_bytes:
  assumes "k_bytes (w_fd f) = []" "w_buf f = []" "write_table opt dir_ans ans f kvs = (OK, n, w)"
  obtains bs where "concat bs = kvs" "[] \<notin> set bs" "k_bytes (w_fd w) = table_bytes opt bs" "n = of_nat (length (table_bytes opt bs))"
proof -
  let ?fin = "tb_Finish posix_Append posix_Flush
    (foldl (\<lambda>r (k, v). tb_Add posix_Append posix_Flush k v r) (TableBuilder opt f) kvs)"
  obtain r where r: "?fin = (OK, r)" "posix_Sync dir_ans ans (tb_file r) = (OK, w)" "n = tb_FileSize r"
    using assms(3) by (auto simp: write_table_def status_ok_OK split: prod.splits if_splits)
  obtain bs where bs: "concat bs = kvs" "[] \<notin> set bs" "k_bytes (w_fd (tb_file r)) @ w_buf (tb_file r) = table_bytes opt bs"
    "tb_FileSize r = of_nat (length (table_bytes opt bs))"
    by (rule posix_append.table_written [OF _ _ r(1)]) (simp_all add: assms(1,2))
  have "k_bytes (w_fd w) = k_bytes (w_fd (tb_file r)) @ w_buf (tb_file r)"
    using r(2) FlushBuffer_writes [of "tb_file r"] by (auto simp: posix_Sync_def Let_def split: if_splits)
  then show thesis using bs r(3) that by simp
qed

lemma write_table_fine:
  assumes "file_fine f" "\<not> w_is_manifest f" "full_ok ans \<or> fsync_errno ans = None"
  shows "\<exists>n w. write_table opt dir_ans ans f kvs = (OK, n, w)"
proof -
  obtain r where r: "tb_Finish posix_Append posix_Flush
      (foldl (\<lambda>r (k, v). tb_Add posix_Append posix_Flush k v r) (TableBuilder opt f) kvs) = (OK, r)" "file_fine (tb_file r)" "\<not> w_is_manifest (tb_file r)"
    using posix_reliable.finishes [of f False opt kvs] assms(1,2) by auto
  obtain w where "FlushBuffer (tb_file r) = (OK, w)" using FlushBuffer_fine [OF r(2)] by blast
  then show ?thesis
    using r(1,3) assms(3) by (auto simp: write_table_def posix_Sync_def SyncDirIfManifest_def SyncFd_def Let_def status_ok_OK)
qed

text \<open>How large a block can be.\<close>

lemma length_build_block: "length (build_block iv kvs) \<le> 8 + sum_list (map (\<lambda>(k, v). 19 + length k + length v) kvs)"
proof -
  have add: "length (bb_buffer (bb_Add b k v)) \<le> length (bb_buffer b) + 15 + length k + length v \<and>
      length (bb_restarts (bb_Add b k v)) \<le> length (bb_restarts b) + 1" for b k v
  proof -
    have enc: "length (EncodeVarint32 x) + length (EncodeVarint32 y) + length (EncodeVarint32 z) \<le> 15" for x y z
      using length_EncodeVarint32 [of x] length_EncodeVarint32 [of y] length_EncodeVarint32 [of z] by linarith
    define shared where "shared = (if bb_counter b < bb_interval b
      then diff_index_loop (bb_last_key b) k (min (length (bb_last_key b)) (length k)) 0 else 0)"
    have "bb_buffer (bb_Add b k v) = bb_buffer b @ EncodeVarint32 (of_nat shared) @ EncodeVarint32 (of_nat (length k - shared)) @
        EncodeVarint32 (of_nat (length v)) @ take (length k - shared) (drop shared k) @ v"
      by (simp add: bb_Add_def Let_def shared_def PutVarint32_def)
    moreover have "length (bb_restarts (bb_Add b k v)) \<le> length (bb_restarts b) + 1" by (simp add: bb_Add_def Let_def)
    ultimately show ?thesis using enc [of "of_nat shared" "of_nat (length k - shared)" "of_nat (length v)"] by simp
  qed
  have adds: "length (bb_buffer (add_all b kvs)) + 4 * length (bb_restarts (add_all b kvs)) \<le>
      length (bb_buffer b) + 4 * length (bb_restarts b) + sum_list (map (\<lambda>(k, v). 19 + length k + length v) kvs)" for b
  proof (induction kvs arbitrary: b)
    case (Cons kv kvs)
    obtain k v where kv: "kv = (k, v)" by fastforce
    show ?case using Cons.IH [of "bb_Add b k v"] add [of b k v] kv by simp
  qed simp
  have put: "length (foldl PutFixed32 d xs) = length d + 4 * length xs" for d and xs :: "u32 list"
    by (induction xs arbitrary: d) (simp_all add: PutFixed32_def)
  have "length (build_block iv kvs) = length (bb_buffer (add_all (BlockBuilder iv) kvs)) + 4 * length (bb_restarts (add_all (BlockBuilder iv) kvs)) + 4"
    by (simp add: build_block_def bb_Finish_def Let_def put) (simp add: PutFixed32_def put)
  then show ?thesis using adds [of "BlockBuilder iv"] by (simp add: BlockBuilder_def)
qed

text \<open>A cache in which nothing is stored under the next number.\<close>

definition fresh_cache :: "'c cache_ops \<Rightarrow> ((slice \<Rightarrow> block \<Rightarrow> bool) \<Rightarrow> 'c \<Rightarrow> bool) \<Rightarrow> 'c option \<Rightarrow> bool" where
  "fresh_cache cops cache_inv cache \<longleftrightarrow>
     cache_holds cache_inv (\<lambda>k b. take 8 k \<noteq> EncodeFixed64 (fst (next_id cops cache))) cache"

lemma fresh_holds:
  assumes "block_cache cops cache_inv" "fresh_cache cops cache_inv cache" "next_id cops cache = (cid, cache1)"
  shows "cache_holds cache_inv (cached_ok cid iv bs) cache1"
proof (cases cache)
  case None
  then show ?thesis using assms(3) by (simp add: next_id_def cache_holds_def)
next
  case (Some c)
  let ?P = "\<lambda>k b. take 8 k \<noteq> EncodeFixed64 cid"
  have "cache_inv ?P c" using Some assms(2,3) by (simp add: fresh_cache_def cache_holds_def)
  from block_cache.newid_inv [OF assms(1) this] have "cache_inv ?P (snd (cache_NewId cops c))" .
  then have "cache_inv (cached_ok cid iv bs) (snd (cache_NewId cops c))"
    by (rule block_cache.inv_mono [OF assms(1)]) (auto simp: cached_ok_def)
  then show ?thesis using Some assms(3) by (auto simp: next_id_def cache_holds_def split: prod.splits)
qed

lemma written_opens:
  assumes "k_bytes (w_fd f) = []" "w_buf f = []" "write_table opt dir_ans ans f kvs = (OK, n, w)"
    and "opt_comparator opt = c" "1 \<le> block_restart_interval opt" "entries_fit c ok kvs"
    and "random_file read (k_bytes (w_fd w))" "length (k_bytes (w_fd w)) < 2 ^ 32"
    and "block_cache cops cache_inv" "fresh_cache cops cache_inv cache"
  obtains bs cid cache1 where "concat bs = kvs" "file_ok c ok opt bs read"
    "Open cops opt read n cache = Some (OK, Some (table_of opt bs read cid), cache1)"
    "cache_holds cache_inv (cached_ok cid (block_restart_interval opt) bs) cache1"
proof -
  obtain bs where bs: "concat bs = kvs" "[] \<notin> set bs" "k_bytes (w_fd w) = table_bytes opt bs" "n = of_nat (length (table_bytes opt bs))"
    using write_table_bytes [OF assms(1-3)] by blast
  obtain cid cache1 where id: "next_id cops cache = (cid, cache1)" by fastforce
  have "file_ok c ok opt bs read" using bs assms(4-8) by (simp add: file_ok_def)
  moreover have "Open cops opt read n cache = Some (OK, Some (table_of opt bs read cid), cache1)"
    unfolding bs(4) by (rule Open_table) (use bs assms id in auto)
  ultimately show thesis using that bs(1) fresh_holds [OF assms(9,10) id] by blast
qed

section \<open>Iterators and lookups\<close>

context table_order
begin

lemma table_runs:
  assumes "file_ok c ok opt bs read" "block_cache cops cache_inv"
    and "cache_holds cache_inv (cached_ok cid (block_restart_interval opt) bs) cache"
    and "\<forall>target. Op_Seek target \<in> set ms \<longrightarrow> ok target"
    and "list_run c (map fst (concat bs)) ms (length (concat bs)) = Some p"
  shows "\<exists>it. iter_run (tl_ops (table_env cops (table_of opt bs read cid) ro)) ms
      (table_NewIterator cops (table_of opt bs read cid) ro, cache) = Some it \<and>
    iter_shows (tl_ops (table_env cops (table_of opt bs read cid) ro)) it (concat bs) p"
proof -
  note contract = two.two_level_contract [OF walks_table [OF assms(1,2) file_caches_own [OF assms(1), of cid], of ro]]
  show ?thesis
    using list_iterator.run_at [OF contract table_iterator_at [OF assms(1,2) file_caches_own [OF assms(1)] assms(3)] assms(4,5)]
      list_iterator.at_shows [OF contract] by blast
qed

end

text \<open>A separator of internal keys is the key before it, or has a user key below that of the key after it.\<close>

context user_comparator
begin

lemma sep_user_key:
  assumes "8 \<le> length a" "internal_Compare user a b < 0" "internal_FindShortestSeparator user a b \<noteq> a"
  shows "Compare user (ExtractUserKey (internal_FindShortestSeparator user a b)) (ExtractUserKey b) < 0"
proof -
  let ?ua = "ExtractUserKey a" and ?ub = "ExtractUserKey b"
  obtain w where c: "internal_FindShortestSeparator user a b = PutFixed64 (FindShortestSeparator user ?ua ?ub) w"
    and less: "length (FindShortestSeparator user ?ua ?ub) < length ?ua"
    using internal_separator_shape [of a b] assms(3) by blast
  have "Compare user ?ua ?ub < 0" using sep_other [of ?ua ?ub] less by force
  then show ?thesis using sep_between [of ?ua ?ub] c by simp
qed

text \<open>So the block that is searched holds the first entry that is not below the target, if that has its user key.\<close>

lemma searched_block:
  assumes fit: "entries_fit (InternalKeyComparator user) (\<lambda>k. 8 \<le> length k) (concat bs)" "[] \<notin> set bs" and k: "8 \<le> length k"
    and i: "i = first_not_less (InternalKeyComparator user) k (map (sep_after (InternalKeyComparator user) bs) [0..<length bs])"
    and j: "j = first_not_less (InternalKeyComparator user) k (map fst (concat bs))"
    and j': "j' = first_not_less (InternalKeyComparator user) k (map fst (bs ! i))"
  shows "length bs \<le> i \<Longrightarrow> j = length (concat bs)"
    "i < length bs \<Longrightarrow> j' < length (bs ! i) \<Longrightarrow> j < length (concat bs) \<and> concat bs ! j = bs ! i ! j'"
    "i < length bs \<Longrightarrow> j < length (concat bs) \<Longrightarrow> ExtractUserKey (fst (concat bs ! j)) = ExtractUserKey k \<Longrightarrow> j' < length (bs ! i)"
proof -
  let ?c = "InternalKeyComparator user"
  note S = internal_block.search_block [OF internal_table.seps_separated [OF fit] k i]
  have "i \<le> length bs" unfolding i by (rule order_trans [OF length_takeWhile_le]) simp
  then show "length bs \<le> i \<Longrightarrow> j = length (concat bs)" using S(1) j by simp
  have jo: "j = offset_of bs i + j'" if "i < length bs" using S(2) [OF that] j j' by simp
  show "j < length (concat bs) \<and> concat bs ! j = bs ! i ! j'" if "i < length bs" "j' < length (bs ! i)"
    using concat_nth_block [OF that] jo [OF that(1)] by simp
  show "j' < length (bs ! i)" if lt: "i < length bs" "j < length (concat bs)" and uk: "ExtractUserKey (fst (concat bs ! j)) = ExtractUserKey k"
  proof (rule ccontr)
    assume "\<not> j' < length (bs ! i)"
    then have j'_eq: "j' = length (bs ! i)" unfolding j' using length_takeWhile_le [of "\<lambda>x. Compare ?c x k < 0" "map fst (bs ! i)"] by simp
    have mem: "bs ! m \<noteq> []" if "m < length bs" for m using fit(2) that by (metis nth_mem)
    have below: "Compare ?c (fst kv) k < 0" if "kv \<in> set (bs ! i)" for kv
    proof -
      have "takeWhile (\<lambda>x. Compare ?c x k < 0) (map fst (bs ! i)) = map fst (bs ! i)"
        using j'_eq j' by (metis length_map takeWhile_eq_take take_all order_refl)
      then show ?thesis using that by (metis (mono_tags, lifting) image_eqI set_map set_takeWhileD)
    qed
    have next_i: "Suc i < length bs"
    proof (rule ccontr)
      assume "\<not> Suc i < length bs"
      then have "offset_of bs (Suc i) = length (concat bs)" using lt(1) offset_of_all [of bs] by (metis Suc_lessI)
      then show False using offset_of_Suc [OF lt(1)] jo [OF lt(1)] j'_eq lt(2) by simp
    qed
    have "concat bs ! j = hd (bs ! Suc i)"
      using concat_nth_block(1) [OF next_i, of 0] mem [OF next_i] jo [OF lt(1)] j'_eq offset_of_Suc [OF lt(1)]
      by (simp add: hd_conv_nth)
    then have uk': "ExtractUserKey (fst (hd (bs ! Suc i))) = ExtractUserKey k" using uk by simp
    let ?a = "fst (last (bs ! i))" and ?b = "fst (hd (bs ! Suc i))" and ?s = "sep_after ?c bs i"
    have s: "?s = internal_FindShortestSeparator user ?a ?b" using next_i by (simp add: sep_after_def)
    have not_below: "\<not> Compare ?c ?s k < 0"
      using nth_length_takeWhile [of "\<lambda>x. Compare ?c x k < 0" "map (sep_after ?c bs) [0..<length bs]"] i lt(1) by simp
    have "sorted_wrt (\<lambda>x y. Compare ?c (fst x) (fst y) < 0) (concat bs)" using fit(1) by (simp add: entries_fit_def)
    from block_key_order [OF this lessI next_i] have ab: "Compare ?c ?a ?b < 0" using mem lt(1) next_i by simp
    have "last (bs ! i) \<in> set (concat bs)" using last_in_set [OF mem [OF lt(1)]] nth_mem [OF lt(1)] by auto
    then have "8 \<le> length ?a" using fit(1) by (auto simp: entries_fit_def)
    moreover have "?s \<noteq> ?a" using below [of "last (bs ! i)"] not_below mem [OF lt(1)] by auto
    ultimately have "Compare user (ExtractUserKey ?s) (ExtractUserKey k) < 0"
      using sep_user_key [of ?a ?b] ab s uk' by simp
    then show False using not_below by (simp add: internal_less)
  qed
qed

end

text \<open>The filter of a table lets every lookup through that has the user key of an entry of the block.\<close>

lemma filter_offsets_sorted:
  assumes "length (data_bytes iv bs) < 2 ^ 64"
  shows "sorted_wrt (\<le>) (map (\<lambda>blk. unat (fst blk div kFilterBase)) (filter_list iv bs []))"
proof -
  have le: "length (data_bytes iv (take i bs)) \<le> length (data_bytes iv (take j bs))" if "i \<le> j" for i j
  proof -
    have "take j bs = take i bs @ take (j - i) (drop i bs)" using that by (simp add: take_add [symmetric])
    then show ?thesis by (simp add: data_bytes_def)
  qed
  have "length (data_bytes iv (take i bs)) < 2 ^ 64" for i
    using le [of i "max i (length bs)"] assms by simp
  then have "unat (of_nat (length (data_bytes iv (take i bs))) :: u64) = length (data_bytes iv (take i bs))" for i
    by (simp add: unat_of_nat_u64)
  then show ?thesis
    using le by (simp add: filter_list_def sorted_wrt_map sorted_wrt_iff_nth_less unat_div div_le_mono del: upt_Suc)
qed

lemma table_filter_keeps:
  assumes "filter_policy_ok q" "length (table_bytes opt bs) < 2 ^ 32" "opt_filter_policy opt = Some (InternalFilterPolicy q)"
    and "i < length bs" "kv \<in> set (bs ! i)" "ExtractUserKey (fst kv) = ExtractUserKey k"
  shows "reader_KeyMayMatch (InternalFilterPolicy q)
    (FilterBlockReader (build_filter (InternalFilterPolicy q) (filter_list (block_restart_interval opt) bs [])))
    (bh_offset (handle_at (block_restart_interval opt) bs i)) k"
proof -
  let ?iv = "block_restart_interval opt" and ?p = "InternalFilterPolicy q"
  let ?L = "filter_list ?iv bs []"
  have same: "reader_KeyMayMatch ?p r off k = reader_KeyMayMatch ?p r off (fst kv)" for r off
    using assms(6) by (simp add: reader_KeyMayMatch_def InternalFilterPolicy_def)
  have "length (data_bytes ?iv bs) < 2 ^ 64"
    using file_length(1) [of opt bs] assms(2) by (auto intro: le_less_trans less_trans)
  moreover have "length (build_filter ?p ?L) < length (table_bytes opt bs)"
    using assms(3) by (simp add: file_parts filter_bytes_of_def kBlockTrailerSize_def)
  moreover have "(bh_offset (handle_at ?iv bs i), map fst (bs ! i)) \<in> set ?L"
    using assms(4) by (auto simp: filter_list_def handle_at_def nth_append intro!: image_eqI [of _ _ i])
  ultimately show ?thesis
    unfolding same using filter_policy_ok.keeps_keys [OF internal_policy_ok [OF assms(1)] filter_offsets_sorted] assms(2,5) by simp
qed

text \<open>
  What a lookup of an internal key promises: nothing but the first entry that is not below the target is found, and it is found if it
  has the user key of the target.
\<close>

definition lookup_ok :: "comparator \<Rightarrow> entries \<Rightarrow> slice \<Rightarrow> status \<times> (slice \<times> slice) option \<Rightarrow> bool" where
  "lookup_ok user kvs k r \<longleftrightarrow>
     (let j = first_not_less (InternalKeyComparator user) k (map fst kvs)
      in fst r = OK \<and> (snd r = None \<or> j < length kvs \<and> snd r = Some (kvs ! j)) \<and>
         (j < length kvs \<and> ExtractUserKey (fst (kvs ! j)) = ExtractUserKey k \<longrightarrow> snd r = Some (kvs ! j)))"

definition internal_filter :: "filter_policy option \<Rightarrow> bool" where
  "internal_filter policy \<longleftrightarrow> (\<forall>p. policy = Some p \<longrightarrow> (\<exists>q. p = InternalFilterPolicy q \<and> filter_policy_ok q))"

context user_comparator
begin

lemma internal_lookup:
  assumes F: "file_ok (InternalKeyComparator user) (\<lambda>k. 8 \<le> length k) opt bs read" and C: "block_cache cops cache_inv"
    and inv: "cache_holds cache_inv (cached_ok cid (block_restart_interval opt) bs) cache"
    and k: "8 \<le> length k" and pol: "internal_filter (opt_filter_policy opt)"
  shows "\<exists>s found cache'. InternalGet cops (table_of opt bs read cid) ro k cache = Some (s, found, cache') \<and>
    cache_holds cache_inv (cached_ok cid (block_restart_interval opt) bs) cache' \<and> lookup_ok user (concat bs) k (s, found)"
proof -
  let ?c = "InternalKeyComparator user" and ?iv = "block_restart_interval opt"
  define i where "i = first_not_less ?c k (map (sep_after ?c bs) [0..<length bs])"
  define j where "j = first_not_less ?c k (map fst (concat bs))"
  define j' where "j' = first_not_less ?c k (map fst (bs ! i))"
  have f: "length (table_bytes opt bs) < 2 ^ 32" "entries_fit ?c (\<lambda>k. 8 \<le> length k) (concat bs)" "[] \<notin> set bs"
    using F by (simp_all add: file_ok_def)
  note S = searched_block [OF f(2,3) k i_def j_def j'_def]
  let ?rej = "\<exists>p. opt_filter_policy opt = Some p \<and> \<not> reader_KeyMayMatch p
            (FilterBlockReader (build_filter p (filter_list ?iv bs []))) (bh_offset (handle_at ?iv bs i)) k"
  let ?found = "if length bs \<le> i then None else if ?rej then None else if j' < length (bs ! i) then Some (bs ! i ! j') else None"
  obtain cache' where g: "InternalGet cops (table_of opt bs read cid) ro k cache = Some (OK, ?found, cache')"
    "cache_holds cache_inv (cached_ok cid ?iv bs) cache'"
    using internal_table.InternalGet_table [OF F C k inv i_def j'_def] by blast
  have only: "?found = None \<or> j < length (concat bs) \<and> ?found = Some (concat bs ! j)" using S(2) by auto
  have found: "?found = Some (concat bs ! j)" if m: "j < length (concat bs)" "ExtractUserKey (fst (concat bs ! j)) = ExtractUserKey k"
  proof -
    have i: "i < length bs" using S(1) m(1) by (cases "length bs \<le> i") auto
    have j': "j' < length (bs ! i)" using S(3) [OF i m] .
    then have e: "bs ! i ! j' \<in> set (bs ! i)" "concat bs ! j = bs ! i ! j'" using S(2) [OF i j'] by simp_all
    have "\<not> ?rej"
      using table_filter_keeps [OF _ f(1) _ i e(1), of _ k] pol m(2) e(2) by (auto simp: internal_filter_def)
    then show ?thesis using i j' e(2) by simp
  qed
  then have "lookup_ok user (concat bs) k (OK, ?found)"
    unfolding lookup_ok_def Let_def fst_conv snd_conv j_def [symmetric] using only by blast
  with g show ?thesis by blast
qed

end

text \<open>Lookups one after the other; each may change the cache.\<close>

primrec get_all ::
  "'c cache_ops \<Rightarrow> table \<Rightarrow> read_options \<Rightarrow> slice list \<Rightarrow> 'c option \<Rightarrow> ((status \<times> (slice \<times> slice) option) list \<times> 'c option) option" where
  "get_all cops t ro [] cache = Some ([], cache)"
| "get_all cops t ro (k # ks) cache =
     Option.bind (InternalGet cops t ro k cache) (\<lambda>(s, found, cache1).
     Option.bind (get_all cops t ro ks cache1) (\<lambda>(rs, cache2). Some ((s, found) # rs, cache2)))"

lemma internal_lookups:
  assumes "user_comparator user" and F: "file_ok (InternalKeyComparator user) (\<lambda>k. 8 \<le> length k) opt bs read" and C: "block_cache cops cache_inv"
    and "cache_holds cache_inv (cached_ok cid (block_restart_interval opt) bs) cache"
    and "\<forall>k\<in>set ks. 8 \<le> length k" and pol: "internal_filter (opt_filter_policy opt)"
  shows "\<exists>rs cache'. get_all cops (table_of opt bs read cid) ro ks cache = Some (rs, cache') \<and> list_all2 (lookup_ok user (concat bs)) ks rs"
  using assms(4,5)
proof (induction ks arbitrary: cache)
  case (Cons k ks)
  obtain s found cache1 where g: "InternalGet cops (table_of opt bs read cid) ro k cache = Some (s, found, cache1)"
    "cache_holds cache_inv (cached_ok cid (block_restart_interval opt) bs) cache1" "lookup_ok user (concat bs) k (s, found)"
    using user_comparator.internal_lookup [OF assms(1) F C Cons.prems(1) _ pol, of k ro] Cons.prems(2) by auto
  obtain rs cache2 where "get_all cops (table_of opt bs read cid) ro ks cache1 = Some (rs, cache2)"
    "list_all2 (lookup_ok user (concat bs)) ks rs"
    using Cons.IH [OF g(2)] Cons.prems(2) by auto
  then show ?case using g by simp
qed simp

section \<open>Samples\<close>

lemma table_size:
  "length (table_bytes opt bs) = length (data_bytes (block_restart_interval opt) bs) + length (filter_bytes_of opt bs) +
     length (meta_block opt bs) + length (index_block_of opt bs) + 58"
  by (simp add: file_parts length_footer kEncodedLength_def kMaxEncodedLength_def kBlockTrailerSize_def)

definition sample_options :: "comparator \<Rightarrow> filter_policy option \<Rightarrow> options" where
  "sample_options c p = \<lparr>opt_comparator = c, paranoid_checks = True, opt_block_size = 20, block_restart_interval = 2,
     compression = kSnappyCompression, opt_filter_policy = p\<rparr>"

lemma sample_file_fine: "file_fine sample_file" "\<not> w_is_manifest sample_file" "k_bytes (w_fd sample_file) = []" "w_buf sample_file = []"
proof -
  show "file_fine sample_file" by (simp add: sample_file_def PosixWritableFile_def sample_kernel_def io_fine_def)
  show "\<not> w_is_manifest sample_file" by code_simp
qed (simp_all add: sample_file_def PosixWritableFile_def sample_kernel_def)

lemma two_blocks:
  assumes "concat bs = [a, b]" "[] \<notin> set bs"
  shows "bs = [[a, b]] \<or> bs = [[a], [b]]"
proof (cases bs)
  case (Cons x ys)
  then have x: "x @ concat ys = [a, b]" "x \<noteq> []" "[] \<notin> set ys" using assms by auto
  consider "x = [a]" "concat ys = [b]" | "x = [a, b]" "concat ys = []" using x(1,2) by (auto simp: append_eq_Cons_conv)
  then show ?thesis
  proof cases
    case 1
    then obtain z zs where "ys = z # zs" "z \<noteq> []" using x(3) by (cases ys) auto
    then show ?thesis using 1 Cons x(3) by (auto simp: append_eq_Cons_conv) (metis concat_eq_Nil_conv list.set_intros(1) neq_Nil_conv)
  next
    case 2
    then show ?thesis using Cons x(3) by (cases ys) auto
  qed
qed (use assms in simp)

lemma length_handle: "length (bh_EncodeTo h []) \<le> 20"
  using length_bh_EncodeTo(1) [of h] by (simp add: kMaxEncodedLength_def)

lemma sample_small:
  assumes "concat bs = [([97], [1]), ([98], [2])]" "[] \<notin> set bs"
  shows "length (table_bytes (sample_options BytewiseComparator None) bs) < 2 ^ 32"
proof -
  let ?o = "sample_options BytewiseComparator None"
  let ?ix = "index_entries BytewiseComparator 2 bs (length bs)"
  have sel: "block_restart_interval ?o = 2" "opt_comparator ?o = BytewiseComparator" "opt_filter_policy ?o = None" by (simp_all add: sample_options_def)
  have bs: "bs = [[([97], [1]), ([98], [2])]] \<or> bs = [[([97], [1])], [([98], [2])]]" using two_blocks [OF assms] .
  have "length (data_bytes 2 bs) \<le> 100"
    using bs length_build_block [of 2 "[([97], [1]), ([98], [2])]"] length_build_block [of 2 "[([97], [1])]"] length_build_block [of 2 "[([98], [2])]"]
    by (auto simp: data_bytes_def kBlockTrailerSize_def)
  moreover have "length (index_block_of ?o bs) \<le> 200"
  proof -
    have s: "FindShortestSeparator BytewiseComparator [97] [98] = [97]" "FindShortSuccessor BytewiseComparator [98] = [99]" by code_simp+
    have "length (index_block_of ?o bs) \<le> 8 + sum_list (map (\<lambda>(k, v). 19 + length k + length v) ?ix)"
      unfolding index_block_of_def sel by (rule length_build_block)
    also have "\<dots> \<le> 200"
      using bs length_handle [of "handle_at 2 bs 0"] length_handle [of "handle_at 2 bs 1"]
      by (elim disjE) (simp_all add: index_entries_def sep_after_def s)
    finally show ?thesis .
  qed
  moreover have "length (meta_block ?o bs) \<le> 8" using length_build_block [of 2 "meta_entries ?o bs"] by (simp add: meta_block_def sel meta_entries_def)
  moreover have "filter_bytes_of ?o bs = []" by (simp add: filter_bytes_of_def sel)
  ultimately have "length (table_bytes ?o bs) \<le> 400" unfolding table_size sel by simp
  then show ?thesis by (rule le_less_trans) simp
qed

lemma sample_filter_small:
  fixes kv :: "slice \<times> slice" and p :: filter_policy
  defines "p \<equiv> InternalFilterPolicy (BloomFilterPolicy 10)"
  assumes "concat bs = [kv]" "[] \<notin> set bs" "kv = (InternalKey [97] 7 kTypeValue, [1])"
  shows "length (table_bytes (sample_options (InternalKeyComparator BytewiseComparator) (Some p)) bs) < 2 ^ 32"
proof -
  let ?c = "InternalKeyComparator BytewiseComparator"
  let ?o = "sample_options ?c (Some p)"
  have sel: "block_restart_interval ?o = 2" "opt_comparator ?o = ?c" "opt_filter_policy ?o = Some p" by (simp_all add: sample_options_def)
  have bs: "bs = [[kv]]"
  proof (cases bs)
    case (Cons x xs)
    then have "x = [kv]" "concat xs = []" using assms(2,3) by (auto simp: append_eq_Cons_conv)
    then show ?thesis using Cons assms(3) by (cases xs) auto
  qed (use assms(2) in simp)
  have len: "length (build_block 2 [kv]) \<le> 40" using length_build_block [of 2 "[kv]"] assms(4) by simp
  then have data: "length (data_bytes 2 bs) \<le> 45" by (simp add: bs data_bytes_def kBlockTrailerSize_def)
  have "length (filter_bytes_of ?o bs) \<le> 100"
  proof -
    have "(of_nat (length (data_bytes 2 [[kv]])) :: u64) div kFilterBase = 0"
      unfolding word_unat_eq_iff unat_div using data by (simp add: bs kFilterBase_def kFilterBaseLg_def unat_of_nat_u64)
    then have "length (build_filter p (filter_list 2 [[kv]] [])) \<le> 50"
      by (simp add: filter_list_def build_filter_def filter_Finish_def StartBlock_def start_loop.simps GenerateFilter_def AddKey_def
        FilterBlockBuilder_def p_def InternalFilterPolicy_def BloomFilterPolicy_def length_bloom PutFixed32_def Let_def data_bytes_def)
    then show ?thesis by (simp add: filter_bytes_of_def sel bs kBlockTrailerSize_def)
  qed
  moreover have "length (index_block_of ?o bs) \<le> 100"
  proof -
    have "length (FindShortSuccessor ?c (fst kv)) \<le> 9"
      using bytewise.internal_succ_above [of "fst kv"] assms(4) by simp
    then show ?thesis
      using length_build_block [of 1 "index_entries ?c 2 bs 1"] length_handle [of "handle_at 2 bs 0"]
      by (simp add: index_block_of_def sel bs index_entries_def sep_after_def)
  qed
  moreover have "length (meta_block ?o bs) \<le> 100"
  proof -
    let ?h = "\<lparr>bh_offset = of_nat (length (data_bytes 2 bs)), bh_size = of_nat (length (build_filter p (filter_list 2 bs [])))\<rparr>"
    have "length (meta_block ?o bs) \<le> 8 + (19 + length (cstr ''filter.'' @ policy_Name p) + length (bh_EncodeTo ?h []))"
      using length_build_block [of 2 "meta_entries ?o bs"] by (simp add: meta_block_def meta_entries_def sel Let_def)
    moreover have "length (policy_Name p) = 27" by (simp add: p_def InternalFilterPolicy_def BloomFilterPolicy_def cstr_def)
    ultimately show ?thesis using length_handle [of ?h] by (simp add: cstr_def)
  qed
  ultimately have "length (table_bytes ?o bs) \<le> 1000" unfolding table_size sel using data by simp
  then show ?thesis by (rule le_less_trans) simp
qed

definition sample_read :: read_options where
  "sample_read = \<lparr>verify_checksums = True, fill_cache = True\<rparr>"

abbreviation sample_sync :: sync_answer where
  "sample_sync \<equiv> \<lparr>full_ok = True, fsync_errno = None\<rparr>"

lemma sample_fresh: "fresh_cache lru_block_cache block_cache_inv (Some (ShardedLRUCache 100))"
  using sharded_new by (auto simp: fresh_cache_def cache_holds_def block_cache_inv_def)

section \<open>Properties\<close>

text \<open>
  C17: a table is the sorted list it was built from. Entries in strictly increasing order are added to a builder on an empty
  POSIX file, which finishes and is synced without an error; block sizes, compression and filter are arbitrary. Then the file opens as a table without an error,
  with or without a block cache, and after every sequence of seeks and steps in both directions the two-level iterator over the table has no error and shows the
  entry that a position in the list shows, however the entries were cut into blocks and whatever blocks are cached.
\<close>
theorem table_is_sorted_list:
  assumes "table_order c ok" "opt_comparator opt = c" "1 \<le> block_restart_interval opt" "entries_fit c ok kvs"
    and "k_bytes (w_fd f) = []" "w_buf f = []" "write_table opt dir_ans ans f kvs = (OK, n, w)"
    and "random_file read (k_bytes (w_fd w))" "length (k_bytes (w_fd w)) < 2 ^ 32"
    and "block_cache cops cache_inv" "fresh_cache cops cache_inv cache"
  shows "\<exists>t cache1. Open cops opt read n cache = Some (OK, Some t, cache1) \<and>
    (\<forall>ro ms p. (\<forall>target. Op_Seek target \<in> set ms \<longrightarrow> ok target) \<longrightarrow> list_run c (map fst kvs) ms (length kvs) = Some p \<longrightarrow>
      (\<exists>it. iter_run (tl_ops (table_env cops t ro)) ms (table_NewIterator cops t ro, cache1) = Some it \<and>
         iter_shows (tl_ops (table_env cops t ro)) it kvs p))"
proof -
  obtain bs cid cache1 where bs: "concat bs = kvs" "file_ok c ok opt bs read"
    "Open cops opt read n cache = Some (OK, Some (table_of opt bs read cid), cache1)"
    "cache_holds cache_inv (cached_ok cid (block_restart_interval opt) bs) cache1"
    using written_opens [OF assms(5-7,2-4,8-11)] by blast
  note run = table_order.table_runs [OF assms(1) bs(2) assms(10) bs(4), unfolded bs(1)]
  show ?thesis
    by (rule exI [of _ "table_of opt bs read cid"], rule exI [of _ cache1]) (use bs(3) run in auto)
qed

theorem table_is_sorted_list_witness:
  "\<exists>t cache1 it opt read n. Open lru_block_cache opt read n (Some (ShardedLRUCache 100)) = Some (OK, Some t, cache1) \<and>
     iter_run (tl_ops (table_env lru_block_cache t sample_read)) [Op_Seek [97, 1], Op_Prev, Op_Next] (table_NewIterator lru_block_cache t sample_read, cache1) = Some it \<and>
     it_key (tl_ops (table_env lru_block_cache t sample_read)) it = [98] \<and> it_value (tl_ops (table_env lru_block_cache t sample_read)) it = Some [2]"
proof -
  let ?o = "sample_options BytewiseComparator None" and ?kvs = "[([97], [1]), ([98], [2])] :: entries"
  obtain n w where w: "write_table ?o (Inl 0) sample_sync sample_file ?kvs = (OK, n, w)"
    using write_table_fine [OF sample_file_fine(1,2), of sample_sync ?o "Inl 0" ?kvs] by auto
  obtain bs where bs: "concat bs = ?kvs" "[] \<notin> set bs" "k_bytes (w_fd w) = table_bytes ?o bs"
    by (rule write_table_bytes [OF sample_file_fine(3,4) w]) (rule that)
  have small: "length (k_bytes (w_fd w)) < 2 ^ 32" unfolding bs(3) by (rule sample_small [OF bs(1,2)])
  then have read: "random_file (mmap_Read (\<lambda>e. []) [] (k_bytes (w_fd w))) (k_bytes (w_fd w))" by (intro mmap_random_file) simp
  have fit: "entries_fit BytewiseComparator (\<lambda>_. True) ?kvs" unfolding entries_fit_def by code_simp
  have run: "list_run BytewiseComparator (map fst ?kvs) [Op_Seek [97, 1], Op_Prev, Op_Next] (length ?kvs) = Some 1" by code_simp
  have sel: "opt_comparator ?o = BytewiseComparator" "1 \<le> block_restart_interval ?o" by (simp_all add: sample_options_def)
  from table_is_sorted_list [OF bytewise.user_table.table_order_axioms sel fit sample_file_fine(3,4) w read small
      lru_blocks.block_cache_axioms sample_fresh] obtain t cache1 where
    t: "Open lru_block_cache ?o (mmap_Read (\<lambda>e. []) [] (k_bytes (w_fd w))) n (Some (ShardedLRUCache 100)) = Some (OK, Some t, cache1)"
    and runs: "\<forall>ms p. (\<forall>target. Op_Seek target \<in> set ms \<longrightarrow> True) \<longrightarrow> list_run BytewiseComparator (map fst ?kvs) ms (length ?kvs) = Some p \<longrightarrow>
      (\<exists>it. iter_run (tl_ops (table_env lru_block_cache t sample_read)) ms (table_NewIterator lru_block_cache t sample_read, cache1) = Some it \<and>
         iter_shows (tl_ops (table_env lru_block_cache t sample_read)) it ?kvs p)" by blast
  from runs [rule_format, OF _ run] obtain it where
    "iter_run (tl_ops (table_env lru_block_cache t sample_read)) [Op_Seek [97, 1], Op_Prev, Op_Next] (table_NewIterator lru_block_cache t sample_read, cache1) = Some it"
    "iter_shows (tl_ops (table_env lru_block_cache t sample_read)) it ?kvs 1" by blast
  then show ?thesis using t unfolding iter_shows_def by fastforce
qed

text \<open>
  C18: lookups in a table find the newest visible entry. A table of internal keys is built, with or without a filter over the user keys, and opened with or without
  a block cache. Then every sequence of lookups succeeds: a lookup finds the first entry that is not below its target if
  that entry has the user key of the target, and it never finds any other entry. So the shortened keys of the index, the filter and
  the cache hide no entry.
\<close>
theorem table_get:
  assumes "user_comparator user" "opt_comparator opt = InternalKeyComparator user" "1 \<le> block_restart_interval opt"
    and "entries_fit (InternalKeyComparator user) (\<lambda>k. 8 \<le> length k) kvs" "internal_filter (opt_filter_policy opt)"
    and "k_bytes (w_fd f) = []" "w_buf f = []" "write_table opt dir_ans ans f kvs = (OK, n, w)"
    and "random_file read (k_bytes (w_fd w))" "length (k_bytes (w_fd w)) < 2 ^ 32"
    and "block_cache cops cache_inv" "fresh_cache cops cache_inv cache" "\<forall>k\<in>set ks. 8 \<le> length k"
  shows "\<exists>t cache1 rs cache2. Open cops opt read n cache = Some (OK, Some t, cache1) \<and>
    get_all cops t ro ks cache1 = Some (rs, cache2) \<and> list_all2 (lookup_ok user kvs) ks rs"
proof -
  obtain bs cid cache1 where bs: "concat bs = kvs" "file_ok (InternalKeyComparator user) (\<lambda>k. 8 \<le> length k) opt bs read"
    "Open cops opt read n cache = Some (OK, Some (table_of opt bs read cid), cache1)"
    "cache_holds cache_inv (cached_ok cid (block_restart_interval opt) bs) cache1"
    using written_opens [OF assms(6-8,2-4,9-12)] by blast
  from internal_lookups [OF assms(1) bs(2) assms(11) bs(4) assms(13,5)] bs(1,3) show ?thesis by blast
qed

theorem table_get_witness:
  "\<exists>t cache1 rs cache2 opt read n. Open lru_block_cache opt read n (Some (ShardedLRUCache 100)) = Some (OK, Some t, cache1) \<and>
     get_all lru_block_cache t sample_read [InternalKey [97] 9 kValueTypeForSeek, InternalKey [97] 8 kValueTypeForSeek] cache1 = Some (rs, cache2) \<and>
     map snd rs = [Some (InternalKey [97] 7 kTypeValue, [1]), Some (InternalKey [97] 7 kTypeValue, [1])]"
proof -
  let ?c = "InternalKeyComparator BytewiseComparator" and ?p = "InternalFilterPolicy (BloomFilterPolicy 10)"
  let ?o = "sample_options ?c (Some ?p)" and ?kvs = "[(InternalKey [97] 7 kTypeValue, [1])]"
  let ?ks = "[InternalKey [97] 9 kValueTypeForSeek, InternalKey [97] 8 kValueTypeForSeek]"
  obtain n w where w: "write_table ?o (Inl 0) sample_sync sample_file ?kvs = (OK, n, w)"
    using write_table_fine [OF sample_file_fine(1,2), of sample_sync ?o "Inl 0" ?kvs] by auto
  obtain bs where bs: "concat bs = ?kvs" "[] \<notin> set bs" "k_bytes (w_fd w) = table_bytes ?o bs"
    by (rule write_table_bytes [OF sample_file_fine(3,4) w]) (rule that)
  have small: "length (k_bytes (w_fd w)) < 2 ^ 32" unfolding bs(3) by (rule sample_filter_small [OF bs(1,2) refl])
  then have read: "random_file (mmap_Read (\<lambda>e. []) [] (k_bytes (w_fd w))) (k_bytes (w_fd w))" by (intro mmap_random_file) simp
  have fit: "entries_fit ?c (\<lambda>k. 8 \<le> length k) ?kvs" by (simp add: entries_fit_def)
  have sel: "opt_comparator ?o = ?c" "1 \<le> block_restart_interval ?o" "internal_filter (opt_filter_policy ?o)"
    using bloom.filter_policy_ok_axioms by (auto simp: sample_options_def internal_filter_def)
  have keys: "\<forall>k\<in>set ?ks. 8 \<le> length k" by simp
  from table_get [OF bytewise.user_comparator_axioms sel(1,2) fit sel(3) sample_file_fine(3,4) w read small
      lru_blocks.block_cache_axioms sample_fresh keys, of sample_read] obtain t cache1 rs cache2 where
    t: "Open lru_block_cache ?o (mmap_Read (\<lambda>e. []) [] (k_bytes (w_fd w))) n (Some (ShardedLRUCache 100)) = Some (OK, Some t, cache1)"
    "get_all lru_block_cache t sample_read ?ks cache1 = Some (rs, cache2)" "list_all2 (lookup_ok BytewiseComparator ?kvs) ?ks rs" by blast
  have "\<not> Compare ?c (InternalKey [97] 7 kTypeValue) (?ks ! 0) < 0" "\<not> Compare ?c (InternalKey [97] 7 kTypeValue) (?ks ! 1) < 0" by code_simp+
  then have "map snd rs = [Some (InternalKey [97] 7 kTypeValue, [1]), Some (InternalKey [97] 7 kTypeValue, [1])]"
    using t(3) by (auto simp: lookup_ok_def list_all2_Cons1)
  with t(1,2) show ?thesis
    by (intro exI [of _ t] exI [of _ cache1] exI [of _ rs] exI [of _ cache2] exI [of _ ?o]) (intro exI conjI)
qed



end
