(* ===== verification/Ldb_Db_View.thy ===== *)
theory Ldb_Db_View
  imports Ldb_Db_Iter Ldb_Memtable_Iter Ldb_Table_Spec
begin

text \<open>
  What the users of the database see: the iterator of the database over the merged iterators of memory tables and table files, and its
  agreement with lookups. The iterators over tables share the block cache.
\<close>

section \<open>Iterators as objects\<close>

text \<open>An iterator that does not use the shared state, and an object, which is its virtual calls and its own state.\<close>

definition lift_ops :: "'i iter_ops \<Rightarrow> ('i \<times> 's) iter_ops" where
  "lift_ops f =
     \<lparr>it_Valid = it_Valid f \<circ> fst, it_key = it_key f \<circ> fst, it_value = it_value f \<circ> fst, it_status = it_status f \<circ> fst,
      it_Seek = (\<lambda>t (i, s). map_option (\<lambda>i. (i, s)) (it_Seek f t i)),
      it_SeekToFirst = (\<lambda>(i, s). map_option (\<lambda>i. (i, s)) (it_SeekToFirst f i)),
      it_SeekToLast = (\<lambda>(i, s). map_option (\<lambda>i. (i, s)) (it_SeekToLast f i)),
      it_Next = (\<lambda>(i, s). map_option (\<lambda>i. (i, s)) (it_Next f i)),
      it_Prev = (\<lambda>(i, s). map_option (\<lambda>i. (i, s)) (it_Prev f i))\<rparr>"

type_synonym ('i, 's) iter_obj = "('i \<times> 's) iter_ops \<times> 'i"

definition obj_move :: "('i \<times> 's) iter_ops \<Rightarrow> ('i \<times> 's \<Rightarrow> ('i \<times> 's) option) \<Rightarrow> 'i \<Rightarrow> 's \<Rightarrow> (('i, 's) iter_obj \<times> 's) option" where
  "obj_move f mv i s = map_option (\<lambda>(i1, s1). ((f, i1), s1)) (mv (i, s))"

definition obj_ops :: "(('i, 's) iter_obj \<times> 's) iter_ops" where
  "obj_ops =
     \<lparr>it_Valid = (\<lambda>((f, i), s). it_Valid f (i, s)), it_key = (\<lambda>((f, i), s). it_key f (i, s)),
      it_value = (\<lambda>((f, i), s). it_value f (i, s)), it_status = (\<lambda>((f, i), s). it_status f (i, s)),
      it_Seek = (\<lambda>t ((f, i), s). obj_move f (it_Seek f t) i s),
      it_SeekToFirst = (\<lambda>((f, i), s). obj_move f (it_SeekToFirst f) i s),
      it_SeekToLast = (\<lambda>((f, i), s). obj_move f (it_SeekToLast f) i s),
      it_Next = (\<lambda>((f, i), s). obj_move f (it_Next f) i s), it_Prev = (\<lambda>((f, i), s). obj_move f (it_Prev f) i s)\<rparr>"

text \<open>An object iterates over a list: it has the contract, and stands at no entry yet.\<close>

definition iterates :: "comparator \<Rightarrow> (slice \<Rightarrow> bool) \<Rightarrow> ('s \<Rightarrow> bool) \<Rightarrow> ('i \<times> 's) iter_ops \<Rightarrow> 'i \<Rightarrow> entries \<Rightarrow> bool" where
  "iterates c ok s_ok f i kvs \<longleftrightarrow> (\<exists>P. list_iterator f c ok (with_state s_ok P) \<and> P kvs i (length kvs))"

definition obj_at :: "comparator \<Rightarrow> (slice \<Rightarrow> bool) \<Rightarrow> ('s \<Rightarrow> bool) \<Rightarrow> entries \<Rightarrow> ('i, 's) iter_obj \<Rightarrow> nat \<Rightarrow> bool" where
  "obj_at c ok s_ok kvs x p \<longleftrightarrow> (\<exists>P. list_iterator (fst x) c ok (with_state s_ok P) \<and> P kvs (snd x) p)"

lemma obj_move_at:
  assumes "with_state s_ok (obj_at c ok s_ok) kvs ((f, i), s) p"
    and "\<And>P. list_iterator f c ok (with_state s_ok P) \<Longrightarrow> with_state s_ok P kvs (i, s) p \<Longrightarrow> \<exists>x. mv (i, s) = Some x \<and> with_state s_ok P kvs x q"
  shows "\<exists>x. obj_move f mv i s = Some x \<and> with_state s_ok (obj_at c ok s_ok) kvs x q"
proof -
  obtain P where P: "list_iterator f c ok (with_state s_ok P)" "with_state s_ok P kvs (i, s) p"
    using assms(1) by (auto simp: obj_at_def with_state_def)
  from assms(2) [OF P] obtain x where "mv (i, s) = Some x" "with_state s_ok P kvs x q" by blast
  then show ?thesis using P(1) by (cases x) (auto simp: obj_at_def obj_move_def with_state_def)
qed

interpretation objects: shared_iterator obj_ops c ok s_ok "obj_at c ok s_ok" for c ok s_ok
proof (unfold_locales, goal_cases)
  case (1 kvs it i)
  obtain f j s where it: "it = ((f, j), s)" by (metis surj_pair)
  from 1 obtain P where "list_iterator f c ok (with_state s_ok P)" "with_state s_ok P kvs (j, s) i" by (auto simp: it obj_at_def with_state_def)
  then show ?case by (auto simp: it obj_ops_def dest: list_iterator.at_valid)
next
  case (2 kvs it i)
  obtain f j s where it: "it = ((f, j), s)" by (metis surj_pair)
  from 2 obtain P where "list_iterator f c ok (with_state s_ok P)" "with_state s_ok P kvs (j, s) i" by (auto simp: it obj_at_def with_state_def)
  then show ?case by (auto dest: list_iterator.at_bound)
next
  case (3 kvs it i)
  obtain f j s where it: "it = ((f, j), s)" by (metis surj_pair)
  from 3(1) obtain P where "list_iterator f c ok (with_state s_ok P)" "with_state s_ok P kvs (j, s) i" by (auto simp: it obj_at_def with_state_def)
  then show ?case using 3(2) by (auto simp: it obj_ops_def dest: list_iterator.at_entry)
next
  case (4 kvs it i)
  obtain f j s where it: "it = ((f, j), s)" by (metis surj_pair)
  from 4 obtain P where "list_iterator f c ok (with_state s_ok P)" "with_state s_ok P kvs (j, s) i" by (auto simp: it obj_at_def with_state_def)
  then show ?case by (auto simp: it obj_ops_def dest: list_iterator.at_status)
next
  case (5 kvs it i t)
  obtain f j s where it: "it = ((f, j), s)" by (metis surj_pair)
  show ?case unfolding it obj_ops_def iter_ops.simps prod.case
    by (rule obj_move_at [OF 5(1) [unfolded it]]) (erule (1) list_iterator.at_seek, rule 5(2))
next
  case (6 kvs it i)
  obtain f j s where it: "it = ((f, j), s)" by (metis surj_pair)
  show ?case unfolding it obj_ops_def iter_ops.simps prod.case
    by (rule obj_move_at [OF 6 [unfolded it]]) (erule (1) list_iterator.at_first)
next
  case (7 kvs it i)
  obtain f j s where it: "it = ((f, j), s)" by (metis surj_pair)
  show ?case unfolding it obj_ops_def iter_ops.simps prod.case
    by (rule obj_move_at [OF 7 [unfolded it]]) (erule (1) list_iterator.at_last)
next
  case (8 kvs it i)
  obtain f j s where it: "it = ((f, j), s)" by (metis surj_pair)
  show ?case unfolding it obj_ops_def iter_ops.simps prod.case
    by (rule obj_move_at [OF 8(1) [unfolded it]]) (erule (1) list_iterator.at_next, rule 8(2))
next
  case (9 kvs it i)
  obtain f j s where it: "it = ((f, j), s)" by (metis surj_pair)
  show ?case unfolding it obj_ops_def iter_ops.simps prod.case
    by (rule obj_move_at [OF 9(1) [unfolded it]]) (erule (1) list_iterator.at_prev, rule 9(2))
qed

lemma list_iterator_weaken:
  assumes "list_iterator f c ok P" "\<And>t. ok' t \<Longrightarrow> ok t"
  shows "list_iterator f c ok' P"
  by (rule list_iterator.intro)
    (rule list_iterator.at_valid [OF assms(1)] list_iterator.at_bound [OF assms(1)] list_iterator.at_entry [OF assms(1)]
      list_iterator.at_status [OF assms(1)] list_iterator.at_seek [OF assms(1) _ assms(2)] list_iterator.at_first [OF assms(1)]
      list_iterator.at_last [OF assms(1)] list_iterator.at_next [OF assms(1)] list_iterator.at_prev [OF assms(1)]; assumption)+

lemma lift_move:
  assumes "with_state s_ok P kvs it i" "\<And>x. P kvs x i \<Longrightarrow> \<exists>x'. mv x = Some x' \<and> P kvs x' j"
  shows "\<exists>it'. (\<lambda>(i, s). map_option (\<lambda>i. (i, s)) (mv i)) it = Some it' \<and> with_state s_ok P kvs it' j"
  using assms(1) assms(2) [of "fst it"] by (cases it) (auto simp: with_state_def)

lemma lift_iterator:
  assumes "list_iterator f c ok P"
  shows "list_iterator (lift_ops f) c ok (with_state s_ok P)"
proof (unfold_locales, goal_cases)
  case (1 kvs it i) then show ?case using list_iterator.at_valid [OF assms] by (auto simp: lift_ops_def with_state_def)
next
  case (2 kvs it i) then show ?case using list_iterator.at_bound [OF assms] by (auto simp: with_state_def)
next
  case (3 kvs it i) then show ?case using list_iterator.at_entry [OF assms] by (auto simp: lift_ops_def with_state_def)
next
  case (4 kvs it i) then show ?case using list_iterator.at_status [OF assms] by (auto simp: lift_ops_def with_state_def)
next
  case (5 kvs it i t) show ?case unfolding lift_ops_def iter_ops.simps by (rule lift_move [OF 5(1)]) (rule list_iterator.at_seek [OF assms _ 5(2)])
next
  case (6 kvs it i) show ?case unfolding lift_ops_def iter_ops.simps by (rule lift_move [OF 6]) (rule list_iterator.at_first [OF assms])
next
  case (7 kvs it i) show ?case unfolding lift_ops_def iter_ops.simps by (rule lift_move [OF 7]) (rule list_iterator.at_last [OF assms])
next
  case (8 kvs it i) show ?case unfolding lift_ops_def iter_ops.simps by (rule lift_move [OF 8(1)]) (rule list_iterator.at_next [OF assms _ 8(2)])
next
  case (9 kvs it i) show ?case unfolding lift_ops_def iter_ops.simps by (rule lift_move [OF 9(1)]) (rule list_iterator.at_prev [OF assms _ 9(2)])
qed

lemma iterates_run:
  assumes "iterates c ok s_ok f i kvs" "s_ok s" "\<forall>t. Op_Seek t \<in> set ms \<longrightarrow> ok t" "list_run c (map fst kvs) ms (length kvs) = Some p"
  shows "\<exists>x. iter_run f ms (i, s) = Some x \<and> iter_shows f x kvs p"
proof -
  obtain P where P: "list_iterator f c ok (with_state s_ok P)" "with_state s_ok P kvs (i, s) (length kvs)"
    using assms(1,2) by (auto simp: iterates_def with_state_def)
  from list_iterator.run_at [OF P assms(3,4)] list_iterator.at_shows [OF P(1)] show ?thesis by blast
qed

section \<open>Merging\<close>

lemma merged_iterates:
  assumes "block_order c ok" "list_iterator ops c ok (with_state s_ok P)" "mergeable c ok kss" "s_ok s"
    and "list_all2 (\<lambda>it kvs. P kvs it (length kvs)) its kss"
  shows "iterates c ok s_ok (merged_ops ops c) (NewMergingIterator ops s its) (map fst (merge_lists c kss))"
proof -
  have M: "merging_iterator c ok ops s_ok P"
    using assms(1,2) by (simp add: merging_iterator_def shared_iterator_def)
  note m = block_order.merge_lists_merge [OF assms(1,3)]
  have l: "length its = length kss" using assms(5) by (rule list_all2_lengthD)
  have "\<forall>i<length kss. P (kss ! i) (its ! i) (length (kss ! i))" using list_all2_nthD2 [OF assms(5)] by simp
  from merging_iterator.merged_new [OF M m l this assms(4)] merging_iterator.merged_iterator [OF M] show ?thesis
    unfolding iterates_def by blast
qed

section \<open>Tables\<close>

context two_level_iterator
begin

lemma tl_iterates:
  assumes "list_iterator f c ok (tl_at ixs bs s_ok)" "tl_at ixs bs s_ok kvs (t, s) (length kvs)"
  shows "iterates c ok s_ok f t kvs"
proof -
  let ?P = "\<lambda>kvs t. tl_at ixs bs (\<lambda>_. True) kvs (t, s)"
  have "tl_at ixs bs s_ok = with_state s_ok ?P"
    by (intro ext) (auto simp: tl_at_def with_state_def in_block_def ended_def)
  then have "list_iterator f c ok (with_state s_ok ?P)" using assms(1) by simp
  moreover have "?P kvs t (length kvs)" using assms(2) by (auto simp: tl_at_def in_block_def ended_def)
  ultimately show ?thesis unfolding iterates_def by blast
qed

end

context table_order
begin

lemma table_iterates:
  assumes "file_ok c ok opt bs read" "block_cache cops cache_inv" "caches P cid (block_restart_interval opt) bs"
  shows "iterates c ok (cache_holds cache_inv P) (tl_ops (table_env cops (table_of opt bs read cid) ro))
    (table_NewIterator cops (table_of opt bs read cid) ro) (concat bs)"
proof -
  have "cache_holds cache_inv P None" by (simp add: cache_holds_def)
  from table_iterator_at [OF assms this, of ro] show ?thesis
    by (rule two.tl_iterates [OF two.two_level_contract [OF walks_table [OF assms, of ro]]])
qed

end

section \<open>The view of the user\<close>

lemma parsed_up_kv:
  assumes "es ! p = up_kv u" "up_seq u \<le> kMaxSequenceNumber"
  shows "ukey es p = up_key u" "pk_sequence (parsed_at es p) = up_seq u" "pk_type (parsed_at es p) = up_type u"
  using assms by (simp_all add: parsed_at_def up_kv_def Parse_InternalKey)

text \<open>The internal entries of updates, in order.\<close>

definition entries_of :: "comparator \<Rightarrow> update list \<Rightarrow> entries \<Rightarrow> bool" where
  "entries_of user us es \<longleftrightarrow> set es = up_kv ` set us \<and> sorted_wrt (\<lambda>a b. internal_Compare user a b < 0) (map fst es)"

text \<open>What the users see at a snapshot: the keys for which a lookup finds a value, in order, with these values.\<close>

definition view_of :: "comparator \<Rightarrow> update list \<Rightarrow> SequenceNumber \<Rightarrow> entries \<Rightarrow> bool" where
  "view_of user us s kvs \<longleftrightarrow> sorted_wrt (\<lambda>a b. Compare user a b < 0) (map fst kvs) \<and>
     (\<forall>uk v. (\<exists>k. (k, v) \<in> set kvs \<and> Compare user k uk = 0) \<longleftrightarrow> lookup_result (visible user us uk s) = (True, Some v, None))"

context user_comparator
begin

lemma entries_internal:
  assumes "entries_of user us es" "ups_ok us"
  shows "internal_entries user es"
proof -
  have "entry_parses (up_kv u)" if "u \<in> set us" for u
    using assms(2) that by (auto simp: entry_parses_def up_kv_def ups_ok_def Parse_InternalKey fits_def)
  then show ?thesis using assms(1) by (auto simp: internal_entries_def entries_of_def list_all_iff)
qed

lemma newer_first:
  assumes "ups_ok us" "u \<in> set us" "w \<in> set us" "Compare user (up_key u) (up_key w) = 0"
  shows "internal_Compare user (fst (up_kv u)) (fst (up_kv w)) < 0 \<longleftrightarrow> up_seq w < up_seq u"
proof -
  have s: "up_seq u \<le> kMaxSequenceNumber" "up_seq w \<le> kMaxSequenceNumber" using assms(1-3) by (auto simp: ups_ok_def)
  have t: "up_type u = up_type w" if "up_seq u = up_seq w" using inj_onD [OF ups_ok_inj [OF assms(1)] that assms(2,3)] by simp
  have "internal_Compare user (fst (up_kv u)) (fst (up_kv w)) < 0 \<longleftrightarrow>
      PackSequenceAndType (up_seq w) (up_type w) < PackSequenceAndType (up_seq u) (up_type u)"
    using assms(4) by (simp add: internal_less up_kv_def)
  also have "\<dots> \<longleftrightarrow> up_seq w < up_seq u" unfolding Pack_less [OF s(2,1)] using t by force
  finally show ?thesis .
qed

lemma entry_before:
  assumes "entries_of user us es" "p < length es" "q < length es" "internal_Compare user (fst (es ! p)) (fst (es ! q)) < 0"
  shows "p < q"
proof (rule ccontr)
  assume "\<not> p < q"
  have l: "8 \<le> length (fst (es ! i))" if "i < length es" for i
    using assms(1) nth_mem [OF that] by (auto simp: entries_of_def up_kv_def)
  note \<open>\<not> p < q\<close>
  moreover have "sorted_wrt (\<lambda>a b. internal_Compare user a b < 0) (map fst es)" using assms(1) by (simp add: entries_of_def)
  ultimately have "p = q \<or> internal_Compare user (fst (es ! q)) (fst (es ! p)) < 0"
    using sorted_wrt_nth_less [of "\<lambda>a b. internal_Compare user a b < 0" "map fst es" q p] assms(2) by (cases "p = q") auto
  then show False
    using assms(4) internal.cmp_swap [OF l [OF assms(2)] l [OF assms(3)]] internal.cmp_self [OF l [OF assms(2)]] by auto
qed

lemma entry_at: "entries_of user us es \<Longrightarrow> u \<in> set us \<Longrightarrow> \<exists>p<length es. es ! p = up_kv u"
  unfolding entries_of_def by (metis image_eqI in_set_conv_nth)

lemma view_lookup:
  assumes E: "entries_of user us es" and U: "ups_ok us"
  shows "(\<exists>k. (k, v) \<in> set (user_view user s es) \<and> Compare user k uk = 0) \<longleftrightarrow> lookup_result (visible user us uk s) = (True, Some v, None)"
proof -
  have ups: "\<exists>u\<in>set us. es ! p = up_kv u \<and> up_seq u \<le> kMaxSequenceNumber" if "p < length es" for p
    using E U nth_mem [OF that] by (auto simp: entries_of_def ups_ok_def)
  have view: "(k, v) \<in> set (user_view user s es) \<longleftrightarrow> (\<exists>p<length es. shown user s es p \<and> k = ukey es p \<and> v = snd (es ! p))" for k
    by (auto simp: user_view_def shown_list_def)
  have "(\<exists>p<length es. shown user s es p \<and> Compare user (ukey es p) uk = 0 \<and> v = snd (es ! p)) \<longleftrightarrow>
      lookup_result (visible user us uk s) = (True, Some v, None)"
  proof
    assume "\<exists>p<length es. shown user s es p \<and> Compare user (ukey es p) uk = 0 \<and> v = snd (es ! p)"
    then obtain p where p: "p < length es" "shown user s es p" "Compare user (ukey es p) uk = 0" "v = snd (es ! p)" by blast
    obtain u where u: "u \<in> set us" "es ! p = up_kv u" "up_seq u \<le> kMaxSequenceNumber" using ups [OF p(1)] by blast
    note pu = parsed_up_kv [OF u(2,3)]
    have "u \<in> set (visible user us uk s)" using u(1) p(2,3) pu by (simp add: visible_def shown_def in_snapshot_def)
    then have ne: "visible user us uk s \<noteq> []" by auto
    define w where "w = last (visible user us uk s)"
    note W = last_visible [OF U ne, folded w_def]
    have le: "up_seq u \<le> up_seq w" using W(4) [OF u(1)] p(2,3) pu by (simp add: shown_def in_snapshot_def)
    have "u = w"
    proof (rule ccontr)
      assume "u \<noteq> w"
      then have "up_seq u \<noteq> up_seq w" using ups_ok_inj [OF U] u(1) W(1) by (auto dest: inj_onD)
      then have lt: "up_seq u < up_seq w" using le by simp
      have same: "Compare user (up_key w) (up_key u) = 0" using cmp_eq_trans [of "up_key w" uk "up_key u"] W(2) p(3) pu(1) cmp_eq_sym by simp
      obtain q where q: "q < length es" "es ! q = up_kv w" using entry_at [OF E W(1)] by blast
      have "internal_Compare user (fst (es ! q)) (fst (es ! p)) < 0" using newer_first [OF U W(1) u(1) same] lt q u by simp
      then have "q < p" using entry_before [OF E q(1) p(1)] by blast
      moreover have "up_seq w \<le> kMaxSequenceNumber" using U W(1) by (simp add: ups_ok_def)
      then have "in_snapshot s es q" "Compare user (ukey es q) (ukey es p) = 0"
        using parsed_up_kv [OF q(2)] W(3) same pu by (simp_all add: in_snapshot_def)
      ultimately show False using p(2) by (auto simp: shown_def)
    qed
    then show "lookup_result (visible user us uk s) = (True, Some v, None)"
      using ne p(2,4) pu(3) u(2) by (simp add: lookup_result_def shown_def w_def up_kv_def)
  next
    assume L: "lookup_result (visible user us uk s) = (True, Some v, None)"
    then have ne: "visible user us uk s \<noteq> []" by (auto simp: lookup_result_def)
    define w where "w = last (visible user us uk s)"
    note W = last_visible [OF U ne, folded w_def]
    have t: "up_type w = kTypeValue" "v = up_value w" using L ne by (auto simp: lookup_result_def w_def split: ValueType.splits)
    obtain p where p: "p < length es" "es ! p = up_kv w" using entry_at [OF E W(1)] by blast
    have "up_seq w \<le> kMaxSequenceNumber" using U W(1) by (simp add: ups_ok_def)
    note pw = parsed_up_kv [OF p(2) this]
    have "Compare user (ukey es q) (ukey es p) \<noteq> 0" if q: "q < p" "in_snapshot s es q" for q
    proof
      assume same: "Compare user (ukey es q) (ukey es p) = 0"
      obtain u where u: "u \<in> set us" "es ! q = up_kv u" "up_seq u \<le> kMaxSequenceNumber" using ups [of q] q(1) p(1) by auto
      note pu = parsed_up_kv [OF u(2,3)]
      have "Compare user (up_key u) uk = 0" using cmp_eq_trans [of "up_key u" "up_key w" uk] W(2) same pu(1) pw(1) by simp
      then have "up_seq u \<le> up_seq w" using W(4) [OF u(1)] q(2) pu(2) by (simp add: in_snapshot_def)
      moreover have "internal_Compare user (fst (es ! q)) (fst (es ! p)) < 0"
        using E sorted_wrt_nth_less [of "\<lambda>a b. internal_Compare user a b < 0" "map fst es" q p] q(1) p(1) by (simp add: entries_of_def)
      then have "up_seq w < up_seq u" using newer_first [OF U u(1) W(1)] same pu(1) pw(1) u(2) p(2) by simp
      ultimately show False by simp
    qed
    then have "shown user s es p" using W(3) t(1) pw by (auto simp: shown_def in_snapshot_def)
    then show "\<exists>p<length es. shown user s es p \<and> Compare user (ukey es p) uk = 0 \<and> v = snd (es ! p)"
      using p W(2) pw(1) t(2) by (auto simp: up_kv_def)
  qed
  moreover have "(\<exists>k. (k, v) \<in> set (user_view user s es) \<and> Compare user k uk = 0) \<longleftrightarrow>
      (\<exists>p<length es. shown user s es p \<and> Compare user (ukey es p) uk = 0 \<and> v = snd (es ! p))" unfolding view by metis
  ultimately show ?thesis by simp
qed

lemma view_sorted:
  assumes "internal_entries user es"
  shows "sorted_wrt (\<lambda>a b. Compare user a b < 0) (map fst (user_view user s es))"
proof -
  have mono: "Compare user (ukey es p) (ukey es q) \<le> 0" if "p < q" "q < length es" for p q
  proof -
    have "internal_Compare user (fst (es ! p)) (fst (es ! q)) < 0"
      using assms sorted_wrt_nth_less [of "\<lambda>a b. internal_Compare user a b < 0" "map fst es" p q] that by (simp add: internal_entries_def)
    then show ?thesis using parsed_atD(2) [OF assms] that by (auto simp: internal_less)
  qed
  have "sorted_wrt (<) (shown_list user s es)" by (simp add: shown_list_def sorted_wrt_filter)
  then have "sorted_wrt (\<lambda>p q. Compare user (ukey es p) (ukey es q) < 0) (shown_list user s es)"
  proof (rule sorted_wrt_mono_rel [rotated])
    fix p q assume "p \<in> set (shown_list user s es)" "q \<in> set (shown_list user s es)" "p < q"
    then show "Compare user (ukey es p) (ukey es q) < 0" using mono [of p q] by (auto simp: shown_list_def shown_def)
  qed
  then show ?thesis by (simp add: user_view_def sorted_wrt_map)
qed

lemma view_ok: "entries_of user us es \<Longrightarrow> ups_ok us \<Longrightarrow> view_of user us s (user_view user s es)"
  using view_sorted [OF entries_internal] view_lookup unfolding view_of_def by blast

end

end
