(* ===== verification/Ldb_Db_Spec.thy ===== *)
theory Ldb_Db_Spec
  imports Ldb_Db_View
begin

text \<open>
  Iterators of the database as \<^verbatim>\<open>DBImpl::NewIterator\<close> puts them together, and what they show: the values that lookups find.
\<close>

section \<open>NewInternalIterator\<close>

text \<open>The children: iterators of memory tables, and objects for the files of the current version.\<close>

type_synonym ('i, 's) db_child = "mem_iter + ('i, 's) iter_obj"

definition child_ops :: "comparator \<Rightarrow> (('i, 's) db_child \<times> 's) iter_ops" where
  "child_ops user = sum_ops (lift_ops (mem_ops user)) obj_ops"

definition NewInternalIterator ::
  "comparator \<Rightarrow> 's \<Rightarrow> memtable \<Rightarrow> memtable option \<Rightarrow> ('i, 's) iter_obj list \<Rightarrow> ('i, 's) db_child merged_iter" where
  "NewInternalIterator user st memt imm files =
     NewMergingIterator (child_ops user) st
       (Inl (mem_NewIterator memt) # (case imm of Some m \<Rightarrow> [Inl (mem_NewIterator m)] | None \<Rightarrow> []) @ map Inr files)"

definition internal_ops :: "comparator \<Rightarrow> (('i, 's) db_child merged_iter \<times> 's) iter_ops" where
  "internal_ops user = merged_ops (child_ops user) (InternalKeyComparator user)"

text \<open>The iterator, and the next seed.\<close>

definition db_NewIterator ::
  "comparator \<Rightarrow> 's \<Rightarrow> memtable \<Rightarrow> memtable option \<Rightarrow> ('i, 's) iter_obj list \<Rightarrow> SequenceNumber \<Rightarrow> u32 \<Rightarrow> SequenceNumber option \<Rightarrow>
     (('i, 's) db_child merged_iter \<times> 's) dbiter \<times> u32" where
  "db_NewIterator user st memt imm files last_sequence seed snapshot =
     (let seed1 = seed + 1
      in (DBIter (NewInternalIterator user st memt imm files, st) (case snapshot of Some s \<Rightarrow> s | None \<Rightarrow> last_sequence) seed1, seed1))"

section \<open>The merged entries\<close>

lemma key_order_weaken: "key_order cmp ok \<Longrightarrow> (\<And>k. ok' k \<Longrightarrow> ok k) \<Longrightarrow> key_order cmp ok'"
  by (rule key_order.intro) (rule key_order.cmp_self key_order.cmp_swap key_order.cmp_trans, assumption; simp)+

lemma set_concat_nth: "set (concat xss) = (\<Union>i<length xss. set (xss ! i))"
proof -
  have "set xss = (\<lambda>i. xss ! i) ` {..<length xss}" by (auto simp: in_set_conv_nth)
  then show ?thesis by simp
qed

lemma set_with_child: "fst ` set (with_child kss) = set (concat kss)"
proof -
  have "fst ` set (with_child kss) = (\<Union>i<length kss. set (kss ! i))" by (simp add: with_child_def image_UN image_image atLeast0LessThan)
  then show ?thesis unfolding set_concat_nth .
qed

lemma concat_index_distinct:
  assumes "distinct (map f (concat xss))" "i < j" "j < length xss" "x \<in> set (xss ! i)" "y \<in> set (xss ! j)"
  shows "f x \<noteq> f y"
proof -
  have "concat xss = concat (take j xss) @ xss ! j @ concat (drop (Suc j) xss)"
    by (subst id_take_nth_drop [OF assms(3)]) (simp only: concat_append concat.simps)
  moreover have "x \<in> set (concat (take j xss))" using assms(2-4) by (auto simp: in_set_conv_nth intro!: bexI exI)
  moreover from calculation(1) have "f ` set (concat (take j xss)) \<inter> f ` set (xss ! j) = {}"
    using assms(1) by (simp del: set_concat add: Int_Un_distrib)
  ultimately show ?thesis using assms(5) by (metis IntI empty_iff imageI)
qed

lemma list_all2_choose: "list_all2 (\<lambda>x y. \<exists>z. P y z \<and> Q x z) xs ys \<Longrightarrow> \<exists>zs. list_all2 P ys zs \<and> list_all2 Q xs zs"
proof (induction rule: list_all2_induct)
  case (Cons x xs y ys)
  then obtain z zs where "list_all2 P (y # ys) (z # zs)" "list_all2 Q (x # xs) (z # zs)" by auto
  then show ?case by blast
qed simp

context db_iterator
begin

lemma db_runs:
  assumes "internal_entries user es" "pos_at es it i" "s \<le> kMaxSequenceNumber" "\<forall>t. Op_Seek t \<in> set ms \<longrightarrow> uok t"
    and "list_run user (map fst (user_view user s es)) ms (length (user_view user s es)) = Some p"
  shows "\<exists>x. iter_run (db_ops ops user) ms (DBIter it s seed) = Some x \<and> iter_shows (db_ops ops user) x (user_view user s es) p"
  using db.run_at [OF db_new [OF assms(1-3)] assms(4,5)] db.at_shows by blast

end

context user_comparator
begin

lemma mem_block_order: "block_order (InternalKeyComparator user) mem_key_ok"
  unfolding block_order_def by (rule key_order_weaken [OF internal_block.key_order_axioms]) simp

lemma up_kv_ok: "fits (up_key u) (up_value u) \<Longrightarrow> mem_key_ok (fst (up_kv u))"
  by (simp add: up_kv_def fits_def)

lemma up_kv_neq:
  assumes "ups_ok us" "u \<in> set us" "w \<in> set us" "up_seq u \<noteq> up_seq w"
  shows "internal_Compare user (fst (up_kv u)) (fst (up_kv w)) \<noteq> 0"
  using entry_neq [OF assms] assms(1-3) entry_compare [of u w] by (auto simp: up_kv_def ups_ok_def)

lemma merged_entries:
  assumes U: "ups_ok us" "set us = set (concat uss)" "distinct (map up_seq (concat uss))" and E: "list_all2 (entries_of user) uss kss"
  shows "mergeable (InternalKeyComparator user) mem_key_ok kss"
    and "entries_of user us (map fst (merge_lists (InternalKeyComparator user) kss))"
proof -
  let ?c = "InternalKeyComparator user"
  have l: "length uss = length kss" using E by (rule list_all2_lengthD)
  have e: "set (kss ! i) = up_kv ` set (uss ! i)" "sorted_wrt (\<lambda>a b. internal_Compare user a b < 0) (map fst (kss ! i))" "set (uss ! i) \<subseteq> set us"
    if "i < length kss" for i
    using list_all2_nthD2 [OF E that] nth_mem [of i uss] that l U(2) by (auto simp: entries_of_def)
  show M: "mergeable ?c mem_key_ok kss" unfolding mergeable_def
  proof (intro conjI ballI)
    fix kvs assume "kvs \<in> set kss"
    then obtain i where i: "i < length kss" "kvs = kss ! i" by (auto simp: in_set_conv_nth)
    then show "sorted_wrt (\<lambda>a b. Compare ?c a b < 0) (map fst kvs)" using e(2) by simp
    fix kv assume "kv \<in> set kvs"
    then obtain u where "u \<in> set us" "kv = up_kv u" using e(1,3) i by blast
    then show "8 \<le> length (fst kv)" "length (fst kv) < 2 ^ 32" using up_kv_ok [of u] U(1) by (auto simp: ups_ok_def)
  next
    show "sorted_wrt (\<lambda>kvs kvs'. \<forall>kv\<in>set kvs. \<forall>kv'\<in>set kvs'. Compare ?c (fst kv) (fst kv') \<noteq> 0) kss"
      unfolding sorted_wrt_iff_nth_less
    proof (intro allI impI ballI)
      fix i j kv kv' assume ij: "i < j" "j < length kss" and kv: "kv \<in> set (kss ! i)" "kv' \<in> set (kss ! j)"
      then obtain u w where u: "u \<in> set (uss ! i)" "kv = up_kv u" and w: "w \<in> set (uss ! j)" "kv' = up_kv w" using e(1) by fastforce
      have "up_seq u \<noteq> up_seq w" by (rule concat_index_distinct [OF U(3) ij(1) _ u(1) w(1)]) (use ij l in simp)
      moreover have "u \<in> set us" "w \<in> set us" using e(3) ij u w by (meson less_trans subsetD)+
      ultimately show "Compare ?c (fst kv) (fst kv') \<noteq> 0" using up_kv_neq [OF U(1), of u w] u w by simp
    qed
  qed
  have "set (concat kss) = up_kv ` set (concat uss)"
    using e(1) l unfolding set_concat_nth by (simp add: image_UN)
  then have "set (map fst (merge_lists ?c kss)) = up_kv ` set us"
    using set_with_child [of kss] U(2) by (simp add: merge_lists_def set_merge_lists)
  moreover have "sorted_wrt (\<lambda>a b. internal_Compare user a b < 0) (map fst (map fst (merge_lists ?c kss)))"
    using block_order.merge_lists_merge [OF mem_block_order M] by (simp add: merge_of_def)
  ultimately show "entries_of user us (map fst (merge_lists ?c kss))" by (simp add: entries_of_def)
qed

lemma child_iterator:
  "list_iterator (child_ops user) (InternalKeyComparator user) mem_key_ok (with_state s_ok (sum_at mem_at (obj_at (InternalKeyComparator user) mem_key_ok s_ok)))"
  unfolding child_ops_def by (rule sum_iterator [OF lift_iterator [OF mem_list.list_iterator_axioms] objects.list_iterator_axioms])

lemma mem_child:
  assumes "table_holds m us" "ups_ok us"
  obtains kvs where "entries_of user us kvs" "sum_at mem_at q kvs (Inl (mem_NewIterator m)) (length kvs)"
  using mem_entries [OF assms] that by (auto simp: entries_of_def sum_at_def)

lemma file_child:
  assumes "iterates (InternalKeyComparator user) (\<lambda>k. 8 \<le> length k) s_ok f i kvs"
  shows "sum_at p (obj_at (InternalKeyComparator user) mem_key_ok s_ok) kvs (Inr (f, i)) (length kvs)"
proof -
  obtain P where P: "list_iterator f (InternalKeyComparator user) (\<lambda>k. 8 \<le> length k) (with_state s_ok P)" "P kvs i (length kvs)"
    using assms by (auto simp: iterates_def)
  have "list_iterator f (InternalKeyComparator user) mem_key_ok (with_state s_ok P)" by (rule list_iterator_weaken [OF P(1)]) simp
  then show ?thesis using P(2) by (auto simp: sum_at_def obj_at_def)
qed

lemma db_shows:
  fixes st :: 's and its :: "('i, 's) db_child list"
  assumes C: "list_all2 (\<lambda>it us. \<exists>kvs. entries_of user us kvs \<and>
      sum_at mem_at (obj_at (InternalKeyComparator user) mem_key_ok s_ok) kvs it (length kvs)) its uss"
    and U: "ups_ok us" "set us = set (concat uss)" "distinct (map up_seq (concat uss))" and s: "s_ok st" "s \<le> kMaxSequenceNumber"
  shows "\<exists>view. view_of user us s view \<and>
    (\<forall>ms p. (\<forall>t. Op_Seek t \<in> set ms \<longrightarrow> length t + 8 < 2 ^ 32) \<longrightarrow> list_run user (map fst view) ms (length view) = Some p \<longrightarrow>
      (\<exists>it. iter_run (db_ops (internal_ops user) user) ms (DBIter (NewMergingIterator (child_ops user) st its, st) s seed) = Some it \<and>
         iter_shows (db_ops (internal_ops user) user) it view p))"
proof -
  let ?P = "sum_at mem_at (obj_at (InternalKeyComparator user) mem_key_ok s_ok)"
  let ?it = "NewMergingIterator (child_ops user) st its" and ?ops = "internal_ops user :: (('i, 's) db_child merged_iter \<times> 's) iter_ops"
  obtain kss where E: "list_all2 (entries_of user) uss kss" and K: "list_all2 (\<lambda>it kvs. ?P kvs it (length kvs)) its kss"
    using list_all2_choose [OF C] by blast
  let ?es = "map fst (merge_lists (InternalKeyComparator user) kss)"
  note m = merged_entries [OF U E]
  from merged_iterates [OF mem_block_order child_iterator m(1) s(1) K] obtain Q where
    Q: "list_iterator ?ops (InternalKeyComparator user) mem_key_ok (with_state s_ok Q)" "Q ?es ?it (length ?es)"
    unfolding iterates_def internal_ops_def by blast
  have D: "db_iterator user ?ops mem_key_ok (with_state s_ok Q) (\<lambda>t. length t + 8 < 2 ^ 32)"
    using user_comparator_axioms Q(1) by (auto simp: db_iterator_def db_iterator_axioms_def)
  have "with_state s_ok Q ?es (?it, st) (length ?es)" using Q(2) s(1) by (simp add: with_state_def)
  note run = db_iterator.db_runs [OF D entries_internal [OF m(2) U(1)] this s(2)]
  show ?thesis by (rule exI, intro conjI allI impI, rule view_ok [OF m(2) U(1)], erule (1) run)
qed

end

section \<open>Properties\<close>

text \<open>A memory table that was built from updates, and an iterator over a file that holds updates.\<close>

definition mem_built :: "comparator \<Rightarrow> memtable \<Rightarrow> update list \<Rightarrow> bool" where
  "mem_built user m us \<longleftrightarrow> ups_ok us \<and> mem_Add_all user MemTable us = Some m"

definition file_holds :: "comparator \<Rightarrow> ('s \<Rightarrow> bool) \<Rightarrow> ('i, 's) iter_obj \<Rightarrow> update list \<Rightarrow> bool" where
  "file_holds user s_ok x us \<longleftrightarrow>
     (\<exists>es. entries_of user us es \<and> iterates (InternalKeyComparator user) (\<lambda>k. 8 \<le> length k) s_ok (fst x) (snd x) es)"

lemma mem_built_child:
  assumes "user_comparator user" "mem_built user m us"
  shows "\<exists>kvs. entries_of user us kvs \<and> sum_at (user_comparator.mem_at user) q kvs (Inl (mem_NewIterator m)) (length kvs)"
proof -
  have us: "ups_ok us" "mem_Add_all user MemTable us = Some m" using assms(2) by (simp_all add: mem_built_def)
  from user_comparator.table_holds_Add_all [OF assms(1) user_comparator.table_holds_empty [OF assms(1)], of us] us
  have "user_comparator.table_holds user m us" by auto
  from user_comparator.mem_child [OF assms(1) this us(1)] show ?thesis by blast
qed

text \<open>
  C19: the iterator of the database shows what lookups find. The memory table, the memory table that is being written out, if there is one, and
  the files hold updates with different sequence numbers; the iterators over files share a state, the block cache, and fulfil the
  contract of iterators. Then the view at the snapshot has, in the order of the keys, exactly the keys for which the newest update
  that is not newer than the snapshot is a value, with this value, which is what \<^verbatim>\<open>Get\<close> finds. After any sequence
  of seeks and steps in both directions, the iterator has no error and shows the entry of the view at which a position in this list
  would be.
\<close>
theorem database_iterator:
  assumes "user_comparator user" "mem_built user memt mus" "case imm of None \<Rightarrow> ius = [] | Some m \<Rightarrow> mem_built user m ius"
    and "list_all2 (file_holds user s_ok) files fus" "s_ok st"
    and "ups_ok us" "set us = set (mus @ ius @ concat fus)" "distinct (map up_seq (mus @ ius @ concat fus))"
    and "s = (case snapshot of Some n \<Rightarrow> n | None \<Rightarrow> last_sequence)" "s \<le> kMaxSequenceNumber"
    and "db_NewIterator user st memt imm files last_sequence seed snapshot = (it, seed1)"
  shows "\<exists>view. view_of user us s view \<and>
    (\<forall>ms p. (\<forall>t. Op_Seek t \<in> set ms \<longrightarrow> length t + 8 < 2 ^ 32) \<longrightarrow> list_run user (map fst view) ms (length view) = Some p \<longrightarrow>
      (\<exists>it1. iter_run (db_ops (internal_ops user) user) ms it = Some it1 \<and> iter_shows (db_ops (internal_ops user) user) it1 view p))"
proof -
  let ?imm = "case imm of Some m \<Rightarrow> [Inl (mem_NewIterator m)] | None \<Rightarrow> []"
  let ?its = "Inl (mem_NewIterator memt) # ?imm @ map Inr files"
  let ?uss = "mus # (if imm = None then [] else [ius]) @ fus"
  let ?q = "obj_at (InternalKeyComparator user) mem_key_ok s_ok"
  let ?C = "\<lambda>it us. \<exists>kvs. entries_of user us kvs \<and> sum_at (user_comparator.mem_at user) ?q kvs it (length kvs)"
  have "?C (Inl (mem_NewIterator memt)) mus" by (rule mem_built_child [OF assms(1,2)])
  moreover have "list_all2 ?C ?imm (if imm = None then [] else [ius])"
    using assms(3) mem_built_child [OF assms(1), of _ ius ?q] by (cases imm) auto
  moreover have "list_all2 ?C (map Inr files) fus"
    unfolding list.rel_map using user_comparator.file_child [OF assms(1)]
    by (intro list_all2_mono [OF assms(4)]) (force simp: file_holds_def)
  ultimately have C: "list_all2 ?C ?its ?uss" by (intro list.rel_intros(2) list_all2_appendI)
  have u: "concat ?uss = mus @ ius @ concat fus" using assms(3) by (cases imm) simp_all
  note view = user_comparator.db_shows [OF assms(1) C assms(6) _ _ assms(5,10), unfolded u, OF assms(7,8), of seed1]
  have "it = DBIter (NewMergingIterator (child_ops user) st ?its, st) s seed1"
    using assms(9,11) by (auto simp: db_NewIterator_def NewInternalIterator_def Let_def)
  then show ?thesis using view by (simp only:)
qed

text \<open>A view of two keys is determined by the lookups.\<close>

lemma slice_compare_eq: "slice_compare a b = 0 \<longleftrightarrow> a = b"
  using slice_compare_lex by blast

lemma two_sorted:
  assumes "sorted_wrt (\<lambda>a b. Compare BytewiseComparator a b < 0) (map fst kvs)" "set kvs = {a, b}" "Compare BytewiseComparator (fst a) (fst b) < 0"
  shows "kvs = [a, b]"
proof -
  have n: "\<not> Compare BytewiseComparator x x < 0" for x using bytewise.cmp_self [of x] by simp
  have n2: "\<not> Compare BytewiseComparator (fst b) (fst a) < 0" using assms(3) bytewise.cmp_swap [of "fst b" "fst a"] by simp
  obtain x xs where k: "kvs = x # xs" using assms(2) by (cases kvs) auto
  show ?thesis
  proof (cases xs)
    case Nil then show ?thesis using assms(2,3) n k by auto
  next
    case (Cons y ys)
    have "x \<in> {a, b}" "y \<in> {a, b}" "set ys \<subseteq> {a, b}" using assms(2) k Cons by auto
    then show ?thesis using assms(1) n n2 k Cons by (cases ys) auto
  qed
qed

lemma sample_file_object:
  fixes kv :: "slice \<times> slice"
  defines "kv \<equiv> (InternalKey [97] 7 kTypeValue, [1])"
  obtains f i cache1 s_ok where "file_holds BytewiseComparator s_ok ((f :: ((block_iterator, block_iterator) two_level \<times> _) iter_ops), i) [(7, kTypeValue, [97], [1])]"
    "s_ok (cache1 :: (block sharded_cache) option)"
proof -
  let ?c = "InternalKeyComparator BytewiseComparator" and ?p = "InternalFilterPolicy (BloomFilterPolicy 10)"
  let ?o = "sample_options ?c (Some ?p)"
  obtain n w where w: "write_table ?o (Inl 0) sample_sync sample_file [kv] = (OK, n, w)"
    using write_table_fine [OF sample_file_fine(1,2), of sample_sync ?o "Inl 0" "[kv]"] by auto
  obtain bs where bs: "concat bs = [kv]" "[] \<notin> set bs" "k_bytes (w_fd w) = table_bytes ?o bs"
    by (rule write_table_bytes [OF sample_file_fine(3,4) w]) (rule that)
  have small: "length (k_bytes (w_fd w)) < 2 ^ 32" unfolding bs(3) by (rule sample_filter_small [OF bs(1,2)]) (simp add: kv_def)
  then have read: "random_file (mmap_Read (\<lambda>e. []) [] (k_bytes (w_fd w))) (k_bytes (w_fd w))" by (intro mmap_random_file) simp
  have fit: "entries_fit ?c (\<lambda>k. 8 \<le> length k) [kv]" by (simp add: entries_fit_def kv_def)
  have sel: "opt_comparator ?o = ?c" "1 \<le> block_restart_interval ?o" by (simp_all add: sample_options_def)
  obtain bs1 cid cache1 where o: "concat bs1 = [kv]" "file_ok ?c (\<lambda>k. 8 \<le> length k) ?o bs1 (mmap_Read (\<lambda>e. []) [] (k_bytes (w_fd w)))"
    "cache_holds block_cache_inv (cached_ok cid (block_restart_interval ?o) bs1) cache1"
    by (rule written_opens [OF sample_file_fine(3,4) w sel fit read small lru_blocks.block_cache_axioms sample_fresh]) (rule that)
  note it = table_order.table_iterates [OF bytewise.internal_table.table_order_axioms o(2) lru_blocks.block_cache_axioms bytewise.internal_table.file_caches_own [OF o(2), of cid], of sample_read]
  have "entries_of BytewiseComparator [(7, kTypeValue, [97], [1])] [kv]" by (simp add: entries_of_def kv_def up_kv_def)
  then have "file_holds BytewiseComparator (cache_holds block_cache_inv (cached_ok cid (block_restart_interval ?o) bs1))
      (tl_ops (table_env lru_block_cache (table_of ?o bs1 (mmap_Read (\<lambda>e. []) [] (k_bytes (w_fd w))) cid) sample_read),
       table_NewIterator lru_block_cache (table_of ?o bs1 (mmap_Read (\<lambda>e. []) [] (k_bytes (w_fd w))) cid) sample_read) [(7, kTypeValue, [97], [1])]"
    using it o(1) by (auto simp: file_holds_def)
  then show thesis by (rule that) (rule o(3))
qed

theorem database_iterator_witness:
  "\<exists>m1 m2 files st it seed1 it1.
     mem_Add_all BytewiseComparator MemTable [(9, kTypeDeletion, [97], [])] = Some m1 \<and>
     mem_Add_all BytewiseComparator MemTable [(8, kTypeValue, [98], [2])] = Some m2 \<and>
     db_NewIterator BytewiseComparator st m1 (Some m2) (files :: ((block_iterator, block_iterator) two_level, (block sharded_cache) option) iter_obj list) 9 0 (Some 8) = (it, seed1) \<and>
     iter_run (db_ops (internal_ops BytewiseComparator) BytewiseComparator) [Op_Last, Op_Prev] it = Some it1 \<and>
     it_key (db_ops (internal_ops BytewiseComparator) BytewiseComparator) it1 = [97] \<and>
     it_value (db_ops (internal_ops BytewiseComparator) BytewiseComparator) it1 = Some [1]"
proof -
  let ?c = BytewiseComparator and ?u1 = "[(9, kTypeDeletion, [97], [])] :: update list" and ?u2 = "[(8, kTypeValue, [98], [2])] :: update list"
  let ?u3 = "[(7, kTypeValue, [97], [1])] :: update list"
  let ?us = "?u3 @ ?u2 @ ?u1"
  obtain f i cache1 s_ok where f: "file_holds ?c s_ok ((f :: ((block_iterator, block_iterator) two_level \<times> _) iter_ops), i) ?u3"
    "s_ok (cache1 :: (block sharded_cache) option)" by (rule sample_file_object)
  have ok: "ups_ok ?u1" "ups_ok ?u2" "ups_ok ?us" by (simp_all add: ups_ok_def fits_def kMaxSequenceNumber_def)
  obtain m1 m2 where m: "mem_Add_all ?c MemTable ?u1 = Some m1" "mem_Add_all ?c MemTable ?u2 = Some m2"
    using bytewise.table_holds_Add_all [OF bytewise.table_holds_empty, of ?u1] bytewise.table_holds_Add_all [OF bytewise.table_holds_empty, of ?u2] ok(1,2)
    by auto
  obtain it seed1 where it: "db_NewIterator ?c cache1 m1 (Some m2) [(f, i)] 9 0 (Some 8) = (it, seed1)" by fastforce
  have hyps: "mem_built ?c m1 ?u1" "case Some m2 of None \<Rightarrow> ?u2 = [] | Some m \<Rightarrow> mem_built ?c m ?u2" "list_all2 (file_holds ?c s_ok) [(f, i)] [?u3]"
    "set ?us = set (?u1 @ ?u2 @ concat [?u3])" "distinct (map up_seq (?u1 @ ?u2 @ concat [?u3]))"
    "8 = (case Some 8 of Some n \<Rightarrow> n | None \<Rightarrow> (9 :: SequenceNumber))" "(8 :: SequenceNumber) \<le> kMaxSequenceNumber"
    using m ok f(1) by (auto simp: mem_built_def kMaxSequenceNumber_def)
  from database_iterator [OF bytewise.user_comparator_axioms hyps(1-3) f(2) ok(3) hyps(4-7) it] obtain view where
    v: "view_of ?c ?us 8 view" and run: "\<forall>ms p. (\<forall>t. Op_Seek t \<in> set ms \<longrightarrow> length t + 8 < 2 ^ 32) \<longrightarrow> list_run ?c (map fst view) ms (length view) = Some p \<longrightarrow>
      (\<exists>it1. iter_run (db_ops (internal_ops ?c) ?c) ms it = Some it1 \<and> iter_shows (db_ops (internal_ops ?c) ?c) it1 view p)" by blast
  have "(k, w) \<in> set view \<longleftrightarrow> (k, w) \<in> {([97], [1]), ([98], [2])}" for k w
  proof -
    have "(k, w) \<in> set view \<longleftrightarrow> lookup_result (visible ?c ?us k 8) = (True, Some w, None)"
      using v by (auto simp: view_of_def slice_compare_eq)
    also have "\<dots> \<longleftrightarrow> (k, w) \<in> {([97], [1]), ([98], [2])}" by (auto simp: visible_def lookup_result_def slice_compare_eq)
    finally show ?thesis .
  qed
  then have "set view = {([97], [1]), ([98], [2])}" by (intro set_eqI) (metis prod.collapse)
  moreover have "Compare ?c (fst ([97], [1])) (fst ([98], [2])) < 0" by code_simp
  moreover have "sorted_wrt (\<lambda>a b. Compare ?c a b < 0) (map fst view)" using v by (simp only: view_of_def)
  ultimately have "view = [([97], [1]), ([98], [2])]" by (intro two_sorted)
  then have r: "list_run ?c (map fst view) [Op_Last, Op_Prev] (length view) = Some 0" and h: "view ! 0 = ([97], [1])" "0 < length view" by simp_all
  have "\<forall>t. Op_Seek t \<in> set [Op_Last, Op_Prev] \<longrightarrow> length t + 8 < 2 ^ 32" by simp
  with run r obtain it1 where it1: "iter_run (db_ops (internal_ops ?c) ?c) [Op_Last, Op_Prev] it = Some it1"
    "iter_shows (db_ops (internal_ops ?c) ?c) it1 view 0" by blast
  then have "it_key (db_ops (internal_ops ?c) ?c) it1 = [97]" "it_value (db_ops (internal_ops ?c) ?c) it1 = Some [1]"
    using h by (simp_all only: iter_shows_def if_True fst_conv snd_conv)
  with it1(1) m it show ?thesis by blast
qed

text \<open>
  C20: the merging iterator merges. Its children are iterators, of any classes, over strictly increasing lists without
  a common key, and may change a state that they share. After any sequence of seeks and steps in both directions, also where the direction changes, the
  merging iterator has no error and shows the entry at which a position in the merged list would be; with no child and with one, when
  there is no merging iterator, this holds too.
\<close>
theorem merging_iterator_merges:
  assumes "block_order c ok" "mergeable c ok kss" "s_ok s" "list_all2 (\<lambda>x kvs. iterates c ok s_ok (fst x) (snd x) kvs) its kss"
    and "\<forall>t. Op_Seek t \<in> set ms \<longrightarrow> ok t" "kvs = map fst (merge_lists c kss)" "list_run c (map fst kvs) ms (length kvs) = Some p"
  shows "\<exists>it. iter_run (merged_ops obj_ops c) ms (NewMergingIterator obj_ops s its, s) = Some it \<and> iter_shows (merged_ops obj_ops c) it kvs p"
proof -
  have "list_all2 (\<lambda>x kvs. obj_at c ok s_ok kvs x (length kvs)) its kss"
    by (rule list_all2_mono [OF assms(4)]) (simp add: iterates_def obj_at_def)
  from merged_iterates [OF assms(1) objects.list_iterator_axioms assms(2,3) this, folded assms(6)] show ?thesis
    by (rule iterates_run) (fact assms)+
qed

lemma sample_mem_object:
  assumes "ups_ok [u]" "mem_Add_all BytewiseComparator MemTable [u] = Some m"
  shows "iterates (InternalKeyComparator BytewiseComparator) mem_key_ok (\<lambda>_ :: unit. True) (lift_ops (mem_ops BytewiseComparator)) (mem_NewIterator m) [up_kv u]"
proof -
  have "bytewise.table_holds m [u]" using bytewise.table_holds_Add_all [OF bytewise.table_holds_empty, of "[u]"] assms by auto
  then obtain kvs where k: "bytewise.mem_at kvs (mem_NewIterator m) (length kvs)" "set kvs = up_kv ` set [u]"
    "sorted_wrt (\<lambda>a b. internal_Compare BytewiseComparator a b < 0) (map fst kvs)"
    by (rule bytewise.mem_entries [OF _ assms(1)]) (rule that)
  have n: "\<not> internal_Compare BytewiseComparator x x < 0" for x using bytewise.cmp_self [of "ExtractUserKey x"] by (simp add: bytewise.internal_less del: Compare_bytewise)
  have "kvs = [up_kv u]"
  proof (cases kvs)
    case (Cons x xs)
    then have "x = up_kv u" "xs = []" using k(2,3) n by (cases xs; auto)+
    then show ?thesis using Cons by simp
  qed (use k(2) in simp)
  with k(1) have "bytewise.mem_at [up_kv u] (mem_NewIterator m) (length [up_kv u])" by simp
  then show ?thesis using lift_iterator [OF bytewise.mem_list.list_iterator_axioms] unfolding iterates_def by blast
qed

theorem merging_iterator_merges_witness:
  "\<exists>m1 m2 it. mem_Add_all BytewiseComparator MemTable [(9, kTypeDeletion, [97], [])] = Some m1 \<and>
     mem_Add_all BytewiseComparator MemTable [(8, kTypeValue, [98], [2])] = Some m2 \<and>
     iter_run (merged_ops obj_ops (InternalKeyComparator BytewiseComparator)) [Op_Last, Op_Prev, Op_Next]
       (NewMergingIterator obj_ops () [(lift_ops (mem_ops BytewiseComparator), mem_NewIterator m1), (lift_ops (mem_ops BytewiseComparator), mem_NewIterator m2)], ()) = Some it \<and>
     it_key (merged_ops obj_ops (InternalKeyComparator BytewiseComparator)) it = InternalKey [98] 8 kTypeValue"
proof -
  let ?u1 = "(9, kTypeDeletion, [97], []) :: update" and ?u2 = "(8, kTypeValue, [98], [2]) :: update" and ?c = "InternalKeyComparator BytewiseComparator"
  have ok: "ups_ok [?u1]" "ups_ok [?u2]" by (simp_all add: ups_ok_def fits_def kMaxSequenceNumber_def)
  obtain m1 m2 where m: "mem_Add_all BytewiseComparator MemTable [?u1] = Some m1" "mem_Add_all BytewiseComparator MemTable [?u2] = Some m2"
    using bytewise.table_holds_Add_all [OF bytewise.table_holds_empty, of "[?u1]"] bytewise.table_holds_Add_all [OF bytewise.table_holds_empty, of "[?u2]"] ok
    by auto
  let ?its = "[(lift_ops (mem_ops BytewiseComparator), mem_NewIterator m1), (lift_ops (mem_ops BytewiseComparator), mem_NewIterator m2)]"
  let ?kss = "[[up_kv ?u1], [up_kv ?u2]]" and ?kvs = "[up_kv ?u1, up_kv ?u2]"
  have lt: "Compare ?c (fst (up_kv ?u1)) (fst (up_kv ?u2)) < 0" by code_simp
  have M: "mergeable ?c mem_key_ok ?kss" using lt by (simp add: mergeable_def up_kv_def)
  have K: "?kvs = map fst (merge_lists ?c ?kss)" using lt by (simp add: merge_lists_def with_child_def)
  have I: "list_all2 (\<lambda>x kvs. iterates ?c mem_key_ok (\<lambda>_ :: unit. True) (fst x) (snd x) kvs) ?its ?kss"
    using sample_mem_object [OF ok(1) m(1)] sample_mem_object [OF ok(2) m(2)] by simp
  have S: "\<forall>t. Op_Seek t \<in> set [Op_Last, Op_Prev, Op_Next] \<longrightarrow> mem_key_ok t" by simp
  have r: "list_run ?c (map fst ?kvs) [Op_Last, Op_Prev, Op_Next] (length ?kvs) = Some 1" by simp
  from merging_iterator_merges [OF bytewise.mem_block_order M TrueI I S K r] obtain it where
    it: "iter_run (merged_ops obj_ops ?c) [Op_Last, Op_Prev, Op_Next] (NewMergingIterator obj_ops () ?its, ()) = Some it"
    "iter_shows (merged_ops obj_ops ?c) it ?kvs 1" by blast
  then have "it_key (merged_ops obj_ops ?c) it = InternalKey [98] 8 kTypeValue" by (simp add: iter_shows_def up_kv_def)
  with it(1) m show ?thesis by blast
qed

end
